(* ===== verification/Prelude.thy ===== *)
theory Prelude
  imports Main "HOL-Library.Word"
begin

text \<open>
  Shared vocabulary of the development.

  \<^item> names for the C integer types (\<open>kernel/types.h\<close>): unsigned types are
    words of their width; a C \<open>int\<close> whose overflow or conversion matters is a
    \<open>32 word\<close> read by \<open>sint\<close>, any other \<open>int\<close> is a HOL \<open>int\<close>;
  \<^item> \<open>'a res\<close>, the result of a kernel operation: \<open>Ok\<close> of a value, or the
    reason why control does not come back (a panic, behaviour C leaves undefined, a wait that
    only another process or hart can end);
  \<^item> \<open>bnd\<close>, the sequencing of such operations, and the rules the component
    proofs use to take a sequence apart;
  \<^item> generic facts on words, lists and bounded loops.
\<close>

unbundle bit_operations_syntax

type_synonym u8 = "8 word"
type_synonym u16 = "16 word"
type_synonym u32 = "32 word"
type_synonym u64 = "64 word"
type_synonym i32 = "32 word"

text \<open>The collections that carry the component proofs.\<close>

named_theorems res_simps \<open>simplification of sequenced results\<close>
named_theorems mem_simps \<open>reads over writes of machine memory\<close>
named_theorems page_simps \<open>page rounding, page-table entries and page numbers\<close>

subsection \<open>Results of kernel operations\<close>

datatype fault =
    Panic string     \<comment> \<open>the kernel called \<open>panic\<close> with this message\<close>
  | Undef string     \<comment> \<open>C leaves the behaviour undefined from here on\<close>
  | Waits string     \<comment> \<open>spins or sleeps until another agent acts\<close>

datatype 'a res = Ok 'a | Err fault

definition bnd :: "'a res \<Rightarrow> ('a \<Rightarrow> 'b res) \<Rightarrow> 'b res" where
  "bnd r f = (case r of Ok x \<Rightarrow> f x | Err e \<Rightarrow> Err e)"

lemma bnd_Ok [simp]: "bnd (Ok x) f = f x"
  by (simp add: bnd_def)

lemma bnd_Err [simp]: "bnd (Err e) f = Err e"
  by (simp add: bnd_def)

lemma bnd_eq_Ok [res_simps]: "bnd r f = Ok y \<longleftrightarrow> (\<exists>x. r = Ok x \<and> f x = Ok y)"
  by (cases r) auto

lemma bnd_eq_Err [res_simps]: "bnd r f = Err e \<longleftrightarrow> r = Err e \<or> (\<exists>x. r = Ok x \<and> f x = Err e)"
  by (cases r) auto

lemma bnd_assoc: "bnd (bnd r f) g = bnd r (\<lambda>x. bnd (f x) g)"
  by (cases r) auto

lemma bnd_cong [fundef_cong]: "r = r' \<Longrightarrow> (\<And>x. r' = Ok x \<Longrightarrow> f x = f' x) \<Longrightarrow> bnd r f = bnd r' f'"
  by (cases r') auto

lemma bndE:
  assumes "bnd r f = Ok y"
  obtains x where "r = Ok x" "f x = Ok y"
  using assms by (auto simp: res_simps)

definition is_Ok :: "'a res \<Rightarrow> bool" where
  "is_Ok r \<longleftrightarrow> (\<exists>x. r = Ok x)"

lemma is_Ok_Ok [simp]: "is_Ok (Ok x)"
  by (simp add: is_Ok_def)

lemma is_Ok_Err [simp]: "\<not> is_Ok (Err e)"
  by (simp add: is_Ok_def)

lemma is_Ok_code [code]: "is_Ok r = (case r of Ok _ \<Rightarrow> True | Err _ \<Rightarrow> False)"
  by (cases r) auto

subsection \<open>Words\<close>

lemma unat_less_64: "unat (x :: u64) < 18446744073709551616"
  using unsigned_less [of x, where ?'a = nat] by simp

lemma unat_add_64:
  "unat (a :: u64) + k < 2 ^ 64 \<Longrightarrow> unat (a + of_nat k) = unat a + k"
  by (simp add: unat_word_ariths unat_of_nat take_bit_eq_mod)

lemma word_diff_of_nat: "(a + of_nat i) - a = (of_nat i :: 'a::len word)"
  by simp

lemma unat_diff_add_of_nat:
  "i < 2 ^ 64 \<Longrightarrow> unat ((a + of_nat i) - (a :: u64)) = i"
  by (simp add: unat_of_nat take_bit_nat_eq_self)

lemma of_nat_unat_diff: "a + of_nat (unat (x - a)) = (x :: 'a::len word)"
  by simp

lemma less_word_diff: "unat (x - a) < n \<Longrightarrow> \<exists>i<n. x = (a :: 'a::len word) + of_nat i"
  by (rule exI [of _ "unat (x - a)"]) simp

lemma sint_small: "m < 2 ^ 31 \<Longrightarrow> sint (word_of_nat m :: i32) = int m"
  by (simp add: signed_of_nat signed_take_bit_int_eq_self)

subsection \<open>Lists\<close>

lemma take_Suc_snoc: "i < length xs \<Longrightarrow> take (Suc i) xs = take i xs @ [xs ! i]"
  by (rule take_Suc_conv_app_nth)

lemma map_nth_upt_eq:
  "length xs = n \<Longrightarrow> (\<And>i. i < n \<Longrightarrow> f i = xs ! i) \<Longrightarrow> map f [0..<n] = xs"
  by (auto intro: nth_equalityI)

lemma upt_split: "(m :: nat) \<le> k \<Longrightarrow> [i..<i + k] = [i..<i + m] @ [i + m..<i + k]"
  using upt_add_eq_append [of i "i + m" "k - m"] by simp

text \<open>Positions inside one block of \<open>B\<close> bytes.\<close>

lemma same_chunk:
  assumes "(x :: nat) mod B + j < B"
  shows "(x + j) div B = x div B \<and> (x + j) mod B = x mod B + j"
proof -
  have "(q * B + r) div B = q \<and> (q * B + r) mod B = r" if "r < B" for q r :: nat using that by simp
  from this [OF assms, of "x div B"] show ?thesis by (simp add: add.assoc [symmetric])
qed

subsection \<open>Sums\<close>

text \<open>A sum over the parts of a state when one part changes.\<close>

lemma sum_fun_upd:
  assumes "i < (n :: nat)"
  shows "(\<Sum>j<n. F j ((h(i := p)) j)) + F i (h i) = (\<Sum>j<n. F j (h j)) + (F i p :: 'a :: comm_monoid_add)"
proof -
  have "(\<Sum>j<n. F j ((h(i := p)) j)) = F i p + (\<Sum>j\<in>{..<n} - {i}. F j ((h(i := p)) j))" using assms by (subst sum.remove [of _ i]) auto
  also have "(\<Sum>j\<in>{..<n} - {i}. F j ((h(i := p)) j)) = (\<Sum>j\<in>{..<n} - {i}. F j (h j))" by (rule sum.cong) auto
  finally show ?thesis using assms sum.remove [of "{..<n}" i "\<lambda>j. F j (h j)"] by (simp add: ac_simps)
qed

lemma sum_list_upd:
  assumes "k < length xs"
  shows "sum_list (map F (xs[k := x])) + F (xs ! k) = sum_list (map F xs) + (F x :: 'a :: comm_monoid_add)"
proof -
  have u: "xs[k := x] = take k xs @ x # drop (Suc k) xs" using assms by (rule upd_conv_take_nth_drop)
  have "xs = take k xs @ xs ! k # drop (Suc k) xs" using assms by (rule id_take_nth_drop)
  then have "sum_list (map F xs) = sum_list (map F (take k xs)) + (F (xs ! k) + sum_list (map F (drop (Suc k) xs)))"
    by (metis list.simps(9) map_append sum_list.Cons sum_list.append)
  then show ?thesis unfolding u by (simp add: ac_simps)
qed

end
