(* ===== verification/Cmem.thy ===== *)
theory Cmem
  imports Prelude
begin

text \<open>
  Machine memory and the memory routines of \<open>kernel/string.c\<close>.

  Physical memory is a function from 64-bit addresses to bytes; xv6 maps the kernel one to one,
  so a kernel pointer is a physical address. Routines that write take and return the memory.
  Routines that only read take a view of the memory from the pointer on, \<open>nat \<Rightarrow> u8\<close>
  (byte \<open>i\<close> is \<open>p[i]\<close>), so they apply to memory and to buffers alike. Each loop
  of the source is a recursive function; the lemmas give its closed form over
  \<open>load_bytes\<close> and \<open>store_bytes\<close>.
\<close>

type_synonym mem = "u64 \<Rightarrow> u8"

subsection \<open>Little-endian encoding\<close>

text \<open>The machine is little-endian: byte \<open>i\<close> of a cell holds bits \<open>8i..8i+7\<close>.\<close>

fun le_bytes :: "nat \<Rightarrow> 'a::len word \<Rightarrow> u8 list" where
  "le_bytes 0 v = []"
| "le_bytes (Suc n) v = ucast v # le_bytes n (drop_bit 8 v)"

fun of_le :: "u8 list \<Rightarrow> 'a::len word" where
  "of_le [] = 0"
| "of_le (b # bs) = ucast b OR push_bit 8 (of_le bs)"

lemma length_le_bytes [simp]: "length (le_bytes n v) = n"
  by (induction n arbitrary: v) auto

lemma nth_le_bytes: "i < n \<Longrightarrow> le_bytes n v ! i = ucast (drop_bit (8 * i) v)"
  by (induction n arbitrary: v i) (auto simp: nth_Cons' drop_bit_drop_bit algebra_simps split: nat.split)

lemma bit_of_le:
  "bit (of_le bs :: 'a::len word) k \<longleftrightarrow>
     k < LENGTH('a) \<and> k < 8 * length bs \<and> bit (bs ! (k div 8)) (k mod 8)"
proof (induction bs arbitrary: k)
  case Nil
  then show ?case by simp
next
  case (Cons b bs)
  show ?case
  proof (cases "k < 8")
    case True
    then show ?thesis by (simp add: bit_simps)
  next
    case False
    then have "k div 8 = Suc ((k - 8) div 8)" "k mod 8 = (k - 8) mod 8"
      by (auto simp: le_div_geq le_mod_geq)
    then show ?thesis
      using False by (auto simp: bit_simps Cons.IH dest: bit_imp_le_length)
  qed
qed

lemma of_le_bytes [mem_simps]: "LENGTH('a) \<le> 8 * n \<Longrightarrow> of_le (le_bytes n v) = (v :: 'a::len word)"
  by (rule bit_eqI) (auto simp: bit_of_le nth_le_bytes bit_simps less_mult_imp_div_less mult.commute)

lemma le_bytes_of_le [mem_simps]:
  assumes "length bs = n" "8 * n \<le> LENGTH('a)"
  shows "le_bytes n (of_le bs :: 'a::len word) = bs"
proof (rule nth_equalityI)
  show "length (le_bytes n (of_le bs :: 'a word)) = length bs"
    by (simp add: assms)
  fix i
  assume "i < length (le_bytes n (of_le bs :: 'a word))"
  then have i: "i < n" by simp
  show "le_bytes n (of_le bs :: 'a word) ! i = bs ! i"
  proof (rule bit_eqI)
    fix k
    assume "possible_bit TYPE(8 word) k"
    then have "k < 8" by (simp add: possible_bit_word)
    moreover from this i have "8 * i + k < 8 * n" by simp
    ultimately show "bit (le_bytes n (of_le bs :: 'a word) ! i) k = bit (bs ! i) k"
      using i assms by (auto simp: nth_le_bytes bit_simps bit_of_le)
  qed
qed

subsection \<open>Byte ranges and 64-bit cells\<close>

definition load_bytes :: "mem \<Rightarrow> u64 \<Rightarrow> nat \<Rightarrow> u8 list" where
  "load_bytes m a n = map (\<lambda>i. m (a + of_nat i)) [0..<n]"

definition store_bytes :: "mem \<Rightarrow> u64 \<Rightarrow> u8 list \<Rightarrow> mem" where
  "store_bytes m a bs = (\<lambda>x. if unat (x - a) < length bs then bs ! unat (x - a) else m x)"

definition load64 :: "mem \<Rightarrow> u64 \<Rightarrow> u64" where
  "load64 m a = of_le (load_bytes m a 8)"

definition store64 :: "mem \<Rightarrow> u64 \<Rightarrow> u64 \<Rightarrow> mem" where
  "store64 m a v = store_bytes m a (le_bytes 8 v)"

text \<open>The ranges \<open>[a, a+n)\<close> and \<open>[b, b+k)\<close> have no byte in common.\<close>

definition disj_range :: "u64 \<Rightarrow> nat \<Rightarrow> u64 \<Rightarrow> nat \<Rightarrow> bool" where
  "disj_range a n b k \<longleftrightarrow> (\<forall>i<k. n \<le> unat (b + of_nat i - a))"

lemma length_load_bytes [simp]: "length (load_bytes m a n) = n"
  by (simp add: load_bytes_def)

lemma nth_load_bytes [simp]: "i < n \<Longrightarrow> load_bytes m a n ! i = m (a + of_nat i)"
  by (simp add: load_bytes_def)

lemma store_bytes_other [mem_simps]:
  "length bs \<le> unat (x - a) \<Longrightarrow> store_bytes m a bs x = m x"
  by (simp add: store_bytes_def)

lemma store_bytes_in [mem_simps]:
  "i < length bs \<Longrightarrow> length bs \<le> 2 ^ 64 \<Longrightarrow> store_bytes m a bs (a + of_nat i) = bs ! i"
  by (simp add: store_bytes_def unat_of_nat take_bit_nat_eq_self)

lemma load_store_same [mem_simps]:
  "length bs = n \<Longrightarrow> n \<le> 2 ^ 64 \<Longrightarrow> load_bytes (store_bytes m a bs) a n = bs"
  by (auto intro!: nth_equalityI simp: store_bytes_in)

lemma load_store_disj [mem_simps]:
  "disj_range a (length bs) b k \<Longrightarrow> load_bytes (store_bytes m a bs) b k = load_bytes m b k"
  by (auto intro!: nth_equalityI simp: store_bytes_other disj_range_def)

lemma load_bytes_cong:
  "(\<And>i. i < n \<Longrightarrow> m (a + of_nat i) = m' (a + of_nat i)) \<Longrightarrow> load_bytes m a n = load_bytes m' a n"
  by (auto intro!: nth_equalityI)

lemma store_bytes_Nil [simp]: "store_bytes m a [] = m"
  by (simp add: store_bytes_def)

lemma store_bytes_load: "store_bytes m a (load_bytes m a n) = m"
  by (auto simp: store_bytes_def fun_eq_iff)

lemma store_bytes_snoc:
  assumes "length bs < 2 ^ 64"
  shows "store_bytes m a (bs @ [b]) = (store_bytes m a bs)(a + of_nat (length bs) := b)"
proof
  fix x
  show "store_bytes m a (bs @ [b]) x = ((store_bytes m a bs)(a + of_nat (length bs) := b)) x"
  proof (cases "x = a + of_nat (length bs)")
    case True
    with assms show ?thesis
      by (simp add: store_bytes_def unat_of_nat take_bit_nat_eq_self)
  next
    case False
    then have "unat (x - a) \<noteq> length bs"
      by (metis of_nat_unat_diff)
    with False show ?thesis
      by (auto simp: store_bytes_def nth_append)
  qed
qed

lemma store_bytes_Cons:
  assumes "length bs < 2 ^ 64 - 1"
  shows "store_bytes m a (b # bs) = store_bytes (m(a := b)) (a + 1) bs"
proof
  fix x
  let ?k = "unat (x - a)"
  show "store_bytes m a (b # bs) x = store_bytes (m(a := b)) (a + 1) bs x"
  proof (cases "x = a")
    case True
    have "a - (a + 1) = 18446744073709551615"
      by simp
    then have "unat (a - (a + 1)) = 2 ^ 64 - 1"
      by (simp only:) simp
    with True assms show ?thesis
      by (simp add: store_bytes_def)
  next
    case False
    then have nz: "x - a \<noteq> 0" by simp
    have "unat (x - (a + 1)) = ?k - 1"
      using unat_minus_one [OF nz] by (simp add: algebra_simps)
    moreover have "0 < ?k"
      using nz by (simp add: unat_gt_0)
    ultimately show ?thesis
      using False by (auto simp: store_bytes_def nth_Cons' less_diff_conv)
  qed
qed

lemma load64_store64 [mem_simps]: "load64 (store64 m a v) a = v"
  by (simp add: load64_def store64_def load_store_same of_le_bytes)

lemma load64_store64_disj [mem_simps]:
  "disj_range a 8 b 8 \<Longrightarrow> load64 (store64 m a v) b = load64 m b"
  by (simp add: load64_def store64_def load_store_disj)

lemma store64_other [mem_simps]: "8 \<le> unat (x - a) \<Longrightarrow> store64 m a v x = m x"
  by (simp add: store64_def store_bytes_other)

lemma load64_cong:
  "(\<And>i. i < 8 \<Longrightarrow> m (a + of_nat i) = m' (a + of_nat i)) \<Longrightarrow> load64 m a = load64 m' a"
  unfolding load64_def by (subst load_bytes_cong [of 8 m a m']) auto

subsection \<open>\<open>memset\<close>, \<open>memcmp\<close>, \<open>memmove\<close>\<close>

text \<open>\<open>for(i = 0; i < n; i++) cdst[i] = c\<close>\<close>

function memset_loop :: "nat \<Rightarrow> nat \<Rightarrow> u64 \<Rightarrow> u8 \<Rightarrow> mem \<Rightarrow> mem" where
  "memset_loop i n cdst c m =
     (if i < n then memset_loop (i + 1) n cdst c (m(cdst + of_nat i := c)) else m)"
  by pat_completeness auto
termination
  by (relation "measure (\<lambda>(i, n, _). n - i)") auto

declare memset_loop.simps [simp del]

definition memset :: "u64 \<Rightarrow> u8 \<Rightarrow> nat \<Rightarrow> mem \<Rightarrow> mem" where
  "memset dst c n m = memset_loop 0 n dst c m"

lemma memset_loop_eq:
  assumes "i \<le> n" "n \<le> 2 ^ 64"
  shows "memset_loop i n a c m = (\<lambda>x. if i \<le> unat (x - a) \<and> unat (x - a) < n then c else m x)"
  using assms
proof (induction i n a c m rule: memset_loop.induct)
  case (1 i n a c m)
  show ?case
  proof (cases "i < n")
    case True
    then have i64: "i < 2 ^ 64" using "1.prems" by simp
    have at: "x = a + of_nat i \<longleftrightarrow> unat (x - a) = i" for x
      using i64 by (metis of_nat_unat_diff unat_diff_add_of_nat)
    have "memset_loop i n a c m = memset_loop (i + 1) n a c (m(a + of_nat i := c))"
      using True by (subst memset_loop.simps) simp
    also have "\<dots> = (\<lambda>x. if i + 1 \<le> unat (x - a) \<and> unat (x - a) < n then c
                          else (m(a + of_nat i := c)) x)"
      using True "1.IH" "1.prems" by (simp add: fun_upd_def)
    also have "\<dots> = (\<lambda>x. if i \<le> unat (x - a) \<and> unat (x - a) < n then c else m x)"
      using True by (auto simp: fun_eq_iff at)
    finally show ?thesis .
  next
    case False
    then show ?thesis
      by (subst memset_loop.simps) (auto simp: fun_eq_iff)
  qed
qed

lemma memset_eq [mem_simps]:
  "n \<le> 2 ^ 64 \<Longrightarrow> memset a c n m = (\<lambda>x. if unat (x - a) < n then c else m x)"
  by (simp add: memset_def memset_loop_eq)

fun memcmp :: "(nat \<Rightarrow> u8) \<Rightarrow> (nat \<Rightarrow> u8) \<Rightarrow> nat \<Rightarrow> int" where
  "memcmp s1 s2 0 = 0"
| "memcmp s1 s2 (Suc n) =
     (if s1 0 \<noteq> s2 0 then uint (s1 0) - uint (s2 0)
      else memcmp (\<lambda>i. s1 (Suc i)) (\<lambda>i. s2 (Suc i)) n)"

lemma memcmp_zero_iff: "memcmp p q n = 0 \<longleftrightarrow> (\<forall>i<n. p i = q i)"
proof (induction n arbitrary: p q)
  case 0
  then show ?case by simp
next
  case (Suc n)
  then show ?case
    by (auto simp: All_less_Suc2 word_uint_eq_iff)
qed

text \<open>The two loops of \<open>memmove\<close>: ascending, and descending where the ranges overlap
  with the destination above the source.\<close>

fun fwd_copy :: "nat \<Rightarrow> u64 \<Rightarrow> u64 \<Rightarrow> mem \<Rightarrow> mem" where
  "fwd_copy 0 d s m = m"
| "fwd_copy (Suc n) d s m = fwd_copy n (d + 1) (s + 1) (m(d := m s))"

fun bwd_copy :: "nat \<Rightarrow> u64 \<Rightarrow> u64 \<Rightarrow> mem \<Rightarrow> mem" where
  "bwd_copy 0 d s m = m"
| "bwd_copy (Suc n) d s m = bwd_copy n (d - 1) (s - 1) (m(d - 1 := m (s - 1)))"

definition memmove :: "u64 \<Rightarrow> u64 \<Rightarrow> nat \<Rightarrow> mem \<Rightarrow> mem" where
  "memmove dst src n m =
     (if n = 0 then m
      else if src < dst \<and> src + of_nat n > dst
      then bwd_copy n (dst + of_nat n) (src + of_nat n) m
      else fwd_copy n dst src m)"

definition memcpy :: "u64 \<Rightarrow> u64 \<Rightarrow> nat \<Rightarrow> mem \<Rightarrow> mem" where
  "memcpy dst src n m = memmove dst src n m"

lemma load_bytes_0 [simp]: "load_bytes m a 0 = []"
  by (simp add: load_bytes_def)

lemma load_bytes_Suc: "load_bytes m a (Suc n) = m a # load_bytes m (a + 1) n"
  by (rule nth_equalityI) (auto simp: nth_Cons algebra_simps split: nat.split)

lemma load_bytes_snoc: "load_bytes m a (Suc n) = load_bytes m a n @ [m (a + of_nat n)]"
  by (simp add: load_bytes_def)

lemma load_bytes_upd_other:
  "(\<And>i. i < n \<Longrightarrow> a + of_nat i \<noteq> x) \<Longrightarrow> load_bytes (m(x := v)) a n = load_bytes m a n"
  by (rule load_bytes_cong) auto

lemma fwd_copy_eq:
  assumes "n < 2 ^ 64" "\<And>i j. j < i \<Longrightarrow> i < n \<Longrightarrow> s + of_nat i \<noteq> d + of_nat j"
  shows "fwd_copy n d s m = store_bytes m d (load_bytes m s n)"
  using assms
proof (induction n arbitrary: d s m)
  case 0
  then show ?case by simp
next
  case (Suc n)
  let ?m = "m(d := m s)"
  have "fwd_copy n (d + 1) (s + 1) ?m = store_bytes ?m (d + 1) (load_bytes ?m (s + 1) n)"
  proof (rule Suc.IH)
    fix i j :: nat
    assume "j < i" "i < n"
    then show "s + 1 + of_nat i \<noteq> d + 1 + of_nat j"
      using Suc.prems(2) [of "Suc j" "Suc i"] by (simp add: algebra_simps)
  qed (use Suc.prems in simp)
  moreover have "load_bytes ?m (s + 1) n = load_bytes m (s + 1) n"
    using Suc.prems(2) [of 0 "Suc i" for i] by (intro load_bytes_upd_other) (auto simp: algebra_simps)
  ultimately show ?case
    using Suc.prems(1) by (simp add: load_bytes_Suc store_bytes_Cons)
qed

lemma bwd_copy_eq:
  assumes "n < 2 ^ 64" "\<And>i j. i < j \<Longrightarrow> j < n \<Longrightarrow> s + of_nat i \<noteq> d + of_nat j"
  shows "bwd_copy n (d + of_nat n) (s + of_nat n) m = store_bytes m d (load_bytes m s n)"
  using assms
proof (induction n arbitrary: m)
  case 0
  then show ?case by simp
next
  case (Suc n)
  let ?m = "m(d + of_nat n := m (s + of_nat n))"
  have "bwd_copy n (d + of_nat n) (s + of_nat n) ?m = store_bytes ?m d (load_bytes ?m s n)"
    using Suc.prems by (intro Suc.IH) auto
  moreover have "load_bytes ?m s n = load_bytes m s n"
    using Suc.prems(2) [of _ n] by (intro load_bytes_upd_other) auto
  moreover have "store_bytes ?m d (load_bytes m s n) =
      (store_bytes m d (load_bytes m s n))(d + of_nat n := m (s + of_nat n))"
    using Suc.prems(1) by (auto simp: fun_eq_iff store_bytes_def unat_of_nat take_bit_nat_eq_self)
  ultimately show ?case
    using Suc.prems(1) by (simp add: load_bytes_snoc store_bytes_snoc)
qed

text \<open>\<open>memmove\<close> copies the bytes the source range held before the call, whatever the
  overlap, as long as neither range wraps around the end of the address space.\<close>

lemma memmove_eq:
  assumes "unat src + n < 2 ^ 64" "unat dst + n < 2 ^ 64"
  shows "memmove dst src n m = store_bytes m dst (load_bytes m src n)"
proof -
  have u: "unat (src + of_nat i) = unat src + i" "unat (dst + of_nat i) = unat dst + i"
    if "i \<le> n" for i
    using that assms by (simp_all add: unat_add_64)
  show ?thesis
  proof (cases "n \<noteq> 0 \<and> src < dst \<and> src + of_nat n > dst")
    case True
    have "bwd_copy n (dst + of_nat n) (src + of_nat n) m = store_bytes m dst (load_bytes m src n)"
    proof (rule bwd_copy_eq)
      fix i j :: nat
      assume "i < j" "j < n"
      then show "src + of_nat i \<noteq> dst + of_nat j"
        using True u [of i] u [of j] by (auto simp: word_less_nat_alt word_unat_eq_iff)
    qed (use assms in simp)
    with True show ?thesis by (simp add: memmove_def)
  next
    case False
    have "fwd_copy n dst src m = store_bytes m dst (load_bytes m src n)"
    proof (rule fwd_copy_eq)
      fix i j :: nat
      assume "j < i" "i < n"
      then show "src + of_nat i \<noteq> dst + of_nat j"
        using False u [of i] u [of j] u [of n]
        by (auto simp: word_less_nat_alt word_unat_eq_iff)
    qed (use assms in simp)
    with False show ?thesis by (auto simp: memmove_def)
  qed
qed

subsection \<open>\<open>strncmp\<close>, \<open>strncpy\<close>, \<open>safestrcpy\<close>, \<open>strlen\<close>\<close>

fun strncmp :: "(nat \<Rightarrow> u8) \<Rightarrow> (nat \<Rightarrow> u8) \<Rightarrow> nat \<Rightarrow> int" where
  "strncmp p q 0 = 0"
| "strncmp p q (Suc n) =
     (if p 0 \<noteq> 0 \<and> p 0 = q 0 then strncmp (\<lambda>i. p (Suc i)) (\<lambda>i. q (Suc i)) n
      else uint (p 0) - uint (q 0))"

text \<open>The bytes of a C string among the first \<open>n\<close>, without its NUL.\<close>

definition cstr :: "(nat \<Rightarrow> u8) \<Rightarrow> nat \<Rightarrow> u8 list" where
  "cstr p n = takeWhile (\<lambda>b. b \<noteq> 0) (map p [0..<n])"

lemma cstr_Suc: "cstr p (Suc n) = (if p 0 = 0 then [] else p 0 # cstr (\<lambda>i. p (Suc i)) n)"
  by (simp add: cstr_def upt_conv_Cons map_Suc_upt [symmetric] comp_def del: upt_Suc)

lemma cstr_0 [simp]: "cstr p 0 = []"
  by (simp add: cstr_def)

lemma length_cstr_le: "length (cstr p n) \<le> n"
  by (metis cstr_def length_map length_takeWhile_le length_upt minus_nat.diff_0)

lemma strncmp_zero_iff: "strncmp p q n = 0 \<longleftrightarrow> cstr p n = cstr q n"
proof (induction n arbitrary: p q)
  case 0
  then show ?case by simp
next
  case (Suc n)
  then show ?case
    by (auto simp: cstr_Suc word_uint_eq_iff)
qed

text \<open>The padding loop and the copying loop of \<open>strncpy\<close>; the second falls into the
  first once it has copied a NUL.\<close>

fun strncpy_pad :: "nat \<Rightarrow> u64 \<Rightarrow> mem \<Rightarrow> mem" where
  "strncpy_pad 0 s m = m"
| "strncpy_pad (Suc n) s m = strncpy_pad n (s + 1) (m(s := 0))"

fun strncpy :: "u64 \<Rightarrow> u64 \<Rightarrow> nat \<Rightarrow> mem \<Rightarrow> mem" where
  "strncpy s t 0 m = m"
| "strncpy s t (Suc n) m =
     (if m t \<noteq> 0 then strncpy (s + 1) (t + 1) n (m(s := m t))
      else strncpy_pad n (s + 1) (m(s := 0)))"

fun safestrcpy_loop :: "u64 \<Rightarrow> u64 \<Rightarrow> nat \<Rightarrow> mem \<Rightarrow> mem" where
  "safestrcpy_loop s t 0 m = m(s := 0)"
| "safestrcpy_loop s t (Suc n) m =
     (if m t \<noteq> 0 then safestrcpy_loop (s + 1) (t + 1) n (m(s := m t))
      else (m(s := 0))(s + 1 := 0))"

definition safestrcpy :: "u64 \<Rightarrow> u64 \<Rightarrow> nat \<Rightarrow> mem \<Rightarrow> mem" where
  "safestrcpy s t n m = (case n of 0 \<Rightarrow> m | Suc k \<Rightarrow> safestrcpy_loop s t k m)"

text \<open>\<open>for(n = 0; s[n]; n++)\<close> with an \<open>int\<close> counter: a string with no NUL in
  its first \<open>2^31\<close> bytes overflows it.\<close>

function strlen_loop :: "nat \<Rightarrow> (nat \<Rightarrow> u8) \<Rightarrow> nat res" where
  "strlen_loop n s =
     (if 2 ^ 31 \<le> n then Err (Undef ''strlen: int overflow'')
      else if s n \<noteq> 0 then strlen_loop (n + 1) s else Ok n)"
  by pat_completeness auto
termination
  by (relation "measure (\<lambda>(n, _). 2 ^ 31 - n)") auto

declare strlen_loop.simps [simp del]

definition strlen :: "(nat \<Rightarrow> u8) \<Rightarrow> nat res" where
  "strlen s = strlen_loop 0 s"

lemma strlen_loop_Ok:
  "strlen_loop n s = Ok k \<longleftrightarrow> n \<le> k \<and> k < 2 ^ 31 \<and> s k = 0 \<and> (\<forall>i. n \<le> i \<and> i < k \<longrightarrow> s i \<noteq> 0)"
proof (induction n s rule: strlen_loop.induct)
  case (1 n s)
  show ?case
  proof (cases "2 ^ 31 \<le> n \<or> s n = 0")
    case True
    then show ?thesis
      by (subst strlen_loop.simps) (auto simp: le_less)
  next
    case False
    then have "strlen_loop n s = strlen_loop (n + 1) s"
      by (subst strlen_loop.simps) simp
    moreover have "n \<le> i \<longleftrightarrow> i = n \<or> n + 1 \<le> i" for i
      by auto
    ultimately show ?thesis
      using False 1 by auto
  qed
qed

lemma strlen_Ok: "strlen s = Ok k \<longleftrightarrow> k < 2 ^ 31 \<and> s k = 0 \<and> (\<forall>i<k. s i \<noteq> 0)"
  by (simp add: strlen_def strlen_loop_Ok)

lemma strncpy_pad_eq: "n < 2 ^ 64 \<Longrightarrow> strncpy_pad n s m = store_bytes m s (replicate n 0)"
proof (induction n arbitrary: s m)
  case 0
  then show ?case by simp
next
  case (Suc n)
  then have "strncpy_pad n (s + 1) (m(s := 0)) = store_bytes (m(s := 0)) (s + 1) (replicate n 0)"
    by simp
  then show ?case
    using Suc.prems by (simp add: store_bytes_Cons)
qed

text \<open>\<open>strncpy\<close> into a range that does not overlap the source fills the whole field: the
  string, cut at \<open>n\<close> bytes, then NULs.\<close>

lemma strncpy_eq:
  assumes "n < 2 ^ 64" "\<And>i j. i < n \<Longrightarrow> j < n \<Longrightarrow> t + of_nat i \<noteq> s + of_nat j"
  shows "strncpy s t n m =
     store_bytes m s (let c = cstr (\<lambda>i. m (t + of_nat i)) n in c @ replicate (n - length c) 0)"
  using assms
proof (induction n arbitrary: s t m)
  case 0
  then show ?case by simp
next
  case (Suc n)
  have shift: "cstr (\<lambda>i. m (t + of_nat i)) (Suc n) =
      (if m t = 0 then [] else m t # cstr (\<lambda>i. m (t + 1 + of_nat i)) n)"
    by (simp add: cstr_Suc algebra_simps)
  show ?case
  proof (cases "m t = 0")
    case True
    then show ?thesis
      using Suc.prems(1) by (simp add: shift strncpy_pad_eq store_bytes_Cons)
  next
    case False
    let ?m = "m(s := m t)"
    have other: "t + 1 + of_nat i \<noteq> s" if "i < n" for i
      using Suc.prems(2) [of "Suc i" 0] that by (simp add: algebra_simps)
    have "cstr (\<lambda>i. ?m (t + 1 + of_nat i)) n = cstr (\<lambda>i. m (t + 1 + of_nat i)) n"
      unfolding cstr_def using other by (intro arg_cong [where f = "takeWhile _"]) auto
    moreover have "strncpy (s + 1) (t + 1) n ?m = store_bytes ?m (s + 1)
        (let c = cstr (\<lambda>i. ?m (t + 1 + of_nat i)) n in c @ replicate (n - length c) 0)"
    proof (rule Suc.IH)
      fix i j :: nat
      assume "i < n" "j < n"
      then show "t + 1 + of_nat i \<noteq> s + 1 + of_nat j"
        using Suc.prems(2) [of "Suc i" "Suc j"] by (simp add: algebra_simps)
    qed (use Suc.prems in simp)
    moreover have "length (cstr (\<lambda>i. m (t + 1 + of_nat i)) n) \<le> n"
      by (rule length_cstr_le)
    ultimately show ?thesis
      using False Suc.prems(1) by (simp add: shift store_bytes_Cons Let_def)
  qed
qed

end
