(* ===== verification/Riscv.thy ===== *)
theory Riscv
  imports Cmem
begin

text \<open>
  The page and page-table macros of \<open>kernel/riscv.h\<close> and the address constants of
  \<open>kernel/memlayout.h\<close>, over 64-bit words, with the facts the memory components use:
  rounding is arithmetic on \<open>unat\<close>, a page-table entry gives back the address and the
  flags it was built from, and a virtual address below \<open>MAXVA\<close> is determined by its
  three indices and its offset.
\<close>

abbreviation PGSIZE :: u64 where "PGSIZE \<equiv> 4096"
abbreviation PGSHIFT :: nat where "PGSHIFT \<equiv> 12"

definition PGROUNDUP :: "u64 \<Rightarrow> u64" where
  "PGROUNDUP sz = (sz + PGSIZE - 1) AND NOT (PGSIZE - 1)"

definition PGROUNDDOWN :: "u64 \<Rightarrow> u64" where
  "PGROUNDDOWN a = a AND NOT (PGSIZE - 1)"

abbreviation (input) PTE_V :: u64 where "PTE_V \<equiv> 1"
abbreviation (input) PTE_R :: u64 where "PTE_R \<equiv> 2"
abbreviation (input) PTE_W :: u64 where "PTE_W \<equiv> 4"
abbreviation (input) PTE_X :: u64 where "PTE_X \<equiv> 8"
abbreviation (input) PTE_U :: u64 where "PTE_U \<equiv> 16"

definition PA2PTE :: "u64 \<Rightarrow> u64" where
  "PA2PTE pa = push_bit 10 (drop_bit 12 pa)"

definition PTE2PA :: "u64 \<Rightarrow> u64" where
  "PTE2PA pte = push_bit 12 (drop_bit 10 pte)"

definition PTE_FLAGS :: "u64 \<Rightarrow> u64" where
  "PTE_FLAGS pte = pte AND 0x3FF"

abbreviation PXMASK :: u64 where "PXMASK \<equiv> 0x1FF"

definition PXSHIFT :: "nat \<Rightarrow> nat" where
  "PXSHIFT level = PGSHIFT + 9 * level"

definition PX :: "nat \<Rightarrow> u64 \<Rightarrow> u64" where
  "PX level va = drop_bit (PXSHIFT level) va AND PXMASK"

abbreviation MAXVA :: u64 where "MAXVA \<equiv> 0x4000000000"

abbreviation KERNBASE :: u64 where "KERNBASE \<equiv> 0x80000000"
abbreviation PHYSTOP :: u64 where "PHYSTOP \<equiv> 0x88000000"
abbreviation TRAMPOLINE :: u64 where "TRAMPOLINE \<equiv> MAXVA - PGSIZE"
abbreviation TRAPFRAME :: u64 where "TRAPFRAME \<equiv> TRAMPOLINE - PGSIZE"
abbreviation UART0 :: u64 where "UART0 \<equiv> 0x10000000"
abbreviation VIRTIO0 :: u64 where "VIRTIO0 \<equiv> 0x10001000"
abbreviation PLIC :: u64 where "PLIC \<equiv> 0x0c000000"

definition KSTACK :: "nat \<Rightarrow> u64" where
  "KSTACK p = TRAMPOLINE - of_nat (p + 1) * 2 * PGSIZE"

subsection \<open>Rounding\<close>

text \<open>A page-aligned address, and the page an address lies in.\<close>

definition pg_aligned :: "u64 \<Rightarrow> bool" where
  "pg_aligned a \<longleftrightarrow> a mod PGSIZE = 0"

lemma pg_aligned_unat: "pg_aligned a \<longleftrightarrow> unat a mod 4096 = 0"
  by (simp add: pg_aligned_def unat_arith_simps)

lemma low_bits: "f < 2 ^ n \<Longrightarrow> bit (f :: u64) j \<Longrightarrow> j < n"
proof -
  assume "f < 2 ^ n" "bit f j"
  moreover from this have "take_bit n f = f"
    by (simp add: take_bit_eq_mod mod_word_less)
  ultimately show ?thesis
    by (metis bit_take_bit_iff)
qed

text \<open>The simplifier moves bits of word numerals to \<open>int\<close>, so the masks are stated there.\<close>

lemma bit_numeral_masks:
  "bit (4095 :: int) k \<longleftrightarrow> k < 12"
  "bit (1023 :: int) k \<longleftrightarrow> k < 10"
  "bit (511 :: int) k \<longleftrightarrow> k < 9"
  "bit (- 4096 :: int) k \<longleftrightarrow> 12 \<le> k"
proof -
  have m: "(4095 :: int) = mask 12" "(1023 :: int) = mask 10" "(511 :: int) = mask 9"
    "(- 4096 :: int) = NOT (mask 12)"
    by (simp_all add: mask_eq_exp_minus_1 not_int_def)
  show "bit (4095 :: int) k \<longleftrightarrow> k < 12" "bit (1023 :: int) k \<longleftrightarrow> k < 10"
    "bit (511 :: int) k \<longleftrightarrow> k < 9" "bit (- 4096 :: int) k \<longleftrightarrow> 12 \<le> k"
    unfolding m by (auto simp: bit_mask_iff bit_not_iff)
qed

lemma drop_push_12: "unat (push_bit 12 (drop_bit 12 (a :: u64))) = unat a div 4096 * 4096"
proof -
  have "unat (push_bit 12 (drop_bit 12 a)) = unat a div 4096 * 4096 mod 2 ^ 64"
    by (simp add: unat_drop_bit_eq drop_bit_eq_div push_bit_eq_mult unat_word_ariths mod_mult_left_eq)
  moreover have "unat a div 4096 * 4096 < 2 ^ 64"
    using unat_less_64 [of a] by simp
  ultimately show ?thesis by simp
qed

lemma PGROUNDDOWN_alt: "PGROUNDDOWN a = push_bit 12 (drop_bit 12 a)"
  unfolding PGROUNDDOWN_def
  by (rule bit_eqI) (auto simp: bit_not_iff bit_and_iff bit_push_bit_iff bit_drop_bit_eq
      bit_numeral_masks not_less)

lemma unat_PGROUNDDOWN [page_simps]: "unat (PGROUNDDOWN a) = unat a div 4096 * 4096"
  by (simp add: PGROUNDDOWN_alt drop_push_12)

lemma PGROUNDUP_alt: "PGROUNDUP a = PGROUNDDOWN (a + 4095)"
  by (simp add: PGROUNDUP_def PGROUNDDOWN_def add.commute)

lemma unat_PGROUNDUP [page_simps]:
  "unat a + 4095 < 2 ^ 64 \<Longrightarrow> unat (PGROUNDUP a) = (unat a + 4095) div 4096 * 4096"
  by (simp add: PGROUNDUP_alt unat_PGROUNDDOWN unat_word_ariths)

lemma pg_aligned_PGROUNDDOWN [page_simps, simp]: "pg_aligned (PGROUNDDOWN a)"
  by (simp add: pg_aligned_unat unat_PGROUNDDOWN)

lemma pg_aligned_PGROUNDUP [page_simps, simp]: "pg_aligned (PGROUNDUP a)"
  by (simp add: PGROUNDUP_alt)

lemma PGROUNDDOWN_aligned [page_simps]: "pg_aligned a \<Longrightarrow> PGROUNDDOWN a = a"
  by (simp add: pg_aligned_unat word_unat_eq_iff unat_PGROUNDDOWN mod_0_imp_dvd)

lemma PGROUNDUP_aligned [page_simps]:
  "pg_aligned a \<Longrightarrow> unat a + 4095 < 2 ^ 64 \<Longrightarrow> PGROUNDUP a = a"
proof -
  assume "pg_aligned a" "unat a + 4095 < 2 ^ 64"
  moreover from this have "(unat a + 4095) div 4096 * 4096 = unat a"
    by (auto simp: pg_aligned_unat)
  ultimately show ?thesis
    by (simp add: word_unat_eq_iff unat_PGROUNDUP)
qed

subsection \<open>Page-table entries\<close>

lemma PTE2PA_build [page_simps]:
  assumes "pg_aligned pa" "pa < 2 ^ 54" "f < 2 ^ 10"
  shows "PTE2PA (PA2PTE pa OR f) = pa"
proof (rule bit_eqI)
  fix k
  assume "possible_bit TYPE(64 word) k"
  then have k: "k < 64" by (simp add: possible_bit_word)
  have low: "\<not> bit pa k" if "k < 12"
  proof -
    have "take_bit 12 pa = 0"
      using assms(1) by (simp add: pg_aligned_def take_bit_eq_mod)
    then have "\<not> bit (take_bit 12 pa) k" by simp
    with that show ?thesis by (simp add: bit_take_bit_iff)
  qed
  have hi: "bit pa j \<Longrightarrow> j < 54" and fl: "bit f j \<Longrightarrow> j < 10" for j
    using assms(2,3) by (auto intro: low_bits)
  show "bit (PTE2PA (PA2PTE pa OR f)) k = bit pa k"
  proof (cases "k < 12")
    case True
    then show ?thesis
      using low by (simp add: PTE2PA_def bit_simps)
  next
    case False
    then have "\<not> bit f (k - 2)" "12 + (k - 12) = k" "10 + (k - 12) = k - 2" "10 \<le> k - 2"
      "12 + (k - 2 - 10) = k"
      using fl [of "k - 2"] by auto
    then show ?thesis
      using False k hi [of k] by (auto simp: PTE2PA_def PA2PTE_def bit_simps)
  qed
qed

lemma PTE_FLAGS_build [page_simps]:
  assumes "f < 2 ^ 10"
  shows "PTE_FLAGS (PA2PTE pa OR f) = f"
proof (rule bit_eqI)
  fix k
  show "bit (PTE_FLAGS (PA2PTE pa OR f)) k = bit f k"
    using low_bits [OF assms, of k]
    by (auto simp: PTE_FLAGS_def PA2PTE_def bit_and_iff bit_or_iff bit_push_bit_iff bit_numeral_masks)
qed

lemma PTE2PA_aligned [page_simps, simp]: "pg_aligned (PTE2PA e)"
proof -
  have "take_bit 12 (PTE2PA e) = 0"
    by (rule bit_eqI) (auto simp: PTE2PA_def bit_simps)
  then show ?thesis
    by (simp add: pg_aligned_def take_bit_eq_mod)
qed

lemma PA2PTE_and_low:
  assumes "f < 2 ^ 10"
  shows "(PA2PTE pa OR g) AND f = g AND f"
proof (rule bit_eqI)
  fix k
  show "bit ((PA2PTE pa OR g) AND f) k = bit (g AND f) k"
    using low_bits [OF assms, of k]
    by (auto simp: PA2PTE_def bit_and_iff bit_or_iff bit_push_bit_iff)
qed

lemma PX_less: "unat (PX l va) < 512"
proof -
  have "(PX l va) \<le> PXMASK"
    by (simp add: PX_def word_and_le1)
  then show ?thesis by (simp add: word_le_nat_alt)
qed

lemma unat_PX: "unat (PX l va) = unat va div 2 ^ PXSHIFT l mod 512"
proof -
  have "PX l va = take_bit 9 (drop_bit (PXSHIFT l) va)"
    by (rule bit_eqI) (auto simp: PX_def bit_and_iff bit_take_bit_iff bit_numeral_masks)
  then have "unat (PX l va) = take_bit 9 (drop_bit (PXSHIFT l) (unat va))"
    by (simp only: unsigned_take_bit_eq unat_drop_bit_eq)
  then show ?thesis
    by (simp only: take_bit_eq_mod drop_bit_eq_div) simp
qed

end
