(* ===== verification/Spinlock.thy ===== *)
theory Spinlock
  imports Prelude
begin

text \<open>
  Spin locks, \<open>kernel/spinlock.c\<close>, with the \<open>struct cpu\<close> fields they keep
  (\<open>kernel/proc.h\<close>). A hart is its index in \<open>cpus[]\<close>; the record also holds the
  hart's interrupt-enable bit (\<open>sstatus.SIE\<close>), which \<open>intr_on\<close>, \<open>intr_off\<close>
  and \<open>intr_get\<close> access.

  \<open>acquire\<close> and \<open>release\<close> are given whole, for the sequential components, and
  are compositions of the atomic steps of the source (the swap and the two stores). The second
  half runs those steps on all harts in any interleaving: mutual exclusion, no panic, and
  interrupts off from the first \<open>push_off\<close> to the last \<open>pop_off\<close>.
\<close>

subsection \<open>Data\<close>

record spinlock =
  locked :: bool
  lname :: string
  lcpu :: "nat option"

record cpu =
  cproc :: "nat option"
  noff :: int
  intena :: bool
  sie :: bool

definition initlock :: "string \<Rightarrow> spinlock \<Rightarrow> spinlock" where
  "initlock name lk = lk\<lparr>lname := name, locked := False, lcpu := None\<rparr>"

definition holding :: "nat \<Rightarrow> spinlock \<Rightarrow> bool" where
  "holding h lk \<longleftrightarrow> locked lk \<and> lcpu lk = Some h"

subsection \<open>Nested interrupt disabling\<close>

definition intr_on :: "cpu \<Rightarrow> cpu" where "intr_on c = c\<lparr>sie := True\<rparr>"
definition intr_off :: "cpu \<Rightarrow> cpu" where "intr_off c = c\<lparr>sie := False\<rparr>"
definition intr_get :: "cpu \<Rightarrow> bool" where "intr_get c = sie c"

definition push_off :: "cpu \<Rightarrow> cpu" where
  "push_off c =
     (let old = intr_get c;
          c = intr_off c;
          c = (if noff c = 0 then c\<lparr>intena := old\<rparr> else c)
      in c\<lparr>noff := noff c + 1\<rparr>)"

definition pop_off :: "cpu \<Rightarrow> cpu res" where
  "pop_off c =
     (if intr_get c then Err (Panic ''pop_off - interruptible'')
      else if noff c < 1 then Err (Panic ''pop_off'')
      else let c = c\<lparr>noff := noff c - 1\<rparr>
           in Ok (if noff c = 0 \<and> intena c then intr_on c else c))"

lemmas intr_defs = intr_on_def intr_off_def intr_get_def

lemma push_off_sie [simp]: "sie (push_off c) = False"
  by (simp add: push_off_def Let_def intr_defs)

lemma push_off_noff [simp]: "noff (push_off c) = noff c + 1"
  by (simp add: push_off_def Let_def intr_defs)

lemma push_off_cproc [simp]: "cproc (push_off c) = cproc c"
  by (simp add: push_off_def Let_def intr_defs)

text \<open>Matched pairs: one \<open>pop_off\<close> undoes one \<open>push_off\<close>, at any nesting depth.
  A hart that runs with interrupts on holds no lock (\<open>noff = 0\<close>).\<close>

definition cpu_ok :: "cpu \<Rightarrow> bool" where
  "cpu_ok c \<longleftrightarrow> 0 \<le> noff c \<and> (0 < noff c \<longrightarrow> \<not> sie c)"

lemma cpu_ok_push_off: "cpu_ok c \<Longrightarrow> cpu_ok (push_off c)"
  by (simp add: cpu_ok_def)

lemma pop_push_off:
  assumes "cpu_ok c"
  shows "\<exists>c'. pop_off (push_off c) = Ok c' \<and> noff c' = noff c \<and> sie c' = sie c \<and> cproc c' = cproc c
    \<and> (noff c > 0 \<longrightarrow> c' = c)"
  using assms by (auto simp: pop_off_def push_off_def Let_def intr_defs cpu_ok_def)

subsection \<open>Acquire and release\<close>

definition acquire_enter :: "nat \<Rightarrow> cpu \<Rightarrow> spinlock \<Rightarrow> cpu res" where
  "acquire_enter h c lk =
     (let c = push_off c in if holding h lk then Err (Panic ''acquire'') else Ok c)"

text \<open>\<open>__sync_lock_test_and_set\<close>: the old value and the lock with \<open>locked\<close> set.\<close>

definition test_and_set :: "spinlock \<Rightarrow> bool \<times> spinlock" where
  "test_and_set lk = (locked lk, lk\<lparr>locked := True\<rparr>)"

definition acquire :: "nat \<Rightarrow> cpu \<Rightarrow> spinlock \<Rightarrow> (cpu \<times> spinlock) res" where
  "acquire h c lk =
     bnd (acquire_enter h c lk) (\<lambda>c.
       let (old, lk) = test_and_set lk in
       if old then Err (Waits ''acquire: spin'')
       else Ok (c, lk\<lparr>lcpu := Some h\<rparr>))"

definition release_check :: "nat \<Rightarrow> spinlock \<Rightarrow> spinlock res" where
  "release_check h lk =
     (if \<not> holding h lk then Err (Panic ''release'') else Ok (lk\<lparr>lcpu := None\<rparr>))"

definition lock_release :: "spinlock \<Rightarrow> spinlock" where
  "lock_release lk = lk\<lparr>locked := False\<rparr>"

definition release :: "nat \<Rightarrow> cpu \<Rightarrow> spinlock \<Rightarrow> (cpu \<times> spinlock) res" where
  "release h c lk =
     bnd (release_check h lk) (\<lambda>lk.
       let lk = lock_release lk in
       bnd (pop_off c) (\<lambda>c. Ok (c, lk)))"

definition lock_free :: "spinlock \<Rightarrow> bool" where
  "lock_free lk \<longleftrightarrow> \<not> locked lk \<and> lcpu lk = None"

lemma acquire_free:
  "lock_free lk \<Longrightarrow> acquire h c lk = Ok (push_off c, lk\<lparr>locked := True, lcpu := Some h\<rparr>)"
  by (simp add: acquire_def acquire_enter_def test_and_set_def holding_def lock_free_def)

lemma acquire_held: "holding h lk \<Longrightarrow> acquire h c lk = Err (Panic ''acquire'')"
  by (simp add: acquire_def acquire_enter_def)

lemma release_acquired:
  assumes "lock_free lk" "cpu_ok c"
  shows "\<exists>c'. release h (push_off c) (lk\<lparr>locked := True, lcpu := Some h\<rparr>) = Ok (c', lk)
     \<and> noff c' = noff c \<and> sie c' = sie c \<and> cproc c' = cproc c"
proof -
  obtain c' where "pop_off (push_off c) = Ok c'" "noff c' = noff c" "sie c' = sie c" "cproc c' = cproc c"
    using pop_push_off [OF assms(2)] by blast
  moreover have "lk\<lparr>lcpu := None, locked := False\<rparr> = lk"
    using assms(1) by (cases lk) (simp add: lock_free_def)
  ultimately show ?thesis
    by (simp add: release_def release_check_def lock_release_def holding_def)
qed

subsection \<open>All harts, one lock, any interleaving\<close>

datatype lpc = Outside | Spinning | Swapped | Inside | Releasing | Popping

record lock_sys =
  lk :: spinlock
  hart :: "nat \<Rightarrow> cpu"
  hpc :: "nat \<Rightarrow> lpc"

text \<open>One rule per atomic step of \<open>acquire\<close> and \<open>release\<close>; \<open>h\<close> is the hart
  that moves. A hart that is outside may run with interrupts on or off.\<close>

inductive lock_step :: "lock_sys \<Rightarrow> lock_sys \<Rightarrow> bool" where
  enter: "hpc s h = Outside \<Longrightarrow> acquire_enter h (hart s h) (lk s) = Ok c \<Longrightarrow>
    lock_step s (s\<lparr>hart := (hart s)(h := c), hpc := (hpc s)(h := Spinning)\<rparr>)"
| spin: "hpc s h = Spinning \<Longrightarrow> test_and_set (lk s) = (True, l) \<Longrightarrow> lock_step s (s\<lparr>lk := l\<rparr>)"
| swap: "hpc s h = Spinning \<Longrightarrow> test_and_set (lk s) = (False, l) \<Longrightarrow>
    lock_step s (s\<lparr>lk := l, hpc := (hpc s)(h := Swapped)\<rparr>)"
| record_cpu: "hpc s h = Swapped \<Longrightarrow>
    lock_step s (s\<lparr>lk := (lk s)\<lparr>lcpu := Some h\<rparr>, hpc := (hpc s)(h := Inside)\<rparr>)"
| leave: "hpc s h = Inside \<Longrightarrow> release_check h (lk s) = Ok l \<Longrightarrow>
    lock_step s (s\<lparr>lk := l, hpc := (hpc s)(h := Releasing)\<rparr>)"
| unlock: "hpc s h = Releasing \<Longrightarrow>
    lock_step s (s\<lparr>lk := lock_release (lk s), hpc := (hpc s)(h := Popping)\<rparr>)"
| pop: "hpc s h = Popping \<Longrightarrow> pop_off (hart s h) = Ok c \<Longrightarrow>
    lock_step s (s\<lparr>hart := (hart s)(h := c), hpc := (hpc s)(h := Outside)\<rparr>)"

inductive lock_reach :: "lock_sys \<Rightarrow> bool" where
  boot: "lock_free (lk s) \<Longrightarrow> (\<And>h. hpc s h = Outside) \<Longrightarrow> (\<And>h. cpu_ok (hart s h)) \<Longrightarrow> lock_reach s"
| step: "lock_reach s \<Longrightarrow> lock_step s t \<Longrightarrow> lock_reach t"

definition owns :: "lpc \<Rightarrow> bool" where
  "owns p \<longleftrightarrow> p = Swapped \<or> p = Inside \<or> p = Releasing"

definition lock_inv :: "lock_sys \<Rightarrow> bool" where
  "lock_inv s \<longleftrightarrow>
     (\<forall>h. owns (hpc s h) \<longrightarrow> locked (lk s)) \<and>
     (\<forall>h k. owns (hpc s h) \<and> owns (hpc s k) \<longrightarrow> h = k) \<and>
     (\<forall>h. lcpu (lk s) = Some h \<longleftrightarrow> hpc s h = Inside) \<and>
     (\<forall>h. cpu_ok (hart s h)) \<and>
     (\<forall>h. hpc s h \<noteq> Outside \<longrightarrow> 0 < noff (hart s h))"

lemma cpu_ok_pop_off: "cpu_ok c \<Longrightarrow> pop_off c = Ok c' \<Longrightarrow> cpu_ok c'"
  by (auto simp: cpu_ok_def pop_off_def Let_def intr_defs split: if_splits)

lemma lock_inv_step: "lock_step s t \<Longrightarrow> lock_inv s \<Longrightarrow> lock_inv t"
proof (induction rule: lock_step.induct)
  case (enter s h c)
  then have c: "c = push_off (hart s h)" and "0 \<le> noff (hart s h)"
    by (auto simp: lock_inv_def acquire_enter_def Let_def cpu_ok_def split: if_splits)
  with enter.hyps(1) enter.prems show ?case
    by (auto simp: lock_inv_def owns_def cpu_ok_push_off)
next
  case (spin s h l)
  then show ?case by (auto simp: lock_inv_def test_and_set_def owns_def)
next
  case (swap s h l)
  then show ?case by (auto simp: lock_inv_def test_and_set_def owns_def)
next
  case (record_cpu s h)
  then show ?case by (auto simp: lock_inv_def owns_def)
next
  case (leave s h l)
  then show ?case
    by (auto simp: lock_inv_def release_check_def owns_def holding_def split: if_splits)
next
  case (unlock s h)
  then show ?case by (auto simp: lock_inv_def lock_release_def owns_def)
next
  case (pop s h c)
  then show ?case by (auto simp: lock_inv_def owns_def intro: cpu_ok_pop_off)
qed

lemma lock_reach_inv: "lock_reach s \<Longrightarrow> lock_inv s"
proof (induction rule: lock_reach.induct)
  case (boot s)
  then show ?case by (auto simp: lock_inv_def owns_def lock_free_def)
next
  case (step s t)
  then show ?case by (blast intro: lock_inv_step)
qed

subsection \<open>Properties\<close>

text \<open>
  C8: Spin locks, for any number of harts that acquire and release one lock in any
  interleaving: at most one of them is between its successful swap and the store that frees the
  lock; the holder runs with interrupts off; and no hart ever runs into one of the panics of
  \<open>acquire\<close>, \<open>release\<close> or \<open>pop_off\<close>.
\<close>

theorem spinlock_mutual_exclusion:
  assumes "lock_reach s"
  shows "(owns (hpc s h) \<and> owns (hpc s k) \<longrightarrow> h = k) \<and>
    (hpc s h \<noteq> Outside \<longrightarrow> \<not> intr_get (hart s h)) \<and>
    (hpc s h = Outside \<longrightarrow> is_Ok (acquire_enter h (hart s h) (lk s))) \<and>
    (hpc s h = Inside \<longrightarrow> is_Ok (release_check h (lk s))) \<and>
    (hpc s h = Popping \<longrightarrow> is_Ok (pop_off (hart s h)))"
proof -
  from assms have inv: "lock_inv s" by (rule lock_reach_inv)
  then have *: "lcpu (lk s) = Some h \<longleftrightarrow> hpc s h = Inside" "cpu_ok (hart s h)"
    "owns (hpc s h) \<Longrightarrow> locked (lk s)" "hpc s h \<noteq> Outside \<Longrightarrow> 0 < noff (hart s h)"
    "owns (hpc s h) \<and> owns (hpc s k) \<longrightarrow> h = k"
    by (auto simp: lock_inv_def)
  then show ?thesis
    by (auto simp: acquire_enter_def release_check_def pop_off_def holding_def owns_def Let_def
        cpu_ok_def intr_defs)
qed

text \<open>Two harts, one that has the lock and one that waits for it.\<close>

definition free_sys :: lock_sys where
  "free_sys = \<lparr>lk = initlock ''kmem'' \<lparr>locked = False, lname = [], lcpu = None\<rparr>,
     hart = (\<lambda>_. \<lparr>cproc = None, noff = 0, intena = False, sie = True\<rparr>), hpc = (\<lambda>_. Outside)\<rparr>"

lemma free_sys_reach: "lock_reach free_sys"
  by (rule lock_reach.boot) (auto simp: free_sys_def initlock_def lock_free_def cpu_ok_def)

theorem spinlock_mutual_exclusion_witness:
  "\<exists>s. lock_reach s \<and> hpc s 0 = Swapped \<and> hpc s 1 = Spinning \<and> \<not> intr_get (hart s 0) \<and>
     \<not> owns (hpc s 1)"
proof -
  define c where "c = push_off (hart free_sys 0)"
  have a: "acquire_enter h (hart free_sys h) (lk free_sys) = Ok c" for h
    by (simp add: acquire_enter_def holding_def free_sys_def initlock_def c_def)
  define s1 where "s1 = free_sys\<lparr>hart := (hart free_sys)(0 := c), hpc := (hpc free_sys)(0 := Spinning)\<rparr>"
  have r1: "lock_reach s1"
    unfolding s1_def
    by (rule lock_reach.step [OF free_sys_reach enter [OF _ a]]) (simp add: free_sys_def)
  define s2 where "s2 = s1\<lparr>hart := (hart s1)(1 := c), hpc := (hpc s1)(1 := Spinning)\<rparr>"
  have "lock_step s1 s2"
    unfolding s2_def by (rule enter) (use a [of 1] in \<open>simp_all add: s1_def free_sys_def\<close>)
  then have r2: "lock_reach s2" by (rule lock_reach.step [OF r1])
  define s3 where "s3 = s2\<lparr>lk := (lk s2)\<lparr>locked := True\<rparr>, hpc := (hpc s2)(0 := Swapped)\<rparr>"
  have "lock_step s2 s3"
    unfolding s3_def
    by (rule swap)
      (simp_all add: s2_def s1_def test_and_set_def free_sys_def initlock_def)
  then have r3: "lock_reach s3" by (rule lock_reach.step [OF r2])
  have "hpc s3 0 = Swapped" "hpc s3 1 = Spinning"
    by (simp_all add: s3_def s2_def s1_def)
  with r3 spinlock_mutual_exclusion [OF r3, of 0 1] show ?thesis
    by (auto simp: owns_def)
qed

end
