(* ===== verification/Kalloc.thy ===== *)
theory Kalloc
  imports Riscv
begin

text \<open>
  The physical page allocator with reference counts, \<open>kernel/kalloc.c\<close>.

  The state is physical memory, the head of the free list (the list runs through the first
  eight bytes of each free page, \<open>struct run\<close>), the array \<open>refcnt\<close> and the address
  \<open>end\<close> the linker gives to the end of the kernel image. \<open>kmem.lock\<close> brackets each
  critical section, so an operation is one step on this state.

  The invariant \<open>kinv s xs\<close>: the free list in memory is \<open>xs\<close>, without repetition,
  and a page the allocator manages is on it exactly when its reference count is zero. Every
  operation keeps it; the locale \<open>page_alloc\<close> states what the clients rely on.
\<close>

record kmem =
  phys :: mem
  freelist :: u64
  refcnt :: "nat \<Rightarrow> int"
  kend :: u64

text \<open>\<open>PHYSTOP / PGSIZE\<close>, the length of \<open>refcnt[]\<close>, and the index of a page.\<close>

abbreviation NPG :: nat where "NPG \<equiv> 557056"

definition pgno :: "u64 \<Rightarrow> nat" where
  "pgno pa = unat pa div 4096"

definition INT_MAX :: int where
  "INT_MAX = 2147483647"

subsection \<open>Operations\<close>

text \<open>The loop of \<open>JUNKFILL\<close> is that of \<open>memset\<close> over one page.\<close>

definition JUNKFILL :: "u64 \<Rightarrow> u8 \<Rightarrow> mem \<Rightarrow> mem" where
  "JUNKFILL addr val m = memset_loop 0 4096 addr val m"

definition kalloc :: "kmem \<Rightarrow> (u64 \<times> kmem) res" where
  "kalloc s =
     (let r = freelist s in
      if r \<noteq> 0 then
        let pn = pgno r in
        if NPG \<le> pn then Err (Undef ''refcnt index'')
        else if refcnt s pn \<noteq> 0 then Err (Panic ''refcnt kalloc'')
        else
          let s = s\<lparr>refcnt := (refcnt s)(pn := 1)\<rparr>;
              s = s\<lparr>freelist := load64 (phys s) r\<rparr>
          in Ok (r, s\<lparr>phys := JUNKFILL r 5 (phys s)\<rparr>)
      else Ok (r, s))"

definition increase_cnt :: "u64 \<Rightarrow> kmem \<Rightarrow> kmem res" where
  "increase_cnt pa s =
     (let pn = pgno pa in
      if pa > PHYSTOP then Err (Panic ''Physical address is greater than PHYSTOP'')
      else if NPG \<le> pn then Err (Undef ''refcnt index'')
      else if refcnt s pn < 1 then Err (Panic ''Reference count is less than 1'')
      else if refcnt s pn = INT_MAX then Err (Undef ''refcnt overflow'')
      else Ok (s\<lparr>refcnt := (refcnt s)(pn := refcnt s pn + 1)\<rparr>))"

definition add2FL :: "u64 \<Rightarrow> kmem \<Rightarrow> kmem" where
  "add2FL r s = s\<lparr>phys := store64 (phys s) r (freelist s), freelist := r\<rparr>"

definition kfree :: "u64 \<Rightarrow> kmem \<Rightarrow> kmem res" where
  "kfree pa s =
     (if pa mod PGSIZE \<noteq> 0 \<or> pa < kend s \<or> pa \<ge> PHYSTOP
      then Err (Panic ''Invalid physical address in kfree'')
      else
        let pn = pgno pa in
        if refcnt s pn < 1 then Err (Panic ''Reference count is less than 1 in kfree'')
        else
          let s = s\<lparr>refcnt := (refcnt s)(pn := refcnt s pn - 1)\<rparr>;
              tmp = refcnt s pn
          in if tmp > 0 then Ok s
             else Ok (add2FL pa (s\<lparr>phys := JUNKFILL pa 1 (phys s)\<rparr>)))"

text \<open>\<open>for(; p + PGSIZE <= pa_end; p += PGSIZE)\<close>; forming a pointer past the end of the
  address space is undefined.\<close>

function freerange_loop :: "u64 \<Rightarrow> u64 \<Rightarrow> kmem \<Rightarrow> kmem res" where
  "freerange_loop p pa_end s =
     (if unat p + 4096 \<ge> 2 ^ 64 then Err (Undef ''pointer overflow'')
      else if p + PGSIZE \<le> pa_end then
        if NPG \<le> pgno p then Err (Undef ''refcnt index'')
        else bnd (kfree p (s\<lparr>refcnt := (refcnt s)(pgno p := 1)\<rparr>)) (\<lambda>s.
          freerange_loop (p + PGSIZE) pa_end s)
      else Ok s)"
  by pat_completeness auto
termination
  by (relation "measure (\<lambda>(p, _, _). 2 ^ 64 - unat p)") (auto simp: unat_word_ariths)

declare freerange_loop.simps [simp del]

definition freerange :: "u64 \<Rightarrow> u64 \<Rightarrow> kmem \<Rightarrow> kmem res" where
  "freerange pa_start pa_end s = freerange_loop (PGROUNDUP pa_start) pa_end s"

definition kinit :: "kmem \<Rightarrow> kmem res" where
  "kinit s = freerange (kend s) PHYSTOP s"

subsection \<open>Pages\<close>

lemma page_arith:
  fixes a b r :: nat
  assumes "r < 4096" "a * 4096 \<le> b * 4096 + r"
  shows "b * 4096 + r - a * 4096 < 4096 \<longleftrightarrow> b = a"
proof -
  have "a \<le> b" using assms by linarith
  then obtain d where "b = a + d" by (auto simp: le_iff_add)
  with assms(1) show ?thesis by (auto simp: add_mult_distrib)
qed

lemma in_page_iff:
  assumes "pg_aligned p"
  shows "unat (x - p) < 4096 \<longleftrightarrow> pgno x = pgno p"
proof -
  have p: "unat p = pgno p * 4096"
    using assms by (auto simp: pg_aligned_unat pgno_def)
  have x: "unat x = pgno x * 4096 + unat x mod 4096" "unat x mod 4096 < 4096"
    by (simp_all add: pgno_def)
  have lim: "pgno x < 4503599627370496" "pgno p < 4503599627370496"
    using unat_less_64 [of x] unat_less_64 [of p] by (simp_all add: pgno_def less_mult_imp_div_less)
  show ?thesis
  proof (cases "p \<le> x")
    case True
    then have "unat (x - p) = unat x - unat p"
      by (simp add: unat_sub_if' word_le_nat_alt)
    moreover have "unat p \<le> unat x" using True by (simp add: word_le_nat_alt)
    ultimately show ?thesis using p x page_arith [of "unat x mod 4096" "pgno p" "pgno x"] by simp
  next
    case False
    then have "unat (x - p) = unat x + 2 ^ 64 - unat p" "unat x < unat p"
      by (simp_all add: unat_sub_if' word_le_nat_alt)
    then show ?thesis using p x lim by auto
  qed
qed

lemma pgno_inj: "pg_aligned p \<Longrightarrow> pg_aligned q \<Longrightarrow> pgno p = pgno q \<Longrightarrow> p = q"
  by (metis dvd_div_mult_self mod_0_imp_dvd pg_aligned_unat pgno_def word_unat_eq_iff)

lemma pgno_add: "pg_aligned p \<Longrightarrow> i < 4096 \<Longrightarrow> pgno (p + of_nat i) = pgno p"
  by (subst in_page_iff [symmetric]) (simp_all add: unat_of_nat take_bit_nat_eq_self)

lemma JUNKFILL_eq:
  "pg_aligned p \<Longrightarrow> JUNKFILL p v m = (\<lambda>x. if pgno x = pgno p then v else m x)"
  by (auto simp: JUNKFILL_def memset_loop_eq in_page_iff fun_eq_iff)

lemma memset_page:
  "pg_aligned p \<Longrightarrow> memset p v 4096 m = (\<lambda>x. if pgno x = pgno p then v else m x)"
  by (auto simp: memset_eq in_page_iff fun_eq_iff)

lemma store64_page:
  "pg_aligned p \<Longrightarrow> pgno x \<noteq> pgno p \<Longrightarrow> store64 m p v x = m x"
  using in_page_iff [of p x] by (intro store64_other) simp

text \<open>Two memories that agree outside a page agree on every cell of other pages.\<close>

lemma load64_other_page:
  assumes "pg_aligned q" "k \<le> 4088" "\<And>x. pgno x = pgno q \<Longrightarrow> m x = m' x"
  shows "load64 m (q + of_nat k) = load64 m' (q + of_nat k)"
proof (rule load64_cong)
  fix i :: nat
  assume "i < 8"
  then have "pgno (q + of_nat (k + i)) = pgno q"
    using assms by (intro pgno_add) auto
  then show "m (q + of_nat k + of_nat i) = m' (q + of_nat k + of_nat i)"
    using assms(3) by (simp add: add.assoc)
qed

lemma load64_other_page0:
  "pg_aligned q \<Longrightarrow> (\<And>x. pgno x = pgno q \<Longrightarrow> m x = m' x) \<Longrightarrow> load64 m q = load64 m' q"
  using load64_other_page [of q 0 m m'] by simp

subsection \<open>The free list in memory\<close>

primrec fl_list :: "mem \<Rightarrow> u64 \<Rightarrow> u64 list \<Rightarrow> bool" where
  "fl_list m r [] \<longleftrightarrow> r = 0"
| "fl_list m r (x # xs) \<longleftrightarrow> r = x \<and> x \<noteq> 0 \<and> fl_list m (load64 m x) xs"

lemma fl_list_0 [simp]: "fl_list m 0 xs \<longleftrightarrow> xs = []"
  by (cases xs) auto

lemma fl_list_cong:
  assumes "fl_list m r xs" "\<And>x. x \<in> set xs \<Longrightarrow> load64 m' x = load64 m x"
  shows "fl_list m' r xs"
  using assms by (induction xs arbitrary: r) auto

lemma fl_list_other_page:
  assumes "fl_list m r xs" "\<And>x. x \<in> set xs \<Longrightarrow> pg_aligned x"
    "\<And>a. pgno a \<in> pgno ` set xs \<Longrightarrow> m' a = m a"
  shows "fl_list m' r xs"
  by (rule fl_list_cong [OF assms(1)]) (rule load64_other_page0, use assms in auto)

text \<open>The pages the allocator hands out.\<close>

definition managed :: "kmem \<Rightarrow> u64 \<Rightarrow> bool" where
  "managed s p \<longleftrightarrow> pg_aligned p \<and> kend s \<le> p \<and> p < PHYSTOP"

definition flinv :: "kmem \<Rightarrow> u64 list \<Rightarrow> bool" where
  "flinv s xs \<longleftrightarrow> 0 < kend s \<and> fl_list (phys s) (freelist s) xs \<and> distinct xs \<and>
     (\<forall>x\<in>set xs. managed s x \<and> refcnt s (pgno x) = 0)"

definition kinv :: "kmem \<Rightarrow> u64 list \<Rightarrow> bool" where
  "kinv s xs \<longleftrightarrow> flinv s xs \<and>
     (\<forall>p. managed s p \<longrightarrow> 0 \<le> refcnt s (pgno p) \<and> (refcnt s (pgno p) = 0 \<longrightarrow> p \<in> set xs))"

lemma managed_cong: "kend s' = kend s \<Longrightarrow> managed s' = managed s"
  by (simp add: managed_def fun_eq_iff)

lemma managed_aligned: "managed s p \<Longrightarrow> pg_aligned p"
  by (simp add: managed_def)

lemma managed_pgno: "managed s p \<Longrightarrow> pgno p < NPG"
  by (simp add: managed_def pgno_def word_less_nat_alt less_mult_imp_div_less)

lemma managed_pgno_eq: "managed s p \<Longrightarrow> managed s q \<Longrightarrow> pgno p = pgno q \<longleftrightarrow> p = q"
  by (auto dest: pgno_inj simp: managed_def)

lemma managed_kfree_guard:
  "managed s p \<Longrightarrow> \<not> (p mod PGSIZE \<noteq> 0 \<or> p < kend s \<or> p \<ge> PHYSTOP)"
  by (auto simp: managed_def pg_aligned_def)

lemma managed_nonzero: "flinv s xs \<Longrightarrow> managed s p \<Longrightarrow> p \<noteq> 0"
  by (auto simp: managed_def flinv_def)

lemma flinv_aligned: "flinv s xs \<Longrightarrow> x \<in> set xs \<Longrightarrow> pg_aligned x"
  by (auto simp: flinv_def managed_def)

lemma kinv_flinv: "kinv s xs \<Longrightarrow> flinv s xs"
  by (simp add: kinv_def)

lemma kinv_free_iff: "kinv s xs \<Longrightarrow> managed s p \<Longrightarrow> refcnt s (pgno p) = 0 \<longleftrightarrow> p \<in> set xs"
  by (auto simp: kinv_def flinv_def)

lemma kinv_ref_nonneg: "kinv s xs \<Longrightarrow> managed s p \<Longrightarrow> 0 \<le> refcnt s (pgno p)"
  by (simp add: kinv_def)

text \<open>A positive count on a page in use changes nothing else.\<close>

lemma kinv_ref_upd:
  assumes "kinv s xs" "managed s p" "p \<notin> set xs" "0 < v"
  shows "kinv (s\<lparr>refcnt := (refcnt s)(pgno p := v)\<rparr>) xs"
proof -
  have ne: "pgno a \<noteq> pgno p" if "a \<in> set xs" for a
    using assms that managed_pgno_eq [of s a p] by (auto simp: kinv_def flinv_def)
  have man: "managed (s\<lparr>refcnt := r\<rparr>) = managed s" for r
    by (rule managed_cong) simp
  have "flinv (s\<lparr>refcnt := (refcnt s)(pgno p := v)\<rparr>) xs"
    using assms(1) ne by (simp add: kinv_def flinv_def man)
  moreover have "0 \<le> ((refcnt s)(pgno p := v)) (pgno q) \<and>
      (((refcnt s)(pgno p := v)) (pgno q) = 0 \<longrightarrow> q \<in> set xs)" if "managed s q" for q
    using assms that by (simp add: kinv_def)
  ultimately show ?thesis
    by (simp add: kinv_def man)
qed

lemma kalloc_empty: "kinv s [] \<Longrightarrow> kalloc s = Ok (0, s)"
  by (simp add: kinv_def flinv_def kalloc_def)

lemma kalloc_Cons:
  assumes "kinv s (x # xs)"
  shows "\<exists>s'. kalloc s = Ok (x, s') \<and> kinv s' xs \<and> kend s' = kend s \<and>
    refcnt s' = (refcnt s)(pgno x := 1) \<and>
    phys s' = (\<lambda>a. if pgno a = pgno x then 5 else phys s a)"
proof -
  have fl: "flinv s (x # xs)" and man: "managed s x" and r0: "refcnt s (pgno x) = 0"
    and nx: "x \<noteq> 0" and ali: "pg_aligned x"
    using assms by (auto simp: kinv_def flinv_def managed_def)
  define s' where "s' = s\<lparr>refcnt := (refcnt s)(pgno x := 1), freelist := load64 (phys s) x,
    phys := JUNKFILL x 5 (phys s)\<rparr>"
  have ne: "pgno a \<noteq> pgno x" if "a \<in> set xs" for a
    using fl that man managed_pgno_eq [of s a x] by (auto simp: flinv_def)
  have "kalloc s = Ok (x, s')"
    using fl nx r0 managed_pgno [OF man]
    by (simp add: kalloc_def flinv_def s'_def Let_def)
  moreover have "fl_list (phys s') (freelist s') xs"
  proof (rule fl_list_other_page [where m = "phys s"])
    show "fl_list (phys s) (freelist s') xs"
      using fl by (simp add: flinv_def s'_def)
    show "phys s' a = phys s a" if "pgno a \<in> pgno ` set xs" for a
    proof -
      have "pgno a \<noteq> pgno x" using that ne by (metis imageE)
      then show ?thesis by (simp add: s'_def JUNKFILL_eq [OF ali])
    qed
  qed (use flinv_aligned [OF fl] in auto)
  then have "flinv s' xs"
    using fl ne by (auto simp: flinv_def s'_def managed_def)
  moreover have "kinv s' xs"
    unfolding kinv_def
  proof (intro conjI allI impI)
    fix p
    assume "managed s' p"
    then have "managed s p" by (simp add: managed_def s'_def)
    then show "0 \<le> refcnt s' (pgno p)" "refcnt s' (pgno p) = 0 \<Longrightarrow> p \<in> set xs"
      using assms managed_pgno_eq [OF _ man, of p]
      by (auto simp: kinv_def s'_def split: if_splits)
  qed fact
  ultimately show ?thesis
    by (auto simp: s'_def JUNKFILL_eq [OF ali])
qed

lemma kfree_shared:
  assumes "kinv s xs" "managed s p" "1 < refcnt s (pgno p)"
  shows "\<exists>s'. kfree p s = Ok s' \<and> kinv s' xs \<and> kend s' = kend s \<and> phys s' = phys s \<and>
    refcnt s' = (refcnt s)(pgno p := refcnt s (pgno p) - 1)"
proof -
  define s' where "s' = s\<lparr>refcnt := (refcnt s)(pgno p := refcnt s (pgno p) - 1)\<rparr>"
  have "kfree p s = Ok s'"
    using assms managed_kfree_guard [OF assms(2)] by (simp add: kfree_def Let_def s'_def)
  moreover have "p \<notin> set xs"
    using kinv_free_iff [OF assms(1,2)] assms(3) by simp
  then have "kinv s' xs"
    using assms unfolding s'_def by (intro kinv_ref_upd) auto
  ultimately show ?thesis by (simp add: s'_def)
qed

text \<open>Giving back the last reference, from a state where the page is not on the list.\<close>

lemma kfree_last_flinv:
  assumes "flinv s xs" "managed s p" "refcnt s (pgno p) = 1" "p \<notin> set xs"
  shows "\<exists>s'. kfree p s = Ok s' \<and> flinv s' (p # xs) \<and> kend s' = kend s \<and>
    (\<forall>a. pgno a \<noteq> pgno p \<longrightarrow> phys s' a = phys s a) \<and>
    refcnt s' = (refcnt s)(pgno p := 0)"
proof -
  have ali: "pg_aligned p" by (rule managed_aligned [OF assms(2)])
  define t where "t = s\<lparr>refcnt := (refcnt s)(pgno p := 0), phys := JUNKFILL p 1 (phys s)\<rparr>"
  define s' where "s' = add2FL p t"
  have ne: "pgno a \<noteq> pgno p" if "a \<in> set xs" for a
    using assms that managed_pgno_eq [of s a p] by (auto simp: flinv_def)
  have same: "phys s' a = phys s a" if "pgno a \<noteq> pgno p" for a
    using that by (simp add: s'_def add2FL_def t_def store64_page [OF ali] JUNKFILL_eq [OF ali])
  have "kfree p s = Ok s'"
    using assms managed_kfree_guard [OF assms(2)]
    by (simp add: kfree_def Let_def s'_def t_def)
  moreover have "fl_list (phys s') (freelist s) xs"
  proof (rule fl_list_other_page [where m = "phys s"])
    show "fl_list (phys s) (freelist s) xs"
      using assms(1) by (simp add: flinv_def)
    show "phys s' a = phys s a" if "pgno a \<in> pgno ` set xs" for a
    proof -
      have "pgno a \<noteq> pgno p" using that ne by (metis imageE)
      then show ?thesis by (rule same)
    qed
  qed (use flinv_aligned [OF assms(1)] in auto)
  then have "fl_list (phys s') (freelist s') (p # xs)"
    using managed_nonzero [OF assms(1,2)]
    by (simp add: s'_def add2FL_def t_def load64_store64)
  then have "flinv s' (p # xs)"
    using assms ne by (auto simp: flinv_def s'_def add2FL_def t_def managed_def)
  ultimately show ?thesis
    using same by (auto simp: s'_def add2FL_def t_def)
qed

lemma kfree_last:
  assumes "kinv s xs" "managed s p" "refcnt s (pgno p) = 1"
  shows "\<exists>s'. kfree p s = Ok s' \<and> kinv s' (p # xs) \<and> kend s' = kend s \<and>
    (\<forall>a. pgno a \<noteq> pgno p \<longrightarrow> phys s' a = phys s a) \<and>
    refcnt s' = (refcnt s)(pgno p := 0)"
proof -
  have "p \<notin> set xs"
    using kinv_free_iff [OF assms(1,2)] assms(3) by simp
  then obtain s' where s': "kfree p s = Ok s'" "flinv s' (p # xs)" "kend s' = kend s"
      "\<forall>a. pgno a \<noteq> pgno p \<longrightarrow> phys s' a = phys s a" "refcnt s' = (refcnt s)(pgno p := 0)"
    using kfree_last_flinv [OF kinv_flinv [OF assms(1)] assms(2,3)] by blast
  moreover have "kinv s' (p # xs)"
    unfolding kinv_def
  proof (intro conjI allI impI)
    fix q
    assume "managed s' q"
    then have "managed s q" by (simp add: managed_cong [OF s'(3)])
    then show "0 \<le> refcnt s' (pgno q)" "refcnt s' (pgno q) = 0 \<Longrightarrow> q \<in> set (p # xs)"
      using s'(5) assms(1) managed_pgno_eq [OF _ assms(2), of q]
      by (auto simp: kinv_def split: if_splits)
  qed fact
  ultimately show ?thesis by blast
qed

lemma increase_cnt_ok:
  assumes "kinv s xs" "managed s p" "1 \<le> refcnt s (pgno p)" "refcnt s (pgno p) < INT_MAX"
  shows "increase_cnt p s = Ok (s\<lparr>refcnt := (refcnt s)(pgno p := refcnt s (pgno p) + 1)\<rparr>)"
    "kinv (s\<lparr>refcnt := (refcnt s)(pgno p := refcnt s (pgno p) + 1)\<rparr>) xs"
proof -
  show "increase_cnt p s = Ok (s\<lparr>refcnt := (refcnt s)(pgno p := refcnt s (pgno p) + 1)\<rparr>)"
    using assms managed_pgno [OF assms(2)]
    by (auto simp: increase_cnt_def Let_def managed_def)
  have "p \<notin> set xs"
    using kinv_free_iff [OF assms(1,2)] assms(3) by simp
  then show "kinv (s\<lparr>refcnt := (refcnt s)(pgno p := refcnt s (pgno p) + 1)\<rparr>) xs"
    using assms by (intro kinv_ref_upd) auto
qed

subsection \<open>Initialisation\<close>

lemma pg_aligned_add: "pg_aligned p \<Longrightarrow> unat p + 4096 < 2 ^ 64 \<Longrightarrow> pg_aligned (p + PGSIZE)"
  by (simp add: pg_aligned_unat unat_word_ariths)

lemma pg_aligned_less_add:
  assumes "pg_aligned p" "pg_aligned q" "unat p + 4096 < 2 ^ 64"
  shows "q < p + PGSIZE \<longleftrightarrow> q < p \<or> q = p"
proof -
  have "unat p = pgno p * 4096" "unat q = pgno q * 4096" "unat (p + PGSIZE) = pgno p * 4096 + 4096"
    using assms by (auto simp: pg_aligned_unat pgno_def unat_word_ariths)
  then show ?thesis
    by (auto simp: word_less_nat_alt word_unat_eq_iff)
qed

lemma freerange_loop_kinv:
  assumes "flinv s xs" "set xs = {q. managed s q \<and> q < p}" "pg_aligned p" "kend s \<le> p" "p \<le> PHYSTOP"
  shows "\<exists>s' ys. freerange_loop p PHYSTOP s = Ok s' \<and> kinv s' ys \<and> kend s' = kend s \<and>
    set ys = {q. managed s q}"
  using assms
proof (induction p "PHYSTOP" s arbitrary: xs rule: freerange_loop.induct)
  case (1 p s)
  have ov: "unat p + 4096 < 2 ^ 64"
    using "1.prems"(5) by (simp add: word_le_nat_alt)
  show ?case
  proof (cases "p = PHYSTOP")
    case True
    then have "freerange_loop p PHYSTOP s = Ok s"
      by (subst freerange_loop.simps) simp
    moreover have "kinv s xs" "set xs = {q. managed s q}"
      using "1.prems"(1,2) True by (auto simp: kinv_def flinv_def managed_def)
    ultimately show ?thesis by blast
  next
    case False
    then have lt: "p < PHYSTOP" using "1.prems"(5) by simp
    then have le: "p + PGSIZE \<le> PHYSTOP"
      using "1.prems"(3) ov pg_aligned_less_add [of p PHYSTOP]
      by (auto simp: pg_aligned_unat not_le [symmetric])
    have man: "managed s p"
      using "1.prems" lt by (simp add: managed_def)
    define s1 where "s1 = s\<lparr>refcnt := (refcnt s)(pgno p := 1)\<rparr>"
    have man1: "managed s1 = managed s" by (rule managed_cong) (simp add: s1_def)
    have notin: "p \<notin> set xs" using "1.prems"(2) by simp
    have "flinv s1 xs"
      using "1.prems"(1) notin man managed_pgno_eq [of s _ p]
      unfolding flinv_def man1 by (auto simp: s1_def)
    then obtain s2 where s2: "kfree p s1 = Ok s2" "flinv s2 (p # xs)" "kend s2 = kend s1"
      using kfree_last_flinv [of s1 xs p] man notin man1 by (auto simp: s1_def)
    have man2: "managed s2 = managed s"
      using s2(3) by (intro managed_cong) (simp add: s1_def)
    have run: "freerange_loop p PHYSTOP s = freerange_loop (p + PGSIZE) PHYSTOP s2"
      using ov le managed_pgno [OF man] s2(1)
      by (subst freerange_loop.simps) (simp add: s1_def)
    have "\<exists>s' ys. freerange_loop (p + PGSIZE) PHYSTOP s2 = Ok s' \<and> kinv s' ys \<and>
        kend s' = kend s2 \<and> set ys = {q. managed s2 q}"
    proof (rule "1.hyps")
      have "managed s q \<and> q < p + PGSIZE \<longleftrightarrow> managed s q \<and> q < p \<or> q = p" for q
        using pg_aligned_less_add [OF "1.prems"(3) _ ov, of q] managed_aligned [of s q] man by blast
      then show "set (p # xs) = {q. managed s2 q \<and> q < p + PGSIZE}"
        using "1.prems"(2) unfolding man2 by auto
      show "kend s2 \<le> p + PGSIZE"
      proof -
        have "kend s2 \<le> p" using "1.prems"(4) s2(3) by (simp add: s1_def)
        moreover have "p < p + PGSIZE"
          using pg_aligned_less_add [OF "1.prems"(3,3) ov] by simp
        ultimately show ?thesis by simp
      qed
    qed (use ov le s2 managed_pgno [OF man] "1.prems"(3) in \<open>auto simp: s1_def not_le pg_aligned_add\<close>)
    then show ?thesis
      using run man2 s2(3) by (auto simp: s1_def)
  qed
qed

lemma kinit_kinv:
  assumes "freelist s = 0" "0 < kend s" "kend s \<le> PHYSTOP"
  shows "\<exists>s' ys. kinit s = Ok s' \<and> kinv s' ys \<and> kend s' = kend s \<and> set ys = {q. managed s q}"
proof -
  let ?p = "PGROUNDUP (kend s)"
  have k: "unat (kend s) \<le> 2281701376"
    using assms(3) by (simp add: word_le_nat_alt)
  then have u: "unat ?p = (unat (kend s) + 4095) div 4096 * 4096"
    by (intro unat_PGROUNDUP) simp
  have le: "kend s \<le> ?p" "?p \<le> PHYSTOP"
    using k u by (simp_all add: word_le_nat_alt)
  have none: "\<not> (managed s q \<and> q < ?p)" for q
  proof
    assume q: "managed s q \<and> q < ?p"
    then have "unat q mod 4096 = 0" "unat (kend s) \<le> unat q" "unat q < unat ?p"
      by (auto simp: managed_def pg_aligned_unat word_le_nat_alt word_less_nat_alt)
    then obtain n where n: "unat q = n * 4096" "unat (kend s) \<le> n * 4096" "n * 4096 < unat ?p"
      by (metis mod_0_imp_dvd dvd_div_mult_self)
    have "(unat (kend s) + 4095) div 4096 \<le> (n * 4096 + 4095) div 4096"
      using n(2) by (intro div_le_mono) simp
    also have "\<dots> = n" by simp
    finally show False using n(3) u by simp
  qed
  have "flinv s []"
    using assms by (simp add: flinv_def)
  then show ?thesis
    unfolding kinit_def freerange_def
    using none le by (intro freerange_loop_kinv) auto
qed

subsection \<open>What the clients rely on\<close>

text \<open>Clients see an allocator with an explicit free list and a reference count per page.\<close>

locale page_alloc =
  fixes alloc :: "'s \<Rightarrow> (u64 \<times> 's) res"
    and dealloc :: "u64 \<Rightarrow> 's \<Rightarrow> 's res"
    and inv :: "'s \<Rightarrow> u64 list \<Rightarrow> bool"
    and ref :: "'s \<Rightarrow> u64 \<Rightarrow> int"
    and page :: "'s \<Rightarrow> u64 \<Rightarrow> bool"
  assumes alloc_none: "inv s [] \<Longrightarrow> alloc s = Ok (0, s)"
    and alloc_some: "inv s (x # xs) \<Longrightarrow> \<exists>s'. alloc s = Ok (x, s') \<and> inv s' xs \<and>
      page s' = page s \<and> ref s' x = 1 \<and> (\<forall>q. page s q \<longrightarrow> q \<noteq> x \<longrightarrow> ref s' q = ref s q)"
    and dealloc_last: "inv s xs \<Longrightarrow> page s p \<Longrightarrow> ref s p = 1 \<Longrightarrow>
      \<exists>s'. dealloc p s = Ok s' \<and> inv s' (p # xs) \<and> page s' = page s \<and> ref s' p = 0 \<and>
        (\<forall>q. page s q \<longrightarrow> q \<noteq> p \<longrightarrow> ref s' q = ref s q)"
    and free_pages: "inv s xs \<Longrightarrow> x \<in> set xs \<Longrightarrow> page s x \<and> ref s x = 0 \<and> x \<noteq> 0"
    and free_iff: "inv s xs \<Longrightarrow> page s p \<Longrightarrow> ref s p = 0 \<Longrightarrow> p \<in> set xs"
begin

lemma alloc_total: "inv s xs \<Longrightarrow> is_Ok (alloc s)"
  using alloc_none alloc_some by (cases xs) fastforce+

lemma alloc_result:
  assumes "inv s xs" "alloc s = Ok (p, s')"
  shows "(p = 0 \<and> s' = s \<and> xs = []) \<or>
    (\<exists>ys. xs = p # ys \<and> p \<noteq> 0 \<and> page s p \<and> ref s p = 0 \<and> ref s' p = 1 \<and> inv s' ys)"
proof (cases xs)
  case Nil
  with assms alloc_none show ?thesis by auto
next
  case (Cons x ys)
  then obtain t where "alloc s = Ok (x, t)" "inv t ys" "ref t x = 1"
    using assms(1) alloc_some by blast
  moreover have "page s x \<and> ref s x = 0 \<and> x \<noteq> 0"
    using free_pages assms(1) Cons by simp
  ultimately show ?thesis
    using assms(2) Cons by auto
qed

text \<open>Out of memory is the only reason for a null result.\<close>

lemma alloc_null_iff: "inv s xs \<Longrightarrow> alloc s = Ok (p, s') \<Longrightarrow> p = 0 \<longleftrightarrow> xs = []"
  using alloc_result by blast

text \<open>A page that is given back at once is the next one handed out.\<close>

lemma alloc_dealloc:
  assumes "inv s xs" "alloc s = Ok (p, s')" "p \<noteq> 0"
  shows "\<exists>t. dealloc p s' = Ok t \<and> inv t xs \<and> ref t p = 0"
proof -
  obtain x ys where xs: "xs = x # ys"
    using assms alloc_none by (cases xs) auto
  obtain u where u: "alloc s = Ok (x, u)" "inv u ys" "page u = page s" "ref u x = 1"
    using alloc_some assms(1) xs by blast
  have "page u x"
    using free_pages [OF assms(1)] xs u by simp
  then show ?thesis
    using dealloc_last [of u ys x] u assms(2) xs by auto
qed

end

interpretation ka: page_alloc kalloc kfree kinv "\<lambda>s p. refcnt s (pgno p)" managed
proof unfold_locales
  fix s x xs
  assume inv: "kinv s (x # xs)"
  then obtain s' where s': "kalloc s = Ok (x, s')" "kinv s' xs" "kend s' = kend s"
      "refcnt s' = (refcnt s)(pgno x := 1)"
    using kalloc_Cons by blast
  have "managed s x" using inv by (simp add: kinv_def flinv_def)
  then show "\<exists>s'. kalloc s = Ok (x, s') \<and> kinv s' xs \<and> managed s' = managed s \<and>
      refcnt s' (pgno x) = 1 \<and>
      (\<forall>q. managed s q \<longrightarrow> q \<noteq> x \<longrightarrow> refcnt s' (pgno q) = refcnt s (pgno q))"
    using s' managed_cong [of s' s] managed_pgno_eq by auto
next
  fix s xs p
  assume *: "kinv s xs" "managed s p" "refcnt s (pgno p) = 1"
  then obtain s' where "kfree p s = Ok s'" "kinv s' (p # xs)" "kend s' = kend s"
      "refcnt s' = (refcnt s)(pgno p := 0)"
    using kfree_last by blast
  then show "\<exists>s'. kfree p s = Ok s' \<and> kinv s' (p # xs) \<and> managed s' = managed s \<and>
      refcnt s' (pgno p) = 0 \<and>
      (\<forall>q. managed s q \<longrightarrow> q \<noteq> p \<longrightarrow> refcnt s' (pgno q) = refcnt s (pgno q))"
    using * managed_cong [of s' s] managed_pgno_eq by auto
next
  fix s xs x
  assume "kinv s xs" "x \<in> set xs"
  then show "managed s x \<and> refcnt s (pgno x) = 0 \<and> x \<noteq> 0"
    using managed_nonzero by (auto simp: kinv_def flinv_def)
qed (auto simp: kalloc_empty kinv_def)

subsection \<open>Properties\<close>

text \<open>A machine with one page above the kernel image, for the witnesses.\<close>

definition one_page :: kmem where
  "one_page = \<lparr>phys = (\<lambda>_. 0), freelist = 0x87FFF000, refcnt = (\<lambda>_. 0), kend = 0x87FFF000\<rparr>"

lemma of_le_zero: "of_le (map (\<lambda>_. 0) xs) = (0 :: 'a::len word)"
  by (induction xs) auto

lemma load64_zero [simp]: "load64 (\<lambda>_. 0) a = 0"
  by (simp add: load64_def load_bytes_def of_le_zero)

lemma managed_one_page: "managed one_page p \<longleftrightarrow> p = 0x87FFF000"
proof
  assume "managed one_page p"
  then have "unat p mod 4096 = 0" "2281697280 \<le> unat p" "unat p < 2281701376"
    by (auto simp: managed_def one_page_def pg_aligned_unat word_le_nat_alt word_less_nat_alt)
  moreover then obtain k where "unat p = 4096 * k"
    by (auto simp: mod_eq_0_iff_dvd)
  ultimately have "k = 557055"
    by simp
  with \<open>unat p = 4096 * k\<close> have "unat p = 2281697280"
    by simp
  then show "p = 0x87FFF000"
    by (simp add: word_unat_eq_iff)
qed (simp add: managed_def one_page_def pg_aligned_def)

lemma kinv_one_page: "kinv one_page [0x87FFF000]"
  unfolding kinv_def flinv_def managed_one_page by (simp add: one_page_def)

text \<open>
  C6: The allocator's boot: from an empty free list, \<open>kinit\<close> returns, and afterwards the
  free list holds exactly the pages between \<open>end\<close> and \<open>PHYSTOP\<close>, once each, with
  every reference count zero (\<open>kinv\<close>).
\<close>

theorem kinit_establishes_invariant:
  assumes "freelist s = 0" "0 < kend s" "kend s \<le> PHYSTOP"
  shows "\<exists>s' ys. kinit s = Ok s' \<and> kinv s' ys \<and> kend s' = kend s \<and> set ys = {q. managed s q}"
  using kinit_kinv [OF assms] .

theorem kinit_establishes_invariant_witness:
  "\<exists>s' ys. kinit (one_page\<lparr>freelist := 0\<rparr>) = Ok s' \<and> kinv s' ys \<and> set ys = {0x87FFF000}"
proof -
  have m: "managed (one_page\<lparr>freelist := 0\<rparr>) = managed one_page"
    by (rule managed_cong) simp
  have "\<exists>s' ys. kinit (one_page\<lparr>freelist := 0\<rparr>) = Ok s' \<and> kinv s' ys \<and>
      kend s' = kend (one_page\<lparr>freelist := 0\<rparr>) \<and> set ys = {q. managed (one_page\<lparr>freelist := 0\<rparr>) q}"
    by (rule kinit_establishes_invariant) (simp_all add: one_page_def)
  then show ?thesis
    unfolding m managed_one_page by auto
qed

text \<open>
  \<open>kalloc\<close> under the invariant never panics. With an empty list it returns 0 and changes
  nothing; otherwise it returns the first free page, which now has reference count 1 and is filled
  with the byte 5, and no other byte of memory and no other count changes.
\<close>

theorem kalloc_correct:
  assumes "kinv s xs"
  shows "case xs of
      [] \<Rightarrow> kalloc s = Ok (0, s)
    | x # ys \<Rightarrow> \<exists>s'. kalloc s = Ok (x, s') \<and> kinv s' ys \<and> x \<noteq> 0 \<and> refcnt s (pgno x) = 0 \<and>
        refcnt s' = (refcnt s)(pgno x := 1) \<and>
        phys s' = (\<lambda>a. if pgno a = pgno x then 5 else phys s a)"
proof (cases xs)
  case Nil
  with assms show ?thesis by (simp add: kalloc_empty)
next
  case (Cons x ys)
  with assms kalloc_Cons [of s x ys] ka.free_pages [of s "x # ys" x] show ?thesis by auto
qed

theorem kalloc_correct_witness:
  "\<exists>s'. kalloc one_page = Ok (0x87FFF000, s') \<and> kinv s' [] \<and> phys s' 0x87FFF123 = 5"
  using kalloc_correct [OF kinv_one_page] by (auto simp: pgno_def)

text \<open>
  C7: \<open>kfree\<close> of a page in use drops one reference. While others remain, memory and the free
  list stay as they are; with the last one the page goes back on the free list, and only that
  page's bytes change. A page that is free, outside \<open>[end, PHYSTOP)\<close> or not aligned panics.
\<close>

theorem kfree_correct:
  assumes "kinv s xs"
  shows "(\<not> managed s p \<longrightarrow> kfree p s = Err (Panic ''Invalid physical address in kfree'')) \<and>
    (managed s p \<and> p \<in> set xs \<longrightarrow>
      kfree p s = Err (Panic ''Reference count is less than 1 in kfree'')) \<and>
    (managed s p \<and> 1 < refcnt s (pgno p) \<longrightarrow> (\<exists>s'. kfree p s = Ok s' \<and> kinv s' xs \<and>
      phys s' = phys s \<and> refcnt s' = (refcnt s)(pgno p := refcnt s (pgno p) - 1))) \<and>
    (managed s p \<and> refcnt s (pgno p) = 1 \<longrightarrow> (\<exists>s'. kfree p s = Ok s' \<and> kinv s' (p # xs) \<and>
      (\<forall>a. pgno a \<noteq> pgno p \<longrightarrow> phys s' a = phys s a) \<and> refcnt s' = (refcnt s)(pgno p := 0)))"
proof (intro conjI impI; (elim conjE)?)
  assume "\<not> managed s p"
  then have "p mod PGSIZE \<noteq> 0 \<or> p < kend s \<or> PHYSTOP \<le> p"
    unfolding managed_def pg_aligned_def by (metis not_le)
  then show "kfree p s = Err (Panic ''Invalid physical address in kfree'')"
    unfolding kfree_def by (metis (full_types))
next
  assume "managed s p" "p \<in> set xs"
  then show "kfree p s = Err (Panic ''Reference count is less than 1 in kfree'')"
    using managed_kfree_guard [of s p] kinv_free_iff [OF assms, of p]
    by (simp add: kfree_def Let_def)
qed (use kfree_shared [OF assms] kfree_last [OF assms] in blast)+

theorem kfree_correct_witness:
  "kfree 0x87FFF001 one_page = Err (Panic ''Invalid physical address in kfree'') \<and>
   kfree 0x87FFF000 one_page = Err (Panic ''Reference count is less than 1 in kfree'')"
  using kfree_correct [OF kinv_one_page, of "0x87FFF001"]
    kfree_correct [OF kinv_one_page, of "0x87FFF000"]
  by (simp add: managed_one_page)

text \<open>
  The bound in \<open>increase_cnt\<close> is off by one: the address \<open>PHYSTOP\<close> itself passes
  the check \<open>pa > PHYSTOP\<close> and indexes \<open>refcnt[]\<close> one past its end.
\<close>

theorem increase_cnt_bound_off_by_one:
  "increase_cnt PHYSTOP s = Err (Undef ''refcnt index'')"
  by (simp add: increase_cnt_def pgno_def)

end
