(* ===== verification/Vm.thy ===== *)
theory Vm
  imports Kalloc
begin

text \<open>
  Sv39 page tables, \<open>kernel/vm.c\<close>, on the bytes of physical memory. The kernel maps
  physical memory onto itself, so a kernel pointer is a physical address and
  \<open>pagetable[i]\<close> is the 64-bit load or store at \<open>pagetable + 8 * i\<close>.

  \<^item> the operations, one definition each, on the state of the allocator (\<open>kmem\<close>);
  \<^item> \<open>ptab\<close> and \<open>leaf\<close>: the table a path of indices leads to and the entry a
    virtual address has; \<open>pt_wf\<close>: the tables of a root are distinct pages in use;
  \<^item> \<open>walk\<close> keeps all entries and the invariant, \<open>mappages\<close> adds exactly its
    mappings, \<open>uvmunmap\<close> removes exactly its range, \<open>uvmalloc\<close> and
    \<open>uvmcopy\<close> follow.

  A loop of the source that only ends at \<open>MAXVA\<close> ends there by the panic of
  \<open>walk\<close>. A null pointer from an unchecked \<open>kalloc\<close> is \<open>Undef\<close>.
\<close>

subsection \<open>Operations\<close>

primrec walk_level :: "nat \<Rightarrow> u64 \<Rightarrow> u64 \<Rightarrow> bool \<Rightarrow> kmem \<Rightarrow> (u64 \<times> kmem) res" where
  "walk_level 0 pagetable va alloc s = Ok (pagetable + 8 * PX 0 va, s)"
| "walk_level (Suc level) pagetable va alloc s =
     (let pte = pagetable + 8 * PX (Suc level) va;
          e = load64 (phys s) pte
      in if e AND PTE_V \<noteq> 0 then walk_level level (PTE2PA e) va alloc s
         else if \<not> alloc then Ok (0, s)
         else bnd (kalloc s) (\<lambda>(pt, s).
           if pt = 0 then Ok (0, s)
           else
             let s = s\<lparr>phys := memset pt 0 4096 (phys s)\<rparr>;
                 s = s\<lparr>phys := store64 (phys s) pte (PA2PTE pt OR PTE_V)\<rparr>
             in walk_level level pt va alloc s))"

definition walk :: "u64 \<Rightarrow> u64 \<Rightarrow> bool \<Rightarrow> kmem \<Rightarrow> (u64 \<times> kmem) res" where
  "walk pagetable va alloc s =
     (if va \<ge> MAXVA then Err (Panic ''walk'') else walk_level 2 pagetable va alloc s)"

definition walkaddr :: "u64 \<Rightarrow> u64 \<Rightarrow> kmem \<Rightarrow> u64 res" where
  "walkaddr pagetable va s =
     (if va \<ge> MAXVA then Ok 0
      else bnd (walk pagetable va False s) (\<lambda>(pte, s).
        if pte = 0 then Ok 0
        else
          let e = load64 (phys s) pte in
          if e AND PTE_V = 0 then Ok 0
          else if e AND PTE_U = 0 then Ok 0
          else Ok (PTE2PA e)))"

lemma walk_Ok_less: "walk pt va alloc s = Ok r \<Longrightarrow> va < MAXVA"
  by (simp add: walk_def not_le split: if_splits)

lemma unat_next_page: "a < MAXVA \<Longrightarrow> unat (a + PGSIZE) = unat a + 4096"
  by (simp add: word_less_nat_alt unat_word_ariths)

function mappages_loop :: "u64 \<Rightarrow> u64 \<Rightarrow> u64 \<Rightarrow> u64 \<Rightarrow> u64 \<Rightarrow> kmem \<Rightarrow> (int \<times> kmem) res" where
  "mappages_loop pagetable a lst pa perm s =
     bnd (walk pagetable a True s) (\<lambda>(pte, s).
       if pte = 0 then Ok (-1, s)
       else if load64 (phys s) pte AND PTE_V \<noteq> 0 then Err (Panic ''mappages: remap'')
       else
         let s = s\<lparr>phys := store64 (phys s) pte (PA2PTE pa OR perm OR PTE_V)\<rparr> in
         if a = lst then Ok (0, s)
         else mappages_loop pagetable (a + PGSIZE) lst (pa + PGSIZE) perm s)"
  by pat_completeness auto
termination
  by (relation "measure (\<lambda>(_, a, _). 2 ^ 64 - unat a)")
    (auto dest!: walk_Ok_less simp: unat_next_page word_less_nat_alt)

declare mappages_loop.simps [simp del]

definition mappages :: "u64 \<Rightarrow> u64 \<Rightarrow> u64 \<Rightarrow> u64 \<Rightarrow> u64 \<Rightarrow> kmem \<Rightarrow> (int \<times> kmem) res" where
  "mappages pagetable va sz pa perm s =
     (if sz = 0 then Err (Panic ''mappages: size'')
      else mappages_loop pagetable (PGROUNDDOWN va) (PGROUNDDOWN (va + sz - 1)) pa perm s)"

definition kvmmap :: "u64 \<Rightarrow> u64 \<Rightarrow> u64 \<Rightarrow> u64 \<Rightarrow> u64 \<Rightarrow> kmem \<Rightarrow> kmem res" where
  "kvmmap kpgtbl va pa sz perm s =
     bnd (mappages kpgtbl va sz pa perm s) (\<lambda>(r, s).
       if r \<noteq> 0 then Err (Panic ''kvmmap'') else Ok s)"

function uvmunmap_loop :: "u64 \<Rightarrow> u64 \<Rightarrow> u64 \<Rightarrow> bool \<Rightarrow> kmem \<Rightarrow> kmem res" where
  "uvmunmap_loop pagetable a lst do_free s =
     (if a < lst then
        bnd (walk pagetable a False s) (\<lambda>(pte, s).
          if pte = 0 then Err (Panic ''uvmunmap: walk'')
          else
            let e = load64 (phys s) pte in
            if e AND PTE_V = 0 then Err (Panic ''uvmunmap: not mapped'')
            else if PTE_FLAGS e = PTE_V then Err (Panic ''uvmunmap: not a leaf'')
            else
              bnd (if do_free then kfree (PTE2PA e) s else Ok s) (\<lambda>s.
                uvmunmap_loop pagetable (a + PGSIZE) lst do_free
                  (s\<lparr>phys := store64 (phys s) pte 0\<rparr>)))
      else Ok s)"
  by pat_completeness auto
termination
  by (relation "measure (\<lambda>(_, a, _). 2 ^ 64 - unat a)")
    (auto dest!: walk_Ok_less simp: unat_next_page word_less_nat_alt)

declare uvmunmap_loop.simps [simp del]

definition uvmunmap :: "u64 \<Rightarrow> u64 \<Rightarrow> u64 \<Rightarrow> bool \<Rightarrow> kmem \<Rightarrow> kmem res" where
  "uvmunmap pagetable va npages do_free s =
     (if va mod PGSIZE \<noteq> 0 then Err (Panic ''uvmunmap: not aligned'')
      else uvmunmap_loop pagetable va (va + npages * PGSIZE) do_free s)"

definition uvmcreate :: "kmem \<Rightarrow> (u64 \<times> kmem) res" where
  "uvmcreate s =
     bnd (kalloc s) (\<lambda>(pagetable, s).
       if pagetable = 0 then Ok (0, s)
       else Ok (pagetable, s\<lparr>phys := memset pagetable 0 4096 (phys s)\<rparr>))"

text \<open>\<open>src\<close> points at the kernel's \<open>initcode\<close>, whose bytes are the argument here.
  The result of \<open>mappages\<close> is not looked at, as in the source.\<close>

definition uvmfirst :: "u64 \<Rightarrow> u8 list \<Rightarrow> kmem \<Rightarrow> kmem res" where
  "uvmfirst pagetable src s =
     (if length src \<ge> 4096 then Err (Panic ''uvmfirst: more than a page'')
      else bnd (kalloc s) (\<lambda>(m, s).
        if m = 0 then Err (Undef ''null pointer'')
        else
          let s = s\<lparr>phys := memset m 0 4096 (phys s)\<rparr> in
          bnd (mappages pagetable 0 PGSIZE m (PTE_W OR PTE_R OR PTE_X OR PTE_U) s) (\<lambda>(_, s).
            Ok (s\<lparr>phys := store_bytes (phys s) m src\<rparr>))))"

text \<open>\<open>int npages\<close> takes the low 32 bits of the quotient and is sign-extended in the call.\<close>

definition uvmdealloc :: "u64 \<Rightarrow> u64 \<Rightarrow> u64 \<Rightarrow> kmem \<Rightarrow> (u64 \<times> kmem) res" where
  "uvmdealloc pagetable oldsz newsz s =
     (if newsz \<ge> oldsz then Ok (oldsz, s)
      else if PGROUNDUP newsz < PGROUNDUP oldsz then
        let npages = (ucast ((PGROUNDUP oldsz - PGROUNDUP newsz) div PGSIZE) :: i32) in
        bnd (uvmunmap pagetable (PGROUNDUP newsz) (scast npages) True s) (\<lambda>s. Ok (newsz, s))
      else Ok (newsz, s))"

text \<open>The addition in \<open>a += PGSIZE\<close> wraps only past \<open>MAXVA\<close>, where \<open>mappages\<close>
  panics.\<close>

lemma mappages_loop_less: "mappages_loop pt a lst pa perm s = Ok r \<Longrightarrow> a < MAXVA"
  by (subst (asm) mappages_loop.simps) (auto simp: res_simps dest: walk_Ok_less)

lemma mappages_Ok_less: "mappages pt a sz pa perm s = Ok r \<Longrightarrow> PGROUNDDOWN a < MAXVA"
  by (auto simp: mappages_def split: if_splits dest: mappages_loop_less)

lemma PGROUNDDOWN_lessD: "PGROUNDDOWN a < MAXVA \<Longrightarrow> a < MAXVA"
proof -
  assume "PGROUNDDOWN a < MAXVA"
  then have "unat a div 4096 * 4096 < 274877906944"
    by (simp add: word_less_nat_alt unat_PGROUNDDOWN)
  then have "unat a < 274877906944" by simp
  then show "a < MAXVA" by (simp add: word_less_nat_alt)
qed

function uvmalloc_loop :: "u64 \<Rightarrow> u64 \<Rightarrow> u64 \<Rightarrow> u64 \<Rightarrow> u64 \<Rightarrow> kmem \<Rightarrow> (u64 \<times> kmem) res" where
  "uvmalloc_loop pagetable a oldsz newsz xperm s =
     (if a < newsz then
        bnd (kalloc s) (\<lambda>(m, s).
          if m = 0 then bnd (uvmdealloc pagetable a oldsz s) (\<lambda>(_, s). Ok (0, s))
          else
            let s = s\<lparr>phys := memset m 0 4096 (phys s)\<rparr> in
            bnd (mappages pagetable a PGSIZE m (PTE_R OR PTE_U OR xperm) s) (\<lambda>(r, s).
              if r \<noteq> 0 then
                bnd (kfree m s) (\<lambda>s.
                  bnd (uvmdealloc pagetable a oldsz s) (\<lambda>(_, s). Ok (0, s)))
              else uvmalloc_loop pagetable (a + PGSIZE) oldsz newsz xperm s))
      else Ok (newsz, s))"
  by pat_completeness auto
termination
  by (relation "measure (\<lambda>(_, a, _). 2 ^ 64 - unat a)")
    (auto dest!: mappages_Ok_less PGROUNDDOWN_lessD simp: unat_next_page word_less_nat_alt)

declare uvmalloc_loop.simps [simp del]

definition uvmalloc :: "u64 \<Rightarrow> u64 \<Rightarrow> u64 \<Rightarrow> u64 \<Rightarrow> kmem \<Rightarrow> (u64 \<times> kmem) res" where
  "uvmalloc pagetable oldsz newsz xperm s =
     (if newsz < oldsz then Ok (oldsz, s)
      else let oldsz = PGROUNDUP oldsz in uvmalloc_loop pagetable oldsz oldsz newsz xperm s)"

text \<open>\<open>depth\<close> is the number of calls the kernel stack still has room for. A table has three
  levels, so three are enough; a deeper chain of tables overflows the stack.\<close>

function freewalk_from :: "nat \<Rightarrow> nat \<Rightarrow> u64 \<Rightarrow> kmem \<Rightarrow> kmem res" where
  "freewalk_from depth i pagetable s =
     (if i < 512 then
        let pte = load64 (phys s) (pagetable + 8 * of_nat i) in
        if pte AND PTE_V \<noteq> 0 \<and> pte AND (PTE_R OR PTE_W OR PTE_X) = 0 then
          (case depth of
             0 \<Rightarrow> Err (Undef ''kernel stack overflow'')
           | Suc d \<Rightarrow>
               bnd (freewalk_from d 0 (PTE2PA pte) s) (\<lambda>s.
                 freewalk_from depth (i + 1) pagetable
                   (s\<lparr>phys := store64 (phys s) (pagetable + 8 * of_nat i) 0\<rparr>)))
        else if pte AND PTE_V \<noteq> 0 then Err (Panic ''freewalk: leaf'')
        else freewalk_from depth (i + 1) pagetable s
      else kfree pagetable s)"
  by pat_completeness auto
termination
  by (relation "measures [\<lambda>(d, _). d, \<lambda>(_, i, _). 512 - i]") auto

declare freewalk_from.simps [simp del]

definition freewalk :: "u64 \<Rightarrow> kmem \<Rightarrow> kmem res" where
  "freewalk pagetable s = freewalk_from 2 0 pagetable s"

definition uvmfree :: "u64 \<Rightarrow> u64 \<Rightarrow> kmem \<Rightarrow> kmem res" where
  "uvmfree pagetable sz s =
     bnd (if sz > 0 then uvmunmap pagetable 0 (PGROUNDUP sz div PGSIZE) True s else Ok s)
       (freewalk pagetable)"

function uvmcopy_loop :: "u64 \<Rightarrow> u64 \<Rightarrow> u64 \<Rightarrow> u64 \<Rightarrow> kmem \<Rightarrow> (int \<times> kmem) res" where
  "uvmcopy_loop old new i sz s =
     (if i < sz then
        bnd (walk old i False s) (\<lambda>(pte, s).
          if pte = 0 then Err (Panic ''uvmcopy: pte should exist'')
          else
            let e = load64 (phys s) pte in
            if e AND PTE_V = 0 then Err (Panic ''uvmcopy: page not present'')
            else
              let pa = PTE2PA e;
                  e = e AND NOT PTE_W;
                  s = s\<lparr>phys := store64 (phys s) pte e\<rparr>;
                  flags = PTE_FLAGS e
              in bnd (increase_cnt pa s) (\<lambda>s.
                   bnd (mappages new i PGSIZE pa flags s) (\<lambda>(r, s).
                     if r \<noteq> 0 then bnd (uvmunmap new 0 (i div PGSIZE) True s) (\<lambda>s. Ok (-1, s))
                     else uvmcopy_loop old new (i + PGSIZE) sz s)))
      else Ok (0, s))"
  by pat_completeness auto
termination
  by (relation "measure (\<lambda>(_, _, i, _). 2 ^ 64 - unat i)")
    (auto dest!: walk_Ok_less simp: unat_next_page word_less_nat_alt)

declare uvmcopy_loop.simps [simp del]

definition uvmcopy :: "u64 \<Rightarrow> u64 \<Rightarrow> u64 \<Rightarrow> kmem \<Rightarrow> (int \<times> kmem) res" where
  "uvmcopy old new sz s = uvmcopy_loop old new 0 sz s"

definition uvmclear :: "u64 \<Rightarrow> u64 \<Rightarrow> kmem \<Rightarrow> kmem res" where
  "uvmclear pagetable va s =
     bnd (walk pagetable va False s) (\<lambda>(pte, s).
       if pte = 0 then Err (Panic ''uvmclear'')
       else Ok (s\<lparr>phys := store64 (phys s) pte (load64 (phys s) pte AND NOT PTE_U)\<rparr>))"

text \<open>\<open>proc_mapstacks\<close> (\<open>kernel/proc.c\<close>) from process \<open>p\<close> on.\<close>

function proc_mapstacks_from :: "nat \<Rightarrow> u64 \<Rightarrow> kmem \<Rightarrow> kmem res" where
  "proc_mapstacks_from p kpgtbl s =
     (if p < 64 then
        bnd (kalloc s) (\<lambda>(pa, s).
          if pa = 0 then Err (Panic ''kalloc'')
          else bnd (kvmmap kpgtbl (KSTACK p) pa PGSIZE (PTE_R OR PTE_W) s)
            (proc_mapstacks_from (p + 1) kpgtbl))
      else Ok s)"
  by pat_completeness auto
termination
  by (relation "measure (\<lambda>(p, _). 64 - p)") auto

declare proc_mapstacks_from.simps [simp del]

definition proc_mapstacks :: "u64 \<Rightarrow> kmem \<Rightarrow> kmem res" where
  "proc_mapstacks kpgtbl s = proc_mapstacks_from 0 kpgtbl s"

text \<open>\<open>etext\<close> and \<open>trampoline\<close> are addresses the linker supplies.\<close>

definition kvmmake :: "u64 \<Rightarrow> u64 \<Rightarrow> kmem \<Rightarrow> (u64 \<times> kmem) res" where
  "kvmmake etext trampoline s =
     bnd (kalloc s) (\<lambda>(kpgtbl, s).
       if kpgtbl = 0 then Err (Undef ''null pointer'')
       else
         let s = s\<lparr>phys := memset kpgtbl 0 4096 (phys s)\<rparr> in
         bnd (kvmmap kpgtbl UART0 UART0 PGSIZE (PTE_R OR PTE_W) s) (\<lambda>s.
         bnd (kvmmap kpgtbl VIRTIO0 VIRTIO0 PGSIZE (PTE_R OR PTE_W) s) (\<lambda>s.
         bnd (kvmmap kpgtbl PLIC PLIC 0x400000 (PTE_R OR PTE_W) s) (\<lambda>s.
         bnd (kvmmap kpgtbl KERNBASE KERNBASE (etext - KERNBASE) (PTE_R OR PTE_X) s) (\<lambda>s.
         bnd (kvmmap kpgtbl etext etext (PHYSTOP - etext) (PTE_R OR PTE_W) s) (\<lambda>s.
         bnd (kvmmap kpgtbl TRAMPOLINE trampoline PGSIZE (PTE_R OR PTE_X) s) (\<lambda>s.
         bnd (proc_mapstacks kpgtbl s) (\<lambda>s. Ok (kpgtbl, s)))))))))"

subsection \<open>Tables and entries\<close>

definition valid :: "u64 \<Rightarrow> bool" where
  "valid e \<longleftrightarrow> e AND PTE_V \<noteq> 0"

text \<open>The table that a path of indices leads to from the root; the deepest index is first.\<close>

primrec ptab :: "mem \<Rightarrow> u64 \<Rightarrow> nat list \<Rightarrow> u64 option" where
  "ptab m root [] = Some root"
| "ptab m root (i # p) =
     (case ptab m root p of
        None \<Rightarrow> None
      | Some t \<Rightarrow> let e = load64 m (t + 8 * of_nat i) in if valid e then Some (PTE2PA e) else None)"

definition paths :: "nat list set" where
  "paths = {p. length p \<le> 2 \<and> (\<forall>i\<in>set p. i < 512)}"

definition vpath :: "nat \<Rightarrow> u64 \<Rightarrow> nat list" where
  "vpath l va = map (\<lambda>k. unat (PX k va)) [l + 1..<3]"

text \<open>The leaf entry of an address; 0, which is not valid, where a table is missing.\<close>

definition leaf :: "mem \<Rightarrow> u64 \<Rightarrow> u64 \<Rightarrow> u64" where
  "leaf m root va =
     (case ptab m root (vpath 0 va) of None \<Rightarrow> 0 | Some t \<Rightarrow> load64 m (t + 8 * PX 0 va))"

definition tables :: "mem \<Rightarrow> u64 \<Rightarrow> u64 set" where
  "tables m root = {t. \<exists>p\<in>paths. ptab m root p = Some t}"

text \<open>Every table is a page of its own, owned by this page table alone.\<close>

definition pt_wf :: "kmem \<Rightarrow> u64 \<Rightarrow> bool" where
  "pt_wf s root \<longleftrightarrow>
     (\<forall>t\<in>tables (phys s) root. managed s t \<and> refcnt s (pgno t) = 1) \<and>
     (\<forall>p\<in>paths. \<forall>q\<in>paths. ptab (phys s) root p = ptab (phys s) root q \<longrightarrow>
        ptab (phys s) root p \<noteq> None \<longrightarrow> p = q)"

lemma valid_0 [simp]: "\<not> valid 0"
  by (simp add: valid_def)

lemma valid_or [simp]: "valid (x OR PTE_V)"
  by (simp add: valid_def bit.conj_disj_distrib2 word_bw_comms)

lemma paths_Nil [simp]: "[] \<in> paths"
  by (simp add: paths_def)

lemma paths_Cons: "i # p \<in> paths \<longleftrightarrow> i < 512 \<and> p \<in> paths \<and> length p \<le> 1"
  by (auto simp: paths_def)

lemma vpath_simps: "vpath 2 va = []" "vpath (Suc 0) va = [unat (PX 2 va)]"
  "vpath 0 va = [unat (PX (Suc 0) va), unat (PX 2 va)]"
  by (simp_all add: vpath_def upt_rec numeral_2_eq_2)

lemma vpath_in_paths [simp]: "vpath 0 va \<in> paths" "vpath (Suc 0) va \<in> paths"
  by (simp_all add: vpath_simps paths_Cons PX_less)

lemma tablesI: "ptab m root p = Some t \<Longrightarrow> p \<in> paths \<Longrightarrow> t \<in> tables m root"
  by (auto simp: tables_def)

lemma root_table [simp]: "root \<in> tables m root"
  using tablesI [of m root "[]"] by simp

lemma vpath_page:
  assumes "va < MAXVA" "va' < MAXVA" "vpath 0 va = vpath 0 va'" "PX 0 va = PX 0 va'"
  shows "pgno va = pgno va'"
proof -
  have split: "pgno x = unat (PX 0 x) + 512 * unat (PX (Suc 0) x) + 262144 * unat (PX 2 x)"
    if "x < MAXVA" for x
  proof -
    have d: "unat x div 2097152 = pgno x div 512" "unat x div 1073741824 = pgno x div 512 div 512"
      by (simp_all add: pgno_def div_mult2_eq [symmetric])
    have "pgno x < 134217728"
      using that by (simp add: pgno_def word_less_nat_alt less_mult_imp_div_less)
    then have "pgno x div 512 div 512 < 512"
      by (simp add: div_mult2_eq [symmetric] less_mult_imp_div_less)
    moreover have "unat (PX 0 x) = pgno x mod 512" "unat (PX (Suc 0) x) = pgno x div 512 mod 512"
      "unat (PX 2 x) = pgno x div 512 div 512 mod 512"
      using d by (simp_all add: unat_PX PXSHIFT_def pgno_def)
    moreover have "n = n mod 512 + 512 * (n div 512 mod 512) + 262144 * (n div 512 div 512)" for n :: nat
    proof -
      have "n = n mod 512 + 512 * (n div 512)" by simp
      also have "n div 512 = n div 512 mod 512 + 512 * (n div 512 div 512)" by simp
      finally show ?thesis by (simp only: distrib_left mult.assoc [symmetric] add.assoc numeral_times_numeral semiring_norm)
    qed
    ultimately show ?thesis
      by simp
  qed
  show ?thesis
    using assms split [of va] split [of va'] by (simp add: vpath_simps)
qed

subsection \<open>Stores to table entries\<close>

lemma slot_disj:
  fixes i j :: nat
  assumes "i < 512" "j < 512" "i \<noteq> j" "k < 8"
  shows "8 \<le> unat ((t + 8 * of_nat j + of_nat k) - (t + 8 * of_nat i :: u64))"
proof -
  have eq: "(t + 8 * of_nat j + of_nat k) - (t + 8 * of_nat i :: u64) = of_nat (8 * j + k) - of_nat (8 * i)"
    by simp
  have n: "unat (of_nat (8 * j + k) :: u64) = 8 * j + k" "unat (of_nat (8 * i) :: u64) = 8 * i"
    using assms by (simp_all only: unat_of_nat) (simp_all add: take_bit_nat_eq_self)
  show ?thesis
    unfolding eq using assms by (simp only: unat_sub_if' n) auto
qed

lemma load64_slot_other:
  assumes "pg_aligned t" "pg_aligned t'" "i < 512" "j < 512" "t' \<noteq> t \<or> j \<noteq> i"
  shows "load64 (store64 m (t + 8 * of_nat i) v) (t' + 8 * of_nat j) = load64 m (t' + 8 * of_nat j)"
proof (rule load64_cong)
  fix k :: nat
  assume k: "k < 8"
  show "store64 m (t + 8 * of_nat i) v (t' + 8 * of_nat j + of_nat k) = m (t' + 8 * of_nat j + of_nat k)"
  proof (cases "t' = t")
    case True
    with assms(5) have "i \<noteq> j" by simp
    with True show ?thesis
      using store64_other [OF slot_disj [OF assms(3,4) _ k]] by simp
  next
    case False
    have pg: "pgno (t' + 8 * of_nat j + of_nat k) = pgno t'"
      using pgno_add [OF assms(2), of "8 * j + k"] assms(4) k by (simp add: add.assoc)
    show ?thesis
    proof (rule store64_other, rule ccontr)
      assume "\<not> 8 \<le> unat (t' + 8 * of_nat j + of_nat k - (t + 8 * of_nat i))"
      then obtain l where l: "l < 8" "t' + 8 * of_nat j + of_nat k = (t + 8 * of_nat i) + of_nat l"
        using less_word_diff [of "t' + 8 * of_nat j + of_nat k" "t + 8 * of_nat i" 8] by auto
      then have "pgno (t' + 8 * of_nat j + of_nat k) = pgno t"
        using pgno_add [OF assms(1), of "8 * i + l"] assms(3) by (simp add: add.assoc)
      with pg False assms(1,2) show False by (auto dest: pgno_inj)
    qed
  qed
qed

lemma load64_slot:
  assumes "pg_aligned t" "pg_aligned t'" "i < 512" "j < 512"
  shows "load64 (store64 m (t + 8 * of_nat i) v) (t' + 8 * of_nat j) =
    (if t' = t \<and> j = i then v else load64 m (t' + 8 * of_nat j))"
  using load64_slot_other [OF assms, of m v] by (auto simp: load64_store64)

lemma load64_slot_PX:
  assumes "pg_aligned t" "pg_aligned t'" "i < 512"
  shows "load64 (store64 m (t + 8 * of_nat i) v) (t' + 8 * PX l va) =
    (if t' = t \<and> unat (PX l va) = i then v else load64 m (t' + 8 * PX l va))"
  using load64_slot [OF assms PX_less, of m v l va] by simp

lemma store64_slot_page:
  assumes "pg_aligned t" "i < 512" "pgno a \<noteq> pgno t"
  shows "store64 m (t + 8 * of_nat i) v a = m a"
proof (rule store64_other, rule ccontr)
  assume "\<not> 8 \<le> unat (a - (t + 8 * of_nat i))"
  then obtain l where "l < 8" "a = (t + 8 * of_nat i) + of_nat l"
    using less_word_diff [of a "t + 8 * of_nat i" 8] by auto
  then have "pgno a = pgno t"
    using pgno_add [OF assms(1), of "8 * i + l"] assms(2) by (simp add: add.assoc)
  with assms(3) show False by simp
qed

text \<open>The pages in \<open>P\<close> are the only ones an operation touches.\<close>

definition vm_frame :: "u64 set \<Rightarrow> kmem \<Rightarrow> kmem \<Rightarrow> bool" where
  "vm_frame P s s' \<longleftrightarrow> kend s' = kend s \<and>
     (\<forall>n. n \<notin> pgno ` P \<longrightarrow> refcnt s' n = refcnt s n) \<and>
     (\<forall>a. pgno a \<notin> pgno ` P \<longrightarrow> phys s' a = phys s a)"

lemma vm_frame_refl [simp]: "vm_frame P s s"
  by (simp add: vm_frame_def)

lemma vm_frame_trans:
  "vm_frame P s s' \<Longrightarrow> vm_frame Q s' s'' \<Longrightarrow> P \<subseteq> R \<Longrightarrow> Q \<subseteq> R \<Longrightarrow> vm_frame R s s''"
  unfolding vm_frame_def by (metis image_mono subsetD)

lemma vm_frame_mono: "vm_frame P s s' \<Longrightarrow> P \<subseteq> R \<Longrightarrow> vm_frame R s s'"
  by (rule vm_frame_trans [of P s s' P]) (auto simp: vm_frame_def)

lemma vm_frame_managed: "vm_frame P s s' \<Longrightarrow> managed s' = managed s"
  by (rule managed_cong) (simp add: vm_frame_def)

lemma vm_frame_store:
  "pg_aligned t \<Longrightarrow> i < 512 \<Longrightarrow> t \<in> P \<Longrightarrow>
    vm_frame P s (s\<lparr>phys := store64 (phys s) (t + 8 * of_nat i) v\<rparr>)"
  unfolding vm_frame_def by (auto intro!: store64_slot_page)

text \<open>Writes to pages in use leave the free list alone.\<close>

lemma kinv_phys:
  assumes "kinv s xs" "\<And>a. pgno a \<in> pgno ` set xs \<Longrightarrow> m a = phys s a"
  shows "kinv (s\<lparr>phys := m\<rparr>) xs"
proof -
  have man: "managed (s\<lparr>phys := m\<rparr>) = managed s" by (rule managed_cong) simp
  have "fl_list m (freelist s) xs"
    by (rule fl_list_other_page [of "phys s"])
      (use assms flinv_aligned kinv_flinv in \<open>auto simp: kinv_def flinv_def\<close>)
  with assms(1) show ?thesis
    unfolding kinv_def flinv_def man by simp
qed

lemma kinv_not_free: "kinv s xs \<Longrightarrow> managed s t \<Longrightarrow> 0 < refcnt s (pgno t) \<Longrightarrow> pgno t \<notin> pgno ` set xs"
  by (auto simp: kinv_def flinv_def)

lemma kinv_store:
  assumes "kinv s xs" "managed s t" "0 < refcnt s (pgno t)" "i < 512"
  shows "kinv (s\<lparr>phys := store64 (phys s) (t + 8 * of_nat i) v\<rparr>) xs"
proof (rule kinv_phys [OF assms(1)])
  fix a
  assume "pgno a \<in> pgno ` set xs"
  then have "pgno a \<noteq> pgno t" using kinv_not_free [OF assms(1-3)] by metis
  then show "store64 (phys s) (t + 8 * of_nat i) v a = phys s a"
    using assms by (intro store64_slot_page) (auto simp: managed_def)
qed

subsection \<open>How table stores change the tree\<close>

lemma pt_wfD:
  assumes "pt_wf s root"
  shows "ptab (phys s) root p = Some t \<Longrightarrow> p \<in> paths \<Longrightarrow> managed s t \<and> refcnt s (pgno t) = 1 \<and> pg_aligned t"
    and "ptab (phys s) root p = Some t \<Longrightarrow> ptab (phys s) root q = Some t \<Longrightarrow> p \<in> paths \<Longrightarrow> q \<in> paths \<Longrightarrow> p = q"
  using assms unfolding pt_wf_def by (auto simp: managed_def dest: tablesI)

lemma pt_wf_tables: "pt_wf s root \<Longrightarrow> t \<in> tables (phys s) root \<Longrightarrow>
    managed s t \<and> refcnt s (pgno t) = 1 \<and> pg_aligned t"
  by (auto simp: pt_wf_def managed_def)

text \<open>A memory with the same tables, and a memory in which the tables are unchanged.\<close>

lemma ptab_cong:
  assumes "\<And>t i. t \<in> tables m root \<Longrightarrow> i < 512 \<Longrightarrow> load64 m' (t + 8 * of_nat i) = load64 m (t + 8 * of_nat i)"
    and "p \<in> paths"
  shows "ptab m' root p = ptab m root p"
  using assms(2)
proof (induction p)
  case (Cons i p)
  then have "i < 512" "p \<in> paths" by (auto simp: paths_Cons)
  with Cons assms(1) show ?case
    by (auto split: option.split dest: tablesI simp: Let_def)
qed simp

lemma leaf_cong:
  assumes "\<And>t i. t \<in> tables m root \<Longrightarrow> i < 512 \<Longrightarrow> load64 m' (t + 8 * of_nat i) = load64 m (t + 8 * of_nat i)"
  shows "leaf m' root va = leaf m root va" "tables m' root = tables m root"
proof -
  have eq: "ptab m' root p = ptab m root p" if "p \<in> paths" for p
    using ptab_cong [OF assms that] by simp
  then show "leaf m' root va = leaf m root va"
    using assms [OF tablesI [OF _ vpath_in_paths(1)] PX_less [of 0 va]]
    by (auto simp: leaf_def split: option.split)
  show "tables m' root = tables m root"
    using eq by (auto simp: tables_def)
qed

lemma load64_slot_page:
  assumes "pg_aligned t" "i < 512" "\<And>a. pgno a = pgno t \<Longrightarrow> m' a = m a"
  shows "load64 m' (t + 8 * of_nat i) = load64 m (t + 8 * of_nat i)"
  using load64_other_page [of t "8 * i" m' m] assms by simp

lemma load64_slot_page_PX:
  assumes "pg_aligned t" "\<And>a. pgno a = pgno t \<Longrightarrow> m' a = m a"
  shows "load64 m' (t + 8 * PX l va) = load64 m (t + 8 * PX l va)"
  using load64_slot_page [OF assms(1) PX_less [of l va] assms(2)] by simp

text \<open>An address space whose tables lie outside the touched pages does not notice.\<close>

lemma vm_frame_other_pt:
  assumes "vm_frame P s s'" "pt_wf s root" "pgno ` tables (phys s) root \<inter> pgno ` P = {}"
  shows "pt_wf s' root \<and> tables (phys s') root = tables (phys s) root \<and>
    (\<forall>va. leaf (phys s') root va = leaf (phys s) root va) \<and>
    (\<forall>q\<in>paths. ptab (phys s') root q = ptab (phys s) root q)"
proof -
  have out: "pgno t \<notin> pgno ` P" if "t \<in> tables (phys s) root" for t
    using assms(3) that by blast
  have same: "load64 (phys s') (t + 8 * of_nat i) = load64 (phys s) (t + 8 * of_nat i)"
    if "t \<in> tables (phys s) root" "i < 512" for t i
    using that assms(1) out [OF that(1)] pt_wf_tables [OF assms(2) that(1)]
    by (intro load64_slot_page) (auto simp: vm_frame_def)
  have eq: "ptab (phys s') root p = ptab (phys s) root p" if "p \<in> paths" for p
    using ptab_cong [OF same that] by simp
  have tb: "tables (phys s') root = tables (phys s) root" "leaf (phys s') root va = leaf (phys s) root va" for va
    using leaf_cong [OF same] by auto
  have "refcnt s' (pgno t) = refcnt s (pgno t)" if "t \<in> tables (phys s) root" for t
    using assms(1) out [OF that] by (simp add: vm_frame_def)
  then have "pt_wf s' root"
    using assms(2) eq unfolding pt_wf_def tb vm_frame_managed [OF assms(1)] by auto
  with tb eq show ?thesis by simp
qed

text \<open>Hanging the zeroed page \<open>x\<close> under an invalid entry of an upper table.\<close>

lemma ptab_new_table:
  assumes wf: "pt_wf s root" and m: "m = phys s"
    and p: "i # p \<in> paths" "ptab m root p = Some t" "\<not> valid (load64 m (t + 8 * of_nat i))"
    and x: "pg_aligned x" "x < 2 ^ 54" "x \<notin> tables m root"
    and m': "m' = store64 (\<lambda>a. if pgno a = pgno x then 0 else m a) (t + 8 * of_nat i) (PA2PTE x OR PTE_V)"
    and q: "q \<in> paths"
  shows "ptab m' root q = (if q = i # p then Some x else ptab m root q)"
proof -
  have t: "t \<in> tables m root" "pg_aligned t" "i < 512" "p \<in> paths"
    using p wf m by (auto simp: paths_Cons dest: tablesI pt_wfD)
  have tx: "t \<noteq> x" using t x by auto
  have old: "load64 m' (t' + 8 * of_nat j) =
      (if t' = t \<and> j = i then PA2PTE x OR PTE_V else load64 m (t' + 8 * of_nat j))"
    if "t' \<in> tables m root" "j < 512" for t' j
  proof -
    have a: "pg_aligned t'" and "t' \<noteq> x" using that x pt_wf_tables [OF wf] m by auto
    then have "pgno t' \<noteq> pgno x" using x pgno_inj by blast
    then have "load64 (\<lambda>a. if pgno a = pgno x then 0 else m a) (t' + 8 * of_nat j) = load64 m (t' + 8 * of_nat j)"
      using a that by (intro load64_slot_page) auto
    then show ?thesis
      unfolding m' using a t that by (simp add: load64_slot)
  qed
  have new: "load64 m' (x + 8 * of_nat j) = 0" if "j < 512" for j
  proof -
    have "load64 (\<lambda>a. if pgno a = pgno x then 0 else m a) (x + 8 * of_nat j) = load64 (\<lambda>_. 0) (x + 8 * of_nat j)"
      using x that by (intro load64_slot_page) auto
    then show ?thesis
      unfolding m' using t x tx that by (simp add: load64_slot)
  qed
  have none: "ptab m root (i # p) = None" using p by (simp add: Let_def)
  have pa: "PTE2PA (PA2PTE x OR PTE_V) = x" using x by (intro PTE2PA_build) auto
  show ?thesis
    using q
  proof (induction q)
    case (Cons j q)
    then have q: "j < 512" "q \<in> paths" "length q \<le> 1"
      and IH: "ptab m' root q = (if q = i # p then Some x else ptab m root q)"
      by (auto simp: paths_Cons)
    show ?case
    proof (cases "q = i # p")
      case True
      with IH none new [OF q(1)] show ?thesis by (simp add: Let_def)
    next
      case False
      show ?thesis
      proof (cases "ptab m root q")
        case None
        then show ?thesis using IH False p by auto
      next
        case (Some t')
        then have "t' \<in> tables m root" "t' = t \<longleftrightarrow> q = p"
          using q p t wf m by (auto intro: tablesI dest: pt_wfD(2))
        with Some IH False old q(1) pa show ?thesis by (auto simp: Let_def)
      qed
    qed
  qed simp
qed

text \<open>\<open>pt_ext root s xs s' ys\<close>: between the two states only empty tables were added, from
  the free list \<open>xs\<close>, of which \<open>ys\<close> is left.\<close>

definition pt_ext :: "u64 \<Rightarrow> kmem \<Rightarrow> u64 list \<Rightarrow> kmem \<Rightarrow> u64 list \<Rightarrow> bool" where
  "pt_ext root s xs s' ys \<longleftrightarrow> kinv s' ys \<and> pt_wf s' root \<and> set ys \<subseteq> set xs \<and>
     tables (phys s') root = tables (phys s) root \<union> (set xs - set ys) \<and>
     leaf (phys s') root = leaf (phys s) root \<and>
     vm_frame (tables (phys s) root \<union> (set xs - set ys)) s s'"

lemma pt_ext_refl: "kinv s xs \<Longrightarrow> pt_wf s root \<Longrightarrow> pt_ext root s xs s xs"
  by (auto simp: pt_ext_def)

lemma pt_ext_trans: "pt_ext root s xs s' ys \<Longrightarrow> pt_ext root s' ys s'' zs \<Longrightarrow> pt_ext root s xs s'' zs"
  unfolding pt_ext_def by (auto elim: vm_frame_trans)

lemma managed_lt: "managed s x \<Longrightarrow> x < 2 ^ 54"
  by (auto simp: managed_def word_less_nat_alt)

lemma kinv_hd:
  "kinv s (x # ys) \<Longrightarrow> managed s x \<and> refcnt s (pgno x) = 0 \<and> x \<notin> set ys \<and> pg_aligned x \<and> x \<noteq> 0"
proof -
  assume inv: "kinv s (x # ys)"
  then have "managed s x" "refcnt s (pgno x) = 0" "x \<notin> set ys"
    by (simp_all add: kinv_def flinv_def)
  with managed_nonzero [OF kinv_flinv [OF inv]] managed_aligned show ?thesis by blast
qed

lemma pgno_tail_free:
  assumes "kinv s (x # ys)"
  shows "pgno x \<notin> pgno ` set ys"
proof
  assume "pgno x \<in> pgno ` set ys"
  then obtain y where "y \<in> set ys" "pgno x = pgno y" by auto
  moreover have "managed s z" if "z \<in> set ys" for z
    using assms that by (simp add: kinv_def flinv_def)
  ultimately show False using kinv_hd [OF assms] managed_pgno_eq [of s x y] by simp
qed

lemma kalloc_zeroed:
  assumes "kinv s (x # ys)"
  obtains s1 where "kalloc s = Ok (x, s1)" "kinv s1 ys" "kend s1 = kend s"
    "refcnt s1 = (refcnt s)(pgno x := 1)"
    "\<And>m. memset x 0 4096 (phys s1) = (\<lambda>a. if pgno a = pgno x then 0 else phys s a)"
proof -
  obtain s1 where s1: "kalloc s = Ok (x, s1)" "kinv s1 ys" "kend s1 = kend s"
      "refcnt s1 = (refcnt s)(pgno x := 1)" "phys s1 = (\<lambda>a. if pgno a = pgno x then 5 else phys s a)"
    using kalloc_Cons [OF assms] by auto
  moreover have "memset x 0 4096 (phys s1) = (\<lambda>a. if pgno a = pgno x then 0 else phys s a)"
    using kinv_hd [OF assms] s1(5) by (auto simp: memset_page)
  ultimately show thesis using that by blast
qed

lemma not_free_table: "kinv s xs \<Longrightarrow> pt_wf s root \<Longrightarrow> x \<in> set xs \<Longrightarrow> x \<notin> tables (phys s) root"
  using pt_wf_tables by (fastforce simp: kinv_def flinv_def)

lemma new_table:
  assumes inv: "kinv s (x # ys)" and wf: "pt_wf s root"
    and p: "i # p \<in> paths" "ptab (phys s) root p = Some t" "\<not> valid (load64 (phys s) (t + 8 * of_nat i))"
    and s1: "kinv s1 ys" "kend s1 = kend s" "refcnt s1 = (refcnt s)(pgno x := 1)"
    and m': "m' = store64 (\<lambda>a. if pgno a = pgno x then 0 else phys s a) (t + 8 * of_nat i) (PA2PTE x OR PTE_V)"
    and mz: "\<And>a. pgno a \<noteq> pgno x \<Longrightarrow> phys s1 a = phys s a"
  shows "pt_ext root s (x # ys) (s1\<lparr>phys := m'\<rparr>) ys \<and> ptab m' root (i # p) = Some x"
proof -
  have x: "managed s x" "pg_aligned x" "x < 2 ^ 54" "x \<notin> tables (phys s) root"
    using kinv_hd [OF inv] managed_lt not_free_table [OF inv wf] by auto
  have t: "managed s t" "refcnt s (pgno t) = 1" "pg_aligned t" "t \<in> tables (phys s) root" "i < 512"
    using p wf by (auto simp: paths_Cons dest: tablesI pt_wfD)
  have ne: "pgno t \<noteq> pgno x" using t x managed_pgno_eq [of s t x] by auto
  have pt: "ptab m' root q = (if q = i # p then Some x else ptab (phys s) root q)" if "q \<in> paths" for q
    by (rule ptab_new_table [OF wf refl p x(2-4) m' that])
  have none: "ptab (phys s) root (i # p) = None" using p by (simp add: Let_def)
  have tb: "tables m' root = insert x (tables (phys s) root)"
  proof -
    have "u \<in> insert x (tables (phys s) root)" if u: "u \<in> tables m' root" for u
    proof -
      obtain q where q: "q \<in> paths" "ptab m' root q = Some u"
        using u by (auto simp: tables_def)
      then show ?thesis using pt [OF q(1)] by (simp split: if_splits add: tablesI)
    qed
    moreover have "u \<in> tables m' root" if u: "u \<in> tables (phys s) root" for u
    proof -
      obtain q where q: "q \<in> paths" "ptab (phys s) root q = Some u"
        using u by (auto simp: tables_def)
      with none pt [OF q(1)] show ?thesis by (intro tablesI [OF _ q(1)]) auto
    qed
    moreover have "x \<in> tables m' root"
      using pt [OF p(1)] by (intro tablesI [OF _ p(1)]) (simp del: ptab.simps)
    ultimately show ?thesis by blast
  qed
  have man: "managed (s1\<lparr>phys := m'\<rparr>) = managed s"
    using s1 by (intro managed_cong) simp
  have "leaf m' root va = leaf (phys s) root va" for va
  proof -
    have l2: "length (vpath 0 va) = 2" by (simp add: vpath_simps)
    show ?thesis
    proof (cases "vpath 0 va = i # p")
      case True
      have "load64 m' (x + 8 * PX 0 va) = 0"
        unfolding m'
        using ne t x load64_slot_page_PX [of x "\<lambda>a. if pgno a = pgno x then 0 else phys s a" "\<lambda>_. 0"]
        by (auto simp: load64_slot_PX)
      then show ?thesis
        using True pt [OF p(1)] none by (simp add: leaf_def del: ptab.simps)
    next
      case False
      show ?thesis
      proof (cases "ptab (phys s) root (vpath 0 va)")
        case None
        with False pt [of "vpath 0 va"] show ?thesis by (simp add: leaf_def)
      next
        case (Some t')
        then have t': "pg_aligned t'" "managed s t'" "t' \<noteq> x"
          using wf x(4) by (auto dest: pt_wfD tablesI)
        have "t' \<noteq> t"
          using pt_wfD(2) [OF wf, of p t "vpath 0 va"] p Some l2 by (auto simp: paths_Cons)
        moreover have "pgno t' \<noteq> pgno x" using t' x managed_pgno_eq by blast
        ultimately have "load64 m' (t' + 8 * PX 0 va) = load64 (phys s) (t' + 8 * PX 0 va)"
          unfolding m' using t' t by (simp add: load64_slot_PX) (rule load64_slot_page_PX, auto)
        with Some False pt [of "vpath 0 va"] show ?thesis by (simp add: leaf_def)
      qed
    qed
  qed
  moreover have "pt_wf (s1\<lparr>phys := m'\<rparr>) root"
    unfolding pt_wf_def
  proof (intro conjI ballI impI)
    fix u assume "u \<in> tables (phys (s1\<lparr>phys := m'\<rparr>)) root"
    then have "u = x \<or> u \<in> tables (phys s) root" using tb by simp
    then show "managed (s1\<lparr>phys := m'\<rparr>) u" "refcnt (s1\<lparr>phys := m'\<rparr>) (pgno u) = 1"
      using x(1) pt_wf_tables [OF wf] s1(3) unfolding man by auto
  next
    fix q r assume *: "q \<in> paths" "r \<in> paths"
      "ptab (phys (s1\<lparr>phys := m'\<rparr>)) root q = ptab (phys (s1\<lparr>phys := m'\<rparr>)) root r"
      "ptab (phys (s1\<lparr>phys := m'\<rparr>)) root q \<noteq> None"
    then show "q = r"
      using pt [OF *(1)] pt [OF *(2)] wf x(4) by (auto split: if_splits dest: pt_wfD(2) tablesI)
  qed
  moreover have "kinv (s1\<lparr>phys := m'\<rparr>) ys"
  proof (rule kinv_phys [OF s1(1)])
    fix a assume "pgno a \<in> pgno ` set ys"
    then have "pgno a \<noteq> pgno x" "pgno a \<noteq> pgno t"
      using pgno_tail_free [OF inv] kinv_not_free [OF inv t(1)] t(2) by auto
    then show "m' a = phys s1 a" using mz t unfolding m' by (simp add: store64_slot_page)
  qed
  moreover have "vm_frame (tables (phys s) root \<union> {x}) s (s1\<lparr>phys := m'\<rparr>)"
  proof -
    have "m' a = phys s a" if "pgno a \<notin> pgno ` (tables (phys s) root \<union> {x})" for a
    proof -
      have "pgno a \<noteq> pgno t" "pgno a \<noteq> pgno x" using that t(4) by auto
      then show ?thesis using t unfolding m' by (simp add: store64_slot_page)
    qed
    then show ?thesis using s1 unfolding vm_frame_def by simp
  qed
  moreover have "set (x # ys) - set ys = {x}" using kinv_hd [OF inv] by auto
  ultimately show ?thesis
    using tb pt [OF p(1)] unfolding pt_ext_def by (auto simp: fun_eq_iff)
qed

subsection \<open>Walks\<close>

lemma vpath_Suc: "l < 2 \<Longrightarrow> vpath l va = unat (PX (Suc l) va) # vpath (Suc l) va"
  by (simp add: vpath_def upt_conv_Cons)

lemma vpath_paths: "vpath l va \<in> paths"
  by (cases "l < 3") (auto simp: vpath_def paths_def PX_less)

text \<open>Without allocation a walk only looks.\<close>

lemma walk_level_look:
  "l \<le> 2 \<Longrightarrow> ptab (phys s) root (vpath l va) = Some t \<Longrightarrow>
    walk_level l t va False s =
      Ok (case ptab (phys s) root (vpath 0 va) of None \<Rightarrow> 0 | Some u \<Rightarrow> u + 8 * PX 0 va, s)"
proof (induction l arbitrary: t)
  case (Suc l)
  let ?e = "load64 (phys s) (t + 8 * PX (Suc l) va)"
  show ?case
  proof (cases "valid ?e")
    case True
    then have "ptab (phys s) root (vpath l va) = Some (PTE2PA ?e)"
      using Suc.prems vpath_Suc [of l va] by (simp add: Let_def)
    with True Suc show ?thesis by (simp add: Let_def valid_def)
  next
    case False
    then have n: "ptab (phys s) root (vpath l va) = None"
      using Suc.prems vpath_Suc [of l va] by (simp add: Let_def)
    have "ptab (phys s) root (vpath 0 va) = None"
    proof (cases l)
      case (Suc k)
      then have "l = Suc 0" using Suc.prems(1) by simp
      with n show ?thesis using vpath_Suc [of 0 va] by simp
    qed (use n in simp)
    with False show ?thesis by (simp add: Let_def valid_def)
  qed
qed simp

lemma walk_look:
  "va < MAXVA \<Longrightarrow> walk root va False s =
     Ok (case ptab (phys s) root (vpath 0 va) of None \<Rightarrow> 0 | Some u \<Rightarrow> u + 8 * PX 0 va, s)"
  using walk_level_look [of 2 s root va root] by (simp add: walk_def vpath_simps)

text \<open>With allocation it adds the missing tables, all empty.\<close>

lemma walk_level_alloc:
  assumes "l \<le> 2" "kinv s xs" "pt_wf s root" "ptab (phys s) root (vpath l va) = Some t"
  shows "\<exists>pte s' ys. walk_level l t va True s = Ok (pte, s') \<and> pt_ext root s xs s' ys \<and>
    (pte = 0 \<and> ys = [] \<or>
     (\<exists>u. ptab (phys s') root (vpath 0 va) = Some u \<and> pte = u + 8 * PX 0 va))"
  using assms
proof (induction l arbitrary: s xs t)
  case 0
  then show ?case using pt_ext_refl by fastforce
next
  case (Suc l)
  let ?e = "load64 (phys s) (t + 8 * PX (Suc l) va)"
  have vp: "vpath l va = unat (PX (Suc l) va) # vpath (Suc l) va"
    using Suc.prems(1) by (intro vpath_Suc) simp
  then have inp: "unat (PX (Suc l) va) # vpath (Suc l) va \<in> paths"
    using vpath_paths [of l va] by simp
  show ?case
  proof (cases "valid ?e")
    case True
    then have "ptab (phys s) root (vpath l va) = Some (PTE2PA ?e)"
      using Suc.prems vp by (simp add: Let_def)
    then show ?thesis
      using Suc.IH [of s xs "PTE2PA ?e"] Suc.prems True by (simp add: Let_def valid_def)
  next
    case inval: False
    show ?thesis
    proof (cases xs)
      case Nil
      then have "walk_level (Suc l) t va True s = Ok (0, s)"
        using inval kalloc_empty Suc.prems(2) by (simp add: Let_def valid_def)
      then show ?thesis using Suc.prems Nil pt_ext_refl by blast
    next
      case (Cons x ys)
      with Suc.prems(2) have inv: "kinv s (x # ys)" by simp
      obtain s1 where s1: "kalloc s = Ok (x, s1)" "kinv s1 ys" "kend s1 = kend s"
          "refcnt s1 = (refcnt s)(pgno x := 1)" "phys s1 = (\<lambda>a. if pgno a = pgno x then 5 else phys s a)"
        using kalloc_Cons [OF inv] by auto
      have z: "memset x 0 4096 (phys s1) = (\<lambda>a. if pgno a = pgno x then 0 else phys s a)"
        using kinv_hd [OF inv] s1(5) by (auto simp: memset_page)
      define m' where "m' = store64 (\<lambda>a. if pgno a = pgno x then 0 else phys s a)
        (t + 8 * of_nat (unat (PX (Suc l) va))) (PA2PTE x OR PTE_V)"
      have new: "pt_ext root s (x # ys) (s1\<lparr>phys := m'\<rparr>) ys \<and>
          ptab m' root (unat (PX (Suc l) va) # vpath (Suc l) va) = Some x"
        by (rule new_table [OF inv Suc.prems(3) inp Suc.prems(4) _ s1(2-4) m'_def])
          (use inval s1(5) in auto)
      have run: "walk_level (Suc l) t va True s = walk_level l x va True (s1\<lparr>phys := m'\<rparr>)"
        using inval s1(1) kinv_hd [OF inv] z by (simp add: Let_def valid_def m'_def)
      have pre: "l \<le> 2" "kinv (s1\<lparr>phys := m'\<rparr>) ys" "pt_wf (s1\<lparr>phys := m'\<rparr>) root"
        "ptab (phys (s1\<lparr>phys := m'\<rparr>)) root (vpath l va) = Some x"
        using Suc.prems(1) new vp by (simp_all add: pt_ext_def del: ptab.simps)
      show ?thesis
        using Suc.IH [OF pre] new pt_ext_trans unfolding run Cons by blast
    qed
  qed
qed

lemma walk_alloc:
  assumes "kinv s xs" "pt_wf s root" "va < MAXVA"
  obtains pte s' ys where "walk root va True s = Ok (pte, s')" "pt_ext root s xs s' ys"
    "pte = 0 \<and> ys = [] \<or> (\<exists>u. ptab (phys s') root (vpath 0 va) = Some u \<and> pte = u + 8 * PX 0 va)"
proof -
  have "ptab (phys s) root (vpath 2 va) = Some root" by (simp add: vpath_simps)
  moreover have "walk root va True s = walk_level 2 root va True s"
    using assms(3) by (simp add: walk_def not_le [symmetric])
  ultimately show thesis
    using walk_level_alloc [OF order_refl assms(1,2)] that by metis
qed

subsection \<open>Writing a leaf entry\<close>

lemma slot_nonzero:
  assumes "0 < kend s" "managed s u"
  shows "u + 8 * PX 0 va \<noteq> 0"
proof
  assume *: "u + 8 * PX 0 va = 0"
  have "pgno (u + of_nat (8 * unat (PX 0 va))) = pgno u"
    using assms(2) PX_less [of 0 va] by (intro pgno_add) (auto simp: managed_def)
  with * have "pgno u = pgno 0" by simp
  then have "u = 0" using assms(2) by (intro pgno_inj) (auto simp: managed_def pg_aligned_def)
  then show False using assms by (simp add: managed_def)
qed

lemma set_leaf:
  assumes wf: "pt_wf s root" and u: "ptab (phys s) root (vpath 0 va) = Some u" and va: "va < MAXVA"
    and s': "s' = s\<lparr>phys := store64 (phys s) (u + 8 * PX 0 va) v\<rparr>"
  shows "pt_wf s' root" "tables (phys s') root = tables (phys s) root"
    "vm_frame (tables (phys s) root) s s'" "kinv s xs \<Longrightarrow> kinv s' xs"
    "\<And>va'. va' < MAXVA \<Longrightarrow>
       leaf (phys s') root va' = (if pgno va' = pgno va then v else leaf (phys s) root va')"
proof -
  let ?i = "unat (PX 0 va)"
  have s'2: "s' = s\<lparr>phys := store64 (phys s) (u + 8 * of_nat ?i) v\<rparr>" by (simp add: s')
  have uu: "managed s u" "refcnt s (pgno u) = 1" "pg_aligned u" "u \<in> tables (phys s) root"
    using pt_wfD [OF wf u] tablesI [OF u] by simp_all
  have up: "load64 (phys s') (t + 8 * of_nat j) =
      (if t = u \<and> j = ?i then v else load64 (phys s) (t + 8 * of_nat j))"
    if "t \<in> tables (phys s) root" "j < 512" for t j
    using load64_slot [of u t ?i j] that uu pt_wf_tables [OF wf that(1)] PX_less [of 0 va]
    by (simp add: s')
  have pt: "ptab (phys s') root q = ptab (phys s) root q" if "q \<in> paths" for q
    using that
  proof (induction q)
    case (Cons j q)
    then have q: "j < 512" "q \<in> paths" "length q \<le> 1" by (auto simp: paths_Cons)
    have ne: "t \<noteq> u" if "ptab (phys s) root q = Some t" for t
    proof
      assume "t = u"
      then have "q = vpath 0 va"
        using pt_wfD(2) [OF wf _ u q(2) vpath_in_paths(1)] that by simp
      then show False using q(3) by (simp add: vpath_simps)
    qed
    show ?case
    proof (cases "ptab (phys s) root q")
      case (Some t)
      then have "load64 (phys s') (t + 8 * of_nat j) = load64 (phys s) (t + 8 * of_nat j)"
        using up [OF tablesI [OF Some q(2)] q(1)] ne by simp
      with Some Cons.IH q show ?thesis by simp
    qed (use Cons.IH q in simp)
  qed simp
  then show tb: "tables (phys s') root = tables (phys s) root"
    by (auto simp: tables_def)
  show fr: "vm_frame (tables (phys s) root) s s'"
    unfolding s'2 using uu PX_less by (intro vm_frame_store) auto
  show "kinv s xs \<Longrightarrow> kinv s' xs"
    unfolding s'2 using uu PX_less by (intro kinv_store) auto
  have "refcnt s' = refcnt s" by (simp add: s')
  then show "pt_wf s' root"
    using wf pt unfolding pt_wf_def tb vm_frame_managed [OF fr] by simp
  fix va' assume va': "va' < MAXVA"
  show "leaf (phys s') root va' = (if pgno va' = pgno va then v else leaf (phys s) root va')"
  proof (cases "ptab (phys s) root (vpath 0 va')")
    case None
    have "vpath 0 va' \<noteq> vpath 0 va" using None u by auto
    moreover have "PX k va' = PX k va" if "pgno va' = pgno va" for k
      using that by (simp add: word_unat_eq_iff unat_PX PXSHIFT_def pgno_def power_add div_mult2_eq)
    ultimately have "pgno va' \<noteq> pgno va" by (auto simp: vpath_def)
    with None pt show ?thesis by (simp add: leaf_def)
  next
    case (Some t)
    have "t = u \<and> unat (PX 0 va') = ?i \<longleftrightarrow> pgno va' = pgno va"
    proof
      assume "t = u \<and> unat (PX 0 va') = ?i"
      then show "pgno va' = pgno va"
        using vpath_page [OF va' va] pt_wfD(2) [OF wf Some] u by (simp add: word_unat_eq_iff)
    next
      assume "pgno va' = pgno va"
      then have px: "PX k va' = PX k va" for k
        by (simp add: word_unat_eq_iff unat_PX PXSHIFT_def pgno_def power_add div_mult2_eq)
      then have "vpath 0 va' = vpath 0 va" by (simp add: vpath_def)
      with u Some px show "t = u \<and> unat (PX 0 va') = ?i" by simp
    qed
    then show ?thesis
      using Some pt up [OF tablesI [OF Some] PX_less [of 0 va']] by (simp add: leaf_def)
  qed
qed

subsection \<open>Adding mappings\<close>

text \<open>The entries after the first \<open>k\<close> pages from \<open>a\<close> were mapped to \<open>pa\<close> onwards.\<close>

definition mapped_from :: "u64 \<Rightarrow> u64 \<Rightarrow> u64 \<Rightarrow> nat \<Rightarrow> (u64 \<Rightarrow> u64) \<Rightarrow> u64 \<Rightarrow> u64" where
  "mapped_from a pa perm k old va =
     (if pgno a \<le> pgno va \<and> pgno va < pgno a + k
      then PA2PTE (pa + of_nat (4096 * (pgno va - pgno a))) OR perm OR PTE_V else old va)"

definition map_post ::
  "u64 \<Rightarrow> kmem \<Rightarrow> u64 list \<Rightarrow> kmem \<Rightarrow> u64 list \<Rightarrow> bool" where
  "map_post root s xs s' ys \<longleftrightarrow> kinv s' ys \<and> pt_wf s' root \<and> set ys \<subseteq> set xs \<and>
     tables (phys s') root = tables (phys s) root \<union> (set xs - set ys) \<and>
     vm_frame (tables (phys s) root \<union> (set xs - set ys)) s s'"

lemma pt_ext_map_post: "pt_ext root s xs s' ys \<Longrightarrow> map_post root s xs s' ys"
  by (simp add: pt_ext_def map_post_def)

lemma map_post_trans:
  "map_post root s xs s' ys \<Longrightarrow> map_post root s' ys s'' zs \<Longrightarrow> map_post root s xs s'' zs"
  unfolding map_post_def by (auto elim: vm_frame_trans)

lemma pgno_next: "a < MAXVA \<Longrightarrow> pgno (a + PGSIZE) = pgno a + 1"
  by (simp add: pgno_def unat_next_page)

lemma mapped_from_0 [simp]: "mapped_from a pa perm 0 old = old"
  by (rule ext) (auto simp: mapped_from_def)

lemma mapped_from_Suc:
  assumes "a < MAXVA" "\<And>v. v < MAXVA \<Longrightarrow> old v = (if pgno v = pgno a then PA2PTE pa OR perm OR PTE_V else old0 v)"
    and "va < MAXVA"
  shows "mapped_from (a + PGSIZE) (pa + PGSIZE) perm k old va = mapped_from a pa perm (Suc k) old0 va"
proof (cases "pgno va = pgno a")
  case True
  then show ?thesis using assms by (simp add: mapped_from_def pgno_next)
next
  case False
  have "pa + PGSIZE + of_nat (4096 * (pgno va - Suc (pgno a))) = pa + of_nat (4096 * (pgno va - pgno a))"
    if "Suc (pgno a) \<le> pgno va"
  proof -
    have "4096 * (pgno va - pgno a) = 4096 + 4096 * (pgno va - Suc (pgno a))"
      using that by simp
    then show ?thesis by (simp only: of_nat_add) simp
  qed
  with False assms show ?thesis by (auto simp: mapped_from_def pgno_next)
qed

text \<open>One round of the loop: the walk, the check, the store.\<close>

lemma map_one:
  assumes "kinv s xs" "pt_wf s root" "a < MAXVA" "\<not> valid (leaf (phys s) root a)"
  obtains
    (oom) s' where "walk root a True s = Ok (0, s')" "map_post root s xs s' []"
      "leaf (phys s') root = leaf (phys s) root"
  | (ok) pte s1 ys where "walk root a True s = Ok (pte, s1)" "pte \<noteq> 0"
      "load64 (phys s1) pte AND PTE_V = 0"
      "\<And>v. map_post root s xs (s1\<lparr>phys := store64 (phys s1) pte v\<rparr>) ys"
      "\<And>v va. va < MAXVA \<Longrightarrow> leaf (store64 (phys s1) pte v) root va =
         (if pgno va = pgno a then v else leaf (phys s) root va)"
proof -
  obtain pte s1 ys where w: "walk root a True s = Ok (pte, s1)" "pt_ext root s xs s1 ys"
    "pte = 0 \<and> ys = [] \<or> (\<exists>u. ptab (phys s1) root (vpath 0 a) = Some u \<and> pte = u + 8 * PX 0 a)"
    using walk_alloc [OF assms(1-3)] .
  have e: "kinv s1 ys" "pt_wf s1 root" "leaf (phys s1) root = leaf (phys s) root"
    using w(2) by (simp_all add: pt_ext_def)
  show thesis
  proof (cases "pte = 0 \<and> ys = []")
    case True
    then show thesis using oom w pt_ext_map_post e by simp
  next
    case False
    then obtain u where u: "ptab (phys s1) root (vpath 0 a) = Some u" "pte = u + 8 * PX 0 a"
      using w(3) by auto
    have nz: "pte \<noteq> 0"
      using slot_nonzero [of s1 u a] pt_wfD(1) [OF e(2) u(1)] e(1) u(2)
      by (simp add: kinv_def flinv_def)
    have "leaf (phys s) root a = load64 (phys s1) pte"
      using u by (subst e(3) [symmetric]) (simp add: leaf_def)
    with assms(4) have iv: "load64 (phys s1) pte AND PTE_V = 0" by (simp add: valid_def)
    note sl = set_leaf [OF e(2) u(1) assms(3) refl]
    have "map_post root s xs (s1\<lparr>phys := store64 (phys s1) pte v\<rparr>) ys" for v
    proof -
      have "map_post root s1 ys (s1\<lparr>phys := store64 (phys s1) pte v\<rparr>) ys"
        unfolding map_post_def u(2) using sl(1-3) sl(4) [OF e(1)] by simp
      then show ?thesis using map_post_trans pt_ext_map_post [OF w(2)] by blast
    qed
    moreover have "leaf (store64 (phys s1) pte v) root va =
        (if pgno va = pgno a then v else leaf (phys s) root va)" if "va < MAXVA" for v va
      using sl(5) [OF that] e(3) u(2) by simp
    ultimately show thesis
      by (rule ok [OF w(1) nz iv])
  qed
qed

lemma mappages_loop_correct:
  assumes "kinv s xs" "pt_wf s root" "pg_aligned a" "unat a + 4096 * n < 274877906944"
    "\<And>va. va < MAXVA \<Longrightarrow> pgno a \<le> pgno va \<Longrightarrow> pgno va \<le> pgno a + n \<Longrightarrow> \<not> valid (leaf (phys s) root va)"
  shows "\<exists>r s' ys k. mappages_loop root a (a + of_nat (4096 * n)) pa perm s = Ok (r, s') \<and>
    map_post root s xs s' ys \<and> (r = 0 \<and> k = Suc n \<or> r = -1 \<and> k \<le> n \<and> ys = []) \<and>
    (\<forall>va<MAXVA. leaf (phys s') root va = mapped_from a pa perm k (leaf (phys s) root) va)"
  using assms
proof (induction n arbitrary: a pa s xs)
  case (0 a pa s xs)
  have lt: "a < MAXVA" using "0.prems"(4) by (simp add: word_less_nat_alt)
  have iv: "\<not> valid (leaf (phys s) root a)" using "0.prems"(5) [OF lt] by simp
  from "0.prems"(1,2) lt iv show ?case
  proof (cases rule: map_one)
    case (oom s')
    then have "mappages_loop root a (a + of_nat (4096 * 0)) pa perm s = Ok (-1, s')"
      by (subst mappages_loop.simps) simp
    with oom show ?thesis by (intro exI [of _ "-1"] exI [of _ s'] exI [of _ "[]"] exI [of _ 0]) simp
  next
    case (ok pte s1 ys)
    let ?v = "PA2PTE pa OR perm OR PTE_V"
    have "mappages_loop root a (a + of_nat (4096 * 0)) pa perm s = Ok (0, s1\<lparr>phys := store64 (phys s1) pte ?v\<rparr>)"
      using ok(1-3) by (subst mappages_loop.simps) simp
    moreover have "leaf (store64 (phys s1) pte ?v) root va = mapped_from a pa perm 1 (leaf (phys s) root) va"
      if "va < MAXVA" for va
      using ok(5) [OF that] by (auto simp: mapped_from_def)
    ultimately show ?thesis
      using ok(4) [of ?v]
      by (intro exI [of _ "0"] exI [of _ "s1\<lparr>phys := store64 (phys s1) pte ?v\<rparr>"] exI [of _ ys] exI [of _ 1])
        simp
  qed
next
  case (Suc n a pa s xs)
  have lt: "a < MAXVA" using Suc.prems(4) by (simp add: word_less_nat_alt)
  have iv: "\<not> valid (leaf (phys s) root a)" using Suc.prems(5) [OF lt] by simp
  have nl: "a \<noteq> a + of_nat (4096 * Suc n)"
  proof
    assume "a = a + of_nat (4096 * Suc n)"
    then have "(of_nat (4096 * Suc n) :: u64) = 0" by (metis add_cancel_left_right)
    then have "unat (of_nat (4096 * Suc n) :: u64) = 0" by simp
    then show False
      using Suc.prems(4) by (simp only: unat_of_nat) (simp add: take_bit_nat_eq_self)
  qed
  from Suc.prems(1,2) lt iv show ?case
  proof (cases rule: map_one)
    case (oom s')
    then have "mappages_loop root a (a + of_nat (4096 * Suc n)) pa perm s = Ok (-1, s')"
      by (subst mappages_loop.simps) simp
    with oom show ?thesis by (intro exI [of _ "-1"] exI [of _ s'] exI [of _ "[]"] exI [of _ 0]) simp
  next
    case (ok pte s1 ys)
    let ?v = "PA2PTE pa OR perm OR PTE_V"
    define s2 where "s2 = s1\<lparr>phys := store64 (phys s1) pte ?v\<rparr>"
    have mp: "map_post root s xs s2 ys" using ok(4) by (simp add: s2_def)
    have lf: "leaf (phys s2) root va = (if pgno va = pgno a then ?v else leaf (phys s) root va)"
      if "va < MAXVA" for va
      using ok(5) [OF that] by (simp add: s2_def)
    have lasteq: "a + of_nat (4096 * Suc n) = a + PGSIZE + of_nat (4096 * n)"
      by (simp add: algebra_simps)
    have run: "mappages_loop root a (a + of_nat (4096 * Suc n)) pa perm s =
        mappages_loop root (a + PGSIZE) (a + PGSIZE + of_nat (4096 * n)) (pa + PGSIZE) perm s2"
      using ok(1-3) nl unfolding lasteq by (subst mappages_loop.simps) (simp add: s2_def)
    have "\<exists>r s' zs k. mappages_loop root (a + PGSIZE) (a + PGSIZE + of_nat (4096 * n)) (pa + PGSIZE) perm s2 = Ok (r, s') \<and>
      map_post root s2 ys s' zs \<and> (r = 0 \<and> k = Suc n \<or> r = -1 \<and> k \<le> n \<and> zs = []) \<and>
      (\<forall>va<MAXVA. leaf (phys s') root va = mapped_from (a + PGSIZE) (pa + PGSIZE) perm k (leaf (phys s2) root) va)"
    proof (rule Suc.IH)
      show "kinv s2 ys" "pt_wf s2 root" using mp by (simp_all add: map_post_def)
      show "pg_aligned (a + PGSIZE)" "unat (a + PGSIZE) + 4096 * n < 274877906944"
        using Suc.prems(3,4) by (simp_all add: pg_aligned_unat unat_next_page [OF lt])
      show "\<not> valid (leaf (phys s2) root va)"
        if "va < MAXVA" "pgno (a + PGSIZE) \<le> pgno va" "pgno va \<le> pgno (a + PGSIZE) + n" for va
        using that Suc.prems(5) [of va] lf by (simp add: pgno_next [OF lt])
    qed
    then obtain r s' zs k where *: "mappages_loop root (a + PGSIZE) (a + PGSIZE + of_nat (4096 * n)) (pa + PGSIZE) perm s2 = Ok (r, s')"
      "map_post root s2 ys s' zs" "r = 0 \<and> k = Suc n \<or> r = -1 \<and> k \<le> n \<and> zs = []"
      "\<forall>va<MAXVA. leaf (phys s') root va = mapped_from (a + PGSIZE) (pa + PGSIZE) perm k (leaf (phys s2) root) va"
      by blast
    have "\<forall>va<MAXVA. leaf (phys s') root va = mapped_from a pa perm (Suc k) (leaf (phys s) root) va"
      using *(4) mapped_from_Suc [OF lt lf] by auto
    with * map_post_trans [OF mp *(2)] show ?thesis
      unfolding run by (intro exI [of _ r] exI [of _ s'] exI [of _ zs] exI [of _ "Suc k"]) auto
  qed
qed

subsection \<open>Removing mappings\<close>

lemma leaf_valid_slot:
  assumes "valid (leaf m root va)"
  obtains u where "ptab m root (vpath 0 va) = Some u" "leaf m root va = load64 m (u + 8 * PX 0 va)"
  using assms by (cases "ptab m root (vpath 0 va)") (auto simp: leaf_def)

text \<open>Dropping one reference, whether it is the last or not.\<close>

lemma kfree_ref:
  assumes "kinv s xs" "managed s p" "1 \<le> refcnt s (pgno p)"
  obtains s' ys where "kfree p s = Ok s'" "kinv s' ys" "kend s' = kend s"
    "set ys = set xs \<union> (if refcnt s (pgno p) = 1 then {p} else {})"
    "refcnt s' = (refcnt s)(pgno p := refcnt s (pgno p) - 1)"
    "\<And>a. pgno a \<noteq> pgno p \<or> 1 < refcnt s (pgno p) \<Longrightarrow> phys s' a = phys s a"
proof (cases "refcnt s (pgno p) = 1")
  case True
  with that kfree_last [OF assms(1,2)] show thesis by auto
next
  case False
  with that kfree_shared [OF assms(1,2)] assms(3) show thesis by auto
qed

definition unmap_post :: "u64 \<Rightarrow> u64 set \<Rightarrow> kmem \<Rightarrow> u64 list \<Rightarrow> kmem \<Rightarrow> u64 list \<Rightarrow> bool" where
  "unmap_post root R s xs s' ys \<longleftrightarrow> kinv s' ys \<and> pt_wf s' root \<and> kend s' = kend s \<and>
     tables (phys s') root = tables (phys s) root \<and>
     set ys = set xs \<union> {p \<in> R. refcnt s (pgno p) = 1} \<and>
     (\<forall>n. refcnt s' n = (if n \<in> pgno ` R then refcnt s n - 1 else refcnt s n)) \<and>
     (\<forall>a. pgno a \<notin> pgno ` (tables (phys s) root \<union> {p \<in> R. refcnt s (pgno p) = 1}) \<longrightarrow>
        phys s' a = phys s a)"

lemma unmap_one:
  assumes inv: "kinv s xs" and wf: "pt_wf s root" and a: "a < MAXVA"
    and v: "valid (leaf (phys s) root a)" "PTE_FLAGS (leaf (phys s) root a) \<noteq> PTE_V"
    and p: "p = PTE2PA (leaf (phys s) root a)" "managed s p" "1 \<le> refcnt s (pgno p)"
      "p \<notin> tables (phys s) root"
  obtains s' ys where
    "a < lst \<Longrightarrow> uvmunmap_loop root a lst True s = uvmunmap_loop root (a + PGSIZE) lst True s'"
    "unmap_post root {p} s xs s' ys"
    "\<And>va. va < MAXVA \<Longrightarrow> leaf (phys s') root va = (if pgno va = pgno a then 0 else leaf (phys s) root va)"
proof -
  obtain u where u: "ptab (phys s) root (vpath 0 a) = Some u"
      "leaf (phys s) root a = load64 (phys s) (u + 8 * PX 0 a)"
    using leaf_valid_slot [OF v(1)] .
  have nz: "u + 8 * PX 0 a \<noteq> 0"
    using slot_nonzero [of s u a] pt_wfD(1) [OF wf u(1)] inv by (simp add: kinv_def flinv_def)
  obtain s1 ys where s1: "kfree p s = Ok s1" "kinv s1 ys" "kend s1 = kend s"
    "set ys = set xs \<union> (if refcnt s (pgno p) = 1 then {p} else {})"
    "refcnt s1 = (refcnt s)(pgno p := refcnt s (pgno p) - 1)"
    "\<And>a. pgno a \<noteq> pgno p \<or> 1 < refcnt s (pgno p) \<Longrightarrow> phys s1 a = phys s a"
    using kfree_ref [OF inv p(2,3)] by blast
  have fr: "vm_frame {p} s s1" using s1 by (simp add: vm_frame_def)
  have dis: "pgno ` tables (phys s) root \<inter> pgno ` {p} = {}"
  proof -
    have "pgno t \<noteq> pgno p" if "t \<in> tables (phys s) root" for t
      using p(2,4) that pt_wf_tables [OF wf that] managed_pgno_eq [of s t p] by metis
    then show ?thesis by blast
  qed
  from vm_frame_other_pt [OF fr wf dis]
  have o: "pt_wf s1 root" "tables (phys s1) root = tables (phys s) root"
    "\<And>va. leaf (phys s1) root va = leaf (phys s) root va"
    "\<And>q. q \<in> paths \<Longrightarrow> ptab (phys s1) root q = ptab (phys s) root q"
    by auto
  have u1: "ptab (phys s1) root (vpath 0 a) = Some u"
    using o(4) u(1) vpath_in_paths(1) by metis
  define s2 where "s2 = s1\<lparr>phys := store64 (phys s1) (u + 8 * PX 0 a) 0\<rparr>"
  note sl = set_leaf [OF o(1) u1 a s2_def]
  show thesis
  proof (rule that)
    show "uvmunmap_loop root a lst True s = uvmunmap_loop root (a + PGSIZE) lst True s2" if "a < lst"
      using that v p(1) u nz s1(1) walk_look [OF a, of root s]
      by (subst uvmunmap_loop.simps) (simp add: Let_def s2_def valid_def)
    show "leaf (phys s2) root va = (if pgno va = pgno a then 0 else leaf (phys s) root va)"
      if "va < MAXVA" for va
      using sl(5) [OF that] o(3) by simp
    have "phys s2 b = phys s b"
      if b: "pgno b \<notin> pgno ` (tables (phys s) root \<union> {q \<in> {p}. refcnt s (pgno q) = 1})" for b
    proof -
      have "phys s2 b = phys s1 b"
        using sl(3) b unfolding vm_frame_def o(2) by auto
      also have "\<dots> = phys s b"
        using b p(3) by (intro s1(6)) auto
      finally show ?thesis .
    qed
    then show "unmap_post root {p} s xs s2 ys"
      unfolding unmap_post_def
      using sl(1-3) sl(4) [OF s1(2)] o(2) s1(3-5) by (auto simp: s2_def)
  qed
qed

text \<open>The \<open>i\<close>-th page from \<open>a\<close>.\<close>

definition nth_page :: "u64 \<Rightarrow> nat \<Rightarrow> u64" where
  "nth_page a i = a + of_nat (4096 * i)"

lemma nth_page_0 [simp]: "nth_page a 0 = a"
  by (simp add: nth_page_def)

lemma nth_page_Suc: "nth_page (a + PGSIZE) i = nth_page a (Suc i)"
  by (simp add: nth_page_def algebra_simps)

text \<open>The physical page behind the \<open>i\<close>-th page from \<open>a\<close>.\<close>

definition pa_at :: "mem \<Rightarrow> u64 \<Rightarrow> u64 \<Rightarrow> nat \<Rightarrow> u64" where
  "pa_at m root a i = PTE2PA (leaf m root (nth_page a i))"

text \<open>The first \<open>n\<close> pages from \<open>a\<close> are mapped, to distinct pages in use.\<close>

definition user_range :: "kmem \<Rightarrow> u64 \<Rightarrow> u64 \<Rightarrow> nat \<Rightarrow> bool" where
  "user_range s root a n \<longleftrightarrow> pg_aligned a \<and> unat a + 4096 * n \<le> 274877906944 \<and>
     (\<forall>i<n. let e = leaf (phys s) root (nth_page a i) in
        valid e \<and> PTE_FLAGS e \<noteq> PTE_V \<and> managed s (PTE2PA e) \<and>
        1 \<le> refcnt s (pgno (PTE2PA e)) \<and> PTE2PA e \<notin> tables (phys s) root) \<and>
     inj_on (pa_at (phys s) root a) {..<n}"

lemma unat_page_add:
  "unat (a :: u64) + 4096 * n \<le> 274877906944 \<Longrightarrow> i \<le> n \<Longrightarrow> unat (nth_page a i) = unat a + 4096 * i"
proof -
  assume "unat a + 4096 * n \<le> 274877906944" "i \<le> n"
  then have "unat a + 4096 * i < 2 ^ 64" by simp
  then show ?thesis unfolding nth_page_def by (rule unat_add_64)
qed

lemma pgno_page_add:
  "unat a + 4096 * n \<le> 274877906944 \<Longrightarrow> i \<le> n \<Longrightarrow> pgno (nth_page a i) = pgno a + i"
  using unat_page_add [of a n i] by (simp add: pgno_def)

lemma unmap_post_trans:
  assumes 1: "unmap_post root P s xs s1 ys" and 2: "unmap_post root Q s1 ys s2 zs"
    and dis: "pgno ` P \<inter> pgno ` Q = {}"
  shows "unmap_post root (P \<union> Q) s xs s2 zs"
proof -
  have same: "refcnt s1 (pgno q) = refcnt s (pgno q)" if "q \<in> Q" for q
  proof -
    have "pgno q \<notin> pgno ` P" using dis that by blast
    then show ?thesis using 1 by (simp add: unmap_post_def)
  qed
  have Q1: "{p \<in> Q. refcnt s1 (pgno p) = 1} = {p \<in> Q. refcnt s (pgno p) = 1}"
    using same by auto
  have ref: "refcnt s1 n = (if n \<in> pgno ` P then refcnt s n - 1 else refcnt s n)"
    "refcnt s2 n = (if n \<in> pgno ` Q then refcnt s1 n - 1 else refcnt s1 n)" for n
    using 1 2 by (simp_all add: unmap_post_def)
  have "phys s2 a = phys s a"
    if a: "pgno a \<notin> pgno ` (tables (phys s) root \<union> {p \<in> P \<union> Q. refcnt s (pgno p) = 1})" for a
  proof -
    have "phys s1 a = phys s a"
      using 1 a unfolding unmap_post_def by auto
    moreover have "phys s2 a = phys s1 a"
      using 1 2 a unfolding unmap_post_def Q1 by auto
    ultimately show ?thesis by simp
  qed
  moreover have "set zs = set xs \<union> {p \<in> P \<union> Q. refcnt s (pgno p) = 1}"
    using 1 2 unfolding unmap_post_def Q1 by auto
  moreover have "refcnt s2 n = (if n \<in> pgno ` (P \<union> Q) then refcnt s n - 1 else refcnt s n)" for n
    using dis unfolding ref image_Un by (auto simp: disjoint_iff)
  ultimately show ?thesis
    using 1 2 unfolding unmap_post_def by simp
qed

lemma uvmunmap_loop_correct:
  assumes "kinv s xs" "pt_wf s root" "user_range s root a n"
  shows "\<exists>s' ys. uvmunmap_loop root a (nth_page a n) True s = Ok s' \<and>
    unmap_post root (pa_at (phys s) root a ` {..<n}) s xs s' ys \<and>
    (\<forall>va<MAXVA. leaf (phys s') root va =
       (if pgno a \<le> pgno va \<and> pgno va < pgno a + n then 0 else leaf (phys s) root va))"
  using assms
proof (induction n arbitrary: a s xs)
  case 0
  have "uvmunmap_loop root a (nth_page a 0) True s = Ok s"
    by (subst uvmunmap_loop.simps) simp
  with 0 show ?case by (intro exI [of _ s] exI [of _ xs]) (auto simp: unmap_post_def)
next
  case (Suc n)
  let ?a' = "a + PGSIZE" and ?p = "pa_at (phys s) root a"
  have lim: "unat a + 4096 * Suc n \<le> 274877906944" and al: "pg_aligned a"
    and inj: "inj_on ?p {..<Suc n}"
    and each: "\<And>i. i < Suc n \<Longrightarrow> valid (leaf (phys s) root (nth_page a i)) \<and>
      PTE_FLAGS (leaf (phys s) root (nth_page a i)) \<noteq> PTE_V \<and> managed s (?p i) \<and>
      1 \<le> refcnt s (pgno (?p i)) \<and> ?p i \<notin> tables (phys s) root"
    using Suc.prems(3) by (auto simp: user_range_def Let_def pa_at_def)
  have lt: "a < MAXVA" using lim by (simp add: word_less_nat_alt)
  have le: "a < nth_page a (Suc n)"
    using unat_page_add [OF lim, of "Suc n"] by (simp add: word_less_nat_alt)
  have p0: "?p 0 = PTE2PA (leaf (phys s) root a)" by (simp add: pa_at_def)
  obtain s1 ys where s1:
    "uvmunmap_loop root a (nth_page a (Suc n)) True s =
       uvmunmap_loop root ?a' (nth_page a (Suc n)) True s1"
    "unmap_post root {?p 0} s xs s1 ys"
    "\<And>va. va < MAXVA \<Longrightarrow> leaf (phys s1) root va = (if pgno va = pgno a then 0 else leaf (phys s) root va)"
  proof (rule unmap_one [OF Suc.prems(1,2) lt _ _ p0, of "nth_page a (Suc n)"])
    fix s' ys'
    assume "a < nth_page a (Suc n) \<Longrightarrow> uvmunmap_loop root a (nth_page a (Suc n)) True s =
        uvmunmap_loop root ?a' (nth_page a (Suc n)) True s'"
      "unmap_post root {?p 0} s xs s' ys'"
      "\<And>va. va < MAXVA \<Longrightarrow> leaf (phys s') root va = (if pgno va = pgno a then 0 else leaf (phys s) root va)"
    with le that show thesis by blast
  qed (use each [of 0] in auto)
  note step = nth_page_Suc [of a]
  have lf: "leaf (phys s1) root (nth_page ?a' i) = leaf (phys s) root (nth_page a (Suc i))"
    if "i < n" for i
  proof -
    have "unat (nth_page a (Suc i)) = unat a + 4096 * Suc i"
      using lim that by (intro unat_page_add [of a "Suc n"]) simp_all
    then have "nth_page a (Suc i) < MAXVA"
      using lim that by (simp add: word_less_nat_alt)
    moreover have "pgno (nth_page a (Suc i)) = pgno a + Suc i"
      using lim that by (intro pgno_page_add [of a "Suc n"]) simp_all
    ultimately show ?thesis unfolding step using s1(3) by simp
  qed
  have pa': "pa_at (phys s1) root ?a' i = ?p (Suc i)" if "i < n" for i
    using lf [OF that] by (simp only: pa_at_def)
  have ne: "pgno (?p (Suc i)) \<noteq> pgno (?p 0)" if "i < n" for i
    using inj each [of 0] each [of "Suc i"] that managed_pgno_eq [of s "?p (Suc i)" "?p 0"]
    by (auto simp: inj_on_def)
  have ur: "user_range s1 root ?a' n"
  proof -
    have "managed s1 = managed s"
      using s1(2) by (intro managed_cong) (simp add: unmap_post_def)
    moreover have "refcnt s1 (pgno (?p (Suc i))) = refcnt s (pgno (?p (Suc i)))" if "i < n" for i
      using s1(2) ne [OF that] by (simp add: unmap_post_def)
    moreover have "inj_on (pa_at (phys s1) root ?a') {..<n}"
      using inj pa' by (auto simp: inj_on_def)
    moreover have "tables (phys s1) root = tables (phys s) root"
      using s1(2) by (simp add: unmap_post_def)
    moreover have "pg_aligned ?a'" "unat ?a' + 4096 * n \<le> 274877906944"
      using al lim by (simp_all add: pg_aligned_unat unat_next_page [OF lt])
    ultimately show ?thesis
      using each lf by (auto simp: user_range_def Let_def pa_at_def)
  qed
  have inv1: "kinv s1 ys" "pt_wf s1 root"
    using s1(2) by (simp_all add: unmap_post_def)
  obtain s' zs where s': "uvmunmap_loop root ?a' (nth_page ?a' n) True s1 = Ok s'"
    "unmap_post root (pa_at (phys s1) root ?a' ` {..<n}) s1 ys s' zs"
    "\<forall>va<MAXVA. leaf (phys s') root va =
       (if pgno ?a' \<le> pgno va \<and> pgno va < pgno ?a' + n then 0 else leaf (phys s1) root va)"
    using Suc.IH [OF inv1 ur] by blast
  have img: "?p ` {..<Suc n} = {?p 0} \<union> pa_at (phys s1) root ?a' ` {..<n}"
    using pa' by (force simp: lessThan_Suc_eq_insert_0 image_image)
  have "pgno ` {?p 0} \<inter> pgno ` (pa_at (phys s1) root ?a' ` {..<n}) = {}"
    using ne pa' by auto metis
  from unmap_post_trans [OF s1(2) s'(2) this]
  have "unmap_post root (?p ` {..<Suc n}) s xs s' zs" unfolding img .
  moreover have "uvmunmap_loop root a (nth_page a (Suc n)) True s = Ok s'"
    using s1(1) s'(1) unfolding step by simp
  moreover have "leaf (phys s') root va =
      (if pgno a \<le> pgno va \<and> pgno va < pgno a + Suc n then 0 else leaf (phys s) root va)"
    if "va < MAXVA" for va
    using s'(3) that s1(3) [OF that] by (auto simp: pgno_next [OF lt])
  ultimately show ?case by blast
qed

subsection \<open>A concrete machine\<close>

text \<open>
  For the witnesses: a root \<open>pR\<close> whose tables \<open>pL1\<close> and \<open>pL0\<close> map address 0 to
  the page \<open>pD\<close>, readable, writable and for users; an empty root \<open>pN\<close>; and three free
  pages.
\<close>

abbreviation (input) pR :: u64 where "pR \<equiv> 0x87FFF000"
abbreviation (input) pL1 :: u64 where "pL1 \<equiv> 0x87FFE000"
abbreviation (input) pL0 :: u64 where "pL0 \<equiv> 0x87FFD000"
abbreviation (input) pD :: u64 where "pD \<equiv> 0x87FFC000"
abbreviation (input) pN :: u64 where "pN \<equiv> 0x87FFB000"
abbreviation (input) pF1 :: u64 where "pF1 \<equiv> 0x87FFA000"
abbreviation (input) pF2 :: u64 where "pF2 \<equiv> 0x87FF9000"
abbreviation (input) pF3 :: u64 where "pF3 \<equiv> 0x87FF8000"

definition sample_mem :: mem where
  "sample_mem =
     store64 (store64 (store64 (store64 (store64 (\<lambda>_. 0)
       (pR + 8 * of_nat 0) (PA2PTE pL1 OR PTE_V))
       (pL1 + 8 * of_nat 0) (PA2PTE pL0 OR PTE_V))
       (pL0 + 8 * of_nat 0) (PA2PTE pD OR 0x17))
       (pF1 + 8 * of_nat 0) pF2)
       (pF2 + 8 * of_nat 0) pF3"

definition sample :: kmem where
  "sample = \<lparr>phys = sample_mem, freelist = pF1,
     refcnt = (\<lambda>n. if n \<in> pgno ` {pF1, pF2, pF3} then 0 else 1), kend = pF3\<rparr>"

lemma sample_load:
  assumes "pg_aligned t" "i < 512"
  shows "load64 sample_mem (t + 8 * of_nat i) =
    (if i = 0 then
       if t = pF2 then pF3 else if t = pF1 then pF2 else if t = pL0 then PA2PTE pD OR 0x17
       else if t = pL1 then PA2PTE pL0 OR PTE_V else if t = pR then PA2PTE pL1 OR PTE_V else 0
     else 0)"
proof -
  have "pg_aligned pR" "pg_aligned pL1" "pg_aligned pL0" "pg_aligned pF1" "pg_aligned pF2"
    by (simp_all add: pg_aligned_def)
  then show ?thesis
    unfolding sample_mem_def using assms by (simp only: load64_slot) simp
qed

lemma sample_load0:
  "pg_aligned t \<Longrightarrow> load64 sample_mem t =
    (if t = pF2 then pF3 else if t = pF1 then pF2 else if t = pL0 then PA2PTE pD OR 0x17
     else if t = pL1 then PA2PTE pL0 OR PTE_V else if t = pR then PA2PTE pL1 OR PTE_V else 0)"
  using sample_load [of t 0] by simp

lemma sample_pte: "PTE2PA (PA2PTE pL1 OR PTE_V) = pL1" "PTE2PA (PA2PTE pL0 OR PTE_V) = pL0"
  "PTE2PA (PA2PTE pD OR 0x17) = pD" "PTE_FLAGS (PA2PTE pD OR 0x17) = 0x17" "valid (PA2PTE pD OR 0x17)"
proof -
  show "PTE2PA (PA2PTE pL1 OR PTE_V) = pL1" "PTE2PA (PA2PTE pL0 OR PTE_V) = pL0"
    "PTE2PA (PA2PTE pD OR 0x17) = pD" "PTE_FLAGS (PA2PTE pD OR 0x17) = 0x17"
    by (intro PTE2PA_build PTE_FLAGS_build; simp add: pg_aligned_def)+
  show "valid (PA2PTE pD OR 0x17)"
    by (simp add: valid_def PA2PTE_and_low)
qed

lemma sample_ptab:
  assumes "p \<in> paths"
  shows "ptab sample_mem pR p =
    (if p = [] then Some pR else if p = [0] then Some pL1 else if p = [0, 0] then Some pL0 else None)"
    "ptab sample_mem pN p = (if p = [] then Some pN else None)"
proof -
  have al: "pg_aligned pR" "pg_aligned pL1" "pg_aligned pN"
    by (simp_all add: pg_aligned_def)
  have one: "ptab sample_mem pR [i] = (if i = 0 then Some pL1 else None)"
    "ptab sample_mem pN [i] = None" if "i < 512" for i
    using sample_load [OF al(1) that] sample_load [OF al(3) that] sample_pte(1)
    by (simp_all add: Let_def)
  have two: "ptab sample_mem pR [j, i] = (if i = 0 \<and> j = 0 then Some pL0 else None)"
    "ptab sample_mem pN [j, i] = None" if "i < 512" "j < 512" for i j
    using one [OF that(1)] sample_load [OF al(2) that(2)] sample_load0 [OF al(2)] sample_pte(2)
      ptab.simps(2) [of sample_mem pR j "[i]"] ptab.simps(2) [of sample_mem pN j "[i]"]
    by (simp_all del: ptab.simps add: Let_def)
  consider "p = []" | i where "p = [i]" "i < 512" | i j where "p = [j, i]" "i < 512" "j < 512"
    using assms by (cases p rule: remdups_adj.cases) (auto simp: paths_def)
  then have "ptab sample_mem pR p =
      (if p = [] then Some pR else if p = [0] then Some pL1 else if p = [0, 0] then Some pL0 else None)
    \<and> ptab sample_mem pN p = (if p = [] then Some pN else None)"
    by cases (use one two in \<open>simp_all del: ptab.simps(2)\<close>)
  then show "ptab sample_mem pR p =
      (if p = [] then Some pR else if p = [0] then Some pL1 else if p = [0, 0] then Some pL0 else None)"
    "ptab sample_mem pN p = (if p = [] then Some pN else None)"
    by blast+
qed

lemma sample_tables: "tables sample_mem pR = {pR, pL1, pL0}" "tables sample_mem pN = {pN}"
proof -
  have "[0] \<in> paths" "[0, 0] \<in> paths" by (simp_all add: paths_def)
  then have "pL1 \<in> tables sample_mem pR" "pL0 \<in> tables sample_mem pR"
    using tablesI [of sample_mem pR "[0]" pL1] tablesI [of sample_mem pR "[0, 0]" pL0]
      sample_ptab(1) [of "[0]"] sample_ptab(1) [of "[0, 0]"]
    by (simp_all del: ptab.simps)
  moreover have "tables sample_mem pR \<subseteq> {pR, pL1, pL0}" "tables sample_mem pN \<subseteq> {pN}"
    using sample_ptab by (auto simp: tables_def split: if_splits)
  ultimately show "tables sample_mem pR = {pR, pL1, pL0}" "tables sample_mem pN = {pN}"
    by auto
qed

lemma sample_managed:
  "managed sample pR" "managed sample pL1" "managed sample pL0" "managed sample pD"
  "managed sample pN" "managed sample pF1" "managed sample pF2" "managed sample pF3"
  by (simp_all add: managed_def sample_def pg_aligned_def)

lemma sample_kinv: "kinv sample [pF1, pF2, pF3]"
proof -
  have al: "pg_aligned pF1" "pg_aligned pF2" "pg_aligned pF3" by (simp_all add: pg_aligned_def)
  have fl: "fl_list sample_mem pF1 [pF1, pF2, pF3]"
    using sample_load0 [OF al(1)] sample_load0 [OF al(2)] sample_load0 [OF al(3)] by simp
  have "p \<in> {pF1, pF2, pF3}" if p: "managed sample p" "pgno p \<in> pgno ` {pF1, pF2, pF3}" for p
  proof -
    obtain f where f: "f \<in> {pF1, pF2, pF3}" "pgno p = pgno f" using p(2) by blast
    then have "managed sample f" using sample_managed(6-8) by blast
    with f p(1) show ?thesis using managed_pgno_eq by blast
  qed
  then show ?thesis
    unfolding kinv_def flinv_def using fl sample_managed(6-8) by (simp add: sample_def)
qed

lemma sample_ref: "refcnt sample (pgno pR) = 1" "refcnt sample (pgno pL1) = 1"
  "refcnt sample (pgno pL0) = 1" "refcnt sample (pgno pD) = 1" "refcnt sample (pgno pN) = 1"
  by (simp_all add: sample_def pgno_def)

lemma sample_wf: "pt_wf sample pR" "pt_wf sample pN"
proof -
  have ph: "phys sample = sample_mem" by (simp add: sample_def)
  show "pt_wf sample pR"
    unfolding pt_wf_def ph sample_tables using sample_managed sample_ref sample_ptab(1)
    by (simp del: ptab.simps split: if_splits)
  show "pt_wf sample pN"
    unfolding pt_wf_def ph sample_tables using sample_managed sample_ref sample_ptab(2)
    by (simp del: ptab.simps split: if_splits)
qed

lemma sample_vpath: "va < 4096 \<Longrightarrow> vpath 0 va = [0, 0]" "va < 4096 \<Longrightarrow> PX 0 va = 0"
  by (simp_all add: vpath_simps unat_PX PXSHIFT_def word_less_nat_alt word_unat_eq_iff)

lemma sample_leaf: "leaf (phys sample) pR 0 = PA2PTE pD OR 0x17" "leaf (phys sample) pN va = 0"
proof -
  have "[0, 0] \<in> paths" by (simp add: paths_def)
  then show "leaf (phys sample) pR 0 = PA2PTE pD OR 0x17"
    using sample_ptab(1) [of "[0, 0]"] sample_vpath [of 0] sample_load0 [of pL0]
    by (simp add: leaf_def sample_def pg_aligned_def del: ptab.simps)
  show "leaf (phys sample) pN va = 0"
    using sample_ptab(2) [OF vpath_in_paths(1), of va]
    by (simp add: leaf_def sample_def vpath_simps del: ptab.simps)
qed

lemma sample_phys: "phys sample = sample_mem"
  by (simp add: sample_def)

lemma sample_range: "user_range sample pR 0 1"
proof -
  have "pD \<notin> tables (phys sample) pR"
    unfolding sample_phys sample_tables by simp
  then show ?thesis
    using sample_leaf(1) sample_pte(3-5) sample_managed(4) sample_ref(4)
    by (simp add: user_range_def pg_aligned_def Let_def inj_on_def)
qed

subsection \<open>Properties\<close>

lemma pgno_PGROUNDDOWN: "pgno (PGROUNDDOWN a) = pgno a"
  by (simp add: pgno_def unat_PGROUNDDOWN)

lemma PGROUNDDOWN_nth_page:
  assumes "va \<le> w"
  shows "PGROUNDDOWN w = PGROUNDDOWN va + of_nat (4096 * (pgno w - pgno va))"
proof -
  have le: "pgno va \<le> pgno w"
    using assms by (simp add: pgno_def word_le_nat_alt div_le_mono)
  have "unat (PGROUNDDOWN va) + 4096 * (pgno w - pgno va) = pgno w * 4096"
    using le by (simp add: unat_PGROUNDDOWN pgno_def [symmetric] algebra_simps)
  moreover have "pgno w * 4096 < 2 ^ 64"
    using unat_less_64 [of w] by (simp add: pgno_def)
  ultimately have "unat (PGROUNDDOWN va + of_nat (4096 * (pgno w - pgno va))) = pgno w * 4096"
    by (subst unat_add_64) simp_all
  then show ?thesis
    by (simp only: word_unat_eq_iff unat_PGROUNDDOWN pgno_def)
qed

text \<open>
  C4: \<open>mappages\<close> on a well-formed page table whose range is unmapped never panics. When it
  returns 0, exactly the pages of the range got the entries asked for and no other entry of the
  address space changed; when it returns -1, memory is exhausted and a prefix of the range is
  mapped. In both cases the allocator invariant and the shape of the table hold, the new tables
  are exactly the pages taken from the free list, and no other page of memory and no other
  reference count changed.
\<close>

theorem mappages_correct:
  assumes "kinv s xs" "pt_wf s root" "sz \<noteq> 0" "unat va + unat sz \<le> unat MAXVA"
    "\<And>v. v < MAXVA \<Longrightarrow> pgno va \<le> pgno v \<Longrightarrow> pgno v \<le> pgno (va + sz - 1) \<Longrightarrow>
       \<not> valid (leaf (phys s) root v)"
  shows "\<exists>r s' ys k. mappages root va sz pa perm s = Ok (r, s') \<and>
    kinv s' ys \<and> pt_wf s' root \<and> set ys \<subseteq> set xs \<and>
    tables (phys s') root = tables (phys s) root \<union> (set xs - set ys) \<and>
    vm_frame (tables (phys s) root \<union> (set xs - set ys)) s s' \<and>
    (r = 0 \<and> k = pgno (va + sz - 1) - pgno va + 1 \<or>
     r = -1 \<and> ys = [] \<and> k \<le> pgno (va + sz - 1) - pgno va) \<and>
    (\<forall>v<MAXVA. leaf (phys s') root v =
      (if pgno va \<le> pgno v \<and> pgno v < pgno va + k
       then PA2PTE (pa + of_nat (4096 * (pgno v - pgno va))) OR perm OR PTE_V
       else leaf (phys s) root v))"
proof -
  let ?w = "va + sz - 1" and ?n = "pgno (va + sz - 1) - pgno va"
  have sz: "0 < unat sz" using assms(3) by (simp add: unat_gt_0)
  have w: "unat ?w = unat va + unat sz - 1"
  proof -
    have "unat (va + sz) = unat va + unat sz"
      using assms(4) by (simp add: unat_word_ariths)
    moreover have "1 \<le> va + sz" using sz calculation by (simp add: word_le_nat_alt)
    ultimately show ?thesis by (simp add: unat_sub word_le_nat_alt)
  qed
  have le: "va \<le> ?w" using w sz by (simp add: word_le_nat_alt)
  have pg: "pgno va \<le> pgno ?w" using le by (simp add: pgno_def word_le_nat_alt div_le_mono)
  have "unat (PGROUNDDOWN va) + 4096 * ?n = pgno ?w * 4096"
    using pg by (simp add: unat_PGROUNDDOWN pgno_def [symmetric] algebra_simps)
  also have "\<dots> \<le> unat ?w" by (simp add: pgno_def)
  finally have lim: "unat (PGROUNDDOWN va) + 4096 * ?n < 274877906944"
    using w assms(4) sz by simp
  have iv: "\<not> valid (leaf (phys s) root v)"
    if "v < MAXVA" "pgno (PGROUNDDOWN va) \<le> pgno v" "pgno v \<le> pgno (PGROUNDDOWN va) + ?n" for v
    using assms(5) [OF that(1)] that pg by (simp add: pgno_PGROUNDDOWN)
  have run: "mappages root va sz pa perm s =
      mappages_loop root (PGROUNDDOWN va) (PGROUNDDOWN va + of_nat (4096 * ?n)) pa perm s"
    using assms(3) PGROUNDDOWN_nth_page [OF le] by (simp add: mappages_def)
  from mappages_loop_correct [OF assms(1,2) pg_aligned_PGROUNDDOWN lim iv, of pa perm]
  obtain r s' ys k where
    "mappages_loop root (PGROUNDDOWN va) (PGROUNDDOWN va + of_nat (4096 * ?n)) pa perm s = Ok (r, s')"
    "map_post root s xs s' ys" "r = 0 \<and> k = Suc ?n \<or> r = -1 \<and> k \<le> ?n \<and> ys = []"
    "\<forall>v<MAXVA. leaf (phys s') root v = mapped_from (PGROUNDDOWN va) pa perm k (leaf (phys s) root) v"
    by blast
  then show ?thesis
    unfolding run
    by (intro exI [of _ r] exI [of _ s'] exI [of _ ys] exI [of _ k])
      (auto simp: map_post_def mapped_from_def pgno_PGROUNDDOWN)
qed

theorem mappages_correct_witness:
  "\<exists>r s'. mappages pN 0 PGSIZE pD 0x16 sample = Ok (r, s') \<and> pt_wf s' pN"
  using mappages_correct [of sample "[pF1, pF2, pF3]" pN PGSIZE 0 pD "0x16",
      OF sample_kinv sample_wf(2)] sample_leaf(2) by auto

text \<open>
  C5: \<open>uvmunmap\<close> with \<open>do_free\<close>, on a range that is mapped to distinct pages in use:
  it returns without a panic, the entries of exactly this range are cleared, each page loses one
  reference, the pages whose last reference it was are the ones added to the free list, and no
  byte of any other page changes except in the tables themselves.
\<close>

theorem uvmunmap_correct:
  assumes "kinv s xs" "pt_wf s root" "user_range s root va (unat npages)"
  shows "\<exists>s' ys. uvmunmap root va npages True s = Ok s' \<and> kinv s' ys \<and> pt_wf s' root \<and>
    set ys = set xs \<union> {p \<in> pa_at (phys s) root va ` {..<unat npages}. refcnt s (pgno p) = 1} \<and>
    (\<forall>n. refcnt s' n =
      (if n \<in> pgno ` pa_at (phys s) root va ` {..<unat npages} then refcnt s n - 1 else refcnt s n)) \<and>
    (\<forall>a. pgno a \<notin> pgno ` (tables (phys s) root \<union>
        {p \<in> pa_at (phys s) root va ` {..<unat npages}. refcnt s (pgno p) = 1}) \<longrightarrow>
      phys s' a = phys s a) \<and>
    (\<forall>v<MAXVA. leaf (phys s') root v =
      (if pgno va \<le> pgno v \<and> pgno v < pgno va + unat npages then 0 else leaf (phys s) root v))"
proof -
  have al: "va mod PGSIZE = 0"
    using assms(3) by (simp add: user_range_def pg_aligned_def)
  have "va + npages * PGSIZE = nth_page va (unat npages)"
    by (simp add: nth_page_def mult.commute)
  with al have run: "uvmunmap root va npages True s =
      uvmunmap_loop root va (nth_page va (unat npages)) True s"
    unfolding uvmunmap_def by metis
  from uvmunmap_loop_correct [OF assms] show ?thesis
    unfolding run unmap_post_def by blast
qed

theorem uvmunmap_correct_witness:
  "\<exists>s' ys. uvmunmap pR 0 1 True sample = Ok s' \<and> set ys = {pF1, pF2, pF3, pD} \<and> kinv s' ys \<and>
     leaf (phys s') pR 0 = 0"
proof -
  have "user_range sample pR 0 (unat (1 :: u64))" using sample_range by simp
  note uvmunmap_correct [OF sample_kinv sample_wf(1) this]
  moreover have "pa_at (phys sample) pR 0 ` {..<unat (1 :: u64)} = {pD}"
    using sample_leaf(1) sample_pte(3) by (simp add: pa_at_def lessThan_Suc)
  ultimately obtain s' ys where "uvmunmap pR 0 1 True sample = Ok s'" "kinv s' ys"
    "set ys = set [pF1, pF2, pF3] \<union> {p \<in> {pD}. refcnt sample (pgno p) = 1}"
    "\<forall>v<MAXVA. leaf (phys s') pR v =
      (if pgno 0 \<le> pgno v \<and> pgno v < pgno 0 + unat (1 :: u64) then 0 else leaf (phys sample) pR v)"
    by auto
  moreover have "{p \<in> {pD}. refcnt sample (pgno p) = 1} = {pD}"
    using sample_ref(4) by auto
  ultimately show ?thesis
    by (intro exI [of _ s'] exI [of _ ys]) (auto simp: pgno_def)
qed

end
