(* ===== verification/Cow.thy ===== *)
theory Cow
  imports Vm
begin

text \<open>
  Copy-on-write: the page-fault handler of \<open>kernel/trap.c\<close> and the copies between kernel
  and user memory of \<open>kernel/vm.c\<close>.

  A kernel buffer on the other side of a copy is the list of its bytes; what is copied in is
  returned, also when the copy fails half-way.

  The specification is a view of memory in which nothing is shared: \<open>uview s root va\<close> is the
  byte a process with this page table has at \<open>va\<close>. Under \<open>cow_inv\<close> (reference counts
  cover all mappings of a page) \<open>cowHandler\<close> is a step that no view can see,
  \<open>copyout\<close> changes the bytes it is asked to in one address space and in no other, and
  \<open>uvmcopy\<close> gives the child the view of its parent.
\<close>

subsection \<open>Operations\<close>

definition check_valid_page :: "u64 \<Rightarrow> kmem \<Rightarrow> bool" where
  "check_valid_page pte s \<longleftrightarrow>
     pte \<noteq> 0 \<and> load64 (phys s) pte AND PTE_U \<noteq> 0 \<and> load64 (phys s) pte AND PTE_V \<noteq> 0"

definition allocate_and_copy_page :: "u64 \<Rightarrow> kmem \<Rightarrow> (u64 \<times> kmem) res" where
  "allocate_and_copy_page pa1 s =
     bnd (kalloc s) (\<lambda>(pa2, s).
       if pa2 = 0 then Ok (0, s)
       else Ok (pa2, s\<lparr>phys := memmove pa2 pa1 4096 (phys s)\<rparr>))"

definition cowHandler :: "u64 \<Rightarrow> u64 \<Rightarrow> kmem \<Rightarrow> (int \<times> kmem) res" where
  "cowHandler pt va s =
     (if va \<ge> MAXVA then Ok (-1, s)
      else if va = 0 then Ok (-1, s)
      else bnd (walk pt va False s) (\<lambda>(pte, s).
        if \<not> check_valid_page pte s then Ok (-1, s)
        else
          let pa1 = PTE2PA (load64 (phys s) pte) in
          bnd (allocate_and_copy_page pa1 s) (\<lambda>(pa2, s).
            if pa2 = 0 then Ok (-1, s)
            else
              let s = s\<lparr>phys := store64 (phys s) pte
                (PA2PTE pa2 OR PTE_U OR PTE_V OR PTE_W OR PTE_X OR PTE_R)\<rparr>
              in bnd (kfree pa1 s) (\<lambda>s. Ok (0, s)))))"

lemma page_offset_less: "unat (a - PGROUNDDOWN a) = unat a mod 4096"
proof -
  have "unat (PGROUNDDOWN a) \<le> unat a" by (simp add: unat_PGROUNDDOWN)
  then show ?thesis
    by (simp add: unat_sub_if' unat_PGROUNDDOWN minus_div_mult_eq_mod)
qed

function copyout :: "u64 \<Rightarrow> u64 \<Rightarrow> u8 list \<Rightarrow> kmem \<Rightarrow> (int \<times> kmem) res" where
  "copyout pagetable dstva src s =
     (if src = [] then Ok (0, s)
      else
        let va0 = PGROUNDDOWN dstva in
        if va0 > MAXVA then Ok (-1, s)
        else bnd (cowHandler pagetable va0 s) (\<lambda>(r, s).
          if r < 0 then Ok (-1, s)
          else bnd (walkaddr pagetable va0 s) (\<lambda>pa0.
            if pa0 = 0 then Ok (-1, s)
            else
              let n = 4096 - unat (dstva - va0);
                  n = (if n > length src then length src else n);
                  s = s\<lparr>phys := store_bytes (phys s) (pa0 + (dstva - va0)) (take n src)\<rparr>
              in copyout pagetable (va0 + PGSIZE) (drop n src) s)))"
  by pat_completeness auto
termination
  by (relation "measure (\<lambda>(_, _, src, _). length src)") (auto simp: page_offset_less)

declare copyout.simps [simp del]

function copyin :: "u64 \<Rightarrow> u64 \<Rightarrow> nat \<Rightarrow> kmem \<Rightarrow> (int \<times> u8 list) res" where
  "copyin pagetable srcva len s =
     (if len = 0 then Ok (0, [])
      else
        let va0 = PGROUNDDOWN srcva in
        bnd (walkaddr pagetable va0 s) (\<lambda>pa0.
          if pa0 = 0 then Ok (-1, [])
          else
            let n = 4096 - unat (srcva - va0);
                n = (if n > len then len else n);
                bs = load_bytes (phys s) (pa0 + (srcva - va0)) n
            in bnd (copyin pagetable (va0 + PGSIZE) (len - n) s) (\<lambda>(r, cs). Ok (r, bs @ cs))))"
  by pat_completeness auto
termination
  by (relation "measure (\<lambda>(_, _, len, _). len)") (auto simp: page_offset_less)

declare copyin.simps [simp del]

text \<open>The scan of one page: the bytes stored and whether the NUL was among them.\<close>

fun copyinstr_page :: "mem \<Rightarrow> u64 \<Rightarrow> nat \<Rightarrow> u8 list \<times> bool" where
  "copyinstr_page m p 0 = ([], False)"
| "copyinstr_page m p (Suc n) =
     (if m p = 0 then ([0], True)
      else let (bs, nul) = copyinstr_page m (p + 1) n in (m p # bs, nul))"

function copyinstr :: "u64 \<Rightarrow> u64 \<Rightarrow> nat \<Rightarrow> kmem \<Rightarrow> (int \<times> u8 list) res" where
  "copyinstr pagetable srcva mx s =
     (if mx > 0 then
        let va0 = PGROUNDDOWN srcva in
        bnd (walkaddr pagetable va0 s) (\<lambda>pa0.
          if pa0 = 0 then Ok (-1, [])
          else
            let n = 4096 - unat (srcva - va0);
                n = (if n > mx then mx else n);
                (bs, got_null) = copyinstr_page (phys s) (pa0 + (srcva - va0)) n
            in if got_null then Ok (0, bs)
               else bnd (copyinstr pagetable (va0 + PGSIZE) (mx - n) s) (\<lambda>(r, cs). Ok (r, bs @ cs)))
      else Ok (-1, []))"
  by pat_completeness auto
termination
  by (relation "measure (\<lambda>(_, _, mx, _). mx)") (auto simp: page_offset_less)

declare copyinstr.simps [simp del]

subsection \<open>What a process sees\<close>

definition user :: "u64 \<Rightarrow> bool" where
  "user e \<longleftrightarrow> valid e \<and> e AND PTE_U \<noteq> 0"

definition off :: "u64 \<Rightarrow> nat" where
  "off va = unat va mod 4096"

definition uview :: "kmem \<Rightarrow> u64 \<Rightarrow> u64 \<Rightarrow> u8 option" where
  "uview s root va =
     (let e = leaf (phys s) root va in
      if va < MAXVA \<and> user e then Some (phys s (PTE2PA e + of_nat (off va))) else None)"

text \<open>The mappings of a physical page, over all address spaces in \<open>Rs\<close>.\<close>

definition mappers :: "mem \<Rightarrow> u64 set \<Rightarrow> u64 \<Rightarrow> (u64 \<times> nat) set" where
  "mappers m Rs p = {(r, n). r \<in> Rs \<and> (\<exists>va<MAXVA. pgno va = n \<and> valid (leaf m r va) \<and>
     PTE2PA (leaf m r va) = p)}"

definition cow_inv :: "kmem \<Rightarrow> u64 list \<Rightarrow> u64 set \<Rightarrow> bool" where
  "cow_inv s xs Rs \<longleftrightarrow> kinv s xs \<and> finite Rs \<and> (\<forall>r\<in>Rs. pt_wf s r) \<and>
     (\<forall>r\<in>Rs. \<forall>r'\<in>Rs. r \<noteq> r' \<longrightarrow> tables (phys s) r \<inter> tables (phys s) r' = {}) \<and>
     (\<forall>r\<in>Rs. \<forall>va<MAXVA. valid (leaf (phys s) r va) \<longrightarrow>
        (user (leaf (phys s) r va) \<longrightarrow> managed s (PTE2PA (leaf (phys s) r va))) \<and>
        (\<forall>r'\<in>Rs. PTE2PA (leaf (phys s) r va) \<notin> tables (phys s) r')) \<and>
     (\<forall>p. managed s p \<longrightarrow> int (card (mappers (phys s) Rs p)) \<le> refcnt s (pgno p))"

lemma off_less: "off va < 4096"
  by (simp add: off_def)

lemma pgno_lt: "va < MAXVA \<Longrightarrow> pgno va < 67108864"
  by (simp add: pgno_def word_less_nat_alt less_mult_imp_div_less)

lemma finite_mappers: "finite Rs \<Longrightarrow> finite (mappers m Rs p)"
  by (rule finite_subset [of _ "Rs \<times> {..<67108864}"]) (auto simp: mappers_def pgno_lt)

text \<open>The leaf entry is the same for all addresses of a page.\<close>

lemma leaf_page: "pgno va = pgno va' \<Longrightarrow> leaf m root va = leaf m root va'"
proof -
  assume "pgno va = pgno va'"
  then have px: "PX k va = PX k va'" for k
    by (simp add: word_unat_eq_iff unat_PX PXSHIFT_def pgno_def power_add div_mult2_eq)
  then have "vpath 0 va = vpath 0 va'" by (simp add: vpath_def)
  with px [of 0] show ?thesis by (simp add: leaf_def split: option.split)
qed

lemma mappers_iff:
  "va < MAXVA \<Longrightarrow> (r, pgno va) \<in> mappers m Rs p \<longleftrightarrow>
    r \<in> Rs \<and> valid (leaf m r va) \<and> PTE2PA (leaf m r va) = p"
proof
  assume "(r, pgno va) \<in> mappers m Rs p"
  then obtain va' where "r \<in> Rs" "pgno va' = pgno va" "valid (leaf m r va')" "PTE2PA (leaf m r va') = p"
    by (auto simp: mappers_def)
  moreover from this(2) have "leaf m r va' = leaf m r va" by (rule leaf_page)
  ultimately show "r \<in> Rs \<and> valid (leaf m r va) \<and> PTE2PA (leaf m r va) = p" by simp
qed (auto simp: mappers_def)

lemma mappersE:
  assumes "(r, n) \<in> mappers m Rs p"
  obtains va where "va < MAXVA" "n = pgno va" "r \<in> Rs" "valid (leaf m r va)" "PTE2PA (leaf m r va) = p"
  using assms by (auto simp: mappers_def)

lemma cow_invD:
  assumes "cow_inv s xs Rs"
  shows "kinv s xs" "finite Rs" "\<And>r. r \<in> Rs \<Longrightarrow> pt_wf s r"
    "\<And>r r'. r \<in> Rs \<Longrightarrow> r' \<in> Rs \<Longrightarrow> r \<noteq> r' \<Longrightarrow> tables (phys s) r \<inter> tables (phys s) r' = {}"
    "\<And>p. managed s p \<Longrightarrow> int (card (mappers (phys s) Rs p)) \<le> refcnt s (pgno p)"
  using assms unfolding cow_inv_def by blast+

lemma cow_inv_valid:
  assumes "cow_inv s xs Rs" "r \<in> Rs" "va < MAXVA" "valid (leaf (phys s) r va)"
    and "p = PTE2PA (leaf (phys s) r va)" "managed s p"
  shows "1 \<le> refcnt s (pgno p)" "p \<notin> set xs" "\<And>r'. r' \<in> Rs \<Longrightarrow> p \<notin> tables (phys s) r'"
proof -
  have "(r, pgno va) \<in> mappers (phys s) Rs p" using assms by (simp add: mappers_iff)
  then have "0 < card (mappers (phys s) Rs p)"
    using finite_mappers [OF cow_invD(2) [OF assms(1)]] by (auto simp: card_gt_0_iff)
  then show "1 \<le> refcnt s (pgno p)" using cow_invD(5) [OF assms(1,6)] by linarith
  then show "p \<notin> set xs" using kinv_free_iff [OF cow_invD(1) [OF assms(1)] assms(6)] by auto
  show "\<And>r'. r' \<in> Rs \<Longrightarrow> p \<notin> tables (phys s) r'"
    using assms unfolding cow_inv_def by blast
qed

lemma user_valid [simp]: "user e \<Longrightarrow> valid e"
  by (simp add: user_def)

lemma cow_inv_page:
  assumes "cow_inv s xs Rs" "r \<in> Rs" "va < MAXVA" "user (leaf (phys s) r va)"
    and "p = PTE2PA (leaf (phys s) r va)"
  shows "managed s p" "pg_aligned p" "\<And>r'. r' \<in> Rs \<Longrightarrow> p \<notin> tables (phys s) r'"
    "1 \<le> refcnt s (pgno p)" "p \<notin> set xs"
proof -
  note v = user_valid [OF assms(4)]
  show m: "managed s p" using assms v unfolding cow_inv_def by blast
  then show "pg_aligned p" by (simp add: managed_def)
  show "\<And>r'. r' \<in> Rs \<Longrightarrow> p \<notin> tables (phys s) r'" "1 \<le> refcnt s (pgno p)" "p \<notin> set xs"
    using cow_inv_valid [OF assms(1-3) v assms(5) m] by blast+
qed

text \<open>A page with several mappings has several references.\<close>

lemma cow_inv_shared:
  assumes "cow_inv s xs Rs" "managed s p" "(r, n) \<in> mappers (phys s) Rs p"
    "(r', n') \<in> mappers (phys s) Rs p" "(r, n) \<noteq> (r', n')"
  shows "1 < refcnt s (pgno p)"
proof -
  have "card {(r, n), (r', n')} \<le> card (mappers (phys s) Rs p)"
    using assms finite_mappers [OF cow_invD(2) [OF assms(1)]] by (intro card_mono) auto
  with assms(5) cow_invD(5) [OF assms(1,2)] show ?thesis by simp
qed

subsection \<open>The page-fault handler\<close>

lemma new_pte: "managed s x \<Longrightarrow> PTE2PA (PA2PTE x OR 31) = x \<and> user (PA2PTE x OR 31)"
  using managed_lt [of s x] PTE2PA_build [of x 31]
  by (auto simp: managed_def user_def valid_def PA2PTE_and_low)

lemma copy_page:
  assumes "pg_aligned x" "pg_aligned p" "pgno x \<noteq> pgno p" "x < PHYSTOP" "p < PHYSTOP"
  shows "memmove x p 4096 m = (\<lambda>a. if pgno a = pgno x then m (p + (a - x)) else m a)"
proof -
  have "unat p + 4096 < 2 ^ 64" "unat x + 4096 < 2 ^ 64"
    using assms(4,5) by (simp_all add: word_less_nat_alt)
  then have "memmove x p 4096 m = store_bytes m x (load_bytes m p 4096)"
    by (intro memmove_eq) auto
  also have "\<dots> = (\<lambda>a. if pgno a = pgno x then m (p + (a - x)) else m a)"
    using in_page_iff [OF assms(1)] by (auto simp: store_bytes_def fun_eq_iff)
  finally show ?thesis .
qed

text \<open>All address spaces after a change outside their tables.\<close>

lemma frame_all:
  assumes "vm_frame P s s'" "\<forall>r\<in>Rs. pt_wf s r" "\<And>r. r \<in> Rs \<Longrightarrow> pgno ` tables (phys s) r \<inter> pgno ` P = {}"
    and "r \<in> Rs"
  shows "pt_wf s' r" "tables (phys s') r = tables (phys s) r" "leaf (phys s') r = leaf (phys s) r"
    "ptab (phys s') r (vpath 0 va) = ptab (phys s) r (vpath 0 va)"
  using vm_frame_other_pt [OF assms(1) _ assms(3) [OF assms(4)]] assms(2,4) by auto

lemma disjoint_page:
  assumes "pt_wf s r" "managed s p" "p \<notin> tables (phys s) r"
  shows "pgno ` tables (phys s) r \<inter> pgno ` {p} = {}"
proof -
  have "pgno t \<noteq> pgno p" if "t \<in> tables (phys s) r" for t
    using assms(2,3) that pt_wf_tables [OF assms(1) that] managed_pgno_eq [of s t p] by metis
  then show ?thesis by blast
qed

lemma disjoint_tables:
  assumes "pt_wf s r" "pt_wf s r'" "tables (phys s) r \<inter> tables (phys s) r' = {}"
  shows "pgno ` tables (phys s) r \<inter> pgno ` tables (phys s) r' = {}"
proof -
  have "pgno t \<noteq> pgno t'" if "t \<in> tables (phys s) r" "t' \<in> tables (phys s) r'" for t t'
    using assms(3) that pt_wf_tables [OF assms(1) that(1)] pt_wf_tables [OF assms(2) that(2)]
      managed_pgno_eq [of s t t'] by blast
  then show ?thesis by blast
qed

definition cow_post :: "u64 \<Rightarrow> u64 \<Rightarrow> u64 set \<Rightarrow> u64 \<Rightarrow> u64 \<Rightarrow> kmem \<Rightarrow> kmem \<Rightarrow> bool" where
  "cow_post root va Rs x p s s' \<longleftrightarrow> kend s' = kend s \<and>
     refcnt s' = (refcnt s)(pgno x := 1, pgno p := refcnt s (pgno p) - 1) \<and>
     (\<forall>r\<in>Rs. pt_wf s' r \<and> tables (phys s') r = tables (phys s) r) \<and>
     (\<forall>r\<in>Rs. \<forall>v<MAXVA. leaf (phys s') r v =
        (if r = root \<and> pgno v = pgno va then PA2PTE x OR 31 else leaf (phys s) r v)) \<and>
     (\<forall>a. pgno a = pgno x \<longrightarrow> phys s' a = phys s (p + (a - x))) \<and>
     (\<forall>a. pgno a \<noteq> pgno x \<and> pgno a \<notin> pgno ` tables (phys s) root \<and>
        (pgno a \<noteq> pgno p \<or> 1 < refcnt s (pgno p)) \<longrightarrow> phys s' a = phys s a)"

lemma cowHandler_step:
  assumes ci: "cow_inv s (x # ys) Rs" and root: "root \<in> Rs" and va: "va < MAXVA" "va \<noteq> 0"
    and us: "user (leaf (phys s) root va)" and p: "p = PTE2PA (leaf (phys s) root va)"
  shows "\<exists>s' zs. cowHandler root va s = Ok (0, s') \<and> kinv s' zs \<and> cow_post root va Rs x p s s' \<and>
    set zs = set ys \<union> (if refcnt s (pgno p) = 1 then {p} else {})"
proof -
  note inv = cow_invD(1) [OF ci] and wfs = cow_invD(3) [OF ci]
  note pp = cow_inv_page [OF ci root va(1) us p]
  have x: "managed s x" "refcnt s (pgno x) = 0" "x \<notin> set ys" "pg_aligned x" "x \<noteq> 0"
    using kinv_hd [OF inv] by auto
  have xt: "x \<notin> tables (phys s) r" if "r \<in> Rs" for r
    using not_free_table [OF inv wfs [OF that]] by simp
  have px: "pgno p \<noteq> pgno x" using pp(1,5) x(1) managed_pgno_eq [of s p x] by auto
  obtain u where u: "ptab (phys s) root (vpath 0 va) = Some u"
      "leaf (phys s) root va = load64 (phys s) (u + 8 * PX 0 va)"
    using us leaf_valid_slot [of "phys s" root va] by (auto simp: user_def)
  have nz: "u + 8 * PX 0 va \<noteq> 0"
    using slot_nonzero [of s u va] pt_wfD(1) [OF wfs [OF root] u(1)] inv by (simp add: kinv_def flinv_def)
  obtain s1 where s1: "kalloc s = Ok (x, s1)" "kinv s1 ys" "kend s1 = kend s"
      "refcnt s1 = (refcnt s)(pgno x := 1)" "phys s1 = (\<lambda>a. if pgno a = pgno x then 5 else phys s a)"
    using kalloc_Cons [OF inv] by auto
  define s2 where "s2 = s1\<lparr>phys := memmove x p 4096 (phys s1)\<rparr>"
  have m2: "phys s2 a = (if pgno a = pgno x then phys s (p + (a - x)) else phys s a)" for a
  proof -
    have "pgno (p + (a - x)) = pgno p" if "pgno a = pgno x"
      using pgno_add [OF pp(2), of "unat (a - x)"] in_page_iff [OF x(4), of a] that by simp
    moreover have "memmove x p 4096 (phys s1) = (\<lambda>a. if pgno a = pgno x then phys s1 (p + (a - x)) else phys s1 a)"
      using x pp(1,2) px by (intro copy_page) (auto simp: managed_def)
    ultimately show ?thesis using px unfolding s2_def s1(5) by simp
  qed
  have inv2: "kinv s2 ys"
    unfolding s2_def
  proof (rule kinv_phys [OF s1(2)])
    fix a assume "pgno a \<in> pgno ` set ys"
    then have "pgno a \<noteq> pgno x" using pgno_tail_free [OF inv] by auto
    then show "memmove x p 4096 (phys s1) a = phys s1 a" using m2 [of a] s1(5) by (simp add: s2_def)
  qed
  have fr2: "vm_frame {x} s s2"
    using s1(3,4) m2 by (simp add: vm_frame_def) (simp add: s2_def)
  note f2 = frame_all [OF fr2, of Rs] 
  have wf2: "pt_wf s2 r" "tables (phys s2) r = tables (phys s) r" "leaf (phys s2) r = leaf (phys s) r"
    "ptab (phys s2) r (vpath 0 va) = ptab (phys s) r (vpath 0 va)" if "r \<in> Rs" for r
    using f2 [OF _ _ that] wfs disjoint_page [OF wfs x(1) xt] by blast+
  define s3 where "s3 = s2\<lparr>phys := store64 (phys s2) (u + 8 * PX 0 va) (PA2PTE x OR 31)\<rparr>"
  have u2: "ptab (phys s2) root (vpath 0 va) = Some u" using wf2(4) [OF root] u(1) by simp
  note sl = set_leaf [OF wf2(1) [OF root] u2 va(1) s3_def]
  have wf3: "pt_wf s3 r \<and> tables (phys s3) r = tables (phys s) r \<and> (\<forall>v<MAXVA. leaf (phys s3) r v =
      (if r = root \<and> pgno v = pgno va then PA2PTE x OR 31 else leaf (phys s) r v))" if "r \<in> Rs" for r
  proof (cases "r = root")
    case True
    then show ?thesis using sl(1,2,5) wf2(2,3) [OF root] by simp
  next
    case False
    have "pgno ` tables (phys s2) r \<inter> pgno ` tables (phys s2) root = {}"
      using False cow_invD(4) [OF ci that root] wf2 that root by (intro disjoint_tables) auto
    with vm_frame_other_pt [OF sl(3) wf2(1) [OF that]] False wf2(2,3) [OF that] show ?thesis by simp
  qed
  have inv3: "kinv s3 ys" using sl(4) inv2 .
  have m3: "phys s3 a = phys s2 a" if "pgno a \<notin> pgno ` tables (phys s) root" for a
    using sl(3) that wf2(2) [OF root] by (simp add: vm_frame_def)
  have man3: "managed s3 = managed s"
    using s1(3) by (intro managed_cong) (simp add: s3_def s2_def)
  have ref3: "refcnt s3 = (refcnt s)(pgno x := 1)" using s1(4) by (simp add: s3_def s2_def)
  obtain s4 zs where s4: "kfree p s3 = Ok s4" "kinv s4 zs" "kend s4 = kend s3"
    "set zs = set ys \<union> (if refcnt s3 (pgno p) = 1 then {p} else {})"
    "refcnt s4 = (refcnt s3)(pgno p := refcnt s3 (pgno p) - 1)"
    "\<And>a. pgno a \<noteq> pgno p \<or> 1 < refcnt s3 (pgno p) \<Longrightarrow> phys s4 a = phys s3 a"
    using kfree_ref [OF inv3, of p] pp(1,4) px man3 ref3 by auto
  have fr4: "vm_frame {p} s3 s4" using s4 by (simp add: vm_frame_def)
  have wf4: "pt_wf s4 r" "tables (phys s4) r = tables (phys s3) r" "leaf (phys s4) r = leaf (phys s3) r"
    if "r \<in> Rs" for r
  proof -
    have "pgno ` tables (phys s3) r \<inter> pgno ` {p} = {}"
      using wf3 [OF that] pp(1) pp(3) [OF that] man3 by (intro disjoint_page) auto
    with vm_frame_other_pt [OF fr4] wf3 [OF that]
    show "pt_wf s4 r" "tables (phys s4) r = tables (phys s3) r" "leaf (phys s4) r = leaf (phys s3) r"
      by auto
  qed
  have run: "cowHandler root va s = Ok (0, s4)"
    using va walk_look [OF va(1), of root s] u nz us s1(1) x(5) s4(1) p
    by (simp add: cowHandler_def check_valid_page_def allocate_and_copy_page_def user_def valid_def
        s2_def s3_def Let_def not_le)
  have xtab: "pgno x \<notin> pgno ` tables (phys s) root"
    using disjoint_page [OF wfs [OF root] x(1) xt [OF root]] by blast
  have "cow_post root va Rs x p s s4"
    unfolding cow_post_def
    using s4(3,5) ref3 px wf3 wf4 s1(3) s4(6) m3 m2 xtab by (auto simp: s3_def s2_def)
  then show ?thesis
    using run s4(2,4) ref3 px by auto
qed

lemma cow_post_leaf:
  "cow_post root va Rs x p s s' \<Longrightarrow> r \<in> Rs \<Longrightarrow> v < MAXVA \<Longrightarrow> leaf (phys s') r v =
    (if r = root \<and> pgno v = pgno va then PA2PTE x OR 31 else leaf (phys s) r v)"
  by (simp add: cow_post_def)

lemma cow_post_mappers:
  assumes ci: "cow_inv s (x # ys) Rs" and root: "root \<in> Rs" and va: "va < MAXVA"
    and post: "cow_post root va Rs x p s s'"
  shows "mappers (phys s') Rs q =
    mappers (phys s) Rs q - {(root, pgno va)} \<union> (if q = x then {(root, pgno va)} else {})"
proof -
  have x: "PTE2PA (PA2PTE x OR 31) = x" "user (PA2PTE x OR 31)"
    using new_pte kinv_hd [OF cow_invD(1) [OF ci]] by blast+
  have lf: "leaf (phys s') r v =
      (if r = root \<and> pgno v = pgno va then PA2PTE x OR 31 else leaf (phys s) r v)"
    if "r \<in> Rs" "v < MAXVA" for r v
    using post that by (simp add: cow_post_def)
  have "(r, n) \<in> mappers (phys s') Rs q \<longleftrightarrow>
      (r, n) \<in> mappers (phys s) Rs q - {(root, pgno va)} \<union> (if q = x then {(root, pgno va)} else {})" for r n
  proof (cases "\<exists>v<MAXVA. n = pgno v")
    case True
    then obtain v where v: "v < MAXVA" "n = pgno v" by blast
    show ?thesis
    proof (cases "r = root \<and> pgno v = pgno va")
      case True
      then show ?thesis
        unfolding v(2) mappers_iff [OF v(1)] using lf [OF root v(1)] x root by (auto simp: mappers_iff [OF v(1)])
    next
      case False
      then show ?thesis
        unfolding v(2) using lf [OF _ v(1), of r] by (auto simp: mappers_iff [OF v(1)])
    qed
  next
    case False
    then show ?thesis using va by (auto elim: mappersE)
  qed
  then show ?thesis by auto
qed

lemma cow_post_inv:
  assumes ci: "cow_inv s (x # ys) Rs" and root: "root \<in> Rs" and va: "va < MAXVA"
    and us: "user (leaf (phys s) root va)" and p: "p = PTE2PA (leaf (phys s) root va)"
    and post: "cow_post root va Rs x p s s'" and inv: "kinv s' zs"
  shows "cow_inv s' zs Rs"
proof -
  note pp = cow_inv_page [OF ci root va us p]
  have x: "managed s x" "refcnt s (pgno x) = 0" and xt: "\<And>r. r \<in> Rs \<Longrightarrow> x \<notin> tables (phys s) r"
    using kinv_hd [OF cow_invD(1) [OF ci]] not_free_table [OF cow_invD(1) [OF ci] cow_invD(3) [OF ci]]
    by auto
  have px: "pgno p \<noteq> pgno x" using pp(1,4) x by auto
  have man: "managed s' = managed s" using post by (intro managed_cong) (simp add: cow_post_def)
  have tb: "tables (phys s') r = tables (phys s) r" "pt_wf s' r" if "r \<in> Rs" for r
    using post that by (simp_all add: cow_post_def)
  have ref: "refcnt s' = (refcnt s)(pgno x := 1, pgno p := refcnt s (pgno p) - 1)"
    using post by (simp add: cow_post_def)
  have "(user (leaf (phys s') r v) \<longrightarrow> managed s (PTE2PA (leaf (phys s') r v))) \<and>
      (\<forall>r'\<in>Rs. PTE2PA (leaf (phys s') r v) \<notin> tables (phys s) r')"
    if "r \<in> Rs" "v < MAXVA" "valid (leaf (phys s') r v)" for r v
  proof (cases "r = root \<and> pgno v = pgno va")
    case True
    then have "leaf (phys s') r v = PA2PTE x OR 31" using post that by (simp add: cow_post_def)
    then show ?thesis using new_pte [OF x(1)] x(1) xt by simp
  next
    case False
    then have "leaf (phys s') r v = leaf (phys s) r v" using post that by (auto simp: cow_post_def)
    with that show ?thesis using ci unfolding cow_inv_def by simp
  qed
  moreover have "int (card (mappers (phys s') Rs q)) \<le> refcnt s' (pgno q)" if q: "managed s q" for q
  proof -
    have fin: "finite (mappers (phys s) Rs q)" for q
      using finite_mappers cow_invD(2) [OF ci] by blast
    have le: "int (card (mappers (phys s) Rs q)) \<le> refcnt s (pgno q)" using cow_invD(5) [OF ci q] .
    note mp = cow_post_mappers [OF ci root va post, of q]
    consider "q = x" | "q = p" "q \<noteq> x" | "q \<noteq> x" "q \<noteq> p" by blast
    then show ?thesis
    proof cases
      case 1
      then have "mappers (phys s) Rs q = {}" using le x(2) fin [of q] by simp
      with 1 mp px ref show ?thesis by simp
    next
      case 2
      have "(root, pgno va) \<in> mappers (phys s) Rs q"
        using 2 root us p va by (simp add: mappers_iff)
      then have "card (mappers (phys s) Rs q) = Suc (card (mappers (phys s) Rs q - {(root, pgno va)}))"
        using fin by (intro card.remove) auto
      moreover have "mappers (phys s') Rs q = mappers (phys s) Rs q - {(root, pgno va)}"
        using mp 2 by simp
      ultimately show ?thesis using 2 le ref by simp
    next
      case 3
      then have "pgno q \<noteq> pgno x" "pgno q \<noteq> pgno p" using managed_pgno_eq q x(1) pp(1) by blast+
      moreover have "card (mappers (phys s') Rs q) \<le> card (mappers (phys s) Rs q)"
        using mp 3 fin [of q] by (auto intro: card_mono)
      ultimately show ?thesis using le ref by simp
    qed
  qed
  ultimately show ?thesis
    unfolding cow_inv_def using inv cow_invD(2,4) [OF ci] tb man by simp
qed

lemma va_off: "pg_aligned x \<Longrightarrow> pgno (x + of_nat (off va)) = pgno x"
  using off_less by (intro pgno_add)

lemma cow_post_view:
  assumes ci: "cow_inv s (x # ys) Rs" and root: "root \<in> Rs" and va: "va < MAXVA"
    and us: "user (leaf (phys s) root va)" and p: "p = PTE2PA (leaf (phys s) root va)"
    and post: "cow_post root va Rs x p s s'" and r: "r \<in> Rs"
  shows "uview s' r v = uview s r v"
proof (cases "v < MAXVA")
  case True
  note pp = cow_inv_page [OF ci root va us p]
  have x: "managed s x" "pg_aligned x" "x \<in> set (x # ys)"
    using kinv_hd [OF cow_invD(1) [OF ci]] by auto
  show ?thesis
  proof (cases "r = root \<and> pgno v = pgno va")
    case same: True
    then have "leaf (phys s) root v = leaf (phys s) root va" "leaf (phys s') root v = PA2PTE x OR 31"
      using leaf_page [of v va "phys s"] cow_post_leaf [OF post root True] by simp_all
    moreover have "phys s' (x + of_nat (off v)) = phys s (p + of_nat (off v))"
      using post va_off [OF x(2), of v] by (simp add: cow_post_def)
    ultimately show ?thesis
      using same us p new_pte [OF x(1)] True by (simp add: uview_def)
  next
    case False
    then have lf: "leaf (phys s') r v = leaf (phys s) r v" using post True r by (auto simp: cow_post_def)
    show ?thesis
    proof (cases "user (leaf (phys s) r v)")
      case us': True
      let ?q = "PTE2PA (leaf (phys s) r v)"
      note qq = cow_inv_page [OF ci r True us' refl]
      have "pgno ?q \<noteq> pgno x" using qq(1,5) x managed_pgno_eq [of s ?q x] by auto
      moreover have "pgno ?q \<notin> pgno ` tables (phys s) root"
        using disjoint_page [OF cow_invD(3) [OF ci root] qq(1) qq(3) [OF root]] by blast
      moreover have "1 < refcnt s (pgno p)" if "pgno ?q = pgno p"
      proof -
        have "?q = p" using that qq(1) pp(1) managed_pgno_eq by blast
        then have "(r, pgno v) \<in> mappers (phys s) Rs p" "(root, pgno va) \<in> mappers (phys s) Rs p"
          using us' us p r root True va by (simp_all add: mappers_iff)
        with False show ?thesis by (intro cow_inv_shared [OF ci pp(1)]) auto
      qed
      ultimately have "phys s' (?q + of_nat (off v)) = phys s (?q + of_nat (off v))"
        using post va_off [OF qq(2), of v] unfolding cow_post_def by metis
      with lf show ?thesis by (simp add: uview_def Let_def)
    qed (use lf in \<open>simp add: uview_def\<close>)
  qed
qed (simp add: uview_def)

lemma cowHandler_spec:
  assumes "cow_inv s xs Rs" "root \<in> Rs"
  shows "\<exists>r s' zs. cowHandler root va s = Ok (r, s') \<and> cow_inv s' zs Rs \<and>
    (\<forall>q\<in>Rs. uview s' q = uview s q) \<and>
    (if va < MAXVA \<and> va \<noteq> 0 \<and> user (leaf (phys s) root va) \<and> xs \<noteq> []
     then r = 0 \<and> leaf (phys s') root va = PA2PTE (hd xs) OR 31 \<and>
       mappers (phys s') Rs (hd xs) = {(root, pgno va)}
     else r = -1 \<and> s' = s)"
proof -
  note inv = cow_invD(1) [OF assms(1)] and wf = cow_invD(3) [OF assms]
  consider "va < MAXVA \<and> va \<noteq> 0 \<and> user (leaf (phys s) root va) \<and> xs \<noteq> []"
    | "\<not> (va < MAXVA \<and> va \<noteq> 0)"
    | "va < MAXVA" "va \<noteq> 0" "\<not> user (leaf (phys s) root va)"
    | "va < MAXVA" "va \<noteq> 0" "user (leaf (phys s) root va)" "xs = []"
    by blast
  then show ?thesis
  proof cases
    case 1
    then obtain x ys where xs: "xs = x # ys" by (cases xs) auto
    define p where "p = PTE2PA (leaf (phys s) root va)"
    have ci: "cow_inv s (x # ys) Rs" using assms xs by simp
    from 1 have va: "va < MAXVA" "va \<noteq> 0" and us: "user (leaf (phys s) root va)" by auto
    obtain s' zs where s': "cowHandler root va s = Ok (0, s')" "kinv s' zs" "cow_post root va Rs x p s s'"
      using cowHandler_step [OF ci assms(2) va us p_def] by blast
    have "mappers (phys s) Rs x = {}"
      using cow_invD(5) [OF ci, of x] kinv_hd [OF cow_invD(1) [OF ci]]
        finite_mappers [OF cow_invD(2) [OF ci], of "phys s" x] by simp
    then have "mappers (phys s') Rs x = {(root, pgno va)}"
      using cow_post_mappers [OF ci assms(2) va(1) s'(3), of x] by simp
    moreover have "leaf (phys s') root va = PA2PTE x OR 31"
      using s'(3) va(1) assms(2) by (simp add: cow_post_def)
    moreover have "\<forall>q\<in>Rs. uview s' q = uview s q"
      using cow_post_view [OF ci assms(2) va(1) us p_def s'(3)] by auto
    ultimately show ?thesis
      using 1 xs s'(1) cow_post_inv [OF ci assms(2) va(1) us p_def s'(3,2)] by auto
  next
    case 2
    then have "cowHandler root va s = Ok (-1, s)" by (auto simp: cowHandler_def)
    with 2 assms(1) show ?thesis by auto
  next
    case 3
    have "\<not> check_valid_page (case ptab (phys s) root (vpath 0 va) of None \<Rightarrow> 0 | Some u \<Rightarrow> u + 8 * PX 0 va) s"
      using 3(3) by (auto simp: check_valid_page_def user_def valid_def leaf_def split: option.splits)
    then have "cowHandler root va s = Ok (-1, s)"
      using 3 walk_look [OF 3(1), of root s] by (simp add: cowHandler_def not_le)
    with 3 assms(1) show ?thesis by auto
  next
    case 4
    obtain u where u: "ptab (phys s) root (vpath 0 va) = Some u"
        "leaf (phys s) root va = load64 (phys s) (u + 8 * PX 0 va)"
      using 4(3) leaf_valid_slot [of "phys s" root va] by (auto simp: user_def)
    then have "cowHandler root va s = Ok (-1, s)"
      using 4 walk_look [OF 4(1), of root s] kalloc_empty inv
      by (simp add: cowHandler_def allocate_and_copy_page_def not_le Let_def)
    with 4 assms(1) show ?thesis by auto
  qed
qed

subsection \<open>Copies to user memory\<close>

lemma unat_page_off: "unat va = pgno va * 4096 + off va"
  by (simp add: pgno_def off_def)

text \<open>The addresses of a page that a write of \<open>n\<close> bytes at \<open>dst\<close> reaches.\<close>

lemma in_write_iff:
  assumes "off dst + n \<le> 4096"
  shows "unat (v - dst) < n \<longleftrightarrow> pgno v = pgno dst \<and> off dst \<le> off v \<and> off v < off dst + n"
    "unat (v - dst) < n \<Longrightarrow> unat (v - dst) = off v - off dst"
proof -
  have lim: "pgno x * 4096 + 4096 \<le> 2 ^ 64" for x :: u64
  proof -
    have "pgno x < 4503599627370496"
      using unat_less_64 [of x] by (simp add: pgno_def less_mult_imp_div_less)
    then show ?thesis by simp
  qed
  have diff: "unat (v - dst) = (if dst \<le> v then unat v - unat dst else unat v + 2 ^ 64 - unat dst)"
    by (simp add: unat_sub_if' word_le_nat_alt)
  have page: "unat (v - dst) < n \<Longrightarrow> pgno v = pgno dst"
  proof -
    assume *: "unat (v - dst) < n"
    have le: "dst \<le> v"
    proof (rule ccontr)
      assume "\<not> dst \<le> v"
      then have "unat v + 2 ^ 64 - unat dst < n" using * diff by simp
      moreover have "unat dst + n \<le> 2 ^ 64"
        using assms lim [of dst] unat_page_off [of dst] by linarith
      ultimately show False by linarith
    qed
    then have "unat dst \<le> unat v" "unat v < pgno dst * 4096 + 4096"
      using * diff assms unat_page_off [of dst] by (simp_all add: word_le_nat_alt)
    then have "pgno dst \<le> pgno v" "pgno v < pgno dst + 1"
      using div_le_mono [of "unat dst" "unat v" 4096] less_mult_imp_div_less [of "unat v" "pgno dst + 1" 4096]
      by (simp_all add: pgno_def)
    then show "pgno v = pgno dst" by simp
  qed
  have same: "unat (v - dst) = (if off dst \<le> off v then off v - off dst else off v + 2 ^ 64 - off dst)"
    if "pgno v = pgno dst"
  proof -
    have "dst \<le> v \<longleftrightarrow> off dst \<le> off v"
      using that unat_page_off [of v] unat_page_off [of dst] by (simp add: word_le_nat_alt)
    then show ?thesis
      using diff that unat_page_off [of v] unat_page_off [of dst] by simp
  qed
  show "unat (v - dst) < n \<longleftrightarrow> pgno v = pgno dst \<and> off dst \<le> off v \<and> off v < off dst + n"
    using page same assms off_less [of dst] off_less [of v] by (auto split: if_splits)
  show "unat (v - dst) < n \<Longrightarrow> unat (v - dst) = off v - off dst"
    using page same assms off_less [of dst] off_less [of v] by (auto split: if_splits)
qed

text \<open>Writing to a page that only one mapping reaches.\<close>

lemma store_user:
  assumes ci: "cow_inv s xs Rs" and root: "root \<in> Rs" and dst: "dst < MAXVA"
    and us: "user (leaf (phys s) root dst)" and p: "p = PTE2PA (leaf (phys s) root dst)"
    and only: "mappers (phys s) Rs p = {(root, pgno dst)}" and n: "off dst + length bs \<le> 4096"
    and s': "s' = s\<lparr>phys := store_bytes (phys s) (p + of_nat (off dst)) bs\<rparr>"
  shows "cow_inv s' xs Rs"
    "\<And>q v. q \<in> Rs \<Longrightarrow> v < MAXVA \<Longrightarrow> uview s' q v =
      (if q = root \<and> unat (v - dst) < length bs then Some (bs ! unat (v - dst)) else uview s q v)"
proof -
  note pp = cow_inv_page [OF ci root dst us p]
  have po: "pgno (p + of_nat (off dst)) = pgno p" "off (p + of_nat (off dst)) = off dst"
  proof -
    show "pgno (p + of_nat (off dst)) = pgno p" using va_off [OF pp(2)] .
    have "unat (p + of_nat (off dst)) = unat p + off dst"
      using pp(1) off_less [of dst] by (intro unat_add_64) (simp add: managed_def word_less_nat_alt)
    then show "off (p + of_nat (off dst)) = off dst"
      using pp(2) off_less [of dst] by (simp add: off_def pg_aligned_unat mod_add_eq [symmetric])
  qed
  have ph: "phys s' a = (if pgno a = pgno p \<and> off dst \<le> off a \<and> off a < off dst + length bs
      then bs ! (off a - off dst) else phys s a)" for a
    using in_write_iff [of "p + of_nat (off dst)" "length bs" a] n po
    by (auto simp: s' store_bytes_def)
  have fr: "vm_frame {p} s s'" using ph by (simp add: vm_frame_def) (simp add: s')
  have keep: "pt_wf s' r" "tables (phys s') r = tables (phys s) r" "leaf (phys s') r = leaf (phys s) r"
    if "r \<in> Rs" for r
    using vm_frame_other_pt [OF fr cow_invD(3) [OF ci that] disjoint_page [OF cow_invD(3) [OF ci that] pp(1) pp(3) [OF that]]]
    by auto
  have mp: "mappers (phys s') Rs q = mappers (phys s) Rs q" for q
    using keep(3) by (auto simp: mappers_def)
  have man: "managed s' = managed s" by (rule managed_cong) (simp add: s')
  have "pgno p \<notin> pgno ` set xs"
    using kinv_not_free [OF cow_invD(1) [OF ci] pp(1)] pp(4) by simp
  then have "kinv s' xs"
    unfolding s' by (intro kinv_phys [OF cow_invD(1) [OF ci]]) (use ph in \<open>auto simp: s'\<close>)
  then show "cow_inv s' xs Rs"
    using ci keep man mp unfolding cow_inv_def by (simp add: s')
  fix q v assume q: "q \<in> Rs" and v: "v < MAXVA"
  show "uview s' q v =
      (if q = root \<and> unat (v - dst) < length bs then Some (bs ! unat (v - dst)) else uview s q v)"
  proof (cases "user (leaf (phys s) q v)")
    case True
    let ?r = "PTE2PA (leaf (phys s) q v)"
    note rr = cow_inv_page [OF ci q v True refl]
    have vo: "pgno (?r + of_nat (off v)) = pgno ?r" "off (?r + of_nat (off v)) = off v"
    proof -
      show "pgno (?r + of_nat (off v)) = pgno ?r" using va_off [OF rr(2)] .
      have "unat (?r + of_nat (off v)) = unat ?r + off v"
        using rr(1) off_less [of v] by (intro unat_add_64) (simp add: managed_def word_less_nat_alt)
      then show "off (?r + of_nat (off v)) = off v"
        using rr(2) off_less [of v] by (simp add: off_def pg_aligned_unat mod_add_eq [symmetric])
    qed
    have "(q, pgno v) \<in> mappers (phys s) Rs ?r" using True q v by (simp add: mappers_iff)
    moreover have "pgno ?r = pgno p \<longleftrightarrow> ?r = p" using rr(1) pp(1) managed_pgno_eq by blast
    moreover have "?r = p" if "q = root" "pgno v = pgno dst"
      using that p leaf_page [of v dst "phys s" root] by simp
    ultimately have "pgno ?r = pgno p \<longleftrightarrow> q = root \<and> pgno v = pgno dst" using only by auto
    then show ?thesis
      using True v keep(3) [OF q] ph [of "?r + of_nat (off v)"] vo in_write_iff [of dst "length bs" v] n
      by (auto simp: uview_def Let_def)
  next
    case False
    moreover have "\<not> (q = root \<and> unat (v - dst) < length bs)"
      using False us in_write_iff(1) [OF n, of v] leaf_page [of v dst "phys s" root] by auto
    ultimately show ?thesis using keep(3) [OF q] by (auto simp: uview_def)
  qed
qed

lemma walkaddr_user:
  "cow_inv s xs Rs \<Longrightarrow> root \<in> Rs \<Longrightarrow> va < MAXVA \<Longrightarrow>
    walkaddr root va s = Ok (if user (leaf (phys s) root va) then PTE2PA (leaf (phys s) root va) else 0)"
proof -
  assume ci: "cow_inv s xs Rs" and root: "root \<in> Rs" and va: "va < MAXVA"
  note wf = cow_invD(3) [OF ci root] and inv = cow_invD(1) [OF ci]
  show ?thesis
  proof (cases "ptab (phys s) root (vpath 0 va)")
    case None
    then show ?thesis
      using va walk_look [OF va, of root s] by (simp add: walkaddr_def leaf_def user_def not_le)
  next
    case (Some u)
    have nz: "u + 8 * PX 0 va \<noteq> 0"
      using slot_nonzero [of s u va] pt_wfD(1) [OF wf Some] inv by (simp add: kinv_def flinv_def)
    then show ?thesis
      using Some va walk_look [OF va, of root s]
      by (auto simp: walkaddr_def leaf_def user_def valid_def not_le Let_def)
  qed
qed

lemma PGROUNDDOWN_off: "dst - PGROUNDDOWN dst = of_nat (off dst)"
proof -
  have "of_nat (unat (dst - PGROUNDDOWN dst)) = (of_nat (off dst) :: u64)"
    by (simp only: page_offset_less off_def)
  then show ?thesis by simp
qed

lemma next_dst: "PGROUNDDOWN dst + PGSIZE = dst + of_nat (4096 - off dst)"
proof -
  have "of_nat (4096 - off dst) = (PGSIZE - of_nat (off dst) :: u64)"
    using off_less [of dst] by (simp add: of_nat_diff)
  then show ?thesis
    unfolding PGROUNDDOWN_off [symmetric] by simp
qed

lemma leaf_PGROUNDDOWN: "leaf m root (PGROUNDDOWN va) = leaf m root va"
  by (rule leaf_page) (rule pgno_PGROUNDDOWN)

lemma PGROUNDDOWN_less: "va < MAXVA \<longleftrightarrow> PGROUNDDOWN va < MAXVA"
proof
  assume "va < MAXVA"
  moreover have "PGROUNDDOWN va \<le> va" by (simp add: word_le_nat_alt unat_PGROUNDDOWN)
  ultimately show "PGROUNDDOWN va < MAXVA" by simp
qed (rule PGROUNDDOWN_lessD)

lemma split_write:
  fixes v dst :: u64
  assumes "n + k \<le> 2 ^ 64"
  shows "unat (v - (dst + of_nat n)) < k \<longleftrightarrow> n \<le> unat (v - dst) \<and> unat (v - dst) < n + k"
    "n \<le> unat (v - dst) \<Longrightarrow> n < 2 ^ 64 \<Longrightarrow> unat (v - (dst + of_nat n)) = unat (v - dst) - n"
proof -
  have eq: "v - (dst + of_nat n) = (v - dst) - of_nat n" by simp
  have n: "n < 2 ^ 64 \<Longrightarrow> unat (of_nat n :: u64) = n" by (simp add: unat_of_nat take_bit_nat_eq_self)
  have lt: "unat (v - dst) < 2 ^ 64" using unat_less_64 by simp
  show "unat (v - (dst + of_nat n)) < k \<longleftrightarrow> n \<le> unat (v - dst) \<and> unat (v - dst) < n + k"
  proof (cases "n < 2 ^ 64")
    case True
    then show ?thesis
      unfolding eq using n assms lt by (simp only: unat_sub_if' word_le_nat_alt) auto
  qed (use assms lt in auto)
  show "n \<le> unat (v - dst) \<Longrightarrow> n < 2 ^ 64 \<Longrightarrow> unat (v - (dst + of_nat n)) = unat (v - dst) - n"
    unfolding eq using n by (simp add: unat_sub_if' word_le_nat_alt)
qed

definition write_view :: "u64 \<Rightarrow> u64 \<Rightarrow> u8 list \<Rightarrow> kmem \<Rightarrow> kmem \<Rightarrow> u64 set \<Rightarrow> bool" where
  "write_view root dst bs s s' Rs \<longleftrightarrow>
     (\<forall>q\<in>Rs. \<forall>v<MAXVA. uview s' q v =
        (if q = root \<and> unat (v - dst) < length bs then Some (bs ! unat (v - dst)) else uview s q v))"

lemma write_view_Nil: "(\<forall>q\<in>Rs. uview s' q = uview s q) \<Longrightarrow> write_view root dst [] s s' Rs"
  by (simp add: write_view_def)

lemma write_view_append:
  assumes "write_view root dst bs s s1 Rs" "write_view root (dst + of_nat (length bs)) cs s1 s2 Rs"
    "length bs + length cs < 2 ^ 64"
  shows "write_view root dst (bs @ cs) s s2 Rs"
  using assms split_write [of "length bs" "length cs" _ dst]
  unfolding write_view_def by (auto simp: nth_append)

lemma copyout_spec:
  assumes "cow_inv s xs Rs" "root \<in> Rs" "length bs < 2 ^ 64"
  shows "\<exists>r s' zs k. copyout root dst bs s = Ok (r, s') \<and> cow_inv s' zs Rs \<and> k \<le> length bs \<and>
    (r = 0 \<and> k = length bs \<or> r = -1) \<and> write_view root dst (take k bs) s s' Rs"
  using assms
proof (induction "length bs" arbitrary: bs dst s xs rule: less_induct)
  case less
  have fail: ?case if "copyout root dst bs s = Ok (-1, s')" "cow_inv s' zs Rs" "\<forall>q\<in>Rs. uview s' q = uview s q" for s' zs
    using that write_view_Nil [OF that(3), of root dst] by (intro exI [of _ "-1"] exI [of _ s'] exI [of _ zs] exI [of _ 0]) simp
  show ?case
  proof (cases "bs = []")
    case True
    then show ?thesis
      using less.prems write_view_Nil [of Rs s s root dst] by (subst copyout.simps) auto
  next
    case ne: False
    let ?va0 = "PGROUNDDOWN dst"
    obtain r s1 ys where h: "cowHandler root ?va0 s = Ok (r, s1)" "cow_inv s1 ys Rs"
      "\<forall>q\<in>Rs. uview s1 q = uview s q"
      "if ?va0 < MAXVA \<and> ?va0 \<noteq> 0 \<and> user (leaf (phys s) root ?va0) \<and> xs \<noteq> []
       then r = 0 \<and> leaf (phys s1) root ?va0 = PA2PTE (hd xs) OR 31 \<and>
         mappers (phys s1) Rs (hd xs) = {(root, pgno ?va0)}
       else r = -1 \<and> s1 = s"
      using cowHandler_spec [OF less.prems(1,2), of ?va0] by blast
    show ?thesis
    proof (cases "?va0 < MAXVA \<and> ?va0 \<noteq> 0 \<and> user (leaf (phys s) root ?va0) \<and> xs \<noteq> []")
      case False
      then have "r = -1" using h(4) by auto
      then have "\<exists>s'. copyout root dst bs s = Ok (-1, s') \<and> (s' = s \<or> s' = s1)"
        using ne h(1) by (subst copyout.simps) (simp add: Let_def)
      with fail less.prems(1) h(2,3) show ?thesis by blast
    next
      case True
      then have r: "r = 0" and lf: "leaf (phys s1) root ?va0 = PA2PTE (hd xs) OR 31"
        and only: "mappers (phys s1) Rs (hd xs) = {(root, pgno ?va0)}" and d: "dst < MAXVA"
        using h(4) PGROUNDDOWN_less [of dst] by auto
      have "managed s (hd xs)" using True cow_invD(1) [OF less.prems(1)] by (cases xs) (auto simp: kinv_def flinv_def)
      then have pte: "PTE2PA (PA2PTE (hd xs) OR 31) = hd xs" "user (PA2PTE (hd xs) OR 31)"
        using new_pte by blast+
      have lfd: "leaf (phys s1) root dst = PA2PTE (hd xs) OR 31" using lf by (simp add: leaf_PGROUNDDOWN)
      have nz: "hd xs \<noteq> 0" using True ka.free_pages [OF cow_invD(1) [OF less.prems(1)], of "hd xs"] by simp
      have wa: "walkaddr root ?va0 s1 = Ok (hd xs)"
        using walkaddr_user [OF h(2) less.prems(2), of ?va0] True lf pte by simp
      define n where "n = (if 4096 - off dst > length bs then length bs else 4096 - off dst)"
      have n: "n \<le> length bs" "off dst + n \<le> 4096" "0 < n"
        using ne off_less [of dst] by (auto simp: n_def)
      define s2 where "s2 = s1\<lparr>phys := store_bytes (phys s1) (hd xs + of_nat (off dst)) (take n bs)\<rparr>"
      have st: "cow_inv s2 ys Rs" "write_view root dst (take n bs) s1 s2 Rs"
      proof -
        have "user (leaf (phys s1) root dst)" "hd xs = PTE2PA (leaf (phys s1) root dst)"
          "mappers (phys s1) Rs (hd xs) = {(root, pgno dst)}" "off dst + length (take n bs) \<le> 4096"
          using lfd pte only n by (simp_all add: pgno_PGROUNDDOWN)
        note su = store_user [OF h(2) less.prems(2) d this s2_def]
        show "cow_inv s2 ys Rs" by (rule su(1))
        show "write_view root dst (take n bs) s1 s2 Rs"
          unfolding write_view_def using su(2) by blast
      qed
      have w1: "write_view root dst (take n bs) s s2 Rs"
        using st(2) h(3) by (simp add: write_view_def)
      have "unat (dst - ?va0) = off dst" by (simp add: page_offset_less off_def)
      moreover have "\<not> ?va0 > MAXVA" using True by auto
      ultimately have run: "copyout root dst bs s = copyout root (?va0 + PGSIZE) (drop n bs) s2"
        using ne True h(1) r wa nz
        by (subst copyout.simps) (simp add: Let_def PGROUNDDOWN_off n_def s2_def)
      have "\<exists>r s' zs k. copyout root (?va0 + PGSIZE) (drop n bs) s2 = Ok (r, s') \<and> cow_inv s' zs Rs \<and>
        k \<le> length (drop n bs) \<and> (r = 0 \<and> k = length (drop n bs) \<or> r = -1) \<and>
        write_view root (?va0 + PGSIZE) (take k (drop n bs)) s2 s' Rs"
        using n ne less.prems(2,3) st(1) by (intro less.hyps) auto
      then obtain r' s' zs k where IH: "copyout root (?va0 + PGSIZE) (drop n bs) s2 = Ok (r', s')" "cow_inv s' zs Rs"
        "k \<le> length (drop n bs)" "r' = 0 \<and> k = length (drop n bs) \<or> r' = -1"
        "write_view root (?va0 + PGSIZE) (take k (drop n bs)) s2 s' Rs"
        by blast
      have "write_view root dst (take n bs @ take k (drop n bs)) s s' Rs"
      proof (cases "drop n bs = []")
        case True
        then have "\<forall>q\<in>Rs. \<forall>v<MAXVA. uview s' q v = uview s2 q v" using IH(5) by (simp add: write_view_def)
        with w1 True show ?thesis by (simp add: write_view_def)
      next
        case False
        then have "n = 4096 - off dst" by (auto simp: n_def split: if_splits)
        then have "?va0 + PGSIZE = dst + of_nat (length (take n bs))" using n(1) next_dst [of dst] by simp
        with IH(3,5) less.prems(3) n show ?thesis by (intro write_view_append [OF w1]) auto
      qed
      then have "write_view root dst (take (n + k) bs) s s' Rs" by (simp add: take_add)
      with IH n run show ?thesis
        by (intro exI [of _ r'] exI [of _ s'] exI [of _ zs] exI [of _ "n + k"]) auto
    qed
  qed
qed

subsection \<open>Steps on the address spaces of a fork\<close>

text \<open>What a change outside the tables and data of the other address spaces leaves alone.\<close>

lemma other_space:
  assumes ci: "cow_inv s xs Rs" and q: "q \<in> Rs" and fr: "vm_frame P s s'"
    and dis: "pgno ` tables (phys s) q \<inter> pgno ` P = {}"
  shows "pt_wf s' q" "tables (phys s') q = tables (phys s) q" "leaf (phys s') q = leaf (phys s) q"
  using vm_frame_other_pt [OF fr cow_invD(3) [OF ci q] dis] by auto

lemma view_same:
  assumes "leaf (phys s') q v = leaf (phys s) q v"
    and "v < MAXVA \<Longrightarrow> user (leaf (phys s) q v) \<Longrightarrow>
      phys s' (PTE2PA (leaf (phys s) q v) + of_nat (off v)) = phys s (PTE2PA (leaf (phys s) q v) + of_nat (off v))"
  shows "uview s' q v = uview s q v"
  using assms by (auto simp: uview_def Let_def)

text \<open>A leaf entry changes its permissions only.\<close>

lemma perm_cow:
  assumes ci: "cow_inv s xs Rs" and old: "old \<in> Rs" and a: "a < MAXVA"
    and u: "ptab (phys s) old (vpath 0 a) = Some u"
    and e: "e = leaf (phys s) old a" "valid v = valid e" "user v = user e" "PTE2PA v = PTE2PA e"
    and s': "s' = s\<lparr>phys := store64 (phys s) (u + 8 * PX 0 a) v\<rparr>"
  shows "cow_inv s' xs Rs" "\<And>q. q \<in> Rs \<Longrightarrow> uview s' q = uview s q"
    "\<And>q w. q \<in> Rs \<Longrightarrow> w < MAXVA \<Longrightarrow> leaf (phys s') q w =
      (if q = old \<and> pgno w = pgno a then v else leaf (phys s) q w)"
    "\<And>q. q \<in> Rs \<Longrightarrow> tables (phys s') q = tables (phys s) q"
    "\<And>p. mappers (phys s') Rs p = mappers (phys s) Rs p"
proof -
  note sl = set_leaf [OF cow_invD(3) [OF ci old] u a s']
  have oth: "pt_wf s' q" "tables (phys s') q = tables (phys s) q" "leaf (phys s') q = leaf (phys s) q"
    if "q \<in> Rs" "q \<noteq> old" for q
    using other_space [OF ci that(1) sl(3)] disjoint_tables [OF cow_invD(3) [OF ci that(1)] cow_invD(3) [OF ci old]]
      cow_invD(4) [OF ci that(1) old that(2)] by blast+
  show tb: "tables (phys s') q = tables (phys s) q" if "q \<in> Rs" for q
    using oth(2) [OF that] sl(2) by (cases "q = old") auto
  show lf: "leaf (phys s') q w = (if q = old \<and> pgno w = pgno a then v else leaf (phys s) q w)"
    if "q \<in> Rs" "w < MAXVA" for q w
    using oth(3) [OF that(1)] sl(5) [OF that(2)] by (cases "q = old") auto
  have ents: "valid (leaf (phys s') q w) = valid (leaf (phys s) q w)"
    "user (leaf (phys s') q w) = user (leaf (phys s) q w)"
    "PTE2PA (leaf (phys s') q w) = PTE2PA (leaf (phys s) q w)" if "q \<in> Rs" "w < MAXVA" for q w
    using lf [OF that] leaf_page [of w a "phys s" old] e by auto
  show mp: "mappers (phys s') Rs p = mappers (phys s) Rs p" for p
    using ents unfolding mappers_def by auto
  have man: "managed s' = managed s" by (rule managed_cong) (simp add: s')
  have "pt_wf s' q" if "q \<in> Rs" for q
    using oth(1) [OF that] sl(1) by (cases "q = old") auto
  then show "cow_inv s' xs Rs"
    using ci sl(4) [OF cow_invD(1) [OF ci]] tb ents man mp unfolding cow_inv_def by (simp add: s')
  show "uview s' q = uview s q" if q: "q \<in> Rs" for q
  proof
    fix w
    show "uview s' q w = uview s q w"
    proof (cases "w < MAXVA \<and> user (leaf (phys s) q w)")
      case True
      let ?p = "PTE2PA (leaf (phys s) q w)"
      note pp = cow_inv_page [OF ci q _ _ refl, of w]
      have "pgno ?p \<notin> pgno ` tables (phys s) old"
        using disjoint_page [OF cow_invD(3) [OF ci old]] pp(1,3) True old by blast
      then have "phys s' (?p + of_nat (off w)) = phys s (?p + of_nat (off w))"
        using sl(3) va_off [of ?p w] pp(2) True by (simp add: vm_frame_def)
      then show ?thesis using True ents [OF q] by (simp add: uview_def Let_def)
    qed (use ents [OF q] in \<open>auto simp: uview_def Let_def\<close>)
  qed
qed

text \<open>One more reference to a page in use.\<close>

lemma ref_cow:
  assumes ci: "cow_inv s xs Rs" and p: "managed s p" "1 \<le> refcnt s (pgno p)"
    and s': "s' = s\<lparr>refcnt := (refcnt s)(pgno p := refcnt s (pgno p) + 1)\<rparr>"
    and tabs: "\<And>r. r \<in> Rs \<Longrightarrow> p \<notin> tables (phys s) r"
  shows "cow_inv s' xs Rs" "uview s' = uview s"
proof -
  have inv: "kinv s' xs"
    unfolding s' using kinv_free_iff [OF cow_invD(1) [OF ci] p(1)] p
    by (intro kinv_ref_upd [OF cow_invD(1) [OF ci]]) auto
  have man: "managed s' = managed s" by (rule managed_cong) (simp add: s')
  have ph: "phys s' = phys s" by (simp add: s')
  have "pt_wf s' r" if "r \<in> Rs" for r
  proof -
    have "pgno t \<noteq> pgno p" if "t \<in> tables (phys s) r" for t
      using disjoint_page [OF cow_invD(3) [OF ci \<open>r \<in> Rs\<close>] p(1) tabs [OF \<open>r \<in> Rs\<close>]] that by blast
    then show ?thesis
      using cow_invD(3) [OF ci that] unfolding pt_wf_def ph man by (simp add: s')
  qed
  moreover have "int (card (mappers (phys s) Rs q)) \<le> refcnt s' (pgno q)" if "managed s q" for q
    using cow_invD(5) [OF ci that] by (auto simp: s')
  ultimately show "cow_inv s' xs Rs"
    using ci inv unfolding cow_inv_def ph man by simp
  show "uview s' = uview s" by (simp add: uview_def ph fun_eq_iff Let_def)
qed

text \<open>A new entry in one address space, with the tables it needs (\<open>c\<close>), or the tables only.\<close>

lemma map_cow:
  assumes ci: "cow_inv s xs Rs" and new: "new \<in> Rs" and a: "a < MAXVA"
    and mp: "map_post new s xs s' ys"
    and lf: "\<forall>w<MAXVA. leaf (phys s') new w =
      (if pgno w = pgno a \<and> c then v else leaf (phys s) new w)"
    and nv: "\<not> valid (leaf (phys s) new a)"
    and v: "c \<longrightarrow> valid v \<and> managed s (PTE2PA v) \<and> PTE2PA v \<notin> set xs \<and>
      (\<forall>r\<in>Rs. PTE2PA v \<notin> tables (phys s) r) \<and>
      int (card (mappers (phys s) Rs (PTE2PA v))) < refcnt s (pgno (PTE2PA v))"
  shows "cow_inv s' ys Rs"
    "\<And>q w. q \<in> Rs \<Longrightarrow> w < MAXVA \<Longrightarrow> leaf (phys s') q w =
      (if q = new \<and> pgno w = pgno a \<and> c then v else leaf (phys s) q w)"
    "\<And>q w. q \<in> Rs \<Longrightarrow> w < MAXVA \<Longrightarrow> uview s' q w =
      (if q = new \<and> pgno w = pgno a \<and> c
       then if user v then Some (phys s (PTE2PA v + of_nat (off w))) else None else uview s q w)"
proof -
  let ?P = "tables (phys s) new \<union> (set xs - set ys)"
  note inv = cow_invD(1) [OF ci]
  have m: "kinv s' ys" "pt_wf s' new" "set ys \<subseteq> set xs" "tables (phys s') new = ?P" "vm_frame ?P s s'"
    using mp by (simp_all add: map_post_def)
  have free: "managed s x \<and> refcnt s (pgno x) = 0" if "x \<in> set xs" for x
    using inv that by (simp add: kinv_def flinv_def)
  have outP: "pgno p \<notin> pgno ` ?P" if "managed s p" "p \<notin> set xs" "p \<notin> tables (phys s) new" for p
  proof -
    have "managed s x" if "x \<in> ?P" for x
      using that free pt_wf_tables [OF cow_invD(3) [OF ci new]] by blast
    moreover have "p \<notin> ?P" using that by blast
    ultimately show ?thesis using managed_pgno_eq [OF that(1)] by blast
  qed
  have oth: "pt_wf s' q" "tables (phys s') q = tables (phys s) q" "leaf (phys s') q = leaf (phys s) q"
    if "q \<in> Rs" "q \<noteq> new" for q
  proof -
    have "pgno t \<notin> pgno ` ?P" if "t \<in> tables (phys s) q" for t
      using outP [of t] pt_wf_tables [OF cow_invD(3) [OF ci \<open>q \<in> Rs\<close>] that]
        not_free_table [OF inv cow_invD(3) [OF ci \<open>q \<in> Rs\<close>], of t]
        cow_invD(4) [OF ci \<open>q \<in> Rs\<close> new \<open>q \<noteq> new\<close>] that by blast
    then have "pgno ` tables (phys s) q \<inter> pgno ` ?P = {}" by blast
    then show "pt_wf s' q" "tables (phys s') q = tables (phys s) q" "leaf (phys s') q = leaf (phys s) q"
      using other_space [OF ci that(1) m(5)] by blast+
  qed
  show lfq: "leaf (phys s') q w = (if q = new \<and> pgno w = pgno a \<and> c then v else leaf (phys s) q w)"
    if "q \<in> Rs" "w < MAXVA" for q w
    using oth(3) [OF that(1)] lf that(2) by (cases "q = new") auto
  have tsub: "tables (phys s') q \<subseteq> tables (phys s) q \<union> set xs" if "q \<in> Rs" for q
    using oth(2) [OF that] m(4) by (cases "q = new") auto
  have man: "managed s' = managed s" using vm_frame_managed [OF m(5)] .
  have oldp: "PTE2PA (leaf (phys s) q w) \<notin> set xs \<and> (\<forall>r\<in>Rs. PTE2PA (leaf (phys s) q w) \<notin> tables (phys s) r)"
    if "q \<in> Rs" "w < MAXVA" "valid (leaf (phys s) q w)" for q w
  proof (cases "managed s (PTE2PA (leaf (phys s) q w))")
    case True
    with cow_inv_valid [OF ci that refl] show ?thesis by blast
  next
    case False
    then show ?thesis using free ci that unfolding cow_inv_def by blast
  qed
  have pages: "(user (leaf (phys s') q w) \<longrightarrow> managed s (PTE2PA (leaf (phys s') q w))) \<and>
      (\<forall>r\<in>Rs. PTE2PA (leaf (phys s') q w) \<notin> tables (phys s') r)"
    if "q \<in> Rs" "w < MAXVA" "valid (leaf (phys s') q w)" for q w
  proof (cases "q = new \<and> pgno w = pgno a \<and> c")
    case True
    then have "leaf (phys s') q w = v" using lfq [OF that(1,2)] by simp
    with v True tsub show ?thesis by blast
  next
    case False
    then have eq: "leaf (phys s') q w = leaf (phys s) q w" using lfq [OF that(1,2)] by auto
    with that have "valid (leaf (phys s) q w)" by simp
    with oldp [OF that(1,2)] tsub ci that(1,2) show ?thesis
      unfolding eq cow_inv_def by blast
  qed
  have disj: "tables (phys s') q \<inter> tables (phys s') r = {}" if "q \<in> Rs" "r \<in> Rs" "q \<noteq> r" for q r
  proof -
    have x: "t \<notin> set xs" if "t \<in> tables (phys s) z" "z \<in> Rs" for t z
      using not_free_table [OF inv cow_invD(3) [OF ci that(2)]] that(1) by blast
    show ?thesis
      using cow_invD(4) [OF ci that] oth(2) that m(4) x by (cases "q = new"; cases "r = new") blast+
  qed
  have card: "int (card (mappers (phys s') Rs p)) \<le> refcnt s' (pgno p)" if p: "managed s p" for p
  proof -
    have fin: "finite (mappers (phys s) Rs p)" using finite_mappers [OF cow_invD(2) [OF ci]] .
    have "mappers (phys s') Rs p \<subseteq> mappers (phys s) Rs p \<union> (if c \<and> p = PTE2PA v then {(new, pgno a)} else {})"
    proof
      fix z assume "z \<in> mappers (phys s') Rs p"
      then obtain r w where z: "z = (r, pgno w)" "w < MAXVA" "r \<in> Rs" "valid (leaf (phys s') r w)" "PTE2PA (leaf (phys s') r w) = p"
        by (cases z) (auto elim: mappersE)
      then show "z \<in> mappers (phys s) Rs p \<union> (if c \<and> p = PTE2PA v then {(new, pgno a)} else {})"
        using lfq [OF z(3,2)] by (auto simp: mappers_iff split: if_splits)
    qed
    then have "card (mappers (phys s') Rs p) \<le>
        card (mappers (phys s) Rs p \<union> (if c \<and> p = PTE2PA v then {(new, pgno a)} else {}))"
      using fin by (intro card_mono) auto
    also have "\<dots> \<le> card (mappers (phys s) Rs p) + card (if c \<and> p = PTE2PA v then {(new, pgno a)} else {})"
      by (rule card_Un_le)
    also have "card (if c \<and> p = PTE2PA v then {(new, pgno a)} else {}) = (if c \<and> p = PTE2PA v then 1 else 0)"
      by simp
    finally have le: "card (mappers (phys s') Rs p) \<le> card (mappers (phys s) Rs p) + (if c \<and> p = PTE2PA v then 1 else 0)" .
    show ?thesis
    proof (cases "p \<in> ?P")
      case True
      have e: "mappers (phys s) Rs p = {}"
      proof (rule ccontr)
        assume "mappers (phys s) Rs p \<noteq> {}"
        then obtain r n where "(r, n) \<in> mappers (phys s) Rs p" by (metis equals0I surj_pair)
        then obtain w where "w < MAXVA" "r \<in> Rs" "valid (leaf (phys s) r w)" "PTE2PA (leaf (phys s) r w) = p"
          by (rule mappersE)
        with oldp True new show False by blast
      qed
      have "\<not> (c \<and> p = PTE2PA v)" using v True new by blast
      then have "card (mappers (phys s') Rs p) = 0" using le e by (auto split: if_splits)
      moreover have "refcnt s' (pgno p) = 1"
        using pt_wf_tables [OF m(2)] True m(4) by blast
      ultimately show ?thesis by simp
    next
      case False
      show ?thesis
      proof (cases "p \<in> set xs")
        case True
        then have "p \<in> set ys" using False by blast
        have e: "mappers (phys s) Rs p = {}"
          using cow_invD(5) [OF ci p] free [OF True] fin by simp
        have "\<not> (c \<and> p = PTE2PA v)" using v True by blast
        then have "card (mappers (phys s') Rs p) = 0" using le e by (auto split: if_splits)
        then show ?thesis using kinv_ref_nonneg [OF m(1)] p man by simp
      next
        case out: False
        have "pgno p \<notin> pgno ` ?P" using outP [OF p out] False by blast
        then have "refcnt s' (pgno p) = refcnt s (pgno p)" using m(5) by (simp add: vm_frame_def)
        with le v cow_invD(5) [OF ci p] show ?thesis by (auto split: if_splits)
      qed
    qed
  qed
  have "pt_wf s' q" if "q \<in> Rs" for q
    using oth(1) [OF that] m(2) by (cases "q = new") auto
  then show "cow_inv s' ys Rs"
    unfolding cow_inv_def man using m(1) cow_invD(2) [OF ci] disj pages card by simp
  show "uview s' q w =
      (if q = new \<and> pgno w = pgno a \<and> c
       then if user v then Some (phys s (PTE2PA v + of_nat (off w))) else None else uview s q w)"
    if "q \<in> Rs" "w < MAXVA" for q w
  proof (cases "q = new \<and> pgno w = pgno a \<and> c")
    case True
    then have "managed s (PTE2PA v)" "pgno (PTE2PA v) \<notin> pgno ` ?P"
      using v outP [of "PTE2PA v"] new by blast+
    then have "phys s' (PTE2PA v + of_nat (off w)) = phys s (PTE2PA v + of_nat (off w))"
      using m(5) va_off [of "PTE2PA v" w] by (simp add: vm_frame_def)
    then show ?thesis using True lfq [OF that] that(2) by (simp add: uview_def)
  next
    case False
    then have eq: "leaf (phys s') q w = leaf (phys s) q w" using lfq [OF that] by auto
    have "uview s' q w = uview s q w"
    proof (rule view_same [OF eq])
      assume "user (leaf (phys s) q w)"
      note pp = cow_inv_page [OF ci that this refl]
      have "pgno (PTE2PA (leaf (phys s) q w)) \<notin> pgno ` ?P" using outP pp(1,3,5) new by blast
      then show "phys s' (PTE2PA (leaf (phys s) q w) + of_nat (off w)) = phys s (PTE2PA (leaf (phys s) q w) + of_nat (off w))"
        using m(5) va_off [OF pp(2), of w] by (simp add: vm_frame_def)
    qed
    with False show ?thesis by auto
  qed
qed

text \<open>Taking down a range of mappings of one address space.\<close>

lemma unmap_cow:
  assumes ci: "cow_inv s xs Rs" and new: "new \<in> Rs" and ur: "user_range s new a n"
    and post: "unmap_post new (pa_at (phys s) new a ` {..<n}) s xs s' ys"
    and lf: "\<forall>w<MAXVA. leaf (phys s') new w =
       (if pgno a \<le> pgno w \<and> pgno w < pgno a + n then 0 else leaf (phys s) new w)"
  shows "cow_inv s' ys Rs"
    "\<And>q w. q \<in> Rs \<Longrightarrow> w < MAXVA \<Longrightarrow> uview s' q w =
      (if q = new \<and> pgno a \<le> pgno w \<and> pgno w < pgno a + n then None else uview s q w)"
proof -
  let ?R = "pa_at (phys s) new a ` {..<n}"
  let ?P = "tables (phys s) new \<union> ?R"
  let ?in = "\<lambda>q w. q = new \<and> pgno a \<le> pgno w \<and> pgno w < pgno a + n"
  have lim: "unat a + 4096 * n \<le> 274877906944" using ur by (simp add: user_range_def)
  have nth: "nth_page a i < MAXVA" "pgno (nth_page a i) = pgno a + i" if "i < n" for i
  proof -
    have "unat (nth_page a i) = unat a + 4096 * i" using unat_page_add [OF lim, of i] that by simp
    then show "nth_page a i < MAXVA" using lim that by (simp add: word_less_nat_alt)
    show "pgno (nth_page a i) = pgno a + i" using pgno_page_add [OF lim, of i] that by simp
  qed
  have R: "managed s p \<and> p \<notin> tables (phys s) r \<and> (\<exists>w<MAXVA. ?in new w \<and> (new, pgno w) \<in> mappers (phys s) Rs p)"
    if "p \<in> ?R" "r \<in> Rs" for p r
  proof -
    obtain i where i: "i < n" "p = PTE2PA (leaf (phys s) new (nth_page a i))"
      using \<open>p \<in> ?R\<close> by (auto simp: pa_at_def)
    then have v: "valid (leaf (phys s) new (nth_page a i))" and m: "managed s p"
      using ur by (auto simp: user_range_def Let_def)
    note pp = cow_inv_valid [OF ci new nth(1) [OF i(1)] v i(2) m]
    have "(new, pgno (nth_page a i)) \<in> mappers (phys s) Rs p"
      using v i(2) new nth(1) [OF i(1)] by (simp add: mappers_iff)
    then show ?thesis using m pp(3) [OF that(2)] nth [OF i(1)] i(1) by auto
  qed
  have post': "kinv s' ys" "pt_wf s' new" "kend s' = kend s" "tables (phys s') new = tables (phys s) new"
    "\<And>k. refcnt s' k = (if k \<in> pgno ` ?R then refcnt s k - 1 else refcnt s k)"
    "\<And>b. pgno b \<notin> pgno ` (tables (phys s) new \<union> {p \<in> ?R. refcnt s (pgno p) = 1}) \<Longrightarrow> phys s' b = phys s b"
    using post by (simp_all add: unmap_post_def)
  have fr: "vm_frame ?P s s'"
    unfolding vm_frame_def using post'(3,5,6) by auto
  have oth: "pt_wf s' q" "tables (phys s') q = tables (phys s) q" "leaf (phys s') q = leaf (phys s) q"
    if "q \<in> Rs" "q \<noteq> new" for q
  proof -
    have 1: "pgno ` tables (phys s) q \<inter> pgno ` tables (phys s) new = {}"
      using disjoint_tables [OF cow_invD(3) [OF ci that(1)] cow_invD(3) [OF ci new]] cow_invD(4) [OF ci that(1) new that(2)] .
    have 2: "pgno t \<noteq> pgno p" if "t \<in> tables (phys s) q" "p \<in> ?R" for t p
      using disjoint_page [OF cow_invD(3) [OF ci \<open>q \<in> Rs\<close>], of p] R [OF that(2) \<open>q \<in> Rs\<close>] that(1) by blast
    then have "pgno ` tables (phys s) q \<inter> pgno ` ?P = {}" using 1 by blast
    then show "pt_wf s' q" "tables (phys s') q = tables (phys s) q" "leaf (phys s') q = leaf (phys s) q"
      using other_space [OF ci that(1) fr] by blast+
  qed
  have lfq: "leaf (phys s') q w = (if ?in q w then 0 else leaf (phys s) q w)" if "q \<in> Rs" "w < MAXVA" for q w
    using oth(3) [OF that(1)] lf that(2) by (cases "q = new") auto
  have tb: "tables (phys s') q = tables (phys s) q" "pt_wf s' q" if "q \<in> Rs" for q
    using oth(1,2) [OF that] post'(2,4) by (cases "q = new"; simp)+
  have man: "managed s' = managed s" using post'(3) by (rule managed_cong)
  have mp: "mappers (phys s') Rs p = {(q, k) \<in> mappers (phys s) Rs p. \<not> (q = new \<and> pgno a \<le> k \<and> k < pgno a + n)}" for p
  proof -
    have "(q, k) \<in> mappers (phys s') Rs p \<longleftrightarrow>
        (q, k) \<in> mappers (phys s) Rs p \<and> \<not> (q = new \<and> pgno a \<le> k \<and> k < pgno a + n)" for q k
    proof (cases "\<exists>w<MAXVA. k = pgno w")
      case True
      then obtain w where w: "w < MAXVA" "k = pgno w" by blast
      show ?thesis
        unfolding w(2) mappers_iff [OF w(1)] using lfq [OF _ w(1), of q] by (cases "?in q w") auto
    qed (auto elim: mappersE)
    then show ?thesis by auto
  qed
  have fin: "finite (mappers (phys s) Rs p)" for p using finite_mappers [OF cow_invD(2) [OF ci]] .
  have card: "int (card (mappers (phys s') Rs p)) \<le> refcnt s' (pgno p)" if p: "managed s p" for p
  proof (cases "p \<in> ?R")
    case True
    then obtain w where w: "?in new w" "(new, pgno w) \<in> mappers (phys s) Rs p" using R new by blast
    have "mappers (phys s') Rs p \<subseteq> mappers (phys s) Rs p - {(new, pgno w)}" using mp w(1) by auto
    then have "card (mappers (phys s') Rs p) \<le> card (mappers (phys s) Rs p - {(new, pgno w)})"
      using fin by (intro card_mono) auto
    also have "\<dots> < card (mappers (phys s) Rs p)" using fin w(2) by (intro card_Diff1_less) auto
    finally show ?thesis using cow_invD(5) [OF ci p] post'(5) True by simp
  next
    case False
    have "pgno p \<notin> pgno ` ?R" using False R [OF _ new] managed_pgno_eq [OF p] by blast
    moreover have "card (mappers (phys s') Rs p) \<le> card (mappers (phys s) Rs p)"
      using fin mp by (intro card_mono) auto
    ultimately show ?thesis using cow_invD(5) [OF ci p] post'(5) by simp
  qed
  have pages: "(user (leaf (phys s') q w) \<longrightarrow> managed s (PTE2PA (leaf (phys s') q w))) \<and>
      (\<forall>r\<in>Rs. PTE2PA (leaf (phys s') q w) \<notin> tables (phys s) r)"
    if "q \<in> Rs" "w < MAXVA" "valid (leaf (phys s') q w)" for q w
  proof -
    have "leaf (phys s') q w = leaf (phys s) q w" using lfq [OF that(1,2)] that(3) by (auto split: if_splits)
    with that ci show ?thesis unfolding cow_inv_def by simp
  qed
  show "cow_inv s' ys Rs"
    unfolding cow_inv_def man using post'(1) cow_invD(2,4) [OF ci] tb pages card by simp
  show "uview s' q w = (if ?in q w then None else uview s q w)" if "q \<in> Rs" "w < MAXVA" for q w
  proof (cases "?in q w")
    case True
    then show ?thesis using lfq [OF that] by (simp add: uview_def user_def)
  next
    case False
    have eq: "leaf (phys s') q w = leaf (phys s) q w" using lfq [OF that] False by auto
    have "uview s' q w = uview s q w"
    proof (rule view_same [OF eq])
      let ?p = "PTE2PA (leaf (phys s) q w)"
      assume u: "user (leaf (phys s) q w)"
      note pp = cow_inv_page [OF ci that u refl]
      have "pgno ?p \<notin> pgno ` tables (phys s) new"
        using disjoint_page [OF cow_invD(3) [OF ci new] pp(1) pp(3) [OF new]] by blast
      moreover have ne: "refcnt s (pgno ?p) \<noteq> 1" if inR: "?p \<in> ?R"
      proof -
        obtain w' where w': "?in new w'" "(new, pgno w') \<in> mappers (phys s) Rs ?p" using R [OF inR new] by blast
        have "(q, pgno w) \<in> mappers (phys s) Rs ?p" using u \<open>q \<in> Rs\<close> \<open>w < MAXVA\<close> by (simp add: mappers_iff)
        moreover have "(q, pgno w) \<noteq> (new, pgno w')" using False w'(1) by auto
        ultimately have "1 < refcnt s (pgno ?p)" using cow_inv_shared [OF ci pp(1) _ w'(2)] by blast
        then show ?thesis by simp
      qed
      have "pgno ?p \<notin> pgno ` {p \<in> ?R. refcnt s (pgno p) = 1}"
      proof
        assume "pgno ?p \<in> pgno ` {p \<in> ?R. refcnt s (pgno p) = 1}"
        then obtain p where p: "p \<in> ?R" "refcnt s (pgno p) = 1" "pgno ?p = pgno p" by blast
        then have "?p = p" using R [OF p(1) new] managed_pgno_eq [OF pp(1)] by blast
        with ne p(1,2) show False by simp
      qed
      with calculation have "pgno ?p \<notin> pgno ` (tables (phys s) new \<union> {p \<in> ?R. refcnt s (pgno p) = 1})" by blast
      then show "phys s' (?p + of_nat (off w)) = phys s (?p + of_nat (off w))"
        using post'(6) va_off [OF pp(2), of w] by simp
    qed
    with False show ?thesis by auto
  qed
qed

subsection \<open>Fork\<close>

lemma PTE2PA_clear:
  assumes "w < 2 ^ 10"
  shows "PTE2PA (e AND NOT w) = PTE2PA e"
proof (rule bit_eqI)
  fix k
  have "\<not> bit w (k - 2)" if "12 \<le> k" using low_bits [OF assms, of "k - 2"] that by auto
  moreover have "10 + (k - 12) = k - 2" if "12 \<le> k" using that by simp
  ultimately show "bit (PTE2PA (e AND NOT w)) k = bit (PTE2PA e) k"
    by (auto simp: PTE2PA_def bit_push_bit_iff bit_drop_bit_eq bit_and_iff bit_not_iff dest: bit_imp_le_length)
qed

lemma ro_pte:
  fixes e :: u64
  shows "valid (e AND NOT PTE_W) = valid e" "user (e AND NOT PTE_W) = user e"
    "PTE2PA (e AND NOT PTE_W) = PTE2PA e" "(e AND NOT PTE_W) AND PTE_W = 0"
proof -
  show v: "valid (e AND NOT PTE_W) = valid e" by (simp add: valid_def and.assoc)
  show "user (e AND NOT PTE_W) = user e" using v by (simp add: user_def and.assoc)
  show "PTE2PA (e AND NOT PTE_W) = PTE2PA e"
    by (rule PTE2PA_clear) simp
  show "(e AND NOT PTE_W) AND PTE_W = 0" by (simp add: and.assoc)
qed

lemma child_pte:
  assumes "valid e" "managed s (PTE2PA e)"
  defines "v \<equiv> PA2PTE (PTE2PA e) OR PTE_FLAGS (e AND NOT PTE_W) OR PTE_V"
  shows "valid v" "user v = user e" "PTE2PA v = PTE2PA e" "v AND PTE_W = 0"
    "PTE_FLAGS v = PTE_FLAGS (e AND NOT PTE_W)"
proof -
  let ?f = "PTE_FLAGS (e AND NOT PTE_W)"
  have V: "?f OR PTE_V = ?f"
  proof -
    have "bit (e AND NOT PTE_W) 0" using ro_pte(1) [of e] assms(1) by (simp add: valid_def bit_0 and_one_eq odd_iff_mod_2_eq_one)
    then show ?thesis
      by (intro bit_eqI) (auto simp: PTE_FLAGS_def bit_or_iff bit_and_iff bit_1_iff bit_numeral_masks)
  qed
  have v: "v = PA2PTE (PTE2PA e) OR ?f" unfolding v_def V ..
  have lt: "?f < 2 ^ 10"
  proof -
    have "?f \<le> 0x3FF" unfolding PTE_FLAGS_def by (rule word_and_le1)
    also have "(0x3FF :: u64) < 2 ^ 10" by simp
    finally show ?thesis .
  qed
  have low: "v AND m = (e AND NOT PTE_W) AND m" if "m < 2 ^ 10" "0x3FF AND m = m" for m
  proof -
    have "?f AND m = (e AND NOT PTE_W) AND (0x3FF AND m)" by (simp only: PTE_FLAGS_def and.assoc)
    then show ?thesis unfolding v using PA2PTE_and_low [OF that(1)] that(2) by simp
  qed
  show "valid v" "user v = user e" "v AND PTE_W = 0"
    using low [of 1] low [of 16] low [of 4] ro_pte [of e] assms(1) by (simp_all add: valid_def user_def)
  show "PTE2PA v = PTE2PA e"
    unfolding v using assms(2) managed_lt lt by (intro PTE2PA_build) auto
  show "PTE_FLAGS v = ?f" unfolding v using lt by (rule PTE_FLAGS_build)
qed

text \<open>The pages from \<open>i\<close> on are still to be shared; those below are shared already.\<close>

definition to_share :: "kmem \<Rightarrow> u64 \<Rightarrow> u64 \<Rightarrow> nat \<Rightarrow> nat \<Rightarrow> bool" where
  "to_share s old new i n \<longleftrightarrow> 4096 * n \<le> 274877906944 \<and>
     (\<forall>j. i \<le> j \<and> j < n \<longrightarrow> (let e = leaf (phys s) old (nth_page 0 j) in
        valid e \<and> PTE_FLAGS (e AND NOT PTE_W) \<noteq> PTE_V \<and> managed s (PTE2PA e) \<and>
        refcnt s (pgno (PTE2PA e)) < INT_MAX)) \<and>
     inj_on (pa_at (phys s) old 0) {..<n} \<and>
     (\<forall>w<MAXVA. i \<le> pgno w \<and> pgno w < n \<longrightarrow> \<not> valid (leaf (phys s) new w)) \<and>
     (\<forall>j<i. let e = leaf (phys s) new (nth_page 0 j) in
        valid e \<and> PTE_FLAGS e \<noteq> PTE_V \<and> managed s (PTE2PA e) \<and> PTE2PA e = pa_at (phys s) old 0 j)"

lemma nth_page_0s: "4096 * n \<le> 274877906944 \<Longrightarrow> j < n \<Longrightarrow>
  unat (nth_page 0 j) = 4096 * j \<and> nth_page 0 j < MAXVA \<and> pgno (nth_page 0 j) = j \<and> pg_aligned (nth_page 0 j)"
proof -
  assume lim: "4096 * n \<le> 274877906944" and j: "j < n"
  have u: "unat (nth_page 0 j) = 4096 * j" using unat_page_add [of 0 n j] lim j by simp
  then show ?thesis using lim j by (simp add: word_less_nat_alt pgno_def pg_aligned_unat)
qed

lemma PGROUNDDOWN_same_page:
  assumes "pg_aligned a" "a < MAXVA"
  shows "PGROUNDDOWN (a + PGSIZE - 1) = a"
proof -
  have a: "unat a < 274877906944" using assms(2) by (simp add: word_less_nat_alt)
  then have "unat (a + of_nat 4095) = unat a + 4095" by (intro unat_add_64) simp
  then have "unat (PGROUNDDOWN (a + PGSIZE - 1)) = (unat a + 4095) div 4096 * 4096"
    by (simp add: unat_PGROUNDDOWN add.commute)
  also have "\<dots> = unat a" using assms(1) by (auto simp: pg_aligned_unat)
  finally show ?thesis by (simp add: word_unat_eq_iff)
qed

lemma mappages_one:
  assumes "pg_aligned a" "a < MAXVA"
  shows "mappages root a PGSIZE pa perm s = mappages_loop root a a pa perm s"
  using PGROUNDDOWN_same_page [OF assms] PGROUNDDOWN_aligned [OF assms(1)] by (simp add: mappages_def)

lemma share_page:
  assumes ci: "cow_inv s xs Rs" and in_Rs: "old \<in> Rs" "new \<in> Rs" "old \<noteq> new"
    and ts: "to_share s old new i n" and i: "i < n" "nth_page 0 i < sz"
  obtains
    (fail) s3 ys where
      "uvmcopy_loop old new (nth_page 0 i) sz s =
         bnd (uvmunmap new 0 (nth_page 0 i div PGSIZE) True s3) (\<lambda>s. Ok (-1, s))"
      "cow_inv s3 ys Rs" "\<And>q w. q \<in> Rs \<Longrightarrow> w < MAXVA \<Longrightarrow> uview s3 q w = uview s q w"
      "user_range s3 new 0 i"
  | (shared) s4 ys v where
      "uvmcopy_loop old new (nth_page 0 i) sz s = uvmcopy_loop old new (nth_page 0 (Suc i)) sz s4"
      "cow_inv s4 ys Rs" "to_share s4 old new (Suc i) n" "v AND PTE_W = 0"
      "\<And>q w. q \<in> Rs \<Longrightarrow> w < MAXVA \<Longrightarrow>
         uview s4 q w = (if q = new \<and> pgno w = i then uview s old w else uview s q w)"
      "\<And>w. w < MAXVA \<Longrightarrow> leaf (phys s4) old w =
         (if pgno w = i then leaf (phys s) old w AND NOT PTE_W else leaf (phys s) old w)"
      "\<And>w. w < MAXVA \<Longrightarrow> leaf (phys s4) new w = (if pgno w = i then v else leaf (phys s) new w)"
proof -
  define a where "a = nth_page 0 i"
  define e where "e = leaf (phys s) old a"
  define p where "p = PTE2PA e"
  define v where "v = PA2PTE p OR PTE_FLAGS (e AND NOT PTE_W) OR PTE_V"
  have lim: "4096 * n \<le> 274877906944" using ts by (simp add: to_share_def)
  have np: "unat (nth_page 0 j) = 4096 * j" "nth_page 0 j < MAXVA" "pgno (nth_page 0 j) = j"
    "pg_aligned (nth_page 0 j)" if "j < n" for j
    using nth_page_0s [OF lim that] by simp_all
  have a: "a < MAXVA" "pgno a = i" "pg_aligned a" using np [OF i(1)] by (simp_all add: a_def)
  have e: "valid e" "PTE_FLAGS (e AND NOT PTE_W) \<noteq> PTE_V" "managed s p" "refcnt s (pgno p) < INT_MAX"
    using ts i(1) by (auto simp: to_share_def Let_def e_def p_def a_def)
  have nv: "\<not> valid (leaf (phys s) new a)" using ts a i(1) by (auto simp: to_share_def)
  note pv = cow_inv_valid [OF ci in_Rs(1) a(1) _ _ e(3)] 
  have pp: "1 \<le> refcnt s (pgno p)" "p \<notin> set xs" "\<And>r. r \<in> Rs \<Longrightarrow> p \<notin> tables (phys s) r"
    using pv e(1) unfolding e_def p_def by blast+
  note cv = child_pte [OF e(1), of s] 
  have v: "valid v" "user v = user e" "PTE2PA v = p" "v AND PTE_W = 0" "PTE_FLAGS v \<noteq> PTE_V"
    using child_pte [of e s] e unfolding v_def p_def by auto
  obtain u where u: "ptab (phys s) old (vpath 0 a) = Some u" "e = load64 (phys s) (u + 8 * PX 0 a)"
    using leaf_valid_slot [of "phys s" old a] e(1) unfolding e_def by blast
  have nz: "u + 8 * PX 0 a \<noteq> 0"
    using slot_nonzero [of s u a] pt_wfD(1) [OF cow_invD(3) [OF ci in_Rs(1)] u(1)] cow_invD(1) [OF ci]
    by (simp add: kinv_def flinv_def)
  define s1 where "s1 = s\<lparr>phys := store64 (phys s) (u + 8 * PX 0 a) (e AND NOT PTE_W)\<rparr>"
  note p1 = perm_cow [OF ci in_Rs(1) a(1) u(1) e_def ro_pte(1-3) s1_def]
  have man1: "managed s1 = managed s" by (rule managed_cong) (simp add: s1_def)
  have ref1: "refcnt s1 = refcnt s" by (simp add: s1_def)
  define s2 where "s2 = s1\<lparr>refcnt := (refcnt s1)(pgno p := refcnt s1 (pgno p) + 1)\<rparr>"
  have tab1: "p \<notin> tables (phys s1) r" if "r \<in> Rs" for r using pp(3) p1(4) that by simp
  have inc: "increase_cnt p s1 = Ok s2"
    using increase_cnt_ok(1) [OF cow_invD(1) [OF p1(1)], of p] e(3,4) pp(1) man1 ref1 by (simp add: s2_def)
  have r1: "managed s1 p" "1 \<le> refcnt s1 (pgno p)" using e(3) pp(1) man1 ref1 by simp_all
  have p2: "cow_inv s2 xs Rs" "uview s2 = uview s1"
    using ref_cow [OF p1(1) r1 s2_def] tab1 by blast+
  have ph2: "phys s2 = phys s1" by (simp add: s2_def)
  have man2: "managed s2 = managed s" by (rule managed_cong) (simp add: s2_def s1_def)
  have lf1: "leaf (phys s2) q w = (if q = old \<and> pgno w = i then e AND NOT PTE_W else leaf (phys s) q w)"
    if "q \<in> Rs" "w < MAXVA" for q w
    using p1(3) [OF that] a(2) by (simp add: ph2)
  have nv2: "\<not> valid (leaf (phys s2) new a)" using lf1 [OF in_Rs(2) a(1)] in_Rs(3) nv by simp
  have room: "int (card (mappers (phys s2) Rs p)) < refcnt s2 (pgno p)"
    using cow_invD(5) [OF ci e(3)] p1(5) by (simp add: ph2) (simp add: s2_def s1_def)
  have run: "uvmcopy_loop old new a sz s =
      bnd (mappages_loop new a a p (PTE_FLAGS (e AND NOT PTE_W)) s2) (\<lambda>(r, s).
        if r \<noteq> 0 then bnd (uvmunmap new 0 (a div PGSIZE) True s) (\<lambda>s. Ok (-1, s))
        else uvmcopy_loop old new (a + PGSIZE) sz s)"
  proof -
    have "a < sz" using i(2) by (simp add: a_def)
    moreover have "e AND PTE_V \<noteq> 0" using e(1) by (simp add: valid_def)
    ultimately show ?thesis
      using walk_look [OF a(1), of old s] u nz inc mappages_one [OF a(3,1), of new p "PTE_FLAGS (e AND NOT PTE_W)" s2]
      by (subst uvmcopy_loop.simps) (simp add: Let_def p_def s1_def)
  qed
  have keep_new: "let e' = leaf (phys s') new (nth_page 0 j) in
      valid e' \<and> PTE_FLAGS e' \<noteq> PTE_V \<and> managed s (PTE2PA e') \<and> PTE2PA e' = pa_at (phys s) old 0 j"
    if "j < i" "\<And>w. w < MAXVA \<Longrightarrow> pgno w < i \<Longrightarrow> leaf (phys s') new w = leaf (phys s) new w" for j s'
    using that ts np [of j] i(1) by (auto simp: to_share_def Let_def)
  from cow_invD(1) [OF p2(1)] cow_invD(3) [OF p2(1) in_Rs(2)] a(1) nv2 show thesis
  proof (cases rule: map_one)
    case (oom s3)
    then have "mappages_loop new a a p (PTE_FLAGS (e AND NOT PTE_W)) s2 = Ok (-1, s3)"
      by (subst mappages_loop.simps) simp
    with run have run3: "uvmcopy_loop old new a sz s = bnd (uvmunmap new 0 (a div PGSIZE) True s3) (\<lambda>s. Ok (-1, s))"
      by simp
    have lf3: "\<forall>w<MAXVA. leaf (phys s3) new w = (if pgno w = pgno a \<and> False then v else leaf (phys s2) new w)"
      using oom(3) by simp
    note p3 = map_cow [OF p2(1) in_Rs(2) a(1) oom(2) lf3 nv2, simplified]
    have ci3: "cow_inv s3 [] Rs" using p3(1) by simp
    have man3: "managed s3 = managed s"
      using oom(2) vm_frame_managed man2 by (auto simp: map_post_def)
    have new3: "leaf (phys s3) new w = leaf (phys s) new w" if "w < MAXVA" for w
      using oom(3) lf1 [OF in_Rs(2) that] in_Rs(3) by simp
    have each: "valid (leaf (phys s3) new (nth_page 0 j))" "PTE_FLAGS (leaf (phys s3) new (nth_page 0 j)) \<noteq> PTE_V"
        "managed s3 (PTE2PA (leaf (phys s3) new (nth_page 0 j)))"
        "PTE2PA (leaf (phys s3) new (nth_page 0 j)) = pa_at (phys s) old 0 j" if "j < i" for j
      using keep_new [OF that, of s3, unfolded Let_def] new3 unfolding man3 by blast+
    have "user_range s3 new 0 i"
    proof -
      have "1 \<le> refcnt s3 (pgno (PTE2PA (leaf (phys s3) new (nth_page 0 j)))) \<and>
          PTE2PA (leaf (phys s3) new (nth_page 0 j)) \<notin> tables (phys s3) new" if "j < i" for j
        using cow_inv_valid(1,3) [OF ci3 in_Rs(2) np(2) each(1) [OF that] refl each(3) [OF that]] i(1) that in_Rs(2)
        by auto
      moreover have "inj_on (pa_at (phys s3) new 0) {..<i}"
      proof -
        have "pa_at (phys s3) new 0 j = pa_at (phys s) old 0 j" if "j < i" for j
          using each(4) [OF that] by (simp add: pa_at_def)
        moreover have "inj_on (pa_at (phys s) old 0) {..<i}"
          using ts i(1) by (auto simp: to_share_def intro: inj_on_subset)
        ultimately show ?thesis by (simp add: inj_on_def)
      qed
      ultimately show ?thesis
        using each(1-3) lim i(1) by (simp add: user_range_def Let_def pg_aligned_def)
    qed
    moreover have "uview s3 q w = uview s q w" if "q \<in> Rs" "w < MAXVA" for q w
      using p3(3) [OF that] p2(2) p1(2) [OF that(1)] by simp
    ultimately show thesis
      using fail [OF run3 [unfolded a_def] ci3] by blast
  next
    case (ok pte s3 ys)
    define s4 where "s4 = s3\<lparr>phys := store64 (phys s3) pte v\<rparr>"
    have "mappages_loop new a a p (PTE_FLAGS (e AND NOT PTE_W)) s2 = Ok (0, s4)"
      using ok(1-3) by (subst mappages_loop.simps) (simp add: s4_def v_def)
    moreover have "a + PGSIZE = nth_page 0 (Suc i)" by (simp add: a_def nth_page_def algebra_simps)
    ultimately have run4: "uvmcopy_loop old new a sz s = uvmcopy_loop old new (nth_page 0 (Suc i)) sz s4"
      using run by simp
    have lf4: "\<forall>w<MAXVA. leaf (phys s4) new w = (if pgno w = pgno a \<and> True then v else leaf (phys s2) new w)"
      using ok(5) [of _ v] by (simp add: s4_def)
    have vv: "True \<longrightarrow> valid v \<and> managed s2 (PTE2PA v) \<and> PTE2PA v \<notin> set xs \<and> (\<forall>r\<in>Rs. PTE2PA v \<notin> tables (phys s2) r) \<and>
        int (card (mappers (phys s2) Rs (PTE2PA v))) < refcnt s2 (pgno (PTE2PA v))"
      using v(1,3) e(3) man2 pp(2) tab1 room by (simp add: ph2)
    note p4 = map_cow [OF p2(1) in_Rs(2) a(1) ok(4) [of v, folded s4_def] lf4 nv2 vv]
    have man4: "managed s4 = managed s"
      using ok(4) [of v] vm_frame_managed man2 unfolding s4_def map_post_def by metis
    have old4: "leaf (phys s4) old w = (if pgno w = i then leaf (phys s) old w AND NOT PTE_W else leaf (phys s) old w)"
      if "w < MAXVA" for w
      using p4(2) [OF in_Rs(1) that] in_Rs(3) lf1 [OF in_Rs(1) that] leaf_page [of w a "phys s" old] a(2) by (simp add: e_def)
    have new4: "leaf (phys s4) new w = (if pgno w = i then v else leaf (phys s) new w)" if "w < MAXVA" for w
      using p4(2) [OF in_Rs(2) that] lf1 [OF in_Rs(2) that] in_Rs(3) a(2) by simp
    have view: "uview s4 q w = (if q = new \<and> pgno w = i then uview s old w else uview s q w)"
      if "q \<in> Rs" "w < MAXVA" for q w
    proof (cases "q = new \<and> pgno w = i")
      case True
      have "uview s4 q w = (if user v then Some (phys s2 (p + of_nat (off w))) else None)"
        using p4(3) [OF that] True a(2) v(3) by simp
      also have "\<dots> = uview s2 old w"
        using lf1 [OF in_Rs(1) that(2)] True that(2) ro_pte(2,3) [of e] v(2) by (simp add: uview_def p_def)
      also have "\<dots> = uview s old w" using p2(2) p1(2) [OF in_Rs(1)] by simp
      finally show ?thesis using True by simp
    next
      case False
      then have "uview s4 q w = uview s2 q w" using p4(3) [OF that] a(2) by auto
      then show ?thesis using False p2(2) p1(2) [OF that(1)] by auto
    qed
    have pa4: "pa_at (phys s4) old 0 j = pa_at (phys s) old 0 j" if "j < n" for j
      using old4 [OF np(2) [OF that]] ro_pte(3) by (simp add: pa_at_def)
    have "to_share s4 old new (Suc i) n"
      unfolding to_share_def
    proof (intro conjI allI impI)
      show "4096 * n \<le> 274877906944" by (rule lim)
      show "inj_on (pa_at (phys s4) old 0) {..<n}" using ts pa4 by (simp add: to_share_def inj_on_def)
      show "\<not> valid (leaf (phys s4) new w)" if "w < MAXVA" "Suc i \<le> pgno w \<and> pgno w < n" for w
        using new4 [OF that(1)] that ts by (auto simp: to_share_def)
      fix j
      show "let e = leaf (phys s4) old (nth_page 0 j) in valid e \<and> PTE_FLAGS (e AND NOT PTE_W) \<noteq> PTE_V \<and>
          managed s4 (PTE2PA e) \<and> refcnt s4 (pgno (PTE2PA e)) < INT_MAX" if j: "Suc i \<le> j \<and> j < n"
      proof -
        let ?q = "PTE2PA (leaf (phys s) old (nth_page 0 j))"
        have same: "leaf (phys s4) old (nth_page 0 j) = leaf (phys s) old (nth_page 0 j)"
          using old4 [OF np(2)] np(3) [of j] j by simp
        have q: "valid (leaf (phys s) old (nth_page 0 j))" "managed s ?q" "refcnt s (pgno ?q) < INT_MAX"
            "PTE_FLAGS (leaf (phys s) old (nth_page 0 j) AND NOT PTE_W) \<noteq> PTE_V"
          using ts j by (auto simp: to_share_def Let_def)
        have "?q \<noteq> p"
        proof
          assume "?q = p"
          then have "pa_at (phys s) old 0 j = pa_at (phys s) old 0 i"
            by (simp add: pa_at_def p_def e_def a_def)
          moreover have "inj_on (pa_at (phys s) old 0) {..<n}" using ts by (simp add: to_share_def)
          ultimately have "j = i" using j i(1) by (auto dest: inj_onD)
          with j show False by simp
        qed
        then have ref2: "refcnt s2 (pgno ?q) = refcnt s (pgno ?q)"
          using managed_pgno_eq [OF q(2) e(3)] by (simp add: s2_def s1_def)
        note qv = cow_inv_valid [OF p2(1) in_Rs(1) np(2), of j ?q]
        have v2: "leaf (phys s2) old (nth_page 0 j) = leaf (phys s) old (nth_page 0 j)"
          using lf1 [OF in_Rs(1) np(2)] np(3) [of j] j by simp
        have "?q \<notin> set xs" "?q \<notin> tables (phys s2) new" "refcnt s2 (pgno ?q) \<ge> 1"
          using qv q(1,2) j v2 man2 in_Rs(2) by auto
        then have "pgno ?q \<notin> pgno ` (tables (phys s2) new \<union> (set xs - set ys))"
        proof -
          have "managed s2 x" if "x \<in> tables (phys s2) new \<union> (set xs - set ys)" for x
            using that cow_invD(1) [OF p2(1)] pt_wf_tables [OF cow_invD(3) [OF p2(1) in_Rs(2)]]
            by (auto simp: kinv_def flinv_def)
          moreover have "managed s2 ?q" using q(2) man2 by simp
          ultimately show ?thesis
            using \<open>?q \<notin> set xs\<close> \<open>?q \<notin> tables (phys s2) new\<close> managed_pgno_eq [of s2 ?q] by blast
        qed
        then have "refcnt s4 (pgno ?q) = refcnt s2 (pgno ?q)"
          using ok(4) [of v] by (simp add: map_post_def vm_frame_def s4_def)
        with q ref2 man4 show ?thesis unfolding same by (simp add: Let_def)
      qed
      show "let e = leaf (phys s4) new (nth_page 0 j) in valid e \<and> PTE_FLAGS e \<noteq> PTE_V \<and> managed s4 (PTE2PA e) \<and>
          PTE2PA e = pa_at (phys s4) old 0 j" if j: "j < Suc i"
      proof (cases "j = i")
        case True
        then show ?thesis using new4 [OF np(2)] np(3) [of j] i(1) v e(3) man4 pa4 [of i]
          by (simp add: Let_def pa_at_def p_def e_def a_def)
      next
        case False
        then have "j < i" "j < n" using j i(1) by simp_all
        with keep_new [of j s4] new4 pa4 [of j] show ?thesis unfolding man4 by simp
      qed
    qed
    then show thesis
      using shared [OF run4 [unfolded a_def] p4(1) _ v(4) view old4 new4] by blast
  qed
qed

lemma uvmcopy_loop_correct:
  assumes "cow_inv s xs Rs" "old \<in> Rs" "new \<in> Rs" "old \<noteq> new" "to_share s old new i n" "i \<le> n"
    and szn: "\<And>j. j \<le> n \<Longrightarrow> nth_page 0 j < sz \<longleftrightarrow> j < n"
  shows "\<exists>r s' zs. uvmcopy_loop old new (nth_page 0 i) sz s = Ok (r, s') \<and> cow_inv s' zs Rs \<and>
    (\<forall>q\<in>Rs. \<forall>w<MAXVA. q \<noteq> new \<longrightarrow> uview s' q w = uview s q w) \<and>
    (r = 0 \<and>
       (\<forall>w<MAXVA. uview s' new w =
          (if i \<le> pgno w \<and> pgno w < n then uview s old w else uview s new w)) \<and>
       (\<forall>w<MAXVA. i \<le> pgno w \<and> pgno w < n \<longrightarrow>
          leaf (phys s') old w AND PTE_W = 0 \<and> leaf (phys s') new w AND PTE_W = 0) \<and>
       (\<forall>w<MAXVA. pgno w < i \<longrightarrow>
          leaf (phys s') old w = leaf (phys s) old w \<and> leaf (phys s') new w = leaf (phys s) new w)
     \<or> r = -1 \<and> (\<forall>w<MAXVA. uview s' new w = (if pgno w < n then None else uview s new w)))"
  using assms(1-6)
proof (induction "n - i" arbitrary: i s xs)
  case 0
  then have "i = n" by simp
  then have "uvmcopy_loop old new (nth_page 0 i) sz s = Ok (0, s)"
    using szn [of n] by (subst uvmcopy_loop.simps) simp
  with 0 \<open>i = n\<close> show ?case by (intro exI [of _ 0] exI [of _ s] exI [of _ xs]) auto
next
  case (Suc k)
  then have i: "i < n" "nth_page 0 i < sz" using szn [of i] by auto
  have lim: "4096 * n \<le> 274877906944" using Suc.prems(5) by (simp add: to_share_def)
  have none: "uview s new w = None" if "w < MAXVA" "i \<le> pgno w" "pgno w < n" for w
    using Suc.prems(5) that by (simp add: to_share_def uview_def user_def)
  from Suc.prems(1-5) i show ?case
  proof (cases rule: share_page)
    case (fail s3 ys)
    have np: "unat (nth_page 0 i) = 4096 * i" using nth_page_0s [OF lim i(1)] by simp
    have "i < 67108864" using lim i(1) by simp
    then have dv: "0 + nth_page 0 i div PGSIZE * PGSIZE = nth_page 0 i"
      using np by (simp add: word_unat_eq_iff unat_word_ariths unat_div)
    have "uvmunmap new 0 (nth_page 0 i div PGSIZE) True s3 = uvmunmap_loop new 0 (nth_page 0 i) True s3"
      unfolding uvmunmap_def dv by simp
    moreover obtain s' zs where s': "uvmunmap_loop new 0 (nth_page 0 i) True s3 = Ok s'"
      "unmap_post new (pa_at (phys s3) new 0 ` {..<i}) s3 ys s' zs"
      "\<forall>va<MAXVA. leaf (phys s') new va =
         (if pgno 0 \<le> pgno va \<and> pgno va < pgno 0 + i then 0 else leaf (phys s3) new va)"
      using uvmunmap_loop_correct [OF cow_invD(1) [OF fail(2)] cow_invD(3) [OF fail(2) Suc.prems(3)] fail(4)] by blast
    ultimately have run: "uvmcopy_loop old new (nth_page 0 i) sz s = Ok (-1, s')"
      using fail(1) by simp
    note u = unmap_cow [OF fail(2) Suc.prems(3) fail(4) s'(2,3)]
    have "uview s' q w = (if q = new \<and> pgno w < i then None else uview s q w)" if "q \<in> Rs" "w < MAXVA" for q w
      using u(2) [OF that] fail(3) [OF that] by (simp add: pgno_def)
    with run u(1) none Suc.prems(3) i(1) show ?thesis
      by (intro exI [of _ "-1"] exI [of _ s'] exI [of _ zs]) (auto simp: not_less)
  next
    case (shared s4 ys v)
    have k: "k = n - Suc i" "Suc i \<le> n" using Suc.hyps(2) i(1) by simp_all
    obtain r s' zs where IH: "uvmcopy_loop old new (nth_page 0 (Suc i)) sz s4 = Ok (r, s')" "cow_inv s' zs Rs"
      "\<forall>q\<in>Rs. \<forall>w<MAXVA. q \<noteq> new \<longrightarrow> uview s' q w = uview s4 q w"
      "r = 0 \<and>
       (\<forall>w<MAXVA. uview s' new w =
          (if Suc i \<le> pgno w \<and> pgno w < n then uview s4 old w else uview s4 new w)) \<and>
       (\<forall>w<MAXVA. Suc i \<le> pgno w \<and> pgno w < n \<longrightarrow>
          leaf (phys s') old w AND PTE_W = 0 \<and> leaf (phys s') new w AND PTE_W = 0) \<and>
       (\<forall>w<MAXVA. pgno w < Suc i \<longrightarrow>
          leaf (phys s') old w = leaf (phys s4) old w \<and> leaf (phys s') new w = leaf (phys s4) new w)
     \<or> r = -1 \<and> (\<forall>w<MAXVA. uview s' new w = (if pgno w < n then None else uview s4 new w))"
      using Suc.hyps(1) [OF k(1) shared(2) Suc.prems(2-4) shared(3) k(2)] by blast
    have v4: "uview s4 old w = uview s old w" if "w < MAXVA" for w
      using shared(5) [OF Suc.prems(2) that] Suc.prems(4) by simp
    from IH(4) show ?thesis
    proof (elim disjE conjE)
      assume r: "r = 0"
        and view: "\<forall>w<MAXVA. uview s' new w =
          (if Suc i \<le> pgno w \<and> pgno w < n then uview s4 old w else uview s4 new w)"
        and ro: "\<forall>w<MAXVA. Suc i \<le> pgno w \<and> pgno w < n \<longrightarrow>
          leaf (phys s') old w AND PTE_W = 0 \<and> leaf (phys s') new w AND PTE_W = 0"
        and low: "\<forall>w<MAXVA. pgno w < Suc i \<longrightarrow>
          leaf (phys s') old w = leaf (phys s4) old w \<and> leaf (phys s') new w = leaf (phys s4) new w"
      have "uview s' new w = (if i \<le> pgno w \<and> pgno w < n then uview s old w else uview s new w)"
        if "w < MAXVA" for w
        using view that v4 [OF that] shared(5) [OF Suc.prems(3) that] i(1) by (cases "pgno w = i") auto
      moreover have "leaf (phys s') old w AND PTE_W = 0 \<and> leaf (phys s') new w AND PTE_W = 0"
        if "w < MAXVA" "i \<le> pgno w" "pgno w < n" for w
        using ro low that shared(4) shared(6,7) [OF that(1)] ro_pte(4) by (cases "pgno w = i") auto
      moreover have "leaf (phys s') old w = leaf (phys s) old w \<and> leaf (phys s') new w = leaf (phys s) new w"
        if "w < MAXVA" "pgno w < i" for w
        using low that shared(6,7) [OF that(1)] by simp
      ultimately show ?thesis
        using shared(1) IH(1-3) r shared(5) by (intro exI [of _ 0] exI [of _ s'] exI [of _ zs]) auto
    next
      assume r: "r = -1" and view: "\<forall>w<MAXVA. uview s' new w = (if pgno w < n then None else uview s4 new w)"
      then have "uview s' new w = (if pgno w < n then None else uview s new w)" if "w < MAXVA" for w
        using that shared(5) [OF Suc.prems(3) that] i(1) by auto
      then show ?thesis
        using shared(1) IH(1-3) r shared(5) by (intro exI [of _ "-1"] exI [of _ s'] exI [of _ zs]) auto
    qed
  qed
qed

subsection \<open>Properties\<close>

lemma sample_leaf_valid:
  assumes "va < MAXVA" "valid (leaf (phys sample) pR va)"
  shows "pgno va = 0 \<and> leaf (phys sample) pR va = PA2PTE pD OR 0x17"
proof -
  obtain u where u: "ptab sample_mem pR (vpath 0 va) = Some u" "leaf sample_mem pR va = load64 sample_mem (u + 8 * PX 0 va)"
    using leaf_valid_slot assms(2) unfolding sample_phys by blast
  then have vp: "vpath 0 va = [0, 0]" "u = pL0"
    using sample_ptab(1) [OF vpath_in_paths(1), of va]
    by (auto simp: vpath_simps simp del: ptab.simps split: if_splits)
  have "pg_aligned pL0" by (simp add: pg_aligned_def)
  then have "leaf sample_mem pR va = (if PX 0 va = 0 then PA2PTE pD OR 0x17 else 0)"
    using sample_load [of pL0 "unat (PX 0 va)"] PX_less [of 0 va] u(2) vp(2)
    by (simp add: unat_eq_0)
  then have "PX 0 va = 0" "leaf sample_mem pR va = PA2PTE pD OR 0x17"
    using assms(2) by (auto simp: sample_phys split: if_splits)
  moreover have "pgno va = pgno 0"
    using vpath_page [OF assms(1), of 0] vp(1) sample_vpath [of 0] \<open>PX 0 va = 0\<close> by simp
  ultimately show ?thesis by (simp add: pgno_def sample_phys)
qed

lemma sample_cow: "cow_inv sample [pF1, pF2, pF3] {pR, pN}"
proof -
  have mp: "mappers (phys sample) {pR, pN} p \<subseteq> (if p = pD then {(pR, 0)} else {})" for p
    using sample_leaf_valid sample_leaf(2) sample_pte(3) by (auto simp: mappers_def)
  have card: "int (card (mappers (phys sample) {pR, pN} p)) \<le> refcnt sample (pgno p)" if "managed sample p" for p
  proof (cases "p = pD")
    case True
    have "card (mappers (phys sample) {pR, pN} pD) \<le> card {(pR, 0 :: nat)}"
      using mp [of pD] by (intro card_mono) auto
    then show ?thesis using sample_ref(4) True by simp
  next
    case False
    then have "mappers (phys sample) {pR, pN} p = {}" using mp [of p] by auto
    then show ?thesis using kinv_ref_nonneg [OF sample_kinv that] by simp
  qed
  have pages: "managed sample (PTE2PA (leaf (phys sample) r va)) \<and>
      (\<forall>r'\<in>{pR, pN}. PTE2PA (leaf (phys sample) r va) \<notin> tables (phys sample) r')"
    if "r \<in> {pR, pN}" "va < MAXVA" "valid (leaf (phys sample) r va)" for r va
  proof -
    have "r = pR" using that sample_leaf(2) by auto
    then have "PTE2PA (leaf (phys sample) r va) = pD"
      using sample_leaf_valid that sample_pte(3) by auto
    then show ?thesis using sample_managed(4) by (simp add: sample_phys sample_tables)
  qed
  have disj: "tables (phys sample) pR \<inter> tables (phys sample) pN = {}"
    by (simp add: sample_phys sample_tables)
  show ?thesis
    unfolding cow_inv_def
  proof (intro conjI ballI allI impI)
    fix r r' assume "r \<in> {pR, pN}" "r' \<in> {pR, pN}" "r \<noteq> r'"
    then show "tables (phys sample) r \<inter> tables (phys sample) r' = {}" using disj by auto
  qed (use sample_kinv sample_wf card pages in auto)
qed

text \<open>
  C3: Copy-on-write is invisible. From any state in which reference counts cover the
  mappings, \<open>cowHandler\<close> returns without a panic, keeps that invariant and leaves every byte
  that any process can see as it is. It returns 0 exactly when the address is user-mapped, not 0,
  below \<open>MAXVA\<close> and a page is free; then the page is private to the faulting process and
  writable. In every other case it returns -1 and changes nothing.
\<close>

theorem cowHandler_invisible:
  assumes "cow_inv s xs Rs" "root \<in> Rs"
  shows "\<exists>r s' zs. cowHandler root va s = Ok (r, s') \<and> cow_inv s' zs Rs \<and>
    (\<forall>q\<in>Rs. uview s' q = uview s q) \<and>
    (if va < MAXVA \<and> va \<noteq> 0 \<and> user (leaf (phys s) root va) \<and> xs \<noteq> []
     then r = 0 \<and> leaf (phys s') root va = PA2PTE (hd xs) OR 31 \<and>
       mappers (phys s') Rs (hd xs) = {(root, pgno va)}
     else r = -1 \<and> s' = s)"
  by (rule cowHandler_spec [OF assms])

theorem cowHandler_invisible_witness:
  "\<exists>s'. cowHandler pR 8 sample = Ok (0, s') \<and> uview s' pR = uview sample pR \<and>
     leaf (phys s') pR 8 = PA2PTE pF1 OR 31"
proof -
  have "leaf (phys sample) pR 8 = leaf (phys sample) pR 0" by (rule leaf_page) (simp add: pgno_def)
  then have "user (leaf (phys sample) pR 8)"
    using sample_leaf(1) sample_pte(5) by (simp add: user_def PA2PTE_and_low)
  with cowHandler_invisible [OF sample_cow, of pR 8] show ?thesis by auto
qed



text \<open>
  C1: Fork shares memory without anyone noticing. \<open>uvmcopy\<close> of a mapped range into an
  empty range of another page table returns without a panic and keeps the invariant, and no other
  process sees a change. When it returns 0, the child sees at every address of the range the byte
  its parent sees, and neither of them can write to the shared pages. When it returns -1 the child
  sees nothing in the range.
\<close>

theorem uvmcopy_shares:
  assumes "cow_inv s xs Rs" "old \<in> Rs" "new \<in> Rs" "old \<noteq> new" "to_share s old new 0 n"
    and "n = (unat sz + 4095) div 4096"
  shows "\<exists>r s' zs. uvmcopy old new sz s = Ok (r, s') \<and> cow_inv s' zs Rs \<and>
    (\<forall>q\<in>Rs. \<forall>w<MAXVA. q \<noteq> new \<longrightarrow> uview s' q w = uview s q w) \<and>
    (r = 0 \<and>
       (\<forall>w<MAXVA. uview s' new w = (if pgno w < n then uview s old w else uview s new w)) \<and>
       (\<forall>w<MAXVA. pgno w < n \<longrightarrow>
          leaf (phys s') old w AND PTE_W = 0 \<and> leaf (phys s') new w AND PTE_W = 0)
     \<or> r = -1 \<and> (\<forall>w<MAXVA. uview s' new w = (if pgno w < n then None else uview s new w)))"
proof -
  have lim: "4096 * n \<le> 274877906944" using assms(5) by (simp add: to_share_def)
  have szn: "nth_page 0 j < sz \<longleftrightarrow> j < n" if "j \<le> n" for j
  proof -
    have "unat (nth_page 0 j) = 4096 * j" using unat_page_add [of 0 n j] lim that by simp
    moreover have "4096 * j < unat sz \<longleftrightarrow> j < n"
      using assms(6) by (simp add: less_Suc_eq_le Suc_le_eq [symmetric] less_eq_div_iff_mult_less_eq)
        presburger
    ultimately show ?thesis by (simp add: word_less_nat_alt)
  qed
  have "uvmcopy old new sz s = uvmcopy_loop old new (nth_page 0 0) sz s" by (simp add: uvmcopy_def)
  with uvmcopy_loop_correct [OF assms(1-5) le0 szn] show ?thesis by simp
qed

theorem uvmcopy_shares_witness:
  "\<exists>r s' zs. uvmcopy pR pN 4096 sample = Ok (r, s') \<and> cow_inv s' zs {pR, pN}"
proof -
  have "PTE_FLAGS ((PA2PTE pD OR 0x17) AND NOT PTE_W) = 0x13"
  proof -
    have "PTE_FLAGS ((PA2PTE pD OR 0x17) AND NOT PTE_W) = PTE_FLAGS (PA2PTE pD OR 0x17) AND NOT PTE_W"
      by (simp only: PTE_FLAGS_def ac_simps)
    also have "\<dots> = 0x13" unfolding sample_pte(4) by simp
    finally show ?thesis .
  qed
  then have "to_share sample pR pN 0 1"
    using sample_leaf sample_pte sample_managed(4) sample_ref(4)
    by (simp add: to_share_def Let_def INT_MAX_def inj_on_def)
  from uvmcopy_shares [OF sample_cow _ _ _ this, of 4096] show ?thesis by auto
qed

end
