(* ===== verification/Sched.thy ===== *)
theory Sched
  imports Spinlock Riscv "HOL-Library.Product_Lexorder"
begin

text \<open>
  The process table and the priority-based scheduler, \<open>kernel/proc.c\<close> and
  \<open>kernel/proc.h\<close>: priorities, the choice of the next process, \<open>sched\<close>,
  \<open>yield\<close>, sleeping and waking, the clock.

  A \<open>struct proc *\<close> is an index into the table, a null pointer \<open>None\<close>. Locks are found by
  name (\<open>p->lock\<close> of entry \<open>i\<close> is \<open>Lproc i\<close>) and every acquire and release of the
  source is a call of \<open>Spinlock\<close>, so that nesting, self-deadlock and interrupt state are
  part of the model. The hart that executes is the first argument.

  \<open>swtch\<close> saves one register context and loads another. A function that switches is split
  there: the part up to the switch, and the part that runs when the process is chosen again,
  possibly on another hart.
\<close>

subsection \<open>Data\<close>

datatype procstate = UNUSED | USED | SLEEPING | RUNNABLE | RUNNING | ZOMBIE

text \<open>What a process can sleep on: the address of an object of the kernel.\<close>

datatype chan = ChProc nat | ChTicks | ChLog | ChBuf nat | ChLock nat | ChNread nat | ChNwrite nat
  | ChCons | ChUart | ChDisk

record proc =
  pstate :: procstate
  pchan :: "chan option"
  pkilled :: bool
  xstate :: i32
  pid :: int
  parent :: "nat option"
  kstack :: u64
  psz :: u64
  pagetable :: u64
  trapframe :: u64
  ofile :: "nat option list"
  cwd :: "nat option"
  pname :: "u8 list"
  RTime :: u32
  ctime :: u32
  etime :: u32
  STime :: u32
  WTime :: u32
  STATIC_PRIO :: u32
  DYNAMIC_PRIO :: u32
  RBI :: i32
  N_RUN :: u32

datatype lockid = Lpid | Lwait | Lsched | Lticks | Lproc nat

record sstate =
  procs :: "proc list"
  locks :: "lockid \<Rightarrow> spinlock"
  cpus :: "nat \<Rightarrow> cpu"
  ticks :: u32

abbreviation NPROC :: nat where "NPROC \<equiv> 64"
abbreviation (input) NOTFOUND :: i32 where "NOTFOUND \<equiv> - 1"
abbreviation (input) MAX_PRIO :: i32 where "MAX_PRIO \<equiv> 100"
abbreviation (input) DEFAULT_PRIO :: u32 where "DEFAULT_PRIO \<equiv> 50"
abbreviation (input) DEFAULT_RBI :: i32 where "DEFAULT_RBI \<equiv> 100"

definition upd_proc :: "nat \<Rightarrow> (proc \<Rightarrow> proc) \<Rightarrow> 'a sstate_scheme \<Rightarrow> 'a sstate_scheme" where
  "upd_proc i f st = st\<lparr>procs := (procs st)[i := f (procs st ! i)]\<rparr>"

definition acq :: "nat \<Rightarrow> lockid \<Rightarrow> 'a sstate_scheme \<Rightarrow> 'a sstate_scheme res" where
  "acq h l st = bnd (acquire h (cpus st h) (locks st l)) (\<lambda>(c, k).
     Ok (st\<lparr>cpus := (cpus st)(h := c), locks := (locks st)(l := k)\<rparr>))"

definition rel :: "nat \<Rightarrow> lockid \<Rightarrow> 'a sstate_scheme \<Rightarrow> 'a sstate_scheme res" where
  "rel h l st = bnd (release h (cpus st h) (locks st l)) (\<lambda>(c, k).
     Ok (st\<lparr>cpus := (cpus st)(h := c), locks := (locks st)(l := k)\<rparr>))"

definition mycpu :: "nat \<Rightarrow> 'a sstate_scheme \<Rightarrow> cpu" where
  "mycpu h st = cpus st h"

text \<open>\<open>myproc\<close> with its \<open>push_off\<close> and \<open>pop_off\<close>.\<close>

definition myproc :: "nat \<Rightarrow> 'a sstate_scheme \<Rightarrow> (nat option \<times> 'a sstate_scheme) res" where
  "myproc h st =
     (let c = push_off (mycpu h st) in
      bnd (pop_off c) (\<lambda>c'. Ok (cproc c, st\<lparr>cpus := (cpus st)(h := c')\<rparr>)))"

subsection \<open>Priorities\<close>

definition minOf :: "i32 \<Rightarrow> i32 \<Rightarrow> i32" where
  "minOf a b = (if sint a < sint b then a else b)"

definition maxOf :: "i32 \<Rightarrow> i32 \<Rightarrow> i32" where
  "maxOf a b = (if sint a > sint b then a else b)"

text \<open>The arithmetic is on \<open>unsigned int\<close> and wraps; a zero divisor is undefined.\<close>

definition calculate_RBI :: "u32 \<Rightarrow> u32 \<Rightarrow> u32 \<Rightarrow> i32 res" where
  "calculate_RBI rt stm wt =
     (if rt = 0 \<and> stm = 0 then Ok DEFAULT_RBI
      else if rt + wt + stm + 1 = 0 then Err (Undef ''division by zero'')
      else Ok (maxOf ((3 * rt - stm - wt) div (rt + wt + stm + 1) * 50) 0))"

text \<open>\<open>p->DYNAMIC_PRIO = minOf(p->STATIC_PRIO + p->RBI, MAX_PRIO)\<close>.\<close>

definition dynamic :: "proc \<Rightarrow> proc" where
  "dynamic p = p\<lparr>DYNAMIC_PRIO := minOf (STATIC_PRIO p + RBI p) MAX_PRIO\<rparr>"

definition update_proc_time :: "proc \<Rightarrow> proc" where
  "update_proc_time p =
     (if pstate p = RUNNING then p\<lparr>RTime := RTime p + 1\<rparr>
      else if pstate p = SLEEPING then p\<lparr>STime := STime p + 1\<rparr>
      else if pstate p = RUNNABLE then p\<lparr>WTime := WTime p + 1\<rparr>
      else p)"

function update_time_from :: "nat \<Rightarrow> nat \<Rightarrow> 'a sstate_scheme \<Rightarrow> 'a sstate_scheme res" where
  "update_time_from h i st =
     (if i < NPROC then
        bnd (acq h (Lproc i) st) (\<lambda>st.
        bnd (rel h (Lproc i) (upd_proc i update_proc_time st)) (update_time_from h (i + 1)))
      else Ok st)"
  by pat_completeness auto
termination by (relation "measure (\<lambda>(_, i, _). NPROC - i)") auto

declare update_time_from.simps [simp del]

definition update_time :: "nat \<Rightarrow> 'a sstate_scheme \<Rightarrow> 'a sstate_scheme res" where
  "update_time h st = update_time_from h 0 st"

subsection \<open>The choice of the scheduler\<close>

text \<open>The four tests of the loop body, against the best process so far.\<close>

definition sched_better :: "nat \<Rightarrow> i32 \<times> nat option \<Rightarrow> 'a sstate_scheme \<Rightarrow> i32 \<times> nat option" where
  "sched_better i mn st =
     (let p = procs st ! i; (min_priority, min_proc) = mn in
      case min_proc of
        None \<Rightarrow> (DYNAMIC_PRIO p, Some i)
      | Some j \<Rightarrow>
          let q = procs st ! j in
          if DYNAMIC_PRIO p < min_priority then (DYNAMIC_PRIO p, Some i)
          else if DYNAMIC_PRIO p = min_priority \<and> N_RUN p < N_RUN q then (DYNAMIC_PRIO p, Some i)
          else if DYNAMIC_PRIO p = min_priority \<and> N_RUN p = N_RUN q \<and> ctime p < ctime q
            then (DYNAMIC_PRIO p, Some i)
          else if DYNAMIC_PRIO p = min_priority \<and> N_RUN p = N_RUN q \<and> ctime p = ctime q
            then (DYNAMIC_PRIO p, Some i)
          else mn)"

function sched_scan ::
  "nat \<Rightarrow> nat \<Rightarrow> i32 \<times> nat option \<Rightarrow> 'a sstate_scheme \<Rightarrow> ((i32 \<times> nat option) \<times> 'a sstate_scheme) res" where
  "sched_scan h i mn st =
     (if i < NPROC then
        bnd (acq h (Lproc i) st) (\<lambda>st.
          let p = procs st ! i in
          if pstate p \<noteq> RUNNABLE then bnd (rel h (Lproc i) st) (sched_scan h (i + 1) mn)
          else
            bnd (calculate_RBI (RTime p) (STime p) (WTime p)) (\<lambda>rbi.
              let st = upd_proc i (\<lambda>p. p\<lparr>RBI := rbi\<rparr>) st;
                  st = upd_proc i dynamic st;
                  mn = sched_better i mn st
              in bnd (rel h (Lproc i) st) (sched_scan h (i + 1) mn)))
      else Ok (mn, st))"
  by pat_completeness auto
termination by (relation "measure (\<lambda>(_, i, _). NPROC - i)") auto

declare sched_scan.simps [simp del]

text \<open>One round of the loop up to the switch: the choice under \<open>sched_lock\<close>, the test of
  \<open>min_proc->state\<close> that follows without a lock, and the take-over of the process.\<close>

definition scheduler_pick :: "nat \<Rightarrow> 'a sstate_scheme \<Rightarrow> (nat option \<times> 'a sstate_scheme) res" where
  "scheduler_pick h st =
     (let st = st\<lparr>cpus := (cpus st)(h := intr_on (cpus st h))\<rparr> in
      bnd (acq h Lsched st) (\<lambda>st.
      bnd (sched_scan h 0 (MAX_PRIO + 1, None) st) (\<lambda>((_, min_proc), st).
      bnd (rel h Lsched st) (\<lambda>st. Ok (min_proc, st)))))"

definition scheduler_check :: "nat \<Rightarrow> 'a sstate_scheme \<Rightarrow> bool" where
  "scheduler_check p st \<longleftrightarrow> pstate (procs st ! p) = RUNNABLE"

definition scheduler_take :: "nat \<Rightarrow> nat \<Rightarrow> 'a sstate_scheme \<Rightarrow> 'a sstate_scheme res" where
  "scheduler_take h p st =
     bnd (acq h (Lproc p) st) (\<lambda>st.
       let st = upd_proc p (\<lambda>p. p\<lparr>pstate := RUNNING\<rparr>) st
       in Ok (st\<lparr>cpus := (cpus st)(h := (cpus st h)\<lparr>cproc := Some p\<rparr>)\<rparr>))"

text \<open>After the process has switched back.\<close>

definition scheduler_return :: "nat \<Rightarrow> nat \<Rightarrow> 'a sstate_scheme \<Rightarrow> 'a sstate_scheme res" where
  "scheduler_return h p st =
     rel h (Lproc p) (st\<lparr>cpus := (cpus st)(h := (cpus st h)\<lparr>cproc := None\<rparr>)\<rparr>)"

text \<open>A whole round; \<open>None\<close> when there was nothing to run.\<close>

definition scheduler :: "nat \<Rightarrow> 'a sstate_scheme \<Rightarrow> (nat option \<times> 'a sstate_scheme) res" where
  "scheduler h st =
     bnd (scheduler_pick h (st\<lparr>cpus := (cpus st)(h := (cpus st h)\<lparr>cproc := None\<rparr>)\<rparr>)) (\<lambda>(min_proc, st).
       case min_proc of
         None \<Rightarrow> Ok (None, st)
       | Some p \<Rightarrow>
           if scheduler_check p st then bnd (scheduler_take h p st) (\<lambda>st. Ok (Some p, st))
           else Ok (None, st))"

subsection \<open>Giving up the processor\<close>

text \<open>\<open>sched\<close> up to the switch; the result includes the saved \<open>intena\<close>.\<close>

definition sched :: "nat \<Rightarrow> 'a sstate_scheme \<Rightarrow> (bool \<times> 'a sstate_scheme) res" where
  "sched h st =
     bnd (myproc h st) (\<lambda>(me, st).
       case me of
         None \<Rightarrow> Err (Undef ''null pointer'')
       | Some p \<Rightarrow>
           if \<not> holding h (locks st (Lproc p)) then Err (Panic ''sched p->lock'')
           else if noff (mycpu h st) \<noteq> 1 then Err (Panic ''sched locks'')
           else if pstate (procs st ! p) = RUNNING then Err (Panic ''sched running'')
           else if intr_get (mycpu h st) then Err (Panic ''sched interruptible'')
           else Ok (intena (mycpu h st), st))"

text \<open>and when the process runs again, on hart \<open>h\<close>.\<close>

definition sched_resume :: "nat \<Rightarrow> bool \<Rightarrow> 'a sstate_scheme \<Rightarrow> 'a sstate_scheme" where
  "sched_resume h ie st = st\<lparr>cpus := (cpus st)(h := (cpus st h)\<lparr>intena := ie\<rparr>)\<rparr>"

definition yield :: "nat \<Rightarrow> 'a sstate_scheme \<Rightarrow> (bool \<times> 'a sstate_scheme) res" where
  "yield h st =
     bnd (myproc h st) (\<lambda>(me, st).
       case me of
         None \<Rightarrow> Err (Undef ''null pointer'')
       | Some p \<Rightarrow>
           bnd (acq h (Lproc p) st) (\<lambda>st.
             sched h (upd_proc p (\<lambda>q. q\<lparr>pstate := RUNNABLE\<rparr>) st)))"

definition yield_resume :: "nat \<Rightarrow> nat \<Rightarrow> bool \<Rightarrow> 'a sstate_scheme \<Rightarrow> 'a sstate_scheme res" where
  "yield_resume h p ie st = rel h (Lproc p) (sched_resume h ie st)"

text \<open>\<open>sleep\<close> and \<open>wakeup\<close> run against each other on different harts, so their bodies are lists of
  actions: what other harts can see between two of them is a state of its own (theory \<open>Wakeups\<close>). \<open>steps\<close>
  runs a list from its beginning to its end.\<close>

fun steps :: "('s \<Rightarrow> 's res) list \<Rightarrow> 's \<Rightarrow> 's res" where
  "steps [] st = Ok st"
| "steps (f # fs) st = bnd (f st) (steps fs)"

text \<open>\<open>sleep\<close> between \<open>myproc()\<close> and \<open>sched()\<close>.\<close>

definition sleep_steps :: "nat \<Rightarrow> nat \<Rightarrow> chan \<Rightarrow> lockid \<Rightarrow> ('a sstate_scheme \<Rightarrow> 'a sstate_scheme res) list" where
  "sleep_steps h p ch lkid =
     [acq h (Lproc p),
      rel h lkid,
      \<lambda>st. Ok (upd_proc p (\<lambda>q. q\<lparr>pchan := Some ch\<rparr>) st),
      \<lambda>st. Ok (upd_proc p (\<lambda>q. q\<lparr>pstate := SLEEPING\<rparr>) st)]"

definition sleep :: "nat \<Rightarrow> chan \<Rightarrow> lockid \<Rightarrow> 'a sstate_scheme \<Rightarrow> (bool \<times> 'a sstate_scheme) res" where
  "sleep h ch lkid st =
     bnd (myproc h st) (\<lambda>(me, st).
       case me of
         None \<Rightarrow> Err (Undef ''null pointer'')
       | Some p \<Rightarrow> bnd (steps (sleep_steps h p ch lkid) st) (sched h))"

text \<open>and after \<open>sched()\<close>.\<close>

definition resume_steps :: "nat \<Rightarrow> nat \<Rightarrow> bool \<Rightarrow> lockid \<Rightarrow> ('a sstate_scheme \<Rightarrow> 'a sstate_scheme res) list" where
  "resume_steps h p ie lkid =
     [\<lambda>st. Ok (sched_resume h ie st),
      \<lambda>st. Ok (upd_proc p (\<lambda>q. q\<lparr>pchan := None\<rparr>) st),
      rel h (Lproc p),
      acq h lkid]"

definition sleep_resume ::
  "nat \<Rightarrow> nat \<Rightarrow> bool \<Rightarrow> lockid \<Rightarrow> 'a sstate_scheme \<Rightarrow> 'a sstate_scheme res" where
  "sleep_resume h p ie lkid st = steps (resume_steps h p ie lkid) st"

text \<open>The passage of \<open>wakeup\<close> over the entry of another process.\<close>

definition wakeup_steps :: "nat \<Rightarrow> nat \<Rightarrow> chan option \<Rightarrow> ('a sstate_scheme \<Rightarrow> 'a sstate_scheme res) list" where
  "wakeup_steps h i ch =
     [acq h (Lproc i),
      \<lambda>st. Ok (upd_proc i (\<lambda>p. if pstate p = SLEEPING \<and> pchan p = ch then p\<lparr>pstate := RUNNABLE\<rparr> else p) st),
      rel h (Lproc i)]"

text \<open>The channel of \<open>wakeup\<close> may be a null pointer (\<open>None\<close>), on which nobody sleeps.\<close>

function wakeup_from :: "nat \<Rightarrow> nat \<Rightarrow> chan option \<Rightarrow> 'a sstate_scheme \<Rightarrow> 'a sstate_scheme res" where
  "wakeup_from h i ch st =
     (if i < NPROC then
        bnd (myproc h st) (\<lambda>(me, st).
          if me \<noteq> Some i then bnd (steps (wakeup_steps h i ch) st) (wakeup_from h (i + 1) ch)
          else wakeup_from h (i + 1) ch st)
      else Ok st)"
  by pat_completeness auto
termination by (relation "measure (\<lambda>(_, i, _). NPROC - i)") auto

declare wakeup_from.simps [simp del]

definition wakeup :: "nat \<Rightarrow> chan option \<Rightarrow> 'a sstate_scheme \<Rightarrow> 'a sstate_scheme res" where
  "wakeup h ch st = wakeup_from h 0 ch st"

function kill_from :: "nat \<Rightarrow> nat \<Rightarrow> int \<Rightarrow> 'a sstate_scheme \<Rightarrow> (int \<times> 'a sstate_scheme) res" where
  "kill_from h i pd st =
     (if i < NPROC then
        bnd (acq h (Lproc i) st) (\<lambda>st.
          if pid (procs st ! i) = pd then
            let st = upd_proc i (\<lambda>p. p\<lparr>pkilled := True\<rparr>) st;
                st = upd_proc i (\<lambda>p. if pstate p = SLEEPING then p\<lparr>pstate := RUNNABLE\<rparr> else p) st
            in bnd (rel h (Lproc i) st) (\<lambda>st. Ok (0, st))
          else bnd (rel h (Lproc i) st) (kill_from h (i + 1) pd))
      else Ok (-1, st))"
  by pat_completeness auto
termination by (relation "measure (\<lambda>(_, i, _). NPROC - i)") auto

declare kill_from.simps [simp del]

definition kill :: "nat \<Rightarrow> int \<Rightarrow> 'a sstate_scheme \<Rightarrow> (int \<times> 'a sstate_scheme) res" where
  "kill h pd st = kill_from h 0 pd st"

definition setkilled :: "nat \<Rightarrow> nat \<Rightarrow> 'a sstate_scheme \<Rightarrow> 'a sstate_scheme res" where
  "setkilled h p st =
     bnd (acq h (Lproc p) st) (\<lambda>st. rel h (Lproc p) (upd_proc p (\<lambda>q. q\<lparr>pkilled := True\<rparr>) st))"

definition killed :: "nat \<Rightarrow> nat \<Rightarrow> 'a sstate_scheme \<Rightarrow> (bool \<times> 'a sstate_scheme) res" where
  "killed h p st =
     bnd (acq h (Lproc p) st) (\<lambda>st.
       let k = pkilled (procs st ! p) in bnd (rel h (Lproc p) st) (\<lambda>st. Ok (k, st)))"

subsection \<open>Setting a priority\<close>

text \<open>The loop: the index where it stopped (\<open>NPROC\<close> when no entry has the pid) and the two
  local variables.\<close>

function set_priority_loop ::
  "nat \<Rightarrow> nat \<Rightarrow> i32 \<Rightarrow> int \<Rightarrow> i32 \<Rightarrow> 'a sstate_scheme \<Rightarrow> ((nat \<times> i32 \<times> i32) \<times> 'a sstate_scheme) res" where
  "set_priority_loop h i new_priority pd old_dyn st =
     (if i < NPROC then
        bnd (acq h (Lproc i) st) (\<lambda>st.
          let p = procs st ! i in
          if pid p = pd then
            let old_stat = STATIC_PRIO p;
                st = upd_proc i (\<lambda>p. p\<lparr>STATIC_PRIO := new_priority\<rparr>) st
            in bnd (rel h (Lproc i) st) (\<lambda>st. Ok ((i, old_stat, old_dyn), st))
          else
            bnd (calculate_RBI (RTime p) (STime p) (WTime p)) (\<lambda>rbi.
              let st = upd_proc i (\<lambda>p. p\<lparr>RBI := rbi\<rparr>) st;
                  old_dyn = DYNAMIC_PRIO p;
                  st = upd_proc i dynamic st
              in bnd (rel h (Lproc i) st) (set_priority_loop h (i + 1) new_priority pd old_dyn)))
      else Ok ((NPROC, NOTFOUND, old_dyn), st))"
  by pat_completeness auto
termination by (relation "measure (\<lambda>(_, i, _). NPROC - i)") auto

declare set_priority_loop.simps [simp del]

text \<open>\<open>old_dyn_priority > p->DYNAMIC_PRIO\<close> compares an \<open>int\<close> with a \<open>uint\<close>, hence
  unsigned. \<open>sw\<close> stands for what other processes do between the switch in \<open>yield\<close> and the
  return of this process: the hart it continues on and the state then.\<close>

definition set_priority ::
  "(nat \<Rightarrow> 'a sstate_scheme \<Rightarrow> nat \<times> 'a sstate_scheme) \<Rightarrow> nat \<Rightarrow> i32 \<Rightarrow> int \<Rightarrow> 'a sstate_scheme \<Rightarrow>
     (i32 \<times> 'a sstate_scheme) res" where
  "set_priority sw h new_priority pd st =
     bnd (set_priority_loop h 0 new_priority pd NOTFOUND st) (\<lambda>((i, old_stat, old_dyn), st).
       if NPROC \<le> i then Err (Undef ''proc[NPROC] out of bounds'')
       else if old_dyn > DYNAMIC_PRIO (procs st ! i) then
         bnd (acq h (Lproc i) st) (\<lambda>st.
         bnd (yield h st) (\<lambda>(ie, st).
           case cproc (cpus st h) of
             None \<Rightarrow> Err (Undef ''null pointer'')
           | Some me \<Rightarrow>
               let (h', st) = sw h st in
               bnd (yield_resume h' me ie st) (\<lambda>st.
               bnd (rel h' (Lproc i) st) (\<lambda>st. Ok (old_stat, st)))))
       else Ok (old_stat, st))"

subsection \<open>Critical sections\<close>

text \<open>What a matched pair of \<open>push_off\<close> and \<open>pop_off\<close> leaves behind: outside of any
  lock, \<open>intena\<close> remembers whether interrupts were on.\<close>

definition settle :: "cpu \<Rightarrow> cpu" where
  "settle c = (if noff c = 0 then c\<lparr>intena := sie c\<rparr> else c)"

definition taken :: "nat \<Rightarrow> lockid \<Rightarrow> 'a sstate_scheme \<Rightarrow> 'a sstate_scheme" where
  "taken h l st = st\<lparr>cpus := (cpus st)(h := push_off (cpus st h)),
     locks := (locks st)(l := (locks st l)\<lparr>locked := True, lcpu := Some h\<rparr>)\<rparr>"

definition settled :: "nat \<Rightarrow> 'a sstate_scheme \<Rightarrow> 'a sstate_scheme" where
  "settled h st = st\<lparr>cpus := (cpus st)(h := settle (cpus st h))\<rparr>"

lemma settle_simps [simp]: "noff (settle c) = noff c" "sie (settle c) = sie c" "cproc (settle c) = cproc c"
  "settle (settle c) = settle c" "cpu_ok (settle c) = cpu_ok c"
  by (simp_all add: settle_def cpu_ok_def)

lemma settle_held [simp]: "noff c \<noteq> 0 \<Longrightarrow> settle c = c"
  by (simp add: settle_def)

lemma pop_push_settle: "cpu_ok c \<Longrightarrow> pop_off (push_off c) = Ok (settle c)"
  by (auto simp: pop_off_def push_off_def Let_def intr_defs cpu_ok_def settle_def)

lemma settled_simps [simp]: "procs (settled h st) = procs st" "locks (settled h st) = locks st"
  "ticks (settled h st) = ticks st" "settled h (settled h st) = settled h st"
  "noff (cpus (settled h st) k) = noff (cpus st k)" "cproc (cpus (settled h st) k) = cproc (cpus st k)"
  "cpu_ok (cpus (settled h st) k) = cpu_ok (cpus st k)" "sie (cpus (settled h st) k) = sie (cpus st k)"
  by (simp_all add: settled_def)

lemma settled_procs: "settled h (st\<lparr>procs := ps\<rparr>) = (settled h st)\<lparr>procs := ps\<rparr>"
  by (simp add: settled_def)

lemma settled_held [simp]: "noff (cpus st h) \<noteq> 0 \<Longrightarrow> settled h st = st"
  by (simp add: settled_def)

lemma taken_simps [simp]: "procs (taken h l st) = procs st" "ticks (taken h l st) = ticks st"
  "cproc (cpus (taken h l st) k) = cproc (cpus st k)"
  by (simp_all add: taken_def)

lemma acq_free: "lock_free (locks st l) \<Longrightarrow> acq h l st = Ok (taken h l st)"
  by (simp add: acq_def acquire_free taken_def)

lemma rel_taken:
  assumes "lock_free (locks st l)" "cpu_ok (cpus st h)"
  shows "rel h l ((taken h l st)\<lparr>procs := ps\<rparr>) = Ok (settled h (st\<lparr>procs := ps\<rparr>))"
proof -
  have "(locks st l)\<lparr>lcpu := None, locked := False\<rparr> = locks st l"
    using assms(1) by (cases "locks st l") (simp add: lock_free_def)
  then have "(locks st)(l := (locks st l)\<lparr>lcpu := None, locked := False\<rparr>) = locks st"
    by (metis fun_upd_triv)
  then show ?thesis
    using pop_push_settle [OF assms(2)]
    by (simp add: rel_def release_def release_check_def lock_release_def taken_def settled_def holding_def)
qed

lemma rel_taken0:
  "lock_free (locks st l) \<Longrightarrow> cpu_ok (cpus st h) \<Longrightarrow> rel h l (taken h l st) = Ok (settled h st)"
proof -
  assume ok: "lock_free (locks st l)" "cpu_ok (cpus st h)"
  have "rel h l (taken h l st) = rel h l ((taken h l st)\<lparr>procs := procs st\<rparr>)" by (simp add: taken_def)
  also have "\<dots> = Ok (settled h st)" unfolding rel_taken [OF ok] by simp
  finally show ?thesis .
qed

lemma upd_proc_taken: "upd_proc i f (taken h l st) = (taken h l st)\<lparr>procs := (procs st)[i := f (procs st ! i)]\<rparr>"
  by (simp add: upd_proc_def)

lemma upd_proc_procs: "upd_proc i f (st\<lparr>procs := ps\<rparr>) = st\<lparr>procs := ps[i := f (ps ! i)]\<rparr>"
  by (simp add: upd_proc_def)

lemma myproc_ok: "cpu_ok (cpus st h) \<Longrightarrow> myproc h st = Ok (cproc (cpus st h), settled h st)"
  by (simp add: myproc_def mycpu_def pop_push_settle settled_def)

lemmas crit_simps = acq_free rel_taken rel_taken0 upd_proc_taken upd_proc_procs

text \<open>The states between system calls: a full table and no process lock held.\<close>

definition table_ok :: "'a sstate_scheme \<Rightarrow> bool" where
  "table_ok st \<longleftrightarrow> length (procs st) = NPROC \<and> (\<forall>i<NPROC. lock_free (locks st (Lproc i)))"

lemma table_ok_simps [simp]: "table_ok (settled h st) = table_ok st"
  "table_ok (st\<lparr>procs := (procs st)[i := q]\<rparr>) = table_ok st"
  by (simp_all add: table_ok_def)

lemma table_ok_free: "table_ok st \<Longrightarrow> i < NPROC \<Longrightarrow> lock_free (locks st (Lproc i))"
  by (simp add: table_ok_def)

subsection \<open>Time accounting\<close>

lemma table_step:
  "i < length xs \<Longrightarrow>
    take (Suc i) (xs[i := f (xs ! i)]) @ map f (drop (Suc i) xs) = take i xs @ map f (drop i xs)"
  by (simp add: take_Suc_conv_app_nth Cons_nth_drop_Suc [symmetric])

lemma update_time_from_ok:
  assumes "table_ok st" "cpu_ok (cpus st h)" "i \<le> NPROC" "i = NPROC \<longrightarrow> settled h st = st"
  shows "update_time_from h i st =
    Ok ((settled h st)\<lparr>procs := take i (procs st) @ map update_proc_time (drop i (procs st))\<rparr>)"
  using assms
proof (induction "NPROC - i" arbitrary: i st)
  case 0
  then have "i = NPROC" by simp
  with 0 show ?case by (subst update_time_from.simps) (simp add: table_ok_def)
next
  case (Suc k)
  then have i: "i < NPROC" "i < length (procs st)" by (auto simp: table_ok_def)
  let ?ps = "(procs st)[i := update_proc_time (procs st ! i)]"
  let ?s = "(settled h st)\<lparr>procs := ?ps\<rparr>"
  have "update_time_from h i st = update_time_from h (i + 1) ?s"
    using i Suc.prems table_ok_free [OF Suc.prems(1) i(1)]
    by (subst update_time_from.simps) (simp add: crit_simps settled_procs)
  also have "\<dots> = Ok ((settled h ?s)\<lparr>procs := take (i + 1) ?ps @ map update_proc_time (drop (i + 1) ?ps)\<rparr>)"
    using Suc.hyps(1) [of "i + 1" ?s] Suc.hyps(2) Suc.prems i
    by (simp add: settled_procs table_ok_def)
  also have "\<dots> = Ok ((settled h st)\<lparr>procs := take i (procs st) @ map update_proc_time (drop i (procs st))\<rparr>)"
    using i(2) by (simp add: settled_procs table_step)
  finally show ?case .
qed

lemma update_time_ok:
  assumes "table_ok st" "cpu_ok (cpus st h)"
  shows "update_time h st = Ok ((settled h st)\<lparr>procs := map update_proc_time (procs st)\<rparr>)"
  using update_time_from_ok [OF assms, of 0] by (simp add: update_time_def)

subsection \<open>Which process is chosen\<close>

text \<open>The order of the comments in the loop: priority, then runs, then age.\<close>

definition sched_key :: "proc \<Rightarrow> u32 \<times> u32 \<times> u32" where
  "sched_key p = (DYNAMIC_PRIO p, N_RUN p, ctime p)"

text \<open>\<open>mn\<close> is the best of the runnable processes below \<open>i\<close>, the last one among equals.\<close>

definition best_of :: "nat \<Rightarrow> i32 \<times> nat option \<Rightarrow> proc list \<Rightarrow> bool" where
  "best_of i mn ps \<longleftrightarrow>
     (case snd mn of
        None \<Rightarrow> \<forall>j<i. pstate (ps ! j) \<noteq> RUNNABLE
      | Some k \<Rightarrow> k < i \<and> pstate (ps ! k) = RUNNABLE \<and> fst mn = DYNAMIC_PRIO (ps ! k) \<and>
          (\<forall>j<i. pstate (ps ! j) = RUNNABLE \<longrightarrow> sched_key (ps ! k) \<le> sched_key (ps ! j) \<and>
             (sched_key (ps ! j) = sched_key (ps ! k) \<longrightarrow> j \<le> k)))"

lemma best_of_skip: "best_of i mn ps \<Longrightarrow> pstate (ps ! i) \<noteq> RUNNABLE \<Longrightarrow> best_of (Suc i) mn ps"
  by (auto simp: best_of_def less_Suc_eq split: option.splits)

lemma sched_better_key:
  assumes "best_of i mn ps" "procs st = ps"
  shows "sched_better i mn st = (case snd mn of
      None \<Rightarrow> (DYNAMIC_PRIO (ps ! i), Some i)
    | Some k \<Rightarrow> if sched_key (ps ! i) \<le> sched_key (ps ! k) then (DYNAMIC_PRIO (ps ! i), Some i) else mn)"
  using assms
  by (cases mn) (auto simp: sched_better_def best_of_def sched_key_def Let_def less_eq_prod_def split: option.splits)

lemma best_of_better:
  assumes b: "best_of i mn (procs st)" and r: "pstate (procs st ! i) = RUNNABLE"
  shows "best_of (Suc i) (sched_better i mn st) (procs st)"
proof (cases "snd mn")
  case None
  then show ?thesis
    using b r by (simp add: sched_better_key [OF b refl]) (auto simp: best_of_def less_Suc_eq)
next
  case (Some k)
  let ?ki = "sched_key (procs st ! i)" and ?kk = "sched_key (procs st ! k)"
  have k: "k < i" "pstate (procs st ! k) = RUNNABLE" "fst mn = DYNAMIC_PRIO (procs st ! k)"
    "\<And>j. j < i \<Longrightarrow> pstate (procs st ! j) = RUNNABLE \<Longrightarrow> ?kk \<le> sched_key (procs st ! j)"
    "\<And>j. j < i \<Longrightarrow> pstate (procs st ! j) = RUNNABLE \<Longrightarrow> sched_key (procs st ! j) = ?kk \<Longrightarrow> j \<le> k"
    using b Some by (auto simp: best_of_def)
  show ?thesis
  proof (cases "?ki \<le> ?kk")
    case True
    have "?ki \<le> sched_key (procs st ! j)" if "j < Suc i" "pstate (procs st ! j) = RUNNABLE" for j
      using that k(4) [of j] True by (cases "j = i") (auto intro: order_trans)
    with Some True r show ?thesis
      by (simp add: sched_better_key [OF b refl]) (auto simp: best_of_def)
  next
    case False
    then have lt: "?kk < ?ki" by simp
    then have "snd (sched_better i mn st) = Some k" "fst (sched_better i mn st) = fst mn"
      using False Some by (simp_all add: sched_better_key [OF b refl])
    with k lt show ?thesis
      unfolding best_of_def by (auto simp: less_Suc_eq)
  qed
qed

text \<open>The scan recomputes the priorities of the runnable processes.\<close>

definition refresh :: "proc \<Rightarrow> proc" where
  "refresh p =
     (if pstate p = RUNNABLE then
        case calculate_RBI (RTime p) (STime p) (WTime p) of
          Ok rbi \<Rightarrow> dynamic (p\<lparr>RBI := rbi\<rparr>)
        | Err _ \<Rightarrow> p
      else p)"

definition rbi_defined :: "proc \<Rightarrow> bool" where
  "rbi_defined p \<longleftrightarrow> is_Ok (calculate_RBI (RTime p) (STime p) (WTime p))"

lemma refresh_state [simp]: "pstate (refresh p) = pstate p" "pid (refresh p) = pid p"
  by (simp_all add: refresh_def dynamic_def split: res.splits)

lemma sched_scan_ok:
  assumes "table_ok st" "cpu_ok (cpus st h)" "0 < noff (cpus st h)" "i \<le> NPROC"
    "\<And>j. i \<le> j \<Longrightarrow> j < NPROC \<Longrightarrow> pstate (procs st ! j) = RUNNABLE \<Longrightarrow> rbi_defined (procs st ! j)"
    "best_of i mn (procs st)"
  shows "\<exists>mn'. sched_scan h i mn st =
      Ok (mn', st\<lparr>procs := take i (procs st) @ map refresh (drop i (procs st))\<rparr>) \<and>
    best_of NPROC mn' (take i (procs st) @ map refresh (drop i (procs st)))"
  using assms
proof (induction "NPROC - i" arbitrary: i st mn)
  case 0
  then have "i = NPROC" by simp
  with 0 show ?case by (subst sched_scan.simps) (simp add: table_ok_def)
next
  case (Suc k)
  then have i: "i < NPROC" "i < length (procs st)" by (auto simp: table_ok_def)
  let ?ps = "(procs st)[i := refresh (procs st ! i)]"
  let ?s = "st\<lparr>procs := ?ps\<rparr>"
  define mn1 where "mn1 = (if pstate (procs st ! i) = RUNNABLE then sched_better i mn ?s else mn)"
  note fr = table_ok_free [OF Suc.prems(1) i(1)]
  have run: "sched_scan h i mn st = sched_scan h (i + 1) mn1 ?s"
  proof (cases "pstate (procs st ! i) = RUNNABLE")
    case True
    then obtain rbi where rbi: "calculate_RBI (RTime (procs st ! i)) (STime (procs st ! i)) (WTime (procs st ! i)) = Ok rbi"
      using Suc.prems(5) [of i] i by (auto simp: rbi_defined_def is_Ok_def)
    have sb: "sched_better i mn ((taken h (Lproc i) st)\<lparr>procs := ps\<rparr>) = sched_better i mn (st\<lparr>procs := ps\<rparr>)" for ps
      by (simp add: sched_better_def)
    show ?thesis
      using i True Suc.prems(2,3) fr rbi
      by (subst sched_scan.simps) (simp add: crit_simps Let_def sb refresh_def mn1_def)
  next
    case False
    then have "refresh (procs st ! i) = procs st ! i" by (simp add: refresh_def)
    then have "?s = st" by simp
    then show ?thesis
      using i False Suc.prems(2,3) fr
      by (subst sched_scan.simps) (simp add: crit_simps Let_def mn1_def del: list_update_id)
  qed
  have b0: "best_of i mn ?ps"
    using Suc.prems(6) by (auto simp: best_of_def split: option.splits)
  have b1: "best_of (i + 1) mn1 ?ps"
  proof (cases "pstate (procs st ! i) = RUNNABLE")
    case True
    then show ?thesis using best_of_better [of i mn ?s] b0 i by (simp add: mn1_def)
  next
    case False
    then show ?thesis using best_of_skip [OF b0] i by (simp add: mn1_def)
  qed
  have "\<exists>mn'. sched_scan h (i + 1) mn1 ?s =
      Ok (mn', ?s\<lparr>procs := take (i + 1) ?ps @ map refresh (drop (i + 1) ?ps)\<rparr>) \<and>
    best_of NPROC mn' (take (i + 1) ?ps @ map refresh (drop (i + 1) ?ps))"
    using Suc.hyps(1) [of "i + 1" ?s mn1] Suc.hyps(2) Suc.prems(1-5) i b1 by (simp add: table_ok_def)
  then show ?case
    using i(2) unfolding run by (simp add: table_step)
qed

subsection \<open>Sleeping, waking and killing\<close>

definition wake :: "chan option \<Rightarrow> proc \<Rightarrow> proc" where
  "wake ch p = (if pstate p = SLEEPING \<and> pchan p = ch then p\<lparr>pstate := RUNNABLE\<rparr> else p)"

lemma table_step_idx:
  "i < length xs \<Longrightarrow> take (Suc i) (xs[i := g i (xs ! i)]) @ map (\<lambda>j. g j (xs[i := g i (xs ! i)] ! j)) [Suc i..<length xs]
    = take i xs @ map (\<lambda>j. g j (xs ! j)) [i..<length xs]"
  by (simp add: take_Suc_conv_app_nth upt_conv_Cons)

lemma wakeup_from_ok:
  assumes "table_ok st" "cpu_ok (cpus st h)" "i \<le> NPROC" "i = NPROC \<longrightarrow> settled h st = st"
  shows "wakeup_from h i ch st =
    Ok ((settled h st)\<lparr>procs := take i (procs st) @
      map (\<lambda>j. if cproc (cpus st h) = Some j then procs st ! j else wake ch (procs st ! j)) [i..<NPROC]\<rparr>)"
  using assms
proof (induction "NPROC - i" arbitrary: i st)
  case 0
  then have "i = NPROC" by simp
  with 0 show ?case by (subst wakeup_from.simps) (simp add: table_ok_def)
next
  case (Suc k)
  let ?g = "\<lambda>j p. if cproc (cpus st h) = Some j then p else wake ch p"
  have i: "i < NPROC" "i < length (procs st)" "length (procs st) = NPROC"
    using Suc.hyps(2) Suc.prems(1) by (auto simp: table_ok_def)
  let ?ps = "(procs st)[i := ?g i (procs st ! i)]"
  let ?s = "(settled h st)\<lparr>procs := ?ps\<rparr>"
  have fr: "lock_free (locks (settled h st) (Lproc i))" using table_ok_free [OF Suc.prems(1) i(1)] by simp
  have run: "wakeup_from h i ch st = wakeup_from h (i + 1) ch ?s"
  proof (cases "cproc (cpus st h) = Some i")
    case True
    have "?s = settled h st" using True by (simp add: settled_def)
    then show ?thesis
      using True i Suc.prems(2) by (subst wakeup_from.simps) (simp add: myproc_ok del: list_update_id)
  next
    case False
    then show ?thesis
      using i Suc.prems(2) fr
      by (subst wakeup_from.simps) (simp add: myproc_ok crit_simps wakeup_steps_def bnd_assoc Let_def settled_procs wake_def)
  qed
  have "wakeup_from h (i + 1) ch ?s = Ok ((settled h ?s)\<lparr>procs := take (i + 1) (procs ?s) @
      map (\<lambda>j. if cproc (cpus ?s h) = Some j then procs ?s ! j else wake ch (procs ?s ! j)) [i + 1..<NPROC]\<rparr>)"
    using Suc.hyps(2) Suc.prems i by (intro Suc.hyps(1)) (simp_all add: settled_procs table_ok_def)
  also have "\<dots> = Ok ((settled h st)\<lparr>procs := take (Suc i) ?ps @ map (\<lambda>j. ?g j (?ps ! j)) [Suc i..<length (procs st)]\<rparr>)"
    using i(3) by (simp add: settled_procs)
  also have "\<dots> = Ok ((settled h st)\<lparr>procs := take i (procs st) @ map (\<lambda>j. ?g j (procs st ! j)) [i..<length (procs st)]\<rparr>)"
    using table_step_idx [OF i(2), of ?g] by simp
  finally show ?case unfolding run i(3) .
qed

lemma wakeup_ok:
  assumes "table_ok st" "cpu_ok (cpus st h)"
  shows "\<exists>st'. wakeup h ch st = Ok st' \<and> st' = (settled h st)\<lparr>procs := procs st'\<rparr> \<and> table_ok st' \<and>
    (\<forall>j<NPROC. procs st' ! j = (if cproc (cpus st h) = Some j then procs st ! j else wake ch (procs st ! j)))"
  using wakeup_from_ok [OF assms, of 0 ch] assms(1)
  by (simp add: wakeup_def table_ok_def)

text \<open>The first entry with the pid, if there is one.\<close>

definition find_pid :: "int \<Rightarrow> proc list \<Rightarrow> nat option" where
  "find_pid pd ps = find (\<lambda>j. pid (ps ! j) = pd) [0..<length ps]"

lemma find_pid_Some:
  "find_pid pd ps = Some k \<longleftrightarrow> k < length ps \<and> pid (ps ! k) = pd \<and> (\<forall>j<k. pid (ps ! j) \<noteq> pd)"
proof -
  have "find_pid pd ps = Some k \<longleftrightarrow> (\<exists>i<length ps. pid (ps ! i) = pd \<and> k = i \<and> (\<forall>j<i. pid (ps ! j) \<noteq> pd))"
    by (auto simp: find_pid_def find_Some_iff)
  then show ?thesis by auto
qed

lemma find_pid_None: "find_pid pd ps = None \<longleftrightarrow> (\<forall>p\<in>set ps. pid p \<noteq> pd)"
  unfolding find_pid_def find_None_iff by (auto simp: in_set_conv_nth Ball_def)

definition slain :: "proc \<Rightarrow> proc" where
  "slain p = (if pstate p = SLEEPING then p\<lparr>pkilled := True, pstate := RUNNABLE\<rparr> else p\<lparr>pkilled := True\<rparr>)"

lemma kill_from_ok:
  assumes "table_ok st" "cpu_ok (cpus st h)" "i \<le> NPROC" "i = NPROC \<longrightarrow> settled h st = st"
    "\<forall>j<i. pid (procs st ! j) \<noteq> pd"
  shows "kill_from h i pd st =
    (case find_pid pd (procs st) of
       Some k \<Rightarrow> Ok (0, (settled h st)\<lparr>procs := (procs st)[k := slain (procs st ! k)]\<rparr>)
     | None \<Rightarrow> Ok (-1, settled h st))"
  using assms
proof (induction "NPROC - i" arbitrary: i st)
  case 0
  then have i: "i = NPROC" by simp
  then have "find_pid pd (procs st) = None"
    using "0.prems" by (auto simp: find_pid_None table_ok_def in_set_conv_nth)
  with 0 i show ?case by (subst kill_from.simps) simp
next
  case (Suc k)
  then have i: "i < NPROC" "i < length (procs st)" by (auto simp: table_ok_def)
  note fr = table_ok_free [OF Suc.prems(1) i(1)]
  show ?case
  proof (cases "pid (procs st ! i) = pd")
    case True
    then have "find_pid pd (procs st) = Some i" using Suc.prems(5) i by (simp add: find_pid_Some)
    with True show ?thesis
      using i Suc.prems(2) fr
      by (subst kill_from.simps) (simp add: crit_simps Let_def settled_procs slain_def)
  next
    case False
    have "kill_from h i pd st = kill_from h (i + 1) pd (settled h st)"
      using False i Suc.prems(2) fr by (subst kill_from.simps) (simp add: crit_simps)
    also have "\<dots> = (case find_pid pd (procs (settled h st)) of
        Some k \<Rightarrow> Ok (0, (settled h (settled h st))\<lparr>procs := (procs (settled h st))[k := slain (procs (settled h st) ! k)]\<rparr>)
      | None \<Rightarrow> Ok (-1, settled h (settled h st)))"
      using Suc.hyps(2) Suc.prems False i by (intro Suc.hyps(1)) (auto simp: less_Suc_eq)
    finally show ?thesis by (simp split: option.split)
  qed
qed

subsection \<open>The behaviour of set_priority\<close>

text \<open>Entries before the one with the pid get new priorities; the \<open>old_dyn_priority\<close> that
  survives the loop is that of the entry before it, or -1.\<close>

definition repriced :: "proc \<Rightarrow> proc" where
  "repriced p =
     (case calculate_RBI (RTime p) (STime p) (WTime p) of Ok rbi \<Rightarrow> dynamic (p\<lparr>RBI := rbi\<rparr>) | Err _ \<Rightarrow> p)"

definition prev_dyn :: "nat \<Rightarrow> proc list \<Rightarrow> i32" where
  "prev_dyn k ps = (if k = 0 then NOTFOUND else DYNAMIC_PRIO (ps ! (k - 1)))"

lemma set_priority_loop_ok:
  assumes "table_ok st" "cpu_ok (cpus st h)" "k < NPROC" "i \<le> k" "pid (procs st ! k) = pd"
    "\<And>j. i \<le> j \<Longrightarrow> j < k \<Longrightarrow> pid (procs st ! j) \<noteq> pd \<and> rbi_defined (procs st ! j)"
  shows "set_priority_loop h i np pd old st =
    Ok ((k, STATIC_PRIO (procs st ! k), if i = k then old else DYNAMIC_PRIO (procs st ! (k - 1))),
      (settled h st)\<lparr>procs := (take i (procs st) @ map repriced (drop i (take k (procs st))) @ drop k (procs st))
        [k := (procs st ! k)\<lparr>STATIC_PRIO := np\<rparr>]\<rparr>)"
  using assms
proof (induction "k - i" arbitrary: i st old)
  case 0
  then have i: "i = k" "k < length (procs st)" by (auto simp: table_ok_def)
  show ?case
    using i 0 table_ok_free [OF "0.prems"(1,3)]
    by (subst set_priority_loop.simps) (simp add: crit_simps Let_def settled_procs)
next
  case (Suc n)
  then have i: "i < k" "i < NPROC" "i < length (procs st)" "k < length (procs st)" by (auto simp: table_ok_def)
  note fr = table_ok_free [OF Suc.prems(1) i(2)]
  obtain rbi where rbi: "calculate_RBI (RTime (procs st ! i)) (STime (procs st ! i)) (WTime (procs st ! i)) = Ok rbi"
    using Suc.prems(6) [of i] i by (auto simp: rbi_defined_def is_Ok_def)
  let ?ps = "(procs st)[i := repriced (procs st ! i)]"
  let ?s = "(settled h st)\<lparr>procs := ?ps\<rparr>"
  have run: "set_priority_loop h i np pd old st = set_priority_loop h (i + 1) np pd (DYNAMIC_PRIO (procs st ! i)) ?s"
    using i Suc.prems(2) Suc.prems(6) [of i] fr rbi
    by (subst set_priority_loop.simps) (simp add: crit_simps Let_def settled_procs repriced_def)
  have IH: "set_priority_loop h (i + 1) np pd (DYNAMIC_PRIO (procs st ! i)) ?s =
    Ok ((k, STATIC_PRIO (procs ?s ! k), if i + 1 = k then DYNAMIC_PRIO (procs st ! i) else DYNAMIC_PRIO (procs ?s ! (k - 1))),
      (settled h ?s)\<lparr>procs := (take (i + 1) (procs ?s) @ map repriced (drop (i + 1) (take k (procs ?s))) @ drop k (procs ?s))
        [k := (procs ?s ! k)\<lparr>STATIC_PRIO := np\<rparr>]\<rparr>)"
    using Suc.hyps(2) Suc.prems i by (intro Suc.hyps(1)) (simp_all add: settled_procs table_ok_def)
  have "take (Suc i) ?ps @ map repriced (drop (Suc i) (take k (procs st))) =
      take i (procs st) @ map repriced (drop i (take k (procs st)))"
    using table_step [of i "take k (procs st)" repriced] i
    by (simp add: take_update_swap [symmetric] min_def)
  moreover have "drop (Suc i) (take k ?ps) = drop (Suc i) (take k (procs st))" "drop k ?ps = drop k (procs st)"
    using i by (simp_all add: take_update_swap)
  ultimately have eq: "take (i + 1) (procs ?s) @ map repriced (drop (i + 1) (take k (procs ?s))) @ drop k (procs ?s) =
      take i (procs st) @ map repriced (drop i (take k (procs st))) @ drop k (procs st)"
    by (simp add: append_assoc [symmetric] del: append_assoc)
  have "procs ?s ! k = procs st ! k" "i + 1 \<noteq> k \<Longrightarrow> procs ?s ! (k - 1) = procs st ! (k - 1)"
    using i by auto
  then show ?case
    unfolding run IH eq using i by (auto simp: settled_procs)
qed

lemma yield_holding:
  assumes "table_ok st" "noff (cpus st h) = 0" "cproc (cpus st h) = Some me" "me < NPROC" "k < NPROC"
  shows "yield h (taken h (Lproc k) st) = Err (Panic (if me = k then ''acquire'' else ''sched locks''))"
proof -
  define s where "s = taken h (Lproc k) st"
  have c: "cpu_ok (cpus s h)" "noff (cpus s h) = 1" "cproc (cpus s h) = Some me"
    using assms(2,3) by (simp_all add: s_def taken_def cpu_ok_def push_off_def Let_def intr_defs)
  have m: "myproc h s = Ok (Some me, s)" using c by (simp add: myproc_ok)
  have mk: "holding h (locks s (Lproc k))" by (simp add: s_def taken_def holding_def)
  show ?thesis
  proof (cases "me = k")
    case True
    then show ?thesis using m mk by (simp add: s_def [symmetric] yield_def acq_def acquire_held)
  next
    case False
    then have fr: "lock_free (locks s (Lproc me))"
      using table_ok_free [OF assms(1,4)] by (simp add: s_def taken_def)
    define s2 where "s2 = upd_proc me (\<lambda>q. q\<lparr>pstate := RUNNABLE\<rparr>) (taken h (Lproc me) s)"
    have c2: "cpu_ok (cpus s2 h)" "noff (cpus s2 h) = 2" "cproc (cpus s2 h) = Some me"
      "holding h (locks s2 (Lproc me))"
      using c by (simp_all add: s2_def upd_proc_def taken_def holding_def cpu_ok_def push_off_def Let_def intr_defs)
    then have "sched h s2 = Err (Panic ''sched locks'')"
      by (simp add: sched_def myproc_ok mycpu_def)
    then show ?thesis
      using False m fr by (simp add: s_def [symmetric] yield_def acq_free s2_def)
  qed
qed

lemma table_ok_taken: "table_ok st \<Longrightarrow> (\<And>i. l \<noteq> Lproc i) \<Longrightarrow> table_ok (taken h l st)"
  by (auto simp: table_ok_def taken_def)

lemma scheduler_pick_ok:
  assumes "table_ok st" "lock_free (locks st Lsched)" "noff (cpus st h) = 0"
    "\<And>p. p \<in> set (procs st) \<Longrightarrow> pstate p = RUNNABLE \<Longrightarrow> rbi_defined p"
  shows "\<exists>d m st'. scheduler_pick h st = Ok (m, st') \<and> procs st' = map refresh (procs st) \<and>
    locks st' = locks st \<and> ticks st' = ticks st \<and> (\<forall>k. k \<noteq> h \<longrightarrow> cpus st' k = cpus st k) \<and>
    cproc (cpus st' h) = cproc (cpus st h) \<and> noff (cpus st' h) = 0 \<and> best_of NPROC (d, m) (procs st')"
proof -
  define s1 where "s1 = st\<lparr>cpus := (cpus st)(h := intr_on (cpus st h))\<rparr>"
  have c1: "cpu_ok (cpus s1 h)" "noff (cpus s1 h) = 0" "lock_free (locks s1 Lsched)"
    using assms(2,3) by (simp_all add: s1_def cpu_ok_def intr_on_def)
  define s2 where "s2 = taken h Lsched s1"
  have t2: "table_ok s2" "cpu_ok (cpus s2 h)" "0 < noff (cpus s2 h)" "procs s2 = procs st"
    using assms(1) table_ok_taken [of s1 Lsched h] c1
    by (auto simp: s2_def s1_def table_ok_def taken_def cpu_ok_push_off)
  have "\<exists>mn'. sched_scan h 0 (MAX_PRIO + 1, None) s2 =
      Ok (mn', s2\<lparr>procs := take 0 (procs s2) @ map refresh (drop 0 (procs s2))\<rparr>) \<and>
    best_of NPROC mn' (take 0 (procs s2) @ map refresh (drop 0 (procs s2)))"
    using t2 assms(1,4) by (intro sched_scan_ok) (auto simp: table_ok_def best_of_def)
  then obtain d m where m: "sched_scan h 0 (MAX_PRIO + 1, None) s2 = Ok ((d, m), s2\<lparr>procs := map refresh (procs st)\<rparr>)"
    "best_of NPROC (d, m) (map refresh (procs st))"
    using t2(4) by auto
  have "scheduler_pick h st = Ok (m, settled h (s1\<lparr>procs := map refresh (procs st)\<rparr>))"
    using acq_free [OF c1(3), of h] m(1) rel_taken [OF c1(3,1)]
    unfolding scheduler_pick_def s1_def [symmetric] by (simp add: s2_def)
  with m(2) assms(3) show ?thesis
    by (intro exI [of _ d] exI [of _ m]) (auto simp: settled_def s1_def intr_on_def)
qed

subsection \<open>Properties\<close>

text \<open>A table whose first entry is runnable and whose other entries are free, for the witnesses.\<close>

definition free_proc :: proc where
  "free_proc = \<lparr>pstate = UNUSED, pchan = None, pkilled = False, xstate = 0, pid = 0, parent = None,
     kstack = 0, psz = 0, pagetable = 0, trapframe = 0, ofile = replicate 16 None, cwd = None,
     pname = replicate 16 0, RTime = 0, ctime = 0, etime = 0, STime = 0, WTime = 0,
     STATIC_PRIO = 0, DYNAMIC_PRIO = 0, RBI = 0, N_RUN = 0\<rparr>"

definition init_proc :: proc where
  "init_proc = free_proc\<lparr>pstate := RUNNABLE, pid := 1, STATIC_PRIO := 50, RBI := 100\<rparr>"

definition one_proc :: sstate where
  "one_proc = \<lparr>procs = init_proc # replicate 63 free_proc,
     locks = (\<lambda>_. \<lparr>locked = False, lname = [], lcpu = None\<rparr>),
     cpus = (\<lambda>_. \<lparr>cproc = None, noff = 0, intena = False, sie = False\<rparr>), ticks = 0\<rparr>"

lemma one_proc_ok: "table_ok one_proc" "lock_free (locks one_proc l)" "noff (cpus one_proc h) = 0"
  "cpu_ok (cpus one_proc h)"
  by (simp_all add: one_proc_def table_ok_def lock_free_def cpu_ok_def)

lemma one_proc_rbi: "p \<in> set (procs one_proc) \<Longrightarrow> rbi_defined p"
  by (auto simp: one_proc_def init_proc_def free_proc_def rbi_defined_def calculate_RBI_def)

text \<open>
  C9: The scheduler's choice. From a state with all locks free, \<open>scheduler_pick\<close> (the
  loop over the table under \<open>sched_lock\<close>) returns with all locks free again; it recomputes
  the dynamic priority of exactly the runnable processes; it chooses none only when none is
  runnable, and otherwise a runnable process whose (dynamic priority, number of runs, creation
  time) is least, the one latest in the table among equals.
\<close>

theorem scheduler_picks_best:
  assumes "table_ok st" "lock_free (locks st Lsched)" "noff (cpus st h) = 0"
    "\<And>p. p \<in> set (procs st) \<Longrightarrow> pstate p = RUNNABLE \<Longrightarrow> rbi_defined p"
  shows "\<exists>m st'. scheduler_pick h st = Ok (m, st') \<and> procs st' = map refresh (procs st) \<and>
    locks st' = locks st \<and>
    (case m of
       None \<Rightarrow> \<forall>p\<in>set (procs st). pstate p \<noteq> RUNNABLE
     | Some k \<Rightarrow> k < NPROC \<and> pstate (procs st ! k) = RUNNABLE \<and>
         (\<forall>j<NPROC. pstate (procs st ! j) = RUNNABLE \<longrightarrow>
            sched_key (procs st' ! k) \<le> sched_key (procs st' ! j) \<and>
            (sched_key (procs st' ! j) = sched_key (procs st' ! k) \<longrightarrow> j \<le> k)))"
proof -
  obtain d m st' where *: "scheduler_pick h st = Ok (m, st')" "procs st' = map refresh (procs st)"
    "locks st' = locks st" "best_of NPROC (d, m) (procs st')"
    using scheduler_pick_ok [OF assms] by blast
  have len: "length (procs st) = NPROC" using assms(1) by (simp add: table_ok_def)
  show ?thesis
  proof (cases m)
    case None
    then have "\<forall>j<NPROC. pstate (procs st ! j) \<noteq> RUNNABLE" using *(2,4) len by (simp add: best_of_def)
    then have "\<forall>p\<in>set (procs st). pstate p \<noteq> RUNNABLE" using len by (auto simp: in_set_conv_nth)
    with * None show ?thesis by auto
  next
    case (Some k)
    with * len show ?thesis by (auto simp: best_of_def)
  qed
qed

theorem scheduler_picks_best_witness:
  "\<exists>k st'. scheduler_pick 0 one_proc = Ok (Some k, st') \<and> pstate (procs one_proc ! k) = RUNNABLE"
proof -
  have "\<not> (\<forall>p\<in>set (procs one_proc). pstate p \<noteq> RUNNABLE)"
    by (simp add: one_proc_def init_proc_def)
  with scheduler_picks_best [OF one_proc_ok(1-3), of 0] one_proc_rbi show ?thesis
    by (fastforce split: option.splits)
qed

text \<open>
  C13: The recent behaviour index without wrap-around: when the waiting and sleeping time do
  not exceed three times the running time (and the sum of the three fits), it is
  \<open>(3 R - S - W) / (R + W + S + 1)\<close> times 50, that is 0, 50 or 100, and the resulting dynamic
  priority is at most 100 for a static priority of at most 100.
\<close>

theorem calculate_RBI_in_range:
  assumes "unat r + unat s + unat w + 1 < 2 ^ 30" "unat s + unat w \<le> 3 * unat r" "0 < unat r"
  shows "\<exists>b. calculate_RBI r s w = Ok b \<and>
    unat b = (3 * unat r - unat s - unat w) div (unat r + unat w + unat s + 1) * 50 \<and> unat b \<le> 100 \<and>
    (unat (STATIC_PRIO p) \<le> 100 \<longrightarrow> unat (DYNAMIC_PRIO (dynamic (p\<lparr>RBI := b\<rparr>))) \<le> 100)"
proof -
  let ?n = "3 * unat r - unat s - unat w" and ?d = "unat r + unat w + unat s + 1"
  have n: "unat (3 * r - s - w) = ?n"
    using assms by (simp add: unat_word_ariths unat_sub_if')
  have d: "unat (r + w + s + 1) = ?d"
    using assms(1) by (simp add: unat_word_ariths)
  have "?n < 3 * ?d" by simp
  then have "?n div ?d < 3" by (rule less_mult_imp_div_less)
  then have q: "?n div ?d \<le> 2" by simp
  have b: "unat ((3 * r - s - w) div (r + w + s + 1) * 50) = ?n div ?d * 50"
  proof -
    have "unat ((3 * r - s - w) div (r + w + s + 1)) = ?n div ?d" by (simp only: unat_div n d)
    moreover have "unat (x * 50) = unat x * 50" if "unat x \<le> 2" for x :: u32
      using that by (simp add: unat_word_ariths)
    ultimately show ?thesis using q by simp
  qed
  define b where "b = (3 * r - s - w) div (r + w + s + 1) * 50"
  have "b \<le> 100" using b q by (simp add: b_def word_le_nat_alt)
  have si: "sint x = int (unat x)" if "unat x < 2 ^ 31" for x :: i32 using sint_small [OF that] by simp
  have "unat b \<le> 100" using b q by (simp add: b_def)
  then have mx: "maxOf b 0 = b"
    using si [of b] by (cases "b = 0") (auto simp: maxOf_def unat_gt_0 simp del: of_nat_unat)
  have nz: "r + w + s + 1 \<noteq> 0" using d by (metis Suc_eq_plus1 nat.distinct(1) unat_0)
  have "r \<noteq> 0" using assms(3) by auto
  then have run: "calculate_RBI r s w = Ok b"
    using nz mx by (simp add: calculate_RBI_def b_def)
  have "unat (DYNAMIC_PRIO (dynamic (p\<lparr>RBI := b\<rparr>))) \<le> 100" if "unat (STATIC_PRIO p) \<le> 100"
  proof -
    have "unat (STATIC_PRIO p + b) = unat (STATIC_PRIO p) + unat b"
      using that \<open>unat b \<le> 100\<close> by (simp add: unat_word_ariths)
    then show ?thesis
      using si [of "STATIC_PRIO p + b"] that \<open>unat b \<le> 100\<close> si [of 100]
      by (simp add: dynamic_def minOf_def del: of_nat_unat)
  qed
  with run b \<open>unat b \<le> 100\<close> show ?thesis by (auto simp: b_def)
qed

theorem calculate_RBI_in_range_witness:
  "\<exists>b. calculate_RBI 10 2 1 = Ok b \<and> unat b = 50"
  using calculate_RBI_in_range [of 10 2 1 init_proc] by auto

text \<open>
  The index wraps around. A process that ran for no tick, slept for two and waited for one
  (3 R < S + W) gets 2147483598 instead of 0, and with the default static priority 50 a dynamic
  priority of 2147483648, far above the maximum of 100: the formula is computed on unsigned
  integers and the maximum with 0 comes too late.
\<close>

theorem calculate_RBI_wraps:
  "calculate_RBI 0 2 1 = Ok 2147483598 \<and>
   DYNAMIC_PRIO (dynamic (p\<lparr>STATIC_PRIO := DEFAULT_PRIO, RBI := 2147483598\<rparr>)) = 2147483648"
  by (simp add: calculate_RBI_def maxOf_def dynamic_def minOf_def)

text \<open>
  C12: What \<open>set_priority\<close> does, called by the process \<open>me\<close> for a pid whose first entry
  is \<open>k\<close>. The loop sets the static priority of \<open>k\<close> and reprices the entries before it, and
  the old static priority is returned, unless the dynamic priority that the entry \<open>before\<close>
  \<open>k\<close> had (the constant -1 read as unsigned when \<open>k\<close> is the first) exceeds that of \<open>k\<close>:
  then the kernel panics, in \<open>acquire\<close> when the process changes its own priority and in
  \<open>sched\<close> otherwise, because \<open>yield\<close> is called with \<open>p->lock\<close> held.
\<close>

theorem set_priority_spec:
  assumes "table_ok st" "noff (cpus st h) = 0" "cproc (cpus st h) = Some me" "me < NPROC"
    "find_pid pd (procs st) = Some k" "\<And>p. p \<in> set (procs st) \<Longrightarrow> rbi_defined p"
  shows "if prev_dyn k (procs st) > DYNAMIC_PRIO (procs st ! k)
    then set_priority sw h np pd st = Err (Panic (if me = k then ''acquire'' else ''sched locks''))
    else \<exists>st'. set_priority sw h np pd st = Ok (STATIC_PRIO (procs st ! k), st') \<and>
      st' = (settled h st)\<lparr>procs := (map repriced (take k (procs st)) @ drop k (procs st))
        [k := (procs st ! k)\<lparr>STATIC_PRIO := np\<rparr>]\<rparr>"
proof -
  have k: "k < NPROC" "k < length (procs st)" "pid (procs st ! k) = pd" "\<forall>j<k. pid (procs st ! j) \<noteq> pd"
    using assms(1,5) by (auto simp: find_pid_Some table_ok_def)
  have c: "cpu_ok (cpus st h)" using assms(2) by (simp add: cpu_ok_def)
  define ps where "ps = (map repriced (take k (procs st)) @ drop k (procs st))[k := (procs st ! k)\<lparr>STATIC_PRIO := np\<rparr>]"
  define s1 where "s1 = (settled h st)\<lparr>procs := ps\<rparr>"
  have rb: "rbi_defined (procs st ! j)" if "j < k" for j using assms(6) k(2) that by simp
  have loop: "set_priority_loop h 0 np pd NOTFOUND st =
      Ok ((k, STATIC_PRIO (procs st ! k), prev_dyn k (procs st)), s1)"
    using set_priority_loop_ok [OF assms(1) c k(1) _ k(3), of 0 np NOTFOUND] k rb
    by (auto simp: prev_dyn_def s1_def ps_def)
  have dk: "DYNAMIC_PRIO (procs s1 ! k) = DYNAMIC_PRIO (procs st ! k)"
    using k by (simp add: s1_def ps_def)
  have t1: "table_ok s1" using assms(1) k by (simp add: s1_def ps_def table_ok_def)
  have y: "yield h (taken h (Lproc k) s1) = Err (Panic (if me = k then ''acquire'' else ''sched locks''))"
    using yield_holding [OF t1, of h me k] assms(2-4) k by (simp add: s1_def)
  show ?thesis
    using k(1) y table_ok_free [OF t1 k(1)]
    by (auto simp: set_priority_def loop dk acq_free) (auto simp: s1_def ps_def)
qed

theorem set_priority_spec_witness:
  "set_priority (\<lambda>h s. (h, s)) 0 10 1
     (one_proc\<lparr>cpus := (\<lambda>_. \<lparr>cproc = Some 0, noff = 0, intena = False, sie = False\<rparr>)\<rparr>) =
   Err (Panic ''acquire'')"
proof -
  let ?s = "one_proc\<lparr>cpus := (\<lambda>_. \<lparr>cproc = Some 0, noff = 0, intena = False, sie = False\<rparr>)\<rparr>"
  have "table_ok ?s" using one_proc_ok(1) by (simp add: table_ok_def)
  moreover have "find_pid 1 (procs ?s) = Some 0"
    by (simp add: find_pid_Some one_proc_def init_proc_def)
  moreover have "prev_dyn 0 (procs ?s) > DYNAMIC_PRIO (procs ?s ! 0)"
    by (simp add: prev_dyn_def one_proc_def init_proc_def free_proc_def word_gt_0)
  moreover have "\<And>p. p \<in> set (procs ?s) \<Longrightarrow> rbi_defined p" using one_proc_rbi by simp
  ultimately show ?thesis
    using set_priority_spec [of ?s 0 0 1 0 "\<lambda>h s. (h, s)" 10] by simp
qed

text \<open>The state in which \<open>sleep\<close> switches to the scheduler: the process is asleep under its own lock.\<close>

definition slept :: "nat \<Rightarrow> nat \<Rightarrow> chan \<Rightarrow> lockid \<Rightarrow> 'a sstate_scheme \<Rightarrow> 'a sstate_scheme" where
  "slept h p ch l st = st\<lparr>
     locks := (locks st)(Lproc p := (locks st (Lproc p))\<lparr>locked := True, lcpu := Some h\<rparr>, l := (locks st l)\<lparr>lcpu := None, locked := False\<rparr>),
     procs := (procs st)[p := (procs st ! p)\<lparr>pchan := Some ch, pstate := SLEEPING\<rparr>]\<rparr>"

lemma sleep_eq:
  "sleep h ch lkid st =
     bnd (myproc h st) (\<lambda>(me, st).
       case me of
         None \<Rightarrow> Err (Undef ''null pointer'')
       | Some p \<Rightarrow>
           bnd (acq h (Lproc p) st) (\<lambda>st.
           bnd (rel h lkid st) (\<lambda>st.
             sched h (upd_proc p (\<lambda>q. q\<lparr>pchan := Some ch, pstate := SLEEPING\<rparr>) st))))"
proof -
  have "upd_proc p (\<lambda>q. q\<lparr>pstate := SLEEPING\<rparr>) (upd_proc p (\<lambda>q. q\<lparr>pchan := Some ch\<rparr>) st) =
      upd_proc p (\<lambda>q. q\<lparr>pchan := Some ch, pstate := SLEEPING\<rparr>) st" for p and st :: "'a sstate_scheme"
    by (cases "p < length (procs st)") (simp_all add: upd_proc_def list_update_beyond)
  then show ?thesis
    by (auto simp: sleep_def sleep_steps_def bnd_assoc split: option.split intro!: arg_cong2 [where f = bnd])
qed

lemma sleep_switches:
  assumes "table_ok st" "cproc (cpus st h) = Some p" "p < NPROC" "noff (cpus st h) = 1"
    "cpu_ok (cpus st h)" "holding h (locks st l)" "\<forall>i. l \<noteq> Lproc i"
  shows "sleep h ch l st = Ok (intena (cpus st h), slept h p ch l st)"
proof -
  have fr: "lock_free (locks st (Lproc p))" using table_ok_free [OF assms(1,3)] .
  have len: "length (procs st) = NPROC" using assms(1) by (simp add: table_ok_def)
  have sie: "\<not> sie (cpus st h)" using assms(4,5) by (simp add: cpu_ok_def)
  have hl: "locked (locks st l)" "lcpu (locks st l) = Some h" using assms(6) by (auto simp: holding_def)
  have push: "push_off (cpus st h) = (cpus st h)\<lparr>noff := 2\<rparr>"
    using sie assms(4) by (cases "cpus st h") (simp add: push_off_def Let_def intr_defs)
  have nl: "l \<noteq> Lproc p" "Lproc p \<noteq> l" using assms(7) by auto
  have pop: "pop_off ((cpus st h)\<lparr>noff := 2\<rparr>) = Ok (cpus st h)"
    using sie assms(4) by (cases "cpus st h") (simp add: pop_off_def Let_def intr_defs)
  have "rel h l (taken h (Lproc p) st) = Ok (st\<lparr>locks := (locks st)(Lproc p := (locks st (Lproc p))\<lparr>locked := True, lcpu := Some h\<rparr>,
       l := (locks st l)\<lparr>lcpu := None, locked := False\<rparr>)\<rparr>)"
    using nl hl pop push
    by (simp add: rel_def taken_def release_def release_check_def lock_release_def holding_def)
  moreover have "sched h (slept h p ch l st) = Ok (intena (cpus st h), slept h p ch l st)"
    using assms(2-5) sie nl len
    by (simp add: sched_def slept_def myproc_ok mycpu_def holding_def intr_defs)
  ultimately show ?thesis
    using assms(2-5) nl fr len by (simp add: sleep_eq myproc_ok acq_free upd_proc_def slept_def)
qed

lemma slept_returns:
  assumes "table_ok st" "p < NPROC" "noff (cpus st h) = 1" "cpu_ok (cpus st h)" "\<forall>i. l \<noteq> Lproc i"
  shows "scheduler_return h p (slept h p ch l st) = Ok ((slept h p ch l st)\<lparr>
    cpus := (cpus st)(h := (cpus st h)\<lparr>cproc := None, noff := 0, sie := intena (cpus st h)\<rparr>),
    locks := (locks st)(l := (locks st l)\<lparr>lcpu := None, locked := False\<rparr>)\<rparr>)"
proof -
  have nl: "l \<noteq> Lproc p" "Lproc p \<noteq> l" using assms(5) by auto
  have "pop_off ((cpus st h)\<lparr>cproc := None\<rparr>) = Ok ((cpus st h)\<lparr>cproc := None, noff := 0, sie := intena (cpus st h)\<rparr>)"
    using assms(3,4) by (cases "cpus st h") (simp add: pop_off_def Let_def intr_defs cpu_ok_def)
  moreover have "(locks st (Lproc p))\<lparr>lcpu := None, locked := False\<rparr> = locks st (Lproc p)"
    using table_ok_free [OF assms(1,2)] by (cases "locks st (Lproc p)") (simp add: lock_free_def)
  ultimately show ?thesis
    using nl by (simp add: scheduler_return_def rel_def release_def release_check_def lock_release_def holding_def
      slept_def fun_upd_twist [OF nl(1)])
qed

text \<open>
  Sleeping, then waking. A process that holds the lock \<open>l\<close> and sleeps on \<open>ch\<close> switches
  away with \<open>l\<close> released and its own lock held, so that until the scheduler of its hart has
  the processor nobody can run \<open>wakeup\<close> past its entry; afterwards a \<open>wakeup\<close> of the same
  channel from another hart makes exactly the sleepers on \<open>ch\<close>, this process among them, runnable.
\<close>

theorem sleep_then_wakeup:
  assumes "table_ok st" "cproc (cpus st h) = Some p" "p < NPROC" "noff (cpus st h) = 1"
    "cpu_ok (cpus st h)" "holding h (locks st l)" "\<forall>i. l \<noteq> Lproc i"
    "h \<noteq> h2" "cpu_ok (cpus st h2)" "cproc (cpus st h2) \<noteq> Some p"
  shows "\<exists>ie s1 s2 s3. sleep h ch l st = Ok (ie, s1) \<and> lock_free (locks s1 l) \<and>
    acq h2 (Lproc p) s1 = Err (Waits ''acquire: spin'') \<and>
    scheduler_return h p s1 = Ok s2 \<and> table_ok s2 \<and> pstate (procs s2 ! p) = SLEEPING \<and>
    wakeup h2 (Some ch) s2 = Ok s3 \<and> pstate (procs s3 ! p) = RUNNABLE \<and>
    (\<forall>j<NPROC. j \<noteq> p \<and> cproc (cpus st h2) \<noteq> Some j \<longrightarrow> procs s3 ! j = wake (Some ch) (procs st ! j))"
proof -
  let ?s1 = "slept h p ch l st"
  define s2 where "s2 = ?s1\<lparr>cpus := (cpus st)(h := (cpus st h)\<lparr>cproc := None, noff := 0, sie := intena (cpus st h)\<rparr>),
    locks := (locks st)(l := (locks st l)\<lparr>lcpu := None, locked := False\<rparr>)\<rparr>"
  note sl = sleep_switches [OF assms(1-7), of ch] and ret = slept_returns [OF assms(1,3,4,5,7), of ch, folded s2_def]
  have len: "length (procs st) = NPROC" using assms(1) by (simp add: table_ok_def)
  have nl: "l \<noteq> Lproc p" "Lproc p \<noteq> l" using assms(7) by auto
  have t2: "table_ok s2" using assms(1,7) by (auto simp: table_ok_def s2_def slept_def)
  have c2h: "cpus s2 h2 = cpus st h2" using assms(8) by (simp add: s2_def)
  have p2: "procs s2 = (procs st)[p := (procs st ! p)\<lparr>pchan := Some ch, pstate := SLEEPING\<rparr>]" by (simp add: s2_def slept_def)
  obtain s3 where s3: "wakeup h2 (Some ch) s2 = Ok s3"
    "\<forall>j<NPROC. procs s3 ! j = (if cproc (cpus st h2) = Some j then procs s2 ! j else wake (Some ch) (procs s2 ! j))"
    using wakeup_ok [OF t2, of h2 "Some ch"] c2h assms(9) by auto
  have "pstate (procs s3 ! p) = RUNNABLE" using s3(2) assms(3,10) len by (simp add: p2 wake_def)
  moreover have "acq h2 (Lproc p) ?s1 = Err (Waits ''acquire: spin'')"
    using assms(8) nl by (simp add: acq_def slept_def acquire_def acquire_enter_def test_and_set_def holding_def Let_def)
  moreover have "lock_free (locks ?s1 l)" by (simp add: slept_def lock_free_def)
  moreover have "pstate (procs s2 ! p) = SLEEPING" using assms(3) len by (simp add: p2)
  moreover have "\<forall>j<NPROC. j \<noteq> p \<and> cproc (cpus st h2) \<noteq> Some j \<longrightarrow> procs s3 ! j = wake (Some ch) (procs st ! j)"
    using s3(2) by (simp add: p2)
  ultimately show ?thesis using sl ret t2 s3(1) by blast
qed

theorem sleep_then_wakeup_witness:
  "\<exists>ie s1. sleep 0 ChTicks Lticks
      \<lparr>procs = (init_proc\<lparr>pstate := RUNNING\<rparr>) # replicate 63 free_proc,
       locks = (\<lambda>l. if l = Lticks then \<lparr>locked = True, lname = [], lcpu = Some 0\<rparr>
                     else \<lparr>locked = False, lname = [], lcpu = None\<rparr>),
       cpus = (\<lambda>h. if h = 0 then \<lparr>cproc = Some 0, noff = 1, intena = True, sie = False\<rparr>
                     else \<lparr>cproc = None, noff = 0, intena = False, sie = True\<rparr>), ticks = 0\<rparr> = Ok (ie, s1) \<and>
    lock_free (locks s1 Lticks)" (is "\<exists>ie s1. sleep _ _ _ ?s = _ \<and> _")
proof -
  have "table_ok ?s" "holding 0 (locks ?s Lticks)"
    by (simp_all add: table_ok_def lock_free_def holding_def)
  then show ?thesis
    using sleep_then_wakeup [of ?s 0 0 Lticks 1 ChTicks] by (auto simp: cpu_ok_def)
qed

subsection \<open>Two harts and one process\<close>

text \<open>The scheduler loops of several harts. Between the release of \<open>sched_lock\<close> and the
  acquisition of the chosen process's lock the loop only reads \<open>min_proc->state\<close>; the steps
  are the parts of the loop that other harts can observe as one. A process that runs first
  releases its own lock, in \<open>forkret\<close> or at the end of \<open>yield\<close> or \<open>sleep\<close>.\<close>

datatype spc = Idle | Picked nat | Checked nat | Entered nat | Running nat

record rstate =
  spcs :: "nat \<Rightarrow> spc"
  sst :: sstate

inductive sched_step :: "rstate \<Rightarrow> rstate \<Rightarrow> bool" where
  pick: "spcs r h = Idle \<Longrightarrow> scheduler_pick h (sst r) = Ok (Some p, s') \<Longrightarrow>
    sched_step r (r\<lparr>spcs := (spcs r)(h := Picked p), sst := s'\<rparr>)"
| check: "spcs r h = Picked p \<Longrightarrow>
    sched_step r (r\<lparr>spcs := (spcs r)(h := if scheduler_check p (sst r) then Checked p else Idle), sst := sst r\<rparr>)"
| take: "spcs r h = Checked p \<Longrightarrow> scheduler_take h p (sst r) = Ok s' \<Longrightarrow>
    sched_step r (r\<lparr>spcs := (spcs r)(h := Entered p), sst := s'\<rparr>)"
| enter: "spcs r h = Entered p \<Longrightarrow> yield_resume h p ie (sst r) = Ok s' \<Longrightarrow>
    sched_step r (r\<lparr>spcs := (spcs r)(h := Running p), sst := s'\<rparr>)"

lemma best_of_unique:
  assumes "best_of n m ps" "best_of n m' ps"
  shows "snd m = snd m'"
proof (cases "snd m")
  case None
  with assms show ?thesis by (auto simp: best_of_def split: option.splits)
next
  case (Some k)
  with assms obtain k' where k': "snd m' = Some k'" by (auto simp: best_of_def split: option.splits)
  have a: "\<forall>j<n. pstate (ps ! j) = RUNNABLE \<longrightarrow> sched_key (ps ! k) \<le> sched_key (ps ! j) \<and>
      (sched_key (ps ! j) = sched_key (ps ! k) \<longrightarrow> j \<le> k)" "k < n" "pstate (ps ! k) = RUNNABLE"
    and b: "\<forall>j<n. pstate (ps ! j) = RUNNABLE \<longrightarrow> sched_key (ps ! k') \<le> sched_key (ps ! j) \<and>
      (sched_key (ps ! j) = sched_key (ps ! k') \<longrightarrow> j \<le> k')" "k' < n" "pstate (ps ! k') = RUNNABLE"
    using assms Some k' by (simp_all add: best_of_def)
  from a b have "sched_key (ps ! k) = sched_key (ps ! k')" by (simp add: antisym)
  then have "k = k'" using a b by (metis antisym)
  with Some k' show ?thesis by simp
qed

lemma refresh_refresh [simp]: "refresh (refresh p) = refresh p"
  by (auto simp: refresh_def dynamic_def split: res.split)

lemma rbi_defined_refresh [simp]: "rbi_defined (refresh p) = rbi_defined p"
  by (auto simp: refresh_def dynamic_def rbi_defined_def split: res.split)

lemma scheduler_take_free:
  "lock_free (locks st (Lproc p)) \<Longrightarrow>
    scheduler_take h p st = Ok (st\<lparr>procs := (procs st)[p := (procs st ! p)\<lparr>pstate := RUNNING\<rparr>],
      cpus := (cpus st)(h := (push_off (cpus st h))\<lparr>cproc := Some p\<rparr>),
      locks := (locks st)(Lproc p := (locks st (Lproc p))\<lparr>locked := True, lcpu := Some h\<rparr>)\<rparr>)"
  by (cases st) (simp add: scheduler_take_def acq_free taken_def upd_proc_def Let_def)

lemma yield_resume_first:
  assumes "locked (locks st (Lproc p))" "lcpu (locks st (Lproc p)) = Some h" "noff (cpus st h) = 1" "\<not> sie (cpus st h)"
  shows "\<exists>st'. yield_resume h p ie st = Ok st' \<and> procs st' = procs st \<and> cproc (cpus st' h) = cproc (cpus st h) \<and>
    (\<forall>k. k \<noteq> h \<longrightarrow> cpus st' k = cpus st k) \<and>
    locks st' = (locks st)(Lproc p := (locks st (Lproc p))\<lparr>lcpu := None, locked := False\<rparr>)"
  using assms
  by (auto simp: yield_resume_def sched_resume_def rel_def release_def release_check_def lock_release_def holding_def
      pop_off_def Let_def intr_defs)

text \<open>Two harts that look one after the other, before either of them takes its choice, choose the same process.\<close>

lemma both_pick:
  assumes "table_ok st" "lock_free (locks st Lsched)" "noff (cpus st 0) = 0" "noff (cpus st 1) = 0"
    "\<And>p. p \<in> set (procs st) \<Longrightarrow> pstate p = RUNNABLE \<Longrightarrow> rbi_defined p" "\<exists>p\<in>set (procs st). pstate p = RUNNABLE"
  shows "\<exists>p a b. scheduler_pick 0 st = Ok (Some p, a) \<and> scheduler_pick 1 a = Ok (Some p, b) \<and> p < NPROC \<and>
    pstate (procs b ! p) = RUNNABLE \<and> locks b = locks st \<and> noff (cpus b 0) = 0 \<and> noff (cpus b 1) = 0"
proof -
  obtain d m a where a: "scheduler_pick 0 st = Ok (m, a)" "procs a = map refresh (procs st)"
    "locks a = locks st" "cpus a 1 = cpus st 1" "noff (cpus a 0) = 0" "best_of NPROC (d, m) (procs a)"
    using scheduler_pick_ok [OF assms(1,2,3,5)] by auto
  have ta: "table_ok a" "lock_free (locks a Lsched)" "noff (cpus a 1) = 0"
    using a assms(1,2,4) by (simp_all add: table_ok_def)
  have ra: "\<And>p. p \<in> set (procs a) \<Longrightarrow> pstate p = RUNNABLE \<Longrightarrow> rbi_defined p"
    using assms(5) by (auto simp: a(2))
  obtain d' m' b where b: "scheduler_pick 1 a = Ok (m', b)" "procs b = procs a" "locks b = locks st"
    "cpus b 0 = cpus a 0" "noff (cpus b 1) = 0" "best_of NPROC (d', m') (procs a)"
    using scheduler_pick_ok [OF ta ra] a(2,3) by (auto simp: comp_def)
  have eq: "m' = m" using best_of_unique [OF a(6) b(6)] by simp
  obtain j where j: "j < length (procs st)" "pstate (procs st ! j) = RUNNABLE"
    using assms(6) by (auto simp: in_set_conv_nth)
  have len: "length (procs st) = NPROC" using assms(1) by (simp add: table_ok_def)
  obtain p where p: "m = Some p" "p < NPROC" "pstate (procs b ! p) = RUNNABLE"
    using a(6) j len by (auto simp: best_of_def a(2) b(2) split: option.splits)
  then show ?thesis using a(1,5) b(1,3,4,5) eq by auto
qed

text \<open>A hart takes a process whose lock is free and runs it, whatever its state.\<close>

lemma take_and_enter:
  assumes "lock_free (locks st (Lproc p))" "noff (cpus st h) = 0"
  shows "\<exists>c e. scheduler_take h p st = Ok c \<and> yield_resume h p False c = Ok e \<and> cproc (cpus e h) = Some p \<and>
    (\<forall>i. i \<noteq> h \<longrightarrow> cpus e i = cpus st i) \<and> lock_free (locks e (Lproc p))"
proof -
  define c where "c = st\<lparr>procs := (procs st)[p := (procs st ! p)\<lparr>pstate := RUNNING\<rparr>],
      cpus := (cpus st)(h := (push_off (cpus st h))\<lparr>cproc := Some p\<rparr>),
      locks := (locks st)(Lproc p := (locks st (Lproc p))\<lparr>locked := True, lcpu := Some h\<rparr>)\<rparr>"
  have "scheduler_take h p st = Ok c" using scheduler_take_free [OF assms(1)] by (simp add: c_def)
  moreover obtain e where "yield_resume h p False c = Ok e" "cproc (cpus e h) = Some p" "\<forall>i. i \<noteq> h \<longrightarrow> cpus e i = cpus st i"
    "lock_free (locks e (Lproc p))"
    using yield_resume_first [of c p h False] assms(2)
    by (auto simp: c_def push_off_def Let_def intr_defs lock_free_def)
  ultimately show ?thesis by blast
qed

text \<open>
  C11: Two harts can run the same process. From every state with a runnable process, free
  locks and two idle harts, the scheduler loops have an interleaving that ends with both harts
  executing the same process on its one kernel stack: the second hart tests
  \<open>min_proc->state\<close> before the first has set it to \<open>RUNNING\<close>, without holding the
  process's lock, and does not look again once it has the lock.
\<close>

theorem scheduler_double_run:
  assumes "table_ok (sst r)" "lock_free (locks (sst r) Lsched)" "spcs r 0 = Idle" "spcs r 1 = Idle"
    "noff (cpus (sst r) 0) = 0" "noff (cpus (sst r) 1) = 0"
    "\<And>p. p \<in> set (procs (sst r)) \<Longrightarrow> pstate p = RUNNABLE \<Longrightarrow> rbi_defined p"
    "\<exists>p\<in>set (procs (sst r)). pstate p = RUNNABLE"
  shows "\<exists>r' p. sched_step\<^sup>*\<^sup>* r r' \<and> spcs r' 0 = Running p \<and> spcs r' 1 = Running p \<and>
    cproc (cpus (sst r') 0) = Some p \<and> cproc (cpus (sst r') 1) = Some p"
proof -
  obtain p a b where ab: "scheduler_pick 0 (sst r) = Ok (Some p, a)" "scheduler_pick 1 a = Ok (Some p, b)" "p < NPROC"
    "pstate (procs b ! p) = RUNNABLE" "locks b = locks (sst r)" "noff (cpus b 0) = 0" "noff (cpus b 1) = 0"
    using both_pick [OF assms(1,2,5-8)] by blast
  have fr: "lock_free (locks b (Lproc p))" using table_ok_free [OF assms(1) ab(3)] by (simp add: ab(5))
  obtain c e where e: "scheduler_take 0 p b = Ok c" "yield_resume 0 p False c = Ok e" "cproc (cpus e 0) = Some p"
    "cpus e 1 = cpus b 1" "lock_free (locks e (Lproc p))" using take_and_enter [OF fr ab(6)] by auto
  obtain f g where g: "scheduler_take 1 p e = Ok f" "yield_resume 1 p False f = Ok g" "cproc (cpus g 1) = Some p" "cpus g 0 = cpus e 0"
    using take_and_enter [OF e(5), of 1] ab(7) e(4) by auto
  let ?u = "\<lambda>x y s. r\<lparr>spcs := (spcs r)(0 := x, 1 := y), sst := s\<rparr>"
  have s1: "sched_step r (?u (Picked p) Idle a)"
    using sched_step.pick [of r 0 p a] assms(3,4) ab(1) by (simp add: fun_upd_idem)
  have s2: "sched_step (?u (Picked p) Idle a) (?u (Picked p) (Picked p) b)"
    using sched_step.pick [of "?u (Picked p) Idle a" 1 p b] ab(2) by simp
  have s3: "sched_step (?u (Picked p) (Picked p) b) (?u (Checked p) (Picked p) b)"
    using sched_step.check [of "?u (Picked p) (Picked p) b" 0 p] ab(4) by (simp add: scheduler_check_def fun_upd_twist)
  have s4: "sched_step (?u (Checked p) (Picked p) b) (?u (Checked p) (Checked p) b)"
    using sched_step.check [of "?u (Checked p) (Picked p) b" 1 p] ab(4) by (simp add: scheduler_check_def)
  have s5: "sched_step (?u (Checked p) (Checked p) b) (?u (Entered p) (Checked p) c)"
    using sched_step.take [of "?u (Checked p) (Checked p) b" 0 p c] e(1) by (simp add: fun_upd_twist)
  have s6: "sched_step (?u (Entered p) (Checked p) c) (?u (Running p) (Checked p) e)"
    using sched_step.enter [of "?u (Entered p) (Checked p) c" 0 p False e] e(2) by (simp add: fun_upd_twist)
  have s7: "sched_step (?u (Running p) (Checked p) e) (?u (Running p) (Entered p) f)"
    using sched_step.take [of "?u (Running p) (Checked p) e" 1 p f] g(1) by simp
  have s8: "sched_step (?u (Running p) (Entered p) f) (?u (Running p) (Running p) g)"
    using sched_step.enter [of "?u (Running p) (Entered p) f" 1 p False g] g(2) by simp
  have "sched_step\<^sup>*\<^sup>* r (?u (Running p) (Running p) g)"
    using s1 s2 s3 s4 s5 s6 s7 s8 by (meson converse_rtranclp_into_rtranclp rtranclp.rtrancl_refl)
  then show ?thesis
    using e(3) g(3,4) by (intro exI [of _ "?u (Running p) (Running p) g"] exI [of _ p]) simp
qed

theorem scheduler_double_run_witness:
  "\<exists>r p. sched_step\<^sup>*\<^sup>* \<lparr>spcs = (\<lambda>_. Idle), sst = one_proc\<rparr> r \<and> spcs r 0 = Running p \<and> spcs r 1 = Running p"
proof -
  have "\<exists>p\<in>set (procs one_proc). pstate p = RUNNABLE" by (simp add: one_proc_def init_proc_def)
  then show ?thesis
    using scheduler_double_run [of "\<lparr>spcs = (\<lambda>_. Idle), sst = one_proc\<rparr>"] one_proc_ok one_proc_rbi by auto
qed

end
