(* ===== verification/Wakeups.thy ===== *)
theory Wakeups
  imports Sched
begin

text \<open>
  \<open>sleep\<close> against \<open>wakeup\<close>, \<open>kernel/proc.c\<close>, in every interleaving of their actions.

  One process, entry \<open>p\<close> on hart \<open>h\<close>, waits for a condition as all callers of \<open>sleep\<close> do: it holds the lock
  \<open>l\<close> of the condition, and as long as the condition is false it calls \<open>sleep(ch, l)\<close>. Any number of other harts
  acquire \<open>l\<close>, make the condition true, call \<open>wakeup(ch)\<close> and release \<open>l\<close>. The actions are the elements of
  \<open>sleep_steps\<close>, \<open>resume_steps\<close> and \<open>wakeup_steps\<close>, that is, of the bodies of the two functions; between any
  two of them other harts may run. A hart that spins in \<open>acquire\<close> does not move. The process runs again on the
  hart it left, and no hart chooses it while it is running (theory \<open>Sched\<close> shows that two schedulers may).
\<close>

subsection \<open>Interleavings\<close>

text \<open>\<open>Acting k\<close> is in \<open>sleep\<close> before action \<open>k\<close>, \<open>Switched\<close> after the switch to the scheduler, \<open>Asleep\<close> off
  the processor, \<open>Back\<close> in the second part of \<open>sleep\<close>. \<open>WScan i k\<close> is in \<open>wakeup\<close> at entry \<open>i\<close>, before action \<open>k\<close>.\<close>

datatype sleeper = Testing | Acting nat | Switched bool | Asleep bool | Back bool nat | Leaving | Finished

datatype waker = WIdle | WLocked | WScan nat nat | WDone

record nap =
  kst :: sstate
  cond :: bool
  sl :: sleeper
  wk :: "nat \<Rightarrow> waker"

inductive nap_step :: "nat \<Rightarrow> nat \<Rightarrow> chan \<Rightarrow> lockid \<Rightarrow> nap \<Rightarrow> nap \<Rightarrow> bool" for h p ch l where
  s_test: "sl r = Testing \<Longrightarrow> nap_step h p ch l r (r\<lparr>sl := if cond r then Leaving else Acting 0\<rparr>)"
| s_act: "sl r = Acting k \<Longrightarrow> k < length (sleep_steps h p ch l :: (sstate \<Rightarrow> sstate res) list) \<Longrightarrow>
    (sleep_steps h p ch l ! k) (kst r) = Ok s \<Longrightarrow> nap_step h p ch l r (r\<lparr>kst := s, sl := Acting (Suc k)\<rparr>)"
| s_switch: "sl r = Acting (length (sleep_steps h p ch l :: (sstate \<Rightarrow> sstate res) list)) \<Longrightarrow> sched h (kst r) = Ok (ie, s) \<Longrightarrow>
    nap_step h p ch l r (r\<lparr>kst := s, sl := Switched ie\<rparr>)"
| s_off: "sl r = Switched ie \<Longrightarrow> scheduler_return h p (kst r) = Ok s \<Longrightarrow> nap_step h p ch l r (r\<lparr>kst := s, sl := Asleep ie\<rparr>)"
| s_on: "sl r = Asleep ie \<Longrightarrow> scheduler_check p (kst r) \<Longrightarrow> scheduler_take h p (kst r) = Ok s \<Longrightarrow>
    nap_step h p ch l r (r\<lparr>kst := s, sl := Back ie 0\<rparr>)"
| s_back: "sl r = Back ie k \<Longrightarrow> k < length (resume_steps h p ie l :: (sstate \<Rightarrow> sstate res) list) \<Longrightarrow>
    (resume_steps h p ie l ! k) (kst r) = Ok s \<Longrightarrow> nap_step h p ch l r (r\<lparr>kst := s, sl := Back ie (Suc k)\<rparr>)"
| s_again: "sl r = Back ie (length (resume_steps h p ie l :: (sstate \<Rightarrow> sstate res) list)) \<Longrightarrow> nap_step h p ch l r (r\<lparr>sl := Testing\<rparr>)"
| s_leave: "sl r = Leaving \<Longrightarrow> rel h l (kst r) = Ok s \<Longrightarrow> nap_step h p ch l r (r\<lparr>kst := s, sl := Finished\<rparr>)"
| w_lock: "x \<noteq> h \<Longrightarrow> wk r x = WIdle \<Longrightarrow> acq x l (kst r) = Ok s \<Longrightarrow> nap_step h p ch l r (r\<lparr>kst := s, wk := (wk r)(x := WLocked)\<rparr>)"
| w_set: "x \<noteq> h \<Longrightarrow> wk r x = WLocked \<Longrightarrow> nap_step h p ch l r (r\<lparr>cond := True, wk := (wk r)(x := WScan 0 0)\<rparr>)"
| w_skip: "x \<noteq> h \<Longrightarrow> wk r x = WScan i 0 \<Longrightarrow> i < NPROC \<Longrightarrow> cproc (cpus (kst r) x) = Some i \<Longrightarrow>
    nap_step h p ch l r (r\<lparr>wk := (wk r)(x := WScan (Suc i) 0)\<rparr>)"
| w_act: "x \<noteq> h \<Longrightarrow> wk r x = WScan i k \<Longrightarrow> i < NPROC \<Longrightarrow> cproc (cpus (kst r) x) \<noteq> Some i \<Longrightarrow>
    k < length (wakeup_steps x i (Some ch) :: (sstate \<Rightarrow> sstate res) list) \<Longrightarrow>
    (wakeup_steps x i (Some ch) ! k) (kst r) = Ok s \<Longrightarrow> nap_step h p ch l r (r\<lparr>kst := s, wk := (wk r)(x := WScan i (Suc k))\<rparr>)"
| w_next: "x \<noteq> h \<Longrightarrow> wk r x = WScan i (length (wakeup_steps x i (Some ch) :: (sstate \<Rightarrow> sstate res) list)) \<Longrightarrow>
    nap_step h p ch l r (r\<lparr>wk := (wk r)(x := WScan (Suc i) 0)\<rparr>)"
| w_unlock: "x \<noteq> h \<Longrightarrow> wk r x = WScan NPROC 0 \<Longrightarrow> rel x l (kst r) = Ok s \<Longrightarrow>
    nap_step h p ch l r (r\<lparr>kst := s, wk := (wk r)(x := WDone)\<rparr>)"

subsection \<open>What the actions do\<close>

lemma acq_OkD:
  assumes "acq x k st = Ok s"
  shows "\<not> locked (locks st k)" "procs s = procs st" "locks s = (locks st)(k := (locks st k)\<lparr>locked := True, lcpu := Some x\<rparr>)"
    "cproc (cpus s y) = cproc (cpus st y)"
  using assms
  by (auto simp: acq_def acquire_def acquire_enter_def test_and_set_def Let_def bnd_def split: if_splits res.splits prod.splits)

lemma pop_off_cproc: "pop_off c = Ok c' \<Longrightarrow> cproc c' = cproc c"
  by (auto simp: pop_off_def Let_def intr_defs split: if_splits)

lemma rel_OkD:
  assumes "rel x k st = Ok s"
  shows "holding x (locks st k)" "procs s = procs st" "locks s = (locks st)(k := (locks st k)\<lparr>lcpu := None, locked := False\<rparr>)"
    "cproc (cpus s y) = cproc (cpus st y)"
  using assms
  by (auto simp: rel_def release_def release_check_def lock_release_def Let_def bnd_def split: if_splits res.splits prod.splits dest: pop_off_cproc)

lemma sched_OkD:
  assumes "sched h st = Ok (ie, s)"
  shows "procs s = procs st" "locks s = locks st" "cproc (cpus s y) = cproc (cpus st y)"
  using assms
  by (auto simp: sched_def myproc_def mycpu_def Let_def bnd_def split: if_splits res.splits prod.splits option.splits dest: pop_off_cproc)

lemma upd_proc_nth [simp]:
  "i < length (procs st) \<Longrightarrow> procs (upd_proc i f st) ! j = (if i = j then f (procs st ! j) else procs st ! j)"
  "locks (upd_proc i f st) = locks st" "cpus (upd_proc i f st) = cpus st" "length (procs (upd_proc i f st)) = length (procs st)"
  by (auto simp: upd_proc_def nth_list_update)

subsection \<open>Invariant\<close>

text \<open>Who holds \<open>l\<close> and \<open>p->lock\<close>.\<close>

fun has_l :: "sleeper \<Rightarrow> bool" where
  "has_l Testing = True"
| "has_l (Acting k) = (k \<le> 1)"
| "has_l (Back _ k) = (4 \<le> k)"
| "has_l Leaving = True"
| "has_l _ = False"

fun has_p :: "sleeper \<Rightarrow> bool" where
  "has_p (Acting k) = (1 \<le> k)"
| "has_p (Switched _) = True"
| "has_p (Back _ k) = (k \<le> 2)"
| "has_p _ = False"

fun w_has_l :: "waker \<Rightarrow> bool" where
  "w_has_l WLocked = True"
| "w_has_l (WScan _ _) = True"
| "w_has_l _ = False"

fun w_has_p :: "nat \<Rightarrow> waker \<Rightarrow> bool" where
  "w_has_p p (WScan i k) = (i = p \<and> k \<in> {1, 2})"
| "w_has_p p _ = False"

text \<open>The entry of the sleeper; when it can be woken; and a \<open>wakeup\<close> that has not passed it yet.\<close>

fun entry :: "chan \<Rightarrow> sleeper \<Rightarrow> proc \<Rightarrow> bool" where
  "entry ch (Acting k) q = ((3 \<le> k \<longrightarrow> pchan q = Some ch) \<and> (4 \<le> k \<longrightarrow> pstate q = SLEEPING))"
| "entry ch (Switched _) q = (pchan q = Some ch \<and> pstate q = SLEEPING)"
| "entry ch (Asleep _) q = (pchan q = Some ch \<and> pstate q \<in> {SLEEPING, RUNNABLE})"
| "entry ch _ q = True"

fun napping :: "sleeper \<Rightarrow> proc \<Rightarrow> bool" where
  "napping (Acting k) q = (2 \<le> k)"
| "napping (Switched _) q = True"
| "napping (Asleep _) q = (pstate q \<noteq> RUNNABLE)"
| "napping _ q = False"

fun ahead :: "nat \<Rightarrow> waker \<Rightarrow> bool" where
  "ahead p (WScan i k) = (i < p \<or> i = p \<and> k \<le> 1)"
| "ahead p _ = False"

definition nap_inv :: "nat \<Rightarrow> nat \<Rightarrow> chan \<Rightarrow> lockid \<Rightarrow> nap \<Rightarrow> bool" where
  "nap_inv h p ch l r \<longleftrightarrow>
     length (procs (kst r)) = NPROC \<and> (\<forall>x. x \<noteq> h \<longrightarrow> cproc (cpus (kst r) x) \<noteq> Some p) \<and>
     (has_l (sl r) \<longrightarrow> holding h (locks (kst r) l)) \<and>
     (\<forall>x. x \<noteq> h \<longrightarrow> w_has_l (wk r x) \<longrightarrow> holding x (locks (kst r) l)) \<and>
     (has_p (sl r) \<longrightarrow> holding h (locks (kst r) (Lproc p))) \<and>
     (\<forall>x. x \<noteq> h \<longrightarrow> w_has_p p (wk r x) \<longrightarrow> holding x (locks (kst r) (Lproc p))) \<and>
     (sl r \<in> {Acting 0, Acting 1} \<longrightarrow> \<not> cond r) \<and>
     entry ch (sl r) (procs (kst r) ! p) \<and>
     (napping (sl r) (procs (kst r) ! p) \<and> cond r \<longrightarrow> (\<exists>x. x \<noteq> h \<and> ahead p (wk r x)))"

lemma nap_invD:
  assumes "nap_inv h p ch l r"
  shows "length (procs (kst r)) = NPROC" "x \<noteq> h \<Longrightarrow> cproc (cpus (kst r) x) \<noteq> Some p"
    "has_l (sl r) \<Longrightarrow> holding h (locks (kst r) l)" "x \<noteq> h \<Longrightarrow> w_has_l (wk r x) \<Longrightarrow> holding x (locks (kst r) l)"
    "has_p (sl r) \<Longrightarrow> holding h (locks (kst r) (Lproc p))" "x \<noteq> h \<Longrightarrow> w_has_p p (wk r x) \<Longrightarrow> holding x (locks (kst r) (Lproc p))"
    "sl r \<in> {Acting 0, Acting 1} \<Longrightarrow> \<not> cond r" "entry ch (sl r) (procs (kst r) ! p)"
    "napping (sl r) (procs (kst r) ! p) \<Longrightarrow> cond r \<Longrightarrow> \<exists>x. x \<noteq> h \<and> ahead p (wk r x)"
  using assms unfolding nap_inv_def by blast+

text \<open>A lock changes hands: it was free, or the one who gives it up is the only holder.\<close>

lemma lock_moves:
  assumes "acq x k st = Ok s \<or> rel x k st = Ok s"
  shows "procs s = procs st" "cproc (cpus s y) = cproc (cpus st y)" "k' \<noteq> k \<Longrightarrow> locks s k' = locks st k'"
    "holding y (locks st k) \<Longrightarrow> y = x \<and> rel x k st = Ok s"
    "acq x k st = Ok s \<Longrightarrow> holding x (locks s k)"
  using assms acq_OkD [of x k st s] rel_OkD [of x k st s] by (auto simp: holding_def)

lemma nap_inv_sleeper_lock:
  assumes inv: "nap_inv h p ch l r" and nl: "l \<noteq> Lproc p" and k: "k \<in> {l, Lproc p}"
    and run: "acq h k (kst r) = Ok s \<or> rel h k (kst r) = Ok s"
    and r': "r' = r\<lparr>kst := s, sl := q\<rparr>"
    and hl: "has_l q \<Longrightarrow> if k = l then acq h k (kst r) = Ok s else has_l (sl r)"
    and hp: "has_p q \<Longrightarrow> if k = Lproc p then acq h k (kst r) = Ok s else has_p (sl r)"
    and c: "q \<in> {Acting 0, Acting 1} \<Longrightarrow> sl r \<in> {Acting 0, Acting 1}" and e: "entry ch q (procs (kst r) ! p)"
    and n: "napping q (procs (kst r) ! p) \<Longrightarrow> napping (sl r) (procs (kst r) ! p) \<or> \<not> cond r"
  shows "nap_inv h p ch l r'"
proof -
  note i = nap_invD [OF inv] and m = lock_moves [OF run]
  have other: "locks s k' = locks (kst r) k'" if "k' \<noteq> k" for k' using m(3) that by blast
  have keep: "holding x (locks s k')" if "x \<noteq> h" "holding x (locks (kst r) k')" for x k'
    using m(4) [of x] other [of k'] that by (cases "k' = k") auto
  have "has_l q \<Longrightarrow> holding h (locks s l)" using hl i(3) m(5) other [of l] by (auto split: if_splits)
  moreover have "has_p q \<Longrightarrow> holding h (locks s (Lproc p))" using hp i(5) m(5) other [of "Lproc p"] by (auto split: if_splits)
  ultimately show ?thesis
    unfolding nap_inv_def r' using i(1,2,4,6,7,9) m(1,2) keep c e n by auto
qed

lemma nap_inv_sleeper_local:
  assumes inv: "nap_inv h p ch l r" and r': "r' = r\<lparr>kst := s, sl := q\<rparr>"
    and s: "locks s = locks (kst r)" "length (procs s) = length (procs (kst r))" "\<And>x. x \<noteq> h \<Longrightarrow> cproc (cpus s x) = cproc (cpus (kst r) x)"
    and h: "has_l q \<Longrightarrow> has_l (sl r)" "has_p q \<Longrightarrow> has_p (sl r)"
    and c: "q \<in> {Acting 0, Acting 1} \<Longrightarrow> \<not> cond r" and e: "entry ch q (procs s ! p)"
    and n: "napping q (procs s ! p) \<Longrightarrow> napping (sl r) (procs (kst r) ! p) \<or> \<not> cond r"
  shows "nap_inv h p ch l r'"
  using nap_invD [OF inv] s h c e n unfolding nap_inv_def r' by auto

lemma nap_inv_waker_lock:
  assumes inv: "nap_inv h p ch l r" and x: "x \<noteq> h"
    and run: "acq x k (kst r) = Ok s \<or> rel x k (kst r) = Ok s"
    and r': "r' = r\<lparr>kst := s, wk := (wk r)(x := w)\<rparr>"
    and hl: "w_has_l w \<Longrightarrow> if k = l then acq x k (kst r) = Ok s else w_has_l (wk r x)"
    and hp: "w_has_p p w \<Longrightarrow> if k = Lproc p then acq x k (kst r) = Ok s else w_has_p p (wk r x)"
    and a: "ahead p (wk r x) \<Longrightarrow> ahead p w"
  shows "nap_inv h p ch l r'"
proof -
  note i = nap_invD [OF inv] and m = lock_moves [OF run]
  have other: "locks s k' = locks (kst r) k'" if "k' \<noteq> k" for k' using m(3) that by blast
  have keep: "holding y (locks s k')" if "y \<noteq> x" "holding y (locks (kst r) k')" for y k'
    using m(4) [of y] other [of k'] that by (cases "k' = k") auto
  have "w_has_l w \<Longrightarrow> holding x (locks s l)" using hl i(4) [OF x] m(5) other [of l] by (auto split: if_splits)
  moreover have "w_has_p p w \<Longrightarrow> holding x (locks s (Lproc p))" using hp i(6) [OF x] m(5) other [of "Lproc p"] by (auto split: if_splits)
  moreover have "\<exists>y. y \<noteq> h \<and> ahead p (((wk r)(x := w)) y)" if "\<exists>y. y \<noteq> h \<and> ahead p (wk r y)"
  proof -
    from that obtain y where "y \<noteq> h" "ahead p (wk r y)" by blast
    then show ?thesis using a x by (cases "y = x") (auto intro: exI [of _ x] exI [of _ y])
  qed
  ultimately show ?thesis
    unfolding nap_inv_def r' using i m(1,2) keep x by auto
qed

text \<open>A waker moves on without touching the kernel state, or sets the condition under \<open>l\<close>.\<close>

lemma nap_inv_waker_local:
  assumes inv: "nap_inv h p ch l r" and x: "x \<noteq> h" and r': "r' = r\<lparr>cond := c, wk := (wk r)(x := w)\<rparr>"
    and h: "w_has_l w \<Longrightarrow> w_has_l (wk r x)" "\<not> w_has_p p w"
    and a: "ahead p (wk r x) \<or> c \<and> \<not> cond r \<Longrightarrow> ahead p w" and c: "cond r \<Longrightarrow> c" "c \<and> \<not> cond r \<Longrightarrow> w_has_l (wk r x)"
  shows "nap_inv h p ch l r'"
proof -
  note i = nap_invD [OF inv]
  have "\<not> c" if "sl r \<in> {Acting 0, Acting 1}"
  proof
    assume "c"
    then have "holding x (locks (kst r) l)" "holding h (locks (kst r) l)" using i(7) that c(2) i(3) i(4) [OF x] by auto
    with x show False by (simp add: holding_def)
  qed
  moreover have "\<exists>y. y \<noteq> h \<and> ahead p (((wk r)(x := w)) y)" if nap: "napping (sl r) (procs (kst r) ! p)" and cc: "c"
  proof (cases "cond r")
    case True
    then obtain y where "y \<noteq> h" "ahead p (wk r y)" using i(9) [OF nap] by blast
    then show ?thesis using a x by (cases "y = x") (auto intro: exI [of _ x] exI [of _ y])
  next
    case False
    then show ?thesis using a cc x by (intro exI [of _ x]) simp
  qed
  ultimately show ?thesis using i(1-6,8) h x unfolding nap_inv_def r' by auto
qed

text \<open>A waker looks at entry \<open>i\<close>, whose lock it holds.\<close>

lemma nap_inv_waker_look:
  assumes inv: "nap_inv h p ch l r" and x: "x \<noteq> h" and i: "i < NPROC" and w: "wk r x = WScan i 1"
    and r': "r' = r\<lparr>kst := upd_proc i (\<lambda>p. if pstate p = SLEEPING \<and> pchan p = Some ch then p\<lparr>pstate := RUNNABLE\<rparr> else p) (kst r),
      wk := (wk r)(x := WScan i 2)\<rparr>"
  shows "nap_inv h p ch l r'"
proof -
  note v = nap_invD [OF inv]
  have len: "i < length (procs (kst r))" using i v(1) by simp
  have np: "\<not> has_p (sl r)" if "i = p"
  proof
    assume "has_p (sl r)"
    then have "holding h (locks (kst r) (Lproc p))" "holding x (locks (kst r) (Lproc p))" using v(5) v(6) [OF x] that w by auto
    with x show False by (simp add: holding_def)
  qed
  let ?q = "procs (kst r') ! p"
  have q: "?q = (if i = p \<and> pstate (procs (kst r) ! p) = SLEEPING \<and> pchan (procs (kst r) ! p) = Some ch
      then (procs (kst r) ! p)\<lparr>pstate := RUNNABLE\<rparr> else procs (kst r) ! p)" using len by (auto simp: r')
  have e: "entry ch (sl r) ?q" using v(8) np by (cases "sl r") (auto simp: q)
  have n: "\<exists>y. y \<noteq> h \<and> ahead p (wk r' y)" if nap: "napping (sl r) ?q" and c: "cond r"
  proof -
    have ip: "i \<noteq> p" using nap np v(8) by (cases "sl r") (auto simp: q split: if_splits)
    then have "napping (sl r) (procs (kst r) ! p)" using nap by (simp add: q)
    then obtain y where "y \<noteq> h" "ahead p (wk r y)" using v(9) c by blast
    then show ?thesis using ip w x by (cases "y = x") (auto simp: r')
  qed
  show ?thesis
    unfolding nap_inv_def using v(1-7) e n x w len by (auto simp: r')
qed

subsection \<open>Every step keeps the invariant\<close>

lemma less4: "(k::nat) < 4 \<Longrightarrow> k = 0 \<or> k = 1 \<or> k = 2 \<or> k = 3" and less3: "(k::nat) < 3 \<Longrightarrow> k = 0 \<or> k = 1 \<or> k = 2"
  by auto

lemma nap_sleep_act:
  assumes inv: "nap_inv h p ch l r" and p: "p < NPROC" and nl: "l \<noteq> Lproc p"
    and k: "sl r = Acting k" "k < 4" "(sleep_steps h p ch l ! k) (kst r) = Ok s"
  shows "nap_inv h p ch l (r\<lparr>kst := s, sl := Acting (Suc k)\<rparr>)"
proof -
  have len: "p < length (procs (kst r))" using nap_invD(1) [OF inv] p by simp
  note e = nap_invD(8) [OF inv] and c = nap_invD(7) [OF inv]
  from less4 [OF k(2)] show ?thesis
  proof (elim disjE)
    assume "k = 0"
    then show ?thesis
      using k c nl by (intro nap_inv_sleeper_lock [OF inv nl, of "Lproc p" s]) (auto simp: sleep_steps_def)
  next
    assume "k = 1"
    then show ?thesis
      using k c nl by (intro nap_inv_sleeper_lock [OF inv nl, of l s]) (auto simp: sleep_steps_def)
  next
    assume "k = 2"
    then show ?thesis
      using k len by (intro nap_inv_sleeper_local [OF inv refl]) (auto simp: sleep_steps_def)
  next
    assume "k = 3"
    then show ?thesis
      using k len e by (intro nap_inv_sleeper_local [OF inv refl]) (auto simp: sleep_steps_def)
  qed
qed

lemma nap_sleep_back:
  assumes inv: "nap_inv h p ch l r" and p: "p < NPROC" and nl: "l \<noteq> Lproc p"
    and k: "sl r = Back ie k" "k < 4" "(resume_steps h p ie l ! k) (kst r) = Ok s"
  shows "nap_inv h p ch l (r\<lparr>kst := s, sl := Back ie (Suc k)\<rparr>)"
proof -
  have len: "p < length (procs (kst r))" using nap_invD(1) [OF inv] p by simp
  from less4 [OF k(2)] show ?thesis
  proof (elim disjE)
    assume "k = 0"
    then show ?thesis
      using k by (intro nap_inv_sleeper_local [OF inv refl]) (auto simp: resume_steps_def sched_resume_def)
  next
    assume "k = 1"
    then show ?thesis
      using k len by (intro nap_inv_sleeper_local [OF inv refl]) (auto simp: resume_steps_def)
  next
    assume "k = 2"
    then show ?thesis
      using k nl by (intro nap_inv_sleeper_lock [OF inv nl, of "Lproc p" s]) (auto simp: resume_steps_def)
  next
    assume "k = 3"
    then show ?thesis
      using k nl by (intro nap_inv_sleeper_lock [OF inv nl, of l s]) (auto simp: resume_steps_def)
  qed
qed

lemma nap_wake_act:
  assumes inv: "nap_inv h p ch l r" and nl: "\<forall>i. l \<noteq> Lproc i" and x: "x \<noteq> h" and i: "i < NPROC"
    and k: "wk r x = WScan i k" "k < 3" "(wakeup_steps x i (Some ch) ! k) (kst r) = Ok s"
  shows "nap_inv h p ch l (r\<lparr>kst := s, wk := (wk r)(x := WScan i (Suc k))\<rparr>)"
proof -
  from less3 [OF k(2)] show ?thesis
  proof (elim disjE)
    assume "k = 0"
    then show ?thesis
      using k nl by (intro nap_inv_waker_lock [OF inv x, of "Lproc i" s]) (auto simp: wakeup_steps_def)
  next
    assume "k = 1"
    then show ?thesis
      using k by (intro nap_inv_waker_look [OF inv x i]) (auto simp: wakeup_steps_def numeral_2_eq_2)
  next
    assume "k = 2"
    then show ?thesis
      using k nl by (intro nap_inv_waker_lock [OF inv x, of "Lproc i" s]) (auto simp: wakeup_steps_def)
  qed
qed

text \<open>The two switches, on the scheduler's side.\<close>

lemma nap_off:
  assumes inv: "nap_inv h p ch l r" and nl: "l \<noteq> Lproc p"
    and k: "sl r = Switched ie" "scheduler_return h p (kst r) = Ok s"
  shows "nap_inv h p ch l (r\<lparr>kst := s, sl := Asleep ie\<rparr>)"
proof -
  let ?s = "(kst r)\<lparr>cpus := (cpus (kst r))(h := (cpus (kst r) h)\<lparr>cproc := None\<rparr>)\<rparr>"
  have "nap_inv h p ch l (r\<lparr>kst := ?s, sl := Switched ie\<rparr>)"
    using k nap_invD(8) [OF inv] by (intro nap_inv_sleeper_local [OF inv refl]) auto
  from nap_inv_sleeper_lock [OF this nl, of "Lproc p" s _ "Asleep ie"] show ?thesis
    using k nl nap_invD(8) [OF inv] by (auto simp: scheduler_return_def)
qed

lemma nap_on:
  assumes inv: "nap_inv h p ch l r" and p: "p < NPROC" and nl: "l \<noteq> Lproc p"
    and k: "sl r = Asleep ie" "scheduler_take h p (kst r) = Ok s"
  shows "nap_inv h p ch l (r\<lparr>kst := s, sl := Back ie 0\<rparr>)"
proof -
  obtain s' where s': "acq h (Lproc p) (kst r) = Ok s'"
    "s = (upd_proc p (\<lambda>p. p\<lparr>pstate := RUNNING\<rparr>) s')\<lparr>cpus := (cpus s')(h := (cpus s' h)\<lparr>cproc := Some p\<rparr>)\<rparr>"
    using k(2) by (auto simp: scheduler_take_def bnd_def Let_def split: res.splits)
  have i: "nap_inv h p ch l (r\<lparr>kst := s', sl := Back ie 0\<rparr>)"
    using s'(1) nl by (intro nap_inv_sleeper_lock [OF inv nl _ _ refl, of "Lproc p"]) auto
  have len: "p < length (procs s')" using nap_invD(1) [OF i] p by simp
  from nap_inv_sleeper_local [OF i, where s = s and q = "Back ie 0"] show ?thesis using s'(2) len by auto
qed

lemma steps_length [simp]: "length (sleep_steps h p ch l) = 4" "length (resume_steps h p ie l) = 4" "length (wakeup_steps h p c) = 3"
  by (simp_all add: sleep_steps_def resume_steps_def wakeup_steps_def)

lemma next_entry: "(i::nat) < p \<Longrightarrow> Suc i < p \<or> Suc i = p"
  by arith

lemma nap_step_inv:
  assumes "nap_step h p ch l r r'" "nap_inv h p ch l r" "p < NPROC" "\<forall>i. l \<noteq> Lproc i"
  shows "nap_inv h p ch l r'"
  using assms
proof (induction rule: nap_step.induct)
  case (s_test r)
  from nap_inv_sleeper_local [OF s_test(2), where s = "kst r" and q = "if cond r then Leaving else Acting 0"] show ?case
    using s_test by auto
next
  case (s_act r k s)
  then show ?case using nap_sleep_act [of h p ch l r k s] by simp
next
  case (s_switch r ie s)
  from nap_inv_sleeper_local [OF s_switch(3), where s = s and q = "Switched ie"] show ?case
    using s_switch sched_OkD [OF s_switch(2)] nap_invD(8) [OF s_switch(3)] by auto
next
  case (s_off r ie s)
  then show ?case using nap_off by blast
next
  case (s_on r ie s)
  then show ?case using nap_on by blast
next
  case (s_back r ie k s)
  then show ?case using nap_sleep_back [of h p ch l r ie k s] by simp
next
  case (s_again r ie)
  from nap_inv_sleeper_local [OF s_again(2), where s = "kst r" and q = Testing] show ?case
    using s_again by auto
next
  case (s_leave r s)
  then show ?case by (intro nap_inv_sleeper_lock [OF s_leave(3), of l s]) auto
next
  case (w_lock x r s)
  then show ?case by (intro nap_inv_waker_lock [OF w_lock(4), of x l s]) auto
next
  case (w_set x r)
  then show ?case using nap_inv_waker_local [OF w_set(3,1), where c = True and w = "WScan 0 0"] by auto
next
  case (w_skip x r i)
  then have "i \<noteq> p" using nap_invD(2) [OF w_skip(5,1)] by auto
  from nap_inv_waker_local [OF w_skip(5,1), where c = "cond r" and w = "WScan (Suc i) 0"] show ?case using w_skip \<open>i \<noteq> p\<close> next_entry by auto
next
  case (w_act x r i k s)
  then show ?case using nap_wake_act [of h p ch l r x i k s] by simp
next
  case (w_next x r i)
  from nap_inv_waker_local [OF w_next(3,1), where c = "cond r" and w = "WScan (Suc i) 0"] show ?case using w_next next_entry by auto
next
  case (w_unlock x r s)
  then show ?case by (intro nap_inv_waker_lock [OF w_unlock(4), of x l s]) auto
qed

subsection \<open>No wakeup is lost\<close>

lemma nap_start:
  assumes "length (procs st) = NPROC" "holding h (locks st l)" "\<forall>x. x \<noteq> h \<longrightarrow> cproc (cpus st x) \<noteq> Some p"
  shows "nap_inv h p ch l \<lparr>kst = st, cond = c, sl = Testing, wk = \<lambda>_. WIdle\<rparr>"
  using assms by (simp add: nap_inv_def)

lemma nap_reachable:
  assumes "(nap_step h p ch l)\<^sup>*\<^sup>* r r'" "nap_inv h p ch l r" "p < NPROC" "\<forall>i. l \<noteq> Lproc i"
  shows "nap_inv h p ch l r'"
  using assms(1)
proof (induction rule: rtranclp_induct)
  case (step y z)
  then show ?case using nap_step_inv assms(3,4) by blast
qed (rule assms(2))

text \<open>
  C10: \<open>sleep\<close> and \<open>wakeup\<close>. A process that holds the lock \<open>l\<close> of a condition and sleeps on \<open>ch\<close> switches away
  with \<open>l\<close> released and its own lock held, so that until the scheduler of its hart has the processor
  another hart cannot get past its entry; after that a \<open>wakeup\<close> of the channel from another hart makes exactly the
  sleepers on \<open>ch\<close>, this process among them, runnable. And whatever the other harts do between any two actions of
  \<open>sleep\<close>, \<open>sched\<close>, the scheduler and \<open>wakeup\<close>, no wakeup is lost: when the process is off the processor and the condition
  has been made true under \<open>l\<close>, the process is runnable, or a \<open>wakeup(ch)\<close> is still on its way to its entry.
  The process itself tests the condition only while it holds \<open>l\<close>, and while it tests no other hart
  is between setting the condition and the end of its \<open>wakeup\<close>.
\<close>

theorem sleep_wakeup:
  fixes st :: sstate
  assumes "table_ok st" "cproc (cpus st h) = Some p" "p < NPROC" "noff (cpus st h) = 1"
    "cpu_ok (cpus st h)" "holding h (locks st l)" "\<forall>i. l \<noteq> Lproc i"
    "h \<noteq> h2" "cpu_ok (cpus st h2)" "\<forall>x. x \<noteq> h \<longrightarrow> cproc (cpus st x) \<noteq> Some p"
  shows "(\<exists>ie s1 s2 s3. sleep h ch l st = Ok (ie, s1) \<and> lock_free (locks s1 l) \<and>
      acq h2 (Lproc p) s1 = Err (Waits ''acquire: spin'') \<and>
      scheduler_return h p s1 = Ok s2 \<and> table_ok s2 \<and> pstate (procs s2 ! p) = SLEEPING \<and>
      wakeup h2 (Some ch) s2 = Ok s3 \<and> pstate (procs s3 ! p) = RUNNABLE \<and>
      (\<forall>j<NPROC. j \<noteq> p \<and> cproc (cpus st h2) \<noteq> Some j \<longrightarrow> procs s3 ! j = wake (Some ch) (procs st ! j))) \<and>
    (\<forall>r ie. (nap_step h p ch l)\<^sup>*\<^sup>* \<lparr>kst = st, cond = c, sl = Testing, wk = \<lambda>_. WIdle\<rparr> r \<longrightarrow>
      (sl r = Asleep ie \<and> cond r \<longrightarrow> pstate (procs (kst r) ! p) = RUNNABLE \<or>
        (\<exists>x i k. x \<noteq> h \<and> wk r x = WScan i k \<and> (i < p \<or> i = p \<and> k \<le> 1))) \<and>
      (sl r = Testing \<longrightarrow> holding h (locks (kst r) l) \<and> (\<forall>x i k. x \<noteq> h \<longrightarrow> wk r x \<noteq> WScan i k)))"
proof (intro conjI allI impI)
  show "\<exists>ie s1 s2 s3. sleep h ch l st = Ok (ie, s1) \<and> lock_free (locks s1 l) \<and>
      acq h2 (Lproc p) s1 = Err (Waits ''acquire: spin'') \<and>
      scheduler_return h p s1 = Ok s2 \<and> table_ok s2 \<and> pstate (procs s2 ! p) = SLEEPING \<and>
      wakeup h2 (Some ch) s2 = Ok s3 \<and> pstate (procs s3 ! p) = RUNNABLE \<and>
      (\<forall>j<NPROC. j \<noteq> p \<and> cproc (cpus st h2) \<noteq> Some j \<longrightarrow> procs s3 ! j = wake (Some ch) (procs st ! j))"
    using sleep_then_wakeup [OF assms(1-9)] assms(8,10) by auto
next
  fix r ie
  assume run: "(nap_step h p ch l)\<^sup>*\<^sup>* \<lparr>kst = st, cond = c, sl = Testing, wk = \<lambda>_. WIdle\<rparr> r"
  have "nap_inv h p ch l r"
    using nap_reachable [OF run nap_start assms(3,7)] assms(1,6,10) by (simp add: table_ok_def)
  note i = nap_invD [OF this]
  show "pstate (procs (kst r) ! p) = RUNNABLE \<or> (\<exists>x i k. x \<noteq> h \<and> wk r x = WScan i k \<and> (i < p \<or> i = p \<and> k \<le> 1))"
    if sl: "sl r = Asleep ie \<and> cond r"
  proof (cases "pstate (procs (kst r) ! p) = RUNNABLE")
    case False
    then obtain x where "x \<noteq> h" "ahead p (wk r x)" using i(9) sl by auto
    then show ?thesis by (cases "wk r x") auto
  qed simp
  assume t: "sl r = Testing"
  then show l: "holding h (locks (kst r) l)" using i(3) by simp
  show "wk r x \<noteq> WScan n k" if x: "x \<noteq> h" for x n k
    using i(4) [OF x] l x by (auto simp: holding_def)
qed

text \<open>
  Witness: process 0 on hart 0 goes to sleep on the ticks; hart 1 takes the lock, sets the condition and
  wakes it up, with the process asleep in between.
\<close>

definition lk_by :: "nat option \<Rightarrow> spinlock" where
  "lk_by x = \<lparr>locked = (x \<noteq> None), lname = [], lcpu = x\<rparr>"

definition nap_state :: "proc \<Rightarrow> nat option \<Rightarrow> nat option \<Rightarrow> cpu \<Rightarrow> cpu \<Rightarrow> sstate" where
  "nap_state q lt lp c0 c1 =
     \<lparr>procs = q # replicate 63 free_proc, locks = (\<lambda>_. lk_by None)(Lticks := lk_by lt, Lproc 0 := lk_by lp),
      cpus = (\<lambda>_. \<lparr>cproc = None, noff = 0, intena = False, sie = True\<rparr>)(0 := c0, 1 := c1), ticks = 0\<rparr>"

definition nap_rec :: "sstate \<Rightarrow> bool \<Rightarrow> sleeper \<Rightarrow> waker \<Rightarrow> nap" where
  "nap_rec st c q w = \<lparr>kst = st, cond = c, sl = q, wk = (\<lambda>_. WIdle)(1 := w)\<rparr>"

lemmas nap_eval = acq_def rel_def acquire_def acquire_enter_def test_and_set_def release_def release_check_def lock_release_def
  holding_def Let_def nap_state_def lk_by_def fun_upd_twist upd_proc_def fun_upd_def pop_off_def push_off_def intr_defs

lemma nap_acq [simp]:
  "acq 0 (Lproc 0) (nap_state q lt None c0 c1) = Ok (nap_state q lt (Some 0) (push_off c0) c1)"
  "acq (Suc 0) (Lproc 0) (nap_state q lt None c0 c1) = Ok (nap_state q lt (Some (Suc 0)) c0 (push_off c1))"
  "acq (Suc 0) Lticks (nap_state q None lp c0 c1) = Ok (nap_state q (Some (Suc 0)) lp c0 (push_off c1))"
  by (auto simp: nap_eval intro!: ext)

lemma nap_rel [simp]:
  "pop_off c0 = Ok c \<Longrightarrow> rel 0 (Lproc 0) (nap_state q lt (Some 0) c0 c1) = Ok (nap_state q lt None c c1)"
  "pop_off c0 = Ok c \<Longrightarrow> rel 0 Lticks (nap_state q (Some 0) lp c0 c1) = Ok (nap_state q None lp c c1)"
  by (auto simp: acq_def rel_def release_def release_check_def lock_release_def holding_def nap_state_def lk_by_def intro!: ext)

lemma nap_upd [simp]: "upd_proc 0 f (nap_state q lt lp c0 c1) = nap_state (f q) lt lp c0 c1"
  by (simp add: nap_state_def upd_proc_def)

lemma nap_cpu [simp]:
  "cpus (nap_state q lt lp c0 c1) 0 = c0" "cpus (nap_state q lt lp c0 c1) 1 = c1" "cpus (nap_state q lt lp c0 c1) (Suc 0) = c1"
  "(nap_state q lt lp c0 c1)\<lparr>cpus := (cpus (nap_state q lt lp c0 c1))(0 := c)\<rparr> = nap_state q lt lp c c1"
  by (simp_all add: nap_state_def fun_upd_twist)

lemma nap_rec_act:
  assumes "(sleep_steps 0 0 ChTicks Lticks ! k) st = Ok s" "k < 4"
  shows "nap_step 0 0 ChTicks Lticks (nap_rec st c (Acting k) w) (nap_rec s c (Acting (Suc k)) w)"
  using s_act [of "nap_rec st c (Acting k) w" k 0 0 ChTicks Lticks s] assms by (simp add: nap_rec_def)

lemma nap_rec_wake:
  assumes "(wakeup_steps 1 0 (Some ChTicks) ! k) st = Ok s" "k < 3" "cproc (cpus st 1) = None"
  shows "nap_step 0 0 ChTicks Lticks (nap_rec st c q (WScan 0 k)) (nap_rec s c q (WScan 0 (Suc k)))"
  using w_act [of 1 0 "nap_rec st c q (WScan 0 k)" 0 k ChTicks s 0 Lticks] assms by (simp add: nap_rec_def)

definition nap0 :: sstate where
  "nap0 = nap_state (init_proc\<lparr>pstate := RUNNING\<rparr>) (Some 0) None \<lparr>cproc = Some 0, noff = 1, intena = True, sie = False\<rparr>
     \<lparr>cproc = None, noff = 0, intena = False, sie = True\<rparr>"

theorem sleep_wakeup_witness:
  "\<exists>r. (nap_step 0 0 ChTicks Lticks)\<^sup>*\<^sup>* \<lparr>kst = nap0, cond = False, sl = Testing, wk = \<lambda>_. WIdle\<rparr> r \<and>
    sl r = Asleep True \<and> cond r \<and> wk r 1 = WScan 0 2 \<and> pstate (procs (kst r) ! 0) = RUNNABLE"
proof -
  let ?N = "nap_step 0 0 ChTicks Lticks" and ?w0 = "\<lparr>cproc = None, noff = 0, intena = False, sie = True\<rparr>"
  let ?c1 = "\<lparr>cproc = Some 0, noff = 1, intena = True, sie = False\<rparr>" and ?c2 = "\<lparr>cproc = Some 0, noff = 2, intena = True, sie = False\<rparr>"
  let ?w1 = "\<lparr>cproc = None, noff = 1, intena = True, sie = False\<rparr>" and ?w2 = "\<lparr>cproc = None, noff = 2, intena = True, sie = False\<rparr>"
  let ?c0 = "\<lparr>cproc = None, noff = 0, intena = True, sie = True\<rparr>" and ?q0 = "init_proc\<lparr>pstate := RUNNING\<rparr>"
  let ?q1 = "?q0\<lparr>pchan := Some ChTicks\<rparr>" and ?q2 = "?q0\<lparr>pchan := Some ChTicks, pstate := SLEEPING\<rparr>"
    and ?q3 = "?q0\<lparr>pchan := Some ChTicks, pstate := RUNNABLE\<rparr>"
  have cpu: "push_off ?c1 = ?c2" "pop_off ?c2 = Ok ?c1" "push_off ?w0 = ?w1" "push_off ?w1 = ?w2"
    "pop_off (?c1\<lparr>cproc := None\<rparr>) = Ok ?c0"
    by (simp_all add: pop_off_def push_off_def intr_defs)
  have 1: "?N (nap_rec nap0 False Testing WIdle) (nap_rec nap0 False (Acting 0) WIdle)"
    using s_test [of "nap_rec nap0 False Testing WIdle"] by (simp add: nap_rec_def)
  have 2: "?N (nap_rec nap0 False (Acting 0) WIdle) (nap_rec (nap_state ?q0 (Some 0) (Some 0) ?c2 ?w0) False (Acting 1) WIdle)"
    using nap_rec_act [of 0 nap0] by (simp add: sleep_steps_def nap0_def cpu)
  have 3: "?N (nap_rec (nap_state ?q0 (Some 0) (Some 0) ?c2 ?w0) False (Acting 1) WIdle)
      (nap_rec (nap_state ?q0 None (Some 0) ?c1 ?w0) False (Acting 2) WIdle)"
    using nap_rec_act [of 1 "nap_state ?q0 (Some 0) (Some 0) ?c2 ?w0"] by (simp add: sleep_steps_def cpu numeral_2_eq_2)
  have 4: "?N (nap_rec (nap_state ?q0 None (Some 0) ?c1 ?w0) False (Acting 2) WIdle)
      (nap_rec (nap_state ?q1 None (Some 0) ?c1 ?w0) False (Acting 3) WIdle)"
    using nap_rec_act [of 2 "nap_state ?q0 None (Some 0) ?c1 ?w0"] by (simp add: sleep_steps_def)
  have 5: "?N (nap_rec (nap_state ?q1 None (Some 0) ?c1 ?w0) False (Acting 3) WIdle)
      (nap_rec (nap_state ?q2 None (Some 0) ?c1 ?w0) False (Acting 4) WIdle)"
    using nap_rec_act [of 3 "nap_state ?q1 None (Some 0) ?c1 ?w0"] by (simp add: sleep_steps_def)
  let ?s = "nap_state ?q2 None (Some 0) ?c1 ?w0"
  have "sched 0 ?s = Ok (True, ?s)"
    by (simp add: sched_def myproc_ok mycpu_def cpu_ok_def) (simp add: nap_state_def lk_by_def holding_def intr_defs)
  then have 6: "?N (nap_rec ?s False (Acting 4) WIdle) (nap_rec ?s False (Switched True) WIdle)"
    using s_switch [of "nap_rec ?s False (Acting 4) WIdle" 0 0 ChTicks Lticks True ?s] by (simp add: nap_rec_def)
  have 7: "?N (nap_rec ?s False (Switched True) WIdle) (nap_rec (nap_state ?q2 None None ?c0 ?w0) False (Asleep True) WIdle)"
    using s_off [of "nap_rec ?s False (Switched True) WIdle" True 0 0] cpu(5) by (simp add: nap_rec_def scheduler_return_def)
  have 8: "?N (nap_rec (nap_state ?q2 None None ?c0 ?w0) False (Asleep True) WIdle)
      (nap_rec (nap_state ?q2 (Some 1) None ?c0 ?w1) False (Asleep True) WLocked)"
    using w_lock [of 1 0 "nap_rec (nap_state ?q2 None None ?c0 ?w0) False (Asleep True) WIdle" Lticks] by (simp add: nap_rec_def cpu)
  have 9: "?N (nap_rec (nap_state ?q2 (Some 1) None ?c0 ?w1) False (Asleep True) WLocked)
      (nap_rec (nap_state ?q2 (Some 1) None ?c0 ?w1) True (Asleep True) (WScan 0 0))"
    using w_set [of 1 0 "nap_rec (nap_state ?q2 (Some 1) None ?c0 ?w1) False (Asleep True) WLocked"] by (simp add: nap_rec_def)
  have 10: "?N (nap_rec (nap_state ?q2 (Some 1) None ?c0 ?w1) True (Asleep True) (WScan 0 0))
      (nap_rec (nap_state ?q2 (Some 1) (Some 1) ?c0 ?w2) True (Asleep True) (WScan 0 1))"
    using nap_rec_wake [of 0 "nap_state ?q2 (Some 1) None ?c0 ?w1"] by (simp add: wakeup_steps_def cpu)
  let ?r = "nap_rec (nap_state ?q3 (Some 1) (Some 1) ?c0 ?w2) True (Asleep True) (WScan 0 2)"
  have 11: "?N (nap_rec (nap_state ?q2 (Some 1) (Some 1) ?c0 ?w2) True (Asleep True) (WScan 0 1)) ?r"
    using nap_rec_wake [of 1 "nap_state ?q2 (Some 1) (Some 1) ?c0 ?w2"] by (simp add: wakeup_steps_def numeral_2_eq_2)
  have "?N\<^sup>*\<^sup>* (nap_rec nap0 False Testing WIdle) ?r"
    by (rule converse_rtranclp_into_rtranclp, rule 1 2 3 4 5 6 7 8 9 10 11)+ (rule rtranclp.rtrancl_refl)
  then have run: "?N\<^sup>*\<^sup>* \<lparr>kst = nap0, cond = False, sl = Testing, wk = \<lambda>_. WIdle\<rparr> ?r"
    by (simp add: nap_rec_def fun_upd_idem)
  have hyps: "table_ok nap0" "cproc (cpus nap0 0) = Some 0" "0 < NPROC" "noff (cpus nap0 0) = 1" "cpu_ok (cpus nap0 0)"
    "holding 0 (locks nap0 Lticks)" "\<forall>i. Lticks \<noteq> Lproc i" "0 \<noteq> (1::nat)" "cpu_ok (cpus nap0 1)" "\<forall>x. x \<noteq> 0 \<longrightarrow> cproc (cpus nap0 x) \<noteq> Some 0"
    by (auto simp: nap0_def nap_state_def table_ok_def lock_free_def lk_by_def holding_def cpu_ok_def)
  have "sl ?r = Asleep True \<and> cond ?r" by (simp add: nap_rec_def)
  with sleep_wakeup [OF hyps, of ChTicks False, THEN conjunct2, THEN spec, THEN spec, THEN mp, OF run, THEN conjunct1, of True]
  have "pstate (procs (kst ?r) ! 0) = RUNNABLE \<or> (\<exists>x i k. x \<noteq> 0 \<and> wk ?r x = WScan i k \<and> (i < 0 \<or> i = 0 \<and> k \<le> 1))"
    by blast
  then have "pstate (procs (kst ?r) ! 0) = RUNNABLE" by (auto simp: nap_rec_def split: if_splits)
  then show ?thesis using run by (intro exI [of _ ?r]) (simp add: nap_rec_def)
qed

end
