(* ===== verification/Sleeplock.thy ===== *)
theory Sleeplock
  imports Prelude
begin

text \<open>
  Long-term locks, \<open>kernel/sleeplock.c\<close>. The spin lock inside a sleep lock makes each
  passage between two calls of \<open>sleep\<close> one step (theory \<open>Sched\<close> shows that no wakeup
  gets lost between the test and the sleep); a call that would sleep is the fault
  \<open>Waits\<close>. The step relation at the end describes any number of processes on one lock.
\<close>

record sleeplock =
  slocked :: bool
  slname :: string
  slpid :: int

definition initsleeplock :: "string \<Rightarrow> sleeplock" where
  "initsleeplock name = \<lparr>slocked = False, slname = name, slpid = 0\<rparr>"

text \<open>\<open>p\<close> is the pid of the calling process.\<close>

definition acquiresleep :: "int \<Rightarrow> sleeplock \<Rightarrow> sleeplock res" where
  "acquiresleep p lk =
     (if slocked lk then Err (Waits ''acquiresleep'') else Ok (lk\<lparr>slocked := True, slpid := p\<rparr>))"

definition releasesleep :: "sleeplock \<Rightarrow> sleeplock" where
  "releasesleep lk = lk\<lparr>slocked := False, slpid := 0\<rparr>"

definition holdingsleep :: "int \<Rightarrow> sleeplock \<Rightarrow> bool" where
  "holdingsleep p lk \<longleftrightarrow> slocked lk \<and> slpid lk = p"

lemma acquire_releasesleep [simp]:
  "acquiresleep p (releasesleep lk) = Ok (lk\<lparr>slocked := True, slpid := p\<rparr>)"
  by (cases lk) (simp add: acquiresleep_def releasesleep_def)

subsection \<open>Many processes\<close>

datatype slpc = SlOutside | SlTrying | SlAsleep | SlInside

record slstate =
  sl :: sleeplock
  slpcs :: "int \<Rightarrow> slpc"

text \<open>\<open>releasesleep\<close> wakes all sleepers; each goes back to the test of the loop.\<close>

inductive sleeplock_step :: "slstate \<Rightarrow> slstate \<Rightarrow> bool" where
  enter: "slpcs s p = SlOutside \<Longrightarrow> sleeplock_step s (s\<lparr>slpcs := (slpcs s)(p := SlTrying)\<rparr>)"
| obtain_lock: "slpcs s p = SlTrying \<Longrightarrow> acquiresleep p (sl s) = Ok l \<Longrightarrow>
    sleeplock_step s (s\<lparr>sl := l, slpcs := (slpcs s)(p := SlInside)\<rparr>)"
| sleep: "slpcs s p = SlTrying \<Longrightarrow> acquiresleep p (sl s) = Err (Waits w) \<Longrightarrow>
    sleeplock_step s (s\<lparr>slpcs := (slpcs s)(p := SlAsleep)\<rparr>)"
| leave: "slpcs s p = SlInside \<Longrightarrow>
    sleeplock_step s (s\<lparr>sl := releasesleep (sl s),
      slpcs := (\<lambda>q. if slpcs s q = SlAsleep then SlTrying else if q = p then SlOutside else slpcs s q)\<rparr>)"

definition sleeplock_init :: slstate where
  "sleeplock_init = \<lparr>sl = initsleeplock [], slpcs = (\<lambda>_. SlOutside)\<rparr>"

definition sleeplock_inv :: "slstate \<Rightarrow> bool" where
  "sleeplock_inv s \<longleftrightarrow>
     (\<forall>p. slpcs s p = SlInside \<longleftrightarrow> holdingsleep p (sl s)) \<and>
     (\<not> slocked (sl s) \<longrightarrow> (\<forall>p. slpcs s p \<noteq> SlAsleep))"

lemma sleeplock_inv_step: "sleeplock_step s s' \<Longrightarrow> sleeplock_inv s \<Longrightarrow> sleeplock_inv s'"
proof (induction rule: sleeplock_step.induct)
  case (obtain_lock s p l)
  then show ?case
    by (auto simp: sleeplock_inv_def acquiresleep_def holdingsleep_def split: if_splits)
next
  case (sleep s p w)
  then have "slocked (sl s)" by (simp add: acquiresleep_def split: if_splits)
  moreover have "\<not> holdingsleep p (sl s)"
    using sleep by (metis sleeplock_inv_def slpc.distinct(9))
  ultimately show ?case using sleep.prems by (simp add: sleeplock_inv_def)
next
  case (leave s p)
  then have "slpcs s q = SlInside \<longleftrightarrow> q = p" for q
    by (auto simp: sleeplock_inv_def holdingsleep_def)
  then show ?case
    by (auto simp: sleeplock_inv_def releasesleep_def holdingsleep_def)
next
  case (enter s p)
  then have "\<not> holdingsleep p (sl s)" by (metis sleeplock_inv_def slpc.distinct(5))
  with enter.prems show ?case by (simp add: sleeplock_inv_def)
qed

lemma sleeplock_reachable_inv: "sleeplock_step\<^sup>*\<^sup>* sleeplock_init s \<Longrightarrow> sleeplock_inv s"
proof (induction rule: rtranclp_induct)
  case base
  show ?case by (simp add: sleeplock_init_def sleeplock_inv_def initsleeplock_def holdingsleep_def)
qed (rule sleeplock_inv_step)

text \<open>
  C17: Sleep locks, for any number of processes in any interleaving: at most one process is
  inside, \<open>holdingsleep\<close> is true of exactly that process, and whenever a process is asleep
  on the lock another one is inside, whose \<open>releasesleep\<close> will wake it: no process sleeps on
  a free lock.
\<close>

theorem sleeplock_exclusive_no_lost_wakeup:
  assumes "sleeplock_step\<^sup>*\<^sup>* sleeplock_init s"
  shows "(slpcs s p = SlInside \<and> slpcs s q = SlInside \<longrightarrow> p = q) \<and>
    (slpcs s p = SlInside \<longleftrightarrow> holdingsleep p (sl s)) \<and>
    (slpcs s p = SlAsleep \<longrightarrow> (\<exists>q s'. slpcs s q = SlInside \<and> sleeplock_step s s' \<and>
       slpcs s' q = SlOutside \<and> slpcs s' p = SlTrying))"
proof -
  have inv: "sleeplock_inv s" using sleeplock_reachable_inv [OF assms] .
  have "\<exists>q s'. slpcs s q = SlInside \<and> sleeplock_step s s' \<and> slpcs s' q = SlOutside \<and> slpcs s' p = SlTrying"
    if "slpcs s p = SlAsleep"
  proof -
    from inv that have "slpcs s (slpid (sl s)) = SlInside"
      by (auto simp: sleeplock_inv_def holdingsleep_def)
    from sleeplock_step.leave [of s, OF this] this that show ?thesis by fastforce
  qed
  with inv show ?thesis by (auto simp: sleeplock_inv_def holdingsleep_def)
qed

theorem sleeplock_exclusive_no_lost_wakeup_witness:
  "\<exists>s. sleeplock_step\<^sup>*\<^sup>* sleeplock_init s \<and> slpcs s 1 = SlInside \<and> holdingsleep 1 (sl s)"
proof -
  let ?a = "sleeplock_init\<lparr>slpcs := (slpcs sleeplock_init)(1 := SlTrying)\<rparr>"
  let ?l = "(sl sleeplock_init)\<lparr>slocked := True, slpid := 1\<rparr>"
  let ?b = "?a\<lparr>sl := ?l, slpcs := (slpcs ?a)(1 := SlInside)\<rparr>"
  have "sleeplock_step sleeplock_init ?a"
    by (rule sleeplock_step.enter) (simp add: sleeplock_init_def)
  moreover have "sleeplock_step ?a ?b"
    by (rule sleeplock_step.obtain_lock)
      (simp_all add: sleeplock_init_def acquiresleep_def initsleeplock_def)
  ultimately have r: "sleeplock_step\<^sup>*\<^sup>* sleeplock_init ?b" by (meson converse_rtranclp_into_rtranclp rtranclp.rtrancl_refl)
  have "slpcs ?b 1 = SlInside" by simp
  with r sleeplock_exclusive_no_lost_wakeup [OF r, of 1 1] show ?thesis by blast
qed

end
