(* ===== verification/Bio.thy ===== *)
theory Bio
  imports Sleeplock
begin

text \<open>
  The buffer cache, \<open>kernel/bio.c\<close>, on a disk of blocks.

  Buffers are numbered 0 to 29 and the list head is number 30; \<open>next\<close> and \<open>prev\<close> are
  such numbers, so that the doubly linked list is the pointer structure of the source. A block
  is a function from byte offsets; only offsets below 1024 are ever used. \<open>disk_rw\<close> is
  the contract of the disk driver (\<open>virtio_disk_rw\<close>): a block is read or written as a whole. The field
  \<open>writes\<close> records the writes in their order; no operation reads it, and the crash
  properties of theory \<open>Log\<close> are stated over its prefixes.

  The spin lock \<open>bcache.lock\<close> guards this state only, so its critical sections are single
  steps here. The first argument of an operation that takes or tests a sleep lock is the pid
  of the caller.
\<close>

subsection \<open>Blocks\<close>

type_synonym block = "nat \<Rightarrow> u8"

abbreviation BSIZE :: nat where "BSIZE \<equiv> 1024"
abbreviation NBUF :: nat where "NBUF \<equiv> 30"
abbreviation (input) ROOTDEV :: u32 where "ROOTDEV \<equiv> 1"

text \<open>Little-endian fields of a block.\<close>

definition get16 :: "block \<Rightarrow> nat \<Rightarrow> u16" where
  "get16 b i = word_cat (b (i + 1)) (b i)"

definition put16 :: "block \<Rightarrow> nat \<Rightarrow> u16 \<Rightarrow> block" where
  "put16 b i v = b(i := ucast v, i + 1 := ucast (drop_bit 8 v))"

definition get32 :: "block \<Rightarrow> nat \<Rightarrow> u32" where
  "get32 b i = word_cat (get16 b (i + 2)) (get16 b i)"

definition put32 :: "block \<Rightarrow> nat \<Rightarrow> u32 \<Rightarrow> block" where
  "put32 b i v = put16 (put16 b i (ucast v)) (i + 2) (ucast (drop_bit 16 v))"

lemma word_cat_split16: "word_cat (ucast (drop_bit 8 v) :: u8) (ucast v :: u8) = (v :: u16)"
  by (rule bit_word_eqI) (auto simp: bit_word_cat_iff bit_simps)

lemma word_cat_split32: "word_cat (ucast (drop_bit 16 v) :: u16) (ucast v :: u16) = (v :: u32)"
  by (rule bit_word_eqI) (auto simp: bit_word_cat_iff bit_simps)

lemma get16_put16 [simp]: "get16 (put16 b i v) i = v"
  by (simp add: get16_def put16_def word_cat_split16)

lemma get16_put16_other [simp]: "i + 2 \<le> j \<or> j + 2 \<le> i \<Longrightarrow> get16 (put16 b j v) i = get16 b i"
  by (auto simp: get16_def put16_def)

lemma get32_put32 [simp]: "get32 (put32 b i v) i = v"
  by (simp add: get32_def put32_def word_cat_split32)

lemma get32_put32_other [simp]: "i + 4 \<le> j \<or> j + 4 \<le> i \<Longrightarrow> get32 (put32 b j v) i = get32 b i"
  by (auto simp: get32_def put32_def)

lemma put16_other: "j < i \<or> i + 2 \<le> j \<Longrightarrow> put16 b i v j = b j"
  by (auto simp: put16_def)

lemma put32_other: "j < i \<or> i + 4 \<le> j \<Longrightarrow> put32 b i v j = b j"
  by (auto simp: put32_def put16_def)

subsection \<open>State\<close>

record buf =
  valid :: bool
  bdev :: u32
  blockno :: u32
  block_lock :: sleeplock
  refcnt :: u32
  bprev :: nat
  bnext :: nat
  bdata :: block

record bstate =
  bufs :: "nat \<Rightarrow> buf"
  disk :: "u32 \<Rightarrow> block"
  writes :: "(u32 \<times> block) list"

abbreviation bhead :: nat where "bhead \<equiv> NBUF"

definition upd_buf :: "nat \<Rightarrow> (buf \<Rightarrow> buf) \<Rightarrow> 'a bstate_scheme \<Rightarrow> 'a bstate_scheme" where
  "upd_buf b f st = st\<lparr>bufs := (bufs st)(b := f (bufs st b))\<rparr>"

text \<open>The contract of the driver: \<open>virtio_disk.c\<close> takes only \<open>b->blockno\<close> and
  \<open>b->data\<close> from the buffer.\<close>

definition disk_rw :: "nat \<Rightarrow> bool \<Rightarrow> 'a bstate_scheme \<Rightarrow> 'a bstate_scheme" where
  "disk_rw b wr st =
     (let n = blockno (bufs st b) in
      if wr then st\<lparr>disk := (disk st)(n := bdata (bufs st b)), writes := writes st @ [(n, bdata (bufs st b))]\<rparr>
      else upd_buf b (\<lambda>x. x\<lparr>bdata := disk st n\<rparr>) st)"

subsection \<open>Operations\<close>

text \<open>The body of the loop of \<open>binit\<close>: \<open>b\<close> goes to the front of the list.\<close>

definition link_front :: "nat \<Rightarrow> 'a bstate_scheme \<Rightarrow> 'a bstate_scheme" where
  "link_front b st =
     (let st = upd_buf b (\<lambda>x. x\<lparr>bnext := bnext (bufs st bhead)\<rparr>) st;
          st = upd_buf b (\<lambda>x. x\<lparr>bprev := bhead\<rparr>) st;
          st = upd_buf (bnext (bufs st bhead)) (\<lambda>x. x\<lparr>bprev := b\<rparr>) st
      in upd_buf bhead (\<lambda>x. x\<lparr>bnext := b\<rparr>) st)"

definition binit :: "'a bstate_scheme \<Rightarrow> 'a bstate_scheme" where
  "binit st =
     (let st = upd_buf bhead (\<lambda>x. x\<lparr>bprev := bhead\<rparr>) st;
          st = upd_buf bhead (\<lambda>x. x\<lparr>bnext := bhead\<rparr>) st
      in fold (\<lambda>b st. link_front b (upd_buf b (\<lambda>x. x\<lparr>block_lock := initsleeplock ''buffer''\<rparr>) st)) [0..<NBUF] st)"

text \<open>The two walks of \<open>bget\<close>: forwards for the block, backwards for an unused buffer.
  The first argument bounds the walk; \<open>bget_fuel\<close> is enough for every list that
  \<open>binit\<close> and \<open>brelse\<close> build.\<close>

definition bget_fuel :: nat where "bget_fuel = NBUF + 1"

fun find_cached :: "nat \<Rightarrow> u32 \<Rightarrow> u32 \<Rightarrow> nat \<Rightarrow> 'a bstate_scheme \<Rightarrow> nat option res" where
  "find_cached 0 dev n b st = Err (Waits ''bget: loop'')"
| "find_cached (Suc k) dev n b st =
     (if b = bhead then Ok None
      else if bdev (bufs st b) = dev \<and> blockno (bufs st b) = n then Ok (Some b)
      else find_cached k dev n (bnext (bufs st b)) st)"

fun find_unused :: "nat \<Rightarrow> nat \<Rightarrow> 'a bstate_scheme \<Rightarrow> nat option res" where
  "find_unused 0 b st = Err (Waits ''bget: loop'')"
| "find_unused (Suc k) b st =
     (if b = bhead then Ok None
      else if refcnt (bufs st b) = 0 then Ok (Some b)
      else find_unused k (bprev (bufs st b)) st)"

definition lock_buf :: "int \<Rightarrow> nat \<Rightarrow> 'a bstate_scheme \<Rightarrow> (nat \<times> 'a bstate_scheme) res" where
  "lock_buf p b st =
     bnd (acquiresleep p (block_lock (bufs st b))) (\<lambda>l. Ok (b, upd_buf b (\<lambda>x. x\<lparr>block_lock := l\<rparr>) st))"

definition bget :: "int \<Rightarrow> u32 \<Rightarrow> u32 \<Rightarrow> 'a bstate_scheme \<Rightarrow> (nat \<times> 'a bstate_scheme) res" where
  "bget p dev n st =
     bnd (find_cached bget_fuel dev n (bnext (bufs st bhead)) st) (\<lambda>c.
       case c of
         Some b \<Rightarrow> lock_buf p b (upd_buf b (\<lambda>x. x\<lparr>refcnt := refcnt x + 1\<rparr>) st)
       | None \<Rightarrow>
           bnd (find_unused bget_fuel (bprev (bufs st bhead)) st) (\<lambda>u.
             case u of
               Some b \<Rightarrow> lock_buf p b (upd_buf b (\<lambda>x. x\<lparr>bdev := dev, blockno := n, valid := False, refcnt := 1\<rparr>) st)
             | None \<Rightarrow> Err (Panic ''bget: no buffers'')))"

definition bread :: "int \<Rightarrow> u32 \<Rightarrow> u32 \<Rightarrow> 'a bstate_scheme \<Rightarrow> (nat \<times> 'a bstate_scheme) res" where
  "bread p dev n st =
     bnd (bget p dev n st) (\<lambda>(b, st).
       if \<not> valid (bufs st b) then
         Ok (b, upd_buf b (\<lambda>x. x\<lparr>valid := True\<rparr>) (disk_rw b False st))
       else Ok (b, st))"

definition bwrite :: "int \<Rightarrow> nat \<Rightarrow> 'a bstate_scheme \<Rightarrow> 'a bstate_scheme res" where
  "bwrite p b st =
     (if \<not> holdingsleep p (block_lock (bufs st b)) then Err (Panic ''bwrite'')
      else Ok (disk_rw b True st))"

text \<open>Unlinking, and moving to the front: the six assignments of \<open>brelse\<close>.\<close>

definition unlink_buf :: "nat \<Rightarrow> 'a bstate_scheme \<Rightarrow> 'a bstate_scheme" where
  "unlink_buf b st =
     (let st = upd_buf (bnext (bufs st b)) (\<lambda>x. x\<lparr>bprev := bprev (bufs st b)\<rparr>) st
      in upd_buf (bprev (bufs st b)) (\<lambda>x. x\<lparr>bnext := bnext (bufs st b)\<rparr>) st)"

definition brelse :: "int \<Rightarrow> nat \<Rightarrow> 'a bstate_scheme \<Rightarrow> 'a bstate_scheme res" where
  "brelse p b st =
     (if \<not> holdingsleep p (block_lock (bufs st b)) then Err (Panic ''brelse'')
      else
        let st = upd_buf b (\<lambda>x. x\<lparr>block_lock := releasesleep (block_lock x)\<rparr>) st;
            st = upd_buf b (\<lambda>x. x\<lparr>refcnt := refcnt x - 1\<rparr>) st
        in Ok (if refcnt (bufs st b) = 0 then link_front b (unlink_buf b st) else st))"

definition bpin :: "nat \<Rightarrow> 'a bstate_scheme \<Rightarrow> 'a bstate_scheme" where
  "bpin b st = upd_buf b (\<lambda>x. x\<lparr>refcnt := refcnt x + 1\<rparr>) st"

definition bunpin :: "nat \<Rightarrow> 'a bstate_scheme \<Rightarrow> 'a bstate_scheme" where
  "bunpin b st = upd_buf b (\<lambda>x. x\<lparr>refcnt := refcnt x - 1\<rparr>) st"

subsection \<open>The doubly linked list\<close>

text \<open>\<open>seg nx pv a xs z\<close>: following \<open>nx\<close> from \<open>a\<close> visits \<open>xs\<close> and ends in \<open>z\<close>,
  and \<open>pv\<close> leads back.\<close>

fun seg :: "(nat \<Rightarrow> nat) \<Rightarrow> (nat \<Rightarrow> nat) \<Rightarrow> nat \<Rightarrow> nat list \<Rightarrow> nat \<Rightarrow> bool" where
  "seg nx pv a [] z \<longleftrightarrow> nx a = z \<and> pv z = a"
| "seg nx pv a (x # xs) z \<longleftrightarrow> nx a = x \<and> pv x = a \<and> seg nx pv x xs z"

lemma seg_append: "seg nx pv a (ys @ b # zs) z \<longleftrightarrow> seg nx pv a ys b \<and> seg nx pv b zs z"
  by (induction ys arbitrary: a) auto

lemma seg_cong:
  "(\<And>i. i \<in> set (a # xs) \<Longrightarrow> nx i = nx' i) \<Longrightarrow> (\<And>i. i \<in> set (xs @ [z]) \<Longrightarrow> pv i = pv' i) \<Longrightarrow>
    seg nx pv a xs z = seg nx' pv' a xs z"
  by (induction xs arbitrary: a) auto

lemma seg_ends: "seg nx pv a xs z \<Longrightarrow> nx a = hd (xs @ [z]) \<and> pv z = last (a # xs)"
  by (induction xs arbitrary: a) auto

lemma seg_join:
  assumes "seg nx pv a ys b" "seg nx pv b zs z" "distinct (a # ys @ b # zs)" "z \<notin> set (ys @ b # zs)"
  shows "seg (nx(last (a # ys) := hd (zs @ [z]))) (pv(hd (zs @ [z]) := last (a # ys))) a (ys @ zs) z"
  using assms
proof (induction ys arbitrary: a)
  case Nil
  show ?case
  proof (cases zs)
    case (Cons c cs)
    have "seg (nx(a := c)) (pv(c := a)) c cs z = seg nx pv c cs z"
      using Nil Cons by (intro seg_cong) auto
    with Nil Cons show ?thesis by (simp add: fun_upd_same del: fun_upd_apply)
  qed simp
next
  case (Cons y ys)
  have "y \<noteq> hd (zs @ [z])" using Cons.prems by (cases zs) auto
  moreover have "a \<noteq> last (y # ys)" using Cons.prems(3) by (metis Un_iff distinct.simps(2) last_in_set list.distinct(1) set_append append_Cons)
  ultimately show ?case using Cons by auto
qed

definition bnx :: "'a bstate_scheme \<Rightarrow> nat \<Rightarrow> nat" where
  "bnx st i = bnext (bufs st i)"

definition bpv :: "'a bstate_scheme \<Rightarrow> nat \<Rightarrow> nat" where
  "bpv st i = bprev (bufs st i)"

text \<open>The buffers from most to least recently used.\<close>

definition lru :: "'a bstate_scheme \<Rightarrow> nat list \<Rightarrow> bool" where
  "lru st xs \<longleftrightarrow> seg (bnx st) (bpv st) bhead xs bhead \<and> distinct (bhead # xs)"

text \<open>States that differ in links only.\<close>

definition same_buf :: "buf \<Rightarrow> buf \<Rightarrow> bool" where
  "same_buf x y \<longleftrightarrow> valid y = valid x \<and> bdev y = bdev x \<and> blockno y = blockno x \<and>
     block_lock y = block_lock x \<and> refcnt y = refcnt x \<and> bdata y = bdata x"

definition same_data :: "'a bstate_scheme \<Rightarrow> 'a bstate_scheme \<Rightarrow> bool" where
  "same_data st st' \<longleftrightarrow> (\<forall>i. same_buf (bufs st i) (bufs st' i)) \<and>
     disk st' = disk st \<and> writes st' = writes st \<and> bstate.more st' = bstate.more st"

lemma same_data_fields:
  assumes "same_data st st'"
  shows "valid (bufs st' i) = valid (bufs st i)" "bdev (bufs st' i) = bdev (bufs st i)"
    "blockno (bufs st' i) = blockno (bufs st i)" "block_lock (bufs st' i) = block_lock (bufs st i)"
    "refcnt (bufs st' i) = refcnt (bufs st i)" "bdata (bufs st' i) = bdata (bufs st i)"
    "disk st' = disk st" "writes st' = writes st" "bstate.more st' = bstate.more st"
  using assms by (simp_all add: same_data_def same_buf_def)

lemma same_data_link: "same_data st (upd_buf b (\<lambda>x. x\<lparr>bnext := v\<rparr>) st)" "same_data st (upd_buf b (\<lambda>x. x\<lparr>bprev := v\<rparr>) st)"
  by (simp_all add: same_data_def same_buf_def upd_buf_def)

lemma same_data_trans [trans]: "same_data a b \<Longrightarrow> same_data b c \<Longrightarrow> same_data a c"
  by (simp add: same_data_def same_buf_def)

lemma bnx_upd: "bnx (upd_buf b (\<lambda>x. x\<lparr>bnext := v\<rparr>) st) = (bnx st)(b := v)" "bnx (upd_buf b (\<lambda>x. x\<lparr>bprev := v\<rparr>) st) = bnx st"
  "bpv (upd_buf b (\<lambda>x. x\<lparr>bprev := v\<rparr>) st) = (bpv st)(b := v)" "bpv (upd_buf b (\<lambda>x. x\<lparr>bnext := v\<rparr>) st) = bpv st"
  by (auto simp: bnx_def bpv_def upd_buf_def)

lemma link_front_eq:
  "link_front b st = (let v = bnx (upd_buf b (\<lambda>x. x\<lparr>bnext := bnx st bhead\<rparr>) st) bhead in
    upd_buf bhead (\<lambda>x. x\<lparr>bnext := b\<rparr>) (upd_buf v (\<lambda>x. x\<lparr>bprev := b\<rparr>)
      (upd_buf b (\<lambda>x. x\<lparr>bprev := bhead\<rparr>) (upd_buf b (\<lambda>x. x\<lparr>bnext := bnx st bhead\<rparr>) st))))"
  by (simp add: link_front_def Let_def bnx_def upd_buf_def)

lemma link_front_same: "same_data st (link_front b st)"
  unfolding link_front_eq Let_def by (intro same_data_trans [OF _ same_data_link(1)] same_data_trans [OF _ same_data_link(2)] same_data_link)

lemma unlink_buf_same: "same_data st (unlink_buf b st)"
  unfolding unlink_buf_def Let_def by (intro same_data_trans [OF _ same_data_link(1)] same_data_link(2))

lemma lru_link_front:
  assumes "lru st xs" "b \<notin> set xs" "b \<noteq> bhead"
  shows "lru (link_front b st) (b # xs)"
proof -
  define h where "h = hd (xs @ [bhead])"
  have s: "seg (bnx st) (bpv st) bhead xs bhead" "distinct (bhead # xs)" using assms(1) by (simp_all add: lru_def)
  have h: "bnx st bhead = h" using seg_ends [OF s(1)] by (simp add: h_def)
  have nx: "bnx (link_front b st) = (bnx st)(b := h, bhead := b)"
    and pv: "bpv (link_front b st) = (bpv st)(b := bhead, h := b)"
    using assms(3) h by (simp_all add: link_front_eq Let_def bnx_upd)
  have hb: "h \<noteq> b" using assms(2,3) by (cases xs) (auto simp: h_def)
  have "seg ((bnx st)(b := h, bhead := b)) ((bpv st)(b := bhead, h := b)) b xs bhead"
  proof (cases xs)
    case (Cons c cs)
    have "seg ((bnx st)(b := h, bhead := b)) ((bpv st)(b := bhead, h := b)) c cs bhead = seg (bnx st) (bpv st) c cs bhead"
      using assms(2,3) s(2) Cons by (intro seg_cong) (auto simp: h_def)
    with s Cons assms(2,3) show ?thesis by (auto simp: h_def)
  qed (use assms(3) in \<open>simp add: h_def\<close>)
  with hb s(2) assms(2,3) show ?thesis by (auto simp: lru_def nx pv)
qed

lemma lru_unlink:
  assumes "lru st (ys @ b # zs)"
  shows "lru (unlink_buf b st) (ys @ zs)"
proof -
  let ?p = "last (bhead # ys)" and ?q = "hd (zs @ [bhead])"
  have s: "seg (bnx st) (bpv st) bhead ys b" "seg (bnx st) (bpv st) b zs bhead" "distinct (bhead # ys @ b # zs)"
    using assms by (simp_all add: lru_def seg_append)
  have p: "bpv st b = ?p" "bnx st b = ?q" using seg_ends [OF s(1)] seg_ends [OF s(2)] by simp_all
  have "?q \<noteq> b" using s(3) by (cases zs) auto
  then have "bnx (unlink_buf b st) = (bnx st)(?p := ?q)" "bpv (unlink_buf b st) = (bpv st)(?q := ?p)"
    using p by (simp_all add: unlink_buf_def Let_def bnx_upd) (simp_all add: bnx_def bpv_def upd_buf_def)
  with seg_join [OF s] s(3) show ?thesis by (simp add: lru_def)
qed

lemma find_cached_walk:
  "seg (bnx st) (bpv st) a xs bhead \<Longrightarrow> bhead \<notin> set xs \<Longrightarrow> length xs < k \<Longrightarrow>
    find_cached k dev n (bnx st a) st = Ok (find (\<lambda>b. bdev (bufs st b) = dev \<and> blockno (bufs st b) = n) xs)"
proof (induction xs arbitrary: a k)
  case Nil
  then show ?case by (cases k) auto
next
  case (Cons x xs)
  then obtain j where j: "k = Suc j" by (cases k) auto
  have "find_cached j dev n (bnx st x) st = Ok (find (\<lambda>b. bdev (bufs st b) = dev \<and> blockno (bufs st b) = n) xs)"
    using Cons j by simp
  then show ?case using Cons.prems j by (auto simp: bnx_def)
qed

lemma find_unused_walk:
  "seg (bnx st) (bpv st) bhead xs z \<Longrightarrow> bhead \<notin> set xs \<Longrightarrow> length xs < k \<Longrightarrow>
    find_unused k (bpv st z) st = Ok (find (\<lambda>b. refcnt (bufs st b) = 0) (rev xs))"
proof (induction xs arbitrary: z k rule: rev_induct)
  case Nil
  then show ?case by (cases k) auto
next
  case (snoc x xs)
  then obtain j where j: "k = Suc j" by (cases k) auto
  have s: "seg (bnx st) (bpv st) bhead xs x" "bpv st z = x"
    using snoc.prems(1) seg_append [of "bnx st" "bpv st" bhead xs x "[]" z] by simp_all
  have "find_unused j (bpv st x) st = Ok (find (\<lambda>b. refcnt (bufs st b) = 0) (rev xs))"
    using snoc j s(1) by simp
  then show ?case using snoc.prems j s(2) by (auto simp: bpv_def)
qed

subsection \<open>What the cache means\<close>

text \<open>The buffer that caches block \<open>n\<close> of the root device.\<close>

definition slot :: "'a bstate_scheme \<Rightarrow> u32 \<Rightarrow> nat option" where
  "slot st n = find (\<lambda>b. bdev (bufs st b) = ROOTDEV \<and> blockno (bufs st b) = n) [0..<NBUF]"

definition cached_at :: "'a bstate_scheme \<Rightarrow> nat \<Rightarrow> u32 \<Rightarrow> bool" where
  "cached_at st b n \<longleftrightarrow> b < NBUF \<and> bdev (bufs st b) = ROOTDEV \<and> blockno (bufs st b) = n"

text \<open>The abstract cache: per block the number of references, the pid that has it locked and
  the current content; and the disk with its history.\<close>

record bview =
  arefs :: "u32 \<Rightarrow> u32"
  aheld :: "u32 \<Rightarrow> int option"
  acont :: "u32 \<Rightarrow> block"
  adisk :: "u32 \<Rightarrow> block"
  awrites :: "(u32 \<times> block) list"

definition holder :: "sleeplock \<Rightarrow> int option" where
  "holder l = (if slocked l then Some (slpid l) else None)"

definition bview_of :: "'a bstate_scheme \<Rightarrow> bview" where
  "bview_of st = \<lparr>
     arefs = (\<lambda>n. case slot st n of Some b \<Rightarrow> refcnt (bufs st b) | None \<Rightarrow> 0),
     aheld = (\<lambda>n. case slot st n of Some b \<Rightarrow> holder (block_lock (bufs st b)) | None \<Rightarrow> None),
     acont = (\<lambda>n. case slot st n of Some b \<Rightarrow> if valid (bufs st b) then bdata (bufs st b) else disk st n | None \<Rightarrow> disk st n),
     adisk = disk st,
     awrites = writes st\<rparr>"

text \<open>The invariant: the list has every buffer once; no block is cached twice; a buffer
  without references is unlocked and clean (eviction loses nothing); a buffer with references
  is a valid copy of a block of the root device.\<close>

definition buf_ok :: "(u32 \<Rightarrow> block) \<Rightarrow> buf \<Rightarrow> bool" where
  "buf_ok d x \<longleftrightarrow>
     (if refcnt x = 0 then \<not> slocked (block_lock x) \<and> (bdev x = ROOTDEV \<and> valid x \<longrightarrow> bdata x = d (blockno x))
      else bdev x = ROOTDEV \<and> valid x)"

definition bc_ok :: "'a bstate_scheme \<Rightarrow> bool" where
  "bc_ok st \<longleftrightarrow> (\<exists>xs. lru st xs \<and> set xs = {..<NBUF}) \<and>
     (\<forall>b<NBUF. \<forall>c<NBUF. bdev (bufs st b) = ROOTDEV \<and> bdev (bufs st c) = ROOTDEV \<and>
        blockno (bufs st b) = blockno (bufs st c) \<longrightarrow> b = c) \<and>
     (\<forall>b<NBUF. buf_ok (disk st) (bufs st b))"

lemma slot_Some_cached: "slot st n = Some b \<Longrightarrow> cached_at st b n"
  by (auto simp: slot_def cached_at_def find_Some_iff simp del: upt.simps)

lemma slot_None_iff: "slot st n = None \<longleftrightarrow> (\<forall>b. \<not> cached_at st b n)"
  by (auto simp: slot_def cached_at_def find_None_iff simp del: upt.simps)

lemma bc_ok_unique: "bc_ok st \<Longrightarrow> cached_at st b n \<Longrightarrow> cached_at st c n \<Longrightarrow> b = c"
  unfolding bc_ok_def cached_at_def by blast

lemma slot_eq: "bc_ok st \<Longrightarrow> slot st n = Some b \<longleftrightarrow> cached_at st b n"
  by (metis bc_ok_unique option.exhaust slot_None_iff slot_Some_cached)

lemma bc_ok_buf: "bc_ok st \<Longrightarrow> b < NBUF \<Longrightarrow> buf_ok (disk st) (bufs st b)"
  by (simp add: bc_ok_def)

lemma bview_at:
  assumes "bc_ok st" "cached_at st b n"
  shows "arefs (bview_of st) n = refcnt (bufs st b)" "aheld (bview_of st) n = holder (block_lock (bufs st b))"
    "acont (bview_of st) n = (if valid (bufs st b) then bdata (bufs st b) else disk st n)"
  using slot_eq [OF assms(1), of n b] assms(2) by (simp_all add: bview_of_def)

lemma bview_none:
  assumes "slot st n = None"
  shows "arefs (bview_of st) n = 0" "aheld (bview_of st) n = None" "acont (bview_of st) n = disk st n"
  using assms by (simp_all add: bview_of_def)

lemma bview_disk [simp]: "adisk (bview_of st) = disk st" "awrites (bview_of st) = writes st"
  by (simp_all add: bview_of_def)

lemma bview_clean: "bc_ok st \<Longrightarrow> arefs (bview_of st) n = 0 \<Longrightarrow> acont (bview_of st) n = disk st n \<and> aheld (bview_of st) n = None"
proof -
  assume a: "bc_ok st" "arefs (bview_of st) n = 0"
  show ?thesis
  proof (cases "slot st n")
    case None
    then show ?thesis by (simp add: bview_none)
  next
    case (Some b)
    then have c: "cached_at st b n" by (rule slot_Some_cached)
    then have "b < NBUF" "blockno (bufs st b) = n" "bdev (bufs st b) = ROOTDEV" by (auto simp: cached_at_def)
    with bc_ok_buf [OF a(1)] a(2) show ?thesis by (auto simp: bview_at [OF a(1) c] buf_ok_def holder_def)
  qed
qed

lemma slot_same: "same_data st st' \<Longrightarrow> slot st' n = slot st n"
  by (simp add: slot_def same_data_fields)

lemma bview_same: "same_data st st' \<Longrightarrow> bview_of st' = bview_of st"
  by (simp add: bview_of_def slot_same same_data_fields fun_eq_iff split: option.split)

lemma cached_same: "same_data st st' \<Longrightarrow> cached_at st' b n = cached_at st b n"
  by (simp add: cached_at_def same_data_fields)

lemma bview_ext:
  assumes "bufs st' = bufs st" "disk st' = disk st" "writes st' = writes st"
  shows "bview_of st' = bview_of st" "bc_ok st' = bc_ok st" "cached_at st' = cached_at st"
proof -
  have "bnx st' = bnx st" "bpv st' = bpv st" "slot st' = slot st"
    using assms(1) by (simp_all add: bnx_def bpv_def slot_def fun_eq_iff)
  note eqs = this
  show "bview_of st' = bview_of st" "bc_ok st' = bc_ok st" "cached_at st' = cached_at st"
    unfolding bview_of_def bc_ok_def lru_def cached_at_def fun_eq_iff assms eqs by simp_all
qed

lemma bc_ok_same:
  "same_data st st' \<Longrightarrow> lru st' xs \<Longrightarrow> set xs = {..<NBUF} \<Longrightarrow> bc_ok st \<Longrightarrow> bc_ok st'"
  unfolding bc_ok_def by (auto simp: same_data_fields buf_ok_def)

subsection \<open>Operations on the abstract cache\<close>

text \<open>What every operation keeps: buffers with references stay where they are, and the rest
  of the state is not touched.\<close>

definition bframe :: "'a bstate_scheme \<Rightarrow> 'a bstate_scheme \<Rightarrow> bool" where
  "bframe st st' \<longleftrightarrow> bstate.more st' = bstate.more st \<and>
     (\<forall>c m. cached_at st c m \<and> arefs (bview_of st) m \<noteq> 0 \<longrightarrow> cached_at st' c m)"

text \<open>Replacing buffer \<open>b\<close> by a valid copy \<open>x\<close> of block \<open>n\<close>, where \<open>b\<close> held \<open>n\<close>
  before or was unused.\<close>

lemma set_buf:
  assumes "bc_ok st" "b < NBUF" "cached_at st b n \<or> slot st n = None \<and> refcnt (bufs st b) = 0"
    "bdev x = ROOTDEV" "blockno x = n" "valid x" "bprev x = bprev (bufs st b)" "bnext x = bnext (bufs st b)"
    "refcnt x = 0 \<longrightarrow> \<not> slocked (block_lock x) \<and> bdata x = disk st n"
  defines "st' \<equiv> st\<lparr>bufs := (bufs st)(b := x)\<rparr>"
  shows "bc_ok st'" "cached_at st' b n" "bframe st st'"
    "bview_of st' = (bview_of st)\<lparr>arefs := (arefs (bview_of st))(n := refcnt x),
       aheld := (aheld (bview_of st))(n := holder (block_lock x)), acont := (acont (bview_of st))(n := bdata x)\<rparr>"
proof -
  have nx: "bnx st' = bnx st" "bpv st' = bpv st"
    using assms(7,8) by (auto simp: bnx_def bpv_def st'_def)
  have other: "cached_at st' c m \<longleftrightarrow> cached_at st c m" if "c \<noteq> b" for c m
    using that by (simp add: cached_at_def st'_def)
  have mine: "cached_at st' b m \<longleftrightarrow> m = n" for m
    using assms(2,4,5) by (auto simp: cached_at_def st'_def)
  have only: "c = b" if "cached_at st' c n" for c
  proof (rule ccontr)
    assume "c \<noteq> b"
    with that have "cached_at st c n" by (simp add: other)
    with \<open>c \<noteq> b\<close> assms(1,3) show False by (auto simp: slot_None_iff dest: bc_ok_unique)
  qed
  have uni: "c = d" if "cached_at st' c m" "cached_at st' d m" for c d m
    using that only mine other assms(1) bc_ok_unique by metis
  have "buf_ok (disk st) x" using assms(4-6,9) by (simp add: buf_ok_def)
  then have "\<forall>c<NBUF. buf_ok (disk st') (bufs st' c)"
    using bc_ok_buf [OF assms(1)] by (simp add: st'_def)
  moreover have "\<forall>c<NBUF. \<forall>d<NBUF. bdev (bufs st' c) = ROOTDEV \<and> bdev (bufs st' d) = ROOTDEV \<and>
      blockno (bufs st' c) = blockno (bufs st' d) \<longrightarrow> c = d"
    using uni unfolding cached_at_def by metis
  moreover have "\<exists>xs. lru st' xs \<and> set xs = {..<NBUF}"
    using assms(1) by (simp add: bc_ok_def lru_def nx)
  ultimately show ok: "bc_ok st'" unfolding bc_ok_def by blast
  show "cached_at st' b n" by (simp add: mine)
  have gone: "m = n \<or> refcnt (bufs st b) = 0" if "cached_at st b m" for m
    using that assms(1,3) by (auto simp: cached_at_def)
  show "bframe st st'"
    unfolding bframe_def
  proof (intro conjI allI impI)
    show "bstate.more st' = bstate.more st" by (simp add: st'_def)
    fix c m assume "cached_at st c m \<and> arefs (bview_of st) m \<noteq> 0"
    then show "cached_at st' c m"
      using gone [of m] mine other by (cases "c = b") (auto simp: bview_at [OF assms(1)])
  qed
  have slot': "slot st' m = (if m = n then Some b else if slot st m = Some b then None else slot st m)" for m
  proof (cases "m = n")
    case True
    then show ?thesis using slot_eq [OF ok] mine by simp
  next
    case False
    have "slot st' m = Some c \<longleftrightarrow> c \<noteq> b \<and> slot st m = Some c" for c
      using slot_eq [OF ok, of m c] slot_eq [OF assms(1), of m c] mine other False by (cases "c = b") auto
    with False show ?thesis by (metis not_Some_eq)
  qed
  have vw: "arefs (bview_of st') m = (if m = n then refcnt x else arefs (bview_of st) m) \<and>
    aheld (bview_of st') m = (if m = n then holder (block_lock x) else aheld (bview_of st) m) \<and>
    acont (bview_of st') m = (if m = n then bdata x else acont (bview_of st) m)" for m
  proof (cases "m \<noteq> n \<and> slot st m = Some b")
    case True
    then have "cached_at st b m" by (simp add: slot_Some_cached)
    with True gone have "arefs (bview_of st) m = 0" by (auto simp: bview_at [OF assms(1)])
    with bview_clean [OF assms(1) this] True slot' [of m] show ?thesis
      by (simp add: bview_none) (simp add: st'_def)
  next
    case False
    then show ?thesis
      using slot' [of m] assms(6) by (auto simp: bview_of_def) (auto simp: st'_def split: option.splits)
  qed
  then show "bview_of st' = (bview_of st)\<lparr>arefs := (arefs (bview_of st))(n := refcnt x),
       aheld := (aheld (bview_of st))(n := holder (block_lock x)), acont := (acont (bview_of st))(n := bdata x)\<rparr>"
    by (intro bview.equality) (auto simp: fun_eq_iff st'_def)
qed

lemma bc_ok_lru:
  assumes "bc_ok st"
  obtains xs where "lru st xs" "set xs = {..<NBUF}" "distinct xs" "length xs = NBUF"
proof -
  obtain xs where xs: "lru st xs" "set xs = {..<NBUF}" using assms by (auto simp: bc_ok_def)
  then have "distinct xs" by (simp add: lru_def)
  with xs distinct_card [OF this] show ?thesis by (intro that [of xs]) simp_all
qed

lemma find_cached_slot:
  assumes "bc_ok st"
  shows "find_cached bget_fuel ROOTDEV n (bnext (bufs st bhead)) st = Ok (slot st n)"
proof -
  obtain xs where xs: "lru st xs" "set xs = {..<NBUF}" "length xs = NBUF"
    using bc_ok_lru [OF assms] by metis
  let ?P = "\<lambda>b. bdev (bufs st b) = ROOTDEV \<and> blockno (bufs st b) = n"
  have "find_cached bget_fuel ROOTDEV n (bnx st bhead) st = Ok (find ?P xs)"
    using xs by (intro find_cached_walk) (auto simp: lru_def bget_fuel_def)
  moreover have "find ?P xs = slot st n"
  proof (cases "find ?P xs")
    case None
    then have "\<forall>b. \<not> cached_at st b n" using xs(2) by (auto simp: find_None_iff cached_at_def)
    with None show ?thesis by (simp add: slot_None_iff [THEN iffD2])
  next
    case (Some b)
    then have "?P b" "b \<in> set xs" by (auto simp: find_Some_iff)
    then have "cached_at st b n" using xs(2) by (simp add: cached_at_def)
    with Some slot_eq [OF assms] show ?thesis by metis
  qed
  ultimately show ?thesis by (simp add: bnx_def)
qed

lemma unused_exists:
  assumes "bc_ok st" "card {m. arefs (bview_of st) m \<noteq> 0} < NBUF"
  shows "\<exists>b<NBUF. refcnt (bufs st b) = 0"
proof (rule ccontr)
  assume "\<not> ?thesis"
  then have used: "cached_at st b (blockno (bufs st b))" "refcnt (bufs st b) \<noteq> 0" if "b < NBUF" for b
    using that bc_ok_buf [OF assms(1)] by (auto simp: cached_at_def buf_ok_def)
  have "inj_on (\<lambda>b. blockno (bufs st b)) {..<NBUF}"
    by (rule inj_onI) (metis used(1) bc_ok_unique [OF assms(1)] lessThan_iff)
  then have "card ((\<lambda>b. blockno (bufs st b)) ` {..<NBUF}) = NBUF" by (simp add: card_image)
  moreover have "(\<lambda>b. blockno (bufs st b)) ` {..<NBUF} \<subseteq> {m. arefs (bview_of st) m \<noteq> 0}"
    using used bview_at(1) [OF assms(1) used(1)] by auto
  ultimately show False using assms(2) card_mono [OF finite] by (metis not_le)
qed

lemma find_unused_lru:
  assumes "bc_ok st" "lru st xs" "set xs = {..<NBUF}"
  shows "find_unused bget_fuel (bprev (bufs st bhead)) st = Ok (find (\<lambda>b. refcnt (bufs st b) = 0) (rev xs))"
proof -
  have "length xs = NBUF" using distinct_card [of xs] assms(2,3) by (simp add: lru_def)
  then have "find_unused bget_fuel (bpv st bhead) st = Ok (find (\<lambda>b. refcnt (bufs st b) = 0) (rev xs))"
    using assms(2,3) by (intro find_unused_walk) (auto simp: lru_def bget_fuel_def)
  then show ?thesis by (simp add: bpv_def)
qed

text \<open>The outcome of \<open>bread\<close>, as a transition of the abstract cache.\<close>

definition bread_post :: "int \<Rightarrow> u32 \<Rightarrow> 'a bstate_scheme \<Rightarrow> nat \<Rightarrow> 'a bstate_scheme \<Rightarrow> bool" where
  "bread_post p n st b st' \<longleftrightarrow> bc_ok st' \<and> cached_at st' b n \<and> bframe st st' \<and>
     bview_of st' = (bview_of st)\<lparr>arefs := (arefs (bview_of st))(n := arefs (bview_of st) n + 1),
       aheld := (aheld (bview_of st))(n := Some p)\<rparr>"

lemma bread_ok:
  assumes ok: "bc_ok st" and free: "aheld (bview_of st) n = None" and cnt: "arefs (bview_of st) n + 1 \<noteq> 0"
    and room: "arefs (bview_of st) n \<noteq> 0 \<or> card {m. arefs (bview_of st) m \<noteq> 0} < NBUF"
  shows "\<exists>b st'. bread p ROOTDEV n st = Ok (b, st') \<and> bread_post p n st b st'"
proof (cases "slot st n")
  case (Some b)
  then have c: "cached_at st b n" by (rule slot_Some_cached)
  then have b: "b < NBUF" "bdev (bufs st b) = ROOTDEV" "blockno (bufs st b) = n" by (auto simp: cached_at_def)
  have l: "\<not> slocked (block_lock (bufs st b))"
    using free by (simp add: bview_at [OF ok c] holder_def split: if_splits)
  define x where "x = (bufs st b)\<lparr>refcnt := refcnt (bufs st b) + 1, valid := True,
    block_lock := (block_lock (bufs st b))\<lparr>slocked := True, slpid := p\<rparr>,
    bdata := if valid (bufs st b) then bdata (bufs st b) else disk st n\<rparr>"
  have run: "bread p ROOTDEV n st = Ok (b, st\<lparr>bufs := (bufs st)(b := x)\<rparr>)"
    using l b by (cases "bufs st b") (simp add: bread_def bget_def find_cached_slot [OF ok] Some lock_buf_def acquiresleep_def
        upd_buf_def disk_rw_def Let_def x_def)
  have x: "bdev x = ROOTDEV" "blockno x = n" "valid x" "bprev x = bprev (bufs st b)" "bnext x = bnext (bufs st b)"
    "refcnt x \<noteq> 0" "refcnt x = arefs (bview_of st) n + 1" "holder (block_lock x) = Some p" "bdata x = acont (bview_of st) n"
    using b cnt by (simp_all add: x_def holder_def bview_at [OF ok c])
  show ?thesis
    using set_buf [OF ok b(1) disjI1 [OF c] x(1-5)] x(6-9) run by (auto simp: bread_post_def)
next
  case None
  then have "card {m. arefs (bview_of st) m \<noteq> 0} < NBUF" using room by (simp add: bview_none)
  then have ex: "\<exists>b<NBUF. refcnt (bufs st b) = 0" by (rule unused_exists [OF ok])
  obtain xs where xs: "lru st xs" "set xs = {..<NBUF}" using ok by (auto simp: bc_ok_def)
  obtain b where fb: "find (\<lambda>b. refcnt (bufs st b) = 0) (rev xs) = Some b"
    using ex xs(2) by (cases "find (\<lambda>b. refcnt (bufs st b) = 0) (rev xs)") (auto simp: find_None_iff)
  then have "b \<in> set (rev xs)" "refcnt (bufs st b) = 0" by (metis find_Some_iff nth_mem) (metis (mono_tags) fb find_Some_iff)
  then have b: "b < NBUF" "refcnt (bufs st b) = 0" using xs(2) by auto
  have l: "\<not> slocked (block_lock (bufs st b))" using bc_ok_buf [OF ok b(1)] b(2) by (simp add: buf_ok_def)
  define x where "x = (bufs st b)\<lparr>bdev := ROOTDEV, blockno := n, refcnt := 1, valid := True,
    block_lock := (block_lock (bufs st b))\<lparr>slocked := True, slpid := p\<rparr>, bdata := disk st n\<rparr>"
  have run: "bread p ROOTDEV n st = Ok (b, st\<lparr>bufs := (bufs st)(b := x)\<rparr>)"
    using l by (cases "bufs st b") (simp add: bread_def bget_def find_cached_slot [OF ok] None find_unused_lru [OF ok xs] fb lock_buf_def
        acquiresleep_def upd_buf_def disk_rw_def Let_def x_def)
  have x: "bdev x = ROOTDEV" "blockno x = n" "valid x" "bprev x = bprev (bufs st b)" "bnext x = bnext (bufs st b)"
    "refcnt x \<noteq> 0" "refcnt x = arefs (bview_of st) n + 1" "holder (block_lock x) = Some p" "bdata x = acont (bview_of st) n"
    using None by (simp_all add: x_def holder_def bview_none)
  show ?thesis
    using set_buf [OF ok b(1) disjI2 [OF conjI [OF None b(2)]] x(1-5)] x(6-9) run by (auto simp: bread_post_def)
qed

lemma bread_no_buffers:
  assumes ok: "bc_ok st" and "slot st n = None" and "\<forall>b<NBUF. refcnt (bufs st b) \<noteq> 0"
  shows "bread p ROOTDEV n st = Err (Panic ''bget: no buffers'')"
proof -
  obtain xs where xs: "lru st xs" "set xs = {..<NBUF}" using ok by (auto simp: bc_ok_def)
  then have "find (\<lambda>b. refcnt (bufs st b) = 0) (rev xs) = None" using assms(3) by (auto simp: find_None_iff)
  with assms show ?thesis
    by (simp add: bread_def bget_def find_cached_slot find_unused_lru [OF ok xs])
qed

lemma bwrite_ok:
  assumes ok: "bc_ok st" and c: "cached_at st b n" and held: "aheld (bview_of st) n = Some p"
    and cnt: "arefs (bview_of st) n \<noteq> 0"
  shows "\<exists>st'. bwrite p b st = Ok st' \<and> bc_ok st' \<and> bframe st st' \<and> cached_at st' b n \<and>
    bview_of st' = (bview_of st)\<lparr>adisk := (disk st)(n := acont (bview_of st) n),
      awrites := writes st @ [(n, acont (bview_of st) n)]\<rparr>"
proof -
  have b: "b < NBUF" "bdev (bufs st b) = ROOTDEV" "blockno (bufs st b) = n" using c by (auto simp: cached_at_def)
  have v: "valid (bufs st b)" "refcnt (bufs st b) \<noteq> 0"
    using bc_ok_buf [OF ok b(1)] cnt by (auto simp: bview_at [OF ok c] buf_ok_def split: if_splits)
  have h: "holdingsleep p (block_lock (bufs st b))"
    using held by (auto simp: bview_at [OF ok c] holder_def holdingsleep_def split: if_splits)
  define st' where "st' = st\<lparr>disk := (disk st)(n := bdata (bufs st b)), writes := writes st @ [(n, bdata (bufs st b))]\<rparr>"
  have run: "bwrite p b st = Ok st'" using h b(3) by (simp add: bwrite_def disk_rw_def Let_def st'_def)
  have same: "bufs st' = bufs st" "bnx st' = bnx st" "bpv st' = bpv st" "slot st' = slot st" "cached_at st' = cached_at st"
    by (simp_all add: st'_def bnx_def bpv_def slot_def cached_at_def fun_eq_iff)
  have dk: "disk st' = (disk st)(n := bdata (bufs st b))" by (simp add: st'_def)
  have "buf_ok (disk st') (bufs st c)" if "c < NBUF" for c
  proof (cases "c = b")
    case True
    with v b(2) show ?thesis by (simp add: buf_ok_def)
  next
    case False
    then have "\<not> (bdev (bufs st c) = ROOTDEV \<and> blockno (bufs st c) = n)"
      using bc_ok_unique [OF ok, of c n b] c that by (auto simp: cached_at_def)
    with bc_ok_buf [OF ok that] show ?thesis by (auto simp: buf_ok_def st'_def)
  qed
  then have ok': "bc_ok st'" using ok by (simp add: bc_ok_def lru_def same)
  have "acont (bview_of st') = acont (bview_of st)"
  proof
    fix m show "acont (bview_of st') m = acont (bview_of st) m"
      using slot_eq [OF ok, of n b] c v dk by (auto simp: bview_of_def same split: option.split)
  qed
  moreover have "arefs (bview_of st') = arefs (bview_of st)" "aheld (bview_of st') = aheld (bview_of st)"
    by (simp_all add: bview_of_def same fun_eq_iff split: option.split)
  moreover have "writes st' = writes st @ [(n, bdata (bufs st b))]" by (simp add: st'_def)
  ultimately have "bview_of st' = (bview_of st)\<lparr>adisk := (disk st)(n := acont (bview_of st) n),
      awrites := writes st @ [(n, acont (bview_of st) n)]\<rparr>"
    using v dk by (intro bview.equality) (simp_all add: bview_at(3) [OF ok c])
  with run ok' c show ?thesis by (simp add: bframe_def same) (simp add: st'_def)
qed

lemma set_data_ok:
  fixes d :: block
  assumes ok: "bc_ok st" and c: "cached_at st b n" and cnt: "arefs (bview_of st) n \<noteq> 0"
  defines "st' \<equiv> upd_buf b (\<lambda>x. x\<lparr>bdata := d\<rparr>) st"
  shows "bc_ok st'" "cached_at st' b n" "bframe st st'"
    "bview_of st' = (bview_of st)\<lparr>acont := (acont (bview_of st))(n := d)\<rparr>"
proof -
  have b: "b < NBUF" "bdev (bufs st b) = ROOTDEV" "blockno (bufs st b) = n" using c by (auto simp: cached_at_def)
  have v: "valid (bufs st b)" "refcnt (bufs st b) \<noteq> 0"
    using bc_ok_buf [OF ok b(1)] cnt by (auto simp: bview_at [OF ok c] buf_ok_def split: if_splits)
  note s = set_buf [OF ok b(1) disjI1 [OF c], of "(bufs st b)\<lparr>bdata := d\<rparr>"]
  show "bc_ok st'" "cached_at st' b n" "bframe st st'"
    using s b v by (simp_all add: st'_def upd_buf_def)
  show "bview_of st' = (bview_of st)\<lparr>acont := (acont (bview_of st))(n := d)\<rparr>"
    using s(4) b v by (simp add: st'_def upd_buf_def bview_at [OF ok c, symmetric])
qed

lemma refs_ok:
  assumes ok: "bc_ok st" and c: "cached_at st b n" and cnt: "arefs (bview_of st) n \<noteq> 0" "k \<noteq> 0"
  defines "st' \<equiv> upd_buf b (\<lambda>x. x\<lparr>refcnt := k\<rparr>) st"
  shows "bc_ok st'" "cached_at st' b n" "bframe st st'"
    "bview_of st' = (bview_of st)\<lparr>arefs := (arefs (bview_of st))(n := k)\<rparr>"
proof -
  have b: "b < NBUF" "bdev (bufs st b) = ROOTDEV" "blockno (bufs st b) = n" using c by (auto simp: cached_at_def)
  have v: "valid (bufs st b)"
    using bc_ok_buf [OF ok b(1)] cnt by (auto simp: bview_at [OF ok c] buf_ok_def split: if_splits)
  note s = set_buf [OF ok b(1) disjI1 [OF c], of "(bufs st b)\<lparr>refcnt := k\<rparr>"]
  show "bc_ok st'" "cached_at st' b n" "bframe st st'"
    using s b v cnt(2) by (simp_all add: st'_def upd_buf_def)
  have "acont (bview_of st) n = bdata (bufs st b)" using v by (simp add: bview_at [OF ok c])
  then show "bview_of st' = (bview_of st)\<lparr>arefs := (arefs (bview_of st))(n := k)\<rparr>"
    using s(4) b v cnt(2) by (simp add: st'_def upd_buf_def bview_at(2) [OF ok c, symmetric] fun_upd_idem)
qed

lemma bpin_ok:
  assumes "bc_ok st" "cached_at st b n" "arefs (bview_of st) n \<noteq> 0" "arefs (bview_of st) n + 1 \<noteq> 0"
  shows "bc_ok (bpin b st)" "cached_at (bpin b st) b n" "bframe st (bpin b st)"
    "bview_of (bpin b st) = (bview_of st)\<lparr>arefs := (arefs (bview_of st))(n := arefs (bview_of st) n + 1)\<rparr>"
proof -
  have "bpin b st = upd_buf b (\<lambda>x. x\<lparr>refcnt := arefs (bview_of st) n + 1\<rparr>) st"
    by (simp add: bpin_def upd_buf_def bview_at [OF assms(1,2)])
  then show "bc_ok (bpin b st)" "cached_at (bpin b st) b n" "bframe st (bpin b st)"
    "bview_of (bpin b st) = (bview_of st)\<lparr>arefs := (arefs (bview_of st))(n := arefs (bview_of st) n + 1)\<rparr>"
    using refs_ok [OF assms] by simp_all
qed

lemma bunpin_ok:
  assumes "bc_ok st" "cached_at st b n" "arefs (bview_of st) n \<noteq> 0" "arefs (bview_of st) n - 1 \<noteq> 0"
  shows "bc_ok (bunpin b st)" "cached_at (bunpin b st) b n" "bframe st (bunpin b st)"
    "bview_of (bunpin b st) = (bview_of st)\<lparr>arefs := (arefs (bview_of st))(n := arefs (bview_of st) n - 1)\<rparr>"
proof -
  have "bunpin b st = upd_buf b (\<lambda>x. x\<lparr>refcnt := arefs (bview_of st) n - 1\<rparr>) st"
    by (simp add: bunpin_def upd_buf_def bview_at [OF assms(1,2)])
  then show "bc_ok (bunpin b st)" "cached_at (bunpin b st) b n" "bframe st (bunpin b st)"
    "bview_of (bunpin b st) = (bview_of st)\<lparr>arefs := (arefs (bview_of st))(n := arefs (bview_of st) n - 1)\<rparr>"
    using refs_ok [OF assms] by simp_all
qed

lemma bframe_same: "bframe st s \<Longrightarrow> same_data s s' \<Longrightarrow> bframe st s'"
  by (simp add: bframe_def cached_same same_data_fields)

lemma bframe_trans:
  "bframe a b \<Longrightarrow> bframe b c \<Longrightarrow> (\<And>m. arefs (bview_of a) m \<noteq> 0 \<Longrightarrow> arefs (bview_of b) m \<noteq> 0) \<Longrightarrow> bframe a c"
  by (auto simp: bframe_def)

text \<open>The list after moving \<open>b\<close> to the front.\<close>

lemma move_front:
  assumes "lru st xs" "b \<in> set xs"
  shows "lru (link_front b (unlink_buf b st)) (b # remove1 b xs)"
proof -
  obtain ys zs where xs: "xs = ys @ b # zs" "b \<notin> set ys" using assms(2) by (metis split_list_first)
  have d: "distinct (bhead # xs)" using assms(1) by (simp add: lru_def)
  have "lru (unlink_buf b st) (ys @ zs)" using lru_unlink assms(1) xs(1) by blast
  then have "lru (link_front b (unlink_buf b st)) (b # ys @ zs)"
    using d xs by (intro lru_link_front) auto
  then show ?thesis using xs by (simp add: remove1_append)
qed

text \<open>The outcome of \<open>brelse\<close>: the block must have been written back, or somebody else
  still has it.\<close>

lemma brelse_ok:
  assumes ok: "bc_ok st" and c: "cached_at st b n" and held: "aheld (bview_of st) n = Some p"
    and cnt: "arefs (bview_of st) n \<noteq> 0"
    and clean: "arefs (bview_of st) n = 1 \<Longrightarrow> acont (bview_of st) n = disk st n"
  shows "\<exists>st'. brelse p b st = Ok st' \<and> bc_ok st' \<and> bframe st st' \<and> cached_at st' b n \<and>
    bview_of st' = (bview_of st)\<lparr>arefs := (arefs (bview_of st))(n := arefs (bview_of st) n - 1),
      aheld := (aheld (bview_of st))(n := None)\<rparr>"
proof -
  have b: "b < NBUF" "bdev (bufs st b) = ROOTDEV" "blockno (bufs st b) = n" using c by (auto simp: cached_at_def)
  have v: "valid (bufs st b)"
    using bc_ok_buf [OF ok b(1)] cnt by (auto simp: bview_at [OF ok c] buf_ok_def split: if_splits)
  have h: "holdingsleep p (block_lock (bufs st b))"
    using held by (auto simp: bview_at [OF ok c] holder_def holdingsleep_def split: if_splits)
  define x where "x = (bufs st b)\<lparr>block_lock := releasesleep (block_lock (bufs st b)), refcnt := refcnt (bufs st b) - 1\<rparr>"
  define s where "s = st\<lparr>bufs := (bufs st)(b := x)\<rparr>"
  have ab: "arefs (bview_of st) n = refcnt (bufs st b)" "acont (bview_of st) n = bdata (bufs st b)"
    using v by (simp_all add: bview_at [OF ok c])
  have x: "bdev x = ROOTDEV" "blockno x = n" "valid x" "bprev x = bprev (bufs st b)" "bnext x = bnext (bufs st b)"
    "refcnt x = 0 \<longrightarrow> \<not> slocked (block_lock x) \<and> bdata x = disk st n" "holder (block_lock x) = None"
    using b v clean ab by (simp_all add: x_def releasesleep_def holder_def)
  note sb = set_buf [OF ok b(1) disjI1 [OF c] x(1-6), folded s_def]
  have vs: "bview_of s = (bview_of st)\<lparr>arefs := (arefs (bview_of st))(n := arefs (bview_of st) n - 1),
      aheld := (aheld (bview_of st))(n := None)\<rparr>"
    using sb(4) ab x(7) by (simp add: x_def fun_upd_idem)
  define s' where "s' = (if refcnt x = 0 then link_front b (unlink_buf b s) else s)"
  have run: "brelse p b st = Ok s'"
    using h by (simp add: brelse_def Let_def upd_buf_def s'_def s_def x_def)
  show ?thesis
  proof (cases "refcnt x = 0")
    case True
    have sd: "same_data s s'"
      using True same_data_trans [OF unlink_buf_same link_front_same] by (simp add: s'_def)
    obtain xs where xs: "lru s xs" "set xs = {..<NBUF}" "distinct xs" using bc_ok_lru [OF sb(1)] by metis
    then have "lru s' (b # remove1 b xs)" "set (b # remove1 b xs) = {..<NBUF}"
      using move_front [OF xs(1)] True b(1) by (auto simp: s'_def)
    then have "bc_ok s'" using bc_ok_same [OF sd] sb(1) by blast
    with run sd sb(2,3) vs show ?thesis by (simp add: bview_same cached_same bframe_same)
  next
    case False
    with run sb vs show ?thesis by (simp add: s'_def)
  qed
qed

subsection \<open>Initialisation\<close>

definition zero_buf :: buf where
  "zero_buf = \<lparr>valid = False, bdev = 0, blockno = 0, block_lock = initsleeplock [], refcnt = 0,
     bprev = 0, bnext = 0, bdata = (\<lambda>_. 0)\<rparr>"

text \<open>The memory of the kernel is zero at boot.\<close>

definition bboot :: "(u32 \<Rightarrow> block) \<Rightarrow> bstate" where
  "bboot d = binit \<lparr>bufs = (\<lambda>_. zero_buf), disk = d, writes = []\<rparr>"

definition blank :: "'a bstate_scheme \<Rightarrow> bool" where
  "blank st \<longleftrightarrow> (\<forall>i. bdev (bufs st i) = 0 \<and> refcnt (bufs st i) = 0 \<and> \<not> slocked (block_lock (bufs st i)))"

lemma blank_same: "same_data st st' \<Longrightarrow> blank st \<Longrightarrow> blank st'"
  by (simp add: blank_def same_data_fields)

definition binit_step :: "nat \<Rightarrow> 'a bstate_scheme \<Rightarrow> 'a bstate_scheme" where
  "binit_step b st = link_front b (upd_buf b (\<lambda>x. x\<lparr>block_lock := initsleeplock ''buffer''\<rparr>) st)"

lemma binit_step_ok:
  assumes "lru st xs" "blank st" "b \<notin> set xs" "b \<noteq> bhead"
  shows "lru (binit_step b st) (b # xs)" "blank (binit_step b st)" "disk (binit_step b st) = disk st"
    "writes (binit_step b st) = writes st" "bstate.more (binit_step b st) = bstate.more st"
proof -
  let ?s = "upd_buf b (\<lambda>x. x\<lparr>block_lock := initsleeplock ''buffer''\<rparr>) st"
  have "bnx ?s = bnx st" "bpv ?s = bpv st" by (auto simp: bnx_def bpv_def upd_buf_def)
  then have "lru ?s xs" using assms(1) by (simp add: lru_def)
  then show "lru (binit_step b st) (b # xs)" using assms(3,4) by (simp add: binit_step_def lru_link_front)
  have "blank ?s" using assms(2) by (simp add: blank_def upd_buf_def initsleeplock_def)
  then show "blank (binit_step b st)" by (simp add: binit_step_def blank_same [OF link_front_same])
  show "disk (binit_step b st) = disk st" "writes (binit_step b st) = writes st" "bstate.more (binit_step b st) = bstate.more st"
    by (simp_all add: binit_step_def same_data_fields [OF link_front_same]) (simp_all add: upd_buf_def)
qed

lemma binit_fold:
  "k \<le> NBUF \<Longrightarrow> lru st [] \<Longrightarrow> blank st \<Longrightarrow>
    lru (fold binit_step [0..<k] st) (rev [0..<k]) \<and> blank (fold binit_step [0..<k] st) \<and>
    disk (fold binit_step [0..<k] st) = disk st \<and> writes (fold binit_step [0..<k] st) = writes st \<and>
    bstate.more (fold binit_step [0..<k] st) = bstate.more st"
proof (induction k)
  case (Suc k)
  then have IH: "lru (fold binit_step [0..<k] st) (rev [0..<k])" "blank (fold binit_step [0..<k] st)"
    "disk (fold binit_step [0..<k] st) = disk st" "writes (fold binit_step [0..<k] st) = writes st"
    "bstate.more (fold binit_step [0..<k] st) = bstate.more st" by simp_all
  have "k \<notin> set (rev [0..<k])" "k \<noteq> bhead" using Suc.prems(1) by auto
  from binit_step_ok [OF IH(1,2) this] IH(3-5) show ?case by simp
qed simp

lemma blank_bc_ok:
  assumes "lru st xs" "set xs = {..<NBUF}" "blank st"
  shows "bc_ok st" "arefs (bview_of st) n = 0" "aheld (bview_of st) n = None" "acont (bview_of st) n = disk st n"
proof -
  show "bc_ok st" using assms by (auto simp: bc_ok_def blank_def buf_ok_def)
  have "slot st n = None" using assms(3) by (auto simp: slot_None_iff cached_at_def blank_def)
  then show "arefs (bview_of st) n = 0" "aheld (bview_of st) n = None" "acont (bview_of st) n = disk st n"
    by (simp_all add: bview_none)
qed

lemma binit_ok:
  assumes "blank st"
  shows "bc_ok (binit st)" "disk (binit st) = disk st" "writes (binit st) = writes st"
    "bstate.more (binit st) = bstate.more st" "arefs (bview_of (binit st)) n = 0"
    "aheld (bview_of (binit st)) n = None" "acont (bview_of (binit st)) n = disk st n"
    "lru (binit st) (rev [0..<NBUF])" "blank (binit st)"
proof -
  define s where "s = upd_buf bhead (\<lambda>x. x\<lparr>bnext := bhead\<rparr>) (upd_buf bhead (\<lambda>x. x\<lparr>bprev := bhead\<rparr>) st)"
  have "same_data st s" unfolding s_def using same_data_trans same_data_link by metis
  then have s: "blank s" "disk s = disk st" "writes s = writes st" "bstate.more s = bstate.more st"
    using assms blank_same by (auto simp: same_data_fields)
  have "lru s []" by (simp add: lru_def s_def bnx_upd)
  have e: "binit st = fold binit_step [0..<NBUF] s"
    by (simp add: binit_def Let_def s_def binit_step_def [abs_def] del: upt.simps)
  have f: "lru (binit st) (rev [0..<NBUF])" "blank (binit st)" "disk (binit st) = disk s" "writes (binit st) = writes s"
    "bstate.more (binit st) = bstate.more s"
    using binit_fold [of NBUF s] \<open>lru s []\<close> s(1) unfolding e by blast+
  have set: "set (rev [0..<NBUF]) = {..<NBUF}" by (auto simp del: upt.simps)
  show "bc_ok (binit st)" "disk (binit st) = disk st" "writes (binit st) = writes st"
    "bstate.more (binit st) = bstate.more st" "arefs (bview_of (binit st)) n = 0"
    "aheld (bview_of (binit st)) n = None" "acont (bview_of (binit st)) n = disk st n"
    using blank_bc_ok [OF f(1) set f(2)] f(3-5) s by simp_all
  show "lru (binit st) (rev [0..<NBUF])" "blank (binit st)" by (rule f)+
qed

lemma bboot_ok:
  "bc_ok (bboot d)" "disk (bboot d) = d" "arefs (bview_of (bboot d)) n = 0" "aheld (bview_of (bboot d)) n = None"
  "acont (bview_of (bboot d)) n = d n"
proof -
  have "blank \<lparr>bufs = (\<lambda>_. zero_buf), disk = d, writes = []\<rparr>"
    by (simp add: blank_def zero_buf_def initsleeplock_def)
  from binit_ok [OF this] show "bc_ok (bboot d)" "disk (bboot d) = d" "arefs (bview_of (bboot d)) n = 0"
    "aheld (bview_of (bboot d)) n = None" "acont (bview_of (bboot d)) n = d n"
    by (simp_all add: bboot_def)
qed

subsection \<open>Properties\<close>

text \<open>
  C16: \<open>bread\<close> as a transition of the abstract cache. When the block is not locked and some
  buffer is unused (or the block is referenced already), \<open>bread\<close> returns a buffer that holds
  the current content of the block and is locked by the caller; one reference is added, and no
  block's content, no other reference or lock, and nothing on the disk changes, even if another
  block is evicted: the invariant says that unused buffers are clean. When all buffers are in
  use and the block is not among them, it panics.
\<close>

theorem bread_correct:
  assumes "bc_ok st" "aheld (bview_of st) n = None" "arefs (bview_of st) n + 1 \<noteq> 0"
  shows "(arefs (bview_of st) n \<noteq> 0 \<or> card {m. arefs (bview_of st) m \<noteq> 0} < NBUF \<longrightarrow>
      (\<exists>b st'. bread p ROOTDEV n st = Ok (b, st') \<and> bc_ok st' \<and> valid (bufs st' b) \<and>
        holdingsleep p (block_lock (bufs st' b)) \<and> bdata (bufs st' b) = acont (bview_of st) n \<and>
        acont (bview_of st') = acont (bview_of st) \<and> disk st' = disk st \<and> writes st' = writes st \<and>
        arefs (bview_of st') = (arefs (bview_of st))(n := arefs (bview_of st) n + 1) \<and>
        aheld (bview_of st') = (aheld (bview_of st))(n := Some p))) \<and>
    (slot st n = None \<and> (\<forall>b<NBUF. refcnt (bufs st b) \<noteq> 0) \<longrightarrow>
      bread p ROOTDEV n st = Err (Panic ''bget: no buffers''))"
proof (intro conjI impI)
  assume "arefs (bview_of st) n \<noteq> 0 \<or> card {m. arefs (bview_of st) m \<noteq> 0} < NBUF"
  from bread_ok [OF assms this, of p] obtain b st' where b: "bread p ROOTDEV n st = Ok (b, st')" "bc_ok st'" "cached_at st' b n"
    "bview_of st' = (bview_of st)\<lparr>arefs := (arefs (bview_of st))(n := arefs (bview_of st) n + 1),
       aheld := (aheld (bview_of st))(n := Some p)\<rparr>"
    by (auto simp: bread_post_def)
  have v: "arefs (bview_of st') n \<noteq> 0" "aheld (bview_of st') n = Some p" "acont (bview_of st') n = acont (bview_of st) n"
    "disk st' = disk st" "writes st' = writes st"
    using b(4) assms(3) bview_disk [of st'] by simp_all
  have "b < NBUF" using b(3) by (simp add: cached_at_def)
  then have "valid (bufs st' b)"
    using bc_ok_buf [OF b(2)] v(1) by (auto simp: bview_at [OF b(2,3)] buf_ok_def split: if_splits)
  with v have "bdata (bufs st' b) = acont (bview_of st) n" "holdingsleep p (block_lock (bufs st' b))"
    by (auto simp: bview_at [OF b(2,3)] holder_def holdingsleep_def split: if_splits)
  with b v \<open>valid (bufs st' b)\<close> show "\<exists>b st'. bread p ROOTDEV n st = Ok (b, st') \<and> bc_ok st' \<and> valid (bufs st' b) \<and>
        holdingsleep p (block_lock (bufs st' b)) \<and> bdata (bufs st' b) = acont (bview_of st) n \<and>
        acont (bview_of st') = acont (bview_of st) \<and> disk st' = disk st \<and> writes st' = writes st \<and>
        arefs (bview_of st') = (arefs (bview_of st))(n := arefs (bview_of st) n + 1) \<and>
        aheld (bview_of st') = (aheld (bview_of st))(n := Some p)"
    by (intro exI [of _ b] exI [of _ st']) simp
qed (use assms(1) bread_no_buffers in auto)

theorem bread_correct_witness:
  "\<exists>b st'. bread 1 ROOTDEV 7 (bboot (\<lambda>n i. ucast n)) = Ok (b, st') \<and> bdata (bufs st' b) 5 = 7"
proof -
  let ?s = "bboot (\<lambda>n i. ucast n)"
  have e: "{m. arefs (bview_of ?s) m \<noteq> 0} = {}" by (simp add: bboot_ok)
  have "card {m. arefs (bview_of ?s) m \<noteq> 0} < NBUF" unfolding e by simp
  with bread_correct [of ?s 7 1] obtain b st' where
    "bread 1 ROOTDEV 7 ?s = Ok (b, st')" "bdata (bufs st' b) = acont (bview_of ?s) 7"
    by (auto simp: bboot_ok)
  then show ?thesis by (intro exI [of _ b] exI [of _ st']) (simp add: bboot_ok)
qed

text \<open>
  Replacement is least recently used. For a block that is not cached \<open>bread\<close> takes the
  unused buffer that is last in the list, with the disk content of the block; releasing the
  last reference moves the buffer to the front of the list and keeps the order of the others.
\<close>

theorem bread_recycles_lru:
  assumes ok: "bc_ok st" and l: "lru st (ys @ b # zs)" "set (ys @ b # zs) = {..<NBUF}" and none: "slot st n = None"
    and b0: "refcnt (bufs st b) = 0" and used: "\<forall>c\<in>set zs. refcnt (bufs st c) \<noteq> 0"
  shows "\<exists>st' st''. bread p ROOTDEV n st = Ok (b, st') \<and> bdata (bufs st' b) = disk st n \<and>
    brelse p b st' = Ok st'' \<and> lru st'' (b # ys @ zs)"
proof -
  have "find (\<lambda>c. refcnt (bufs st c) = 0) (rev zs @ b # rev ys) = Some b"
    using used b0 by (induction zs rule: rev_induct) auto
  then have fb: "find_unused bget_fuel (bprev (bufs st bhead)) st = Ok (Some b)"
    using find_unused_lru [OF ok l] by simp
  have b: "b < NBUF" using l(2) by auto
  have nb: "b \<noteq> bhead" "b \<in> set (ys @ b # zs)" using b by simp_all
  have lk: "\<not> slocked (block_lock (bufs st b))" using bc_ok_buf [OF ok b] b0 by (simp add: buf_ok_def)
  define x where "x = (bufs st b)\<lparr>bdev := ROOTDEV, blockno := n, valid := True, refcnt := 1,
    block_lock := (block_lock (bufs st b))\<lparr>slocked := True, slpid := p\<rparr>, bdata := disk st n\<rparr>"
  define s1 where "s1 = st\<lparr>bufs := (bufs st)(b := x)\<rparr>"
  have r: "bread p ROOTDEV n st = Ok (b, s1)"
    using lk by (cases "bufs st b") (simp add: bread_def bget_def find_cached_slot [OF ok] none fb lock_buf_def
        acquiresleep_def upd_buf_def disk_rw_def Let_def x_def s1_def)
  define s2 where "s2 = st\<lparr>bufs := (bufs st)(b := x\<lparr>block_lock := releasesleep (block_lock x), refcnt := 0\<rparr>)\<rparr>"
  have "bnx s2 = bnx st" "bpv s2 = bpv st" by (auto simp: bnx_def bpv_def s2_def x_def)
  then have "lru s2 (ys @ b # zs)" using l(1) by (simp add: lru_def)
  then have "lru (link_front b (unlink_buf b s2)) (b # remove1 b (ys @ b # zs))" by (rule move_front) (rule nb(2))
  moreover have "b \<notin> set ys" using l(1) by (simp add: lru_def)
  moreover have "brelse p b s1 = Ok (link_front b (unlink_buf b s2))"
    by (simp add: brelse_def s1_def x_def holdingsleep_def Let_def upd_buf_def s2_def)
  ultimately show ?thesis using r by (auto simp: remove1_append s1_def x_def)
qed

theorem bread_recycles_lru_witness:
  "\<exists>st' st''. bread 1 ROOTDEV 7 (bboot (\<lambda>_ _. 0)) = Ok (0, st') \<and> brelse 1 0 st' = Ok st'' \<and>
     lru st'' (0 # rev [1..<NBUF])"
proof -
  let ?z = "\<lparr>bufs = (\<lambda>_. zero_buf), disk = (\<lambda>_ _. 0), writes = []\<rparr>"
  have z: "blank ?z" by (simp add: blank_def zero_buf_def initsleeplock_def)
  have l: "lru (binit ?z) (rev [0..<NBUF])" by (rule binit_ok(8) [OF z])
  have e: "rev [0..<NBUF] = rev [1..<NBUF] @ 0 # []" by (subst upt_conv_Cons) (simp_all del: upt.simps)
  have z2: "slot (binit ?z) 7 = None" "refcnt (bufs (binit ?z) 0) = 0"
    using binit_ok(9) [OF z] by (auto simp: slot_None_iff cached_at_def blank_def)
  have "\<exists>st' st''. bread 1 ROOTDEV 7 (binit ?z) = Ok (0, st') \<and> bdata (bufs st' 0) = disk (binit ?z) 7 \<and>
    brelse 1 0 st' = Ok st'' \<and> lru st'' (0 # rev [1..<NBUF] @ [])"
  proof (rule bread_recycles_lru [OF binit_ok(1) [OF z]])
    show "lru (binit ?z) (rev [1..<NBUF] @ 0 # [])" using l unfolding e .
    show "set (rev [1..<NBUF] @ 0 # []) = {..<NBUF}" by (auto simp del: upt.simps)
  qed (use z2 in simp_all)
  then show ?thesis by (auto simp: bboot_def simp del: upt.simps)
qed

end
