(* ===== verification/Log.thy ===== *)
theory Log
  imports Bio
begin

text \<open>
  The write-ahead log, \<open>kernel/log.c\<close>. The state of the buffer cache is extended by
  \<open>struct log\<close>; \<open>log.lock\<close> guards this state only, so each of its critical sections is
  one step, and a call that would sleep is the fault \<open>Waits\<close>.

  A disk crash is a prefix of the writes of a run: \<open>commit_crash_atomic\<close> shows that after a
  crash at any point of \<open>commit\<close> the disk stands for the old or for the new contents of all
  blocks of the transaction at once, and \<open>recover_restores\<close> that \<open>recover_from_log\<close> then
  brings the home blocks to these contents, also when it is itself interrupted and run again.
\<close>

subsection \<open>Data\<close>

abbreviation LOGSIZE :: nat where "LOGSIZE \<equiv> 30"
abbreviation (input) MAXOPBLOCKS :: int where "MAXOPBLOCKS \<equiv> 10"

record superblock =
  magic :: u32
  sb_size :: u32
  nblocks :: u32
  ninodes :: u32
  nlog :: u32
  logstart :: u32
  inodestart :: u32
  bmapstart :: u32

text \<open>\<open>struct log\<close>; the block numbers of the header are C ints that are only ever compared
  with and passed as unsigned block numbers.\<close>

record lstate = bstate +
  lstart :: u32
  lsize :: int
  outstanding :: int
  committing :: bool
  ldev :: u32
  lhn :: int
  lhblock :: "u32 list"

subsection \<open>Operations\<close>

text \<open>\<open>sizeof(struct logheader)\<close>.\<close>

definition sizeof_logheader :: nat where
  "sizeof_logheader = 4 + 4 * LOGSIZE"

definition install_body :: "int \<Rightarrow> bool \<Rightarrow> nat \<Rightarrow> 'a lstate_scheme \<Rightarrow> 'a lstate_scheme res" where
  "install_body p recovering tail st =
     (if LOGSIZE \<le> tail then Err (Undef ''log.lh.block out of bounds'')
      else
        bnd (bread p (ldev st) (lstart st + of_nat tail + 1) st) (\<lambda>(lbuf, st).
        bnd (bread p (ldev st) (lhblock st ! tail) st) (\<lambda>(dbuf, st).
          let st = upd_buf dbuf (\<lambda>x. x\<lparr>bdata := bdata (bufs st lbuf)\<rparr>) st in
          bnd (bwrite p dbuf st) (\<lambda>st.
            let st = (if recovering then st else bunpin dbuf st) in
            bnd (brelse p lbuf st) (brelse p dbuf)))))"

fun install_loop :: "int \<Rightarrow> bool \<Rightarrow> nat list \<Rightarrow> 'a lstate_scheme \<Rightarrow> 'a lstate_scheme res" where
  "install_loop p recovering [] st = Ok st"
| "install_loop p recovering (tail # ts) st =
     bnd (install_body p recovering tail st) (install_loop p recovering ts)"

definition install_trans :: "int \<Rightarrow> bool \<Rightarrow> 'a lstate_scheme \<Rightarrow> 'a lstate_scheme res" where
  "install_trans p recovering st = install_loop p recovering [0..<nat (lhn st)] st"

definition read_head :: "int \<Rightarrow> 'a lstate_scheme \<Rightarrow> 'a lstate_scheme res" where
  "read_head p st =
     bnd (bread p (ldev st) (lstart st) st) (\<lambda>(b, st).
       let lh = bdata (bufs st b); n = sint (get32 lh 0) in
       if int LOGSIZE < n then Err (Undef ''log.lh.block out of bounds'')
       else
         let st = st\<lparr>lhn := n,
           lhblock := fold (\<lambda>i bs. bs[i := get32 lh (4 + 4 * i)]) [0..<nat n] (lhblock st)\<rparr>
         in brelse p b st)"

definition put_head :: "int \<Rightarrow> u32 list \<Rightarrow> block \<Rightarrow> block" where
  "put_head n bs d = fold (\<lambda>i d. put32 d (4 + 4 * i) (bs ! i)) [0..<nat n] (put32 d 0 (of_int n))"

definition write_head :: "int \<Rightarrow> 'a lstate_scheme \<Rightarrow> 'a lstate_scheme res" where
  "write_head p st =
     bnd (bread p (ldev st) (lstart st) st) (\<lambda>(b, st).
       if int LOGSIZE < lhn st then Err (Undef ''log.lh.block out of bounds'')
       else
         let st = upd_buf b (\<lambda>x. x\<lparr>bdata := put_head (lhn st) (lhblock st) (bdata x)\<rparr>) st in
         bnd (bwrite p b st) (brelse p b))"

definition recover_from_log :: "int \<Rightarrow> 'a lstate_scheme \<Rightarrow> 'a lstate_scheme res" where
  "recover_from_log p st =
     bnd (read_head p st) (\<lambda>st.
     bnd (install_trans p True st) (\<lambda>st.
       write_head p (st\<lparr>lhn := 0\<rparr>)))"

definition initlog :: "int \<Rightarrow> u32 \<Rightarrow> superblock \<Rightarrow> 'a lstate_scheme \<Rightarrow> 'a lstate_scheme res" where
  "initlog p dev sb st =
     (if BSIZE \<le> sizeof_logheader then Err (Panic ''initlog: too big logheader'')
      else recover_from_log p (st\<lparr>lstart := logstart sb, lsize := sint (nlog sb), ldev := dev\<rparr>))"

definition begin_op :: "'a lstate_scheme \<Rightarrow> 'a lstate_scheme res" where
  "begin_op st =
     (if committing st then Err (Waits ''begin_op'')
      else if int LOGSIZE < lhn st + (outstanding st + 1) * MAXOPBLOCKS then Err (Waits ''begin_op'')
      else Ok (st\<lparr>outstanding := outstanding st + 1\<rparr>))"

definition write_log_body :: "int \<Rightarrow> nat \<Rightarrow> 'a lstate_scheme \<Rightarrow> 'a lstate_scheme res" where
  "write_log_body p tail st =
     (if LOGSIZE \<le> tail then Err (Undef ''log.lh.block out of bounds'')
      else
        bnd (bread p (ldev st) (lstart st + of_nat tail + 1) st) (\<lambda>(to, st).
        bnd (bread p (ldev st) (lhblock st ! tail) st) (\<lambda>(from, st).
          let st = upd_buf to (\<lambda>x. x\<lparr>bdata := bdata (bufs st from)\<rparr>) st in
          bnd (bwrite p to st) (\<lambda>st.
          bnd (brelse p from st) (brelse p to)))))"

fun write_log_loop :: "int \<Rightarrow> nat list \<Rightarrow> 'a lstate_scheme \<Rightarrow> 'a lstate_scheme res" where
  "write_log_loop p [] st = Ok st"
| "write_log_loop p (tail # ts) st = bnd (write_log_body p tail st) (write_log_loop p ts)"

definition write_log :: "int \<Rightarrow> 'a lstate_scheme \<Rightarrow> 'a lstate_scheme res" where
  "write_log p st = write_log_loop p [0..<nat (lhn st)] st"

definition commit :: "int \<Rightarrow> 'a lstate_scheme \<Rightarrow> 'a lstate_scheme res" where
  "commit p st =
     (if 0 < lhn st then
        bnd (write_log p st) (\<lambda>st.
        bnd (write_head p st) (\<lambda>st.
        bnd (install_trans p False st) (\<lambda>st.
          write_head p (st\<lparr>lhn := 0\<rparr>))))
      else Ok st)"

definition end_op :: "int \<Rightarrow> 'a lstate_scheme \<Rightarrow> 'a lstate_scheme res" where
  "end_op p st =
     (let st = st\<lparr>outstanding := outstanding st - 1\<rparr> in
      if committing st then Err (Panic ''log.committing'')
      else if outstanding st = 0 then
        bnd (commit p (st\<lparr>committing := True\<rparr>)) (\<lambda>st. Ok (st\<lparr>committing := False\<rparr>))
      else Ok st)"

text \<open>\<open>log_index\<close> is the search of \<open>log_write\<close>: the first entry with the block, or \<open>n\<close>.\<close>

definition log_index :: "u32 \<Rightarrow> 'a lstate_scheme \<Rightarrow> nat" where
  "log_index n st = (case find (\<lambda>i. lhblock st ! i = n) [0..<nat (lhn st)] of Some i \<Rightarrow> i | None \<Rightarrow> nat (lhn st))"

definition log_write :: "nat \<Rightarrow> 'a lstate_scheme \<Rightarrow> 'a lstate_scheme res" where
  "log_write b st =
     (if int LOGSIZE \<le> lhn st \<or> lsize st - 1 \<le> lhn st then Err (Panic ''too big a transaction'')
      else if outstanding st < 1 then Err (Panic ''log_write outside of trans'')
      else
        let n = blockno (bufs st b); i = log_index n st;
            st = st\<lparr>lhblock := (lhblock st)[i := n]\<rparr>
        in Ok (if int i = lhn st then (bpin b st)\<lparr>lhn := lhn st + 1\<rparr> else st))"

subsection \<open>One block at a time\<close>

text \<open>The fields of \<open>struct log\<close> are not touched by the buffer cache.\<close>

definition log_part :: "'a lstate_scheme \<Rightarrow> u32 \<times> int \<times> int \<times> bool \<times> u32 \<times> int \<times> u32 list \<times> 'a" where
  "log_part st = (lstart st, lsize st, outstanding st, committing st, ldev st, lhn st, lhblock st, lstate.more st)"

lemma more_log_part: "bstate.more st' = bstate.more st \<Longrightarrow> log_part st' = log_part st"
  by (cases st; cases st') (simp add: log_part_def)

lemma log_part_eq: "log_part st' = log_part st \<Longrightarrow> lstart st' = lstart st \<and> ldev st' = ldev st \<and>
    lhn st' = lhn st \<and> lhblock st' = lhblock st \<and> lsize st' = lsize st \<and> outstanding st' = outstanding st \<and>
    committing st' = committing st \<and> lstate.more st' = lstate.more st"
  by (simp add: log_part_def)

lemma bframe_more: "bframe st st' \<Longrightarrow> bstate.more st' = bstate.more st"
  by (simp add: bframe_def)

lemma bframe_cached: "bframe st st' \<Longrightarrow> cached_at st c m \<Longrightarrow> arefs (bview_of st) m \<noteq> 0 \<Longrightarrow> cached_at st' c m"
  by (auto simp: bframe_def)

lemma cached_data:
  assumes "bc_ok st" "cached_at st b n" "arefs (bview_of st) n \<noteq> 0"
  shows "bdata (bufs st b) = acont (bview_of st) n"
proof -
  have "valid (bufs st b)"
    using bc_ok_buf [OF assms(1), of b] assms by (auto simp: cached_at_def bview_at [OF assms(1,2)] buf_ok_def split: if_splits)
  then show ?thesis by (simp add: bview_at [OF assms(1,2)])
qed

text \<open>Two blocks are read, as every loop of the log does.\<close>

lemma bread2_ok:
  assumes ok: "bc_ok st" and ab: "a \<noteq> b" and v: "bview_of st = V"
    and free: "aheld V a = None" "aheld V b = None" and ra: "arefs V a = 0" and rb: "arefs V b + 1 \<noteq> 0"
    and room: "card {m. arefs V m \<noteq> 0} + (if arefs V b = 0 then 2 else 1) \<le> NBUF"
  shows "\<exists>x y s1 s2. bread p ROOTDEV a st = Ok (x, s1) \<and> bread p ROOTDEV b s1 = Ok (y, s2) \<and>
    bc_ok s2 \<and> cached_at s2 x a \<and> cached_at s2 y b \<and>
    bstate.more s1 = bstate.more st \<and> bstate.more s2 = bstate.more st \<and>
    bview_of s2 = V\<lparr>arefs := (arefs V)(a := 1, b := arefs V b + 1), aheld := (aheld V)(a := Some p, b := Some p)\<rparr>"
proof -
  have fin: "finite {m. arefs V m \<noteq> 0}" by simp
  have "\<exists>x s1. bread p ROOTDEV a st = Ok (x, s1) \<and> bread_post p a st x s1"
    using ok free(1) ra room v by (intro bread_ok) (auto split: if_splits)
  then obtain x s1 where x: "bread p ROOTDEV a st = Ok (x, s1)" "bc_ok s1" "cached_at s1 x a" "bframe st s1"
    "bview_of s1 = V\<lparr>arefs := (arefs V)(a := 1), aheld := (aheld V)(a := Some p)\<rparr>"
    using ra v by (auto simp: bread_post_def)
  have set1: "{m. arefs (bview_of s1) m \<noteq> 0} = insert a {m. arefs V m \<noteq> 0}" by (auto simp: x(5))
  have "card {m. arefs (bview_of s1) m \<noteq> 0} \<le> card {m. arefs V m \<noteq> 0} + 1"
    unfolding set1 using fin by (simp add: card_insert_if)
  moreover have "arefs (bview_of s1) b = arefs V b" using ab by (simp add: x(5))
  ultimately have room1: "arefs (bview_of s1) b \<noteq> 0 \<or> card {m. arefs (bview_of s1) m \<noteq> 0} < NBUF"
    using room by (cases "arefs V b = 0") simp_all
  have free1: "aheld (bview_of s1) b = None" and cnt1: "arefs (bview_of s1) b + 1 \<noteq> 0"
    using free(2) ab rb by (simp_all add: x(5))
  obtain y s2 where y: "bread p ROOTDEV b s1 = Ok (y, s2)" "bread_post p b s1 y s2"
    using bread_ok [OF x(2) free1 cnt1 room1] by blast
  have "cached_at s2 x a" using y(2) x(3) bframe_cached [of s1 s2 x a] by (simp add: bread_post_def x(5))
  with x y(1,2) ab show ?thesis
    by (intro exI [of _ x] exI [of _ y] exI [of _ s1] exI [of _ s2])
      (auto simp: bread_post_def bframe_more fun_upd_twist)
qed

text \<open>Copying block \<open>a\<close> of the log to its home \<open>b\<close>.\<close>

lemma install_body_ok:
  assumes ok: "bc_ok st" and dev: "ldev st = ROOTDEV" and t: "tail < LOGSIZE"
    and a: "a = lstart st + of_nat tail + 1" and b: "b = lhblock st ! tail" and ab: "a \<noteq> b" and v: "bview_of st = V"
    and free: "aheld V a = None" "aheld V b = None" and ra: "arefs V a = 0" and rb: "arefs V b = (if recovering then 0 else 1)"
    and room: "card {m. arefs V m \<noteq> 0} + (if recovering then 2 else 1) \<le> NBUF"
  shows "\<exists>st'. install_body p recovering tail st = Ok st' \<and> bc_ok st' \<and> bstate.more st' = bstate.more st \<and>
    bview_of st' = V\<lparr>arefs := (arefs V)(b := 0), acont := (acont V)(b := acont V a),
      adisk := (adisk V)(b := acont V a), awrites := awrites V @ [(b, acont V a)]\<rparr>"
proof -
  have rb': "arefs V b + 1 \<noteq> 0" using rb by simp
  have room': "card {m. arefs V m \<noteq> 0} + (if arefs V b = 0 then 2 else 1) \<le> NBUF"
    using rb room by (simp split: if_splits)
  obtain x y s1 s2 where r: "bread p ROOTDEV a st = Ok (x, s1)" "bread p ROOTDEV b s1 = Ok (y, s2)"
    and s2: "bc_ok s2" "cached_at s2 x a" "cached_at s2 y b" "bstate.more s1 = bstate.more st" "bstate.more s2 = bstate.more st"
      "bview_of s2 = V\<lparr>arefs := (arefs V)(a := 1, b := arefs V b + 1), aheld := (aheld V)(a := Some p, b := Some p)\<rparr>"
    using bread2_ok [OF ok ab v free ra rb' room', of p] by blast
  have clean: "acont V a = adisk V a" using bview_clean [OF ok, of a] ra v by auto
  have dx: "bdata (bufs s2 x) = acont V a" using cached_data [OF s2(1,2)] ab by (simp add: s2(6))
  define s3 where "s3 = upd_buf y (\<lambda>z. z\<lparr>bdata := acont V a\<rparr>) s2"
  have cnt: "arefs (bview_of s2) b \<noteq> 0" using rb' by (simp add: s2(6))
  note sd = set_data_ok [OF s2(1,3) cnt, of "acont V a", folded s3_def]
  have c3: "cached_at s3 x a" using bframe_cached [OF sd(3) s2(2)] ab by (simp add: s2(6))
  have v3: "aheld (bview_of s3) b = Some p" "arefs (bview_of s3) b \<noteq> 0" using rb' by (simp_all add: sd(4) s2(6))
  obtain s4 where s4: "bwrite p y s3 = Ok s4" "bc_ok s4" "bframe s3 s4" "cached_at s4 y b"
    "bview_of s4 = (bview_of s3)\<lparr>adisk := (disk s3)(b := acont (bview_of s3) b), awrites := writes s3 @ [(b, acont (bview_of s3) b)]\<rparr>"
    using bwrite_ok [OF sd(1,2) v3] by blast
  have c4: "cached_at s4 x a" using bframe_cached [OF s4(3) c3] ab by (simp add: sd(4) s2(6))
  have d3: "disk s3 = adisk V" "writes s3 = awrites V" using sd(4) s2(6) bview_disk [of s3] by simp_all
  have w4: "bview_of s4 = V\<lparr>arefs := (arefs V)(a := 1, b := arefs V b + 1), aheld := (aheld V)(a := Some p, b := Some p),
      acont := (acont V)(b := acont V a), adisk := (adisk V)(b := acont V a), awrites := awrites V @ [(b, acont V a)]\<rparr>"
    by (simp add: s4(5) sd(4) s2(6) d3)
  define s5 where "s5 = (if recovering then s4 else bunpin y s4)"
  have s5: "bc_ok s5" "cached_at s5 x a" "cached_at s5 y b" "bstate.more s5 = bstate.more s4"
    "bview_of s5 = V\<lparr>arefs := (arefs V)(a := 1, b := 1), aheld := (aheld V)(a := Some p, b := Some p),
      acont := (acont V)(b := acont V a), adisk := (adisk V)(b := acont V a), awrites := awrites V @ [(b, acont V a)]\<rparr>"
  proof -
    have "bc_ok s5 \<and> cached_at s5 x a \<and> cached_at s5 y b \<and> bstate.more s5 = bstate.more s4 \<and>
      bview_of s5 = V\<lparr>arefs := (arefs V)(a := 1, b := 1), aheld := (aheld V)(a := Some p, b := Some p),
      acont := (acont V)(b := acont V a), adisk := (adisk V)(b := acont V a), awrites := awrites V @ [(b, acont V a)]\<rparr>"
    proof (cases recovering)
      case True
      then show ?thesis using s4(2,4) c4 rb w4 by (simp add: s5_def)
    next
      case False
      then have "arefs (bview_of s4) b = 2" using rb by (simp add: w4)
      with bunpin_ok [OF s4(2,4)] have bu: "bc_ok (bunpin y s4)" "cached_at (bunpin y s4) y b" "bframe s4 (bunpin y s4)"
        "bview_of (bunpin y s4) = (bview_of s4)\<lparr>arefs := (arefs (bview_of s4))(b := 1)\<rparr>" by simp_all
      moreover have "cached_at (bunpin y s4) x a" using bframe_cached [OF bu(3) c4] ab by (simp add: w4)
      ultimately show ?thesis using False by (simp add: s5_def bframe_more w4)
    qed
    then show "bc_ok s5" "cached_at s5 x a" "cached_at s5 y b" "bstate.more s5 = bstate.more s4"
      "bview_of s5 = V\<lparr>arefs := (arefs V)(a := 1, b := 1), aheld := (aheld V)(a := Some p, b := Some p),
      acont := (acont V)(b := acont V a), adisk := (adisk V)(b := acont V a), awrites := awrites V @ [(b, acont V a)]\<rparr>" by blast+
  qed
  have d5: "disk s5 = (adisk V)(b := acont V a)" "writes s5 = awrites V @ [(b, acont V a)]"
    using s5(5) bview_disk [of s5] by simp_all
  obtain s6 where s6: "brelse p x s5 = Ok s6" "bc_ok s6" "bframe s5 s6"
    "bview_of s6 = (bview_of s5)\<lparr>arefs := (arefs (bview_of s5))(a := arefs (bview_of s5) a - 1), aheld := (aheld (bview_of s5))(a := None)\<rparr>"
    using brelse_ok [OF s5(1,2), of p] ab clean by (auto simp: s5(5) w4 d5)
  have c6: "cached_at s6 y b" using bframe_cached [OF s6(3) s5(3)] by (simp add: s5(5))
  have d6: "disk s6 = disk s5" using s6(4) bview_disk [of s6] by simp
  obtain s7 where s7: "brelse p y s6 = Ok s7" "bc_ok s7" "bframe s6 s7"
    "bview_of s7 = (bview_of s6)\<lparr>arefs := (arefs (bview_of s6))(b := arefs (bview_of s6) b - 1), aheld := (aheld (bview_of s6))(b := None)\<rparr>"
    using brelse_ok [OF s6(2) c6, of p] ab by (auto simp: s6(4) s5(5) w4 d6 d5)
  have lp: "ldev s1 = ROOTDEV" "lhblock s1 = lhblock st"
    using log_part_eq [OF more_log_part [OF s2(4)]] dev by auto
  have run: "install_body p recovering tail st = Ok s7"
    using r t lp s4(1) s6(1) s7(1) dx dev
    by (simp add: install_body_def a [symmetric] b [symmetric] Let_def s3_def [symmetric] s5_def [symmetric])
  have "bstate.more s7 = bstate.more st"
    using s2(5) bframe_more [OF sd(3)] bframe_more [OF s4(3)] s5(4) bframe_more [OF s6(3)] bframe_more [OF s7(3)] by simp
  moreover have "bview_of s7 = V\<lparr>arefs := (arefs V)(b := 0), acont := (acont V)(b := acont V a),
      adisk := (adisk V)(b := acont V a), awrites := awrites V @ [(b, acont V a)]\<rparr>"
    using ab free ra by (intro bview.equality) (auto simp: s7(4) s6(4) s5(5) w4 fun_eq_iff)
  ultimately show ?thesis using run s7(2) by blast
qed

text \<open>Copying the cached block \<open>b\<close> to its place \<open>a\<close> in the log.\<close>

lemma write_log_body_ok:
  assumes ok: "bc_ok st" and dev: "ldev st = ROOTDEV" and t: "tail < LOGSIZE"
    and a: "a = lstart st + of_nat tail + 1" and b: "b = lhblock st ! tail" and ab: "a \<noteq> b" and v: "bview_of st = V"
    and free: "aheld V a = None" "aheld V b = None" and ra: "arefs V a = 0" and rb: "arefs V b = 1"
    and room: "card {m. arefs V m \<noteq> 0} < NBUF"
  shows "\<exists>st'. write_log_body p tail st = Ok st' \<and> bc_ok st' \<and> bstate.more st' = bstate.more st \<and>
    bview_of st' = V\<lparr>acont := (acont V)(a := acont V b),
      adisk := (adisk V)(a := acont V b), awrites := awrites V @ [(a, acont V b)]\<rparr>"
proof -
  have rb': "arefs V b + 1 \<noteq> 0" and room': "card {m. arefs V m \<noteq> 0} + (if arefs V b = 0 then 2 else 1) \<le> NBUF"
    using rb room by simp_all
  obtain x y s1 s2 where r: "bread p ROOTDEV a st = Ok (x, s1)" "bread p ROOTDEV b s1 = Ok (y, s2)"
    and s2: "bc_ok s2" "cached_at s2 x a" "cached_at s2 y b" "bstate.more s1 = bstate.more st" "bstate.more s2 = bstate.more st"
      "bview_of s2 = V\<lparr>arefs := (arefs V)(a := 1, b := arefs V b + 1), aheld := (aheld V)(a := Some p, b := Some p)\<rparr>"
    using bread2_ok [OF ok ab v free ra rb' room', of p] by blast
  have dy: "bdata (bufs s2 y) = acont V b" using cached_data [OF s2(1,3)] rb by (simp add: s2(6))
  define s3 where "s3 = upd_buf x (\<lambda>z. z\<lparr>bdata := acont V b\<rparr>) s2"
  have cnt: "arefs (bview_of s2) a \<noteq> 0" using ab by (simp add: s2(6))
  note sd = set_data_ok [OF s2(1,2) cnt, of "acont V b", folded s3_def]
  have c3: "cached_at s3 y b" using bframe_cached [OF sd(3) s2(3)] rb by (simp add: s2(6))
  have v3: "aheld (bview_of s3) a = Some p" "arefs (bview_of s3) a \<noteq> 0" using ab by (simp_all add: sd(4) s2(6))
  obtain s4 where s4: "bwrite p x s3 = Ok s4" "bc_ok s4" "bframe s3 s4" "cached_at s4 x a"
    "bview_of s4 = (bview_of s3)\<lparr>adisk := (disk s3)(a := acont (bview_of s3) a), awrites := writes s3 @ [(a, acont (bview_of s3) a)]\<rparr>"
    using bwrite_ok [OF sd(1,2) v3] by blast
  have c4: "cached_at s4 y b" using bframe_cached [OF s4(3) c3] rb by (simp add: sd(4) s2(6))
  have d3: "disk s3 = adisk V" "writes s3 = awrites V" using sd(4) s2(6) bview_disk [of s3] by simp_all
  have w4: "bview_of s4 = V\<lparr>arefs := (arefs V)(a := 1, b := 2), aheld := (aheld V)(a := Some p, b := Some p),
      acont := (acont V)(a := acont V b), adisk := (adisk V)(a := acont V b), awrites := awrites V @ [(a, acont V b)]\<rparr>"
    by (simp add: s4(5) sd(4) s2(6) d3 rb)
  have d4: "disk s4 = (adisk V)(a := acont V b)" using w4 bview_disk [of s4] by simp
  obtain s6 where s6: "brelse p y s4 = Ok s6" "bc_ok s6" "bframe s4 s6"
    "bview_of s6 = (bview_of s4)\<lparr>arefs := (arefs (bview_of s4))(b := arefs (bview_of s4) b - 1), aheld := (aheld (bview_of s4))(b := None)\<rparr>"
    using brelse_ok [OF s4(2) c4, of p] by (auto simp: w4)
  have c6: "cached_at s6 x a" using bframe_cached [OF s6(3) s4(4)] ab by (simp add: w4)
  have d6: "disk s6 = disk s4" using s6(4) bview_disk [of s6] by simp
  obtain s7 where s7: "brelse p x s6 = Ok s7" "bc_ok s7" "bframe s6 s7"
    "bview_of s7 = (bview_of s6)\<lparr>arefs := (arefs (bview_of s6))(a := arefs (bview_of s6) a - 1), aheld := (aheld (bview_of s6))(a := None)\<rparr>"
    using brelse_ok [OF s6(2) c6, of p] ab by (auto simp: s6(4) w4 d6 d4)
  have lp: "ldev s1 = ROOTDEV" "lhblock s1 = lhblock st"
    using log_part_eq [OF more_log_part [OF s2(4)]] dev by auto
  have run: "write_log_body p tail st = Ok s7"
    using r t lp s4(1) s6(1) s7(1) dy dev
    by (simp add: write_log_body_def a [symmetric] b [symmetric] Let_def s3_def [symmetric])
  have "bstate.more s7 = bstate.more st"
    using s2(5) bframe_more [OF sd(3)] bframe_more [OF s4(3)] bframe_more [OF s6(3)] bframe_more [OF s7(3)] by simp
  moreover have "bview_of s7 = V\<lparr>acont := (acont V)(a := acont V b),
      adisk := (adisk V)(a := acont V b), awrites := awrites V @ [(a, acont V b)]\<rparr>"
    using ab free ra rb by (intro bview.equality) (auto simp: s7(4) s6(4) w4 fun_eq_iff)
  ultimately show ?thesis using run s7(2) by blast
qed

lemma more_upd [simp]: "bstate.more (upd_buf b f st) = bstate.more st"
  by (simp add: upd_buf_def)

text \<open>Writing the header block.\<close>

lemma write_head_ok:
  assumes ok: "bc_ok st" and dev: "ldev st = ROOTDEV" and n: "lhn st \<le> int LOGSIZE" and v: "bview_of st = V"
    and free: "arefs V (lstart st) = 0" and room: "card {m. arefs V m \<noteq> 0} < NBUF"
  defines "h \<equiv> put_head (lhn st) (lhblock st) (adisk V (lstart st))"
  shows "\<exists>st'. write_head p st = Ok st' \<and> bc_ok st' \<and> bstate.more st' = bstate.more st \<and>
    bview_of st' = V\<lparr>acont := (acont V)(lstart st := h), adisk := (adisk V)(lstart st := h),
      awrites := awrites V @ [(lstart st, h)]\<rparr>"
proof -
  let ?a = "lstart st"
  have cl: "acont V ?a = adisk V ?a" "aheld V ?a = None" using bview_clean [OF ok, of ?a] free v by auto
  obtain x s1 where x: "bread p ROOTDEV ?a st = Ok (x, s1)" "bc_ok s1" "cached_at s1 x ?a" "bframe st s1"
    "bview_of s1 = V\<lparr>arefs := (arefs V)(?a := 1), aheld := (aheld V)(?a := Some p)\<rparr>"
    using bread_ok [OF ok, of ?a p] cl free room v by (auto simp: bread_post_def)
  have cnt: "arefs (bview_of s1) ?a \<noteq> 0" by (simp add: x(5))
  have dx: "bdata (bufs s1 x) = adisk V ?a" using cached_data [OF x(2,3) cnt] by (simp add: x(5) cl(1))
  have lp: "lhn s1 = lhn st" "lhblock s1 = lhblock st"
    using log_part_eq [OF more_log_part [OF bframe_more [OF x(4)]]] by auto
  define s2 where "s2 = upd_buf x (\<lambda>z. z\<lparr>bdata := h\<rparr>) s1"
  note sd = set_data_ok [OF x(2,3) cnt, of h, folded s2_def]
  have d2: "disk s2 = adisk V" "writes s2 = awrites V" using sd(4) x(5) bview_disk [of s2] by simp_all
  obtain s3 where s3: "bwrite p x s2 = Ok s3" "bc_ok s3" "bframe s2 s3" "cached_at s3 x ?a"
    "bview_of s3 = (bview_of s2)\<lparr>adisk := (disk s2)(?a := acont (bview_of s2) ?a), awrites := writes s2 @ [(?a, acont (bview_of s2) ?a)]\<rparr>"
    using bwrite_ok [OF sd(1,2), of p] by (auto simp: sd(4) x(5))
  have d3: "disk s3 = (adisk V)(?a := h)" using s3(5) bview_disk [of s3] by (simp add: sd(4) d2)
  obtain s4 where s4: "brelse p x s3 = Ok s4" "bc_ok s4" "bframe s3 s4"
    "bview_of s4 = (bview_of s3)\<lparr>arefs := (arefs (bview_of s3))(?a := arefs (bview_of s3) ?a - 1), aheld := (aheld (bview_of s3))(?a := None)\<rparr>"
    using brelse_ok [OF s3(2,4), of p] by (auto simp: s3(5) sd(4) x(5) d3)
  have "upd_buf x (\<lambda>z. z\<lparr>bdata := put_head (lhn s1) (lhblock s1) (bdata z)\<rparr>) s1 = s2"
    by (simp add: s2_def upd_buf_def h_def lp dx)
  then have "write_head p st = Ok s4" using x(1) n s3(1) s4(1) dev lp by (simp add: write_head_def Let_def)
  moreover have "bstate.more s4 = bstate.more st"
    using bframe_more [OF x(4)] bframe_more [OF sd(3)] bframe_more [OF s3(3)] bframe_more [OF s4(3)] by simp
  moreover have "bview_of s4 = V\<lparr>acont := (acont V)(lstart st := h), adisk := (adisk V)(lstart st := h),
      awrites := awrites V @ [(lstart st, h)]\<rparr>"
    using free cl by (intro bview.equality) (auto simp: s4(4) s3(5) sd(4) x(5) d2 fun_eq_iff)
  ultimately show ?thesis using s4(2) by blast
qed

subsection \<open>The loops\<close>

definition upds :: "(u32 \<Rightarrow> block) \<Rightarrow> (u32 \<times> block) list \<Rightarrow> u32 \<Rightarrow> block" where
  "upds d ws = foldl (\<lambda>d (n, b). d(n := b)) d ws"

lemma upds_simps [simp]: "upds d [] = d" "upds d ((n, b) # ws) = upds (d(n := b)) ws"
  "upds d (xs @ ys) = upds (upds d xs) ys"
  by (simp_all add: upds_def)

lemma upds_map: "upds d (map (\<lambda>t. (f t, g t)) ts) m = (case find (\<lambda>t. f t = m) (rev ts) of Some t \<Rightarrow> g t | None \<Rightarrow> d m)"
proof (induction ts rule: rev_induct)
  case (snoc x xs)
  then show ?case by auto
qed simp

lemma upds_map_inj: "inj_on f (set ts) \<Longrightarrow> t \<in> set ts \<Longrightarrow> upds d (map (\<lambda>t. (f t, g t)) ts) (f t) = g t"
  by (induction ts rule: rev_induct) (auto simp: inj_on_def)

lemma upds_other: "m \<notin> fst ` set ws \<Longrightarrow> upds d ws m = d m"
  by (induction ws arbitrary: d) auto

definition logaddr :: "u32 \<Rightarrow> nat \<Rightarrow> u32" where
  "logaddr s i = s + of_nat i + 1"


text \<open>The header and the data blocks of the log. \<open>log_write\<close> refuses block \<open>log.size - 1\<close>, so that with the \<open>LOGSIZE\<close>
  blocks \<open>mkfs\<close> reserves the data has one block less.\<close>

definition logarea :: "u32 \<Rightarrow> u32 set" where
  "logarea s = insert s (logaddr s ` {..<LOGSIZE - 1})"

lemma of_nat_small_eq: "i < 4294967296 \<Longrightarrow> j < 4294967296 \<Longrightarrow> (of_nat i :: u32) = of_nat j \<longleftrightarrow> i = j"
  by (simp add: word_of_nat_eq_iff take_bit_nat_eq_self)

lemma logaddr_inj: "i < LOGSIZE \<Longrightarrow> j < LOGSIZE \<Longrightarrow> logaddr s i = logaddr s j \<longleftrightarrow> i = j"
  by (simp add: logaddr_def of_nat_small_eq)

lemma logaddr_start: "i < LOGSIZE \<Longrightarrow> logaddr s i \<noteq> s"
  using of_nat_small_eq [of "Suc i" 0] by (simp add: logaddr_def add.assoc add.commute [of 1])

lemma logaddr_area: "i < LOGSIZE - 1 \<Longrightarrow> logaddr s i \<in> logarea s" "s \<in> logarea s"
  by (simp_all add: logarea_def)

lemma area_neq: "m \<notin> logarea s \<Longrightarrow> i < LOGSIZE - 1 \<Longrightarrow> logaddr s i \<noteq> m" "m \<notin> logarea s \<Longrightarrow> s \<noteq> m"
  by (auto simp: logarea_def)

lemma less_LOGSIZE: "i < LOGSIZE - 1 \<Longrightarrow> i < LOGSIZE"
  by simp

lemma install_loop_ok:
  assumes "bc_ok st" "ldev st = ROOTDEV" "bview_of st = V" "lstart st = s" "lhblock st = bs"
    "\<forall>t\<in>set ts. t < LOGSIZE - 1 \<and> bs ! t \<notin> logarea s \<and> aheld V (logaddr s t) = None \<and> aheld V (bs ! t) = None \<and>
       arefs V (logaddr s t) = 0 \<and> arefs V (bs ! t) = (if recovering then 0 else 1)"
    "recovering \<or> distinct (map (\<lambda>t. bs ! t) ts)"
    "card {m. arefs V m \<noteq> 0} + (if recovering then 2 else 1) \<le> NBUF"
  defines "ws \<equiv> map (\<lambda>t. (bs ! t, acont V (logaddr s t))) ts"
  shows "\<exists>st'. install_loop p recovering ts st = Ok st' \<and> bc_ok st' \<and> bstate.more st' = bstate.more st \<and>
    bview_of st' = V\<lparr>arefs := (\<lambda>m. if m \<in> (\<lambda>t. bs ! t) ` set ts then 0 else arefs V m),
      acont := upds (acont V) ws, adisk := upds (adisk V) ws, awrites := awrites V @ ws\<rparr>"
  using assms(1-8) unfolding ws_def
proof (induction ts arbitrary: st V)
  case Nil
  then show ?case by simp
next
  case (Cons t ts)
  let ?a = "logaddr s t" and ?b = "bs ! t"
  have t: "t < LOGSIZE - 1" "?b \<notin> logarea s" "aheld V ?a = None" "aheld V ?b = None" "arefs V ?a = 0"
    "arefs V ?b = (if recovering then 0 else 1)" using Cons.prems(6) by simp_all
  define V1 where "V1 = V\<lparr>arefs := (arefs V)(?b := 0), acont := (acont V)(?b := acont V ?a),
      adisk := (adisk V)(?b := acont V ?a), awrites := awrites V @ [(?b, acont V ?a)]\<rparr>"
  obtain s1 where s1: "install_body p recovering t st = Ok s1" "bc_ok s1" "bstate.more s1 = bstate.more st" "bview_of s1 = V1"
    using install_body_ok [OF Cons.prems(1,2) less_LOGSIZE [OF t(1)], of ?a ?b V recovering p] area_neq(1) [OF t(2,1)] t(3-6) Cons.prems(3-5,8)
    by (auto simp: logaddr_def V1_def)
  have lp: "ldev s1 = ROOTDEV" "lstart s1 = s" "lhblock s1 = bs"
    using log_part_eq [OF more_log_part [OF s1(3)]] Cons.prems(2,4,5) by auto
  have nb: "recovering \<or> ?b \<notin> (\<lambda>t. bs ! t) ` set ts" using Cons.prems(7) by auto
  have ne: "logaddr s u \<noteq> ?b" if "u < LOGSIZE - 1" for u using area_neq(1) [OF t(2) that] .
  have inv: "\<forall>u\<in>set ts. u < LOGSIZE - 1 \<and> bs ! u \<notin> logarea s \<and> aheld V1 (logaddr s u) = None \<and> aheld V1 (bs ! u) = None \<and>
       arefs V1 (logaddr s u) = 0 \<and> arefs V1 (bs ! u) = (if recovering then 0 else 1)"
    using Cons.prems(6) nb by (force simp: V1_def image_iff)
  have "card {m. arefs V1 m \<noteq> 0} \<le> card {m. arefs V m \<noteq> 0}"
    by (rule card_mono) (auto simp: V1_def)
  with Cons.prems(8) have room: "card {m. arefs V1 m \<noteq> 0} + (if recovering then 2 else 1) \<le> NBUF" by linarith
  have dis: "recovering \<or> distinct (map (\<lambda>t. bs ! t) ts)" using Cons.prems(7) by auto
  have mapeq: "map (\<lambda>t. (bs ! t, acont V1 (logaddr s t))) ts = map (\<lambda>t. (bs ! t, acont V (logaddr s t))) ts"
    using Cons.prems(6) ne by (auto simp: V1_def)
  obtain st' where st': "install_loop p recovering ts s1 = Ok st'" "bc_ok st'" "bstate.more st' = bstate.more s1"
    "bview_of st' = V1\<lparr>arefs := (\<lambda>m. if m \<in> (\<lambda>t. bs ! t) ` set ts then 0 else arefs V1 m),
      acont := upds (acont V1) (map (\<lambda>t. (bs ! t, acont V (logaddr s t))) ts),
      adisk := upds (adisk V1) (map (\<lambda>t. (bs ! t, acont V (logaddr s t))) ts),
      awrites := awrites V1 @ map (\<lambda>t. (bs ! t, acont V (logaddr s t))) ts\<rparr>"
    using Cons.IH [OF s1(2) lp(1) s1(4) lp(2,3) inv dis room] unfolding mapeq by blast
  have "bview_of st' = V\<lparr>arefs := (\<lambda>m. if m \<in> (\<lambda>t. bs ! t) ` set (t # ts) then 0 else arefs V m),
      acont := upds (acont V) (map (\<lambda>t. (bs ! t, acont V (logaddr s t))) (t # ts)),
      adisk := upds (adisk V) (map (\<lambda>t. (bs ! t, acont V (logaddr s t))) (t # ts)),
      awrites := awrites V @ map (\<lambda>t. (bs ! t, acont V (logaddr s t))) (t # ts)\<rparr>"
    unfolding st'(4) V1_def by (intro bview.equality) auto
  with s1(1,3) st'(1-3) show ?case by simp
qed

lemma write_log_loop_ok:
  assumes "bc_ok st" "ldev st = ROOTDEV" "bview_of st = V" "lstart st = s" "lhblock st = bs"
    "\<forall>t\<in>set ts. t < LOGSIZE - 1 \<and> bs ! t \<notin> logarea s \<and> aheld V (logaddr s t) = None \<and> aheld V (bs ! t) = None \<and>
       arefs V (logaddr s t) = 0 \<and> arefs V (bs ! t) = 1"
    "card {m. arefs V m \<noteq> 0} < NBUF"
  defines "ws \<equiv> map (\<lambda>t. (logaddr s t, acont V (bs ! t))) ts"
  shows "\<exists>st'. write_log_loop p ts st = Ok st' \<and> bc_ok st' \<and> bstate.more st' = bstate.more st \<and>
    bview_of st' = V\<lparr>acont := upds (acont V) ws, adisk := upds (adisk V) ws, awrites := awrites V @ ws\<rparr>"
  using assms(1-7) unfolding ws_def
proof (induction ts arbitrary: st V)
  case Nil
  then show ?case by simp
next
  case (Cons t ts)
  let ?a = "logaddr s t" and ?b = "bs ! t"
  have t: "t < LOGSIZE - 1" "?b \<notin> logarea s" "aheld V ?a = None" "aheld V ?b = None" "arefs V ?a = 0"
    "arefs V ?b = 1" using Cons.prems(6) by simp_all
  define V1 where "V1 = V\<lparr>acont := (acont V)(?a := acont V ?b),
      adisk := (adisk V)(?a := acont V ?b), awrites := awrites V @ [(?a, acont V ?b)]\<rparr>"
  obtain s1 where s1: "write_log_body p t st = Ok s1" "bc_ok s1" "bstate.more s1 = bstate.more st" "bview_of s1 = V1"
    using write_log_body_ok [OF Cons.prems(1,2) less_LOGSIZE [OF t(1)], of ?a ?b V p] area_neq(1) [OF t(2,1)] t(3-6) Cons.prems(3-5,7)
    by (auto simp: logaddr_def V1_def)
  have lp: "ldev s1 = ROOTDEV" "lstart s1 = s" "lhblock s1 = bs"
    using log_part_eq [OF more_log_part [OF s1(3)]] Cons.prems(2,4,5) by auto
  have inv: "\<forall>u\<in>set ts. u < LOGSIZE - 1 \<and> bs ! u \<notin> logarea s \<and> aheld V1 (logaddr s u) = None \<and> aheld V1 (bs ! u) = None \<and>
       arefs V1 (logaddr s u) = 0 \<and> arefs V1 (bs ! u) = 1"
    using Cons.prems(6) by (auto simp: V1_def)
  have room: "card {m. arefs V1 m \<noteq> 0} < NBUF" using Cons.prems(7) by (simp add: V1_def)
  have mapeq: "map (\<lambda>t. (logaddr s t, acont V1 (bs ! t))) ts = map (\<lambda>t. (logaddr s t, acont V (bs ! t))) ts"
    using Cons.prems(6) area_neq(1) [OF _ t(1)] by (auto simp: V1_def)
  obtain st' where st': "write_log_loop p ts s1 = Ok st'" "bc_ok st'" "bstate.more st' = bstate.more s1"
    "bview_of st' = V1\<lparr>acont := upds (acont V1) (map (\<lambda>t. (logaddr s t, acont V (bs ! t))) ts),
      adisk := upds (adisk V1) (map (\<lambda>t. (logaddr s t, acont V (bs ! t))) ts),
      awrites := awrites V1 @ map (\<lambda>t. (logaddr s t, acont V (bs ! t))) ts\<rparr>"
    using Cons.IH [OF s1(2) lp(1) s1(4) lp(2,3) inv room] unfolding mapeq by blast
  with s1(1,3) show ?case by (simp add: V1_def)
qed

subsection \<open>Commit and recovery\<close>

lemma log_part_more: "bstate.more st' = bstate.more st \<Longrightarrow> lstart st = s \<Longrightarrow> ldev st = ROOTDEV \<Longrightarrow> lhblock st = bs \<Longrightarrow>
    lhn st = n \<Longrightarrow> lstart st' = s \<and> ldev st' = ROOTDEV \<and> lhblock st' = bs \<and> lhn st' = n"
  using log_part_eq [OF more_log_part, of st' st] by simp

lemma bview_log [simp]:
  "bview_of (st\<lparr>lhn := n\<rparr>) = bview_of st" "bc_ok (st\<lparr>lhn := n\<rparr>) = bc_ok st" "cached_at (st\<lparr>lhn := n\<rparr>) = cached_at st"
  "bview_of (st\<lparr>lhblock := bs\<rparr>) = bview_of st" "bc_ok (st\<lparr>lhblock := bs\<rparr>) = bc_ok st"
  "cached_at (st\<lparr>lhblock := bs\<rparr>) = cached_at st"
  "bview_of (st\<lparr>outstanding := k\<rparr>) = bview_of st" "bc_ok (st\<lparr>outstanding := k\<rparr>) = bc_ok st"
  "bview_of (st\<lparr>committing := c\<rparr>) = bview_of st" "bc_ok (st\<lparr>committing := c\<rparr>) = bc_ok st"
  by (rule bview_ext; simp)+

text \<open>A transaction ready to commit: the logged blocks are distinct, outside of the log, each
  pinned once and not locked; nothing else is referenced.\<close>

definition tx_ok :: "'a lstate_scheme \<Rightarrow> bool" where
  "tx_ok st \<longleftrightarrow> bc_ok st \<and> ldev st = ROOTDEV \<and> 0 \<le> lhn st \<and> lhn st < int LOGSIZE \<and> length (lhblock st) = LOGSIZE \<and>
     (let ns = take (nat (lhn st)) (lhblock st) in
        distinct ns \<and> set ns \<inter> logarea (lstart st) = {} \<and>
        (\<forall>m. aheld (bview_of st) m = None \<and> arefs (bview_of st) m = (if m \<in> set ns then 1 else 0)))"

text \<open>The writes of \<open>commit\<close>: the log, the header, the home blocks, the empty header.\<close>

definition commit_writes :: "u32 \<Rightarrow> u32 list \<Rightarrow> nat \<Rightarrow> u32 list \<Rightarrow> (u32 \<Rightarrow> block) \<Rightarrow> (u32 \<Rightarrow> block) \<Rightarrow> (u32 \<times> block) list" where
  "commit_writes s bs n bs' c d =
     (let h = put_head (int n) bs (d s) in
      map (\<lambda>t. (logaddr s t, c (bs ! t))) [0..<n] @ [(s, h)] @ map (\<lambda>t. (bs ! t, c (bs ! t))) [0..<n] @ [(s, put_head 0 bs' h)])"

lemma commit_ok:
  assumes tx: "tx_ok st" and pos: "0 < lhn st"
  defines "ws \<equiv> commit_writes (lstart st) (lhblock st) (nat (lhn st)) (lhblock st) (acont (bview_of st)) (disk st)"
  shows "\<exists>st'. commit p st = Ok st' \<and> bc_ok st' \<and> disk st' = upds (disk st) ws \<and> writes st' = writes st @ ws \<and>
    lhn st' = 0 \<and> lstart st' = lstart st \<and> ldev st' = ldev st \<and> lhblock st' = lhblock st \<and>
    (\<forall>m. arefs (bview_of st') m = 0) \<and> lsize st' = lsize st \<and> outstanding st' = outstanding st \<and>
    committing st' = committing st \<and> lstate.more st' = lstate.more st"
proof -
  define V s bs n where "V = bview_of st" and "s = lstart st" and "bs = lhblock st" and "n = nat (lhn st)"
  let ?c = "acont V"
  have n: "n < LOGSIZE" "int n = lhn st" "0 < n" using tx pos by (auto simp: tx_ok_def n_def)
  have ok: "bc_ok st" "ldev st = ROOTDEV" "length bs = LOGSIZE" using tx by (simp_all add: tx_ok_def bs_def)
  have ns: "distinct (take n bs)" "set (take n bs) \<inter> logarea s = {}"
    "\<And>m. aheld V m = None \<and> arefs V m = (if m \<in> set (take n bs) then 1 else 0)"
    using tx by (auto simp: tx_ok_def Let_def V_def s_def bs_def n_def)
  have home: "bs ! t \<in> set (take n bs)" "bs ! t \<notin> logarea s" if "t < n" for t
  proof -
    show "bs ! t \<in> set (take n bs)" using that n ok(3) by (metis in_set_conv_nth length_take min_less_iff_conj nth_take less_trans)
    then show "bs ! t \<notin> logarea s" using ns(2) by blast
  qed
  have la: "arefs V m = 0" if "m \<in> logarea s" for m using ns(2,3) that by auto
  have "{m. arefs V m \<noteq> 0} = set (take n bs)" using ns(3) by auto
  then have card: "card {m. arefs V m \<noteq> 0} \<le> n" using card_length [of "take n bs"] ok(3) n by simp
  have set_nth: "(\<lambda>t. bs ! t) ` set [0..<n] = set (take n bs)"
    using n ok(3) by (simp add: nth_image del: upt.simps)
  have maps: "map (\<lambda>t. bs ! t) [0..<n] = take n bs" using n ok(3) by (simp add: map_nth_upt_eq)
  define w1 where "w1 = map (\<lambda>t. (logaddr s t, ?c (bs ! t))) [0..<n]"
  have "\<forall>t\<in>set [0..<n]. t < LOGSIZE - 1 \<and> bs ! t \<notin> logarea s \<and> aheld V (logaddr s t) = None \<and> aheld V (bs ! t) = None \<and>
       arefs V (logaddr s t) = 0 \<and> arefs V (bs ! t) = 1"
    using n home ns(3) la logaddr_area(1) by (auto simp del: upt.simps)
  then obtain s1 where s1: "write_log p st = Ok s1" "bc_ok s1" "bstate.more s1 = bstate.more st"
    "bview_of s1 = V\<lparr>acont := upds ?c w1, adisk := upds (adisk V) w1, awrites := awrites V @ w1\<rparr>"
    using write_log_loop_ok [OF ok(1,2), of V s bs "[0..<n]" p] card n
    by (auto simp: V_def s_def bs_def n_def w1_def write_log_def simp del: upt.simps)
  have w1_log: "upds d w1 (logaddr s t) = ?c (bs ! t)" if "t < n" for t d
  proof -
    have "inj_on (logaddr s) (set [0..<n])" using n by (auto simp: inj_on_def logaddr_inj simp del: upt.simps)
    with that show ?thesis unfolding w1_def by (intro upds_map_inj) auto
  qed
  have nothome: "m \<in> logarea s \<Longrightarrow> m \<notin> (\<lambda>t. bs ! t) ` set [0..<n]" for m using ns(2) unfolding set_nth by auto
  have "fst ` set w1 = logaddr s ` {0..<n}" by (simp add: w1_def image_image del: upt.simps)
  moreover have "s \<noteq> logaddr s t" if "t < n" for t using logaddr_start [of t s] that n by auto
  ultimately have ws1: "s \<notin> fst ` set w1" by auto
  define h where "h = put_head (int n) bs (adisk V s)"
  have l1: "lstart s1 = s" "ldev s1 = ROOTDEV" "lhblock s1 = bs" "lhn s1 = int n"
    using log_part_more [OF s1(3), of s bs "int n"] ok(2) n(2) by (simp_all add: s_def bs_def)
  obtain s2 where s2: "write_head p s1 = Ok s2" "bc_ok s2" "bstate.more s2 = bstate.more s1"
    "bview_of s2 = V\<lparr>acont := (upds ?c w1)(s := h), adisk := (upds (adisk V) w1)(s := h), awrites := awrites V @ w1 @ [(s, h)]\<rparr>"
    using write_head_ok [OF s1(2) l1(2) _ s1(4), of p] l1 n card la [OF logaddr_area(2)] upds_other [OF ws1]
    by (auto simp: h_def)
  have l2: "lstart s2 = s" "ldev s2 = ROOTDEV" "lhblock s2 = bs" "lhn s2 = int n"
    using log_part_more [OF s2(3) l1(1,2,3,4)] by simp_all
  define w3 where "w3 = map (\<lambda>t. (bs ! t, ?c (bs ! t))) [0..<n]"
  have w3: "map (\<lambda>t. (bs ! t, acont (bview_of s2) (logaddr s t))) [0..<n] = w3"
    using w1_log logaddr_start n by (auto simp: w3_def s2(4) simp del: upt.simps)
  have "\<forall>t\<in>set [0..<n]. t < LOGSIZE - 1 \<and> bs ! t \<notin> logarea s \<and> aheld (bview_of s2) (logaddr s t) = None \<and>
      aheld (bview_of s2) (bs ! t) = None \<and> arefs (bview_of s2) (logaddr s t) = 0 \<and>
      arefs (bview_of s2) (bs ! t) = (if False then 0 else 1)"
    using n home ns(3) la logaddr_area(1) by (auto simp: s2(4) simp del: upt.simps)
  moreover have it: "install_trans p False s2 = install_loop p False [0..<n] s2"
    by (simp add: install_trans_def l2(4) del: upt.simps)
  ultimately obtain s3 where s3: "install_trans p False s2 = Ok s3" "bc_ok s3" "bstate.more s3 = bstate.more s2"
    "bview_of s3 = (bview_of s2)\<lparr>arefs := (\<lambda>m. if m \<in> (\<lambda>t. bs ! t) ` set [0..<n] then 0 else arefs (bview_of s2) m),
      acont := upds (acont (bview_of s2)) w3, adisk := upds (adisk (bview_of s2)) w3, awrites := awrites (bview_of s2) @ w3\<rparr>"
    using install_loop_ok [OF s2(2) l2(2) refl l2(1,3), of "[0..<n]" False p] card n(1) ns(1) maps it
    unfolding w3 by (auto simp: s2(4) simp del: upt.simps)
  have l3: "lstart s3 = s" "ldev s3 = ROOTDEV" "lhblock s3 = bs" "lhn s3 = int n"
    using log_part_more [OF s3(3) l2(1,2,3,4)] by simp_all
  have r3: "arefs (bview_of s3) m = 0" for m using ns(3) unfolding s3(4) set_nth by (simp add: s2(4))
  have "s \<notin> fst ` set w3" using nothome [OF logaddr_area(2)] by (auto simp: w3_def simp del: upt.simps)
  then have ds: "adisk (bview_of s3) s = h" by (simp add: s3(4) s2(4) upds_other)
  have rm: "card {m. arefs (bview_of s3) m \<noteq> 0} < NBUF" by (simp add: r3)
  obtain s4 where s4: "write_head p (s3\<lparr>lhn := 0\<rparr>) = Ok s4" "bc_ok s4" "bstate.more s4 = bstate.more (s3\<lparr>lhn := 0\<rparr>)"
    "bview_of s4 = (bview_of s3)\<lparr>acont := (acont (bview_of s3))(s := put_head 0 bs h),
       adisk := (adisk (bview_of s3))(s := put_head 0 bs h), awrites := awrites (bview_of s3) @ [(s, put_head 0 bs h)]\<rparr>"
    using write_head_ok [of "s3\<lparr>lhn := 0\<rparr>" "bview_of s3" p] s3(2) l3 r3 rm ds by auto
  have l4: "lstart s4 = s" "ldev s4 = ROOTDEV" "lhblock s4 = bs" "lhn s4 = 0"
    using log_part_more [OF s4(3), of s bs 0] l3 by simp_all
  have ws: "ws = w1 @ [(s, h)] @ w3 @ [(s, put_head 0 bs h)]"
    by (simp add: ws_def commit_writes_def Let_def w1_def w3_def h_def s_def bs_def n_def V_def del: upt.simps)
  have "commit p st = Ok s4" using pos s1(1) s2(1) s3(1) s4(1) by (simp add: commit_def)
  moreover have "disk s4 = upds (disk st) ws" "writes s4 = writes st @ ws"
    using bview_disk [of s4] by (simp_all add: s4(4) s3(4) s2(4) ws) (simp_all add: V_def)
  moreover have "arefs (bview_of s4) m = 0" for m using r3 by (simp add: s4(4))
  moreover have "bstate.more s3 = bstate.more st" using s1(3) s2(3) s3(3) by simp
  then have "lsize s4 = lsize st" "outstanding s4 = outstanding st" "committing s4 = committing st" "lstate.more s4 = lstate.more st"
    using more_log_part [OF s4(3)] more_log_part [of s3 st] by (simp_all add: log_part_def)
  ultimately show ?thesis using s4(2) l4 ok(2) by (simp add: s_def bs_def)
qed

subsection \<open>What a disk stands for\<close>

definition hdr_n :: "u32 \<Rightarrow> (u32 \<Rightarrow> block) \<Rightarrow> int" where
  "hdr_n s d = sint (get32 (d s) 0)"

definition hdr_block :: "u32 \<Rightarrow> (u32 \<Rightarrow> block) \<Rightarrow> nat \<Rightarrow> u32" where
  "hdr_block s d i = get32 (d s) (4 + 4 * i)"

text \<open>The content of block \<open>m\<close> that a disk with a log stands for: the last committed copy in
  the log, or the home block.\<close>

definition logical :: "u32 \<Rightarrow> (u32 \<Rightarrow> block) \<Rightarrow> u32 \<Rightarrow> block" where
  "logical s d m =
     (case find (\<lambda>i. hdr_block s d i = m) (rev [0..<nat (hdr_n s d)]) of
        Some i \<Rightarrow> d (logaddr s i)
      | None \<Rightarrow> d m)"

text \<open>A log that can be recovered: its data blocks are in the log area, and none is for a block of the log.\<close>

definition log_valid :: "u32 \<Rightarrow> (u32 \<Rightarrow> block) \<Rightarrow> bool" where
  "log_valid s d \<longleftrightarrow> hdr_n s d < int LOGSIZE \<and> (\<forall>i<nat (hdr_n s d). hdr_block s d i \<notin> logarea s)"

lemma fold_put32_get0: "get32 (fold (\<lambda>i d. put32 d (4 + 4 * i) (bs ! i)) is d) 0 = get32 d 0"
  by (induction "is" arbitrary: d) auto

lemma fold_put32_get: "i < k \<Longrightarrow> get32 (fold (\<lambda>i d. put32 d (4 + 4 * i) (bs ! i)) [0..<k] d) (4 + 4 * i) = bs ! i"
proof (induction k)
  case (Suc k)
  then show ?case by (cases "i = k") auto
qed simp

lemma put_head_get: "get32 (put_head n bs d) 0 = of_int n" "i < nat n \<Longrightarrow> get32 (put_head n bs d) (4 + 4 * i) = bs ! i"
  by (simp_all add: put_head_def fold_put32_get0 fold_put32_get del: upt.simps)

lemma hdr_n_put:
  assumes "0 \<le> n" "n \<le> int LOGSIZE" "d s = put_head n bs d0"
  shows "hdr_n s d = n"
proof -
  have "signed_take_bit 31 n = n" using assms(1,2) by (simp add: signed_take_bit_int_eq_self_iff)
  then have "sint (word_of_int n :: u32) = n" by (simp add: sint_sbintrunc')
  then show ?thesis using assms(3) by (simp add: hdr_n_def put_head_get)
qed

lemma logical_none: "hdr_n s d = 0 \<Longrightarrow> logical s d m = d m"
  by (simp add: logical_def)

lemma logical_cong:
  "d' s = d s \<Longrightarrow> (\<And>i. i < nat (hdr_n s d) \<Longrightarrow> d' (logaddr s i) = d (logaddr s i)) \<Longrightarrow>
   ((\<And>i. i < nat (hdr_n s d) \<Longrightarrow> hdr_block s d i \<noteq> m) \<Longrightarrow> d' m = d m) \<Longrightarrow> logical s d' m = logical s d m"
proof -
  assume a: "d' s = d s" "\<And>i. i < nat (hdr_n s d) \<Longrightarrow> d' (logaddr s i) = d (logaddr s i)"
    "(\<And>i. i < nat (hdr_n s d) \<Longrightarrow> hdr_block s d i \<noteq> m) \<Longrightarrow> d' m = d m"
  have e: "hdr_n s d' = hdr_n s d" "hdr_block s d' = hdr_block s d" 
    unfolding hdr_n_def hdr_block_def [abs_def] a(1) by simp_all
  show ?thesis
  proof (cases "find (\<lambda>i. hdr_block s d i = m) (rev [0..<nat (hdr_n s d)])")
    case None
    then have "d' m = d m" by (intro a(3)) (auto simp: find_None_iff simp del: upt.simps)
    with None show ?thesis by (simp add: logical_def e)
  next
    case (Some i)
    then have "i < nat (hdr_n s d)" by (auto simp: find_Some_iff rev_nth simp del: upt.simps)
    with Some a(2) show ?thesis by (simp add: logical_def e)
  qed
qed

text \<open>The disk after a prefix of the writes of \<open>commit\<close>.\<close>

lemma commit_prefix:
  assumes n: "0 < n" "n < LOGSIZE" and len: "length bs = LOGSIZE" and dis: "distinct (take n bs)"
    and out: "set (take n bs) \<inter> logarea s = {}" and h0: "hdr_n s d = 0"
    and same: "\<And>m. m \<notin> set (take n bs) \<Longrightarrow> c m = d m"
  defines "dk \<equiv> \<lambda>k. upds d (take k (commit_writes s bs n bs c d))"
  shows "log_valid s (dk k) \<and> (\<forall>m. m \<notin> logarea s \<longrightarrow> logical s (dk k) m = (if k \<le> n then d m else c m))"
proof -
  define w1 w3 h where "w1 = map (\<lambda>t. (logaddr s t, c (bs ! t))) [0..<n]" and "w3 = map (\<lambda>t. (bs ! t, c (bs ! t))) [0..<n]"
    and "h = put_head (int n) bs (d s)"
  have ws: "commit_writes s bs n bs c d = w1 @ (s, h) # w3 @ [(s, put_head 0 bs h)]"
    by (simp add: commit_writes_def Let_def w1_def w3_def h_def del: upt.simps)
  have l: "length w1 = n" "length w3 = n" by (simp_all add: w1_def w3_def)
  have w1a: "fst ` set w1 \<subseteq> logarea s - {s}"
    using n logaddr_start logaddr_area by (auto simp: w1_def logarea_def simp del: upt.simps)
  have homes: "(\<lambda>t. bs ! t) ` {0..<n} = set (take n bs)" using n len by (simp add: nth_image)
  have w3a: "fst ` set w3 = set (take n bs)" using homes by (simp add: w3_def image_image del: upt.simps)
  have logc: "upds d w1 (logaddr s t) = c (bs ! t)" if "t < n" for t
  proof -
    have "inj_on (logaddr s) (set [0..<n])" using n by (auto simp: inj_on_def logaddr_inj simp del: upt.simps)
    with that show ?thesis unfolding w1_def by (intro upds_map_inj) auto
  qed
  consider "k \<le> n" | "n < k" "k \<le> 2 * n + 1" | "2 * n + 1 < k" by linarith
  then show ?thesis
  proof cases
    case 1
    then have e: "dk k = upds d (take k w1)" by (simp add: dk_def ws l)
    have "fst ` set (take k w1) \<subseteq> logarea s - {s}" using w1a set_take_subset [of k w1] by blast
    then have "dk k s = d s" "\<And>m. m \<notin> logarea s \<Longrightarrow> dk k m = d m"
      unfolding e by (blast intro: upds_other)+
    moreover from this(1) have "hdr_n s (dk k) = 0" using h0 by (simp add: hdr_n_def)
    ultimately show ?thesis using 1 by (simp add: logical_none log_valid_def)
  next
    case 2
    define w where "w = take (k - Suc n) w3"
    have e: "dk k = upds ((upds d w1)(s := h)) w" using 2 by (simp add: dk_def ws l w_def take_Cons')
    have wa: "fst ` set w \<subseteq> set (take n bs)" using w3a set_take_subset [of "k - Suc n" w3] by (auto simp: w_def)
    have keep: "dk k m = ((upds d w1)(s := h)) m" if "m \<notin> set (take n bs)" for m
      unfolding e using wa that by (intro upds_other) blast
    have "s \<notin> set (take n bs)" using out logaddr_area(2) by auto
    then have hs: "dk k s = h" by (simp add: keep)
    then have hn: "hdr_n s (dk k) = int n" using n by (intro hdr_n_put) (auto simp: h_def)
    have hb: "hdr_block s (dk k) i = bs ! i" if "i < n" for i
      using that hs by (simp add: hdr_block_def h_def put_head_get)
    have lg: "dk k (logaddr s i) = c (bs ! i)" if "i < n" for i
    proof -
      have "logaddr s i \<notin> set (take n bs)" using out logaddr_area(1) [of i s] that n by auto
      then show ?thesis using keep logc that logaddr_start [of i s] n by simp
    qed
    have "bs ! i \<notin> logarea s" if "i < n" for i using out homes that by auto
    then have "log_valid s (dk k)" using hn hb n by (simp add: log_valid_def)
    moreover have "logical s (dk k) m = c m" if "m \<notin> logarea s" for m
    proof (cases "find (\<lambda>i. hdr_block s (dk k) i = m) (rev [0..<n])")
      case None
      then have "m \<notin> (\<lambda>t. bs ! t) ` {0..<n}" using hb by (auto simp: find_None_iff simp del: upt.simps)
      then have nm: "m \<notin> set (take n bs)" by (simp add: homes)
      have "m \<notin> fst ` set w1" "m \<noteq> s" using w1a that logaddr_area(2) by auto
      with None nm keep same show ?thesis by (simp add: logical_def hn upds_other)
    next
      case (Some i)
      then have "i < n" "hdr_block s (dk k) i = m" by (auto simp: find_Some_iff rev_nth simp del: upt.simps)
      with Some lg hb show ?thesis by (simp add: logical_def hn)
    qed
    ultimately show ?thesis using 2 by simp
  next
    case 3
    then have e: "dk k = (upds ((upds d w1)(s := h)) w3)(s := put_head 0 bs h)" by (simp add: dk_def ws l)
    then have "hdr_n s (dk k) = 0" by (intro hdr_n_put) auto
    moreover have "dk k m = c m" if "m \<notin> logarea s" for m
    proof (cases "m \<in> set (take n bs)")
      case True
      then obtain t where t: "t < n" "m = bs ! t" using homes by (metis atLeastLessThan_iff imageE)
      have "inj_on (\<lambda>t. bs ! t) (set [0..<n])"
        using dis n len by (auto simp: inj_on_def distinct_conv_nth simp del: upt.simps) (metis nth_take)
      then have "upds ((upds d w1)(s := h)) w3 (bs ! t) = c (bs ! t)"
        unfolding w3_def using t(1) by (intro upds_map_inj) auto
      then show ?thesis using t that e logaddr_area(2) by auto
    next
      case False
      have "m \<notin> fst ` set w1" "m \<noteq> s" using w1a that logaddr_area(2) by auto
      with False w3a same e show ?thesis by (simp add: upds_other)
    qed
    ultimately show ?thesis using 3 by (simp add: logical_none log_valid_def)
  qed
qed

subsection \<open>Recovery\<close>

lemma fold_list_update: "k \<le> length bs \<Longrightarrow> fold (\<lambda>i bs. bs[i := f i]) [0..<k] bs = map f [0..<k] @ drop k bs"
proof (induction k)
  case (Suc k)
  then show ?case by (simp add: list_update_append Cons_nth_drop_Suc [symmetric])
qed simp

lemma read_head_ok:
  assumes ok: "bc_ok st" and dev: "ldev st = ROOTDEV" and len: "length (lhblock st) = LOGSIZE"
    and zero: "\<And>m. arefs (bview_of st) m = 0" and n: "hdr_n (lstart st) (disk st) \<le> int LOGSIZE"
  defines "bs \<equiv> map (hdr_block (lstart st) (disk st)) [0..<nat (hdr_n (lstart st) (disk st))] @ drop (nat (hdr_n (lstart st) (disk st))) (lhblock st)"
  shows "\<exists>st'. read_head p st = Ok st' \<and> bc_ok st' \<and> bview_of st' = bview_of st \<and>
    bstate.more st' = bstate.more (st\<lparr>lhn := hdr_n (lstart st) (disk st), lhblock := bs\<rparr>)"
proof -
  let ?s = "lstart st" and ?V = "bview_of st"
  let ?n = "hdr_n ?s (disk st)"
  have cl: "acont ?V ?s = disk st ?s" "aheld ?V ?s = None" using bview_clean [OF ok zero] by auto
  have "{m. arefs ?V m \<noteq> 0} = {}" using zero by simp
  then have room: "card {m. arefs ?V m \<noteq> 0} < NBUF" by simp
  obtain x s1 where x: "bread p ROOTDEV ?s st = Ok (x, s1)" "bc_ok s1" "cached_at s1 x ?s" "bframe st s1"
    "bview_of s1 = ?V\<lparr>arefs := (arefs ?V)(?s := 1), aheld := (aheld ?V)(?s := Some p)\<rparr>"
    using bread_ok [OF ok, of ?s p] cl zero room by (auto simp: bread_post_def)
  have dx: "bdata (bufs s1 x) = disk st ?s" using cached_data [OF x(2,3)] by (simp add: x(5) cl(1))
  have d1: "disk s1 = disk st" using bview_disk [of s1] by (simp add: x(5))
  have l1: "lhblock s1 = lhblock st" using log_part_eq [OF more_log_part [OF bframe_more [OF x(4)]]] by simp
  define s2 where "s2 = s1\<lparr>lhn := ?n, lhblock := bs\<rparr>"
  have v2: "bview_of s2 = bview_of s1" "bc_ok s2" "cached_at s2 x ?s" "disk s2 = disk s1"
    using x(2,3) by (simp_all add: s2_def)
  obtain s3 where s3: "brelse p x s2 = Ok s3" "bc_ok s3" "bframe s2 s3"
    "bview_of s3 = (bview_of s2)\<lparr>arefs := (arefs (bview_of s2))(?s := arefs (bview_of s2) ?s - 1), aheld := (aheld (bview_of s2))(?s := None)\<rparr>"
    using brelse_ok [OF v2(2,3), of p] by (auto simp: v2(1,4) x(5) d1 cl(1))
  have bs: "fold (\<lambda>i bs. bs[i := get32 (disk st ?s) (4 + 4 * i)]) [0..<nat ?n] (lhblock st) = bs"
    using n len fold_list_update [of "nat ?n" "lhblock st" "hdr_block ?s (disk st)"]
    by (simp add: bs_def hdr_block_def [abs_def] del: upt.simps)
  have "read_head p st = Ok s3"
    using x(1) dev n s3(1)
    by (simp add: read_head_def Let_def dx l1 hdr_n_def [symmetric] bs s2_def [symmetric] del: upt.simps)
  moreover have "bview_of s3 = ?V"
    using zero cl by (intro bview.equality) (auto simp: s3(4) v2(1) x(5) fun_eq_iff)
  moreover have "bstate.more s3 = bstate.more (st\<lparr>lhn := ?n, lhblock := bs\<rparr>)"
    using bframe_more [OF s3(3)] bframe_more [OF x(4)] by (cases st; cases s1) (simp add: s2_def)
  ultimately show ?thesis using s3(2) by blast
qed

text \<open>The writes of recovery from disk \<open>d\<close>, the header that ends up there among them.\<close>

definition recover_writes :: "u32 \<Rightarrow> (u32 \<Rightarrow> block) \<Rightarrow> u32 list \<Rightarrow> (u32 \<times> block) list" where
  "recover_writes s d bs' =
     map (\<lambda>i. (hdr_block s d i, d (logaddr s i))) [0..<nat (hdr_n s d)] @ [(s, put_head 0 bs' (d s))]"

lemma recover_ok:
  assumes ok: "bc_ok st" and dev: "ldev st = ROOTDEV" and len: "length (lhblock st) = LOGSIZE"
    and zero: "\<And>m. arefs (bview_of st) m = 0" and lv: "log_valid (lstart st) (disk st)"
  shows "\<exists>st' bs'. recover_from_log p st = Ok st' \<and> bc_ok st' \<and> lhn st' = 0 \<and> lstart st' = lstart st \<and> ldev st' = ROOTDEV \<and>
    (\<forall>m. arefs (bview_of st') m = 0) \<and> outstanding st' = outstanding st \<and> lsize st' = lsize st \<and> committing st' = committing st \<and>
    length (lhblock st') = LOGSIZE \<and> lstate.more st' = lstate.more st \<and>
    disk st' = upds (disk st) (recover_writes (lstart st) (disk st) bs') \<and>
    writes st' = writes st @ recover_writes (lstart st) (disk st) bs'"
proof -
  define s d n where "s = lstart st" and "d = disk st" and "n = nat (hdr_n s d)"
  have n: "n < LOGSIZE" "hdr_n s d \<le> int LOGSIZE" "\<And>i. i < n \<Longrightarrow> hdr_block s d i \<notin> logarea s"
    using lv by (auto simp: log_valid_def s_def d_def n_def)
  define bs where "bs = map (hdr_block s d) [0..<n] @ drop n (lhblock st)"
  have bsi: "bs ! i = hdr_block s d i" if "i < n" for i using that by (simp add: bs_def nth_append del: upt.simps)
  obtain s1 where s1: "read_head p st = Ok s1" "bc_ok s1" "bview_of s1 = bview_of st"
    "bstate.more s1 = bstate.more (st\<lparr>lhn := hdr_n s d, lhblock := bs\<rparr>)"
    using read_head_ok [OF ok dev len zero, of p] n(2) by (auto simp: s_def d_def n_def bs_def simp del: upt.simps)
  have l1: "lstart s1 = s" "ldev s1 = ROOTDEV" "lhblock s1 = bs" "lhn s1 = hdr_n s d" "outstanding s1 = outstanding st"
    "lsize s1 = lsize st" "committing s1 = committing st" "lstate.more s1 = lstate.more st"
    using log_part_eq [OF more_log_part [OF s1(4)]] dev by (simp_all add: s_def)
  have cl: "acont (bview_of st) m = d m" "aheld (bview_of st) m = None" for m
    using bview_clean [OF ok zero] by (auto simp: d_def)
  have "{m. arefs (bview_of s1) m \<noteq> 0} = {}" using zero by (simp add: s1(3))
  then have room: "card {m. arefs (bview_of s1) m \<noteq> 0} + (if True then 2 else 1) \<le> NBUF" by simp
  define w where "w = map (\<lambda>i. (hdr_block s d i, d (logaddr s i))) [0..<n]"
  have w: "map (\<lambda>t. (bs ! t, acont (bview_of s1) (logaddr s t))) [0..<n] = w"
    by (auto simp: w_def bsi s1(3) cl simp del: upt.simps)
  have pre: "\<forall>t\<in>set [0..<n]. t < LOGSIZE - 1 \<and> bs ! t \<notin> logarea s \<and> aheld (bview_of s1) (logaddr s t) = None \<and>
      aheld (bview_of s1) (bs ! t) = None \<and> arefs (bview_of s1) (logaddr s t) = 0 \<and> arefs (bview_of s1) (bs ! t) = (if True then 0 else 1)"
    using n zero cl bsi by (auto simp: s1(3) simp del: upt.simps)
  obtain s2 where s2: "install_loop p True [0..<n] s1 = Ok s2" "bc_ok s2" "bstate.more s2 = bstate.more s1"
    "bview_of s2 = (bview_of s1)\<lparr>arefs := (\<lambda>m. if m \<in> (\<lambda>t. bs ! t) ` set [0..<n] then 0 else arefs (bview_of s1) m),
      acont := upds (acont (bview_of s1)) w, adisk := upds (adisk (bview_of s1)) w, awrites := awrites (bview_of s1) @ w\<rparr>"
    using install_loop_ok [OF s1(2) l1(2) refl l1(1,3) pre disjI1 [OF TrueI] room, of p] unfolding w by blast
  have l2: "lstart s2 = s" "ldev s2 = ROOTDEV" "outstanding s2 = outstanding st" "lhblock s2 = bs"
    "lsize s2 = lsize st" "committing s2 = committing st" "lstate.more s2 = lstate.more st"
    using log_part_eq [OF more_log_part [OF s2(3)]] l1 by simp_all
  have z2: "arefs (bview_of s2) m = 0" for m using zero by (simp add: s2(4) s1(3))
  have "fst ` set w = hdr_block s d ` {0..<n}" by (simp add: w_def image_image del: upt.simps)
  moreover have "hdr_block s d i \<noteq> s" if "i < n" for i using n(3) [OF that] logaddr_area(2) [of s] by auto
  ultimately have "s \<notin> fst ` set w" by force
  then have ds: "adisk (bview_of s2) s = d s" by (simp add: s2(4) s1(3) upds_other d_def)
  obtain s3 where s3: "write_head p (s2\<lparr>lhn := 0\<rparr>) = Ok s3" "bc_ok s3" "bstate.more s3 = bstate.more (s2\<lparr>lhn := 0\<rparr>)"
    "bview_of s3 = (bview_of s2)\<lparr>acont := (acont (bview_of s2))(s := put_head 0 (lhblock s2) (d s)),
       adisk := (adisk (bview_of s2))(s := put_head 0 (lhblock s2) (d s)), awrites := awrites (bview_of s2) @ [(s, put_head 0 (lhblock s2) (d s))]\<rparr>"
    using write_head_ok [of "s2\<lparr>lhn := 0\<rparr>" "bview_of s2" p] s2(2) l2 z2 ds by auto
  have l3: "lstart s3 = s" "ldev s3 = ROOTDEV" "lhn s3 = 0" "outstanding s3 = outstanding st" "lhblock s3 = bs"
    "lsize s3 = lsize st" "committing s3 = committing st" "lstate.more s3 = lstate.more st"
    using log_part_eq [OF more_log_part [OF s3(3)]] l2 by simp_all
  have "recover_from_log p st = Ok s3"
    using s1(1) s2(1) s3(1) l1(4) by (simp add: recover_from_log_def install_trans_def n_def del: upt.simps)
  moreover have "disk s3 = upds d (recover_writes s d (lhblock s2))" "writes s3 = writes st @ recover_writes s d (lhblock s2)"
    using bview_disk [of s3] by (simp_all add: s3(4) s2(4) s1(3) recover_writes_def n_def [symmetric] w_def [symmetric] d_def [symmetric] del: upt.simps)
  moreover have "arefs (bview_of s3) m = 0" for m using z2 by (simp add: s3(4))
  moreover have "length bs = LOGSIZE" using n(1) len by (simp add: bs_def)
  ultimately show ?thesis using s3(2) l3 by (auto simp: s_def d_def)
qed

text \<open>The disk after a prefix of the writes of recovery.\<close>

lemma recover_prefix:
  fixes bs' :: "u32 list"
  assumes lv: "log_valid s d"
  defines "dk \<equiv> \<lambda>k. upds d (take k (recover_writes s d bs'))"
  shows "log_valid s (dk k)" "m \<notin> logarea s \<Longrightarrow> logical s (dk k) m = logical s d m"
    "nat (hdr_n s d) < k \<Longrightarrow> m \<notin> logarea s \<Longrightarrow> dk k m = logical s d m" "nat (hdr_n s d) < k \<Longrightarrow> hdr_n s (dk k) = 0"
proof -
  define n where "n = nat (hdr_n s d)"
  define w where "w = map (\<lambda>i. (hdr_block s d i, d (logaddr s i))) [0..<n]"
  have len: "length w = n" by (simp add: w_def)
  have n: "n < LOGSIZE" "\<And>i. i < n \<Longrightarrow> hdr_block s d i \<notin> logarea s" using lv by (auto simp: log_valid_def n_def)
  have wa: "m \<notin> fst ` set w" if "m \<in> logarea s" for m using that n(2) by (auto simp: w_def simp del: upt.simps)
  have last: "dk k = (upds d w)(s := put_head 0 bs' (d s))" if "n < k" for k
    using that by (simp add: dk_def recover_writes_def n_def [symmetric] w_def [symmetric] len del: upt.simps)
  have early: "dk k = upds d (take k w)" if "k \<le> n" for k
    using that by (simp add: dk_def recover_writes_def n_def [symmetric] w_def [symmetric] len del: upt.simps)
  have final: "dk k m = logical s d m" if "n < k" "m \<notin> logarea s" for k m
    using that logaddr_area(2) by (auto simp: last logical_def w_def upds_map n_def [symmetric] simp del: upt.simps)
  have h0: "hdr_n s (dk k) = 0" if "n < k" for k using that by (intro hdr_n_put) (auto simp: last)
  have keep: "dk k m = d m" if "k \<le> n" "m \<in> logarea s" for k m
    using wa [OF that(2)] early [OF that(1)] set_take_subset [of k w] by (auto intro!: upds_other)
  show "log_valid s (dk k)"
  proof (cases "k \<le> n")
    case True
    then have "dk k s = d s" by (intro keep logaddr_area(2))
    with lv show ?thesis by (simp add: log_valid_def hdr_n_def hdr_block_def)
  qed (simp add: log_valid_def h0)
  show "logical s (dk k) m = logical s d m" if m: "m \<notin> logarea s"
  proof (cases "k \<le> n")
    case True
    show ?thesis
    proof (rule logical_cong)
      show "dk k s = d s" using keep [OF True logaddr_area(2)] .
      show "dk k (logaddr s i) = d (logaddr s i)" if "i < nat (hdr_n s d)" for i
        using that n(1) keep [OF True logaddr_area(1)] by (simp add: n_def)
      assume nm: "\<And>i. i < nat (hdr_n s d) \<Longrightarrow> hdr_block s d i \<noteq> m"
      have "fst ` set w = hdr_block s d ` {0..<n}" by (simp add: w_def image_image del: upt.simps)
      with nm have "m \<notin> fst ` set w" by (force simp: n_def)
      then show "dk k m = d m" using early [OF True] set_take_subset [of k w] by (auto intro!: upds_other)
    qed
  qed (simp add: logical_none h0 final m)
  show "nat (hdr_n s d) < k \<Longrightarrow> m \<notin> logarea s \<Longrightarrow> dk k m = logical s d m" "nat (hdr_n s d) < k \<Longrightarrow> hdr_n s (dk k) = 0"
    using final h0 by (simp_all add: n_def)
qed

subsection \<open>Inside a transaction\<close>

text \<open>The state of a process \<open>p\<close> that is inside a transaction and holds the blocks \<open>H\<close>: the
  logged blocks are pinned once, the held ones are referenced once more and locked by \<open>p\<close>.\<close>

definition logged :: "'a lstate_scheme \<Rightarrow> u32 set" where
  "logged st = set (take (nat (lhn st)) (lhblock st))"

definition tx_held :: "int \<Rightarrow> u32 set \<Rightarrow> 'a lstate_scheme \<Rightarrow> bool" where
  "tx_held p H st \<longleftrightarrow> bc_ok st \<and> ldev st = ROOTDEV \<and> 0 \<le> lhn st \<and> lhn st < int LOGSIZE \<and>
     length (lhblock st) = LOGSIZE \<and> distinct (take (nat (lhn st)) (lhblock st)) \<and> logged st \<inter> logarea (lstart st) = {} \<and>
     (\<forall>m. aheld (bview_of st) m = (if m \<in> H then Some p else None) \<and>
          arefs (bview_of st) m = (if m \<in> logged st then 1 else 0) + (if m \<in> H then 1 else 0))"

lemma tx_ok_held: "tx_ok st \<longleftrightarrow> tx_held p {} st"
  by (auto simp: tx_ok_def tx_held_def logged_def Let_def)

lemma tx_held_refs:
  assumes "tx_held p H st"
  shows "{m. arefs (bview_of st) m \<noteq> 0} = logged st \<union> H" "arefs (bview_of st) m + 1 \<noteq> 0"
    "m \<in> H \<Longrightarrow> aheld (bview_of st) m = Some p" "m \<in> H \<Longrightarrow> arefs (bview_of st) m \<noteq> 0"
    "m \<notin> H \<Longrightarrow> aheld (bview_of st) m = None"
  using assms by (auto simp: tx_held_def)

text \<open>What does not change: the log, the disk, and the places of the held blocks.\<close>

definition tx_frame :: "u32 set \<Rightarrow> 'a lstate_scheme \<Rightarrow> 'a lstate_scheme \<Rightarrow> bool" where
  "tx_frame H st st' \<longleftrightarrow> log_part st' = log_part st \<and> disk st' = disk st \<and> writes st' = writes st \<and>
     (\<forall>c m. m \<in> H \<and> cached_at st c m \<longrightarrow> cached_at st' c m)"

lemma tx_bread:
  assumes tx: "tx_held p H st" and n: "n \<notin> H" and room: "card (logged st \<union> H) < NBUF"
  shows "\<exists>b st'. bread p ROOTDEV n st = Ok (b, st') \<and> tx_held p (insert n H) st' \<and> cached_at st' b n \<and>
    bdata (bufs st' b) = acont (bview_of st) n \<and> acont (bview_of st') = acont (bview_of st) \<and> tx_frame H st st'"
proof -
  have ok: "bc_ok st" using tx by (simp add: tx_held_def)
  note r = tx_held_refs [OF tx]
  have room': "arefs (bview_of st) n \<noteq> 0 \<or> card {m. arefs (bview_of st) m \<noteq> 0} < NBUF" using room r(1) by simp
  obtain b st' where b: "bread p ROOTDEV n st = Ok (b, st')" "bread_post p n st b st'"
    using bread_ok [OF ok r(5) [OF n] r(2) room'] by blast
  have v: "bview_of st' = (bview_of st)\<lparr>arefs := (arefs (bview_of st))(n := arefs (bview_of st) n + 1),
       aheld := (aheld (bview_of st))(n := Some p)\<rparr>" and c: "bc_ok st'" "cached_at st' b n" "bframe st st'"
    using b(2) by (simp_all add: bread_post_def)
  have lp: "log_part st' = log_part st" using bframe_more [OF c(3)] by (rule more_log_part)
  have d: "disk st' = disk st" "writes st' = writes st" using bview_disk [of st'] by (simp_all add: v)
  have "tx_held p (insert n H) st'"
    using tx c(1) n log_part_eq [OF lp] by (auto simp: tx_held_def logged_def v)
  moreover have "bdata (bufs st' b) = acont (bview_of st) n" using cached_data [OF c(1,2)] r(2) by (simp add: v)
  moreover have "tx_frame H st st'" using lp d bframe_cached [OF c(3)] r(4) by (auto simp: tx_frame_def)
  ultimately show ?thesis using b(1) c(2) v by auto
qed

lemma tx_set_data:
  fixes d :: block
  assumes tx: "tx_held p H st" and n: "n \<in> H" and c: "cached_at st b n"
  defines "st' \<equiv> upd_buf b (\<lambda>x. x\<lparr>bdata := d\<rparr>) st"
  shows "tx_held p H st'" "cached_at st' b n" "acont (bview_of st') = (acont (bview_of st))(n := d)" "tx_frame H st st'"
proof -
  have ok: "bc_ok st" using tx by (simp add: tx_held_def)
  note r = tx_held_refs [OF tx]
  note s = set_data_ok [OF ok c r(4) [OF n], of d, folded st'_def]
  have lp: "log_part st' = log_part st" using bframe_more [OF s(3)] by (rule more_log_part)
  show "tx_held p H st'" using tx s(1) log_part_eq [OF lp] by (simp add: tx_held_def logged_def s(4))
  show "cached_at st' b n" "acont (bview_of st') = (acont (bview_of st))(n := d)" using s by simp_all
  show "tx_frame H st st'" using lp bframe_cached [OF s(3)] r(4) by (auto simp: tx_frame_def st'_def upd_buf_def)
qed

lemma tx_brelse:
  assumes tx: "tx_held p H st" and n: "n \<in> H" and c: "cached_at st b n"
    and clean: "n \<in> logged st \<or> acont (bview_of st) n = disk st n"
  shows "\<exists>st'. brelse p b st = Ok st' \<and> tx_held p (H - {n}) st' \<and> acont (bview_of st') = acont (bview_of st) \<and>
    tx_frame (H - {n}) st st'"
proof -
  have ok: "bc_ok st" using tx by (simp add: tx_held_def)
  note r = tx_held_refs [OF tx]
  have one: "arefs (bview_of st) n = 1 \<Longrightarrow> n \<notin> logged st" using tx n by (auto simp: tx_held_def split: if_splits)
  obtain st' where s: "brelse p b st = Ok st'" "bc_ok st'" "bframe st st'"
    "bview_of st' = (bview_of st)\<lparr>arefs := (arefs (bview_of st))(n := arefs (bview_of st) n - 1), aheld := (aheld (bview_of st))(n := None)\<rparr>"
    using brelse_ok [OF ok c r(3,4) [OF n]] one clean by auto
  have lp: "log_part st' = log_part st" using bframe_more [OF s(3)] by (rule more_log_part)
  have d: "disk st' = disk st" "writes st' = writes st" using bview_disk [of st'] by (simp_all add: s(4))
  have "tx_held p (H - {n}) st'" using tx s(2) n log_part_eq [OF lp] by (auto simp: tx_held_def logged_def s(4))
  moreover have "tx_frame (H - {n}) st st'" using lp d bframe_cached [OF s(3)] r(4) by (auto simp: tx_frame_def)
  ultimately show ?thesis using s(1,4) by auto
qed

lemma log_index_logged:
  assumes "lhn st \<le> int (length (lhblock st))"
  shows "n \<in> logged st \<Longrightarrow> log_index n st < nat (lhn st) \<and> lhblock st ! log_index n st = n"
    "n \<notin> logged st \<Longrightarrow> log_index n st = nat (lhn st)"
proof -
  have le: "nat (lhn st) \<le> length (lhblock st)" using assms by simp
  have in_iff: "n \<in> logged st \<longleftrightarrow> (\<exists>i<nat (lhn st). lhblock st ! i = n)"
    unfolding logged_def using le by (force simp: in_set_conv_nth)
  show "log_index n st < nat (lhn st) \<and> lhblock st ! log_index n st = n" if "n \<in> logged st"
  proof -
    have "find (\<lambda>i. lhblock st ! i = n) [0..<nat (lhn st)] \<noteq> None"
      using that in_iff by (auto simp: find_None_iff simp del: upt.simps)
    then obtain i where f: "find (\<lambda>i. lhblock st ! i = n) [0..<nat (lhn st)] = Some i" by blast
    then have "i < nat (lhn st)" "lhblock st ! i = n" by (auto simp: find_Some_iff simp del: upt.simps)
    then show ?thesis by (simp add: log_index_def f)
  qed
  show "log_index n st = nat (lhn st)" if "n \<notin> logged st"
  proof -
    have "find (\<lambda>i. lhblock st ! i = n) [0..<nat (lhn st)] = None"
      using that in_iff by (auto simp: find_None_iff simp del: upt.simps)
    then show ?thesis by (simp add: log_index_def)
  qed
qed

lemma bpin_fields [simp]: "lstart (bpin b st) = lstart st" "ldev (bpin b st) = ldev st" "lhn (bpin b st) = lhn st"
  "lhblock (bpin b st) = lhblock st" "lsize (bpin b st) = lsize st" "outstanding (bpin b st) = outstanding st"
  "committing (bpin b st) = committing st" "lstate.more (bpin b st) = lstate.more st"
  "disk (bpin b st) = disk st" "writes (bpin b st) = writes st"
  by (simp_all add: bpin_def upd_buf_def)

text \<open>\<open>log_write\<close>: the block joins the transaction, once.\<close>

lemma tx_log_write:
  assumes tx: "tx_held p H st" and n: "n \<in> H" and c: "cached_at st b n" and home: "n \<notin> logarea (lstart st)"
    and room: "lhn st < int LOGSIZE - 1" "lhn st < lsize st - 1" and out: "1 \<le> outstanding st"
  shows "\<exists>st'. log_write b st = Ok st' \<and> tx_held p H st' \<and> logged st' = insert n (logged st) \<and>
    acont (bview_of st') = acont (bview_of st) \<and> disk st' = disk st \<and> writes st' = writes st \<and>
    (\<forall>c m. m \<in> H \<and> cached_at st c m \<longrightarrow> cached_at st' c m) \<and> lhn st \<le> lhn st' \<and> lhn st' \<le> lhn st + 1 \<and>
    lstart st' = lstart st \<and> lsize st' = lsize st \<and> outstanding st' = outstanding st \<and> lstate.more st' = lstate.more st \<and>
    committing st' = committing st"
proof -
  have ok: "bc_ok st" and len: "length (lhblock st) = LOGSIZE" and n0: "0 \<le> lhn st" "lhn st < int LOGSIZE"
    using tx by (simp_all add: tx_held_def)
  note r = tx_held_refs [OF tx]
  have bn: "blockno (bufs st b) = n" using c by (simp add: cached_at_def)
  have guard: "\<not> (int LOGSIZE \<le> lhn st \<or> lsize st - 1 \<le> lhn st)" "\<not> outstanding st < 1" using room out by auto
  have li: "lhn st \<le> int (length (lhblock st))" using len n0 by simp
  show ?thesis
  proof (cases "n \<in> logged st")
    case True
    note i = log_index_logged(1) [OF li True]
    have "st\<lparr>lhblock := (lhblock st)[log_index n st := n]\<rparr> = st"
    proof -
      have "(lhblock st)[log_index n st := n] = lhblock st" using i by (metis list_update_id)
      then show ?thesis by simp
    qed
    moreover have "int (log_index n st) \<noteq> lhn st" using i by linarith
    ultimately have "log_write b st = Ok st" using guard by (simp add: log_write_def Let_def bn)
    with True tx show ?thesis by (auto simp: insert_absorb)
  next
    case False
    note i = log_index_logged(2) [OF li False]
    define s1 where "s1 = st\<lparr>lhblock := (lhblock st)[nat (lhn st) := n]\<rparr>"
    have v1: "bview_of s1 = bview_of st" "bc_ok s1" "cached_at s1 = cached_at st" using ok by (simp_all add: s1_def)
    have cnt: "arefs (bview_of s1) n = 1" using tx n False by (simp add: v1 tx_held_def)
    note bp = bpin_ok [OF v1(2), of b n]
    have bp': "bc_ok (bpin b s1)" "bframe s1 (bpin b s1)"
      "bview_of (bpin b s1) = (bview_of st)\<lparr>arefs := (arefs (bview_of st))(n := 2)\<rparr>"
      using bp c cnt v1 by auto
    define st' where "st' = (bpin b s1)\<lparr>lhn := lhn st + 1\<rparr>"
    have run: "log_write b st = Ok st'"
      using guard i n0 by (simp add: log_write_def Let_def bn st'_def s1_def)
    have tk: "take (nat (lhn st + 1)) ((lhblock st)[nat (lhn st) := n]) = take (nat (lhn st)) (lhblock st) @ [n]"
      using n0 len by (simp add: nat_add_distrib take_Suc_conv_app_nth)
    then have lg: "logged st' = insert n (logged st)" by (simp add: logged_def st'_def s1_def)
    have "tx_held p H st'"
      unfolding tx_held_def
    proof (intro conjI allI)
      show "distinct (take (nat (lhn st')) (lhblock st'))"
        using tx False tk by (simp add: tx_held_def logged_def st'_def s1_def)
      show "logged st' \<inter> logarea (lstart st') = {}" using tx home lg by (simp add: tx_held_def st'_def s1_def)
      show "aheld (bview_of st') m = (if m \<in> H then Some p else None)" for m
        using tx by (simp add: st'_def bp'(3) tx_held_def)
      show "arefs (bview_of st') m = (if m \<in> logged st' then 1 else 0) + (if m \<in> H then 1 else 0)" for m
        using tx n False by (simp add: st'_def bp'(3) lg [unfolded st'_def] tx_held_def)
    qed (use bp'(1) tx room n0 len in \<open>simp_all add: st'_def s1_def tx_held_def\<close>)
    moreover have "\<forall>c m. m \<in> H \<and> cached_at st c m \<longrightarrow> cached_at st' c m"
      using bframe_cached [OF bp'(2)] r(4) v1 by (auto simp: st'_def)
    ultimately show ?thesis using run lg by (auto simp: st'_def s1_def bp'(3) [unfolded s1_def])
  qed
qed

lemma begin_op_ok:
  "\<not> committing st \<Longrightarrow> lhn st + (outstanding st + 1) * MAXOPBLOCKS \<le> int LOGSIZE \<Longrightarrow>
    begin_op st = Ok (st\<lparr>outstanding := outstanding st + 1\<rparr>)"
  by (simp add: begin_op_def)

text \<open>The typical use of the log: read a block, change it, log it, release it.\<close>

lemma tx_update:
  assumes tx: "tx_ok st" and home: "n \<notin> logarea (lstart st)"
    and room: "lhn st < int LOGSIZE - 1" "lhn st < lsize st - 1" and out: "1 \<le> outstanding st"
  shows "\<exists>b s1 s2 s3. bread p ROOTDEV n st = Ok (b, s1) \<and>
    log_write b (upd_buf b (\<lambda>x. x\<lparr>bdata := d\<rparr>) s1) = Ok s2 \<and> brelse p b s2 = Ok s3 \<and>
    tx_ok s3 \<and> n \<in> logged s3 \<and> acont (bview_of s3) = (acont (bview_of st))(n := d) \<and> disk s3 = disk st \<and>
    writes s3 = writes st \<and> lstart s3 = lstart st \<and> lhn st \<le> lhn s3 \<and> lhn s3 \<le> lhn st + 1"
proof -
  have t0: "tx_held p {} st" using tx tx_ok_held by blast
  have "card (logged st) \<le> nat (lhn st)"
    unfolding logged_def by (rule order_trans [OF card_length]) simp
  then have "card (logged st \<union> {}) < NBUF" using room t0 by (simp add: tx_held_def)
  then obtain b s1 where b: "bread p ROOTDEV n st = Ok (b, s1)" "tx_held p {n} s1" "cached_at s1 b n"
    "acont (bview_of s1) = acont (bview_of st)" "tx_frame {} st s1"
    using tx_bread [OF t0, of n] by auto
  note l1 = log_part_eq [of s1 st]
  define s where "s = upd_buf b (\<lambda>x. x\<lparr>bdata := d\<rparr>) s1"
  note sd = tx_set_data [OF b(2) _ b(3), of d, folded s_def]
  have s: "tx_held p {n} s" "cached_at s b n" "acont (bview_of s) = (acont (bview_of st))(n := d)" "tx_frame {n} s1 s"
    using sd b(4) by simp_all
  have f: "log_part s = log_part st" "disk s = disk st" "writes s = writes st"
    using s(4) b(5) by (simp_all add: tx_frame_def)
  obtain s2 where s2: "log_write b s = Ok s2" "tx_held p {n} s2" "logged s2 = insert n (logged s)"
    "acont (bview_of s2) = acont (bview_of s)" "disk s2 = disk s" "writes s2 = writes s" "cached_at s2 b n"
    "lhn s \<le> lhn s2" "lhn s2 \<le> lhn s + 1" "lstart s2 = lstart s"
    using tx_log_write [OF s(1) _ s(2)] home room out log_part_eq [OF f(1)] s(2) by auto
  obtain s3 where s3: "brelse p b s2 = Ok s3" "tx_held p ({n} - {n}) s3" "acont (bview_of s3) = acont (bview_of s2)"
    "tx_frame ({n} - {n}) s2 s3"
    using tx_brelse [OF s2(2) _ s2(7)] s2(3) by auto
  have f3: "log_part s3 = log_part s2" "disk s3 = disk s2" "writes s3 = writes s2" using s3(4) by (simp_all add: tx_frame_def)
  have "tx_ok s3" using s3(2) tx_ok_held [of s3 p] by simp
  moreover have "n \<in> logged s3" using s2(3) log_part_eq [OF f3(1)] by (simp add: logged_def)
  ultimately show ?thesis
    using b(1) s2 s3(1,3) s(3) f f3 log_part_eq [OF f(1)] log_part_eq [OF f3(1)]
    by (intro exI [of _ b] exI [of _ s1] exI [of _ s2] exI [of _ s3]) (simp add: s_def)
qed

subsection \<open>Properties\<close>

text \<open>The machine after a reboot with disk \<open>d\<close>: an empty cache and a zeroed log.\<close>

definition lboot :: "u32 \<Rightarrow> (u32 \<Rightarrow> block) \<Rightarrow> lstate" where
  "lboot s d = bstate.extend (bboot d)
     \<lparr>lstart = s, lsize = int LOGSIZE, outstanding = 0, committing = False, ldev = ROOTDEV, lhn = 0,
      lhblock = replicate LOGSIZE 0\<rparr>"

lemma lboot_simps [simp]: "bufs (lboot s d) = bufs (bboot d)" "disk (lboot s d) = d" "writes (lboot s d) = writes (bboot d)"
  "lstart (lboot s d) = s" "ldev (lboot s d) = ROOTDEV" "lhblock (lboot s d) = replicate LOGSIZE 0"
  using bboot_ok(2) [of d] by (simp_all add: lboot_def bstate.defs)

lemma lboot_ok: "bc_ok (lboot s d)" "arefs (bview_of (lboot s d)) m = 0"
proof -
  have "bview_of (lboot s d) = bview_of (bboot d)" "bc_ok (lboot s d) = bc_ok (bboot d)"
    by (rule bview_ext; simp add: bboot_ok(2))+
  then show "bc_ok (lboot s d)" "arefs (bview_of (lboot s d)) m = 0" using bboot_ok by simp_all
qed

lemma recover_lboot:
  assumes "log_valid s d"
  shows "\<exists>r bs. recover_from_log p (lboot s d) = Ok r \<and> writes r = writes (lboot s d) @ recover_writes s d bs \<and>
    disk r = upds d (recover_writes s d bs) \<and> (\<forall>m. m \<notin> logarea s \<longrightarrow> disk r m = logical s d m) \<and> hdr_n s (disk r) = 0"
proof -
  obtain r bs where r: "recover_from_log p (lboot s d) = Ok r" "disk r = upds d (recover_writes s d bs)"
    "writes r = writes (lboot s d) @ recover_writes s d bs"
    using recover_ok [OF lboot_ok(1) _ _ lboot_ok(2), of s d p] assms by auto
  let ?k = "length (recover_writes s d bs)"
  have k: "nat (hdr_n s d) < ?k" by (simp add: recover_writes_def)
  with recover_prefix(3,4) [OF assms, where k = ?k and bs' = bs] r show ?thesis by auto
qed

text \<open>After \<open>commit\<close> the disk has the contents of the transaction and the log is empty again.\<close>

lemma commit_final:
  assumes "tx_ok st" "0 < lhn st" "hdr_n (lstart st) (disk st) = 0"
  defines "ws \<equiv> commit_writes (lstart st) (lhblock st) (nat (lhn st)) (lhblock st) (acont (bview_of st)) (disk st)"
  shows "hdr_n (lstart st) (upds (disk st) ws) = 0"
    "m \<notin> logarea (lstart st) \<Longrightarrow> upds (disk st) ws m = acont (bview_of st) m"
    "log_valid (lstart st) (upds (disk st) (take k ws)) \<and> (\<forall>m. m \<notin> logarea (lstart st) \<longrightarrow>
      logical (lstart st) (upds (disk st) (take k ws)) m = (if k \<le> nat (lhn st) then disk st m else acont (bview_of st) m))"
proof -
  define s n bs where "s = lstart st" and "n = nat (lhn st)" and "bs = lhblock st"
  have n: "0 < n" "n < LOGSIZE" "length bs = LOGSIZE" "distinct (take n bs)" "set (take n bs) \<inter> logarea s = {}"
    "\<And>m. m \<notin> set (take n bs) \<Longrightarrow> arefs (bview_of st) m = 0" "bc_ok st"
    using assms(1,2) by (auto simp: tx_ok_def Let_def s_def n_def bs_def)
  have same: "acont (bview_of st) m = disk st m" if "m \<notin> set (take n bs)" for m
    using bview_clean [OF n(7) n(6) [OF that]] by simp
  have pre: "log_valid s (upds (disk st) (take k ws)) \<and> (\<forall>m. m \<notin> logarea s \<longrightarrow>
      logical s (upds (disk st) (take k ws)) m = (if k \<le> n then disk st m else acont (bview_of st) m))" for k
    using commit_prefix [OF n(1-5) _ same, where k = k] assms(3) by (simp add: ws_def s_def n_def bs_def)
  then show "log_valid (lstart st) (upds (disk st) (take k ws)) \<and> (\<forall>m. m \<notin> logarea (lstart st) \<longrightarrow>
      logical (lstart st) (upds (disk st) (take k ws)) m = (if k \<le> nat (lhn st) then disk st m else acont (bview_of st) m))"
    by (simp add: s_def n_def)
  have lenw: "length ws = 2 * n + 2" by (simp add: ws_def commit_writes_def Let_def n_def)
  show h: "hdr_n (lstart st) (upds (disk st) ws) = 0"
    unfolding ws_def by (rule hdr_n_put) (auto simp: commit_writes_def Let_def)
  show "upds (disk st) ws m = acont (bview_of st) m" if "m \<notin> logarea (lstart st)"
    using pre [of "length ws"] that lenw h by (simp add: s_def logical_none)
qed

text \<open>
  C14: Crash safety of the log. Take any transaction that is ready to commit, on a disk whose
  log is empty. \<open>commit\<close> runs to the end; and if the machine stops after any number \<open>k\<close> of
  its disk writes, \<open>recover_from_log\<close> on the rebooted machine succeeds and leaves every block
  outside the log with its old content if the header had not been written, and every block
  with its new content if it had: never a mixture.
\<close>

theorem commit_crash_atomic:
  assumes "tx_ok st" "0 < lhn st" "hdr_n (lstart st) (disk st) = 0"
  shows "\<exists>st' ws. commit p st = Ok st' \<and> lhn st' = 0 \<and> writes st' = writes st @ ws \<and> disk st' = upds (disk st) ws \<and>
    (\<forall>m. m \<notin> logarea (lstart st) \<longrightarrow> disk st' m = acont (bview_of st) m) \<and>
    (\<forall>k. \<exists>r. recover_from_log q (lboot (lstart st) (upds (disk st) (take k ws))) = Ok r \<and>
      (\<forall>m. m \<notin> logarea (lstart st) \<longrightarrow>
         disk r m = (if k \<le> nat (lhn st) then disk st m else acont (bview_of st) m)))"
proof -
  define ws where "ws = commit_writes (lstart st) (lhblock st) (nat (lhn st)) (lhblock st) (acont (bview_of st)) (disk st)"
  obtain st' where st': "commit p st = Ok st'" "disk st' = upds (disk st) ws" "writes st' = writes st @ ws" "lhn st' = 0"
    using commit_ok [OF assms(1,2), of p] by (auto simp: ws_def)
  note fin = commit_final [OF assms, folded ws_def]
  have "\<exists>r. recover_from_log q (lboot (lstart st) (upds (disk st) (take k ws))) = Ok r \<and>
      (\<forall>m. m \<notin> logarea (lstart st) \<longrightarrow> disk r m = (if k \<le> nat (lhn st) then disk st m else acont (bview_of st) m))" for k
    using recover_lboot [of "lstart st" "upds (disk st) (take k ws)" q] fin(3) [of k] by auto
  with st' fin(2) show ?thesis by auto
qed

text \<open>A machine inside its first transaction, for the witnesses.\<close>

lemma sample_tx:
  "tx_ok ((lboot 2 (\<lambda>_ _. 0))\<lparr>outstanding := 1\<rparr>)" "lhn ((lboot 2 (\<lambda>_ _. 0))\<lparr>outstanding := 1\<rparr>) = 0"
  "lsize ((lboot 2 (\<lambda>_ _. 0))\<lparr>outstanding := 1\<rparr>) = 30" "outstanding ((lboot 2 (\<lambda>_ _. 0))\<lparr>outstanding := 1\<rparr>) = 1"
  "lstart ((lboot 2 (\<lambda>_ _. 0))\<lparr>outstanding := 1\<rparr>) = 2" "disk ((lboot 2 (\<lambda>_ _. 0))\<lparr>outstanding := 1\<rparr>) = (\<lambda>_ _. 0)"
proof -
  define z where "z = (lboot 2 (\<lambda>_ _. 0))\<lparr>outstanding := 1\<rparr>"
  have vz: "bview_of z = bview_of (lboot 2 (\<lambda>_ _. 0))" "bc_ok z" unfolding z_def using lboot_ok(1) by simp_all
  have fz: "lhn z = 0" "lsize z = 30" "outstanding z = 1" "lstart z = 2" "disk z = (\<lambda>_ _. 0)" "ldev z = ROOTDEV"
    "lhblock z = replicate LOGSIZE 0"
    by (simp_all add: z_def) (simp_all add: lboot_def bstate.defs)
  have rz: "arefs (bview_of z) m = 0" for m using lboot_ok(2) [of 2 "\<lambda>_ _. 0" m] vz(1) by simp
  show "tx_ok z" using bview_clean [OF vz(2) rz] vz fz rz by (auto simp: tx_ok_def Let_def)
  show "lhn z = 0" "lsize z = 30" "outstanding z = 1" "lstart z = 2" "disk z = (\<lambda>_ _. 0)" by (fact fz)+
qed

lemma sample_home: "(40 :: u32) \<notin> logarea 2"
proof
  assume "(40 :: u32) \<in> logarea 2"
  then obtain i where i: "i < LOGSIZE - 1" "40 = logaddr 2 i" by (auto simp: logarea_def)
  have "unat (logaddr 2 i) = i + 3"
    using i(1) by (simp add: logaddr_def unat_word_ariths unat_of_nat take_bit_nat_eq_self)
  moreover have "unat (logaddr 2 i) = 40" using i(2) [symmetric] by simp
  ultimately show False using i(1) by simp
qed

theorem commit_crash_atomic_witness:
  "\<exists>(st :: lstate) st' r. 0 < lhn st \<and> commit 1 st = Ok st' \<and> disk st' 40 = (\<lambda>_. 7) \<and>
     recover_from_log 1 (lboot 2 (disk st)) = Ok r \<and> disk r 40 = (\<lambda>_. 0)"
proof -
  define z where "z = (lboot 2 (\<lambda>_ _. 0))\<lparr>outstanding := 1\<rparr>"
  note fz = sample_tx [folded z_def]
  note h = sample_home
  obtain s :: lstate where s: "tx_ok s" "40 \<in> logged s" "acont (bview_of s) = (acont (bview_of z))(40 := \<lambda>_. 7)"
    "disk s = disk z" "lstart s = 2" "0 \<le> lhn s"
    using tx_update [of z 40 1 "\<lambda>_. 7"] fz h by auto
  have "0 < lhn s" using s(2,6) by (cases "lhn s = 0") (auto simp: logged_def)
  moreover have "hdr_n (lstart s) (disk s) = 0" by (simp add: s fz hdr_n_def get32_def get16_def)
  ultimately obtain st' ws where c: "commit 1 s = Ok st'" "\<forall>m. m \<notin> logarea 2 \<longrightarrow> disk st' m = acont (bview_of s) m"
    "\<forall>k. \<exists>r. recover_from_log 1 (lboot 2 (upds (disk s) (take k ws))) = Ok r \<and>
      (\<forall>m. m \<notin> logarea 2 \<longrightarrow> disk r m = (if k \<le> nat (lhn s) then disk s m else acont (bview_of s) m))"
    using commit_crash_atomic [OF s(1), of 1 1] s(5) by auto
  obtain r where "recover_from_log 1 (lboot 2 (disk s)) = Ok r" "disk r 40 = disk s 40"
    using c(3) [rule_format, of 0] h by auto
  with c(1,2) h s \<open>0 < lhn s\<close> fz show ?thesis
    by (intro exI [of _ s] exI [of _ st'] exI [of _ r]) simp
qed

text \<open>
  Deferred writes. For a transaction with room for one more block, reading a block of the
  file system, changing its data, \<open>log_write\<close> and \<open>brelse\<close> succeed in turn; afterwards the
  cache has the new content of that block and the old content of all others, the disk is not
  changed, the block is in the log exactly once (absorption: the log grows by at most one
  entry), and the transaction can be committed or continued.
\<close>

theorem log_write_defers:
  assumes "tx_ok st" "n \<notin> logarea (lstart st)" "lhn st < int LOGSIZE - 1" "lhn st < lsize st - 1" "1 \<le> outstanding st"
  shows "\<exists>b s1 s2 s3. bread p ROOTDEV n st = Ok (b, s1) \<and>
    log_write b (upd_buf b (\<lambda>x. x\<lparr>bdata := d\<rparr>) s1) = Ok s2 \<and> brelse p b s2 = Ok s3 \<and>
    tx_ok s3 \<and> n \<in> logged s3 \<and> acont (bview_of s3) = (acont (bview_of st))(n := d) \<and> disk s3 = disk st \<and>
    writes s3 = writes st \<and> lhn s3 \<le> lhn st + 1"
  using tx_update [OF assms, of p d] by blast

theorem log_write_defers_witness:
  "\<exists>b s1 s2 s3. bread 1 ROOTDEV 40 ((lboot 2 (\<lambda>_ _. 0))\<lparr>outstanding := 1\<rparr>) = Ok (b, s1) \<and>
    log_write b (upd_buf b (\<lambda>x. x\<lparr>bdata := \<lambda>_. 7\<rparr>) s1) = Ok s2 \<and> brelse 1 b s2 = Ok s3 \<and> 40 \<in> logged s3"
  using log_write_defers [OF sample_tx(1), of 40 1 "\<lambda>_. 7"] sample_tx sample_home by auto

text \<open>
  C15: Recovery may itself be interrupted. If \<open>recover_from_log\<close> stops after any number of its
  disk writes and runs again after the next boot, every block outside the log ends up with the
  content that an uninterrupted recovery gives it.
\<close>

theorem recover_crash_idempotent:
  assumes "log_valid s d"
  shows "\<exists>r ws. recover_from_log p (lboot s d) = Ok r \<and> writes r = writes (lboot s d) @ ws \<and> hdr_n s (disk r) = 0 \<and>
    (\<forall>k. \<exists>r'. recover_from_log q (lboot s (upds d (take k ws))) = Ok r' \<and>
      (\<forall>m. m \<notin> logarea s \<longrightarrow> disk r' m = disk r m))"
proof -
  obtain r bs where r: "recover_from_log p (lboot s d) = Ok r" "writes r = writes (lboot s d) @ recover_writes s d bs"
    "\<forall>m. m \<notin> logarea s \<longrightarrow> disk r m = logical s d m" "hdr_n s (disk r) = 0"
    using recover_lboot [OF assms, of p] by auto
  have "\<exists>r'. recover_from_log q (lboot s (upds d (take k (recover_writes s d bs)))) = Ok r' \<and>
      (\<forall>m. m \<notin> logarea s \<longrightarrow> disk r' m = disk r m)" for k
    using recover_lboot [OF recover_prefix(1) [OF assms, of k bs], of q] recover_prefix(2) [OF assms, of _ k bs] r(3) by auto
  with r show ?thesis by blast
qed

theorem recover_crash_idempotent_witness:
  "\<exists>r. recover_from_log 1 (lboot 2 (\<lambda>_ _. 0)) = Ok r \<and> hdr_n 2 (disk r) = 0"
proof -
  have "get32 (\<lambda>_. 0) 0 = 0" by (simp add: get32_def get16_def)
  then have "log_valid 2 (\<lambda>_ _. 0)" by (simp add: log_valid_def hdr_n_def)
  from recover_crash_idempotent [OF this, of 1 1] show ?thesis by blast
qed

end
