(* ===== verification/Ring.thy ===== *)
theory Ring
  imports Prelude
begin

text \<open>
  Ring buffers with free-running indices, as in \<open>pipe.c\<close>, \<open>console.c\<close>, \<open>uart.c\<close> and \<open>virtio_disk.c\<close>:
  an array of \<open>N\<close> elements, a read index \<open>r\<close> and a write index \<open>w\<close> that are never reduced and
  wrap with their type, with element \<open>i\<close> at \<open>i % N\<close>. The locale holds what these
  components share: the array with its indices is a queue, provided that \<open>N\<close> divides the
  range of the index type, and provided that nobody writes when \<open>w - r\<close> has reached \<open>N\<close>.
\<close>

definition ring_at :: "nat \<Rightarrow> 'a::len word \<Rightarrow> nat" where
  "ring_at N k = unat k mod N"

text \<open>The elements between two indices.\<close>

definition ring_queue :: "nat \<Rightarrow> 'b list \<Rightarrow> 'a::len word \<Rightarrow> 'a word \<Rightarrow> 'b list" where
  "ring_queue N buf r w = map (\<lambda>i. buf ! ring_at N (r + of_nat i)) [0..<unat (w - r)]"

lemma length_ring_queue [simp]: "length (ring_queue N buf r w) = unat (w - r)"
  by (simp add: ring_queue_def)

lemma ring_queue_empty [simp]: "ring_queue N buf r r = []"
  by (simp add: ring_queue_def)

lemma unat_diff_Suc: "r \<noteq> w \<Longrightarrow> unat (w - r) = Suc (unat (w - (r + 1)))" for r w :: "'a::len word"
proof -
  assume "r \<noteq> w"
  then have "w - r \<noteq> 0" by simp
  from unat_minus_one [OF this] have "unat (w - (r + 1)) = unat (w - r) - 1" by (simp add: algebra_simps)
  moreover have "0 < unat (w - r)" using \<open>w - r \<noteq> 0\<close> by (simp add: unat_gt_0)
  ultimately show ?thesis by simp
qed

locale ring =
  fixes N :: nat and idx :: "'a::len itself"
  assumes N_pos: "0 < N" and N_dvd: "N dvd 2 ^ LENGTH('a)"
begin

lemma N_le: "N \<le> 2 ^ LENGTH('a)"
  using N_dvd by (simp add: dvd_imp_le)

lemma at_less: "ring_at N (k :: 'a word) < N"
  using N_pos by (simp add: ring_at_def)

lemma at_add: "ring_at N (r + of_nat i :: 'a word) = (unat r + i) mod N"
proof -
  have "unat (r + of_nat i :: 'a word) = (unat r + i) mod 2 ^ LENGTH('a)"
    by (simp add: unat_word_ariths unat_of_nat take_bit_eq_mod mod_add_right_eq)
  then show ?thesis using N_dvd by (simp add: ring_at_def mod_mod_cancel)
qed

lemma at_inj:
  assumes "i < N" "j < N" "ring_at N (r + of_nat i :: 'a word) = ring_at N (r + of_nat j)"
  shows "i = j"
proof -
  have "(unat r + i) mod N = (unat r + j) mod N" using assms(3) by (simp add: at_add)
  then have "int N dvd (int (unat r) + int i) - (int (unat r) + int j)" by (metis mod_eq_dvd_iff of_nat_add of_nat_mod)
  then have "int i mod int N = int j mod int N" by (simp add: mod_eq_dvd_iff)
  then show ?thesis using assms(1,2) by simp
qed

lemma queue_get:
  assumes "(r :: 'a word) \<noteq> w"
  shows "ring_queue N buf r w = buf ! ring_at N r # ring_queue N buf (r + 1) w"
proof -
  have "[0..<unat (w - r)] = 0 # map Suc [0..<unat (w - (r + 1))]"
    using unat_diff_Suc [OF assms] by (simp add: upt_conv_Cons map_Suc_upt del: upt_Suc)
  then show ?thesis by (simp add: ring_queue_def algebra_simps)
qed

lemma queue_put:
  assumes "unat (w - (r :: 'a word)) < N" "N < 2 ^ LENGTH('a)" "length buf = N"
  shows "ring_queue N (buf[ring_at N w := c]) r (w + 1) = ring_queue N buf r w @ [c]"
proof -
  let ?n = "unat (w - r)"
  have w: "w = r + of_nat ?n" by simp
  have "unat (w + 1 - r) = unat (w - r + 1)" by (simp add: algebra_simps)
  also have "\<dots> = Suc ?n" using assms(1,2) by (simp add: unat_word_ariths)
  finally have n: "unat (w + 1 - r) = Suc ?n" .
  have other: "(buf[ring_at N w := c]) ! ring_at N (r + of_nat i) = buf ! ring_at N (r + of_nat i)" if "i < ?n" for i
  proof -
    have "ring_at N (r + of_nat i) \<noteq> ring_at N (r + of_nat ?n)" using at_inj [of i ?n r] that assms(1) by auto
    then show ?thesis using w by (metis nth_list_update_neq)
  qed
  have "ring_queue N (buf[ring_at N w := c]) r (w + 1) =
      map (\<lambda>i. (buf[ring_at N w := c]) ! ring_at N (r + of_nat i)) [0..<?n] @ [(buf[ring_at N w := c]) ! ring_at N (r + of_nat ?n)]"
    by (simp only: ring_queue_def n upt_Suc_append le0 map_append list.map)
  also have "\<dots> = ring_queue N buf r w @ [c]"
    using other at_less [of w] assms(3) by (auto simp: ring_queue_def)
  finally show ?thesis .
qed

lemma queue_unput:
  assumes "unat (w - (r :: 'a word)) \<noteq> 0"
  shows "ring_queue N buf r (w - 1) = butlast (ring_queue N buf r w)"
proof -
  have nz: "w - r \<noteq> 0" using assms by auto
  have "unat (w - 1 - r) = unat (w - r) - 1" using unat_minus_one [OF nz] by (simp add: algebra_simps)
  then show ?thesis using assms by (cases "unat (w - r)") (simp_all add: ring_queue_def butlast_append map_butlast [symmetric])
qed

end

end
