(* ===== verification/Pipe.thy ===== *)
theory Pipe
  imports Ring "HOL-Library.Sublist"
begin

text \<open>
  Pipes, \<open>kernel/pipe.c\<close> (\<open>pipealloc\<close> is in theory \<open>File\<close>, next to \<open>filealloc\<close>).

  \<open>pi->lock\<close> makes a run of \<open>pipewrite\<close> or \<open>piperead\<close> from its start, or from a
  wakeup, to its next \<open>sleep\<close> or return one step. Such a run is a function; its result says
  whether the call returned or went to sleep and with which \<open>i\<close>, so that a sleeping writer
  continues with \<open>pipewrite_from\<close> and a sleeping reader calls \<open>piperead\<close> again (it sleeps
  before its first byte only). \<open>copyin\<close> and \<open>copyout\<close> of one byte are parameters: the byte
  at \<open>addr + i\<close> of the user memory or a fault, and whether \<open>addr + i\<close> can be written.
\<close>

abbreviation PIPESIZE :: nat where "PIPESIZE \<equiv> 512"

record pipe =
  pdata :: "u8 list"
  nread :: u32
  nwrite :: u32
  readopen :: bool
  writeopen :: bool

datatype run = Returns int | Sleeps nat

definition pipe_full :: "pipe \<Rightarrow> bool" where
  "pipe_full pi \<longleftrightarrow> nwrite pi = nread pi + of_nat PIPESIZE"

definition pipe_put :: "u8 \<Rightarrow> pipe \<Rightarrow> pipe" where
  "pipe_put ch pi = pi\<lparr>pdata := (pdata pi)[ring_at PIPESIZE (nwrite pi) := ch], nwrite := nwrite pi + 1\<rparr>"

text \<open>\<open>pipeclose\<close>; the second component is true when the page of the pipe is freed.\<close>

definition pipeclose :: "bool \<Rightarrow> pipe \<Rightarrow> pipe \<times> bool" where
  "pipeclose writable pi =
     (let pi = (if writable then pi\<lparr>writeopen := False\<rparr> else pi\<lparr>readopen := False\<rparr>)
      in (pi, \<not> readopen pi \<and> \<not> writeopen pi))"

function pipewrite_from :: "(nat \<Rightarrow> u8 option) \<Rightarrow> bool \<Rightarrow> int \<Rightarrow> nat \<Rightarrow> pipe \<Rightarrow> run \<times> pipe" where
  "pipewrite_from copyin killed n i pi =
     (if int i < n then
        if \<not> readopen pi \<or> killed then (Returns (-1), pi)
        else if pipe_full pi then (Sleeps i, pi)
        else case copyin i of
               None \<Rightarrow> (Returns (int i), pi)
             | Some ch \<Rightarrow> pipewrite_from copyin killed n (i + 1) (pipe_put ch pi)
      else (Returns (int i), pi))"
  by pat_completeness auto
termination by (relation "measure (\<lambda>(_, _, n, i, _). nat (n - int i))") auto

declare pipewrite_from.simps [simp del]

definition pipewrite :: "(nat \<Rightarrow> u8 option) \<Rightarrow> bool \<Rightarrow> int \<Rightarrow> pipe \<Rightarrow> run \<times> pipe" where
  "pipewrite copyin killed n pi = pipewrite_from copyin killed n 0 pi"

text \<open>The copying loop: the final \<open>i\<close> and the bytes that reached the user.\<close>

function piperead_loop :: "(nat \<Rightarrow> bool) \<Rightarrow> int \<Rightarrow> nat \<Rightarrow> pipe \<Rightarrow> nat \<times> u8 list \<times> pipe" where
  "piperead_loop copyout n i pi =
     (if int i < n then
        if nread pi = nwrite pi then (i, [], pi)
        else
          let ch = pdata pi ! ring_at PIPESIZE (nread pi);
              pi = pi\<lparr>nread := nread pi + 1\<rparr>
          in if \<not> copyout i then (i, [], pi)
             else let (j, bs, pi) = piperead_loop copyout n (i + 1) pi in (j, ch # bs, pi)
      else (i, [], pi))"
  by pat_completeness auto
termination by (relation "measure (\<lambda>(_, n, i, _). nat (n - int i))") auto

declare piperead_loop.simps [simp del]

definition piperead :: "(nat \<Rightarrow> bool) \<Rightarrow> bool \<Rightarrow> int \<Rightarrow> pipe \<Rightarrow> run \<times> u8 list \<times> pipe" where
  "piperead copyout killed n pi =
     (if nread pi = nwrite pi \<and> writeopen pi then
        if killed then (Returns (-1), [], pi) else (Sleeps 0, [], pi)
      else let (i, bs, pi) = piperead_loop copyout n 0 pi in (Returns (int i), bs, pi))"

subsection \<open>The queue\<close>

interpretation pr: ring PIPESIZE "TYPE(32)"
  by unfold_locales simp_all

definition pipe_queue :: "pipe \<Rightarrow> u8 list" where
  "pipe_queue pi = ring_queue PIPESIZE (pdata pi) (nread pi) (nwrite pi)"

definition pipe_ok :: "pipe \<Rightarrow> bool" where
  "pipe_ok pi \<longleftrightarrow> length (pdata pi) = PIPESIZE \<and> unat (nwrite pi - nread pi) \<le> PIPESIZE"

definition pipe_init :: "u8 list \<Rightarrow> pipe" where
  "pipe_init page = \<lparr>pdata = page, nread = 0, nwrite = 0, readopen = True, writeopen = True\<rparr>"

lemma pipe_full_iff: "pipe_ok pi \<Longrightarrow> pipe_full pi \<longleftrightarrow> length (pipe_queue pi) = PIPESIZE"
proof -
  have "unat (nwrite pi - nread pi) = 512 \<longleftrightarrow> nwrite pi - nread pi = 512" by (simp add: word_unat_eq_iff)
  then show ?thesis by (auto simp: pipe_full_def pipe_queue_def algebra_simps)
qed

lemma pipe_put_ok:
  assumes "pipe_ok pi" "\<not> pipe_full pi"
  shows "pipe_ok (pipe_put ch pi)" "pipe_queue (pipe_put ch pi) = pipe_queue pi @ [ch]"
proof -
  have lt: "unat (nwrite pi - nread pi) < PIPESIZE"
    using assms pipe_full_iff [OF assms(1)] by (simp add: pipe_ok_def pipe_queue_def)
  show q: "pipe_queue (pipe_put ch pi) = pipe_queue pi @ [ch]"
    using pr.queue_put [OF lt, of "pdata pi" ch] assms(1) by (simp add: pipe_queue_def pipe_put_def pipe_ok_def)
  have "unat (nwrite pi + 1 - nread pi) = length (pipe_queue (pipe_put ch pi))" by (simp add: pipe_queue_def pipe_put_def)
  also have "\<dots> \<le> PIPESIZE" using q lt by (simp add: pipe_queue_def)
  finally show "pipe_ok (pipe_put ch pi)" using assms(1) by (simp add: pipe_ok_def pipe_put_def)
qed

lemma pipe_get_ok:
  assumes "pipe_ok pi" "nread pi \<noteq> nwrite pi"
  shows "pipe_ok (pi\<lparr>nread := nread pi + 1\<rparr>)"
    "pipe_queue pi = pdata pi ! ring_at PIPESIZE (nread pi) # pipe_queue (pi\<lparr>nread := nread pi + 1\<rparr>)"
proof -
  show q: "pipe_queue pi = pdata pi ! ring_at PIPESIZE (nread pi) # pipe_queue (pi\<lparr>nread := nread pi + 1\<rparr>)"
    using pr.queue_get [OF assms(2)] by (simp add: pipe_queue_def)
  have "length (pipe_queue pi) = Suc (length (pipe_queue (pi\<lparr>nread := nread pi + 1\<rparr>)))" using q by (metis length_Cons)
  then show "pipe_ok (pi\<lparr>nread := nread pi + 1\<rparr>)" using assms(1) by (simp add: pipe_ok_def pipe_queue_def)
qed

lemma pipe_queue_empty: "pipe_ok pi \<Longrightarrow> nread pi = nwrite pi \<longleftrightarrow> pipe_queue pi = []"
  using unat_eq_0 [of "nwrite pi - nread pi"] by (auto simp: pipe_queue_def ring_queue_def)

text \<open>A run of \<open>pipewrite\<close> from \<open>i\<close> appends the bytes \<open>i..<j\<close>.\<close>

lemma pipewrite_from_spec:
  assumes "pipe_ok pi" "pipewrite_from copyin killed n i pi = (r, pi')"
  shows "\<exists>j\<ge>i. pipe_ok pi' \<and> (int i \<le> n \<longrightarrow> int j \<le> n) \<and> (\<forall>k. i \<le> k \<and> k < j \<longrightarrow> copyin k \<noteq> None) \<and>
    pipe_queue pi' = pipe_queue pi @ map (\<lambda>k. the (copyin k)) [i..<j] \<and>
    nread pi' = nread pi \<and> readopen pi' = readopen pi \<and> writeopen pi' = writeopen pi \<and>
    (case r of
       Sleeps k \<Rightarrow> k = j \<and> int j < n \<and> pipe_full pi' \<and> readopen pi \<and> \<not> killed
     | Returns m \<Rightarrow> (if int i < n \<and> (\<not> readopen pi \<or> killed) then m = -1 \<and> j = i
                    else m = int j \<and> (n \<le> int j \<or> copyin j = None)))"
  using assms
proof (induction copyin killed n i pi rule: pipewrite_from.induct)
  case (1 copyin killed n i pi)
  show ?case
  proof (cases "int i < n \<and> readopen pi \<and> \<not> killed \<and> \<not> pipe_full pi \<and> copyin i \<noteq> None")
    case True
    then obtain ch where ch: "copyin i = Some ch" by blast
    have run: "pipewrite_from copyin killed n (i + 1) (pipe_put ch pi) = (r, pi')"
      using "1.prems"(2) True ch by (subst (asm) pipewrite_from.simps) simp
    have put: "pipe_ok (pipe_put ch pi)" "pipe_queue (pipe_put ch pi) = pipe_queue pi @ [ch]"
      using pipe_put_ok "1.prems"(1) True by auto
    have fl: "readopen (pipe_put ch pi) = readopen pi" "writeopen (pipe_put ch pi) = writeopen pi" "nread (pipe_put ch pi) = nread pi"
      by (simp_all add: pipe_put_def)
    obtain j where j: "i + 1 \<le> j" "pipe_ok pi'" "int (i + 1) \<le> n \<longrightarrow> int j \<le> n"
      "\<forall>k. i + 1 \<le> k \<and> k < j \<longrightarrow> copyin k \<noteq> None"
      "pipe_queue pi' = (pipe_queue pi @ [ch]) @ map (\<lambda>k. the (copyin k)) [i + 1..<j]"
      "nread pi' = nread pi" "readopen pi' = readopen pi" "writeopen pi' = writeopen pi"
      "case r of Sleeps k \<Rightarrow> k = j \<and> int j < n \<and> pipe_full pi' \<and> readopen pi \<and> \<not> killed
         | Returns m \<Rightarrow> (if int (i + 1) < n \<and> (\<not> readopen pi \<or> killed) then m = -1 \<and> j = i + 1
                    else m = int j \<and> (n \<le> int j \<or> copyin j = None))"
    proof -
      have "\<not> (\<not> readopen pi \<or> killed)" "int i < n" "\<not> pipe_full pi" using True by auto
      from "1.IH" [OF this(2,1,3) ch put(1) run] that show thesis unfolding put(2) fl by blast
    qed
    have "[i..<j] = i # [i + 1..<j]" using j(1) by (simp add: upt_conv_Cons)
    then have "pipe_queue pi' = pipe_queue pi @ map (\<lambda>k. the (copyin k)) [i..<j]" using j(5) ch by simp
    moreover have "copyin k \<noteq> None" if "i \<le> k" "k < j" for k
      using j(4) [rule_format, of k] that ch by (cases "k = i") auto
    ultimately show ?thesis using j True by (intro exI [of _ j]) (auto split: run.splits)
  next
    case False
    then show ?thesis
      using "1.prems" by (intro exI [of _ i]) (auto simp: pipewrite_from.simps [of copyin killed n i pi] split: if_splits option.splits)
  qed
qed

lemma piperead_loop_spec:
  assumes "pipe_ok pi" "piperead_loop copyout n i pi = (j, bs, pi')"
  shows "pipe_ok pi' \<and> i \<le> j \<and> length bs = j - i \<and> (int i \<le> n \<longrightarrow> int j \<le> n) \<and>
    (\<exists>lost. pipe_queue pi = bs @ lost @ pipe_queue pi' \<and>
       (if int j < n \<and> \<not> copyout j \<and> j - i < length (pipe_queue pi) then length lost = 1 else lost = [])) \<and>
    (int j < n \<and> copyout j \<longrightarrow> pipe_queue pi' = []) \<and> (\<forall>k. i \<le> k \<and> k < j \<longrightarrow> copyout k) \<and>
    nwrite pi' = nwrite pi \<and> readopen pi' = readopen pi \<and> writeopen pi' = writeopen pi"
  using assms
proof (induction copyout n i pi arbitrary: j bs pi' rule: piperead_loop.induct)
  case (1 copyout n i pi)
  let ?p = "pi\<lparr>nread := nread pi + 1\<rparr>" and ?c = "pdata pi ! ring_at PIPESIZE (nread pi)"
  show ?case
  proof (cases "int i < n \<and> nread pi \<noteq> nwrite pi")
    case True
    note get = pipe_get_ok [OF "1.prems"(1)]
    show ?thesis
    proof (cases "copyout i")
      case False
      then have e: "j = i" "bs = []" "pi' = ?p"
        using "1.prems"(2) True by (simp_all add: piperead_loop.simps [of copyout n i pi] Let_def)
      have "pipe_queue pi = [] @ [?c] @ pipe_queue pi'" using get(2) True e by simp
      then show ?thesis using e get True False by (auto simp del: append.simps intro: exI [of _ "[?c]"]) 
    next
      case co: True
      obtain bs0 where b0: "piperead_loop copyout n (i + 1) ?p = (j, bs0, pi')" "bs = ?c # bs0"
        using "1.prems"(2) True co
        by (auto simp: piperead_loop.simps [of copyout n i pi] Let_def split: prod.splits)
      have IH: "pipe_ok pi' \<and> i + 1 \<le> j \<and> length bs0 = j - (i + 1) \<and> (int (i + 1) \<le> n \<longrightarrow> int j \<le> n) \<and>
        (\<exists>lost. pipe_queue ?p = bs0 @ lost @ pipe_queue pi' \<and>
           (if int j < n \<and> \<not> copyout j \<and> j - (i + 1) < length (pipe_queue ?p) then length lost = 1 else lost = [])) \<and>
        (int j < n \<and> copyout j \<longrightarrow> pipe_queue pi' = []) \<and> (\<forall>k. i + 1 \<le> k \<and> k < j \<longrightarrow> copyout k) \<and>
        nwrite pi' = nwrite ?p \<and> readopen pi' = readopen ?p \<and> writeopen pi' = writeopen ?p"
        using True co get(1) b0(1) by (intro "1.IH") auto
      then obtain lost where l: "pipe_queue ?p = bs0 @ lost @ pipe_queue pi'"
        "if int j < n \<and> \<not> copyout j \<and> j - (i + 1) < length (pipe_queue ?p) then length lost = 1 else lost = []" by blast
      have q: "pipe_queue pi = bs @ lost @ pipe_queue pi'" using get(2) True l(1) b0(2) by simp
      have len: "length (pipe_queue pi) = Suc (length (pipe_queue ?p))" using get(2) True by (metis length_Cons)
      have "if int j < n \<and> \<not> copyout j \<and> j - i < length (pipe_queue pi) then length lost = 1 else lost = []"
      proof -
        have "j - i < length (pipe_queue pi) \<longleftrightarrow> j - (i + 1) < length (pipe_queue ?p)" using IH len by linarith
        with l(2) show ?thesis by simp
      qed
      moreover have "\<forall>k. i \<le> k \<and> k < j \<longrightarrow> copyout k"
      proof (intro allI impI)
        fix k assume "i \<le> k \<and> k < j"
        then show "copyout k" using IH co by (cases "k = i") auto
      qed
      moreover have "int i \<le> n \<longrightarrow> int j \<le> n" using IH True by auto
      moreover have "i \<le> j" "length bs = j - i" using IH b0(2) by auto
      moreover have "pipe_ok pi'" "int j < n \<and> copyout j \<longrightarrow> pipe_queue pi' = []" "nwrite pi' = nwrite pi"
        "readopen pi' = readopen pi" "writeopen pi' = writeopen pi" using IH by simp_all
      ultimately show ?thesis using q by blast
    qed
  next
    case False
    then have "j = i \<and> bs = [] \<and> pi' = pi" using "1.prems"(2) by (auto simp: piperead_loop.simps [of copyout n i pi] split: if_splits)
    then show ?thesis using False "1.prems"(1) pipe_queue_empty [OF "1.prems"(1)] by auto
  qed
qed

subsection \<open>Histories\<close>

text \<open>A pipe between writers and readers: \<open>sent\<close> and \<open>recvd\<close> are the bytes that
  \<open>pipewrite\<close> has accepted and \<open>piperead\<close> has delivered. A writer may continue a call
  that slept, at the \<open>i\<close> where it stopped. The buffers of writers and readers may be bad anywhere;
  \<open>faults\<close> counts the reads into a buffer with a byte that cannot be written.\<close>

record phist =
  pp :: pipe
  sent :: "u8 list"
  recvd :: "u8 list"
  faults :: nat

definition bad_buffer :: "(nat \<Rightarrow> bool) \<Rightarrow> int \<Rightarrow> bool" where
  "bad_buffer copyout n \<longleftrightarrow> (\<exists>k. int k < n \<and> \<not> copyout k)"

definition accepted :: "(nat \<Rightarrow> u8 option) \<Rightarrow> nat \<Rightarrow> run \<Rightarrow> u8 list" where
  "accepted copyin i r =
     (case r of Sleeps j \<Rightarrow> map (\<lambda>k. the (copyin k)) [i..<j] | Returns m \<Rightarrow> map (\<lambda>k. the (copyin k)) [i..<nat m])"

inductive pipe_step :: "phist \<Rightarrow> phist \<Rightarrow> bool" where
  pwrite: "pipewrite_from copyin killed n i (pp s) = (r, pi') \<Longrightarrow>
    pipe_step s (s\<lparr>pp := pi', sent := sent s @ accepted copyin i r\<rparr>)"
| pread: "piperead copyout killed n (pp s) = (r, bs, pi') \<Longrightarrow>
    pipe_step s (s\<lparr>pp := pi', recvd := recvd s @ bs, faults := faults s + (if bad_buffer copyout n then 1 else 0)\<rparr>)"
| pclose: "pipe_step s (s\<lparr>pp := fst (pipeclose writable (pp s))\<rparr>)"

definition hist_ok :: "phist \<Rightarrow> bool" where
  "hist_ok s \<longleftrightarrow> pipe_ok (pp s) \<and> (\<exists>ts. subseq (recvd s) ts \<and> ts @ pipe_queue (pp s) = sent s \<and>
     length ts \<le> length (recvd s) + faults s)"

lemma hist_ok_step: "pipe_step s s' \<Longrightarrow> hist_ok s \<Longrightarrow> hist_ok s'"
proof (induction rule: pipe_step.induct)
  case (pwrite copyin killed n i s r pi')
  then have ok: "pipe_ok (pp s)" by (simp add: hist_ok_def)
  obtain j where j: "pipe_ok pi'" "i \<le> j" "pipe_queue pi' = pipe_queue (pp s) @ map (\<lambda>k. the (copyin k)) [i..<j]"
    "case r of Sleeps k \<Rightarrow> k = j \<and> int j < n \<and> pipe_full pi' \<and> readopen (pp s) \<and> \<not> killed
     | Returns m \<Rightarrow> (if int i < n \<and> (\<not> readopen (pp s) \<or> killed) then m = -1 \<and> j = i
                    else m = int j \<and> (n \<le> int j \<or> copyin j = None))"
    using pipewrite_from_spec [OF ok pwrite.hyps] by blast
  then have "accepted copyin i r = map (\<lambda>k. the (copyin k)) [i..<j]"
    by (auto simp: accepted_def split: run.splits if_splits)
  with j pwrite.prems show ?case by (auto simp: hist_ok_def)
next
  case (pread copyout killed n s r bs pi')
  obtain ts where ok: "pipe_ok (pp s)" and ts: "subseq (recvd s) ts" "ts @ pipe_queue (pp s) = sent s"
    "length ts \<le> length (recvd s) + faults s"
    using pread.prems by (auto simp: hist_ok_def)
  show ?case
  proof (cases "nread (pp s) = nwrite (pp s) \<and> writeopen (pp s)")
    case True
    then have "bs = [] \<and> pi' = pp s" using pread.hyps by (auto simp: piperead_def split: if_splits)
    with pread.prems ts show ?thesis by (auto simp: hist_ok_def)
  next
    case False
    then obtain j where run: "piperead_loop copyout n 0 (pp s) = (j, bs, pi')"
      using pread.hyps by (auto simp: piperead_def split: prod.splits)
    from piperead_loop_spec [OF ok run] obtain lost where l: "pipe_ok pi'" "pipe_queue (pp s) = bs @ lost @ pipe_queue pi'"
      "if int j < n \<and> \<not> copyout j \<and> j < length (pipe_queue (pp s)) then length lost = 1 else lost = []"
      unfolding diff_zero by blast
    have "length lost \<le> (if bad_buffer copyout n then 1 else 0)"
      using l(3) by (auto simp: bad_buffer_def split: if_splits)
    moreover have "subseq (recvd s @ bs) (ts @ bs @ lost)"
      using list_emb_append_mono [OF ts(1) prefix_imp_subseq [of bs "bs @ lost"]] by simp
    ultimately show ?thesis
      using l(1,2) ts(2,3) by (auto simp: hist_ok_def intro!: exI [of _ "ts @ bs @ lost"])
  qed
next
  case (pclose s writable)
  then show ?case by (auto simp: hist_ok_def pipeclose_def Let_def pipe_ok_def pipe_queue_def)
qed

text \<open>
  C18: Pipes are first in, first out. For any page, and any interleaving of writes (also writes
  that sleep on a full pipe and go on later, and writes from buffers that fault), reads (also reads into
  buffers that fault) and closes: what left the pipe (\<open>ts\<close>) followed by the bytes in the ring is exactly what was accepted
  from writers, in order; the bytes delivered to readers are what left the pipe, in order, with at most one byte
  missing for each read into a bad buffer, so that without such a read the delivered bytes are exactly those; and
  the ring never holds more than 512 bytes, also after the 32-bit indices have wrapped around.
\<close>

theorem pipe_fifo:
  assumes "pipe_step\<^sup>*\<^sup>* \<lparr>pp = pipe_init page, sent = [], recvd = [], faults = 0\<rparr> s" "length page = PIPESIZE"
  shows "(\<exists>ts. ts @ pipe_queue (pp s) = sent s \<and> subseq (recvd s) ts \<and> length ts \<le> length (recvd s) + faults s) \<and>
    (faults s = 0 \<longrightarrow> recvd s @ pipe_queue (pp s) = sent s) \<and> length (pipe_queue (pp s)) \<le> PIPESIZE"
proof -
  have "hist_ok s"
    using assms(1)
  proof (induction rule: rtranclp_induct)
    case base
    show ?case using assms(2) by (simp add: hist_ok_def pipe_ok_def pipe_init_def pipe_queue_def)
  qed (rule hist_ok_step)
  then obtain ts where ts: "pipe_ok (pp s)" "subseq (recvd s) ts" "ts @ pipe_queue (pp s) = sent s" "length ts \<le> length (recvd s) + faults s"
    by (auto simp: hist_ok_def)
  have "recvd s = ts" if "faults s = 0"
    using ts(2,4) that list_emb_length [OF ts(2)] by (intro subseq_same_length) auto
  with ts show ?thesis by (auto simp: pipe_ok_def pipe_queue_def)
qed

text \<open>Two bytes are written; then a read faults on its second byte, which is lost.\<close>

theorem pipe_fifo_witness:
  "\<exists>s. pipe_step\<^sup>*\<^sup>* \<lparr>pp = pipe_init (replicate 512 0), sent = [], recvd = [], faults = 0\<rparr> s \<and> sent s = [7, 8] \<and> faults s = 1 \<and>
     recvd s = [7] \<and> (\<exists>ts. ts @ pipe_queue (pp s) = [7, 8] \<and> subseq [7] ts \<and> length ts \<le> 2)"
proof -
  let ?z = "\<lparr>pp = pipe_init (replicate 512 0), sent = [], recvd = [], faults = 0\<rparr>"
  let ?c = "\<lambda>i. Some (if i = 0 then 7 else 8)" and ?o = "\<lambda>i. i = (0 :: nat)"
  obtain r pi' where w: "pipewrite_from ?c False 2 0 (pp ?z) = (r, pi')" by (cases "pipewrite_from ?c False 2 0 (pp ?z)")
  have r: "r = Returns 2" and q: "pi' = pipe_put 8 (pipe_put 7 (pp ?z))"
    using w by (simp_all add: pipewrite_from.simps [of ?c] pipe_init_def pipe_full_def pipe_put_def)
  let ?s = "?z\<lparr>pp := pi', sent := sent ?z @ accepted ?c 0 r\<rparr>"
  obtain r2 bs pi2 where p: "piperead ?o False 4 (pp ?s) = (r2, bs, pi2)" by (metis prod_cases3)
  have bs: "bs = [7]"
    using p by (simp add: q piperead_def piperead_loop.simps [of ?o] pipe_put_def pipe_init_def ring_at_def Let_def)
  let ?t = "?s\<lparr>pp := pi2, recvd := recvd ?s @ bs, faults := faults ?s + (if bad_buffer ?o 4 then 1 else 0)\<rparr>"
  have st: "pipe_step\<^sup>*\<^sup>* ?z ?t" using pipe_step.pwrite [OF w] pipe_step.pread [OF p] 
    by (blast intro: rtranclp.rtrancl_into_rtrancl)
  have f: "bad_buffer ?o 4" by (auto simp: bad_buffer_def intro: exI [of _ 1])
  have "sent ?t = [7, 8]" "recvd ?t = [7]" "faults ?t = 1" using f by (simp_all add: r bs accepted_def upt_rec)
  with st pipe_fifo [OF st] show ?thesis by (intro exI [of _ ?t]) (simp add: numeral_2_eq_2)
qed

text \<open>
  A read with a bad buffer loses a byte: when \<open>copyout\<close> fails on the first byte,
  \<open>piperead\<close> returns 0 as at end of file, and the byte is gone from the pipe although the
  reader did not get it (\<open>nread\<close> is advanced before the copy).
\<close>

theorem piperead_drops_byte:
  assumes "pipe_ok pi" "pipe_queue pi = c # q" "0 < n" "\<not> copyout 0"
  shows "\<exists>pi'. piperead copyout killed n pi = (Returns 0, [], pi') \<and> pipe_queue pi' = q"
proof -
  have ne: "nread pi \<noteq> nwrite pi" using pipe_queue_empty [OF assms(1)] assms(2) by simp
  note g = pipe_get_ok [OF assms(1) ne]
  have "piperead_loop copyout n 0 pi = (0, [], pi\<lparr>nread := nread pi + 1\<rparr>)"
    using ne assms(3,4) by (subst piperead_loop.simps) (simp add: Let_def)
  then show ?thesis using ne g assms(2) by (simp add: piperead_def)
qed

theorem piperead_drops_byte_witness:
  "\<exists>pi'. piperead (\<lambda>_. False) False 4 (pipe_put 7 (pipe_init (replicate 512 0))) = (Returns 0, [], pi') \<and> pipe_queue pi' = []"
proof -
  let ?p = "pipe_init (replicate 512 0)"
  have ok: "pipe_ok ?p" "\<not> pipe_full ?p" "pipe_queue ?p = []"
    by (simp_all add: pipe_ok_def pipe_init_def pipe_full_def pipe_queue_def)
  from pipe_put_ok [OF ok(1,2), of 7] ok(3) show ?thesis
    by (intro piperead_drops_byte) auto
qed

end
