(* ===== verification/Console.thy ===== *)
theory Console
  imports Pipe
begin

text \<open>
  The console, \<open>kernel/console.c\<close>, and the 16550 driver below it, \<open>kernel/uart.c\<close>.

  The device: \<open>rx\<close> is the input that waits in the receive FIFO, \<open>thr\<close> what has been
  written to the transmit register, and \<open>txrdy k\<close> whether the \<open>k\<close>-th read of the line
  status register finds the transmitter idle. \<open>cons.lock\<close> and \<open>uart_tx_lock\<close> make a
  passage up to the next \<open>sleep\<close> one step; \<open>either_copyin\<close> and \<open>either_copyout\<close> of
  one byte are parameters, as in theory \<open>Pipe\<close>.
\<close>

abbreviation INPUT_BUF_SIZE :: nat where "INPUT_BUF_SIZE \<equiv> 128"
abbreviation UART_TX_BUF_SIZE :: nat where "UART_TX_BUF_SIZE \<equiv> 32"

record tty =
  cbuf :: "u8 list"
  cr :: u32
  cw :: u32
  ce :: u32
  txbuf :: "u8 list"
  txw :: u64
  txr :: u64
  rx :: "u8 list"
  thr :: "u8 list"
  txrdy :: "nat \<Rightarrow> bool"
  lsr_reads :: nat
  uregs :: "nat \<Rightarrow> u8"
  panicked :: bool

subsection \<open>The uart\<close>

definition LSR_RX_READY :: u8 where "LSR_RX_READY = 1"
definition LSR_TX_IDLE :: u8 where "LSR_TX_IDLE = 32"

definition WriteReg :: "nat \<Rightarrow> u8 \<Rightarrow> tty \<Rightarrow> tty" where
  "WriteReg r v st = st\<lparr>uregs := (uregs st)(r := v)\<rparr>"

definition WriteTHR :: "u8 \<Rightarrow> tty \<Rightarrow> tty" where
  "WriteTHR v st = st\<lparr>thr := thr st @ [v]\<rparr>"

definition ReadLSR :: "tty \<Rightarrow> u8 \<times> tty" where
  "ReadLSR st =
     ((if rx st = [] then 0 else LSR_RX_READY) OR (if txrdy st (lsr_reads st) then LSR_TX_IDLE else 0),
      st\<lparr>lsr_reads := lsr_reads st + 1\<rparr>)"

text \<open>The order of the writes matters: registers 0 and 1 mean the baud rate while the latch
  bit of register 3 is set.\<close>

definition uartinit :: "tty \<Rightarrow> tty" where
  "uartinit st =
     WriteReg 1 3 (WriteReg 2 7 (WriteReg 3 3 (WriteReg 1 0 (WriteReg 0 3 (WriteReg 3 128 (WriteReg 1 0 st))))))"

function uartstart :: "tty \<Rightarrow> tty" where
  "uartstart st =
     (if txw st = txr st then st
      else
        let (lsr, st) = ReadLSR st in
        if lsr AND LSR_TX_IDLE = 0 then st
        else
          let c = txbuf st ! ring_at UART_TX_BUF_SIZE (txr st);
              st = st\<lparr>txr := txr st + 1\<rparr>
          in uartstart (WriteTHR c st))"
  by pat_completeness auto
termination
proof (relation "measure (\<lambda>st. unat (txw st - txr st))")
  fix st x lsr st' and xa :: u8 and xb :: tty
  assume "txw st \<noteq> txr st" "x = ReadLSR st" "(lsr, st') = x" "xb = st'\<lparr>txr := txr st' + 1\<rparr>"
  then show "(WriteTHR xa xb, st) \<in> measure (\<lambda>st. unat (txw st - txr st))"
    using unat_diff_Suc [of "txr st" "txw st"] by (auto simp: ReadLSR_def WriteTHR_def)
qed auto

declare uartstart.simps [simp del]

definition uartputc :: "u8 \<Rightarrow> tty \<Rightarrow> tty res" where
  "uartputc c st =
     (if panicked st then Err (Waits ''panicked'')
      else if txw st = txr st + of_nat UART_TX_BUF_SIZE then Err (Waits ''uartputc'')
      else Ok (uartstart (st\<lparr>txbuf := (txbuf st)[ring_at UART_TX_BUF_SIZE (txw st) := c], txw := txw st + 1\<rparr>)))"

text \<open>The polling loop of \<open>uartputc_sync\<close> ends at the first read that finds the transmitter
  idle; it has no result when none ever does.\<close>

partial_function (option) wait_idle :: "tty \<Rightarrow> tty option" where
  "wait_idle st =
     (case ReadLSR st of (lsr, st) \<Rightarrow> if lsr AND LSR_TX_IDLE = 0 then wait_idle st else Some st)"

definition uartputc_sync :: "u8 \<Rightarrow> tty \<Rightarrow> tty option" where
  "uartputc_sync c st =
     (if panicked st then None
      else case wait_idle st of None \<Rightarrow> None | Some st \<Rightarrow> Some (WriteTHR c st))"

definition uartgetc :: "tty \<Rightarrow> int \<times> tty" where
  "uartgetc st =
     (let (lsr, st) = ReadLSR st in
      if lsr AND 1 \<noteq> 0 then (uint (hd (rx st)), st\<lparr>rx := tl (rx st)\<rparr>) else (-1, st))"

subsection \<open>The console\<close>

definition BACKSPACE :: int where "BACKSPACE = 256"

definition consputc :: "int \<Rightarrow> tty \<Rightarrow> tty option" where
  "consputc c st =
     (if c = BACKSPACE then
        case uartputc_sync 8 st of None \<Rightarrow> None | Some st \<Rightarrow>
        case uartputc_sync 32 st of None \<Rightarrow> None | Some st \<Rightarrow> uartputc_sync 8 st
      else uartputc_sync (word_of_int c) st)"

text \<open>A call of \<open>consolewrite\<close> from index \<open>i\<close> on, up to its return or its next sleep.\<close>

function consolewrite_from :: "(nat \<Rightarrow> u8 option) \<Rightarrow> int \<Rightarrow> nat \<Rightarrow> tty \<Rightarrow> run \<times> tty" where
  "consolewrite_from copyin n i st =
     (if int i < n then
        case copyin i of
          None \<Rightarrow> (Returns (int i), st)
        | Some c \<Rightarrow>
            case uartputc c st of
              Err _ \<Rightarrow> (Sleeps i, st)
            | Ok st \<Rightarrow> consolewrite_from copyin n (i + 1) st
      else (Returns (int i), st))"
  by pat_completeness auto
termination by (relation "measure (\<lambda>(_, n, i, _). nat (n - int i))") auto

declare consolewrite_from.simps [simp del]

definition consolewrite :: "(nat \<Rightarrow> u8 option) \<Rightarrow> int \<Rightarrow> tty \<Rightarrow> run \<times> tty" where
  "consolewrite copyin n st = consolewrite_from copyin n 0 st"

text \<open>The loop of \<open>consoleread\<close> with \<open>n\<close> bytes to go of \<open>target\<close>; it delivers the bytes in
  the second component. A sleeping call continues with the \<open>n\<close> it reports.\<close>

function consoleread_from ::
  "(nat \<Rightarrow> bool) \<Rightarrow> bool \<Rightarrow> nat \<Rightarrow> nat \<Rightarrow> tty \<Rightarrow> run \<times> u8 list \<times> tty" where
  "consoleread_from copyout killed target n st =
     (if 0 < n then
        if cr st = cw st then (if killed then (Returns (-1), [], st) else (Sleeps n, [], st))
        else
          let c = cbuf st ! ring_at INPUT_BUF_SIZE (cr st); st = st\<lparr>cr := cr st + 1\<rparr> in
          if c = 4 then (Returns (int (target - n)), [], if n < target then st\<lparr>cr := cr st - 1\<rparr> else st)
          else if \<not> copyout (target - n) then (Returns (int (target - n)), [], st)
          else if c = 10 then (Returns (int (target - (n - 1))), [c], st)
          else let (r, bs, st) = consoleread_from copyout killed target (n - 1) st in (r, c # bs, st)
      else (Returns (int (target - n)), [], st))"
  by pat_completeness auto
termination by (relation "measure (\<lambda>(_, _, _, n, _). n)") auto

declare consoleread_from.simps [simp del]

definition consoleread :: "(nat \<Rightarrow> bool) \<Rightarrow> bool \<Rightarrow> int \<Rightarrow> tty \<Rightarrow> run \<times> u8 list \<times> tty" where
  "consoleread copyout killed n st = consoleread_from copyout killed (nat n) (nat n) st"

text \<open>Kill line. \<open>consputc\<close> changes the two fields that are copied back and nothing else
  (lemma \<open>consputc_Some\<close>).\<close>

function kill_line :: "tty \<Rightarrow> tty option" where
  "kill_line st =
     (if ce st \<noteq> cw st \<and> cbuf st ! ring_at INPUT_BUF_SIZE (ce st - 1) \<noteq> 10 then
        let st' = st\<lparr>ce := ce st - 1\<rparr> in
        case consputc BACKSPACE st' of
          None \<Rightarrow> None
        | Some st'' \<Rightarrow> kill_line (st'\<lparr>thr := thr st'', lsr_reads := lsr_reads st''\<rparr>)
      else Some st)"
  by pat_completeness auto
termination
proof (relation "measure (\<lambda>st. unat (ce st - cw st))")
  fix st st' st'' :: tty
  assume "ce st \<noteq> cw st \<and> cbuf st ! ring_at INPUT_BUF_SIZE (ce st - 1) \<noteq> 10" "st' = st\<lparr>ce := ce st - 1\<rparr>"
  then show "(st'\<lparr>thr := thr st'', lsr_reads := lsr_reads st''\<rparr>, st) \<in> measure (\<lambda>st. unat (ce st - cw st))"
    using unat_minus_one [of "ce st - cw st"] by (auto simp: algebra_simps unat_gt_0)
qed auto

declare kill_line.simps [simp del]

text \<open>\<open>consoleintr\<close>; \<open>procdump\<close>, which is modelled in theory \<open>Proc\<close>, is the argument \<open>dump\<close>.\<close>

definition consoleintr :: "(tty \<Rightarrow> tty option) \<Rightarrow> int \<Rightarrow> tty \<Rightarrow> tty option" where
  "consoleintr dump c st =
     (if c = 16 then dump st
      else if c = 21 then kill_line st
      else if c = 8 \<or> c = 127 then
        if ce st \<noteq> cw st then consputc BACKSPACE (st\<lparr>ce := ce st - 1\<rparr>) else Some st
      else if c \<noteq> 0 \<and> ce st - cr st < of_nat INPUT_BUF_SIZE then
        let c = (if c = 13 then 10 else c) in
        case consputc c st of
          None \<Rightarrow> None
        | Some st \<Rightarrow>
            let st = st\<lparr>cbuf := (cbuf st)[ring_at INPUT_BUF_SIZE (ce st) := word_of_int c], ce := ce st + 1\<rparr> in
            Some (if c = 10 \<or> c = 4 \<or> ce st - cr st = of_nat INPUT_BUF_SIZE then st\<lparr>cw := ce st\<rparr> else st)
      else Some st)"

text \<open>\<open>uartintr\<close>: the input loop runs once per byte in the receive FIFO.\<close>

function uartintr_loop :: "(tty \<Rightarrow> tty option) \<Rightarrow> nat \<Rightarrow> tty \<Rightarrow> tty option" where
  "uartintr_loop dump 0 st = None"
| "uartintr_loop dump (Suc fuel) st =
     (let (c, st) = uartgetc st in
      if c = -1 then Some st
      else case consoleintr dump c st of None \<Rightarrow> None | Some st \<Rightarrow> uartintr_loop dump fuel st)"
  by pat_completeness auto
termination by (relation "measure (\<lambda>(_, n, _). n)") auto

definition uartintr :: "(tty \<Rightarrow> tty option) \<Rightarrow> tty \<Rightarrow> tty option" where
  "uartintr dump st = map_option uartstart (uartintr_loop dump (Suc (length (rx st))) st)"

subsection \<open>Polling\<close>

definition responsive :: "tty \<Rightarrow> bool" where
  "responsive st \<longleftrightarrow> \<not> panicked st \<and> (\<forall>n. \<exists>k\<ge>n. txrdy st k)"

lemma ReadLSR_idle: "ReadLSR st = (l, st') \<Longrightarrow> (l AND LSR_TX_IDLE = 0 \<longleftrightarrow> \<not> txrdy st (lsr_reads st)) \<and> st' = st\<lparr>lsr_reads := lsr_reads st + 1\<rparr>"
  by (auto simp: ReadLSR_def LSR_RX_READY_def LSR_TX_IDLE_def)

lemma wait_idle_ends:
  "txrdy st k \<Longrightarrow> lsr_reads st \<le> k \<Longrightarrow> \<exists>m. wait_idle st = Some (st\<lparr>lsr_reads := m\<rparr>)"
proof (induction "k - lsr_reads st" arbitrary: st)
  case 0
  then have e: "lsr_reads st = k" by simp
  obtain l s1 where r: "ReadLSR st = (l, s1)" by (cases "ReadLSR st")
  then have "l AND LSR_TX_IDLE \<noteq> 0" "s1 = st\<lparr>lsr_reads := lsr_reads st + 1\<rparr>"
    using ReadLSR_idle [OF r] "0.prems"(1) e by auto
  then have "wait_idle st = Some s1" using r by (subst wait_idle.simps) simp
  then show ?case using \<open>s1 = _\<close> by blast
next
  case (Suc d)
  obtain l s1 where r: "ReadLSR st = (l, s1)" by (cases "ReadLSR st")
  note i = ReadLSR_idle [OF r]
  show ?case
  proof (cases "txrdy st (lsr_reads st)")
    case True
    then have "wait_idle st = Some s1" using r i by (subst wait_idle.simps) simp
    then show ?thesis using i by blast
  next
    case False
    then have w: "wait_idle st = wait_idle s1" using r i by (subst wait_idle.simps) simp
    have "\<exists>m. wait_idle s1 = Some (s1\<lparr>lsr_reads := m\<rparr>)"
      using Suc.hyps(2) Suc.prems i by (intro Suc.hyps(1)) auto
    with w i show ?thesis by auto
  qed
qed

lemma uartputc_sync_ends:
  assumes "responsive st"
  shows "\<exists>m. uartputc_sync c st = Some (st\<lparr>lsr_reads := m, thr := thr st @ [c]\<rparr>)"
proof -
  obtain k where "txrdy st k" "lsr_reads st \<le> k" using assms by (auto simp: responsive_def)
  from wait_idle_ends [OF this] assms show ?thesis by (auto simp: uartputc_sync_def responsive_def WriteTHR_def)
qed

lemma wait_idle_Some:
  assumes "wait_idle st = Some st'"
  shows "\<exists>m. st' = st\<lparr>lsr_reads := m\<rparr>"
proof (rule wait_idle.raw_induct [OF _ assms])
  fix f s s'
  assume IH: "\<And>a b. f a = Some b \<Longrightarrow> \<exists>m. b = a\<lparr>lsr_reads := m\<rparr>"
    and run: "(case ReadLSR s of (lsr, s) \<Rightarrow> if lsr AND LSR_TX_IDLE = 0 then f s else Some s) = Some s'"
  obtain l s1 where r: "ReadLSR s = (l, s1)" by (cases "ReadLSR s")
  note i = ReadLSR_idle [OF r]
  show "\<exists>m. s' = s\<lparr>lsr_reads := m\<rparr>"
  proof (cases "l AND LSR_TX_IDLE = 0")
    case True
    then have "f s1 = Some s'" using run r by auto
    then obtain m where "s' = s1\<lparr>lsr_reads := m\<rparr>" using IH by blast
    then show ?thesis using i by auto
  next
    case False
    with run r i show ?thesis by auto
  qed
qed

lemma uartputc_sync_Some: "uartputc_sync c st = Some st' \<Longrightarrow> \<exists>m. st' = st\<lparr>lsr_reads := m, thr := thr st @ [c]\<rparr>"
  using wait_idle_Some [of st] by (fastforce simp: uartputc_sync_def WriteTHR_def split: if_splits option.splits)

lemma responsive_upd [simp]: "responsive (st\<lparr>lsr_reads := m\<rparr>) = responsive st" "responsive (st\<lparr>thr := t\<rparr>) = responsive st"
  "responsive (st\<lparr>ce := e\<rparr>) = responsive st"
  by (simp_all add: responsive_def)

lemma consputc_ends:
  assumes "responsive st"
  shows "\<exists>m t. consputc c st = Some (st\<lparr>lsr_reads := m, thr := t\<rparr>)"
proof (cases "c = BACKSPACE")
  case True
  obtain m1 where 1: "uartputc_sync 8 st = Some (st\<lparr>lsr_reads := m1, thr := thr st @ [8]\<rparr>)" (is "_ = Some ?s1")
    using uartputc_sync_ends [OF assms] by blast
  have "responsive ?s1" using assms by simp
  then obtain m2 where 2: "uartputc_sync 32 ?s1 = Some (?s1\<lparr>lsr_reads := m2, thr := thr ?s1 @ [32]\<rparr>)" (is "_ = Some ?s2")
    using uartputc_sync_ends by blast
  have "responsive ?s2" using assms by simp
  then obtain m3 where "uartputc_sync 8 ?s2 = Some (?s2\<lparr>lsr_reads := m3, thr := thr ?s2 @ [8]\<rparr>)"
    using uartputc_sync_ends by blast
  with 1 2 True show ?thesis by (auto simp: consputc_def)
next
  case False
  with uartputc_sync_ends [OF assms, of "word_of_int c"] show ?thesis by (auto simp: consputc_def)
qed

lemma consputc_Some: "consputc c st = Some st' \<Longrightarrow> st' = st\<lparr>lsr_reads := lsr_reads st', thr := thr st'\<rparr>"
  by (auto simp: consputc_def split: if_splits option.splits dest!: uartputc_sync_Some)

subsection \<open>The line discipline\<close>

interpretation cring: ring INPUT_BUF_SIZE "TYPE(32)"
  by unfold_locales simp_all

interpretation uring: ring UART_TX_BUF_SIZE "TYPE(64)"
  by unfold_locales simp_all

definition tty_all :: "tty \<Rightarrow> u8 list" where
  "tty_all st = ring_queue INPUT_BUF_SIZE (cbuf st) (cr st) (ce st)"

text \<open>The input that \<open>consoleread\<close> may take, and the line being edited.\<close>

definition tty_ready :: "tty \<Rightarrow> u8 list" where
  "tty_ready st = take (unat (cw st - cr st)) (tty_all st)"

definition tty_edit :: "tty \<Rightarrow> u8 list" where
  "tty_edit st = drop (unat (cw st - cr st)) (tty_all st)"

definition tty_ok :: "tty \<Rightarrow> bool" where
  "tty_ok st \<longleftrightarrow> length (cbuf st) = INPUT_BUF_SIZE \<and> unat (ce st - cr st) \<le> INPUT_BUF_SIZE \<and>
     unat (cw st - cr st) \<le> unat (ce st - cr st) \<and> 10 \<notin> set (tty_edit st)"

definition line_edit :: "int \<Rightarrow> u8 list \<times> u8 list \<Rightarrow> u8 list \<times> u8 list" where
  "line_edit c = (\<lambda>(ready, edit).
     if c = 16 then (ready, edit)
     else if c = 21 then (ready, [])
     else if c = 8 \<or> c = 127 then (ready, butlast edit)
     else if c \<noteq> 0 \<and> length ready + length edit < INPUT_BUF_SIZE then
       let b = (if c = 13 then 10 else word_of_int c); edit = edit @ [b] in
       if b = 10 \<or> b = 4 \<or> length ready + length edit = INPUT_BUF_SIZE then (ready @ edit, []) else (ready, edit)
     else (ready, edit))"

lemma tty_lengths:
  assumes "tty_ok st"
  shows "tty_all st = tty_ready st @ tty_edit st" "length (tty_ready st) = unat (cw st - cr st)"
    "length (tty_all st) = unat (ce st - cr st)" "tty_edit st = [] \<longleftrightarrow> ce st = cw st"
proof -
  show "tty_all st = tty_ready st @ tty_edit st" by (simp add: tty_ready_def tty_edit_def)
  show l: "length (tty_ready st) = unat (cw st - cr st)" "length (tty_all st) = unat (ce st - cr st)"
    using assms by (simp_all add: tty_ok_def tty_ready_def tty_all_def)
  have "tty_edit st = [] \<longleftrightarrow> unat (ce st - cr st) = unat (cw st - cr st)"
    using assms by (auto simp: tty_edit_def tty_ok_def l(2))
  then show "tty_edit st = [] \<longleftrightarrow> ce st = cw st" by (simp add: word_unat_eq_iff [symmetric])
qed

lemma tty_upd [simp]:
  "tty_all (st\<lparr>lsr_reads := m\<rparr>) = tty_all st" "tty_all (st\<lparr>thr := t\<rparr>) = tty_all st"
  "tty_ready (st\<lparr>lsr_reads := m\<rparr>) = tty_ready st" "tty_ready (st\<lparr>thr := t\<rparr>) = tty_ready st"
  "tty_edit (st\<lparr>lsr_reads := m\<rparr>) = tty_edit st" "tty_edit (st\<lparr>thr := t\<rparr>) = tty_edit st"
  "tty_ok (st\<lparr>lsr_reads := m\<rparr>) = tty_ok st" "tty_ok (st\<lparr>thr := t\<rparr>) = tty_ok st"
  by (simp_all add: tty_all_def tty_ready_def tty_edit_def tty_ok_def)

text \<open>Erasing one character.\<close>

lemma erase_ok:
  assumes ok: "tty_ok st" and ne: "ce st \<noteq> cw st"
  defines "st' \<equiv> st\<lparr>ce := ce st - 1\<rparr>"
  shows "tty_ok st'" "tty_ready st' = tty_ready st" "tty_edit st' = butlast (tty_edit st)"
    "cbuf st ! ring_at INPUT_BUF_SIZE (ce st - 1) = last (tty_edit st)"
proof -
  note l = tty_lengths [OF ok]
  have ed: "tty_edit st \<noteq> []" using ne l(4) by auto
  then have all: "tty_all st \<noteq> []" using l(1) by simp
  then have nz: "unat (ce st - cr st) \<noteq> 0" using l(3) by (metis length_0_conv)
  have a': "tty_all st' = butlast (tty_all st)" using cring.queue_unput [OF nz] by (simp add: tty_all_def st'_def)
  then have sp: "tty_all st' = tty_ready st @ butlast (tty_edit st)" using l(1) ed by (simp add: butlast_append)
  show r: "tty_ready st' = tty_ready st" "tty_edit st' = butlast (tty_edit st)"
    using l(2) by (simp_all add: tty_ready_def [of st'] tty_edit_def [of st'] sp) (simp_all add: st'_def)
  have len: "unat (ce st' - cr st') = length (tty_all st')" by (simp add: tty_all_def)
  show "tty_ok st'"
    using ok len sp l in_set_butlastD [of 10 "tty_edit st"] r
    by (auto simp: tty_ok_def) (simp_all add: st'_def)
  have "ce st - cr st \<noteq> 0" using nz by auto
  then have "unat (ce st - cr st) - 1 = unat (ce st - cr st - 1)" by (simp add: unat_minus_one)
  then have "of_nat (unat (ce st - cr st) - 1) = ce st - cr st - 1" by simp
  then have i: "ce st - 1 = cr st + of_nat (unat (ce st - cr st) - 1)" by simp
  have "last (tty_all st) = tty_all st ! (unat (ce st - cr st) - 1)" using all l(3) by (simp add: last_conv_nth)
  also have "\<dots> = cbuf st ! ring_at INPUT_BUF_SIZE (cr st + of_nat (unat (ce st - cr st) - 1))"
    using nz by (simp add: tty_all_def ring_queue_def)
  finally show "cbuf st ! ring_at INPUT_BUF_SIZE (ce st - 1) = last (tty_edit st)" using i l(1) ed by simp
qed

lemma kill_line_ok:
  assumes "tty_ok st" "responsive st"
  shows "\<exists>st'. kill_line st = Some st' \<and> tty_ok st' \<and> tty_ready st' = tty_ready st \<and> tty_edit st' = []"
  using assms
proof (induction st rule: kill_line.induct)
  case (1 st)
  show ?case
  proof (cases "ce st = cw st")
    case True
    then show ?thesis
      using "1.prems" tty_lengths(4) [OF "1.prems"(1)] by (subst kill_line.simps) simp
  next
    case False
    let ?s = "st\<lparr>ce := ce st - 1\<rparr>"
    note er = erase_ok [OF "1.prems"(1) False]
    have "tty_edit st \<noteq> []" using False tty_lengths(4) [OF "1.prems"(1)] by auto
    then have nl: "cbuf st ! ring_at INPUT_BUF_SIZE (ce st - 1) \<noteq> 10"
      using er(4) "1.prems"(1) last_in_set [of "tty_edit st"] unfolding tty_ok_def by metis
    have "responsive ?s" using "1.prems"(2) by simp
    then obtain m t where cp: "consputc BACKSPACE ?s = Some (?s\<lparr>lsr_reads := m, thr := t\<rparr>)"
      using consputc_ends by blast
    let ?s2 = "?s\<lparr>thr := t, lsr_reads := m\<rparr>"
    have s2: "?s\<lparr>thr := thr (?s\<lparr>lsr_reads := m, thr := t\<rparr>), lsr_reads := lsr_reads (?s\<lparr>lsr_reads := m, thr := t\<rparr>)\<rparr> = ?s2" by simp
    have run: "kill_line st = kill_line ?s2"
      using False nl cp by (subst kill_line.simps) (simp add: Let_def)
    have "\<exists>st'. kill_line ?s2 = Some st' \<and> tty_ok st' \<and> tty_ready st' = tty_ready ?s2 \<and> tty_edit st' = []"
      using "1.IH" [OF _ refl cp] False nl er "1.prems"(2) unfolding s2 by auto
    with run er(2) show ?thesis by simp
  qed
qed

lemma store_ok:
  fixes b :: u8
  assumes ok: "tty_ok st" and room: "ce st - cr st < of_nat INPUT_BUF_SIZE"
  defines "st' \<equiv> st\<lparr>cbuf := (cbuf st)[ring_at INPUT_BUF_SIZE (ce st) := b], ce := ce st + 1\<rparr>"
  shows "tty_all st' = tty_all st @ [b]" "length (cbuf st') = INPUT_BUF_SIZE" "unat (ce st' - cr st') = Suc (length (tty_all st))"
proof -
  have lt: "unat (ce st - cr st) < INPUT_BUF_SIZE" using room by (simp add: word_less_nat_alt)
  show a: "tty_all st' = tty_all st @ [b]"
    using cring.queue_put [OF lt, of "cbuf st" b] ok by (simp add: tty_all_def st'_def tty_ok_def)
  show "length (cbuf st') = INPUT_BUF_SIZE" using ok by (simp add: st'_def tty_ok_def)
  have "unat (ce st' - cr st') = length (tty_all st')" by (simp add: tty_all_def)
  then show "unat (ce st' - cr st') = Suc (length (tty_all st))" using a by simp
qed

text \<open>A byte is stored and, when it ends the line or the buffer is full, the line becomes ready.\<close>

lemma store_finish:
  assumes ok: "tty_ok st" and room: "ce st - cr st < of_nat INPUT_BUF_SIZE" and nl: "b = 10 \<Longrightarrow> fin"
  defines "s2 \<equiv> st\<lparr>cbuf := (cbuf st)[ring_at INPUT_BUF_SIZE (ce st) := b], ce := ce st + 1\<rparr>"
  defines "s3 \<equiv> if fin then s2\<lparr>cw := ce s2\<rparr> else s2"
  shows "tty_ok s3" "(tty_ready s3, tty_edit s3) = (if fin then (tty_ready st @ tty_edit st @ [b], []) else (tty_ready st, tty_edit st @ [b]))"
    "ce s2 - cr s2 = of_nat INPUT_BUF_SIZE \<longleftrightarrow> length (tty_ready st) + length (tty_edit st @ [b]) = INPUT_BUF_SIZE"
proof -
  note l = tty_lengths [OF ok] and s2 = store_ok [OF ok room, of b, folded s2_def]
  show "ce s2 - cr s2 = of_nat INPUT_BUF_SIZE \<longleftrightarrow> length (tty_ready st) + length (tty_edit st @ [b]) = INPUT_BUF_SIZE"
    using s2(3) l(1) by (simp add: word_unat_eq_iff)
  have a3: "tty_all s3 = tty_ready st @ tty_edit st @ [b]" using s2(1) l(1) by (simp add: s3_def tty_all_def)
  have f3: "length (cbuf s3) = INPUT_BUF_SIZE" "unat (ce s3 - cr s3) = Suc (length (tty_all st))"
    using s2(2,3) by (simp_all add: s3_def)
  have w2: "cw s2 = cw st" "cr s2 = cr st" by (simp_all add: s2_def)
  show re: "(tty_ready s3, tty_edit s3) = (if fin then (tty_ready st @ tty_edit st @ [b], []) else (tty_ready st, tty_edit st @ [b]))"
  proof (cases fin)
    case True
    then have "unat (cw s3 - cr s3) = length (tty_all s3)" using f3(2) a3 l(1) by (auto simp: s3_def)
    then show ?thesis using True a3 by (simp add: tty_ready_def [of s3] tty_edit_def [of s3])
  next
    case False
    then have "unat (cw s3 - cr s3) = length (tty_ready st)" using l(2) w2 by (simp add: s3_def)
    then show ?thesis using False a3 by (simp add: tty_ready_def [of s3] tty_edit_def [of s3])
  qed
  have "Suc (length (tty_all st)) \<le> INPUT_BUF_SIZE" using room l(3) by (simp add: word_less_nat_alt)
  moreover have "unat (cw s3 - cr s3) \<le> unat (ce s3 - cr s3)" using f3(2) l w2 by (auto simp: s3_def)
  moreover have "10 \<notin> set (tty_edit s3)" using re ok nl by (auto simp: tty_ok_def split: if_splits)
  ultimately show "tty_ok s3" using f3 by (simp add: tty_ok_def)
qed

lemma consoleintr_char:
  assumes ok: "tty_ok st" and resp: "responsive st" and c: "0 \<le> c" "c < 256" "c \<noteq> 16" "c \<noteq> 21" "c \<noteq> 8" "c \<noteq> 127"
  shows "\<exists>st'. consoleintr dump c st = Some st' \<and> tty_ok st' \<and>
    (tty_ready st', tty_edit st') = line_edit c (tty_ready st, tty_edit st)"
proof -
  let ?c = "if c = 13 then 10 else c"
  let ?b = "word_of_int ?c :: u8"
  note l = tty_lengths [OF ok]
  have "unat (ce st - cr st) = length (tty_ready st) + length (tty_edit st)" using l(1,3) by (metis length_append)
  then have rm: "ce st - cr st < of_nat INPUT_BUF_SIZE \<longleftrightarrow> length (tty_ready st) + length (tty_edit st) < INPUT_BUF_SIZE"
    by (simp add: word_less_nat_alt)
  have b: "?b = (if c = 13 then 10 else word_of_int c)" "(?b = 10) = (?c = 10)" "(?b = 4) = (?c = 4)"
    using c(1,2) by (auto simp: word_uint_eq_iff uint_word_of_int)
  show ?thesis
  proof (cases "c \<noteq> 0 \<and> ce st - cr st < of_nat INPUT_BUF_SIZE")
    case False
    then show ?thesis using c ok rm by (auto simp: consoleintr_def line_edit_def)
  next
    case True
    obtain m t where cp: "consputc ?c st = Some (st\<lparr>lsr_reads := m, thr := t\<rparr>)" using consputc_ends [OF resp] by blast
    define s1 where "s1 = st\<lparr>lsr_reads := m, thr := t\<rparr>"
    define s2 where "s2 = s1\<lparr>cbuf := (cbuf s1)[ring_at INPUT_BUF_SIZE (ce s1) := ?b], ce := ce s1 + 1\<rparr>"
    let ?fin = "?c = 10 \<or> ?c = 4 \<or> ce s2 - cr s2 = of_nat INPUT_BUF_SIZE"
    have ok1: "tty_ok s1" "ce s1 - cr s1 < of_nat INPUT_BUF_SIZE" "tty_ready s1 = tty_ready st" "tty_edit s1 = tty_edit st"
      using ok True by (simp_all add: s1_def)
    have nl: "?b = 10 \<Longrightarrow> ?fin" by (simp only: b(2) simp_thms)
    note s3 = store_finish [where b = ?b and fin = ?fin, OF ok1(1,2) nl, folded s2_def, unfolded ok1(3,4)]
    have run: "consoleintr dump c st = Some (if ?fin then s2\<lparr>cw := ce s2\<rparr> else s2)"
      using c True cp by (simp add: consoleintr_def Let_def s1_def [symmetric] s2_def [symmetric])
    have "(if ?fin then (tty_ready st @ tty_edit st @ [?b], []) else (tty_ready st, tty_edit st @ [?b])) =
        line_edit c (tty_ready st, tty_edit st)"
      using c True rm b s3(3) by (auto simp: line_edit_def Let_def)
    then show ?thesis using run s3(1,2) by auto
  qed
qed

text \<open>The interrupt handler for every input byte. \<open>dump\<close> prints, that is, it changes what was sent to the
  transmitter and how often its status was read; theory \<open>Trap\<close> shows this of \<open>procdump\<close>.\<close>

lemma consoleintr_edits:
  assumes ok: "tty_ok st" and resp: "responsive st" and c: "0 \<le> c" "c < 256"
    and dump: "c = 16 \<Longrightarrow> \<exists>m t. dump st = Some (st\<lparr>lsr_reads := m, thr := t\<rparr>)"
  shows "\<exists>st'. consoleintr dump c st = Some st' \<and> tty_ok st' \<and>
    (tty_ready st', tty_edit st') = line_edit c (tty_ready st, tty_edit st)"
proof -
  note l = tty_lengths [OF ok]
  consider (p) "c = 16" | (u) "c = 21" | (h) "c = 8 \<or> c = 127" | (def) "c \<noteq> 16" "c \<noteq> 21" "c \<noteq> 8" "c \<noteq> 127" by blast
  then show ?thesis
  proof cases
    case p
    then show ?thesis using dump ok by (auto simp: consoleintr_def line_edit_def)
  next
    case u
    then show ?thesis using kill_line_ok [OF ok resp] by (auto simp: consoleintr_def line_edit_def)
  next
    case h
    show ?thesis
    proof (cases "ce st = cw st")
      case True
      then show ?thesis using h ok l(4) by (auto simp: consoleintr_def line_edit_def)
    next
      case False
      let ?s = "st\<lparr>ce := ce st - 1\<rparr>"
      have "responsive ?s" using resp by simp
      then obtain m t where "consputc BACKSPACE ?s = Some (?s\<lparr>lsr_reads := m, thr := t\<rparr>)" using consputc_ends by blast
      then show ?thesis using h False erase_ok [OF ok False] by (auto simp: consoleintr_def line_edit_def)
    qed
  next
    case def
    then show ?thesis using consoleintr_char [OF ok resp c] by simp
  qed
qed

definition tx_queue :: "tty \<Rightarrow> u8 list" where
  "tx_queue st = ring_queue UART_TX_BUF_SIZE (txbuf st) (txr st) (txw st)"

lemma uartstart_ok:
  "thr (uartstart st) @ tx_queue (uartstart st) = thr st @ tx_queue st \<and>
   (tx_queue (uartstart st) = [] \<or> \<not> txrdy st (lsr_reads (uartstart st) - 1)) \<and>
   txw (uartstart st) = txw st \<and> txbuf (uartstart st) = txbuf st \<and>
   unat (txw (uartstart st) - txr (uartstart st)) \<le> unat (txw st - txr st)"
proof (induction st rule: uartstart.induct)
  case (1 st)
  show ?case
  proof (cases "txw st = txr st")
    case True
    then show ?thesis by (simp add: uartstart.simps [of st] tx_queue_def)
  next
    case ne: False
    obtain lsr s1 where r: "ReadLSR st = (lsr, s1)" by (cases "ReadLSR st")
    note i = ReadLSR_idle [OF r]
    show ?thesis
    proof (cases "lsr AND LSR_TX_IDLE = 0")
      case True
      then have "uartstart st = s1" using ne r by (simp add: uartstart.simps [of st])
      then show ?thesis using True i by (simp add: tx_queue_def)
    next
      case False
      define c s where "c = txbuf s1 ! ring_at UART_TX_BUF_SIZE (txr s1)" and "s = WriteTHR c (s1\<lparr>txr := txr s1 + 1\<rparr>)"
      have run: "uartstart st = uartstart s" using ne r False by (simp add: uartstart.simps [of st] Let_def s_def c_def)
      note IH = "1.IH" [OF ne r [symmetric] refl False refl refl, folded c_def, folded s_def]
      have q: "tx_queue st = c # tx_queue s"
        using uring.queue_get [of "txr st" "txw st" "txbuf st"] ne i by (simp add: tx_queue_def WriteTHR_def s_def c_def)
      have f: "thr s = thr st @ [c]" "txw s = txw st" "txbuf s = txbuf st" "txrdy s = txrdy st" "txr s = txr st + 1"
        using i by (simp_all add: WriteTHR_def s_def)
      have "unat (txw s - txr s) \<le> unat (txw st - txr st)"
        using unat_diff_Suc [of "txr st" "txw st"] ne f by simp
      then show ?thesis using IH q f unfolding run by auto
    qed
  qed
qed

text \<open>
  The transmitter sends what was queued. \<open>uartstart\<close> moves bytes from the ring to the
  transmit register without losing or reordering any, and stops only when the ring is empty or
  the last look at the status register found the transmitter busy; \<open>uartputc\<close> with room in
  the ring adds its byte behind the others.
\<close>

theorem uartputc_fifo:
  assumes "length (txbuf st) = UART_TX_BUF_SIZE" "unat (txw st - txr st) < UART_TX_BUF_SIZE" "\<not> panicked st"
  shows "\<exists>st'. uartputc c st = Ok st' \<and> thr st' @ tx_queue st' = thr st @ tx_queue st @ [c] \<and>
    (tx_queue st' = [] \<or> \<not> txrdy st (lsr_reads st' - 1)) \<and> unat (txw st' - txr st') \<le> UART_TX_BUF_SIZE"
proof -
  define s where "s = st\<lparr>txbuf := (txbuf st)[ring_at UART_TX_BUF_SIZE (txw st) := c], txw := txw st + 1\<rparr>"
  have q: "tx_queue s = tx_queue st @ [c]"
    using uring.queue_put [OF assms(2), of "txbuf st" c] assms(1) by (simp add: tx_queue_def s_def)
  have "txw st \<noteq> txr st + 32" using assms(2) by auto
  then have run: "uartputc c st = Ok (uartstart s)" using assms(3) by (simp add: uartputc_def s_def)
  have "unat (txw s - txr s) = length (tx_queue s)" by (simp add: tx_queue_def)
  also have "\<dots> \<le> UART_TX_BUF_SIZE" using q assms(2) by (simp add: tx_queue_def)
  finally have "unat (txw s - txr s) \<le> UART_TX_BUF_SIZE" .
  then show ?thesis using run q uartstart_ok [of s] by (auto simp: s_def)
qed

theorem uartputc_fifo_witness:
  "\<exists>st'. uartputc 65 \<lparr>cbuf = replicate 128 0, cr = 0, cw = 0, ce = 0, txbuf = replicate 32 0, txw = 0, txr = 0,
      rx = [], thr = [], txrdy = (\<lambda>_. False), lsr_reads = 0, uregs = (\<lambda>_. 0), panicked = False\<rparr> = Ok st' \<and>
    thr st' @ tx_queue st' = [65]" (is "\<exists>st'. uartputc _ ?s = _ \<and> _")
proof -
  have "tx_queue ?s = []" by (simp add: tx_queue_def)
  then show ?thesis using uartputc_fifo [of ?s 65] by auto
qed

end
