(* ===== verification/Ulib.thy ===== *)
theory Ulib
  imports Cmem
begin

text \<open>
  The C library of the user programs, \<open>user/ulib.c\<close> and \<open>user/printf.c\<close>, and the
  formatted output of the kernel, \<open>kernel/printf.c\<close>.

  Memory routines work on the memory of theory \<open>Cmem\<close>, routines that only read on a view
  \<open>nat \<Rightarrow> u8\<close> of it. Loops that end only at a NUL or a mismatch are partial functions:
  \<open>None\<close> is a loop that does not end. The output of \<open>printf\<close> is the list of bytes handed to
  \<open>putc\<close> (\<open>consputc\<close> in the kernel); the variable arguments are a list.
\<close>

subsection \<open>Strings\<close>

partial_function (option) strcpy :: "u64 \<Rightarrow> u64 \<Rightarrow> mem \<Rightarrow> mem option" where
  "strcpy s t m =
     (let m' = m(s := m t) in if m' s \<noteq> 0 then strcpy (s + 1) (t + 1) m' else Some m')"

partial_function (option) strcmp :: "nat \<Rightarrow> (nat \<Rightarrow> u8) \<Rightarrow> (nat \<Rightarrow> u8) \<Rightarrow> int option" where
  "strcmp i p q =
     (if p i \<noteq> 0 \<and> p i = q i then strcmp (i + 1) p q else Some (uint (p i) - uint (q i)))"

partial_function (option) strchr :: "nat \<Rightarrow> (nat \<Rightarrow> u8) \<Rightarrow> u8 \<Rightarrow> nat option option" where
  "strchr i s c =
     (if s i = 0 then Some None else if s i = c then Some (Some i) else strchr (i + 1) s c)"

definition ulib_strlen :: "(nat \<Rightarrow> u8) \<Rightarrow> nat res" where
  "ulib_strlen s = strlen_loop 0 s"

definition ulib_memset :: "u64 \<Rightarrow> u8 \<Rightarrow> nat \<Rightarrow> mem \<Rightarrow> mem" where
  "ulib_memset dst c n m = memset_loop 0 n dst c m"

text \<open>\<open>memmove\<close> of the user library copies upwards when the source is above the destination
  and downwards otherwise, also when the ranges do not overlap.\<close>

definition ulib_memmove :: "u64 \<Rightarrow> u64 \<Rightarrow> int \<Rightarrow> mem \<Rightarrow> mem" where
  "ulib_memmove vdst vsrc n m =
     (if vsrc > vdst then fwd_copy (nat n) vdst vsrc m
      else bwd_copy (nat n) (vdst + word_of_int n) (vsrc + word_of_int n) m)"

definition ulib_memcpy :: "u64 \<Rightarrow> u64 \<Rightarrow> int \<Rightarrow> mem \<Rightarrow> mem" where
  "ulib_memcpy dst src n m = ulib_memmove dst src n m"

fun ulib_memcmp :: "(nat \<Rightarrow> u8) \<Rightarrow> (nat \<Rightarrow> u8) \<Rightarrow> nat \<Rightarrow> int" where
  "ulib_memcmp p1 p2 0 = 0"
| "ulib_memcmp p1 p2 (Suc n) =
     (if p1 0 \<noteq> p2 0 then uint (p1 0) - uint (p2 0)
      else ulib_memcmp (\<lambda>i. p1 (Suc i)) (\<lambda>i. p2 (Suc i)) n)"

text \<open>\<open>gets\<close> from standard input \<open>inp\<close>, read byte by byte: what is stored in the buffer, and
  the input that is left.\<close>

function gets_loop :: "nat \<Rightarrow> int \<Rightarrow> u8 list \<Rightarrow> u8 list \<times> u8 list" where
  "gets_loop i mx inp =
     (if int i + 1 < mx then
        case inp of
          [] \<Rightarrow> ([], [])
        | c # inp \<Rightarrow>
            if c = 10 \<or> c = 13 then ([c], inp)
            else let (bs, rest) = gets_loop (i + 1) mx inp in (c # bs, rest)
      else ([], inp))"
  by pat_completeness auto
termination by (relation "measure (\<lambda>(i, mx, _). nat (mx - int i))") auto

declare gets_loop.simps [simp del]

definition gets :: "int \<Rightarrow> u8 list \<Rightarrow> u8 list \<times> u8 list" where
  "gets mx inp = (let (bs, rest) = gets_loop 0 mx inp in (bs @ [0], rest))"

text \<open>\<open>n = n*10 + *s++ - '0'\<close> on \<open>int\<close>: the sum before the subtraction must not overflow.\<close>

fun atoi_loop :: "int \<Rightarrow> u8 list \<Rightarrow> int res" where
  "atoi_loop n [] = Ok n"
| "atoi_loop n (c # s) =
     (if 48 \<le> c \<and> c \<le> 57 then
        if 2 ^ 31 \<le> n * 10 + uint c then Err (Undef ''atoi: int overflow'')
        else atoi_loop (n * 10 + uint c - 48) s
      else Ok n)"

definition atoi :: "u8 list \<Rightarrow> int res" where
  "atoi s = atoi_loop 0 s"

subsection \<open>Formatted output\<close>

text \<open>The digits of \<open>x\<close>, least significant first, as the do-while loop stores them.\<close>

function udigits :: "nat \<Rightarrow> nat \<Rightarrow> nat list" where
  "udigits base x =
     x mod base # (if base < 2 \<or> x div base = 0 then [] else udigits base (x div base))"
  by pat_completeness auto
termination by (relation "measure (\<lambda>(_, x). x)") (auto simp: div_greater_zero_iff)

declare udigits.simps [simp del]

definition lower_digits :: "u8 list" where
  "lower_digits = map (\<lambda>i. of_nat (if i < 10 then 48 + i else 87 + i)) [0..<16]"

definition upper_digits :: "u8 list" where
  "upper_digits = map (\<lambda>i. of_nat (if i < 10 then 48 + i else 55 + i)) [0..<16]"

text \<open>\<open>printint\<close>, of the kernel with lower-case digits and of the user library with
  upper-case ones. \<open>-xx\<close> is undefined for the least \<open>int\<close>.\<close>

definition printint_with :: "u8 list \<Rightarrow> i32 \<Rightarrow> nat \<Rightarrow> bool \<Rightarrow> u8 list res" where
  "printint_with digits xx base sign =
     (let neg = (sign \<and> sint xx < 0) in
      if neg \<and> sint xx = - (2 ^ 31) then Err (Undef ''printint: int overflow'')
      else
        let x = (if neg then unat (- xx) else unat xx);
            buf = map (\<lambda>d. digits ! d) (udigits base x) @ (if neg then [45] else [])
        in Ok (rev buf))"

definition printint :: "i32 \<Rightarrow> nat \<Rightarrow> bool \<Rightarrow> u8 list res" where
  "printint = printint_with lower_digits"

definition uprintint :: "i32 \<Rightarrow> nat \<Rightarrow> bool \<Rightarrow> u8 list res" where
  "uprintint = printint_with upper_digits"

definition printptr_with :: "u8 list \<Rightarrow> u64 \<Rightarrow> u8 list" where
  "printptr_with digits x = [48, 120] @ map (\<lambda>i. digits ! unat (drop_bit 60 (push_bit (4 * i) x))) [0..<16]"

definition printptr :: "u64 \<Rightarrow> u8 list" where
  "printptr = printptr_with lower_digits"

definition uprintptr :: "u64 \<Rightarrow> u8 list" where
  "uprintptr = printptr_with upper_digits"

text \<open>An argument: a 64-bit slot for integers and pointers, or a string (\<open>None\<close> for a null
  pointer).\<close>

datatype arg = AWord u64 | AString "u8 list option"

definition null_str :: "u8 list" where
  "null_str = [40, 110, 117, 108, 108, 41]"

definition arg_word :: "arg list \<Rightarrow> (u64 \<Rightarrow> u8 list res) \<Rightarrow> u8 list res" where
  "arg_word ap f = (case ap of AWord w # _ \<Rightarrow> f w | _ \<Rightarrow> Err (Undef ''va_arg''))"

definition arg_str :: "arg list \<Rightarrow> u8 list res" where
  "arg_str ap = (case ap of AString None # _ \<Rightarrow> Ok null_str | AString (Some s) # _ \<Rightarrow> Ok s | _ \<Rightarrow> Err (Undef ''va_arg''))"

text \<open>The conversion after a percent sign: its output and the arguments that are left.\<close>

definition kconv :: "u8 \<Rightarrow> arg list \<Rightarrow> u8 list res \<times> arg list" where
  "kconv c ap =
     (if c = 100 then (arg_word ap (\<lambda>w. printint (ucast w) 10 True), tl ap)
      else if c = 120 then (arg_word ap (\<lambda>w. printint (ucast w) 16 True), tl ap)
      else if c = 112 then (arg_word ap (\<lambda>w. Ok (printptr w)), tl ap)
      else if c = 115 then (arg_str ap, tl ap)
      else if c = 37 then (Ok [37], ap)
      else (Ok [37, c], ap))"

fun kprintf :: "u8 list \<Rightarrow> arg list \<Rightarrow> u8 list res" where
  "kprintf [] ap = Ok []"
| "kprintf (c # fmt) ap =
     (if c \<noteq> 37 then bnd (kprintf fmt ap) (\<lambda>out. Ok (c # out))
      else case fmt of
             [] \<Rightarrow> Ok []
           | d # fmt \<Rightarrow>
               let (o1, ap) = kconv d ap in bnd o1 (\<lambda>o1. bnd (kprintf fmt ap) (\<lambda>out. Ok (o1 @ out))))"

definition uconv :: "u8 \<Rightarrow> arg list \<Rightarrow> u8 list res \<times> arg list" where
  "uconv c ap =
     (if c = 100 then (arg_word ap (\<lambda>w. uprintint (ucast w) 10 True), tl ap)
      else if c = 108 then (arg_word ap (\<lambda>w. uprintint (ucast w) 10 False), tl ap)
      else if c = 120 then (arg_word ap (\<lambda>w. uprintint (ucast w) 16 False), tl ap)
      else if c = 112 then (arg_word ap (\<lambda>w. Ok (uprintptr w)), tl ap)
      else if c = 115 then (arg_str ap, tl ap)
      else if c = 99 then (arg_word ap (\<lambda>w. Ok [ucast w]), tl ap)
      else if c = 37 then (Ok [37], ap)
      else (Ok [37, c], ap))"

text \<open>\<open>state\<close> of \<open>vprintf\<close> is the flag.\<close>

fun vprintf :: "bool \<Rightarrow> u8 list \<Rightarrow> arg list \<Rightarrow> u8 list res" where
  "vprintf st [] ap = Ok []"
| "vprintf st (c # fmt) ap =
     (if \<not> st then
        if c = 37 then vprintf True fmt ap
        else bnd (vprintf False fmt ap) (\<lambda>out. Ok (c # out))
      else
        let (o1, ap) = uconv c ap in bnd o1 (\<lambda>o1. bnd (vprintf False fmt ap) (\<lambda>out. Ok (o1 @ out))))"

definition uprintf :: "u8 list \<Rightarrow> arg list \<Rightarrow> u8 list res" where
  "uprintf fmt ap = vprintf False fmt ap"

subsection \<open>Lemmas\<close>

lemma udigits_value: "2 \<le> base \<Longrightarrow> foldr (\<lambda>d v. d + base * v) (udigits base x) 0 = x"
proof (induction base x rule: udigits.induct)
  case (1 base x)
  then show ?case by (subst udigits.simps) (auto simp: div_eq_0_iff)
qed

lemma udigits_less: "2 \<le> base \<Longrightarrow> d \<in> set (udigits base x) \<Longrightarrow> d < base"
proof (induction base x rule: udigits.induct)
  case (1 base x)
  then show ?case by (subst (asm) (2) udigits.simps) (auto split: if_splits)
qed

lemma udigits_length: "2 \<le> base \<Longrightarrow> x < base ^ k \<Longrightarrow> 0 < k \<Longrightarrow> length (udigits base x) \<le> k"
proof (induction base x arbitrary: k rule: udigits.induct)
  case (1 base x)
  show ?case
  proof (cases "x div base = 0")
    case True
    then show ?thesis using "1.prems" by (subst udigits.simps) simp
  next
    case False
    then obtain j where k: "k = Suc j" "0 < j" using "1.prems" by (cases k; cases "k - 1") auto
    have "x div base < base ^ j" using "1.prems"(1,2) k(1) by (simp add: less_mult_imp_div_less mult.commute)
    then have "length (udigits base (x div base)) \<le> j" using "1.IH" False "1.prems"(1) k(2) by simp
    then show ?thesis using k(1) by (subst udigits.simps) simp
  qed
qed

lemma digit_nth: "d < 10 \<Longrightarrow> upper_digits ! d = of_nat (48 + d)" "d < 10 \<Longrightarrow> lower_digits ! d = of_nat (48 + d)"
  by (simp_all add: upper_digits_def lower_digits_def del: upt.simps)

lemma uint_digit: "d < 10 \<Longrightarrow> uint (of_nat (48 + d) :: u8) = int (48 + d)"
proof -
  assume "d < 10"
  then have "take_bit 8 (48 + d) = 48 + d" by (simp add: take_bit_nat_eq_self)
  then show ?thesis by (simp add: unsigned_of_nat del: of_nat_add)
qed

lemma digit_range: "d < 10 \<Longrightarrow> 48 \<le> (of_nat (48 + d) :: u8) \<and> (of_nat (48 + d) :: u8) \<le> 57"
  using uint_digit [of d] by (simp add: word_le_def)

text \<open>\<open>atoi\<close> reads digits that were written most significant first.\<close>

lemma atoi_loop_digits:
  assumes "\<forall>d\<in>set ds. d < 10" "0 \<le> n" "foldl (\<lambda>v d. v * 10 + int d) n ds \<le> 2147483599"
  shows "atoi_loop n (map (\<lambda>d. of_nat (48 + d)) ds) = Ok (foldl (\<lambda>v d. v * 10 + int d) n ds)"
  using assms
proof (induction ds arbitrary: n)
  case (Cons d ds)
  have d: "d < 10" using Cons.prems(1) by simp
  have mono: "v \<le> foldl (\<lambda>v d. v * 10 + int d) v ds" if "0 \<le> v" for v
    using that
  proof (induction ds arbitrary: v)
    case (Cons e ds)
    have "v \<le> v * 10 + int e" using Cons.prems by simp
    then show ?case using Cons.IH [of "v * 10 + int e"] Cons.prems by simp
  qed simp
  have "n * 10 + int d \<le> 2147483599" using mono [of "n * 10 + int d"] Cons.prems(2,3) by simp
  then have small: "\<not> 2 ^ 31 \<le> n * 10 + uint (of_nat (48 + d) :: u8)" using uint_digit [OF d] d by simp
  have IH: "atoi_loop (n * 10 + int d) (map (\<lambda>d. of_nat (48 + d)) ds) = Ok (foldl (\<lambda>v d. v * 10 + int d) (n * 10 + int d) ds)"
    using Cons.prems by (intro Cons.IH) auto
  have "n * 10 + uint (of_nat (48 + d) :: u8) - 48 = n * 10 + int d" using uint_digit [OF d] by simp
  with small digit_range [OF d] IH show ?case by (simp only: list.map atoi_loop.simps if_True if_False simp_thms foldl_Cons)
qed simp

lemma foldl_foldr_digits: "foldl (\<lambda>v d. v * 10 + int d) 0 (rev ds) = int (foldr (\<lambda>d v. d + 10 * v) ds 0)"
  by (simp add: foldl_conv_foldr) (induction ds; simp)

text \<open>
  C20: Numbers survive printing and reading. For every non-negative \<open>int\<close> up to 2147483599,
  \<open>atoi\<close> applied to what \<open>printf("%d")\<close> of the user library prints for it gives the
  number back. (Above that bound the sum
  inside \<open>atoi\<close> exceeds \<open>int\<close> before '0' is subtracted.)
\<close>

theorem atoi_printint:
  assumes "0 \<le> sint x" "sint x \<le> 2147483599"
  shows "\<exists>bs. uprintint x 10 True = Ok bs \<and> atoi bs = Ok (sint x)"
proof -
  have "take_bit 32 (sint x) = sint x" using assms by (simp add: take_bit_int_eq_self)
  then have u: "int (unat x) = sint x" using uint_sint [of x] by simp
  let ?ds = "udigits 10 (unat x)"
  have ds: "\<forall>d\<in>set (rev ?ds). d < 10" using udigits_less [of 10] by auto
  have v: "foldl (\<lambda>v d. v * 10 + int d) 0 (rev ?ds) = sint x"
    using udigits_value [of 10 "unat x"] u by (simp add: foldl_foldr_digits)
  have m: "map (\<lambda>d. upper_digits ! d) ?ds = map (\<lambda>d. of_nat (48 + d)) ?ds"
    using ds digit_nth(1) by (intro map_cong) auto
  have "uprintint x 10 True = Ok (rev (map (\<lambda>d. of_nat (48 + d)) ?ds))"
    using assms(1) m by (simp add: uprintint_def printint_with_def Let_def)
  moreover have "atoi (map (\<lambda>d. of_nat (48 + d)) (rev ?ds)) = Ok (sint x)"
    unfolding atoi_def using atoi_loop_digits [OF ds, of 0] v assms(2) by simp
  ultimately show ?thesis by (simp add: rev_map)
qed

theorem atoi_printint_witness: "\<exists>bs. uprintint 1234 10 True = Ok bs \<and> atoi bs = Ok 1234"
  using atoi_printint [of 1234] by simp

text \<open>
  The two \<open>memmove\<close> routines agree: the one of the user library, which chooses the
  direction by comparing the pointers only, and the one of the kernel, which also tests for
  overlap, leave the same memory for all ranges that do not wrap around the address space.
\<close>

theorem memmove_user_kernel:
  assumes "unat src + n < 2 ^ 64" "unat dst + n < 2 ^ 64"
  shows "ulib_memmove dst src (int n) m = memmove dst src n m"
proof -
  have u: "unat (src + of_nat i) = unat src + i" "unat (dst + of_nat i) = unat dst + i" if "i \<le> n" for i
    using that assms by (simp_all add: unat_add_64)
  have "ulib_memmove dst src (int n) m = store_bytes m dst (load_bytes m src n)"
  proof (cases "src > dst")
    case True
    have "fwd_copy n dst src m = store_bytes m dst (load_bytes m src n)"
    proof (rule fwd_copy_eq)
      fix i j :: nat
      assume "j < i" "i < n"
      then show "src + of_nat i \<noteq> dst + of_nat j"
        using True u [of i] u [of j] by (auto simp: word_less_nat_alt word_unat_eq_iff)
    qed (use assms in simp)
    with True show ?thesis by (simp add: ulib_memmove_def)
  next
    case False
    have "bwd_copy n (dst + of_nat n) (src + of_nat n) m = store_bytes m dst (load_bytes m src n)"
    proof (rule bwd_copy_eq)
      fix i j :: nat
      assume "i < j" "j < n"
      then show "src + of_nat i \<noteq> dst + of_nat j"
        using False u [of i] u [of j] by (auto simp: word_less_nat_alt word_unat_eq_iff)
    qed (use assms in simp)
    with False show ?thesis by (simp add: ulib_memmove_def)
  qed
  also have "\<dots> = memmove dst src n m" using memmove_eq [OF assms] by simp
  finally show ?thesis .
qed

theorem memmove_user_kernel_witness: "ulib_memmove 4098 4096 (int 8) (\<lambda>a. ucast a) = memmove 4098 4096 8 (\<lambda>a. ucast a)"
  using memmove_user_kernel [of 4096 8 4098] by simp

lemma strcmp_from:
  "i \<le> k \<Longrightarrow> p k = 0 \<Longrightarrow> \<exists>r. strcmp i p q = Some r \<and>
     (r = 0 \<longleftrightarrow> cstr (\<lambda>j. p (i + j)) (Suc (k - i)) = cstr (\<lambda>j. q (i + j)) (Suc (k - i)))"
proof (induction "k - i" arbitrary: i)
  case 0
  then have "i = k" by simp
  with 0 show ?case by (subst strcmp.simps) (auto simp: cstr_Suc word_uint_eq_iff)
next
  case (Suc d)
  show ?case
  proof (cases "p i \<noteq> 0 \<and> p i = q i")
    case True
    then have run: "strcmp i p q = strcmp (i + 1) p q" by (subst strcmp.simps) auto
    have "\<exists>r. strcmp (i + 1) p q = Some r \<and>
        (r = 0 \<longleftrightarrow> cstr (\<lambda>j. p (i + 1 + j)) (Suc (k - (i + 1))) = cstr (\<lambda>j. q (i + 1 + j)) (Suc (k - (i + 1))))"
      using Suc by (intro Suc.hyps(1)) auto
    moreover have "Suc (k - i) = Suc (Suc (k - (i + 1)))" using Suc.hyps(2) by simp
    moreover have "cstr (\<lambda>j. r (i + j)) (Suc (Suc (k - (i + 1)))) =
        (if r i = 0 then [] else r i # cstr (\<lambda>j. r (i + 1 + j)) (Suc (k - (i + 1))))" for r :: "nat \<Rightarrow> u8"
      by (subst cstr_Suc) simp
    ultimately show ?thesis using True unfolding run by (simp only:) auto
  next
    case False
    then show ?thesis by (subst strcmp.simps) (auto simp: cstr_Suc word_uint_eq_iff)
  qed
qed

lemma strcmp_first_difference:
  "i \<le> d \<Longrightarrow> (\<And>j. i \<le> j \<Longrightarrow> j < d \<Longrightarrow> p j = q j \<and> p j \<noteq> 0) \<Longrightarrow> p d \<noteq> q d \<Longrightarrow>
    strcmp i p q = Some (uint (p d) - uint (q d))"
proof (induction "d - i" arbitrary: i)
  case 0
  then show ?case by (subst strcmp.simps) simp
next
  case (Suc n)
  have "p i = q i \<and> p i \<noteq> 0" using Suc.hyps(2) by (intro Suc.prems(2)) auto
  then have "strcmp i p q = strcmp (i + 1) p q" by (subst strcmp.simps) auto
  also have "\<dots> = Some (uint (p d) - uint (q d))"
  proof (rule Suc.hyps(1))
    show "p j = q j \<and> p j \<noteq> 0" if "i + 1 \<le> j" "j < d" for j using that by (intro Suc.prems(2)) auto
  qed (use Suc.hyps(2) Suc.prems(3) in auto)
  finally show ?case .
qed

text \<open>
  C21: \<open>strcmp\<close> ends whenever its first argument is NUL-terminated, whatever the second one
  is, and returns 0 exactly if the two C strings are equal. When they differ, with \<open>d\<close> the
  first position where they do, the result is the difference of the two bytes there taken as unsigned,
  so it is negative or positive as the first string is smaller or greater in the order of
  \<open>unsigned char\<close>.
\<close>

theorem strcmp_ends:
  assumes "p k = 0"
  shows "\<exists>r. strcmp 0 p q = Some r \<and> (r = 0 \<longleftrightarrow> cstr p (Suc k) = cstr q (Suc k)) \<and>
    (\<forall>d. (\<forall>j<d. p j = q j \<and> p j \<noteq> 0) \<and> p d \<noteq> q d \<longrightarrow>
       r = uint (p d) - uint (q d) \<and> (r < 0 \<longleftrightarrow> p d < q d) \<and> (0 < r \<longleftrightarrow> q d < p d))"
proof -
  obtain r where r: "strcmp 0 p q = Some r" "r = 0 \<longleftrightarrow> cstr p (Suc k) = cstr q (Suc k)"
    using strcmp_from [of 0 k p q] assms by auto
  show ?thesis
  proof (intro exI [of _ r] conjI allI impI r; elim conjE)
    fix d assume d: "\<forall>j<d. p j = q j \<and> p j \<noteq> 0" "p d \<noteq> q d"
    have "strcmp 0 p q = Some (uint (p d) - uint (q d))" by (rule strcmp_first_difference) (use d in auto)
    with r(1) show e: "r = uint (p d) - uint (q d)" by simp
    show "r < 0 \<longleftrightarrow> p d < q d" "0 < r \<longleftrightarrow> q d < p d" unfolding e by (simp_all add: word_less_def)
  qed
qed

theorem strcmp_ends_witness:
  "strcmp 0 (\<lambda>i. if i = 0 then 97 else 0) (\<lambda>_. 97) = Some (- 97)"
  using strcmp_ends [of "\<lambda>i. if i = 0 then 97 else 0" 1 "\<lambda>_. 97"] by (auto dest: spec [of _ 1])

end
