(* ===== verification/Grep.thy ===== *)
theory Grep
  imports Prelude
begin

text \<open>
  \<open>user/grep.c\<close>: the pattern matcher and the line loop.

  A C string is the list of its bytes before the NUL, so that \<open>re[0] == '\0'\<close> is the empty
  list. The input is the list of the bytes still to be read; how many of them a \<open>read\<close>
  returns is up to the kernel (a pipe or the console may return fewer than asked for) and given
  by a list of sizes.
\<close>

subsection \<open>The matcher\<close>

function (sequential) matchhere :: "u8 list \<Rightarrow> u8 list \<Rightarrow> bool"
  and matchstar :: "u8 \<Rightarrow> u8 list \<Rightarrow> u8 list \<Rightarrow> bool" where
  "matchhere [] s = True"
| "matchhere (c # re) s =
     (if re \<noteq> [] \<and> hd re = 42 then matchstar c (tl re) s
      else if c = 36 \<and> re = [] then s = []
      else if s \<noteq> [] \<and> (c = 46 \<or> c = hd s) then matchhere re (tl s)
      else False)"
| "matchstar c re s =
     (if matchhere re s then True
      else if s \<noteq> [] \<and> (hd s = c \<or> c = 46) then matchstar c re (tl s)
      else False)"
  by pat_completeness auto
termination
  by (relation "measures [\<lambda>x. case x of Inl (re, t) \<Rightarrow> length re + length t | Inr (c, re, t) \<Rightarrow> length re + length t,
        \<lambda>x. case x of Inl _ \<Rightarrow> 0 | Inr _ \<Rightarrow> 1]")
    (auto simp: neq_Nil_conv)

declare matchhere.simps [simp del] matchstar.simps [simp del]

text \<open>The do-while loop of \<open>match\<close> also looks at the empty end of the text.\<close>

fun match_from :: "u8 list \<Rightarrow> u8 list \<Rightarrow> bool" where
  "match_from re [] = matchhere re []"
| "match_from re (t # s) = (matchhere re (t # s) \<or> match_from re s)"

definition re_match :: "u8 list \<Rightarrow> u8 list \<Rightarrow> bool" where
  "re_match re s = (case re of [] \<Rightarrow> match_from re s | c # re' \<Rightarrow> if c = 94 then matchhere re' s else match_from re s)"

subsection \<open>The line loop\<close>

text \<open>\<open>strchr(p, '\n')\<close> on the NUL-terminated buffer.\<close>

fun find_nl :: "u8 list \<Rightarrow> nat option" where
  "find_nl [] = None"
| "find_nl (x # xs) = (if x = 0 then None else if x = 10 then Some 0 else map_option Suc (find_nl xs))"

lemma find_nl_less: "find_nl b = Some i \<Longrightarrow> i < length b"
  by (induction b arbitrary: i) (auto split: if_splits)

text \<open>The inner loop: the lines written to standard output, and the rest of the buffer.\<close>

function grep_lines :: "u8 list \<Rightarrow> u8 list \<Rightarrow> u8 list \<times> u8 list" where
  "grep_lines pattern b =
     (case find_nl b of
        None \<Rightarrow> ([], b)
      | Some i \<Rightarrow>
          let (out, rest) = grep_lines pattern (drop (i + 1) b)
          in ((if re_match pattern (take i b) then take (i + 1) b else []) @ out, rest))"
  by pat_completeness auto
termination by (relation "measure (\<lambda>(_, b). length b)") (auto dest: find_nl_less)

declare grep_lines.simps [simp del]

text \<open>The outer loop: \<open>b\<close> is the kept part of the buffer, \<open>k\<close> the number of bytes the next
  \<open>read\<close> is willing to return.\<close>

function grep_loop :: "u8 list \<Rightarrow> nat list \<Rightarrow> u8 list \<Rightarrow> u8 list \<Rightarrow> u8 list" where
  "grep_loop pattern ks inp b =
     (let want = 1024 - length b - 1;
          n = min (min (max 1 (case ks of [] \<Rightarrow> want | k # _ \<Rightarrow> k)) want) (length inp)
      in if n = 0 then []
         else let (out, rest) = grep_lines pattern (b @ take n inp)
              in out @ grep_loop pattern (tl ks) (drop n inp) rest)"
  by pat_completeness auto
termination by (relation "measure (\<lambda>(_, _, inp, _). length inp)") auto

declare grep_loop.simps [simp del]

definition grep :: "u8 list \<Rightarrow> nat list \<Rightarrow> u8 list \<Rightarrow> u8 list" where
  "grep pattern ks inp = grep_loop pattern ks inp []"

subsection \<open>What a pattern means\<close>

text \<open>A pattern as a sequence of items with an optional anchor at the end, and the texts that a
  sequence of items describes.\<close>

datatype item = One u8 | Many u8

definition char_ok :: "u8 \<Rightarrow> u8 \<Rightarrow> bool" where
  "char_ok c x \<longleftrightarrow> c = 46 \<or> c = x"

fun items :: "u8 list \<Rightarrow> item list \<times> bool" where
  "items [] = ([], False)"
| "items [c] = (if c = 36 then ([], True) else ([One c], False))"
| "items (c # d # re) =
     (if d = 42 then let (its, e) = items re in (Many c # its, e)
      else let (its, e) = items (d # re) in (One c # its, e))"

fun item_lang :: "item list \<Rightarrow> u8 list set" where
  "item_lang [] = {[]}"
| "item_lang (One c # its) = {x # u | x u. char_ok c x \<and> u \<in> item_lang its}"
| "item_lang (Many c # its) = {v @ u | v u. (\<forall>x\<in>set v. char_ok c x) \<and> u \<in> item_lang its}"

text \<open>A match at the start of the text: a described prefix, which is the whole text if the
  pattern is anchored at the end.\<close>

definition prefix_matches :: "u8 list \<Rightarrow> u8 list \<Rightarrow> bool" where
  "prefix_matches re s \<longleftrightarrow>
     (\<exists>u v. s = u @ v \<and> u \<in> item_lang (fst (items re)) \<and> (snd (items re) \<longrightarrow> v = []))"

lemma prefix_One:
  assumes "fst (items re) = One c # its" "fst (items re') = its" "snd (items re') = snd (items re)"
  shows "prefix_matches re s \<longleftrightarrow> (\<exists>x t. s = x # t \<and> char_ok c x \<and> prefix_matches re' t)"
proof
  assume "prefix_matches re s"
  then obtain u v where u: "s = u @ v" "u \<in> item_lang (One c # its)" "snd (items re) \<longrightarrow> v = []"
    using assms(1) by (auto simp: prefix_matches_def)
  then obtain x u' where "u = x # u'" "char_ok c x" "u' \<in> item_lang its" by auto
  with u assms show "\<exists>x t. s = x # t \<and> char_ok c x \<and> prefix_matches re' t"
    unfolding prefix_matches_def by (intro exI [of _ x] exI [of _ "u' @ v"]) auto
next
  assume "\<exists>x t. s = x # t \<and> char_ok c x \<and> prefix_matches re' t"
  then obtain x u v where u: "s = x # u @ v" "char_ok c x" "u \<in> item_lang its" "snd (items re) \<longrightarrow> v = []"
    using assms by (auto simp: prefix_matches_def)
  then have "s = (x # u) @ v" "x # u \<in> item_lang (One c # its)" by auto
  with u(4) assms(1) show "prefix_matches re s" unfolding prefix_matches_def by metis
qed

lemma prefix_Many:
  assumes "fst (items re) = Many c # its" "fst (items re') = its" "snd (items re') = snd (items re)"
  shows "prefix_matches re s \<longleftrightarrow> (\<exists>v t. s = v @ t \<and> (\<forall>x\<in>set v. char_ok c x) \<and> prefix_matches re' t)"
proof
  assume "prefix_matches re s"
  then obtain u v where u: "s = u @ v" "u \<in> item_lang (Many c # its)" "snd (items re) \<longrightarrow> v = []"
    using assms(1) by (auto simp: prefix_matches_def)
  then obtain w u' where "u = w @ u'" "\<forall>x\<in>set w. char_ok c x" "u' \<in> item_lang its" by auto
  with u assms show "\<exists>v t. s = v @ t \<and> (\<forall>x\<in>set v. char_ok c x) \<and> prefix_matches re' t"
    unfolding prefix_matches_def by (intro exI [of _ w] exI [of _ "u' @ v"]) auto
next
  assume "\<exists>v t. s = v @ t \<and> (\<forall>x\<in>set v. char_ok c x) \<and> prefix_matches re' t"
  then obtain w u v where u: "s = w @ u @ v" "\<forall>x\<in>set w. char_ok c x" "u \<in> item_lang its" "snd (items re) \<longrightarrow> v = []"
    using assms by (auto simp: prefix_matches_def)
  then have "s = (w @ u) @ v" "w @ u \<in> item_lang (Many c # its)" by auto
  with u(4) assms(1) show "prefix_matches re s" unfolding prefix_matches_def by metis
qed

lemma matchstar_spec:
  "(\<And>t. matchhere re t = prefix_matches re t) \<Longrightarrow>
    matchstar c re s \<longleftrightarrow> (\<exists>v t. s = v @ t \<and> (\<forall>x\<in>set v. char_ok c x) \<and> prefix_matches re t)"
proof (induction s)
  case Nil
  then show ?case by (subst matchstar.simps) simp
next
  case (Cons a s)
  let ?R = "\<lambda>s. \<exists>v t. s = v @ t \<and> (\<forall>x\<in>set v. char_ok c x) \<and> prefix_matches re t"
  have "?R (a # s) \<longleftrightarrow> prefix_matches re (a # s) \<or> char_ok c a \<and> ?R s"
  proof
    assume "?R (a # s)"
    then obtain v t where v: "a # s = v @ t" "\<forall>x\<in>set v. char_ok c x" "prefix_matches re t" by blast
    then show "prefix_matches re (a # s) \<or> char_ok c a \<and> ?R s" by (cases v) auto
  next
    assume "prefix_matches re (a # s) \<or> char_ok c a \<and> ?R s"
    then show "?R (a # s)"
    proof
      assume "prefix_matches re (a # s)"
      then show ?thesis by (intro exI [of _ "[]"] exI [of _ "a # s"]) simp
    next
      assume "char_ok c a \<and> ?R s"
      then obtain v t where "s = v @ t" "\<forall>x\<in>set v. char_ok c x" "prefix_matches re t" "char_ok c a" by blast
      then show ?thesis by (intro exI [of _ "a # v"] exI [of _ t]) simp
    qed
  qed
  then show ?case using Cons by (subst matchstar.simps) (auto simp: char_ok_def)
qed

lemma matchhere_spec: "matchhere re s = prefix_matches re s"
proof (induction re arbitrary: s rule: items.induct)
  case 1
  show ?case by (auto simp: matchhere.simps prefix_matches_def)
next
  case (2 c)
  show ?case
  proof (cases "c = 36")
    case True
    then show ?thesis by (subst matchhere.simps) (auto simp: prefix_matches_def)
  next
    case False
    have "prefix_matches [c] s \<longleftrightarrow> (\<exists>x t. s = x # t \<and> char_ok c x \<and> prefix_matches [] t)"
      using False by (intro prefix_One [where its = "[]"]) auto
    also have "\<dots> \<longleftrightarrow> (\<exists>x t. s = x # t \<and> char_ok c x)" by (auto simp: prefix_matches_def)
    finally show ?thesis
      using False by (subst matchhere.simps) (cases s; auto simp: char_ok_def matchhere.simps)
  qed
next
  case (3 c d re)
  show ?case
  proof (cases "d = 42")
    case True
    have "prefix_matches (c # d # re) s \<longleftrightarrow> (\<exists>v t. s = v @ t \<and> (\<forall>x\<in>set v. char_ok c x) \<and> prefix_matches re t)"
      using True by (intro prefix_Many [where its = "fst (items re)"]) (auto simp: split_beta Let_def)
    with matchstar_spec [of re c s] 3(1) True show ?thesis by (subst matchhere.simps) simp
  next
    case False
    have "prefix_matches (c # d # re) s \<longleftrightarrow> (\<exists>x t. s = x # t \<and> char_ok c x \<and> prefix_matches (d # re) t)"
      using False by (intro prefix_One [where its = "fst (items (d # re))"]) (auto simp: split_beta Let_def)
    with 3(2) False show ?thesis by (subst matchhere.simps) (cases s; auto simp: char_ok_def)
  qed
qed

lemma match_from_spec: "match_from re s \<longleftrightarrow> (\<exists>w t. s = w @ t \<and> prefix_matches re t)"
proof (induction s)
  case Nil
  then show ?case by (simp add: matchhere_spec)
next
  case (Cons a s)
  have "(\<exists>w t. a # s = w @ t \<and> prefix_matches re t) \<longleftrightarrow> prefix_matches re (a # s) \<or> (\<exists>w t. s = w @ t \<and> prefix_matches re t)"
    by (metis append_Cons append_Nil list.inject neq_Nil_conv)
  with Cons show ?case by (simp add: matchhere_spec)
qed

text \<open>
  C22: The matcher finds exactly what the pattern describes. A pattern that starts with a caret
  matches a text iff the rest of the pattern describes a prefix of it; any other pattern
  matches iff it describes a part of the text that starts somewhere, possibly at the end. A
  dot stands for any character, a character followed by a star for any number of copies, and a
  dollar sign in last position requires the described part to reach the end of the text.
\<close>

theorem re_match_correct:
  "re_match re s \<longleftrightarrow>
     (if re \<noteq> [] \<and> hd re = 94 then prefix_matches (tl re) s
      else \<exists>w t. s = w @ t \<and> prefix_matches re t)"
  by (cases re) (auto simp: re_match_def matchhere_spec match_from_spec)

subsection \<open>Lines\<close>

text \<open>The complete lines of a text that follows \<open>cur\<close>, and the incomplete one at its end.\<close>

fun lines_acc :: "u8 list \<Rightarrow> u8 list \<Rightarrow> u8 list list \<times> u8 list" where
  "lines_acc cur [] = ([], cur)"
| "lines_acc cur (x # xs) =
     (if x = 10 then let (ls, r) = lines_acc [] xs in (cur # ls, r) else lines_acc (cur @ [x]) xs)"

definition selected :: "u8 list \<Rightarrow> u8 list list \<Rightarrow> u8 list" where
  "selected pattern ls = concat (map (\<lambda>l. if re_match pattern l then l @ [10] else []) ls)"

lemma lines_acc_append:
  "lines_acc c (u @ v) =
    (fst (lines_acc c u) @ fst (lines_acc (snd (lines_acc c u)) v), snd (lines_acc (snd (lines_acc c u)) v))"
  by (induction c u rule: lines_acc.induct) (auto simp: split_beta Let_def)

lemma lines_acc_no_nl: "10 \<notin> set u \<Longrightarrow> lines_acc c u = ([], c @ u)"
  by (induction u arbitrary: c) auto

lemma lines_acc_snd_no_nl: "10 \<notin> set c \<Longrightarrow> 10 \<notin> set (snd (lines_acc c u))"
  by (induction c u rule: lines_acc.induct) (auto simp: split_beta Let_def)

lemma find_nl_Some: "0 \<notin> set b \<Longrightarrow> find_nl b = Some i \<Longrightarrow> b ! i = 10 \<and> 10 \<notin> set (take i b)"
  by (induction b arbitrary: i) (auto split: if_splits)

lemma find_nl_None: "0 \<notin> set b \<Longrightarrow> find_nl b = None \<Longrightarrow> 10 \<notin> set b"
  by (induction b) (auto split: if_splits)

lemma grep_lines_spec: "0 \<notin> set b \<Longrightarrow> grep_lines pattern b = (selected pattern (fst (lines_acc [] b)), snd (lines_acc [] b))"
proof (induction pattern b rule: grep_lines.induct)
  case (1 pattern b)
  show ?case
  proof (cases "find_nl b")
    case None
    with find_nl_None [OF "1.prems"] show ?thesis
      by (simp add: grep_lines.simps [of pattern b] lines_acc_no_nl selected_def)
  next
    case (Some i)
    note nl = find_nl_Some [OF "1.prems" Some] find_nl_less [OF Some]
    have b: "b = take i b @ 10 # drop (i + 1) b" using id_take_nth_drop [OF nl(2)] nl(1) by simp
    have "lines_acc [] b = lines_acc [] (take i b @ 10 # drop (i + 1) b)" using b by simp
    also have "\<dots> = (take i b # fst (lines_acc [] (drop (i + 1) b)), snd (lines_acc [] (drop (i + 1) b)))"
      using nl(1) by (simp add: lines_acc_append lines_acc_no_nl split_beta Let_def)
    finally have la: "lines_acc [] b = (take i b # fst (lines_acc [] (drop (i + 1) b)), snd (lines_acc [] (drop (i + 1) b)))" .
    have "0 \<notin> set (drop (i + 1) b)" using "1.prems" by (metis in_set_dropD)
    then have IH: "grep_lines pattern (drop (i + 1) b) =
        (selected pattern (fst (lines_acc [] (drop (i + 1) b))), snd (lines_acc [] (drop (i + 1) b)))"
      using "1.IH" Some by simp
    have "take (i + 1) b = take i b @ [10]" using nl by (simp add: take_Suc_conv_app_nth)
    then show ?thesis using Some IH la by (simp add: grep_lines.simps [of pattern b] selected_def)
  qed
qed

lemma lines_acc_prefix_short:
  "(\<forall>l\<in>set (fst (lines_acc c u)). length l \<le> n) \<Longrightarrow> length (snd (lines_acc c u)) \<le> n \<Longrightarrow>
    length (snd (lines_acc c (take k u))) \<le> n"
proof (induction c u arbitrary: k rule: lines_acc.induct)
  case (2 cur x xs)
  show ?case
  proof (cases k)
    case 0
    have "length cur \<le> n"
      using "2.prems"
    proof (cases "x = 10")
      case False
      have grow: "length c \<le> length (snd (lines_acc c xs)) \<or> (\<exists>l\<in>set (fst (lines_acc c xs)). length c \<le> length l)" for c
        by (induction c xs rule: lines_acc.induct) (force simp: split_beta Let_def)+
      from grow [of "cur @ [x]"] False "2.prems" show ?thesis by (force intro: order_trans)
    qed (auto simp: split_beta Let_def)
    then show ?thesis using 0 by simp
  next
    case (Suc j)
    then show ?thesis using 2 by (cases "x = 10") (auto simp: split_beta Let_def)
  qed
qed simp

lemma grep_loop_spec:
  assumes "0 \<notin> set b" "0 \<notin> set inp" "10 \<notin> set b"
    "\<forall>l\<in>set (fst (lines_acc b inp)). length l \<le> 1022" "length (snd (lines_acc b inp)) \<le> 1022"
  shows "grep_loop pattern ks inp b = selected pattern (fst (lines_acc b inp))"
  using assms
proof (induction pattern ks inp b rule: grep_loop.induct)
  case (1 pattern ks inp b)
  define want where "want = 1024 - length b - 1"
  define n where "n = min (min (max 1 (case ks of [] \<Rightarrow> want | k # _ \<Rightarrow> k)) want) (length inp)"
  have "length b \<le> 1022" using lines_acc_prefix_short [OF "1.prems"(4,5), of 0] by simp
  then have w: "1 \<le> want" by (simp add: want_def)
  show ?case
  proof (cases "n = 0")
    case True
    then have "inp = []" using w by (auto simp: n_def min_def max_def split: if_splits)
    then show ?thesis using True by (subst grep_loop.simps) (simp add: selected_def)
  next
    case False
    let ?t = "take n inp" and ?d = "drop n inp"
    define r where "r = snd (lines_acc b ?t)"
    have z: "0 \<notin> set (b @ ?t)" using "1.prems"(1,2) by (auto dest: in_set_takeD)
    have "lines_acc [] (b @ ?t) = lines_acc b ?t"
      using "1.prems"(3) by (simp add: lines_acc_append [of "[]" b] lines_acc_no_nl)
    then have gl: "grep_lines pattern (b @ ?t) = (selected pattern (fst (lines_acc b ?t)), r)"
      using grep_lines_spec [OF z] by (simp add: r_def)
    have sp: "lines_acc b inp = (fst (lines_acc b ?t) @ fst (lines_acc r ?d), snd (lines_acc r ?d))"
      using lines_acc_append [of b ?t ?d] by (simp add: r_def)
    have rz: "0 \<notin> set r"
    proof -
      have "set (snd (lines_acc c u)) \<subseteq> set c \<union> set u" for c u
        by (induction c u rule: lines_acc.induct) (auto simp: split_beta Let_def)
      then show ?thesis using z by (auto simp: r_def)
    qed
    have IH: "grep_loop pattern (tl ks) ?d r = selected pattern (fst (lines_acc r ?d))"
    proof (rule "1.IH" [OF want_def n_def False gl [symmetric] refl])
      show "0 \<notin> set ?d" using "1.prems"(2) by (auto dest: in_set_dropD)
      show "10 \<notin> set r" using lines_acc_snd_no_nl [OF "1.prems"(3)] by (simp add: r_def)
    qed (use rz "1.prems"(4,5) sp in auto)
    have "grep_loop pattern ks inp b = selected pattern (fst (lines_acc b ?t)) @ grep_loop pattern (tl ks) ?d r"
      unfolding grep_loop.simps [of pattern ks inp b] Let_def want_def [symmetric] n_def [symmetric]
      using False by (simp only: gl if_False prod.case)
    then show ?thesis using IH sp by (simp add: selected_def)
  qed
qed

text \<open>
  C23: \<open>grep\<close> prints the matching lines. For an input without NUL bytes whose lines have at
  most 1022 characters, the output is exactly the complete lines that the pattern matches, each
  with its newline, in their order, however the kernel cuts the input into reads. (An
  incomplete last line is never printed.)
\<close>

theorem grep_prints_matching_lines:
  assumes "0 \<notin> set inp" "\<forall>l\<in>set (fst (lines_acc [] inp)). length l \<le> 1022" "length (snd (lines_acc [] inp)) \<le> 1022"
  shows "grep pattern ks inp = selected pattern (fst (lines_acc [] inp))"
  unfolding grep_def using grep_loop_spec [of "[]" inp] assms by simp

theorem grep_prints_matching_lines_witness: "grep [98] [2, 1] [97, 10, 97, 98, 10, 99] = [97, 98, 10]"
proof -
  have "\<not> re_match [98] [97]" "re_match [98] [97, 98]"
    by (simp_all add: re_match_def matchhere.simps)
  then show ?thesis
    using grep_prints_matching_lines [of "[97, 10, 97, 98, 10, 99]" "[98]" "[2, 1]"] by (simp add: selected_def)
qed

end
