(* ===== verification/Fs.thy ===== *)
theory Fs
  imports Cmem Log
begin

text \<open>
  The file system layer, \<open>kernel/fs.c\<close>: the block allocator on the free bitmap, the inode
  table with its reference counts, the mapping of file blocks to disk blocks, reading and
  writing of file contents, directories and path names.

  The state extends that of the log with the super block and the inode table. A pointer to an
  inode is its index in the table and the null pointer is \<open>None\<close>; \<open>p\<close> is the pid of the
  calling process. The spin lock of the table protects only the table, so each of its critical
  sections is one step. \<open>either_copyin\<close> and \<open>either_copyout\<close> are parameters that give the
  outcome of a copy of \<open>m\<close> bytes at an offset of the caller's buffer.
\<close>

subsection \<open>Data\<close>

abbreviation (input) ROOTINO :: u32 where "ROOTINO \<equiv> 1"
abbreviation NINODE :: nat where "NINODE \<equiv> 50"
abbreviation NDIRECT :: nat where "NDIRECT \<equiv> 12"
abbreviation NINDIRECT :: nat where "NINDIRECT \<equiv> 256"
abbreviation MAXFILE :: nat where "MAXFILE \<equiv> 268"
abbreviation IPB :: nat where "IPB \<equiv> 16"
abbreviation BPB :: nat where "BPB \<equiv> 8192"
abbreviation DIRSIZ :: nat where "DIRSIZ \<equiv> 14"
abbreviation T_DIR :: u16 where "T_DIR \<equiv> 1"
abbreviation T_FILE :: u16 where "T_FILE \<equiv> 2"
abbreviation T_DEVICE :: u16 where "T_DEVICE \<equiv> 3"

definition FSMAGIC :: u32 where "FSMAGIC = 0x10203040"

record inode =
  idev :: u32
  inum :: u32
  iref :: int
  ilk :: sleeplock
  ivalid :: bool
  itype :: u16
  major :: u16
  minor :: u16
  nlink :: u16
  isize :: u32
  addrs :: "u32 list"

record stat =
  st_dev :: u32
  st_ino :: u32
  st_type :: u16
  st_nlink :: u16
  st_size :: u64

record fstate = lstate +
  sb :: superblock
  itable :: "nat \<Rightarrow> inode"

definition upd_inode :: "nat \<Rightarrow> (inode \<Rightarrow> inode) \<Rightarrow> 'a fstate_scheme \<Rightarrow> 'a fstate_scheme" where
  "upd_inode i f st = st\<lparr>itable := (itable st)(i := f (itable st i))\<rparr>"

definition set_data :: "nat \<Rightarrow> (block \<Rightarrow> block) \<Rightarrow> 'a bstate_scheme \<Rightarrow> 'a bstate_scheme" where
  "set_data b f st = upd_buf b (\<lambda>x. x\<lparr>bdata := f (bdata x)\<rparr>) st"

definition IBLOCK :: "u32 \<Rightarrow> superblock \<Rightarrow> u32" where
  "IBLOCK i s = of_nat (unat i div IPB) + inodestart s"

definition BBLOCK :: "u32 \<Rightarrow> superblock \<Rightarrow> u32" where
  "BBLOCK b s = of_nat (unat b div BPB) + bmapstart s"

subsection \<open>Super block\<close>

definition get_sb :: "block \<Rightarrow> superblock" where
  "get_sb d = \<lparr>magic = get32 d 0, sb_size = get32 d 4, nblocks = get32 d 8, ninodes = get32 d 12,
     nlog = get32 d 16, logstart = get32 d 20, inodestart = get32 d 24, bmapstart = get32 d 28\<rparr>"

definition readsb :: "int \<Rightarrow> u32 \<Rightarrow> 'a fstate_scheme \<Rightarrow> 'a fstate_scheme res" where
  "readsb p dev st =
     bnd (bread p dev 1 st) (\<lambda>(bp, st). brelse p bp (st\<lparr>sb := get_sb (bdata (bufs st bp))\<rparr>))"

definition fsinit :: "int \<Rightarrow> u32 \<Rightarrow> 'a fstate_scheme \<Rightarrow> 'a fstate_scheme res" where
  "fsinit p dev st =
     bnd (readsb p dev st) (\<lambda>st.
       if magic (sb st) \<noteq> FSMAGIC then Err (Panic ''invalid file system'')
       else initlog p dev (sb st) st)"

subsection \<open>Blocks\<close>

definition bzero :: "int \<Rightarrow> u32 \<Rightarrow> u32 \<Rightarrow> 'a fstate_scheme \<Rightarrow> 'a fstate_scheme res" where
  "bzero p dev bno st =
     bnd (bread p dev bno st) (\<lambda>(bp, st).
     bnd (log_write bp (set_data bp (\<lambda>d j. if j < BSIZE then 0 else d j) st)) (\<lambda>st.
       brelse p bp st))"

text \<open>The test \<open>data[bi/8] & (1 << bi%8)\<close> and the two ways to change that bit.\<close>

definition bit_used :: "block \<Rightarrow> nat \<Rightarrow> bool" where
  "bit_used d bi \<longleftrightarrow> d (bi div 8) AND push_bit (bi mod 8) 1 \<noteq> 0"

definition bit_set :: "nat \<Rightarrow> block \<Rightarrow> block" where
  "bit_set bi d = d(bi div 8 := d (bi div 8) OR push_bit (bi mod 8) 1)"

definition bit_clear :: "nat \<Rightarrow> block \<Rightarrow> block" where
  "bit_clear bi d = d(bi div 8 := d (bi div 8) AND NOT (push_bit (bi mod 8) 1))"

text \<open>The outer loop of \<open>balloc\<close> from block \<open>b\<close> on; \<open>find\<close> is the inner one. The loop
  variable is a C int, which the increment must not take past its range.\<close>

function balloc_from :: "int \<Rightarrow> u32 \<Rightarrow> nat \<Rightarrow> u32 \<Rightarrow> 'a fstate_scheme \<Rightarrow> (u32 \<times> 'a fstate_scheme) res" where
  "balloc_from p dev b nb st =
     (if b < unat nb then
        if 2 ^ 31 \<le> b then Err (Undef ''balloc: int overflow'')
        else
          bnd (bread p dev (BBLOCK (of_nat b) (sb st)) st) (\<lambda>(bp, st).
            case find (\<lambda>bi. \<not> bit_used (bdata (bufs st bp)) bi) [0..<min BPB (unat nb - b)] of
              Some bi \<Rightarrow>
                bnd (log_write bp (set_data bp (bit_set bi) st)) (\<lambda>st.
                bnd (brelse p bp st) (\<lambda>st.
                bnd (bzero p dev (of_nat (b + bi)) st) (\<lambda>st.
                  Ok (of_nat (b + bi), st))))
            | None \<Rightarrow> bnd (brelse p bp st) (\<lambda>st. balloc_from p dev (b + BPB) nb st))
      else Ok (0, st))"
  by pat_completeness auto
termination by (relation "measure (\<lambda>(_, _, b, nb, _). unat nb - b)") auto

declare balloc_from.simps [simp del]

definition balloc :: "int \<Rightarrow> u32 \<Rightarrow> 'a fstate_scheme \<Rightarrow> (u32 \<times> 'a fstate_scheme) res" where
  "balloc p dev st = balloc_from p dev 0 (sb_size (sb st)) st"

definition bfree :: "int \<Rightarrow> u32 \<Rightarrow> u32 \<Rightarrow> 'a fstate_scheme \<Rightarrow> 'a fstate_scheme res" where
  "bfree p dev b st =
     bnd (bread p dev (BBLOCK b (sb st)) st) (\<lambda>(bp, st).
       let bi = unat b mod BPB in
       if \<not> bit_used (bdata (bufs st bp)) bi then Err (Panic ''freeing free block'')
       else bnd (log_write bp (set_data bp (bit_clear bi) st)) (\<lambda>st. brelse p bp st))"

subsection \<open>Inodes\<close>

definition iinit :: "'a fstate_scheme \<Rightarrow> 'a fstate_scheme" where
  "iinit st = fold (\<lambda>i. upd_inode i (\<lambda>ip. ip\<lparr>ilk := initsleeplock ''inode''\<rparr>)) [0..<NINODE] st"

text \<open>\<open>struct dinode\<close> at offset \<open>o\<close> of a block of inodes.\<close>

definition dinode_off :: "u32 \<Rightarrow> nat" where
  "dinode_off i = 64 * (unat i mod IPB)"

definition put_dinode :: "nat \<Rightarrow> inode \<Rightarrow> block \<Rightarrow> block" where
  "put_dinode k ip d =
     fold (\<lambda>j d. put32 d (k + 12 + 4 * j) (addrs ip ! j)) [0..<NDIRECT + 1]
       (put32 (put16 (put16 (put16 (put16 d k (itype ip)) (k + 2) (major ip)) (k + 4) (minor ip))
          (k + 6) (nlink ip)) (k + 8) (isize ip))"

definition get_dinode :: "nat \<Rightarrow> block \<Rightarrow> inode \<Rightarrow> inode" where
  "get_dinode k d ip =
     ip\<lparr>itype := get16 d k, major := get16 d (k + 2), minor := get16 d (k + 4), nlink := get16 d (k + 6),
        isize := get32 d (k + 8), addrs := map (\<lambda>j. get32 d (k + 12 + 4 * j)) [0..<NDIRECT + 1]\<rparr>"

definition iget :: "u32 \<Rightarrow> u32 \<Rightarrow> 'a fstate_scheme \<Rightarrow> (nat \<times> 'a fstate_scheme) res" where
  "iget dev n st =
     (case find (\<lambda>i. 0 < iref (itable st i) \<and> idev (itable st i) = dev \<and> inum (itable st i) = n) [0..<NINODE] of
        Some i \<Rightarrow> Ok (i, upd_inode i (\<lambda>ip. ip\<lparr>iref := iref ip + 1\<rparr>) st)
      | None \<Rightarrow>
          (case find (\<lambda>i. iref (itable st i) = 0) [0..<NINODE] of
             None \<Rightarrow> Err (Panic ''iget: no inodes'')
           | Some i \<Rightarrow> Ok (i, upd_inode i (\<lambda>ip. ip\<lparr>idev := dev, inum := n, iref := 1, ivalid := False\<rparr>) st)))"

function ialloc_from :: "int \<Rightarrow> u32 \<Rightarrow> u16 \<Rightarrow> nat \<Rightarrow> u32 \<Rightarrow> 'a fstate_scheme \<Rightarrow> (nat option \<times> 'a fstate_scheme) res" where
  "ialloc_from p dev ty n limit st =
     (if n < unat limit then
        if 2 ^ 31 \<le> n then Err (Undef ''ialloc: int overflow'')
        else
          bnd (bread p dev (IBLOCK (of_nat n) (sb st)) st) (\<lambda>(bp, st).
            let k = dinode_off (of_nat n) in
            if get16 (bdata (bufs st bp)) k = 0 then
              bnd (log_write bp (set_data bp (\<lambda>d. put16 (\<lambda>j. if k \<le> j \<and> j < k + 64 then 0 else d j) k ty) st)) (\<lambda>st.
              bnd (brelse p bp st) (\<lambda>st.
              bnd (iget dev (of_nat n) st) (\<lambda>(i, st). Ok (Some i, st))))
            else bnd (brelse p bp st) (\<lambda>st. ialloc_from p dev ty (n + 1) limit st))
      else Ok (None, st))"
  by pat_completeness auto
termination by (relation "measure (\<lambda>(_, _, _, n, limit, _). unat limit - n)") auto

declare ialloc_from.simps [simp del]

definition ialloc :: "int \<Rightarrow> u32 \<Rightarrow> u16 \<Rightarrow> 'a fstate_scheme \<Rightarrow> (nat option \<times> 'a fstate_scheme) res" where
  "ialloc p dev ty st = ialloc_from p dev ty 1 (ninodes (sb st)) st"

definition iupdate :: "int \<Rightarrow> nat \<Rightarrow> 'a fstate_scheme \<Rightarrow> 'a fstate_scheme res" where
  "iupdate p i st =
     bnd (bread p (idev (itable st i)) (IBLOCK (inum (itable st i)) (sb st)) st) (\<lambda>(bp, st).
     bnd (log_write bp (set_data bp (put_dinode (dinode_off (inum (itable st i))) (itable st i)) st)) (\<lambda>st.
       brelse p bp st))"

definition idup :: "nat \<Rightarrow> 'a fstate_scheme \<Rightarrow> nat \<times> 'a fstate_scheme" where
  "idup i st = (i, upd_inode i (\<lambda>ip. ip\<lparr>iref := iref ip + 1\<rparr>) st)"

definition ilock :: "int \<Rightarrow> nat option \<Rightarrow> 'a fstate_scheme \<Rightarrow> 'a fstate_scheme res" where
  "ilock p ipp st =
     (case ipp of
        None \<Rightarrow> Err (Panic ''ilock'')
      | Some i \<Rightarrow>
          if iref (itable st i) < 1 then Err (Panic ''ilock'')
          else
            bnd (acquiresleep p (ilk (itable st i))) (\<lambda>l.
              let st = upd_inode i (\<lambda>ip. ip\<lparr>ilk := l\<rparr>) st in
              if ivalid (itable st i) then Ok st
              else
                bnd (bread p (idev (itable st i)) (IBLOCK (inum (itable st i)) (sb st)) st) (\<lambda>(bp, st).
                  let st = upd_inode i (get_dinode (dinode_off (inum (itable st i))) (bdata (bufs st bp))) st in
                  bnd (brelse p bp st) (\<lambda>st.
                    let st = upd_inode i (\<lambda>ip. ip\<lparr>ivalid := True\<rparr>) st in
                    if itype (itable st i) = 0 then Err (Panic ''ilock: no type'') else Ok st))))"

definition iunlock :: "int \<Rightarrow> nat option \<Rightarrow> 'a fstate_scheme \<Rightarrow> 'a fstate_scheme res" where
  "iunlock p ipp st =
     (case ipp of
        None \<Rightarrow> Err (Panic ''iunlock'')
      | Some i \<Rightarrow>
          if \<not> holdingsleep p (ilk (itable st i)) \<or> iref (itable st i) < 1 then Err (Panic ''iunlock'')
          else Ok (upd_inode i (\<lambda>ip. ip\<lparr>ilk := releasesleep (ilk ip)\<rparr>) st))"

subsection \<open>Inode content\<close>

definition set_addr :: "nat \<Rightarrow> nat \<Rightarrow> u32 \<Rightarrow> 'a fstate_scheme \<Rightarrow> 'a fstate_scheme" where
  "set_addr i j a st = upd_inode i (\<lambda>ip. ip\<lparr>addrs := (addrs ip)[j := a]\<rparr>) st"

text \<open>The block of an entry of \<open>ip->addrs\<close>, allocated if there is none.\<close>

definition addr_or_alloc :: "int \<Rightarrow> nat \<Rightarrow> nat \<Rightarrow> 'a fstate_scheme \<Rightarrow> (u32 \<times> 'a fstate_scheme) res" where
  "addr_or_alloc p i j st =
     (let addr = addrs (itable st i) ! j in
      if addr = 0 then
        bnd (balloc p (idev (itable st i)) st) (\<lambda>(addr, st).
          Ok (addr, if addr = 0 then st else set_addr i j addr st))
      else Ok (addr, st))"

definition bmap :: "int \<Rightarrow> nat \<Rightarrow> nat \<Rightarrow> 'a fstate_scheme \<Rightarrow> (u32 \<times> 'a fstate_scheme) res" where
  "bmap p i bn st =
     (if bn < NDIRECT then addr_or_alloc p i bn st
      else if bn - NDIRECT < NINDIRECT then
        bnd (addr_or_alloc p i NDIRECT st) (\<lambda>(addr, st).
          if addr = 0 then Ok (0, st)
          else
            bnd (bread p (idev (itable st i)) addr st) (\<lambda>(bp, st).
              let addr = get32 (bdata (bufs st bp)) (4 * (bn - NDIRECT)) in
              bnd (if addr = 0 then
                     bnd (balloc p (idev (itable st i)) st) (\<lambda>(addr, st).
                       if addr = 0 then Ok (addr, st)
                       else bnd (log_write bp (set_data bp (\<lambda>d. put32 d (4 * (bn - NDIRECT)) addr) st)) (\<lambda>st.
                         Ok (addr, st)))
                   else Ok (addr, st)) (\<lambda>(addr, st).
              bnd (brelse p bp st) (\<lambda>st. Ok (addr, st)))))
      else Err (Panic ''bmap: out of range''))"

text \<open>The two loops of \<open>itrunc\<close>.\<close>

fun itrunc_direct :: "int \<Rightarrow> nat \<Rightarrow> nat list \<Rightarrow> 'a fstate_scheme \<Rightarrow> 'a fstate_scheme res" where
  "itrunc_direct p i [] st = Ok st"
| "itrunc_direct p i (j # js) st =
     bnd (if addrs (itable st i) ! j \<noteq> 0 then
            bnd (bfree p (idev (itable st i)) (addrs (itable st i) ! j) st) (\<lambda>st. Ok (set_addr i j 0 st))
          else Ok st) (itrunc_direct p i js)"

fun itrunc_indirect :: "int \<Rightarrow> nat \<Rightarrow> nat \<Rightarrow> nat list \<Rightarrow> 'a fstate_scheme \<Rightarrow> 'a fstate_scheme res" where
  "itrunc_indirect p i bp [] st = Ok st"
| "itrunc_indirect p i bp (j # js) st =
     bnd (let a = get32 (bdata (bufs st bp)) (4 * j) in
          if a \<noteq> 0 then bfree p (idev (itable st i)) a st else Ok st) (itrunc_indirect p i bp js)"

definition itrunc :: "int \<Rightarrow> nat \<Rightarrow> 'a fstate_scheme \<Rightarrow> 'a fstate_scheme res" where
  "itrunc p i st =
     bnd (itrunc_direct p i [0..<NDIRECT] st) (\<lambda>st.
     bnd (if addrs (itable st i) ! NDIRECT \<noteq> 0 then
            bnd (bread p (idev (itable st i)) (addrs (itable st i) ! NDIRECT) st) (\<lambda>(bp, st).
            bnd (itrunc_indirect p i bp [0..<NINDIRECT] st) (\<lambda>st.
            bnd (brelse p bp st) (\<lambda>st.
            bnd (bfree p (idev (itable st i)) (addrs (itable st i) ! NDIRECT) st) (\<lambda>st.
              Ok (set_addr i NDIRECT 0 st)))))
          else Ok st) (\<lambda>st.
       iupdate p i (upd_inode i (\<lambda>ip. ip\<lparr>isize := 0\<rparr>) st)))"

definition iput :: "int \<Rightarrow> nat \<Rightarrow> 'a fstate_scheme \<Rightarrow> 'a fstate_scheme res" where
  "iput p i st =
     bnd (if iref (itable st i) = 1 \<and> ivalid (itable st i) \<and> nlink (itable st i) = 0 then
            bnd (acquiresleep p (ilk (itable st i))) (\<lambda>l.
            bnd (itrunc p i (upd_inode i (\<lambda>ip. ip\<lparr>ilk := l\<rparr>) st)) (\<lambda>st.
            bnd (iupdate p i (upd_inode i (\<lambda>ip. ip\<lparr>itype := 0\<rparr>) st)) (\<lambda>st.
              Ok (upd_inode i (\<lambda>ip. ip\<lparr>ivalid := False, ilk := releasesleep (ilk ip)\<rparr>) st))))
          else Ok st) (\<lambda>st.
       Ok (upd_inode i (\<lambda>ip. ip\<lparr>iref := iref ip - 1\<rparr>) st))"

definition iunlockput :: "int \<Rightarrow> nat \<Rightarrow> 'a fstate_scheme \<Rightarrow> 'a fstate_scheme res" where
  "iunlockput p i st = bnd (iunlock p (Some i) st) (iput p i)"

definition stati :: "nat \<Rightarrow> 'a fstate_scheme \<Rightarrow> stat" where
  "stati i st =
     (let ip = itable st i in
      \<lparr>st_dev = idev ip, st_ino = inum ip, st_type = itype ip, st_nlink = nlink ip, st_size = ucast (isize ip)\<rparr>)"

text \<open>The loop of \<open>readi\<close>: \<open>n\<close> is the clipped count; \<open>cout tot m\<close> says whether the copy of \<open>m\<close>
  bytes to the caller's buffer at \<open>tot\<close> succeeds. The result is the returned count and the bytes
  of the completed copies. After the test for wrap-around all values are below \<open>2^32\<close>.\<close>

function readi_loop ::
  "int \<Rightarrow> (nat \<Rightarrow> nat \<Rightarrow> bool) \<Rightarrow> nat \<Rightarrow> nat \<Rightarrow> nat \<Rightarrow> nat \<Rightarrow> 'a fstate_scheme \<Rightarrow> (int \<times> u8 list \<times> 'a fstate_scheme) res" where
  "readi_loop p cout i off tot n st =
     (if tot < n then
        bnd (bmap p i (off div BSIZE) st) (\<lambda>(addr, st).
          if addr = 0 then Ok (int tot, [], st)
          else
            bnd (bread p (idev (itable st i)) addr st) (\<lambda>(bp, st).
              let m = min (n - tot) (BSIZE - off mod BSIZE) in
              if \<not> cout tot m then bnd (brelse p bp st) (\<lambda>st. Ok (- 1, [], st))
              else
                let chunk = map (\<lambda>j. bdata (bufs st bp) (off mod BSIZE + j)) [0..<m] in
                bnd (brelse p bp st) (\<lambda>st.
                bnd (readi_loop p cout i (off + m) (tot + m) n st) (\<lambda>(r, bs, st). Ok (r, chunk @ bs, st)))))
      else Ok (int tot, [], st))"
  by pat_completeness auto
termination by (relation "measure (\<lambda>(_, _, _, _, tot, n, _). n - tot)") auto

declare readi_loop.simps [simp del]

definition readi ::
  "int \<Rightarrow> (nat \<Rightarrow> nat \<Rightarrow> bool) \<Rightarrow> nat \<Rightarrow> u32 \<Rightarrow> u32 \<Rightarrow> 'a fstate_scheme \<Rightarrow> (int \<times> u8 list \<times> 'a fstate_scheme) res" where
  "readi p cout i off n st =
     (let size = isize (itable st i) in
      if size < off \<or> off + n < off then Ok (0, [], st)
      else readi_loop p cout i (unat off) 0 (unat (if size < off + n then size - off else n)) st)"

text \<open>The loop of \<open>writei\<close>: \<open>cin tot m\<close> is what a copy of \<open>m\<close> bytes from the caller's buffer at
  \<open>tot\<close> stores, and whether it succeeds; a copy that fails may have stored some of the bytes. The
  result is the count and the final offset.\<close>

definition overlay :: "nat \<Rightarrow> u8 list \<Rightarrow> block \<Rightarrow> block" where
  "overlay k bs d = (\<lambda>j. if k \<le> j \<and> j < k + length bs then bs ! (j - k) else d j)"

function writei_loop ::
  "int \<Rightarrow> (nat \<Rightarrow> nat \<Rightarrow> u8 list \<times> bool) \<Rightarrow> nat \<Rightarrow> nat \<Rightarrow> nat \<Rightarrow> nat \<Rightarrow> 'a fstate_scheme \<Rightarrow> (nat \<times> nat \<times> 'a fstate_scheme) res" where
  "writei_loop p cin i off tot n st =
     (if tot < n then
        bnd (bmap p i (off div BSIZE) st) (\<lambda>(addr, st).
          if addr = 0 then Ok (tot, off, st)
          else
            bnd (bread p (idev (itable st i)) addr st) (\<lambda>(bp, st).
              let m = min (n - tot) (BSIZE - off mod BSIZE);
                  st = set_data bp (overlay (off mod BSIZE) (take m (fst (cin tot m)))) st in
              if \<not> snd (cin tot m) then bnd (brelse p bp st) (\<lambda>st. Ok (tot, off, st))
              else
                bnd (log_write bp st) (\<lambda>st.
                bnd (brelse p bp st) (\<lambda>st.
                  writei_loop p cin i (off + m) (tot + m) n st))))
      else Ok (tot, off, st))"
  by pat_completeness auto
termination by (relation "measure (\<lambda>(_, _, _, _, tot, n, _). n - tot)") auto

declare writei_loop.simps [simp del]

definition writei ::
  "int \<Rightarrow> (nat \<Rightarrow> nat \<Rightarrow> u8 list \<times> bool) \<Rightarrow> nat \<Rightarrow> u32 \<Rightarrow> u32 \<Rightarrow> 'a fstate_scheme \<Rightarrow> (int \<times> 'a fstate_scheme) res" where
  "writei p cin i off n st =
     (if isize (itable st i) < off \<or> off + n < off then Ok (- 1, st)
      else if MAXFILE * BSIZE < unat (off + n) then Ok (- 1, st)
      else
        bnd (writei_loop p cin i (unat off) 0 (unat n) st) (\<lambda>(tot, off, st).
          let st = (if unat (isize (itable st i)) < off then upd_inode i (\<lambda>ip. ip\<lparr>isize := of_nat off\<rparr>) st else st) in
          bnd (iupdate p i st) (\<lambda>st. Ok (int tot, st))))"

subsection \<open>Directories\<close>

text \<open>A name is the view of a buffer of at least \<open>DIRSIZ\<close> bytes.\<close>

definition namecmp :: "(nat \<Rightarrow> u8) \<Rightarrow> (nat \<Rightarrow> u8) \<Rightarrow> int" where
  "namecmp s t = strncmp s t DIRSIZ"

text \<open>A kernel buffer is always there.\<close>

definition kout :: "nat \<Rightarrow> nat \<Rightarrow> bool" where
  "kout tot m = True"

definition kin :: "u8 list \<Rightarrow> nat \<Rightarrow> nat \<Rightarrow> u8 list \<times> bool" where
  "kin bs tot m = (take m (drop tot bs), True)"

text \<open>The offsets of the entries: the loops over a directory leave its size alone.\<close>

definition dir_offsets :: "u32 \<Rightarrow> nat list" where
  "dir_offsets sz = map (\<lambda>k. 16 * k) [0..<(unat sz + 15) div 16]"

fun dirlookup_loop ::
  "int \<Rightarrow> nat \<Rightarrow> (nat \<Rightarrow> u8) \<Rightarrow> nat list \<Rightarrow> 'a fstate_scheme \<Rightarrow> ((nat \<times> nat) option \<times> 'a fstate_scheme) res" where
  "dirlookup_loop p dp name [] st = Ok (None, st)"
| "dirlookup_loop p dp name (off # offs) st =
     bnd (readi p kout dp (of_nat off) 16 st) (\<lambda>(r, de, st).
       if r \<noteq> 16 then Err (Panic ''dirlookup read'')
       else if get16 (\<lambda>j. de ! j) 0 = 0 then dirlookup_loop p dp name offs st
       else if namecmp name (\<lambda>j. de ! (j + 2)) = 0 then
         bnd (iget (idev (itable st dp)) (ucast (get16 (\<lambda>j. de ! j) 0)) st) (\<lambda>(i, st). Ok (Some (i, off), st))
       else dirlookup_loop p dp name offs st)"

text \<open>The result carries the inode and the offset of its entry, \<open>*poff\<close>.\<close>

definition dirlookup ::
  "int \<Rightarrow> nat \<Rightarrow> (nat \<Rightarrow> u8) \<Rightarrow> 'a fstate_scheme \<Rightarrow> ((nat \<times> nat) option \<times> 'a fstate_scheme) res" where
  "dirlookup p dp name st =
     (if itype (itable st dp) \<noteq> T_DIR then Err (Panic ''dirlookup not DIR'')
      else dirlookup_loop p dp name (dir_offsets (isize (itable st dp))) st)"

fun find_empty :: "int \<Rightarrow> nat \<Rightarrow> nat list \<Rightarrow> nat \<Rightarrow> 'a fstate_scheme \<Rightarrow> (nat \<times> 'a fstate_scheme) res" where
  "find_empty p dp [] fin st = Ok (fin, st)"
| "find_empty p dp (off # offs) fin st =
     bnd (readi p kout dp (of_nat off) 16 st) (\<lambda>(r, de, st).
       if r \<noteq> 16 then Err (Panic ''dirlink read'')
       else if get16 (\<lambda>j. de ! j) 0 = 0 then Ok (off, st)
       else find_empty p dp offs fin st)"

definition dirent_bytes :: "u16 \<Rightarrow> (nat \<Rightarrow> u8) \<Rightarrow> u8 list" where
  "dirent_bytes n name = le_bytes 2 n @ (let c = cstr name DIRSIZ in c @ replicate (DIRSIZ - length c) 0)"

definition dirlink :: "int \<Rightarrow> nat \<Rightarrow> (nat \<Rightarrow> u8) \<Rightarrow> u32 \<Rightarrow> 'a fstate_scheme \<Rightarrow> (int \<times> 'a fstate_scheme) res" where
  "dirlink p dp name n st =
     bnd (dirlookup p dp name st) (\<lambda>(found, st).
       case found of
         Some (ip, _) \<Rightarrow> bnd (iput p ip st) (\<lambda>st. Ok (- 1, st))
       | None \<Rightarrow>
           let offs = dir_offsets (isize (itable st dp)) in
           bnd (find_empty p dp offs (16 * length offs) st) (\<lambda>(off, st).
           bnd (writei p (kin (dirent_bytes (ucast n) name)) dp (of_nat off) 16 st) (\<lambda>(r, st).
             Ok (if r \<noteq> 16 then - 1 else 0, st))))"

subsection \<open>Paths\<close>

text \<open>A path is the list of its bytes before the NUL. The result is the rest of the path and the
  new content of the name buffer.\<close>

definition skipelem :: "u8 list \<Rightarrow> (nat \<Rightarrow> u8) \<Rightarrow> (u8 list \<times> (nat \<Rightarrow> u8)) option" where
  "skipelem path name =
     (let s = dropWhile (\<lambda>c. c = 47) path in
      if s = [] then None
      else
        let e = takeWhile (\<lambda>c. c \<noteq> 47) s; len = length e;
            name = (if DIRSIZ \<le> len then overlay 0 (take DIRSIZ e) name else (overlay 0 e name)(len := 0))
        in Some (dropWhile (\<lambda>c. c = 47) (dropWhile (\<lambda>c. c \<noteq> 47) s), name))"

lemma skipelem_shorter: "skipelem path name = Some (rest, name') \<Longrightarrow> length rest < length path"
proof -
  assume s: "skipelem path name = Some (rest, name')"
  define t where "t = dropWhile (\<lambda>c. c = 47) path"
  have t: "t \<noteq> []" "rest = dropWhile (\<lambda>c. c = 47) (dropWhile (\<lambda>c. c \<noteq> 47) t)"
    using s by (auto simp: skipelem_def Let_def t_def split: if_splits)
  have "hd t \<noteq> 47" using t(1) hd_dropWhile [of "\<lambda>c. c = 47" path] by (auto simp: t_def)
  then have "length (dropWhile (\<lambda>c. c \<noteq> 47) t) < length t"
    using t(1) by (cases t) (auto simp: less_Suc_eq_le length_dropWhile_le)
  then show ?thesis
    using t(2) length_dropWhile_le [of "\<lambda>c. c = 47" "dropWhile (\<lambda>c. c \<noteq> 47) t"] length_dropWhile_le [of "\<lambda>c. c = 47" path]
    by (simp add: t_def)
qed

function namex_loop ::
  "int \<Rightarrow> u8 list \<Rightarrow> bool \<Rightarrow> (nat \<Rightarrow> u8) \<Rightarrow> nat \<Rightarrow> 'a fstate_scheme \<Rightarrow> (nat option \<times> (nat \<Rightarrow> u8) \<times> 'a fstate_scheme) res" where
  "namex_loop p path par name ip st =
     (case skipelem path name of
        None \<Rightarrow>
          if par then bnd (iput p ip st) (\<lambda>st. Ok (None, name, st))
          else Ok (Some ip, name, st)
      | Some (path, name) \<Rightarrow>
          bnd (ilock p (Some ip) st) (\<lambda>st.
            if itype (itable st ip) \<noteq> T_DIR then bnd (iunlockput p ip st) (\<lambda>st. Ok (None, name, st))
            else if par \<and> path = [] then bnd (iunlock p (Some ip) st) (\<lambda>st. Ok (Some ip, name, st))
            else
              bnd (dirlookup p ip name st) (\<lambda>(next, st).
                case next of
                  None \<Rightarrow> bnd (iunlockput p ip st) (\<lambda>st. Ok (None, name, st))
                | Some (ip', _) \<Rightarrow> bnd (iunlockput p ip st) (\<lambda>st. namex_loop p path par name ip' st))))"
  by pat_completeness auto
termination by (relation "measure (\<lambda>(_, path, _). length path)") (auto dest: skipelem_shorter)

declare namex_loop.simps [simp del]

text \<open>\<open>cwd\<close> is the current directory of the calling process.\<close>

definition namex ::
  "int \<Rightarrow> nat \<Rightarrow> u8 list \<Rightarrow> bool \<Rightarrow> (nat \<Rightarrow> u8) \<Rightarrow> 'a fstate_scheme \<Rightarrow> (nat option \<times> (nat \<Rightarrow> u8) \<times> 'a fstate_scheme) res" where
  "namex p cwd path par name st =
     bnd (if path \<noteq> [] \<and> hd path = 47 then iget ROOTDEV ROOTINO st else Ok (idup cwd st)) (\<lambda>(ip, st).
       namex_loop p path par name ip st)"

definition namei :: "int \<Rightarrow> nat \<Rightarrow> u8 list \<Rightarrow> 'a fstate_scheme \<Rightarrow> (nat option \<times> 'a fstate_scheme) res" where
  "namei p cwd path st = bnd (namex p cwd path False (\<lambda>_. 0) st) (\<lambda>(ip, _, st). Ok (ip, st))"

definition nameiparent ::
  "int \<Rightarrow> nat \<Rightarrow> u8 list \<Rightarrow> (nat \<Rightarrow> u8) \<Rightarrow> 'a fstate_scheme \<Rightarrow> (nat option \<times> (nat \<Rightarrow> u8) \<times> 'a fstate_scheme) res" where
  "nameiparent p cwd path name st = namex p cwd path True name st"

subsection \<open>Transactions\<close>

text \<open>A process that can log \<open>k\<close> more blocks: it holds at most three buffers, every block that is
  not logged is as on the disk, and the log and the cache have room.\<close>

definition tx_can :: "int \<Rightarrow> u32 set \<Rightarrow> int \<Rightarrow> 'a lstate_scheme \<Rightarrow> bool" where
  "tx_can p H k st \<longleftrightarrow> tx_held p H st \<and> finite H \<and> card H \<le> 3 \<and> 1 \<le> outstanding st \<and> 0 \<le> k \<and>
     lhn st + k \<le> 26 \<and> lhn st + k < lsize st \<and>
     (\<forall>m. m \<notin> logged st \<longrightarrow> acont (bview_of st) m = disk st m)"

text \<open>The state after some steps: the cache shows the contents \<open>c\<close>, the part of the state above the
  log is \<open>x\<close>, the disk is untouched and the blocks \<open>H\<close> are where they were.\<close>

definition tx_keep ::
  "u32 set \<Rightarrow> (u32 \<Rightarrow> block) \<Rightarrow> 'a \<Rightarrow> 'a lstate_scheme \<Rightarrow> 'a lstate_scheme \<Rightarrow> bool" where
  "tx_keep H c x st s \<longleftrightarrow> acont (bview_of s) = c \<and> lstate.more s = x \<and>
     lstart s = lstart st \<and> disk s = disk st \<and> writes s = writes st \<and> outstanding s = outstanding st \<and>
     committing s = committing st \<and> lsize s = lsize st \<and> logged st \<subseteq> logged s \<and> (\<forall>b m. m \<in> H \<and> cached_at st b m \<longrightarrow> cached_at s b m)"

definition tx_post ::
  "int \<Rightarrow> u32 set \<Rightarrow> int \<Rightarrow> (u32 \<Rightarrow> block) \<Rightarrow> 'a \<Rightarrow> 'a lstate_scheme \<Rightarrow> 'a lstate_scheme \<Rightarrow> bool" where
  "tx_post p H k c x st s \<longleftrightarrow> tx_can p H k s \<and> tx_keep H c x st s"

lemma tx_keep_trans:
  "tx_keep H' c x st s \<Longrightarrow> H \<subseteq> H' \<Longrightarrow> tx_keep H c' x' s s' \<Longrightarrow> tx_keep H c' x' st s'"
  by (auto simp: tx_keep_def)

lemma tx_post_trans:
  "tx_post p H' k c x st s \<Longrightarrow> H \<subseteq> H' \<Longrightarrow> tx_post p H k' c' x' s s' \<Longrightarrow> tx_post p H k' c' x' st s'"
  by (auto simp: tx_post_def intro: tx_keep_trans)

lemma tx_can_mono: "tx_can p H k st \<Longrightarrow> 0 \<le> j \<Longrightarrow> j \<le> k \<Longrightarrow> tx_can p H j st"
  by (auto simp: tx_can_def)

lemma tx_post_can: "tx_post p H k c x st s \<Longrightarrow> tx_can p H k s"
  by (simp add: tx_post_def)

lemma tx_can_room: "tx_can p H k st \<Longrightarrow> card H < 3 \<Longrightarrow> card (logged st \<union> H) < NBUF"
proof -
  assume a: "tx_can p H k st" "card H < 3"
  have "card (logged st) \<le> nat (lhn st)"
    unfolding logged_def by (rule order_trans [OF card_length]) simp
  moreover have "lhn st \<le> 26" "0 \<le> lhn st" using a(1) by (auto simp: tx_can_def tx_held_def)
  moreover have "card (logged st \<union> H) \<le> card (logged st) + card H" by (rule card_Un_le)
  ultimately show ?thesis using a(2) by linarith
qed

lemma tx_rd:
  fixes st :: "'a lstate_scheme"
  assumes can: "tx_can p H k st" and n: "n \<notin> H" "card H < 3"
  shows "\<exists>b s. bread p ROOTDEV n st = Ok (b, s) \<and> cached_at s b n \<and> bdata (bufs s b) = acont (bview_of st) n \<and>
    tx_can p (insert n H) k s \<and> tx_keep H (acont (bview_of st)) (lstate.more st) st s"
proof -
  have tx: "tx_held p H st" and fin: "finite H" using can by (simp_all add: tx_can_def)
  obtain b and s :: "'a lstate_scheme" where b: "bread p ROOTDEV n st = Ok (b, s)" "tx_held p (insert n H) s" "cached_at s b n"
    "bdata (bufs s b) = acont (bview_of st) n" "acont (bview_of s) = acont (bview_of st)" "tx_frame H st s"
    using tx_bread [OF tx n(1) tx_can_room [OF can n(2)]] by blast
  have l: "log_part s = log_part st" "disk s = disk st" "writes s = writes st"
    "\<forall>c m. m \<in> H \<and> cached_at st c m \<longrightarrow> cached_at s c m" using b(6) by (simp_all add: tx_frame_def)
  have m: "lstate.more s = lstate.more st" using l(1) by (simp add: log_part_def)
  have "tx_can p (insert n H) k s"
    using can b(2,5) l(2) n fin log_part_eq [OF l(1)] by (simp add: tx_can_def logged_def card_insert_if)
  moreover have "tx_keep H (acont (bview_of st)) (lstate.more st) st s"
    using b(5) l m log_part_eq [OF l(1)] by (simp add: tx_keep_def logged_def)
  ultimately show ?thesis using b by blast
qed

lemma tx_wr:
  fixes st :: "'a lstate_scheme"
  assumes can: "tx_can p H k st" and k: "1 \<le> k" and n: "n \<in> H" "cached_at st b n" "n \<notin> logarea (lstart st)"
  shows "\<exists>s. log_write b (set_data b f st) = Ok s \<and> cached_at s b n \<and> n \<in> logged s \<and>
    tx_post p H (k - 1) ((acont (bview_of st))(n := f (acont (bview_of st) n))) (lstate.more st) st s"
proof -
  have tx: "tx_held p H st" using can by (simp add: tx_can_def)
  note r = tx_held_refs [OF tx]
  have bd: "bdata (bufs st b) = acont (bview_of st) n"
    using cached_data [OF _ n(2) r(4) [OF n(1)]] tx by (simp add: tx_held_def)
  define s0 where "s0 = upd_buf b (\<lambda>x. x\<lparr>bdata := f (acont (bview_of st) n)\<rparr>) st"
  have sd: "set_data b f st = s0" by (simp add: set_data_def s0_def upd_buf_def bd)
  note s0 = tx_set_data [OF tx n(1,2), of "f (acont (bview_of st) n)", folded s0_def]
  have l0: "log_part s0 = log_part st" "disk s0 = disk st" "writes s0 = writes st"
    "\<forall>c m. m \<in> H \<and> cached_at st c m \<longrightarrow> cached_at s0 c m" using s0(4) by (simp_all add: tx_frame_def)
  note e0 = log_part_eq [OF l0(1)]
  have m0: "lstate.more s0 = lstate.more st" "logged s0 = logged st" using l0(1) by (simp_all add: log_part_def logged_def)
  have room: "lhn s0 < int LOGSIZE - 1" "lhn s0 < lsize s0 - 1" "1 \<le> outstanding s0" "n \<notin> logarea (lstart s0)"
    using can k n(3) e0 by (auto simp: tx_can_def)
  obtain s :: "'a lstate_scheme" where s: "log_write b s0 = Ok s" "tx_held p H s" "logged s = insert n (logged s0)"
    "acont (bview_of s) = acont (bview_of s0)" "disk s = disk s0" "writes s = writes s0"
    "\<forall>c m. m \<in> H \<and> cached_at s0 c m \<longrightarrow> cached_at s c m" "lhn s \<le> lhn s0 + 1"
    "lstart s = lstart s0" "lsize s = lsize s0" "outstanding s = outstanding s0" "lstate.more s = lstate.more s0"
    "committing s = committing s0"
    using tx_log_write [OF s0(1) n(1) s0(2) room(4,1,2,3)] by blast
  have clean: "\<forall>m. m \<notin> logged s \<longrightarrow> acont (bview_of s) m = disk s m"
    using can s(3-5) s0(3) l0(2) m0(2) by (auto simp: tx_can_def)
  have "tx_can p H (k - 1) s"
    using can k s(2,8,10,11) e0 clean by (auto simp: tx_can_def)
  moreover have "tx_keep H ((acont (bview_of st))(n := f (acont (bview_of st) n))) (lstate.more st) st s"
    using s l0 e0 m0 s0(3) by (auto simp: tx_keep_def)
  moreover have "cached_at s b n" using s(7) s0(2) n(1) by blast
  ultimately show ?thesis using s(1,3) by (auto simp: sd tx_post_def)
qed

lemma tx_rel:
  fixes st :: "'a lstate_scheme"
  assumes can: "tx_can p H k st" and n: "n \<in> H" "cached_at st b n"
  shows "\<exists>s. brelse p b st = Ok s \<and> tx_post p (H - {n}) k (acont (bview_of st)) (lstate.more st) st s"
proof -
  have tx: "tx_held p H st" and fin: "finite H" and c: "n \<in> logged st \<or> acont (bview_of st) n = disk st n"
    using can by (auto simp: tx_can_def)
  obtain s :: "'a lstate_scheme" where s: "brelse p b st = Ok s" "tx_held p (H - {n}) s" "acont (bview_of s) = acont (bview_of st)"
    "tx_frame (H - {n}) st s"
    using tx_brelse [OF tx n c] by blast
  have l: "log_part s = log_part st" "disk s = disk st" "writes s = writes st"
    "\<forall>c m. m \<in> H - {n} \<and> cached_at st c m \<longrightarrow> cached_at s c m" using s(4) by (simp_all add: tx_frame_def)
  have m: "lstate.more s = lstate.more st" using l(1) by (simp add: log_part_def)
  have "tx_can p (H - {n}) k s"
    using can s(2,3) l(2) fin n(1) log_part_eq [OF l(1)] by (auto simp: tx_can_def logged_def card_Diff_singleton_if)
  moreover have "tx_keep (H - {n}) (acont (bview_of st)) (lstate.more st) st s"
    using s(3) l m log_part_eq [OF l(1)] by (simp add: tx_keep_def logged_def)
  ultimately show ?thesis using s(1) by (auto simp: tx_post_def)
qed

text \<open>A block that is read and released, or read, changed, logged and released.\<close>

lemma tx_open:
  fixes st :: "'a lstate_scheme"
  assumes can: "tx_can p H k st" and n: "n \<notin> H" "card H < 3"
  shows "\<exists>b s1. bread p ROOTDEV n st = Ok (b, s1) \<and> bdata (bufs s1 b) = acont (bview_of st) n \<and> lstate.more s1 = lstate.more st \<and>
    (\<exists>s2. brelse p b s1 = Ok s2 \<and> tx_post p H k (acont (bview_of st)) (lstate.more st) st s2) \<and>
    (1 \<le> k \<and> n \<notin> logarea (lstart st) \<longrightarrow> (\<forall>f. \<exists>s2 s3. log_write b (set_data b f s1) = Ok s2 \<and> brelse p b s2 = Ok s3 \<and>
      lstate.more s2 = lstate.more st \<and>
      tx_post p H (k - 1) ((acont (bview_of st))(n := f (acont (bview_of st) n))) (lstate.more st) st s3))"
proof -
  obtain b and s1 :: "'a lstate_scheme" where b: "bread p ROOTDEV n st = Ok (b, s1)" "cached_at s1 b n"
    "bdata (bufs s1 b) = acont (bview_of st) n" "tx_can p (insert n H) k s1"
    "tx_keep H (acont (bview_of st)) (lstate.more st) st s1"
    using tx_rd [OF can n] by blast
  have hn: "insert n H - {n} = H" using n(1) by simp
  have a1: "acont (bview_of s1) = acont (bview_of st)" "lstate.more s1 = lstate.more st" "lstart s1 = lstart st"
    using b(5) by (simp_all add: tx_keep_def)
  have r: "\<exists>s2. brelse p b s1 = Ok s2 \<and> tx_post p H k (acont (bview_of st)) (lstate.more st) st s2"
    using tx_rel [OF b(4) _ b(2)] b(5) a1 hn by (auto simp: tx_post_def intro: tx_keep_trans)
  have "\<exists>s2 s3. log_write b (set_data b f s1) = Ok s2 \<and> brelse p b s2 = Ok s3 \<and> lstate.more s2 = lstate.more st \<and>
      tx_post p H (k - 1) ((acont (bview_of st))(n := f (acont (bview_of st) n))) (lstate.more st) st s3"
    if k: "1 \<le> k" "n \<notin> logarea (lstart st)" for f
  proof -
    obtain s2 :: "'a lstate_scheme" where s2: "log_write b (set_data b f s1) = Ok s2" "cached_at s2 b n"
      "tx_post p (insert n H) (k - 1) ((acont (bview_of st))(n := f (acont (bview_of st) n))) (lstate.more st) s1 s2"
      using tx_wr [OF b(4) k(1) _ b(2), of f] k(2) a1 by auto
    have a2: "acont (bview_of s2) = (acont (bview_of st))(n := f (acont (bview_of st) n))" "lstate.more s2 = lstate.more st"
      using s2(3) by (simp_all add: tx_post_def tx_keep_def)
    obtain s3 :: "'a lstate_scheme" where s3: "brelse p b s2 = Ok s3"
      "tx_post p H (k - 1) ((acont (bview_of st))(n := f (acont (bview_of st) n))) (lstate.more st) s2 s3"
      using tx_rel [OF tx_post_can [OF s2(3)] _ s2(2)] a2 hn by auto
    have "tx_keep H ((acont (bview_of st))(n := f (acont (bview_of st) n))) (lstate.more st) st s2"
      using b(5) s2(3) tx_keep_trans [of "insert n H" _ _ s1 s2] by (auto simp: tx_post_def tx_keep_def)
    with s3(2) have "tx_post p H (k - 1) ((acont (bview_of st))(n := f (acont (bview_of st) n))) (lstate.more st) st s3"
      by (auto simp: tx_post_def intro: tx_keep_trans)
    with s2(1) s3(1) a2(2) show ?thesis by blast
  qed
  with b(1,3) a1(2) r show ?thesis by blast
qed

lemma tx_upd:
  fixes st :: "'a lstate_scheme"
  assumes "tx_can p H k st" "n \<notin> H" "card H < 3" "1 \<le> k" "n \<notin> logarea (lstart st)"
  obtains b s1 s2 s3 where "bread p ROOTDEV n st = Ok (b, s1)" "bdata (bufs s1 b) = acont (bview_of st) n"
    "lstate.more s1 = lstate.more st" "log_write b (set_data b f s1) = Ok s2" "brelse p b s2 = Ok s3"
    "tx_post p H (k - 1) ((acont (bview_of st))(n := f (acont (bview_of st) n))) (lstate.more st) st s3"
  using tx_open [OF assms(1-3)] assms(4,5) by blast

subsection \<open>The block allocator\<close>

lemma bit_used_iff: "bit_used d bi \<longleftrightarrow> bit (d (bi div 8)) (bi mod 8)"
proof -
  have "d (bi div 8) AND push_bit (bi mod 8) 1 = (if bit (d (bi div 8)) (bi mod 8) then push_bit (bi mod 8) 1 else 0)"
    by (rule bit_eqI) (auto simp: bit_simps)
  moreover have "push_bit (bi mod 8) (1 :: u8) \<noteq> 0"
  proof
    assume "push_bit (bi mod 8) (1 :: u8) = 0"
    then have "\<not> bit (push_bit (bi mod 8) (1 :: u8)) (bi mod 8)" by simp
    then show False by (simp add: bit_simps)
  qed
  ultimately show ?thesis by (simp add: bit_used_def)
qed

lemma div_mod_8_eq: "(i :: nat) div 8 = j div 8 \<Longrightarrow> i mod 8 = j mod 8 \<Longrightarrow> i = j"
  by (metis div_mult_mod_eq)

lemma bit_used_set [simp]: "bit_used (bit_set i d) j \<longleftrightarrow> i = j \<or> bit_used d j"
  by (auto simp: bit_used_iff bit_set_def bit_simps dest: div_mod_8_eq)

lemma bit_used_clear [simp]: "bit_used (bit_clear i d) j \<longleftrightarrow> i \<noteq> j \<and> bit_used d j"
  by (auto simp: bit_used_iff bit_clear_def bit_simps dest: div_mod_8_eq)

lemma bit_clear_set: "\<not> bit_used d i \<Longrightarrow> bit_clear i (bit_set i d) = d"
  by (rule ext, rule bit_eqI) (auto simp: bit_clear_def bit_set_def bit_used_iff bit_simps)

text \<open>The state of block \<open>b\<close> in the bitmap of the contents \<open>c\<close>.\<close>

definition blk_used :: "(u32 \<Rightarrow> block) \<Rightarrow> superblock \<Rightarrow> u32 \<Rightarrow> bool" where
  "blk_used c s b \<longleftrightarrow> bit_used (c (BBLOCK b s)) (unat b mod BPB)"

text \<open>The contents after the allocation and after the release of block \<open>b\<close>.\<close>

definition zeroed :: "block \<Rightarrow> block" where
  "zeroed d = (\<lambda>j. if j < BSIZE then 0 else d j)"

definition alloc_cont :: "superblock \<Rightarrow> u32 \<Rightarrow> (u32 \<Rightarrow> block) \<Rightarrow> u32 \<Rightarrow> block" where
  "alloc_cont s b c = (let c = c(BBLOCK b s := bit_set (unat b mod BPB) (c (BBLOCK b s))) in c(b := zeroed (c b)))"

definition free_cont :: "superblock \<Rightarrow> u32 \<Rightarrow> (u32 \<Rightarrow> block) \<Rightarrow> u32 \<Rightarrow> block" where
  "free_cont s b c = c(BBLOCK b s := bit_clear (unat b mod BPB) (c (BBLOCK b s)))"

lemma fs_more: "lstate.more s = lstate.more st \<Longrightarrow> sb s = sb st \<and> itable s = itable st \<and> fstate.more s = fstate.more st"
  by (cases s; cases st) simp

lemma bzero_ok:
  fixes st :: "'a fstate_scheme"
  assumes "tx_can p H k st" "1 \<le> k" "n \<notin> H" "card H < 3" "n \<notin> logarea (lstart st)"
  shows "\<exists>s. bzero p ROOTDEV n st = Ok s \<and>
    tx_post p H (k - 1) ((acont (bview_of st))(n := zeroed (acont (bview_of st) n))) (lstate.more st) st s"
proof -
  have z: "(\<lambda>d j. if j < BSIZE then 0 else d j) = zeroed" by (simp add: zeroed_def fun_eq_iff)
  show ?thesis
    by (rule tx_upd [OF assms(1,3,4,2,5), of zeroed]) (auto simp: bzero_def z)
qed

lemma BBLOCK_same:
  assumes "BPB dvd b" "bi < BPB" "b + bi < 2 ^ 32"
  shows "BBLOCK (of_nat (b + bi)) s = BBLOCK (of_nat b) s" "unat (of_nat (b + bi) :: u32) mod BPB = bi"
    "unat (of_nat (b + bi) :: u32) = b + bi"
proof -
  show u: "unat (of_nat (b + bi) :: u32) = b + bi" using assms(3) by (simp only: unat_of_nat) (simp add: take_bit_nat_eq_self)
  have u0: "unat (of_nat b :: u32) = b" using assms(3) by (simp add: unat_of_nat take_bit_nat_eq_self)
  obtain q where q: "b = BPB * q" using assms(1) by blast
  show "BBLOCK (of_nat (b + bi)) s = BBLOCK (of_nat b) s"
    unfolding BBLOCK_def u u0 using assms(2) by (simp add: q)
  show "unat (of_nat (b + bi) :: u32) mod BPB = bi" unfolding u using assms(2) by (simp add: q)
qed

text \<open>Where the bitmap may be and which blocks may be handed out, for a process that holds \<open>H\<close>.\<close>

definition alloc_ok :: "u32 set \<Rightarrow> 'a fstate_scheme \<Rightarrow> bool" where
  "alloc_ok H st \<longleftrightarrow> unat (sb_size (sb st)) < 2 ^ 31 \<and>
     (\<forall>b. b < sb_size (sb st) \<longrightarrow> BBLOCK b (sb st) \<notin> H \<union> logarea (lstart st) \<and>
        (blk_used (acont (bview_of st)) (sb st) b \<or> b \<notin> H \<union> logarea (lstart st)))"

definition bitmap_full :: "(u32 \<Rightarrow> block) \<Rightarrow> superblock \<Rightarrow> bool" where
  "bitmap_full c s \<longleftrightarrow> (\<forall>b < sb_size s. blk_used c s b)"

definition alloc_result ::
  "int \<Rightarrow> u32 set \<Rightarrow> int \<Rightarrow> 'a fstate_scheme \<Rightarrow> u32 \<Rightarrow> 'a fstate_scheme \<Rightarrow> bool" where
  "alloc_result p H k st b s \<longleftrightarrow>
     (if bitmap_full (acont (bview_of st)) (sb st) then b = 0 \<and> tx_post p H k (acont (bview_of st)) (lstate.more st) st s
      else b < sb_size (sb st) \<and> \<not> blk_used (acont (bview_of st)) (sb st) b \<and>
        (\<forall>b' < b. blk_used (acont (bview_of st)) (sb st) b') \<and>
        tx_post p H (k - 2) (alloc_cont (sb st) b (acont (bview_of st))) (lstate.more st) st s)"

lemma tx_post_same:
  assumes "tx_post p H k (acont (bview_of st)) (lstate.more st) st (s :: 'a fstate_scheme)"
  shows "tx_can p H k s" "acont (bview_of s) = acont (bview_of st)" "sb s = sb st" "itable s = itable st" "lstart s = lstart st"
  using assms fs_more [of s st] by (simp_all add: tx_post_def tx_keep_def)

lemma alloc_result_trans:
  fixes st s2 s :: "'a fstate_scheme"
  assumes "tx_post p H k (acont (bview_of st)) (lstate.more st) st s2" "alloc_result p H k s2 a s"
  shows "alloc_result p H k st a s"
proof -
  note e = tx_post_same [OF assms(1)]
  have m: "lstate.more s2 = lstate.more st" using assms(1) by (simp add: tx_post_def tx_keep_def)
  have post: "tx_post p H j c (lstate.more st) st s" if "tx_post p H j c (lstate.more st) s2 s" for j c
    using tx_post_trans [OF assms(1) subset_refl that] .
  show ?thesis using assms(2) post by (auto simp: alloc_result_def e m split: if_splits)
qed

lemma balloc_from_ok:
  fixes st :: "'a fstate_scheme"
  assumes "tx_can p H k st" "2 \<le> k" "card H < 3" "alloc_ok H st" "BPB dvd b"
    "\<forall>b'. unat b' < b \<and> b' < sb_size (sb st) \<longrightarrow> blk_used (acont (bview_of st)) (sb st) b'"
  shows "\<exists>a s. balloc_from p ROOTDEV b (sb_size (sb st)) st = Ok (a, s) \<and> alloc_result p H k st a s"
  using assms
proof (induction "unat (sb_size (sb st)) - b" arbitrary: b st rule: less_induct)
  case less
  let ?nb = "sb_size (sb st)" and ?c = "acont (bview_of st)" and ?B = "BBLOCK (of_nat b) (sb st)"
  have sz: "unat ?nb < 2 ^ 31" using less.prems(4) by (simp add: alloc_ok_def)
  show ?case
  proof (cases "b < unat ?nb")
    case False
    then have "bitmap_full ?c (sb st)" using less.prems(6) by (simp add: word_less_nat_alt bitmap_full_def)
    with False less.prems(1) show ?thesis
      by (subst balloc_from.simps) (auto simp: alloc_result_def tx_post_def tx_keep_def)
  next
    case True
    have ub: "unat (of_nat b :: u32) = b" using True sz by (simp add: unat_of_nat take_bit_nat_eq_self)
    have lt: "of_nat b < ?nb" using True by (simp add: word_less_nat_alt ub)
    have B: "?B \<notin> H" "?B \<notin> logarea (lstart st)" using less.prems(4) lt by (auto simp: alloc_ok_def)
    obtain bp and s1 :: "'a fstate_scheme" where s1: "bread p ROOTDEV ?B st = Ok (bp, s1)" "bdata (bufs s1 bp) = ?c ?B"
      "lstate.more s1 = lstate.more st"
      and rel: "\<exists>s2. brelse p bp s1 = Ok s2 \<and> tx_post p H k ?c (lstate.more st) st s2"
      and wr: "\<And>f. \<exists>s2 s3. log_write bp (set_data bp f s1) = Ok s2 \<and> brelse p bp s2 = Ok s3 \<and> lstate.more s2 = lstate.more st \<and>
        tx_post p H (k - 1) (?c(?B := f (?c ?B))) (lstate.more st) st s3"
      using tx_open [OF less.prems(1) B(1) less.prems(3)] B(2) less.prems(2) by (auto simp del: fun_upd_apply)
    define m where "m = min BPB (unat ?nb - b)"
    have at: "BBLOCK (of_nat (b + bi)) (sb st) = ?B" "unat (of_nat (b + bi) :: u32) mod BPB = bi"
      "unat (of_nat (b + bi) :: u32) = b + bi" if "bi < m" for bi
    proof -
      have "bi < BPB" using that by (simp add: m_def)
      moreover have "b + bi < 2 ^ 32"
      proof -
        have "b + bi < unat ?nb" using that True by (auto simp: m_def)
        with sz show ?thesis by simp
      qed
      ultimately have "bi < BPB" "b + bi < 2 ^ 32" .
      from BBLOCK_same [OF less.prems(5) this]
      show "BBLOCK (of_nat (b + bi)) (sb st) = ?B" "unat (of_nat (b + bi) :: u32) mod BPB = bi"
        "unat (of_nat (b + bi) :: u32) = b + bi" .
    qed
    have used: "blk_used ?c (sb st) (of_nat (b + bi)) \<longleftrightarrow> bit_used (?c ?B) bi" if "bi < m" for bi
      using at [OF that] by (simp add: blk_used_def del: of_nat_add)
    have dec: "\<exists>bi<m. b' = of_nat (b + bi)" if "b \<le> unat b'" "unat b' < b + m" for b' :: u32
    proof -
      have "b' = of_nat (b + (unat b' - b))" using that by simp
      moreover have "unat b' - b < m" using that by linarith
      ultimately have "b' = of_nat (b + (unat b' - b))" "unat b' - b < m" .
      then show ?thesis by blast
    qed
    show ?thesis
    proof (cases "find (\<lambda>bi. \<not> bit_used (?c ?B) bi) [0..<m]")
      case None
      have all: "bit_used (?c ?B) bi" if "bi < m" for bi using None that by (auto simp: find_None_iff simp del: upt.simps)
      obtain s2 where s2: "brelse p bp s1 = Ok s2" "tx_post p H k ?c (lstate.more st) st s2" using rel by blast
      note e = tx_post_same [OF s2(2)]
      have "\<exists>a s. balloc_from p ROOTDEV (b + BPB) (sb_size (sb s2)) s2 = Ok (a, s) \<and> alloc_result p H k s2 a s"
      proof (rule less.hyps)
        show "unat (sb_size (sb s2)) - (b + BPB) < unat ?nb - b" using True e by simp
        show "alloc_ok H s2" using less.prems(4) e by (simp add: alloc_ok_def)
        show "BPB dvd b + BPB" using less.prems(5) by simp
        show "\<forall>b'. unat b' < b + BPB \<and> b' < sb_size (sb s2) \<longrightarrow> blk_used (acont (bview_of s2)) (sb s2) b'"
        proof (intro allI impI)
          fix b' :: u32
          assume a: "unat b' < b + BPB \<and> b' < sb_size (sb s2)"
          show "blk_used (acont (bview_of s2)) (sb s2) b'"
          proof (cases "unat b' < b")
            case True
            with a less.prems(6) e show ?thesis by simp
          next
            case False
            with a e have "b \<le> unat b'" "unat b' < b + m" by (auto simp: word_less_nat_alt m_def)
            then obtain bi where "bi < m" "b' = of_nat (b + bi)" using dec by blast
            with all used e show ?thesis by simp
          qed
        qed
      qed (use e less.prems in simp_all)
      then obtain a s where as: "balloc_from p ROOTDEV (b + BPB) ?nb s2 = Ok (a, s)" "alloc_result p H k s2 a s"
        using e by auto
      have "alloc_result p H k st a s" by (rule alloc_result_trans [OF s2(2) as(2)])
      moreover have "balloc_from p ROOTDEV b ?nb st = Ok (a, s)"
        using True sz None s1 s2(1) as(1) by (subst balloc_from.simps) (simp add: m_def [symmetric] del: upt.simps)
      ultimately show ?thesis by blast
    next
      case (Some bi)
      have bi: "bi < m" "\<not> bit_used (?c ?B) bi" "\<forall>j<bi. bit_used (?c ?B) j"
        using Some by (auto simp: find_Some_iff simp del: upt.simps)
      let ?a = "of_nat (b + bi) :: u32"
      have a: "?a < ?nb" "\<not> blk_used ?c (sb st) ?a"
        using bi(1,2) True at(3) [OF bi(1)] used [OF bi(1)] by (auto simp: word_less_nat_alt m_def simp del: of_nat_add)
      have fr: "?a \<notin> H" "?a \<notin> logarea (lstart st)" using a less.prems(4) by (auto simp: alloc_ok_def simp del: of_nat_add)
      obtain s2 s3 where s3: "log_write bp (set_data bp (bit_set bi) s1) = Ok s2" "brelse p bp s2 = Ok s3"
        "tx_post p H (k - 1) (?c(?B := bit_set bi (?c ?B))) (lstate.more st) st s3"
        using wr [of "bit_set bi"] by blast
      have e3: "tx_can p H (k - 1) s3" "acont (bview_of s3) = ?c(?B := bit_set bi (?c ?B))" "lstart s3 = lstart st"
        "lstate.more s3 = lstate.more st"
        using s3(3) by (simp_all add: tx_post_def tx_keep_def)
      obtain s4 where s4: "bzero p ROOTDEV ?a s3 = Ok s4"
        "tx_post p H (k - 1 - 1) ((acont (bview_of s3))(?a := zeroed (acont (bview_of s3) ?a))) (lstate.more s3) s3 s4"
        using bzero_ok [OF e3(1) _ fr(1) less.prems(3)] fr(2) e3(3) less.prems(2) by (auto simp del: of_nat_add)
      have ac: "alloc_cont (sb st) ?a ?c = (acont (bview_of s3))(?a := zeroed (acont (bview_of s3) ?a))"
        by (simp add: alloc_cont_def at(1,2) [OF bi(1)] e3(2) del: of_nat_add)
      have "tx_post p H (k - 2) (alloc_cont (sb st) ?a ?c) (lstate.more st) st s4"
        using tx_post_trans [OF s3(3) subset_refl s4(2)] e3(4) unfolding ac by (simp only: diff_diff_eq) simp
      moreover have "\<forall>b' < ?a. blk_used ?c (sb st) b'"
      proof (intro allI impI)
        fix b' assume b': "b' < ?a"
        show "blk_used ?c (sb st) b'"
        proof (cases "unat b' < b")
          case True
          have "b' < ?nb" using b' a(1) by (rule less_trans)
          with True less.prems(6) show ?thesis by simp
        next
          case False
          have l: "unat b' < b + bi" using b' at(3) [OF bi(1)] by (simp add: word_less_nat_alt del: of_nat_add)
          with False bi(1) dec [of b'] obtain j where j: "j < m" "b' = of_nat (b + j)" by auto
          with l at(3) [OF j(1)] bi(3) used [OF j(1)] show ?thesis by simp
        qed
      qed
      moreover have "\<not> bitmap_full ?c (sb st)" using a by (auto simp: bitmap_full_def)
      ultimately have "alloc_result p H k st ?a s4" using a by (simp add: alloc_result_def del: of_nat_add)
      moreover have "balloc_from p ROOTDEV b ?nb st = Ok (?a, s4)"
        using True sz Some s1 s3 s4(1) by (subst balloc_from.simps) (simp add: m_def [symmetric] del: upt.simps of_nat_add)
      ultimately show ?thesis by blast
    qed
  qed
qed

lemma bfree_ok:
  fixes st :: "'a fstate_scheme"
  assumes "tx_can p H k st" "1 \<le> k" "card H < 3" "BBLOCK b (sb st) \<notin> H \<union> logarea (lstart st)"
  shows "blk_used (acont (bview_of st)) (sb st) b \<Longrightarrow> \<exists>s. bfree p ROOTDEV b st = Ok s \<and>
      tx_post p H (k - 1) (free_cont (sb st) b (acont (bview_of st))) (lstate.more st) st s"
    "\<not> blk_used (acont (bview_of st)) (sb st) b \<Longrightarrow> bfree p ROOTDEV b st = Err (Panic ''freeing free block'')"
proof -
  let ?c = "acont (bview_of st)" and ?B = "BBLOCK b (sb st)" and ?i = "unat b mod BPB"
  have B: "?B \<notin> H" "?B \<notin> logarea (lstart st)" using assms(4) by auto
  obtain bp and s1 s2 s3 :: "'a fstate_scheme" where s1: "bread p ROOTDEV ?B st = Ok (bp, s1)" "bdata (bufs s1 bp) = ?c ?B"
    and s3: "log_write bp (set_data bp (bit_clear ?i) s1) = Ok s2" "brelse p bp s2 = Ok s3"
      "tx_post p H (k - 1) (?c(?B := bit_clear ?i (?c ?B))) (lstate.more st) st s3"
    by (rule tx_upd [OF assms(1) B(1) assms(3,2) B(2), of "bit_clear ?i"])
  show "\<exists>s. bfree p ROOTDEV b st = Ok s \<and> tx_post p H (k - 1) (free_cont (sb st) b ?c) (lstate.more st) st s"
    if "blk_used ?c (sb st) b"
    using that s1 s3 by (simp add: bfree_def Let_def blk_used_def free_cont_def)
  show "bfree p ROOTDEV b st = Err (Panic ''freeing free block'')" if "\<not> blk_used ?c (sb st) b"
    using that s1 by (simp add: bfree_def Let_def blk_used_def)
qed

lemma BBLOCK_inj: "BBLOCK x s = BBLOCK y s \<Longrightarrow> unat x mod BPB = unat y mod BPB \<Longrightarrow> x = y"
proof -
  assume a: "BBLOCK x s = BBLOCK y s" "unat x mod BPB = unat y mod BPB"
  have lt: "unat z div BPB < 4294967296" for z :: u32
    using unsigned_less [of z, where ?'a = nat] by (simp add: less_mult_imp_div_less)
  have "(of_nat (unat x div BPB) :: u32) = of_nat (unat y div BPB)" using a(1) by (simp add: BBLOCK_def)
  then have "unat x div BPB = unat y div BPB" using lt by (simp only: of_nat_small_eq)
  then have "unat x = unat y" using a(2) by (metis div_mult_mod_eq)
  then show "x = y" by (simp add: word_unat_eq_iff)
qed

end
