(* ===== verification/Fsfile.thy ===== *)
theory Fsfile
  imports Fs
begin

text \<open>
  What the file system of theory \<open>Fs\<close> promises: the layout of a consistent volume, files as sequences
  of bytes that no allocation disturbs, reading and writing of file contents, and the elements
  of path names.
\<close>

subsection \<open>Files as sequences of bytes\<close>

text \<open>The blocks that no file may use, and a volume whose layout is consistent: the areas do not
  overlap and are marked in the bitmap, as is the boot block.\<close>

definition meta :: "superblock \<Rightarrow> u32 \<Rightarrow> u32 set" where
  "meta s ls = logarea ls \<union> {IBLOCK n s | n. n < ninodes s} \<union> {BBLOCK b s | b. b < sb_size s}"

definition vol_ok :: "(u32 \<Rightarrow> block) \<Rightarrow> superblock \<Rightarrow> u32 \<Rightarrow> bool" where
  "vol_ok c s ls \<longleftrightarrow> unat (sb_size s) < 2 ^ 31 \<and> 0 < sb_size s \<and> blk_used c s 0 \<and>
     (\<forall>b < sb_size s. BBLOCK b s \<notin> logarea ls \<and> (blk_used c s b \<or> b \<notin> meta s ls)) \<and>
     (\<forall>n < ninodes s. IBLOCK n s \<notin> logarea ls \<and> (\<forall>b < sb_size s. BBLOCK b s \<noteq> IBLOCK n s))"

text \<open>The disk block of block \<open>bn\<close> of a file, \<open>0\<close> for a hole; and the byte at an offset.\<close>

definition fblock :: "(u32 \<Rightarrow> block) \<Rightarrow> inode \<Rightarrow> nat \<Rightarrow> u32" where
  "fblock c ip bn =
     (if bn < NDIRECT then addrs ip ! bn
      else if addrs ip ! NDIRECT = 0 then 0
      else get32 (c (addrs ip ! NDIRECT)) (4 * (bn - NDIRECT)))"

definition fbyte :: "(u32 \<Rightarrow> block) \<Rightarrow> inode \<Rightarrow> nat \<Rightarrow> u8" where
  "fbyte c ip j = (if fblock c ip (j div BSIZE) = 0 then 0 else c (fblock c ip (j div BSIZE)) (j mod BSIZE))"

text \<open>The blocks of a file are allocated, belong to no other structure and are not shared.\<close>

definition data_block :: "(u32 \<Rightarrow> block) \<Rightarrow> superblock \<Rightarrow> u32 \<Rightarrow> u32 \<Rightarrow> bool" where
  "data_block c s ls a \<longleftrightarrow> a < sb_size s \<and> blk_used c s a \<and> a \<notin> meta s ls"

definition blocks_ok :: "(u32 \<Rightarrow> bool) \<Rightarrow> (nat \<Rightarrow> u32) \<Rightarrow> u32 \<Rightarrow> bool" where
  "blocks_ok U f ia \<longleftrightarrow> (ia \<noteq> 0 \<longrightarrow> U ia) \<and>
     (\<forall>bn < MAXFILE. f bn \<noteq> 0 \<longrightarrow> U (f bn) \<and> f bn \<noteq> ia \<and> (\<forall>bn' < MAXFILE. f bn' = f bn \<longrightarrow> bn' = bn))"

definition file_ok :: "(u32 \<Rightarrow> block) \<Rightarrow> superblock \<Rightarrow> u32 \<Rightarrow> inode \<Rightarrow> bool" where
  "file_ok c s ls ip \<longleftrightarrow> idev ip = ROOTDEV \<and> inum ip < ninodes s \<and> length (addrs ip) = NDIRECT + 1 \<and>
     blocks_ok (data_block c s ls) (fblock c ip) (addrs ip ! NDIRECT)"

lemma blocks_ok_mono: "blocks_ok U f ia \<Longrightarrow> (\<And>a. U a \<Longrightarrow> V a) \<Longrightarrow> (\<And>bn. bn < MAXFILE \<Longrightarrow> g bn = f bn) \<Longrightarrow> blocks_ok V g ia"
  unfolding blocks_ok_def by simp

lemma blocks_ok_upd:
  assumes "blocks_ok U f ia" "U a" "a \<noteq> ia" "\<And>bn'. bn' < MAXFILE \<Longrightarrow> f bn' \<noteq> a" "\<And>bn'. bn' < MAXFILE \<Longrightarrow> g bn' = (f(bn := a)) bn'"
  shows "blocks_ok U g ia"
  using assms unfolding blocks_ok_def by auto

text \<open>The effect of an allocation.\<close>

lemma alloc_cont_effect:
  assumes vol: "vol_ok c s ls" and b: "b < sb_size s" "\<not> blk_used c s b"
  defines "c' \<equiv> alloc_cont s b c"
  shows "c' b = zeroed (c b)" "\<And>m. m \<noteq> b \<Longrightarrow> (\<And>x. x < sb_size s \<Longrightarrow> m \<noteq> BBLOCK x s) \<Longrightarrow> c' m = c m"
    "\<And>x. x < sb_size s \<Longrightarrow> blk_used c' s x \<longleftrightarrow> x = b \<or> blk_used c s x" "vol_ok c' s ls" "b \<noteq> 0" "b \<notin> meta s ls"
proof -
  show nm: "b \<notin> meta s ls" using vol b by (auto simp: vol_ok_def)
  then have bb: "BBLOCK x s \<noteq> b" if "x < sb_size s" for x using that by (auto simp: meta_def)
  show "c' b = zeroed (c b)" using bb [OF b(1)] by (simp add: c'_def alloc_cont_def)
  show "c' m = c m" if "m \<noteq> b" "\<And>x. x < sb_size s \<Longrightarrow> m \<noteq> BBLOCK x s" for m
    using that(1) that(2) [OF b(1)] by (simp add: c'_def alloc_cont_def)
  show us: "blk_used c' s x \<longleftrightarrow> x = b \<or> blk_used c s x" if "x < sb_size s" for x
  proof (cases "BBLOCK x s = BBLOCK b s")
    case True
    have "c' (BBLOCK x s) = bit_set (unat b mod BPB) (c (BBLOCK x s))"
      using bb [OF that] True by (simp add: c'_def alloc_cont_def)
    moreover have "unat b mod BPB = unat x mod BPB \<longleftrightarrow> x = b" using BBLOCK_inj [OF True] by metis
    ultimately show ?thesis by (simp only: blk_used_def bit_used_set)
  next
    case False
    have "c' (BBLOCK x s) = c (BBLOCK x s)" using bb [OF that] False by (simp add: c'_def alloc_cont_def)
    with False show ?thesis by (auto simp only: blk_used_def)
  qed
  show "b \<noteq> 0" using vol b by (auto simp: vol_ok_def)
  show "vol_ok c' s ls" using vol us unfolding vol_ok_def by blast
qed

lemma data_block_alloc:
  assumes "vol_ok c s ls" "b < sb_size s" "\<not> blk_used c s b"
  shows "data_block c s ls a \<Longrightarrow> data_block (alloc_cont s b c) s ls a" "data_block (alloc_cont s b c) s ls b"
    "data_block c s ls a \<Longrightarrow> alloc_cont s b c a = c a \<and> a \<noteq> b"
proof -
  note e = alloc_cont_effect [OF assms]
  show "data_block (alloc_cont s b c) s ls b" using e(3,6) assms(2) by (simp add: data_block_def)
  assume a: "data_block c s ls a"
  then show "data_block (alloc_cont s b c) s ls a" using e(3) by (simp add: data_block_def)
  have "a \<noteq> b" using a assms(3) by (auto simp: data_block_def)
  moreover from this have "alloc_cont s b c a = c a" using a by (intro e(2)) (auto simp: data_block_def meta_def)
  ultimately show "alloc_cont s b c a = c a \<and> a \<noteq> b" by simp
qed

lemma file_alloc:
  assumes vol: "vol_ok c s ls" "b < sb_size s" "\<not> blk_used c s b" and f: "file_ok c s ls ip"
  shows "file_ok (alloc_cont s b c) s ls ip" "bn < MAXFILE \<Longrightarrow> fblock (alloc_cont s b c) ip bn = fblock c ip bn"
    "bn < MAXFILE \<Longrightarrow> fblock c ip bn \<noteq> b" "addrs ip ! NDIRECT \<noteq> b"
    "j < MAXFILE * BSIZE \<Longrightarrow> fbyte (alloc_cont s b c) ip j = fbyte c ip j"
proof -
  note e = alloc_cont_effect [OF vol] and d = data_block_alloc [OF vol]
  let ?c = "alloc_cont s b c"
  have bo: "blocks_ok (data_block c s ls) (fblock c ip) (addrs ip ! NDIRECT)" using f by (simp add: file_ok_def)
  then have ia: "addrs ip ! NDIRECT \<noteq> 0 \<Longrightarrow> data_block c s ls (addrs ip ! NDIRECT)" by (simp add: blocks_ok_def)
  show "addrs ip ! NDIRECT \<noteq> b" using d(3) [OF ia] e(5) by auto
  have fb: "fblock ?c ip bn = fblock c ip bn" for bn using d(3) [OF ia] by (simp add: fblock_def)
  then show "fblock ?c ip bn = fblock c ip bn" .
  have u: "fblock c ip bn \<noteq> 0 \<Longrightarrow> data_block c s ls (fblock c ip bn)" if "bn < MAXFILE" for bn
    using bo that by (simp add: blocks_ok_def)
  show "fblock c ip bn \<noteq> b" if "bn < MAXFILE" using d(3) [OF u [OF that]] e(5) by auto
  show "file_ok ?c s ls ip" using f blocks_ok_mono [OF bo d(1) fb] by (simp add: file_ok_def)
  show "fbyte ?c ip j = fbyte c ip j" if "j < MAXFILE * BSIZE"
    using d(3) [OF u [of "j div BSIZE"]] that by (simp add: fbyte_def fb less_mult_imp_div_less)
qed

text \<open>The number of free blocks.\<close>

definition nfree :: "(u32 \<Rightarrow> block) \<Rightarrow> superblock \<Rightarrow> nat" where
  "nfree c s = card {b. b < sb_size s \<and> \<not> blk_used c s b}"

lemma nfree_full: "nfree c s = 0 \<longleftrightarrow> bitmap_full c s"
  by (auto simp: nfree_def bitmap_full_def)

lemma nfree_cong: "(\<And>b. b < sb_size s \<Longrightarrow> blk_used c' s b = blk_used c s b) \<Longrightarrow> nfree c' s = nfree c s"
  unfolding nfree_def by (rule arg_cong [where f = card]) auto

lemma nfree_outside: "(\<And>b. b < sb_size s \<Longrightarrow> BBLOCK b s \<noteq> m) \<Longrightarrow> nfree (c(m := d)) s = nfree c s"
  by (rule nfree_cong) (simp add: blk_used_def)

lemma nfree_alloc:
  assumes "vol_ok c s ls" "b < sb_size s" "\<not> blk_used c s b"
  shows "nfree c s = Suc (nfree (alloc_cont s b c) s)"
proof -
  let ?F = "{x. x < sb_size s \<and> \<not> blk_used c s x}"
  have "{x. x < sb_size s \<and> \<not> blk_used (alloc_cont s b c) s x} = ?F - {b}"
    using alloc_cont_effect(3) [OF assms] by auto
  moreover have "b \<in> ?F" using assms by simp
  ultimately show ?thesis unfolding nfree_def using card.remove [of ?F b] by simp
qed

text \<open>A change of a block outside of the bitmap.\<close>

lemma outside_bitmap:
  assumes "\<And>x. x < sb_size s \<Longrightarrow> BBLOCK x s \<noteq> m" "vol_ok c s ls"
  shows "vol_ok (c(m := d)) s ls" "data_block (c(m := d)) s ls a = data_block c s ls a"
proof -
  have u: "blk_used (c(m := d)) s x \<longleftrightarrow> blk_used c s x" if "x < sb_size s" for x
    using assms(1) [OF that] by (simp add: blk_used_def)
  then show "vol_ok (c(m := d)) s ls" using assms(2) unfolding vol_ok_def by blast
  show "data_block (c(m := d)) s ls a = data_block c s ls a" using u by (auto simp: data_block_def)
qed

lemma get32_zero: "(\<And>j. j < BSIZE \<Longrightarrow> d j = 0) \<Longrightarrow> i + 4 \<le> BSIZE \<Longrightarrow> get32 d i = 0"
proof -
  assume a: "\<And>j. j < BSIZE \<Longrightarrow> d j = 0" "i + 4 \<le> BSIZE"
  have "d i = 0" "d (i + 1) = 0" "d (i + 2) = 0" "d (i + 2 + 1) = 0" using a by simp_all
  moreover have "word_cat (0 :: u8) (0 :: u8) = (0 :: u16)" "word_cat (0 :: u16) (0 :: u16) = (0 :: u32)"
    by (simp_all add: word_cat_eq)
  ultimately show ?thesis by (simp add: get32_def get16_def)
qed

text \<open>A new block joins a file, directly, as its indirect block, or as an entry of that block.\<close>

lemma blocks_attach:
  assumes bo: "blocks_ok U (fblock c ip) (addrs ip ! NDIRECT)" and len: "length (addrs ip) = NDIRECT + 1"
    and a: "U a" "a \<noteq> 0" "\<And>bn. bn < MAXFILE \<Longrightarrow> fblock c ip bn \<noteq> a"
    "addrs ip ! NDIRECT \<noteq> a" "\<And>x. x < BSIZE \<Longrightarrow> c a x = 0" and j: "j \<le> NDIRECT" "addrs ip ! j = 0"
  defines "ip' \<equiv> ip\<lparr>addrs := (addrs ip)[j := a]\<rparr>"
  shows "blocks_ok U (fblock c ip') (addrs ip' ! NDIRECT)" "x < MAXFILE * BSIZE \<Longrightarrow> fbyte c ip' x = fbyte c ip x"
    "bn < MAXFILE \<Longrightarrow> fblock c ip' bn = (if bn = j \<and> j < NDIRECT then a else fblock c ip bn)"
proof -
  have "blocks_ok U (fblock c ip') (addrs ip' ! NDIRECT) \<and> (x < MAXFILE * BSIZE \<longrightarrow> fbyte c ip' x = fbyte c ip x) \<and>
    (bn < MAXFILE \<longrightarrow> fblock c ip' bn = (if bn = j \<and> j < NDIRECT then a else fblock c ip bn))"
  proof (cases "j = NDIRECT")
    case True
    have fb: "fblock c ip' bn = fblock c ip bn" if "bn < MAXFILE" for bn
      using that True j(2) len a(2) get32_zero [of "c a" "4 * (bn - NDIRECT)"] a(5)
      by (simp add: fblock_def ip'_def)
    then have "blocks_ok U (fblock c ip') (addrs ip' ! NDIRECT)"
      using bo a(1,3) True len by (simp add: blocks_ok_def ip'_def)
    with fb [of "x div BSIZE"] fb [of bn] True show ?thesis by (simp add: ip'_def fbyte_def less_mult_imp_div_less)
  next
    case False
    then have fb: "fblock c ip' bn = ((fblock c ip)(j := a)) bn" for bn using j(1) len by (simp add: fblock_def ip'_def)
    have z: "fblock c ip j = 0" using False j by (simp add: fblock_def)
    have ia: "addrs ip' ! NDIRECT = addrs ip ! NDIRECT" using False by (simp add: ip'_def)
    have "blocks_ok U (fblock c ip') (addrs ip' ! NDIRECT)"
      unfolding ia by (rule blocks_ok_upd [OF bo a(1) a(4) [symmetric] a(3) fb])
    moreover have "fbyte c ip' x = fbyte c ip x" using a(5) z by (auto simp: fbyte_def fb)
    ultimately show ?thesis using False j(1) by (simp add: fb)
  qed
  then show "blocks_ok U (fblock c ip') (addrs ip' ! NDIRECT)" "x < MAXFILE * BSIZE \<Longrightarrow> fbyte c ip' x = fbyte c ip x"
    "bn < MAXFILE \<Longrightarrow> fblock c ip' bn = (if bn = j \<and> j < NDIRECT then a else fblock c ip bn)" by simp_all
qed

lemma file_attach:
  assumes f: "file_ok c s ls ip" and a: "data_block c s ls a" "a \<noteq> 0" "\<And>bn. bn < MAXFILE \<Longrightarrow> fblock c ip bn \<noteq> a"
    "addrs ip ! NDIRECT \<noteq> a" "\<And>x. x < BSIZE \<Longrightarrow> c a x = 0" and j: "j \<le> NDIRECT" "addrs ip ! j = 0"
  defines "ip' \<equiv> ip\<lparr>addrs := (addrs ip)[j := a]\<rparr>"
  shows "file_ok c s ls ip'" "x < MAXFILE * BSIZE \<Longrightarrow> fbyte c ip' x = fbyte c ip x"
    "bn < MAXFILE \<Longrightarrow> fblock c ip bn \<noteq> 0 \<Longrightarrow> fblock c ip' bn = fblock c ip bn"
proof -
  have bo: "blocks_ok (data_block c s ls) (fblock c ip) (addrs ip ! NDIRECT)" and len: "length (addrs ip) = NDIRECT + 1"
    using f by (simp_all add: file_ok_def)
  note at = blocks_attach [OF bo len a j, folded ip'_def]
  show "file_ok c s ls ip'" using f at(1) by (simp add: file_ok_def) (simp add: ip'_def)
  show "fbyte c ip' x = fbyte c ip x" if "x < MAXFILE * BSIZE" using at(2) [of x] that by simp
  show "fblock c ip' bn = fblock c ip bn" if "bn < MAXFILE" "fblock c ip bn \<noteq> 0"
    using at(3) [of bn] that j(2) by (auto simp: fblock_def)
qed

lemma blocks_attach_indirect:
  assumes bo: "blocks_ok U (fblock c ip) ia" and a: "U a" "a \<noteq> 0"
    "\<And>bn. bn < MAXFILE \<Longrightarrow> fblock c ip bn \<noteq> a"
    "addrs ip ! NDIRECT \<noteq> a" "\<And>x. x < BSIZE \<Longrightarrow> c a x = 0"
    and bn: "NDIRECT \<le> bn" "bn < MAXFILE" "fblock c ip bn = 0" and ia: "ia = addrs ip ! NDIRECT" "ia \<noteq> 0"
  defines "c' \<equiv> c(ia := put32 (c ia) (4 * (bn - NDIRECT)) a)"
  shows "blocks_ok U (fblock c' ip) ia" "x < MAXFILE * BSIZE \<Longrightarrow> fbyte c' ip x = fbyte c ip x"
    "fblock c' ip m = ((fblock c ip)(bn := a)) m"
proof -
  have fb: "fblock c' ip m = ((fblock c ip)(bn := a)) m" for m
  proof (cases "m = bn \<or> m < NDIRECT")
    case True
    then show ?thesis using bn ia by (auto simp: fblock_def c'_def)
  next
    case False
    then have "4 * (m - NDIRECT) + 4 \<le> 4 * (bn - NDIRECT) \<or> 4 * (bn - NDIRECT) + 4 \<le> 4 * (m - NDIRECT)"
      using bn(1) by auto
    then show ?thesis using False ia by (simp add: fblock_def c'_def)
  qed
  then show "fblock c' ip m = ((fblock c ip)(bn := a)) m" .
  show "blocks_ok U (fblock c' ip) ia"
    using a(4) by (intro blocks_ok_upd [OF bo a(1) _ a(3) fb]) (simp add: ia)
  show "fbyte c' ip x = fbyte c ip x" if "x < MAXFILE * BSIZE"
  proof (cases "x div BSIZE = bn")
    case True
    moreover have "c' a = c a" using a(4) ia(1) by (simp add: c'_def)
    ultimately show ?thesis using a(5) bn(3) by (simp add: fbyte_def fb)
  next
    case False
    have "x div BSIZE < MAXFILE" using that by (simp add: less_mult_imp_div_less)
    then have "fblock c ip (x div BSIZE) \<noteq> 0 \<Longrightarrow> fblock c ip (x div BSIZE) \<noteq> ia" using bo by (simp add: blocks_ok_def)
    then have "fblock c ip (x div BSIZE) \<noteq> 0 \<Longrightarrow> c' (fblock c ip (x div BSIZE)) = c (fblock c ip (x div BSIZE))"
      by (simp add: c'_def)
    then show ?thesis using False by (simp add: fbyte_def fb)
  qed
qed

lemma file_attach_indirect:
  assumes f: "file_ok c s ls ip" and vol: "vol_ok c s ls" and a: "data_block c s ls a" "a \<noteq> 0"
    "\<And>bn. bn < MAXFILE \<Longrightarrow> fblock c ip bn \<noteq> a"
    "addrs ip ! NDIRECT \<noteq> a" "\<And>x. x < BSIZE \<Longrightarrow> c a x = 0"
    and bn: "NDIRECT \<le> bn" "bn < MAXFILE" "fblock c ip bn = 0" and ia: "ia = addrs ip ! NDIRECT" "ia \<noteq> 0"
  defines "c' \<equiv> c(ia := put32 (c ia) (4 * (bn - NDIRECT)) a)"
  shows "file_ok c' s ls ip" "vol_ok c' s ls" "x < MAXFILE * BSIZE \<Longrightarrow> fbyte c' ip x = fbyte c ip x" "fblock c' ip bn = a"
    "fblock c ip m \<noteq> 0 \<Longrightarrow> fblock c' ip m = fblock c ip m"
proof -
  have bo: "blocks_ok (data_block c s ls) (fblock c ip) ia" using f by (simp add: file_ok_def ia(1))
  then have di: "data_block c s ls ia" using ia(2) by (simp add: blocks_ok_def)
  then have nb: "BBLOCK x s \<noteq> ia" if "x < sb_size s" for x using that by (auto simp: data_block_def meta_def)
  note out = outside_bitmap [OF nb vol, of "put32 (c ia) (4 * (bn - NDIRECT)) a", folded c'_def]
  note at = blocks_attach_indirect [OF bo a bn ia, folded c'_def]
  show "vol_ok c' s ls" by (rule out(1))
  have db: "data_block c' s ls = data_block c s ls" using out(2) by blast
  then show "file_ok c' s ls ip" using f at(1) by (simp add: file_ok_def ia)
  show "fbyte c' ip x = fbyte c ip x" if "x < MAXFILE * BSIZE" using at(2) [of x] that by simp
  show "fblock c' ip bn = a" by (simp add: at(3))
  show "fblock c' ip m = fblock c ip m" if "fblock c ip m \<noteq> 0" using that bn(3) by (auto simp: at(3))
qed

abbreviation cont :: "'a fstate_scheme \<Rightarrow> u32 \<Rightarrow> block" where
  "cont st \<equiv> acont (bview_of st)"

definition fs_inv :: "'a fstate_scheme \<Rightarrow> nat \<Rightarrow> bool" where
  "fs_inv st i \<longleftrightarrow> vol_ok (cont st) (sb st) (lstart st) \<and> file_ok (cont st) (sb st) (lstart st) (itable st i)"

text \<open>Steps that allocate blocks for the file \<open>i\<close> and leave its bytes alone.\<close>

definition fs_step :: "int \<Rightarrow> int \<Rightarrow> nat \<Rightarrow> 'a fstate_scheme \<Rightarrow> 'a fstate_scheme \<Rightarrow> bool" where
  "fs_step p k i st s \<longleftrightarrow> tx_can p {} k s \<and> fs_inv s i \<and> lstart s = lstart st \<and> sb s = sb st \<and> disk s = disk st \<and>
     writes s = writes st \<and> outstanding s = outstanding st \<and> committing s = committing st \<and> lsize s = lsize st \<and>
     fstate.more s = fstate.more st \<and>
     (\<forall>i'. i' \<noteq> i \<longrightarrow> itable s i' = itable st i') \<and> (itable s i)\<lparr>addrs := []\<rparr> = (itable st i)\<lparr>addrs := []\<rparr> \<and>
     (\<forall>bn < MAXFILE. fblock (cont st) (itable st i) bn \<noteq> 0 \<longrightarrow> fblock (cont s) (itable s i) bn = fblock (cont st) (itable st i) bn) \<and>
     (\<forall>x < MAXFILE * BSIZE. fbyte (cont s) (itable s i) x = fbyte (cont st) (itable st i) x)"

lemma fs_step_trans: "fs_step p k i st s \<Longrightarrow> fs_step p k' i s s' \<Longrightarrow> fs_step p k' i st s'"
  by (simp add: fs_step_def)

lemma fs_step_refl: "tx_can p {} k st \<Longrightarrow> fs_inv st i \<Longrightarrow> fs_step p k i st st"
  by (simp add: fs_step_def)

lemma fs_step_mono: "fs_step p k i st s \<Longrightarrow> 0 \<le> j \<Longrightarrow> j \<le> k \<Longrightarrow> fs_step p j i st s"
  by (auto simp: fs_step_def intro: tx_can_mono)

lemma fs_step_post:
  "fs_inv st i \<Longrightarrow> tx_post p {} k (cont st) (lstate.more st) st s \<Longrightarrow> fs_step p k i st s"
  using fs_more [of s st] by (simp add: fs_step_def tx_post_def tx_keep_def fs_inv_def)

lemma upd_inode_fields [simp]:
  "bview_of (upd_inode i f st) = bview_of st" "sb (upd_inode i f st) = sb st" "lstart (upd_inode i f st) = lstart st"
  "disk (upd_inode i f st) = disk st" "writes (upd_inode i f st) = writes st" "outstanding (upd_inode i f st) = outstanding st"
  "itable (upd_inode i f st) = (itable st)(i := f (itable st i))" "tx_can p H k (upd_inode i f st) = tx_can p H k st"
  "lhn (upd_inode i f st) = lhn st" "logged (upd_inode i f st) = logged st" "committing (upd_inode i f st) = committing st"
  "lsize (upd_inode i f st) = lsize st" "fstate.more (upd_inode i f st) = fstate.more st"
proof -
  have v: "bview_of (st\<lparr>itable := t\<rparr>) = bview_of st" "bc_ok (st\<lparr>itable := t\<rparr>) = bc_ok st" for t
    by (rule bview_ext; simp)+
  show "bview_of (upd_inode i f st) = bview_of st" by (simp add: upd_inode_def v)
  show "tx_can p H k (upd_inode i f st) = tx_can p H k st"
    by (simp add: tx_can_def tx_held_def upd_inode_def v logged_def)
qed (simp_all add: upd_inode_def logged_def)

lemma balloc_fs:
  fixes st :: "'a fstate_scheme"
  assumes vol: "vol_ok (cont st) (sb st) (lstart st)" and can: "tx_can p H k st" "2 \<le> k" "card H < 3"
    and H: "\<And>m. m \<in> H \<Longrightarrow> data_block (cont st) (sb st) (lstart st) m"
  obtains (full) s where "balloc p ROOTDEV st = Ok (0, s)" "tx_post p H k (cont st) (lstate.more st) st s" "nfree (cont st) (sb st) = 0"
  | (found) a s where "balloc p ROOTDEV st = Ok (a, s)" "a < sb_size (sb st)" "\<not> blk_used (cont st) (sb st) a" "a \<noteq> 0"
      "tx_post p H (k - 2) (alloc_cont (sb st) a (cont st)) (lstate.more st) st s"
proof -
  have ok: "alloc_ok H st"
    unfolding alloc_ok_def
  proof (intro conjI allI impI)
    show "unat (sb_size (sb st)) < 2 ^ 31" using vol by (simp add: vol_ok_def)
    fix b assume b: "b < sb_size (sb st)"
    show "BBLOCK b (sb st) \<notin> H \<union> logarea (lstart st)" using b vol H by (auto simp: vol_ok_def data_block_def meta_def)
    show "blk_used (cont st) (sb st) b \<or> b \<notin> H \<union> logarea (lstart st)"
      using b vol H by (auto simp: vol_ok_def data_block_def meta_def)
  qed
  obtain a s where as: "balloc p ROOTDEV st = Ok (a, s)" "alloc_result p H k st a s"
    using balloc_from_ok [OF can ok, of 0] by (auto simp: balloc_def)
  show thesis
  proof (cases "bitmap_full (cont st) (sb st)")
    case True
    with as that(1) show thesis by (simp add: alloc_result_def nfree_full)
  next
    case False
    then have r: "a < sb_size (sb st)" "\<not> blk_used (cont st) (sb st) a"
      "tx_post p H (k - 2) (alloc_cont (sb st) a (cont st)) (lstate.more st) st s"
      using as(2) by (simp_all add: alloc_result_def)
    from that(2) [OF as(1) r(1,2) alloc_cont_effect(5) [OF vol r(1,2)] r(3)] show thesis .
  qed
qed

lemma addr_or_alloc_ok:
  fixes st :: "'a fstate_scheme"
  assumes inv: "fs_inv st i" and can: "tx_can p {} k st" "2 \<le> k" and j: "j \<le> NDIRECT"
  shows "\<exists>a s. addr_or_alloc p i j st = Ok (a, s) \<and> fs_step p (k - 2) i st s \<and> (a \<noteq> 0 \<longrightarrow> addrs (itable s i) ! j = a) \<and>
    (addrs (itable st i) ! j \<noteq> 0 \<longrightarrow> s = st \<and> a = addrs (itable st i) ! j) \<and>
    (a = 0 \<longrightarrow> nfree (cont s) (sb s) = 0) \<and> nfree (cont st) (sb st) \<le> nfree (cont s) (sb s) + 1"
proof (cases "addrs (itable st i) ! j = 0")
  case False
  then show ?thesis
    using fs_step_refl [OF tx_can_mono [OF can(1), of "k - 2"] inv] can(2) by (simp add: addr_or_alloc_def Let_def)
next
  case True
  have vol: "vol_ok (cont st) (sb st) (lstart st)" and f: "file_ok (cont st) (sb st) (lstart st) (itable st i)"
    using inv by (simp_all add: fs_inv_def)
  have dev: "idev (itable st i) = ROOTDEV" and len: "length (addrs (itable st i)) = NDIRECT + 1"
    using f by (simp_all add: file_ok_def)
  show ?thesis
  proof (rule balloc_fs [OF vol can])
    fix s assume s: "balloc p ROOTDEV st = Ok (0, s)" "tx_post p {} k (cont st) (lstate.more st) st s" "nfree (cont st) (sb st) = 0"
    show ?thesis
      using s(1,3) True dev fs_step_mono [OF fs_step_post [OF inv s(2)], of "k - 2"] can(2) tx_post_same [OF s(2)]
      by (auto simp: addr_or_alloc_def Let_def)
  next
    fix a s assume s: "balloc p ROOTDEV st = Ok (a, s)" "a < sb_size (sb st)" "\<not> blk_used (cont st) (sb st) a" "a \<noteq> 0"
      "tx_post p {} (k - 2) (alloc_cont (sb st) a (cont st)) (lstate.more st) st s"
    have e: "cont s = alloc_cont (sb st) a (cont st)" "sb s = sb st" "itable s = itable st" "lstart s = lstart st"
      "tx_can p {} (k - 2) s" "disk s = disk st" "writes s = writes st" "outstanding s = outstanding st" "committing s = committing st" "lsize s = lsize st" "fstate.more s = fstate.more st"
      using s(5) fs_more [of s st] by (simp_all add: tx_post_def tx_keep_def)
    note al = alloc_cont_effect [OF vol s(2,3), folded e(1)] data_block_alloc [OF vol s(2,3), folded e(1)]
      and fa = file_alloc [OF vol s(2,3) f, folded e(1)]
    have z: "x < BSIZE \<Longrightarrow> cont s a x = 0" for x using al(1) by (simp add: zeroed_def)
    have "bn < MAXFILE \<Longrightarrow> fblock (cont s) (itable st i) bn \<noteq> a" for bn using fa(2,3) by simp
    note at = file_attach [OF fa(1) al(8) s(4) this fa(4) z j True]
    have "fs_step p (k - 2) i st (set_addr i j a s)"
      using al(4) at(1) e fa(2,5) at(2,3) by (simp add: fs_step_def fs_inv_def set_addr_def)
    moreover have "addrs (itable (set_addr i j a s) i) ! j = a" using len j e(3) by (simp add: set_addr_def)
    moreover have "addr_or_alloc p i j st = Ok (a, set_addr i j a s)"
      using s(1,4) True dev by (simp add: addr_or_alloc_def Let_def)
    moreover have "nfree (cont st) (sb st) \<le> nfree (cont (set_addr i j a s)) (sb (set_addr i j a s)) + 1"
      using nfree_alloc [OF vol s(2,3)] e(1,2) by (simp add: set_addr_def)
    ultimately show ?thesis using True s(4) by blast
  qed simp_all
qed

lemma bmap_ok:
  fixes st :: "'a fstate_scheme"
  assumes inv: "fs_inv st i" and can: "tx_can p {} k st" "5 \<le> k" and bn: "bn < MAXFILE"
  shows "\<exists>a s. bmap p i bn st = Ok (a, s) \<and> fs_step p (k - 5) i st s \<and>
    (a \<noteq> 0 \<longrightarrow> fblock (cont s) (itable s i) bn = a) \<and> (fblock (cont st) (itable st i) bn \<noteq> 0 \<longrightarrow> a \<noteq> 0) \<and>
    (a = 0 \<longrightarrow> nfree (cont s) (sb s) = 0) \<and> nfree (cont st) (sb st) \<le> nfree (cont s) (sb s) + 2"
proof (cases "bn < NDIRECT")
  case True
  then obtain a s where a: "addr_or_alloc p i bn st = Ok (a, s)" "fs_step p (k - 2) i st s" "a \<noteq> 0 \<longrightarrow> addrs (itable s i) ! bn = a"
    "addrs (itable st i) ! bn \<noteq> 0 \<longrightarrow> s = st \<and> a = addrs (itable st i) ! bn"
    "a = 0 \<longrightarrow> nfree (cont s) (sb s) = 0" "nfree (cont st) (sb st) \<le> nfree (cont s) (sb s) + 1"
    using addr_or_alloc_ok [OF inv can(1), of bn] can(2) by auto
  then show ?thesis using True fs_step_mono [OF a(2), of "k - 5"] can(2) by (auto simp: bmap_def fblock_def)
next
  case False
  then have bn': "bn - NDIRECT < NINDIRECT" "NDIRECT \<le> bn" using bn by auto
  let ?o = "4 * (bn - NDIRECT)"
  obtain ia s0 where s0: "addr_or_alloc p i NDIRECT st = Ok (ia, s0)" "fs_step p (k - 2) i st s0"
    "ia \<noteq> 0 \<longrightarrow> addrs (itable s0 i) ! NDIRECT = ia"
    "addrs (itable st i) ! NDIRECT \<noteq> 0 \<longrightarrow> s0 = st \<and> ia = addrs (itable st i) ! NDIRECT"
    "ia = 0 \<longrightarrow> nfree (cont s0) (sb s0) = 0" "nfree (cont st) (sb st) \<le> nfree (cont s0) (sb s0) + 1"
    using addr_or_alloc_ok [OF inv can(1), of NDIRECT] can(2) by auto
  show ?thesis
  proof (cases "ia = 0")
    case True
    then show ?thesis using s0 False bn' fs_step_mono [OF s0(2), of "k - 5"] can(2) by (auto simp: bmap_def fblock_def)
  next
    case ia: False
    define ls c0 ip where "ls = lstart s0" and "c0 = cont s0" and "ip = itable s0 i"
    have can0: "tx_can p {} (k - 2) s0" and inv0: "fs_inv s0 i" using s0(2) unfolding fs_step_def by blast+
    then have vol0: "vol_ok c0 (sb s0) ls" and f0: "file_ok c0 (sb s0) ls ip"
      by (simp_all add: fs_inv_def ls_def c0_def ip_def)
    have ia': "addrs ip ! NDIRECT = ia" using s0(3) ia by (simp add: ip_def)
    have dia: "data_block c0 (sb s0) ls ia" using f0 ia ia' by (auto simp: file_ok_def blocks_ok_def)
    have home: "ia \<notin> logarea ls" using dia by (simp add: data_block_def meta_def)
    have dev: "idev ip = ROOTDEV" using f0 by (simp add: file_ok_def)
    have fbn: "fblock c0 ip bn = get32 (c0 ia) ?o" using False ia ia' by (simp add: fblock_def)
    obtain bp and s1 :: "'a fstate_scheme" where s1: "bread p ROOTDEV ia s0 = Ok (bp, s1)" "cached_at s1 bp ia"
      "bdata (bufs s1 bp) = c0 ia" "tx_can p {ia} (k - 2) s1" "tx_keep {} c0 (lstate.more s0) s0 s1"
      using tx_rd [OF can0, of ia] by (auto simp: c0_def)
    have e1: "cont s1 = c0" "sb s1 = sb s0" "itable s1 = itable s0" "lstart s1 = ls" "lstate.more s1 = lstate.more s0"
      using s1(5) fs_more [of s1 s0] by (simp_all add: tx_keep_def ls_def)
    have st0: "fblock (cont st) (itable st i) bn \<noteq> 0 \<Longrightarrow> s0 = st"
      using s0(4) False by (auto simp: fblock_def split: if_splits)
    have run: "bmap p i bn st = bnd (if get32 (c0 ia) ?o = 0 then
                     bnd (balloc p ROOTDEV s1) (\<lambda>(addr, st).
                       if addr = 0 then Ok (addr, st)
                       else bnd (log_write bp (set_data bp (\<lambda>d. put32 d ?o addr) st)) (\<lambda>st. Ok (addr, st)))
                   else Ok (get32 (c0 ia) ?o, s1)) (\<lambda>(addr, st). bnd (brelse p bp st) (\<lambda>st. Ok (addr, st)))"
      using False bn'(1) s0(1) ia s1(1,3) dev e1(3) by (simp add: bmap_def ip_def)
    have fin: "\<exists>s. brelse p bp s2 = Ok s \<and> tx_post p {} j c (lstate.more s0) s0 s"
      if "tx_post p {ia} j c (lstate.more s0) s1 s2" "cached_at s2 bp ia" for j c s2
    proof -
      have "cont s2 = c" "lstate.more s2 = lstate.more s0" using that(1) by (simp_all add: tx_post_def tx_keep_def)
      with tx_rel [OF tx_post_can [OF that(1)] _ that(2)]
      obtain s where s: "brelse p bp s2 = Ok s" "tx_post p {} j c (lstate.more s0) s2 s" by auto
      have "tx_keep {} c (lstate.more s0) s0 s2" using that(1) s1(5) by (auto simp: tx_post_def tx_keep_def)
      then have "tx_post p {} j c (lstate.more s0) s0 s" using s(2) by (auto simp: tx_post_def intro: tx_keep_trans)
      with s(1) show ?thesis by blast
    qed
    have step: "fs_step p (k - 5) i st s" if "tx_post p {} j c0 (lstate.more s0) s0 s" "k - 5 \<le> j" for j s
    proof -
      from fs_step_mono [OF fs_step_post [OF inv0 that(1) [unfolded c0_def]], of "k - 5"] that(2) can(2)
      show ?thesis using fs_step_trans [OF s0(2)] by auto
    qed
    have same: "tx_post p {ia} (k - 2) c0 (lstate.more s0) s1 s1"
      using s1(4) e1 by (simp add: tx_post_def tx_keep_def)
    show ?thesis
    proof (cases "get32 (c0 ia) ?o = 0")
      case nz: False
      obtain s where s: "brelse p bp s1 = Ok s" "tx_post p {} (k - 2) c0 (lstate.more s0) s0 s"
        using fin [OF same s1(2)] by blast
      have e: "cont s = c0" "itable s = itable s0" "sb s = sb s0" using s(2) fs_more [of s s0] by (simp_all add: tx_post_def tx_keep_def)
      then have "fblock (cont s) (itable s i) bn = get32 (c0 ia) ?o" using fbn by (simp add: ip_def)
      then show ?thesis using run nz s(1) step [OF s(2)] s0(6) e(1,3) by (simp add: c0_def)
    next
      case z: True
      have hole: "fblock c0 ip bn = 0" using fbn z by simp
      then have old: "fblock (cont st) (itable st i) bn = 0" using st0 by (auto simp: c0_def ip_def)
      have H: "data_block (cont s1) (sb s1) (lstart s1) m" if "m \<in> {ia}" for m using dia that e1 by simp
      have vol1: "vol_ok (cont s1) (sb s1) (lstart s1)" using vol0 e1 by simp
      have k2: "2 \<le> k - 2" "card {ia} < 3" using can(2) by simp_all
      show ?thesis
      proof (rule balloc_fs [OF vol1 s1(4) k2 H])
        fix s2 assume s2: "balloc p ROOTDEV s1 = Ok (0, s2)" "tx_post p {ia} (k - 2) (cont s1) (lstate.more s1) s1 s2"
          "nfree (cont s1) (sb s1) = 0"
        have "cached_at s2 bp ia" using s2(2) s1(2) by (simp add: tx_post_def tx_keep_def)
        then obtain s where s: "brelse p bp s2 = Ok s" "tx_post p {} (k - 2) c0 (lstate.more s0) s0 s"
          using fin [of "k - 2" c0 s2] s2(2) e1 by auto
        have "cont s = c0" "sb s = sb s0" using s(2) fs_more [of s s0] by (simp_all add: tx_post_def tx_keep_def)
        with s step [OF s(2)] old run z s2(1,3) s0(6) e1(1,2) show ?thesis by (simp add: c0_def)
      next
        fix a s2 assume s2: "balloc p ROOTDEV s1 = Ok (a, s2)" "a < sb_size (sb s1)" "\<not> blk_used (cont s1) (sb s1) a" "a \<noteq> 0"
          "tx_post p {ia} (k - 2 - 2) (alloc_cont (sb s1) a (cont s1)) (lstate.more s1) s1 s2"
        define c1 where "c1 = alloc_cont (sb s0) a c0"
        have e2: "cont s2 = c1" "lstate.more s2 = lstate.more s0" "lstart s2 = ls" "tx_can p {ia} (k - 4) s2" "cached_at s2 bp ia"
          using s2(5) s1(2) e1 by (simp_all add: tx_post_def tx_keep_def c1_def)
        have a: "a < sb_size (sb s0)" "\<not> blk_used c0 (sb s0) a" using s2(2,3) e1 by simp_all
        note al = alloc_cont_effect [OF vol0 a, folded c1_def] data_block_alloc [OF vol0 a, folded c1_def]
          and fa = file_alloc [OF vol0 a f0, folded c1_def]
        obtain s3 where s3: "log_write bp (set_data bp (\<lambda>d. put32 d ?o a) s2) = Ok s3" "cached_at s3 bp ia"
          "tx_post p {ia} (k - 4 - 1) (c1(ia := put32 (c1 ia) ?o a)) (lstate.more s0) s2 s3"
          using tx_wr [OF e2(4) _ _ e2(5), of "\<lambda>d. put32 d ?o a"] can(2) home e2(1-3) by auto
        define c2 where "c2 = c1(ia := put32 (c1 ia) ?o a)"
        have p3: "tx_post p {ia} (k - 5) c2 (lstate.more s0) s1 s3"
          using tx_post_trans [OF s2(5) subset_refl s3(3)] by (simp add: c2_def)
        obtain s where s: "brelse p bp s3 = Ok s" "tx_post p {} (k - 5) c2 (lstate.more s0) s0 s"
          using fin [OF p3 s3(2)] by blast
        have zz: "x < BSIZE \<Longrightarrow> c1 a x = 0" for x using al(1) by (simp add: zeroed_def)
        have fr: "m < MAXFILE \<Longrightarrow> fblock c1 ip m \<noteq> a" for m using fa(2,3) by simp
        have h1: "fblock c1 ip bn = 0" using hole fa(2) bn by simp
        note at = file_attach_indirect [OF fa(1) al(4,8) s2(4) fr fa(4) zz bn'(2) bn h1 ia' [symmetric] ia, folded c2_def]
        have e: "cont s = c2" "sb s = sb s0" "itable s = itable s0" "lstart s = ls" "tx_can p {} (k - 5) s"
          "disk s = disk s0" "writes s = writes s0" "outstanding s = outstanding s0" "committing s = committing s0" "lsize s = lsize s0" "fstate.more s = fstate.more s0"
          using s(2) fs_more [of s s0] by (simp_all add: tx_post_def tx_keep_def ls_def)
        have "fs_step p (k - 5) i s0 s"
          using e at(1,2,3,5) fa(2,5) by (simp add: fs_step_def fs_inv_def ip_def ls_def c0_def)
        then have "fs_step p (k - 5) i st s" by (rule fs_step_trans [OF s0(2)])
        moreover have "fblock (cont s) (itable s i) bn = a" using at(4) e by (simp add: ip_def)
        moreover have "bmap p i bn st = Ok (a, s)" using run z s2(1,4) s3(1) s(1) by simp
        moreover have "nfree (cont st) (sb st) \<le> nfree (cont s) (sb s) + 2"
        proof -
          have "BBLOCK x (sb s0) \<noteq> ia" if "x < sb_size (sb s0)" for x using dia that by (auto simp: data_block_def meta_def)
          then have "nfree (cont s) (sb s) = nfree c1 (sb s0)" using nfree_outside [of "sb s0" ia c1] e(1,2) by (simp add: c2_def)
          then show ?thesis using nfree_alloc [OF vol0 a] s0(6) by (simp add: c1_def c0_def)
        qed
        ultimately show ?thesis using old s2(4) by blast
      qed simp
    qed
  qed
qed

lemma bmap_mapped:
  fixes st :: "'a fstate_scheme"
  assumes inv: "fs_inv st i" and can: "tx_can p {} k st" and bn: "bn < MAXFILE" "fblock (cont st) (itable st i) bn \<noteq> 0"
  shows "\<exists>s. bmap p i bn st = Ok (fblock (cont st) (itable st i) bn, s) \<and> tx_post p {} k (cont st) (lstate.more st) st s"
proof (cases "bn < NDIRECT")
  case True
  then show ?thesis
    using bn can by (simp add: bmap_def addr_or_alloc_def Let_def fblock_def tx_post_def tx_keep_def)
next
  case False
  let ?ia = "addrs (itable st i) ! NDIRECT"
  have ia: "?ia \<noteq> 0" and fb: "fblock (cont st) (itable st i) bn = get32 (cont st ?ia) (4 * (bn - NDIRECT))"
    using bn(2) False by (auto simp: fblock_def split: if_splits)
  have dev: "idev (itable st i) = ROOTDEV" using inv by (simp add: fs_inv_def file_ok_def)
  obtain bp s1 s2 where s: "bread p ROOTDEV ?ia st = Ok (bp, s1)" "bdata (bufs s1 bp) = cont st ?ia"
    "brelse p bp s1 = Ok s2" "tx_post p {} k (cont st) (lstate.more st) st s2"
    using tx_open [OF can, of ?ia] by auto
  then show ?thesis using False bn ia fb dev by (simp add: bmap_def addr_or_alloc_def Let_def)
qed

lemma readi_loop_ok:
  fixes st :: "'a fstate_scheme"
  assumes "fs_inv st i" "tx_can p {} k st" "tot \<le> n" "off + (n - tot) \<le> MAXFILE * BSIZE"
    "\<And>x. off \<le> x \<Longrightarrow> x < off + (n - tot) \<Longrightarrow> fblock (cont st) (itable st i) (x div BSIZE) \<noteq> 0"
    "\<And>t m. t + m \<le> n \<Longrightarrow> cout t m"
  shows "\<exists>s. readi_loop p cout i off tot n st = Ok (int n, map (fbyte (cont st) (itable st i)) [off..<off + (n - tot)], s) \<and>
    tx_post p {} k (cont st) (lstate.more st) st s"
  using assms
proof (induction "n - tot" arbitrary: off tot st rule: less_induct)
  case less
  show ?case
  proof (cases "tot < n")
    case False
    with less.prems show ?thesis by (subst readi_loop.simps) (simp add: tx_post_def tx_keep_def)
  next
    case True
    let ?bn = "off div BSIZE" and ?ip = "itable st i" and ?c = "cont st"
    define m where "m = min (n - tot) (BSIZE - off mod BSIZE)"
    define a where "a = fblock ?c ?ip ?bn"
    have m: "0 < m" "m \<le> n - tot" "off mod BSIZE + m \<le> BSIZE" using True by (auto simp: m_def)
    have bn: "?bn < MAXFILE" using less.prems(4) True by (simp add: less_mult_imp_div_less)
    have a: "a \<noteq> 0" using less.prems(5) [of off] True by (simp add: a_def)
    have dev: "idev ?ip = ROOTDEV" using less.prems(1) by (simp add: fs_inv_def file_ok_def)
    obtain s1 where s1: "bmap p i ?bn st = Ok (a, s1)" "tx_post p {} k ?c (lstate.more st) st s1"
      using bmap_mapped [OF less.prems(1,2) bn] a by (auto simp: a_def)
    note e1 = tx_post_same [OF s1(2)]
    obtain bp s2 s3 where s: "bread p ROOTDEV a s1 = Ok (bp, s2)" "bdata (bufs s2 bp) = ?c a" "brelse p bp s2 = Ok s3"
      "tx_post p {} k ?c (lstate.more s1) s1 s3"
      using tx_open [OF e1(1), of a] e1 by auto
    have m1: "lstate.more s1 = lstate.more st" using s1(2) by (simp add: tx_post_def tx_keep_def)
    have p3: "tx_post p {} k ?c (lstate.more st) st s3" using tx_post_trans [OF s1(2) subset_refl s(4)] m1 by simp
    note e3 = tx_post_same [OF p3]
    have inv3: "fs_inv s3 i" using less.prems(1) e3 by (simp add: fs_inv_def)
    have "\<exists>s. readi_loop p cout i (off + m) (tot + m) n s3 =
        Ok (int n, map (fbyte (cont s3) (itable s3 i)) [off + m..<off + m + (n - (tot + m))], s) \<and>
      tx_post p {} k (cont s3) (lstate.more s3) s3 s"
    proof (rule less.hyps [OF _ inv3 e3(1)])
      show "n - (tot + m) < n - tot" using m True by simp
      show "off + m + (n - (tot + m)) \<le> MAXFILE * BSIZE" using less.prems(4) m by simp
      show "fblock (cont s3) (itable s3 i) (x div BSIZE) \<noteq> 0" if "off + m \<le> x" "x < off + m + (n - (tot + m))" for x
        using less.prems(5) [of x] that m by (simp add: e3)
    qed (use m less.prems in simp_all)
    then obtain s where r: "readi_loop p cout i (off + m) (tot + m) n s3 = Ok (int n, map (fbyte ?c ?ip) [off + m..<off + (n - tot)], s)"
      "tx_post p {} k ?c (lstate.more st) s3 s"
      using e3 m p3 by (auto simp: tx_post_def tx_keep_def)
    have chunk: "map (\<lambda>j. bdata (bufs s2 bp) (off mod BSIZE + j)) [0..<m] = map (fbyte ?c ?ip) [off..<off + m]"
    proof (rule nth_equalityI)
      fix j assume "j < length (map (\<lambda>j. bdata (bufs s2 bp) (off mod BSIZE + j)) [0..<m])"
      then have j: "j < m" by simp
      have "(off + j) div BSIZE = ?bn" "(off + j) mod BSIZE = off mod BSIZE + j"
        using same_chunk [of off BSIZE j] j m(3) by linarith+
      then show "map (\<lambda>j. bdata (bufs s2 bp) (off mod BSIZE + j)) [0..<m] ! j = map (fbyte ?c ?ip) [off..<off + m] ! j"
        using j a by (simp add: fbyte_def s(2) a_def)
    qed simp
    have "[off..<off + (n - tot)] = [off..<off + m] @ [off + m..<off + (n - tot)]"
      by (rule upt_split [OF m(2)])
    then have "readi_loop p cout i off tot n st = Ok (int n, map (fbyte ?c ?ip) [off..<off + (n - tot)], s)"
      using True s1(1) a s(1,3) dev e1 less.prems(6) [of tot m] m r(1) chunk
      by (subst readi_loop.simps) (simp add: m_def [symmetric] del: upt.simps)
    moreover have "tx_post p {} k ?c (lstate.more st) st s" by (rule tx_post_trans [OF p3 subset_refl r(2)])
    ultimately show ?thesis by blast
  qed
qed

lemma blocks_write:
  fixes d :: block
  assumes bo: "blocks_ok U (fblock c ip) (addrs ip ! NDIRECT)" and bn: "bn < MAXFILE" "fblock c ip bn = a" "a \<noteq> 0"
    and c'_def: "c' = c(a := d)"
  shows "\<And>m. fblock c' ip m = fblock c ip m" "U a" "a \<noteq> addrs ip ! NDIRECT"
    "\<And>x. x < MAXFILE * BSIZE \<Longrightarrow> fbyte c' ip x = (if x div BSIZE = bn then d (x mod BSIZE) else fbyte c ip x)"
proof -
  show da: "U a" "a \<noteq> addrs ip ! NDIRECT" using bo bn by (auto simp: blocks_ok_def)
  show fb: "fblock c' ip m = fblock c ip m" for m using da(2) by (simp add: fblock_def c'_def)
  show "fbyte c' ip x = (if x div BSIZE = bn then d (x mod BSIZE) else fbyte c ip x)" if "x < MAXFILE * BSIZE" for x
  proof (cases "x div BSIZE = bn")
    case True
    moreover have "c' a = d" by (simp add: c'_def)
    ultimately show ?thesis using bn by (simp add: fbyte_def fb)
  next
    case False
    have "x div BSIZE < MAXFILE" using that by (simp add: less_mult_imp_div_less)
    then have "fblock c ip (x div BSIZE) \<noteq> a" using bo bn False by (auto simp: blocks_ok_def)
    then have "c' (fblock c ip (x div BSIZE)) = c (fblock c ip (x div BSIZE))" by (simp add: c'_def)
    then show ?thesis using False by (simp add: fbyte_def fb)
  qed
qed

lemma file_write_block:
  fixes d :: block
  assumes f: "file_ok c s ls ip" and vol: "vol_ok c s ls" and bn: "bn < MAXFILE" "fblock c ip bn = a" "a \<noteq> 0"
    and c'_def: "c' = c(a := d)"
  shows "file_ok c' s ls ip" "vol_ok c' s ls" "\<And>m. fblock c' ip m = fblock c ip m"
    "\<And>x. x < MAXFILE * BSIZE \<Longrightarrow> fbyte c' ip x = (if x div BSIZE = bn then d (x mod BSIZE) else fbyte c ip x)"
    "a \<notin> logarea ls" "nfree c' s = nfree c s"
proof -
  have bo: "blocks_ok (data_block c s ls) (fblock c ip) (addrs ip ! NDIRECT)" using f by (simp add: file_ok_def)
  note w = blocks_write [OF bo bn c'_def]
  then have nb: "BBLOCK x s \<noteq> a" if "x < sb_size s" for x using that by (auto simp: data_block_def meta_def)
  then show "nfree c' s = nfree c s" unfolding c'_def by (rule nfree_outside)
  show "a \<notin> logarea ls" using w(2) by (simp add: data_block_def meta_def)
  note out = outside_bitmap [OF nb vol, of d, folded c'_def]
  show "vol_ok c' s ls" by (rule out(1))
  show fb: "fblock c' ip m = fblock c ip m" for m by (rule w(1))
  have "data_block c' s ls = data_block c s ls" using out(2) by blast
  then show "file_ok c' s ls ip" using f bo fb by (simp add: file_ok_def blocks_ok_def)
  show "fbyte c' ip x = (if x div BSIZE = bn then d (x mod BSIZE) else fbyte c ip x)" if "x < MAXFILE * BSIZE" for x
    by (rule w(4) [OF that])
qed

text \<open>Steps after which the bytes of the file \<open>i\<close> are \<open>g\<close>.\<close>

definition fs_wstep :: "int \<Rightarrow> int \<Rightarrow> nat \<Rightarrow> (nat \<Rightarrow> u8) \<Rightarrow> 'a fstate_scheme \<Rightarrow> 'a fstate_scheme \<Rightarrow> bool" where
  "fs_wstep p k i g st s \<longleftrightarrow> tx_can p {} k s \<and> fs_inv s i \<and> lstart s = lstart st \<and> sb s = sb st \<and> disk s = disk st \<and>
     writes s = writes st \<and> outstanding s = outstanding st \<and> committing s = committing st \<and> lsize s = lsize st \<and>
     fstate.more s = fstate.more st \<and>
     (\<forall>i'. i' \<noteq> i \<longrightarrow> itable s i' = itable st i') \<and> (itable s i)\<lparr>addrs := []\<rparr> = (itable st i)\<lparr>addrs := []\<rparr> \<and>
     (\<forall>bn < MAXFILE. fblock (cont st) (itable st i) bn \<noteq> 0 \<longrightarrow> fblock (cont s) (itable s i) bn = fblock (cont st) (itable st i) bn) \<and>
     (\<forall>x < MAXFILE * BSIZE. fbyte (cont s) (itable s i) x = g x)"

lemma fs_step_wstep: "fs_step p k i st s \<Longrightarrow> fs_wstep p k i (fbyte (cont st) (itable st i)) st s"
  by (simp add: fs_step_def fs_wstep_def)

lemma fs_wstep_trans:
  "fs_wstep p k i g st s \<Longrightarrow> fs_wstep p k' i g' s s' \<Longrightarrow> fs_wstep p k' i g' st s'"
  by (simp add: fs_wstep_def)

lemma fs_wstep_cong:
  "fs_wstep p k i g st s \<Longrightarrow> (\<And>x. x < MAXFILE * BSIZE \<Longrightarrow> g x = g' x) \<Longrightarrow> fs_wstep p k i g' st s"
  by (simp add: fs_wstep_def)

lemma fs_wstep_mono: "fs_wstep p k i g st s \<Longrightarrow> 0 \<le> j \<Longrightarrow> j \<le> k \<Longrightarrow> fs_wstep p j i g st s"
  by (auto simp: fs_wstep_def intro: tx_can_mono)

text \<open>The bytes of a file after \<open>bs\<close> was written at \<open>off\<close>.\<close>

definition put_at :: "nat \<Rightarrow> u8 list \<Rightarrow> (nat \<Rightarrow> u8) \<Rightarrow> nat \<Rightarrow> u8" where
  "put_at off bs g x = (if off \<le> x \<and> x < off + length bs then bs ! (x - off) else g x)"

lemma overlay_put_at:
  assumes fb: "fblock c ip (n div BSIZE) = a" "a \<noteq> 0" and len: "n mod BSIZE + length bs \<le> BSIZE"
  shows "(if x div BSIZE = n div BSIZE then overlay (n mod BSIZE) bs (c a) (x mod BSIZE) else fbyte c ip x) =
    put_at n bs (fbyte c ip) x"
proof (cases "n \<le> x \<and> x < n + length bs")
  case True
  then have "n mod BSIZE + (x - n) < BSIZE" using len by linarith
  from same_chunk [OF this] True show ?thesis by (auto simp: put_at_def overlay_def)
next
  case out: False
  have "overlay (n mod BSIZE) bs (c a) (x mod BSIZE) = fbyte c ip x" if xb: "x div BSIZE = n div BSIZE"
  proof -
    have "n = n div BSIZE * BSIZE + n mod BSIZE" "x = n div BSIZE * BSIZE + x mod BSIZE" using xb by (metis div_mult_mod_eq)+
    then have "\<not> (n mod BSIZE \<le> x mod BSIZE \<and> x mod BSIZE < n mod BSIZE + length bs)" using out by linarith
    then show ?thesis using xb fb by (auto simp: overlay_def fbyte_def)
  qed
  with out show ?thesis by (auto simp: put_at_def)
qed

lemma put_at_glue: "k \<le> length bs \<Longrightarrow> put_at (n + k) (drop k bs) (put_at n (take k bs) g) x = put_at n bs g x"
  by (auto simp: put_at_def)

lemma writei_chunk:
  fixes st :: "'a fstate_scheme"
  assumes inv: "fs_inv st i" and can: "tx_can p {} k st" "6 \<le> k"
    and off: "off < MAXFILE * BSIZE" "off mod BSIZE + length bs \<le> BSIZE"
  obtains (full) s1 where "bmap p i (off div BSIZE) st = Ok (0, s1)" "fs_step p (k - 6) i st s1" "nfree (cont s1) (sb s1) = 0"
      "nfree (cont st) (sb st) \<le> 2"
  | (wrote) a s1 bp s2 s3 s4 where "bmap p i (off div BSIZE) st = Ok (a, s1)" "a \<noteq> 0" "idev (itable s1 i) = ROOTDEV"
      "bread p ROOTDEV a s1 = Ok (bp, s2)" "log_write bp (set_data bp (overlay (off mod BSIZE) bs) s2) = Ok s3"
      "brelse p bp s3 = Ok s4" "fs_wstep p (k - 6) i (put_at off bs (fbyte (cont st) (itable st i))) st s4"
      "fblock (cont s4) (itable s4 i) (off div BSIZE) \<noteq> 0" "nfree (cont st) (sb st) \<le> nfree (cont s4) (sb s4) + 2"
proof -
  let ?bn = "off div BSIZE" and ?o = "off mod BSIZE"
  have bn: "?bn < MAXFILE" using off(1) by (simp add: less_mult_imp_div_less)
  obtain a s1 where s1: "bmap p i ?bn st = Ok (a, s1)" "fs_step p (k - 5) i st s1" "a \<noteq> 0 \<longrightarrow> fblock (cont s1) (itable s1 i) ?bn = a"
    "a = 0 \<longrightarrow> nfree (cont s1) (sb s1) = 0" "nfree (cont st) (sb st) \<le> nfree (cont s1) (sb s1) + 2"
    using bmap_ok [OF inv can(1) _ bn] can(2) by auto
  show thesis
  proof (cases "a = 0")
    case True
    from that(1) s1 True fs_step_mono [OF s1(2), of "k - 6"] can(2) show thesis by simp
  next
    case False
    have can1: "tx_can p {} (k - 5) s1" and inv1: "fs_inv s1 i" using s1(2) unfolding fs_step_def by blast+
    have vol1: "vol_ok (cont s1) (sb s1) (lstart s1)" and f1: "file_ok (cont s1) (sb s1) (lstart s1) (itable s1 i)"
      using inv1 by (simp_all add: fs_inv_def)
    have fb: "fblock (cont s1) (itable s1 i) ?bn = a" using s1(3) False by simp
    define d where "d = overlay ?o bs (cont s1 a)"
    note w = file_write_block [OF f1 vol1 bn fb False refl [of "(cont s1)(a := d)"]]
    obtain bp s2 s3 s4 where u: "bread p ROOTDEV a s1 = Ok (bp, s2)" "log_write bp (set_data bp (overlay ?o bs) s2) = Ok s3"
      "brelse p bp s3 = Ok s4" "tx_post p {} (k - 5 - 1) ((cont s1)(a := d)) (lstate.more s1) s1 s4"
      unfolding d_def by (rule tx_upd [OF can1, of a "overlay ?o bs"]) (use can(2) w(5) in auto)
    have e: "cont s4 = (cont s1)(a := d)" "itable s4 = itable s1" "sb s4 = sb s1" "lstart s4 = lstart s1" "tx_can p {} (k - 6) s4"
      "disk s4 = disk s1" "writes s4 = writes s1" "outstanding s4 = outstanding s1" "committing s4 = committing s1" "lsize s4 = lsize s1" "fstate.more s4 = fstate.more s1"
      using u(4) fs_more [of s4 s1] by (simp_all add: tx_post_def tx_keep_def del: fun_upd_apply)
    have byte: "(if x div BSIZE = ?bn then d (x mod BSIZE) else fbyte (cont s1) (itable s1 i) x) =
        put_at off bs (fbyte (cont s1) (itable s1 i)) x" for x
      unfolding d_def using off(2) by (intro overlay_put_at [OF fb False]) simp
    have "fs_wstep p (k - 6) i (put_at off bs (fbyte (cont s1) (itable s1 i))) s1 s4"
      unfolding fs_wstep_def fs_inv_def e using w(1-4) byte e(5) by auto
    from fs_wstep_trans [OF fs_step_wstep [OF s1(2)] this]
    have "fs_wstep p (k - 6) i (put_at off bs (fbyte (cont st) (itable st i))) st s4"
      by (rule fs_wstep_cong) (use s1(2) in \<open>simp add: put_at_def fs_step_def\<close>)
    moreover have "fblock (cont s4) (itable s4 i) ?bn \<noteq> 0" unfolding e using w(3) fb False by simp
    moreover have "idev (itable s1 i) = ROOTDEV" using f1 by (simp add: file_ok_def)
    moreover have "nfree (cont st) (sb st) \<le> nfree (cont s4) (sb s4) + 2" using s1(5) w(6) by (simp only: e(1,3))
    ultimately show thesis using that(2) [OF s1(1) False _ u(1-3)] by blast
  qed
qed

definition nblk :: "nat \<Rightarrow> nat \<Rightarrow> nat" where
  "nblk off n = (off mod BSIZE + n + (BSIZE - 1)) div BSIZE"

lemma nblk_step:
  assumes "m = min n (BSIZE - off mod BSIZE)" "m < n"
  shows "nblk off n = Suc (nblk (off + m) (n - m))"
proof -
  have m: "m = BSIZE - off mod BSIZE" using assms by simp
  define q r where "q = off div BSIZE" and "r = off mod BSIZE"
  have "off = q * BSIZE + r" "r < BSIZE" by (simp_all add: q_def r_def)
  with m have "off + m = (q + 1) * BSIZE" by (simp add: r_def [symmetric])
  then have z: "(off + m) mod BSIZE = 0" by simp
  have "off mod BSIZE + n = BSIZE + (n - m)" using m assms(2) mod_less_divisor [of BSIZE off, OF zero_less_numeral] by linarith
  then show ?thesis using z by (simp add: nblk_def)
qed

lemma writei_loop_ok:
  fixes st :: "'a fstate_scheme"
  assumes "fs_inv st i" "tx_can p {} k st" "tot \<le> n" "off + (n - tot) \<le> MAXFILE * BSIZE" "length data = n"
    "tot < n \<Longrightarrow> 6 * int (nblk off (n - tot)) + j \<le> k" "0 \<le> j" "j \<le> k"
    "\<And>t m. t + m \<le> n \<Longrightarrow> cin t m = (take m (drop t data), True)"
  shows "\<exists>tot' s. writei_loop p cin i off tot n st = Ok (tot', off + (tot' - tot), s) \<and> tot \<le> tot' \<and> tot' \<le> n \<and>
    fs_wstep p j i (put_at off (take (tot' - tot) (drop tot data)) (fbyte (cont st) (itable st i))) st s \<and>
    (\<forall>x. off \<le> x \<and> x < off + (tot' - tot) \<longrightarrow> fblock (cont s) (itable s i) (x div BSIZE) \<noteq> 0) \<and>
    (tot' < n \<longrightarrow> nfree (cont s) (sb s) = 0) \<and>
    nfree (cont st) (sb st) \<le> nfree (cont s) (sb s) + (if tot < n then 2 * nblk off (n - tot) else 0)"
  using assms
proof (induction "n - tot" arbitrary: off tot st k rule: less_induct)
  case less
  show ?case
  proof (cases "tot < n")
    case False
    have "fs_wstep p j i (fbyte (cont st) (itable st i)) st st"
      using fs_step_wstep [OF fs_step_refl [OF tx_can_mono [OF less.prems(2,7,8)] less.prems(1)]] .
    with False less.prems(3) show ?thesis
      by (subst writei_loop.simps) (auto simp: put_at_def fs_wstep_def)
  next
    case True
    define m where "m = min (n - tot) (BSIZE - off mod BSIZE)"
    define bs where "bs = take m (drop tot data)"
    have m: "0 < m" "m \<le> n - tot" "off mod BSIZE + m \<le> BSIZE" using True by (auto simp: m_def)
    have bs: "length bs = m" "cin tot m = (bs, True)" "take m bs = bs"
      using less.prems(5,9) m True by (simp_all add: bs_def)
    have nb1: "1 \<le> nblk off (n - tot)" using True by (simp add: nblk_def)
    have k6: "6 \<le> k - j" "6 \<le> k"
    proof -
      show "6 \<le> k - j" "6 \<le> k" using nb1 less.prems(6) [OF True] less.prems(7) by linarith+
    qed
    have lt: "off < MAXFILE * BSIZE" using less.prems(4) True by linarith
    have run: "writei_loop p cin i off tot n st =
        bnd (bmap p i (off div BSIZE) st) (\<lambda>(addr, st).
          if addr = 0 then Ok (tot, off, st)
          else bnd (bread p (idev (itable st i)) addr st) (\<lambda>(bp, st).
                bnd (log_write bp (set_data bp (overlay (off mod BSIZE) bs) st)) (\<lambda>st.
                bnd (brelse p bp st) (\<lambda>st. writei_loop p cin i (off + m) (tot + m) n st))))"
      unfolding writei_loop.simps [of p cin i off tot n st] Let_def m_def [symmetric] bs(2) fst_conv snd_conv bs(3) not_True_eq_False if_False
      using True by simp
    show ?thesis
    proof (rule writei_chunk [OF less.prems(1,2) k6(2) lt, of bs])
      show "off mod BSIZE + length bs \<le> BSIZE" using m bs by simp
    next
      fix s1 assume s1: "bmap p i (off div BSIZE) st = Ok (0, s1)" "fs_step p (k - 6) i st s1" "nfree (cont s1) (sb s1) = 0"
        "nfree (cont st) (sb st) \<le> 2"
      have "fs_wstep p j i (fbyte (cont st) (itable st i)) st s1"
        using fs_wstep_mono [OF fs_step_wstep [OF s1(2)] less.prems(7)] k6 by simp
      then have "fs_wstep p j i (put_at off (take (tot - tot) (drop tot data)) (fbyte (cont st) (itable st i))) st s1"
        by (rule fs_wstep_cong) (auto simp: put_at_def)
      then show ?thesis using run s1(1,3,4) True nb1 by (intro exI [of _ tot] exI [of _ s1]) auto
    next
      fix a s1 bp s2 s3 s4
      assume u: "bmap p i (off div BSIZE) st = Ok (a, s1)" "a \<noteq> 0" "idev (itable s1 i) = ROOTDEV"
        "bread p ROOTDEV a s1 = Ok (bp, s2)" "log_write bp (set_data bp (overlay (off mod BSIZE) bs) s2) = Ok s3"
        "brelse p bp s3 = Ok s4" "fs_wstep p (k - 6) i (put_at off bs (fbyte (cont st) (itable st i))) st s4"
        "fblock (cont s4) (itable s4 i) (off div BSIZE) \<noteq> 0" "nfree (cont st) (sb st) \<le> nfree (cont s4) (sb s4) + 2"
      have i4: "fs_inv s4 i" "tx_can p {} (k - 6) s4" using u(7) unfolding fs_wstep_def by blast+
      have "\<exists>tot' s. writei_loop p cin i (off + m) (tot + m) n s4 = Ok (tot', off + m + (tot' - (tot + m)), s) \<and>
        tot + m \<le> tot' \<and> tot' \<le> n \<and>
        fs_wstep p j i (put_at (off + m) (take (tot' - (tot + m)) (drop (tot + m) data)) (fbyte (cont s4) (itable s4 i))) s4 s \<and>
        (\<forall>x. off + m \<le> x \<and> x < off + m + (tot' - (tot + m)) \<longrightarrow> fblock (cont s) (itable s i) (x div BSIZE) \<noteq> 0) \<and>
        (tot' < n \<longrightarrow> nfree (cont s) (sb s) = 0) \<and>
        nfree (cont s4) (sb s4) \<le> nfree (cont s) (sb s) + (if tot + m < n then 2 * nblk (off + m) (n - (tot + m)) else 0)"
      proof (rule less.hyps [OF _ i4])
        show "n - (tot + m) < n - tot" "tot + m \<le> n" "off + m + (n - (tot + m)) \<le> MAXFILE * BSIZE"
          using m True less.prems(4) by simp_all
        show "6 * int (nblk (off + m) (n - (tot + m))) + j \<le> k - 6" if "tot + m < n"
          using less.prems(6) [OF True] nblk_step [OF m_def] that m(2) by (simp add: algebra_simps)
        show "j \<le> k - 6" using k6 by simp
      qed (use less.prems in simp_all)
      then obtain tot' s where r: "writei_loop p cin i (off + m) (tot + m) n s4 = Ok (tot', off + m + (tot' - (tot + m)), s)"
        "tot + m \<le> tot'" "tot' \<le> n"
        "fs_wstep p j i (put_at (off + m) (take (tot' - (tot + m)) (drop (tot + m) data)) (fbyte (cont s4) (itable s4 i))) s4 s"
        "\<forall>x. off + m \<le> x \<and> x < off + m + (tot' - (tot + m)) \<longrightarrow> fblock (cont s) (itable s i) (x div BSIZE) \<noteq> 0"
        "tot' < n \<longrightarrow> nfree (cont s) (sb s) = 0"
        "nfree (cont s4) (sb s4) \<le> nfree (cont s) (sb s) + (if tot + m < n then 2 * nblk (off + m) (n - (tot + m)) else 0)"
        by blast
      have fr: "nfree (cont st) (sb st) \<le> nfree (cont s) (sb s) + 2 * nblk off (n - tot)"
        using r(7) u(9) nb1 nblk_step [OF m_def] m(2) by (auto split: if_splits)
      let ?D = "take (tot' - tot) (drop tot data)"
      have D: "?D = bs @ take (tot' - (tot + m)) (drop (tot + m) data)"
      proof -
        have "tot' - tot = m + (tot' - (tot + m))" using r(2) by simp
        then show ?thesis by (simp only: take_add drop_drop bs_def) (simp add: add.commute)
      qed
      have glue: "put_at (off + m) (take (tot' - (tot + m)) (drop (tot + m) data)) (fbyte (cont s4) (itable s4 i)) x =
          put_at off ?D (fbyte (cont st) (itable st i)) x" if "x < MAXFILE * BSIZE" for x
      proof -
        have "fbyte (cont s4) (itable s4 i) x = put_at off bs (fbyte (cont st) (itable st i)) x"
          using u(7) that by (simp add: fs_wstep_def)
        then show ?thesis unfolding D using bs(1) by (auto simp: put_at_def nth_append)
      qed
      have "fs_wstep p j i (put_at off ?D (fbyte (cont st) (itable st i))) st s"
        by (rule fs_wstep_cong [OF fs_wstep_trans [OF u(7) r(4)] glue])
      moreover have "fblock (cont s) (itable s i) (x div BSIZE) \<noteq> 0" if "off \<le> x" "x < off + (tot' - tot)" for x
      proof (cases "off + m \<le> x")
        case True
        with that(2) r(2,5) show ?thesis by auto
      next
        case False
        then have "off mod BSIZE + (x - off) < BSIZE" using m(3) by linarith
        from same_chunk [OF this] that(1) have "x div BSIZE = off div BSIZE" by simp
        moreover have "off div BSIZE < MAXFILE" using lt by (simp add: less_mult_imp_div_less)
        ultimately show ?thesis using r(4) u(8) by (simp add: fs_wstep_def)
      qed
      moreover have "writei_loop p cin i off tot n st = Ok (tot', off + (tot' - tot), s)"
        using run u r(1,2) by simp
      ultimately show ?thesis using r(2,3,6) m True fr by (intro exI [of _ tot'] exI [of _ s]) auto
    qed
  qed
qed

lemma file_inode_block:
  assumes f: "file_ok c s ls ip" and vol: "vol_ok c s ls" and n: "n < ninodes s"
  shows "file_ok (c(IBLOCK n s := d)) s ls ip" "vol_ok (c(IBLOCK n s := d)) s ls"
    "fblock (c(IBLOCK n s := d)) ip m = fblock c ip m"
    "x < MAXFILE * BSIZE \<Longrightarrow> fbyte (c(IBLOCK n s := d)) ip x = fbyte c ip x" "IBLOCK n s \<notin> logarea ls"
proof -
  let ?c = "c(IBLOCK n s := d)"
  have bo: "blocks_ok (data_block c s ls) (fblock c ip) (addrs ip ! NDIRECT)" using f by (simp add: file_ok_def)
  have nd: "a \<noteq> IBLOCK n s" if "data_block c s ls a" for a using that n by (auto simp: data_block_def meta_def)
  have nb: "BBLOCK x s \<noteq> IBLOCK n s" if "x < sb_size s" for x using that n vol by (auto simp: vol_ok_def)
  show "IBLOCK n s \<notin> logarea ls" using n vol by (auto simp: vol_ok_def)
  note out = outside_bitmap [OF nb vol, of d]
  show "vol_ok ?c s ls" by (rule out(1))
  have fb: "fblock ?c ip m = fblock c ip m" for m
    using bo nd by (auto simp: fblock_def blocks_ok_def)
  then show "fblock ?c ip m = fblock c ip m" .
  have "data_block ?c s ls = data_block c s ls" using out(2) by blast
  then show "file_ok ?c s ls ip" using f bo fb by (simp add: file_ok_def blocks_ok_def)
  show "fbyte ?c ip x = fbyte c ip x" if "x < MAXFILE * BSIZE"
  proof -
    have "x div BSIZE < MAXFILE" using that by (simp add: less_mult_imp_div_less)
    then have "fblock c ip (x div BSIZE) \<noteq> 0 \<Longrightarrow> fblock c ip (x div BSIZE) \<noteq> IBLOCK n s"
      using bo nd by (simp add: blocks_ok_def)
    then have "fblock c ip (x div BSIZE) \<noteq> 0 \<Longrightarrow> ?c (fblock c ip (x div BSIZE)) = c (fblock c ip (x div BSIZE))" by simp
    then show ?thesis unfolding fbyte_def fb by simp
  qed
qed

lemma iupdate_ok:
  fixes st :: "'a fstate_scheme"
  assumes inv: "fs_inv st i" and can: "tx_can p {} k st" "1 \<le> k"
  defines "B \<equiv> IBLOCK (inum (itable st i)) (sb st)"
  shows "\<exists>s. iupdate p i st = Ok s \<and> fs_wstep p (k - 1) i (fbyte (cont st) (itable st i)) st s \<and> itable s = itable st \<and>
    cont s = (cont st)(B := put_dinode (dinode_off (inum (itable st i))) (itable st i) (cont st B)) \<and>
    (\<forall>bn. fblock (cont s) (itable s i) bn = fblock (cont st) (itable st i) bn) \<and> nfree (cont s) (sb s) = nfree (cont st) (sb st)"
proof -
  let ?ip = "itable st i"
  have vol: "vol_ok (cont st) (sb st) (lstart st)" and f: "file_ok (cont st) (sb st) (lstart st) ?ip"
    using inv by (simp_all add: fs_inv_def)
  have ip: "idev ?ip = ROOTDEV" "inum ?ip < ninodes (sb st)" using f by (simp_all add: file_ok_def)
  define d where "d = put_dinode (dinode_off (inum ?ip)) ?ip (cont st B)"
  note fi = file_inode_block(1-4) [OF f vol ip(2), where d = d, folded B_def] file_inode_block(5) [OF f vol ip(2), folded B_def]
  obtain bp s1 s2 s3 where s: "bread p ROOTDEV B st = Ok (bp, s1)" "lstate.more s1 = lstate.more st"
    "log_write bp (set_data bp (put_dinode (dinode_off (inum ?ip)) ?ip) s1) = Ok s2" "brelse p bp s2 = Ok s3"
    "tx_post p {} (k - 1) ((cont st)(B := d)) (lstate.more st) st s3"
    unfolding d_def by (rule tx_upd [OF can(1), of B "put_dinode (dinode_off (inum ?ip)) ?ip"]) (use can(2) fi(5) in auto)
  have e: "cont s3 = (cont st)(B := d)" "itable s3 = itable st" "sb s3 = sb st" "lstart s3 = lstart st" "tx_can p {} (k - 1) s3"
    "disk s3 = disk st" "writes s3 = writes st" "outstanding s3 = outstanding st" "committing s3 = committing st" "lsize s3 = lsize st" "fstate.more s3 = fstate.more st"
    using s(5) fs_more [of s3 st] by (simp_all add: tx_post_def tx_keep_def del: fun_upd_apply)
  have "iupdate p i st = Ok s3" using s fs_more [OF s(2)] ip(1) by (simp add: iupdate_def B_def [symmetric])
  moreover have "fs_wstep p (k - 1) i (fbyte (cont st) ?ip) st s3"
    unfolding fs_wstep_def fs_inv_def e using fi e(5) by auto
  moreover have "nfree (cont s3) (sb s3) = nfree (cont st) (sb st)"
    unfolding e(1,3) by (rule nfree_outside) (use vol ip(2) in \<open>auto simp: vol_ok_def B_def\<close>)
  ultimately show ?thesis using e(1,2) fi(3) by (auto simp: d_def)
qed

text \<open>A file without holes up to its size.\<close>

definition solid :: "'a fstate_scheme \<Rightarrow> nat \<Rightarrow> bool" where
  "solid st i \<longleftrightarrow> unat (isize (itable st i)) \<le> MAXFILE * BSIZE \<and>
     (\<forall>x < unat (isize (itable st i)). fblock (cont st) (itable st i) (x div BSIZE) \<noteq> 0)"

lemma isize_irrelevant [simp]:
  "fblock c (ip\<lparr>isize := z\<rparr>) = fblock c ip" "fbyte c (ip\<lparr>isize := z\<rparr>) = fbyte c ip"
  "file_ok c s ls (ip\<lparr>isize := z\<rparr>) = file_ok c s ls ip"
proof -
  show fb: "fblock c (ip\<lparr>isize := z\<rparr>) = fblock c ip" by (simp add: fblock_def fun_eq_iff)
  show "fbyte c (ip\<lparr>isize := z\<rparr>) = fbyte c ip" by (rule ext) (simp add: fbyte_def fb)
  show "file_ok c s ls (ip\<lparr>isize := z\<rparr>) = file_ok c s ls ip" by (simp add: file_ok_def fb)
qed

lemma addrs_only:
  assumes "(x :: inode)\<lparr>addrs := []\<rparr> = y\<lparr>addrs := []\<rparr>"
  shows "isize x = isize y" "inum x = inum y" "itype x = itype y" "ilk x = ilk y" "iref x = iref y" "nlink x = nlink y"
  using assms by (cases x; cases y; simp)+

lemma writei_ok:
  fixes st :: "'a fstate_scheme"
  assumes inv: "fs_inv st i" and sol: "solid st i" and can: "tx_can p {} k st"
    and n: "unat n = length data" and off: "off \<le> isize (itable st i)" "unat off + length data \<le> MAXFILE * BSIZE"
    and room: "6 * int (nblk (unat off) (length data)) + 1 \<le> k"
    and cin: "\<And>t m. t + m \<le> length data \<Longrightarrow> cin t m = (take m (drop t data), True)"
  shows "\<exists>tot s. writei p cin i off n st = Ok (int tot, s) \<and> tot \<le> length data \<and> fs_inv s i \<and> solid s i \<and>
    tx_can p {} 0 s \<and> disk s = disk st \<and> sb s = sb st \<and> lstart s = lstart st \<and> outstanding s = outstanding st \<and>
    committing s = committing st \<and> lsize s = lsize st \<and> fstate.more s = fstate.more st \<and>
    (itable s i)\<lparr>addrs := [], isize := 0\<rparr> = (itable st i)\<lparr>addrs := [], isize := 0\<rparr> \<and>
    unat (isize (itable s i)) = max (unat (isize (itable st i))) (unat off + tot) \<and>
    (\<forall>x < MAXFILE * BSIZE. fbyte (cont s) (itable s i) x = put_at (unat off) (take tot data) (fbyte (cont st) (itable st i)) x) \<and>
    (tot < length data \<longrightarrow> nfree (cont s) (sb s) = 0) \<and>
    nfree (cont st) (sb st) \<le> nfree (cont s) (sb s) + 2 * nblk (unat off) (length data)"
proof -
  let ?o = "unat off"
  have sm: "?o + unat n < 2 ^ 32" using off(2) n by simp
  then have sum: "unat (off + n) = ?o + length data" using n by (simp add: unat_word_ariths take_bit_nat_eq_self)
  have g: "\<not> (isize (itable st i) < off \<or> off + n < off)" "\<not> MAXFILE * BSIZE < unat (off + n)"
    using off sum by (auto simp: word_less_nat_alt word_le_nat_alt)
  have "0 \<le> int (nblk ?o (length data))" by simp
  then have k1: "1 \<le> k" using room by linarith
  obtain tot s1 where s1: "writei_loop p cin i ?o 0 (length data) st = Ok (tot, ?o + (tot - 0), s1)" "tot \<le> length data"
    "fs_wstep p 1 i (put_at ?o (take (tot - 0) (drop 0 data)) (fbyte (cont st) (itable st i))) st s1"
    "\<forall>x. ?o \<le> x \<and> x < ?o + (tot - 0) \<longrightarrow> fblock (cont s1) (itable s1 i) (x div BSIZE) \<noteq> 0"
    "tot < length data \<longrightarrow> nfree (cont s1) (sb s1) = 0"
    "nfree (cont st) (sb st) \<le> nfree (cont s1) (sb s1) + (if 0 < length data then 2 * nblk ?o (length data - 0) else 0)"
    using writei_loop_ok [OF inv can, of 0 "length data" ?o data 1 cin] off(2) room k1 cin by auto
  have w: "tx_can p {} 1 s1" "fs_inv s1 i" "disk s1 = disk st" "sb s1 = sb st" "lstart s1 = lstart st"
    "(itable s1 i)\<lparr>addrs := []\<rparr> = (itable st i)\<lparr>addrs := []\<rparr>"
    "\<forall>bn < MAXFILE. fblock (cont st) (itable st i) bn \<noteq> 0 \<longrightarrow> fblock (cont s1) (itable s1 i) bn = fblock (cont st) (itable st i) bn"
    "\<forall>x < MAXFILE * BSIZE. fbyte (cont s1) (itable s1 i) x = put_at ?o (take tot data) (fbyte (cont st) (itable st i)) x"
    "outstanding s1 = outstanding st" "committing s1 = committing st" "lsize s1 = lsize st" "fstate.more s1 = fstate.more st"
    using s1(3) unfolding fs_wstep_def by auto
  have sz: "isize (itable s1 i) = isize (itable st i)" using addrs_only(1) [OF w(6)] .
  define s2 where "s2 = (if unat (isize (itable s1 i)) < ?o + tot then upd_inode i (\<lambda>ip. ip\<lparr>isize := of_nat (?o + tot)\<rparr>) s1 else s1)"
  have b2: "cont s2 = cont s1" "sb s2 = sb s1" "lstart s2 = lstart s1" "disk s2 = disk s1" "tx_can p {} 1 s2"
    "fblock (cont s2) (itable s2 i) = fblock (cont s1) (itable s1 i)" "fbyte (cont s2) (itable s2 i) = fbyte (cont s1) (itable s1 i)"
    "outstanding s2 = outstanding s1" "committing s2 = committing s1" "lsize s2 = lsize s1" "fstate.more s2 = fstate.more s1"
    "(itable s2 i)\<lparr>addrs := [], isize := 0\<rparr> = (itable s1 i)\<lparr>addrs := [], isize := 0\<rparr>"
    using w(1) by (auto simp: s2_def)
  have inv2: "fs_inv s2 i" using w(2) by (auto simp: s2_def fs_inv_def)
  have "unat (of_nat (?o + tot) :: u32) = ?o + tot"
    using s1(2) off(2) by (simp only: unat_of_nat) (simp add: take_bit_nat_eq_self)
  then have sz2: "unat (isize (itable s2 i)) = max (unat (isize (itable st i))) (?o + tot)"
    by (auto simp: s2_def sz simp del: of_nat_add)
  obtain s3 where s3: "iupdate p i s2 = Ok s3" "fs_wstep p (1 - 1) i (fbyte (cont s2) (itable s2 i)) s2 s3" "itable s3 = itable s2"
    "\<forall>bn. fblock (cont s3) (itable s3 i) bn = fblock (cont s2) (itable s2 i) bn" "nfree (cont s3) (sb s3) = nfree (cont s1) (sb s1)"
    using iupdate_ok [OF inv2 b2(5)] b2(1,2) by auto
  have nf: "tot < length data \<longrightarrow> nfree (cont s3) (sb s3) = 0" "nfree (cont st) (sb st) \<le> nfree (cont s3) (sb s3) + 2 * nblk ?o (length data)"
    using s1(5,6) s3(5) by (simp_all split: if_splits)
  have w3: "tx_can p {} 0 s3" "fs_inv s3 i" "disk s3 = disk s2" "sb s3 = sb s2" "lstart s3 = lstart s2"
    "\<forall>x < MAXFILE * BSIZE. fbyte (cont s3) (itable s3 i) x = fbyte (cont s2) (itable s2 i) x"
    "outstanding s3 = outstanding s2" "committing s3 = committing s2" "lsize s3 = lsize s2" "fstate.more s3 = fstate.more s2"
    using s3(2) unfolding fs_wstep_def by auto
  have "(itable s1 i)\<lparr>addrs := [], isize := 0\<rparr> = (itable st i)\<lparr>addrs := [], isize := 0\<rparr>"
    using arg_cong [OF w(6), of "\<lambda>x. x\<lparr>isize := 0\<rparr>"] by simp
  then have meta3: "(itable s3 i)\<lparr>addrs := [], isize := 0\<rparr> = (itable st i)\<lparr>addrs := [], isize := 0\<rparr>"
    using b2(12) s3(3) by simp
  have run: "writei p cin i off n st = Ok (int tot, s3)"
    using g s1(1) s3(1) n by (simp add: writei_def s2_def [symmetric] Let_def)
  have "solid s3 i"
    unfolding solid_def s3(3) sz2
  proof (intro conjI allI impI)
    show "max (unat (isize (itable st i))) (?o + tot) \<le> MAXFILE * BSIZE" using sol off(2) s1(2) by (simp add: solid_def)
    fix x assume x: "x < max (unat (isize (itable st i))) (?o + tot)"
    show "fblock (cont s3) (itable s2 i) (x div BSIZE) \<noteq> 0"
    proof (cases "x < unat (isize (itable st i))")
      case True
      then have "x div BSIZE < MAXFILE" "fblock (cont st) (itable st i) (x div BSIZE) \<noteq> 0"
        using sol by (auto simp: solid_def less_mult_imp_div_less)
      then show ?thesis using w(7) s3(3,4) b2(6) by auto
    next
      case False
      then have "?o \<le> x" "x < ?o + (tot - 0)" using x off(1) by (auto simp: word_le_nat_alt)
      then show ?thesis using s1(4) s3(3,4) b2(6) by auto
    qed
  qed
  moreover have "\<forall>x < MAXFILE * BSIZE. fbyte (cont s3) (itable s3 i) x = put_at ?o (take tot data) (fbyte (cont st) (itable st i)) x"
    using w3(6) b2(7) w(8) by simp
  ultimately show ?thesis using run s1(2) w3(1-5,7-10) sz2 s3(3) b2 w(3-5,9-12) meta3 nf by (intro exI [of _ tot] exI [of _ s3]) simp
qed

lemma readi_ok:
  fixes st :: "'a fstate_scheme"
  assumes inv: "fs_inv st i" and sol: "solid st i" and can: "tx_can p {} k st" and off: "off \<le> isize (itable st i)" "unat off + unat n < 2 ^ 32"
    and cout: "\<And>t m. t + m \<le> unat n \<Longrightarrow> cout t m"
  defines "c \<equiv> min (unat n) (unat (isize (itable st i)) - unat off)"
  shows "\<exists>s. readi p cout i off n st = Ok (int c, map (fbyte (cont st) (itable st i)) [unat off..<unat off + c], s) \<and>
    tx_post p {} k (cont st) (lstate.more st) st s"
proof -
  let ?sz = "isize (itable st i)"
  have sum: "unat (off + n) = unat off + unat n" using off(2) by (simp add: unat_word_ariths take_bit_nat_eq_self)
  have g: "\<not> (?sz < off \<or> off + n < off)" using off sum by (auto simp: word_less_nat_alt word_le_nat_alt)
  have cl: "unat (if ?sz < off + n then ?sz - off else n) = c"
    using off(1) sum by (auto simp: c_def word_less_nat_alt word_le_nat_alt unat_sub)
  have le: "unat off + c \<le> unat ?sz" using off(1) by (auto simp: c_def word_le_nat_alt)
  obtain s where "readi_loop p cout i (unat off) 0 c st = Ok (int c, map (fbyte (cont st) (itable st i)) [unat off..<unat off + (c - 0)], s)"
    "tx_post p {} k (cont st) (lstate.more st) st s"
    using readi_loop_ok [OF inv can, of 0 c "unat off" cout] le sol cout by (auto simp: solid_def c_def)
  then show ?thesis unfolding readi_def Let_def cl using g by auto
qed

subsection \<open>Properties\<close>

text \<open>A small volume for the witnesses: 60 blocks, the log from block 2 on, one block of inodes (33),
  the bitmap (34), and a process inside its first transaction with an empty file in slot 0.\<close>

definition sample_sb :: superblock where
  "sample_sb = \<lparr>magic = FSMAGIC, sb_size = 60, nblocks = 25, ninodes = 16, nlog = 30, logstart = 2, inodestart = 33, bmapstart = 34\<rparr>"

definition sample_disk :: "u32 \<Rightarrow> block" where
  "sample_disk = (\<lambda>_ _. 0)(34 := fold bit_set [0..<35] (\<lambda>_. 0))"

definition sample_inode :: inode where
  "sample_inode = \<lparr>idev = 1, inum = 1, iref = 1, ilk = initsleeplock [], ivalid = True, itype = T_FILE, major = 0, minor = 0,
     nlink = 1, isize = 0, addrs = replicate 13 0\<rparr>"

definition sample_fs :: fstate where
  "sample_fs = lstate.extend ((lboot 2 sample_disk)\<lparr>outstanding := 1\<rparr>) \<lparr>sb = sample_sb, itable = (\<lambda>_. sample_inode)\<rparr>"

lemma sample_fs_simps [simp]:
  "bufs sample_fs = bufs (bboot sample_disk)" "disk sample_fs = sample_disk" "lstart sample_fs = 2" "ldev sample_fs = ROOTDEV"
  "lhblock sample_fs = replicate LOGSIZE 0" "outstanding sample_fs = 1" "lhn sample_fs = 0" "lsize sample_fs = 30"
  "sb sample_fs = sample_sb" "itable sample_fs = (\<lambda>_. sample_inode)"
proof -
  have l: "lhn (lboot 2 sample_disk) = 0" "lsize (lboot 2 sample_disk) = 30" by (simp_all add: lboot_def bstate.defs)
  show "bufs sample_fs = bufs (bboot sample_disk)" "disk sample_fs = sample_disk" "lstart sample_fs = 2" "ldev sample_fs = ROOTDEV"
    "lhblock sample_fs = replicate LOGSIZE 0" "outstanding sample_fs = 1" "lhn sample_fs = 0" "lsize sample_fs = 30"
    "sb sample_fs = sample_sb" "itable sample_fs = (\<lambda>_. sample_inode)"
    using lboot_simps [of 2 sample_disk] l by (simp_all add: sample_fs_def lstate.defs)
qed

lemma sample_fs_view: "bc_ok sample_fs" "arefs (bview_of sample_fs) m = 0" "cont sample_fs = sample_disk" "aheld (bview_of sample_fs) m = None"
proof -
  have v: "bview_of sample_fs = bview_of (lboot 2 sample_disk)" "bc_ok sample_fs = bc_ok (lboot 2 sample_disk)"
    by (rule bview_ext; simp add: sample_fs_def lstate.defs)+
  show ok: "bc_ok sample_fs" and r: "arefs (bview_of sample_fs) m = 0" for m using lboot_ok v by simp_all
  show "cont sample_fs = sample_disk" "aheld (bview_of sample_fs) m = None" using bview_clean [OF ok r] by (simp_all add: fun_eq_iff)
qed

lemma sample_can: "0 \<le> k \<Longrightarrow> k \<le> 26 \<Longrightarrow> tx_can p {} k sample_fs"
  using sample_fs_view by (simp add: tx_can_def tx_held_def logged_def)

lemma logarea_2: "m \<in> logarea 2 \<Longrightarrow> 2 \<le> unat m \<and> unat m \<le> 31"
  by (auto simp: logarea_def logaddr_def unat_word_ariths unat_of_nat take_bit_nat_eq_self)

lemma fold_bit_set: "bit_used (fold bit_set is d) j \<longleftrightarrow> j \<in> set is \<or> bit_used d j"
  by (induction "is" arbitrary: d) auto

lemma sample_used: "b < sb_size sample_sb \<Longrightarrow> blk_used sample_disk sample_sb b \<longleftrightarrow> unat b < 35"
proof -
  assume "b < sb_size sample_sb"
  then have ub: "unat b < 60" by (simp add: sample_sb_def word_less_nat_alt)
  then have "BBLOCK b sample_sb = 34" by (simp add: BBLOCK_def sample_sb_def)
  moreover have "\<not> bit_used (\<lambda>_. 0) j" for j by (simp add: bit_used_def)
  ultimately show ?thesis using ub by (simp add: blk_used_def sample_disk_def fold_bit_set del: upt.simps)
qed

lemma sample_vol: "vol_ok sample_disk sample_sb 2"
proof -
  have ub: "unat b < 60" if "b < sb_size sample_sb" for b using that by (simp add: sample_sb_def word_less_nat_alt)
  have un: "unat n div 16 = 0" if "n < ninodes sample_sb" for n using that by (simp add: sample_sb_def word_less_nat_alt)
  have bb: "BBLOCK b sample_sb = 34" if "b < sb_size sample_sb" for b using ub [OF that] by (simp add: BBLOCK_def sample_sb_def)
  have ib: "IBLOCK n sample_sb = 33" if "n < ninodes sample_sb" for n using un [OF that] by (simp add: IBLOCK_def sample_sb_def)
  note us = sample_used
  have "b \<notin> meta sample_sb 2" if "b < sb_size sample_sb" "35 \<le> unat b" for b
    using that bb ib logarea_2 [of b] by (auto simp: meta_def)
  with us show ?thesis
    using bb ib logarea_2 [of 34] logarea_2 [of 33] by (auto simp: vol_ok_def) (simp_all add: sample_sb_def)
qed

lemma sample_fs_inv: "fs_inv sample_fs i" "solid sample_fs i"
proof -
  have hole: "fblock c sample_inode bn = 0" if "bn < MAXFILE" for c bn
    using that by (simp add: fblock_def sample_inode_def nth_Cons' del: replicate.simps)
  then show "fs_inv sample_fs i"
    using sample_vol by (simp add: fs_inv_def sample_fs_view file_ok_def blocks_ok_def)
      (simp add: sample_inode_def sample_sb_def)
  show "solid sample_fs i" by (simp add: solid_def) (simp add: sample_inode_def)
qed

text \<open>
  C24: Writing and reading back. On a consistent volume, let a process write \<open>data\<close> at an offset
  inside or at the end of a file without holes, with enough room in the log. Then \<open>writei\<close>
  returns a count \<open>tot\<close>, smaller than the length only when it has run into a full disk: no block is free at the end,
  and at the beginning at most twice as many were free as the write touches. So with more free blocks than that everything
  is written. The file is as long
  as before or reaches to the end of the written part; every byte of the file is the written
  one in that part and the old one elsewhere; the volume and the file are consistent again;
  nothing has reached the disk yet; and \<open>readi\<close> of that part returns exactly the written bytes.
\<close>

theorem writei_readi:
  fixes st :: "'a fstate_scheme"
  assumes "fs_inv st i" "solid st i" "tx_can p {} k st" "unat n = length data"
    "off \<le> isize (itable st i)" "unat off + length data \<le> MAXFILE * BSIZE" "6 * int (nblk (unat off) (length data)) + 1 \<le> k"
  shows "\<exists>tot s. writei p (kin data) i off n st = Ok (int tot, s) \<and> tot \<le> length data \<and>
    (tot < length data \<longrightarrow> bitmap_full (cont s) (sb s) \<and> nfree (cont st) (sb st) \<le> 2 * nblk (unat off) (length data)) \<and>
    fs_inv s i \<and> solid s i \<and> disk s = disk st \<and>
    unat (isize (itable s i)) = max (unat (isize (itable st i))) (unat off + tot) \<and>
    (\<forall>x < MAXFILE * BSIZE. fbyte (cont s) (itable s i) x =
       (if unat off \<le> x \<and> x < unat off + tot then data ! (x - unat off) else fbyte (cont st) (itable st i) x)) \<and>
    (\<exists>s'. readi p kout i off (of_nat tot) s = Ok (int tot, take tot data, s') \<and> cont s' = cont s)"
proof -
  obtain tot s where s: "writei p (kin data) i off n st = Ok (int tot, s)" "tot \<le> length data" "fs_inv s i" "solid s i"
    "tx_can p {} 0 s" "disk s = disk st" "unat (isize (itable s i)) = max (unat (isize (itable st i))) (unat off + tot)"
    "\<forall>x < MAXFILE * BSIZE. fbyte (cont s) (itable s i) x = put_at (unat off) (take tot data) (fbyte (cont st) (itable st i)) x"
    "tot < length data \<longrightarrow> nfree (cont s) (sb s) = 0" "nfree (cont st) (sb st) \<le> nfree (cont s) (sb s) + 2 * nblk (unat off) (length data)"
    using writei_ok [OF assms, of "kin data"] by (auto simp: kin_def)
  have ut: "unat (of_nat tot :: u32) = tot" using s(2) assms(6) by (simp add: unat_of_nat take_bit_nat_eq_self)
  have le: "off \<le> isize (itable s i)" using s(7) assms(5) by (simp add: word_le_nat_alt)
  have "min (unat (of_nat tot :: u32)) (unat (isize (itable s i)) - unat off) = tot" using ut s(7) by simp
  moreover have "map (fbyte (cont s) (itable s i)) [unat off..<unat off + tot] = take tot data"
    using s(2,8) assms(6) by (intro nth_equalityI) (auto simp: put_at_def)
  ultimately obtain s' where s': "readi p kout i off (of_nat tot) s = Ok (int tot, take tot data, s')"
    "tx_post p {} 0 (cont s) (lstate.more s) s s'"
    using readi_ok [OF s(3,4,5) le, of "of_nat tot" kout] s(2) assms(6) ut by (auto simp: kout_def)
  have "cont s' = cont s" using tx_post_same [OF s'(2)] by simp
  moreover have "bitmap_full (cont s) (sb s) \<and> nfree (cont st) (sb st) \<le> 2 * nblk (unat off) (length data)" if "tot < length data"
    using s(9,10) that nfree_full [of "cont s" "sb s"] by simp
  ultimately show ?thesis using s s'(1) by (intro exI [of _ tot] exI [of _ s]) (auto simp: put_at_def)
qed

text \<open>The sample volume has 25 free blocks.\<close>

lemma sample_nfree: "8 < nfree sample_disk sample_sb"
proof -
  have "{51, 52, 53, 54, 55, 56, 57, 58, 59} \<subseteq> {b. b < sb_size sample_sb \<and> \<not> blk_used sample_disk sample_sb b}"
    using sample_used by (auto simp: sample_sb_def)
  from card_mono [OF _ this] show ?thesis by (simp add: nfree_def)
qed

theorem writei_readi_witness:
  "\<exists>s s'. writei 1 (kin [104, 105]) 0 0 2 sample_fs = Ok (2, s) \<and> readi 1 kout 0 0 2 s = Ok (2, [104, 105], s')"
proof -
  have nb: "nblk (unat (0 :: u32)) (length [104, 105 :: u8]) = 1" by (simp add: nblk_def)
  obtain tot s s' where "writei 1 (kin [104, 105]) 0 0 2 sample_fs = Ok (int tot, s)" "tot \<le> 2"
    "tot < 2 \<longrightarrow> nfree (cont sample_fs) (sb sample_fs) \<le> 2" "readi 1 kout 0 0 (of_nat tot) s = Ok (int tot, take tot [104, 105], s')"
    using writei_readi [OF sample_fs_inv sample_can [of 20], where data = "[104, 105]" and n = 2 and off = 0 and p = 1 and i = 0] nb
    by auto
  moreover from this have "tot = 2" using sample_nfree by (auto simp: sample_fs_view)
  ultimately show ?thesis by auto
qed

text \<open>
  C25: The block allocator. \<open>balloc\<close> returns the lowest block that the bitmap shows as free, marks it
  and fills it with zeros, and changes nothing else; it returns \<open>0\<close>, with nothing changed, exactly
  when no block is free. Freeing the block restores the bitmap, and freeing it again panics.
\<close>

theorem balloc_bfree:
  fixes st :: "'a fstate_scheme"
  assumes "vol_ok (cont st) (sb st) (lstart st)" "tx_can p {} k st" "4 \<le> k"
  shows "\<exists>b s. balloc p ROOTDEV st = Ok (b, s) \<and>
    (if bitmap_full (cont st) (sb st) then b = 0 \<and> cont s = cont st
     else b < sb_size (sb st) \<and> \<not> blk_used (cont st) (sb st) b \<and> (\<forall>x < b. blk_used (cont st) (sb st) x) \<and>
       (\<forall>x < sb_size (sb st). blk_used (cont s) (sb s) x \<longleftrightarrow> x = b \<or> blk_used (cont st) (sb st) x) \<and>
       (\<forall>j < BSIZE. cont s b j = 0) \<and>
       (\<forall>m. m \<noteq> b \<and> m \<noteq> BBLOCK b (sb st) \<longrightarrow> cont s m = cont st m) \<and>
       (\<exists>s'. bfree p ROOTDEV b s = Ok s' \<and> cont s' (BBLOCK b (sb st)) = cont st (BBLOCK b (sb st)) \<and>
          bfree p ROOTDEV b s' = Err (Panic ''freeing free block'')))"
proof -
  have ok: "alloc_ok {} st" using assms(1) by (auto simp: alloc_ok_def vol_ok_def meta_def)
  obtain b s where s: "balloc p ROOTDEV st = Ok (b, s)" "alloc_result p {} k st b s"
    using balloc_from_ok [OF assms(2) _ _ ok, of 0] assms(3) by (auto simp: balloc_def)
  show ?thesis
  proof (cases "bitmap_full (cont st) (sb st)")
    case True
    with s show ?thesis by (simp add: alloc_result_def tx_post_def tx_keep_def)
  next
    case False
    then have b: "b < sb_size (sb st)" "\<not> blk_used (cont st) (sb st) b" "\<forall>x < b. blk_used (cont st) (sb st) x"
      "tx_post p {} (k - 2) (alloc_cont (sb st) b (cont st)) (lstate.more st) st s"
      using s(2) by (simp_all add: alloc_result_def)
    have e: "cont s = alloc_cont (sb st) b (cont st)" "sb s = sb st" "lstart s = lstart st" "tx_can p {} (k - 2) s"
      using b(4) fs_more [of s st] by (simp_all add: tx_post_def tx_keep_def)
    note al = alloc_cont_effect [OF assms(1) b(1,2), folded e(1)]
    let ?B = "BBLOCK b (sb st)" and ?i = "unat b mod BPB"
    have home: "?B \<notin> {} \<union> logarea (lstart s)" using assms(1) b(1) e(3) by (auto simp: vol_ok_def)
    have nb: "?B \<noteq> b" using al(6) b(1) by (auto simp: meta_def)
    obtain s' where s': "bfree p ROOTDEV b s = Ok s'" "tx_post p {} (k - 2 - 1) (free_cont (sb s) b (cont s)) (lstate.more s) s s'"
      using bfree_ok(1) [OF e(4) _ _ home [folded e(2)]] al(3) [OF b(1)] e(2) assms(3) by auto
    have e': "cont s' = free_cont (sb st) b (cont s)" "sb s' = sb st" "lstart s' = lstart st" "tx_can p {} (k - 2 - 1) s'"
      using s'(2) fs_more [of s' s] e by (simp_all add: tx_post_def tx_keep_def)
    have rest: "cont s' ?B = cont st ?B"
      using bit_clear_set [of "cont st ?B" ?i] b(2) nb by (simp add: e'(1) e(1) free_cont_def alloc_cont_def blk_used_def)
    then have "\<not> blk_used (cont s') (sb s') b" using b(2) e'(2) by (simp add: blk_used_def)
    then have "bfree p ROOTDEV b s' = Err (Panic ''freeing free block'')"
      using bfree_ok(2) [OF e'(4), of b] home e' e(3) assms(3) by auto
    moreover have "cont s m = cont st m" if "m \<noteq> b" "m \<noteq> ?B" for m using that by (simp add: e(1) alloc_cont_def)
    ultimately show ?thesis using False s(1) b al(1,3) e(2) s'(1) rest by (intro exI [of _ b] exI [of _ s]) (simp add: zeroed_def)
  qed
qed

theorem balloc_bfree_witness: "\<exists>b s. balloc 1 ROOTDEV sample_fs = Ok (b, s)"
  using balloc_bfree [of sample_fs 1 20] sample_vol sample_can [of 20 1] by (auto simp: sample_fs_view)

text \<open>The elements of a path: what is between its slashes, empty parts left out.\<close>

fun split_slash :: "u8 list \<Rightarrow> u8 list list" where
  "split_slash [] = [[]]"
| "split_slash (c # cs) =
     (if c = 47 then [] # split_slash cs
      else case split_slash cs of [] \<Rightarrow> [[c]] | w # ws \<Rightarrow> (c # w) # ws)"

definition elements :: "u8 list \<Rightarrow> u8 list list" where
  "elements path = filter (\<lambda>w. w \<noteq> []) (split_slash path)"

lemma split_slash_takeWhile:
  "split_slash s = takeWhile (\<lambda>c. c \<noteq> 47) s #
     (case dropWhile (\<lambda>c. c \<noteq> 47) s of [] \<Rightarrow> [] | _ # r \<Rightarrow> split_slash r)"
  by (induction s) auto

lemma elements_skip [simp]: "elements (dropWhile (\<lambda>c. c = 47) s) = elements s"
  by (induction s) (auto simp: elements_def)

lemma elements_first:
  assumes "s \<noteq> []" "hd s \<noteq> 47"
  shows "elements s = takeWhile (\<lambda>c. c \<noteq> 47) s # elements (dropWhile (\<lambda>c. c \<noteq> 47) s)"
proof -
  have w: "takeWhile (\<lambda>c. c \<noteq> 47) s \<noteq> []" using assms by (cases s) auto
  show ?thesis
  proof (cases "dropWhile (\<lambda>c. c \<noteq> 47) s")
    case Nil
    show ?thesis unfolding elements_def split_slash_takeWhile [of s] Nil using w by simp
  next
    case (Cons a r)
    then have "a = 47" using hd_dropWhile [of "\<lambda>c. c \<noteq> 47" s] by simp
    then show ?thesis unfolding elements_def split_slash_takeWhile [of s] Cons using w by simp
  qed
qed

lemma cstr_overlay:
  assumes "0 \<notin> set w"
  shows "DIRSIZ \<le> length w \<Longrightarrow> cstr (overlay 0 (take DIRSIZ w) name) DIRSIZ = take DIRSIZ w"
    "length w < DIRSIZ \<Longrightarrow> cstr ((overlay 0 w name)(length w := 0)) DIRSIZ = w"
proof -
  show "cstr (overlay 0 (take DIRSIZ w) name) DIRSIZ = take DIRSIZ w" if "DIRSIZ \<le> length w"
  proof -
    have "map (overlay 0 (take DIRSIZ w) name) [0..<DIRSIZ] = take DIRSIZ w"
      using that by (intro nth_equalityI) (auto simp: overlay_def simp del: upt.simps)
    moreover have "\<forall>x\<in>set (take DIRSIZ w). x \<noteq> 0" using assms by (auto dest: in_set_takeD)
    ultimately show ?thesis by (simp add: cstr_def takeWhile_eq_all_conv del: upt.simps)
  qed
  show "cstr ((overlay 0 w name)(length w := 0)) DIRSIZ = w" if "length w < DIRSIZ"
  proof -
    let ?f = "(overlay 0 w name)(length w := 0)"
    have "[0..<DIRSIZ] = [0..<length w] @ [length w..<DIRSIZ]"
      using that upt_add_eq_append [of 0 "length w" "DIRSIZ - length w"] by simp
    moreover have "[length w..<DIRSIZ] = length w # [Suc (length w)..<DIRSIZ]" using that by (rule upt_conv_Cons)
    moreover have "map ?f [0..<length w] = w" by (intro nth_equalityI) (auto simp: overlay_def)
    ultimately have "map ?f [0..<DIRSIZ] = w @ 0 # map ?f [Suc (length w)..<DIRSIZ]" by (simp del: upt.simps)
    moreover have "\<forall>x\<in>set w. x \<noteq> 0" using assms by auto
    ultimately show ?thesis by (simp add: cstr_def takeWhile_append takeWhile_eq_all_conv del: upt.simps)
  qed
qed

text \<open>
  Path elements. On a path without NUL bytes \<open>skipelem\<close> returns null exactly when the path has
  no element; otherwise it puts the first element, cut at \<open>DIRSIZ\<close> bytes, into the name buffer,
  returns a path with exactly the remaining elements and without a leading slash, which is
  empty iff there are none: so the loop of \<open>namex\<close> visits the elements of the path in order.
\<close>

theorem skipelem_elements:
  assumes "0 \<notin> set path"
  shows "case elements path of
      [] \<Rightarrow> skipelem path name = None
    | w # ws \<Rightarrow> \<exists>rest name'. skipelem path name = Some (rest, name') \<and> cstr name' DIRSIZ = take DIRSIZ w \<and>
        elements rest = ws \<and> (rest = [] \<longleftrightarrow> ws = []) \<and> (rest \<noteq> [] \<longrightarrow> hd rest \<noteq> 47)"
proof -
  define s where "s = dropWhile (\<lambda>c. c = 47) path"
  have es: "elements path = elements s" unfolding s_def by (rule elements_skip [symmetric])
  show ?thesis
  proof (cases "s = []")
    case True
    then show ?thesis using es by (simp add: elements_def skipelem_def s_def [symmetric] Let_def)
  next
    case False
    have hd: "hd s \<noteq> 47" using False hd_dropWhile [of "\<lambda>c. c = 47" path] by (auto simp: s_def)
    define w where "w = takeWhile (\<lambda>c. c \<noteq> 47) s"
    define rest where "rest = dropWhile (\<lambda>c. c = 47) (dropWhile (\<lambda>c. c \<noteq> 47) s)"
    have el: "elements path = w # elements rest" using elements_first [OF False hd] es by (simp add: w_def rest_def)
    have "set w \<subseteq> set path" unfolding w_def s_def by (auto dest!: set_takeWhileD set_dropWhileD)
    then have z: "0 \<notin> set w" using assms by blast
    have r: "rest \<noteq> [] \<longrightarrow> hd rest \<noteq> 47" using hd_dropWhile [of "\<lambda>c. c = 47" "dropWhile (\<lambda>c. c \<noteq> 47) s"] by (auto simp: rest_def)
    have ne: "rest = [] \<longleftrightarrow> elements rest = []"
      using elements_first [of rest] r by (cases "rest = []") (auto simp: elements_def)
    define name' where "name' = (if DIRSIZ \<le> length w then overlay 0 (take DIRSIZ w) name else (overlay 0 w name)(length w := 0))"
    have "skipelem path name = Some (rest, name')"
      using False by (simp add: skipelem_def s_def [symmetric] w_def [symmetric] rest_def [symmetric] name'_def Let_def)
    moreover have "cstr name' DIRSIZ = take DIRSIZ w"
    proof (cases "DIRSIZ \<le> length w")
      case True
      then show ?thesis unfolding name'_def if_P [OF True] by (rule cstr_overlay(1) [OF z])
    next
      case False
      then have "length w < DIRSIZ" "take DIRSIZ w = w" by simp_all
      then show ?thesis unfolding name'_def if_not_P [OF False] using cstr_overlay(2) [OF z] by metis
    qed
    ultimately show ?thesis unfolding el list.case using r ne by blast
  qed
qed

theorem skipelem_elements_witness:
  "\<exists>rest name'. skipelem [47, 97, 47, 47, 98] (\<lambda>_. 0) = Some (rest, name') \<and> cstr name' DIRSIZ = [97] \<and> elements rest = [[98]]"
  using skipelem_elements [of "[47, 97, 47, 47, 98]" "\<lambda>_. 0"] by (auto simp: elements_def)

subsection \<open>Inodes on the disk\<close>

lemma fold_put32_below: "j < b \<Longrightarrow> fold (\<lambda>i d. put32 d (b + 4 * i) (xs ! i)) is d j = d j"
  by (induction "is" arbitrary: d) (auto simp: put32_other)

lemma fold_put32_at: "i < n \<Longrightarrow> get32 (fold (\<lambda>i d. put32 d (b + 4 * i) (xs ! i)) [0..<n] d) (b + 4 * i) = xs ! i"
proof (induction n)
  case (Suc n)
  then show ?case by (cases "i = n") auto
qed simp

lemma get16_cong: "d i = e i \<Longrightarrow> d (i + 1) = e (i + 1) \<Longrightarrow> get16 d i = get16 e i"
  by (simp add: get16_def)

lemma get_put_dinode:
  assumes "length (addrs ip) = NDIRECT + 1"
  shows "get_dinode k (put_dinode k ip d) jp = jp\<lparr>itype := itype ip, major := major ip, minor := minor ip, nlink := nlink ip,
    isize := isize ip, addrs := addrs ip\<rparr>"
proof -
  define h where "h = put32 (put16 (put16 (put16 (put16 d k (itype ip)) (k + 2) (major ip)) (k + 4) (minor ip)) (k + 6) (nlink ip)) (k + 8) (isize ip)"
  have e: "put_dinode k ip d = fold (\<lambda>j d. put32 d (k + 12 + 4 * j) (addrs ip ! j)) [0..<NDIRECT + 1] h"
    by (simp only: put_dinode_def h_def)
  have below: "put_dinode k ip d j = h j" if "j < k + 12" for j unfolding e using that by (rule fold_put32_below)
  have g16: "get16 (put_dinode k ip d) o' = get16 h o'" if "o' + 2 \<le> k + 12" for o' using that by (intro get16_cong below) auto
  have g32: "get32 (put_dinode k ip d) (k + 8) = get32 h (k + 8)" using g16 [of "k + 8"] g16 [of "k + 8 + 2"] by (simp add: get32_def)
  have h16: "get16 h o' = get16 (put16 (put16 (put16 (put16 d k (itype ip)) (k + 2) (major ip)) (k + 4) (minor ip)) (k + 6) (nlink ip)) o'"
    if "o' + 2 \<le> k + 8" for o' unfolding h_def using that by (intro get16_cong put32_other) auto
  have ad: "map (\<lambda>j. get32 (put_dinode k ip d) (k + 12 + 4 * j)) [0..<NDIRECT + 1] = addrs ip"
  proof (rule nth_equalityI)
    show "length (map (\<lambda>j. get32 (put_dinode k ip d) (k + 12 + 4 * j)) [0..<NDIRECT + 1]) = length (addrs ip)" using assms by simp
    fix j assume "j < length (map (\<lambda>j. get32 (put_dinode k ip d) (k + 12 + 4 * j)) [0..<NDIRECT + 1])"
    then have "j < NDIRECT + 1" by simp
    from fold_put32_at [OF this, of "k + 12" "addrs ip" h, folded e] this
    show "map (\<lambda>j. get32 (put_dinode k ip d) (k + 12 + 4 * j)) [0..<NDIRECT + 1] ! j = addrs ip ! j"
      by (simp del: upt.simps)
  qed
  show ?thesis unfolding get_dinode_def ad g32 by (simp add: g16 h16) (simp add: h_def)
qed

text \<open>\<open>ilock\<close> on an entry that has not been read yet.\<close>

lemma ilock_loads:
  fixes st :: "'a fstate_scheme"
  assumes can: "tx_can p {} k st" and j: "idev (itable st j) = ROOTDEV" "1 \<le> iref (itable st j)"
      "\<not> ivalid (itable st j)" "\<not> slocked (ilk (itable st j))"
  defines "ip \<equiv> get_dinode (dinode_off (inum (itable st j))) (cont st (IBLOCK (inum (itable st j)) (sb st)))
    ((itable st j)\<lparr>ilk := (ilk (itable st j))\<lparr>slocked := True, slpid := p\<rparr>\<rparr>)"
  shows "itype ip = 0 \<Longrightarrow> ilock p (Some j) st = Err (Panic ''ilock: no type'')"
    "itype ip \<noteq> 0 \<Longrightarrow> \<exists>s. ilock p (Some j) st = Ok s \<and> cont s = cont st \<and> itable s = (itable st)(j := ip\<lparr>ivalid := True\<rparr>) \<and>
       sb s = sb st \<and> lstart s = lstart st \<and> tx_can p {} k s"
proof -
  define B where "B = IBLOCK (inum (itable st j)) (sb st)"
  define l where "l = (ilk (itable st j))\<lparr>slocked := True, slpid := p\<rparr>"
  define s1 where "s1 = upd_inode j (\<lambda>ip. ip\<lparr>ilk := l\<rparr>) st"
  have can1: "tx_can p {} k s1" using can by (simp add: s1_def)
  obtain bp s2 where s2: "bread p ROOTDEV B s1 = Ok (bp, s2)" "cached_at s2 bp B" "bdata (bufs s2 bp) = cont s1 B"
    "tx_can p {B} k s2" "tx_keep {} (cont s1) (lstate.more s1) s1 s2" using tx_rd [OF can1, of B] by auto
  have m2: "itable s2 = (itable st)(j := (itable st j)\<lparr>ilk := l\<rparr>)" "sb s2 = sb st"
    using s2(5) fs_more [of s2 s1] by (simp_all add: tx_keep_def s1_def)
  define s3 where "s3 = upd_inode j (get_dinode (dinode_off (inum (itable st j))) (cont st B)) s2"
  have can3: "tx_can p {B} k s3" using s2(4) by (simp add: s3_def)
  have c3: "cached_at s3 bp B" using s2(2) by (simp add: s3_def upd_inode_def cached_at_def)
  obtain s4 where s4: "brelse p bp s3 = Ok s4" "tx_post p ({B} - {B}) k (cont s3) (lstate.more s3) s3 s4"
    using tx_rel [OF can3 _ c3] by auto
  have m4: "itable s4 = (itable st)(j := ip)" "sb s4 = sb st"
    using s4(2) fs_more [of s4 s3] m2 by (simp_all add: tx_post_def tx_keep_def s3_def ip_def B_def l_def)
  define s5 where "s5 = upd_inode j (\<lambda>ip. ip\<lparr>ivalid := True\<rparr>) s4"
  have a: "acquiresleep p (ilk (itable st j)) = Ok l" using j(4) by (simp add: acquiresleep_def l_def)
  have b: "bdata (bufs s2 bp) = cont st B" "sb s1 = sb st" using s2(3) by (simp_all add: s1_def)
  have g: "upd_inode j (get_dinode (dinode_off (inum (itable st j))) (bdata (bufs s2 bp))) s2 = s3" by (simp add: s3_def b)
  have run: "ilock p (Some j) st = (if itype ip = 0 then Err (Panic ''ilock: no type'') else Ok s5)"
    unfolding ilock_def using a j m2(1) s2(1) g s4(1) m4(1) b(2)
    by (simp add: s1_def [symmetric] Let_def B_def [symmetric] s5_def [symmetric])
  have "cont s5 = cont st" "lstart s5 = lstart st" "tx_can p {} k s5" "sb s5 = sb st"
    using s4(2) s2(5) m4(2) by (simp_all add: s5_def tx_post_def tx_keep_def s3_def s1_def)
  moreover have "itable s5 = (itable st)(j := ip\<lparr>ivalid := True\<rparr>)" by (simp add: s5_def m4(1) fun_eq_iff)
  ultimately show "itype ip = 0 \<Longrightarrow> ilock p (Some j) st = Err (Panic ''ilock: no type'')"
    "itype ip \<noteq> 0 \<Longrightarrow> \<exists>s. ilock p (Some j) st = Ok s \<and> cont s = cont st \<and> itable s = (itable st)(j := ip\<lparr>ivalid := True\<rparr>) \<and>
       sb s = sb st \<and> lstart s = lstart st \<and> tx_can p {} k s"
    using run by auto
qed

text \<open>
  C26: The inode on the disk. After \<open>iupdate\<close> of a consistent inode, \<open>ilock\<close> on any table entry for the
  same inode number that has not been read yet succeeds, loads exactly the type, device
  numbers, link count, size and block addresses that were in memory, and gives the caller the
  lock; an inode without a type makes it panic.
\<close>

theorem iupdate_ilock:
  fixes st :: "'a fstate_scheme"
  assumes "fs_inv st i" "tx_can p {} k st" "1 \<le> k"
    and j: "inum (itable st j) = inum (itable st i)" "idev (itable st j) = ROOTDEV" "1 \<le> iref (itable st j)"
      "\<not> ivalid (itable st j)" "\<not> slocked (ilk (itable st j))"
  shows "\<exists>s. iupdate p i st = Ok s \<and>
    (if itype (itable st i) = 0 then ilock p (Some j) s = Err (Panic ''ilock: no type'')
     else \<exists>s'. ilock p (Some j) s = Ok s' \<and> cont s' = cont s \<and> holdingsleep p (ilk (itable s' j)) \<and>
       ivalid (itable s' j) \<and> itype (itable s' j) = itype (itable st i) \<and> major (itable s' j) = major (itable st i) \<and>
       minor (itable s' j) = minor (itable st i) \<and> nlink (itable s' j) = nlink (itable st i) \<and>
       isize (itable s' j) = isize (itable st i) \<and> addrs (itable s' j) = addrs (itable st i))"
proof -
  let ?ip = "itable st i" and ?n = "inum (itable st i)"
  obtain s where s: "iupdate p i st = Ok s" "fs_wstep p (k - 1) i (fbyte (cont st) ?ip) st s" "itable s = itable st"
    "cont s = (cont st)(IBLOCK ?n (sb st) := put_dinode (dinode_off ?n) ?ip (cont st (IBLOCK ?n (sb st))))"
    using iupdate_ok [OF assms(1-3)] by auto
  have w: "tx_can p {} (k - 1) s" "sb s = sb st" using s(2) unfolding fs_wstep_def by blast+
  have len: "length (addrs ?ip) = NDIRECT + 1" using assms(1) by (simp add: fs_inv_def file_ok_def)
  have ld: "get_dinode (dinode_off (inum (itable s j))) (cont s (IBLOCK (inum (itable s j)) (sb s))) jp =
      jp\<lparr>itype := itype ?ip, major := major ?ip, minor := minor ?ip, nlink := nlink ?ip, isize := isize ?ip, addrs := addrs ?ip\<rparr>" for jp
    using get_put_dinode [OF len] by (simp add: s(3,4) w(2) j(1))
  note il = ilock_loads [OF w(1), of j, unfolded ld]
  show ?thesis
  proof (cases "itype ?ip = 0")
    case True
    then show ?thesis using s(1) il(1) j by (simp add: s(3))
  next
    case False
    then obtain s' where "ilock p (Some j) s = Ok s'" "cont s' = cont s" "itable s' j = ((itable st j)\<lparr>ilk := (ilk (itable st j))\<lparr>slocked := True, slpid := p\<rparr>,
        itype := itype ?ip, major := major ?ip, minor := minor ?ip, nlink := nlink ?ip, isize := isize ?ip, addrs := addrs ?ip, ivalid := True\<rparr>)"
      using il(2) j by (auto simp: s(3))
    then show ?thesis using s(1) False by (auto simp: holdingsleep_def)
  qed
qed

theorem iupdate_ilock_witness:
  "\<exists>s s'. iupdate 1 0 (upd_inode 1 (\<lambda>ip. ip\<lparr>ivalid := False\<rparr>) sample_fs) = Ok s \<and> ilock 1 (Some 1) s = Ok s' \<and>
    itype (itable s' 1) = T_FILE"
proof -
  let ?st = "upd_inode 1 (\<lambda>ip. ip\<lparr>ivalid := False\<rparr>) sample_fs"
  have a: "fs_inv ?st 0" using sample_fs_inv(1) [of 0] by (simp add: fs_inv_def)
  have b: "tx_can 1 {} 20 ?st" using sample_can [of 20 1] by simp
  show ?thesis
    using iupdate_ilock [OF a b, of 1] by (auto simp: sample_inode_def initsleeplock_def)
qed

subsection \<open>The inode table\<close>

text \<open>The table as a map: the number of references to an inode. No inode has two entries.\<close>

definition entry_of :: "'a fstate_scheme \<Rightarrow> u32 \<Rightarrow> u32 \<Rightarrow> nat \<Rightarrow> bool" where
  "entry_of st d m i \<longleftrightarrow> 0 < iref (itable st i) \<and> idev (itable st i) = d \<and> inum (itable st i) = m"

definition irefs :: "'a fstate_scheme \<Rightarrow> u32 \<Rightarrow> u32 \<Rightarrow> int" where
  "irefs st d m = (case find (entry_of st d m) [0..<NINODE] of Some i \<Rightarrow> iref (itable st i) | None \<Rightarrow> 0)"

definition itable_ok :: "'a fstate_scheme \<Rightarrow> bool" where
  "itable_ok st \<longleftrightarrow> (\<forall>i < NINODE. 0 \<le> iref (itable st i)) \<and>
     (\<forall>i < NINODE. \<forall>j < NINODE. \<forall>d m. entry_of st d m i \<and> entry_of st d m j \<longrightarrow> i = j)"

lemma itable_ok_unique:
  "itable_ok st \<Longrightarrow> i < NINODE \<Longrightarrow> j < NINODE \<Longrightarrow> entry_of st d m i \<Longrightarrow> entry_of st d m j \<Longrightarrow> i = j"
  unfolding itable_ok_def by blast

lemma irefs_Some:
  assumes "itable_ok st" "i < NINODE" "entry_of st d m i"
  shows "find (entry_of st d m) [0..<NINODE] = Some i" "irefs st d m = iref (itable st i)"
proof -
  have "find (entry_of st d m) [0..<NINODE] \<noteq> None" using assms(2,3) by (auto simp: find_None_iff simp del: upt.simps)
  then obtain j where j: "find (entry_of st d m) [0..<NINODE] = Some j" by blast
  then have "j < NINODE" "entry_of st d m j" by (auto simp: find_Some_iff simp del: upt.simps)
  with assms have "j = i" by (blast intro: itable_ok_unique)
  with j show "find (entry_of st d m) [0..<NINODE] = Some i" "irefs st d m = iref (itable st i)" by (simp_all add: irefs_def)
qed

lemma irefs_None: "(\<And>i. i < NINODE \<Longrightarrow> \<not> entry_of st d m i) \<Longrightarrow> irefs st d m = 0"
  by (simp add: irefs_def find_None_iff [THEN iffD2] del: upt.simps)

lemma irefs_pos: "itable_ok st \<Longrightarrow> (0 < irefs st d m) = (\<exists>i < NINODE. entry_of st d m i)"
proof (cases "\<exists>i < NINODE. entry_of st d m i")
  case True
  assume "itable_ok st"
  from True obtain i where i: "i < NINODE" "entry_of st d m i" by blast
  with irefs_Some(2) [OF \<open>itable_ok st\<close> i] True show ?thesis by (simp add: entry_of_def)
next
  case False
  then show ?thesis using irefs_None [of st d m] by auto
qed

text \<open>A change of the count of one entry, which may also take the entry over for another inode when
  it is free.\<close>

lemma irefs_upd:
  assumes ok: "itable_ok st" and i: "i < NINODE" and e: "idev (f (itable st i)) = d" "inum (f (itable st i)) = m" "0 \<le> iref (f (itable st i))"
    and was: "entry_of st d m i \<or> iref (itable st i) = 0 \<and> (\<forall>j < NINODE. \<not> entry_of st d m j)"
  defines "st' \<equiv> upd_inode i f st"
  shows "itable_ok st'" "irefs st' d m = iref (f (itable st i))" "(d', m') \<noteq> (d, m) \<Longrightarrow> irefs st' d' m' = irefs st d' m'"
proof -
  have other: "entry_of st' d' m' j = entry_of st d' m' j" if "j \<noteq> i" for d' m' j using that by (simp add: entry_of_def st'_def)
  have here: "entry_of st' d' m' i \<longleftrightarrow> d' = d \<and> m' = m \<and> 0 < iref (f (itable st i))" for d' m'
    using e by (auto simp: entry_of_def st'_def)
  have hold: "entry_of st d' m' i \<Longrightarrow> d' = d \<and> m' = m" for d' m' using was by (auto simp: entry_of_def)
  have uniq: "j = k" if "j < NINODE" "k < NINODE" "entry_of st' d' m' j" "entry_of st' d' m' k" for j k d' m'
  proof -
    have no: "\<not> entry_of st d m j'" if "j' < NINODE" "j' \<noteq> i" for j'
      using was that i itable_ok_unique [OF ok] by blast
    show ?thesis
    proof (cases "j = i"; cases "k = i")
      assume a: "j = i" "k \<noteq> i"
      with that here other no [of k] show ?thesis by auto
    next
      assume a: "j \<noteq> i" "k = i"
      with that here other no [of j] show ?thesis by auto
    next
      assume a: "j \<noteq> i" "k \<noteq> i"
      with that other ok show ?thesis unfolding itable_ok_def by blast
    qed simp
  qed
  have nn: "0 \<le> iref (itable st' j)" if "j < NINODE" for j using ok that e(3) by (simp add: itable_ok_def st'_def)
  show ok': "itable_ok st'" unfolding itable_ok_def using uniq nn by blast
  show "irefs st' d m = iref (f (itable st i))"
  proof (cases "0 < iref (f (itable st i))")
    case True
    then have "entry_of st' d m i" using here by simp
    from irefs_Some(2) [OF ok' i this] show ?thesis by (simp add: st'_def)
  next
    case False
    have "\<not> entry_of st' d m j" if "j < NINODE" for j
    proof (cases "j = i")
      case True
      then show ?thesis using here False by simp
    next
      case ne: False
      have "\<not> entry_of st d m j" using was that i ne itable_ok_unique [OF ok] by blast
      then show ?thesis using other ne by simp
    qed
    then show ?thesis using irefs_None [of st' d m] False e(3) by auto
  qed
  show "irefs st' d' m' = irefs st d' m'" if ne: "(d', m') \<noteq> (d, m)"
  proof (cases "\<exists>j < NINODE. entry_of st d' m' j")
    case True
    then obtain j where j: "j < NINODE" "entry_of st d' m' j" by blast
    then have ji: "j \<noteq> i" using hold ne by auto
    then have "entry_of st' d' m' j" using other j by simp
    then show ?thesis using irefs_Some(2) [OF ok' j(1)] irefs_Some(2) [OF ok j] ji by (simp add: st'_def)
  next
    case False
    then have "\<not> entry_of st' d' m' j" if "j < NINODE" for j using that here other ne by (cases "j = i") auto
    then show ?thesis using False irefs_None [of st' d' m'] irefs_None [of st d' m'] by auto
  qed
qed

lemma iget_cases:
  fixes st :: "'a fstate_scheme"
  assumes ok: "itable_ok st"
  obtains (full) "iget dev n st = Err (Panic ''iget: no inodes'')" "\<forall>i < NINODE. 0 < iref (itable st i) \<and> \<not> entry_of st dev n i"
  | (entry) i f where "iget dev n st = Ok (i, upd_inode i f st)" "i < NINODE" "idev (f (itable st i)) = dev" "inum (f (itable st i)) = n"
    "iref (f (itable st i)) = irefs st dev n + 1"
    "entry_of st dev n i \<or> iref (itable st i) = 0 \<and> (\<forall>j < NINODE. \<not> entry_of st dev n j)"
    "entry_of st dev n i \<longrightarrow> (f (itable st i))\<lparr>iref := 0\<rparr> = (itable st i)\<lparr>iref := 0\<rparr>"
    "entry_of st dev n i \<or> \<not> ivalid (f (itable st i))"
proof -
  have pred: "(\<lambda>i. 0 < iref (itable st i) \<and> idev (itable st i) = dev \<and> inum (itable st i) = n) = entry_of st dev n"
    by (simp add: entry_of_def fun_eq_iff)
  show thesis
  proof (cases "find (entry_of st dev n) [0..<NINODE]")
    case (Some i)
    then have i: "i < NINODE" "entry_of st dev n i" by (auto simp: find_Some_iff simp del: upt.simps)
    show thesis
    proof (rule entry [of i "\<lambda>ip. ip\<lparr>iref := iref ip + 1\<rparr>"])
      show "iget dev n st = Ok (i, upd_inode i (\<lambda>ip. ip\<lparr>iref := iref ip + 1\<rparr>) st)" by (simp only: iget_def pred Some option.case)
    qed (use i irefs_Some(2) [OF ok i] in \<open>auto simp: entry_of_def\<close>)
  next
    case None
    then have no: "\<not> entry_of st dev n j" if "j < NINODE" for j using that by (auto simp: find_None_iff simp del: upt.simps)
    show thesis
    proof (cases "find (\<lambda>i. iref (itable st i) = 0) [0..<NINODE]")
      case free: None
      have "0 < iref (itable st i)" if "i < NINODE" for i
      proof -
        have "iref (itable st i) \<noteq> 0" using free that by (auto simp: find_None_iff simp del: upt.simps)
        moreover have "0 \<le> iref (itable st i)" using ok that by (simp add: itable_ok_def)
        ultimately show ?thesis by simp
      qed
      with no show thesis by (intro full) (auto simp only: iget_def pred None free option.case)
    next
      case (Some i)
      then have i: "i < NINODE" "iref (itable st i) = 0" by (auto simp: find_Some_iff simp del: upt.simps)
      show thesis
      proof (rule entry [of i "\<lambda>ip. ip\<lparr>idev := dev, inum := n, iref := 1, ivalid := False\<rparr>"])
        show "iget dev n st = Ok (i, upd_inode i (\<lambda>ip. ip\<lparr>idev := dev, inum := n, iref := 1, ivalid := False\<rparr>) st)"
          by (simp only: iget_def pred None Some option.case)
      qed (use i no irefs_None [of st dev n] in auto)
    qed
  qed
qed

text \<open>
  C27: The inode table counts references. On a table where every inode has at most one entry, \<open>iget\<close>
  adds one to the count of the requested inode and to no other, returns its entry, keeps what
  the entry knows of the inode if it was there already, and keeps the table in order; it fails
  only if all entries are in use for other inodes. A following \<open>iput\<close> that is not the last
  use of an unlinked inode gives all counts back.
\<close>

theorem iget_iput_refs:
  fixes st :: "'a fstate_scheme"
  assumes "itable_ok st"
  shows "case iget dev n st of
      Err e \<Rightarrow> e = Panic ''iget: no inodes'' \<and> (\<forall>i < NINODE. 0 < iref (itable st i) \<and> \<not> entry_of st dev n i)
    | Ok (i, s) \<Rightarrow> i < NINODE \<and> entry_of s dev n i \<and> itable_ok s \<and> irefs s dev n = irefs st dev n + 1 \<and>
        (\<forall>d m. (d, m) \<noteq> (dev, n) \<longrightarrow> irefs s d m = irefs st d m) \<and>
        (0 < irefs st dev n \<longrightarrow> (itable s i)\<lparr>iref := 0\<rparr> = (itable st i)\<lparr>iref := 0\<rparr>) \<and>
        (0 < irefs st dev n \<or> \<not> ivalid (itable s i)) \<and>
        (irefs s dev n \<noteq> 1 \<or> \<not> ivalid (itable s i) \<or> nlink (itable s i) \<noteq> 0 \<longrightarrow>
           (\<exists>s'. iput p i s = Ok s' \<and> itable_ok s' \<and> irefs s' = irefs st))"
proof (rule iget_cases [OF assms, of dev n])
  assume "iget dev n st = Err (Panic ''iget: no inodes'')" "\<forall>i < NINODE. 0 < iref (itable st i) \<and> \<not> entry_of st dev n i"
  then show ?thesis by simp
next
  fix i f
  assume g: "iget dev n st = Ok (i, upd_inode i f st)" "i < NINODE" "idev (f (itable st i)) = dev" "inum (f (itable st i)) = n"
    "iref (f (itable st i)) = irefs st dev n + 1"
    "entry_of st dev n i \<or> iref (itable st i) = 0 \<and> (\<forall>j < NINODE. \<not> entry_of st dev n j)"
    "entry_of st dev n i \<longrightarrow> (f (itable st i))\<lparr>iref := 0\<rparr> = (itable st i)\<lparr>iref := 0\<rparr>"
    "entry_of st dev n i \<or> \<not> ivalid (f (itable st i))"
  define s where "s = upd_inode i f st"
  have pos: "0 \<le> irefs st dev n" "0 < irefs st dev n \<longleftrightarrow> entry_of st dev n i"
  proof -
    show "0 \<le> irefs st dev n" using irefs_pos [OF assms, of dev n] irefs_None [of st dev n] by fastforce
    show "0 < irefs st dev n \<longleftrightarrow> entry_of st dev n i" using irefs_pos [OF assms, of dev n] g(2,6) by auto
  qed
  note u = irefs_upd [where st = st and i = i and f = f and d = dev and m = n, OF assms g(2-4) _ g(6), folded s_def]
  have s: "itable_ok s" "irefs s dev n = irefs st dev n + 1" "\<And>d m. (d, m) \<noteq> (dev, n) \<Longrightarrow> irefs s d m = irefs st d m"
    using u g(5) pos by simp_all
  have at: "itable s i = f (itable st i)" by (simp add: s_def)
  have en: "entry_of s dev n i" using g(3-5) pos(1) by (simp add: entry_of_def at)
  have gives: "\<exists>s'. iput p i s = Ok s' \<and> itable_ok s' \<and> irefs s' = irefs st"
    if c: "irefs s dev n \<noteq> 1 \<or> \<not> ivalid (itable s i) \<or> nlink (itable s i) \<noteq> 0"
  proof -
    define s' where "s' = upd_inode i (\<lambda>ip. ip\<lparr>iref := iref ip - 1\<rparr>) s"
    have "iref (itable s i) = irefs s dev n" using g(5) s(2) by (simp add: at)
    then have run: "iput p i s = Ok s'" using c by (auto simp: iput_def s'_def)
    note v = irefs_upd [where st = s and i = i and f = "\<lambda>ip. ip\<lparr>iref := iref ip - 1\<rparr>" and d = dev and m = n, OF s(1) g(2), folded s'_def]
    have v': "itable_ok s'" "irefs s' dev n = irefs st dev n" "\<And>d m. (d, m) \<noteq> (dev, n) \<Longrightarrow> irefs s' d m = irefs s d m"
      using v en g(3-5) pos(1) by (simp_all add: at)
    have "irefs s' = irefs st" using v'(2,3) s(3) by (intro ext) (metis prod.inject)
    with run v'(1) show ?thesis by blast
  qed
  show ?thesis
    using g(1,2,7,8) s en gives pos(2) by (simp add: s_def [symmetric] at)
qed

theorem iget_iput_refs_witness:
  "\<exists>i s s'. iget 1 7 (sample_fs\<lparr>itable := \<lambda>_. sample_inode\<lparr>iref := 0\<rparr>\<rparr>) = Ok (i, s) \<and> irefs s 1 7 = 1 \<and> iput 1 i s = Ok s'"
proof -
  let ?st = "sample_fs\<lparr>itable := \<lambda>_. sample_inode\<lparr>iref := 0\<rparr>\<rparr>"
  have ok: "itable_ok ?st" by (simp add: itable_ok_def entry_of_def)
  have z: "irefs ?st 1 7 = 0" by (rule irefs_None) (simp add: entry_of_def)
  show ?thesis
  proof (cases "iget 1 7 ?st")
    case (Err e)
    then have "\<forall>i < NINODE. 0 < iref (itable ?st i)" using iget_iput_refs [OF ok, of 1 7 1] by simp
    then have "0 < iref (itable ?st 0)" by (rule allE [of _ 0]) simp
    then show ?thesis by simp
  next
    case (Ok q)
    then show ?thesis using iget_iput_refs [OF ok, of 1 7 1] z by (auto split: prod.splits)
  qed
qed

subsection \<open>Whole transactions\<close>

text \<open>Between transactions: nothing is referenced, logged or waiting, and the log on the disk is empty.\<close>

definition idle :: "'a lstate_scheme \<Rightarrow> bool" where
  "idle st \<longleftrightarrow> bc_ok st \<and> ldev st = ROOTDEV \<and> lhn st = 0 \<and> outstanding st = 0 \<and> \<not> committing st \<and>
     length (lhblock st) = LOGSIZE \<and> 27 \<le> lsize st \<and> hdr_n (lstart st) (disk st) = 0 \<and> (\<forall>m. arefs (bview_of st) m = 0)"

lemma idle_clean: "idle st \<Longrightarrow> acont (bview_of st) = disk st"
  using bview_clean [of st] by (auto simp: idle_def fun_eq_iff)

lemma idle_begin:
  assumes "idle st"
  defines "s \<equiv> st\<lparr>outstanding := 1\<rparr>"
  shows "begin_op st = Ok s" "tx_can p {} 26 s" "acont (bview_of s) = disk st"
proof -
  show "begin_op st = Ok s" using assms by (simp add: idle_def begin_op_def s_def)
  have v: "bview_of s = bview_of st" "bc_ok s" using assms by (simp_all add: s_def idle_def)
  have "aheld (bview_of st) m = None" for m using bview_clean [of st m] assms by (simp add: idle_def)
  then show "tx_can p {} 26 s"
    using assms v idle_clean [OF assms(1)] by (simp add: tx_can_def tx_held_def logged_def idle_def s_def)
  show "acont (bview_of s) = disk st" using v idle_clean [OF assms(1)] by simp
qed

lemma idle_end:
  fixes st :: "'a lstate_scheme"
  assumes can: "tx_can p {} k st" and one: "outstanding st = 1" "\<not> committing st" "hdr_n (lstart st) (disk st) = 0" "27 \<le> lsize st"
  shows "\<exists>s. end_op p st = Ok s \<and> idle s \<and> lstart s = lstart st \<and> lstate.more s = lstate.more st \<and> lsize s = lsize st \<and>
    (\<forall>m. m \<notin> logarea (lstart st) \<longrightarrow> disk s m = acont (bview_of st) m)"
proof -
  define s0 where "s0 = st\<lparr>outstanding := 0, committing := True\<rparr>"
  have v: "bview_of s0 = bview_of st" "bc_ok s0 = bc_ok st" by (simp_all add: s0_def)
  have tx: "tx_ok st" using can tx_ok_held [of st p] by (simp add: tx_can_def)
  then have tx0: "tx_ok s0" using v by (simp add: tx_ok_def s0_def Let_def)
  have run: "end_op p st = bnd (commit p s0) (\<lambda>st. Ok (st\<lparr>committing := False\<rparr>))"
    using one by (simp add: end_op_def s0_def Let_def)
  show ?thesis
  proof (cases "0 < lhn st")
    case True
    have pos: "0 < lhn s0" "hdr_n (lstart s0) (disk s0) = 0" using True one(3) by (simp_all add: s0_def)
    obtain s1 :: "'a lstate_scheme" where s1: "commit p s0 = Ok s1" "bc_ok s1"
      "disk s1 = upds (disk s0) (commit_writes (lstart s0) (lhblock s0) (nat (lhn s0)) (lhblock s0) (acont (bview_of s0)) (disk s0))"
      "lhn s1 = 0" "lstart s1 = lstart s0" "ldev s1 = ldev s0" "lhblock s1 = lhblock s0"
      "\<forall>m. arefs (bview_of s1) m = 0" "lsize s1 = lsize s0" "outstanding s1 = outstanding s0" "lstate.more s1 = lstate.more s0"
      using commit_ok [OF tx0 pos(1), of p] by blast
    note fin = commit_final [OF tx0 pos]
    have h: "hdr_n (lstart s0) (disk s1) = 0" unfolding s1(3) by (rule fin(1))
    have d: "disk s1 m = acont (bview_of st) m" if "m \<notin> logarea (lstart st)" for m
      unfolding s1(3) using fin(2) [of m] that v by (simp add: s0_def)
    have "idle (s1\<lparr>committing := False\<rparr>)"
      using s1 h tx0 one(4) by (simp add: idle_def tx_ok_def) (simp add: s0_def)
    with run s1 d show ?thesis by (simp add: s0_def)
  next
    case False
    then have z: "lhn st = 0" using tx by (simp add: tx_ok_def)
    have r0: "arefs (bview_of st) m = 0" for m using tx z by (simp add: tx_ok_def)
    have "commit p s0 = Ok s0" using z by (simp add: commit_def s0_def)
    moreover have "idle (s0\<lparr>committing := False\<rparr>)"
      using tx0 z r0 v one by (simp add: idle_def tx_ok_def) (simp add: s0_def)
    moreover have "disk st m = acont (bview_of st) m" for m using bview_clean [OF _ r0] tx by (simp add: tx_ok_def)
    ultimately show ?thesis using run by (simp add: s0_def)
  qed
qed

text \<open>The volume and its files do not depend on the log area.\<close>

lemma outside_log:
  assumes c: "\<forall>m. m \<notin> logarea ls \<longrightarrow> c' m = c m" and vol: "vol_ok c s ls"
  shows "vol_ok c' s ls" "file_ok c s ls ip \<Longrightarrow> file_ok c' s ls ip"
    "file_ok c s ls ip \<Longrightarrow> fblock c' ip bn = fblock c ip bn"
    "file_ok c s ls ip \<Longrightarrow> x < MAXFILE * BSIZE \<Longrightarrow> fbyte c' ip x = fbyte c ip x" "nfree c' s = nfree c s"
proof -
  have u: "blk_used c' s b = blk_used c s b" if "b < sb_size s" for b
    using c vol that by (simp add: vol_ok_def blk_used_def)
  from u show "nfree c' s = nfree c s" by (rule nfree_cong)
  from u show "vol_ok c' s ls" using vol unfolding vol_ok_def by blast
  assume f: "file_ok c s ls ip"
  have bo: "blocks_ok (data_block c s ls) (fblock c ip) (addrs ip ! NDIRECT)" using f by (simp add: file_ok_def)
  have dc: "c' a = c a" if "data_block c s ls a" for a using that c by (simp add: data_block_def meta_def)
  have fb: "fblock c' ip bn = fblock c ip bn" for bn using bo dc by (auto simp: fblock_def blocks_ok_def)
  then show "fblock c' ip bn = fblock c ip bn" .
  have "data_block c' s ls = data_block c s ls" using u by (auto simp: data_block_def fun_eq_iff)
  then show "file_ok c' s ls ip" using f bo fb by (simp add: file_ok_def blocks_ok_def)
  show "fbyte c' ip x = fbyte c ip x" if x: "x < MAXFILE * BSIZE"
  proof -
    have "x div BSIZE < MAXFILE" using x by (simp add: less_mult_imp_div_less)
    then have "fblock c ip (x div BSIZE) \<noteq> 0 \<Longrightarrow> c' (fblock c ip (x div BSIZE)) = c (fblock c ip (x div BSIZE))"
      using bo dc by (simp add: blocks_ok_def)
    then show ?thesis unfolding fbyte_def fb by simp
  qed
qed

end
