(* ===== verification/File.thy ===== *)
theory File
  imports Fsfile Console Kalloc
begin

text \<open>
  Open files, \<open>kernel/file.c\<close>, with \<open>pipealloc\<close> of \<open>kernel/pipe.c\<close> and the device switch that
  \<open>consoleinit\<close> fills.

  The state extends that of the file system with the file table, the pipes (found by the
  address of their page), the console and the page allocator. A pointer to a file is its index
  in the table. As in theory \<open>Fs\<close> the outcome of copies from and to user memory is a parameter;
  what a call delivers to the user is part of its result, and a call that goes to sleep in a
  pipe or in the console reports the index at which it continues (theory \<open>Pipe\<close>).
\<close>

abbreviation NFILE :: nat where "NFILE \<equiv> 100"
abbreviation NDEV :: int where "NDEV \<equiv> 10"

datatype filetype = FD_NONE | FD_PIPE | FD_INODE | FD_DEVICE

record open_file =
  ftype :: filetype
  fref :: int
  readable :: bool
  writable :: bool
  fpipe :: u64
  fip :: nat
  foff :: u32
  fmajor :: u16

text \<open>The functions that the device switch can point to.\<close>

datatype devfn = Consoleread | Consolewrite

record filesys = fstate +
  ftable :: "nat \<Rightarrow> open_file"
  pipes :: "u64 \<Rightarrow> pipe"
  devread :: "nat \<Rightarrow> devfn option"
  devwrite :: "nat \<Rightarrow> devfn option"
  cons :: tty
  km :: kmem

definition upd_file :: "nat \<Rightarrow> (open_file \<Rightarrow> open_file) \<Rightarrow> 'a filesys_scheme \<Rightarrow> 'a filesys_scheme" where
  "upd_file f g st = st\<lparr>ftable := (ftable st)(f := g (ftable st f))\<rparr>"

definition consoleinit :: "'a filesys_scheme \<Rightarrow> 'a filesys_scheme" where
  "consoleinit st =
     st\<lparr>cons := uartinit (cons st), devread := (devread st)(1 := Some Consoleread),
        devwrite := (devwrite st)(1 := Some Consolewrite)\<rparr>"

definition filealloc :: "'a filesys_scheme \<Rightarrow> nat option \<times> 'a filesys_scheme" where
  "filealloc st =
     (case find (\<lambda>f. fref (ftable st f) = 0) [0..<NFILE] of
        Some f \<Rightarrow> (Some f, upd_file f (\<lambda>x. x\<lparr>fref := 1\<rparr>) st)
      | None \<Rightarrow> (None, st))"

definition filedup :: "nat \<Rightarrow> 'a filesys_scheme \<Rightarrow> (nat \<times> 'a filesys_scheme) res" where
  "filedup f st =
     (if fref (ftable st f) < 1 then Err (Panic ''filedup'')
      else Ok (f, upd_file f (\<lambda>x. x\<lparr>fref := fref x + 1\<rparr>) st))"

text \<open>\<open>pipeclose\<close> on the pipe at address \<open>pa\<close>: its page is freed with the last end.\<close>

definition close_pipe :: "u64 \<Rightarrow> bool \<Rightarrow> 'a filesys_scheme \<Rightarrow> 'a filesys_scheme res" where
  "close_pipe pa wr st =
     (let (pi, free) = pipeclose wr (pipes st pa); st = st\<lparr>pipes := (pipes st)(pa := pi)\<rparr> in
      if free then bnd (kfree pa (km st)) (\<lambda>k. Ok (st\<lparr>km := k\<rparr>)) else Ok st)"

definition fileclose :: "int \<Rightarrow> nat \<Rightarrow> 'a filesys_scheme \<Rightarrow> 'a filesys_scheme res" where
  "fileclose p f st =
     (if fref (ftable st f) < 1 then Err (Panic ''fileclose'')
      else if fref (ftable st f) - 1 > 0 then Ok (upd_file f (\<lambda>x. x\<lparr>fref := fref x - 1\<rparr>) st)
      else
        let ff = ftable st f;
            st = upd_file f (\<lambda>x. x\<lparr>fref := 0, ftype := FD_NONE\<rparr>) st
        in case ftype ff of
             FD_PIPE \<Rightarrow> close_pipe (fpipe ff) (writable ff) st
           | FD_NONE \<Rightarrow> Ok st
           | _ \<Rightarrow> bnd (begin_op st) (\<lambda>st. bnd (iput p (fip ff) st) (\<lambda>st. end_op p st)))"

definition pipealloc :: "int \<Rightarrow> 'a filesys_scheme \<Rightarrow> ((nat \<times> nat) option \<times> 'a filesys_scheme) res" where
  "pipealloc p st =
     (let (f0, st) = filealloc st in
      case f0 of
        None \<Rightarrow> Ok (None, st)
      | Some f0 \<Rightarrow>
          let (f1, st) = filealloc st in
          case f1 of
            None \<Rightarrow> bnd (fileclose p f0 st) (\<lambda>st. Ok (None, st))
          | Some f1 \<Rightarrow>
              bnd (kalloc (km st)) (\<lambda>(pa, k).
                let st = st\<lparr>km := k\<rparr> in
                if pa = 0 then
                  bnd (fileclose p f0 st) (\<lambda>st. bnd (fileclose p f1 st) (\<lambda>st. Ok (None, st)))
                else
                  let st = st\<lparr>pipes := (pipes st)(pa := (pipes st pa)\<lparr>readopen := True, writeopen := True, nwrite := 0, nread := 0\<rparr>)\<rparr>;
                      st = upd_file f0 (\<lambda>x. x\<lparr>ftype := FD_PIPE, readable := True, writable := False, fpipe := pa\<rparr>) st;
                      st = upd_file f1 (\<lambda>x. x\<lparr>ftype := FD_PIPE, readable := False, writable := True, fpipe := pa\<rparr>) st
                  in Ok (Some (f0, f1), st)))"

text \<open>\<open>struct stat\<close> as the bytes that \<open>filestat\<close> copies out: \<open>dev\<close>, \<open>ino\<close>, \<open>type\<close>, \<open>nlink\<close> and, after
  four bytes of padding, \<open>size\<close>; \<open>pad\<close> is what is in the padding.\<close>

definition stat_bytes :: "u8 list \<Rightarrow> stat \<Rightarrow> u8 list" where
  "stat_bytes pad s = le_bytes 4 (st_dev s) @ le_bytes 4 (st_ino s) @ le_bytes 2 (st_type s) @ le_bytes 2 (st_nlink s) @
     pad @ le_bytes 8 (st_size s)"

definition filestat :: "int \<Rightarrow> (u8 list \<Rightarrow> bool) \<Rightarrow> u8 list \<Rightarrow> nat \<Rightarrow> 'a filesys_scheme \<Rightarrow> (int \<times> u8 list \<times> 'a filesys_scheme) res" where
  "filestat p cout pad f st =
     (if ftype (ftable st f) = FD_INODE \<or> ftype (ftable st f) = FD_DEVICE then
        bnd (ilock p (Some (fip (ftable st f))) st) (\<lambda>st.
          let s = stati (fip (ftable st f)) st; bs = stat_bytes pad s in
          bnd (iunlock p (Some (fip (ftable st f))) st) (\<lambda>st.
            if cout bs then Ok (0, bs, st) else Ok (- 1, [], st)))
      else Ok (- 1, [], st))"

definition dev_ok :: "u16 \<Rightarrow> (nat \<Rightarrow> devfn option) \<Rightarrow> bool" where
  "dev_ok mj tab \<longleftrightarrow> \<not> (sint mj < 0 \<or> NDEV \<le> sint mj \<or> tab (nat (sint mj)) = None)"

text \<open>A device entry that points to the wrong console function cannot be called with these arguments.\<close>

definition fileread ::
  "int \<Rightarrow> (nat \<Rightarrow> nat \<Rightarrow> bool) \<Rightarrow> bool \<Rightarrow> nat \<Rightarrow> i32 \<Rightarrow> 'a filesys_scheme \<Rightarrow> (run \<times> u8 list \<times> 'a filesys_scheme) res" where
  "fileread p cout killed f n st =
     (let x = ftable st f in
      if \<not> readable x then Ok (Returns (- 1), [], st)
      else case ftype x of
        FD_PIPE \<Rightarrow>
          let (r, bs, pi) = piperead (\<lambda>i. cout i 1) killed (sint n) (pipes st (fpipe x))
          in Ok (r, bs, st\<lparr>pipes := (pipes st)(fpipe x := pi)\<rparr>)
      | FD_DEVICE \<Rightarrow>
          if \<not> dev_ok (fmajor x) (devread st) then Ok (Returns (- 1), [], st)
          else
            let (r, bs, t) = consoleread (\<lambda>i. cout i 1) killed (sint n) (cons st)
            in Ok (r, bs, st\<lparr>cons := t\<rparr>)
      | FD_INODE \<Rightarrow>
          bnd (ilock p (Some (fip x)) st) (\<lambda>st.
          bnd (readi p cout (fip x) (foff x) n st) (\<lambda>(r, bs, st).
            let st = (if r > 0 then upd_file f (\<lambda>x. x\<lparr>foff := foff x + of_int r\<rparr>) st else st) in
            bnd (iunlock p (Some (fip x)) st) (\<lambda>st. Ok (Returns r, bs, st))))
      | FD_NONE \<Rightarrow> Err (Panic ''fileread''))"

text \<open>The loop of \<open>filewrite\<close> on an inode: at most \<open>max\<close> bytes per transaction.\<close>

definition max_write :: nat where
  "max_write = (10 - 1 - 1 - 2) div 2 * BSIZE"

function filewrite_loop ::
  "int \<Rightarrow> (nat \<Rightarrow> nat \<Rightarrow> u8 list \<times> bool) \<Rightarrow> nat \<Rightarrow> nat \<Rightarrow> nat \<Rightarrow> 'a filesys_scheme \<Rightarrow> (nat \<times> 'a filesys_scheme) res" where
  "filewrite_loop p cin f n i st =
     (if i < n then
        let n1 = min (n - i) max_write; ip = fip (ftable st f) in
        bnd (begin_op st) (\<lambda>st.
        bnd (ilock p (Some ip) st) (\<lambda>st.
        bnd (writei p (\<lambda>t m. cin (i + t) m) ip (foff (ftable st f)) (of_nat n1) st) (\<lambda>(r, st).
          let st = (if r > 0 then upd_file f (\<lambda>x. x\<lparr>foff := foff x + of_int r\<rparr>) st else st) in
          bnd (iunlock p (Some ip) st) (\<lambda>st.
          bnd (end_op p st) (\<lambda>st.
            if r \<noteq> int n1 then Ok (i, st) else filewrite_loop p cin f n (i + n1) st)))))
      else Ok (i, st))"
  by pat_completeness auto
termination by (relation "measure (\<lambda>(_, _, _, n, i, _). n - i)") (auto simp: max_write_def)

declare filewrite_loop.simps [simp del]

definition filewrite ::
  "int \<Rightarrow> (nat \<Rightarrow> nat \<Rightarrow> u8 list \<times> bool) \<Rightarrow> bool \<Rightarrow> nat \<Rightarrow> i32 \<Rightarrow> 'a filesys_scheme \<Rightarrow> (run \<times> 'a filesys_scheme) res" where
  "filewrite p cin killed f n st =
     (let x = ftable st f; byte = (\<lambda>i. case cin i 1 of ([c], True) \<Rightarrow> Some c | _ \<Rightarrow> None) in
      if \<not> writable x then Ok (Returns (- 1), st)
      else case ftype x of
        FD_PIPE \<Rightarrow>
          let (r, pi) = pipewrite byte killed (sint n) (pipes st (fpipe x))
          in Ok (r, st\<lparr>pipes := (pipes st)(fpipe x := pi)\<rparr>)
      | FD_DEVICE \<Rightarrow>
          if \<not> dev_ok (fmajor x) (devwrite st) then Ok (Returns (- 1), st)
          else let (r, t) = consolewrite byte (sint n) (cons st) in Ok (r, st\<lparr>cons := t\<rparr>)
      | FD_INODE \<Rightarrow>
          bnd (filewrite_loop p cin f (nat (sint n)) 0 st) (\<lambda>(i, st).
            Ok (Returns (if int i = sint n then sint n else - 1), st))
      | FD_NONE \<Rightarrow> Err (Panic ''filewrite''))"

subsection \<open>Writing through to the disk\<close>

text \<open>An open file that no one is using at the moment, between transactions.\<close>

definition file_ready :: "nat \<Rightarrow> 'a filesys_scheme \<Rightarrow> bool" where
  "file_ready f st \<longleftrightarrow> (let ip = fip (ftable st f) in idle st \<and> fs_inv st ip \<and> solid st ip \<and> 1 \<le> iref (itable st ip) \<and>
     ivalid (itable st ip) \<and> \<not> slocked (ilk (itable st ip)) \<and> foff (ftable st f) \<le> isize (itable st ip))"

lemma same_inode:
  assumes "addrs a = addrs b" "idev a = idev b" "inum a = inum b"
  shows "fblock c a = fblock c b" "fbyte c a = fbyte c b" "file_ok c s ls a = file_ok c s ls b"
proof -
  show fb: "fblock c a = fblock c b" using assms by (simp add: fblock_def fun_eq_iff)
  show "fbyte c a = fbyte c b" by (rule ext) (simp add: fbyte_def fb)
  show "file_ok c s ls a = file_ok c s ls b" using assms by (simp add: file_ok_def fb)
qed

lemma upd_file_fields [simp]:
  "bview_of (upd_file f g st) = bview_of st" "sb (upd_file f g st) = sb st" "lstart (upd_file f g st) = lstart st"
  "disk (upd_file f g st) = disk st" "outstanding (upd_file f g st) = outstanding st" "itable (upd_file f g st) = itable st"
  "tx_can p H k (upd_file f g st) = tx_can p H k st" "committing (upd_file f g st) = committing st"
  "lsize (upd_file f g st) = lsize st" "ftable (upd_file f g st) = (ftable st)(f := g (ftable st f))"
proof -
  have v: "bview_of (st\<lparr>ftable := t\<rparr>) = bview_of st" "bc_ok (st\<lparr>ftable := t\<rparr>) = bc_ok st" for t
    by (rule bview_ext; simp)+
  show "bview_of (upd_file f g st) = bview_of st" by (simp add: upd_file_def v)
  show "tx_can p H k (upd_file f g st) = tx_can p H k st"
    by (simp add: tx_can_def tx_held_def upd_file_def v logged_def)
qed (simp_all add: upd_file_def)

lemma ftable_more: "fstate.more s = fstate.more st \<Longrightarrow> ftable s = ftable st"
  by (cases s; cases st) simp

lemma ftable_upd_inode [simp]: "ftable (upd_inode i g st) = ftable st"
  by (simp add: upd_inode_def)

text \<open>One round of the loop of \<open>filewrite\<close>.\<close>

lemma filewrite_step:
  fixes st :: "'a filesys_scheme"
  assumes rdy: "file_ready f st" and ip: "ip = fip (ftable st f)" and len: "length bs = n1" "0 < n1" "n1 \<le> max_write"
    and fits: "unat (foff (ftable st f)) + n1 \<le> MAXFILE * BSIZE"
    and cin: "\<And>t m. t + m \<le> n1 \<Longrightarrow> cin t m = (take m (drop t bs), True)"
  shows "\<exists>tot s1 s2 s3 s4 s5. begin_op st = Ok s1 \<and> ilock p (Some ip) s1 = Ok s2 \<and>
    writei p cin ip (foff (ftable s2 f)) (of_nat n1) s2 = Ok (int tot, s3) \<and>
    iunlock p (Some ip) (if int tot > 0 then upd_file f (\<lambda>x. x\<lparr>foff := foff x + of_int (int tot)\<rparr>) s3 else s3) = Ok s4 \<and>
    end_op p s4 = Ok s5 \<and> tot \<le> n1 \<and> file_ready f s5 \<and> fip (ftable s5 f) = ip \<and>
    unat (foff (ftable s5 f)) = unat (foff (ftable st f)) + tot \<and>
    unat (isize (itable s5 ip)) = max (unat (isize (itable st ip))) (unat (foff (ftable st f)) + tot) \<and>
    (\<forall>x < MAXFILE * BSIZE. fbyte (disk s5) (itable s5 ip) x =
       put_at (unat (foff (ftable st f))) (take tot bs) (fbyte (disk st) (itable st ip)) x) \<and>
    (tot < n1 \<longrightarrow> nfree (disk s5) (sb s5) = 0) \<and> nfree (disk st) (sb st) \<le> nfree (disk s5) (sb s5) + 8"
proof -
  let ?o = "foff (ftable st f)"
  have r: "idle st" "fs_inv st ip" "solid st ip" "1 \<le> iref (itable st ip)" "ivalid (itable st ip)" "\<not> slocked (ilk (itable st ip))"
    "?o \<le> isize (itable st ip)"
    using rdy by (simp_all add: file_ready_def Let_def ip)
  define s1 where "s1 = st\<lparr>outstanding := 1\<rparr>"
  note b = idle_begin [OF r(1), folded s1_def]
  define l where "l = (ilk (itable st ip))\<lparr>slocked := True, slpid := p\<rparr>"
  define s2 where "s2 = upd_inode ip (\<lambda>x. x\<lparr>ilk := l\<rparr>) s1"
  have lock: "ilock p (Some ip) s1 = Ok s2"
    using r(4-6) by (simp add: ilock_def s2_def s1_def acquiresleep_def l_def upd_inode_def)
  have v2: "cont s2 = disk st" "sb s2 = sb st" "lstart s2 = lstart st" "disk s2 = disk st" "outstanding s2 = 1"
    "committing s2 = committing st" "lsize s2 = lsize st" "ftable s2 = ftable st"
    "itable s2 = (itable st)(ip := (itable st ip)\<lparr>ilk := l\<rparr>)" "cont st = disk st"
    using b(3) idle_clean [OF r(1)] by (simp_all add: s2_def) (simp_all add: s1_def)
  note same2 = same_inode [of "itable s2 ip" "itable st ip"]
  have inv2: "fs_inv s2 ip" using r(2) v2 same2 by (simp add: fs_inv_def)
  have sol2: "solid s2 ip" using r(3) v2 same2 by (simp add: solid_def)
  have can2: "tx_can p {} 26 s2" using b(2) [of p] by (simp add: s2_def)
  have un: "unat (of_nat n1 :: u32) = length bs" using len(1,3) by (simp add: unat_of_nat take_bit_nat_eq_self max_write_def)
  have nb: "nblk (unat ?o) (length bs) < 5"
  proof -
    have "unat ?o mod BSIZE + length bs + (BSIZE - 1) < 5 * BSIZE"
      using len(1,3) mod_less_divisor [of BSIZE "unat ?o"] by (simp add: max_write_def)
    then show ?thesis by (simp add: nblk_def less_mult_imp_div_less)
  qed
  then have room: "6 * int (nblk (unat ?o) (length bs)) + 1 \<le> 26" by linarith
  obtain tot s3 where s3: "writei p cin ip ?o (of_nat n1) s2 = Ok (int tot, s3)" "tot \<le> length bs" "fs_inv s3 ip" "solid s3 ip"
    "tx_can p {} 0 s3" "disk s3 = disk s2" "sb s3 = sb s2" "lstart s3 = lstart s2" "outstanding s3 = outstanding s2"
    "committing s3 = committing s2" "lsize s3 = lsize s2" "fstate.more s3 = fstate.more s2"
    "(itable s3 ip)\<lparr>addrs := [], isize := 0\<rparr> = (itable s2 ip)\<lparr>addrs := [], isize := 0\<rparr>"
    "unat (isize (itable s3 ip)) = max (unat (isize (itable s2 ip))) (unat ?o + tot)"
    "\<forall>x < MAXFILE * BSIZE. fbyte (cont s3) (itable s3 ip) x = put_at (unat ?o) (take tot bs) (fbyte (cont s2) (itable s2 ip)) x"
    "tot < length bs \<longrightarrow> nfree (cont s3) (sb s3) = 0" "nfree (cont s2) (sb s2) \<le> nfree (cont s3) (sb s3) + 2 * nblk (unat ?o) (length bs)"
    using writei_ok [OF inv2 sol2 can2 un, of ?o cin] r(7) v2(9) fits len(1) room cin by auto
  have m3: "ilk (itable s3 ip) = l" "iref (itable s3 ip) = iref (itable st ip)" "ivalid (itable s3 ip) = ivalid (itable st ip)"
    using s3(13) v2(9) by (cases "itable s3 ip"; cases "itable st ip"; simp)+
  define s3' where "s3' = (if int tot > 0 then upd_file f (\<lambda>x. x\<lparr>foff := foff x + of_int (int tot)\<rparr>) s3 else s3)"
  have v3: "cont s3' = cont s3" "sb s3' = sb st" "lstart s3' = lstart st" "disk s3' = disk st" "outstanding s3' = 1" "committing s3' = committing st"
    "lsize s3' = lsize st" "itable s3' = itable s3" "tx_can p {} 0 s3'" "ftable s3' = (ftable st)(f := (ftable st f)\<lparr>foff := ?o + of_nat tot\<rparr>)"
    using s3 v2 ftable_more [OF s3(12)] by (simp_all add: s3'_def)
  define s4 where "s4 = upd_inode ip (\<lambda>x. x\<lparr>ilk := releasesleep (ilk x)\<rparr>) s3'"
  have unlock: "iunlock p (Some ip) s3' = Ok s4"
    using m3 r(4) v3(8) by (simp add: iunlock_def s4_def holdingsleep_def l_def)
  have v4: "cont s4 = cont s3" "tx_can p {} 0 s4" "lstart s4 = lstart st" "sb s4 = sb st" "ftable s4 = ftable s3'"
    "itable s4 = (itable s3)(ip := (itable s3 ip)\<lparr>ilk := releasesleep l\<rparr>)"
    using v3 m3 by (simp_all add: s4_def)
  have one: "outstanding s4 = 1" "\<not> committing s4" "hdr_n (lstart s4) (disk s4) = 0" "27 \<le> lsize s4"
    using v3 r(1) by (simp_all add: s4_def idle_def)
  obtain s5 where s5: "end_op p s4 = Ok s5" "idle s5" "lstart s5 = lstart s4" "lstate.more s5 = lstate.more s4"
    "\<forall>m. m \<notin> logarea (lstart s4) \<longrightarrow> disk s5 m = cont s4 m"
    using idle_end [OF v4(2) one] by blast
  have v5: "sb s5 = sb st" "itable s5 = itable s4" "ftable s5 = ftable s3'" "cont s5 = disk s5" "lstart s5 = lstart st"
    using fs_more [OF s5(4)] ftable_more [of s5 s4] v4 idle_clean [OF s5(2)] s5(3) by simp_all
  note same5 = same_inode [of "itable s4 ip" "itable s3 ip"]
  have vol3: "vol_ok (cont s3) (sb st) (lstart st)" and f3: "file_ok (cont s3) (sb st) (lstart st) (itable s3 ip)"
    using s3(3,7,8) v2 by (simp_all add: fs_inv_def)
  have f3': "file_ok (cont s3) (sb st) (lstart st) (itable s4 ip)" using f3 same5 v4(6) by simp
  have out: "\<forall>m. m \<notin> logarea (lstart st) \<longrightarrow> disk s5 m = cont s3 m" using s5(5) v4 by simp
  note log = outside_log [OF out vol3]
  have inv5: "fs_inv s5 ip" using log(1) log(2) [OF f3'] v5 by (simp add: fs_inv_def)
  have sz5: "isize (itable s5 ip) = isize (itable s3 ip)" using v5(2) v4(6) by simp
  have fb5: "fblock (cont s5) (itable s5 ip) = fblock (cont s3) (itable s3 ip)"
    using log(3) [OF f3'] same5 v4(6) v5(2,4) by (intro ext) simp
  have sol5: "solid s5 ip" using s3(4) sz5 fb5 by (simp add: solid_def)
  have uo: "unat (?o + of_nat tot) = unat ?o + tot"
    using fits s3(2) len(1) by (simp add: unat_word_ariths unat_of_nat take_bit_nat_eq_self)
  have ready5: "file_ready f s5"
    using s5(2) inv5 sol5 v5(2,3) v4(6) m3 r(4,5) v3(10) uo sz5 s3(14)
    by (simp add: file_ready_def Let_def ip [symmetric] releasesleep_def word_le_nat_alt)
  have by5: "fbyte (disk s5) (itable s5 ip) x = put_at (unat ?o) (take tot bs) (fbyte (disk st) (itable st ip)) x"
    if "x < MAXFILE * BSIZE" for x
    using log(4) [OF f3' that] same5(2) same2(2) s3(15) that v4(6) v5(2) v2 by simp
  have wr: "writei p cin ip (foff (ftable s2 f)) (of_nat n1) s2 = Ok (int tot, s3)" using s3(1) v2(8) by simp
  have le: "tot \<le> n1" using s3(2) len(1) by simp
  have fip5: "fip (ftable s5 f) = ip" using ip by (simp add: v5(3) v3(10))
  have o5: "unat (foff (ftable s5 f)) = unat ?o + tot" using uo by (simp add: v5(3) v3(10))
  have z5: "unat (isize (itable s5 ip)) = max (unat (isize (itable st ip))) (unat ?o + tot)"
    using s3(14) by (simp add: sz5 v2(9))
  have n5: "nfree (disk s5) (sb s5) = nfree (cont s3) (sb s3)" using log(5) v5(1) s3(7) v2(2) by simp
  have f5: "tot < n1 \<longrightarrow> nfree (disk s5) (sb s5) = 0" using s3(16) len(1) n5 by simp
  have "nfree (disk st) (sb st) = nfree (cont s2) (sb s2)" using v2(1,2) by simp
  then have g5: "nfree (disk st) (sb st) \<le> nfree (disk s5) (sb s5) + 8" using s3(17) n5 nb by linarith
  show ?thesis
    using b(1) lock wr unlock [unfolded s3'_def] s5(1) le ready5 fip5 o5 z5 by5 f5 g5 by blast
qed

text \<open>The number of transactions for \<open>n\<close> bytes.\<close>

definition ntrans :: "nat \<Rightarrow> nat" where
  "ntrans n = (n + max_write - 1) div max_write"

lemma ntrans_step: "0 < n \<Longrightarrow> ntrans n = Suc (ntrans (n - min n max_write))"
proof (cases "n \<le> max_write")
  case True
  assume "0 < n"
  then have "(n + max_write - 1) div max_write = 1" using True by (intro div_nat_eqI) (auto simp: max_write_def)
  then show ?thesis using True by (simp add: ntrans_def max_write_def)
next
  case False
  then have "n + max_write - 1 = (n - max_write + max_write - 1) + max_write" by (simp add: max_write_def)
  then show ?thesis using False by (simp add: ntrans_def max_write_def)
qed

lemma filewrite_loop_ok:
  fixes st :: "'a filesys_scheme"
  assumes "file_ready f st" "i \<le> n" "length data = n" "unat (foff (ftable st f)) + (n - i) \<le> MAXFILE * BSIZE" "ip = fip (ftable st f)"
    "\<And>t m. t + m \<le> n \<Longrightarrow> cin t m = (take m (drop t data), True)"
  shows "\<exists>j w s. filewrite_loop p cin f n i st = Ok (j, s) \<and> i \<le> w \<and> w \<le> n \<and> j \<le> n \<and> (j = n \<longleftrightarrow> w = n) \<and> file_ready f s \<and>
    fip (ftable s f) = ip \<and> unat (foff (ftable s f)) = unat (foff (ftable st f)) + (w - i) \<and>
    unat (isize (itable s ip)) = max (unat (isize (itable st ip))) (unat (foff (ftable st f)) + (w - i)) \<and>
    (\<forall>x < MAXFILE * BSIZE. fbyte (disk s) (itable s ip) x =
       put_at (unat (foff (ftable st f))) (take (w - i) (drop i data)) (fbyte (disk st) (itable st ip)) x) \<and>
    (w < n \<longrightarrow> nfree (disk s) (sb s) = 0) \<and> nfree (disk st) (sb st) \<le> nfree (disk s) (sb s) + 8 * ntrans (n - i)"
  using assms
proof (induction "n - i" arbitrary: i st rule: less_induct)
  case less
  let ?o = "unat (foff (ftable st f))"
  have sz: "?o \<le> unat (isize (itable st ip))" using less.prems(1,5) by (simp add: file_ready_def Let_def word_le_nat_alt)
  show ?case
  proof (cases "i < n")
    case False
    with less.prems sz show ?thesis
      by (subst filewrite_loop.simps) (auto simp: put_at_def max_def intro!: exI [of _ n])
  next
    case True
    define n1 where "n1 = min (n - i) max_write"
    define bs where "bs = take n1 (drop i data)"
    have n1: "0 < n1" "n1 \<le> max_write" "n1 \<le> n - i" using True by (auto simp: n1_def max_write_def)
    have bs: "length bs = n1" using less.prems(3) n1 by (simp add: bs_def)
    have c': "cin (i + t) m = (take m (drop t bs), True)" if "t + m \<le> n1" for t m
    proof -
      have "take m (drop t bs) = take m (drop (i + t) data)" using that by (simp add: bs_def drop_take take_take min_def add.commute)
      moreover have "i + t + m \<le> n" using that n1(3) True by linarith
      ultimately show ?thesis using less.prems(6) [of "i + t" m] by simp
    qed
    have fits: "?o + n1 \<le> MAXFILE * BSIZE" using less.prems(4) n1(3) by simp
    obtain tot s1 s2 s3 s4 s5 where s: "begin_op st = Ok s1" "ilock p (Some ip) s1 = Ok s2"
      "writei p (\<lambda>t m. cin (i + t) m) ip (foff (ftable s2 f)) (of_nat n1) s2 = Ok (int tot, s3)"
      "iunlock p (Some ip) (if int tot > 0 then upd_file f (\<lambda>x. x\<lparr>foff := foff x + of_int (int tot)\<rparr>) s3 else s3) = Ok s4"
      "end_op p s4 = Ok s5" "tot \<le> n1" "file_ready f s5" "fip (ftable s5 f) = ip" "unat (foff (ftable s5 f)) = ?o + tot"
      "unat (isize (itable s5 ip)) = max (unat (isize (itable st ip))) (?o + tot)"
      "\<forall>x < MAXFILE * BSIZE. fbyte (disk s5) (itable s5 ip) x = put_at ?o (take tot bs) (fbyte (disk st) (itable st ip)) x"
      "tot < n1 \<longrightarrow> nfree (disk s5) (sb s5) = 0" "nfree (disk st) (sb st) \<le> nfree (disk s5) (sb s5) + 8"
      using filewrite_step [OF less.prems(1,5) bs n1(1,2) fits, of "\<lambda>t m. cin (i + t) m" p] c' by blast
    have run: "filewrite_loop p cin f n i st = (if int tot \<noteq> int n1 then Ok (i, s5) else filewrite_loop p cin f n (i + n1) s5)"
      using True s(1-5) less.prems(5) by (subst filewrite_loop.simps) (simp add: n1_def [symmetric] Let_def)
    have nt: "ntrans (n - i) = Suc (ntrans (n - (i + n1)))" using ntrans_step [of "n - i"] True by (simp add: n1_def)
    show ?thesis
    proof (cases "tot = n1")
      case False
      then have "tot < n1" using s(6) by simp
      moreover have "take (i + tot - i) (drop i data) = take tot bs" using s(6) by (simp add: bs_def min_def)
      ultimately show ?thesis using run False s(6-13) n1(3) True nt by (intro exI [of _ i] exI [of _ "i + tot"] exI [of _ s5]) auto
    next
      case tot: True
      have "\<exists>j w s. filewrite_loop p cin f n (i + n1) s5 = Ok (j, s) \<and> i + n1 \<le> w \<and> w \<le> n \<and> j \<le> n \<and> (j = n \<longleftrightarrow> w = n) \<and> file_ready f s \<and>
        fip (ftable s f) = ip \<and> unat (foff (ftable s f)) = unat (foff (ftable s5 f)) + (w - (i + n1)) \<and>
        unat (isize (itable s ip)) = max (unat (isize (itable s5 ip))) (unat (foff (ftable s5 f)) + (w - (i + n1))) \<and>
        (\<forall>x < MAXFILE * BSIZE. fbyte (disk s) (itable s ip) x =
           put_at (unat (foff (ftable s5 f))) (take (w - (i + n1)) (drop (i + n1) data)) (fbyte (disk s5) (itable s5 ip)) x) \<and>
        (w < n \<longrightarrow> nfree (disk s) (sb s) = 0) \<and> nfree (disk s5) (sb s5) \<le> nfree (disk s) (sb s) + 8 * ntrans (n - (i + n1))"
        using less.hyps [of "i + n1" s5] s(7-9) tot n1 less.prems(2-4,6) by simp
      then obtain j w s' where r: "filewrite_loop p cin f n (i + n1) s5 = Ok (j, s')" "i + n1 \<le> w" "w \<le> n" "j \<le> n" "j = n \<longleftrightarrow> w = n"
        "file_ready f s'" "fip (ftable s' f) = ip" "unat (foff (ftable s' f)) = ?o + n1 + (w - (i + n1))"
        "unat (isize (itable s' ip)) = max (max (unat (isize (itable st ip))) (?o + n1)) (?o + n1 + (w - (i + n1)))"
        "\<forall>x < MAXFILE * BSIZE. fbyte (disk s') (itable s' ip) x =
           put_at (?o + n1) (take (w - (i + n1)) (drop (i + n1) data)) (fbyte (disk s5) (itable s5 ip)) x"
        "w < n \<longrightarrow> nfree (disk s') (sb s') = 0" "nfree (disk s5) (sb s5) \<le> nfree (disk s') (sb s') + 8 * ntrans (n - (i + n1))"
        using s(9,10) tot by auto
      have D: "take (w - i) (drop i data) = bs @ take (w - (i + n1)) (drop (i + n1) data)"
      proof -
        have "w - i = n1 + (w - (i + n1))" using r(2) by simp
        then show ?thesis by (simp only: take_add drop_drop bs_def) (simp add: add.commute)
      qed
      have w: "fbyte (disk s') (itable s' ip) x = put_at ?o (take (w - i) (drop i data)) (fbyte (disk st) (itable st ip)) x"
        if "x < MAXFILE * BSIZE" for x
        using r(10) s(11) that tot bs unfolding D by (auto simp: put_at_def nth_append)
      have g: "nfree (disk st) (sb st) \<le> nfree (disk s') (sb s') + 8 * ntrans (n - i)" using r(12) s(13) nt by linarith
      have o: "i \<le> w" "unat (foff (ftable s' f)) = ?o + (w - i)" using r(2,8) by simp_all
      have z: "unat (isize (itable s' ip)) = max (unat (isize (itable st ip))) (?o + (w - i))" using r(2,9) by simp
      have "filewrite_loop p cin f n i st = Ok (j, s')" using run tot r(1) by simp
      then show ?thesis using o r(3-7,11) z w g by blast
    qed
  qed
qed

text \<open>
  C28: A write to a file is on the disk when it returns. Let an idle file system have an open file
  whose volume and inode are consistent. \<open>filewrite\<close> of \<open>data\<close> at the offset of the file, split
  into transactions of at most \<open>max_write\<close> bytes as the log requires, writes the first \<open>w\<close> bytes: on the disk itself (not
  only in the cache) the file has these bytes at the old offset and its old bytes elsewhere,
  the offset and the size have grown accordingly, and the file system is idle and consistent
  again. The call returns the length of \<open>data\<close> if everything was written and \<open>-1\<close> otherwise; the latter happens only
  for lack of blocks: none is free on the disk at the end, and at most 8 for each transaction were free at the beginning.
\<close>

theorem filewrite_durable:
  fixes st :: "'a filesys_scheme"
  assumes "file_ready f st" "ftype (ftable st f) = FD_INODE" "writable (ftable st f)" "ip = fip (ftable st f)"
    "off = unat (foff (ftable st f))" "off + length data \<le> MAXFILE * BSIZE"
  shows "\<exists>w s. filewrite p (kin data) killed f (of_nat (length data)) st =
        Ok (Returns (if w = length data then int (length data) else - 1), s) \<and>
    w \<le> length data \<and>
    (w < length data \<longrightarrow> bitmap_full (disk s) (sb s) \<and> nfree (disk st) (sb st) \<le> 8 * ntrans (length data)) \<and>
    file_ready f s \<and> unat (foff (ftable s f)) = off + w \<and>
    unat (isize (itable s ip)) = max (unat (isize (itable st ip))) (off + w) \<and>
    (\<forall>x < MAXFILE * BSIZE. fbyte (disk s) (itable s ip) x =
       (if off \<le> x \<and> x < off + w then data ! (x - off) else fbyte (disk st) (itable st ip) x))"
proof -
  have lt: "length data < 2 ^ 31" using assms(6) by simp
  then have sn: "sint (of_nat (length data) :: i32) = int (length data)"
    by (simp add: signed_of_nat signed_take_bit_int_eq_self)
  obtain j w s where l: "filewrite_loop p (kin data) f (length data) 0 st = Ok (j, s)" "w \<le> length data" "j \<le> length data"
    "j = length data \<longleftrightarrow> w = length data" "file_ready f s" "unat (foff (ftable s f)) = off + w"
    "unat (isize (itable s ip)) = max (unat (isize (itable st ip))) (off + w)"
    "\<forall>x < MAXFILE * BSIZE. fbyte (disk s) (itable s ip) x = put_at off (take w data) (fbyte (disk st) (itable st ip)) x"
    "w < length data \<longrightarrow> nfree (disk s) (sb s) = 0" "nfree (disk st) (sb st) \<le> nfree (disk s) (sb s) + 8 * ntrans (length data)"
    using filewrite_loop_ok [OF assms(1), of 0 "length data" data ip "kin data" p] assms(4-6) by (auto simp: kin_def)
  have "filewrite p (kin data) killed f (of_nat (length data)) st =
      Ok (Returns (if w = length data then int (length data) else - 1), s)"
    using assms(2,3) l(1,4) sn by (simp add: filewrite_def Let_def)
  moreover have "put_at off (take w data) g x = (if off \<le> x \<and> x < off + w then data ! (x - off) else g x)" for g x
    using l(2) by (auto simp: put_at_def)
  moreover have "bitmap_full (disk s) (sb s) \<and> nfree (disk st) (sb st) \<le> 8 * ntrans (length data)" if "w < length data"
    using l(9,10) that nfree_full [of "disk s" "sb s"] by simp
  ultimately show ?thesis using l(2,5-8) by (intro exI [of _ w] exI [of _ s]) simp
qed

text \<open>The sample volume with its file open as file 0, between transactions.\<close>

definition sample_files :: filesys where
  "sample_files = fstate.extend (sample_fs\<lparr>outstanding := 0\<rparr>)
     \<lparr>ftable = (\<lambda>_. \<lparr>ftype = FD_INODE, fref = 1, readable = True, writable = True, fpipe = 0, fip = 0, foff = 0, fmajor = 0\<rparr>),
      pipes = (\<lambda>_. pipe_init []), devread = (\<lambda>_. None), devwrite = (\<lambda>_. None),
      cons = \<lparr>cbuf = replicate 128 0, cr = 0, cw = 0, ce = 0, txbuf = replicate 32 0, txw = 0, txr = 0, rx = [], thr = [],
        txrdy = (\<lambda>_. True), lsr_reads = 0, uregs = (\<lambda>_. 0), panicked = False\<rparr>,
      km = one_page\<rparr>"

lemma sample_ready: "file_ready 0 sample_files"
proof -
  have v: "bview_of sample_files = bview_of sample_fs" "bc_ok sample_files = bc_ok sample_fs"
    by (rule bview_ext; simp add: sample_files_def fstate.defs)+
  have comm: "\<not> committing sample_fs" by (simp add: sample_fs_def lboot_def bstate.defs lstate.defs)
  have f: "disk sample_files = sample_disk" "lstart sample_files = 2" "ldev sample_files = ROOTDEV"
    "lhblock sample_files = replicate LOGSIZE 0" "outstanding sample_files = 0" "lhn sample_files = 0" "lsize sample_files = 30"
    "sb sample_files = sample_sb" "itable sample_files = (\<lambda>_. sample_inode)" "committing sample_files = committing sample_fs"
    "fip (ftable sample_files 0) = 0" "foff (ftable sample_files 0) = 0"
    using sample_fs_simps by (simp_all add: sample_files_def fstate.defs)
  have "hdr_n 2 sample_disk = 0" by (simp add: hdr_n_def sample_disk_def get32_zero)
  then have "idle sample_files" using v f comm sample_fs_view by (simp add: idle_def)
  moreover have "fs_inv sample_files 0" "solid sample_files 0"
    using sample_fs_inv [of 0] v f by (simp_all add: fs_inv_def solid_def)
  ultimately show ?thesis
    using f by (simp add: file_ready_def Let_def) (simp add: sample_inode_def initsleeplock_def)
qed

theorem filewrite_durable_witness:
  "\<exists>s. filewrite 1 (kin [104, 105]) False 0 2 sample_files = Ok (Returns 2, s) \<and>
    fbyte (disk s) (itable s 0) 0 = 104 \<and> fbyte (disk s) (itable s 0) 1 = 105"
proof -
  have f: "ftype (ftable sample_files 0) = FD_INODE" "writable (ftable sample_files 0)" "fip (ftable sample_files 0) = 0"
    "foff (ftable sample_files 0) = 0"
    by (simp_all add: sample_files_def fstate.defs)
  have v: "disk sample_files = sample_disk" "sb sample_files = sample_sb"
    using sample_fs_simps by (simp_all add: sample_files_def fstate.defs)
  have nt: "ntrans (length [104, 105 :: u8]) = 1" by (simp add: ntrans_def max_write_def)
  obtain w s where w: "filewrite 1 (kin [104, 105]) False 0 (of_nat (length [104, 105 :: u8])) sample_files =
      Ok (Returns (if w = length [104, 105 :: u8] then int (length [104, 105 :: u8]) else - 1), s)" "w \<le> length [104, 105 :: u8]"
    "w < length [104, 105 :: u8] \<longrightarrow> nfree (disk sample_files) (sb sample_files) \<le> 8 * ntrans (length [104, 105 :: u8])"
    "\<forall>x < MAXFILE * BSIZE. fbyte (disk s) (itable s 0) x =
       (if 0 \<le> x \<and> x < 0 + w then [104, 105] ! (x - 0) else fbyte (disk sample_files) (itable sample_files 0) x)"
    using filewrite_durable [OF sample_ready f(1,2), of 0 0 "[104, 105]" 1 False] f(3,4) by auto
  have "w = 2" using w(2) w(3) [unfolded nt v] sample_nfree by auto
  then show ?thesis using w(1,4) by (intro exI [of _ s]) auto
qed

end
