(* ===== verification/Frame.thy ===== *)
theory Frame
  imports File
begin

text \<open>
  What the lower layers leave alone. A call of the buffer cache changes nothing but the cache and the
  disk, the log nothing but itself and what is below, the file system nothing but its tables and
  what is below, and closing a file nothing above the file table. Each layer is a locale over a part
  of the state that does not depend on the layer's own fields, and its lemmas say of every operation
  that the part is unchanged whenever the call returns. Theory \<open>Proc\<close> interprets the topmost one on
  the process table.
\<close>

subsection \<open>Results that satisfy a condition\<close>

definition post :: "('a \<Rightarrow> bool) \<Rightarrow> 'a res \<Rightarrow> bool" where
  "post P r \<longleftrightarrow> (\<forall>v. r = Ok v \<longrightarrow> P v)"

lemma post_simps [simp]: "post P (Ok v) = P v" "post P (Err e)"
  by (simp_all add: post_def)

lemma post_bnd: "post Q r \<Longrightarrow> (\<And>v. Q v \<Longrightarrow> post P (f v)) \<Longrightarrow> post P (bnd r f)"
  by (cases r) auto

lemma post_pair: "post (\<lambda>(a, s). Q s) r \<Longrightarrow> (\<And>a s. Q s \<Longrightarrow> post P (f a s)) \<Longrightarrow> post P (bnd r (\<lambda>(a, s). f a s))"
  by (cases r) auto

lemma post_any: "(\<And>v. post P (f v)) \<Longrightarrow> post P (bnd r f)"
  by (cases r) auto

lemma post_if: "(b \<Longrightarrow> post P x) \<Longrightarrow> (\<not> b \<Longrightarrow> post P y) \<Longrightarrow> post P (if b then x else y)"
  by simp

lemma post_option: "(o1 = None \<Longrightarrow> post P x) \<Longrightarrow> (\<And>v. o1 = Some v \<Longrightarrow> post P (f v)) \<Longrightarrow>
  post P (case o1 of None \<Rightarrow> x | Some v \<Rightarrow> f v)"
  by (cases o1) auto

subsection \<open>The buffer cache\<close>

locale above_cache =
  fixes part :: "'a bstate_scheme \<Rightarrow> 'm"
  assumes part_more: "bstate.more s' = bstate.more s \<Longrightarrow> part s' = part s"
begin

lemma part_upd [simp]: "part (upd_buf b f st) = part st" "part (disk_rw b w st) = part st"
  "part (link_front b st) = part st" "part (unlink_buf b st) = part st" "part (set_data b g st) = part st"
  "part (bpin b st) = part st" "part (bunpin b st) = part st"
  by (rule part_more; simp add: upd_buf_def disk_rw_def link_front_def unlink_buf_def set_data_def
      bpin_def bunpin_def Let_def)+

lemma lock_buf_part: "part st = m \<Longrightarrow> post (\<lambda>(b, st'). part st' = m) (lock_buf p b st)"
  by (auto simp: lock_buf_def intro!: post_any)

lemma bread_part: "part st = m \<Longrightarrow> post (\<lambda>(b, st'). part st' = m) (bread p d n st)"
  unfolding bread_def bget_def
  by (rule post_pair [where Q = "\<lambda>s. part s = m"])
    (auto intro!: post_any lock_buf_part split: option.split)

lemma bwrite_part: "part st = m \<Longrightarrow> post (\<lambda>st'. part st' = m) (bwrite p b st)"
  by (simp add: bwrite_def)

lemma brelse_part: "part st = m \<Longrightarrow> post (\<lambda>st'. part st' = m) (brelse p b st)"
  by (simp add: brelse_def Let_def)

lemma part_bnd: "post (\<lambda>s. part s = m) r \<Longrightarrow> (\<And>s. part s = m \<Longrightarrow> post P (f s)) \<Longrightarrow> post P (bnd r f)"
  by (rule post_bnd)

lemma part_pair:
  "post (\<lambda>(a, s). part s = m) r \<Longrightarrow> (\<And>a s. part s = m \<Longrightarrow> post P (f a s)) \<Longrightarrow> post P (bnd r (\<lambda>(a, s). f a s))"
  by (rule post_pair)

lemmas part_intros = part_bnd part_pair post_if post_option

lemmas cache_part = bread_part bwrite_part brelse_part

end

subsection \<open>The log\<close>

locale above_log =
  fixes part :: "'a lstate_scheme \<Rightarrow> 'm"
  assumes part_lmore: "lstate.more s' = lstate.more s \<Longrightarrow> part s' = part s"

sublocale above_log \<subseteq> above_cache part
proof
  fix s s' :: "'a lstate_scheme"
  assume "bstate.more s' = bstate.more s"
  then have "lstate.more s' = lstate.more s" by (cases s; cases s') simp
  then show "part s' = part s" by (rule part_lmore)
qed

context above_log
begin

lemma part_lupd [simp]: "part (st\<lparr>lhn := n\<rparr>) = part st" "part (st\<lparr>lhblock := bs\<rparr>) = part st"
  "part (st\<lparr>outstanding := n\<rparr>) = part st" "part (st\<lparr>committing := c\<rparr>) = part st"
  by (rule part_lmore; simp)+

lemma install_part: "part st = m \<Longrightarrow> post (\<lambda>st'. part st' = m) (install_loop p r ts st)"
  by (induction ts arbitrary: st)
    (auto simp: install_body_def Let_def intro!: part_intros cache_part)

lemma write_log_part: "part st = m \<Longrightarrow> post (\<lambda>st'. part st' = m) (write_log_loop p ts st)"
  by (induction ts arbitrary: st)
    (auto simp: write_log_body_def Let_def intro!: part_intros cache_part)

lemma write_head_part: "part st = m \<Longrightarrow> post (\<lambda>st'. part st' = m) (write_head p st)"
  unfolding write_head_def by (auto simp: Let_def intro!: part_intros cache_part)

lemma begin_op_part: "part st = m \<Longrightarrow> post (\<lambda>st'. part st' = m) (begin_op st)"
  by (simp add: begin_op_def)

lemma end_op_part: "part st = m \<Longrightarrow> post (\<lambda>st'. part st' = m) (end_op p st)"
  unfolding end_op_def commit_def write_log_def install_trans_def
  by (auto simp: Let_def intro!: part_intros write_log_part install_part write_head_part)

lemma log_write_part: "part st = m \<Longrightarrow> post (\<lambda>st'. part st' = m) (log_write b st)"
  by (simp add: log_write_def Let_def)

lemmas log_ops_part = cache_part begin_op_part end_op_part log_write_part

end

subsection \<open>The file system\<close>

locale above_fs =
  fixes part :: "'a fstate_scheme \<Rightarrow> 'm"
  assumes part_fmore: "fstate.more s' = fstate.more s \<Longrightarrow> part s' = part s"

sublocale above_fs \<subseteq> above_log part
proof
  fix s s' :: "'a fstate_scheme"
  assume "lstate.more s' = lstate.more s"
  then have "fstate.more s' = fstate.more s" by (cases s; cases s') simp
  then show "part s' = part s" by (rule part_fmore)
qed

context above_fs
begin

lemma part_iupd [simp]: "part (upd_inode i f st) = part st" "part (set_addr i j a st) = part st"
  by (rule part_fmore; simp add: upd_inode_def set_addr_def)+

lemma bfree_part: "part st = m \<Longrightarrow> post (\<lambda>st'. part st' = m) (bfree p d b st)"
  unfolding bfree_def by (auto simp: Let_def intro!: part_intros log_ops_part)

lemma iupdate_part: "part st = m \<Longrightarrow> post (\<lambda>st'. part st' = m) (iupdate p i st)"
  unfolding iupdate_def by (auto intro!: part_intros log_ops_part)

lemma itrunc_direct_part: "part st = m \<Longrightarrow> post (\<lambda>st'. part st' = m) (itrunc_direct p i js st)"
  by (induction js arbitrary: st) (auto intro!: part_bnd [where m = m] post_if bfree_part)

lemma itrunc_indirect_part: "part st = m \<Longrightarrow> post (\<lambda>st'. part st' = m) (itrunc_indirect p i b js st)"
  by (induction js arbitrary: st) (auto simp: Let_def intro!: part_bnd [where m = m] post_if bfree_part)

lemma itrunc_part: "part st = m \<Longrightarrow> post (\<lambda>st'. part st' = m) (itrunc p i st)"
  unfolding itrunc_def
  by (auto intro!: part_bnd [where m = m] part_pair [where m = m] post_if bfree_part itrunc_direct_part itrunc_indirect_part iupdate_part log_ops_part)

lemma iput_part: "part st = m \<Longrightarrow> post (\<lambda>st'. part st' = m) (iput p i st)"
  unfolding iput_def
  by (rule part_bnd [where m = m])
    (auto intro!: part_bnd [where m = m] post_if itrunc_part iupdate_part intro: post_any)

end

subsection \<open>Open files\<close>

locale above_files =
  fixes part :: "'a filesys_scheme \<Rightarrow> 'm"
  assumes part_smore: "filesys.more s' = filesys.more s \<Longrightarrow> part s' = part s"

sublocale above_files \<subseteq> above_fs part
proof
  fix s s' :: "'a filesys_scheme"
  assume "fstate.more s' = fstate.more s"
  then have "filesys.more s' = filesys.more s" by (cases s; cases s') simp
  then show "part s' = part s" by (rule part_smore)
qed

context above_files
begin

lemma part_fupd [simp]: "part (upd_file k f st) = part st" "part (st\<lparr>pipes := ps\<rparr>) = part st"
  "part (st\<lparr>km := mem\<rparr>) = part st"
  by (rule part_smore; simp add: upd_file_def)+

lemma fileclose_part: "part st = m \<Longrightarrow> post (\<lambda>st'. part st' = m) (fileclose p f st)"
  unfolding fileclose_def close_pipe_def
  by (auto simp: Let_def split: filetype.split prod.split 
      intro!: part_bnd [where m = m] post_if begin_op_part iput_part end_op_part intro: post_any)

lemma filedup_part: "part st = m \<Longrightarrow> post (\<lambda>(f', st'). part st' = m) (filedup f st)"
  by (simp add: filedup_def)

lemma idup_part [simp]: "part (snd (idup i st)) = part st"
  by (simp add: idup_def)

end

end
