(* ===== verification/Proc.thy ===== *)
theory Proc
  imports Sched Frame Cow Ulib
begin

text \<open>
  The life of a process, \<open>kernel/proc.c\<close>: the process table, creation, \<open>fork\<close>, \<open>exit\<close>, \<open>wait\<close> and
  \<open>waitx\<close>, the size of the address space, and the copies that go to user or kernel memory.

  The state joins the scheduler's state (field \<open>sys\<close>) with the file system, the page allocator
  and physical memory. Every acquire and release of a process lock, \<open>wait_lock\<close> or \<open>pid_lock\<close> is a
  call of \<open>acq\<close> or \<open>rel\<close>; \<open>h\<close> is the hart. A trap frame is the 288 bytes of physical memory at
  \<open>p->trapframe\<close>. A call that switches to the scheduler ends there, as in theory \<open>Sched\<close>.
\<close>

abbreviation NOFILE :: nat where "NOFILE \<equiv> 16"

text \<open>Offsets in \<open>struct trapframe\<close>.\<close>

abbreviation tf_epc :: u64 where "tf_epc \<equiv> 24"
abbreviation tf_sp :: u64 where "tf_sp \<equiv> 48"
abbreviation tf_a0 :: u64 where "tf_a0 \<equiv> 112"

record kernel = filesys +
  sys :: sstate
  nextpid :: int
  initproc :: "nat option"
  trampoline :: u64
  first :: bool

subsection \<open>Access to the parts of the state\<close>

definition on_sys :: "(sstate \<Rightarrow> sstate res) \<Rightarrow> 'a kernel_scheme \<Rightarrow> 'a kernel_scheme res" where
  "on_sys f st = bnd (f (sys st)) (\<lambda>s. Ok (st\<lparr>sys := s\<rparr>))"

definition on_km :: "(kmem \<Rightarrow> kmem res) \<Rightarrow> 'a kernel_scheme \<Rightarrow> 'a kernel_scheme res" where
  "on_km f st = bnd (f (km st)) (\<lambda>k. Ok (st\<lparr>km := k\<rparr>))"

definition kproc :: "nat \<Rightarrow> 'a kernel_scheme \<Rightarrow> proc" where
  "kproc i st = procs (sys st) ! i"

definition set_proc :: "nat \<Rightarrow> (proc \<Rightarrow> proc) \<Rightarrow> 'a kernel_scheme \<Rightarrow> 'a kernel_scheme" where
  "set_proc i f st = st\<lparr>sys := upd_proc i f (sys st)\<rparr>"

definition tf_get :: "nat \<Rightarrow> u64 \<Rightarrow> 'a kernel_scheme \<Rightarrow> u64" where
  "tf_get i k st = load64 (phys (km st)) (trapframe (kproc i st) + k)"

definition tf_set :: "nat \<Rightarrow> u64 \<Rightarrow> u64 \<Rightarrow> 'a kernel_scheme \<Rightarrow> 'a kernel_scheme" where
  "tf_set i k v st = st\<lparr>km := (km st)\<lparr>phys := store64 (phys (km st)) (trapframe (kproc i st) + k) v\<rparr>\<rparr>"

text \<open>\<open>struct proc *p = myproc();\<close> and the use of \<open>p\<close>.\<close>

definition with_me :: "nat \<Rightarrow> (nat \<Rightarrow> 'a kernel_scheme \<Rightarrow> 'b res) \<Rightarrow> 'a kernel_scheme \<Rightarrow> 'b res" where
  "with_me h f st =
     bnd (myproc h (sys st)) (\<lambda>(me, s).
       case me of None \<Rightarrow> Err (Undef ''null pointer'') | Some p \<Rightarrow> f p (st\<lparr>sys := s\<rparr>))"

text \<open>\<open>safestrcpy\<close> of a string into an array of \<open>n\<close> bytes: the loop stores the NUL of a string that
  fits, and the last assignment stores another one behind it.\<close>

definition safestr :: "nat \<Rightarrow> u8 list \<Rightarrow> u8 list \<Rightarrow> u8 list" where
  "safestr n old s =
     (let c = take (n - 1) (takeWhile (\<lambda>x. x \<noteq> 0) s);
          w = c @ (if length c < n - 1 then [0, 0] else [0])
      in w @ drop (length w) old)"

subsection \<open>The process table\<close>

definition procinit :: "'a kernel_scheme \<Rightarrow> 'a kernel_scheme" where
  "procinit st =
     (let s = sys st;
          s = s\<lparr>locks := (locks s)(Lpid := initlock ''nextpid'' (locks s Lpid))\<rparr>;
          s = s\<lparr>locks := (locks s)(Lwait := initlock ''wait_lock'' (locks s Lwait))\<rparr>;
          s = fold (\<lambda>i s. upd_proc i (\<lambda>p. p\<lparr>pstate := UNUSED, kstack := KSTACK i\<rparr>)
                (s\<lparr>locks := (locks s)(Lproc i := initlock ''proc'' (locks s (Lproc i)))\<rparr>)) [0..<NPROC] s
      in st\<lparr>sys := s\<rparr>)"

definition allocpid :: "nat \<Rightarrow> 'a kernel_scheme \<Rightarrow> (int \<times> 'a kernel_scheme) res" where
  "allocpid h st =
     bnd (on_sys (acq h Lpid) st) (\<lambda>st.
       if nextpid st = 2 ^ 31 - 1 then Err (Undef ''nextpid: int overflow'')
       else
         let pd = nextpid st; st = st\<lparr>nextpid := pd + 1\<rparr> in
         bnd (on_sys (rel h Lpid) st) (\<lambda>st. Ok (pd, st)))"

definition proc_freepagetable :: "u64 \<Rightarrow> u64 \<Rightarrow> kmem \<Rightarrow> kmem res" where
  "proc_freepagetable pt sz k =
     bnd (uvmunmap pt TRAMPOLINE 1 False k) (\<lambda>k.
     bnd (uvmunmap pt TRAPFRAME 1 False k) (\<lambda>k. uvmfree pt sz k))"

definition freeproc :: "nat \<Rightarrow> 'a kernel_scheme \<Rightarrow> 'a kernel_scheme res" where
  "freeproc i st =
     bnd (if trapframe (kproc i st) \<noteq> 0 then on_km (kfree (trapframe (kproc i st))) st else Ok st) (\<lambda>st.
       let st = set_proc i (\<lambda>p. p\<lparr>trapframe := 0\<rparr>) st in
       bnd (if pagetable (kproc i st) \<noteq> 0
            then on_km (proc_freepagetable (pagetable (kproc i st)) (psz (kproc i st))) st else Ok st) (\<lambda>st.
         Ok (set_proc i (\<lambda>p. p\<lparr>pagetable := 0, psz := 0, pid := 0, parent := None, pname := (pname p)[0 := 0],
              pchan := None, pkilled := False, xstate := 0, pstate := UNUSED\<rparr>) st)))"

definition proc_pagetable :: "nat \<Rightarrow> 'a kernel_scheme \<Rightarrow> (u64 \<times> 'a kernel_scheme) res" where
  "proc_pagetable i st =
     bnd (uvmcreate (km st)) (\<lambda>(pt, k).
       if pt = 0 then Ok (0, st\<lparr>km := k\<rparr>)
       else
         bnd (mappages pt TRAMPOLINE PGSIZE (trampoline st) (PTE_R OR PTE_X) k) (\<lambda>(r, k).
           if r < 0 then bnd (uvmfree pt 0 k) (\<lambda>k. Ok (0, st\<lparr>km := k\<rparr>))
           else
             bnd (mappages pt TRAPFRAME PGSIZE (trapframe (kproc i st)) (PTE_R OR PTE_W) k) (\<lambda>(r, k).
               if r < 0 then
                 bnd (uvmunmap pt TRAMPOLINE 1 False k) (\<lambda>k.
                 bnd (uvmfree pt 0 k) (\<lambda>k. Ok (0, st\<lparr>km := k\<rparr>)))
               else Ok (pt, st\<lparr>km := k\<rparr>))))"

text \<open>The search of \<open>allocproc\<close> from entry \<open>i\<close> on; it returns with the lock of the entry held.\<close>

function alloc_scan :: "nat \<Rightarrow> nat \<Rightarrow> 'a kernel_scheme \<Rightarrow> (nat option \<times> 'a kernel_scheme) res" where
  "alloc_scan h i st =
     (if i < NPROC then
        bnd (on_sys (acq h (Lproc i)) st) (\<lambda>st.
          if pstate (kproc i st) = UNUSED then Ok (Some i, st)
          else bnd (on_sys (rel h (Lproc i)) st) (alloc_scan h (i + 1)))
      else Ok (None, st))"
  by pat_completeness auto
termination by (relation "measure (\<lambda>(_, i, _). NPROC - i)") auto

declare alloc_scan.simps [simp del]

text \<open>What \<open>allocproc\<close> initialises last; the register context, which only \<open>swtch\<close> reads, is not part of
  the model.\<close>

definition init_times :: "u32 \<Rightarrow> proc \<Rightarrow> proc" where
  "init_times now p =
     p\<lparr>RTime := 0, etime := 0, ctime := now, STime := 0, WTime := 0, STATIC_PRIO := DEFAULT_PRIO, DYNAMIC_PRIO := 0,
       N_RUN := 0, RBI := DEFAULT_RBI\<rparr>"

definition alloc_fail :: "nat \<Rightarrow> nat \<Rightarrow> 'a kernel_scheme \<Rightarrow> (nat option \<times> 'a kernel_scheme) res" where
  "alloc_fail h i st = bnd (freeproc i st) (\<lambda>st. bnd (on_sys (rel h (Lproc i)) st) (\<lambda>st. Ok (None, st)))"

definition allocproc :: "nat \<Rightarrow> 'a kernel_scheme \<Rightarrow> (nat option \<times> 'a kernel_scheme) res" where
  "allocproc h st =
     bnd (alloc_scan h 0 st) (\<lambda>(found, st).
       case found of
         None \<Rightarrow> Ok (None, st)
       | Some i \<Rightarrow>
           bnd (allocpid h st) (\<lambda>(pd, st).
             let st = set_proc i (\<lambda>p. p\<lparr>pid := pd, pstate := USED\<rparr>) st in
             bnd (kalloc (km st)) (\<lambda>(tf, k).
               let st = set_proc i (\<lambda>p. p\<lparr>trapframe := tf\<rparr>) (st\<lparr>km := k\<rparr>) in
               if tf = 0 then alloc_fail h i st
               else
                 bnd (proc_pagetable i st) (\<lambda>(pt, st).
                   let st = set_proc i (\<lambda>p. p\<lparr>pagetable := pt\<rparr>) st in
                   if pt = 0 then alloc_fail h i st
                   else Ok (Some i, set_proc i (init_times (ticks (sys st))) st)))))"

definition initcode :: "u8 list" where
  "initcode =
     [0x17, 0x05, 0x00, 0x00, 0x13, 0x05, 0x45, 0x02, 0x97, 0x05, 0x00, 0x00, 0x93, 0x85, 0x35, 0x02,
      0x93, 0x08, 0x70, 0x00, 0x73, 0x00, 0x00, 0x00, 0x93, 0x08, 0x20, 0x00, 0x73, 0x00, 0x00, 0x00,
      0xef, 0xf0, 0x9f, 0xff, 0x2f, 0x69, 0x6e, 0x69, 0x74, 0x00, 0x00, 0x24, 0x00, 0x00, 0x00, 0x00,
      0x00, 0x00, 0x00, 0x00]"

text \<open>The first process. There is no current process yet, so the path is absolute and the pid unused.\<close>

definition userinit :: "nat \<Rightarrow> 'a kernel_scheme \<Rightarrow> 'a kernel_scheme res" where
  "userinit h st =
     bnd (allocproc h st) (\<lambda>(p, st).
       let st = st\<lparr>initproc := p\<rparr> in
       case p of
         None \<Rightarrow> Err (Undef ''null pointer'')
       | Some i \<Rightarrow>
           bnd (on_km (uvmfirst (pagetable (kproc i st)) initcode) st) (\<lambda>st.
             let st = set_proc i (\<lambda>p. p\<lparr>psz := PGSIZE\<rparr>) st;
                 st = tf_set i tf_sp PGSIZE (tf_set i tf_epc 0 st);
                 st = set_proc i (\<lambda>p. p\<lparr>pname := safestr 16 (pname p) [105, 110, 105, 116, 99, 111, 100, 101]\<rparr>) st
             in bnd (namei 0 0 [47] st) (\<lambda>(d, st).
                  on_sys (rel h (Lproc i)) (set_proc i (\<lambda>p. p\<lparr>cwd := d, pstate := RUNNABLE\<rparr>) st))))"

subsection \<open>Growing, forking\<close>

definition growproc :: "nat \<Rightarrow> i32 \<Rightarrow> 'a kernel_scheme \<Rightarrow> (int \<times> 'a kernel_scheme) res" where
  "growproc h n st = with_me h (\<lambda>p st.
     let sz = psz (kproc p st); pt = pagetable (kproc p st) in
     if sint n > 0 then
       bnd (uvmalloc pt sz (sz + scast n) PTE_W (km st)) (\<lambda>(sz, k).
         let st = st\<lparr>km := k\<rparr> in
         if sz = 0 then Ok (- 1, st) else Ok (0, set_proc p (\<lambda>q. q\<lparr>psz := sz\<rparr>) st))
     else if sint n < 0 then
       bnd (uvmdealloc pt sz (sz + scast n) (km st)) (\<lambda>(sz, k).
         Ok (0, set_proc p (\<lambda>q. q\<lparr>psz := sz\<rparr>) (st\<lparr>km := k\<rparr>)))
     else Ok (0, set_proc p (\<lambda>q. q\<lparr>psz := sz\<rparr>) st)) st"

text \<open>The loop over the descriptors.\<close>

fun dup_files :: "nat \<Rightarrow> nat \<Rightarrow> nat list \<Rightarrow> 'a kernel_scheme \<Rightarrow> 'a kernel_scheme res" where
  "dup_files p np [] st = Ok st"
| "dup_files p np (i # is) st =
     (case ofile (kproc p st) ! i of
        None \<Rightarrow> dup_files p np is st
      | Some f \<Rightarrow> bnd (filedup f st) (\<lambda>(f, st).
          dup_files p np is (set_proc np (\<lambda>q. q\<lparr>ofile := (ofile q)[i := Some f]\<rparr>) st)))"

definition copy_trapframe :: "nat \<Rightarrow> nat \<Rightarrow> 'a kernel_scheme \<Rightarrow> 'a kernel_scheme" where
  "copy_trapframe np p st =
     st\<lparr>km := (km st)\<lparr>phys := store_bytes (phys (km st)) (trapframe (kproc np st))
          (load_bytes (phys (km st)) (trapframe (kproc p st)) 288)\<rparr>\<rparr>"

definition fork :: "nat \<Rightarrow> 'a kernel_scheme \<Rightarrow> (int \<times> 'a kernel_scheme) res" where
  "fork h st = with_me h (\<lambda>p st.
     bnd (allocproc h st) (\<lambda>(np, st).
       case np of
         None \<Rightarrow> Ok (- 1, st)
       | Some np \<Rightarrow>
           bnd (uvmcopy (pagetable (kproc p st)) (pagetable (kproc np st)) (psz (kproc p st)) (km st)) (\<lambda>(r, k).
             let st = st\<lparr>km := k\<rparr> in
             if r < 0 then
               bnd (freeproc np st) (\<lambda>st. bnd (on_sys (rel h (Lproc np)) st) (\<lambda>st. Ok (- 1, st)))
             else
               let st = set_proc np (\<lambda>q. q\<lparr>psz := psz (kproc p st)\<rparr>) st;
                   st = tf_set np tf_a0 0 (copy_trapframe np p st)
               in bnd (dup_files p np [0..<NOFILE] st) (\<lambda>st.
                    case cwd (kproc p st) of
                      None \<Rightarrow> Err (Undef ''null pointer'')
                    | Some d \<Rightarrow>
                        let (d, st) = idup d st;
                            st = set_proc np (\<lambda>q. q\<lparr>cwd := Some d\<rparr>) st;
                            st = set_proc np (\<lambda>q. q\<lparr>pname := safestr 16 (pname q) (pname (kproc p st))\<rparr>) st;
                            pd = pid (kproc np st)
                        in bnd (on_sys (rel h (Lproc np)) st) (\<lambda>st.
                           bnd (on_sys (acq h Lwait) st) (\<lambda>st.
                           bnd (on_sys (rel h Lwait) (set_proc np (\<lambda>q. q\<lparr>parent := Some p\<rparr>) st)) (\<lambda>st.
                           bnd (on_sys (acq h (Lproc np)) st) (\<lambda>st.
                           bnd (on_sys (rel h (Lproc np)) (set_proc np (\<lambda>q. q\<lparr>pstate := RUNNABLE\<rparr>) st)) (\<lambda>st.
                             Ok (pd, st)))))))))) st"

subsection \<open>Exiting\<close>

text \<open>The loop of \<open>reparent\<close> from entry \<open>i\<close> on.\<close>

function reparent_from :: "nat \<Rightarrow> nat \<Rightarrow> nat \<Rightarrow> 'a kernel_scheme \<Rightarrow> 'a kernel_scheme res" where
  "reparent_from h i p st =
     (if i < NPROC then
        if parent (kproc i st) = Some p then
          let st = set_proc i (\<lambda>q. q\<lparr>parent := initproc st\<rparr>) st in
          bnd (on_sys (wakeup h (map_option ChProc (initproc st))) st) (reparent_from h (i + 1) p)
        else reparent_from h (i + 1) p st
      else Ok st)"
  by pat_completeness auto
termination by (relation "measure (\<lambda>(_, i, _). NPROC - i)") auto

declare reparent_from.simps [simp del]

definition reparent :: "nat \<Rightarrow> nat \<Rightarrow> 'a kernel_scheme \<Rightarrow> 'a kernel_scheme res" where
  "reparent h p st = reparent_from h 0 p st"

fun close_files :: "nat \<Rightarrow> nat list \<Rightarrow> 'a kernel_scheme \<Rightarrow> 'a kernel_scheme res" where
  "close_files p [] st = Ok st"
| "close_files p (fd # fds) st =
     (case ofile (kproc p st) ! fd of
        None \<Rightarrow> close_files p fds st
      | Some f \<Rightarrow> bnd (fileclose (pid (kproc p st)) f st) (\<lambda>st.
          close_files p fds (set_proc p (\<lambda>q. q\<lparr>ofile := (ofile q)[fd := None]\<rparr>) st)))"

text \<open>The part of \<open>exit\<close> before \<open>wait_lock\<close>: descriptors and the current directory.\<close>

definition exit_files :: "nat \<Rightarrow> 'a kernel_scheme \<Rightarrow> 'a kernel_scheme res" where
  "exit_files p st =
     bnd (close_files p [0..<NOFILE] st) (\<lambda>st.
     bnd (begin_op st) (\<lambda>st.
       case cwd (kproc p st) of
         None \<Rightarrow> Err (Undef ''null pointer'')
       | Some d \<Rightarrow>
           bnd (iput (pid (kproc p st)) d st) (\<lambda>st.
           bnd (end_op (pid (kproc p st)) st) (\<lambda>st. Ok (set_proc p (\<lambda>q. q\<lparr>cwd := None\<rparr>) st)))))"

text \<open>Up to the switch in \<open>sched\<close>, from which the process never returns.\<close>

definition exit :: "nat \<Rightarrow> i32 \<Rightarrow> 'a kernel_scheme \<Rightarrow> 'a kernel_scheme res" where
  "exit h status st = with_me h (\<lambda>p st.
     if Some p = initproc st then Err (Panic ''init exiting'')
     else
       bnd (exit_files p st) (\<lambda>st.
       bnd (on_sys (acq h Lwait) st) (\<lambda>st.
       bnd (reparent h p st) (\<lambda>st.
       bnd (on_sys (wakeup h (map_option ChProc (parent (kproc p st)))) st) (\<lambda>st.
       bnd (on_sys (acq h (Lproc p)) st) (\<lambda>st.
         let st = set_proc p (\<lambda>q. q\<lparr>xstate := status, pstate := ZOMBIE, etime := ticks (sys st)\<rparr>) st in
         bnd (on_sys (rel h Lwait) st) (\<lambda>st.
           on_sys (\<lambda>s. bnd (sched h s) (\<lambda>(_, s). Ok s)) st))))))) st"

subsection \<open>Waiting\<close>

text \<open>The child at entry \<open>i\<close> is a zombie: its exit status goes to \<open>addr\<close>, the entry is freed and both
  locks are released.\<close>

definition wait_found :: "nat \<Rightarrow> nat \<Rightarrow> u64 \<Rightarrow> nat \<Rightarrow> 'a kernel_scheme \<Rightarrow> (int \<times> 'a kernel_scheme) res" where
  "wait_found h p addr i st =
     (let pd = pid (kproc i st) in
      bnd (if addr \<noteq> 0 then copyout (pagetable (kproc p st)) addr (le_bytes 4 (xstate (kproc i st))) (km st)
           else Ok (0, km st)) (\<lambda>(r, k).
        let st = st\<lparr>km := k\<rparr> in
        if r < 0 then
          bnd (on_sys (rel h (Lproc i)) st) (\<lambda>st.
          bnd (on_sys (rel h Lwait) st) (\<lambda>st. Ok (- 1, st)))
        else
          bnd (freeproc i st) (\<lambda>st.
          bnd (on_sys (rel h (Lproc i)) st) (\<lambda>st.
          bnd (on_sys (rel h Lwait) st) (\<lambda>st. Ok (pd, st))))))"

text \<open>The scan: \<open>Inl r\<close> when the function returns \<open>r\<close> from it, \<open>Inr havekids\<close> when it reaches the end
  of the table.\<close>

function wait_scan :: "nat \<Rightarrow> nat \<Rightarrow> u64 \<Rightarrow> nat \<Rightarrow> bool \<Rightarrow> 'a kernel_scheme \<Rightarrow> ((int + bool) \<times> 'a kernel_scheme) res" where
  "wait_scan h p addr i havekids st =
     (if i < NPROC then
        if parent (kproc i st) = Some p then
          bnd (on_sys (acq h (Lproc i)) st) (\<lambda>st.
            if pstate (kproc i st) = ZOMBIE then bnd (wait_found h p addr i st) (\<lambda>(r, st). Ok (Inl r, st))
            else bnd (on_sys (rel h (Lproc i)) st) (wait_scan h p addr (i + 1) True))
        else wait_scan h p addr (i + 1) havekids st
      else Ok (Inr havekids, st))"
  by pat_completeness auto
termination by (relation "measure (\<lambda>(_, _, _, i, _). NPROC - i)") auto

declare wait_scan.simps [simp del]

text \<open>One round of the endless loop: \<open>Inl r\<close> returns \<open>r\<close>; \<open>Inr ie\<close> has switched away in \<open>sleep\<close>, with the
  \<open>intena\<close> that \<open>sched\<close> saved.\<close>

definition wait_round :: "nat \<Rightarrow> nat \<Rightarrow> u64 \<Rightarrow> 'a kernel_scheme \<Rightarrow> ((int + bool) \<times> 'a kernel_scheme) res" where
  "wait_round h p addr st =
     bnd (wait_scan h p addr 0 False st) (\<lambda>(r, st).
       case r of
         Inl r \<Rightarrow> Ok (Inl r, st)
       | Inr havekids \<Rightarrow>
           bnd (if havekids then killed h p (sys st) else Ok (True, sys st)) (\<lambda>(leave, s).
             let st = st\<lparr>sys := s\<rparr> in
             if leave then bnd (on_sys (rel h Lwait) st) (\<lambda>st. Ok (Inl (- 1), st))
             else bnd (sleep h (ChProc p) Lwait (sys st)) (\<lambda>(ie, s). Ok (Inr ie, st\<lparr>sys := s\<rparr>))))"

text \<open>The endless loop. Each element of the list is what happens while the process is off the
  processor: the hart it continues on and the state then. When the list ends the process still sleeps.
  \<open>lkid\<close> is the lock that \<open>sleep\<close> gave up. The result includes the hart the process ends up on.\<close>

type_synonym 'a switch = "nat \<Rightarrow> 'a kernel_scheme \<Rightarrow> nat \<times> 'a kernel_scheme"

fun wait_rounds ::
  "lockid \<Rightarrow> (nat \<Rightarrow> 'a kernel_scheme \<Rightarrow> (('r + bool) \<times> 'a kernel_scheme) res) \<Rightarrow> nat \<Rightarrow> 'a switch list \<Rightarrow> nat \<Rightarrow> 'a kernel_scheme \<Rightarrow>
     ('r \<times> nat \<times> 'a kernel_scheme) res" where
  "wait_rounds lkid round p sws h st =
     bnd (round h st) (\<lambda>(r, st).
       case r of
         Inl r \<Rightarrow> Ok (r, h, st)
       | Inr ie \<Rightarrow>
           (case sws of
              [] \<Rightarrow> Err (Waits ''wait'')
            | sw # sws \<Rightarrow>
                let (h, st) = sw h st in
                bnd (on_sys (sleep_resume h p ie lkid) st) (wait_rounds lkid round p sws h)))"

declare wait_rounds.simps [simp del]

definition wait :: "nat \<Rightarrow> u64 \<Rightarrow> 'a switch list \<Rightarrow> 'a kernel_scheme \<Rightarrow> (int \<times> nat \<times> 'a kernel_scheme) res" where
  "wait h addr sws st = with_me h (\<lambda>p st.
     bnd (on_sys (acq h Lwait) st) (wait_rounds Lwait (\<lambda>h. wait_round h p addr) p sws h)) st"

text \<open>\<open>waitx\<close> also stores to \<open>*wtime\<close> and \<open>*RTime\<close>, but only when it found a zombie: the second
  component of its result is what it stored, \<open>None\<close> when it stored nothing.\<close>

type_synonym waitx_result = "int \<times> (u32 \<times> u32) option"

function waitx_scan ::
  "nat \<Rightarrow> nat \<Rightarrow> u64 \<Rightarrow> nat \<Rightarrow> bool \<Rightarrow> 'a kernel_scheme \<Rightarrow> ((waitx_result + bool) \<times> 'a kernel_scheme) res" where
  "waitx_scan h p addr i havekids st =
     (if i < NPROC then
        if parent (kproc i st) = Some p then
          bnd (on_sys (acq h (Lproc i)) st) (\<lambda>st.
            if pstate (kproc i st) = ZOMBIE then
              let np = kproc i st; rt = RTime np; wt = etime np - ctime np - RTime np in
              bnd (wait_found h p addr i st) (\<lambda>(r, st). Ok (Inl (r, Some (wt, rt)), st))
            else bnd (on_sys (rel h (Lproc i)) st) (waitx_scan h p addr (i + 1) True))
        else waitx_scan h p addr (i + 1) havekids st
      else Ok (Inr havekids, st))"
  by pat_completeness auto
termination by (relation "measure (\<lambda>(_, _, _, i, _). NPROC - i)") auto

declare waitx_scan.simps [simp del]

text \<open>Unlike \<open>wait\<close>, \<open>waitx\<close> reads \<open>p->killed\<close> without the lock of the process.\<close>

definition waitx_round ::
  "nat \<Rightarrow> nat \<Rightarrow> u64 \<Rightarrow> 'a kernel_scheme \<Rightarrow> ((waitx_result + bool) \<times> 'a kernel_scheme) res" where
  "waitx_round h p addr st =
     bnd (waitx_scan h p addr 0 False st) (\<lambda>(r, st).
       case r of
         Inl r \<Rightarrow> Ok (Inl r, st)
       | Inr havekids \<Rightarrow>
           if \<not> havekids \<or> pkilled (kproc p st) then
             bnd (on_sys (rel h Lwait) st) (\<lambda>st. Ok (Inl (- 1, None), st))
           else bnd (sleep h (ChProc p) Lwait (sys st)) (\<lambda>(ie, s). Ok (Inr ie, st\<lparr>sys := s\<rparr>)))"

definition waitx :: "nat \<Rightarrow> u64 \<Rightarrow> 'a switch list \<Rightarrow> 'a kernel_scheme \<Rightarrow> (waitx_result \<times> nat \<times> 'a kernel_scheme) res" where
  "waitx h addr sws st = with_me h (\<lambda>p st.
     bnd (on_sys (acq h Lwait) st) (wait_rounds Lwait (\<lambda>h. waitx_round h p addr) p sws h)) st"

subsection \<open>Copies to user or kernel memory\<close>

definition either_copyout :: "nat \<Rightarrow> bool \<Rightarrow> u64 \<Rightarrow> u8 list \<Rightarrow> 'a kernel_scheme \<Rightarrow> (int \<times> 'a kernel_scheme) res" where
  "either_copyout h user_dst dst src st = with_me h (\<lambda>p st.
     if user_dst then bnd (copyout (pagetable (kproc p st)) dst src (km st)) (\<lambda>(r, k). Ok (r, st\<lparr>km := k\<rparr>))
     else Ok (0, st\<lparr>km := (km st)\<lparr>phys := store_bytes (phys (km st)) dst src\<rparr>\<rparr>)) st"

text \<open>The second component is the bytes stored to \<open>dst\<close>.\<close>

definition either_copyin :: "nat \<Rightarrow> bool \<Rightarrow> u64 \<Rightarrow> nat \<Rightarrow> 'a kernel_scheme \<Rightarrow> (int \<times> u8 list \<times> 'a kernel_scheme) res" where
  "either_copyin h user_src src n st = with_me h (\<lambda>p st.
     if user_src then bnd (copyin (pagetable (kproc p st)) src n (km st)) (\<lambda>(r, bs). Ok (r, bs, st))
     else Ok (0, load_bytes (phys (km st)) src n, st)) st"

subsection \<open>First run, listing\<close>

text \<open>Up to \<open>usertrapret\<close>.\<close>

definition forkret :: "nat \<Rightarrow> 'a kernel_scheme \<Rightarrow> 'a kernel_scheme res" where
  "forkret h st = with_me h (\<lambda>p st.
     bnd (on_sys (rel h (Lproc p)) st) (\<lambda>st.
       if first st then fsinit (pid (kproc p st)) 1 (st\<lparr>first := False\<rparr>) else Ok st)) st"

fun state_name :: "procstate \<Rightarrow> u8 list" where
  "state_name UNUSED = [117, 110, 117, 115, 101, 100]"
| "state_name USED = [117, 115, 101, 100]"
| "state_name SLEEPING = [115, 108, 101, 101, 112, 32]"
| "state_name RUNNABLE = [114, 117, 110, 98, 108, 101]"
| "state_name RUNNING = [114, 117, 110, 32, 32, 32]"
| "state_name ZOMBIE = [122, 111, 109, 98, 105, 101]"

text \<open>The line of one entry, format \<open>"%d %s %s"\<close>, and the whole listing.\<close>

definition procdump_line :: "proc \<Rightarrow> u8 list res" where
  "procdump_line p =
     (if pstate p = UNUSED then Ok []
      else
        bnd (kprintf [37, 100, 32, 37, 115, 32, 37, 115]
              [AWord (word_of_int (pid p)), AString (Some (state_name (pstate p))),
               AString (Some (takeWhile (\<lambda>c. c \<noteq> 0) (pname p)))]) (\<lambda>a.
        bnd (kprintf [10] []) (\<lambda>b. Ok (a @ b))))"

fun procdump_lines :: "proc list \<Rightarrow> u8 list res" where
  "procdump_lines [] = Ok []"
| "procdump_lines (p # ps) = bnd (procdump_line p) (\<lambda>a. bnd (procdump_lines ps) (\<lambda>b. Ok (a @ b)))"

definition procdump :: "'a kernel_scheme \<Rightarrow> u8 list res" where
  "procdump st = bnd (kprintf [10] []) (\<lambda>a. bnd (procdump_lines (procs (sys st))) (\<lambda>b. Ok (a @ b)))"

subsection \<open>The two halves of the state\<close>

text \<open>What no operation of the file layer changes.\<close>

definition kpart :: "'a kernel_scheme \<Rightarrow> sstate \<times> int \<times> nat option \<times> u64 \<times> bool" where
  "kpart st = (sys st, nextpid st, initproc st, trampoline st, first st)"

interpretation kp: above_files kpart
proof
  fix s s' :: "'a kernel_scheme"
  assume "filesys.more s' = filesys.more s"
  then show "kpart s' = kpart s" by (cases s; cases s') (simp add: kpart_def)
qed

lemma kpart_eq: "kpart st' = kpart st \<Longrightarrow> sys st' = sys st \<and> initproc st' = initproc st"
  by (simp add: kpart_def)

lemma on_sys_Ok: "on_sys f st = Ok st' \<longleftrightarrow> (\<exists>s. f (sys st) = Ok s \<and> st' = st\<lparr>sys := s\<rparr>)"
  by (auto simp: on_sys_def res_simps)

lemma set_proc_simps [simp]: "initproc (set_proc i f st) = initproc st" "km (set_proc i f st) = km st"
  "sys (set_proc i f st) = upd_proc i f (sys st)"
  by (simp_all add: set_proc_def)

lemma upd_proc_simps [simp]: "locks (upd_proc i f s) = locks s" "cpus (upd_proc i f s) = cpus s" "ticks (upd_proc i f s) = ticks s"
  "procs (upd_proc i f s) = (procs s)[i := f (procs s ! i)]"
  by (simp_all add: upd_proc_def)

lemma upd_proc_id: "upd_proc i (\<lambda>q. q) s = s"
  by (cases s) (simp add: upd_proc_def)

text \<open>\<open>close_files\<close> changes nothing of the process table but the descriptors of the process.\<close>

lemma close_files_frame:
  assumes "close_files p fds st = Ok st'" "p < length (procs (sys st))"
  shows "initproc st' = initproc st \<and> (\<exists>os. sys st' = upd_proc p (\<lambda>q. q\<lparr>ofile := os\<rparr>) (sys st) \<and>
    length os = length (ofile (kproc p st)) \<and>
    (\<forall>fd<length os. os ! fd = (if fd \<in> set fds then None else ofile (kproc p st) ! fd)))"
  using assms
proof (induction fds arbitrary: st)
  case Nil
  then show ?case
    by (auto simp: upd_proc_def kproc_def intro!: exI [of _ "ofile (procs (sys st') ! p)"])
next
  case (Cons fd fds)
  let ?of = "ofile (kproc p st)"
  have "\<exists>s1. close_files p fds s1 = Ok st' \<and> initproc s1 = initproc st \<and>
    sys s1 = upd_proc p (\<lambda>q. q\<lparr>ofile := ?of[fd := None]\<rparr>) (sys st)"
  proof (cases "?of ! fd")
    case None
    then have "?of[fd := None] = ?of" by (metis list_update_id)
    then have "sys st = upd_proc p (\<lambda>q. q\<lparr>ofile := ?of[fd := None]\<rparr>) (sys st)"
      by (simp add: upd_proc_def kproc_def)
    with None Cons.prems(1) show ?thesis by auto
  next
    case (Some f)
    with Cons.prems(1) obtain s1 where s1: "fileclose (pid (kproc p st)) f st = Ok s1"
      "close_files p fds (set_proc p (\<lambda>q. q\<lparr>ofile := (ofile q)[fd := None]\<rparr>) s1) = Ok st'"
      by (auto simp: res_simps)
    have k1: "kpart s1 = kpart st"
      using kp.fileclose_part [of st "kpart st" "pid (kproc p st)" f] s1(1) by (simp add: post_def)
    with s1(2) show ?thesis
      using kpart_eq [OF k1] by (intro exI [of _ "set_proc p (\<lambda>q. q\<lparr>ofile := (ofile q)[fd := None]\<rparr>) s1"])
        (simp add: kproc_def upd_proc_def)
  qed
  then obtain s1 where s1: "close_files p fds s1 = Ok st'" "initproc s1 = initproc st"
    "sys s1 = upd_proc p (\<lambda>q. q\<lparr>ofile := ?of[fd := None]\<rparr>) (sys st)" by blast
  then obtain os where os: "initproc st' = initproc s1" "sys st' = upd_proc p (\<lambda>q. q\<lparr>ofile := os\<rparr>) (sys s1)"
    "length os = length (ofile (kproc p s1))"
    "\<forall>k<length os. os ! k = (if k \<in> set fds then None else ofile (kproc p s1) ! k)"
    using Cons.IH [OF s1(1)] Cons.prems(2) by auto
  have of1: "ofile (kproc p s1) = ?of[fd := None]"
    using s1(3) Cons.prems(2) by (simp add: kproc_def)
  have "sys st' = upd_proc p (\<lambda>q. q\<lparr>ofile := os\<rparr>) (sys st)"
    using os(2) s1(3) Cons.prems(2) by (simp add: upd_proc_def)
  then show ?case
    using os s1(2) of1 by (auto simp: nth_list_update intro!: exI [of _ os])
qed

lemma exit_files_frame:
  assumes "exit_files p st = Ok st'" "p < length (procs (sys st))"
  shows "initproc st' = initproc st \<and> (\<exists>os. length os = length (ofile (kproc p st)) \<and>
    (\<forall>fd<length os. os ! fd = (if fd < NOFILE then None else ofile (kproc p st) ! fd)) \<and>
    sys st' = upd_proc p (\<lambda>q. q\<lparr>ofile := os, cwd := None\<rparr>) (sys st))"
proof -
  obtain s1 s2 d s3 s4 where s: "close_files p [0..<NOFILE] st = Ok s1" "begin_op s1 = Ok s2" "cwd (kproc p s2) = Some d"
    "iput (pid (kproc p s2)) d s2 = Ok s3" "end_op (pid (kproc p s3)) s3 = Ok s4"
    "st' = set_proc p (\<lambda>q. q\<lparr>cwd := None\<rparr>) s4"
    using assms(1) by (auto simp: exit_files_def res_simps split: option.splits)
  have "kpart s4 = kpart s1"
    using kp.begin_op_part [of s1 "kpart s1"] kp.iput_part [of s2 "kpart s1"] kp.end_op_part [of s3 "kpart s1"] s(2,4,5)
    by (simp add: post_def)
  then have k: "sys s4 = sys s1" "initproc s4 = initproc s1" using kpart_eq by auto
  from close_files_frame [OF s(1) assms(2)] obtain os where os: "initproc s1 = initproc st"
    "sys s1 = upd_proc p (\<lambda>q. q\<lparr>ofile := os\<rparr>) (sys st)" "length os = length (ofile (kproc p st))"
    "\<forall>fd<length os. os ! fd = (if fd < NOFILE then None else ofile (kproc p st) ! fd)"
    by auto
  have "sys st' = upd_proc p (\<lambda>q. q\<lparr>ofile := os, cwd := None\<rparr>) (sys st)"
    using s(6) k(1) os(2) assms(2) by (simp add: upd_proc_def)
  with os k(2) s(6) show ?thesis by auto
qed

subsection \<open>Reparenting\<close>

definition adopt :: "nat \<Rightarrow> nat option \<Rightarrow> proc \<Rightarrow> proc" where
  "adopt p ip q = (if parent q = Some p then q\<lparr>parent := ip\<rparr> else q)"

lemma wake_simps [simp]: "parent (wake ch q) = parent q" "wake ch (wake ch q) = wake ch q"
  "wake ch (q\<lparr>parent := v\<rparr>) = (wake ch q)\<lparr>parent := v\<rparr>" "wake ch (adopt p ip q) = adopt p ip (wake ch q)"
  by (simp_all add: wake_def adopt_def)

lemma adopt_idem: "ip \<noteq> Some p \<Longrightarrow> adopt p ip (adopt p ip q) = adopt p ip q"
  by (simp add: adopt_def)

text \<open>The entries after the loop of \<open>reparent\<close> has run from \<open>i\<close> on.\<close>

definition adopted :: "nat \<Rightarrow> nat \<Rightarrow> nat option \<Rightarrow> nat option \<Rightarrow> proc list \<Rightarrow> nat \<Rightarrow> proc" where
  "adopted i p ip me ps j =
     (let q = (if i \<le> j then adopt p ip (ps ! j) else ps ! j) in
      if me \<noteq> Some j \<and> (\<exists>k<length ps. i \<le> k \<and> parent (ps ! k) = Some p) then wake (map_option ChProc ip) q else q)"

lemma table_nth: "length ps = NPROC \<Longrightarrow> (\<forall>j<NPROC. ps ! j = f j) \<Longrightarrow> ps = map f [0..<NPROC]"
  by (rule nth_equalityI) auto

lemma reparent_from_ok:
  assumes "table_ok (sys st)" "cpu_ok (cpus (sys st) h)" "noff (cpus (sys st) h) \<noteq> 0" "i \<le> NPROC" "initproc st \<noteq> Some p"
  shows "reparent_from h i p st = Ok (st\<lparr>sys := (sys st)\<lparr>procs :=
    map (adopted i p (initproc st) (cproc (cpus (sys st) h)) (procs (sys st))) [0..<NPROC]\<rparr>\<rparr>)"
  using assms
proof (induction "NPROC - i" arbitrary: i st)
  case 0
  then have "i = NPROC" "length (procs (sys st)) = NPROC" by (auto simp: table_ok_def)
  then have "map (adopted i p (initproc st) (cproc (cpus (sys st) h)) (procs (sys st))) [0..<NPROC] = procs (sys st)"
    by (intro table_nth [symmetric]) (auto simp: adopted_def Let_def)
  with \<open>i = NPROC\<close> show ?case by (subst reparent_from.simps) (simp del: upt.simps)
next
  case (Suc k)
  let ?ps = "procs (sys st)" and ?me = "cproc (cpus (sys st) h)" and ?ip = "initproc st"
  have i: "i < NPROC" and len: "length ?ps = NPROC" using Suc by (auto simp: table_ok_def)
  show ?case
  proof (cases "parent (?ps ! i) = Some p")
    case False
    have "adopted (i + 1) p ?ip ?me ?ps j = adopted i p ?ip ?me ?ps j" for j
    proof -
      have "(\<exists>k<length ?ps. i + 1 \<le> k \<and> parent (?ps ! k) = Some p) = (\<exists>k<length ?ps. i \<le> k \<and> parent (?ps ! k) = Some p)"
        using False by (metis Suc_eq_plus1 not_less_eq_eq le_antisym Suc_leD)
      then show ?thesis using False by (cases "j = i") (auto simp: adopted_def adopt_def Let_def)
    qed
    moreover have "reparent_from h i p st = reparent_from h (i + 1) p st"
      using i False by (subst reparent_from.simps) (simp add: kproc_def)
    ultimately show ?thesis using Suc.hyps(1) [of "i + 1" st] Suc.hyps(2) Suc.prems i by (simp del: upt.simps)
  next
    case True
    let ?s1 = "upd_proc i (\<lambda>q. q\<lparr>parent := ?ip\<rparr>) (sys st)"
    have t1: "table_ok ?s1" using Suc.prems(1) by (simp add: table_ok_def)
    have c1: "cpu_ok (cpus ?s1 h)" using Suc.prems(2) by simp
    obtain s2 where s2: "wakeup h (map_option ChProc ?ip) ?s1 = Ok s2" "s2 = (settled h ?s1)\<lparr>procs := procs s2\<rparr>"
      "table_ok s2" "\<forall>j<NPROC. procs s2 ! j = (if ?me = Some j then procs ?s1 ! j else wake (map_option ChProc ?ip) (procs ?s1 ! j))"
      using wakeup_ok [OF t1 c1] by auto
    have s2': "s2 = ?s1\<lparr>procs := procs s2\<rparr>"
      using s2(2) Suc.prems(3) by (simp add: upd_proc_def)
    have run: "reparent_from h i p st = reparent_from h (i + 1) p (st\<lparr>sys := s2\<rparr>)"
      using i True s2(1) by (subst reparent_from.simps) (simp add: kproc_def Let_def on_sys_def set_proc_def)
    have cp: "cpus s2 = cpus (sys st)" "length (procs s2) = NPROC"
      using s2' s2(3) by (metis sstate.select_convs(3) sstate.surjective sstate.update_convs(1) upd_proc_simps(2)) (use s2(3) in \<open>simp add: table_ok_def\<close>)
    have IH: "reparent_from h (i + 1) p (st\<lparr>sys := s2\<rparr>) = Ok (st\<lparr>sys := s2\<lparr>procs :=
      map (adopted (i + 1) p ?ip ?me (procs s2)) [0..<NPROC]\<rparr>\<rparr>)"
      using Suc.hyps(1) [of "i + 1" "st\<lparr>sys := s2\<rparr>"] Suc.hyps(2) Suc.prems i s2(3) cp by (simp del: upt.simps)
    have "adopted (i + 1) p ?ip ?me (procs s2) j = adopted i p ?ip ?me ?ps j" if j: "j < NPROC" for j
    proof -
      have a: "\<exists>k<length ?ps. i \<le> k \<and> parent (?ps ! k) = Some p" using True i len by auto
      show ?thesis
      proof (cases "j = i")
        case True
        with a s2(4) j len Suc.prems(5) \<open>parent (?ps ! i) = Some p\<close> show ?thesis
          by (auto simp: adopted_def Let_def adopt_def)
      next
        case False
        with a s2(4) j len show ?thesis by (auto simp: adopted_def Let_def)
      qed
    qed
    then have "map (adopted (i + 1) p ?ip ?me (procs s2)) [0..<NPROC] = map (adopted i p ?ip ?me ?ps) [0..<NPROC]"
      by (simp del: upt.simps)
    moreover have "s2\<lparr>procs := ps\<rparr> = (sys st)\<lparr>procs := ps\<rparr>" for ps
      by (subst s2') (simp add: upd_proc_def)
    ultimately show ?thesis unfolding run IH by simp
  qed
qed

subsection \<open>Leaving the processor\<close>

text \<open>The outer of two locks is released first, as \<open>exit\<close> and \<open>sleep\<close> do before they switch.\<close>

definition freed :: "lockid \<Rightarrow> sstate \<Rightarrow> sstate" where
  "freed l s = s\<lparr>locks := (locks s)(l := (locks s l)\<lparr>lcpu := None, locked := False\<rparr>)\<rparr>"

definition held :: "nat \<Rightarrow> lockid \<Rightarrow> sstate \<Rightarrow> sstate" where
  "held h l s = s\<lparr>locks := (locks s)(l := (locks s l)\<lparr>locked := True, lcpu := Some h\<rparr>)\<rparr>"

lemma freed_held_simps [simp]: "procs (freed l s) = procs s" "cpus (freed l s) = cpus s" "ticks (freed l s) = ticks s"
  "procs (held h l s) = procs s" "cpus (held h l s) = cpus s" "ticks (held h l s) = ticks s"
  "lock_free (locks (freed l s) l)" "holding h (locks (held h l s) l)"
  "k \<noteq> l \<Longrightarrow> locks (freed l s) k = locks s k" "k \<noteq> l \<Longrightarrow> locks (held h l s) k = locks s k"
  "locks (upd_proc i f (freed l s)) = locks (freed l s)" "freed l (upd_proc i f s) = upd_proc i f (freed l s)"
  "held h l (upd_proc i f s) = upd_proc i f (held h l s)"
  by (simp_all add: freed_def held_def lock_free_def holding_def upd_proc_def)

lemma rel_outer:
  assumes "cpu_ok (cpus s h)" "noff (cpus s h) = 1" "holding h (locks s l)" "l \<noteq> k"
  shows "rel h l (upd_proc i f (taken h k s)) = Ok (upd_proc i f (held h k (freed l s)))"
proof -
  have sie: "\<not> sie (cpus s h)" using assms(1,2) by (simp add: cpu_ok_def)
  have push: "push_off (cpus s h) = (cpus s h)\<lparr>noff := 2\<rparr>"
    using sie assms(2) by (cases "cpus s h") (simp add: push_off_def Let_def intr_defs)
  have pop: "pop_off ((cpus s h)\<lparr>noff := 2\<rparr>) = Ok (cpus s h)"
    using sie assms(2) by (cases "cpus s h") (simp add: pop_off_def Let_def intr_defs)
  have hl: "locked (locks s l)" "lcpu (locks s l) = Some h" using assms(3) by (auto simp: holding_def)
  then show ?thesis
    using assms(4) push pop
    by (simp add: rel_def taken_def release_def release_check_def lock_release_def holding_def upd_proc_def
        held_def freed_def fun_upd_twist)
qed

lemma sched_leaves:
  assumes "cpu_ok (cpus s h)" "noff (cpus s h) = 1" "cproc (cpus s h) = Some p" "holding h (locks s (Lproc p))"
    "pstate (procs s ! p) \<noteq> RUNNING"
  shows "sched h s = Ok (intena (cpus s h), s)"
  using assms by (simp add: sched_def myproc_ok mycpu_def cpu_ok_def intr_defs)

lemma taken_cpu: "cpu_ok (cpus s h) \<Longrightarrow> noff (cpus s h) = 0 \<Longrightarrow>
  cpu_ok (cpus (taken h l s) h) \<and> noff (cpus (taken h l s) h) = 1"
  by (simp add: taken_def push_off_def Let_def intr_defs cpu_ok_def)

lemma taken_holding [simp]: "holding h (locks (taken h l s) l)"
  by (simp add: taken_def holding_def)

lemma freed_taken: "lock_free (locks s l) \<Longrightarrow> locks (freed l (taken h l s)) = locks s"
  by (cases "locks s l") (simp add: freed_def taken_def lock_free_def fun_upd_idem)

definition has_children :: "nat \<Rightarrow> 'a kernel_scheme \<Rightarrow> bool" where
  "has_children p st \<longleftrightarrow> (\<exists>c<NPROC. parent (kproc c st) = Some p)"

text \<open>The children of \<open>p\<close> go to the first process, which wakes up if there are any.\<close>

lemma exit_reparents:
  assumes "table_ok (sys st)" "cpu_ok (cpus (sys st) h)" "noff (cpus (sys st) h) = 1" "cproc (cpus (sys st) h) = Some p"
    and p: "p < NPROC" "initproc st \<noteq> Some p" "parent (kproc p st) \<noteq> Some p"
  shows "\<exists>ps. reparent h p st = Ok (st\<lparr>sys := (sys st)\<lparr>procs := ps\<rparr>\<rparr>) \<and> length ps = NPROC \<and> ps ! p = kproc p st \<and>
    (\<forall>j<NPROC. j \<noteq> p \<longrightarrow> ps ! j =
       (if has_children p st then wake (map_option ChProc (initproc st)) (adopt p (initproc st) (kproc j st)) else kproc j st))"
proof -
  let ?ps = "map (adopted 0 p (initproc st) (Some p) (procs (sys st))) [0..<NPROC]"
  have len: "length (procs (sys st)) = NPROC" using assms(1) by (simp add: table_ok_def)
  have ex: "(\<exists>k<length (procs (sys st)). parent (procs (sys st) ! k) = Some p) \<longleftrightarrow> has_children p st"
    using len by (simp add: has_children_def kproc_def)
  have "?ps ! j = (if j = p then kproc p st else if has_children p st then wake (map_option ChProc (initproc st)) (adopt p (initproc st) (kproc j st))
      else kproc j st)" if "j < NPROC" for j
    using that ex p(3) unfolding has_children_def by (auto simp: adopted_def Let_def adopt_def kproc_def simp del: upt.simps)
  then show ?thesis
    using reparent_from_ok [of st h 0 p] assms p(1) by (intro exI [of _ ?ps]) (simp add: reparent_def del: upt.simps)
qed

text \<open>The last part of \<open>exit\<close>: its own lock is taken, \<open>wait_lock\<close> is given up, and \<open>sched\<close> finds all its conditions.\<close>

lemma exit_switches:
  fixes s s1 :: sstate and status :: i32
  assumes c: "cpu_ok (cpus s1 h)" "noff (cpus s1 h) = 0" "cproc (cpus s1 h) = Some p" and p: "p < NPROC" "table_ok s"
    and s: "cpus s = cpus (taken h Lwait s1)" "locks s = locks (taken h Lwait s1)"
  defines "f \<equiv> \<lambda>q. q\<lparr>xstate := status, pstate := ZOMBIE, etime := ticks s\<rparr>"
  defines "s' \<equiv> upd_proc p f (held h (Lproc p) (freed Lwait s))"
  shows "acq h (Lproc p) s = Ok (taken h (Lproc p) s)" "rel h Lwait (upd_proc p f (taken h (Lproc p) s)) = Ok s'"
    "sched h s' = Ok (intena (cpus s' h), s')"
proof -
  have c2: "cpu_ok (cpus s h)" "noff (cpus s h) = 1" "cproc (cpus s h) = Some p" using taken_cpu [OF c(1,2)] c(3) by (auto simp: s(1))
  have len: "length (procs s) = NPROC" using p(2) by (simp add: table_ok_def)
  show "acq h (Lproc p) s = Ok (taken h (Lproc p) s)" using acq_free [OF table_ok_free [OF p(2,1)]] .
  show "rel h Lwait (upd_proc p f (taken h (Lproc p) s)) = Ok s'"
    unfolding s'_def using c2 by (intro rel_outer) (simp_all add: s)
  show "sched h s' = Ok (intena (cpus s' h), s')"
  proof (rule sched_leaves)
    show "holding h (locks s' (Lproc p))" using freed_held_simps(8) [of h "Lproc p" "freed Lwait s"] by (simp add: s'_def)
    show "pstate (procs s' ! p) \<noteq> RUNNING" using p(1) len by (simp add: s'_def f_def)
  qed (use c2 in \<open>simp_all add: s'_def\<close>)
qed

text \<open>
  C29: A process exits. When its files and its directory can be closed, \<open>exit\<close> gets to the switch, holding
  the lock of the process alone and with \<open>wait_lock\<close> free; the process is a zombie with its status,
  the time and no open file; its children, and only they, now belong to the first process;
  and exactly the processes that sleep in \<open>wait\<close> for it are made runnable: its parent, and the first
  process when it got children. Of every other entry nothing changes.
\<close>

theorem exit_spec:
  assumes tab: "table_ok (sys st)" and cpu: "cpu_ok (cpus (sys st) h)" "noff (cpus (sys st) h) = 0" "cproc (cpus (sys st) h) = Some p"
    and p: "p < NPROC" "initproc st \<noteq> Some p" "parent (kproc p st) \<noteq> Some p" "length (ofile (kproc p st)) = NOFILE"
    and w: "lock_free (locks (sys st) Lwait)"
    and files: "exit_files p (st\<lparr>sys := settled h (sys st)\<rparr>) = Ok st1"
  shows "\<exists>st'. exit h status st = Ok st' \<and> st' = st1\<lparr>sys := sys st'\<rparr> \<and>
    lock_free (locks (sys st') Lwait) \<and> holding h (locks (sys st') (Lproc p)) \<and> noff (cpus (sys st') h) = 1 \<and>
    kproc p st' = (kproc p st)\<lparr>pstate := ZOMBIE, xstate := status, etime := ticks (sys st), ofile := replicate NOFILE None, cwd := None\<rparr> \<and>
    (\<forall>j<NPROC. j \<noteq> p \<longrightarrow> kproc j st' = wake (map_option ChProc (parent (kproc p st)))
       (if has_children p st then wake (map_option ChProc (initproc st)) (adopt p (initproc st) (kproc j st)) else kproc j st))"
proof -
  let ?ip = "initproc st" and ?s0 = "settled h (sys st)" and ?pc = "map_option ChProc (parent (kproc p st))"
  have len: "length (procs (sys st)) = NPROC" using tab by (simp add: table_ok_def)
  obtain os where os: "initproc st1 = ?ip" "length os = NOFILE" "\<forall>fd<NOFILE. os ! fd = None"
    and s1: "sys st1 = upd_proc p (\<lambda>q. q\<lparr>ofile := os, cwd := None\<rparr>) ?s0"
    using exit_files_frame [OF files] len p by (auto simp: kproc_def)
  have osr: "os = replicate NOFILE None" using os(2,3) by (simp add: list_eq_iff_nth_eq)
  let ?s2 = "taken h Lwait (sys st1)"
  have t2: "table_ok ?s2" using tab by (simp add: s1 table_ok_def taken_def)
  have c1: "cpu_ok (cpus (sys st1) h)" "noff (cpus (sys st1) h) = 0" "cproc (cpus (sys st1) h) = Some p" using cpu by (simp_all add: s1)
  have c2: "cpu_ok (cpus ?s2 h)" "noff (cpus ?s2 h) = 1" "cproc (cpus ?s2 h) = Some p" using taken_cpu [OF c1(1,2)] c1(3) by auto
  have a2: "on_sys (acq h Lwait) st1 = Ok (st1\<lparr>sys := ?s2\<rparr>)" using acq_free [of "sys st1" Lwait h] w by (simp add: on_sys_def s1)
  have pj: "kproc j (st1\<lparr>sys := ?s2\<rparr>) = (if j = p then (kproc p st)\<lparr>ofile := os, cwd := None\<rparr> else kproc j st)" if "j < NPROC" for j
    using that len p(1) by (simp add: s1 kproc_def)
  have hc: "has_children p (st1\<lparr>sys := ?s2\<rparr>) = has_children p st" using pj p(1,3) by (auto simp: has_children_def split: if_splits)
  obtain ps where ps: "reparent h p (st1\<lparr>sys := ?s2\<rparr>) = Ok (st1\<lparr>sys := ?s2\<lparr>procs := ps\<rparr>\<rparr>)" "length ps = NPROC"
    "ps ! p = (kproc p st)\<lparr>ofile := os, cwd := None\<rparr>" "\<forall>j<NPROC. j \<noteq> p \<longrightarrow> ps ! j =
       (if has_children p st then wake (map_option ChProc ?ip) (adopt p ?ip (kproc j st)) else kproc j st)"
    using exit_reparents [of "st1\<lparr>sys := ?s2\<rparr>" h p] t2 c2 p os(1) pj by (auto simp: hc)
  have t3: "table_ok (?s2\<lparr>procs := ps\<rparr>)" using t2 ps(2) by (simp add: table_ok_def)
  obtain s4 where s4: "wakeup h ?pc (?s2\<lparr>procs := ps\<rparr>) = Ok s4" "s4 = (settled h (?s2\<lparr>procs := ps\<rparr>))\<lparr>procs := procs s4\<rparr>" "table_ok s4"
    "\<forall>j<NPROC. procs s4 ! j = (if Some p = Some j then ps ! j else wake ?pc (ps ! j))"
    using wakeup_ok [OF t3, of h ?pc] c2 by auto
  have s4': "s4 = ?s2\<lparr>procs := procs s4\<rparr>" using s4(2) c2(2) by simp
  have c4: "cpus s4 = cpus ?s2" "locks s4 = locks ?s2" "ticks s4 = ticks (sys st)" "length (procs s4) = NPROC"
    using arg_cong [OF s4', of cpus] arg_cong [OF s4', of locks] arg_cong [OF s4', of ticks] s4(3) by (simp_all add: s1 table_ok_def)
  let ?s6 = "upd_proc p (\<lambda>q. q\<lparr>xstate := status, pstate := ZOMBIE, etime := ticks s4\<rparr>) (held h (Lproc p) (freed Lwait s4))"
  note sw = exit_switches(1) [OF c1 p(1) s4(3) c4(1,2)] exit_switches(2,3) [where status = status, OF c1 p(1) s4(3) c4(1,2)]
  have me: "with_me h F st = F p (st\<lparr>sys := ?s0\<rparr>)" for F :: "nat \<Rightarrow> 'a kernel_scheme \<Rightarrow> 'a kernel_scheme res"
    using cpu by (simp add: with_me_def myproc_ok)
  have ks: "parent (kproc p (st1\<lparr>sys := ?s2\<lparr>procs := ps\<rparr>\<rparr>)) = parent (kproc p st)" using ps(3) by (simp add: kproc_def)
  have run: "exit h status st = Ok (st1\<lparr>sys := ?s6\<rparr>)"
    unfolding exit_def me Let_def using p(2) files a2 ps(1) s4(1) sw
    by (simp add: ks on_sys_def set_proc_def del: set_proc_simps upd_proc_simps)
  show ?thesis
    unfolding run using ps(3,4) s4(4) p(1) c4 c2(2) osr by (auto simp: kproc_def intro!: exI [of _ "st1\<lparr>sys := ?s6\<rparr>"])
qed

subsection \<open>The scan for zombies\<close>

definition zombie_child :: "nat \<Rightarrow> 'a kernel_scheme \<Rightarrow> nat \<Rightarrow> bool" where
  "zombie_child p st i \<longleftrightarrow> parent (kproc i st) = Some p \<and> pstate (kproc i st) = ZOMBIE"

text \<open>The lock of one entry is taken and given back while \<open>wait_lock\<close> is held: nothing changes.\<close>

lemma acq_rel_nested:
  assumes "table_ok s" "cpu_ok (cpus s h)" "noff (cpus s h) \<noteq> 0" "i < NPROC"
  shows "acq h (Lproc i) s = Ok (taken h (Lproc i) s)" "rel h (Lproc i) (taken h (Lproc i) s) = Ok s"
  using assms table_ok_free [OF assms(1,4)] by (simp_all add: crit_simps)

lemma wait_scan_ok:
  assumes "table_ok (sys st)" "cpu_ok (cpus (sys st) h)" "noff (cpus (sys st) h) \<noteq> 0" "i \<le> NPROC"
  shows "wait_scan h p addr i hk st =
    (case find (zombie_child p st) [i..<NPROC] of
       Some j \<Rightarrow> bnd (wait_found h p addr j (st\<lparr>sys := taken h (Lproc j) (sys st)\<rparr>)) (\<lambda>(r, st). Ok (Inl r, st))
     | None \<Rightarrow> Ok (Inr (hk \<or> (\<exists>j. i \<le> j \<and> j < NPROC \<and> parent (kproc j st) = Some p)), st))"
  using assms(4)
proof (induction "NPROC - i" arbitrary: i hk)
  case 0
  then have "i = NPROC" by simp
  then show ?case by (subst wait_scan.simps) auto
next
  case (Suc k)
  then have i: "i < NPROC" and cons: "[i..<NPROC] = i # [i + 1..<NPROC]" by (auto simp: upt_conv_Cons)
  note crit = acq_rel_nested [OF assms(1-3) i]
  have IH: "wait_scan h p addr (i + 1) hk' st =
    (case find (zombie_child p st) [i + 1..<NPROC] of
       Some j \<Rightarrow> bnd (wait_found h p addr j (st\<lparr>sys := taken h (Lproc j) (sys st)\<rparr>)) (\<lambda>(r, st). Ok (Inl r, st))
     | None \<Rightarrow> Ok (Inr (hk' \<or> (\<exists>j. i + 1 \<le> j \<and> j < NPROC \<and> parent (kproc j st) = Some p)), st))" for hk'
    by (intro Suc.hyps(1)) (use Suc.hyps(2) i in auto)
  have ex: "(\<exists>j. i \<le> j \<and> j < NPROC \<and> parent (kproc j st) = Some p) \<longleftrightarrow>
    parent (kproc i st) = Some p \<or> (\<exists>j. i + 1 \<le> j \<and> j < NPROC \<and> parent (kproc j st) = Some p)"
    using i by (metis Suc_eq_plus1 Suc_leD Suc_leI le_neq_implies_less order_refl)
  have tk: "kproc i (st\<lparr>sys := taken h (Lproc i) (sys st)\<rparr>) = kproc i st" by (simp add: kproc_def)
  show ?case
  proof (cases "zombie_child p st i")
    case True
    then show ?thesis
      using i crit(1) tk unfolding cons by (subst wait_scan.simps) (simp add: zombie_child_def on_sys_def)
  next
    case nz: False
    show ?thesis
    proof (cases "parent (kproc i st) = Some p")
      case True
      then have "wait_scan h p addr i hk st = wait_scan h p addr (i + 1) True st"
        using i crit tk nz by (subst wait_scan.simps) (simp add: zombie_child_def on_sys_def)
      with True nz ex show ?thesis unfolding IH cons by (simp split: option.split)
    next
      case False
      then have "wait_scan h p addr i hk st = wait_scan h p addr (i + 1) hk st"
        using i by (subst wait_scan.simps) simp
      with False nz ex show ?thesis unfolding IH cons by (simp split: option.split)
    qed
  qed
qed

text \<open>What a reaped child leaves behind: its entry cleared, and the pages of its trap frame and of its page table
  given back.\<close>

definition reaped :: "proc \<Rightarrow> proc" where
  "reaped q = q\<lparr>trapframe := 0, pagetable := 0, psz := 0, pid := 0, parent := None, pname := (pname q)[0 := 0], pchan := None,
     pkilled := False, xstate := 0, pstate := UNUSED\<rparr>"

definition memory_back :: "proc \<Rightarrow> kmem \<Rightarrow> kmem res" where
  "memory_back q k = bnd (if trapframe q \<noteq> 0 then kfree (trapframe q) k else Ok k) (\<lambda>k.
     if pagetable q \<noteq> 0 then proc_freepagetable (pagetable q) (psz q) k else Ok k)"

lemma freeproc_reaps:
  assumes "i < length (procs (sys st))"
  shows "freeproc i st = bnd (memory_back (kproc i st) (km st)) (\<lambda>k. Ok (st\<lparr>km := k, sys := upd_proc i reaped (sys st)\<rparr>))"
  using assms
  by (auto simp: freeproc_def memory_back_def reaped_def on_km_def set_proc_def kproc_def upd_proc_def Let_def bnd_assoc split: res.split)

lemma sys_km: "(st :: 'a kernel_scheme)\<lparr>sys := s, km := k\<rparr> = st\<lparr>km := k, sys := s\<rparr>"
  by simp

lemma wait_found_reaps:
  assumes tab: "table_ok (sys st)" and cpu: "cpu_ok (cpus (sys st) h)" "noff (cpus (sys st) h) \<noteq> 0" and j: "j < NPROC"
    and s': "rel h Lwait (sys st) = Ok s'"
  shows "bnd (wait_found h p addr j (st\<lparr>sys := taken h (Lproc j) (sys st)\<rparr>)) (\<lambda>(r, st). Ok (Inl r, st)) =
    bnd (if addr \<noteq> 0 then copyout (pagetable (kproc p st)) addr (le_bytes 4 (xstate (kproc j st))) (km st) else Ok (0, km st)) (\<lambda>(r, k).
      if r < 0 then Ok (Inl (- 1), st\<lparr>km := k, sys := s'\<rparr>)
      else bnd (memory_back (kproc j st) k) (\<lambda>k.
        Ok (Inl (pid (kproc j st)), st\<lparr>km := k, sys := upd_proc j reaped s'\<rparr>)))"
proof -
  have rel1: "rel h (Lproc j) (taken h (Lproc j) (sys st)) = Ok (sys st)"
    using acq_rel_nested [OF tab cpu j] by simp
  have rel2: "rel h (Lproc j) (upd_proc j reaped (taken h (Lproc j) (sys st))) = Ok (upd_proc j reaped (sys st))"
    using table_ok_free [OF tab j] cpu acq_rel_nested(2) [OF tab cpu j] by (simp add: crit_simps settled_procs upd_proc_def)
  have rel3: "rel h Lwait (upd_proc j reaped (sys st)) = Ok (upd_proc j reaped s')"
    using s' by (auto simp: rel_def upd_proc_def bnd_def split: res.splits)
  let ?c = "if addr \<noteq> 0 then copyout (pagetable (kproc p st)) addr (le_bytes 4 (xstate (kproc j st))) (km st) else Ok (0, km st)"
  have len: "j < length (procs (sys st))" using j tab by (simp add: table_ok_def)
  have k [simp]: "kproc i (st\<lparr>sys := taken h (Lproc j) (sys st)\<rparr>) = kproc i st"
    "kproc i (st\<lparr>km := k, sys := taken h (Lproc j) (sys st)\<rparr>) = kproc i st" for i k by (simp_all add: kproc_def)
  show ?thesis
  proof (cases ?c)
    case (Ok x)
    obtain r k where x: "x = (r, k)" by (cases x)
    have "freeproc j (st\<lparr>sys := taken h (Lproc j) (sys st), km := k\<rparr>) =
        bnd (memory_back (kproc j st) k) (\<lambda>k. Ok (st\<lparr>sys := upd_proc j reaped (taken h (Lproc j) (sys st)), km := k\<rparr>))"
      using len by (simp add: freeproc_reaps sys_km)
    then show ?thesis
      using Ok unfolding wait_found_def
      by (cases "addr = 0"; cases "r < 0") (simp_all add: x Let_def on_sys_def rel1 rel2 rel3 s' bnd_assoc sys_km)
  qed (cases "addr = 0"; simp add: wait_found_def Let_def)
qed

text \<open>
  C30: One round of \<open>wait\<close>, with \<open>wait_lock\<close> held. The first zombie among the children is reaped: its exit status is
  copied to the address the caller gave, unless that is null; when the copy fails, the result is -1 and the child
  stays a zombie; otherwise its pages are given back, its entry is cleared and the result is its process id. In both
  cases no process changes but the child, and \<open>wait_lock\<close> and the lock of the child are released. When there is no zombie,
  the call returns -1 with \<open>wait_lock\<close> released if the process has no
  children or is killed, and otherwise leaves the processor asleep on its own address, holding its own lock and not
  \<open>wait_lock\<close>. (That no wakeup can slip in between is the subject of theory \<open>Wakeups\<close>.)
\<close>

theorem wait_round_spec:
  assumes tab: "table_ok (sys st)" and cpu: "cpu_ok (cpus (sys st) h)" "noff (cpus (sys st) h) = 1" "cproc (cpus (sys st) h) = Some p"
    and p: "p < NPROC" and w: "holding h (locks (sys st) Lwait)"
  shows "case find (zombie_child p st) [0..<NPROC] of
      Some j \<Rightarrow>
        \<exists>s'. rel h Lwait (sys st) = Ok s' \<and> procs s' = procs (sys st) \<and> lock_free (locks s' Lwait) \<and> lock_free (locks s' (Lproc j)) \<and>
          wait_round h p addr st =
            bnd (if addr \<noteq> 0 then copyout (pagetable (kproc p st)) addr (le_bytes 4 (xstate (kproc j st))) (km st) else Ok (0, km st)) (\<lambda>(r, k).
              if r < 0 then Ok (Inl (- 1), st\<lparr>km := k, sys := s'\<rparr>)
              else bnd (memory_back (kproc j st) k) (\<lambda>k.
                Ok (Inl (pid (kproc j st)), st\<lparr>km := k, sys := upd_proc j reaped s'\<rparr>)))
    | None \<Rightarrow>
        if \<not> has_children p st \<or> pkilled (kproc p st) then
          (\<exists>s'. wait_round h p addr st = Ok (Inl (- 1), st\<lparr>sys := s'\<rparr>) \<and> lock_free (locks s' Lwait) \<and> procs s' = procs (sys st))
        else
          wait_round h p addr st = Ok (Inr (intena (cpus (sys st) h)),
            st\<lparr>sys := upd_proc p (\<lambda>q. q\<lparr>pchan := Some (ChProc p), pstate := SLEEPING\<rparr>)
              (held h (Lproc p) (freed Lwait (sys st)))\<rparr>)"
proof -
  have nz: "noff (cpus (sys st) h) \<noteq> 0" using cpu(2) by simp
  note scan = wait_scan_ok [OF tab cpu(1) nz, of 0 p addr False]
  have hc: "(\<exists>j. j < NPROC \<and> parent (kproc j st) = Some p) = has_children p st" by (simp add: has_children_def)
  note crit = acq_rel_nested [OF tab cpu(1) nz p]
  have kl: "killed h p (sys st) = Ok (pkilled (kproc p st), sys st)"
    using crit by (simp add: killed_def Let_def kproc_def)
  obtain c where c: "pop_off (cpus (sys st) h) = Ok c"
    using cpu(1,2) by (auto simp: pop_off_def cpu_ok_def Let_def intr_defs)
  have rl: "\<exists>s'. rel h Lwait (sys st) = Ok s' \<and> lock_free (locks s' Lwait) \<and> procs s' = procs (sys st)"
    using w c by (auto simp: rel_def release_def release_check_def lock_release_def lock_free_def)
  let ?s = "upd_proc p (\<lambda>q. q\<lparr>pchan := Some (ChProc p), pstate := SLEEPING\<rparr>) (held h (Lproc p) (freed Lwait (sys st)))"
  have len: "length (procs (sys st)) = NPROC" using tab by (simp add: table_ok_def)
  have "rel h Lwait (upd_proc p (\<lambda>q. q) (taken h (Lproc p) (sys st))) = Ok (upd_proc p (\<lambda>q. q) (held h (Lproc p) (freed Lwait (sys st))))"
    using cpu w by (intro rel_outer) simp_all
  then have r: "rel h Lwait (taken h (Lproc p) (sys st)) = Ok (held h (Lproc p) (freed Lwait (sys st)))"
    by (simp add: upd_proc_id)
  have "sched h ?s = Ok (intena (cpus ?s h), ?s)"
  proof (rule sched_leaves)
    show "holding h (locks ?s (Lproc p))" using freed_held_simps(8) [of h "Lproc p" "freed Lwait (sys st)"] by simp
    show "pstate (procs ?s ! p) \<noteq> RUNNING" using p len by simp
  qed (use cpu in simp_all)
  then have sl: "sleep h (ChProc p) Lwait (sys st) = Ok (intena (cpus (sys st) h), ?s)"
    using cpu crit(1) r nz by (simp add: sleep_eq myproc_ok)
  show ?thesis
  proof (cases "find (zombie_child p st) [0..<NPROC]")
    case (Some j)
    then have j: "j < NPROC" by (auto simp: find_Some_iff)
    obtain s' where s': "rel h Lwait (sys st) = Ok s'" "lock_free (locks s' Lwait)" "procs s' = procs (sys st)" using rl by blast
    have "lock_free (locks s' (Lproc j))"
      using s'(1) table_ok_free [OF tab j] c by (auto simp: rel_def release_def release_check_def lock_release_def bnd_def split: res.splits if_splits)
    moreover have "wait_round h p addr st =
        bnd (wait_found h p addr j (st\<lparr>sys := taken h (Lproc j) (sys st)\<rparr>)) (\<lambda>(r, st). Ok (Inl r, st))"
      using Some unfolding wait_round_def scan [simplified] by (auto simp: bnd_assoc split: prod.split intro!: arg_cong2 [where f = bnd])
    ultimately show ?thesis
      using Some s' by (simp add: wait_found_reaps [OF tab cpu(1) nz j s'(1)] del: upt.simps)
  next
    case None
    with scan hc have sc: "wait_scan h p addr 0 False st = Ok (Inr (has_children p st), st)" by (simp del: upt.simps)
    show ?thesis
      unfolding wait_round_def sc using None kl rl sl by (auto simp: on_sys_def)
  qed
qed

subsection \<open>A small system\<close>

text \<open>Entry 0 is the first process, asleep in \<open>wait\<close>; entry 2, its child, runs on hart 0 and has a
  child in entry 3.\<close>

definition sample_procs :: "proc list" where
  "sample_procs =
     [init_proc\<lparr>pstate := SLEEPING, pchan := Some (ChProc 0)\<rparr>, free_proc, init_proc\<lparr>pstate := RUNNING, pid := 2, parent := Some 0, cwd := Some 0\<rparr>,
      init_proc\<lparr>pid := 3, parent := Some 2\<rparr>] @ replicate 60 free_proc"

definition sample_sys :: sstate where
  "sample_sys = \<lparr>procs = sample_procs, locks = (\<lambda>_. \<lparr>locked = False, lname = [], lcpu = None\<rparr>),
     cpus = (\<lambda>h. \<lparr>cproc = if h = 0 then Some 2 else None, noff = 0, intena = True, sie = True\<rparr>), ticks = 7\<rparr>"

definition sample_kernel :: kernel where
  "sample_kernel = filesys.extend (sample_files\<lparr>itable := (\<lambda>_. sample_inode\<lparr>iref := 2\<rparr>)\<rparr>)
     \<lparr>sys = sample_sys, nextpid = 4, initproc = Some 0, trampoline = 0x80007000, first = False\<rparr>"

lemma sample_kernel_simps [simp]: "sys sample_kernel = sample_sys" "initproc sample_kernel = Some 0"
  "itable sample_kernel = (\<lambda>_. sample_inode\<lparr>iref := 2\<rparr>)" "outstanding sample_kernel = 0" "lhn sample_kernel = 0"
  "\<not> committing sample_kernel"
  using sample_fs_simps
  by (simp_all add: sample_kernel_def sample_files_def filesys.defs fstate.defs)
    (simp add: sample_fs_def lboot_def bstate.defs lstate.defs)

lemma sample_sys_ok: "table_ok sample_sys" "cpu_ok (cpus sample_sys h)" "settled h sample_sys = sample_sys"
  by (simp_all add: table_ok_def lock_free_def sample_sys_def sample_procs_def cpu_ok_def settled_def settle_def fun_eq_iff)

lemma sample_exit_files: "\<exists>st1. exit_files 2 sample_kernel = Ok st1"
proof -
  have c: "close_files 2 [0..<NOFILE] sample_kernel = Ok sample_kernel"
    by (simp add: upt_rec kproc_def sample_sys_def sample_procs_def init_proc_def free_proc_def)
  show ?thesis
    by (simp add: exit_files_def c begin_op_def iput_def end_op_def commit_def Let_def upd_inode_def kproc_def
        sample_sys_def sample_procs_def sample_inode_def del: upt.simps)
qed

theorem exit_spec_witness:
  "\<exists>st'. exit 0 9 sample_kernel = Ok st' \<and> pstate (kproc 2 st') = ZOMBIE \<and> xstate (kproc 2 st') = 9 \<and>
    parent (kproc 3 st') = Some 0 \<and> pstate (kproc 0 st') = RUNNABLE"
proof -
  obtain st1 where "exit_files 2 (sample_kernel\<lparr>sys := settled 0 (sys sample_kernel)\<rparr>) = Ok st1"
    using sample_exit_files sample_sys_ok(3) by (auto simp: sample_kernel_def filesys.defs)
  note ef = this
  have p2: "kproc 2 sample_kernel = init_proc\<lparr>pstate := RUNNING, pid := 2, parent := Some 0, cwd := Some 0\<rparr>"
    by (simp add: kproc_def sample_sys_def sample_procs_def)
  have len: "length (ofile (kproc 2 sample_kernel)) = NOFILE" by (simp add: p2 init_proc_def free_proc_def)
  have cpu: "cpu_ok (cpus (sys sample_kernel) 0)" "noff (cpus (sys sample_kernel) 0) = 0" "cproc (cpus (sys sample_kernel) 0) = Some 2"
    "table_ok (sys sample_kernel)" "lock_free (locks (sys sample_kernel) Lwait)"
    using sample_sys_ok(1,2) by simp_all (simp_all add: sample_sys_def lock_free_def)
  have ne: "initproc sample_kernel \<noteq> Some 2" "parent (kproc 2 sample_kernel) \<noteq> Some 2" by (simp_all add: p2)
  obtain st' where st': "exit 0 9 sample_kernel = Ok st'"
    "kproc 2 st' = (kproc 2 sample_kernel)\<lparr>pstate := ZOMBIE, xstate := 9, etime := ticks (sys sample_kernel), ofile := replicate NOFILE None, cwd := None\<rparr>"
    "\<forall>j<NPROC. j \<noteq> 2 \<longrightarrow> kproc j st' = wake (map_option ChProc (parent (kproc 2 sample_kernel)))
       (if has_children 2 sample_kernel then wake (map_option ChProc (initproc sample_kernel)) (adopt 2 (initproc sample_kernel) (kproc j sample_kernel))
        else kproc j sample_kernel)"
    using exit_spec [OF cpu(4,1-3) _ ne len cpu(5) ef, of 9] by auto
  have hc: "has_children 2 sample_kernel"
    by (auto simp: has_children_def kproc_def sample_sys_def sample_procs_def intro!: exI [of _ 3])
  have "kproc 3 st' = wake (Some (ChProc 0)) (wake (Some (ChProc 0)) (adopt 2 (Some 0) (kproc 3 sample_kernel)))"
    "kproc 0 st' = wake (Some (ChProc 0)) (wake (Some (ChProc 0)) (adopt 2 (Some 0) (kproc 0 sample_kernel)))"
    using st'(3) hc by (simp_all add: p2)
  with st'(1,2) show ?thesis
    by (intro exI [of _ st']) (simp add: kproc_def sample_sys_def sample_procs_def adopt_def wake_def init_proc_def free_proc_def)
qed

text \<open>The same system after entry 3 has exited.\<close>

definition zombie_sys :: sstate where
  "zombie_sys = upd_proc 3 (\<lambda>q. q\<lparr>pstate := ZOMBIE\<rparr>) sample_sys"

theorem wait_round_spec_witness:
  "(\<exists>s'. wait_round 0 2 0 (sample_kernel\<lparr>sys := taken 0 Lwait sample_sys\<rparr>) =
     Ok (Inr True, sample_kernel\<lparr>sys := s'\<rparr>) \<and> pstate (procs s' ! 2) = SLEEPING \<and> lock_free (locks s' Lwait)) \<and>
   (\<exists>st'. wait_round 0 2 0 (sample_kernel\<lparr>sys := taken 0 Lwait zombie_sys\<rparr>) = Ok (Inl 3, st') \<and> pstate (kproc 3 st') = UNUSED)"
proof -
  let ?st = "sample_kernel\<lparr>sys := taken 0 Lwait sample_sys\<rparr>"
  have cpu: "table_ok (sys ?st)" "cpu_ok (cpus (sys ?st) 0)" "noff (cpus (sys ?st) 0) = 1" "cproc (cpus (sys ?st) 0) = Some 2"
    "intena (cpus (sys ?st) 0)"
    using taken_cpu [OF sample_sys_ok(2), of 0 Lwait] sample_sys_ok(1)
    by (simp_all add: table_ok_def taken_def sample_sys_def push_off_def intr_defs Let_def)
  have z: "\<not> zombie_child 2 ?st j" if "j < NPROC" for j
    using that by (auto simp: zombie_child_def kproc_def sample_sys_def sample_procs_def nth_append nth_Cons' init_proc_def free_proc_def)
  then have f: "find (zombie_child 2 ?st) [0..<NPROC] = None" by (auto simp: find_None_iff)
  have hc: "has_children 2 ?st"
    by (auto simp: has_children_def kproc_def sample_sys_def sample_procs_def intro!: exI [of _ 3])
  have k: "\<not> pkilled (kproc 2 ?st)" by (simp add: kproc_def sample_sys_def sample_procs_def init_proc_def free_proc_def)
  have "holding 0 (locks (sys ?st) Lwait)" by simp
  from wait_round_spec [OF cpu(1-4) _ this, of 0] f hc k cpu(5)
  have "wait_round 0 2 0 ?st = Ok (Inr True, ?st\<lparr>sys := upd_proc 2 (\<lambda>q. q\<lparr>pchan := Some (ChProc 2), pstate := SLEEPING\<rparr>)
    (held 0 (Lproc 2) (freed Lwait (taken 0 Lwait sample_sys)))\<rparr>)"
    by (simp del: upt.simps)
  then have sleeps: "\<exists>s'. wait_round 0 2 0 ?st = Ok (Inr True, sample_kernel\<lparr>sys := s'\<rparr>) \<and> pstate (procs s' ! 2) = SLEEPING \<and> lock_free (locks s' Lwait)"
    by (intro exI) (auto simp: sample_sys_def sample_procs_def held_def freed_def lock_free_def)
  let ?z = "sample_kernel\<lparr>sys := taken 0 Lwait zombie_sys\<rparr>"
  have cpu': "table_ok (sys ?z)" "cpu_ok (cpus (sys ?z) 0)" "noff (cpus (sys ?z) 0) = 1" "cproc (cpus (sys ?z) 0) = Some 2"
    using cpu by (simp_all add: zombie_sys_def upd_proc_def table_ok_def taken_def)
  have e3: "kproc 3 ?z = init_proc\<lparr>pid := 3, parent := Some 2, pstate := ZOMBIE\<rparr>"
    by (simp add: kproc_def zombie_sys_def upd_proc_def sample_sys_def sample_procs_def)
  have "zombie_child 2 ?z 3" "\<not> zombie_child 2 ?z 0" "\<not> zombie_child 2 ?z 1" "\<not> zombie_child 2 ?z 2"
    by (simp_all add: zombie_child_def kproc_def zombie_sys_def upd_proc_def sample_sys_def sample_procs_def init_proc_def free_proc_def)
  then have f': "find (zombie_child 2 ?z) [0..<NPROC] = Some 3" by (simp add: upt_rec [of _ NPROC] numeral_2_eq_2 numeral_3_eq_3)
  have len: "3 < length (procs (sys ?z))" by (simp add: zombie_sys_def upd_proc_def sample_sys_def sample_procs_def)
  have "memory_back (kproc 3 ?z) k = Ok k" for k by (simp add: memory_back_def e3 init_proc_def free_proc_def)
  with wait_round_spec [OF cpu' _ _, of 0] f'
  obtain s' where s': "procs s' = procs (sys ?z)" "wait_round 0 2 0 ?z = Ok (Inl 3, ?z\<lparr>km := km ?z, sys := upd_proc 3 reaped s'\<rparr>)"
    by (auto simp: e3 simp del: upt.simps)
  then have "pstate (kproc 3 (?z\<lparr>km := km ?z, sys := upd_proc 3 reaped s'\<rparr>)) = UNUSED"
    using len by (simp add: kproc_def upd_proc_def reaped_def)
  with s'(2) sleeps show ?thesis by blast
qed

end
