(* ===== verification/Sysproc.thy ===== *)
theory Sysproc
  imports Proc
begin

text \<open>
  System call arguments, \<open>kernel/syscall.c\<close>, and the system calls on processes, \<open>kernel/sysproc.c\<close>.
  The arguments are the registers \<open>a0\<close> to \<open>a5\<close> saved in the trap frame. A call that may sleep also
  returns the hart on which the process continues.
\<close>

subsection \<open>Arguments\<close>

definition fetchaddr :: "nat \<Rightarrow> u64 \<Rightarrow> 'a kernel_scheme \<Rightarrow> (int \<times> u64 \<times> 'a kernel_scheme) res" where
  "fetchaddr h addr st = with_me h (\<lambda>p st.
     if psz (kproc p st) \<le> addr \<or> psz (kproc p st) < addr + 8 then Ok (- 1, 0, st)
     else
       bnd (copyin (pagetable (kproc p st)) addr 8 (km st)) (\<lambda>(r, bs).
         if r \<noteq> 0 then Ok (- 1, 0, st) else Ok (0, of_le bs, st))) st"

text \<open>The string is the bytes before the NUL that \<open>copyinstr\<close> stored, and the result of a success their
  number, \<open>strlen(buf)\<close>.\<close>

definition fetchstr :: "nat \<Rightarrow> u64 \<Rightarrow> nat \<Rightarrow> 'a kernel_scheme \<Rightarrow> (int \<times> u8 list \<times> 'a kernel_scheme) res" where
  "fetchstr h addr mx st = with_me h (\<lambda>p st.
     bnd (copyinstr (pagetable (kproc p st)) addr mx (km st)) (\<lambda>(r, bs).
       if r < 0 then Ok (- 1, [], st)
       else let s = takeWhile (\<lambda>c. c \<noteq> 0) bs in Ok (int (length s), s, st))) st"

definition argraw :: "nat \<Rightarrow> nat \<Rightarrow> 'a kernel_scheme \<Rightarrow> (u64 \<times> 'a kernel_scheme) res" where
  "argraw h n st = with_me h (\<lambda>p st.
     if n \<le> 5 then Ok (tf_get p (tf_a0 + 8 * of_nat n) st, st) else Err (Panic ''argraw'')) st"

definition argint :: "nat \<Rightarrow> nat \<Rightarrow> 'a kernel_scheme \<Rightarrow> (i32 \<times> 'a kernel_scheme) res" where
  "argint h n st = bnd (argraw h n st) (\<lambda>(v, st). Ok (ucast v, st))"

definition argaddr :: "nat \<Rightarrow> nat \<Rightarrow> 'a kernel_scheme \<Rightarrow> (u64 \<times> 'a kernel_scheme) res" where
  "argaddr h n st = argraw h n st"

definition argstr :: "nat \<Rightarrow> nat \<Rightarrow> nat \<Rightarrow> 'a kernel_scheme \<Rightarrow> (int \<times> u8 list \<times> 'a kernel_scheme) res" where
  "argstr h n mx st = bnd (argaddr h n st) (\<lambda>(addr, st). fetchstr h addr mx st)"

subsection \<open>Process system calls\<close>

text \<open>\<open>sys_exit\<close> does not return: the result is the state at the switch.\<close>

definition sys_exit :: "nat \<Rightarrow> 'a kernel_scheme \<Rightarrow> 'a kernel_scheme res" where
  "sys_exit h st = bnd (argint h 0 st) (\<lambda>(n, st). exit h n st)"

definition sys_getpid :: "nat \<Rightarrow> 'a kernel_scheme \<Rightarrow> (u64 \<times> 'a kernel_scheme) res" where
  "sys_getpid h st = with_me h (\<lambda>p st. Ok (word_of_int (pid (kproc p st)), st)) st"

definition sys_fork :: "nat \<Rightarrow> 'a kernel_scheme \<Rightarrow> (u64 \<times> 'a kernel_scheme) res" where
  "sys_fork h st = bnd (fork h st) (\<lambda>(r, st). Ok (word_of_int r, st))"

definition sys_wait :: "nat \<Rightarrow> 'a switch list \<Rightarrow> 'a kernel_scheme \<Rightarrow> (u64 \<times> nat \<times> 'a kernel_scheme) res" where
  "sys_wait h sws st =
     bnd (argaddr h 0 st) (\<lambda>(addr, st). bnd (wait h addr sws st) (\<lambda>(r, h, st). Ok (word_of_int r, h, st)))"

definition sys_sbrk :: "nat \<Rightarrow> 'a kernel_scheme \<Rightarrow> (u64 \<times> 'a kernel_scheme) res" where
  "sys_sbrk h st =
     bnd (argint h 0 st) (\<lambda>(n, st). with_me h (\<lambda>p st.
       let addr = psz (kproc p st) in
       bnd (growproc h n st) (\<lambda>(r, st). if r < 0 then Ok (- 1, st) else Ok (addr, st))) st)"

text \<open>One round of the loop of \<open>sys_sleep\<close>, which holds \<open>tickslock\<close>: the comparison is unsigned.\<close>

definition sleep_round :: "nat \<Rightarrow> nat \<Rightarrow> i32 \<Rightarrow> u32 \<Rightarrow> 'a kernel_scheme \<Rightarrow> ((u64 + bool) \<times> 'a kernel_scheme) res" where
  "sleep_round h p n ticks0 st =
     (if ticks (sys st) - ticks0 < n then
        bnd (killed h p (sys st)) (\<lambda>(k, s).
          let st = st\<lparr>sys := s\<rparr> in
          if k then bnd (on_sys (rel h Lticks) st) (\<lambda>st. Ok (Inl (- 1), st))
          else bnd (sleep h ChTicks Lticks (sys st)) (\<lambda>(ie, s). Ok (Inr ie, st\<lparr>sys := s\<rparr>)))
      else bnd (on_sys (rel h Lticks) st) (\<lambda>st. Ok (Inl 0, st)))"

definition sys_sleep :: "nat \<Rightarrow> 'a switch list \<Rightarrow> 'a kernel_scheme \<Rightarrow> (u64 \<times> nat \<times> 'a kernel_scheme) res" where
  "sys_sleep h sws st =
     bnd (argint h 0 st) (\<lambda>(n, st).
     bnd (on_sys (acq h Lticks) st) (\<lambda>st.
       let ticks0 = ticks (sys st) in
       with_me h (\<lambda>p st. wait_rounds Lticks (\<lambda>h. sleep_round h p n ticks0) p sws h st) st))"

definition sys_kill :: "nat \<Rightarrow> 'a kernel_scheme \<Rightarrow> (u64 \<times> 'a kernel_scheme) res" where
  "sys_kill h st =
     bnd (argint h 0 st) (\<lambda>(pd, st).
     bnd (kill h (sint pd) (sys st)) (\<lambda>(r, s). Ok (word_of_int r, st\<lparr>sys := s\<rparr>)))"

definition sys_uptime :: "nat \<Rightarrow> 'a kernel_scheme \<Rightarrow> (u64 \<times> 'a kernel_scheme) res" where
  "sys_uptime h st =
     bnd (on_sys (acq h Lticks) st) (\<lambda>st.
       let xticks = ticks (sys st) in
       bnd (on_sys (rel h Lticks) st) (\<lambda>st. Ok (ucast xticks, st)))"

text \<open>\<open>junk\<close> is what the uninitialised locals \<open>wtime\<close> and \<open>RTime\<close> hold: it goes to user memory when
  \<open>waitx\<close> stores nothing.\<close>

definition sys_waitx :: "nat \<Rightarrow> u32 \<times> u32 \<Rightarrow> 'a switch list \<Rightarrow> 'a kernel_scheme \<Rightarrow> (u64 \<times> nat \<times> 'a kernel_scheme) res" where
  "sys_waitx h junk sws st =
     bnd (argaddr h 0 st) (\<lambda>(addr, st).
     bnd (argaddr h 1 st) (\<lambda>(addr1, st).
     bnd (argaddr h 2 st) (\<lambda>(addr2, st).
     bnd (waitx h addr sws st) (\<lambda>((ret, times), h, st).
       let (wtime, rtime) = (case times of None \<Rightarrow> junk | Some t \<Rightarrow> t) in
       with_me h (\<lambda>p st.
         bnd (copyout (pagetable (kproc p st)) addr1 (le_bytes 4 wtime) (km st)) (\<lambda>(r, k).
           let st = st\<lparr>km := k\<rparr> in
           if r < 0 then Ok (- 1, h, st)
           else
             bnd (copyout (pagetable (kproc p st)) addr2 (le_bytes 4 rtime) (km st)) (\<lambda>(r, k).
               let st = st\<lparr>km := k\<rparr> in
               if r < 0 then Ok (- 1, h, st) else Ok (word_of_int ret, h, st)))) st))))"

text \<open>The first argument is called \<open>pid\<close> here, but \<open>set_priority\<close> takes it as the new priority.\<close>

definition sys_set_priority ::
  "(nat \<Rightarrow> sstate \<Rightarrow> nat \<times> sstate) \<Rightarrow> nat \<Rightarrow> 'a kernel_scheme \<Rightarrow> (u64 \<times> 'a kernel_scheme) res" where
  "sys_set_priority sw h st =
     bnd (argint h 0 st) (\<lambda>(pd, st).
     bnd (argint h 1 st) (\<lambda>(new_priority, st).
     bnd (set_priority sw h pd (sint new_priority) (sys st)) (\<lambda>(r, s). Ok (scast r, st\<lparr>sys := s\<rparr>))))"

end
