(* ===== verification/Exec.thy ===== *)
theory Exec
  imports Sysproc
begin

text \<open>
  Replacing the memory of a process by a program from the file system, \<open>kernel/exec.c\<close>. The ELF and
  program headers are read at the offsets of \<open>kernel/elf.h\<close>; \<open>argv\<close> is the list of the strings before
  the null pointer, each without its NUL.
\<close>

abbreviation ELF_MAGIC :: u32 where "ELF_MAGIC \<equiv> 0x464C457F"
abbreviation MAXARG :: nat where "MAXARG \<equiv> 32"

text \<open>\<open>namei\<close> and \<open>nameiparent\<close> for a path of the process at entry \<open>p\<close>: its current directory is read
  for relative paths only.\<close>

definition my_cwd :: "nat \<Rightarrow> u8 list \<Rightarrow> 'a kernel_scheme \<Rightarrow> nat res" where
  "my_cwd p path st =
     (case cwd (kproc p st) of
        Some d \<Rightarrow> Ok d
      | None \<Rightarrow> if path \<noteq> [] \<and> hd path = 47 then Ok 0 else Err (Undef ''null pointer''))"

definition my_namei :: "nat \<Rightarrow> u8 list \<Rightarrow> 'a kernel_scheme \<Rightarrow> (nat option \<times> 'a kernel_scheme) res" where
  "my_namei p path st = bnd (my_cwd p path st) (\<lambda>d. namei (pid (kproc p st)) d path st)"

definition my_nameiparent ::
  "nat \<Rightarrow> u8 list \<Rightarrow> 'a kernel_scheme \<Rightarrow> (nat option \<times> (nat \<Rightarrow> u8) \<times> 'a kernel_scheme) res" where
  "my_nameiparent p path st = bnd (my_cwd p path st) (\<lambda>d. nameiparent (pid (kproc p st)) d path (\<lambda>_. 0) st)"

record elfhdr =
  elf_magic :: u32
  elf_entry :: u64
  elf_phoff :: u64
  elf_phnum :: u16

record proghdr =
  ph_type :: u32
  ph_flags :: u32
  ph_off :: u64
  ph_vaddr :: u64
  ph_filesz :: u64
  ph_memsz :: u64

text \<open>The field of \<open>n\<close> bytes at offset \<open>k\<close>.\<close>

definition field :: "u8 list \<Rightarrow> nat \<Rightarrow> nat \<Rightarrow> 'a::len word" where
  "field bs k n = of_le (take n (drop k bs))"

definition get_elfhdr :: "u8 list \<Rightarrow> elfhdr" where
  "get_elfhdr bs = \<lparr>elf_magic = field bs 0 4, elf_entry = field bs 24 8, elf_phoff = field bs 32 8, elf_phnum = field bs 56 2\<rparr>"

definition get_proghdr :: "u8 list \<Rightarrow> proghdr" where
  "get_proghdr bs = \<lparr>ph_type = field bs 0 4, ph_flags = field bs 4 4, ph_off = field bs 8 8, ph_vaddr = field bs 16 8,
     ph_filesz = field bs 32 8, ph_memsz = field bs 40 8\<rparr>"

definition flags2perm :: "u32 \<Rightarrow> u64" where
  "flags2perm flags =
     (let perm = (if flags AND 1 \<noteq> 0 then PTE_X else 0) in if flags AND 2 \<noteq> 0 then perm OR PTE_W else perm)"

text \<open>The loop of \<open>loadseg\<close>; its \<open>uint\<close> counter wraps when the segment ends in the last page below
  \<open>2^32\<close>, and the loop then starts over.\<close>

function loadseg_from ::
  "int \<Rightarrow> u64 \<Rightarrow> u64 \<Rightarrow> nat \<Rightarrow> u32 \<Rightarrow> nat \<Rightarrow> nat \<Rightarrow> 'a kernel_scheme \<Rightarrow> (int \<times> 'a kernel_scheme) res" where
  "loadseg_from pd pt va ip offset sz i st =
     (if i < sz then
        bnd (walkaddr pt (va + of_nat i) (km st)) (\<lambda>pa.
          if pa = 0 then Err (Panic ''loadseg: address should exist'')
          else
            let n = (if sz - i < 4096 then sz - i else 4096) in
            bnd (readi pd kout ip (offset + of_nat i) (of_nat n) st) (\<lambda>(r, bs, st).
              let st = st\<lparr>km := (km st)\<lparr>phys := store_bytes (phys (km st)) pa bs\<rparr>\<rparr> in
              if r \<noteq> int n then Ok (- 1, st)
              else if 2 ^ 32 \<le> i + 4096 then Err (Waits ''loadseg: loop'')
              else loadseg_from pd pt va ip offset sz (i + 4096) st))
      else Ok (0, st))"
  by pat_completeness auto
termination by (relation "measure (\<lambda>(_, _, _, _, _, sz, i, _). sz - i)") auto

declare loadseg_from.simps [simp del]

definition loadseg :: "int \<Rightarrow> u64 \<Rightarrow> u64 \<Rightarrow> nat \<Rightarrow> u32 \<Rightarrow> u32 \<Rightarrow> 'a kernel_scheme \<Rightarrow> (int \<times> 'a kernel_scheme) res" where
  "loadseg pd pt va ip offset sz st = loadseg_from pd pt va ip offset (unat sz) 0 st"

text \<open>The loop over the program headers: \<open>k\<close> are left, the next one is at \<open>pos\<close>. The result is whether
  all could be loaded, and the size so far.\<close>

fun exec_load ::
  "int \<Rightarrow> nat \<Rightarrow> u64 \<Rightarrow> nat \<Rightarrow> u32 \<Rightarrow> u64 \<Rightarrow> 'a kernel_scheme \<Rightarrow> (bool \<times> u64 \<times> 'a kernel_scheme) res" where
  "exec_load pd ip pt 0 pos sz st = Ok (True, sz, st)"
| "exec_load pd ip pt (Suc k) pos sz st =
     bnd (readi pd kout ip pos 56 st) (\<lambda>(r, bs, st).
       let ph = get_proghdr bs in
       if r \<noteq> 56 then Ok (False, sz, st)
       else if ph_type ph \<noteq> 1 then exec_load pd ip pt k (pos + 56) sz st
       else if ph_memsz ph < ph_filesz ph then Ok (False, sz, st)
       else if ph_vaddr ph + ph_memsz ph < ph_vaddr ph then Ok (False, sz, st)
       else if ph_vaddr ph mod PGSIZE \<noteq> 0 then Ok (False, sz, st)
       else
         bnd (uvmalloc pt sz (ph_vaddr ph + ph_memsz ph) (flags2perm (ph_flags ph)) (km st)) (\<lambda>(sz1, m).
           let st = st\<lparr>km := m\<rparr> in
           if sz1 = 0 then Ok (False, sz, st)
           else
             bnd (loadseg pd pt (ph_vaddr ph) ip (ucast (ph_off ph)) (ucast (ph_filesz ph)) st) (\<lambda>(r, st).
               if r < 0 then Ok (False, sz1, st) else exec_load pd ip pt k (pos + 56) sz1 st)))"

text \<open>Pushing the argument strings: \<open>None\<close> for a jump to \<open>bad\<close>, otherwise the stack pointer and the
  pointers pushed so far.\<close>

fun exec_push ::
  "u64 \<Rightarrow> u64 \<Rightarrow> u8 list list \<Rightarrow> u64 \<Rightarrow> u64 list \<Rightarrow> kmem \<Rightarrow> ((u64 \<times> u64 list) option \<times> kmem) res" where
  "exec_push pt stackbase [] sp ustack m = Ok (Some (sp, ustack), m)"
| "exec_push pt stackbase (s # argv) sp ustack m =
     (if MAXARG \<le> length ustack then Ok (None, m)
      else
        let sp = sp - of_nat (length s + 1); sp = sp - sp mod 16 in
        if sp < stackbase then Ok (None, m)
        else
          bnd (copyout pt sp (s @ [0]) m) (\<lambda>(r, m).
            if r < 0 then Ok (None, m) else exec_push pt stackbase argv sp (ustack @ [sp]) m))"

text \<open>The label \<open>bad\<close>.\<close>

definition exec_bad :: "int \<Rightarrow> u64 \<Rightarrow> u64 \<Rightarrow> nat option \<Rightarrow> 'a kernel_scheme \<Rightarrow> (int \<times> 'a kernel_scheme) res" where
  "exec_bad pd pt sz ip st =
     bnd (if pt \<noteq> 0 then on_km (proc_freepagetable pt sz) st else Ok st) (\<lambda>st.
       case ip of
         None \<Rightarrow> Ok (- 1, st)
       | Some i \<Rightarrow> bnd (iunlockput pd i st) (\<lambda>st. bnd (end_op pd st) (\<lambda>st. Ok (- 1, st))))"

text \<open>The name of the program is what follows the last slash.\<close>

definition last_elem :: "u8 list \<Rightarrow> u8 list" where
  "last_elem path = rev (takeWhile (\<lambda>c. c \<noteq> 47) (rev path))"

text \<open>From the end of the load on: the stack, the arguments, and the new image in place of the old one.\<close>

definition exec_commit ::
  "nat \<Rightarrow> u8 list \<Rightarrow> u8 list list \<Rightarrow> u64 \<Rightarrow> u64 \<Rightarrow> u64 \<Rightarrow> 'a kernel_scheme \<Rightarrow> (int \<times> 'a kernel_scheme) res" where
  "exec_commit h path argv entry pt sz st = with_me h (\<lambda>p st.
     let oldsz = psz (kproc p st); pd = pid (kproc p st); sz = PGROUNDUP sz in
     bnd (uvmalloc pt sz (sz + 2 * PGSIZE) PTE_W (km st)) (\<lambda>(sz1, m).
       if sz1 = 0 then exec_bad pd pt sz None (st\<lparr>km := m\<rparr>)
       else
         let sz = sz1 in
         bnd (uvmclear pt (sz - 2 * PGSIZE) m) (\<lambda>m.
         bnd (exec_push pt (sz - PGSIZE) argv sz [] m) (\<lambda>(r, m).
           case r of
             None \<Rightarrow> exec_bad pd pt sz None (st\<lparr>km := m\<rparr>)
           | Some (sp, ustack) \<Rightarrow>
               let argc = length ustack in
               if MAXARG \<le> argc then Err (Undef ''ustack out of bounds'')
               else
                 let sp = sp - of_nat (argc + 1) * 8; sp = sp - sp mod 16 in
                 if sp < sz - PGSIZE then exec_bad pd pt sz None (st\<lparr>km := m\<rparr>)
                 else
                   bnd (copyout pt sp (concat (map (le_bytes 8) (ustack @ [0]))) m) (\<lambda>(r, m).
                     let st = st\<lparr>km := m\<rparr> in
                     if r < 0 then exec_bad pd pt sz None st
                     else
                       let st = tf_set p 120 sp st;
                           st = set_proc p (\<lambda>q. q\<lparr>pname := safestr 16 (pname q) (last_elem path)\<rparr>) st;
                           old = pagetable (kproc p st);
                           st = set_proc p (\<lambda>q. q\<lparr>pagetable := pt, psz := sz\<rparr>) st;
                           st = tf_set p tf_sp sp (tf_set p tf_epc entry st)
                       in bnd (on_km (proc_freepagetable old oldsz) st) (\<lambda>st. Ok (int argc, st))))))) st"

definition exec :: "nat \<Rightarrow> u8 list \<Rightarrow> u8 list list \<Rightarrow> 'a kernel_scheme \<Rightarrow> (int \<times> 'a kernel_scheme) res" where
  "exec h path argv st = with_me h (\<lambda>p st.
     let pd = pid (kproc p st) in
     bnd (begin_op st) (\<lambda>st.
       bnd (my_namei p path st) (\<lambda>(ip, st).
           case ip of
             None \<Rightarrow> bnd (end_op pd st) (\<lambda>st. Ok (- 1, st))
           | Some ip \<Rightarrow>
               bnd (ilock pd (Some ip) st) (\<lambda>st.
               bnd (readi pd kout ip 0 64 st) (\<lambda>(r, bs, st).
                 let elf = get_elfhdr bs in
                 if r \<noteq> 64 then exec_bad pd 0 0 (Some ip) st
                 else if elf_magic elf \<noteq> ELF_MAGIC then exec_bad pd 0 0 (Some ip) st
                 else
                   bnd (proc_pagetable p st) (\<lambda>(pt, st).
                     if pt = 0 then exec_bad pd 0 0 (Some ip) st
                     else
                       bnd (exec_load pd ip pt (unat (elf_phnum elf)) (ucast (elf_phoff elf)) 0 st) (\<lambda>(ok, sz, st).
                         if \<not> ok then exec_bad pd pt sz (Some ip) st
                         else
                           bnd (iunlockput pd ip st) (\<lambda>st.
                           bnd (end_op pd st) (\<lambda>st. exec_commit h path argv (elf_entry elf) pt sz st))))))))) st"

end
