(* ===== verification/Sysfile.thy ===== *)
theory Sysfile
  imports Exec
begin

text \<open>
  The system calls on files, \<open>kernel/sysfile.c\<close>: descriptors, reading and writing, links, creation,
  opening, directories, \<open>exec\<close> and \<open>pipe\<close>. Paths are the bytes before the NUL.

  As in theory \<open>File\<close>, the outcome of the copies between a file and the caller's buffer is a
  parameter of \<open>read\<close> and \<open>write\<close>; the bytes that a read delivers are kept in the field \<open>delivered\<close>.
\<close>

abbreviation MAXPATH :: nat where "MAXPATH \<equiv> 128"
abbreviation O_RDONLY :: i32 where "O_RDONLY \<equiv> 0"
abbreviation O_WRONLY :: i32 where "O_WRONLY \<equiv> 1"
abbreviation O_RDWR :: i32 where "O_RDWR \<equiv> 2"
abbreviation O_CREATE :: i32 where "O_CREATE \<equiv> 0x200"
abbreviation O_TRUNC :: i32 where "O_TRUNC \<equiv> 0x400"

record ksys = kernel +
  readCount :: i32
  delivered :: "u8 list"

subsection \<open>Descriptors\<close>

text \<open>The descriptor and the file, or \<open>None\<close> for a result of -1.\<close>

definition argfd :: "nat \<Rightarrow> nat \<Rightarrow> 'a kernel_scheme \<Rightarrow> ((nat \<times> nat) option \<times> 'a kernel_scheme) res" where
  "argfd h n st =
     bnd (argint h n st) (\<lambda>(fd, st).
       if sint fd < 0 \<or> int NOFILE \<le> sint fd then Ok (None, st)
       else with_me h (\<lambda>p st.
         Ok (map_option (\<lambda>f. (nat (sint fd), f)) (ofile (kproc p st) ! nat (sint fd)), st)) st)"

definition fdalloc :: "nat \<Rightarrow> nat \<Rightarrow> 'a kernel_scheme \<Rightarrow> (nat option \<times> 'a kernel_scheme) res" where
  "fdalloc h f st = with_me h (\<lambda>p st.
     case find (\<lambda>fd. ofile (kproc p st) ! fd = None) [0..<NOFILE] of
       None \<Rightarrow> Ok (None, st)
     | Some fd \<Rightarrow> Ok (Some fd, set_proc p (\<lambda>q. q\<lparr>ofile := (ofile q)[fd := Some f]\<rparr>) st)) st"

definition sys_dup :: "nat \<Rightarrow> 'a kernel_scheme \<Rightarrow> (u64 \<times> 'a kernel_scheme) res" where
  "sys_dup h st =
     bnd (argfd h 0 st) (\<lambda>(r, st).
       case r of
         None \<Rightarrow> Ok (- 1, st)
       | Some (_, f) \<Rightarrow>
           bnd (fdalloc h f st) (\<lambda>(fd, st).
             case fd of
               None \<Rightarrow> Ok (- 1, st)
             | Some fd \<Rightarrow> bnd (filedup f st) (\<lambda>(_, st). Ok (of_nat fd, st))))"

definition sys_getreadcount :: "'a ksys_scheme \<Rightarrow> u64 \<times> 'a ksys_scheme" where
  "sys_getreadcount st = (scast (readCount st), st)"

text \<open>The result of a transfer that slept has not been decided yet.\<close>

definition ret_run :: "run \<Rightarrow> 's \<Rightarrow> (u64 \<times> 's) res" where
  "ret_run r st = (case r of Returns n \<Rightarrow> Ok (word_of_int n, st) | Sleeps _ \<Rightarrow> Err (Waits ''sleep''))"

definition sys_read :: "(nat \<Rightarrow> nat \<Rightarrow> bool) \<Rightarrow> nat \<Rightarrow> 'a ksys_scheme \<Rightarrow> (u64 \<times> 'a ksys_scheme) res" where
  "sys_read cout h st =
     (if readCount st = 2 ^ 31 - 1 then Err (Undef ''readCount: int overflow'')
      else
        let st = st\<lparr>readCount := readCount st + 1\<rparr> in
        bnd (argaddr h 1 st) (\<lambda>(addr, st).
        bnd (argint h 2 st) (\<lambda>(n, st).
        bnd (argfd h 0 st) (\<lambda>(r, st).
          case r of
            None \<Rightarrow> Ok (- 1, st)
          | Some (_, f) \<Rightarrow> with_me h (\<lambda>p st.
              bnd (fileread (pid (kproc p st)) cout (pkilled (kproc p st)) f n st) (\<lambda>(r, bs, st).
                ret_run r (st\<lparr>delivered := bs\<rparr>))) st))))"

definition sys_write :: "(nat \<Rightarrow> nat \<Rightarrow> u8 list \<times> bool) \<Rightarrow> nat \<Rightarrow> 'a ksys_scheme \<Rightarrow> (u64 \<times> 'a ksys_scheme) res" where
  "sys_write cin h st =
     bnd (argaddr h 1 st) (\<lambda>(addr, st).
     bnd (argint h 2 st) (\<lambda>(n, st).
     bnd (argfd h 0 st) (\<lambda>(r, st).
       case r of
         None \<Rightarrow> Ok (- 1, st)
       | Some (_, f) \<Rightarrow> with_me h (\<lambda>p st.
           bnd (filewrite (pid (kproc p st)) cin (pkilled (kproc p st)) f n st) (\<lambda>(r, st). ret_run r st)) st)))"

definition sys_close :: "nat \<Rightarrow> 'a kernel_scheme \<Rightarrow> (u64 \<times> 'a kernel_scheme) res" where
  "sys_close h st =
     bnd (argfd h 0 st) (\<lambda>(r, st).
       case r of
         None \<Rightarrow> Ok (- 1, st)
       | Some (fd, f) \<Rightarrow> with_me h (\<lambda>p st.
           let st = set_proc p (\<lambda>q. q\<lparr>ofile := (ofile q)[fd := None]\<rparr>) st in
           bnd (fileclose (pid (kproc p st)) f st) (\<lambda>st. Ok (0, st))) st)"

text \<open>\<open>filestat\<close> ends with the copy to the user; \<open>pad\<close> is what is in the padding of the structure.\<close>

definition sys_fstat :: "u8 list \<Rightarrow> nat \<Rightarrow> 'a kernel_scheme \<Rightarrow> (u64 \<times> 'a kernel_scheme) res" where
  "sys_fstat pad h st =
     bnd (argaddr h 1 st) (\<lambda>(addr, st).
     bnd (argfd h 0 st) (\<lambda>(r, st).
       case r of
         None \<Rightarrow> Ok (- 1, st)
       | Some (_, f) \<Rightarrow> with_me h (\<lambda>p st.
           bnd (filestat (pid (kproc p st)) (\<lambda>_. True) pad f st) (\<lambda>(r, bs, st).
             if r < 0 then Ok (- 1, st)
             else
               bnd (copyout (pagetable (kproc p st)) addr bs (km st)) (\<lambda>(r, m).
                 Ok (if r < 0 then - 1 else 0, st\<lparr>km := m\<rparr>)))) st))"

subsection \<open>Links\<close>

text \<open>The arithmetic on the C \<open>short\<close> \<open>nlink\<close> wraps in the conversion back from \<open>int\<close>.\<close>

definition add_nlink :: "u16 \<Rightarrow> nat \<Rightarrow> 'a fstate_scheme \<Rightarrow> 'a fstate_scheme" where
  "add_nlink d i st = upd_inode i (\<lambda>ip. ip\<lparr>nlink := nlink ip + d\<rparr>) st"

text \<open>Leaving with -1 after \<open>end_op\<close>.\<close>

definition op_fail :: "int \<Rightarrow> 'a lstate_scheme \<Rightarrow> (u64 \<times> 'a lstate_scheme) res" where
  "op_fail pd st = bnd (end_op pd st) (\<lambda>st. Ok (- 1, st))"

text \<open>The label \<open>bad\<close> of \<open>sys_link\<close>.\<close>

definition link_bad :: "int \<Rightarrow> nat \<Rightarrow> 'a fstate_scheme \<Rightarrow> (u64 \<times> 'a fstate_scheme) res" where
  "link_bad pd ip st =
     bnd (ilock pd (Some ip) st) (\<lambda>st.
     bnd (iupdate pd ip (add_nlink (- 1) ip st)) (\<lambda>st.
     bnd (iunlockput pd ip st) (op_fail pd)))"

definition link_at :: "int \<Rightarrow> nat \<Rightarrow> nat option \<Rightarrow> (nat \<Rightarrow> u8) \<Rightarrow> 'a fstate_scheme \<Rightarrow> (u64 \<times> 'a fstate_scheme) res" where
  "link_at pd ip dp name st =
     (case dp of
        None \<Rightarrow> link_bad pd ip st
      | Some dp \<Rightarrow>
          bnd (ilock pd (Some dp) st) (\<lambda>st.
          bnd (if idev (itable st dp) \<noteq> idev (itable st ip) then Ok (- 1, st)
               else dirlink pd dp name (inum (itable st ip)) st) (\<lambda>(r, st).
            if r < 0 then bnd (iunlockput pd dp st) (link_bad pd ip)
            else
              bnd (iunlockput pd dp st) (\<lambda>st.
              bnd (iput pd ip st) (\<lambda>st.
              bnd (end_op pd st) (\<lambda>st. Ok (0, st)))))))"

definition sys_link :: "nat \<Rightarrow> 'a kernel_scheme \<Rightarrow> (u64 \<times> 'a kernel_scheme) res" where
  "sys_link h st =
     bnd (argstr h 0 MAXPATH st) (\<lambda>(r, old, st).
       if r < 0 then Ok (- 1, st)
       else
         bnd (argstr h 1 MAXPATH st) (\<lambda>(r, new, st).
           if r < 0 then Ok (- 1, st)
           else with_me h (\<lambda>p st.
             let pd = pid (kproc p st) in
             bnd (begin_op st) (\<lambda>st.
             bnd (my_namei p old st) (\<lambda>(ip, st).
               case ip of
                 None \<Rightarrow> op_fail pd st
               | Some ip \<Rightarrow>
                   bnd (ilock pd (Some ip) st) (\<lambda>st.
                     if itype (itable st ip) = T_DIR then bnd (iunlockput pd ip st) (op_fail pd)
                     else
                       bnd (iupdate pd ip (add_nlink 1 ip st)) (\<lambda>st.
                       bnd (iunlock pd (Some ip) st) (\<lambda>st.
                       bnd (my_nameiparent p new st) (\<lambda>(dp, name, st). link_at pd ip dp name st))))))) st))"

text \<open>The loop of \<open>isdirempty\<close> over the offsets after the first two entries.\<close>

fun isdirempty_loop :: "int \<Rightarrow> nat \<Rightarrow> nat list \<Rightarrow> 'a fstate_scheme \<Rightarrow> (bool \<times> 'a fstate_scheme) res" where
  "isdirempty_loop pd dp [] st = Ok (True, st)"
| "isdirempty_loop pd dp (k # ks) st =
     bnd (readi pd kout dp (of_nat k) 16 st) (\<lambda>(r, de, st).
       if r \<noteq> 16 then Err (Panic ''isdirempty: readi'')
       else if get16 (\<lambda>j. de ! j) 0 \<noteq> 0 then Ok (False, st)
       else isdirempty_loop pd dp ks st)"

definition isdirempty :: "int \<Rightarrow> nat \<Rightarrow> 'a fstate_scheme \<Rightarrow> (bool \<times> 'a fstate_scheme) res" where
  "isdirempty pd dp st = isdirempty_loop pd dp (drop 2 (dir_offsets (isize (itable st dp)))) st"

text \<open>The names dot and dot dot.\<close>

definition dot :: "nat \<Rightarrow> u8" where
  "dot j = (if j = 0 then 46 else 0)"

definition dotdot :: "nat \<Rightarrow> u8" where
  "dotdot j = (if j < 2 then 46 else 0)"

text \<open>\<open>sys_unlink\<close> from the entry of the directory on, with the directory locked.\<close>

definition unlink_entry ::
  "int \<Rightarrow> nat \<Rightarrow> nat \<Rightarrow> nat \<Rightarrow> 'a fstate_scheme \<Rightarrow> (u64 \<times> 'a fstate_scheme) res" where
  "unlink_entry pd dp ip pos st =
     bnd (ilock pd (Some ip) st) (\<lambda>st.
       if sint (nlink (itable st ip)) < 1 then Err (Panic ''unlink: nlink < 1'')
       else
         bnd (if itype (itable st ip) = T_DIR then isdirempty pd ip st else Ok (True, st)) (\<lambda>(empty, st).
           if \<not> empty then
             bnd (iunlockput pd ip st) (\<lambda>st. bnd (iunlockput pd dp st) (op_fail pd))
           else
             bnd (writei pd (kin (replicate 16 0)) dp (of_nat pos) 16 st) (\<lambda>(r, st).
               if r \<noteq> 16 then Err (Panic ''unlink: writei'')
               else
                 bnd (if itype (itable st ip) = T_DIR then iupdate pd dp (add_nlink (- 1) dp st) else Ok st) (\<lambda>st.
                 bnd (iunlockput pd dp st) (\<lambda>st.
                 bnd (iupdate pd ip (add_nlink (- 1) ip st)) (\<lambda>st.
                 bnd (iunlockput pd ip st) (\<lambda>st.
                 bnd (end_op pd st) (\<lambda>st. Ok (0, st)))))))))"

definition sys_unlink :: "nat \<Rightarrow> 'a kernel_scheme \<Rightarrow> (u64 \<times> 'a kernel_scheme) res" where
  "sys_unlink h st =
     bnd (argstr h 0 MAXPATH st) (\<lambda>(r, path, st).
       if r < 0 then Ok (- 1, st)
       else with_me h (\<lambda>p st.
         let pd = pid (kproc p st) in
         bnd (begin_op st) (\<lambda>st.
         bnd (my_nameiparent p path st) (\<lambda>(dp, name, st).
           case dp of
             None \<Rightarrow> op_fail pd st
           | Some dp \<Rightarrow>
               bnd (ilock pd (Some dp) st) (\<lambda>st.
                 if namecmp name dot = 0 \<or> namecmp name dotdot = 0 then bnd (iunlockput pd dp st) (op_fail pd)
                 else
                   bnd (dirlookup pd dp name st) (\<lambda>(found, st).
                     case found of
                       None \<Rightarrow> bnd (iunlockput pd dp st) (op_fail pd)
                     | Some (ip, pos) \<Rightarrow> unlink_entry pd dp ip pos st))))) st)"

subsection \<open>Creating\<close>

text \<open>The label \<open>fail\<close> of \<open>create\<close>.\<close>

definition create_fail :: "int \<Rightarrow> nat \<Rightarrow> nat \<Rightarrow> 'a fstate_scheme \<Rightarrow> (nat option \<times> 'a fstate_scheme) res" where
  "create_fail pd dp ip st =
     bnd (iupdate pd ip (upd_inode ip (\<lambda>x. x\<lparr>nlink := 0\<rparr>) st)) (\<lambda>st.
     bnd (iunlockput pd ip st) (\<lambda>st.
     bnd (iunlockput pd dp st) (\<lambda>st. Ok (None, st))))"

text \<open>The entries dot and dot dot of a new directory: whether both were made.\<close>

definition create_dots :: "int \<Rightarrow> nat \<Rightarrow> nat \<Rightarrow> 'a fstate_scheme \<Rightarrow> (bool \<times> 'a fstate_scheme) res" where
  "create_dots pd dp ip st =
     bnd (dirlink pd ip dot (inum (itable st ip)) st) (\<lambda>(r, st).
       if r < 0 then Ok (False, st)
       else bnd (dirlink pd ip dotdot (inum (itable st dp)) st) (\<lambda>(r, st). Ok (\<not> r < 0, st)))"

text \<open>\<open>create\<close> once the new inode is allocated, with the directory locked.\<close>

definition create_inode ::
  "int \<Rightarrow> nat \<Rightarrow> (nat \<Rightarrow> u8) \<Rightarrow> u16 \<Rightarrow> u16 \<Rightarrow> u16 \<Rightarrow> nat \<Rightarrow> 'a fstate_scheme \<Rightarrow> (nat option \<times> 'a fstate_scheme) res" where
  "create_inode pd dp name ty mj mn ip st =
     bnd (ilock pd (Some ip) st) (\<lambda>st.
     bnd (iupdate pd ip (upd_inode ip (\<lambda>x. x\<lparr>major := mj, minor := mn, nlink := 1\<rparr>) st)) (\<lambda>st.
     bnd (if ty = T_DIR then create_dots pd dp ip st else Ok (True, st)) (\<lambda>(ok, st).
       if \<not> ok then create_fail pd dp ip st
       else
         bnd (dirlink pd dp name (inum (itable st ip)) st) (\<lambda>(r, st).
           if r < 0 then create_fail pd dp ip st
           else
             bnd (if ty = T_DIR then iupdate pd dp (add_nlink 1 dp st) else Ok st) (\<lambda>st.
             bnd (iunlockput pd dp st) (\<lambda>st. Ok (Some ip, st)))))))"

definition create :: "nat \<Rightarrow> u8 list \<Rightarrow> u16 \<Rightarrow> u16 \<Rightarrow> u16 \<Rightarrow> 'a kernel_scheme \<Rightarrow> (nat option \<times> 'a kernel_scheme) res" where
  "create p path ty mj mn st =
     (let pd = pid (kproc p st) in
      bnd (my_nameiparent p path st) (\<lambda>(dp, name, st).
        case dp of
          None \<Rightarrow> Ok (None, st)
        | Some dp \<Rightarrow>
            bnd (ilock pd (Some dp) st) (\<lambda>st.
            bnd (dirlookup pd dp name st) (\<lambda>(found, st).
              case found of
                Some (ip, _) \<Rightarrow>
                  bnd (iunlockput pd dp st) (\<lambda>st.
                  bnd (ilock pd (Some ip) st) (\<lambda>st.
                    if ty = T_FILE \<and> (itype (itable st ip) = T_FILE \<or> itype (itable st ip) = T_DEVICE) then Ok (Some ip, st)
                    else bnd (iunlockput pd ip st) (\<lambda>st. Ok (None, st))))
              | None \<Rightarrow>
                  bnd (ialloc pd (idev (itable st dp)) ty st) (\<lambda>(ip, st).
                    case ip of
                      None \<Rightarrow> bnd (iunlockput pd dp st) (\<lambda>st. Ok (None, st))
                    | Some ip \<Rightarrow> create_inode pd dp name ty mj mn ip st)))))"

subsection \<open>Opening\<close>

text \<open>The inode to open, locked; \<open>None\<close> when the call has failed and ended its transaction.\<close>

definition open_inode :: "nat \<Rightarrow> u8 list \<Rightarrow> i32 \<Rightarrow> 'a kernel_scheme \<Rightarrow> (nat option \<times> 'a kernel_scheme) res" where
  "open_inode p path omode st =
     (let pd = pid (kproc p st); fail = (\<lambda>st. bnd (end_op pd st) (\<lambda>st. Ok (None, st))) in
      bnd (if omode AND O_CREATE \<noteq> 0 then
             bnd (create p path T_FILE 0 0 st) (\<lambda>(ip, st).
               case ip of None \<Rightarrow> fail st | Some ip \<Rightarrow> Ok (Some ip, st))
           else
             bnd (my_namei p path st) (\<lambda>(ip, st).
               case ip of
                 None \<Rightarrow> fail st
               | Some ip \<Rightarrow>
                   bnd (ilock pd (Some ip) st) (\<lambda>st.
                     if itype (itable st ip) = T_DIR \<and> omode \<noteq> O_RDONLY then bnd (iunlockput pd ip st) fail
                     else Ok (Some ip, st)))) (\<lambda>(ip, st).
        case ip of
          None \<Rightarrow> Ok (None, st)
        | Some ip \<Rightarrow>
            if itype (itable st ip) = T_DEVICE \<and> (sint (major (itable st ip)) < 0 \<or> NDEV \<le> sint (major (itable st ip))) then
              bnd (iunlockput pd ip st) fail
            else Ok (Some ip, st)))"

text \<open>A file and a descriptor for it; a file without a descriptor is closed again.\<close>

definition open_fd :: "nat \<Rightarrow> int \<Rightarrow> 'a kernel_scheme \<Rightarrow> ((nat \<times> nat) option \<times> 'a kernel_scheme) res" where
  "open_fd h pd st =
     (let (f, st) = filealloc st in
      case f of
        None \<Rightarrow> Ok (None, st)
      | Some f \<Rightarrow>
          bnd (fdalloc h f st) (\<lambda>(fd, st).
            case fd of
              None \<Rightarrow> bnd (fileclose pd f st) (\<lambda>st. Ok (None, st))
            | Some fd \<Rightarrow> Ok (Some (f, fd), st)))"

definition open_set :: "nat \<Rightarrow> nat \<Rightarrow> i32 \<Rightarrow> 'a filesys_scheme \<Rightarrow> 'a filesys_scheme" where
  "open_set f ip omode st =
     (let st = (if itype (itable st ip) = T_DEVICE
                then upd_file f (\<lambda>x. x\<lparr>ftype := FD_DEVICE, fmajor := major (itable st ip)\<rparr>) st
                else upd_file f (\<lambda>x. x\<lparr>ftype := FD_INODE, foff := 0\<rparr>) st)
      in upd_file f (\<lambda>x. x\<lparr>fip := ip, readable := omode AND O_WRONLY = 0,
           writable := omode AND O_WRONLY \<noteq> 0 \<or> omode AND O_RDWR \<noteq> 0\<rparr>) st)"

definition sys_open :: "nat \<Rightarrow> 'a kernel_scheme \<Rightarrow> (u64 \<times> 'a kernel_scheme) res" where
  "sys_open h st =
     bnd (argint h 1 st) (\<lambda>(omode, st).
     bnd (argstr h 0 MAXPATH st) (\<lambda>(r, path, st).
       if r < 0 then Ok (- 1, st)
       else with_me h (\<lambda>p st.
         let pd = pid (kproc p st) in
         bnd (begin_op st) (\<lambda>st.
         bnd (open_inode p path omode st) (\<lambda>(ip, st).
           case ip of
             None \<Rightarrow> Ok (- 1, st)
           | Some ip \<Rightarrow>
               bnd (open_fd h pd st) (\<lambda>(r, st).
                 case r of
                   None \<Rightarrow> bnd (iunlockput pd ip st) (op_fail pd)
                 | Some (f, fd) \<Rightarrow>
                     let st = open_set f ip omode st in
                     bnd (if omode AND O_TRUNC \<noteq> 0 \<and> itype (itable st ip) = T_FILE then itrunc pd ip st else Ok st) (\<lambda>st.
                     bnd (iunlock pd (Some ip) st) (\<lambda>st.
                     bnd (end_op pd st) (\<lambda>st. Ok (of_nat fd, st)))))))) st))"

text \<open>What \<open>sys_mkdir\<close> and \<open>sys_mknod\<close> do with the path.\<close>

definition make :: "nat \<Rightarrow> nat \<Rightarrow> u16 \<Rightarrow> u16 \<Rightarrow> u16 \<Rightarrow> 'a kernel_scheme \<Rightarrow> (u64 \<times> 'a kernel_scheme) res" where
  "make h p ty mj mn st =
     (let pd = pid (kproc p st) in
      bnd (argstr h 0 MAXPATH st) (\<lambda>(r, path, st).
        if r < 0 then op_fail pd st
        else
          bnd (create p path ty mj mn st) (\<lambda>(ip, st).
            case ip of
              None \<Rightarrow> op_fail pd st
            | Some ip \<Rightarrow> bnd (iunlockput pd ip st) (\<lambda>st. bnd (end_op pd st) (\<lambda>st. Ok (0, st))))))"

definition sys_mkdir :: "nat \<Rightarrow> 'a kernel_scheme \<Rightarrow> (u64 \<times> 'a kernel_scheme) res" where
  "sys_mkdir h st = with_me h (\<lambda>p st. bnd (begin_op st) (make h p T_DIR 0 0)) st"

definition sys_mknod :: "nat \<Rightarrow> 'a kernel_scheme \<Rightarrow> (u64 \<times> 'a kernel_scheme) res" where
  "sys_mknod h st = with_me h (\<lambda>p st.
     bnd (begin_op st) (\<lambda>st.
     bnd (argint h 1 st) (\<lambda>(mj, st).
     bnd (argint h 2 st) (\<lambda>(mn, st). make h p T_DEVICE (ucast mj) (ucast mn) st)))) st"

definition sys_chdir :: "nat \<Rightarrow> 'a kernel_scheme \<Rightarrow> (u64 \<times> 'a kernel_scheme) res" where
  "sys_chdir h st = with_me h (\<lambda>p st.
     let pd = pid (kproc p st) in
     bnd (begin_op st) (\<lambda>st.
     bnd (argstr h 0 MAXPATH st) (\<lambda>(r, path, st).
       if r < 0 then op_fail pd st
       else
         bnd (my_namei p path st) (\<lambda>(ip, st).
           case ip of
             None \<Rightarrow> op_fail pd st
           | Some ip \<Rightarrow>
               bnd (ilock pd (Some ip) st) (\<lambda>st.
                 if itype (itable st ip) \<noteq> T_DIR then bnd (iunlockput pd ip st) (op_fail pd)
                 else
                   bnd (iunlock pd (Some ip) st) (\<lambda>st.
                     case cwd (kproc p st) of
                       None \<Rightarrow> Err (Undef ''null pointer'')
                     | Some d \<Rightarrow>
                         bnd (iput pd d st) (\<lambda>st.
                         bnd (end_op pd st) (\<lambda>st. Ok (0, set_proc p (\<lambda>q. q\<lparr>cwd := Some ip\<rparr>) st))))))))) st"

subsection \<open>Programs and pipes\<close>

text \<open>The argument vector: each string is copied into a page of its own, at most \<open>k\<close> more. The result is
  whether the terminating null pointer was found, the strings and the pages.\<close>

fun exec_fetch ::
  "nat \<Rightarrow> u64 \<Rightarrow> nat \<Rightarrow> nat \<Rightarrow> 'a kernel_scheme \<Rightarrow> (bool \<times> u8 list list \<times> u64 list \<times> 'a kernel_scheme) res" where
  "exec_fetch h uargv i 0 st = Ok (False, [], [], st)"
| "exec_fetch h uargv i (Suc k) st =
     bnd (fetchaddr h (uargv + 8 * of_nat i) st) (\<lambda>(r, uarg, st).
       if r < 0 then Ok (False, [], [], st)
       else if uarg = 0 then Ok (True, [], [], st)
       else
         bnd (kalloc (km st)) (\<lambda>(pg, m).
           let st = st\<lparr>km := m\<rparr> in
           if pg = 0 then Ok (False, [], [], st)
           else
             bnd (fetchstr h uarg 4096 st) (\<lambda>(r, s, st).
               if r < 0 then Ok (False, [], [pg], st)
               else
                 bnd (exec_fetch h uargv (i + 1) k st) (\<lambda>(ok, ss, pgs, st). Ok (ok, s # ss, pg # pgs, st)))))"

fun free_pages :: "u64 list \<Rightarrow> kmem \<Rightarrow> kmem res" where
  "free_pages [] m = Ok m"
| "free_pages (pg # pgs) m = bnd (kfree pg m) (free_pages pgs)"

text \<open>The strings live in kernel pages of their own that nobody else writes: \<open>exec\<close> gets them as
  values.\<close>

definition sys_exec :: "nat \<Rightarrow> 'a kernel_scheme \<Rightarrow> (u64 \<times> 'a kernel_scheme) res" where
  "sys_exec h st =
     bnd (argaddr h 1 st) (\<lambda>(uargv, st).
     bnd (argstr h 0 MAXPATH st) (\<lambda>(r, path, st).
       if r < 0 then Ok (- 1, st)
       else
         bnd (exec_fetch h uargv 0 MAXARG st) (\<lambda>(ok, argv, pgs, st).
           if ok then
             bnd (exec h path argv st) (\<lambda>(ret, st).
             bnd (on_km (free_pages pgs) st) (\<lambda>st. Ok (word_of_int ret, st)))
           else bnd (on_km (free_pages pgs) st) (\<lambda>st. Ok (- 1, st)))))"

definition clear_fd :: "nat \<Rightarrow> nat \<Rightarrow> 'a kernel_scheme \<Rightarrow> 'a kernel_scheme" where
  "clear_fd p fd st = set_proc p (\<lambda>q. q\<lparr>ofile := (ofile q)[fd := None]\<rparr>) st"

text \<open>Both ends are closed on every failure.\<close>

definition pipe_fail :: "int \<Rightarrow> nat \<Rightarrow> nat \<Rightarrow> 'a filesys_scheme \<Rightarrow> (u64 \<times> 'a filesys_scheme) res" where
  "pipe_fail pd rfile wfile st = bnd (fileclose pd rfile st) (\<lambda>st. bnd (fileclose pd wfile st) (\<lambda>st. Ok (- 1, st)))"

definition sys_pipe :: "nat \<Rightarrow> 'a kernel_scheme \<Rightarrow> (u64 \<times> 'a kernel_scheme) res" where
  "sys_pipe h st = with_me h (\<lambda>p st.
     let pd = pid (kproc p st) in
     bnd (argaddr h 0 st) (\<lambda>(fdarray, st).
     bnd (pipealloc pd st) (\<lambda>(ends, st).
       case ends of
         None \<Rightarrow> Ok (- 1, st)
       | Some (rfile, wfile) \<Rightarrow>
           bnd (fdalloc h rfile st) (\<lambda>(fd0, st).
             case fd0 of
               None \<Rightarrow> pipe_fail pd rfile wfile st
             | Some fd0 \<Rightarrow>
                 bnd (fdalloc h wfile st) (\<lambda>(fd1, st).
                   case fd1 of
                     None \<Rightarrow> pipe_fail pd rfile wfile (clear_fd p fd0 st)
                   | Some fd1 \<Rightarrow>
                       bnd (copyout (pagetable (kproc p st)) fdarray (le_bytes 4 (of_nat fd0 :: i32)) (km st)) (\<lambda>(r, m).
                         let st = st\<lparr>km := m\<rparr> in
                         if r < 0 then pipe_fail pd rfile wfile (clear_fd p fd1 (clear_fd p fd0 st))
                         else
                           bnd (copyout (pagetable (kproc p st)) (fdarray + 4) (le_bytes 4 (of_nat fd1 :: i32)) (km st)) (\<lambda>(r, m).
                             let st = st\<lparr>km := m\<rparr> in
                             if r < 0 then pipe_fail pd rfile wfile (clear_fd p fd1 (clear_fd p fd0 st))
                             else Ok (0, st)))))))) st"

end
