(* ===== verification/Trap.thy ===== *)
theory Trap
  imports Sysfile
begin

text \<open>
  Entering and leaving the kernel: the table of system calls of \<open>kernel/syscall.c\<close>, traps, interrupts and
  the clock of \<open>kernel/trap.c\<close>, and the interrupt controller, \<open>kernel/plic.c\<close>.

  Control registers are per hart. The interrupt-enable bit of \<open>sstatus\<close> is the field \<open>sie\<close> of the hart's
  \<open>cpu\<close>; \<open>r_sstatus\<close> and \<open>w_sstatus\<close> put it together with the other bits. Reading the claim register
  of the interrupt controller takes the next of the values in \<open>claims\<close>.
\<close>

record csr =
  sstatus :: u64
  sepc :: u64
  scause :: u64
  stval :: u64
  stvec :: u64
  satp :: u64
  sip :: u64

record machine = ksys +
  csrs :: "nat \<Rightarrow> csr"
  plic :: "u64 \<Rightarrow> u32"
  claims :: "nat \<Rightarrow> u32 list"

text \<open>Addresses of code: \<open>kernelvec\<close>, \<open>usertrap\<close>, and the two entry points of the trampoline page.\<close>

record code_addrs =
  kernelvec_addr :: u64
  usertrap_addr :: u64
  uservec_addr :: u64
  userret_addr :: u64

abbreviation SSTATUS_SPP :: u64 where "SSTATUS_SPP \<equiv> 0x100"
abbreviation SSTATUS_SPIE :: u64 where "SSTATUS_SPIE \<equiv> 0x20"
abbreviation SSTATUS_SIE :: u64 where "SSTATUS_SIE \<equiv> 2"

definition set_csr :: "nat \<Rightarrow> (csr \<Rightarrow> csr) \<Rightarrow> 'a machine_scheme \<Rightarrow> 'a machine_scheme" where
  "set_csr h f st = st\<lparr>csrs := (csrs st)(h := f (csrs st h))\<rparr>"

definition set_cpu :: "nat \<Rightarrow> (cpu \<Rightarrow> cpu) \<Rightarrow> 'a kernel_scheme \<Rightarrow> 'a kernel_scheme" where
  "set_cpu h f st = st\<lparr>sys := (sys st)\<lparr>cpus := (cpus (sys st))(h := f (cpus (sys st) h))\<rparr>\<rparr>"

definition r_sstatus :: "nat \<Rightarrow> 'a machine_scheme \<Rightarrow> u64" where
  "r_sstatus h st =
     (sstatus (csrs st h) AND NOT SSTATUS_SIE) OR (if intr_get (cpus (sys st) h) then SSTATUS_SIE else 0)"

definition w_sstatus :: "nat \<Rightarrow> u64 \<Rightarrow> 'a machine_scheme \<Rightarrow> 'a machine_scheme" where
  "w_sstatus h v st =
     set_cpu h (\<lambda>c. c\<lparr>sie := v AND SSTATUS_SIE \<noteq> 0\<rparr>) (set_csr h (\<lambda>c. c\<lparr>sstatus := v\<rparr>) st)"

subsection \<open>Messages\<close>

fun cons_puts :: "u8 list \<Rightarrow> tty \<Rightarrow> tty option" where
  "cons_puts [] t = Some t"
| "cons_puts (c # cs) t = (case consputc (uint c) t of None \<Rightarrow> None | Some t \<Rightarrow> cons_puts cs t)"

definition kprint :: "u8 list \<Rightarrow> arg list \<Rightarrow> 'a filesys_scheme \<Rightarrow> 'a filesys_scheme res" where
  "kprint fmt ap st =
     bnd (kprintf fmt ap) (\<lambda>bs.
       case cons_puts bs (cons st) of None \<Rightarrow> Err (Waits ''uartputc_sync'') | Some t \<Rightarrow> Ok (st\<lparr>cons := t\<rparr>))"

text \<open>The bytes of a string literal.\<close>

definition lit :: "string \<Rightarrow> u8 list" where
  "lit s = map (\<lambda>c. of_char c) s"

subsection \<open>The interrupt controller\<close>

abbreviation PLIC :: u64 where "PLIC \<equiv> 0x0c000000"

definition PLIC_SENABLE :: "nat \<Rightarrow> u64" where "PLIC_SENABLE k = PLIC + 0x2080 + of_nat k * 0x100"
definition PLIC_SPRIORITY :: "nat \<Rightarrow> u64" where "PLIC_SPRIORITY k = PLIC + 0x201000 + of_nat k * 0x2000"
definition PLIC_SCLAIM :: "nat \<Rightarrow> u64" where "PLIC_SCLAIM k = PLIC + 0x201004 + of_nat k * 0x2000"

definition plicinit :: "'a machine_scheme \<Rightarrow> 'a machine_scheme" where
  "plicinit st = st\<lparr>plic := (plic st)(PLIC + 10 * 4 := 1, PLIC + 1 * 4 := 1)\<rparr>"

definition plicinithart :: "nat \<Rightarrow> 'a machine_scheme \<Rightarrow> 'a machine_scheme" where
  "plicinithart h st =
     st\<lparr>plic := (plic st)(PLIC_SENABLE h := push_bit 10 1 OR push_bit 1 1, PLIC_SPRIORITY h := 0)\<rparr>"

definition plic_claim :: "nat \<Rightarrow> 'a machine_scheme \<Rightarrow> i32 \<times> 'a machine_scheme" where
  "plic_claim h st =
     (case claims st h of [] \<Rightarrow> (0, st) | irq # rest \<Rightarrow> (irq, st\<lparr>claims := (claims st)(h := rest)\<rparr>))"

definition plic_complete :: "nat \<Rightarrow> i32 \<Rightarrow> 'a machine_scheme \<Rightarrow> 'a machine_scheme" where
  "plic_complete h irq st = st\<lparr>plic := (plic st)(PLIC_SCLAIM h := irq)\<rparr>"

subsection \<open>The clock and the devices\<close>

definition trapinit :: "'a kernel_scheme \<Rightarrow> 'a kernel_scheme" where
  "trapinit st = st\<lparr>sys := (sys st)\<lparr>locks := (locks (sys st))(Lticks := initlock ''time'' (locks (sys st) Lticks))\<rparr>\<rparr>"

definition trapinithart :: "code_addrs \<Rightarrow> nat \<Rightarrow> 'a machine_scheme \<Rightarrow> 'a machine_scheme" where
  "trapinithart ca h st = set_csr h (\<lambda>c. c\<lparr>stvec := kernelvec_addr ca\<rparr>) st"

definition clockintr :: "nat \<Rightarrow> sstate \<Rightarrow> sstate res" where
  "clockintr h s =
     bnd (acq h Lticks s) (\<lambda>s.
     bnd (update_time h (s\<lparr>ticks := ticks s + 1\<rparr>)) (\<lambda>s.
     bnd (wakeup h (Some ChTicks) s) (\<lambda>s. rel h Lticks s)))"

text \<open>\<open>vintr\<close> is \<open>virtio_disk_intr\<close>; the listing that \<open>^P\<close> asks for is \<open>procdump\<close>.\<close>

definition dump_console :: "'a kernel_scheme \<Rightarrow> tty \<Rightarrow> tty option" where
  "dump_console st t = (case procdump st of Ok bs \<Rightarrow> cons_puts bs t | Err _ \<Rightarrow> None)"

definition devintr :: "('a machine_scheme \<Rightarrow> 'a machine_scheme res) \<Rightarrow> nat \<Rightarrow> 'a machine_scheme \<Rightarrow> (nat \<times> 'a machine_scheme) res" where
  "devintr vintr h st =
     (let sc = scause (csrs st h) in
      if sc AND 0x8000000000000000 \<noteq> 0 \<and> sc AND 0xff = 9 then
        let (irq, st) = plic_claim h st in
        bnd (if irq = 10 then
               (case uartintr (dump_console st) (cons st) of
                  None \<Rightarrow> Err (Waits ''uartputc_sync'')
                | Some t \<Rightarrow> Ok (st\<lparr>cons := t\<rparr>))
             else if irq = 1 then vintr st
             else if irq \<noteq> 0 then kprint (lit ''unexpected interrupt irq=%d'' @ [10]) [AWord (scast irq)] st
             else Ok st) (\<lambda>st.
          Ok (1, if irq \<noteq> 0 then plic_complete h irq st else st))
      else if sc = 0x8000000000000001 then
        bnd (if h = 0 then on_sys (clockintr h) st else Ok st) (\<lambda>st.
          Ok (2, set_csr h (\<lambda>c. c\<lparr>sip := sip c AND NOT 2\<rparr>) st))
      else Ok (0, st))"

subsection \<open>System calls\<close>

text \<open>What happens outside of the calling process, and what the model leaves open: \<open>resumes\<close> is what
  happens each time the process is off the processor; \<open>cout\<close> and \<open>cin\<close> are the outcomes of the
  copies of \<open>read\<close> and \<open>write\<close>; \<open>junk\<close> and \<open>pad\<close> are uninitialised bytes.\<close>

record 'a env =
  resumes :: "'a switch list"
  prio_sw :: "nat \<Rightarrow> sstate \<Rightarrow> nat \<times> sstate"
  ecout :: "nat \<Rightarrow> nat \<Rightarrow> bool"
  ecin :: "nat \<Rightarrow> nat \<Rightarrow> u8 list \<times> bool"
  junk :: "u32 \<times> u32"
  pad :: "u8 list"

text \<open>The result of a handler: \<open>Back v h st\<close> when it returns \<open>v\<close> on hart \<open>h\<close>, \<open>Gone st\<close> when the process
  has left the processor for ever.\<close>

datatype 's outcome = Back u64 nat 's | Gone 's

definition stay :: "nat \<Rightarrow> (u64 \<times> 's) res \<Rightarrow> 's outcome res" where
  "stay h r = bnd r (\<lambda>(v, st). Ok (Back v h st))"

definition moved :: "(u64 \<times> nat \<times> 's) res \<Rightarrow> 's outcome res" where
  "moved r = bnd r (\<lambda>(v, h, st). Ok (Back v h st))"

text \<open>The array \<open>syscalls\<close>, by the numbers of \<open>syscall.h\<close>.\<close>

definition syscalls ::
  "'a ksys_ext env \<Rightarrow> nat \<Rightarrow> nat \<Rightarrow> ('a ksys_scheme \<Rightarrow> 'a ksys_scheme outcome res) option" where
  "syscalls e h num =
     (if num = 1 then Some (\<lambda>st. stay h (sys_fork h st))
      else if num = 2 then Some (\<lambda>st. bnd (sys_exit h st) (\<lambda>st. Ok (Gone st)))
      else if num = 3 then Some (\<lambda>st. moved (sys_wait h (resumes e) st))
      else if num = 4 then Some (\<lambda>st. stay h (sys_pipe h st))
      else if num = 5 then Some (\<lambda>st. stay h (sys_read (ecout e) h st))
      else if num = 6 then Some (\<lambda>st. stay h (sys_kill h st))
      else if num = 7 then Some (\<lambda>st. stay h (sys_exec h st))
      else if num = 8 then Some (\<lambda>st. stay h (sys_fstat (pad e) h st))
      else if num = 9 then Some (\<lambda>st. stay h (sys_chdir h st))
      else if num = 10 then Some (\<lambda>st. stay h (sys_dup h st))
      else if num = 11 then Some (\<lambda>st. stay h (sys_getpid h st))
      else if num = 12 then Some (\<lambda>st. stay h (sys_sbrk h st))
      else if num = 13 then Some (\<lambda>st. moved (sys_sleep h (resumes e) st))
      else if num = 14 then Some (\<lambda>st. stay h (sys_uptime h st))
      else if num = 15 then Some (\<lambda>st. stay h (sys_open h st))
      else if num = 16 then Some (\<lambda>st. stay h (sys_write (ecin e) h st))
      else if num = 17 then Some (\<lambda>st. stay h (sys_mknod h st))
      else if num = 18 then Some (\<lambda>st. stay h (sys_unlink h st))
      else if num = 19 then Some (\<lambda>st. stay h (sys_link h st))
      else if num = 20 then Some (\<lambda>st. stay h (sys_mkdir h st))
      else if num = 21 then Some (\<lambda>st. stay h (sys_close h st))
      else if num = 22 then Some (\<lambda>st. moved (sys_waitx h (junk e) (resumes e) st))
      else if num = 23 then Some (\<lambda>st. stay h (Ok (sys_getreadcount st)))
      else if num = 24 then Some (\<lambda>st. stay h (sys_set_priority (prio_sw e) h st))
      else None)"

definition syscall :: "'a ksys_ext env \<Rightarrow> nat \<Rightarrow> 'a ksys_scheme \<Rightarrow> 'a ksys_scheme outcome res" where
  "syscall e h st = with_me h (\<lambda>p st.
     let num = ucast (tf_get p 168 st) :: i32 in
     case (if 0 < sint num \<and> sint num < 25 then syscalls e h (nat (sint num)) else None) of
       Some f \<Rightarrow>
         bnd (f st) (\<lambda>r.
           case r of
             Back v h st \<Rightarrow> Ok (Back v h (tf_set p tf_a0 v st))
           | Gone st \<Rightarrow> Ok (Gone st))
     | None \<Rightarrow>
         bnd (kprint (lit ''%d %s: unknown sys call %d'' @ [10])
               [AWord (word_of_int (pid (kproc p st))), AString (Some (takeWhile (\<lambda>c. c \<noteq> 0) (pname (kproc p st)))),
                AWord (scast num)] st) (\<lambda>st.
           Ok (Back (- 1) h (tf_set p tf_a0 (- 1) st)))) st"

subsection \<open>Traps\<close>

text \<open>\<open>killed(p)\<close> on the whole state.\<close>

definition is_killed :: "nat \<Rightarrow> nat \<Rightarrow> 'a kernel_scheme \<Rightarrow> (bool \<times> 'a kernel_scheme) res" where
  "is_killed h p st = bnd (killed h p (sys st)) (\<lambda>(k, s). Ok (k, st\<lparr>sys := s\<rparr>))"

text \<open>\<open>yield\<close> with its switch: \<open>sw\<close> is what happens until the process is back, on the hart it returns.\<close>

definition yield_now ::
  "(nat \<Rightarrow> 'a kernel_scheme \<Rightarrow> nat \<times> 'a kernel_scheme) \<Rightarrow> nat \<Rightarrow> nat \<Rightarrow> 'a kernel_scheme \<Rightarrow> (nat \<times> 'a kernel_scheme) res" where
  "yield_now sw h p st =
     bnd (yield h (sys st)) (\<lambda>(ie, s).
       let (h, st) = sw h (st\<lparr>sys := s\<rparr>) in
       bnd (on_sys (yield_resume h p ie) st) (\<lambda>st. Ok (h, st)))"

definition MAKE_SATP :: "u64 \<Rightarrow> u64" where
  "MAKE_SATP pt = push_bit 60 8 OR drop_bit 12 pt"

text \<open>Up to the jump to \<open>userret\<close> in the trampoline, whose argument is the result. \<open>trampoline\<close> is the
  physical address of the page that is mapped at \<open>TRAMPOLINE\<close>.\<close>

definition usertrapret :: "code_addrs \<Rightarrow> nat \<Rightarrow> 'a machine_scheme \<Rightarrow> (u64 \<times> 'a machine_scheme) res" where
  "usertrapret ca h st = with_me h (\<lambda>p st.
     let st = set_cpu h intr_off st;
         st = set_csr h (\<lambda>c. c\<lparr>stvec := TRAMPOLINE + (uservec_addr ca - trampoline st)\<rparr>) st;
         st = tf_set p 0 (satp (csrs st h)) st;
         st = tf_set p 8 (kstack (kproc p st) + PGSIZE) st;
         st = tf_set p 16 (usertrap_addr ca) st;
         st = tf_set p 32 (of_nat h) st;
         x = r_sstatus h st;
         x = x AND NOT SSTATUS_SPP;
         x = x OR SSTATUS_SPIE;
         st = w_sstatus h x st;
         st = set_csr h (\<lambda>c. c\<lparr>sepc := tf_get p tf_epc st\<rparr>) st
     in Ok (MAKE_SATP (pagetable (kproc p st)), st)) st"

text \<open>The dispatch of \<open>usertrap\<close>: the device number, or the process has exited.\<close>

datatype 's dispatched = Handled nat nat 's | Exited 's

definition usertrap_body ::
  "'a machine_ext ksys_ext env \<Rightarrow> ('a machine_scheme \<Rightarrow> 'a machine_scheme res) \<Rightarrow> nat \<Rightarrow> nat \<Rightarrow> 'a machine_scheme \<Rightarrow>
     'a machine_scheme dispatched res" where
  "usertrap_body e vintr h p st =
     (if scause (csrs st h) = 8 then
        bnd (is_killed h p st) (\<lambda>(k, st).
          if k then bnd (exit h (- 1) st) (\<lambda>st. Ok (Exited st))
          else
            let st = tf_set p tf_epc (tf_get p tf_epc st + 4) st;
                st = set_cpu h intr_on st
            in bnd (syscall e h st) (\<lambda>r. case r of Back _ h st \<Rightarrow> Ok (Handled 0 h st) | Gone st \<Rightarrow> Ok (Exited st)))
      else if scause (csrs st h) = 15 then
        bnd (cowHandler (pagetable (kproc p st)) (stval (csrs st h)) (km st)) (\<lambda>(r, m).
          let st = st\<lparr>km := m\<rparr> in
          Ok (Handled 0 h (if r < 0 then set_proc p (\<lambda>q. q\<lparr>pkilled := True\<rparr>) st else st)))
      else
        bnd (devintr vintr h st) (\<lambda>(which_dev, st).
          if which_dev \<noteq> 0 then Ok (Handled which_dev h st)
          else
            bnd (kprint (lit ''usertrap(): unexpected scause %p pid=%d'' @ [10])
                  [AWord (scause (csrs st h)), AWord (word_of_int (pid (kproc p st)))] st) (\<lambda>st.
            bnd (kprint (lit ''            sepc=%p stval=%p'' @ [10])
                  [AWord (sepc (csrs st h)), AWord (stval (csrs st h))] st) (\<lambda>st.
            bnd (on_sys (setkilled h p) st) (\<lambda>st. Ok (Handled 0 h st))))))"

definition usertrap ::
  "code_addrs \<Rightarrow> 'a machine_ext ksys_ext env \<Rightarrow> ('a machine_scheme \<Rightarrow> 'a machine_scheme res) \<Rightarrow>
     (nat \<Rightarrow> 'a machine_scheme \<Rightarrow> nat \<times> 'a machine_scheme) \<Rightarrow> nat \<Rightarrow> 'a machine_scheme \<Rightarrow> 'a machine_scheme outcome res" where
  "usertrap ca e vintr sw h st =
     (if r_sstatus h st AND SSTATUS_SPP \<noteq> 0 then Err (Panic ''usertrap: not from user mode'')
      else with_me h (\<lambda>p st.
        let st = tf_set p tf_epc (sepc (csrs st h)) st in
        bnd (usertrap_body e vintr h p st) (\<lambda>r.
          case r of
            Exited st \<Rightarrow> Ok (Gone st)
          | Handled which_dev h st \<Rightarrow>
              bnd (is_killed h p st) (\<lambda>(k, st).
                if k then bnd (exit h (- 1) st) (\<lambda>st. Ok (Gone st))
                else
                  bnd (if which_dev = 2 then yield_now sw h p st else Ok (h, st)) (\<lambda>(h, st).
                  bnd (usertrapret ca h st) (\<lambda>(v, st). Ok (Back v h st))))))
        (set_csr h (\<lambda>c. c\<lparr>stvec := kernelvec_addr ca\<rparr>) st))"

definition kerneltrap ::
  "('a machine_scheme \<Rightarrow> 'a machine_scheme res) \<Rightarrow> (nat \<Rightarrow> 'a machine_scheme \<Rightarrow> nat \<times> 'a machine_scheme) \<Rightarrow> nat \<Rightarrow>
     'a machine_scheme \<Rightarrow> (nat \<times> 'a machine_scheme) res" where
  "kerneltrap vintr sw h st =
     (let pc = sepc (csrs st h); ss = r_sstatus h st; sc = scause (csrs st h) in
      if ss AND SSTATUS_SPP = 0 then Err (Panic ''kerneltrap: not from supervisor mode'')
      else if intr_get (cpus (sys st) h) then Err (Panic ''kerneltrap: interrupts enabled'')
      else
        bnd (devintr vintr h st) (\<lambda>(which_dev, st).
          if which_dev = 0 then
            bnd (kprint (lit ''scause %p'' @ [10]) [AWord sc] st) (\<lambda>st.
            bnd (kprint (lit ''sepc=%p stval=%p'' @ [10]) [AWord (sepc (csrs st h)), AWord (stval (csrs st h))] st) (\<lambda>st.
              Err (Panic ''kerneltrap'')))
          else
            bnd (if which_dev = 2 then
                   bnd (myproc h (sys st)) (\<lambda>(me, s).
                     let st = st\<lparr>sys := s\<rparr> in
                     case me of
                       None \<Rightarrow> Ok (h, st)
                     | Some p \<Rightarrow> if pstate (kproc p st) = RUNNING then yield_now sw h p st else Ok (h, st))
                 else Ok (h, st)) (\<lambda>(h, st).
              Ok (h, w_sstatus h ss (set_csr h (\<lambda>c. c\<lparr>sepc := pc\<rparr>) st)))))"

subsection \<open>The console at work\<close>

lemma consputc_byte: "responsive t \<Longrightarrow> \<exists>m. consputc (uint b) t = Some (t\<lparr>lsr_reads := m, thr := thr t @ [b]\<rparr>)" for b :: u8
  using uartputc_sync_ends [of t b] uint_bounded [of b] by (simp add: consputc_def BACKSPACE_def)

lemma cons_puts_prints: "responsive t \<Longrightarrow> \<exists>m. cons_puts bs t = Some (t\<lparr>lsr_reads := m, thr := thr t @ bs\<rparr>)"
proof (induction bs arbitrary: t)
  case Nil
  show ?case by (auto intro: exI [of _ "lsr_reads t"])
next
  case (Cons b bs)
  obtain m where m: "consputc (uint b) t = Some (t\<lparr>lsr_reads := m, thr := thr t @ [b]\<rparr>)" (is "_ = Some ?t")
    using consputc_byte [OF Cons.prems] by blast
  have "responsive ?t" using Cons.prems by simp
  from Cons.IH [OF this] m show ?case by auto
qed

lemma procdump_line_ok: "0 \<le> pid p \<Longrightarrow> pid p < 2 ^ 31 \<Longrightarrow> \<exists>bs. procdump_line p = Ok bs"
proof -
  assume "0 \<le> pid p" "pid p < 2 ^ 31"
  then have "sint (ucast (word_of_int (pid p) :: u64) :: i32) = pid p"
    by (simp add: ucast_eq uint_word_of_int sint_sbintrunc' signed_take_bit_int_eq_self take_bit_int_eq_self)
  then have "\<exists>bs. printint (ucast (word_of_int (pid p) :: u64)) 10 True = Ok bs"
    using \<open>0 \<le> pid p\<close> by (simp add: printint_def printint_with_def Let_def)
  then show ?thesis by (auto simp: procdump_line_def kconv_def arg_word_def arg_str_def)
qed

lemma procdump_ok:
  assumes "\<forall>p\<in>set (procs (sys st)). 0 \<le> pid p \<and> pid p < 2 ^ 31"
  shows "\<exists>bs. procdump st = Ok bs"
proof -
  have "\<forall>p\<in>set ps. 0 \<le> pid p \<and> pid p < 2 ^ 31 \<Longrightarrow> \<exists>bs. procdump_lines ps = Ok bs" for ps
  proof (induction ps)
    case (Cons p ps)
    with procdump_line_ok [of p] show ?case by auto
  qed simp
  from this [OF assms] show ?thesis by (auto simp: procdump_def)
qed

text \<open>
  C19: The line discipline. For every input byte, as long as the transmitter keeps getting ready
  for the echo, the interrupt handler of the console ends, keeps the three indices of the ring
  in order with at most 128 bytes between them, and acts on the committed input and the line
  being edited as \<open>line_edit\<close> says: control-U empties the line, backspace and delete remove
  its last character, any other character is appended (carriage return as newline) unless 128
  bytes are pending, and newline, control-D or a full buffer hands the line to the reader.
  Control-P prints the listing of \<open>procdump\<close>, the one of the kernel, and leaves the input alone; for this the
  process ids are in the range that \<open>allocpid\<close> hands out.
\<close>

theorem consoleintr_refines:
  assumes "tty_ok t" "responsive t" "0 \<le> c" "c < 256" "\<forall>p\<in>set (procs (sys st)). 0 \<le> pid p \<and> pid p < 2 ^ 31"
  shows "\<exists>t'. consoleintr (dump_console st) c t = Some t' \<and> tty_ok t' \<and>
    (tty_ready t', tty_edit t') = line_edit c (tty_ready t, tty_edit t) \<and>
    (c = 16 \<longrightarrow> (\<exists>bs. procdump st = Ok bs \<and> thr t' = thr t @ bs))"
proof -
  obtain bs where bs: "procdump st = Ok bs" using procdump_ok [OF assms(5)] by blast
  then obtain m where m: "dump_console st t = Some (t\<lparr>lsr_reads := m, thr := thr t @ bs\<rparr>)"
    using cons_puts_prints [OF assms(2), of bs] by (auto simp: dump_console_def)
  obtain t' where t': "consoleintr (dump_console st) c t = Some t'" "tty_ok t'"
    "(tty_ready t', tty_edit t') = line_edit c (tty_ready t, tty_edit t)"
    using consoleintr_edits [OF assms(1-4), of "dump_console st"] m by auto
  moreover have "c = 16 \<Longrightarrow> thr t' = thr t @ bs" using t'(1) m by (auto simp: consoleintr_def)
  ultimately show ?thesis using bs by blast
qed

text \<open>Control-P, with the processes of the small system.\<close>

theorem consoleintr_refines_witness:
  "\<exists>t' bs. consoleintr (dump_console sample_kernel) 16 (cons sample_files) = Some t' \<and> tty_edit t' = [] \<and> procdump sample_kernel = Ok bs \<and> thr t' = bs"
proof -
  let ?t = "cons sample_files"
  have t: "?t = \<lparr>cbuf = replicate 128 0, cr = 0, cw = 0, ce = 0, txbuf = replicate 32 0, txw = 0, txr = 0, rx = [], thr = [],
        txrdy = (\<lambda>_. True), lsr_reads = 0, uregs = (\<lambda>_. 0), panicked = False\<rparr>"
    by (simp add: sample_files_def fstate.defs)
  have "tty_ok ?t" "responsive ?t" "tty_ready ?t = []" "tty_edit ?t = []" "thr ?t = []" unfolding t
    by (auto simp: tty_ok_def tty_edit_def tty_ready_def tty_all_def responsive_def)
  moreover have "\<forall>p\<in>set (procs (sys sample_kernel)). 0 \<le> pid p \<and> pid p < 2 ^ 31"
    by (simp add: sample_sys_def sample_procs_def init_proc_def free_proc_def)
  ultimately show ?thesis using consoleintr_refines [of ?t 16 sample_kernel] by (auto simp: line_edit_def)
qed

end
