(* ===== verification/Virtio.thy ===== *)
theory Virtio
  imports Bio Ring Kalloc
begin

text \<open>
  The disk driver, \<open>kernel/virtio_disk.c\<close> and \<open>kernel/virtio.h\<close>: descriptors, the two rings shared with the
  device, submission, the interrupt handler and completion.

  The addresses that the driver puts into descriptors are those of a command header, of the data of
  a buffer or of a status byte, hence a datatype. Each passage under \<open>vdisk_lock\<close> from one \<open>sleep\<close> to the
  next is one step. The device itself is not part of this repository: \<open>virtio_blk\<close> states what the
  driver relies on, as section 5.2 of the virtio specification has it, for chains of three descriptors
  as the driver builds them; \<open>dev_seen\<close> and \<open>dev_q\<close> are the device's own state. The last part shows
  that with any such device the driver implements \<open>disk_rw\<close>, the contract that the buffer cache uses.
\<close>

abbreviation NUM :: nat where "NUM \<equiv> 8"
abbreviation F_NEXT :: u16 where "F_NEXT \<equiv> 1"
abbreviation F_WRITE :: u16 where "F_WRITE \<equiv> 2"

datatype vaddr = VNull | VOp nat | VData nat | VStatus nat

record vdesc =
  daddr :: vaddr
  dlen :: u32
  dflags :: u16
  dnext :: u16

record vreq =
  rtype :: u32
  rreserved :: u32
  rsector :: u64

record vstate = bstate +
  desc :: "nat \<Rightarrow> vdesc"
  avail_idx :: u16
  avail_ring :: "u16 list"
  used_hw :: u16
  used_ring :: "u32 list"
  vfree :: "nat \<Rightarrow> bool"
  used_idx :: u16
  info_b :: "nat \<Rightarrow> nat option"
  info_status :: "nat \<Rightarrow> u8"
  ops :: "nat \<Rightarrow> vreq"
  owned :: "nat \<Rightarrow> bool"
  mmio :: "(nat \<times> u32) list"
  dev_seen :: u16
  dev_q :: "nat list"

definition no_desc :: vdesc where
  "no_desc = \<lparr>daddr = VNull, dlen = 0, dflags = 0, dnext = 0\<rparr>"

definition set_desc :: "nat \<Rightarrow> (vdesc \<Rightarrow> vdesc) \<Rightarrow> vstate \<Rightarrow> vstate" where
  "set_desc i f st = st\<lparr>desc := (desc st)(i := f (desc st i))\<rparr>"

definition write_reg :: "nat \<Rightarrow> u32 \<Rightarrow> vstate \<Rightarrow> vstate" where
  "write_reg r v st = st\<lparr>mmio := mmio st @ [(r, v)]\<rparr>"

subsection \<open>Initialisation\<close>

text \<open>\<open>rd\<close> gives what the device returns when a register is read after the writes made so far.\<close>

definition read_reg :: "((nat \<times> u32) list \<Rightarrow> nat \<Rightarrow> u32) \<Rightarrow> nat \<Rightarrow> vstate \<Rightarrow> u32" where
  "read_reg rd r st = rd (mmio st) r"

definition negotiate :: "u32 \<Rightarrow> u32" where
  "negotiate features = features AND NOT (push_bit 5 1) AND NOT (push_bit 7 1) AND NOT (push_bit 11 1) AND
     NOT (push_bit 12 1) AND NOT (push_bit 27 1) AND NOT (push_bit 29 1) AND NOT (push_bit 28 1)"

definition queue_addrs :: "u64 \<Rightarrow> u64 \<Rightarrow> u64 \<Rightarrow> vstate \<Rightarrow> vstate" where
  "queue_addrs d a u st =
     fold (\<lambda>(r, v). write_reg r v)
       [(0x80, ucast d), (0x84, ucast (drop_bit 32 d)), (0x90, ucast a), (0x94, ucast (drop_bit 32 a)),
        (0xa0, ucast u), (0xa4, ucast (drop_bit 32 u))] st"

definition queue_ready :: "u32 \<Rightarrow> u64 \<Rightarrow> u64 \<Rightarrow> u64 \<Rightarrow> vstate \<Rightarrow> vstate" where
  "queue_ready status d a u st =
     (let st = st\<lparr>desc := (\<lambda>_. no_desc), avail_idx := 0, avail_ring := replicate NUM 0, used_hw := 0, used_ring := replicate NUM 0\<rparr>;
          st = write_reg 0x38 (of_nat NUM) st;
          st = queue_addrs d a u st;
          st = write_reg 0x44 1 st;
          st = st\<lparr>vfree := (\<lambda>i. if i < NUM then True else vfree st i)\<rparr>
      in write_reg 0x70 (status OR 4) st)"

definition virtio_disk_init ::
  "((nat \<times> u32) list \<Rightarrow> nat \<Rightarrow> u32) \<Rightarrow> kmem \<Rightarrow> vstate \<Rightarrow> (kmem \<times> vstate) res" where
  "virtio_disk_init rd m st =
     (if read_reg rd 0 st \<noteq> 0x74726976 \<or> read_reg rd 4 st \<noteq> 2 \<or> read_reg rd 8 st \<noteq> 2 \<or> read_reg rd 12 st \<noteq> 0x554d4551
      then Err (Panic ''could not find virtio disk'')
      else
        let st = write_reg 0x70 0 st; st = write_reg 0x70 1 st; st = write_reg 0x70 (1 OR 2) st;
            st = write_reg 0x20 (negotiate (read_reg rd 0x10 st)) st;
            st = write_reg 0x70 (1 OR 2 OR 8) st;
            status = read_reg rd 0x70 st
        in if status AND 8 = 0 then Err (Panic ''virtio disk FEATURES_OK unset'')
        else
          let st = write_reg 0x30 0 st in
          if read_reg rd 0x44 st \<noteq> 0 then Err (Panic ''virtio disk should not be ready'')
          else if read_reg rd 0x34 st = 0 then Err (Panic ''virtio disk has no queue 0'')
          else if read_reg rd 0x34 st < of_nat NUM then Err (Panic ''virtio disk max queue too short'')
          else
            bnd (kalloc m) (\<lambda>(d, m). bnd (kalloc m) (\<lambda>(a, m). bnd (kalloc m) (\<lambda>(u, m).
              if d = 0 \<or> a = 0 \<or> u = 0 then Err (Panic ''virtio disk kalloc'')
              else Ok (m, queue_ready status d a u st)))))"

subsection \<open>Descriptors\<close>

definition alloc_desc :: "vstate \<Rightarrow> nat option \<times> vstate" where
  "alloc_desc st =
     (case find (vfree st) [0..<NUM] of
        Some i \<Rightarrow> (Some i, st\<lparr>vfree := (vfree st)(i := False)\<rparr>)
      | None \<Rightarrow> (None, st))"

text \<open>The wakeup at the end of \<open>free_desc\<close> is for processes that sleep until a descriptor is free.\<close>

definition free_desc :: "nat \<Rightarrow> vstate \<Rightarrow> vstate res" where
  "free_desc i st =
     (if NUM \<le> i then Err (Panic ''free_desc 1'')
      else if vfree st i then Err (Panic ''free_desc 2'')
      else Ok (st\<lparr>desc := (desc st)(i := no_desc), vfree := (vfree st)(i := True)\<rparr>))"

lemma free_desc_Ok: "free_desc i st = Ok st' \<longleftrightarrow> i < NUM \<and> \<not> vfree st i \<and>
    st' = st\<lparr>desc := (desc st)(i := no_desc), vfree := (vfree st)(i := True)\<rparr>"
  by (auto simp: free_desc_def)

lemma free_desc_less:
  assumes "free_desc i st = Ok st'"
  shows "card {j. j < NUM \<and> \<not> vfree st' j} < card {j. j < NUM \<and> \<not> vfree st j}"
proof -
  have i: "i < NUM" "\<not> vfree st i" and v: "vfree st' = (vfree st)(i := True)" using assms by (simp_all add: free_desc_Ok)
  have "{j. j < NUM \<and> \<not> vfree st j} = insert i {j. j < NUM \<and> \<not> vfree st' j}" "i \<notin> {j. j < NUM \<and> \<not> vfree st' j}"
    using i unfolding v by auto
  then show ?thesis by simp
qed

function free_chain :: "nat \<Rightarrow> vstate \<Rightarrow> vstate res" where
  "free_chain i st =
     (let flag = dflags (desc st i); nxt = unat (dnext (desc st i)) in
      bnd (free_desc i st) (\<lambda>st. if flag AND F_NEXT \<noteq> 0 then free_chain nxt st else Ok st))"
  by pat_completeness auto
termination
  by (relation "measure (\<lambda>(_, st). card {j. j < NUM \<and> \<not> vfree st j})") (auto dest: free_desc_less)

declare free_chain.simps [simp del]

fun free_descs :: "nat list \<Rightarrow> vstate \<Rightarrow> vstate res" where
  "free_descs [] st = Ok st"
| "free_descs (i # is) st = bnd (free_desc i st) (free_descs is)"

text \<open>The loop of \<open>alloc3_desc\<close> with \<open>k\<close> descriptors to go.\<close>

fun alloc3_loop :: "nat list \<Rightarrow> nat \<Rightarrow> vstate \<Rightarrow> (nat list option \<times> vstate) res" where
  "alloc3_loop idx 0 st = Ok (Some idx, st)"
| "alloc3_loop idx (Suc k) st =
     (case alloc_desc st of
        (None, st) \<Rightarrow> bnd (free_descs idx st) (\<lambda>st. Ok (None, st))
      | (Some i, st) \<Rightarrow> alloc3_loop (idx @ [i]) k st)"

definition alloc3_desc :: "vstate \<Rightarrow> (nat list option \<times> vstate) res" where
  "alloc3_desc st = alloc3_loop [] 3 st"

subsection \<open>Requests\<close>

text \<open>Formatting the three descriptors and publishing the chain. The sector is computed in 32 bits.\<close>

definition submit :: "nat \<Rightarrow> bool \<Rightarrow> nat \<Rightarrow> nat \<Rightarrow> nat \<Rightarrow> vstate \<Rightarrow> vstate" where
  "submit b write i0 i1 i2 st =
     (let st = st\<lparr>ops := (ops st)(i0 := \<lparr>rtype = if write then 1 else 0, rreserved = 0, rsector = ucast (blockno (bufs st b) * 2)\<rparr>)\<rparr>;
          st = set_desc i0 (\<lambda>_. \<lparr>daddr = VOp i0, dlen = 16, dflags = F_NEXT, dnext = of_nat i1\<rparr>) st;
          st = set_desc i1 (\<lambda>_. \<lparr>daddr = VData b, dlen = 1024, dflags = (if write then 0 else F_WRITE) OR F_NEXT, dnext = of_nat i2\<rparr>) st;
          st = st\<lparr>info_status := (info_status st)(i0 := 0xff)\<rparr>;
          st = set_desc i2 (\<lambda>_. \<lparr>daddr = VStatus i0, dlen = 1, dflags = F_WRITE, dnext = 0\<rparr>) st;
          st = st\<lparr>owned := (owned st)(b := True)\<rparr>;
          st = st\<lparr>info_b := (info_b st)(i0 := Some b)\<rparr>;
          st = st\<lparr>avail_ring := (avail_ring st)[ring_at NUM (avail_idx st) := of_nat i0]\<rparr>;
          st = st\<lparr>avail_idx := avail_idx st + 1\<rparr>
      in write_reg 0x50 0 st)"

text \<open>\<open>virtio_disk_rw\<close> up to its first \<open>sleep\<close>: \<open>None\<close> when it waits for descriptors, otherwise the head of
  the chain.\<close>

definition rw_start :: "nat \<Rightarrow> bool \<Rightarrow> vstate \<Rightarrow> (nat option \<times> vstate) res" where
  "rw_start b write st =
     bnd (alloc3_desc st) (\<lambda>(r, st).
       case r of
         Some [i0, i1, i2] \<Rightarrow> Ok (Some i0, submit b write i0 i1 i2 st)
       | _ \<Rightarrow> Ok (None, st))"

text \<open>and after the buffer has come back.\<close>

definition rw_finish :: "nat \<Rightarrow> vstate \<Rightarrow> vstate res" where
  "rw_finish i0 st = free_chain i0 (st\<lparr>info_b := (info_b st)(i0 := None)\<rparr>)"

text \<open>The whole call. Each element of the list is what happens during one \<open>sleep\<close>; when the list ends the
  call still sleeps.\<close>

fun rw_wait :: "nat \<Rightarrow> nat \<Rightarrow> (vstate \<Rightarrow> vstate) list \<Rightarrow> vstate \<Rightarrow> vstate res" where
  "rw_wait b i0 sws st =
     (if owned st b then (case sws of [] \<Rightarrow> Err (Waits ''virtio_disk_rw'') | sw # sws \<Rightarrow> rw_wait b i0 sws (sw st))
      else rw_finish i0 st)"

declare rw_wait.simps [simp del]

fun virtio_disk_rw :: "nat \<Rightarrow> bool \<Rightarrow> (vstate \<Rightarrow> vstate) list \<Rightarrow> vstate \<Rightarrow> vstate res" where
  "virtio_disk_rw b write sws st =
     bnd (rw_start b write st) (\<lambda>(r, st).
       case r of
         Some i0 \<Rightarrow> rw_wait b i0 sws st
       | None \<Rightarrow> (case sws of [] \<Rightarrow> Err (Waits ''virtio_disk_rw'') | sw # sws \<Rightarrow> virtio_disk_rw b write sws (sw st)))"

declare virtio_disk_rw.simps [simp del]

text \<open>The loop of \<open>virtio_disk_intr\<close> ends when it has caught up with the index of the device.\<close>

function intr_loop :: "vstate \<Rightarrow> vstate res" where
  "intr_loop st =
     (if used_idx st \<noteq> used_hw st then
        let k = unat (used_ring st ! ring_at NUM (used_idx st)) in
        if NUM \<le> k then Err (Undef ''disk.info out of bounds'')
        else if info_status st k \<noteq> 0 then Err (Panic ''virtio_disk_intr status'')
        else
          (case info_b st k of
             None \<Rightarrow> Err (Undef ''null pointer'')
           | Some b \<Rightarrow> intr_loop (st\<lparr>owned := (owned st)(b := False), used_idx := used_idx st + 1\<rparr>))
      else Ok st)"
  by pat_completeness auto
termination
  by (relation "measure (\<lambda>st. unat (used_hw st - used_idx st))") (auto simp: unat_diff_Suc)

declare intr_loop.simps [simp del]

definition virtio_disk_intr :: "((nat \<times> u32) list \<Rightarrow> nat \<Rightarrow> u32) \<Rightarrow> vstate \<Rightarrow> vstate res" where
  "virtio_disk_intr rd st = intr_loop (write_reg 0x64 (read_reg rd 0x60 st AND 3) st)"

subsection \<open>The device\<close>

text \<open>\<open>chain st k b wr\<close>: three linked descriptors from \<open>k\<close> on, which ask for a transfer between the data of
  buffer \<open>b\<close> and the sectors of its block.\<close>

definition chain :: "vstate \<Rightarrow> nat \<Rightarrow> nat \<Rightarrow> bool \<Rightarrow> bool" where
  "chain st k b wr \<longleftrightarrow> (\<exists>i1 i2. k < NUM \<and> i1 < NUM \<and> i2 < NUM \<and> distinct [k, i1, i2] \<and>
     desc st k = \<lparr>daddr = VOp k, dlen = 16, dflags = F_NEXT, dnext = of_nat i1\<rparr> \<and>
     desc st i1 = \<lparr>daddr = VData b, dlen = 1024, dflags = (if wr then 0 else F_WRITE) OR F_NEXT, dnext = of_nat i2\<rparr> \<and>
     desc st i2 = \<lparr>daddr = VStatus k, dlen = 1, dflags = F_WRITE, dnext = 0\<rparr> \<and>
     ops st k = \<lparr>rtype = if wr then 1 else 0, rreserved = 0, rsector = ucast (blockno (bufs st b) * 2)\<rparr>)"

text \<open>The device takes the next head from the available ring.\<close>

definition dev_fetch :: "vstate \<Rightarrow> vstate" where
  "dev_fetch st = st\<lparr>dev_seen := dev_seen st + 1, dev_q := dev_q st @ [unat (avail_ring st ! ring_at NUM (dev_seen st))]\<rparr>"

text \<open>It serves one of the requests it has taken, in any order: it moves the 1024 bytes, which are two
  sectors, writes the status and puts the head into the used ring.\<close>

definition dev_transfer :: "nat \<Rightarrow> bool \<Rightarrow> u64 \<Rightarrow> vstate \<Rightarrow> vstate" where
  "dev_transfer b wr sector st =
     (let n = ucast (drop_bit 1 sector) :: u32 in
      if wr then st\<lparr>disk := (disk st)(n := bdata (bufs st b)), writes := writes st @ [(n, bdata (bufs st b))]\<rparr>
      else st\<lparr>bufs := (bufs st)(b := (bufs st b)\<lparr>bdata := disk st n\<rparr>)\<rparr>)"

definition dev_done :: "nat \<Rightarrow> nat \<Rightarrow> bool \<Rightarrow> vstate \<Rightarrow> vstate" where
  "dev_done k b wr st =
     (let st = dev_transfer b wr (rsector (ops st k)) st in
      st\<lparr>info_status := (info_status st)(k := 0),
         used_ring := (used_ring st)[ring_at NUM (used_hw st) := of_nat k], used_hw := used_hw st + 1,
         dev_q := remove1 k (dev_q st)\<rparr>)"

definition virtio_blk :: "(vstate \<Rightarrow> vstate \<Rightarrow> bool) \<Rightarrow> bool" where
  "virtio_blk dev \<longleftrightarrow> (\<forall>st st'. dev st st' \<longrightarrow>
     (dev_seen st \<noteq> avail_idx st \<and> st' = dev_fetch st) \<or>
     (\<exists>k\<in>set (dev_q st). \<forall>b wr. chain st k b wr \<longrightarrow> st' = dev_done k b wr st))"

subsection \<open>The driver and the device together\<close>

text \<open>Any number of processes submit and finish requests, the device runs, interrupts arrive, and the rest
  of the kernel changes buffers that have no request. The caller of \<open>virtio_disk_rw\<close> holds the lock of
  the buffer, so there is at most one request for it.\<close>

definition busy :: "vstate \<Rightarrow> nat \<Rightarrow> bool" where
  "busy st b \<longleftrightarrow> (\<exists>k. info_b st k = Some b)"

inductive vstep :: "(vstate \<Rightarrow> vstate \<Rightarrow> bool) \<Rightarrow> ((nat \<times> u32) list \<Rightarrow> nat \<Rightarrow> u32) \<Rightarrow> vstate \<Rightarrow> vstate \<Rightarrow> bool"
  for dev rd where
  vs_start: "\<not> busy st b \<Longrightarrow> blockno (bufs st b) < 2 ^ 31 \<Longrightarrow> rw_start b wr st = Ok (r, st') \<Longrightarrow> vstep dev rd st st'"
| vs_dev: "dev st st' \<Longrightarrow> vstep dev rd st st'"
| vs_intr: "virtio_disk_intr rd st = Ok st' \<Longrightarrow> vstep dev rd st st'"
| vs_finish: "info_b st k = Some b \<Longrightarrow> \<not> owned st b \<Longrightarrow> rw_finish k st = Ok st' \<Longrightarrow> vstep dev rd st st'"
| vs_other: "\<forall>b. busy st b \<longrightarrow> bs b = bufs st b \<Longrightarrow> vstep dev rd st (st\<lparr>bufs := bs\<rparr>)"

text \<open>The contract: a buffer may have one request, which is performed once, at some moment between its
  submission and its return, exactly as \<open>disk_rw\<close> says.\<close>

type_synonym reqs = "nat \<Rightarrow> (bool \<times> bool) option"

inductive disk_step :: "bstate \<times> reqs \<Rightarrow> bstate \<times> reqs \<Rightarrow> bool" where
  ds_submit: "R b = None \<Longrightarrow> disk_step (s, R) (s, R(b \<mapsto> (wr, False)))"
| ds_perform: "R b = Some (wr, False) \<Longrightarrow> disk_step (s, R) (disk_rw b wr s, R(b \<mapsto> (wr, True)))"
| ds_return: "R b = Some (wr, True) \<Longrightarrow> disk_step (s, R) (s, R(b := None))"
| ds_other: "\<forall>b. R b \<noteq> None \<longrightarrow> bs b = bufs s b \<Longrightarrow> disk_step (s, R) (s\<lparr>bufs := bs\<rparr>, R)"

definition reqs_of :: "vstate \<Rightarrow> reqs" where
  "reqs_of st b = map_option (\<lambda>k. (rtype (ops st k) = 1, info_status st k = 0)) (find (\<lambda>k. info_b st k = Some b) [0..<NUM])"

definition vabs :: "vstate \<Rightarrow> bstate \<times> reqs" where
  "vabs st = (bstate.truncate st, reqs_of st)"

subsection \<open>Invariant\<close>

interpretation vr: ring NUM "TYPE(16)"
  by unfold_locales simp_all

definition av :: "vstate \<Rightarrow> nat list" where
  "av st = map unat (ring_queue NUM (avail_ring st) (dev_seen st) (avail_idx st))"

definition us :: "vstate \<Rightarrow> nat list" where
  "us st = map unat (ring_queue NUM (used_ring st) (used_idx st) (used_hw st))"

definition nx :: "vstate \<Rightarrow> nat \<Rightarrow> nat" where
  "nx st k = unat (dnext (desc st k))"

definition tri :: "vstate \<Rightarrow> nat \<Rightarrow> nat set" where
  "tri st k = {k, nx st k, nx st (nx st k)}"

definition vinv :: "vstate \<Rightarrow> bool" where
  "vinv st \<longleftrightarrow> length (avail_ring st) = NUM \<and> length (used_ring st) = NUM \<and>
     (\<forall>k b. info_b st k = Some b \<longrightarrow> chain st k b (rtype (ops st k) = 1) \<and> blockno (bufs st b) < 2 ^ 31 \<and>
        (\<forall>i\<in>tri st k. \<not> vfree st i) \<and> owned st b = (k \<in> set (av st @ dev_q st @ us st)) \<and>
        info_status st k = (if k \<in> set (av st @ dev_q st) then 0xff else 0)) \<and>
     (\<forall>k k' b b'. info_b st k = Some b \<longrightarrow> info_b st k' = Some b' \<longrightarrow> k \<noteq> k' \<longrightarrow> tri st k \<inter> tri st k' = {} \<and> b \<noteq> b') \<and>
     distinct (av st @ dev_q st @ us st) \<and> (\<forall>k\<in>set (av st @ dev_q st @ us st). info_b st k \<noteq> None) \<and>
     (\<forall>i<NUM. \<not> vfree st i \<longrightarrow> (\<exists>k b. info_b st k = Some b \<and> i \<in> tri st k))"

lemma chain_tri:
  assumes "chain st k b wr"
  shows "k < NUM" "nx st k < NUM" "nx st (nx st k) < NUM" "distinct [k, nx st k, nx st (nx st k)]" "tri st k \<subseteq> {..<NUM}"
proof -
  obtain i1 i2 where c: "k < NUM" "i1 < NUM" "i2 < NUM" "distinct [k, i1, i2]" "dnext (desc st k) = of_nat i1" "dnext (desc st i1) = of_nat i2"
    using assms by (auto simp: chain_def)
  have n: "nx st k = i1" "nx st i1 = i2" using c by (simp_all add: nx_def unat_of_nat take_bit_nat_eq_self)
  show "k < NUM" "nx st k < NUM" "nx st (nx st k) < NUM" "distinct [k, nx st k, nx st (nx st k)]" "tri st k \<subseteq> {..<NUM}"
    using c n by (simp_all add: tri_def)
qed

lemma vinvD:
  assumes "vinv st" "info_b st k = Some b"
  shows "chain st k b (rtype (ops st k) = 1)" "blockno (bufs st b) < 2 ^ 31" "i \<in> tri st k \<Longrightarrow> \<not> vfree st i"
    "owned st b = (k \<in> set (av st @ dev_q st @ us st))"
    "info_status st k = (if k \<in> set (av st @ dev_q st) then 0xff else 0)" "k < NUM"
  using assms chain_tri(1) unfolding vinv_def by blast+

lemma reqs_of_busy:
  assumes "vinv st" "info_b st k = Some b"
  shows "reqs_of st b = Some (rtype (ops st k) = 1, info_status st k = 0)"
proof -
  have u: "info_b st j = Some b \<longleftrightarrow> j = k" for j using assms unfolding vinv_def by blast
  have "find (\<lambda>j. j = k) [0..<NUM] = Some k"
    using vinvD(6) [OF assms] unfolding find_Some_iff by (intro exI [of _ k]) (simp del: upt.simps)
  then show ?thesis by (simp add: reqs_of_def u del: upt.simps)
qed

lemma reqs_of_None: "vinv st \<Longrightarrow> reqs_of st b = None \<longleftrightarrow> \<not> busy st b"
  using vinvD(6) by (auto simp: reqs_of_def find_None_iff busy_def)

subsection \<open>Descriptors come and go\<close>

lemma find_freeE:
  assumes "find P [0..<NUM] = Some i"
  shows "i < NUM" "P i"
  using assms by (auto simp: find_Some_iff)

lemma alloc_desc_cases:
  obtains (none) "alloc_desc st = (None, st)" "\<forall>i<NUM. \<not> vfree st i"
  | (some) i where "alloc_desc st = (Some i, st\<lparr>vfree := (vfree st)(i := False)\<rparr>)" "i < NUM" "vfree st i"
proof (cases "find (vfree st) [0..<NUM]")
  case None
  moreover have "\<forall>i<NUM. \<not> vfree st i" using None by (simp add: find_None_iff)
  ultimately show thesis by (intro none) (simp_all add: alloc_desc_def)
next
  case (Some i)
  then show thesis using find_freeE [OF Some] by (intro some [of i]) (simp_all add: alloc_desc_def)
qed

text \<open>Giving back what has just been taken.\<close>

lemma free_descs_undo:
  assumes "distinct idx" "\<forall>i\<in>set idx. i < NUM \<and> \<not> vfree st i"
  shows "\<exists>D. free_descs idx st = Ok (st\<lparr>desc := D, vfree := (\<lambda>i. i \<in> set idx \<or> vfree st i)\<rparr>) \<and> (\<forall>i. i \<notin> set idx \<longrightarrow> D i = desc st i)"
  using assms
proof (induction idx arbitrary: st)
  case Nil
  have "st\<lparr>desc := desc st, vfree := (\<lambda>i. vfree st i)\<rparr> = st" by simp
  then show ?case by (intro exI [of _ "desc st"]) simp
next
  case (Cons i idx)
  let ?s = "st\<lparr>desc := (desc st)(i := no_desc), vfree := (vfree st)(i := True)\<rparr>"
  have r: "free_desc i st = Ok ?s" using Cons.prems by (simp add: free_desc_Ok)
  have "\<forall>j\<in>set idx. j < NUM \<and> \<not> vfree ?s j" "distinct idx" using Cons.prems by auto
  from Cons.IH [OF this(2,1)] obtain D where
    D: "free_descs idx ?s = Ok (?s\<lparr>desc := D, vfree := (\<lambda>j. j \<in> set idx \<or> vfree ?s j)\<rparr>)" "\<forall>j. j \<notin> set idx \<longrightarrow> D j = desc ?s j"
    by blast
  have "(\<lambda>j. j \<in> set idx \<or> vfree ?s j) = (\<lambda>j. j \<in> set (i # idx) \<or> vfree st j)" by auto
  then show ?case using r D by (intro exI [of _ D]) auto
qed

lemma alloc3_desc_ok:
  obtains (none) D where "alloc3_desc st = Ok (None, st\<lparr>desc := D\<rparr>)" "\<forall>i. \<not> vfree st i \<longrightarrow> D i = desc st i"
      "\<exists>i j. \<forall>k<NUM. vfree st k \<longrightarrow> k = i \<or> k = j"
  | (some) i0 i1 i2 where "alloc3_desc st = Ok (Some [i0, i1, i2], st\<lparr>vfree := (vfree st)(i0 := False, i1 := False, i2 := False)\<rparr>)"
      "distinct [i0, i1, i2]" "\<forall>i\<in>{i0, i1, i2}. i < NUM \<and> vfree st i"
proof -
  have undo: "\<exists>D. bnd (free_descs idx (st\<lparr>vfree := F\<rparr>)) (\<lambda>st. Ok (None, st)) = Ok (None :: nat list option, st\<lparr>desc := D\<rparr>) \<and> (\<forall>i. \<not> vfree st i \<longrightarrow> D i = desc st i)"
    if "distinct idx" "\<forall>i\<in>set idx. i < NUM \<and> vfree st i" "\<forall>i. F i = (vfree st i \<and> i \<notin> set idx)" for idx F
  proof -
    have "\<forall>i\<in>set idx. i < NUM \<and> \<not> vfree (st\<lparr>vfree := F\<rparr>) i" using that by simp
    from free_descs_undo [OF that(1) this] obtain D where D: "free_descs idx (st\<lparr>vfree := F\<rparr>) =
        Ok (st\<lparr>vfree := F\<rparr>\<lparr>desc := D, vfree := (\<lambda>i. i \<in> set idx \<or> vfree (st\<lparr>vfree := F\<rparr>) i)\<rparr>)"
      "\<forall>i. i \<notin> set idx \<longrightarrow> D i = desc st i" by auto
    have "(\<lambda>i. i \<in> set idx \<or> vfree (st\<lparr>vfree := F\<rparr>) i) = vfree st" using that(2,3) by auto
    then show ?thesis using D that(2) by (intro exI [of _ D]) auto
  qed
  have three: "(3 :: nat) = Suc (Suc (Suc 0))" by simp
  show thesis
  proof (cases rule: alloc_desc_cases [of st])
    case n0: none
    then have "alloc3_desc st = Ok (None, st\<lparr>desc := desc st\<rparr>)" by (simp add: alloc3_desc_def three)
    moreover have "\<exists>i j. \<forall>k<NUM. vfree st k \<longrightarrow> k = i \<or> k = j" using n0(2) by blast
    ultimately show thesis by (intro that(1)) auto
  next
    case (some i0)
    note s0 = some
    let ?s1 = "st\<lparr>vfree := (vfree st)(i0 := False)\<rparr>"
    show thesis
    proof (cases rule: alloc_desc_cases [of ?s1])
      case none
      then have few: "\<forall>k<NUM. vfree st k \<longrightarrow> k = i0 \<or> k = i0" by (auto split: if_splits)
      have F1: "\<forall>i. ((vfree st)(i0 := False)) i = (vfree st i \<and> i \<notin> set [i0])" by simp
      have E1: "distinct [i0]" "\<forall>i\<in>set [i0]. i < NUM \<and> vfree st i" using s0 by simp_all
      obtain D where D: "bnd (free_descs [i0] ?s1) (\<lambda>st. Ok (None, st)) = Ok (None :: nat list option, st\<lparr>desc := D\<rparr>)"
        "\<forall>i. \<not> vfree st i \<longrightarrow> D i = desc st i"
        using undo [of "[i0]" "(vfree st)(i0 := False)", OF E1 F1] by blast
      have "alloc3_desc st = Ok (None, st\<lparr>desc := D\<rparr>)" using s0(1) none(1) D(1) by (simp add: alloc3_desc_def three)
      then show thesis using D(2) few by (intro that(1) [of D]) blast+
    next
      case (some i1)
      note s1 = some
      let ?s2 = "st\<lparr>vfree := (vfree st)(i0 := False, i1 := False)\<rparr>"
      have ne: "i0 \<noteq> i1" "vfree st i1" using s1(3) by (auto split: if_splits)
      have st2: "?s1\<lparr>vfree := (vfree ?s1)(i1 := False)\<rparr> = ?s2" by simp
      show thesis
      proof (cases rule: alloc_desc_cases [of ?s2])
        case none
        then have few: "\<forall>k<NUM. vfree st k \<longrightarrow> k = i0 \<or> k = i1" by (auto split: if_splits)
        have F2: "\<forall>i. ((vfree st)(i0 := False, i1 := False)) i = (vfree st i \<and> i \<notin> set [i0, i1])" by simp
        have E2: "distinct [i0, i1]" "\<forall>i\<in>set [i0, i1]. i < NUM \<and> vfree st i" using s0 s1(2) ne by simp_all
        obtain D where D: "bnd (free_descs [i0, i1] ?s2) (\<lambda>st. Ok (None, st)) = Ok (None :: nat list option, st\<lparr>desc := D\<rparr>)"
          "\<forall>i. \<not> vfree st i \<longrightarrow> D i = desc st i"
          using undo [of "[i0, i1]" "(vfree st)(i0 := False, i1 := False)", OF E2 F2] by blast
        have "alloc3_desc st = Ok (None, st\<lparr>desc := D\<rparr>)" using s0(1) s1(1) none(1) D(1) by (simp add: alloc3_desc_def three)
        then show thesis using D(2) few by (intro that(1) [of D]) blast+
      next
        case (some i2)
        then have n2: "i2 \<noteq> i0" "i2 \<noteq> i1" "vfree st i2" by (auto split: if_splits)
        have "alloc3_desc st = Ok (Some [i0, i1, i2], st\<lparr>vfree := (vfree st)(i0 := False, i1 := False, i2 := False)\<rparr>)"
          using s0(1) s1(1) some(1) by (simp add: alloc3_desc_def three)
        then show thesis using n2 some(2) s0 s1 ne by (intro that(2) [of i0 i1 i2]) auto
      qed
    qed
  qed
qed

lemma chain_cong:
  assumes "chain st k b wr" "\<forall>i\<in>tri st k. desc st' i = desc st i" "ops st' k = ops st k" "blockno (bufs st' b) = blockno (bufs st b)"
  shows "chain st' k b wr" "tri st' k = tri st k"
proof -
  show t: "tri st' k = tri st k" using assms(2) by (simp add: tri_def nx_def)
  obtain i1 i2 where c: "k < NUM \<and> i1 < NUM \<and> i2 < NUM \<and> distinct [k, i1, i2] \<and>
     desc st k = \<lparr>daddr = VOp k, dlen = 16, dflags = F_NEXT, dnext = of_nat i1\<rparr> \<and>
     desc st i1 = \<lparr>daddr = VData b, dlen = 1024, dflags = (if wr then 0 else F_WRITE) OR F_NEXT, dnext = of_nat i2\<rparr> \<and>
     desc st i2 = \<lparr>daddr = VStatus k, dlen = 1, dflags = F_WRITE, dnext = 0\<rparr> \<and>
     ops st k = \<lparr>rtype = if wr then 1 else 0, rreserved = 0, rsector = ucast (blockno (bufs st b) * 2)\<rparr>"
    using assms(1) by (auto simp: chain_def)
  then have "i1 \<in> tri st k" "i2 \<in> tri st k" "k \<in> tri st k"
    by (auto simp: tri_def nx_def unat_of_nat take_bit_nat_eq_self)
  then have "desc st' k = desc st k" "desc st' i1 = desc st i1" "desc st' i2 = desc st i2" using assms(2) by blast+
  then show "chain st' k b wr" using c assms(3,4) unfolding chain_def by (intro exI [of _ i1] exI [of _ i2]) simp
qed

lemma heads_short:
  assumes "vinv st" "i < NUM" "info_b st i = None"
  shows "length (av st @ dev_q st @ us st) < NUM"
proof -
  let ?q = "av st @ dev_q st @ us st"
  have d: "distinct ?q" and s: "\<forall>k\<in>set ?q. info_b st k \<noteq> None" using assms(1) unfolding vinv_def by blast+
  have "set ?q \<subseteq> {..<NUM} - {i}"
  proof
    fix k assume "k \<in> set ?q"
    then obtain b where "info_b st k = Some b" using s by blast
    then show "k \<in> {..<NUM} - {i}" using vinvD(6) [OF assms(1)] assms(3) by auto
  qed
  then have "card (set ?q) \<le> card ({..<NUM} - {i})" by (intro card_mono) auto
  also have "\<dots> < NUM" using assms(2) by simp
  finally show ?thesis using distinct_card [OF d] by simp
qed

lemma av_length: "length (av st) = unat (avail_idx st - dev_seen st)" "length (us st) = unat (used_hw st - used_idx st)"
  by (simp_all add: av_def us_def)

lemma unat_small: "i < NUM \<Longrightarrow> unat (of_nat i :: u16) = i" "i < NUM \<Longrightarrow> unat (of_nat i :: u32) = i"
  by (simp_all add: unat_of_nat take_bit_nat_eq_self)

text \<open>A submitted request: the fields that changed.\<close>

lemma submit_simps:
  assumes "distinct [i0, i1, i2]"
  shows "desc (submit b wr i0 i1 i2 st) = (desc st)(i0 := \<lparr>daddr = VOp i0, dlen = 16, dflags = F_NEXT, dnext = of_nat i1\<rparr>,
      i1 := \<lparr>daddr = VData b, dlen = 1024, dflags = (if wr then 0 else F_WRITE) OR F_NEXT, dnext = of_nat i2\<rparr>,
      i2 := \<lparr>daddr = VStatus i0, dlen = 1, dflags = F_WRITE, dnext = 0\<rparr>)"
    "ops (submit b wr i0 i1 i2 st) = (ops st)(i0 := \<lparr>rtype = if wr then 1 else 0, rreserved = 0, rsector = ucast (blockno (bufs st b) * 2)\<rparr>)"
    "info_b (submit b wr i0 i1 i2 st) = (info_b st)(i0 := Some b)" "owned (submit b wr i0 i1 i2 st) = (owned st)(b := True)"
    "info_status (submit b wr i0 i1 i2 st) = (info_status st)(i0 := 0xff)" "vfree (submit b wr i0 i1 i2 st) = vfree st"
    "avail_idx (submit b wr i0 i1 i2 st) = avail_idx st + 1"
    "avail_ring (submit b wr i0 i1 i2 st) = (avail_ring st)[ring_at NUM (avail_idx st) := of_nat i0]"
    "bufs (submit b wr i0 i1 i2 st) = bufs st" "used_ring (submit b wr i0 i1 i2 st) = used_ring st"
    "used_idx (submit b wr i0 i1 i2 st) = used_idx st" "used_hw (submit b wr i0 i1 i2 st) = used_hw st"
    "dev_seen (submit b wr i0 i1 i2 st) = dev_seen st" "dev_q (submit b wr i0 i1 i2 st) = dev_q st"
    "bstate.truncate (submit b wr i0 i1 i2 st) = bstate.truncate st"
  using assms by (simp_all add: submit_def set_desc_def write_reg_def Let_def bstate.defs)

lemma submit_vinv:
  assumes inv: "vinv st" and b: "\<not> busy st b" "blockno (bufs st b) < 2 ^ 31"
    and i: "distinct [i0, i1, i2]" "\<forall>i\<in>{i0, i1, i2}. i < NUM \<and> vfree st i"
    and st': "st' = submit b wr i0 i1 i2 (st\<lparr>vfree := (vfree st)(i0 := False, i1 := False, i2 := False)\<rparr>)"
  shows "vinv st'"
proof -
  let ?s = "st\<lparr>vfree := (vfree st)(i0 := False, i1 := False, i2 := False)\<rparr>"
  note f = submit_simps [OF i(1), of b wr ?s, folded st']
  have tri0: "j \<notin> {i0, i1, i2}" if "info_b st k = Some c" "j \<in> tri st k" for j k c
    using vinvD(3) [OF inv that(1,2)] i(2) by blast
  have n0: "info_b st i0 = None"
  proof (cases "info_b st i0")
    case (Some c)
    with tri0 [OF Some, of i0] show ?thesis by (simp add: tri_def)
  qed
  have short: "length (av st) < NUM" using heads_short [OF inv _ n0] i(2) by simp
  have len: "length (avail_ring st) = NUM" "length (used_ring st) = NUM" using inv by (auto simp: vinv_def)
  have av: "av st' = av st @ [i0]"
    using vr.queue_put [of "avail_idx st" "dev_seen st" "avail_ring st" "of_nat i0"] short len(1) i(2)
    by (simp add: av_def f unat_small)
  have us: "us st' = us st" by (simp add: us_def f)
  have q: "set (av st @ dev_q st @ us st) \<subseteq> {k. info_b st k \<noteq> None}" using inv by (auto simp: vinv_def)
  have new: "nx st' i0 = i1" "nx st' i1 = i2" using i by (auto simp: nx_def f unat_small)
  have t0: "tri st' i0 = {i0, i1, i2}" by (simp add: tri_def new)
  have c0: "chain st' i0 b wr" using i unfolding chain_def by (intro exI [of _ i1] exI [of _ i2]) (auto simp: f)
  have wr: "(rtype (ops st' i0) = 1) = wr" by (simp add: f)
  have old: "chain st' k c (rtype (ops st' k) = 1)" "tri st' k = tri st k" if "info_b st k = Some c" for k c
  proof -
    have "k \<noteq> i0" using that n0 by auto
    then have o: "ops st' k = ops st k" by (simp add: f)
    have d: "\<forall>j\<in>tri st k. desc st' j = desc st j" using tri0 [OF that] by (auto simp: f)
    show "chain st' k c (rtype (ops st' k) = 1)" "tri st' k = tri st k"
      using chain_cong [OF vinvD(1) [OF inv that], of st'] o d by (auto simp: f)
  qed
  have info: "info_b st' k = Some c \<longleftrightarrow> (k = i0 \<and> c = b) \<or> (k \<noteq> i0 \<and> info_b st k = Some c)" for k c by (auto simp: f)
  show ?thesis
    unfolding vinv_def
  proof (intro conjI allI impI)
    show "length (avail_ring st') = NUM" "length (used_ring st') = NUM" using len by (simp_all add: f)
    show "distinct (av st' @ dev_q st' @ us st')" using inv n0 q unfolding vinv_def by (auto simp: av us f)
    show "\<forall>k\<in>set (av st' @ dev_q st' @ us st'). info_b st' k \<noteq> None" using q by (auto simp: av us f)
  next
    fix k c assume k: "info_b st' k = Some c"
    show "chain st' k c (rtype (ops st' k) = 1)" using k info [of k c] c0 wr old(1) by auto
    show "blockno (bufs st' c) < 2 ^ 31" using k info [of k c] b(2) vinvD(2) [OF inv] by (auto simp: f)
    show "\<forall>j\<in>tri st' k. \<not> vfree st' j"
    proof (cases "k = i0")
      case True
      then show ?thesis by (simp add: t0 f)
    next
      case False
      then have "info_b st k = Some c" using k info by simp
      then show ?thesis using vinvD(3) [OF inv] old(2) by (auto simp: f)
    qed
    show "owned st' c = (k \<in> set (av st' @ dev_q st' @ us st'))"
    proof (cases "k = i0")
      case True
      then show ?thesis using k by (simp add: f av)
    next
      case False
      then have kc: "info_b st k = Some c" using k info by simp
      then have "c \<noteq> b" using b(1) by (auto simp: busy_def)
      then show ?thesis using vinvD(4) [OF inv kc] False by (simp add: f av us)
    qed
    show "info_status st' k = (if k \<in> set (av st' @ dev_q st') then 255 else 0)"
    proof (cases "k = i0")
      case True
      then show ?thesis by (simp add: f av)
    next
      case False
      then have "info_b st k = Some c" using k info by simp
      then show ?thesis using vinvD(5) [OF inv] False by (simp add: f av)
    qed
  next
    fix k k' c c' assume k: "info_b st' k = Some c" "info_b st' k' = Some c'" "k \<noteq> k'"
    have dj: "tri st j \<inter> {i0, i1, i2} = {}" if "info_b st j = Some e" for j e using tri0 [OF that] by blast
    have old2: "tri st k \<inter> tri st k' = {} \<and> c \<noteq> c'" if "info_b st k = Some c" "info_b st k' = Some c'"
      using inv k(3) that unfolding vinv_def by blast
    have nb: "e \<noteq> b" if "info_b st j = Some e" for j e using that b(1) by (auto simp: busy_def)
    show "tri st' k \<inter> tri st' k' = {}" "c \<noteq> c'"
      using k(3) info [of k c] info [of k' c'] k(1,2) old(2) dj t0 old2 nb by (metis Int_commute)+
  next
    fix j assume j: "j < NUM" "\<not> vfree st' j"
    show "\<exists>k c. info_b st' k = Some c \<and> j \<in> tri st' k"
    proof (cases "j \<in> {i0, i1, i2}")
      case True
      then show ?thesis using t0 by (intro exI [of _ i0] exI [of _ b]) (simp add: f)
    next
      case False
      then have "\<not> vfree st j" using j(2) by (simp add: f)
      then obtain k c where kc: "info_b st k = Some c" "j \<in> tri st k" using inv j(1) unfolding vinv_def by blast
      then show ?thesis using old(2) info n0 by (intro exI [of _ k] exI [of _ c]) auto
    qed
  qed
qed

lemma reqs_upd:
  assumes "vinv st" "vinv st'" "\<And>k c. c \<noteq> b \<Longrightarrow> info_b st' k = Some c \<longleftrightarrow> info_b st k = Some c"
    "\<And>k c. c \<noteq> b \<Longrightarrow> info_b st k = Some c \<Longrightarrow> rtype (ops st' k) = rtype (ops st k) \<and> info_status st' k = info_status st k"
  shows "reqs_of st' = (reqs_of st)(b := reqs_of st' b)"
proof
  fix c
  show "reqs_of st' c = ((reqs_of st)(b := reqs_of st' b)) c"
  proof (cases "c = b \<or> \<not> busy st c")
    case True
    then have "c = b \<or> reqs_of st c = None \<and> reqs_of st' c = None"
      using assms(3) reqs_of_None [OF assms(1), of c] reqs_of_None [OF assms(2), of c] by (auto simp: busy_def)
    then show ?thesis by auto
  next
    case False
    then obtain k where "info_b st k = Some c" "c \<noteq> b" by (auto simp: busy_def)
    then show ?thesis using assms reqs_of_busy [of st k c] reqs_of_busy [of st' k c] by simp
  qed
qed

text \<open>A change that keeps the chains and the sets of heads keeps the invariant.\<close>

lemma vinv_same:
  assumes "vinv st" "info_b st' = info_b st" "vfree st' = vfree st" "ops st' = ops st"
    "\<forall>i. \<not> vfree st i \<longrightarrow> desc st' i = desc st i"
    "length (avail_ring st') = NUM" "length (used_ring st') = NUM" "\<forall>b. busy st b \<longrightarrow> blockno (bufs st' b) = blockno (bufs st b)"
    "distinct (av st' @ dev_q st' @ us st')" "set (av st' @ dev_q st' @ us st') \<subseteq> {k. info_b st k \<noteq> None}"
    "\<And>k b. info_b st k = Some b \<Longrightarrow> owned st' b = (k \<in> set (av st' @ dev_q st' @ us st'))"
    "\<And>k b. info_b st k = Some b \<Longrightarrow> info_status st' k = (if k \<in> set (av st' @ dev_q st') then 0xff else 0)"
  shows "vinv st'"
proof -
  have ch: "chain st' k b (rtype (ops st' k) = 1)" "tri st' k = tri st k" if "info_b st k = Some b" for k b
    using chain_cong [OF vinvD(1) [OF assms(1) that], of st'] vinvD(3) [OF assms(1) that] assms(4,5,8) that by (auto simp: busy_def)
  have bn: "blockno (bufs st' b) < 2 ^ 31" if "info_b st k = Some b" for k b
    using vinvD(2) [OF assms(1) that] assms(8) that by (auto simp: busy_def)
  show ?thesis
    unfolding vinv_def
  proof (intro conjI allI impI)
    fix k b assume k: "info_b st' k = Some b"
    then have k0: "info_b st k = Some b" using assms(2) by simp
    show "chain st' k b (rtype (ops st' k) = 1)" "blockno (bufs st' b) < 2 ^ 31" using ch(1) bn k0 by blast+
    show "\<forall>i\<in>tri st' k. \<not> vfree st' i" using ch(2) [OF k0] vinvD(3) [OF assms(1) k0] assms(3) by simp
    show "owned st' b = (k \<in> set (av st' @ dev_q st' @ us st'))" using assms(11) [OF k0] .
    show "info_status st' k = (if k \<in> set (av st' @ dev_q st') then 255 else 0)" using assms(12) [OF k0] .
  next
    fix k k' b b' assume k: "info_b st' k = Some b" "info_b st' k' = Some b'" "k \<noteq> k'"
    then have "info_b st k = Some b" "info_b st k' = Some b'" using assms(2) by simp_all
    then show "tri st' k \<inter> tri st' k' = {}" "b \<noteq> b'" using k(3) ch(2) assms(1) unfolding vinv_def by metis+
  next
    fix i assume "i < NUM" "\<not> vfree st' i"
    then obtain k b where "info_b st k = Some b" "i \<in> tri st k" using assms(1,3) unfolding vinv_def by metis
    then show "\<exists>k b. info_b st' k = Some b \<and> i \<in> tri st' k" using ch(2) assms(2) by auto
  qed (use assms(2,6,7,9,10) in auto)
qed

lemma queue_cong:
  assumes "avail_ring st' = avail_ring st" "dev_seen st' = dev_seen st" "avail_idx st' = avail_idx st"
    "used_ring st' = used_ring st" "used_idx st' = used_idx st" "used_hw st' = used_hw st"
  shows "av st' = av st" "us st' = us st"
  using assms by (simp_all add: av_def us_def)

lemma vinv_queue:
  assumes "vinv st"
  shows "distinct (av st @ dev_q st @ us st)" "set (av st @ dev_q st @ us st) \<subseteq> {k. info_b st k \<noteq> None}"
    "length (avail_ring st) = NUM" "length (used_ring st) = NUM"
  using assms unfolding vinv_def by blast+

lemma rw_start_step:
  assumes inv: "vinv st" and b: "\<not> busy st b" "blockno (bufs st b) < 2 ^ 31"
  obtains r st' where "rw_start b wr st = Ok (r, st')" "vinv st'"
    "r = None \<Longrightarrow> vabs st' = vabs st" "r \<noteq> None \<Longrightarrow> vabs st' = (fst (vabs st), (snd (vabs st))(b \<mapsto> (wr, False)))"
proof (cases rule: alloc3_desc_ok [of st])
  case (none D)
  let ?s = "st\<lparr>desc := D\<rparr>"
  note q = queue_cong [of ?s st]
  have "vinv ?s"
    using none(2) vinvD(4,5) [OF inv] vinv_queue [OF inv] by (intro vinv_same [OF inv]) (simp_all add: q)
  moreover have "reqs_of ?s = reqs_of st" by (simp add: reqs_of_def fun_eq_iff)
  ultimately show thesis using none(1) that [of None ?s] by (simp add: rw_start_def vabs_def bstate.defs)
next
  case (some i0 i1 i2)
  let ?st = "submit b wr i0 i1 i2 (st\<lparr>vfree := (vfree st)(i0 := False, i1 := False, i2 := False)\<rparr>)"
  note f = submit_simps [OF some(2), of b wr "st\<lparr>vfree := (vfree st)(i0 := False, i1 := False, i2 := False)\<rparr>"]
  have v: "vinv ?st" by (rule submit_vinv [OF inv b some(2,3) refl])
  have n0: "info_b st i0 = None"
  proof (cases "info_b st i0")
    case (Some c)
    then show ?thesis using vinvD(3) [OF inv Some, of i0] some(3) by (simp add: tri_def)
  qed
  have i0: "info_b ?st i0 = Some b" by (simp add: f)
  have "reqs_of ?st = (reqs_of st)(b := reqs_of ?st b)"
    using n0 b(1) by (intro reqs_upd [OF inv v]) (auto simp: f busy_def)
  moreover have "reqs_of ?st b = Some (wr, False)" using reqs_of_busy [OF v i0] by (simp add: f)
  moreover have "bstate.truncate ?st = bstate.truncate st" by (subst f) (simp add: bstate.defs)
  ultimately have "vabs ?st = (fst (vabs st), (snd (vabs st))(b \<mapsto> (wr, False)))" by (simp add: vabs_def)
  with v show thesis using some(1) that [of "Some i0" ?st] by (simp add: rw_start_def)
qed

subsection \<open>The device's steps\<close>

lemma dev_fetch_step:
  assumes inv: "vinv st" and ne: "dev_seen st \<noteq> avail_idx st"
  shows "vinv (dev_fetch st)" "vabs (dev_fetch st) = vabs st"
proof -
  let ?s = "dev_fetch st"
  define h where "h = unat (avail_ring st ! ring_at NUM (dev_seen st))"
  have a: "av st = h # av ?s" using vr.queue_get [OF ne, of "avail_ring st"] by (simp add: av_def dev_fetch_def h_def)
  have d: "dev_q ?s = dev_q st @ [h]" "us ?s = us st" by (simp_all add: dev_fetch_def h_def us_def)
  have q: "set (av ?s @ dev_q ?s @ us ?s) = set (av st @ dev_q st @ us st)" "set (av ?s @ dev_q ?s) = set (av st @ dev_q st)"
    using a d by auto
  have dis: "distinct (av ?s @ dev_q ?s @ us ?s)" using vinv_queue(1) [OF inv] unfolding d a by auto
  show "vinv ?s"
    using dis vinv_queue(2-4) [OF inv] vinvD(4,5) [OF inv] unfolding q
    by (intro vinv_same [OF inv]) (simp_all only: q, simp_all add: dev_fetch_def)
  show "vabs ?s = vabs st" by (simp add: vabs_def reqs_of_def dev_fetch_def bstate.defs fun_eq_iff)
qed

lemma sector_block: "n < 2 ^ 31 \<Longrightarrow> ucast (drop_bit 1 (ucast (n * 2) :: u64)) = n" for n :: u32
proof -
  assume "n < 2 ^ 31"
  then have "unat n < 2 ^ 31" by (simp add: word_less_nat_alt)
  then have "unat (n * 2) = unat n * 2" by (simp add: unat_word_ariths)
  moreover have "unat (ucast (n * 2) :: u64) = unat (n * 2)" 
    using unsigned_less [of "n * 2", where ?'a = nat] by (simp add: unsigned_ucast_eq take_bit_nat_eq_self)
  ultimately have "unat (drop_bit 1 (ucast (n * 2) :: u64)) = unat n" by (simp add: drop_bit_eq_div unat_div)
  then have "unat (ucast (drop_bit 1 (ucast (n * 2) :: u64)) :: u32) = unat n" using unsigned_less [of n, where ?'a = nat]
    by (simp only: unsigned_ucast_eq) (simp add: take_bit_nat_eq_self)
  then show ?thesis by (simp only: word_unat_eq_iff)
qed

lemma transfer_simps [simp]:
  "desc (dev_transfer b wr s st) = desc st" "avail_idx (dev_transfer b wr s st) = avail_idx st" "avail_ring (dev_transfer b wr s st) = avail_ring st"
  "used_hw (dev_transfer b wr s st) = used_hw st" "used_ring (dev_transfer b wr s st) = used_ring st" "vfree (dev_transfer b wr s st) = vfree st"
  "used_idx (dev_transfer b wr s st) = used_idx st" "info_b (dev_transfer b wr s st) = info_b st"
  "info_status (dev_transfer b wr s st) = info_status st" "ops (dev_transfer b wr s st) = ops st" "owned (dev_transfer b wr s st) = owned st"
  "dev_seen (dev_transfer b wr s st) = dev_seen st" "dev_q (dev_transfer b wr s st) = dev_q st"
  "blockno (bufs (dev_transfer b wr s st) c) = blockno (bufs st c)"
  by (simp_all add: dev_transfer_def Let_def)

lemma dev_done_step:
  assumes inv: "vinv st" and k: "k \<in> set (dev_q st)" "info_b st k = Some b"
  defines "wr \<equiv> rtype (ops st k) = 1"
  shows "vinv (dev_done k b wr st)" "disk_step (vabs st) (vabs (dev_done k b wr st))"
proof -
  let ?s = "dev_done k b wr st"
  have f: "info_status ?s = (info_status st)(k := 0)" "info_b ?s = info_b st" "ops ?s = ops st" "owned ?s = owned st"
    "used_ring ?s = (used_ring st)[ring_at NUM (used_hw st) := of_nat k]" "used_hw ?s = used_hw st + 1" "dev_q ?s = remove1 k (dev_q st)"
    by (simp_all add: dev_done_def Let_def)
  have "k \<notin> set (us st)" "distinct (us st)" using vinv_queue(1) [OF inv] k(1) by auto
  moreover have "set (us st) \<subseteq> {..<NUM}"
  proof
    fix j assume "j \<in> set (us st)"
    then obtain c where "info_b st j = Some c" using vinv_queue(2) [OF inv] by auto
    then show "j \<in> {..<NUM}" using vinvD(6) [OF inv] by auto
  qed
  ultimately have "card (set (us st)) \<le> card ({..<NUM} - {k})" by (intro card_mono) auto
  then have short: "length (us st) < NUM" using vinvD(6) [OF inv k(2)] \<open>distinct (us st)\<close> by (simp add: distinct_card)
  have av: "av ?s = av st" by (simp add: av_def dev_done_def Let_def)
  have us: "us ?s = us st @ [k]"
    using vr.queue_put [of "used_hw st" "used_idx st" "used_ring st" "of_nat k"] short vinv_queue(4) [OF inv] vinvD(6) [OF inv k(2)]
    by (simp add: us_def f) (simp add: dev_done_def Let_def unat_small)
  have dis: "distinct (av st @ dev_q st @ us st)" using vinv_queue(1) [OF inv] .
  then have r: "set (remove1 k (dev_q st)) = set (dev_q st) - {k}" by simp
  have q: "set (av ?s @ dev_q ?s @ us ?s) = set (av st @ dev_q st @ us st)" using r k(1) by (auto simp: av us f)
  have q2: "j \<in> set (av ?s @ dev_q ?s) \<longleftrightarrow> j \<noteq> k \<and> j \<in> set (av st @ dev_q st)" for j using r k(1) dis by (auto simp: av f)
  show v: "vinv ?s"
  proof (rule vinv_same [OF inv])
    show "distinct (av ?s @ dev_q ?s @ us ?s)" using dis k(1) by (auto simp: av us f)
    show "set (av ?s @ dev_q ?s @ us ?s) \<subseteq> {k. info_b st k \<noteq> None}" unfolding q using vinv_queue(2) [OF inv] .
    show "owned ?s c = (j \<in> set (av ?s @ dev_q ?s @ us ?s))" if "info_b st j = Some c" for j c
      unfolding q using vinvD(4) [OF inv that] by (simp add: f)
    show "info_status ?s j = (if j \<in> set (av ?s @ dev_q ?s) then 255 else 0)" if "info_b st j = Some c" for j c
      using vinvD(5) [OF inv that] q2 [of j] by (simp add: f)
  qed (use vinv_queue(3,4) [OF inv] in \<open>simp_all add: dev_done_def Let_def\<close>)
  have R: "reqs_of st b = Some (wr, False)" using reqs_of_busy [OF inv k(2)] vinvD(5) [OF inv k(2)] k(1) by (simp add: wr_def)
  have k': "info_b ?s k = Some b" using k(2) by (simp add: f)
  have "reqs_of ?s = (reqs_of st)(b := reqs_of ?s b)" using k(2) by (intro reqs_upd [OF inv v]) (auto simp: f)
  moreover have "reqs_of ?s b = Some (wr, True)" using reqs_of_busy [OF v k'] by (simp add: f) (simp add: wr_def)
  ultimately have R': "reqs_of ?s = (reqs_of st)(b \<mapsto> (wr, True))" by simp
  obtain t where "ops st k = \<lparr>rtype = t, rreserved = 0, rsector = ucast (blockno (bufs st b) * 2)\<rparr>"
    using vinvD(1) [OF inv k(2)] by (auto simp: chain_def)
  then have sec: "ucast (drop_bit 1 (rsector (ops st k))) = blockno (bufs st b)"
    using sector_block [OF vinvD(2) [OF inv k(2)]] by simp
  have "bstate.truncate ?s = disk_rw b wr (bstate.truncate st)"
    by (simp add: dev_done_def dev_transfer_def Let_def bstate.defs disk_rw_def upd_buf_def sec [unfolded One_nat_def])
  then show "disk_step (vabs st) (vabs ?s)"
    using ds_perform [of "reqs_of st" b wr "bstate.truncate st"] R R' by (simp add: vabs_def)
qed

subsection \<open>Interrupts and completion\<close>

lemma intr_loop_step: "vinv st \<Longrightarrow> \<exists>st'. intr_loop st = Ok st' \<and> vinv st' \<and> vabs st' = vabs st"
proof (induction st rule: intr_loop.induct)
  case (1 st)
  note inv = \<open>vinv st\<close>
  show ?case
  proof (cases "used_idx st = used_hw st")
    case True
    then show ?thesis using inv by (subst intr_loop.simps) simp
  next
    case False
    let ?k = "unat (used_ring st ! ring_at NUM (used_idx st))"
    have u: "us st = ?k # map unat (ring_queue NUM (used_ring st) (used_idx st + 1) (used_hw st))"
      using vr.queue_get [OF False, of "used_ring st"] by (simp add: us_def)
    then obtain b where b: "info_b st ?k = Some b" using vinv_queue(2) [OF inv] by auto
    have dis: "distinct (av st @ dev_q st @ us st)" using vinv_queue(1) [OF inv] .
    have st0: "info_status st ?k = 0" using vinvD(5) [OF inv b] dis u by auto
    let ?s = "st\<lparr>owned := (owned st)(b := False), used_idx := used_idx st + 1\<rparr>"
    have u': "us ?s = tl (us st)" "av ?s = av st" using u by (simp_all add: us_def av_def)
    have v: "vinv ?s"
    proof (rule vinv_same [OF inv])
      show "distinct (av ?s @ dev_q ?s @ us ?s)" "set (av ?s @ dev_q ?s @ us ?s) \<subseteq> {k. info_b st k \<noteq> None}"
        using dis vinv_queue(2) [OF inv] u unfolding u' by auto
      show "owned ?s c = (k \<in> set (av ?s @ dev_q ?s @ us ?s))" if k: "info_b st k = Some c" for k c
      proof (cases "k = ?k")
        case True
        then show ?thesis using k b dis u unfolding u' by auto
      next
        case False
        then have "c \<noteq> b" using inv k b unfolding vinv_def by blast
        then show ?thesis using vinvD(4) [OF inv k] False u unfolding u' by auto
      qed
      show "info_status ?s k = (if k \<in> set (av ?s @ dev_q ?s) then 255 else 0)" if "info_b st k = Some c" for k c
        using vinvD(5) [OF inv that] unfolding u' by simp
    qed (use vinv_queue(3,4) [OF inv] in simp_all)
    have "vabs ?s = vabs st" by (simp add: vabs_def reqs_of_def bstate.defs fun_eq_iff)
    moreover have "intr_loop st = intr_loop ?s"
      using False st0 b vinvD(6) [OF inv b] by (subst intr_loop.simps) (simp add: Let_def)
    moreover have "\<not> NUM \<le> ?k" using vinvD(6) [OF inv b] by simp
    ultimately show ?thesis using "1.IH" [OF False refl _ _ b v] st0 by auto
  qed
qed

lemma virtio_disk_intr_step:
  assumes "vinv st"
  obtains st' where "virtio_disk_intr rd st = Ok st'" "vinv st'" "vabs st' = vabs st"
proof -
  let ?s = "write_reg 0x64 (read_reg rd 0x60 st AND 3) st"
  have "vinv ?s"
    using vinvD(4,5) [OF assms] vinv_queue [OF assms] queue_cong [of ?s st]
    by (intro vinv_same [OF assms]) (simp_all add: write_reg_def)
  moreover have "vabs ?s = vabs st" by (simp add: vabs_def reqs_of_def write_reg_def bstate.defs fun_eq_iff)
  ultimately show thesis using intr_loop_step [of ?s] that by (auto simp: virtio_disk_intr_def)
qed

lemma free_chain_three:
  assumes "chain st k b wr" "\<forall>i\<in>tri st k. \<not> vfree st i"
  shows "free_chain k st = Ok (st\<lparr>desc := (\<lambda>i. if i \<in> tri st k then no_desc else desc st i), vfree := (\<lambda>i. i \<in> tri st k \<or> vfree st i)\<rparr>)"
proof -
  obtain i1 i2 where c: "k < NUM" "i1 < NUM" "i2 < NUM" "distinct [k, i1, i2]" "dnext (desc st k) = of_nat i1" "dflags (desc st k) = F_NEXT"
    "dnext (desc st i1) = of_nat i2" "dflags (desc st i1) = (if wr then 0 else F_WRITE) OR F_NEXT" "dflags (desc st i2) = F_WRITE"
    using assms(1) by (auto simp: chain_def)
  have n: "nx st k = i1" "nx st i1 = i2" using c by (simp_all add: nx_def unat_small)
  then have t: "tri st k = {k, i1, i2}" by (simp add: tri_def)
  then have nf: "\<not> vfree st k" "\<not> vfree st i1" "\<not> vfree st i2" using assms(2) by auto
  have fl: "((if wr then 0 else F_WRITE) OR F_NEXT) AND F_NEXT \<noteq> 0" "F_WRITE AND F_NEXT = 0" by (cases wr; simp)+
  let ?s1 = "st\<lparr>desc := (desc st)(k := no_desc), vfree := (vfree st)(k := True)\<rparr>"
  let ?s2 = "st\<lparr>desc := (desc st)(k := no_desc, i1 := no_desc), vfree := (vfree st)(k := True, i1 := True)\<rparr>"
  let ?s3 = "st\<lparr>desc := (desc st)(k := no_desc, i1 := no_desc, i2 := no_desc), vfree := (vfree st)(k := True, i1 := True, i2 := True)\<rparr>"
  have "free_chain k st = free_chain i1 ?s1"
    using c nf by (subst free_chain.simps) (simp add: free_desc_def unat_small)
  also have "\<dots> = free_chain i2 ?s2"
    using c nf fl(1) by (subst free_chain.simps) (simp add: free_desc_def unat_small)
  also have "\<dots> = Ok ?s3"
    using c nf fl(2) by (subst free_chain.simps) (simp add: free_desc_def)
  also have "?s3 = st\<lparr>desc := (\<lambda>i. if i \<in> tri st k then no_desc else desc st i), vfree := (\<lambda>i. i \<in> tri st k \<or> vfree st i)\<rparr>"
    by (rule arg_cong2 [where f = "\<lambda>d v. st\<lparr>desc := d, vfree := v\<rparr>"]) (auto simp: t fun_eq_iff)
  finally show ?thesis .
qed

lemma rw_finish_step:
  assumes inv: "vinv st" and k: "info_b st k = Some b" "\<not> owned st b"
  obtains st' where "rw_finish k st = Ok st'" "vinv st'" "disk_step (vabs st) (vabs st')"
proof -
  let ?T = "tri st k" and ?s0 = "st\<lparr>info_b := (info_b st)(k := None)\<rparr>"
  have t0: "tri ?s0 k = ?T" by (simp add: tri_def nx_def)
  have c0: "chain ?s0 k b (rtype (ops st k) = 1)" using vinvD(1) [OF inv k(1)] by (simp add: chain_def)
  define s where "s = ?s0\<lparr>desc := (\<lambda>i. if i \<in> ?T then no_desc else desc st i), vfree := (\<lambda>i. i \<in> ?T \<or> vfree st i)\<rparr>"
  have d0: "desc ?s0 = desc st" "vfree ?s0 = vfree st" by simp_all
  have "\<forall>i\<in>tri ?s0 k. \<not> vfree ?s0 i" using vinvD(3) [OF inv k(1)] unfolding t0 d0 by blast
  from free_chain_three [OF c0 this] have run: "rw_finish k st = Ok s"
    unfolding rw_finish_def s_def t0 d0 .
  have f: "info_b s = (info_b st)(k := None)" "vfree s = (\<lambda>i. i \<in> ?T \<or> vfree st i)" "owned s = owned st" "info_status s = info_status st"
    "ops s = ops st" "bufs s = bufs st" "dev_q s = dev_q st" "desc s = (\<lambda>i. if i \<in> ?T then no_desc else desc st i)"
    "avail_ring s = avail_ring st" "used_ring s = used_ring st"
    by (simp_all add: s_def)
  have q: "av s = av st" "us s = us st" by (rule queue_cong; simp add: s_def)+
  have kq: "k \<notin> set (av st @ dev_q st @ us st)" using vinvD(4) [OF inv k(1)] k(2) by simp
  have info: "info_b s j = Some c \<longleftrightarrow> j \<noteq> k \<and> info_b st j = Some c" for j c by (auto simp: f)
  have dj: "tri st j \<inter> ?T = {}" "c \<noteq> b" if "info_b st j = Some c" "j \<noteq> k" for j c
    using inv k(1) that unfolding vinv_def by blast+
  have ch: "chain s j c (rtype (ops s j) = 1)" "tri s j = tri st j" if "info_b st j = Some c" "j \<noteq> k" for j c
  proof -
    have "\<forall>i\<in>tri st j. desc s i = desc st i" using dj(1) [OF that] by (auto simp: f)
    then show "chain s j c (rtype (ops s j) = 1)" "tri s j = tri st j"
      using chain_cong [OF vinvD(1) [OF inv that(1)], of s] by (simp_all add: f)
  qed
  have v: "vinv s"
    unfolding vinv_def q
  proof (intro conjI allI impI)
    fix j c assume j: "info_b s j = Some c"
    then have j0: "info_b st j = Some c" "j \<noteq> k" using info by auto
    show "chain s j c (rtype (ops s j) = 1)" using ch(1) [OF j0] .
    show "blockno (bufs s c) < 2 ^ 31" using vinvD(2) [OF inv j0(1)] by (simp add: f)
    show "\<forall>i\<in>tri s j. \<not> vfree s i" using vinvD(3) [OF inv j0(1)] dj(1) [OF j0] unfolding ch(2) [OF j0] f by blast
    show "owned s c = (j \<in> set (av st @ dev_q s @ us st))" using vinvD(4) [OF inv j0(1)] by (simp add: f)
    show "info_status s j = (if j \<in> set (av st @ dev_q s) then 255 else 0)" using vinvD(5) [OF inv j0(1)] by (simp add: f)
  next
    fix j j' c c' assume "info_b s j = Some c" "info_b s j' = Some c'" and ne: "j \<noteq> j'"
    then have j: "info_b st j = Some c" "j \<noteq> k" "info_b st j' = Some c'" "j' \<noteq> k" using info by auto
    show "tri s j \<inter> tri s j' = {}" "c \<noteq> c'"
      using inv j ne ch(2) [OF j(1,2)] ch(2) [OF j(3,4)] unfolding vinv_def by blast+
  next
    fix i assume i: "i < NUM" "\<not> vfree s i"
    then have ni: "i \<notin> ?T" "\<not> vfree st i" by (auto simp: f)
    then obtain j c where j: "info_b st j = Some c" "i \<in> tri st j" using inv i(1) unfolding vinv_def by blast
    then have "j \<noteq> k" using ni by auto
    then show "\<exists>j c. info_b s j = Some c \<and> i \<in> tri s j" using j ch(2) [OF j(1)] info by auto
  next
    show "\<forall>j\<in>set (av st @ dev_q s @ us st). info_b s j \<noteq> None" using vinv_queue(2) [OF inv] kq by (auto simp: f)
  qed (use vinv_queue [OF inv] in \<open>simp_all add: f\<close>)
  have "reqs_of s = (reqs_of st)(b := reqs_of s b)"
    using k(1) by (intro reqs_upd [OF inv v]) (auto simp: f)
  moreover have "\<not> busy s b" using dj(2) info by (auto simp: busy_def)
  then have "reqs_of s b = None" using reqs_of_None [OF v] by simp
  ultimately have "reqs_of s = (reqs_of st)(b := None)" by simp
  moreover have "reqs_of st b = Some (rtype (ops st k) = 1, True)"
    using reqs_of_busy [OF inv k(1)] vinvD(5) [OF inv k(1)] kq by auto
  moreover have "bstate.truncate s = bstate.truncate st" by (simp add: s_def bstate.defs)
  ultimately have "disk_step (vabs st) (vabs s)"
    using ds_return [of "reqs_of st" b "rtype (ops st k) = 1" "bstate.truncate st"] by (simp add: vabs_def)
  with run v that show thesis by blast
qed

subsection \<open>The driver implements the contract\<close>

lemma virtio_disk_init_queue:
  assumes "virtio_disk_init rd m st0 = Ok (m', st)"
  obtains status d a u regs where "st = queue_ready status d a u (st0\<lparr>mmio := regs\<rparr>)"
proof -
  obtain status d a u s where "st = queue_ready status d a u s" "s = st0\<lparr>mmio := mmio s\<rparr>"
    using assms by (auto simp: virtio_disk_init_def Let_def bnd_eq_Ok write_reg_def split: if_splits)
  then have "st = queue_ready status d a u (st0\<lparr>mmio := mmio s\<rparr>)" by metis
  then show thesis by (rule that)
qed

lemma virtio_disk_init_vinv:
  assumes "virtio_disk_init rd m st0 = Ok (m', st)"
    and "used_idx st0 = 0" "info_b st0 = (\<lambda>_. None)" "dev_seen st0 = 0" "dev_q st0 = []"
  shows "vinv st" "snd (vabs st) = (\<lambda>_. None)" "bstate.truncate st = bstate.truncate st0"
proof -
  have f: "avail_ring st = replicate NUM 0" "used_ring st = replicate NUM 0" "avail_idx st = 0" "used_hw st = 0"
    "used_idx st = used_idx st0" "info_b st = info_b st0" "dev_seen st = dev_seen st0" "dev_q st = dev_q st0"
    "\<forall>i<NUM. vfree st i" and t: "bstate.truncate st = bstate.truncate st0"
    using assms(1) by (rule virtio_disk_init_queue; simp add: queue_ready_def queue_addrs_def write_reg_def Let_def bstate.defs)+
  show "vinv st" by (simp add: vinv_def av_def us_def f assms(2-) ring_queue_def)
  show "snd (vabs st) = (\<lambda>_. None)" by (simp add: vabs_def reqs_of_def f assms(3) fun_eq_iff find_None_iff)
  show "bstate.truncate st = bstate.truncate st0" by (rule t)
qed

text \<open>Every step of the driver and of the device keeps the invariant and is a step of the contract, or no
  step of it at all.\<close>

lemma vstep_refines:
  assumes dev: "virtio_blk dev" and inv: "vinv st" and step: "vstep dev rd st st'"
  shows "vinv st' \<and> (vabs st' = vabs st \<or> disk_step (vabs st) (vabs st'))"
  using step
proof cases
  case (vs_start b wr r)
  obtain r' s where s: "rw_start b wr st = Ok (r', s)" "vinv s" "r' = None \<Longrightarrow> vabs s = vabs st"
    "r' \<noteq> None \<Longrightarrow> vabs s = (fst (vabs st), (snd (vabs st))(b \<mapsto> (wr, False)))"
    using rw_start_step [OF inv vs_start(1,2)] by metis
  have "snd (vabs st) b = None" using reqs_of_None [OF inv] vs_start(1) by (simp add: vabs_def)
  then have "disk_step (vabs st) (fst (vabs st), (snd (vabs st))(b \<mapsto> (wr, False)))"
    using ds_submit [of "snd (vabs st)" b "fst (vabs st)" wr] by simp
  then show ?thesis using s vs_start(3) by (cases r') auto
next
  case vs_dev
  then consider "dev_seen st \<noteq> avail_idx st" "st' = dev_fetch st"
    | k where "k \<in> set (dev_q st)" "\<forall>b wr. chain st k b wr \<longrightarrow> st' = dev_done k b wr st"
    using dev unfolding virtio_blk_def by blast
  then show ?thesis
  proof cases
    case 1
    then show ?thesis using dev_fetch_step [OF inv] by simp
  next
    case 2
    then obtain b where b: "info_b st k = Some b" using vinv_queue(2) [OF inv] by auto
    show ?thesis using 2 vinvD(1) [OF inv b] dev_done_step [OF inv 2(1) b] by blast
  qed
next
  case vs_intr
  then show ?thesis using virtio_disk_intr_step [OF inv, of rd] by (metis res.inject(1))
next
  case (vs_finish k b)
  then show ?thesis using rw_finish_step [OF inv vs_finish(1,2)] by (metis res.inject(1))
next
  case (vs_other bs)
  have same: "busy st b \<Longrightarrow> bs b = bufs st b" for b using vs_other(2) by blast
  have q: "av st' = av st" "us st' = us st" by (rule queue_cong; simp add: vs_other(1))+
  have "vinv st'"
    using vinvD(4,5) [OF inv] vinv_queue [OF inv] same unfolding vs_other(1)
    by (intro vinv_same [OF inv]) (auto simp: busy_def q [unfolded vs_other(1)])
  moreover have "reqs_of st' = reqs_of st" by (simp add: vs_other(1) reqs_of_def fun_eq_iff)
  then have "disk_step (vabs st) (vabs st')"
    using ds_other [of "reqs_of st" bs "bstate.truncate st"] same reqs_of_None [OF inv]
    by (auto simp: vs_other(1) vabs_def bstate.defs)
  ultimately show ?thesis by blast
qed

lemma vsteps_refine:
  assumes "virtio_blk dev" "(vstep dev rd)\<^sup>*\<^sup>* st1 st" "vinv st1"
  shows "vinv st \<and> disk_step\<^sup>*\<^sup>* (vabs st1) (vabs st)"
  using assms(2)
proof (induction rule: rtranclp_induct)
  case base
  then show ?case using assms(3) by simp
next
  case (step s s')
  then show ?case using vstep_refines [OF assms(1), of s rd s'] by (metis rtranclp.rtrancl_into_rtrancl)
qed

lemma rw_finish_done:
  assumes "vinv st" "info_b st k = Some b" "\<not> owned st b"
  shows "reqs_of st b = Some (rtype (ops st k) = 1, True) \<and> is_Ok (rw_finish k st)"
proof
  show "reqs_of st b = Some (rtype (ops st k) = 1, True)"
    using reqs_of_busy [OF assms(1,2)] vinvD(4,5) [OF assms(1,2)] assms(3) by auto
  show "is_Ok (rw_finish k st)" using rw_finish_step [OF assms] by (auto simp: is_Ok_def)
qed

text \<open>
  C31: The disk driver together with any device that keeps the virtio contract, after \<open>virtio_disk_init\<close> and any
  interleaving of requests, completions, interrupts and device steps: what has happened is a run of
  the contract, in which each request is performed once as \<open>disk_rw\<close> says. The interrupt
  handler does not panic or read out of bounds, a new request for a block below \<open>2 ^ 31\<close> is taken or waits
  for descriptors, and when \<open>b->disk\<close> is 0 the request of \<open>b\<close> has been performed and freeing its chain
  does not panic.
\<close>

theorem virtio_refines_disk_rw:
  assumes "virtio_blk dev" "virtio_disk_init rd m st0 = Ok (m', st1)"
    and "used_idx st0 = 0" "info_b st0 = (\<lambda>_. None)" "dev_seen st0 = 0" "dev_q st0 = []"
    and "(vstep dev rd)\<^sup>*\<^sup>* st1 st"
  shows "disk_step\<^sup>*\<^sup>* (bstate.truncate st0, \<lambda>_. None) (vabs st)
    \<and> is_Ok (virtio_disk_intr rd st)
    \<and> (\<forall>b wr. \<not> busy st b \<longrightarrow> blockno (bufs st b) < 2 ^ 31 \<longrightarrow> is_Ok (rw_start b wr st))
    \<and> (\<forall>k b. info_b st k = Some b \<longrightarrow> \<not> owned st b \<longrightarrow>
         snd (vabs st) b = Some (rtype (ops st k) = 1, True) \<and> is_Ok (rw_finish k st))"
proof -
  note init = virtio_disk_init_vinv [OF assms(2-6)]
  have v: "vinv st" and run: "disk_step\<^sup>*\<^sup>* (vabs st1) (vabs st)"
    using vsteps_refine [OF assms(1,7) init(1)] by simp_all
  have "vabs st1 = (bstate.truncate st0, \<lambda>_. None)" using init(2,3) by (simp add: vabs_def)
  moreover have "is_Ok (virtio_disk_intr rd st)" using virtio_disk_intr_step [OF v] by (auto simp: is_Ok_def)
  moreover have "is_Ok (rw_start b wr st)" if "\<not> busy st b" "blockno (bufs st b) < 2 ^ 31" for b wr
    using rw_start_step [OF v that] by (metis is_Ok_Ok)
  ultimately show ?thesis using run rw_finish_done [OF v] by (simp add: vabs_def)
qed

text \<open>For the witness: a device that serves what it has taken at once or later, one that answers the
  initialisation, and a machine with three free pages.\<close>

definition blk_dev :: "vstate \<Rightarrow> vstate \<Rightarrow> bool" where
  "blk_dev st st' \<longleftrightarrow> (dev_seen st \<noteq> avail_idx st \<and> st' = dev_fetch st) \<or>
     (\<exists>k\<in>set (dev_q st). \<exists>b wr. chain st k b wr \<and> st' = dev_done k b wr st)"

definition blk_regs :: "(nat \<times> u32) list \<Rightarrow> nat \<Rightarrow> u32" where
  "blk_regs ws r = (if r = 0 then 0x74726976 else if r = 4 \<or> r = 8 then 2 else if r = 12 then 0x554d4551
     else if r = 0x70 then 11 else if r = 0x34 then 1024 else 0)"

definition vboot :: vstate where
  "vboot = \<lparr>bufs = (\<lambda>_. undefined\<lparr>blockno := 7\<rparr>), disk = (\<lambda>_ _. 0), writes = [], desc = (\<lambda>_. no_desc), avail_idx = 0,
     avail_ring = [], used_hw = 0, used_ring = [], vfree = (\<lambda>_. False), used_idx = 0, info_b = (\<lambda>_. None),
     info_status = (\<lambda>_. 0), ops = (\<lambda>_. \<lparr>rtype = 0, rreserved = 0, rsector = 0\<rparr>), owned = (\<lambda>_. False), mmio = [],
     dev_seen = 0, dev_q = []\<rparr>"

lemma chain_request: "chain st k b wr \<Longrightarrow> daddr (desc st (nx st k)) = VData b \<and> rtype (ops st k) = (if wr then 1 else 0)"
  by (auto simp: chain_def nx_def unat_small)

lemma chain_unique:
  assumes "chain st k b wr" "chain st k b' wr'"
  shows "b' = b" "wr' = wr"
  using chain_request [OF assms(1)] chain_request [OF assms(2)] by (auto split: if_splits)

lemma blk_dev_ok: "virtio_blk blk_dev"
  unfolding virtio_blk_def blk_dev_def using chain_unique by blast

lemma kalloc_three:
  assumes "kinv m ys" "3 \<le> length ys"
  obtains d m1 a m2 u m3 where "kalloc m = Ok (d, m1)" "kalloc m1 = Ok (a, m2)" "kalloc m2 = Ok (u, m3)" "d \<noteq> 0" "a \<noteq> 0" "u \<noteq> 0"
proof -
  obtain d a u zs where ys: "ys = d # a # u # zs" using assms(2) by (auto simp: numeral_3_eq_3 Suc_le_length_iff)
  have nz: "d \<noteq> 0" "a \<noteq> 0" "u \<noteq> 0" using assms(1) by (auto simp: ys kinv_def flinv_def managed_def)
  obtain m1 where 1: "kalloc m = Ok (d, m1)" "kinv m1 (a # u # zs)" using kalloc_Cons assms(1) unfolding ys by blast
  obtain m2 where 2: "kalloc m1 = Ok (a, m2)" "kinv m2 (u # zs)" using kalloc_Cons [OF 1(2)] by blast
  obtain m3 where 3: "kalloc m2 = Ok (u, m3)" using kalloc_Cons [OF 2(2)] by blast
  show thesis using that [OF 1(1) 2(1) 3 nz] .
qed

lemma three_pages: "\<exists>m ys. kinv m ys \<and> 3 \<le> length ys"
proof -
  let ?s = "one_page\<lparr>freelist := 0, kend := 0x87FFD000\<rparr>"
  obtain m ys where m: "kinv m ys" "set ys = {q. managed ?s q}"
    using kinit_kinv [of ?s] by (auto simp: one_page_def)
  have "{0x87FFD000, 0x87FFE000, 0x87FFF000} \<subseteq> set ys" unfolding m(2) by (auto simp: managed_def pg_aligned_def)
  then have "card {0x87FFD000, 0x87FFE000, 0x87FFF000 :: u64} \<le> card (set ys)" by (intro card_mono) auto
  also have "\<dots> \<le> length ys" by (rule card_length)
  finally have "3 \<le> length ys" by simp
  with m(1) show ?thesis by blast
qed

lemma virtio_boots: "\<exists>m m' st1. virtio_disk_init blk_regs m vboot = Ok (m', st1)"
proof -
  obtain m d m1 a m2 u m3 where "kalloc m = Ok (d, m1)" "kalloc m1 = Ok (a, m2)" "kalloc m2 = Ok (u, m3)" "d \<noteq> 0" "a \<noteq> 0" "u \<noteq> 0"
    using three_pages kalloc_three by metis
  then have "virtio_disk_init blk_regs m vboot = Ok (m3, queue_ready 11 d a u (vboot\<lparr>mmio := [(112, 0), (112, 1), (112, 3), (32, 0), (112, 11), (48, 0)]\<rparr>))"
    by (simp add: virtio_disk_init_def Let_def read_reg_def write_reg_def blk_regs_def negotiate_def vboot_def)
  then show ?thesis by blast
qed

theorem virtio_refines_disk_rw_witness:
  "\<exists>m m' st1 r st. virtio_disk_init blk_regs m vboot = Ok (m', st1) \<and> rw_start 3 True st1 = Ok (r, st)
    \<and> disk_step\<^sup>*\<^sup>* (bstate.truncate vboot, \<lambda>_. None) (vabs st) \<and> is_Ok (virtio_disk_intr blk_regs st)"
proof -
  have z: "used_idx vboot = 0" "info_b vboot = (\<lambda>_. None)" "dev_seen vboot = 0" "dev_q vboot = []" by (simp_all add: vboot_def)
  obtain m m' st1 where i: "virtio_disk_init blk_regs m vboot = Ok (m', st1)" using virtio_boots by blast
  note init = virtio_disk_init_vinv [OF i z]
  have nb: "\<not> busy st1 3" using reqs_of_None [OF init(1)] init(2) by (simp add: vabs_def)
  have "bufs (bstate.truncate st1) = bufs (bstate.truncate vboot)" using init(3) by simp
  then have bn: "blockno (bufs st1 3) < 2 ^ 31" by (simp add: bstate.defs vboot_def)
  obtain r st where s: "rw_start 3 True st1 = Ok (r, st)" using rw_start_step [OF init(1) nb bn] by metis
  have "(vstep blk_dev blk_regs)\<^sup>*\<^sup>* st1 st" using vs_start [OF nb bn s] by blast
  from virtio_refines_disk_rw [OF blk_dev_ok i z this] i s show ?thesis by blast
qed

end
