(* ===== verification/Mkfs.thy ===== *)
theory Mkfs
  imports Fsfile
begin

text \<open>
  The program \<open>mkfs/mkfs.c\<close> of the build host, which writes the image of the file system.

  The state is the image, a file of \<open>ilen\<close> blocks, and the program's global variables. A failed call of \<open>lseek\<close>, \<open>read\<close>
  or \<open>write\<close> ends the program; \<open>host n\<close> tells whether the \<open>n\<close>-th call on the image succeeds. \<open>die\<close> and a failed \<open>assert\<close> are
  \<open>Panic\<close>. The host is little endian. The fields of an \<open>inode\<close> that are not in \<open>struct dinode\<close> are unused here. The
  main result: the kernel finds a consistent volume in which every file has the content it has on the host.
\<close>

subsection \<open>Data\<close>

abbreviation FSSIZE :: nat where "FSSIZE \<equiv> 2000"
abbreviation NINODES :: nat where "NINODES \<equiv> 200"
abbreviation nbitmap :: nat where "nbitmap \<equiv> FSSIZE div (BSIZE * 8) + 1"
abbreviation ninodeblocks :: nat where "ninodeblocks \<equiv> NINODES div IPB + 1"
abbreviation nmeta :: nat where "nmeta \<equiv> 2 + LOGSIZE + ninodeblocks + nbitmap"

record image =
  img :: "u32 \<Rightarrow> block"
  ilen :: nat
  host :: "nat \<Rightarrow> bool"
  calls :: nat
  msb :: superblock
  freeinode :: u32
  freeblock :: u32

text \<open>A file of the host: its name, and what the successive calls of \<open>read\<close> on it return
  (nothing at the end and on an error), \<open>None\<close> if it cannot be opened.\<close>

record hostfile =
  fname :: "u8 list"
  freads :: "u8 list list option"

subsection \<open>Byte order\<close>

definition xshort :: "u16 \<Rightarrow> u16" where
  "xshort x = of_le [ucast x, ucast (drop_bit 8 x)]"

definition xint :: "u32 \<Rightarrow> u32" where
  "xint x = of_le [ucast x, ucast (drop_bit 8 x), ucast (drop_bit 16 x), ucast (drop_bit 24 x)]"

subsection \<open>Sectors and inodes\<close>

text \<open>The offset \<open>sec * BSIZE\<close> is unsigned. A write at or after the end makes the file longer.\<close>

definition sector :: "u32 \<Rightarrow> nat" where
  "sector sec = unat (sec * 1024) div BSIZE"

definition lseek_ok :: "image \<Rightarrow> bool" where
  "lseek_ok st = host st (calls st)"

definition wsect :: "u32 \<Rightarrow> block \<Rightarrow> image \<Rightarrow> image res" where
  "wsect sec buf st =
     (if \<not> lseek_ok st then Err (Panic ''lseek'')
      else if \<not> host st (Suc (calls st)) then Err (Panic ''write'')
      else Ok (st\<lparr>img := (img st)(of_nat (sector sec) := buf), ilen := max (ilen st) (sector sec + 1), calls := calls st + 2\<rparr>))"

definition rsect :: "u32 \<Rightarrow> image \<Rightarrow> (block \<times> image) res" where
  "rsect sec st =
     (if \<not> lseek_ok st then Err (Panic ''lseek'')
      else if \<not> host st (Suc (calls st)) \<or> ilen st \<le> sector sec then Err (Panic ''read'')
      else Ok (img st (of_nat (sector sec)), st\<lparr>calls := calls st + 2\<rparr>))"

definition zero_inode :: inode where
  "zero_inode = \<lparr>idev = 0, inum = 0, iref = 0, ilk = initsleeplock [], ivalid = False, itype = 0, major = 0, minor = 0,
     nlink = 0, isize = 0, addrs = replicate (NDIRECT + 1) 0\<rparr>"

definition winode :: "u32 \<Rightarrow> inode \<Rightarrow> image \<Rightarrow> image res" where
  "winode i ip st =
     (let bn = IBLOCK i (msb st) in
      bnd (rsect bn st) (\<lambda>(buf, st). wsect bn (put_dinode (dinode_off i) ip buf) st))"

definition rinode :: "u32 \<Rightarrow> image \<Rightarrow> (inode \<times> image) res" where
  "rinode i st =
     (let bn = IBLOCK i (msb st) in
      bnd (rsect bn st) (\<lambda>(buf, st). Ok (get_dinode (dinode_off i) buf zero_inode, st)))"

definition mkfs_ialloc :: "u16 \<Rightarrow> image \<Rightarrow> (u32 \<times> image) res" where
  "mkfs_ialloc ty st =
     (let i = freeinode st; st = st\<lparr>freeinode := freeinode st + 1\<rparr>;
          din = zero_inode\<lparr>itype := xshort ty, nlink := xshort 1, isize := xint 0\<rparr> in
      bnd (winode i din st) (\<lambda>st. Ok (i, st)))"

definition mkfs_balloc :: "int \<Rightarrow> image \<Rightarrow> image res" where
  "mkfs_balloc used st =
     (if \<not> used < int BSIZE * 8 then Err (Panic ''used < BSIZE*8'')
      else wsect (bmapstart (msb st)) (fold bit_set [0..<nat used] (\<lambda>_. 0)) st)"

subsection \<open>Appending to a file\<close>

text \<open>The first half of the loop body of \<open>iappend\<close>: the block \<open>x\<close> for block \<open>fbn\<close> of the file, allocated if it is new;
  \<open>set_block\<close> is the test and the allocation for an entry of \<open>din.addrs\<close>, \<open>indirect_block\<close> the part after it in the second
  branch.\<close>

definition next_block :: "image \<Rightarrow> u32 \<times> image" where
  "next_block st = (xint (freeblock st), st\<lparr>freeblock := freeblock st + 1\<rparr>)"

definition indirect_block :: "nat \<Rightarrow> inode \<Rightarrow> image \<Rightarrow> (u32 \<times> inode \<times> image) res" where
  "indirect_block fbn din st =
     bnd (rsect (xint (addrs din ! NDIRECT)) st) (\<lambda>(indirect, st).
       if get32 indirect (4 * (fbn - NDIRECT)) = 0 then
         let (a, st) = next_block st; indirect = put32 indirect (4 * (fbn - NDIRECT)) a in
         bnd (wsect (xint (addrs din ! NDIRECT)) indirect st) (\<lambda>st. Ok (xint a, din, st))
       else Ok (xint (get32 indirect (4 * (fbn - NDIRECT))), din, st))"

definition set_block :: "nat \<Rightarrow> inode \<Rightarrow> image \<Rightarrow> inode \<times> image" where
  "set_block j din st =
     (if xint (addrs din ! j) = 0 then let (a, st) = next_block st in (din\<lparr>addrs := (addrs din)[j := a]\<rparr>, st) else (din, st))"

definition iappend_block :: "nat \<Rightarrow> inode \<Rightarrow> image \<Rightarrow> (u32 \<times> inode \<times> image) res" where
  "iappend_block fbn din st =
     (if fbn < NDIRECT then let (din, st) = set_block fbn din st in Ok (xint (addrs din ! fbn), din, st)
      else let (din, st) = set_block NDIRECT din st in indirect_block fbn din st)"

lemma block_end: "pos < (pos div BSIZE + 1) * BSIZE"
  by (metis add.commute dividend_less_div_times mult.commute plus_1_eq_Suc times_nat.simps(2) zero_less_numeral)

text \<open>The loop, at offset \<open>pos\<close> with the bytes \<open>bs\<close> left. The assertion bounds the offset, so that no sum wraps.\<close>

function iappend_loop :: "nat \<Rightarrow> u8 list \<Rightarrow> inode \<Rightarrow> image \<Rightarrow> (nat \<times> inode \<times> image) res" where
  "iappend_loop pos bs din st =
     (if bs = [] then Ok (pos, din, st)
      else let fbn = pos div BSIZE in
        if \<not> fbn < MAXFILE then Err (Panic ''fbn < MAXFILE'')
        else bnd (iappend_block fbn din st) (\<lambda>(x, din, st).
          let n1 = min (length bs) ((fbn + 1) * BSIZE - pos) in
          bnd (rsect x st) (\<lambda>(buf, st).
          bnd (wsect x (overlay (pos - fbn * BSIZE) (take n1 bs) buf) st) (\<lambda>st.
            iappend_loop (pos + n1) (drop n1 bs) din st))))"
  by pat_completeness auto

termination
  by (relation "measure (\<lambda>(pos, bs, _). length bs)") (use block_end in auto)

declare iappend_loop.simps [simp del]

definition iappend :: "u32 \<Rightarrow> u8 list \<Rightarrow> image \<Rightarrow> image res" where
  "iappend i bs st =
     bnd (rinode i st) (\<lambda>(din, st).
     bnd (iappend_loop (unat (xint (isize din))) bs din st) (\<lambda>(pos, din, st).
       winode i (din\<lparr>isize := xint (of_nat pos)\<rparr>) st))"

subsection \<open>The program\<close>

definition put_sb :: "superblock \<Rightarrow> block \<Rightarrow> block" where
  "put_sb s d = fold (\<lambda>(i, v) d. put32 d (4 * i) v) (enumerate 0
     [magic s, sb_size s, nblocks s, ninodes s, nlog s, logstart s, inodestart s, bmapstart s]) d"

definition mkfs_sb :: superblock where
  "mkfs_sb = \<lparr>magic = FSMAGIC, sb_size = xint (of_nat FSSIZE), nblocks = xint (of_nat (FSSIZE - nmeta)),
     ninodes = xint (of_nat NINODES), nlog = xint (of_nat LOGSIZE), logstart = xint 2,
     inodestart = xint (of_nat (2 + LOGSIZE)), bmapstart = xint (of_nat (2 + LOGSIZE + ninodeblocks))\<rparr>"

fun zero_sectors :: "nat list \<Rightarrow> image \<Rightarrow> image res" where
  "zero_sectors [] st = Ok st"
| "zero_sectors (i # is) st = bnd (wsect (of_nat i) (\<lambda>_. 0) st) (zero_sectors is)"

text \<open>\<open>"user/"\<close>, \<open>'/'\<close> and \<open>'_'\<close> are these bytes.\<close>

definition shortname :: "u8 list \<Rightarrow> u8 list" where
  "shortname s = (if take 5 s = [117, 115, 101, 114, 47] then drop 5 s else s)"

definition skip_underscore :: "u8 list \<Rightarrow> u8 list" where
  "skip_underscore s = (if s \<noteq> [] \<and> hd s = 95 then tl s else s)"

text \<open>The bytes of a string or a file, and zeros after them.\<close>

definition zpad :: "u8 list \<Rightarrow> nat \<Rightarrow> u8" where
  "zpad s i = (if i < length s then s ! i else 0)"

fun copy_file :: "u32 \<Rightarrow> u8 list list \<Rightarrow> image \<Rightarrow> image res" where
  "copy_file i [] st = Ok st"
| "copy_file i (buf # reads) st = (if buf = [] then Ok st else bnd (iappend i buf st) (copy_file i reads))"

definition add_file :: "u32 \<Rightarrow> hostfile \<Rightarrow> image \<Rightarrow> image res" where
  "add_file rootino f st =
     (if 47 \<in> set (shortname (fname f)) then Err (Panic ''index(shortname, '/') == 0'')
      else case freads f of
        None \<Rightarrow> Err (Panic ''open'')
      | Some reads \<Rightarrow>
          bnd (mkfs_ialloc T_FILE st) (\<lambda>(i, st).
          bnd (iappend rootino (dirent_bytes (xshort (ucast i)) (zpad (skip_underscore (shortname (fname f))))) st) (\<lambda>st.
            copy_file i reads st)))"

fun add_files :: "u32 \<Rightarrow> hostfile list \<Rightarrow> image \<Rightarrow> image res" where
  "add_files rootino [] st = Ok st"
| "add_files rootino (f # fs) st = bnd (add_file rootino f st) (add_files rootino fs)"

definition fix_root :: "u32 \<Rightarrow> image \<Rightarrow> image res" where
  "fix_root rootino st =
     bnd (rinode rootino st) (\<lambda>(din, st).
       let pos = xint (isize din); pos = of_nat ((unat pos div BSIZE + 1) * BSIZE) in
       winode rootino (din\<lparr>isize := xint pos\<rparr>) st)"

text \<open>\<open>argv\<close> without the name of the program; the image is opened empty. The exit status 0 is \<open>Ok\<close>.\<close>

fun mkfs_main :: "(nat \<Rightarrow> bool) \<Rightarrow> hostfile list \<Rightarrow> image res" where
  "mkfs_main h [] = Err (Panic ''Usage: mkfs fs.img files...'')"
| "mkfs_main h (out # fs) =
     (if freads out = None then Err (Panic ''open'')
      else
        let st = \<lparr>img = (\<lambda>_ _. 0), ilen = 0, host = h, calls = 0, msb = mkfs_sb, freeinode = 1, freeblock = of_nat nmeta\<rparr> in
        bnd (zero_sectors [0..<FSSIZE] st) (\<lambda>st.
        bnd (wsect 1 (put_sb (msb st) (\<lambda>_. 0)) st) (\<lambda>st.
        bnd (mkfs_ialloc T_DIR st) (\<lambda>(rootino, st).
          if rootino \<noteq> ROOTINO then Err (Panic ''rootino == ROOTINO'')
          else
            bnd (iappend rootino (dirent_bytes (xshort (ucast rootino)) (zpad [46])) st) (\<lambda>st.
            bnd (iappend rootino (dirent_bytes (xshort (ucast rootino)) (zpad [46, 46])) st) (\<lambda>st.
            bnd (add_files rootino fs st) (\<lambda>st.
            bnd (fix_root rootino st) (\<lambda>st.
              mkfs_balloc (sint (freeblock st)) st))))))))"

subsection \<open>Single operations\<close>

lemma xint_id [simp]: "xint x = x"
proof -
  have "[ucast x, ucast (drop_bit 8 x), ucast (drop_bit 16 x), ucast (drop_bit 24 x)] = le_bytes 4 x"
    by (simp add: eval_nat_numeral drop_bit_drop_bit del: drop_bit_Suc)
  then show ?thesis by (simp add: xint_def of_le_bytes)
qed

lemma xshort_id [simp]: "xshort x = x"
proof -
  have "[ucast x, ucast (drop_bit 8 x)] = le_bytes 2 x" by (simp add: eval_nat_numeral del: drop_bit_Suc)
  then show ?thesis by (simp add: xshort_def of_le_bytes)
qed

lemma sector_small: "unat sec < 2 ^ 22 \<Longrightarrow> sector sec = unat sec"
  by (simp add: sector_def unat_word_ariths)

text \<open>The parts of the state that matter after the image has its full length.\<close>

definition st_ok :: "image \<Rightarrow> (u32 \<Rightarrow> block) \<Rightarrow> nat \<Rightarrow> nat \<Rightarrow> bool" where
  "st_ok st c fb fi \<longleftrightarrow> img st = c \<and> unat (freeblock st) = fb \<and> unat (freeinode st) = fi \<and> ilen st = FSSIZE \<and>
     msb st = mkfs_sb \<and> (\<forall>n. host st n)"

lemma wsect_ok: "st_ok st c fb fi \<Longrightarrow> unat sec < FSSIZE \<Longrightarrow> \<exists>st'. wsect sec buf st = Ok st' \<and> st_ok st' (c(sec := buf)) fb fi"
  by (auto simp: st_ok_def wsect_def lseek_ok_def sector_small)

lemma rsect_ok: "st_ok st c fb fi \<Longrightarrow> unat sec < FSSIZE \<Longrightarrow> \<exists>st'. rsect sec st = Ok (c sec, st') \<and> st_ok st' c fb fi"
  by (auto simp: st_ok_def rsect_def lseek_ok_def sector_small)

lemma next_block_ok:
  "st_ok st c fb fi \<Longrightarrow> fb < FSSIZE \<Longrightarrow> fst (next_block st) = of_nat fb \<and> st_ok (snd (next_block st)) c (Suc fb) fi"
  by (auto simp: st_ok_def next_block_def unat_word_ariths)

subsection \<open>The blocks of a file that grows\<close>

text \<open>The blocks handed out so far are those from \<open>nmeta\<close> up to \<open>fb\<close>; the ones after them are zero.\<close>

definition given :: "nat \<Rightarrow> u32 \<Rightarrow> bool" where
  "given fb a \<longleftrightarrow> nmeta \<le> unat a \<and> unat a < fb"

definition fresh_zero :: "nat \<Rightarrow> (u32 \<Rightarrow> block) \<Rightarrow> bool" where
  "fresh_zero fb c \<longleftrightarrow> nmeta \<le> fb \<and> (\<forall>a. fb \<le> unat a \<longrightarrow> c a = (\<lambda>_. 0))"

definition blocks_of :: "(u32 \<Rightarrow> block) \<Rightarrow> inode \<Rightarrow> u32 set" where
  "blocks_of c ip = {a. a \<noteq> 0 \<and> (a = addrs ip ! NDIRECT \<or> (\<exists>bn < MAXFILE. a = fblock c ip bn))}"

text \<open>A step of the builder on the file \<open>ip\<close>: its new blocks are fresh, and no other block changes.\<close>

definition grows :: "nat \<Rightarrow> (u32 \<Rightarrow> block) \<Rightarrow> inode \<Rightarrow> nat \<Rightarrow> (u32 \<Rightarrow> block) \<Rightarrow> inode \<Rightarrow> bool" where
  "grows fb c ip fb' c' ip' \<longleftrightarrow> fb \<le> fb' \<and> blocks_of c' ip' \<subseteq> blocks_of c ip \<union> {a. fb \<le> unat a \<and> unat a < fb'} \<and>
     (\<forall>a. unat a < fb \<longrightarrow> a \<notin> blocks_of c ip \<longrightarrow> c' a = c a) \<and> ip'\<lparr>addrs := []\<rparr> = ip\<lparr>addrs := []\<rparr>"

lemma grows_refl: "grows fb c ip fb c ip"
  by (simp add: grows_def)

lemma grows_trans:
  assumes "grows fb c ip fb1 c1 ip1" "grows fb1 c1 ip1 fb2 c2 ip2"
  shows "grows fb c ip fb2 c2 ip2"
proof -
  note g = assms [unfolded grows_def]
  have le: "fb \<le> fb1" "fb1 \<le> fb2" using g by auto
  have "blocks_of c2 ip2 \<subseteq> blocks_of c ip \<union> {a. fb \<le> unat a \<and> unat a < fb2}" using g le by fastforce
  moreover have "c2 x = c x" if "unat x < fb" "x \<notin> blocks_of c ip" for x
  proof -
    have "x \<notin> blocks_of c1 ip1" using that g(1) by auto
    then show ?thesis using that g le by simp
  qed
  ultimately show ?thesis using g le by (simp add: grows_def)
qed

lemma blocks_ok_given:
  assumes "blocks_ok (given fb) f ia"
  shows "blocks_ok (given (Suc fb)) f ia" "bn < MAXFILE \<Longrightarrow> unat (f bn) < fb \<or> f bn = 0" "ia = 0 \<or> unat ia < fb"
  using assms by (auto simp: blocks_ok_def given_def)

lemma new_block:
  assumes bo: "blocks_ok (given fb) (fblock c ip) (addrs ip ! NDIRECT)" and zero: "fresh_zero fb c"
    and room: "fb < FSSIZE" and a: "a = of_nat fb"
  shows "given (Suc fb) a" "a \<noteq> 0" "\<And>bn. bn < MAXFILE \<Longrightarrow> fblock c ip bn \<noteq> a" "addrs ip ! NDIRECT \<noteq> a"
    "\<And>x. x < BSIZE \<Longrightarrow> c a x = 0" "unat a = fb"
proof -
  show u: "unat a = fb" using room by (simp add: a unat_of_nat take_bit_nat_eq_self)
  have m: "nmeta \<le> fb" using zero by (simp add: fresh_zero_def)
  then show "given (Suc fb) a" "a \<noteq> 0" using u by (auto simp: given_def)
  then show "bn < MAXFILE \<Longrightarrow> fblock c ip bn \<noteq> a" "addrs ip ! NDIRECT \<noteq> a" for bn
    using blocks_ok_given(2,3) [OF bo] u by force+
  show "c a x = 0" for x using zero u by (simp add: fresh_zero_def)
qed

text \<open>The next block becomes entry \<open>j\<close> of the inode.\<close>

lemma attach_entry:
  assumes bo: "blocks_ok (given fb) (fblock c ip) (addrs ip ! NDIRECT)" and zero: "fresh_zero fb c" and room: "fb < FSSIZE"
    and a: "a = of_nat fb" and len: "length (addrs ip) = NDIRECT + 1" and j: "j \<le> NDIRECT" "addrs ip ! j = 0"
  defines "ip' \<equiv> ip\<lparr>addrs := (addrs ip)[j := a]\<rparr>"
  shows "blocks_ok (given (Suc fb)) (fblock c ip') (addrs ip' ! NDIRECT)" "fresh_zero (Suc fb) c"
    "x < MAXFILE * BSIZE \<Longrightarrow> fbyte c ip' x = fbyte c ip x"
    "bn < MAXFILE \<Longrightarrow> fblock c ip' bn = (if bn = j \<and> j < NDIRECT then a else fblock c ip bn)"
    "grows fb c ip (Suc fb) c ip'"
proof -
  note n = new_block [OF bo zero room a]
  note at = blocks_attach [OF blocks_ok_given(1) [OF bo] len n(1-5) j, folded ip'_def]
  show "blocks_ok (given (Suc fb)) (fblock c ip') (addrs ip' ! NDIRECT)" using at(1) by simp
  show "fbyte c ip' x = fbyte c ip x" if "x < MAXFILE * BSIZE" for x using at(2) [of x] that by simp
  show fb: "fblock c ip' bn = (if bn = j \<and> j < NDIRECT then a else fblock c ip bn)" if "bn < MAXFILE" for bn
    using at(3) [of bn] that by simp
  show "fresh_zero (Suc fb) c" using zero by (simp add: fresh_zero_def)
  have ia: "addrs ip' ! NDIRECT \<in> {a, addrs ip ! NDIRECT}" using len by (cases "j = NDIRECT") (simp_all add: ip'_def)
  have "blocks_of c ip' \<subseteq> insert a (blocks_of c ip)"
    using ia fb by (auto simp: blocks_of_def split: if_splits)
  then show "grows fb c ip (Suc fb) c ip'" using n(6) by (auto simp: grows_def) (simp add: ip'_def)
qed

text \<open>The next block becomes an entry of the indirect block.\<close>

lemma attach_indirect_entry:
  assumes bo: "blocks_ok (given fb) (fblock c ip) ia" and zero: "fresh_zero fb c" and room: "fb < FSSIZE"
    and a: "a = of_nat fb" and bn: "NDIRECT \<le> bn" "bn < MAXFILE" "fblock c ip bn = 0" and ia: "ia = addrs ip ! NDIRECT" "ia \<noteq> 0"
  defines "c' \<equiv> c(ia := put32 (c ia) (4 * (bn - NDIRECT)) a)"
  shows "blocks_ok (given (Suc fb)) (fblock c' ip) ia" "fresh_zero (Suc fb) c'"
    "x < MAXFILE * BSIZE \<Longrightarrow> fbyte c' ip x = fbyte c ip x" "fblock c' ip m = ((fblock c ip)(bn := a)) m"
    "grows fb c ip (Suc fb) c' ip"
proof -
  note n = new_block [OF bo [unfolded ia(1)] zero room a]
  note at = blocks_attach_indirect [OF blocks_ok_given(1) [OF bo] n(1-5) bn ia, folded c'_def]
  show "blocks_ok (given (Suc fb)) (fblock c' ip) ia" using at(1) by simp
  show "fbyte c' ip x = fbyte c ip x" if "x < MAXFILE * BSIZE" for x using at(2) [of x] that by simp
  show fb: "fblock c' ip m = ((fblock c ip)(bn := a)) m" for m using at(3) [of m] by simp
  have iu: "unat ia < fb" using blocks_ok_given(3) [OF bo] ia by simp
  then show "fresh_zero (Suc fb) c'" using zero by (auto simp: fresh_zero_def c'_def)
  have "blocks_of c' ip \<subseteq> insert a (blocks_of c ip)" by (auto simp: blocks_of_def fb split: if_splits)
  moreover have "ia \<in> blocks_of c ip" using ia by (simp add: blocks_of_def)
  ultimately show "grows fb c ip (Suc fb) c' ip" using n(6) by (auto simp: grows_def c'_def)
qed

text \<open>The number of blocks of a file of \<open>n\<close> bytes, and a file with exactly these blocks.\<close>

definition fsblocks :: "nat \<Rightarrow> nat" where
  "fsblocks n = (n + (BSIZE - 1)) div BSIZE + (if NDIRECT * BSIZE < n then 1 else 0)"

lemma split_pos: obtains q r where "n = BSIZE * q + r" "r < BSIZE" "n div BSIZE = q" "n mod BSIZE = r"
  using that [of "n div BSIZE" "n mod BSIZE"] by simp

lemma ceil_div: "(BSIZE * q + r + (BSIZE - 1)) div BSIZE = (if r = 0 then q else q + 1)" if "r \<le> BSIZE"
  using that by (cases "r = 0") (auto intro!: div_nat_eqI)

lemma fsblocks_split: "r \<le> BSIZE \<Longrightarrow> fsblocks (BSIZE * q + r) =
    (if r = 0 then q else q + 1) + (if NDIRECT < q \<or> q = NDIRECT \<and> 0 < r then 1 else 0)"
  by (simp only: fsblocks_def ceil_div) auto

lemma fsblocks_within:
  assumes "1 \<le> k" "n + k \<le> (n div BSIZE + 1) * BSIZE"
  shows "fsblocks (n + k) = fsblocks (n + 1)"
proof (rule split_pos [of n])
  fix q r assume n: "n = BSIZE * q + r" "r < BSIZE" "n div BSIZE = q"
  have "n + k = BSIZE * q + (r + k)" "n + 1 = BSIZE * q + (r + 1)" "r + k \<le> BSIZE" using n assms(2) by simp_all
  then show ?thesis using assms(1) n(2) by (simp only: fsblocks_split) simp
qed

lemma fsblocks_step:
  "fsblocks (n + 1) = (if n mod BSIZE \<noteq> 0 then fsblocks n else if n div BSIZE = NDIRECT then fsblocks n + 2 else fsblocks n + 1)"
proof (rule split_pos [of n])
  fix q r assume n: "n = BSIZE * q + r" "r < BSIZE" "n div BSIZE = q" "n mod BSIZE = r"
  have "n + 1 = BSIZE * q + (r + 1)" using n by simp
  then show ?thesis unfolding n(3,4) using fsblocks_split [of r q] fsblocks_split [of "r + 1" q] n(1,2) by auto
qed

definition grown :: "nat \<Rightarrow> (u32 \<Rightarrow> block) \<Rightarrow> inode \<Rightarrow> nat \<Rightarrow> bool" where
  "grown fb c ip n \<longleftrightarrow> length (addrs ip) = NDIRECT + 1 \<and> blocks_ok (given fb) (fblock c ip) (addrs ip ! NDIRECT) \<and>
     (\<forall>bn < MAXFILE. fblock c ip bn \<noteq> 0 \<longleftrightarrow> bn * BSIZE < n) \<and> (addrs ip ! NDIRECT \<noteq> 0 \<longleftrightarrow> NDIRECT * BSIZE < n)"

lemma grownD:
  assumes "grown fb c ip n"
  shows "length (addrs ip) = NDIRECT + 1" "blocks_ok (given fb) (fblock c ip) (addrs ip ! NDIRECT)"
    "bn < MAXFILE \<Longrightarrow> fblock c ip bn \<noteq> 0 \<longleftrightarrow> bn * BSIZE < n" "addrs ip ! NDIRECT \<noteq> 0 \<longleftrightarrow> NDIRECT * BSIZE < n"
  using assms unfolding grown_def by blast+

text \<open>The result of an allocation for the byte at \<open>n\<close>.\<close>

definition allocates ::
    "nat \<Rightarrow> nat \<Rightarrow> nat \<Rightarrow> (u32 \<Rightarrow> block) \<Rightarrow> inode \<Rightarrow> (u32 \<times> inode \<times> image) res \<Rightarrow> bool" where
  "allocates n fi fb c ip r \<longleftrightarrow> (\<exists>x ip' st' c' fb'. r = Ok (x, ip', st') \<and> st_ok st' c' fb' fi \<and>
     fb' + fsblocks n = fb + fsblocks (n + 1) \<and> grown fb' c' ip' (n + 1) \<and> fresh_zero fb' c' \<and> fblock c' ip' (n div BSIZE) = x \<and>
     (\<forall>y < MAXFILE * BSIZE. fbyte c' ip' y = fbyte c ip y) \<and> grows fb c ip fb' c' ip')"

lemma allocatesI:
  assumes "r = Ok (x, ip', st')" "st_ok st' c' fb' fi" "fb' + fsblocks n = fb + fsblocks (n + 1)" "grown fb' c' ip' (n + 1)"
    "fresh_zero fb' c'" "fblock c' ip' (n div BSIZE) = x" "\<And>y. y < MAXFILE * BSIZE \<Longrightarrow> fbyte c' ip' y = fbyte c ip y"
    "grows fb c ip fb' c' ip'"
  shows "allocates n fi fb c ip r"
  unfolding allocates_def using assms by blast

lemma mult_less_Suc: "bn * BSIZE < n + 1 \<longleftrightarrow> bn * BSIZE < n \<or> n mod BSIZE = 0 \<and> bn = n div BSIZE"
proof -
  have "bn * BSIZE = n \<longleftrightarrow> n mod BSIZE = 0 \<and> bn = n div BSIZE" by auto
  then show ?thesis by linarith
qed

lemma indirect_block_new:
  assumes st: "st_ok st c fb fi" and len: "length (addrs ip) = NDIRECT + 1"
    and bo: "blocks_ok (given fb) (fblock c ip) (addrs ip ! NDIRECT)" and z: "fresh_zero fb c" and room: "fb < FSSIZE"
    and bn: "NDIRECT \<le> bn" "bn < MAXFILE" "fblock c ip bn = 0" and ia: "addrs ip ! NDIRECT \<noteq> 0"
  shows "\<exists>x st' c'. indirect_block bn ip st = Ok (x, ip, st') \<and> st_ok st' c' (Suc fb) fi \<and> fresh_zero (Suc fb) c' \<and>
    blocks_ok (given (Suc fb)) (fblock c' ip) (addrs ip ! NDIRECT) \<and> (\<forall>y < MAXFILE * BSIZE. fbyte c' ip y = fbyte c ip y) \<and>
    (\<forall>m. fblock c' ip m = ((fblock c ip)(bn := x)) m) \<and> x \<noteq> 0 \<and> grows fb c ip (Suc fb) c' ip"
proof -
  let ?ia = "addrs ip ! NDIRECT" and ?a = "of_nat fb :: u32"
  define c' where "c' = c(?ia := put32 (c ?ia) (4 * (bn - NDIRECT)) ?a)"
  note at = attach_indirect_entry [OF bo z room refl bn refl ia, folded c'_def]
  have u: "unat ?ia < FSSIZE" using blocks_ok_given(3) [OF bo] ia room by simp
  obtain s1 where s1: "rsect ?ia st = Ok (c ?ia, s1)" "st_ok s1 c fb fi" using rsect_ok [OF st u] by blast
  obtain a s2 where s2: "next_block s1 = (a, s2)" "a = ?a" "st_ok s2 c (Suc fb) fi"
    using next_block_ok [OF s1(2) room] by (cases "next_block s1") auto
  obtain s3 where s3: "wsect ?ia (put32 (c ?ia) (4 * (bn - NDIRECT)) ?a) s2 = Ok s3" "st_ok s3 c' (Suc fb) fi"
    using wsect_ok [OF s2(3) u] by (auto simp: c'_def)
  have "get32 (c ?ia) (4 * (bn - NDIRECT)) = 0" using bn ia by (simp add: fblock_def)
  then have "indirect_block bn ip st = Ok (?a, ip, s3)" using s1 s2 s3 by (simp add: indirect_block_def)
  moreover have "?a \<noteq> 0" using new_block(2) [OF bo z room refl] .
  ultimately show ?thesis using s3(2) at by blast
qed

lemma set_block_old: "addrs ip ! j \<noteq> 0 \<Longrightarrow> set_block j ip st = (ip, st)"
  by (simp add: set_block_def)

lemma set_block_new:
  assumes "st_ok st c fb fi" "fb < FSSIZE" "addrs ip ! j = 0"
  shows "\<exists>st'. set_block j ip st = (ip\<lparr>addrs := (addrs ip)[j := of_nat fb]\<rparr>, st') \<and> st_ok st' c (Suc fb) fi"
  using next_block_ok [OF assms(1,2)] assms(3) by (auto simp: set_block_def Let_def split: prod.splits)

lemma iappend_block_old:
  assumes st: "st_ok st c fb fi" and g: "grown fb c ip n" and z: "fresh_zero fb c" and n: "n div BSIZE < MAXFILE" "n mod BSIZE \<noteq> 0"
    and fb: "fb \<le> FSSIZE"
  shows "allocates n fi fb c ip (iappend_block (n div BSIZE) ip st)"
proof -
  let ?bn = "n div BSIZE" and ?ia = "addrs ip ! NDIRECT"
  note bo = grownD(2) [OF g]
  have lt: "?bn * BSIZE < n" using n(2) div_mult_mod_eq [of n BSIZE] by linarith
  then have x: "fblock c ip ?bn \<noteq> 0" using grownD(3) [OF g n(1)] by simp
  have ia: "?ia \<noteq> 0" if "NDIRECT \<le> ?bn" using that lt mult_le_mono1 [of NDIRECT ?bn BSIZE] grownD(4) [OF g] by linarith
  have ok: "\<exists>st'. iappend_block ?bn ip st = Ok (fblock c ip ?bn, ip, st') \<and> st_ok st' c fb fi"
  proof (cases "?bn < NDIRECT")
    case True
    with x st show ?thesis by (auto simp: iappend_block_def set_block_old fblock_def)
  next
    case False
    then have "unat ?ia < FSSIZE" using ia blocks_ok_given(3) [OF bo] fb by force
    then obtain s1 where "rsect ?ia st = Ok (c ?ia, s1)" "st_ok s1 c fb fi" using rsect_ok [OF st] by blast
    with False x ia show ?thesis by (auto simp: iappend_block_def set_block_old indirect_block_def fblock_def split: if_splits)
  qed
  have "grown fb c ip (n + 1)" using g n(2) by (simp only: grown_def mult_less_Suc) simp
  moreover have "fb + fsblocks n = fb + fsblocks (n + 1)" using n(2) fsblocks_step [of n] by simp
  ultimately show ?thesis using ok z grows_refl allocatesI by blast
qed

lemma grown_new:
  assumes g: "grown fb c ip n" and n: "n mod BSIZE = 0" and bo: "blocks_ok (given fb') (fblock c' ip') (addrs ip' ! NDIRECT)"
    and len: "length (addrs ip') = NDIRECT + 1"
    and f: "\<And>m. m < MAXFILE \<Longrightarrow> fblock c' ip' m = ((fblock c ip)(n div BSIZE := x)) m" "x \<noteq> 0"
    and ia: "addrs ip' ! NDIRECT = 0 \<longleftrightarrow> addrs ip ! NDIRECT = 0 \<and> n div BSIZE \<noteq> NDIRECT"
  shows "grown fb' c' ip' (n + 1)"
  using assms unfolding grown_def mult_less_Suc by auto

lemma iappend_block_new_direct:
  assumes st: "st_ok st c fb fi" and g: "grown fb c ip n" and z: "fresh_zero fb c" and n: "n div BSIZE < NDIRECT" "n mod BSIZE = 0"
    and room: "fb < FSSIZE"
  shows "allocates n fi fb c ip (iappend_block (n div BSIZE) ip st)"
proof -
  let ?bn = "n div BSIZE"
  note len = grownD(1) [OF g] and bo = grownD(2) [OF g]
  have "?bn * BSIZE = n" using n(2) by auto
  then have "fblock c ip ?bn = 0" using grownD(3) [OF g, of ?bn] n(1) by simp
  then have e: "addrs ip ! ?bn = 0" using n(1) by (simp add: fblock_def)
  define ip' where "ip' = ip\<lparr>addrs := (addrs ip)[?bn := of_nat fb]\<rparr>"
  note at = attach_entry [OF bo z room refl len _ e, folded ip'_def]
  have at3: "\<forall>y < MAXFILE * BSIZE. fbyte c ip' y = fbyte c ip y"
    and at4: "\<And>m. m < MAXFILE \<Longrightarrow> fblock c ip' m = ((fblock c ip)(?bn := of_nat fb)) m" using at(3,4) n(1) by auto
  obtain st' where s: "set_block ?bn ip st = (ip', st')" "st_ok st' c (Suc fb) fi"
    using set_block_new [OF st room e] by (auto simp: ip'_def)
  show ?thesis
  proof (rule allocatesI)
    show "iappend_block ?bn ip st = Ok (of_nat fb, ip', st')" using s(1) n(1) len by (simp add: iappend_block_def ip'_def)
    show "grown (Suc fb) c ip' (n + 1)"
      by (rule grown_new [OF g n(2) at(1) _ at4]) (use n(1) len new_block(2) [OF bo z room refl] in \<open>simp_all add: ip'_def\<close>)
    show "Suc fb + fsblocks n = fb + fsblocks (n + 1)" using n fsblocks_step [of n] by simp
    show "fblock c ip' ?bn = of_nat fb" using at4 [of ?bn] n(1) by simp
  qed (use s(2) at(2,5) at3 n(1) in auto)
qed

lemma iappend_block_new_indirect:
  assumes st: "st_ok st c fb fi" and g: "grown fb c ip n" and z: "fresh_zero fb c"
    and n: "NDIRECT \<le> n div BSIZE" "n div BSIZE < MAXFILE" "n mod BSIZE = 0"
    and room: "fb + fsblocks (n + 1) \<le> FSSIZE + fsblocks n"
  shows "allocates n fi fb c ip (iappend_block (n div BSIZE) ip st)"
proof -
  let ?bn = "n div BSIZE"
  note len = grownD(1) [OF g] and bo = grownD(2) [OF g]
  have e: "?bn * BSIZE = n" using n(3) by auto
  then have f0: "fblock c ip ?bn = 0" using grownD(3) [OF g n(2)] by simp
  have ia0: "addrs ip ! NDIRECT = 0 \<longleftrightarrow> ?bn = NDIRECT"
    using grownD(4) [OF g] e n(1) mult_less_cancel2 [of NDIRECT BSIZE ?bn] by (auto simp: le_less)
  have r: "fsblocks (n + 1) = (if ?bn = NDIRECT then fsblocks n + 2 else fsblocks n + 1)" using n(3) fsblocks_step [of n] by simp
  obtain ip1 s1 fb1 where s1: "set_block NDIRECT ip st = (ip1, s1)" "st_ok s1 c fb1 fi" "fresh_zero fb1 c" "grows fb c ip fb1 c ip1"
    "blocks_ok (given fb1) (fblock c ip1) (addrs ip1 ! NDIRECT)" "addrs ip1 ! NDIRECT \<noteq> 0" "length (addrs ip1) = NDIRECT + 1"
    "fb1 + 1 + fsblocks n = fb + fsblocks (n + 1)" "\<forall>y < MAXFILE * BSIZE. fbyte c ip1 y = fbyte c ip y"
    "\<forall>m < MAXFILE. fblock c ip1 m = fblock c ip m"
  proof (cases "?bn = NDIRECT")
    case True
    have lt: "fb < FSSIZE" using room r True by simp
    have i0: "addrs ip ! NDIRECT = 0" using ia0 True by simp
    note at = attach_entry [OF bo z lt refl len order_refl i0]
    obtain st' where s: "set_block NDIRECT ip st = (ip\<lparr>addrs := (addrs ip)[NDIRECT := of_nat fb]\<rparr>, st')" "st_ok st' c (Suc fb) fi"
      using set_block_new [OF st lt i0] by blast
    show ?thesis
      by (rule that [OF s at(2,5,1)]) (use len new_block(2) [OF bo z lt refl] at(3,4) r True in auto)
  next
    case False
    show ?thesis
      by (rule that [of ip st fb]) (use False ia0 st z bo len r grows_refl in \<open>auto simp: set_block_old\<close>)
  qed
  have lt: "fb1 < FSSIZE" using room s1(8) by simp
  have "fblock c ip1 ?bn = 0" using s1(10) n(2) f0 by simp
  from indirect_block_new [OF s1(2,7,5,3) lt n(1,2) this s1(6)]
  obtain x st' c' where x: "indirect_block ?bn ip1 s1 = Ok (x, ip1, st')" "st_ok st' c' (Suc fb1) fi" "fresh_zero (Suc fb1) c'"
    "blocks_ok (given (Suc fb1)) (fblock c' ip1) (addrs ip1 ! NDIRECT)" "\<forall>y < MAXFILE * BSIZE. fbyte c' ip1 y = fbyte c ip1 y"
    "\<forall>m. fblock c' ip1 m = ((fblock c ip1)(?bn := x)) m" "x \<noteq> 0" "grows fb1 c ip1 (Suc fb1) c' ip1" by blast
  show ?thesis
  proof (rule allocatesI)
    show "iappend_block ?bn ip st = Ok (x, ip1, st')" using s1(1) n(1) x(1) by (simp add: iappend_block_def)
    show "grown (Suc fb1) c' ip1 (n + 1)"
      by (rule grown_new [OF g n(3) x(4) s1(7), of x]) (use x(6,7) s1(6,10) ia0 in auto)
    show "grows fb c ip (Suc fb1) c' ip1" by (rule grows_trans [OF s1(4) x(8)])
  qed (use x s1(8,9) in auto)
qed

lemma iappend_block_ok:
  assumes "st_ok st c fb fi" "grown fb c ip n" "fresh_zero fb c" "n div BSIZE < MAXFILE"
    and "fb + fsblocks (n + 1) \<le> FSSIZE + fsblocks n"
  shows "allocates n fi fb c ip (iappend_block (n div BSIZE) ip st)"
proof (cases "n mod BSIZE = 0")
  case True
  with assms fsblocks_step [of n] show ?thesis
    by (cases "n div BSIZE < NDIRECT") (auto intro: iappend_block_new_direct iappend_block_new_indirect)
next
  case False
  with assms fsblocks_step [of n] show ?thesis by (auto intro: iappend_block_old)
qed

subsection \<open>Appending\<close>

lemma fsblocks_mono: "m \<le> n \<Longrightarrow> fsblocks m \<le> fsblocks n"
  unfolding fsblocks_def by (intro add_mono div_le_mono) auto

lemma mult_less_within: "1 \<le> k \<Longrightarrow> n + k \<le> (n div BSIZE + 1) * BSIZE \<Longrightarrow> m * BSIZE < n + k \<longleftrightarrow> m * BSIZE < n + 1"
proof -
  assume k: "1 \<le> k" "n + k \<le> (n div BSIZE + 1) * BSIZE"
  have "m \<le> n div BSIZE" if "m * BSIZE < n + k"
  proof -
    have "m * BSIZE < (n div BSIZE + 1) * BSIZE" using that k(2) by linarith
    then show ?thesis using mult_less_cancel2 [of m BSIZE "n div BSIZE + 1"] by simp
  qed
  moreover have "m * BSIZE \<le> n" if "m \<le> n div BSIZE"
    using mult_le_mono1 [OF that, of BSIZE] div_times_less_eq_dividend [of n BSIZE] by linarith
  ultimately show ?thesis using k(1) by force
qed

text \<open>One round of the loop after its block is known.\<close>

lemma write_chunk:
  assumes g: "grown fb c ip (n + 1)" and z: "fresh_zero fb c" and x: "fblock c ip (n div BSIZE) = x"
    and bn: "n div BSIZE < MAXFILE" and k: "1 \<le> length bs" "n + length bs \<le> (n div BSIZE + 1) * BSIZE"
  defines "c' \<equiv> c(x := overlay (n mod BSIZE) bs (c x))"
  shows "unat x < fb" "grown fb c' ip (n + length bs)" "fresh_zero fb c'" "grows fb c ip fb c' ip"
    "y < MAXFILE * BSIZE \<Longrightarrow> fbyte c' ip y = put_at n bs (fbyte c ip) y"
proof -
  note bo = grownD(2) [OF g]
  have "n div BSIZE * BSIZE < n + 1" using div_times_less_eq_dividend [of n BSIZE] by linarith
  then have x0: "x \<noteq> 0" using grownD(3) [OF g bn] x by simp
  note w = blocks_write [OF bo bn x x0 c'_def [THEN meta_eq_to_obj_eq]]
  show lt: "unat x < fb" using w(2) by (simp add: given_def)
  show "fresh_zero fb c'" using z lt by (auto simp: fresh_zero_def c'_def)
  have fb: "fblock c' ip = fblock c ip" using w(1) by blast
  show "grown fb c' ip (n + length bs)" unfolding grown_def fb mult_less_within [OF k] using g unfolding grown_def .
  have "x \<in> blocks_of c ip" using x x0 bn by (auto simp: blocks_of_def)
  then have "c' a = c a" if "a \<notin> blocks_of c ip" for a using that by (auto simp: c'_def)
  moreover have "blocks_of c' ip = blocks_of c ip" by (simp add: blocks_of_def fb)
  ultimately show "grows fb c ip fb c' ip" by (simp add: grows_def)
  have "(n div BSIZE + 1) * BSIZE = n div BSIZE * BSIZE + BSIZE" by simp
  then have "n mod BSIZE + length bs \<le> BSIZE" using k(2) div_mult_mod_eq [of n BSIZE] by linarith
  then show "fbyte c' ip y = put_at n bs (fbyte c ip) y" if "y < MAXFILE * BSIZE"
    using w(4) [OF that] overlay_put_at [OF x x0, of bs y] by simp
qed

lemma iappend_loop_ok:
  assumes "st_ok st c fb fi" "grown fb c ip n" "fresh_zero fb c" "n + length bs \<le> MAXFILE * BSIZE"
    and "fb + fsblocks (n + length bs) \<le> FSSIZE + fsblocks n"
  shows "\<exists>ip' st' c' fb'. iappend_loop n bs ip st = Ok (n + length bs, ip', st') \<and> st_ok st' c' fb' fi \<and>
    fb' + fsblocks n = fb + fsblocks (n + length bs) \<and> grown fb' c' ip' (n + length bs) \<and> fresh_zero fb' c' \<and>
    (\<forall>y < MAXFILE * BSIZE. fbyte c' ip' y = put_at n bs (fbyte c ip) y) \<and> grows fb c ip fb' c' ip'"
  using assms
proof (induction "length bs" arbitrary: n bs ip st c fb rule: less_induct)
  case less
  show ?case
  proof (cases "bs = []")
    case True
    then show ?thesis using less.prems grows_refl by (auto simp: put_at_def iappend_loop.simps [of n "[]"])
  next
    case False
    define k where "k = min (length bs) ((n div BSIZE + 1) * BSIZE - n)"
    have k: "1 \<le> k" "k \<le> length bs" "n + k \<le> (n div BSIZE + 1) * BSIZE"
      using False block_end [of n] by (auto simp: k_def simp flip: length_greater_0_conv)
    have lk: "length (take k bs) = k" using k(2) by simp
    have "n < MAXFILE * BSIZE" using less.prems(4) k(1,2) by linarith
    then have bn: "n div BSIZE < MAXFILE" by (rule less_mult_imp_div_less)
    have "fsblocks (n + 1) \<le> fsblocks (n + length bs)" using k by (intro fsblocks_mono) simp
    then have room: "fb + fsblocks (n + 1) \<le> FSSIZE + fsblocks n" using less.prems(5) by linarith
    from iappend_block_ok [OF less.prems(1-3) bn room] obtain x ip1 s1 c1 fb1 where
      b: "iappend_block (n div BSIZE) ip st = Ok (x, ip1, s1)" "st_ok s1 c1 fb1 fi" "fb1 + fsblocks n = fb + fsblocks (n + 1)"
        "grown fb1 c1 ip1 (n + 1)" "fresh_zero fb1 c1" "fblock c1 ip1 (n div BSIZE) = x"
        "\<forall>y < MAXFILE * BSIZE. fbyte c1 ip1 y = fbyte c ip y" "grows fb c ip fb1 c1 ip1"
      unfolding allocates_def by blast
    note w = write_chunk [OF b(4-6) bn, of "take k bs", unfolded lk, OF k(1,3)]
    let ?c2 = "c1(x := overlay (n mod BSIZE) (take k bs) (c1 x))"
    have x: "unat x < FSSIZE" using w(1) b(3) room by linarith
    obtain s2 where s2: "rsect x s1 = Ok (c1 x, s2)" "st_ok s2 c1 fb1 fi" using rsect_ok [OF b(2) x] by blast
    obtain s3 where s3: "wsect x (overlay (n mod BSIZE) (take k bs) (c1 x)) s2 = Ok s3" "st_ok s3 ?c2 fb1 fi"
      using wsect_ok [OF s2(2) x] by blast
    have e: "n + k + length (drop k bs) = n + length bs" using k(2) by simp
    have fk: "fsblocks (n + k) = fsblocks (n + 1)" by (rule fsblocks_within [OF k(1,3)])
    have "\<exists>ip' st' c' fb'. iappend_loop (n + k) (drop k bs) ip1 s3 = Ok (n + length bs, ip', st') \<and> st_ok st' c' fb' fi \<and>
      fb' + fsblocks (n + k) = fb1 + fsblocks (n + length bs) \<and> grown fb' c' ip' (n + length bs) \<and> fresh_zero fb' c' \<and>
      (\<forall>y < MAXFILE * BSIZE. fbyte c' ip' y = put_at (n + k) (drop k bs) (fbyte ?c2 ip1) y) \<and> grows fb1 ?c2 ip1 fb' c' ip'"
      using less.hyps [OF _ s3(2) w(2,3), of "drop k bs", unfolded e] k(1,2) less.prems(4,5) b(3) fk by simp
    then obtain ip' st' c' fb' where r: "iappend_loop (n + k) (drop k bs) ip1 s3 = Ok (n + length bs, ip', st')" "st_ok st' c' fb' fi"
      "fb' + fsblocks (n + k) = fb1 + fsblocks (n + length bs)" "grown fb' c' ip' (n + length bs)" "fresh_zero fb' c'"
      "\<forall>y < MAXFILE * BSIZE. fbyte c' ip' y = put_at (n + k) (drop k bs) (fbyte ?c2 ip1) y" "grows fb1 ?c2 ip1 fb' c' ip'"
      by blast
    have k': "min (length bs) (BSIZE + n div BSIZE * BSIZE - n) = k" by (simp add: k_def)
    have "iappend_loop n bs ip st = Ok (n + length bs, ip', st')"
      using False bn b(1) s2(1) s3(1) r(1) by (subst iappend_loop.simps) (simp add: k' minus_div_mult_eq_mod Let_def)
    moreover have "fb' + fsblocks n = fb + fsblocks (n + length bs)" using r(3) b(3) fk by linarith
    moreover have "fbyte c' ip' y = put_at n bs (fbyte c ip) y" if "y < MAXFILE * BSIZE" for y
    proof -
      have "put_at n (take k bs) (fbyte c1 ip1) y = put_at n (take k bs) (fbyte c ip) y" using b(7) that by (simp add: put_at_def)
      then have "fbyte c' ip' y = put_at (n + k) (drop k bs) (put_at n (take k bs) (fbyte c ip)) y"
        using r(6) w(5) [OF that] that by (simp add: put_at_def)
      then show ?thesis by (simp only: put_at_glue [OF k(2)])
    qed
    ultimately show ?thesis using r(2,4,5) grows_trans [OF grows_trans [OF b(8) w(4)] r(7)] by blast
  qed
qed

subsection \<open>Inodes of the image\<close>

lemma fold_put32_above: "b + 4 * n \<le> j \<Longrightarrow> fold (\<lambda>i d. put32 d (b + 4 * i) (xs ! i)) [0..<n] d j = d j"
  by (induction n) (auto simp: put32_other)

lemma put_dinode_other: "j < k \<or> k + 64 \<le> j \<Longrightarrow> put_dinode k ip d j = d j"
proof (cases "j < k")
  case True
  then show ?thesis unfolding put_dinode_def by (subst fold_put32_below) (auto simp: put16_other put32_other)
next
  case False
  assume "j < k \<or> k + 64 \<le> j"
  with False show ?thesis unfolding put_dinode_def by (subst fold_put32_above) (auto simp: put16_other put32_other)
qed

lemma get_dinode_cong:
  assumes "\<And>j. k \<le> j \<Longrightarrow> j < k + 64 \<Longrightarrow> d j = e j"
  shows "get_dinode k d ip = get_dinode k e ip"
proof -
  have g: "get16 d j = get16 e j" if "k \<le> j" "j + 2 \<le> k + 64" for j using that by (intro get16_cong assms) auto
  have "get32 d j = get32 e j" if "k \<le> j" "j + 4 \<le> k + 64" for j using that g by (simp add: get32_def)
  with g show ?thesis by (auto simp: get_dinode_def)
qed

lemma mkfs_sb_simps [simp]:
  "magic mkfs_sb = FSMAGIC" "sb_size mkfs_sb = 2000" "ninodes mkfs_sb = 200" "inodestart mkfs_sb = 32" "bmapstart mkfs_sb = 45"
  "logstart mkfs_sb = 2" "nlog mkfs_sb = 30"
  by (simp_all add: mkfs_sb_def)

lemma unat_IBLOCK: "unat i < NINODES \<Longrightarrow> unat (IBLOCK i mkfs_sb) = unat i div IPB + 32"
  by (simp add: IBLOCK_def unat_word_ariths unat_of_nat take_bit_nat_eq_self)

lemma IBLOCK_range: "unat i < NINODES \<Longrightarrow> 32 \<le> unat (IBLOCK i mkfs_sb) \<and> unat (IBLOCK i mkfs_sb) < 45"
  by (simp add: unat_IBLOCK)

definition disk_inode :: "(u32 \<Rightarrow> block) \<Rightarrow> u32 \<Rightarrow> inode" where
  "disk_inode c i = get_dinode (dinode_off i) (c (IBLOCK i mkfs_sb)) zero_inode"

definition store_inode :: "(u32 \<Rightarrow> block) \<Rightarrow> u32 \<Rightarrow> inode \<Rightarrow> u32 \<Rightarrow> block" where
  "store_inode c i ip = c(IBLOCK i mkfs_sb := put_dinode (dinode_off i) ip (c (IBLOCK i mkfs_sb)))"

lemma disk_inode_store:
  assumes "unat i < NINODES" "unat j < NINODES" "length (addrs ip) = NDIRECT + 1"
  shows "disk_inode (store_inode c i ip) j = (if j = i then zero_inode\<lparr>itype := itype ip, major := major ip, minor := minor ip,
    nlink := nlink ip, isize := isize ip, addrs := addrs ip\<rparr> else disk_inode c j)"
proof (cases "IBLOCK j mkfs_sb = IBLOCK i mkfs_sb \<and> j \<noteq> i")
  case True
  then have "unat j div IPB = unat i div IPB" using unat_IBLOCK assms(1,2) by (metis add_right_cancel)
  then have "unat j mod IPB \<noteq> unat i mod IPB" using True by (metis div_mult_mod_eq word_unat_eq_iff)
  then have "dinode_off j + 64 \<le> dinode_off i \<or> dinode_off i + 64 \<le> dinode_off j" unfolding dinode_off_def by linarith
  then have "get_dinode (dinode_off j) (put_dinode (dinode_off i) ip d) zero_inode = get_dinode (dinode_off j) d zero_inode" for d
    by (intro get_dinode_cong put_dinode_other) linarith
  then show ?thesis using True by (simp add: disk_inode_def store_inode_def)
next
  case False
  then show ?thesis using get_put_dinode [OF assms(3)] by (auto simp: disk_inode_def store_inode_def)
qed

lemma rinode_ok:
  assumes "st_ok st c fb fi" "unat i < NINODES"
  shows "\<exists>st'. rinode i st = Ok (disk_inode c i, st') \<and> st_ok st' c fb fi"
proof -
  have "msb st = mkfs_sb" "unat (IBLOCK i mkfs_sb) < FSSIZE" using assms IBLOCK_range [of i] by (auto simp: st_ok_def)
  then show ?thesis using rsect_ok [OF assms(1), of "IBLOCK i mkfs_sb"] by (auto simp: rinode_def disk_inode_def)
qed

lemma winode_ok:
  assumes "st_ok st c fb fi" "unat i < NINODES"
  shows "\<exists>st'. winode i ip st = Ok st' \<and> st_ok st' (store_inode c i ip) fb fi"
proof -
  let ?b = "IBLOCK i mkfs_sb"
  have m: "msb st = mkfs_sb" and b: "unat ?b < FSSIZE" using assms IBLOCK_range [of i] by (auto simp: st_ok_def)
  obtain s1 where s1: "rsect ?b st = Ok (c ?b, s1)" "st_ok s1 c fb fi" using rsect_ok [OF assms(1) b] by blast
  then show ?thesis using wsect_ok [OF s1(2) b] m by (auto simp: winode_def store_inode_def Let_def)
qed

subsection \<open>The image while it grows\<close>

lemma same_addrs:
  assumes "addrs ip = addrs ip'"
  shows "fblock c ip = fblock c ip'" "fbyte c ip = fbyte c ip'" "blocks_of c ip = blocks_of c ip'" "grown fb c ip n = grown fb c ip' n"
proof -
  show f: "fblock c ip = fblock c ip'" using assms by (simp add: fblock_def fun_eq_iff)
  show "fbyte c ip = fbyte c ip'" by (rule ext) (simp add: fbyte_def f)
  show "blocks_of c ip = blocks_of c ip'" "grown fb c ip n = grown fb c ip' n" using assms f by (simp_all add: blocks_of_def grown_def)
qed

lemma same_blocks:
  assumes "\<And>a. a \<in> blocks_of c ip \<Longrightarrow> c' a = c a"
  shows "bn < MAXFILE \<Longrightarrow> fblock c' ip bn = fblock c ip bn" "y < MAXFILE * BSIZE \<Longrightarrow> fbyte c' ip y = fbyte c ip y"
    "blocks_of c' ip = blocks_of c ip" "fb \<le> fb' \<Longrightarrow> grown fb c ip n \<Longrightarrow> grown fb' c' ip n"
proof -
  have ia: "addrs ip ! NDIRECT \<noteq> 0 \<Longrightarrow> c' (addrs ip ! NDIRECT) = c (addrs ip ! NDIRECT)"
    using assms by (simp add: blocks_of_def)
  then have f: "fblock c' ip bn = fblock c ip bn" for bn by (simp add: fblock_def)
  then show "fblock c' ip bn = fblock c ip bn" .
  show "fbyte c' ip y = fbyte c ip y" if "y < MAXFILE * BSIZE"
  proof (cases "fblock c ip (y div BSIZE) = 0")
    case False
    moreover have "y div BSIZE < MAXFILE" using that by (rule less_mult_imp_div_less)
    ultimately have "fblock c ip (y div BSIZE) \<in> blocks_of c ip" by (auto simp: blocks_of_def)
    then show ?thesis by (simp add: fbyte_def f assms)
  qed (simp add: fbyte_def f)
  show "blocks_of c' ip = blocks_of c ip" by (simp add: blocks_of_def f)
  show "grown fb' c' ip n" if "fb \<le> fb'" "grown fb c ip n"
  proof -
    have "given fb a \<Longrightarrow> given fb' a" for a using that(1) by (simp add: given_def)
    then have "blocks_ok (given fb') (fblock c' ip) (addrs ip ! NDIRECT)" using blocks_ok_mono [OF grownD(2) [OF that(2)]] f by blast
    then show ?thesis using that(2) by (simp only: grown_def f) blast
  qed
qed

text \<open>Inode \<open>i\<close> of the image stands for a file of type \<open>ty\<close> with the bytes \<open>bs\<close>.\<close>

definition has_file :: "nat \<Rightarrow> (u32 \<Rightarrow> block) \<Rightarrow> u32 \<Rightarrow> u16 \<times> u8 list \<Rightarrow> bool" where
  "has_file fb c i f \<longleftrightarrow> (let ip = disk_inode c i; n = length (snd f) in
     grown fb c ip n \<and> itype ip = fst f \<and> nlink ip = 1 \<and> n \<le> MAXFILE * BSIZE \<and> isize ip = of_nat n \<and>
     (\<forall>y < MAXFILE * BSIZE. fbyte c ip y = zpad (snd f) y))"

definition ino :: "nat \<Rightarrow> u32" where
  "ino k = of_nat (Suc k)"

lemma unat_fssize: "m \<le> FSSIZE \<Longrightarrow> unat (of_nat m :: u32) = m"
  by (rule of_nat_inverse [OF refl]) simp

lemma unat_ino: "k < NINODES \<Longrightarrow> unat (ino k) = Suc k"
  unfolding ino_def by (rule unat_fssize) linarith

lemma ino_eq: "k < NINODES \<Longrightarrow> j < NINODES \<Longrightarrow> ino k = ino j \<longleftrightarrow> k = j"
  by (metis unat_ino nat.inject)

text \<open>The files \<open>fs\<close> have the inodes from 1 on; the other inodes are free. No two files share a block, and the blocks before
  the inodes are untouched.\<close>

definition holds_files :: "nat \<Rightarrow> (u32 \<Rightarrow> block) \<Rightarrow> (u16 \<times> u8 list) list \<Rightarrow> bool" where
  "holds_files fb c fs \<longleftrightarrow> fresh_zero fb c \<and> Suc (length fs) \<le> NINODES \<and> fb = nmeta + sum_list (map (\<lambda>f. fsblocks (length (snd f))) fs) \<and>
     (\<forall>k < length fs. has_file fb c (ino k) (fs ! k)) \<and>
     (\<forall>k. length fs \<le> k \<longrightarrow> Suc k < NINODES \<longrightarrow> itype (disk_inode c (ino k)) = 0) \<and>
     (\<forall>k < length fs. \<forall>j < length fs. j \<noteq> k \<longrightarrow> blocks_of c (disk_inode c (ino j)) \<inter> blocks_of c (disk_inode c (ino k)) = {}) \<and>
     (\<forall>a. unat a < 32 \<longrightarrow> c a = (if a = 1 then put_sb mkfs_sb (\<lambda>_. 0) else (\<lambda>_. 0)))"

lemma blocks_of_given: "grown fb c ip n \<Longrightarrow> a \<in> blocks_of c ip \<Longrightarrow> given fb a"
  by (auto simp: grown_def blocks_of_def blocks_ok_def)

lemma has_file_same:
  assumes h: "has_file fb c i f" and d: "disk_inode c' i = disk_inode c i" and le: "fb \<le> fb'"
    and s: "\<And>a. a \<in> blocks_of c (disk_inode c i) \<Longrightarrow> c' a = c a"
  shows "has_file fb' c' i f" "blocks_of c' (disk_inode c' i) = blocks_of c (disk_inode c i)"
  using h same_blocks [where ip = "disk_inode c i", OF s] le unfolding has_file_def Let_def d by auto

lemma store_inode_other: "a \<noteq> IBLOCK i mkfs_sb \<Longrightarrow> store_inode c i ip a = c a"
  by (simp add: store_inode_def)

lemma zpad_append: "put_at (length bs) bs' (zpad bs) y = zpad (bs @ bs') y"
  by (auto simp: put_at_def zpad_def nth_append)

lemma holds_filesD:
  assumes "holds_files fb c fs"
  shows "fresh_zero fb c" "Suc (length fs) \<le> NINODES" "fb = nmeta + sum_list (map (\<lambda>f. fsblocks (length (snd f))) fs)"
    "k < length fs \<Longrightarrow> has_file fb c (ino k) (fs ! k)"
    "length fs \<le> k \<Longrightarrow> Suc k < NINODES \<Longrightarrow> itype (disk_inode c (ino k)) = 0"
    "k < length fs \<Longrightarrow> j < length fs \<Longrightarrow> j \<noteq> k \<Longrightarrow> blocks_of c (disk_inode c (ino j)) \<inter> blocks_of c (disk_inode c (ino k)) = {}"
    "unat a < 32 \<Longrightarrow> c a = (if a = 1 then put_sb mkfs_sb (\<lambda>_. 0) else (\<lambda>_. 0))"
  using assms unfolding holds_files_def by blast+

lemma has_fileD:
  assumes "has_file fb c i f"
  shows "grown fb c (disk_inode c i) (length (snd f))" "itype (disk_inode c i) = fst f" "nlink (disk_inode c i) = 1"
    "length (snd f) \<le> MAXFILE * BSIZE" "isize (disk_inode c i) = of_nat (length (snd f))"
    "y < MAXFILE * BSIZE \<Longrightarrow> fbyte c (disk_inode c i) y = zpad (snd f) y"
  using assms unfolding has_file_def Let_def by blast+

text \<open>The file \<open>k\<close>, old or new, changes, and the other files stay.\<close>

lemma holds_files_update:
  assumes h: "holds_files fb c fs" and fs': "length fs' = max (length fs) (Suc k)" "\<And>j. j < length fs' \<Longrightarrow> j \<noteq> k \<Longrightarrow> fs' ! j = fs ! j"
    and k: "k \<le> length fs" "Suc (length fs') \<le> NINODES" and z: "fresh_zero fb' c'" and le: "fb \<le> fb'"
    and sum: "fb' = nmeta + sum_list (map (\<lambda>f. fsblocks (length (snd f))) fs')"
    and new: "has_file fb' c' (ino k) (fs' ! k)"
    and inodes: "\<And>j. j \<noteq> k \<Longrightarrow> Suc j < NINODES \<Longrightarrow> disk_inode c' (ino j) = disk_inode c (ino j)"
    and own: "blocks_of c' (disk_inode c' (ino k)) \<subseteq> (if k < length fs then blocks_of c (disk_inode c (ino k)) else {}) \<union> {a. fb \<le> unat a}"
    and rest: "\<And>a. unat a < 32 \<or> nmeta \<le> unat a \<and> unat a < fb \<Longrightarrow>
      \<not> (k < length fs \<and> a \<in> blocks_of c (disk_inode c (ino k))) \<Longrightarrow> c' a = c a"
  shows "holds_files fb' c' fs'"
proof -
  have old: "has_file fb' c' (ino j) (fs' ! j) \<and> blocks_of c' (disk_inode c' (ino j)) = blocks_of c (disk_inode c (ino j)) \<and>
      (\<forall>a \<in> blocks_of c (disk_inode c (ino j)). unat a < fb)" if "j < length fs'" "j \<noteq> k" for j
  proof -
    have j: "j < length fs" "Suc j < NINODES" using that fs'(1) k by auto
    note f = holds_filesD(4) [OF h j(1)]
    have gv: "nmeta \<le> unat a \<and> unat a < fb" if "a \<in> blocks_of c (disk_inode c (ino j))" for a
      using blocks_of_given [OF has_fileD(1) [OF f] that] by (simp add: given_def)
    have "c' a = c a" if a: "a \<in> blocks_of c (disk_inode c (ino j))" for a
      using rest [of a] gv [OF a] holds_filesD(6) [OF h, of k j] j(1) that \<open>j \<noteq> k\<close> by blast
    then show ?thesis using has_file_same [OF f inodes [OF that(2) j(2)] le] fs'(2) [OF that] gv by simp
  qed
  have "has_file fb' c' (ino j) (fs' ! j)" if "j < length fs'" for j using old [OF that] new by (cases "j = k") auto
  moreover have "itype (disk_inode c' (ino j)) = 0" if "length fs' \<le> j" "Suc j < NINODES" for j
    using holds_filesD(5) [OF h, of j] inodes [of j] that fs'(1) by simp
  moreover have dis: "blocks_of c' (disk_inode c' (ino j)) \<inter> blocks_of c' (disk_inode c' (ino k)) = {}" if "j < length fs'" "j \<noteq> k" for j
    using old [OF that] own holds_filesD(6) [OF h, of k j] that fs'(1) by (fastforce split: if_splits)
  have "blocks_of c' (disk_inode c' (ino j)) \<inter> blocks_of c' (disk_inode c' (ino i)) = {}" if "i < length fs'" "j < length fs'" "j \<noteq> i" for i j
  proof (cases "i = k \<or> j = k")
    case True
    then show ?thesis using dis that by blast
  next
    case False
    then have "i < length fs" "j < length fs" using that fs'(1) k(1) by auto
    then show ?thesis using old that False holds_filesD(6) [OF h, of i j] by auto
  qed
  moreover have "c' a = (if a = 1 then put_sb mkfs_sb (\<lambda>_. 0) else (\<lambda>_. 0))" if "unat a < 32" for a
  proof -
    have "\<not> (k < length fs \<and> a \<in> blocks_of c (disk_inode c (ino k)))"
      using blocks_of_given [OF has_fileD(1) [OF holds_filesD(4) [OF h, of k]], of a] that by (auto simp: given_def)
    then show ?thesis using rest [of a] holds_filesD(7) [OF h that] that by simp
  qed
  ultimately show ?thesis using z k(2) sum unfolding holds_files_def by blast
qed

lemma IBLOCK_ino: "Suc k < NINODES \<Longrightarrow> unat a < 32 \<or> nmeta \<le> unat a \<Longrightarrow> a \<noteq> IBLOCK (ino k) mkfs_sb"
  using IBLOCK_range [of "ino k"] unat_ino [of k] by auto

lemma store_inode_fields:
  assumes "Suc k < NINODES" "length (addrs ip) = NDIRECT + 1"
  shows "itype (disk_inode (store_inode c (ino k) ip) (ino k)) = itype ip" "nlink (disk_inode (store_inode c (ino k) ip) (ino k)) = nlink ip"
    "isize (disk_inode (store_inode c (ino k) ip) (ino k)) = isize ip" "addrs (disk_inode (store_inode c (ino k) ip) (ino k)) = addrs ip"
    "\<And>j. j \<noteq> k \<Longrightarrow> Suc j < NINODES \<Longrightarrow> disk_inode (store_inode c (ino k) ip) (ino j) = disk_inode c (ino j)"
proof -
  have u: "unat (ino j) < NINODES" if "Suc j < NINODES" for j using unat_ino [of j] that by simp
  note d = disk_inode_store [OF u [OF assms(1)] u assms(2)]
  show "itype (disk_inode (store_inode c (ino k) ip) (ino k)) = itype ip" "nlink (disk_inode (store_inode c (ino k) ip) (ino k)) = nlink ip"
    "isize (disk_inode (store_inode c (ino k) ip) (ino k)) = isize ip" "addrs (disk_inode (store_inode c (ino k) ip) (ino k)) = addrs ip"
    using d [OF assms(1)] by simp_all
  show "disk_inode (store_inode c (ino k) ip) (ino j) = disk_inode c (ino j)" if "j \<noteq> k" "Suc j < NINODES" for j
    using d [OF that(2)] ino_eq [of j k] that assms(1) by simp
qed

lemma store_inode_zero: "Suc k < NINODES \<Longrightarrow> fresh_zero fb c \<Longrightarrow> fresh_zero fb (store_inode c (ino k) ip)"
  using IBLOCK_ino by (auto simp: fresh_zero_def store_inode_other)

lemma empty_grown: "addrs ip = replicate (NDIRECT + 1) 0 \<Longrightarrow> grown fb c ip 0" "addrs ip = replicate (NDIRECT + 1) 0 \<Longrightarrow> fbyte c ip y = 0"
  "addrs ip = replicate (NDIRECT + 1) 0 \<Longrightarrow> blocks_of c ip = {}"
proof -
  assume a: "addrs ip = replicate (NDIRECT + 1) 0"
  have ia: "addrs ip ! NDIRECT = 0" unfolding a by (rule nth_replicate) simp
  have f: "fblock c ip bn = 0" for bn
  proof (cases "bn < NDIRECT")
    case True
    then have "addrs ip ! bn = 0" unfolding a by (intro nth_replicate) simp
    then show ?thesis using ia by (simp add: fblock_def)
  qed (use ia in \<open>simp add: fblock_def\<close>)
  then show "grown fb c ip 0" using ia a by (simp add: grown_def blocks_ok_def)
  show "fbyte c ip y = 0" "blocks_of c ip = {}" using f ia by (auto simp: fbyte_def blocks_of_def)
qed

lemma mkfs_ialloc_ok:
  assumes h: "holds_files fb c fs" and st: "st_ok st c fb (Suc (length fs))" and k: "Suc (length fs) < NINODES"
  shows "\<exists>c' st'. mkfs_ialloc ty st = Ok (ino (length fs), st') \<and> st_ok st' c' fb (Suc (Suc (length fs))) \<and> holds_files fb c' (fs @ [(ty, [])])"
proof -
  let ?k = "length fs" and ?din = "zero_inode\<lparr>itype := ty, nlink := 1, isize := 0\<rparr>"
  define c' where "c' = store_inode c (ino ?k) ?din"
  have fi: "freeinode st = ino ?k" using st unat_ino [of ?k] k by (simp add: st_ok_def word_unat_eq_iff)
  have "unat (ino ?k + 1) = Suc (Suc ?k)" using unat_ino [of ?k] k by (simp add: unat_word_ariths)
  then have s1: "st_ok (st\<lparr>freeinode := ino ?k + 1\<rparr>) c fb (Suc (Suc ?k))" using st by (simp add: st_ok_def)
  have "unat (ino ?k) < NINODES" using unat_ino [of ?k] k by simp
  from winode_ok [OF s1 this, of ?din] obtain st' where st': "winode (ino ?k) ?din (st\<lparr>freeinode := ino ?k + 1\<rparr>) = Ok st'"
    "st_ok st' c' fb (Suc (Suc ?k))" unfolding c'_def by blast
  then have r: "mkfs_ialloc ty st = Ok (ino ?k, st')" by (simp add: mkfs_ialloc_def Let_def fi)
  have ad: "addrs ?din = replicate (NDIRECT + 1) 0" by (simp add: zero_inode_def)
  then have len: "length (addrs ?din) = NDIRECT + 1" by simp
  note fld = store_inode_fields [where c = c, OF k len, folded c'_def]
  have e: "addrs (disk_inode c' (ino ?k)) = replicate (NDIRECT + 1) 0" using fld(4) ad by simp
  have "holds_files fb c' (fs @ [(ty, [])])"
  proof (rule holds_files_update [OF h, of _ ?k])
    show "has_file fb c' (ino ?k) ((fs @ [(ty, [])]) ! ?k)"
      using fld(1-3) empty_grown [OF e] by (simp add: has_file_def zpad_def)
    show "fresh_zero fb c'" unfolding c'_def by (rule store_inode_zero [OF k holds_filesD(1) [OF h]])
    show "fb = nmeta + sum_list (map (\<lambda>f. fsblocks (length (snd f))) (fs @ [(ty, [])]))"
      using holds_filesD(3) [OF h] by (simp add: fsblocks_def)
    show "blocks_of c' (disk_inode c' (ino ?k)) \<subseteq> (if ?k < ?k then blocks_of c (disk_inode c (ino ?k)) else {}) \<union> {a. fb \<le> unat a}"
      using empty_grown(3) [OF e] by simp
    show "c' a = c a" if "unat a < 32 \<or> nmeta \<le> unat a \<and> unat a < fb" for a
      unfolding c'_def using IBLOCK_ino [OF k, of a] that by (intro store_inode_other) blast
  qed (use k fld(5) in \<open>auto simp: nth_append\<close>)
  then show ?thesis using r st'(2) by blast
qed

lemma iappend_ok:
  assumes h: "holds_files fb c fs" and st: "st_ok st c fb fi" and k: "k < length fs" and f: "fs ! k = (ty, old)"
    and len: "length (old @ bs) \<le> MAXFILE * BSIZE" and room: "fb + fsblocks (length (old @ bs)) \<le> FSSIZE + fsblocks (length old)"
  shows "\<exists>c' fb' st'. iappend (ino k) bs st = Ok st' \<and> st_ok st' c' fb' fi \<and> holds_files fb' c' (fs[k := (ty, old @ bs)])"
proof -
  let ?i = "ino k" and ?n = "length old"
  have k': "Suc k < NINODES" using k holds_filesD(2) [OF h] by simp
  have iu: "unat ?i < NINODES" using unat_ino [of k] k' by simp
  define ip where "ip = disk_inode c ?i"
  note hf = holds_filesD(4) [OF h k, unfolded f]
  note d = has_fileD [OF hf, folded ip_def, simplified]
  obtain s1 where s1: "rinode ?i st = Ok (ip, s1)" "st_ok s1 c fb fi" using rinode_ok [OF st iu] unfolding ip_def by blast
  have sz: "unat (isize ip) = ?n" unfolding d(5) by (rule of_nat_inverse [OF refl]) (use d(4) in simp)
  obtain ip' s2 c2 fb' where s2: "iappend_loop ?n bs ip s1 = Ok (?n + length bs, ip', s2)" "st_ok s2 c2 fb' fi"
    "fb' + fsblocks ?n = fb + fsblocks (?n + length bs)" "grown fb' c2 ip' (?n + length bs)" "fresh_zero fb' c2"
    "\<forall>y < MAXFILE * BSIZE. fbyte c2 ip' y = put_at ?n bs (fbyte c ip) y" "grows fb c ip fb' c2 ip'"
    using iappend_loop_ok [OF s1(2) d(1) holds_filesD(1) [OF h], of bs] len room by auto
  let ?ip = "ip'\<lparr>isize := of_nat (?n + length bs)\<rparr>"
  define c' where "c' = store_inode c2 ?i ?ip"
  obtain st' where st': "winode ?i ?ip s2 = Ok st'" "st_ok st' c' fb' fi" using winode_ok [OF s2(2) iu] unfolding c'_def by blast
  have r: "iappend ?i bs st = Ok st'" using s1(1) s2(1) st'(1) by (simp add: iappend_def sz)
  have la: "length (addrs ?ip) = NDIRECT + 1" using grownD(1) [OF s2(4)] by simp
  note fld = store_inode_fields [where c = c2, OF k' la, folded c'_def]
  have out: "c2 a = c a" if "unat a < nmeta" for a
  proof -
    have "nmeta \<le> fb" using holds_filesD(1) [OF h] by (simp add: fresh_zero_def)
    moreover have "a \<notin> blocks_of c ip" using blocks_of_given [OF d(1), of a] that by (auto simp: given_def)
    ultimately show ?thesis using s2(7) that by (simp add: grows_def)
  qed
  have keep: "c' a = c2 a" if "nmeta \<le> unat a" for a unfolding c'_def using IBLOCK_ino [OF k', of a] that by (intro store_inode_other) blast
  have ad: "addrs (disk_inode c' ?i) = addrs ip'" using fld(4) by simp
  have same: "blocks_of c' (disk_inode c' ?i) = blocks_of c2 ip'" "grown fb' c' (disk_inode c' ?i) (?n + length bs)"
    "y < MAXFILE * BSIZE \<Longrightarrow> fbyte c' (disk_inode c' ?i) y = fbyte c2 ip' y" for y
  proof -
    have eq: "c' a = c2 a" if "a \<in> blocks_of c2 ip'" for a using keep blocks_of_given [OF s2(4) that] by (simp add: given_def)
    note sb = same_blocks [where ip = ip' and c = c2 and c' = c', OF eq]
    have g: "grown fb' c' ip' (?n + length bs)" by (rule sb(4) [OF _ order_refl s2(4)])
    show "blocks_of c' (disk_inode c' ?i) = blocks_of c2 ip'" "grown fb' c' (disk_inode c' ?i) (?n + length bs)"
      "y < MAXFILE * BSIZE \<Longrightarrow> fbyte c' (disk_inode c' ?i) y = fbyte c2 ip' y"
      unfolding same_addrs [OF ad] using sb(2,3) g by auto
  qed
  note ao = addrs_only [OF s2(7) [unfolded grows_def, THEN conjunct2, THEN conjunct2, THEN conjunct2]]
  have "holds_files fb' c' (fs[k := (ty, old @ bs)])"
  proof (rule holds_files_update [OF h, of _ k])
    have "fbyte c' (disk_inode c' ?i) y = zpad (old @ bs) y" if "y < MAXFILE * BSIZE" for y
      using same(3) [OF that] s2(6) d(6) that by (simp add: zpad_append [symmetric] put_at_def)
    then show "has_file fb' c' ?i (fs[k := (ty, old @ bs)] ! k)"
      using fld(1-3) same(2) ao d(2,3) k len by (simp add: has_file_def)
    show "fresh_zero fb' c'" unfolding c'_def by (rule store_inode_zero [OF k' s2(5)])
    show "fb' = nmeta + sum_list (map (\<lambda>f. fsblocks (length (snd f))) (fs[k := (ty, old @ bs)]))"
      using sum_list_upd [OF k, of "\<lambda>f. fsblocks (length (snd f))" "(ty, old @ bs)"] s2(3) holds_filesD(3) [OF h] f by simp
    show "disk_inode c' (ino j) = disk_inode c (ino j)" if "j \<noteq> k" "Suc j < NINODES" for j
    proof -
      have "unat (IBLOCK (ino j) mkfs_sb) < nmeta" using IBLOCK_range [of "ino j"] unat_ino [of j] that(2) by simp
      then show ?thesis using fld(5) [OF that] out by (simp add: disk_inode_def)
    qed
    show "blocks_of c' (disk_inode c' ?i) \<subseteq> (if k < length fs then blocks_of c (disk_inode c ?i) else {}) \<union> {a. fb \<le> unat a}"
      using s2(7) k unfolding same(1) grows_def ip_def by auto
    show "c' a = c a" if a: "unat a < 32 \<or> nmeta \<le> unat a \<and> unat a < fb" "\<not> (k < length fs \<and> a \<in> blocks_of c (disk_inode c ?i))" for a
    proof (cases "nmeta \<le> unat a")
      case True
      then show ?thesis using keep [OF True] s2(7) a k by (simp add: grows_def ip_def)
    next
      case False
      then have "unat a < 32" using a(1) by simp
      then have "c' a = c2 a" unfolding c'_def using IBLOCK_ino [OF k', of a] by (intro store_inode_other) blast
      then show ?thesis using out False by simp
    qed
    show "fb \<le> fb'" using s2(7) by (simp add: grows_def)
  qed (use k holds_filesD(2) [OF h] in auto)
  then show ?thesis using r st'(2) by blast
qed

subsection \<open>Adding the files of the host\<close>

text \<open>What \<open>read\<close> returns up to the end, and the entry for a file in the root directory.\<close>

definition file_bytes :: "u8 list list \<Rightarrow> u8 list" where
  "file_bytes reads = concat (takeWhile (\<lambda>b. b \<noteq> []) reads)"

definition entry :: "nat \<Rightarrow> u8 list \<Rightarrow> u8 list" where
  "entry k name = dirent_bytes (ucast (ino k)) (zpad name)"

fun entries :: "nat \<Rightarrow> hostfile list \<Rightarrow> u8 list" where
  "entries k [] = []"
| "entries k (f # fs) = entry k (skip_underscore (shortname (fname f))) @ entries (Suc k) fs"

definition readable :: "hostfile \<Rightarrow> bool" where
  "readable f \<longleftrightarrow> 47 \<notin> set (shortname (fname f)) \<and> (\<exists>reads. freads f = Some reads \<and> length (file_bytes reads) \<le> MAXFILE * BSIZE)"

definition content :: "hostfile \<Rightarrow> u8 list" where
  "content f = file_bytes (the (freads f))"

lemma length_entry [simp]: "length (entry k name) = 16"
  using length_cstr_le [of "zpad name" DIRSIZ] by (simp add: entry_def dirent_bytes_def Let_def)

lemma length_entries [simp]: "length (entries k fs) = 16 * length fs"
  by (induction fs arbitrary: k) auto

lemma copy_file_ok:
  assumes "holds_files fb c fs" "st_ok st c fb fi" "k < length fs" "fs ! k = (ty, old)"
    and "length (old @ file_bytes reads) \<le> MAXFILE * BSIZE"
    and "fb + fsblocks (length (old @ file_bytes reads)) \<le> FSSIZE + fsblocks (length old)"
  shows "\<exists>c' fb' st'. copy_file (ino k) reads st = Ok st' \<and> st_ok st' c' fb' fi \<and> holds_files fb' c' (fs[k := (ty, old @ file_bytes reads)])"
  using assms
proof (induction reads arbitrary: fb c fs st old)
  case Nil
  have "fs[k := (ty, old)] = fs" using Nil.prems(4) list_update_id [of fs k] by simp
  then show ?case using Nil.prems by (auto simp: file_bytes_def)
next
  case (Cons b reads)
  show ?case
  proof (cases "b = []")
    case True
    have "fs[k := (ty, old)] = fs" using Cons.prems(4) list_update_id [of fs k] by simp
    then show ?thesis using Cons.prems True by (auto simp: file_bytes_def)
  next
    case False
    then have fbs: "file_bytes (b # reads) = b @ file_bytes reads" by (simp add: file_bytes_def)
    let ?o = "old @ b"
    have le: "fsblocks (length old) \<le> fsblocks (length ?o)" "fsblocks (length ?o) \<le> fsblocks (length (?o @ file_bytes reads))"
      by (intro fsblocks_mono; simp)+
    have room: "fb + fsblocks (length ?o) \<le> FSSIZE + fsblocks (length old)" using Cons.prems(6) le(2) unfolding fbs by simp
    from iappend_ok [OF Cons.prems(1-4), of b] Cons.prems(5) room
    obtain c1 fb1 s1 where s1: "iappend (ino k) b st = Ok s1" "st_ok s1 c1 fb1 fi" "holds_files fb1 c1 (fs[k := (ty, ?o)])"
      unfolding fbs by auto
    have sum: "fb1 + fsblocks (length old) = fb + fsblocks (length ?o)"
      using holds_filesD(3) [OF Cons.prems(1)] holds_filesD(3) [OF s1(3)]
        sum_list_upd [OF Cons.prems(3), of "\<lambda>f. fsblocks (length (snd f))" "(ty, ?o)"] Cons.prems(4) by simp
    have "\<exists>c' fb' st'. copy_file (ino k) reads s1 = Ok st' \<and> st_ok st' c' fb' fi \<and>
        holds_files fb' c' (fs[k := (ty, ?o), k := (ty, ?o @ file_bytes reads)])"
      by (rule Cons.IH [OF s1(3,2)]) (use Cons.prems(3,5,6) sum in \<open>simp_all add: fbs\<close>)
    then show ?thesis using False s1(1) by (simp add: fbs)
  qed
qed

lemma add_file_ok:
  assumes h: "holds_files fb c ((T_DIR, dir) # fs)" and st: "st_ok st c fb (Suc (Suc (length fs)))"
    and n: "Suc (Suc (length fs)) < NINODES" and f: "readable f" and len: "length dir + 16 \<le> MAXFILE * BSIZE"
    and room: "fb + fsblocks (length dir + 16) + fsblocks (length (content f)) \<le> FSSIZE + fsblocks (length dir)"
  shows "\<exists>c' fb' st'. add_file (ino 0) f st = Ok st' \<and> st_ok st' c' fb' (Suc (Suc (Suc (length fs)))) \<and>
    holds_files fb' c' ((T_DIR, dir @ entry (Suc (length fs)) (skip_underscore (shortname (fname f)))) # fs @ [(T_FILE, content f)])"
proof -
  let ?k = "Suc (length fs)" and ?e = "entry (Suc (length fs)) (skip_underscore (shortname (fname f)))"
  obtain reads where r: "freads f = Some reads" "length (file_bytes reads) \<le> MAXFILE * BSIZE" and ns: "47 \<notin> set (shortname (fname f))"
    using f by (auto simp: readable_def)
  have cf: "content f = file_bytes reads" by (simp add: content_def r(1))
  obtain c1 s1 where s1: "mkfs_ialloc T_FILE st = Ok (ino ?k, s1)" "st_ok s1 c1 fb (Suc (Suc ?k))"
    "holds_files fb c1 ((T_DIR, dir) # fs @ [(T_FILE, [])])" using mkfs_ialloc_ok [OF h, of st T_FILE] st n by auto
  obtain c2 fb2 s2 where s2: "iappend (ino 0) ?e s1 = Ok s2" "st_ok s2 c2 fb2 (Suc (Suc ?k))"
    "holds_files fb2 c2 ((T_DIR, dir @ ?e) # fs @ [(T_FILE, [])])"
    using iappend_ok [OF s1(3,2), of 0 T_DIR dir ?e] len room by auto
  have sum: "fb2 + fsblocks (length dir) = fb + fsblocks (length dir + 16)"
    using holds_filesD(3) [OF s1(3)] holds_filesD(3) [OF s2(3)] by simp
  have z: "fsblocks 0 = 0" by (simp add: fsblocks_def)
  obtain c3 fb3 s3 where s3: "copy_file (ino ?k) reads s2 = Ok s3" "st_ok s3 c3 fb3 (Suc (Suc ?k))"
    "holds_files fb3 c3 ((T_DIR, dir @ ?e) # fs @ [(T_FILE, file_bytes reads)])"
    using copy_file_ok [OF s2(3,2), of ?k T_FILE "[]" reads] r(2) room sum cf z by (auto simp: nth_append)
  show ?thesis using s1(1) s2(1) s3 r(1) ns by (auto simp: add_file_def entry_def cf)
qed

lemma add_files_ok:
  assumes "holds_files fb c ((T_DIR, dir) # fs)" "st_ok st c fb (Suc (Suc (length fs)))"
    and "length fs + length hfs + 2 \<le> NINODES" "\<And>f. f \<in> set hfs \<Longrightarrow> readable f" "length dir + 16 * length hfs \<le> MAXFILE * BSIZE"
    and "fb + fsblocks (length dir + 16 * length hfs) + sum_list (map (\<lambda>f. fsblocks (length (content f))) hfs) \<le> FSSIZE + fsblocks (length dir)"
  shows "\<exists>c' fb' st'. add_files (ino 0) hfs st = Ok st' \<and> st_ok st' c' fb' (Suc (Suc (length fs + length hfs))) \<and>
    holds_files fb' c' ((T_DIR, dir @ entries (Suc (length fs)) hfs) # fs @ map (\<lambda>f. (T_FILE, content f)) hfs)"
  using assms
proof (induction hfs arbitrary: dir fs fb c st)
  case Nil
  then show ?case by auto
next
  case (Cons f hfs)
  let ?e = "entry (Suc (length fs)) (skip_underscore (shortname (fname f)))"
  have le: "fsblocks (length dir + 16) \<le> fsblocks (length dir + 16 * length (f # hfs))" by (rule fsblocks_mono) simp
  have room: "fb + fsblocks (length dir + 16) + fsblocks (length (content f)) \<le> FSSIZE + fsblocks (length dir)"
    using Cons.prems(6) le by simp
  obtain c1 fb1 s1 where s1: "add_file (ino 0) f st = Ok s1" "st_ok s1 c1 fb1 (Suc (Suc (Suc (length fs))))"
    "holds_files fb1 c1 ((T_DIR, dir @ ?e) # fs @ [(T_FILE, content f)])"
    using add_file_ok [OF Cons.prems(1,2) _ Cons.prems(4) _ room] Cons.prems(3,5) by auto
  have sum: "fb1 + fsblocks (length dir) = fb + fsblocks (length dir + 16) + fsblocks (length (content f))"
    using holds_filesD(3) [OF Cons.prems(1)] holds_filesD(3) [OF s1(3)] by simp
  have "\<exists>c' fb' st'. add_files (ino 0) hfs s1 = Ok st' \<and> st_ok st' c' fb' (Suc (Suc (length (fs @ [(T_FILE, content f)]) + length hfs))) \<and>
    holds_files fb' c' ((T_DIR, (dir @ ?e) @ entries (Suc (length (fs @ [(T_FILE, content f)]))) hfs) # (fs @ [(T_FILE, content f)]) @
      map (\<lambda>f. (T_FILE, content f)) hfs)"
    by (rule Cons.IH [OF s1(3)]) (use s1(2) Cons.prems(3-6) sum in \<open>simp_all add: algebra_simps\<close>)
  then show ?case using s1(1) by auto
qed

lemma zero_sectors_ok:
  assumes "img st = (\<lambda>_ _. 0)" "\<And>n. host st n" "ilen st = a" "a + k \<le> FSSIZE"
  shows "\<exists>n. zero_sectors [a..<a + k] st = Ok (st\<lparr>ilen := a + k, calls := n\<rparr>)"
  using assms
proof (induction k arbitrary: a st)
  case 0
  then show ?case by (intro exI [of _ "calls st"]) simp
next
  case (Suc k)
  have u: "unat (of_nat a :: u32) = a" using Suc.prems(4) by (intro unat_fssize) simp
  then have sec: "sector (of_nat a) = a" using Suc.prems(4) by (simp add: sector_small)
  have "wsect (of_nat a) (\<lambda>_. 0) st = Ok (st\<lparr>ilen := Suc a, calls := calls st + 2\<rparr>)"
    using Suc.prems(1-3) by (simp add: wsect_def lseek_ok_def sec) (cases st, simp add: fun_eq_iff)
  moreover have "[a..<a + Suc k] = a # [Suc a..<Suc a + k]" by (simp add: upt_conv_Cons)
  moreover have "\<exists>n. zero_sectors [Suc a..<Suc a + k] (st\<lparr>ilen := Suc a, calls := calls st + 2\<rparr>) =
      Ok (st\<lparr>ilen := Suc a, calls := calls st + 2\<rparr>\<lparr>ilen := Suc a + k, calls := n\<rparr>)"
    by (rule Suc.IH) (use Suc.prems in auto)
  ultimately show ?case by auto
qed

lemma sint_fssize: "unat (w :: u32) \<le> FSSIZE \<Longrightarrow> sint w = int (unat w)"
  using sint_small [of "unat w"] by simp

subsection \<open>The finished volume\<close>

lemma get_put_sb: "get_sb (put_sb s d) = s"
  by (cases s) (simp add: get_sb_def put_sb_def)

lemma zero_block: "get32 (\<lambda>_. 0) i = 0" "get16 (\<lambda>_. 0) i = 0"
  by (simp_all add: get32_def get16_def word_cat_eq)

lemma BBLOCK_mkfs: "b < 2000 \<Longrightarrow> BBLOCK b mkfs_sb = 45"
  by (simp add: BBLOCK_def word_less_nat_alt)

definition bitmap :: "nat \<Rightarrow> block" where
  "bitmap fb = fold bit_set [0..<fb] (\<lambda>_. 0)"

lemma bitmap_used:
  assumes "c 45 = bitmap fb" "b < 2000"
  shows "blk_used c mkfs_sb b \<longleftrightarrow> unat b < fb"
proof -
  have "\<not> bit_used (\<lambda>_. 0) j" for j by (simp add: bit_used_def)
  moreover have "unat b mod BPB = unat b" using assms(2) by (simp add: word_less_nat_alt)
  ultimately show ?thesis
    using assms by (simp add: blk_used_def BBLOCK_mkfs bitmap_def fold_bit_set del: upt.simps)
qed

lemma meta_mkfs: "a \<in> meta mkfs_sb 2 \<Longrightarrow> 2 \<le> unat a \<and> unat a < nmeta"
proof -
  assume "a \<in> meta mkfs_sb 2"
  then consider "a \<in> logarea 2" | n where "a = IBLOCK n mkfs_sb" "n < 200" | "a = 45"
    using BBLOCK_mkfs by (auto simp: meta_def)
  then show ?thesis
  proof cases
    case 2
    then have "unat n < NINODES" by (simp add: word_less_nat_alt)
    with 2 show ?thesis using IBLOCK_range [of n] by simp
  qed (use logarea_2 in force)+
qed

lemma volume_ok:
  assumes "c 45 = bitmap fb" "nmeta \<le> fb"
  shows "vol_ok c mkfs_sb 2"
proof -
  have "IBLOCK n mkfs_sb \<notin> logarea 2 \<and> IBLOCK n mkfs_sb \<noteq> 45" if "n < 200" for n
    using that IBLOCK_range [of n] logarea_2 [of "IBLOCK n mkfs_sb"] by (auto simp: word_less_nat_alt)
  moreover have "(45 :: u32) \<notin> logarea 2" using logarea_2 [of 45] by auto
  moreover have "blk_used c mkfs_sb b \<or> b \<notin> meta mkfs_sb 2" if "b < 2000" for b
    using bitmap_used [where c = c, OF assms(1) that] meta_mkfs [of b] assms(2) by linarith
  moreover have "blk_used c mkfs_sb 0" using bitmap_used [of c fb 0] assms by simp
  ultimately show ?thesis by (simp add: vol_ok_def BBLOCK_mkfs)
qed

lemma given_data:
  assumes "c 45 = bitmap fb" "fb \<le> FSSIZE" "given fb a"
  shows "data_block c mkfs_sb 2 a"
proof -
  have "a < 2000" using assms(2,3) by (simp add: given_def word_less_nat_alt)
  then show ?thesis using bitmap_used [where c = c and b = a, OF assms(1)] meta_mkfs [of a] assms(3) by (auto simp: data_block_def given_def)
qed

text \<open>The inode as the kernel loads it into its table.\<close>

definition kernel_inode :: "(u32 \<Rightarrow> block) \<Rightarrow> u32 \<Rightarrow> inode" where
  "kernel_inode c i = (disk_inode c i)\<lparr>idev := ROOTDEV, inum := i\<rparr>"

lemma kernel_inode_same:
  "fblock c (kernel_inode c i) = fblock c (disk_inode c i)" "fbyte c (kernel_inode c i) = fbyte c (disk_inode c i)"
  "blocks_of c (kernel_inode c i) = blocks_of c (disk_inode c i)"
  by (rule same_addrs; simp add: kernel_inode_def)+

lemma grown_file_ok:
  assumes "c 45 = bitmap fb" "fb \<le> FSSIZE" "grown fb c (disk_inode c (ino k)) n" "Suc k < NINODES"
  shows "file_ok c mkfs_sb 2 (kernel_inode c (ino k))"
proof -
  have "blocks_ok (data_block c mkfs_sb 2) (fblock c (disk_inode c (ino k))) (addrs (disk_inode c (ino k)) ! NDIRECT)"
    by (rule blocks_ok_mono [OF grownD(2) [OF assms(3)] given_data [where c = c, OF assms(1,2)]]) auto
  moreover have "ino k < 200" using unat_ino [of k] assms(4) by (simp add: word_less_nat_alt)
  ultimately show ?thesis using grownD(1) [OF assms(3)] by (simp add: file_ok_def kernel_inode_same) (simp add: kernel_inode_def)
qed

lemma finish_ok:
  assumes h: "holds_files fb c ((ty, dir) # fs)" and st: "st_ok st c fb fi" and fb: "fb \<le> FSSIZE"
  shows "\<exists>st1 st'. fix_root (ino 0) st = Ok st1 \<and> mkfs_balloc (sint (freeblock st1)) st1 = Ok st' \<and> unat (freeblock st') = fb \<and>
    img st' = (store_inode c (ino 0) ((disk_inode c (ino 0))\<lparr>isize := of_nat ((length dir div BSIZE + 1) * BSIZE)\<rparr>))(45 := bitmap fb)"
proof -
  let ?ip = "(disk_inode c (ino 0))\<lparr>isize := of_nat ((length dir div BSIZE + 1) * BSIZE)\<rparr>"
  have iu: "unat (ino 0) < NINODES" using unat_ino [of 0] by simp
  have h0: "has_file fb c (ino 0) (ty, dir)" using holds_filesD(4) [OF h, of 0] by simp
  have sz: "unat (isize (disk_inode c (ino 0))) = length dir"
    unfolding has_fileD(5) [OF h0] snd_conv by (rule of_nat_inverse [OF refl]) (use has_fileD(4) [OF h0] in simp_all)
  obtain s1 where s1: "rinode (ino 0) st = Ok (disk_inode c (ino 0), s1)" "st_ok s1 c fb fi" using rinode_ok [OF st iu] by blast
  obtain s2 where s2: "winode (ino 0) ?ip s1 = Ok s2" "st_ok s2 (store_inode c (ino 0) ?ip) fb fi" using winode_ok [OF s1(2) iu] by blast
  have r: "fix_root (ino 0) st = Ok s2" using s1(1) s2(1) by (simp add: fix_root_def Let_def sz)
  have u: "unat (freeblock s2) = fb" "msb s2 = mkfs_sb" using s2(2) by (simp_all add: st_ok_def)
  obtain s3 where s3: "wsect 45 (bitmap fb) s2 = Ok s3" "st_ok s3 ((store_inode c (ino 0) ?ip)(45 := bitmap fb)) fb fi"
    using wsect_ok [OF s2(2), of 45] by auto
  have "sint (freeblock s2) = int fb" using sint_fssize [of "freeblock s2"] u(1) fb by simp
  then have "mkfs_balloc (sint (freeblock s2)) s2 = Ok s3" using s3(1) fb u(2) by (simp add: mkfs_balloc_def bitmap_def)
  with r s3(2) show ?thesis by (auto simp: st_ok_def)
qed

lemma finished_files:
  assumes h: "holds_files fb c fs" and z: "0 < length fs"
    and c'_def: "c' = (store_inode c (ino 0) ((disk_inode c (ino 0))\<lparr>isize := sz\<rparr>))(45 := bitmap fb)"
  shows "c' 45 = bitmap fb" "unat a < 32 \<Longrightarrow> c' a = (if a = 1 then put_sb mkfs_sb (\<lambda>_. 0) else (\<lambda>_. 0))"
    "length fs \<le> k \<Longrightarrow> Suc k < NINODES \<Longrightarrow> itype (disk_inode c' (ino k)) = 0"
    "k < length fs \<Longrightarrow> grown fb c' (disk_inode c' (ino k)) (length (snd (fs ! k))) \<and> itype (disk_inode c' (ino k)) = fst (fs ! k) \<and>
      nlink (disk_inode c' (ino k)) = 1 \<and> isize (disk_inode c' (ino k)) = (if k = 0 then sz else of_nat (length (snd (fs ! k)))) \<and>
      (\<forall>y < MAXFILE * BSIZE. fbyte c' (disk_inode c' (ino k)) y = zpad (snd (fs ! k)) y) \<and>
      blocks_of c' (disk_inode c' (ino k)) = blocks_of c (disk_inode c (ino k))"
proof -
  let ?ip = "(disk_inode c (ino 0))\<lparr>isize := sz\<rparr>"
  define c1 where "c1 = store_inode c (ino 0) ?ip"
  have g0: "grown fb c (disk_inode c (ino 0)) (length (snd (fs ! 0)))" using has_fileD(1) [OF holds_filesD(4) [OF h z]] .
  then have la: "length (addrs ?ip) = NDIRECT + 1" using grownD(1) by simp
  have n0: "Suc 0 < NINODES" by simp
  note fld = store_inode_fields [where c = c, OF n0 la, folded c1_def]
  have c': "c' = c1(45 := bitmap fb)" by (simp add: c'_def c1_def)
  have di: "disk_inode c' (ino j) = disk_inode c1 (ino j)" if "Suc j < NINODES" for j
  proof -
    have "IBLOCK (ino j) mkfs_sb \<noteq> 45" using IBLOCK_range [of "ino j"] unat_ino [of j] that by auto
    then show ?thesis by (simp add: disk_inode_def c')
  qed
  have out: "c' a = c a" if "unat a < 32 \<or> nmeta \<le> unat a" for a
    using store_inode_other [OF IBLOCK_ino [OF n0 that]] that by (auto simp: c' c1_def)
  show "c' 45 = bitmap fb" by (simp add: c')
  show "c' a = (if a = 1 then put_sb mkfs_sb (\<lambda>_. 0) else (\<lambda>_. 0))" if "unat a < 32"
    using out [of a] holds_filesD(7) [OF h that] that by simp
  show "itype (disk_inode c' (ino k)) = 0" if "length fs \<le> k" "Suc k < NINODES"
    using di [OF that(2)] fld(5) [of k] holds_filesD(5) [OF h that] that z by simp
  show "grown fb c' (disk_inode c' (ino k)) (length (snd (fs ! k))) \<and> itype (disk_inode c' (ino k)) = fst (fs ! k) \<and>
      nlink (disk_inode c' (ino k)) = 1 \<and> isize (disk_inode c' (ino k)) = (if k = 0 then sz else of_nat (length (snd (fs ! k)))) \<and>
      (\<forall>y < MAXFILE * BSIZE. fbyte c' (disk_inode c' (ino k)) y = zpad (snd (fs ! k)) y) \<and>
      blocks_of c' (disk_inode c' (ino k)) = blocks_of c (disk_inode c (ino k))" if k: "k < length fs"
  proof -
    let ?d = "disk_inode c (ino k)"
    have k': "Suc k < NINODES" using k holds_filesD(2) [OF h] by simp
    note f = has_fileD [OF holds_filesD(4) [OF h k]]
    have ad: "addrs (disk_inode c' (ino k)) = addrs ?d" using di [OF k'] fld(4) fld(5) [OF _ k'] by (cases "k = 0") auto
    have eq: "\<And>a. a \<in> blocks_of c ?d \<Longrightarrow> c' a = c a" using out blocks_of_given [OF f(1)] by (auto simp: given_def)
    note sb = same_blocks [where ip = ?d and c = c and c' = c', OF eq]
    have "grown fb c' ?d (length (snd (fs ! k)))" by (rule sb(4) [OF _ order_refl f(1)])
    moreover have "itype (disk_inode c' (ino k)) = fst (fs ! k)" "nlink (disk_inode c' (ino k)) = 1"
      "isize (disk_inode c' (ino k)) = (if k = 0 then sz else of_nat (length (snd (fs ! k))))"
      using di [OF k'] fld(1-3) fld(5) [OF _ k'] f(2,3,5) by (cases "k = 0"; simp)+
    moreover have "fbyte c' ?d y = zpad (snd (fs ! k)) y" if "y < MAXFILE * BSIZE" for y using sb(2) [of y] f(6) [OF that] that by simp
    ultimately show ?thesis unfolding same_addrs [OF ad] using sb(3) by auto
  qed
qed

text \<open>File \<open>k\<close> of the volume, as the kernel sees it: inode \<open>k + 1\<close> with this type and size, these bytes and zeros after them,
  in exactly the blocks they need.\<close>

definition stored :: "(u32 \<Rightarrow> block) \<Rightarrow> nat \<Rightarrow> u16 \<Rightarrow> nat \<Rightarrow> u8 list \<Rightarrow> bool" where
  "stored c k ty n bs \<longleftrightarrow> (let ip = kernel_inode c (ino k) in
     file_ok c mkfs_sb 2 ip \<and> itype ip = ty \<and> nlink ip = 1 \<and> unat (isize ip) = n \<and>
     (\<forall>bn < MAXFILE. fblock c ip bn \<noteq> 0 \<longleftrightarrow> bn * BSIZE < length bs) \<and> (\<forall>y < MAXFILE * BSIZE. fbyte c ip y = zpad bs y))"

definition root_bytes :: "hostfile list \<Rightarrow> u8 list" where
  "root_bytes fs = (entry 0 [46] @ entry 0 [46, 46]) @ entries 1 fs"

lemma length_root_bytes: "length (root_bytes fs) = 32 + 16 * length fs"
  by (simp add: root_bytes_def)

definition image_blocks :: "hostfile list \<Rightarrow> nat" where
  "image_blocks fs = nmeta + fsblocks (32 + 16 * length fs) + sum_list (map (\<lambda>f. fsblocks (length (content f))) fs)"

lemma empty_volume: "holds_files nmeta ((\<lambda>_ _. 0)(1 := put_sb mkfs_sb (\<lambda>_. 0))) []"
proof -
  let ?c = "(\<lambda>_ _. 0)(1 := put_sb mkfs_sb (\<lambda>_. 0))"
  have "itype (disk_inode ?c (ino k)) = 0" if "Suc k < NINODES" for k
  proof -
    have "IBLOCK (ino k) mkfs_sb \<noteq> 1" using IBLOCK_range [of "ino k"] unat_ino [of k] that by auto
    then show ?thesis by (simp add: disk_inode_def get_dinode_def zero_block)
  qed
  moreover have "fresh_zero nmeta ?c" by (auto simp: fresh_zero_def)
  ultimately show ?thesis by (simp add: holds_files_def)
qed

lemma built_root:
  assumes "\<And>n. h n"
  shows "\<exists>s1 s2 s3 s4 s5 c fb.
    zero_sectors [0..<FSSIZE] \<lparr>img = (\<lambda>_ _. 0), ilen = 0, host = h, calls = 0, msb = mkfs_sb, freeinode = 1, freeblock = of_nat nmeta\<rparr> = Ok s1 \<and>
    wsect 1 (put_sb (msb s1) (\<lambda>_. 0)) s1 = Ok s2 \<and> mkfs_ialloc T_DIR s2 = Ok (ino 0, s3) \<and> iappend (ino 0) (entry 0 [46]) s3 = Ok s4 \<and>
    iappend (ino 0) (entry 0 [46, 46]) s4 = Ok s5 \<and> st_ok s5 c fb 2 \<and> holds_files fb c [(T_DIR, entry 0 [46] @ entry 0 [46, 46])]"
proof -
  let ?s0 = "\<lparr>img = (\<lambda>_ _. 0), ilen = 0, host = h, calls = 0, msb = mkfs_sb, freeinode = 1, freeblock = of_nat nmeta\<rparr>"
  have f1: "fsblocks 16 = 1" "fsblocks 32 = 1" "fsblocks 0 = 0" by (simp_all add: fsblocks_def)
  obtain n where n: "zero_sectors [0..<FSSIZE] ?s0 = Ok (?s0\<lparr>ilen := FSSIZE, calls := n\<rparr>)"
    using zero_sectors_ok [of ?s0 0 FSSIZE] assms by (auto simp del: upt.simps)
  have s1: "st_ok (?s0\<lparr>ilen := FSSIZE, calls := n\<rparr>) (\<lambda>_ _. 0) nmeta 1" using assms by (simp add: st_ok_def)
  obtain s2 where s2: "wsect 1 (put_sb mkfs_sb (\<lambda>_. 0)) (?s0\<lparr>ilen := FSSIZE, calls := n\<rparr>) = Ok s2"
    "st_ok s2 ((\<lambda>_ _. 0)(1 := put_sb mkfs_sb (\<lambda>_. 0))) nmeta 1" using wsect_ok [OF s1, of 1 "put_sb mkfs_sb (\<lambda>_. 0)"] by auto
  obtain c3 s3 where s3: "mkfs_ialloc T_DIR s2 = Ok (ino 0, s3)" "st_ok s3 c3 nmeta 2" "holds_files nmeta c3 [(T_DIR, [])]"
    using mkfs_ialloc_ok [OF empty_volume, of s2 T_DIR] s2(2) by (auto simp: numeral_2_eq_2)
  obtain c4 fb4 s4 where s4: "iappend (ino 0) (entry 0 [46]) s3 = Ok s4" "st_ok s4 c4 fb4 2" "holds_files fb4 c4 [(T_DIR, entry 0 [46])]"
    using iappend_ok [OF s3(3,2), of 0 T_DIR "[]" "entry 0 [46]"] f1 by auto
  have "fb4 = nmeta + 1" using holds_filesD(3) [OF s4(3)] f1 by simp
  then obtain c5 fb5 s5 where s5: "iappend (ino 0) (entry 0 [46, 46]) s4 = Ok s5" "st_ok s5 c5 fb5 2"
    "holds_files fb5 c5 [(T_DIR, entry 0 [46] @ entry 0 [46, 46])]"
    using iappend_ok [OF s4(3,2), of 0 T_DIR "entry 0 [46]" "entry 0 [46, 46]"] f1 by auto
  from n s2(1) s3(1) s4(1) s5 show ?thesis by (intro exI conjI) (assumption | simp)+
qed

lemma stored_finished:
  assumes h: "holds_files fb c fs" and z: "0 < length fs" and fb: "fb \<le> FSSIZE" and k: "k < length fs"
    and c'_def: "c' = (store_inode c (ino 0) ((disk_inode c (ino 0))\<lparr>isize := of_nat sz\<rparr>))(45 := bitmap fb)" and sz: "sz < 2 ^ 32"
  shows "stored c' k (fst (fs ! k)) (if k = 0 then sz else length (snd (fs ! k))) (snd (fs ! k))"
proof -
  note f = finished_files [OF h z c'_def]
  have k': "Suc k < NINODES" using k holds_filesD(2) [OF h] by simp
  have g: "grown fb c' (disk_inode c' (ino k)) (length (snd (fs ! k)))" using f(4) [OF k] by blast
  have "length (snd (fs ! k)) < 2 ^ 32" using has_fileD(4) [OF holds_filesD(4) [OF h k]] by simp
  then have u: "unat (of_nat (length (snd (fs ! k))) :: u32) = length (snd (fs ! k))" "unat (of_nat sz :: u32) = sz"
    using sz by (auto intro!: of_nat_inverse)
  have "file_ok c' mkfs_sb 2 (kernel_inode c' (ino k))" by (rule grown_file_ok [where c = c', OF f(1) fb g k'])
  moreover have "\<forall>bn < MAXFILE. fblock c' (disk_inode c' (ino k)) bn \<noteq> 0 \<longleftrightarrow> bn * BSIZE < length (snd (fs ! k))"
    using g unfolding grown_def by blast
  ultimately show ?thesis using f(4) [OF k] u by (auto simp: stored_def Let_def kernel_inode_same) (simp_all add: kernel_inode_def)
qed

lemma add_files_root:
  assumes h: "holds_files fb c [(T_DIR, entry 0 [46] @ entry 0 [46, 46])]" and st: "st_ok st c fb 2"
    and n: "length fs + 2 \<le> NINODES" and f: "\<And>f. f \<in> set fs \<Longrightarrow> readable f" and room: "image_blocks fs \<le> FSSIZE"
  shows "\<exists>c' st'. add_files (ino 0) fs st = Ok st' \<and> st_ok st' c' (image_blocks fs) (2 + length fs) \<and>
    holds_files (image_blocks fs) c' ((T_DIR, root_bytes fs) # map (\<lambda>f. (T_FILE, content f)) fs)"
proof -
  have fb: "fb = nmeta + fsblocks 32" using holds_filesD(3) [OF h] by simp
  obtain c' fb' st' where s: "add_files (ino 0) fs st = Ok st'" "st_ok st' c' fb' (2 + length fs)"
    "holds_files fb' c' ((T_DIR, root_bytes fs) # map (\<lambda>f. (T_FILE, content f)) fs)"
    using add_files_ok [OF h, of st fs] st n f room by (auto simp: fb image_blocks_def root_bytes_def numeral_2_eq_2)
  have "fb' = image_blocks fs" using holds_filesD(3) [OF s(3)] by (simp add: image_blocks_def length_root_bytes comp_def)
  with s show ?thesis by blast
qed

text \<open>The whole program, for the property below and for the kernel that boots from the image.\<close>

lemma built_volume:
  assumes host: "\<And>n. h n" and out: "freads out \<noteq> None" and n: "length fs + 2 \<le> NINODES"
    and fs: "\<And>f. f \<in> set fs \<Longrightarrow> readable f" and room: "image_blocks fs \<le> FSSIZE"
  shows "\<exists>st. mkfs_main h (out # fs) = Ok st \<and> get_sb (img st 1) = mkfs_sb \<and> hdr_n 2 (img st) = 0 \<and> vol_ok (img st) mkfs_sb 2 \<and>
    (\<forall>b < 2000. blk_used (img st) mkfs_sb b \<longleftrightarrow> unat b < image_blocks fs) \<and>
    stored (img st) 0 T_DIR ((length (root_bytes fs) div BSIZE + 1) * BSIZE) (root_bytes fs) \<and>
    (\<forall>k < length fs. stored (img st) (Suc k) T_FILE (length (content (fs ! k))) (content (fs ! k))) \<and>
    (\<forall>k. length fs < k \<longrightarrow> Suc k < NINODES \<longrightarrow> itype (kernel_inode (img st) (ino k)) = 0) \<and>
    (\<forall>k \<le> length fs. \<forall>j \<le> length fs. j \<noteq> k \<longrightarrow>
       blocks_of (img st) (kernel_inode (img st) (ino j)) \<inter> blocks_of (img st) (kernel_inode (img st) (ino k)) = {})"
proof -
  let ?fs = "(T_DIR, root_bytes fs) # map (\<lambda>f. (T_FILE, content f)) fs" and ?fb = "image_blocks fs"
  let ?sz = "(length (root_bytes fs) div BSIZE + 1) * BSIZE"
  obtain s1 s2 s3 s4 s5 c fb where r: "zero_sectors [0..<FSSIZE] \<lparr>img = (\<lambda>_ _. 0), ilen = 0, host = h, calls = 0, msb = mkfs_sb, freeinode = 1,
      freeblock = of_nat nmeta\<rparr> = Ok s1" "wsect 1 (put_sb (msb s1) (\<lambda>_. 0)) s1 = Ok s2" "mkfs_ialloc T_DIR s2 = Ok (ino 0, s3)"
    "iappend (ino 0) (entry 0 [46]) s3 = Ok s4" "iappend (ino 0) (entry 0 [46, 46]) s4 = Ok s5"
    "st_ok s5 c fb 2" "holds_files fb c [(T_DIR, entry 0 [46] @ entry 0 [46, 46])]" using built_root [where h = h, OF host] by blast
  obtain c6 s6 where s6: "add_files (ino 0) fs s5 = Ok s6" "st_ok s6 c6 ?fb (2 + length fs)" "holds_files ?fb c6 ?fs"
    using add_files_root [OF r(7,6) n fs room] by blast
  obtain s7 st where s7: "fix_root (ino 0) s6 = Ok s7" "mkfs_balloc (sint (freeblock s7)) s7 = Ok st"
    and img: "img st = (store_inode c6 (ino 0) ((disk_inode c6 (ino 0))\<lparr>isize := of_nat ?sz\<rparr>))(45 := bitmap ?fb)"
    using finish_ok [OF s6(3,2) room] by blast
  have ino0: "ino 0 = 1" by (simp add: ino_def)
  have main: "mkfs_main h (out # fs) = Ok st"
    using r(1-5) s6(1) s7 out by (simp add: Let_def ino0 entry_def del: upt.simps)
  note f = finished_files [OF s6(3) _ img] and sf = stored_finished [OF s6(3) _ room _ img]
  have sz: "?sz < 2 ^ 32"
  proof -
    have "length (root_bytes fs) div BSIZE \<le> length (root_bytes fs)" by (rule div_le_dividend)
    then show ?thesis using n by (simp add: length_root_bytes)
  qed
  have bits: "img st 45 = bitmap ?fb" using f(1) by simp
  have low: "img st 1 = put_sb mkfs_sb (\<lambda>_. 0)" "img st 2 = (\<lambda>_. 0)" using f(2) [of 1] f(2) [of 2] by simp_all
  have "vol_ok (img st) mkfs_sb 2" by (rule volume_ok [where c = "img st", OF bits]) (simp add: image_blocks_def)
  moreover have "\<forall>b < 2000. blk_used (img st) mkfs_sb b \<longleftrightarrow> unat b < ?fb" using bitmap_used [where c = "img st", OF bits] by blast
  moreover have "stored (img st) 0 T_DIR ?sz (root_bytes fs)" using sf [of 0] sz by simp
  moreover have "stored (img st) (Suc k) T_FILE (length (content (fs ! k))) (content (fs ! k))" if "k < length fs" for k
    using sf [of "Suc k"] sz that by simp
  moreover have "itype (kernel_inode (img st) (ino k)) = 0" if "length fs < k" "Suc k < NINODES" for k
    using f(3) [of k] that by (simp add: kernel_inode_def)
  moreover have "blocks_of (img st) (kernel_inode (img st) (ino j)) \<inter> blocks_of (img st) (kernel_inode (img st) (ino k)) = {}"
    if "k \<le> length fs" "j \<le> length fs" "j \<noteq> k" for j k
    using f(4) [of j] f(4) [of k] holds_filesD(6) [OF s6(3), of k j] that by (auto simp: kernel_inode_same)
  ultimately show ?thesis using main low by (simp add: get_put_sb hdr_n_def zero_block)
qed

text \<open>
  C32: The image. When the calls of the host succeed, at most 198 files are given, each can be opened, has no slash in its
  name after \<open>user/\<close> and is not too large for an inode, and the blocks they need fit on the disk, then \<open>mkfs\<close> exits with 0 and
  the kernel finds on the image: the super block with its magic number; an empty log; a consistent volume, in which exactly the
  blocks handed out are marked as used; a root directory with entries for itself, its parent and all files, and free
  entries after them; for each file a consistent inode of its size with exactly the bytes it has on the host, in no more blocks than they need; all other
  inodes free; and no block in two files.
\<close>

theorem mkfs_builds_volume:
  assumes host: "\<And>n. h n" and out: "freads out \<noteq> None" and n: "length fs + 2 \<le> NINODES"
    and fs: "\<And>f. f \<in> set fs \<Longrightarrow> readable f" and room: "image_blocks fs \<le> FSSIZE"
  shows "\<exists>st. mkfs_main h (out # fs) = Ok st \<and> get_sb (img st 1) = mkfs_sb \<and> hdr_n 2 (img st) = 0 \<and> vol_ok (img st) mkfs_sb 2 \<and>
    (\<forall>b < 2000. blk_used (img st) mkfs_sb b \<longleftrightarrow> unat b < image_blocks fs) \<and>
    stored (img st) 0 T_DIR ((length (root_bytes fs) div BSIZE + 1) * BSIZE) (root_bytes fs) \<and>
    (\<forall>k < length fs. stored (img st) (Suc k) T_FILE (length (content (fs ! k))) (content (fs ! k))) \<and>
    (\<forall>k. length fs < k \<longrightarrow> Suc k < NINODES \<longrightarrow> itype (kernel_inode (img st) (ino k)) = 0) \<and>
    (\<forall>k \<le> length fs. \<forall>j \<le> length fs. j \<noteq> k \<longrightarrow>
       blocks_of (img st) (kernel_inode (img st) (ino j)) \<inter> blocks_of (img st) (kernel_inode (img st) (ino k)) = {})"
  using built_volume [OF assms] .

text \<open>An image with the file \<open>user/_wc\<close>, which the host reads in two pieces.\<close>

definition sample_out :: hostfile where
  "sample_out = \<lparr>fname = [102, 115], freads = Some []\<rparr>"

definition sample_file :: hostfile where
  "sample_file = \<lparr>fname = [117, 115, 101, 114, 47, 95, 119, 99], freads = Some [[1, 2, 3], [4]]\<rparr>"

lemma sample_file_facts: "readable sample_file" "content sample_file = [1, 2, 3, 4]" "image_blocks [sample_file] = 48"
  by (simp_all add: readable_def content_def image_blocks_def fsblocks_def sample_file_def shortname_def file_bytes_def)

theorem mkfs_builds_volume_witness:
  "\<exists>st. mkfs_main (\<lambda>_. True) [sample_out, sample_file] = Ok st \<and> vol_ok (img st) mkfs_sb 2 \<and> stored (img st) 1 T_FILE 4 [1, 2, 3, 4] \<and>
     root_bytes [sample_file] = [1, 0, 46] @ replicate 13 0 @ [1, 0, 46, 46] @ replicate 12 0 @ [2, 0, 119, 99] @ replicate 12 0"
proof -
  have four: "Suc (Suc (Suc (Suc 0))) = 4" by simp
  have "readable f" if "f \<in> set [sample_file]" for f using that sample_file_facts(1) by simp
  from mkfs_builds_volume [of "\<lambda>_. True" sample_out "[sample_file]", OF _ _ _ this]
  obtain st where "mkfs_main (\<lambda>_. True) [sample_out, sample_file] = Ok st" "vol_ok (img st) mkfs_sb 2"
    "stored (img st) 1 T_FILE 4 [1, 2, 3, 4]"
    by (auto simp: sample_file_facts sample_out_def four simp del: mkfs_main.simps)
  moreover have "root_bytes [sample_file] = [1, 0, 46] @ replicate 13 0 @ [1, 0, 46, 46] @ replicate 12 0 @ [2, 0, 119, 99] @ replicate 12 0"
    by code_simp
  ultimately show ?thesis by blast
qed

end
