(* ===== verification/Boot.thy ===== *)
theory Boot
  imports Mkfs
begin

text \<open>
  The file system from the image to the first read. \<open>power_on\<close> is the memory of the kernel after \<open>binit\<close>: all other variables are
  zero, as C initialises them. The kernel then calls \<open>iinit\<close> (\<open>main.c\<close>) and, in the first process, \<open>fsinit\<close> (\<open>forkret\<close>
  in \<open>proc.c\<close>).
\<close>

definition power_on :: "(u32 \<Rightarrow> block) \<Rightarrow> fstate" where
  "power_on d = lstate.extend
     (bstate.extend (bboot d)
       \<lparr>lstart = 0, lsize = 0, outstanding = 0, committing = False, ldev = 0, lhn = 0, lhblock = replicate LOGSIZE 0\<rparr>)
     \<lparr>sb = \<lparr>magic = 0, sb_size = 0, nblocks = 0, ninodes = 0, nlog = 0, logstart = 0, inodestart = 0, bmapstart = 0\<rparr>,
      itable = (\<lambda>_. zero_inode)\<rparr>"

definition mount_root :: "int \<Rightarrow> (u32 \<Rightarrow> block) \<Rightarrow> fstate res" where
  "mount_root p d = fsinit p ROOTDEV (iinit (power_on d))"

lemma power_on_simps [simp]:
  "bufs (power_on d) = bufs (bboot d)" "disk (power_on d) = d" "writes (power_on d) = writes (bboot d)"
  "outstanding (power_on d) = 0" "\<not> committing (power_on d)" "lhblock (power_on d) = replicate LOGSIZE 0"
  "itable (power_on d) = (\<lambda>_. zero_inode)"
  using bboot_ok(2) [of d] by (simp_all add: power_on_def lstate.defs bstate.defs)

text \<open>An inode table without references.\<close>

definition no_refs :: "(nat \<Rightarrow> inode) \<Rightarrow> bool" where
  "no_refs t \<longleftrightarrow> (\<forall>i. iref (t i) = 0 \<and> \<not> slocked (ilk (t i)))"

lemma iinit_ok:
  "no_refs (itable st) \<Longrightarrow> no_refs (itable (iinit st)) \<and> iinit st = st\<lparr>itable := itable (iinit st)\<rparr>"
proof -
  let ?f = "\<lambda>i. upd_inode i (\<lambda>ip. ip\<lparr>ilk := initsleeplock ''inode''\<rparr>)"
  have "no_refs (itable st) \<Longrightarrow> no_refs (itable (fold ?f is st)) \<and> fold ?f is st = st\<lparr>itable := itable (fold ?f is st)\<rparr>" for "is"
  proof (induction "is" arbitrary: st)
    case (Cons i "is")
    let ?s = "?f i st"
    have "no_refs (itable ?s)" using Cons.prems by (simp add: no_refs_def initsleeplock_def)
    from Cons.IH [OF this] show ?case by (simp add: upd_inode_def)
  qed simp
  then show "no_refs (itable st) \<Longrightarrow> no_refs (itable (iinit st)) \<and> iinit st = st\<lparr>itable := itable (iinit st)\<rparr>"
    unfolding iinit_def by blast
qed

lemma readsb_ok:
  fixes st :: "'a fstate_scheme"
  assumes ok: "bc_ok st" and zero: "\<And>m. arefs (bview_of st) m = 0"
  shows "\<exists>s. readsb p ROOTDEV st = Ok s \<and> bc_ok s \<and> bview_of s = bview_of st \<and>
    bstate.more s = bstate.more (st\<lparr>sb := get_sb (disk st 1)\<rparr>)"
proof -
  let ?V = "bview_of st"
  have cl: "acont ?V 1 = disk st 1" "aheld ?V 1 = None" using bview_clean [OF ok zero] by auto
  have "{m. arefs ?V m \<noteq> 0} = {}" using zero by simp
  then have room: "card {m. arefs ?V m \<noteq> 0} < NBUF" by simp
  obtain x s1 where x: "bread p ROOTDEV 1 st = Ok (x, s1)" "bc_ok s1" "cached_at s1 x 1" "bframe st s1"
    "bview_of s1 = ?V\<lparr>arefs := (arefs ?V)(1 := 1), aheld := (aheld ?V)(1 := Some p)\<rparr>"
    using bread_ok [OF ok, of 1 p] cl zero room by (auto simp: bread_post_def)
  have dx: "bdata (bufs s1 x) = disk st 1" using cached_data [OF x(2,3)] by (simp add: x(5) cl(1))
  have d1: "disk s1 = disk st" using bview_disk [of s1] by (simp add: x(5))
  define s2 where "s2 = s1\<lparr>sb := get_sb (disk st 1)\<rparr>"
  have v2: "bview_of s2 = bview_of s1" "bc_ok s2" "cached_at s2 x 1" "disk s2 = disk s1"
    using x(2,3) bview_ext [of s2 s1] by (simp_all add: s2_def)
  obtain s3 where s3: "brelse p x s2 = Ok s3" "bc_ok s3" "bframe s2 s3"
    "bview_of s3 = (bview_of s2)\<lparr>arefs := (arefs (bview_of s2))(1 := arefs (bview_of s2) 1 - 1), aheld := (aheld (bview_of s2))(1 := None)\<rparr>"
    using brelse_ok [OF v2(2,3), of p] by (auto simp: v2(1,4) x(5) d1 cl(1))
  have "readsb p ROOTDEV st = Ok s3" using x(1) s3(1) by (simp add: readsb_def dx s2_def)
  moreover have "bview_of s3 = ?V" using zero cl by (intro bview.equality) (auto simp: s3(4) v2(1) x(5) fun_eq_iff)
  moreover have "bstate.more s3 = bstate.more (st\<lparr>sb := get_sb (disk st 1)\<rparr>)"
    using bframe_more [OF s3(3)] bframe_more [OF x(4)] by (cases st; cases s1) (simp add: s2_def)
  ultimately show ?thesis using s3(2) by blast
qed

lemma mount_root_ok:
  assumes sb: "get_sb (d 1) = mkfs_sb" and log: "hdr_n 2 d = 0"
  shows "\<exists>s. mount_root p d = Ok s \<and> idle s \<and> sb s = mkfs_sb \<and> lstart s = 2 \<and> no_refs (itable s) \<and>
    (\<forall>m. m \<notin> logarea 2 \<longrightarrow> disk s m = d m)"
proof -
  define st where "st = iinit (power_on d)"
  have "no_refs (itable (power_on d))" by (simp add: no_refs_def zero_inode_def initsleeplock_def)
  from iinit_ok [OF this] have nr: "no_refs (itable st)" and st: "st = (power_on d)\<lparr>itable := itable st\<rparr>" by (simp_all add: st_def)
  have f: "bufs st = bufs (bboot d)" "disk st = d" "writes st = writes (bboot d)" "outstanding st = 0" "\<not> committing st"
    "lhblock st = replicate LOGSIZE 0" by (subst st, simp)+
  have b: "bc_ok st" "arefs (bview_of st) m = 0" for m
    using bview_ext [of st "bboot d"] bboot_ok f by simp_all
  obtain s1 where s1: "readsb p ROOTDEV st = Ok s1" "bc_ok s1" "bview_of s1 = bview_of st" "bstate.more s1 = bstate.more (st\<lparr>sb := mkfs_sb\<rparr>)"
    using readsb_ok [OF b(1) b(2), of p] f(2) sb by auto
  note lp = log_part_eq [OF more_log_part [OF s1(4)]]
  have m1: "sb s1 = mkfs_sb" "itable s1 = itable st" using lp fs_more [of s1 "st\<lparr>sb := mkfs_sb\<rparr>"] by simp_all
  define s2 where "s2 = s1\<lparr>lstart := 2, lsize := 30, ldev := ROOTDEV\<rparr>"
  have d1: "disk s1 = d" using bview_disk [of s1] bview_disk [of st] f(2) s1(3) by simp
  have v2: "bc_ok s2" "bview_of s2 = bview_of st" "disk s2 = d" using bview_ext [of s2 s1] s1(2,3) d1 by (simp_all add: s2_def)
  have lv: "log_valid (lstart s2) (disk s2)" using log by (simp add: log_valid_def v2(3)) (simp add: s2_def log)
  have z2: "arefs (bview_of s2) m = 0" for m using b(2) by (simp add: v2(2))
  have l2: "ldev s2 = ROOTDEV" "length (lhblock s2) = LOGSIZE" "lstart s2 = 2" using lp f(6) by (simp_all add: s2_def)
  obtain s bs where s: "recover_from_log p s2 = Ok s" "bc_ok s" "lhn s = 0" "lstart s = 2" "ldev s = ROOTDEV" "\<forall>m. arefs (bview_of s) m = 0"
    "outstanding s = 0" "lsize s = 30" "\<not> committing s" "length (lhblock s) = LOGSIZE" "lstate.more s = lstate.more s1"
    "disk s = upds d (recover_writes 2 d bs)"
    using recover_ok [OF v2(1) l2(1,2) z2 lv, of p] lp f(4,5) unfolding l2(3) v2(3) by (auto simp: s2_def)
  have dk: "disk s = d(2 := put_head 0 bs (d 2))" by (simp add: s(12) recover_writes_def log)
  have "hdr_n 2 (disk s) = 0" by (rule hdr_n_put [of 0 "disk s" 2 bs "d 2"]) (simp_all add: dk)
  then have "idle s" using s by (simp add: idle_def)
  moreover have "mount_root p d = Ok s"
    using s1(1) m1(1) s(1) by (simp add: mount_root_def fsinit_def st_def [symmetric] initlog_def sizeof_logheader_def s2_def)
  moreover have "sb s = mkfs_sb" "no_refs (itable s)" using fs_more [OF s(11)] m1 nr by simp_all
  moreover have "disk s m = d m" if "m \<notin> logarea 2" for m using that logaddr_area(2) [of 2] by (auto simp: dk)
  ultimately show ?thesis using s(4) by blast
qed

text \<open>The first use of an inode: a free entry of the table is taken and loaded.\<close>

lemma first_inode:
  assumes idl: "idle st" and nr: "no_refs (itable st)" and sb: "sb st = mkfs_sb" "lstart st = 2"
    and ip: "itype (disk_inode (disk st) n) \<noteq> 0"
  shows "\<exists>s1 s2 s3. begin_op st = Ok s1 \<and> iget ROOTDEV n s1 = Ok (0, s2) \<and> ilock p (Some 0) s2 = Ok s3 \<and> tx_can p {} 26 s3 \<and>
    cont s3 = disk st \<and> sb s3 = mkfs_sb \<and> lstart s3 = 2 \<and> idev (itable s3 0) = ROOTDEV \<and> inum (itable s3 0) = n \<and>
    itype (itable s3 0) = itype (disk_inode (disk st) n) \<and> isize (itable s3 0) = isize (disk_inode (disk st) n) \<and>
    addrs (itable s3 0) = addrs (disk_inode (disk st) n)"
proof -
  define s1 where "s1 = st\<lparr>outstanding := 1\<rparr>"
  note b = idle_begin [OF idl, folded s1_def]
  have find: "find (\<lambda>i. 0 < iref (itable s1 i) \<and> idev (itable s1 i) = ROOTDEV \<and> inum (itable s1 i) = n) [0..<NINODE] = None"
    using nr by (simp add: find_None_iff no_refs_def s1_def)
  have free: "find (\<lambda>i. iref (itable s1 i) = 0) [0..<NINODE] = Some 0"
    using nr upt_conv_Cons [of 0 NINODE] by (simp add: no_refs_def s1_def del: upt.simps)
  define s2 where "s2 = upd_inode 0 (\<lambda>ip. ip\<lparr>idev := ROOTDEV, inum := n, iref := 1, ivalid := False\<rparr>) s1"
  have g: "iget ROOTDEV n s1 = Ok (0, s2)" by (simp only: iget_def find free option.simps s2_def)
  have can2: "tx_can p {} 26 s2" using b(2) by (simp add: s2_def)
  have e2: "idev (itable s2 0) = ROOTDEV" "1 \<le> iref (itable s2 0)" "\<not> ivalid (itable s2 0)" "\<not> slocked (ilk (itable s2 0))"
    "inum (itable s2 0) = n" "sb s2 = mkfs_sb" "cont s2 = disk st" "lstart s2 = 2"
    using nr sb b(3) by (simp_all add: s2_def no_refs_def s1_def)
  define jp where "jp = (itable s2 0)\<lparr>ilk := (ilk (itable s2 0))\<lparr>slocked := True, slpid := p\<rparr>\<rparr>"
  note il = ilock_loads(2) [OF can2 e2(1-4), unfolded e2(5-8), folded jp_def]
  have ld: "get_dinode (dinode_off n) (disk st (IBLOCK n mkfs_sb)) jp = jp\<lparr>itype := itype (disk_inode (disk st) n),
      major := major (disk_inode (disk st) n), minor := minor (disk_inode (disk st) n), nlink := nlink (disk_inode (disk st) n),
      isize := isize (disk_inode (disk st) n), addrs := addrs (disk_inode (disk st) n)\<rparr>"
    by (simp add: disk_inode_def get_dinode_def)
  have dj: "idev jp = ROOTDEV" "inum jp = n" using e2 by (simp_all add: jp_def)
  obtain s3 where "ilock p (Some 0) s2 = Ok s3" "cont s3 = disk st" "sb s3 = mkfs_sb" "lstart s3 = 2" "tx_can p {} 26 s3"
    "itable s3 = (itable s2)(0 := (get_dinode (dinode_off n) (disk st (IBLOCK n mkfs_sb)) jp)\<lparr>ivalid := True\<rparr>)"
    using il ip by (auto simp: ld)
  then show ?thesis using b(1) g dj by (auto simp: ld)
qed

text \<open>A file that \<open>mkfs\<close> stored is read from its first to its last byte.\<close>

lemma read_stored:
  assumes st: "stored d k ty (length bs) bs" "ty \<noteq> 0" "vol_ok d mkfs_sb 2" and len: "length bs \<le> MAXFILE * BSIZE" and k: "Suc k < NINODES"
    and idl: "idle s" "no_refs (itable s)" "sb s = mkfs_sb" "lstart s = 2" and same: "\<forall>m. m \<notin> logarea 2 \<longrightarrow> disk s m = d m"
  shows "\<exists>s1 i s2 s3 s4. begin_op s = Ok s1 \<and> iget ROOTDEV (ino k) s1 = Ok (i, s2) \<and> ilock p (Some i) s2 = Ok s3 \<and>
    readi p (\<lambda>_ _. True) i 0 (of_nat (length bs)) s3 = Ok (int (length bs), bs, s4)"
proof -
  let ?ip = "kernel_inode d (ino k)" and ?n = "length bs"
  have f: "file_ok d mkfs_sb 2 ?ip" "itype ?ip = ty" "unat (isize ?ip) = ?n" "\<forall>bn < MAXFILE. fblock d ?ip bn \<noteq> 0 \<longleftrightarrow> bn * BSIZE < ?n"
    "\<forall>y < MAXFILE * BSIZE. fbyte d ?ip y = zpad bs y" using st(1) by (simp_all add: stored_def Let_def)
  have "IBLOCK (ino k) mkfs_sb \<notin> logarea 2"
    using IBLOCK_range [of "ino k"] unat_ino [of k] k logarea_2 [of "IBLOCK (ino k) mkfs_sb"] by force
  then have di: "disk_inode (disk s) (ino k) = disk_inode d (ino k)" using same by (simp add: disk_inode_def)
  have "itype (disk_inode (disk s) (ino k)) \<noteq> 0" using f(2) st(2) by (simp add: di kernel_inode_def)
  from first_inode [OF idl this, of p] obtain s1 s2 s3 where
    r: "begin_op s = Ok s1" "iget ROOTDEV (ino k) s1 = Ok (0, s2)" "ilock p (Some 0) s2 = Ok s3" "tx_can p {} 26 s3" "cont s3 = disk s"
      "sb s3 = mkfs_sb" "lstart s3 = 2" "idev (itable s3 0) = ROOTDEV" "inum (itable s3 0) = ino k"
      "isize (itable s3 0) = isize (disk_inode d (ino k))" "addrs (itable s3 0) = addrs (disk_inode d (ino k))" unfolding di by blast
  note out = outside_log [OF same st(3)] and o2 = outside_log(2-4) [OF same st(3) f(1)]
  have ad: "addrs (itable s3 0) = addrs ?ip" using r(11) by (simp add: kernel_inode_def)
  have sz: "unat (isize (itable s3 0)) = ?n" using r(10) f(3) by (simp add: kernel_inode_def)
  have "file_ok (disk s) mkfs_sb 2 (itable s3 0)"
    using o2(1) r(8,9) ad unfolding file_ok_def same_addrs(1) [OF ad] by (simp add: kernel_inode_def)
  then have inv: "fs_inv s3 0" using out(1) by (simp add: fs_inv_def r(5-7))
  have "fblock (disk s) ?ip (x div BSIZE) \<noteq> 0" if "x < ?n" for x
  proof -
    have "x div BSIZE < MAXFILE" by (rule less_mult_imp_div_less) (use that len in linarith)
    moreover have "x div BSIZE * BSIZE < ?n" using that div_times_less_eq_dividend [of x BSIZE] by linarith
    ultimately show ?thesis using f(4) o2(2) by simp
  qed
  then have sol: "solid s3 0" using len by (simp add: solid_def sz r(5) same_addrs(1) [OF ad])
  have un: "unat (of_nat ?n :: u32) = ?n" by (rule of_nat_inverse [OF refl]) (use len in simp)
  obtain s4 where s4: "readi p (\<lambda>_ _. True) 0 0 (of_nat ?n) s3 = Ok (int ?n, map (fbyte (disk s) ?ip) [0..<?n], s4)"
    using readi_ok [OF inv sol r(4), of 0 "of_nat ?n" "\<lambda>_ _. True"] len by (auto simp: un sz r(5) same_addrs(2) [OF ad])
  have "map (fbyte (disk s) ?ip) [0..<?n] = bs"
    using len o2(3) f(5) by (intro nth_equalityI) (simp_all add: zpad_def)
  with s4 r(1-3) show ?thesis by auto
qed

end
