(* ===== verification/Tools.thy ===== *)
theory Tools
  imports Ulib
begin

text \<open>
  The small programs of \<open>user/\<close> and the random numbers of \<open>user/grind.c\<close>.

  A program is a function from its arguments and from the answers of the kernel to the list of what it does. A file is the list of
  the answers of \<open>read\<close>: \<open>None\<close> for -1, no bytes for 0; a list that ends stands for a read that returns 0.
  A file that cannot be opened is \<open>None\<close>. \<open>Say\<close> is a formatted message with the strings it shows.
\<close>

datatype ucall =
    Write int "u8 list"
  | Say int string "u8 list list"
  | Counts nat nat nat "u8 list"
  | Row "u8 list" u16 u32 int
  | Exec "u8 list list"
  | Open "u8 list"
  | Mknod "u8 list"
  | Dup int
  | Kill int
  | Unlink "u8 list"
  | Mkdir "u8 list"
  | Link "u8 list" "u8 list"
  | Set_priority int int
  | Exit int

type_synonym reads = "u8 list option list"

subsection \<open>\<open>wc\<close>\<close>

record wcount =
  nl :: nat
  nw :: nat
  nc :: nat
  inword :: bool

definition blank :: "u8 \<Rightarrow> bool" where
  "blank b \<longleftrightarrow> b \<in> set [32, 13, 9, 10, 11]"

text \<open>The body of the loop over the buffer. \<open>c\<close> is the largest of the counters.\<close>

definition wc_byte :: "u8 \<Rightarrow> wcount \<Rightarrow> wcount res" where
  "wc_byte b k =
     (if nc k = 2 ^ 31 - 1 then Err (Undef ''wc: int overflow'')
      else
        let k = k\<lparr>nc := nc k + 1\<rparr>; k = (if b = 10 then k\<lparr>nl := nl k + 1\<rparr> else k) in
        Ok (if blank b then k\<lparr>inword := False\<rparr> else if \<not> inword k then k\<lparr>nw := nw k + 1, inword := True\<rparr> else k))"

fun wc_bytes :: "u8 list \<Rightarrow> wcount \<Rightarrow> wcount res" where
  "wc_bytes [] k = Ok k"
| "wc_bytes (b # bs) k = bnd (wc_byte b k) (wc_bytes bs)"

fun wc_loop :: "reads \<Rightarrow> wcount \<Rightarrow> (wcount \<times> bool) res" where
  "wc_loop [] k = Ok (k, False)"
| "wc_loop (None # rs) k = Ok (k, True)"
| "wc_loop (Some bs # rs) k = (if bs = [] then Ok (k, False) else bnd (wc_bytes bs k) (wc_loop rs))"

text \<open>The result says whether the program goes on.\<close>

definition wc :: "reads \<Rightarrow> u8 list \<Rightarrow> (ucall list \<times> bool) res" where
  "wc rs name =
     bnd (wc_loop rs \<lparr>nl = 0, nw = 0, nc = 0, inword = False\<rparr>) (\<lambda>(k, failed). Ok
       (if failed then ([Say 1 ''wc: read error'' [], Exit 1], False) else ([Counts (nl k) (nw k) (nc k) name], True)))"

fun wc_args :: "(u8 list \<times> reads option) list \<Rightarrow> ucall list res" where
  "wc_args [] = Ok [Exit 0]"
| "wc_args ((name, None) # as) = Ok [Say 1 ''wc: cannot open'' [name], Exit 1]"
| "wc_args ((name, Some rs) # as) =
     bnd (wc rs name) (\<lambda>(t, go). if go then bnd (wc_args as) (\<lambda>t'. Ok (t @ t')) else Ok t)"

definition wc_main :: "reads \<Rightarrow> (u8 list \<times> reads option) list \<Rightarrow> ucall list res" where
  "wc_main stdin as =
     (if as = [] then bnd (wc stdin []) (\<lambda>(t, go). Ok (if go then t @ [Exit 0] else t)) else wc_args as)"

subsection \<open>\<open>cat\<close>\<close>

text \<open>\<open>wr n\<close> is the answer of the \<open>n\<close>-th \<open>write\<close> of the program; the results are also the number of writes and whether it goes on.\<close>

fun cat :: "(nat \<Rightarrow> int) \<Rightarrow> nat \<Rightarrow> reads \<Rightarrow> ucall list \<times> nat \<times> bool" where
  "cat wr n [] = ([], n, True)"
| "cat wr n (None # rs) = ([Say 2 ''cat: read error'' [], Exit 1], n, False)"
| "cat wr n (Some bs # rs) =
     (if bs = [] then ([], n, True)
      else if wr n \<noteq> int (length bs) then ([Write 1 bs, Say 2 ''cat: write error'' [], Exit 1], n + 1, False)
      else let (t, n', go) = cat wr (n + 1) rs in (Write 1 bs # t, n', go))"

fun cat_args :: "(nat \<Rightarrow> int) \<Rightarrow> nat \<Rightarrow> (u8 list \<times> reads option) list \<Rightarrow> ucall list" where
  "cat_args wr n [] = [Exit 0]"
| "cat_args wr n ((name, None) # as) = [Say 2 ''cat: cannot open'' [name], Exit 1]"
| "cat_args wr n ((name, Some rs) # as) = (let (t, n, go) = cat wr n rs in if go then t @ cat_args wr n as else t)"

definition cat_main :: "(nat \<Rightarrow> int) \<Rightarrow> reads \<Rightarrow> (u8 list \<times> reads option) list \<Rightarrow> ucall list" where
  "cat_main wr stdin as = (if as = [] then (let (t, _, go) = cat wr 0 stdin in if go then t @ [Exit 0] else t) else cat_args wr 0 as)"

subsection \<open>\<open>ls\<close>\<close>

text \<open>\<open>fmtname\<close>: the loop from the end of the path to its last slash, and the blank-padded rest.\<close>

definition after_slash :: "u8 list \<Rightarrow> u8 list" where
  "after_slash path = rev (takeWhile (\<lambda>b. b \<noteq> 47) (rev path))"

definition fmtname :: "u8 list \<Rightarrow> u8 list" where
  "fmtname path = (let p = after_slash path in if 14 \<le> length p then p else p @ replicate (14 - length p) 32)"

text \<open>The size is shown with \<open>%l\<close> for a file and with \<open>%d\<close> for an entry of a directory; both go through an \<open>int\<close>.\<close>

record lsans =
  ls_open :: bool
  ls_fstat :: "(u16 \<times> u32 \<times> u64) option"
  ls_reads :: "u8 list list"
  ls_stat :: "u8 list \<Rightarrow> (u16 \<times> u32 \<times> u64) option"

fun ls_dir :: "(u8 list \<Rightarrow> (u16 \<times> u32 \<times> u64) option) \<Rightarrow> u8 list \<Rightarrow> u8 list list \<Rightarrow> ucall list" where
  "ls_dir st path [] = []"
| "ls_dir st path (de # des) =
     (if length de \<noteq> 16 then []
      else if de ! 0 = 0 \<and> de ! 1 = 0 then ls_dir st path des
      else
        let buf = path @ [47] @ takeWhile (\<lambda>b. b \<noteq> 0) (drop 2 de) in
        (case st buf of
           None \<Rightarrow> Say 1 ''ls: cannot stat'' [buf]
         | Some (ty, ino, sz) \<Rightarrow> Row (fmtname buf) ty ino (sint (ucast sz :: i32))) # ls_dir st path des)"

definition ls :: "u8 list \<Rightarrow> lsans \<Rightarrow> ucall list" where
  "ls path a =
     (if \<not> ls_open a then [Say 2 ''ls: cannot open'' [path]]
      else case ls_fstat a of
        None \<Rightarrow> [Say 2 ''ls: cannot stat'' [path]]
      | Some (ty, ino, sz) \<Rightarrow>
          if ty = 3 \<or> ty = 2 then [Row (fmtname path) ty ino (uint (ucast sz :: u32))]
          else if ty = 1 then
            (if 512 < length path + 1 + 14 + 1 then [Say 1 ''ls: path too long'' []] else ls_dir (ls_stat a) path (ls_reads a))
          else [])"

definition ls_main :: "u8 list list \<Rightarrow> (u8 list \<Rightarrow> lsans) \<Rightarrow> ucall list" where
  "ls_main args a = (if args = [] then ls [46] (a [46]) else concat (map (\<lambda>p. ls p (a p)) args)) @ [Exit 0]"

subsection \<open>Programs of one system call\<close>

fun echo_args :: "u8 list list \<Rightarrow> ucall list" where
  "echo_args [] = [Exit 0]"
| "echo_args (a # as) = Write 1 a # Write 1 (if as = [] then [10] else [32]) # echo_args as"

text \<open>The loops of \<open>rm\<close> and \<open>mkdir\<close> end at the first failure.\<close>

fun rm_args :: "(u8 list \<Rightarrow> int) \<Rightarrow> u8 list list \<Rightarrow> ucall list" where
  "rm_args r [] = [Exit 0]"
| "rm_args r (a # as) = Unlink a # (if r a < 0 then [Say 2 ''rm: failed to delete'' [a], Exit 0] else rm_args r as)"

definition rm_main :: "(u8 list \<Rightarrow> int) \<Rightarrow> u8 list list \<Rightarrow> ucall list" where
  "rm_main r as = (if as = [] then [Say 2 ''Usage: rm files...'' [], Exit 1] else rm_args r as)"

fun mkdir_args :: "(u8 list \<Rightarrow> int) \<Rightarrow> u8 list list \<Rightarrow> ucall list" where
  "mkdir_args r [] = [Exit 0]"
| "mkdir_args r (a # as) = Mkdir a # (if r a < 0 then [Say 2 ''mkdir: failed to create'' [a], Exit 0] else mkdir_args r as)"

definition mkdir_main :: "(u8 list \<Rightarrow> int) \<Rightarrow> u8 list list \<Rightarrow> ucall list" where
  "mkdir_main r as = (if as = [] then [Say 2 ''Usage: mkdir files...'' [], Exit 1] else mkdir_args r as)"

definition ln_main :: "(u8 list \<Rightarrow> u8 list \<Rightarrow> int) \<Rightarrow> u8 list list \<Rightarrow> ucall list" where
  "ln_main r as =
     (case as of
        [old, new] \<Rightarrow> Link old new # (if r old new < 0 then [Say 2 ''link: failed'' [old, new]] else []) @ [Exit 0]
      | _ \<Rightarrow> [Say 2 ''Usage: ln old new'' [], Exit 1])"

fun kill_args :: "u8 list list \<Rightarrow> ucall list res" where
  "kill_args [] = Ok [Exit 0]"
| "kill_args (a # as) = bnd (atoi a) (\<lambda>pid. bnd (kill_args as) (\<lambda>t. Ok (Kill pid # t)))"

definition kill_main :: "u8 list list \<Rightarrow> ucall list res" where
  "kill_main as = (if as = [] then Ok [Say 2 ''usage: kill pid...'' [], Exit 1] else kill_args as)"

definition set_priority_main :: "(int \<Rightarrow> int \<Rightarrow> int) \<Rightarrow> u8 list list \<Rightarrow> ucall list res" where
  "set_priority_main r as =
     (if length as < 2 then Ok [Say 1 ''Usage: set_priority pid priority'' [], Exit 1]
      else
        bnd (atoi (as ! 0)) (\<lambda>priority. bnd (atoi (as ! 1)) (\<lambda>pid. Ok
          (if priority < 0 \<or> 100 < priority then [Say 1 ''Invalid priority'' [], Exit 1]
           else Set_priority priority pid # (if r priority pid = - 1 then [Say 1 ''Invalid pid'' [], Exit 1] else [Exit 0])))))"

subsection \<open>\<open>init\<close>\<close>

text \<open>Each round has the answer of \<open>fork\<close> and those of \<open>wait\<close>; the lists end where a call has not returned yet. In the
  child \<open>exec\<close> returns only when it fails.\<close>

fun init_wait :: "int \<Rightarrow> int list \<Rightarrow> bool option" where
  "init_wait pid [] = None"
| "init_wait pid (wpid # ws) = (if wpid = pid then Some True else if wpid < 0 then Some False else init_wait pid ws)"

fun init_loop :: "bool \<Rightarrow> (int \<times> int list) list \<Rightarrow> ucall list" where
  "init_loop execs [] = []"
| "init_loop execs ((pid, ws) # rs) = Say 1 ''init: starting sh'' [] #
     (if pid < 0 then [Say 1 ''init: fork failed'' [], Exit 1]
      else if pid = 0 then Exec [[115, 104]] # (if execs then [] else [Say 1 ''init: exec sh failed'' [], Exit 1])
      else case init_wait pid ws of
          None \<Rightarrow> []
        | Some True \<Rightarrow> init_loop execs rs
        | Some False \<Rightarrow> [Say 1 ''init: wait returned an error'' [], Exit 1])"

text \<open>\<open>opened\<close> tells whether the console could be opened at once.\<close>

definition init_main :: "bool \<Rightarrow> bool \<Rightarrow> (int \<times> int list) list \<Rightarrow> ucall list" where
  "init_main opened execs rs =
     (let console = [99, 111, 110, 115, 111, 108, 101] in
      Open console # (if opened then [] else [Mknod console, Open console]) @ [Dup 0, Dup 0] @ init_loop execs rs)"

subsection \<open>Random numbers\<close>

text \<open>The state is an \<open>unsigned long\<close>; \<open>hi\<close>, \<open>lo\<close> and \<open>x\<close> are \<open>long\<close>.\<close>

definition do_rand :: "u64 \<Rightarrow> u64 \<times> int" where
  "do_rand ctx =
     (let x = uint (ctx mod 0x7ffffffe) + 1;
          hi = x div 127773;
          lo = x mod 127773;
          x = 16807 * lo - 2836 * hi;
          x = (if x < 0 then x + 0x7fffffff else x);
          x = x - 1
      in (of_int x, x))"

subsection \<open>What the programs do\<close>

text \<open>The bytes of a file up to its end, when no read fails.\<close>

fun all_bytes :: "reads \<Rightarrow> u8 list option" where
  "all_bytes [] = Some []"
| "all_bytes (None # rs) = None"
| "all_bytes (Some bs # rs) = (if bs = [] then Some [] else map_option (\<lambda>r. bs @ r) (all_bytes rs))"

text \<open>Words are the longest runs of bytes that are not blank.\<close>

function words :: "u8 list \<Rightarrow> u8 list list" where
  "words bs =
     (let b = dropWhile blank bs in
      if b = [] then [] else takeWhile (\<lambda>x. \<not> blank x) b # words (dropWhile (\<lambda>x. \<not> blank x) b))"
  by pat_completeness auto
termination
proof (relation "measure length")
  fix bs b :: "u8 list" assume b: "b = dropWhile blank bs" "b \<noteq> []"
  then have "\<not> blank (hd b)" using hd_dropWhile [of blank bs] by auto
  then have "length (dropWhile (\<lambda>x. \<not> blank x) b) < length b" using b(2) by (cases b) (auto intro: le_imp_less_Suc length_dropWhile_le)
  then show "(dropWhile (\<lambda>x. \<not> blank x) b, bs) \<in> measure length" using length_dropWhile_le [of blank bs] b(1) by simp
qed simp

declare words.simps [simp del]

lemma words_simps [simp]:
  "words [] = []" "blank b \<Longrightarrow> words (b # bs) = words bs"
  "\<not> blank b \<Longrightarrow> words (b # bs) = (b # takeWhile (\<lambda>x. \<not> blank x) bs) # words (dropWhile (\<lambda>x. \<not> blank x) bs)"
  by (simp_all add: words.simps [of "[]"] words.simps [of "b # bs"]) (simp add: words.simps [of bs])

lemma wc_bytes_counts:
  "nc k + length bs < 2 ^ 31 \<Longrightarrow> wc_bytes bs k = Ok \<lparr>nl = nl k + count_list bs 10,
     nw = nw k + length (words (if inword k then dropWhile (\<lambda>x. \<not> blank x) bs else bs)), nc = nc k + length bs,
     inword = (if bs = [] then inword k else \<not> blank (last bs))\<rparr>"
proof (induction bs arbitrary: k)
  case Nil
  then show ?case by (cases k) simp
next
  case (Cons b bs)
  have "nc k \<noteq> 2 ^ 31 - 1" using Cons.prems by simp
  moreover have "blank 10" by (simp add: blank_def)
  ultimately show ?case using Cons.IH Cons.prems by (auto simp: wc_byte_def Let_def)
qed

lemma wc_bytes_append: "wc_bytes (bs @ bs') k = bnd (wc_bytes bs k) (wc_bytes bs')"
  by (induction bs arbitrary: k) (auto simp: bnd_assoc intro!: bnd_cong)

lemma wc_loop_bytes: "all_bytes rs = Some bs \<Longrightarrow> wc_loop rs k = bnd (wc_bytes bs k) (\<lambda>k. Ok (k, False))"
proof (induction rs k arbitrary: bs rule: wc_loop.induct)
  case (3 b rs k)
  show ?case
  proof (cases "b = []")
    case False
    with "3.prems" obtain r where r: "all_bytes rs = Some r" "bs = b @ r" by auto
    have "bnd (wc_bytes b k) (wc_loop rs) = bnd (wc_bytes b k) (\<lambda>k. bnd (wc_bytes r k) (\<lambda>k. Ok (k, False)))"
      by (rule bnd_cong [OF refl "3.IH" [OF False _ r(1)]])
    then show ?thesis using False by (simp add: r(2) wc_bytes_append bnd_assoc)
  qed (use "3.prems" in auto)
qed auto

text \<open>\<open>wc\<close> prints the number of newlines, words and bytes, whatever the sizes of the reads.\<close>

theorem wc_counts:
  assumes "all_bytes rs = Some bs" "length bs < 2 ^ 31"
  shows "wc rs name = Ok ([Counts (count_list bs 10) (length (words bs)) (length bs) name], True)"
  using wc_loop_bytes [OF assms(1)] wc_bytes_counts [of _ bs] assms(2) by (simp add: wc_def)

text \<open>\<open>cat\<close> copies its input when every write is complete.\<close>

fun written :: "ucall list \<Rightarrow> u8 list" where
  "written [] = []"
| "written (Write fd bs # t) = bs @ written t"
| "written (_ # t) = written t"

theorem cat_copies:
  assumes "all_bytes rs = Some bs" "snd (snd (cat wr n rs))"
  shows "written (fst (cat wr n rs)) = bs"
  using assms by (induction wr n rs arbitrary: bs rule: cat.induct) (auto simp: Let_def split: if_splits prod.splits)

theorem cat_stops:
  "snd (snd (cat wr n rs)) \<longleftrightarrow> all_bytes rs \<noteq> None \<and>
     (\<forall>i < length (takeWhile (\<lambda>r. r \<noteq> Some []) rs). wr (n + i) = int (length (the (rs ! i))))"
proof (induction wr n rs rule: cat.induct)
  case (3 wr n bs rs)
  then show ?case by (auto simp: Let_def All_less_Suc2 split: prod.splits)
qed auto

text \<open>The name that \<open>ls\<close> shows does not depend on the directory and is at least 14 bytes long.\<close>

theorem fmtname_base:
  assumes "47 \<notin> set name"
  shows "fmtname (dir @ 47 # name) = fmtname name" "fmtname name = name @ replicate (14 - length name) 32"
proof -
  have "takeWhile (\<lambda>b. b \<noteq> 47) (rev name @ ys) = rev name @ takeWhile (\<lambda>b. b \<noteq> 47) ys" for ys
    using assms by (intro takeWhile_append2) auto
  from this [of "47 # rev dir"] this [of "[]", unfolded append_Nil2 takeWhile.simps]
  have "after_slash (dir @ 47 # name) = name" "after_slash name = name" by (simp_all only: after_slash_def) simp_all
  then show "fmtname (dir @ 47 # name) = fmtname name" "fmtname name = name @ replicate (14 - length name) 32"
    by (simp_all add: fmtname_def Let_def)
qed

theorem echo_joins: "args \<noteq> [] \<Longrightarrow> written (echo_args args) = concat (map (\<lambda>a. a @ [32]) (butlast args)) @ last args @ [10]"
  by (induction args) auto

subsection \<open>The generator of Park and Miller\<close>

text \<open>The intermediate values fit into 31 bits and a sign, and the result is the product modulo the prime.\<close>

lemma schrage:
  fixes x :: int
  assumes "1 \<le> x" "x < 0x7fffffff"
  defines "y \<equiv> 16807 * (x mod 127773) - 2836 * (x div 127773)"
  shows "\<bar>y\<bar> < 2 ^ 31" "(if y < 0 then y + 0x7fffffff else y) = 16807 * x mod 0x7fffffff"
proof -
  define q r where "q = x div 127773" and "r = x mod 127773"
  have x: "x = 127773 * q + r" "0 \<le> r" "r < 127773" by (simp_all add: q_def r_def)
  have q: "0 \<le> q" "q \<le> 16807" using x assms(1,2) by linarith+
  have y: "y = 16807 * r - 2836 * q" by (simp add: y_def q_def r_def)
  show "\<bar>y\<bar> < 2 ^ 31" unfolding y using x q by (simp add: abs_less_iff)
  have e: "16807 * x = y + 0x7fffffff * q" unfolding y using x(1) by linarith
  have b: "y < 0x7fffffff" "- 0x7fffffff < y" unfolding y using x q by linarith+
  have "16807 * x mod 0x7fffffff = y mod 0x7fffffff" unfolding e by simp
  moreover have "y mod 0x7fffffff = (if y < 0 then y + 0x7fffffff else y)"
  proof (cases "y < 0")
    case True
    have "y mod 0x7fffffff = (y + 0x7fffffff) mod 0x7fffffff" by simp
    also have "\<dots> = y + 0x7fffffff" using True b(2) by (intro mod_pos_pos_trivial) simp_all
    finally show ?thesis using True by simp
  next
    case False
    then show ?thesis using b(1) by (simp add: mod_pos_pos_trivial)
  qed
  ultimately show "(if y < 0 then y + 0x7fffffff else y) = 16807 * x mod 0x7fffffff" by (simp only:)
qed

text \<open>The product is never 0, because the modulus is prime to 16807; 1407677000 is its inverse.\<close>

lemma inverse_16807:
  fixes x :: int
  assumes "0 \<le> x" "x < 0x7fffffff"
  shows "1407677000 * (16807 * x mod 0x7fffffff) mod 0x7fffffff = x"
proof -
  have "1407677000 * (16807 * x mod 0x7fffffff) mod 0x7fffffff = (1407677000 * 16807 mod 0x7fffffff) * x mod 0x7fffffff"
    by (simp only: mod_mult_right_eq mod_mult_left_eq mult.assoc)
  then show ?thesis using assms by simp
qed

text \<open>
  The generator computes \<open>7\<^sup>5 x mod (2\<^sup>3\<^sup>1 - 1)\<close> for the shifted state; the result is between 0 and
  \<open>0x7ffffffd\<close> and is the next state; and on that range no two states have the same successor.
\<close>

theorem do_rand_park_miller:
  assumes "ctx \<le> 0x7ffffffd"
  shows "snd (do_rand ctx) + 1 = 16807 * (uint ctx + 1) mod 0x7fffffff" "0 \<le> snd (do_rand ctx)" "snd (do_rand ctx) \<le> 0x7ffffffd"
    "uint (fst (do_rand ctx)) = snd (do_rand ctx)"
    "ctx' \<le> 0x7ffffffd \<Longrightarrow> do_rand ctx = do_rand ctx' \<Longrightarrow> ctx = ctx'"
proof -
  have val: "snd (do_rand c) + 1 = 16807 * (uint c + 1) mod 0x7fffffff" if "c \<le> 0x7ffffffd" for c
  proof -
    have c: "0 \<le> uint c" "uint c \<le> 0x7ffffffd" using that by (simp_all add: word_le_def)
    then have "uint (c mod 0x7ffffffe) = uint c" by (simp add: uint_mod mod_pos_pos_trivial)
    then show ?thesis using schrage(2) [of "uint c + 1"] c by (simp add: do_rand_def Let_def)
  qed
  then show "snd (do_rand ctx) + 1 = 16807 * (uint ctx + 1) mod 0x7fffffff" using assms by blast
  have u: "0 \<le> uint ctx" "uint ctx \<le> 0x7ffffffd" using assms by (simp_all add: word_le_def)
  have "16807 * (uint ctx + 1) mod 0x7fffffff \<noteq> 0" 
  proof
    assume "16807 * (uint ctx + 1) mod 0x7fffffff = 0"
    with inverse_16807 [of "uint ctx + 1"] u have "uint ctx + 1 = 0" by (simp only: mult_zero_right mod_0) linarith
    then show False using u by linarith
  qed
  moreover have "0 \<le> 16807 * (uint ctx + 1) mod 0x7fffffff" "16807 * (uint ctx + 1) mod 0x7fffffff < 0x7fffffff" by simp_all
  ultimately show b: "0 \<le> snd (do_rand ctx)" "snd (do_rand ctx) \<le> 0x7ffffffd" using val [OF assms] by linarith+
  have "fst (do_rand ctx) = of_int (snd (do_rand ctx))" by (simp only: do_rand_def Let_def fst_conv snd_conv)
  moreover have "uint (of_int x :: u64) = x" if "0 \<le> x" "x \<le> 0x7ffffffd" for x
    using that by (simp add: uint_word_of_int mod_pos_pos_trivial)
  ultimately show "uint (fst (do_rand ctx)) = snd (do_rand ctx)" using b by simp
  assume c': "ctx' \<le> 0x7ffffffd" and e: "do_rand ctx = do_rand ctx'"
  have u': "0 \<le> uint ctx'" "uint ctx' \<le> 0x7ffffffd" using c' by (simp_all add: word_le_def)
  have "uint ctx + 1 = uint ctx' + 1"
    using inverse_16807 [of "uint ctx + 1"] inverse_16807 [of "uint ctx' + 1"] val [OF assms] val [OF c'] e u u' by simp
  then show "ctx = ctx'" by (simp add: word_uint_eq_iff)
qed

subsection \<open>The shell is started again\<close>

text \<open>As long as \<open>fork\<close> works and \<open>wait\<close> returns orphans until it returns the shell, \<open>init\<close> starts one shell per round and never ends.\<close>

theorem init_restarts:
  assumes "\<forall>(pid, ws) \<in> set rs. 0 < pid \<and> (\<exists>us vs. ws = us @ pid # vs \<and> (\<forall>w \<in> set us. 0 \<le> w))"
  shows "init_loop execs rs = replicate (length rs) (Say 1 ''init: starting sh'' [])"
proof -
  have w: "init_wait pid (us @ pid # vs) = Some True" if "\<forall>w \<in> set us. 0 \<le> w" for pid us vs using that by (induction us) auto
  show ?thesis using assms
  proof (induction rs)
    case (Cons r rs)
    then obtain pid us vs where "r = (pid, us @ pid # vs)" "0 < pid" "\<forall>w \<in> set us. 0 \<le> w" by auto
    then show ?case using Cons w by simp
  qed simp
qed

text \<open>The first argument is the priority and the second the process, unlike what the usage message says.\<close>

theorem set_priority_order:
  assumes "atoi a = Ok p" "atoi b = Ok pid" "0 \<le> p" "p \<le> 100"
  shows "\<exists>t. set_priority_main r (a # b # as) = Ok (Set_priority p pid # t)"
  using assms by (simp add: set_priority_main_def)

end
