(* ===== verification/Sh.thy ===== *)
theory Sh
  imports Ulib
begin

text \<open>
  The shell, \<open>user/sh.c\<close>: scanner, recursive-descent parser and \<open>nulterminate\<close>.

  The line is a list of bytes without its NUL, positions in it stand for the pointers \<open>s\<close>, \<open>q\<close> and \<open>eq\<close>, and a
  read at the end gives the NUL. A command is a tree over words; in the tree that the parser builds a
  word is a pair of positions. The nodes come from \<open>malloc\<close>, whose result \<open>sh.c\<close> uses without a
  check: the model is of runs in which it does not fail. The parser functions call one another at
  positions that earlier calls return, so they take fuel; \<open>4 * n + 4\<close> is enough for a line of \<open>n\<close> bytes.

  The specification is the grammar of the shell on lists of tokens, \<open>g_line\<close>: the parser accepts
  exactly its language and builds its tree.
\<close>

datatype 'w cmd =
    EXEC "'w list"
  | REDIR "'w cmd" 'w nat nat      \<comment> \<open>command, file, mode, descriptor\<close>
  | PIPE "'w cmd" "'w cmd"
  | LIST "'w cmd" "'w cmd"
  | BACK "'w cmd"

abbreviation MAXARGS :: nat where "MAXARGS \<equiv> 10"

subsection \<open>Scanner\<close>

text \<open>\<open>" \t\r\n\v"\<close> and \<open>"<|>&;()"\<close>.\<close>

definition whitespace :: "u8 list" where
  "whitespace = [32, 9, 13, 10, 11]"

definition symbols :: "u8 list" where
  "symbols = [60, 124, 62, 38, 59, 40, 41]"

definition at :: "u8 list \<Rightarrow> nat \<Rightarrow> u8" where
  "at s i = (if i < length s then s ! i else 0)"

text \<open>The two loops of the scanner. \<open>strchr\<close> of the user library does not find the NUL.\<close>

function skip :: "(u8 \<Rightarrow> bool) \<Rightarrow> u8 list \<Rightarrow> nat \<Rightarrow> nat" where
  "skip P s i = (if i < length s \<and> P (at s i) then skip P s (i + 1) else i)"
  by pat_completeness auto
termination by (relation "measure (\<lambda>(_, s, i). length s - i)") auto

declare skip.simps [simp del]

abbreviation skip_ws :: "u8 list \<Rightarrow> nat \<Rightarrow> nat" where
  "skip_ws \<equiv> skip (\<lambda>c. c \<in> set whitespace)"

definition wordc :: "u8 \<Rightarrow> bool" where
  "wordc c \<longleftrightarrow> c \<notin> set whitespace \<and> c \<notin> set symbols"

text \<open>The result of \<open>gettoken\<close> is \<open>ret\<close>, the two ends of the token, and the new \<open>*ps\<close>.\<close>

definition gettoken :: "u8 list \<Rightarrow> nat \<Rightarrow> u8 \<times> nat \<times> nat \<times> nat" where
  "gettoken s p =
     (let q = skip_ws s p; c = at s q;
          (ret, eq) =
            (if c = 0 then (c, q)
             else if c \<in> set [124, 40, 41, 59, 38, 60] then (c, q + 1)
             else if c = 62 then (if at s (q + 1) = 62 then (43, q + 2) else (c, q + 1))
             else (97, skip wordc s q))
      in (ret, q, eq, skip_ws s eq))"

definition peek :: "u8 list \<Rightarrow> nat \<Rightarrow> u8 list \<Rightarrow> bool \<times> nat" where
  "peek s p toks = (let q = skip_ws s p in (at s q \<noteq> 0 \<and> at s q \<in> set toks, q))"

lemma skip_ge: "i \<le> skip P s i"
  by (induction P s i rule: skip.induct) (subst skip.simps, auto)

lemma skip_le: "i \<le> length s \<Longrightarrow> skip P s i \<le> length s"
  by (induction P s i rule: skip.induct) (subst skip.simps, auto)

lemma skip_more: "i < length s \<Longrightarrow> P (at s i) \<Longrightarrow> i < skip P s i"
  using skip_ge [of "i + 1" P s] by (subst skip.simps) simp

lemma drop_skip: "i \<le> length s \<Longrightarrow> drop (skip P s i) s = dropWhile P (drop i s)"
proof (induction P s i rule: skip.induct)
  case (1 P s i)
  show ?case
  proof (cases "i < length s")
    case True
    then show ?thesis using 1 Cons_nth_drop_Suc [OF True] by (subst skip.simps) (auto simp: at_def simp flip: Cons_nth_drop_Suc)
  next
    case False
    then show ?thesis by (subst skip.simps) simp
  qed
qed

subsection \<open>Redirections and arguments\<close>

text \<open>\<open>gettoken\<close> returns a later position when there is a token.\<close>

lemma gettoken_pos:
  assumes "gettoken s p = (ret, q, eq, p')"
  shows "p \<le> q" "q \<le> eq" "eq \<le> p'" "ret \<noteq> 0 \<Longrightarrow> q < eq" "p \<le> length s \<Longrightarrow> p' \<le> length s"
proof -
  define c where "c = at s q"
  have q: "q = skip_ws s p" and p': "p' = skip_ws s eq" and r: "(ret, eq) =
      (if c = 0 then (c, q) else if c \<in> set [124, 40, 41, 59, 38, 60] then (c, q + 1)
       else if c = 62 then (if at s (q + 1) = 62 then (43, q + 2) else (c, q + 1)) else (97, skip wordc s q))"
    using assms by (auto simp: gettoken_def Let_def c_def split: prod.splits if_splits)
  have w: "c \<noteq> 0 \<Longrightarrow> q < length s" by (auto simp: c_def at_def split: if_splits)
  show "p \<le> q" "eq \<le> p'" unfolding q p' by (rule skip_ge)+
  show qe: "q \<le> eq" using r skip_ge [of q wordc s] by (auto split: if_splits)
  show "q < eq" if "ret \<noteq> 0"
  proof (cases "c \<in> set symbols \<or> c = 0")
    case True
    then show ?thesis using r that by (auto simp: symbols_def split: if_splits)
  next
    case False
    have "c \<notin> set whitespace"
    proof
      assume "c \<in> set whitespace"
      moreover have "drop q s = dropWhile (\<lambda>c. c \<in> set whitespace) (drop p s)"
        using False w skip_ge [of p "\<lambda>c. c \<in> set whitespace" s] unfolding q by (intro drop_skip) auto
      moreover have "drop q s = c # drop (Suc q) s" using w False by (auto simp: c_def at_def Cons_nth_drop_Suc)
      ultimately show False by (metis hd_dropWhile list.sel(1) list.distinct(1))
    qed
    then have "wordc c" using False by (simp add: wordc_def)
    then show ?thesis using r False skip_more [of q s wordc] w by (auto simp: symbols_def c_def split: if_splits)
  qed
  show "p' \<le> length s" if "p \<le> length s"
  proof -
    have "q \<le> length s" unfolding q by (rule skip_le [OF that])
    moreover have "at s (q + 1) = 62 \<Longrightarrow> q + 1 < length s" by (auto simp: at_def split: if_splits)
    ultimately have "eq \<le> length s" using r w skip_le [of q s wordc] by (auto split: if_splits)
    then show ?thesis unfolding p' by (rule skip_le)
  qed
qed

lemma skip_idem: "skip P s (skip P s i) = skip P s i"
  by (induction P s i rule: skip.induct) (metis skip.simps)

lemma peek_gettoken:
  assumes "peek s p toks = (True, p1)" "gettoken s p1 = (ret, q, eq, p2)"
  shows "p \<le> p1" "p1 < length s" "p1 < p2" "ret \<noteq> 0"
proof -
  have p1: "p1 = skip_ws s p" "at s p1 \<noteq> 0" using assms(1) by (auto simp: peek_def Let_def)
  show "p \<le> p1" unfolding p1(1) by (rule skip_ge)
  show l: "p1 < length s" using p1(2) by (auto simp: at_def split: if_splits)
  have "skip_ws s p1 = p1" unfolding p1(1) by (rule skip_idem)
  then show "ret \<noteq> 0" using assms(2) p1(2) by (auto simp: gettoken_def Let_def split: prod.splits if_splits)
  then show "p1 < p2" using gettoken_pos [OF assms(2)] by linarith
qed

lemma token_less: "(True, p1) = peek s p ts \<Longrightarrow> (a, b, c, p2) = gettoken s p1 \<Longrightarrow> length s - p2 < length s - p"
  using peek_gettoken [of s p ts p1 a b c p2] by fastforce

lemma token2_less:
  assumes "(True, p1) = peek s p ts" "(a, b, c, p2) = gettoken s p1" "(d, e, f, p3) = gettoken s p2"
  shows "length s - p3 < length s - p"
  using token_less [OF assms(1,2)] gettoken_pos(1-3) [OF assms(3) [symmetric]] by linarith

definition redircmd :: "u8 \<Rightarrow> 'w \<Rightarrow> 'w cmd \<Rightarrow> 'w cmd" where
  "redircmd tok w cmd =
     (if tok = 60 then REDIR cmd w 0 0
      else if tok = 62 then REDIR cmd w (0x001 OR 0x200 OR 0x400) 1
      else if tok = 43 then REDIR cmd w (0x001 OR 0x200) 1
      else cmd)"

function parseredirs :: "(nat \<times> nat) cmd \<Rightarrow> u8 list \<Rightarrow> nat \<Rightarrow> ((nat \<times> nat) cmd \<times> nat) res" where
  "parseredirs cmd s p =
     (let (b, p) = peek s p [60, 62] in
      if b then
        let (tok, _, _, p) = gettoken s p; (t, q, eq, p) = gettoken s p in
        if t \<noteq> 97 then Err (Panic ''missing file for redirection'')
        else parseredirs (redircmd tok (q, eq) cmd) s p
      else Ok (cmd, p))"
  by pat_completeness auto
termination
  by (relation "measure (\<lambda>(_, s, p). length s - p)") (auto dest: token_less token2_less)

declare parseredirs.simps [simp del]

text \<open>\<open>parseexec\<close> goes on filling in the \<open>execcmd\<close> node after redirections have been put on top of it.\<close>

fun add_arg :: "'w \<Rightarrow> 'w cmd \<Rightarrow> 'w cmd" where
  "add_arg w (EXEC ws) = EXEC (ws @ [w])"
| "add_arg w (REDIR c f m d) = REDIR (add_arg w c) f m d"
| "add_arg w c = c"

function parseargs :: "nat \<Rightarrow> (nat \<times> nat) cmd \<Rightarrow> u8 list \<Rightarrow> nat \<Rightarrow> ((nat \<times> nat) cmd \<times> nat) res" where
  "parseargs argc ret s p =
     (let (b, p) = peek s p [124, 41, 38, 59] in
      if b then Ok (ret, p)
      else
        let (tok, q, eq, p) = gettoken s p in
        if tok = 0 then Ok (ret, p)
        else if tok \<noteq> 97 then Err (Panic ''syntax'')
        else if MAXARGS \<le> argc + 1 then Err (Panic ''too many args'')
        else bnd (parseredirs (add_arg (q, eq) ret) s p) (\<lambda>(ret, p). parseargs (argc + 1) ret s p))"
  by pat_completeness auto
termination by (relation "measure (\<lambda>(argc, _). MAXARGS - argc)") auto

declare parseargs.simps [simp del]

text \<open>The loop of \<open>parseline\<close> over trailing ampersands.\<close>

function parseback :: "(nat \<times> nat) cmd \<Rightarrow> u8 list \<Rightarrow> nat \<Rightarrow> (nat \<times> nat) cmd \<times> nat" where
  "parseback cmd s p =
     (let (b, p) = peek s p [38] in
      if b then let (_, _, _, p) = gettoken s p in parseback (BACK cmd) s p else (cmd, p))"
  by pat_completeness auto
termination
  by (relation "measure (\<lambda>(_, s, p). length s - p)") (auto dest: token_less token2_less)

declare parseback.simps [simp del]

subsection \<open>The parser\<close>

fun parseline :: "nat \<Rightarrow> u8 list \<Rightarrow> nat \<Rightarrow> ((nat \<times> nat) cmd \<times> nat) res"
and parsepipe :: "nat \<Rightarrow> u8 list \<Rightarrow> nat \<Rightarrow> ((nat \<times> nat) cmd \<times> nat) res"
and parseexec :: "nat \<Rightarrow> u8 list \<Rightarrow> nat \<Rightarrow> ((nat \<times> nat) cmd \<times> nat) res"
and parseblock :: "nat \<Rightarrow> u8 list \<Rightarrow> nat \<Rightarrow> ((nat \<times> nat) cmd \<times> nat) res" where
  "parseline 0 s p = Err (Waits ''fuel'')"
| "parseline (Suc n) s p =
     bnd (parsepipe n s p) (\<lambda>(cmd, p).
       let (cmd, p) = parseback cmd s p; (b, p) = peek s p [59] in
       if b then
         let (_, _, _, p) = gettoken s p in
         bnd (parseline n s p) (\<lambda>(right, p). Ok (LIST cmd right, p))
       else Ok (cmd, p))"
| "parsepipe 0 s p = Err (Waits ''fuel'')"
| "parsepipe (Suc n) s p =
     bnd (parseexec n s p) (\<lambda>(cmd, p).
       let (b, p) = peek s p [124] in
       if b then
         let (_, _, _, p) = gettoken s p in
         bnd (parsepipe n s p) (\<lambda>(right, p). Ok (PIPE cmd right, p))
       else Ok (cmd, p))"
| "parseexec 0 s p = Err (Waits ''fuel'')"
| "parseexec (Suc n) s p =
     (let (b, p) = peek s p [40] in
      if b then parseblock n s p
      else bnd (parseredirs (EXEC []) s p) (\<lambda>(ret, p). parseargs 0 ret s p))"
| "parseblock 0 s p = Err (Waits ''fuel'')"
| "parseblock (Suc n) s p =
     (let (b, p) = peek s p [40] in
      if \<not> b then Err (Panic ''parseblock'')
      else
        let (_, _, _, p) = gettoken s p in
        bnd (parseline n s p) (\<lambda>(cmd, p).
          let (b, p) = peek s p [41] in
          if \<not> b then Err (Panic ''syntax - missing )'')
          else let (_, _, _, p) = gettoken s p in parseredirs cmd s p))"

text \<open>\<open>nulterminate\<close> on the buffer, which has room for the NUL after the line.\<close>

fun nulterminate :: "(nat \<times> nat) cmd \<Rightarrow> u8 list \<Rightarrow> u8 list" where
  "nulterminate (EXEC ws) buf = fold (\<lambda>(_, eq) buf. buf[eq := 0]) ws buf"
| "nulterminate (REDIR c (_, eq) _ _) buf = (nulterminate c buf)[eq := 0]"
| "nulterminate (PIPE l r) buf = nulterminate r (nulterminate l buf)"
| "nulterminate (LIST l r) buf = nulterminate r (nulterminate l buf)"
| "nulterminate (BACK c) buf = nulterminate c buf"

definition parsecmd :: "u8 list \<Rightarrow> (u8 list \<times> (nat \<times> nat) cmd) res" where
  "parsecmd s =
     bnd (parseline (4 * length s + 4) s 0) (\<lambda>(cmd, p).
       let (_, p) = peek s p [] in
       if p \<noteq> length s then Err (Panic ''syntax'') else Ok (nulterminate cmd (s @ [0]), cmd))"

subsection \<open>Tokens\<close>

datatype tok = Sym u8 | App | Word "u8 list"

function lex :: "u8 list \<Rightarrow> tok list" where
  "lex s =
     (case dropWhile (\<lambda>c. c \<in> set whitespace) s of
        [] \<Rightarrow> []
      | c # r \<Rightarrow>
          if c \<in> set symbols then
            (if c = 62 \<and> r \<noteq> [] \<and> hd r = 62 then App # lex (tl r) else Sym c # lex r)
          else Word (c # takeWhile wordc r) # lex (dropWhile wordc r))"
  by pat_completeness auto
termination
proof (relation "measure length", goal_cases)
  case (2 s c r)
  then show ?case using length_dropWhile_le [of "\<lambda>c. c \<in> set whitespace" s] by simp
next
  case (3 s c r)
  then show ?case using length_dropWhile_le [of "\<lambda>c. c \<in> set whitespace" s] by simp
next
  case (4 s c r)
  then show ?case using length_dropWhile_le [of "\<lambda>c. c \<in> set whitespace" s] length_dropWhile_le [of wordc r] by simp
qed simp

declare lex.simps [simp del]

abbreviation toks :: "u8 list \<Rightarrow> nat \<Rightarrow> tok list" where
  "toks s p \<equiv> lex (drop p s)"

fun code :: "tok \<Rightarrow> u8" where
  "code (Sym c) = c"
| "code App = 43"
| "code (Word _) = 97"

definition first :: "tok \<Rightarrow> u8" where
  "first t = (if t = App then 62 else code t)"

definition slice :: "u8 list \<Rightarrow> nat \<times> nat \<Rightarrow> u8 list" where
  "slice s w = take (snd w - fst w) (drop (fst w) s)"

text \<open>A word of the tree: bytes of a word, followed by something else.\<close>

definition good :: "u8 list \<Rightarrow> nat \<times> nat \<Rightarrow> bool" where
  "good s w \<longleftrightarrow> fst w \<le> snd w \<and> snd w \<le> length s \<and> list_all wordc (slice s w) \<and> (snd w < length s \<longrightarrow> \<not> wordc (s ! snd w))"

lemma lex_ws: "lex (dropWhile (\<lambda>c. c \<in> set whitespace) s) = lex s"
  by (subst (1 2) lex.simps) simp

lemma toks_skip: "p \<le> length s \<Longrightarrow> toks s (skip_ws s p) = toks s p"
  by (simp add: drop_skip lex_ws)

lemma next_token:
  assumes "p \<le> length s" "0 \<notin> set s"
  obtains (none) "toks s p = []" "skip_ws s p = length s" "at s (skip_ws s p) = 0"
  | (some) c where "skip_ws s p < length s" "at s (skip_ws s p) = c" "c \<noteq> 0" "c \<notin> set whitespace"
      "drop (skip_ws s p) s = c # drop (Suc (skip_ws s p)) s"
proof -
  let ?q = "skip_ws s p"
  have d: "drop ?q s = dropWhile (\<lambda>c. c \<in> set whitespace) (drop p s)" using assms(1) by (rule drop_skip)
  have le: "?q \<le> length s" using assms(1) by (rule skip_le)
  show thesis
  proof (cases "?q = length s")
    case True
    then have "toks s ?q = []" by (simp add: lex.simps [of "[]"])
    then show thesis using none True toks_skip [OF assms(1)] by (simp add: at_def)
  next
    case False
    then have l: "?q < length s" using le by simp
    moreover have "at s ?q \<in> set s" using l by (simp add: at_def)
    moreover have "drop ?q s = at s ?q # drop (Suc ?q) s" using l by (simp add: at_def Cons_nth_drop_Suc)
    moreover have "at s ?q \<notin> set whitespace" using calculation(3) d by (metis hd_dropWhile list.sel(1) list.distinct(1))
    ultimately show thesis using some assms(2) by metis
  qed
qed

lemma peek_toks:
  assumes "p \<le> length s" "0 \<notin> set s" "set ts \<subseteq> set symbols" "peek s p ts = (b, p1)"
  shows "toks s p1 = toks s p" "p \<le> p1" "p1 \<le> length s" "b \<longleftrightarrow> (\<exists>t ys. toks s p = t # ys \<and> first t \<in> set ts)"
proof -
  have p1: "p1 = skip_ws s p" and b: "b \<longleftrightarrow> at s p1 \<noteq> 0 \<and> at s p1 \<in> set ts" using assms(4) by (auto simp: peek_def Let_def)
  show t: "toks s p1 = toks s p" unfolding p1 by (rule toks_skip [OF assms(1)])
  show "p \<le> p1" "p1 \<le> length s" unfolding p1 by (rule skip_ge, rule skip_le [OF assms(1)])
  show "b \<longleftrightarrow> (\<exists>t ys. toks s p = t # ys \<and> first t \<in> set ts)"
    using assms(1,2)
  proof (cases rule: next_token)
    case none
    then show ?thesis using b p1 by simp
  next
    case (some c)
    have "(\<exists>t ys. toks s p1 = t # ys \<and> first t \<in> set ts) \<longleftrightarrow> c \<in> set ts"
      using some(4) assms(3) unfolding p1 some(5)
      by (subst lex.simps) (auto simp: first_def symbols_def whitespace_def)
    then show ?thesis using b some(2,3) t p1 by simp
  qed
qed

lemma slice_word:
  assumes "q \<le> length s"
  shows "slice s (q, skip wordc s q) = takeWhile wordc (drop q s)" "good s (q, skip wordc s q)"
proof -
  let ?e = "skip wordc s q"
  have d: "drop ?e s = dropWhile wordc (drop q s)" using assms by (rule drop_skip)
  have "drop (?e - q) (drop q s) = drop ?e s" using skip_ge [of q wordc s] by simp
  then have "take (?e - q) (drop q s) @ dropWhile wordc (drop q s) = takeWhile wordc (drop q s) @ dropWhile wordc (drop q s)"
    using d by (metis append_take_drop_id takeWhile_dropWhile_id)
  then show t: "slice s (q, ?e) = takeWhile wordc (drop q s)"
    unfolding slice_def fst_conv snd_conv by (simp only: append_same_eq)
  have "?e < length s \<Longrightarrow> \<not> wordc (s ! ?e)"
    using d hd_dropWhile [of wordc "drop q s"] by (metis drop_eq_Nil2 hd_drop_conv_nth leD)
  then show "good s (q, ?e)" using skip_ge [of q wordc s] skip_le [OF assms, of wordc] t
    by (auto simp: good_def list_all_iff dest: set_takeWhileD)
qed

lemma gettoken_toks:
  assumes "p \<le> length s" "0 \<notin> set s" "gettoken s p = (ret, q, eq, p')"
  shows "p' \<le> length s" "toks s p = [] \<longleftrightarrow> ret = 0" "ret = 0 \<Longrightarrow> toks s p' = []"
    "ret \<noteq> 0 \<Longrightarrow> \<exists>t. toks s p = t # toks s p' \<and> ret = code t \<and> (ret = 97 \<longrightarrow> t = Word (slice s (q, eq)) \<and> good s (q, eq))"
proof -
  define c where "c = at s q"
  have q: "q = skip_ws s p" and p': "p' = skip_ws s eq" and r: "(ret, eq) =
      (if c = 0 then (c, q) else if c \<in> set [124, 40, 41, 59, 38, 60] then (c, q + 1)
       else if c = 62 then (if at s (q + 1) = 62 then (43, q + 2) else (c, q + 1)) else (97, skip wordc s q))"
    using assms(3) by (auto simp: gettoken_def Let_def c_def split: prod.splits if_splits)
  have ql: "q \<le> length s" unfolding q by (rule skip_le [OF assms(1)])
  show "p' \<le> length s" using gettoken_pos(5) [OF assms(3,1)] .
  have tq: "toks s q = toks s p" unfolding q by (rule toks_skip [OF assms(1)])
  have tp: "eq \<le> length s \<Longrightarrow> toks s p' = toks s eq" unfolding p' by (rule toks_skip)
  have main: "(toks s p = [] \<longleftrightarrow> ret = 0) \<and> (ret = 0 \<longrightarrow> toks s p' = []) \<and>
    (ret \<noteq> 0 \<longrightarrow> (\<exists>t. toks s p = t # toks s p' \<and> ret = code t \<and> (ret = 97 \<longrightarrow> t = Word (slice s (q, eq)) \<and> good s (q, eq))))"
    using assms(1,2)
  proof (cases rule: next_token)
    case none
    then have "ret = 0" "eq = q" using r q c_def by simp_all
    then show ?thesis using none tp ql tq by simp
  next
    case (some d)
    have d: "drop q s = c # drop (Suc q) s" "c \<noteq> 0" "c \<notin> set whitespace" "q < length s" using some unfolding q c_def by simp_all
    consider "c \<in> set symbols" "c \<noteq> 62" | "c = 62" "at s (q + 1) = 62" | "c = 62" "at s (q + 1) \<noteq> 62" | "wordc c"
      using d(3) by (auto simp: wordc_def)
    then show ?thesis
    proof cases
      case 1
      then have "ret = c" "eq = q + 1" using r d(2) by (auto simp: symbols_def)
      moreover have "toks s q = Sym c # toks s (q + 1)" unfolding d(1) using 1 d(3) by (subst lex.simps) simp
      ultimately show ?thesis using tp tq d(2,4) 1 by (auto simp: symbols_def)
    next
      case 2
      then have e: "ret = 43" "eq = q + 2" and l: "q + 1 < length s" using r by (simp_all add: at_def split: if_splits)
      have "drop (Suc q) s = 62 # drop (q + 2) s" using 2 l Cons_nth_drop_Suc [OF l] by (simp add: at_def)
      then have "toks s q = App # toks s (q + 2)" unfolding d(1) using 2 d(3) by (subst lex.simps) (simp add: symbols_def)
      then show ?thesis using tp tq l e by simp
    next
      case 3
      then have e: "ret = 62" "eq = q + 1" using r by simp_all
      have "drop (Suc q) s = [] \<or> hd (drop (Suc q) s) \<noteq> 62"
        using 3 by (metis Suc_eq_plus1 at_def drop_eq_Nil2 hd_drop_conv_nth not_less)
      then have "toks s q = Sym 62 # toks s (q + 1)" unfolding d(1) using 3 d(3) by (subst lex.simps) (auto simp: symbols_def)
      then show ?thesis using tp tq d(4) e by simp
    next
      case 4
      then have e: "ret = 97" "eq = skip wordc s q" using r d(2) by (auto simp: wordc_def symbols_def)
      have w: "slice s (q, eq) = c # takeWhile wordc (drop (Suc q) s)" "good s (q, eq)"
        using slice_word [OF ql] 4 d(1) e(2) by simp_all
      have "drop eq s = dropWhile wordc (drop (Suc q) s)" unfolding e(2) using drop_skip [OF ql, of wordc] d(1) 4 by simp
      then have "toks s q = Word (slice s (q, eq)) # toks s eq"
        unfolding w(1) d(1) using 4 d(3) by (subst lex.simps) (simp add: wordc_def)
      then show ?thesis using tp tq e(1) w(2) by (simp add: good_def)
    qed
  qed
  then show "toks s p = [] \<longleftrightarrow> ret = 0" "ret = 0 \<Longrightarrow> toks s p' = []"
    "ret \<noteq> 0 \<Longrightarrow> \<exists>t. toks s p = t # toks s p' \<and> ret = code t \<and> (ret = 97 \<longrightarrow> t = Word (slice s (q, eq)) \<and> good s (q, eq))"
    by blast+
qed

subsection \<open>Grammar\<close>

text \<open>A simple command is any sequence of words and redirections with fewer than ten words. A block is a
  line in parentheses with redirections after it.\<close>

definition is_redir :: "tok \<Rightarrow> bool" where
  "is_redir t \<longleftrightarrow> first t \<in> set [60, 62]"

definition wrap :: "(tok \<times> 'w) list \<Rightarrow> 'w cmd \<Rightarrow> 'w cmd" where
  "wrap rs c = fold (\<lambda>(t, w). redircmd (code t) w) rs c"

inductive g_items :: "tok list \<Rightarrow> u8 list list \<Rightarrow> (tok \<times> u8 list) list \<Rightarrow> bool" where
  gi_nil: "g_items [] [] []"
| gi_word: "g_items ts ws rs \<Longrightarrow> g_items (Word w # ts) (w # ws) rs"
| gi_redir: "is_redir t \<Longrightarrow> g_items ts ws rs \<Longrightarrow> g_items (t # Word w # ts) ws ((t, w) # rs)"

inductive g_line :: "tok list \<Rightarrow> u8 list cmd \<Rightarrow> bool"
and g_pipe :: "tok list \<Rightarrow> u8 list cmd \<Rightarrow> bool"
and g_exec :: "tok list \<Rightarrow> u8 list cmd \<Rightarrow> bool" where
  g_simple: "g_items ts ws rs \<Longrightarrow> length ws < MAXARGS \<Longrightarrow> g_exec ts (wrap rs (EXEC ws))"
| g_block: "g_line ts c \<Longrightarrow> g_items us [] rs \<Longrightarrow> g_exec (Sym 40 # ts @ Sym 41 # us) (wrap rs c)"
| g_one: "g_exec ts c \<Longrightarrow> g_pipe ts c"
| g_more: "g_exec ts c \<Longrightarrow> g_pipe us d \<Longrightarrow> g_pipe (ts @ Sym 124 # us) (PIPE c d)"
| g_last: "g_pipe ts c \<Longrightarrow> g_line (ts @ replicate n (Sym 38)) ((BACK ^^ n) c)"
| g_seq: "g_pipe ts c \<Longrightarrow> g_line us d \<Longrightarrow> g_line (ts @ replicate n (Sym 38) @ Sym 59 # us) (LIST ((BACK ^^ n) c) d)"

abbreviation strs :: "u8 list \<Rightarrow> (nat \<times> nat) cmd \<Rightarrow> u8 list cmd" where
  "strs s \<equiv> map_cmd (slice s)"

abbreviation goods :: "u8 list \<Rightarrow> (nat \<times> nat) cmd \<Rightarrow> bool" where
  "goods s c \<equiv> \<forall>w\<in>set_cmd c. good s w"

lemma g_items_append: "g_items xs ws rs \<Longrightarrow> g_items ys vs qs \<Longrightarrow> g_items (xs @ ys) (ws @ vs) (rs @ qs)"
  by (induction rule: g_items.induct) (auto intro: g_items.intros)

lemma redircmd_map: "map_cmd f (redircmd t w c) = redircmd t (f w) (map_cmd f c)"
  by (simp add: redircmd_def)

lemma redircmd_set: "set_cmd (redircmd t w c) \<subseteq> insert w (set_cmd c)"
  by (auto simp: redircmd_def)

lemma add_arg_map: "map_cmd f (add_arg w c) = add_arg (f w) (map_cmd f c)"
  by (induction w c rule: add_arg.induct) auto

lemma add_arg_set: "set_cmd (add_arg w c) \<subseteq> insert w (set_cmd c)"
  by (induction w c rule: add_arg.induct) auto

lemma add_arg_redir: "add_arg w (redircmd t v c) = redircmd t v (add_arg w c)"
  by (simp add: redircmd_def)

lemma add_arg_wrap: "add_arg w (wrap rs c) = wrap rs (add_arg w c)"
  by (induction rs arbitrary: c) (auto simp: wrap_def add_arg_redir)

lemma wrap_simps [simp]: "wrap [] c = c" "wrap ((t, w) # rs) c = wrap rs (redircmd (code t) w c)" "wrap (rs @ qs) c = wrap qs (wrap rs c)"
  by (simp_all add: wrap_def)

subsection \<open>The parser on tokens\<close>

text \<open>The same parser on the list of tokens that are left, and its relation to the parser on positions.\<close>

fun t_redirs :: "u8 list cmd \<Rightarrow> tok list \<Rightarrow> (u8 list cmd \<times> tok list) res" where
  "t_redirs c (t # Word w # ts) =
     (if is_redir t then t_redirs (redircmd (code t) w c) ts else Ok (c, t # Word w # ts))"
| "t_redirs c (t # ts) = (if is_redir t then Err (Panic ''missing file for redirection'') else Ok (c, t # ts))"
| "t_redirs c [] = Ok (c, [])"

function t_args :: "nat \<Rightarrow> u8 list cmd \<Rightarrow> tok list \<Rightarrow> (u8 list cmd \<times> tok list) res" where
  "t_args argc c ts =
     (case ts of
        [] \<Rightarrow> Ok (c, [])
      | t # ys \<Rightarrow>
          if first t \<in> set [124, 41, 38, 59] then Ok (c, t # ys)
          else (case t of
              Word w \<Rightarrow>
                if MAXARGS \<le> argc + 1 then Err (Panic ''too many args'')
                else bnd (t_redirs (add_arg w c) ys) (\<lambda>(c, ts). t_args (argc + 1) c ts)
            | _ \<Rightarrow> Err (Panic ''syntax'')))"
  by pat_completeness auto
termination by (relation "measure (\<lambda>(argc, _). MAXARGS - argc)") auto

declare t_args.simps [simp del]

fun t_back :: "u8 list cmd \<Rightarrow> tok list \<Rightarrow> u8 list cmd \<times> tok list" where
  "t_back c (t # ts) = (if t = Sym 38 then t_back (BACK c) ts else (c, t # ts))"
| "t_back c [] = (c, [])"

fun t_line :: "nat \<Rightarrow> tok list \<Rightarrow> (u8 list cmd \<times> tok list) res"
and t_pipe :: "nat \<Rightarrow> tok list \<Rightarrow> (u8 list cmd \<times> tok list) res"
and t_exec :: "nat \<Rightarrow> tok list \<Rightarrow> (u8 list cmd \<times> tok list) res"
and t_block :: "nat \<Rightarrow> tok list \<Rightarrow> (u8 list cmd \<times> tok list) res" where
  "t_line 0 ts = Err (Waits ''fuel'')"
| "t_line (Suc n) ts =
     bnd (t_pipe n ts) (\<lambda>(c, ts). let (c, ts) = t_back c ts in
       if ts \<noteq> [] \<and> hd ts = Sym 59 then bnd (t_line n (tl ts)) (\<lambda>(d, ts). Ok (LIST c d, ts)) else Ok (c, ts))"
| "t_pipe 0 ts = Err (Waits ''fuel'')"
| "t_pipe (Suc n) ts =
     bnd (t_exec n ts) (\<lambda>(c, ts).
       if ts \<noteq> [] \<and> hd ts = Sym 124 then bnd (t_pipe n (tl ts)) (\<lambda>(d, ts). Ok (PIPE c d, ts)) else Ok (c, ts))"
| "t_exec 0 ts = Err (Waits ''fuel'')"
| "t_exec (Suc n) ts =
     (if ts \<noteq> [] \<and> hd ts = Sym 40 then t_block n ts
      else bnd (t_redirs (EXEC []) ts) (\<lambda>(c, ts). t_args 0 c ts))"
| "t_block 0 ts = Err (Waits ''fuel'')"
| "t_block (Suc n) ts =
     (if ts \<noteq> [] \<and> hd ts = Sym 40 then
        bnd (t_line n (tl ts)) (\<lambda>(c, ts).
          if ts \<noteq> [] \<and> hd ts = Sym 41 then t_redirs c (tl ts) else Err (Panic ''syntax - missing )''))
      else Err (Panic ''parseblock''))"

definition sim :: "u8 list \<Rightarrow> ((nat \<times> nat) cmd \<times> nat) res \<Rightarrow> (u8 list cmd \<times> tok list) res \<Rightarrow> bool" where
  "sim s r r' \<longleftrightarrow> (case r of Ok (c, p) \<Rightarrow> p \<le> length s \<and> goods s c \<and> r' = Ok (strs s c, toks s p) | Err e \<Rightarrow> r' = Err e)"

lemma sim_Ok [simp]: "sim s (Ok (c, p)) r' \<longleftrightarrow> p \<le> length s \<and> goods s c \<and> r' = Ok (strs s c, toks s p)"
  by (simp add: sim_def)

lemma sim_Err [simp]: "sim s (Err e) r' \<longleftrightarrow> r' = Err e"
  by (simp add: sim_def)

lemma sim_bnd:
  assumes "sim s r r'" "\<And>c p. r = Ok (c, p) \<Longrightarrow> p \<le> length s \<Longrightarrow> goods s c \<Longrightarrow> sim s (f (c, p)) (f' (strs s c, toks s p))"
  shows "sim s (bnd r f) (bnd r' f')"
  using assms by (cases r) auto

text \<open>What \<open>peek\<close> and \<open>gettoken\<close> say about the next token.\<close>

lemma peek_sim:
  assumes "p \<le> length s" "0 \<notin> set s" "set ts \<subseteq> set symbols" "peek s p ts = (b, p1)" "gettoken s p1 = (ret, q, eq, p2)"
  obtains (no) "\<not> b" "toks s p1 = toks s p" "p1 \<le> length s" "toks s p = [] \<or> first (hd (toks s p)) \<notin> set ts"
  | (yes) t where "b" "toks s p = t # toks s p2" "first t \<in> set ts" "ret = code t" "p2 \<le> length s"
proof -
  note k = peek_toks [OF assms(1-4)]
  note g = gettoken_toks [OF k(3) assms(2,5)]
  show thesis
  proof (cases b)
    case True
    then have "ret \<noteq> 0" using peek_gettoken [of s p ts p1 ret q eq p2] assms(4,5) by simp
    then obtain t where "toks s p1 = t # toks s p2" "ret = code t" using g(4) by blast
    then show thesis using yes [of t] True k(1,4) g(1) by auto
  next
    case False
    then show thesis using no k by (cases "toks s p") auto
  qed
qed

text \<open>For one symbol that no other token begins with.\<close>

lemma peek_sym:
  assumes "p \<le> length s" "0 \<notin> set s" "c \<in> {40, 41, 38, 59, 124}" "peek s p [c] = (b, p1)" "gettoken s p1 = (ret, q, eq, p2)"
  shows "b \<longleftrightarrow> toks s p \<noteq> [] \<and> hd (toks s p) = Sym c"
    "\<not> b \<Longrightarrow> toks s p1 = toks s p \<and> p1 \<le> length s" "b \<Longrightarrow> toks s p = Sym c # toks s p2 \<and> p2 \<le> length s"
proof -
  have f: "first t = c \<longleftrightarrow> t = Sym c" for t using assms(3) by (cases t) (auto simp: first_def)
  have "set [c] \<subseteq> set symbols" using assms(3) by (auto simp: symbols_def)
  from peek_sim [OF assms(1,2) this assms(4,5)]
  show "b \<longleftrightarrow> toks s p \<noteq> [] \<and> hd (toks s p) = Sym c"
    "\<not> b \<Longrightarrow> toks s p1 = toks s p \<and> p1 \<le> length s" "b \<Longrightarrow> toks s p = Sym c # toks s p2 \<and> p2 \<le> length s"
    by (cases, simp_all add: f)+
qed

lemma gettoken_sim:
  assumes "p \<le> length s" "0 \<notin> set s" "gettoken s p = (ret, q, eq, p')"
  obtains (none) "ret = 0" "toks s p = []" "toks s p' = []" "p' \<le> length s"
  | (word) "ret = 97" "toks s p = Word (slice s (q, eq)) # toks s p'" "good s (q, eq)" "p' \<le> length s"
  | (other) t where "ret \<noteq> 0" "ret \<noteq> 97" "toks s p = t # toks s p'" "\<forall>w. t \<noteq> Word w"
proof -
  note g = gettoken_toks [OF assms]
  show thesis
  proof (cases "ret = 0 \<or> ret = 97")
    case True
    then show thesis using none word g by (metis zero_neq_numeral)
  next
    case False
    then obtain t where t: "toks s p = t # toks s p'" "ret = code t" using g(4) by blast
    then have "\<forall>w. t \<noteq> Word w" using False by auto
    then show thesis using False other t by blast
  qed
qed

lemma t_redirs_cases:
  "is_redir t \<Longrightarrow> (\<forall>w ys. ts \<noteq> Word w # ys) \<Longrightarrow> t_redirs c (t # ts) = Err (Panic ''missing file for redirection'')"
  "\<not> is_redir t \<Longrightarrow> t_redirs c (t # ts) = Ok (c, t # ts)"
  by (cases ts rule: list.exhaust; cases "hd ts"; auto)+

lemma sym_subset: "set [60, 62] \<subseteq> set symbols" "set [124, 41, 38, 59] \<subseteq> set symbols"
  by (simp_all add: symbols_def)

lemma parseredirs_sim:
  assumes "p \<le> length s" "0 \<notin> set s" "goods s cmd"
  shows "sim s (parseredirs cmd s p) (t_redirs (strs s cmd) (toks s p))"
  using assms
proof (induction cmd s p rule: parseredirs.induct)
  case (1 cmd s p)
  obtain b p1 where pk: "peek s p [60, 62] = (b, p1)" by fastforce
  obtain tok q1 e1 p2 where g1: "gettoken s p1 = (tok, q1, e1, p2)" using prod_cases4 by blast
  obtain t2 q e p3 where g2: "gettoken s p2 = (t2, q, e, p3)" using prod_cases4 by blast
  note IH = 1(1) [OF pk [symmetric] refl _ g1 [symmetric] refl refl refl g2 [symmetric] refl refl refl]
  note unf = parseredirs.simps [of cmd s p, unfolded pk g1 g2 Let_def prod.case]
  from 1(2,3) sym_subset(1) pk g1 show ?case
  proof (cases rule: peek_sim)
    case no
    then have "t_redirs (strs s cmd) (toks s p) = Ok (strs s cmd, toks s p)"
      by (cases "toks s p") (simp_all add: t_redirs_cases(2) is_redir_def)
    then show ?thesis using no 1(4) by (simp add: unf)
  next
    case (yes t)
    have r: "is_redir t" using yes(3) by (simp add: is_redir_def)
    from yes(5) 1(3) g2 show ?thesis
    proof (cases rule: gettoken_sim)
      case word
      have "goods s (redircmd tok (q, e) cmd)" using redircmd_set [of tok "(q, e)" cmd] 1(4) word(3) by blast
      then have "sim s (parseredirs (redircmd tok (q, e) cmd) s p3) (t_redirs (strs s (redircmd tok (q, e) cmd)) (toks s p3))"
        using IH yes(1) word 1(3) by simp
      then show ?thesis using yes word(1) r unfolding yes(2) word(2) by (simp add: unf redircmd_map)
    qed (use yes r in \<open>simp_all add: unf t_redirs_cases(1)\<close>)
  qed
qed

lemma parseargs_sim:
  assumes "p \<le> length s" "0 \<notin> set s" "goods s cmd"
  shows "sim s (parseargs argc cmd s p) (t_args argc (strs s cmd) (toks s p))"
  using assms
proof (induction argc cmd s p rule: parseargs.induct)
  case (1 argc cmd s p)
  obtain b p1 where pk: "peek s p [124, 41, 38, 59] = (b, p1)" by fastforce
  obtain tok q e p2 where g1: "gettoken s p1 = (tok, q, e, p2)" using prod_cases4 by blast
  note IH = 1(1) [OF pk [symmetric] refl _ g1 [symmetric] refl refl refl]
  note unf = parseargs.simps [of argc cmd s p, unfolded pk g1 Let_def prod.case]
  from 1(2,3) sym_subset(2) pk g1 show ?case
  proof (cases rule: peek_sim)
    case (yes t)
    have "toks s p1 = toks s p" "p1 \<le> length s" using peek_toks [OF 1(2,3) sym_subset(2) pk] by simp_all
    then show ?thesis using yes(1,3) 1(4) by (simp add: unf) (simp add: yes(2) t_args.simps)
  next
    case no
    from no(3) 1(3) g1 show ?thesis
    proof (cases rule: gettoken_sim)
      case none
      then show ?thesis using no 1(4) by (simp add: unf t_args.simps)
    next
      case (other t)
      then show ?thesis using no unfolding no(2) [symmetric] by (cases t) (simp_all add: unf t_args.simps)
    next
      case word
      have gd: "goods s (add_arg (q, e) cmd)" using add_arg_set [of "(q, e)" cmd] 1(4) word(3) by blast
      have "sim s (bnd (parseredirs (add_arg (q, e) cmd) s p2) (\<lambda>(ret, p). parseargs (argc + 1) ret s p))
        (bnd (t_redirs (strs s (add_arg (q, e) cmd)) (toks s p2)) (\<lambda>(c, ts). t_args (argc + 1) c ts))" if "\<not> MAXARGS \<le> argc + 1"
        using IH no(1) word 1(3) that by (intro sim_bnd parseredirs_sim gd) auto
      then show ?thesis using no(1,4) word(1,2) no(2) by (simp add: unf t_args.simps [of argc] add_arg_map first_def)
    qed
  qed
qed

lemma parseback_sim:
  assumes "p \<le> length s" "0 \<notin> set s" "goods s cmd" "parseback cmd s p = (c, p')"
  shows "p' \<le> length s \<and> goods s c \<and> t_back (strs s cmd) (toks s p) = (strs s c, toks s p')"
  using assms
proof (induction cmd s p rule: parseback.induct)
  case (1 cmd s p)
  obtain b p1 where pk: "peek s p [38] = (b, p1)" by fastforce
  obtain tok q e p2 where g1: "gettoken s p1 = (tok, q, e, p2)" using prod_cases4 by blast
  note k = peek_sym [OF 1(2,3) _ pk g1, simplified]
  note unf = parseback.simps [of cmd s p, unfolded pk g1 Let_def prod.case]
  show ?case
  proof (cases b)
    case True
    then have t: "toks s p = Sym 38 # toks s p2" "p2 \<le> length s" and r: "parseback (BACK cmd) s p2 = (c, p')"
      using k(3) 1(5) by (simp_all add: unf)
    show ?thesis using 1(1) [OF pk [symmetric] refl True g1 [symmetric] refl refl refl t(2) 1(3) _ r] 1(4) by (simp add: t(1))
  next
    case False
    then have "t_back (strs s cmd) (toks s p) = (strs s cmd, toks s p)" using k(1) by (cases "toks s p") auto
    then show ?thesis using False k(2) 1(4,5) by (simp add: unf)
  qed
qed

text \<open>The pattern of the parser functions: look at the next symbol, skip it and go on.\<close>

lemma sim_peek:
  assumes "0 \<notin> set s" "p \<le> length s" "x \<in> {40, 41, 38, 59, 124}" "\<And>p. p \<le> length s \<Longrightarrow> sim s (f p) (f' (toks s p))"
    "\<And>p. p \<le> length s \<Longrightarrow> sim s (g p) (g' (toks s p))"
  shows "sim s (let (b, p) = peek s p [x] in if b then let (_, _, _, p) = gettoken s p in f p else g p)
      (if toks s p \<noteq> [] \<and> hd (toks s p) = Sym x then f' (tl (toks s p)) else g' (toks s p))"
proof -
  obtain b p1 where pk: "peek s p [x] = (b, p1)" by fastforce
  obtain tok q e p2 where g1: "gettoken s p1 = (tok, q, e, p2)" using prod_cases4 by blast
  note k = peek_sym [OF assms(2,1,3) pk g1]
  show ?thesis using k assms(4) [of p2] assms(5) [of p1] by (cases b) (auto simp: pk g1)
qed

lemma parseexec_sim:
  assumes "0 \<notin> set s" "\<And>p. p \<le> length s \<Longrightarrow> sim s (parseblock n s p) (t_block n (toks s p))" "p \<le> length s"
  shows "sim s (parseexec (Suc n) s p) (t_exec (Suc n) (toks s p))"
proof -
  obtain b p1 where pk: "peek s p [40] = (b, p1)" by fastforce
  obtain tok q e p2 where g1: "gettoken s p1 = (tok, q, e, p2)" using prod_cases4 by blast
  have t: "toks s p1 = toks s p" "p1 \<le> length s" using peek_toks [OF assms(3,1) _ pk] by (simp_all add: symbols_def)
  have b: "b \<longleftrightarrow> toks s p \<noteq> [] \<and> hd (toks s p) = Sym 40" using peek_sym(1) [OF assms(3,1) _ pk g1] by simp
  have "sim s (parseredirs (EXEC []) s p1) (t_redirs (EXEC []) (toks s p))"
    using parseredirs_sim [OF t(2) assms(1), of "EXEC []"] by (simp add: t(1))
  then have "sim s (bnd (parseredirs (EXEC []) s p1) (\<lambda>(ret, p). parseargs 0 ret s p))
      (bnd (t_redirs (EXEC []) (toks s p)) (\<lambda>(c, ts). t_args 0 c ts))"
    by (rule sim_bnd) (use parseargs_sim [OF _ assms(1)] in auto)
  then show ?thesis using assms(2) [OF t(2)] b by (simp only: parseexec.simps t_exec.simps pk Let_def prod.case t(1) split: if_split) blast
qed

lemma parsepipe_sim:
  assumes "0 \<notin> set s" "\<And>p. p \<le> length s \<Longrightarrow> sim s (parseexec n s p) (t_exec n (toks s p))"
    "\<And>p. p \<le> length s \<Longrightarrow> sim s (parsepipe n s p) (t_pipe n (toks s p))" "p \<le> length s"
  shows "sim s (parsepipe (Suc n) s p) (t_pipe (Suc n) (toks s p))"
proof -
  have "sim s (let (b, p) = peek s p [124] in if b then let (_, _, _, p) = gettoken s p in
       bnd (parsepipe n s p) (\<lambda>(right, p). Ok (PIPE c right, p)) else Ok (c, p))
     (if toks s p \<noteq> [] \<and> hd (toks s p) = Sym 124 then bnd (t_pipe n (tl (toks s p))) (\<lambda>(d, ts). Ok (PIPE (strs s c) d, ts)) else Ok (strs s c, toks s p))"
    if "p \<le> length s" "goods s c" for p c
    by (rule sim_peek) (use assms(1) that in \<open>auto intro!: sim_bnd assms(3)\<close>)
  then show ?thesis unfolding parsepipe.simps t_pipe.simps by (intro sim_bnd assms(2,4)) simp
qed

lemma parseline_sim:
  assumes "0 \<notin> set s" "\<And>p. p \<le> length s \<Longrightarrow> sim s (parsepipe n s p) (t_pipe n (toks s p))"
    "\<And>p. p \<le> length s \<Longrightarrow> sim s (parseline n s p) (t_line n (toks s p))" "p \<le> length s"
  shows "sim s (parseline (Suc n) s p) (t_line (Suc n) (toks s p))"
proof -
  have l: "sim s (let (b, p) = peek s p [59] in if b then let (_, _, _, p) = gettoken s p in
       bnd (parseline n s p) (\<lambda>(right, p). Ok (LIST c right, p)) else Ok (c, p))
     (if toks s p \<noteq> [] \<and> hd (toks s p) = Sym 59 then bnd (t_line n (tl (toks s p))) (\<lambda>(d, ts). Ok (LIST (strs s c) d, ts)) else Ok (strs s c, toks s p))"
    if "p \<le> length s" "goods s c" for p c
    by (rule sim_peek) (use assms(1) that in \<open>auto intro!: sim_bnd assms(3)\<close>)
  show ?thesis
    unfolding parseline.simps t_line.simps
  proof (rule sim_bnd, rule assms(2) [OF assms(4)], unfold prod.case)
    fix c p assume p: "p \<le> length s" "goods s c"
    obtain d p' where d: "parseback c s p = (d, p')" by fastforce
    note d' = parseback_sim [OF p(1) assms(1) p(2) d]
    show "sim s (let (cmd, p) = parseback c s p; (b, p) = peek s p [59] in if b then let (_, _, _, p) = gettoken s p in
         bnd (parseline n s p) (\<lambda>(right, p). Ok (LIST cmd right, p)) else Ok (cmd, p))
       (let (c, ts) = t_back (strs s c) (toks s p) in
         if ts \<noteq> [] \<and> hd ts = Sym 59 then bnd (t_line n (tl ts)) (\<lambda>(d, ts). Ok (LIST c d, ts)) else Ok (c, ts))"
      using l [of p' d] d' by (simp add: d)
  qed
qed

lemma neg_if: "(if \<not> b then x else y) = (if b then y else x)"
  by simp

lemma parseblock_sim:
  assumes "0 \<notin> set s" "\<And>p. p \<le> length s \<Longrightarrow> sim s (parseline n s p) (t_line n (toks s p))" "p \<le> length s"
  shows "sim s (parseblock (Suc n) s p) (t_block (Suc n) (toks s p))"
proof -
  have close: "sim s (let (b, p) = peek s p [41] in if b then let (_, _, _, p) = gettoken s p in parseredirs c s p
        else Err (Panic ''syntax - missing )''))
      (if toks s p \<noteq> [] \<and> hd (toks s p) = Sym 41 then t_redirs (strs s c) (tl (toks s p)) else Err (Panic ''syntax - missing )''))"
    if "p \<le> length s" "goods s c" for p c
    by (rule sim_peek) (use assms(1) that in \<open>auto intro!: parseredirs_sim\<close>)
  let ?rest = "\<lambda>(c, p). let (b, p) = peek s p [41] in if b then let (_, _, _, p) = gettoken s p in parseredirs c s p
        else Err (Panic ''syntax - missing )'')"
  let ?rest' = "\<lambda>(c, ts). if ts \<noteq> [] \<and> hd ts = Sym 41 then t_redirs c (tl ts) else Err (Panic ''syntax - missing )'')"
  have inner: "sim s (bnd (parseline n s p) ?rest) (bnd (t_line n (toks s p)) ?rest')" if "p \<le> length s" for p
    by (rule sim_bnd, rule assms(2) [OF that]) (use close in simp)
  have "sim s (let (b, p) = peek s p [40] in if b then let (_, _, _, p) = gettoken s p in bnd (parseline n s p) ?rest else Err (Panic ''parseblock''))
      (if toks s p \<noteq> [] \<and> hd (toks s p) = Sym 40 then bnd (t_line n (tl (toks s p))) ?rest' else Err (Panic ''parseblock''))"
    by (rule sim_peek) (use assms(1,3) inner in auto)
  then show ?thesis by (simp only: parseblock.simps t_block.simps neg_if)
qed

lemma parse_sims:
  assumes "0 \<notin> set s"
  shows "\<forall>p\<le>length s. sim s (parseline n s p) (t_line n (toks s p)) \<and> sim s (parsepipe n s p) (t_pipe n (toks s p)) \<and>
    sim s (parseexec n s p) (t_exec n (toks s p)) \<and> sim s (parseblock n s p) (t_block n (toks s p))"
proof (induction n)
  case (Suc n)
  then show ?case
    using parseline_sim [OF assms] parsepipe_sim [OF assms] parseexec_sim [OF assms] parseblock_sim [OF assms] by blast
qed simp

subsection \<open>The parser on tokens follows the grammar\<close>

lemma t_redirs_sound: "t_redirs c ts = Ok (d, ys) \<Longrightarrow> \<exists>xs rs. ts = xs @ ys \<and> g_items xs [] rs \<and> d = wrap rs c"
proof (induction c ts rule: t_redirs.induct)
  case (1 c t w ts)
  show ?case
  proof (cases "is_redir t")
    case True
    then obtain xs rs where "ts = xs @ ys" "g_items xs [] rs" "d = wrap rs (redircmd (code t) w c)" using 1 by auto
    then show ?thesis using gi_redir [OF True, of xs "[]" rs w] by (intro exI [of _ "t # Word w # xs"] exI [of _ "(t, w) # rs"]) simp
  next
    case False
    then show ?thesis using 1(2) gi_nil by auto
  qed
qed (auto split: if_splits intro: gi_nil)

lemma t_args_sound:
  "t_args (length vs) (wrap qs (EXEC vs)) ts = Ok (d, ys) \<Longrightarrow> length vs < MAXARGS \<Longrightarrow>
    \<exists>xs ws rs. ts = xs @ ys \<and> g_items xs ws rs \<and> d = wrap (qs @ rs) (EXEC (vs @ ws)) \<and> length (vs @ ws) < MAXARGS"
proof (induction "MAXARGS - length vs" arbitrary: vs qs ts rule: less_induct)
  case less
  show ?case
  proof (cases "(\<exists>t us. ts = t # us \<and> first t \<notin> set [124, 41, 38, 59])")
    case False
    then have "d = wrap qs (EXEC vs)" "ys = ts" using less.prems(1) by (auto simp: t_args.simps split: list.splits)
    then show ?thesis using gi_nil less.prems(2) by (intro exI [of _ "[]"]) simp
  next
    case True
    then obtain w us where t: "ts = Word w # us" and l: "length vs + 1 < MAXARGS"
      and r: "bnd (t_redirs (add_arg w (wrap qs (EXEC vs))) us) (\<lambda>(c, ts). t_args (length vs + 1) c ts) = Ok (d, ys)"
      using less.prems(1) by (auto simp: t_args.simps [of "length vs"] split: tok.splits if_splits)
    obtain xs rs zs where a: "us = xs @ zs" "g_items xs [] rs" "t_args (length (vs @ [w])) (wrap (qs @ rs) (EXEC (vs @ [w]))) zs = Ok (d, ys)"
      using r by (auto simp: res_simps add_arg_wrap dest!: t_redirs_sound)
    obtain xs' ws rs' where b: "zs = xs' @ ys" "g_items xs' ws rs'" "d = wrap ((qs @ rs) @ rs') (EXEC ((vs @ [w]) @ ws))" "length ((vs @ [w]) @ ws) < MAXARGS"
    proof -
      have "MAXARGS - length (vs @ [w]) < MAXARGS - length vs" "length (vs @ [w]) < MAXARGS" using l by simp_all
      from less.hyps [OF this(1) a(3) this(2)] that show thesis by blast
    qed
    have "g_items (Word w # xs @ xs') (w # ws) (rs @ rs')" using g_items_append [OF a(2) b(2)] by (auto intro: gi_word)
    then show ?thesis using t a(1) b by (intro exI [of _ "Word w # xs @ xs'"] exI [of _ "w # ws"] exI [of _ "rs @ rs'"]) simp
  qed
qed

lemma t_back_sound: "t_back c ts = (d, ys) \<Longrightarrow> \<exists>n. ts = replicate n (Sym 38) @ ys \<and> d = (BACK ^^ n) c"
proof (induction c ts rule: t_back.induct)
  case (1 c t ts)
  show ?case
  proof (cases "t = Sym 38")
    case True
    then obtain n where "ts = replicate n (Sym 38) @ ys" "d = (BACK ^^ n) (BACK c)" using 1 by auto
    then show ?thesis using True by (intro exI [of _ "Suc n"]) (simp add: funpow_swap1)
  next
    case False
    then show ?thesis using 1(2) by (intro exI [of _ 0]) simp
  qed
qed simp

lemma t_exec_sound:
  assumes "t_exec (Suc n) ts = Ok (c, ys)" "\<And>ts c ys. t_block n ts = Ok (c, ys) \<Longrightarrow> \<exists>xs. ts = xs @ ys \<and> g_exec xs c"
  shows "\<exists>xs. ts = xs @ ys \<and> g_exec xs c"
proof (cases "ts \<noteq> [] \<and> hd ts = Sym 40")
  case True
  then show ?thesis using assms by simp
next
  case False
  then obtain d zs where r: "t_redirs (EXEC []) ts = Ok (d, zs)" "t_args 0 d zs = Ok (c, ys)" using assms(1) by (auto simp: res_simps)
  obtain xs rs where x: "ts = xs @ zs" "g_items xs [] rs" "d = wrap rs (EXEC [])" using t_redirs_sound [OF r(1)] by blast
  obtain xs' ws rs' where y: "zs = xs' @ ys" "g_items xs' ws rs'" "c = wrap (rs @ rs') (EXEC ws)" "length ws < MAXARGS"
    using t_args_sound [of "[]" rs zs c ys] r(2) x(3) by auto
  have "g_items (xs @ xs') ws (rs @ rs')" using g_items_append [OF x(2) y(2)] by simp
  then show ?thesis using x(1) y g_simple [of "xs @ xs'" ws "rs @ rs'"] by (intro exI [of _ "xs @ xs'"]) simp
qed

lemma t_pipe_sound:
  assumes "t_pipe (Suc n) ts = Ok (c, ys)" "\<And>ts c ys. t_exec n ts = Ok (c, ys) \<Longrightarrow> \<exists>xs. ts = xs @ ys \<and> g_exec xs c"
    "\<And>ts c ys. t_pipe n ts = Ok (c, ys) \<Longrightarrow> \<exists>xs. ts = xs @ ys \<and> g_pipe xs c"
  shows "\<exists>xs. ts = xs @ ys \<and> g_pipe xs c"
proof -
  obtain d zs where d: "t_exec n ts = Ok (d, zs)" using assms(1) by (auto simp: res_simps)
  obtain xs where xs: "ts = xs @ zs" "g_exec xs d" using assms(2) [OF d] by blast
  show ?thesis
  proof (cases "zs \<noteq> [] \<and> hd zs = Sym 124")
    case True
    then obtain us e where u: "zs = Sym 124 # us" "t_pipe n us = Ok (e, ys)" "c = PIPE d e"
      using assms(1) d by (cases zs) (auto simp: res_simps)
    obtain us' where "us = us' @ ys" "g_pipe us' e" using assms(3) [OF u(2)] by blast
    then show ?thesis using xs u g_more by (intro exI [of _ "xs @ Sym 124 # us'"]) simp
  next
    case False
    then show ?thesis using assms(1) d xs g_one by (intro exI [of _ xs]) (auto simp: res_simps)
  qed
qed

lemma t_line_sound:
  assumes "t_line (Suc n) ts = Ok (c, ys)" "\<And>ts c ys. t_pipe n ts = Ok (c, ys) \<Longrightarrow> \<exists>xs. ts = xs @ ys \<and> g_pipe xs c"
    "\<And>ts c ys. t_line n ts = Ok (c, ys) \<Longrightarrow> \<exists>xs. ts = xs @ ys \<and> g_line xs c"
  shows "\<exists>xs. ts = xs @ ys \<and> g_line xs c"
proof -
  obtain d zs where d: "t_pipe n ts = Ok (d, zs)" using assms(1) by (auto simp: res_simps)
  obtain e vs where e: "t_back d zs = (e, vs)" by fastforce
  obtain k where k: "zs = replicate k (Sym 38) @ vs" "e = (BACK ^^ k) d" using t_back_sound [OF e] by blast
  obtain xs where xs: "ts = xs @ zs" "g_pipe xs d" using assms(2) [OF d] by blast
  show ?thesis
  proof (cases "vs \<noteq> [] \<and> hd vs = Sym 59")
    case True
    then obtain us f where u: "vs = Sym 59 # us" "t_line n us = Ok (f, ys)" "c = LIST e f"
      using assms(1) d e by (cases vs) (auto simp: res_simps)
    obtain us' where "us = us' @ ys" "g_line us' f" using assms(3) [OF u(2)] by blast
    then show ?thesis using xs u k g_seq by (intro exI [of _ "xs @ replicate k (Sym 38) @ Sym 59 # us'"]) simp
  next
    case False
    then show ?thesis using assms(1) d e xs k g_last by (intro exI [of _ "xs @ replicate k (Sym 38)"]) (auto simp: res_simps)
  qed
qed

lemma t_block_sound:
  assumes "t_block (Suc n) ts = Ok (c, ys)" "\<And>ts c ys. t_line n ts = Ok (c, ys) \<Longrightarrow> \<exists>xs. ts = xs @ ys \<and> g_line xs c"
  shows "\<exists>xs. ts = xs @ ys \<and> g_exec xs c"
proof -
  obtain us d vs where u: "ts = Sym 40 # us" "t_line n us = Ok (d, Sym 41 # vs)" "t_redirs d vs = Ok (c, ys)"
    using assms(1) by (cases ts) (auto simp: res_simps neq_Nil_conv split: if_splits)
  obtain xs where xs: "us = xs @ Sym 41 # vs" "g_line xs d" using assms(2) [OF u(2)] by blast
  obtain zs rs where "vs = zs @ ys" "g_items zs [] rs" "c = wrap rs d" using t_redirs_sound [OF u(3)] by blast
  then show ?thesis using u xs g_block [OF xs(2)] by (intro exI [of _ "Sym 40 # xs @ Sym 41 # zs"]) simp
qed

lemma t_sound:
  "(\<forall>ts c ys. t_line n ts = Ok (c, ys) \<longrightarrow> (\<exists>xs. ts = xs @ ys \<and> g_line xs c)) \<and>
   (\<forall>ts c ys. t_pipe n ts = Ok (c, ys) \<longrightarrow> (\<exists>xs. ts = xs @ ys \<and> g_pipe xs c)) \<and>
   (\<forall>ts c ys. t_exec n ts = Ok (c, ys) \<longrightarrow> (\<exists>xs. ts = xs @ ys \<and> g_exec xs c)) \<and>
   (\<forall>ts c ys. t_block n ts = Ok (c, ys) \<longrightarrow> (\<exists>xs. ts = xs @ ys \<and> g_exec xs c))"
proof (induction n)
  case (Suc n)
  have IH: "\<And>ts c ys. t_line n ts = Ok (c, ys) \<Longrightarrow> \<exists>xs. ts = xs @ ys \<and> g_line xs c" "\<And>ts c ys. t_pipe n ts = Ok (c, ys) \<Longrightarrow> \<exists>xs. ts = xs @ ys \<and> g_pipe xs c"
    "\<And>ts c ys. t_exec n ts = Ok (c, ys) \<Longrightarrow> \<exists>xs. ts = xs @ ys \<and> g_exec xs c" "\<And>ts c ys. t_block n ts = Ok (c, ys) \<Longrightarrow> \<exists>xs. ts = xs @ ys \<and> g_exec xs c"
    using Suc by blast+
  show ?case
    by (intro conjI allI impI; erule t_line_sound t_pipe_sound t_exec_sound t_block_sound; erule IH)
qed simp

text \<open>The other direction: what the grammar derives is parsed, up to a token that cannot continue it.\<close>

definition stops :: "u8 set \<Rightarrow> tok list \<Rightarrow> bool" where
  "stops cs ys \<longleftrightarrow> ys = [] \<or> (\<exists>c\<in>cs. hd ys = Sym c)"

lemma t_redirs_stop: "ys = [] \<or> \<not> is_redir (hd ys) \<Longrightarrow> t_redirs c ys = Ok (c, ys)"
  by (cases ys) (auto simp: t_redirs_cases(2))

lemma t_redirs_complete: "g_items xs ws rs \<Longrightarrow> ws = [] \<Longrightarrow> ys = [] \<or> \<not> is_redir (hd ys) \<Longrightarrow> t_redirs c (xs @ ys) = Ok (wrap rs c, ys)"
  by (induction arbitrary: c rule: g_items.induct) (auto simp: t_redirs_stop)

lemma t_args_complete:
  assumes "g_items xs ws rs" "stops {124, 41, 38, 59} ys" "length (vs @ ws) < MAXARGS"
  shows "bnd (t_redirs (wrap qs (EXEC vs)) (xs @ ys)) (\<lambda>(c, ts). t_args (length vs) c ts) = Ok (wrap (qs @ rs) (EXEC (vs @ ws)), ys)"
  using assms
proof (induction arbitrary: vs qs rule: g_items.induct)
  case gi_nil
  have "ys = [] \<or> \<not> is_redir (hd ys)" using gi_nil(1) by (auto simp: stops_def is_redir_def first_def)
  then have "t_redirs (wrap qs (EXEC vs)) ys = Ok (wrap qs (EXEC vs), ys)" by (rule t_redirs_stop)
  moreover have "t_args (length vs) (wrap qs (EXEC vs)) ys = Ok (wrap qs (EXEC vs), ys)"
    using gi_nil(1) by (cases ys) (auto simp: stops_def t_args.simps first_def)
  ultimately show ?case by simp
next
  case (gi_word ts ws rs w)
  have "\<not> is_redir (Word w)" by (simp add: is_redir_def first_def)
  then have "t_redirs (wrap qs (EXEC vs)) (Word w # ts @ ys) = Ok (wrap qs (EXEC vs), Word w # ts @ ys)" by (rule t_redirs_cases(2))
  then show ?case using gi_word(2) [of "vs @ [w]" qs] gi_word(3,4) by (simp add: t_args.simps [of "length vs"] first_def add_arg_wrap)
next
  case (gi_redir t ts ws rs w)
  then show ?case using gi_redir(3) [of vs "qs @ [(t, w)]"] by simp
qed

lemma t_back_complete: "ys = [] \<or> hd ys \<noteq> Sym 38 \<Longrightarrow> t_back c (replicate n (Sym 38) @ ys) = ((BACK ^^ n) c, ys)"
proof (induction n arbitrary: c)
  case 0
  then show ?case by (cases ys) auto
next
  case (Suc n)
  then show ?case by (simp add: funpow_swap1)
qed

lemma stopsD: "stops cs ys \<Longrightarrow> x \<notin> cs \<Longrightarrow> \<not> (ys \<noteq> [] \<and> hd ys = Sym x)"
  by (auto simp: stops_def)

lemma stops_mono: "stops cs ys \<Longrightarrow> cs \<subseteq> ds \<Longrightarrow> stops ds ys"
  by (auto simp: stops_def)

lemma stops_Sym [simp]: "stops cs (Sym x # ys) \<longleftrightarrow> x \<in> cs"
  by (auto simp: stops_def)

lemma simple_not_block: "g_items xs ws rs \<Longrightarrow> stops {124, 41, 38, 59} ys \<Longrightarrow> \<not> (xs @ ys \<noteq> [] \<and> hd (xs @ ys) = Sym 40)"
  by (cases rule: g_items.cases) (auto simp: stops_def is_redir_def first_def)

lemma t_complete:
  "g_line xs c \<Longrightarrow> \<forall>ys n. stops {41} ys \<longrightarrow> 4 * length (xs @ ys) + 4 \<le> n \<longrightarrow> t_line n (xs @ ys) = Ok (c, ys)"
  "g_pipe xs c \<Longrightarrow> \<forall>ys n. stops {41, 38, 59} ys \<longrightarrow> 4 * length (xs @ ys) + 3 \<le> n \<longrightarrow> t_pipe n (xs @ ys) = Ok (c, ys)"
  "g_exec xs c \<Longrightarrow> \<forall>ys n. stops {124, 41, 38, 59} ys \<longrightarrow> 4 * length (xs @ ys) + 2 \<le> n \<longrightarrow> t_exec n (xs @ ys) = Ok (c, ys)"
proof (induction rule: g_line_g_pipe_g_exec.inducts)
  case (g_simple ts ws rs)
  show ?case
  proof (intro allI impI)
    fix ys n assume st: "stops {124, 41, 38, 59} ys" and n: "4 * length (ts @ ys) + 2 \<le> n"
    obtain m where m: "n = Suc m" using n by (cases n) auto
    show "t_exec n (ts @ ys) = Ok (wrap rs (EXEC ws), ys)"
      using t_args_complete [OF g_simple(1) st, of "[]" "[]"] simple_not_block [OF g_simple(1) st] g_simple(2) by (auto simp: m simp del: append_is_Nil_conv)
  qed
next
  case (g_block ts c us rs)
  show ?case
  proof (intro allI impI)
    fix ys n assume st: "stops {124, 41, 38, 59} ys" and n: "4 * length ((Sym 40 # ts @ Sym 41 # us) @ ys) + 2 \<le> n"
    obtain m where m: "n = Suc (Suc m)" using n by (cases n; cases "n - 1") auto
    have "t_line m (ts @ Sym 41 # us @ ys) = Ok (c, Sym 41 # us @ ys)" using g_block.IH n m by simp
    moreover have "t_redirs c (us @ ys) = Ok (wrap rs c, ys)"
      using st by (intro t_redirs_complete [OF g_block.hyps(2) refl]) (auto simp: stops_def is_redir_def first_def)
    ultimately show "t_exec n ((Sym 40 # ts @ Sym 41 # us) @ ys) = Ok (wrap rs c, ys)" by (simp add: m)
  qed
next
  case (g_one ts c)
  show ?case
  proof (intro allI impI)
    fix ys n assume st: "stops {41, 38, 59} ys" and n: "4 * length (ts @ ys) + 3 \<le> n"
    obtain m where m: "n = Suc m" using n by (cases n) auto
    have "t_exec m (ts @ ys) = Ok (c, ys)" using g_one.IH n m stops_mono [OF st] by simp
    then show "t_pipe n (ts @ ys) = Ok (c, ys)" using stopsD [OF st, of 124] by (auto simp: m)
  qed
next
  case (g_more ts c us d)
  show ?case
  proof (intro allI impI)
    fix ys n assume st: "stops {41, 38, 59} ys" and n: "4 * length ((ts @ Sym 124 # us) @ ys) + 3 \<le> n"
    obtain m where m: "n = Suc m" using n by (cases n) auto
    have "t_exec m (ts @ Sym 124 # us @ ys) = Ok (c, Sym 124 # us @ ys)" "t_pipe m (us @ ys) = Ok (d, ys)"
      using g_more.IH n m st by simp_all
    then show "t_pipe n ((ts @ Sym 124 # us) @ ys) = Ok (PIPE c d, ys)" by (simp add: m)
  qed
next
  case (g_last ts c k)
  show ?case
  proof (intro allI impI)
    fix ys n assume st: "stops {41} ys" and n: "4 * length ((ts @ replicate k (Sym 38)) @ ys) + 4 \<le> n"
    obtain m where m: "n = Suc m" using n by (cases n) auto
    have "stops {41, 38, 59} (replicate k (Sym 38) @ ys)" using stops_mono [OF st] by (cases k) simp_all
    then have "t_pipe m (ts @ replicate k (Sym 38) @ ys) = Ok (c, replicate k (Sym 38) @ ys)" using g_last.IH n m by simp
    moreover have "t_back c (replicate k (Sym 38) @ ys) = ((BACK ^^ k) c, ys)" using st by (intro t_back_complete) (auto simp: stops_def)
    ultimately show "t_line n ((ts @ replicate k (Sym 38)) @ ys) = Ok ((BACK ^^ k) c, ys)" using stopsD [OF st, of 59] by (auto simp: m)
  qed
next
  case (g_seq ts c us d k)
  show ?case
  proof (intro allI impI)
    fix ys n assume st: "stops {41} ys" and n: "4 * length ((ts @ replicate k (Sym 38) @ Sym 59 # us) @ ys) + 4 \<le> n"
    obtain m where m: "n = Suc m" using n by (cases n) auto
    have "stops {41, 38, 59} (replicate k (Sym 38) @ Sym 59 # us @ ys)" by (cases k) simp_all
    then have "t_pipe m (ts @ replicate k (Sym 38) @ Sym 59 # us @ ys) = Ok (c, replicate k (Sym 38) @ Sym 59 # us @ ys)"
      using g_seq.IH(1) n m by simp
    moreover have "t_back c (replicate k (Sym 38) @ Sym 59 # us @ ys) = ((BACK ^^ k) c, Sym 59 # us @ ys)" by (rule t_back_complete) simp
    moreover have "t_line m (us @ ys) = Ok (d, ys)" using g_seq.IH(2) st n m by simp
    ultimately show "t_line n ((ts @ replicate k (Sym 38) @ Sym 59 # us) @ ys) = Ok (LIST ((BACK ^^ k) c) d, ys)" by (simp add: m)
  qed
qed

subsection \<open>The parser always ends\<close>

lemma t_redirs_panics: "t_redirs c ts = Err e \<Longrightarrow> \<exists>m. e = Panic m"
  by (induction c ts rule: t_redirs.induct) (auto split: if_splits)

lemma t_args_panics: "t_args argc c ts = Err e \<Longrightarrow> \<exists>m. e = Panic m"
proof (induction argc c ts rule: t_args.induct)
  case (1 argc c ts)
  then show ?case
    by (subst (asm) (2) t_args.simps) (auto simp: res_simps dest: t_redirs_panics split: list.splits tok.splits if_splits)
qed

lemma t_total:
  "(\<forall>ts e. t_line n ts = Err e \<longrightarrow> 4 * length ts + 4 \<le> n \<longrightarrow> (\<exists>m. e = Panic m)) \<and>
   (\<forall>ts e. t_pipe n ts = Err e \<longrightarrow> 4 * length ts + 3 \<le> n \<longrightarrow> (\<exists>m. e = Panic m)) \<and>
   (\<forall>ts e. t_exec n ts = Err e \<longrightarrow> 4 * length ts + 2 \<le> n \<longrightarrow> (\<exists>m. e = Panic m)) \<and>
   (\<forall>ts e. t_block n ts = Err e \<longrightarrow> 4 * length ts + 1 \<le> n \<longrightarrow> (\<exists>m. e = Panic m))"
proof (induction n)
  case (Suc n)
  have len: "\<And>ts c ys. t_pipe n ts = Ok (c, ys) \<Longrightarrow> length ys \<le> length ts" "\<And>ts c ys. t_exec n ts = Ok (c, ys) \<Longrightarrow> length ys \<le> length ts"
    using t_sound [of n] by fastforce+
  have bk: "\<And>c ts d ys. t_back c ts = (d, ys) \<Longrightarrow> length ys \<le> length ts" using t_back_sound by fastforce
  show ?case
  proof (intro conjI allI impI)
    fix ts e assume r: "t_line (Suc n) ts = Err e" and n: "4 * length ts + 4 \<le> Suc n"
    show "\<exists>m. e = Panic m"
    proof (cases "t_pipe n ts")
      case (Err f)
      then show ?thesis using r n Suc by simp
    next
      case (Ok x)
      obtain c zs where x: "x = (c, zs)" by fastforce
      obtain d ys where d: "t_back c zs = (d, ys)" by fastforce
      have l: "length ys \<le> length ts" using len(1) [OF Ok [unfolded x]] bk [OF d] by simp
      have "ys \<noteq> []" "t_line n (tl ys) = Err e" using r Ok x d by (auto simp: res_simps split: if_splits)
      then show ?thesis using Suc l n by (cases ys) auto
    qed
  next
    fix ts e assume r: "t_pipe (Suc n) ts = Err e" and n: "4 * length ts + 3 \<le> Suc n"
    show "\<exists>m. e = Panic m"
    proof (cases "t_exec n ts")
      case (Err f)
      then show ?thesis using r n Suc by simp
    next
      case (Ok x)
      obtain c ys where x: "x = (c, ys)" by fastforce
      have l: "length ys \<le> length ts" using len(2) [OF Ok [unfolded x]] .
      have "ys \<noteq> []" "t_pipe n (tl ys) = Err e" using r Ok x by (auto simp: res_simps split: if_splits)
      then show ?thesis using Suc l n by (cases ys) auto
    qed
  next
    fix ts e assume r: "t_exec (Suc n) ts = Err e" and n: "4 * length ts + 2 \<le> Suc n"
    show "\<exists>m. e = Panic m" using r n Suc by (auto simp: res_simps split: if_splits dest: t_redirs_panics t_args_panics)
  next
    fix ts e assume r: "t_block (Suc n) ts = Err e" and n: "4 * length ts + 1 \<le> Suc n"
    show "\<exists>m. e = Panic m" using r n Suc by (cases ts) (auto simp: res_simps split: if_splits dest: t_redirs_panics)
  qed
qed simp

subsection \<open>Strings in the buffer\<close>

definition cstr :: "u8 list \<Rightarrow> nat \<Rightarrow> u8 list" where
  "cstr buf q = takeWhile (\<lambda>c. c \<noteq> 0) (drop q buf)"

definition strings :: "u8 list \<Rightarrow> (nat \<times> nat) cmd \<Rightarrow> u8 list cmd" where
  "strings buf = map_cmd (\<lambda>w. cstr buf (fst w))"

lemma fold_ends:
  "length (fold (\<lambda>(_, e) b. b[e := 0]) ws b) = length b \<and>
   (\<forall>i<length b. fold (\<lambda>(_, e) b. b[e := 0]) ws b ! i = (if i \<in> snd ` set ws then 0 else b ! i))" for b :: "u8 list"
  by (induction ws arbitrary: b) (auto simp: nth_list_update split: prod.splits)

lemma nulterminate_nth:
  "length (nulterminate c buf) = length buf \<and>
   (\<forall>i<length buf. nulterminate c buf ! i = (if i \<in> snd ` set_cmd c then 0 else buf ! i))"
proof (induction c buf rule: nulterminate.induct)
  case (2 c q e m d buf)
  then show ?case by (cases "e < length buf") (auto simp: nth_list_update)
qed (auto simp: fold_ends)

lemma cstr_good:
  assumes "goods s c" "0 \<notin> set s" "w \<in> set_cmd c"
  shows "cstr (nulterminate c (s @ [0])) (fst w) = slice s w"
proof -
  let ?b = "nulterminate c (s @ [0])" and ?n = "snd w - fst w"
  have g: "good s w" using assms by blast
  then have le: "fst w \<le> snd w" "snd w \<le> length s" by (simp_all add: good_def)
  have inside: "?b ! i = s ! i \<and> s ! i \<noteq> 0" if i: "fst w \<le> i" "i < snd w" for i
  proof -
    have "slice s w ! (i - fst w) = s ! i" "i - fst w < length (slice s w)" using i le by (simp_all add: slice_def)
    then have "wordc (s ! i)" using g unfolding good_def list_all_iff by (metis nth_mem)
    moreover have "i < length s" using i le by simp
    ultimately have "i \<notin> snd ` set_cmd c" using assms(1) by (auto simp: good_def)
    moreover have "s ! i \<noteq> 0" using assms(2) nth_mem [OF \<open>i < length s\<close>] by metis
    ultimately show ?thesis using nulterminate_nth [of c "s @ [0]"] \<open>i < length s\<close> by (simp add: nth_append)
  qed
  have "snd w \<in> snd ` set_cmd c" using assms(3) by blast
  then have e: "?b ! snd w = 0" using nulterminate_nth [of c "s @ [0]"] le by simp
  have l: "length ?b = length s + 1" using nulterminate_nth [of c "s @ [0]"] by simp
  have "cstr ?b (fst w) = take ?n (drop (fst w) ?b)"
    unfolding cstr_def by (rule takeWhile_eq_take_P_nth) (use inside e le l in \<open>auto simp: less_diff_conv\<close>)
  also have "\<dots> = slice s w" unfolding slice_def by (rule nth_equalityI) (use inside le l in auto)
  finally show ?thesis .
qed

lemma strings_strs: "goods s c \<Longrightarrow> 0 \<notin> set s \<Longrightarrow> strings (nulterminate c (s @ [0])) c = strs s c"
  unfolding strings_def by (rule cmd.map_cong0) (rule cstr_good)

lemma lex_length: "length (lex s) \<le> length s"
proof (induction s rule: lex.induct)
  case (1 s)
  let ?d = "dropWhile (\<lambda>c. c \<in> set whitespace) s"
  have d: "length ?d \<le> length s" by (rule length_dropWhile_le)
  show ?case
  proof (cases ?d)
    case Nil
    then show ?thesis by (subst lex.simps) (simp only: list.case list.size)
  next
    case (Cons c r)
    have "length (tl r) \<le> length r" "length (dropWhile wordc r) \<le> length r" by (simp_all add: length_dropWhile_le)
    then show ?thesis using 1 [OF Cons] d Cons by (subst lex.simps) (auto intro: order_trans)
  qed
qed

lemma toks_end:
  assumes "p \<le> length s" "0 \<notin> set s"
  shows "toks s p = [] \<longleftrightarrow> skip_ws s p = length s"
  using assms
proof (cases rule: next_token)
  case (some c)
  have "toks s (skip_ws s p) \<noteq> []" unfolding some(5) using some(4) by (subst lex.simps) simp
  then show ?thesis using some(1) toks_skip [OF assms(1)] by simp
qed simp

lemma parsecmd_decides:
  assumes "0 \<notin> set s"
  shows "((\<exists>buf t. parsecmd s = Ok (buf, t) \<and> strings buf t = c) \<longleftrightarrow> g_line (lex s) c) \<and>
    (\<forall>e. parsecmd s = Err e \<longrightarrow> (\<exists>m. e = Panic m))"
proof (intro conjI allI impI)
  let ?n = "4 * length s + 4"
  have fuel: "4 * length (lex s) + 4 \<le> ?n" using lex_length [of s] by simp
  have sim: "sim s (parseline ?n s 0) (t_line ?n (lex s))" using parse_sims [OF assms, of ?n] by (metis drop0 le0)
  show "(\<exists>buf t. parsecmd s = Ok (buf, t) \<and> strings buf t = c) \<longleftrightarrow> g_line (lex s) c"
  proof
    assume "\<exists>buf t. parsecmd s = Ok (buf, t) \<and> strings buf t = c"
    then obtain t p where r: "parseline ?n s 0 = Ok (t, p)" "skip_ws s p = length s" "strings (nulterminate t (s @ [0])) t = c"
      by (auto simp: parsecmd_def res_simps peek_def Let_def split: if_splits)
    have t: "p \<le> length s" "goods s t" "t_line ?n (lex s) = Ok (strs s t, toks s p)" using sim r(1) by simp_all
    have "toks s p = []" using toks_end [OF t(1) assms] r(2) by simp
    then show "g_line (lex s) c" using t_sound [of ?n] t(3) strings_strs [OF t(2) assms] r(3) by fastforce
  next
    assume "g_line (lex s) c"
    then have "t_line ?n (lex s) = Ok (c, [])" using t_complete(1) [of "lex s" c] fuel by (simp add: stops_def)
    then obtain t p where r: "parseline ?n s 0 = Ok (t, p)" "p \<le> length s" "goods s t" "strs s t = c" "toks s p = []"
      using sim by (cases "parseline ?n s 0") auto
    then show "\<exists>buf t. parsecmd s = Ok (buf, t) \<and> strings buf t = c"
      using toks_end [OF r(2) assms] strings_strs [OF r(3) assms] by (simp add: parsecmd_def peek_def Let_def)
  qed
  fix e assume that: "parsecmd s = Err e"
  show "\<exists>m. e = Panic m"
  proof (cases "parseline ?n s 0")
    case (Err f)
    then show ?thesis using that sim t_total [of ?n] fuel by (auto simp: parsecmd_def)
  next
    case (Ok x)
    then show ?thesis using that by (auto simp: parsecmd_def Let_def split: prod.splits if_splits)
  qed
qed

text \<open>
  C34: The shell's parser decides the grammar. On a line without NUL bytes \<open>parsecmd\<close> ends, and when it
  does not return a command it has called \<open>panic\<close>. It returns a command exactly when the tokens of the line form
  a line of the grammar, and then the C strings that the tree points to, after \<open>nulterminate\<close>, are
  the words of the derived command.
\<close>

theorem parsecmd_grammar:
  assumes "0 \<notin> set s"
  shows "((\<exists>buf t. parsecmd s = Ok (buf, t) \<and> strings buf t = c) \<longleftrightarrow> g_line (lex s) c) \<and>
    (\<forall>e. parsecmd s = Err e \<longrightarrow> (\<exists>m. e = Panic m))"
  by (rule parsecmd_decides [OF assms])

text \<open>The line \<open>a b|(c;d)>f&\<close>.\<close>

theorem parsecmd_grammar_witness:
  "g_line (lex [97, 32, 98, 124, 40, 99, 59, 100, 41, 62, 102, 38, 10])
     (BACK (PIPE (EXEC [[97], [98]]) (REDIR (LIST (EXEC [[99]]) (EXEC [[100]])) [102] 0x601 1)))"
proof -
  let ?s = "[97, 32, 98, 124, 40, 99, 59, 100, 41, 62, 102, 38, 10] :: u8 list"
  let ?t = "BACK (PIPE (EXEC [(0, 1), (2, 3)]) (REDIR (LIST (EXEC [(5, 6)]) (EXEC [(7, 8)])) (10, 11) 0x601 1))"
  have "parsecmd ?s = Ok (nulterminate ?t (?s @ [0]), ?t)" by code_simp
  moreover have "strings (nulterminate ?t (?s @ [0])) ?t = BACK (PIPE (EXEC [[97], [98]]) (REDIR (LIST (EXEC [[99]]) (EXEC [[100]])) [102] 0x601 1))"
    by code_simp
  ultimately show ?thesis
    using parsecmd_grammar [of ?s "BACK (PIPE (EXEC [[97], [98]]) (REDIR (LIST (EXEC [[99]]) (EXEC [[100]])) [102] 0x601 1))"] by auto
qed

end
