(* ===== verification/Shrun.thy ===== *)
theory Shrun
  imports Sh
begin

text \<open>
  The shell, \<open>user/sh.c\<close>: \<open>runcmd\<close> over tables of file descriptors, and the loop of \<open>main\<close>. The specification
  gives each program of a command line its standard input and output; the proof shows that \<open>runcmd\<close> wires
  them so, and that no other end of a pipe stays open in any of them or in a shell that waits for them.
\<close>

subsection \<open>Processes\<close>

text \<open>A process of the shell: its table of open files, and what it does until it exits or runs a program.
  \<open>AFork\<close> holds what the child does; \<open>AExec\<close> and \<open>AWait\<close> hold the open files of the process at that moment. What the kernel answers is a record of answers. A pipe is named by the path
  of forks to the process that made it.\<close>

datatype obj = Console | FileAt "u8 list" nat | PipeR "nat list" | PipeW "nat list" | Other nat

type_synonym fds = "nat \<Rightarrow> obj option"

datatype act =
    AExec "u8 list list" fds
  | AFork "act list"
  | AWait fds
  | APrint "u8 list"
  | AChdir "u8 list"
  | AExit nat

record answers =
  open_ok :: "u8 list \<Rightarrow> nat \<Rightarrow> bool"
  pipe_ok :: "nat list \<Rightarrow> bool"
  fork_ok :: "nat list \<Rightarrow> bool"
  exec_ok :: "u8 list list \<Rightarrow> bool"
  chdir_ok :: "u8 list \<Rightarrow> bool"

abbreviation NOFILE :: nat where "NOFILE \<equiv> 16"

text \<open>\<open>open\<close>, \<open>dup\<close> and \<open>pipe\<close> take the lowest free descriptor.\<close>

definition low :: "fds \<Rightarrow> nat option" where
  "low f = find (\<lambda>i. f i = None) [0..<NOFILE]"

definition fd_close :: "nat \<Rightarrow> fds \<Rightarrow> fds" where
  "fd_close i f = f(i := None)"

definition fd_open :: "bool \<Rightarrow> obj \<Rightarrow> fds \<Rightarrow> (nat \<times> fds) option" where
  "fd_open succeeds x f = (if succeeds then map_option (\<lambda>i. (i, f(i \<mapsto> x))) (low f) else None)"

definition fd_dup :: "nat \<Rightarrow> fds \<Rightarrow> fds" where
  "fd_dup i f = (case (f i, low f) of (Some x, Some j) \<Rightarrow> f(j \<mapsto> x) | _ \<Rightarrow> f)"

definition fd_pipe :: "bool \<Rightarrow> nat list \<Rightarrow> fds \<Rightarrow> (nat \<times> nat \<times> fds) option" where
  "fd_pipe succeeds nm f =
     (case fd_open succeeds (PipeR nm) f of
        None \<Rightarrow> None
      | Some (i, f) \<Rightarrow> map_option (\<lambda>(j, f). (i, j, f)) (fd_open True (PipeW nm) f))"

definition chars :: "string \<Rightarrow> u8 list" where
  "chars m = map (\<lambda>c. of_char c) m"

text \<open>\<open>panic\<close> and \<open>fork1\<close>: the child runs \<open>child\<close>, the parent goes on with \<open>k\<close>.\<close>

definition sh_panic :: "u8 list \<Rightarrow> act list" where
  "sh_panic msg = [APrint (msg @ [10]), AExit 1]"

definition fork1 :: "answers \<Rightarrow> nat list \<Rightarrow> act list \<Rightarrow> act list \<Rightarrow> act list" where
  "fork1 ans nm child k = (if fork_ok ans nm then AFork child # k else sh_panic (chars ''fork''))"

fun runcmd :: "answers \<Rightarrow> nat list \<Rightarrow> fds \<Rightarrow> u8 list cmd \<Rightarrow> act list" where
  "runcmd ans nm f (EXEC ws) =
     (case ws of
        [] \<Rightarrow> [AExit 1]
      | w # _ \<Rightarrow> AExec ws f # (if exec_ok ans ws then [] else [APrint (chars ''exec '' @ w @ chars '' failed'' @ [10]), AExit 0]))"
| "runcmd ans nm f (REDIR c file mode fd) =
     (let f = fd_close fd f in
      case fd_open (open_ok ans file mode) (FileAt file mode) f of
        None \<Rightarrow> [APrint (chars ''open '' @ file @ chars '' failed'' @ [10]), AExit 1]
      | Some (_, f) \<Rightarrow> runcmd ans nm f c)"
| "runcmd ans nm f (LIST l r) =
     fork1 ans (0 # nm) (runcmd ans (0 # nm) f l) (AWait f # runcmd ans (1 # nm) f r)"
| "runcmd ans nm f (PIPE l r) =
     (case fd_pipe (pipe_ok ans nm) nm f of
        None \<Rightarrow> sh_panic (chars ''pipe'')
      | Some (p0, p1, f) \<Rightarrow>
          fork1 ans (0 # nm) (runcmd ans (0 # nm) (fd_close p1 (fd_close p0 (fd_dup p1 (fd_close 1 f)))) l)
            (fork1 ans (1 # nm) (runcmd ans (1 # nm) (fd_close p1 (fd_close p0 (fd_dup p0 (fd_close 0 f)))) r)
              (let f = fd_close p1 (fd_close p0 f) in [AWait f, AWait f, AExit 0])))"
| "runcmd ans nm f (BACK c) = fork1 ans (0 # nm) (runcmd ans (0 # nm) f c) [AExit 0]"

lemma low_Some: "low f = Some i \<Longrightarrow> i < NOFILE \<and> f i = None \<and> (\<forall>j<i. f j \<noteq> None)"
  unfolding low_def find_Some_iff by (force simp del: upt.simps)

lemma fd_open_less:
  assumes "fd_open b x f = Some (i, g)"
  shows "card {i. i < NOFILE \<and> g i = None} < card {i. i < NOFILE \<and> f i = None}"
proof (rule psubset_card_mono)
  have "low f = Some i" "g = f(i \<mapsto> x)" using assms by (auto simp: fd_open_def split: if_splits)
  then show "{i. i < NOFILE \<and> g i = None} \<subset> {i. i < NOFILE \<and> f i = None}" using low_Some [of f i] by auto
qed simp

text \<open>\<open>main\<close>: three descriptors are opened, then lines are read and run. The first loop ends because there are at
  most \<open>NOFILE\<close> descriptors.\<close>

function open_three :: "answers \<Rightarrow> fds \<Rightarrow> fds" where
  "open_three ans f =
     (case fd_open (open_ok ans (chars ''console'') 2) Console f of
        None \<Rightarrow> f
      | Some (fd, f) \<Rightarrow> if 3 \<le> fd then fd_close fd f else open_three ans f)"
  by pat_completeness auto
termination
  by (relation "measure (\<lambda>(_, f). card {i. i < NOFILE \<and> f i = None})") (auto dest!: fd_open_less)

declare open_three.simps [simp del]

definition getcmd :: "u8 list \<Rightarrow> (u8 list \<times> u8 list) option" where
  "getcmd inp = (let (buf, rest) = gets 100 inp in if hd buf = 0 then None else Some (buf, rest))"

text \<open>One round of the loop on the line in \<open>buf\<close>; the child parses the line. The tokens that \<open>parsecmd\<close> prints
  before it panics are not kept. The last case does not arise.\<close>

definition sh_round :: "answers \<Rightarrow> nat list \<Rightarrow> fds \<Rightarrow> u8 list \<Rightarrow> act list \<Rightarrow> act list" where
  "sh_round ans nm f buf k =
     (let line = cstr buf 0 in
      if take 3 line = chars ''cd '' then
        let dir = drop 3 (butlast line) in
        AChdir dir # (if chdir_ok ans dir then [] else [APrint (chars ''cannot cd '' @ dir @ [10])]) @ k
      else
        fork1 ans nm
          (case parsecmd line of
             Ok (buf, t) \<Rightarrow> runcmd ans nm f (strings buf t)
           | Err (Panic m) \<Rightarrow> sh_panic (chars m)
           | Err _ \<Rightarrow> [])
          (AWait f # k))"

lemma gets_loop_rest: "gets_loop i mx inp = (bs, rest) \<Longrightarrow> length rest + length bs = length inp"
proof (induction i mx inp arbitrary: bs rest rule: gets_loop.induct)
  case (1 i mx inp)
  then show ?case
    by (subst (asm) (2) gets_loop.simps) (auto split: if_splits list.splits prod.splits)
qed

lemma getcmd_less: "getcmd inp = Some (buf, rest) \<Longrightarrow> length rest < length inp"
proof -
  assume g: "getcmd inp = Some (buf, rest)"
  obtain bs r where b: "gets_loop 0 100 inp = (bs, r)" by fastforce
  then have "bs \<noteq> []" "r = rest" using g by (auto simp: getcmd_def gets_def split: if_splits)
  then show ?thesis using gets_loop_rest [OF b] by (cases bs) auto
qed

function sh_loop :: "answers \<Rightarrow> nat \<Rightarrow> fds \<Rightarrow> u8 list \<Rightarrow> act list" where
  "sh_loop ans i f inp =
     (case getcmd inp of
        None \<Rightarrow> [AExit 0]
      | Some (buf, rest) \<Rightarrow> sh_round ans [i] f buf (sh_loop ans (i + 1) f rest))"
  by pat_completeness auto
termination
  by (relation "measure (\<lambda>(_, _, _, inp). length inp)") (auto dest: getcmd_less)

declare sh_loop.simps [simp del]

definition sh_main :: "answers \<Rightarrow> fds \<Rightarrow> u8 list \<Rightarrow> act list" where
  "sh_main ans f inp = sh_loop ans 0 (open_three ans f) inp"

subsection \<open>Who runs with what\<close>

text \<open>The programs that a command runs, each with its descriptors.\<close>

fun progs :: "answers \<Rightarrow> nat list \<Rightarrow> fds \<Rightarrow> u8 list cmd \<Rightarrow> (u8 list list \<times> fds) list" where
  "progs ans nm f (EXEC ws) = (if ws = [] then [] else [(ws, f)])"
| "progs ans nm f (REDIR c file mode fd) = (if open_ok ans file mode then progs ans nm (f(fd \<mapsto> FileAt file mode)) c else [])"
| "progs ans nm f (LIST l r) = progs ans (0 # nm) f l @ progs ans (1 # nm) f r"
| "progs ans nm f (PIPE l r) = progs ans (0 # nm) (f(1 \<mapsto> PipeW nm)) l @ progs ans (1 # nm) (f(0 \<mapsto> PipeR nm)) r"
| "progs ans nm f (BACK c) = progs ans (0 # nm) f c"

fun execs :: "act list \<Rightarrow> (u8 list list \<times> fds) list" where
  "execs [] = []"
| "execs (AExec ws f # k) = (ws, f) # execs k"
| "execs (AFork c # k) = execs c @ execs k"
| "execs (_ # k) = execs k"

text \<open>The descriptors of every process of the shell while it waits for a child.\<close>

fun waits :: "act list \<Rightarrow> fds list" where
  "waits [] = []"
| "waits (AWait f # k) = f # waits k"
| "waits (AFork c # k) = waits c @ waits k"
| "waits (_ # k) = waits k"

lemma execs_append [simp]: "execs (xs @ ys) = execs xs @ execs ys"
  by (induction xs rule: execs.induct) auto

text \<open>Redirections of the parser are of standard input or output.\<close>

fun std_redirs :: "'w cmd \<Rightarrow> bool" where
  "std_redirs (EXEC ws) = True"
| "std_redirs (REDIR c _ _ fd) = (fd \<in> {0, 1} \<and> std_redirs c)"
| "std_redirs (PIPE l r) = (std_redirs l \<and> std_redirs r)"
| "std_redirs (LIST l r) = (std_redirs l \<and> std_redirs r)"
| "std_redirs (BACK c) = std_redirs c"

lemma std_wrap: "std_redirs c \<Longrightarrow> std_redirs (wrap rs c)"
  by (induction rs arbitrary: c) (auto simp: redircmd_def)

lemma std_back: "std_redirs ((BACK ^^ n) c) = std_redirs c"
  by (induction n) auto

lemma std_grammar: "g_line xs c \<Longrightarrow> std_redirs c" "g_pipe xs c \<Longrightarrow> std_redirs c" "g_exec xs c \<Longrightarrow> std_redirs c"
  by (induction rule: g_line_g_pipe_g_exec.inducts) (auto intro!: std_wrap simp: std_back)

lemma low_eq: "i < NOFILE \<Longrightarrow> f i = None \<Longrightarrow> (\<And>j. j < i \<Longrightarrow> f j \<noteq> None) \<Longrightarrow> low f = Some i"
  unfolding low_def find_Some_iff by (intro exI [of _ i]) (simp del: upt.simps)

lemma low_std:
  assumes "dom f = {0, 1, 2 :: nat}" "i \<in> {0, 1, 2}"
  shows "low (f(i := None)) = Some i"
proof (rule low_eq)
  show "i < NOFILE" using assms(2) by auto
  fix j assume "j < i"
  then have "j \<in> dom f" unfolding assms(1) using assms(2) by auto
  then show "(f(i := None)) j \<noteq> None" using \<open>j < i\<close> by auto
qed simp

lemma std_open:
  assumes "dom f = {0, 1, 2 :: nat}" "i \<in> {0, 1, 2}"
  shows "fd_open True x (fd_close i f) = Some (i, f(i \<mapsto> x))"
  using low_std [OF assms] by (simp add: fd_open_def fd_close_def)

lemma below_three: "j < (3 :: nat) \<longleftrightarrow> j \<in> {0, 1, 2}"
  by auto

lemma std_pipe:
  assumes "dom f = {0, 1, 2 :: nat}"
  shows "fd_pipe True nm f = Some (3, 4, f(3 \<mapsto> PipeR nm, 4 \<mapsto> PipeW nm))"
proof -
  have f: "f j \<noteq> None \<longleftrightarrow> j < 3" for j using assms unfolding below_three by blast
  have "low f = Some 3" using f [of 3] f by (intro low_eq) auto
  moreover have "low (f(3 \<mapsto> PipeR nm)) = Some 4" using f [of 4] f by (intro low_eq) (auto simp: less_Suc_eq numeral_eq_Suc)
  ultimately show ?thesis by (simp add: fd_pipe_def fd_open_def)
qed

text \<open>The two children of a pipe: end \<open>p\<close> replaces descriptor \<open>i\<close>, and the ends themselves are closed.\<close>

lemma std_child:
  assumes "dom f = {0, 1, 2 :: nat}" "i \<in> {0, 1, 2}" "p \<in> {3, 4}" "x = (if p = 3 then r else w)"
  shows "fd_close 4 (fd_close 3 (fd_dup p (fd_close i (f(3 \<mapsto> r, 4 \<mapsto> w))))) = f(i \<mapsto> x)"
proof -
  let ?g = "f(3 \<mapsto> r, 4 \<mapsto> w)"
  have f: "f j \<noteq> None \<longleftrightarrow> j < 3" for j using assms(1) unfolding below_three by blast
  have "low (?g(i := None)) = Some i" using f assms(2) by (intro low_eq) auto
  moreover have "(?g(i := None)) p = Some x" using assms(2-4) by auto
  ultimately have "fd_dup p (fd_close i ?g) = ?g(i \<mapsto> x)" by (simp add: fd_dup_def fd_close_def)
  then show ?thesis using f [of 3] f [of 4] assms(2) by (auto simp: fd_close_def fun_eq_iff)
qed

lemma std_upd: "dom f = {0, 1, 2 :: nat} \<Longrightarrow> i \<in> {0, 1, 2} \<Longrightarrow> dom (f(i \<mapsto> x)) = {0, 1, 2}"
  by auto

lemma runcmd_pipe:
  assumes "\<forall>p. fork_ok ans p" "\<forall>p. pipe_ok ans p" "dom f = {0, 1, 2 :: nat}"
  shows "runcmd ans nm f (PIPE l r) = [AFork (runcmd ans (0 # nm) (f(1 \<mapsto> PipeW nm)) l),
      AFork (runcmd ans (1 # nm) (f(0 \<mapsto> PipeR nm)) r), AWait f, AWait f, AExit 0]"
proof -
  have "3 \<notin> dom f" "4 \<notin> dom f" unfolding assms(3) by simp_all
  then have "f 3 = None" "f 4 = None" by (simp_all add: domIff)
  then have "fd_close 4 (fd_close 3 (f(3 \<mapsto> PipeR nm, 4 \<mapsto> PipeW nm))) = f" by (auto simp: fd_close_def fun_eq_iff)
  moreover have "fd_close 4 (fd_close 3 (fd_dup 4 (fd_close 1 (f(3 \<mapsto> PipeR nm, 4 \<mapsto> PipeW nm))))) = f(1 \<mapsto> PipeW nm)"
    "fd_close 4 (fd_close 3 (fd_dup 3 (fd_close 0 (f(3 \<mapsto> PipeR nm, 4 \<mapsto> PipeW nm))))) = f(0 \<mapsto> PipeR nm)"
    by (rule std_child [OF assms(3)]; simp)+
  ultimately show ?thesis
    by (simp only: runcmd.simps fork1_def assms(1,2) std_pipe [OF assms(3)] option.case prod.case if_True Let_def)
qed

lemma runcmd_progs:
  assumes "\<forall>p. fork_ok ans p" "\<forall>p. pipe_ok ans p"
  shows "dom f = {0, 1, 2} \<Longrightarrow> std_redirs c \<Longrightarrow> execs (runcmd ans nm f c) = progs ans nm f c"
proof (induction c arbitrary: nm f)
  case (EXEC ws)
  then show ?case by (cases ws) auto
next
  case (REDIR c fl mode fd)
  have fd: "fd \<in> {0, 1, 2}" and c: "std_redirs c" using REDIR.prems by auto
  note IH = REDIR.IH [OF std_upd [OF REDIR.prems(1) fd] c]
  show ?case
  proof (cases "open_ok ans fl mode")
    case True
    have "runcmd ans nm f (REDIR c fl mode fd) = runcmd ans nm (f(fd \<mapsto> FileAt fl mode)) c"
      using std_open [OF REDIR.prems(1) fd] True by simp
    then show ?thesis using IH True by (simp only: progs.simps if_True)
  next
    case False
    then show ?thesis by (simp add: fd_open_def)
  qed
next
  case (PIPE l r)
  have l: "execs (runcmd ans nm' (f(1 \<mapsto> x)) l) = progs ans nm' (f(1 \<mapsto> x)) l" for nm' x
    by (rule PIPE.IH(1) [OF std_upd [OF PIPE.prems(1)]]) (use PIPE.prems(2) in simp_all)
  have r: "execs (runcmd ans nm' (f(0 \<mapsto> x)) r) = progs ans nm' (f(0 \<mapsto> x)) r" for nm' x
    by (rule PIPE.IH(2) [OF std_upd [OF PIPE.prems(1)]]) (use PIPE.prems(2) in simp_all)
  have "runcmd ans nm f (PIPE l r) = [AFork (runcmd ans (0 # nm) (f(1 \<mapsto> PipeW nm)) l),
      AFork (runcmd ans (1 # nm) (f(0 \<mapsto> PipeR nm)) r), AWait f, AWait f, AExit 0]"
    by (rule runcmd_pipe [OF assms PIPE.prems(1)])
  then show ?case using l r by (simp only: execs.simps progs.simps append_Nil2)
qed (use assms in \<open>simp_all add: fork1_def\<close>)

lemma progs_dom: "dom f = {0, 1, 2} \<Longrightarrow> std_redirs c \<Longrightarrow> (ws, g) \<in> set (progs ans nm f c) \<Longrightarrow> dom g = {0, 1, 2}"
proof (induction c arbitrary: nm f)
  case (REDIR c fl mode fd)
  have fd: "fd \<in> {0, 1, 2}" and c: "std_redirs c" using REDIR.prems by auto
  show ?case using REDIR.IH [OF std_upd [OF REDIR.prems(1) fd] c] REDIR.prems(3) by (metis progs.simps(2) list.set(1) empty_iff)
next
  case (PIPE l r)
  have s: "std_redirs l" "std_redirs r" using PIPE.prems by auto
  show ?case
    using PIPE.IH(1) [OF std_upd [OF PIPE.prems(1), of 1] s(1)] PIPE.IH(2) [OF std_upd [OF PIPE.prems(1), of 0] s(2)] PIPE.prems(3)
    by (simp only: progs.simps set_append Un_iff) blast
next
  case (EXEC ws')
  then show ?case by (cases "ws' = []") simp_all
qed (simp_all only: progs.simps set_append Un_iff std_redirs.simps, blast+)

lemma runcmd_waits:
  assumes "\<forall>p. fork_ok ans p" "\<forall>p. pipe_ok ans p"
  shows "dom f = {0, 1, 2} \<Longrightarrow> std_redirs c \<Longrightarrow> h \<in> set (waits (runcmd ans nm f c)) \<Longrightarrow> dom h = {0, 1, 2}"
proof (induction c arbitrary: nm f)
  case (EXEC ws)
  show ?case using EXEC.prems(3) by (cases ws) (simp_all split: if_splits)
next
  case (REDIR c fl mode fd)
  have fd: "fd \<in> {0, 1, 2}" and c: "std_redirs c" using REDIR.prems by auto
  note IH = REDIR.IH [OF std_upd [OF REDIR.prems(1) fd] c]
  show ?case
  proof (cases "open_ok ans fl mode")
    case True
    have "runcmd ans nm f (REDIR c fl mode fd) = runcmd ans nm (f(fd \<mapsto> FileAt fl mode)) c"
      using std_open [OF REDIR.prems(1) fd] True by simp
    then show ?thesis using IH REDIR.prems(3) by metis
  next
    case False
    then show ?thesis using REDIR.prems(3) by (simp add: fd_open_def)
  qed
next
  case (PIPE l r)
  have s: "std_redirs l" "std_redirs r" using PIPE.prems by auto
  have "h \<in> set (waits (runcmd ans (0 # nm) (f(1 \<mapsto> PipeW nm)) l)) \<or> h \<in> set (waits (runcmd ans (1 # nm) (f(0 \<mapsto> PipeR nm)) r)) \<or> h = f"
    using PIPE.prems(3) unfolding runcmd_pipe [OF assms PIPE.prems(1)]
    by (simp only: waits.simps set_append Un_iff list.set insert_iff empty_iff simp_thms)
  then show ?case
  proof (elim disjE)
    assume "h \<in> set (waits (runcmd ans (0 # nm) (f(1 \<mapsto> PipeW nm)) l))"
    from PIPE.IH(1) [OF std_upd [OF PIPE.prems(1)] s(1) this] show ?thesis by blast
  next
    assume "h \<in> set (waits (runcmd ans (1 # nm) (f(0 \<mapsto> PipeR nm)) r))"
    from PIPE.IH(2) [OF std_upd [OF PIPE.prems(1)] s(2) this] show ?thesis by blast
  qed (use PIPE.prems(1) in blast)
next
  case (LIST l r)
  have s: "std_redirs l" "std_redirs r" using LIST.prems(2) by simp_all
  have "h \<in> set (waits (runcmd ans (0 # nm) f l)) \<or> h = f \<or> h \<in> set (waits (runcmd ans (1 # nm) f r))"
    using LIST.prems(3) assms(1) by (auto simp: fork1_def)
  then show ?case using LIST.IH(1) [OF LIST.prems(1) s(1)] LIST.IH(2) [OF LIST.prems(1) s(2)] LIST.prems(1) by blast
next
  case (BACK c)
  have s: "std_redirs c" using BACK.prems(2) by simp
  show ?case using BACK.IH [OF BACK.prems(1) s] BACK.prems(3) assms(1) by (simp add: fork1_def)
qed

lemma open_three_dom:
  assumes "open_ok ans (chars ''console'') 2" "dom f \<subseteq> {0, 1, 2}"
  shows "dom (open_three ans f) = {0, 1, 2}"
  using assms
proof (induction ans f rule: open_three.induct)
  case (1 ans f)
  have "f 3 = None" using 1(3) by auto
  then obtain i where i: "low f = Some i" using low_eq [of 3 f] by (cases "low f") (auto simp: low_def find_None_iff)
  note l = low_Some [OF i]
  show ?case
  proof (cases "3 \<le> i")
    case True
    then have "{0, 1, 2} \<subseteq> dom f" using l by (auto simp: domIff)
    then have "dom f = {0, 1, 2}" using 1(3) by blast
    moreover have "open_three ans f = f" using True i 1(2) l by (subst open_three.simps) (auto simp: fd_open_def fd_close_def fun_eq_iff)
    ultimately show ?thesis by simp
  next
    case False
    have "dom (f(i \<mapsto> Console)) \<subseteq> {0, 1, 2}" using 1(3) False by auto
    then have "dom (open_three ans (f(i \<mapsto> Console))) = {0, 1, 2}" using 1(1,2) False i by (simp add: fd_open_def)
    then show ?thesis using False i 1(2) by (subst open_three.simps) (simp add: fd_open_def)
  qed
qed


text \<open>The line \<open>a|b\<close>, with only descriptor 0 open at the start.\<close>

definition yes :: answers where
  "yes = \<lparr>open_ok = (\<lambda>_ _. True), pipe_ok = (\<lambda>_. True), fork_ok = (\<lambda>_. True), exec_ok = (\<lambda>_. True), chdir_ok = (\<lambda>_. True)\<rparr>"


end
