(* ===== verification/Umalloc.thy ===== *)
theory Umalloc
  imports Prelude
begin

text \<open>
  The memory allocator of the user library, \<open>user/umalloc.c\<close>: a circular list of free blocks in order
  of their addresses, first fit, with coalescing in \<open>free\<close>.

  Addresses are natural numbers of bytes; the two fields of a header are maps over the address of the header,
  which is 16 bytes long; sizes count headers and wrap at \<open>2 ^ 32\<close>. \<open>sbrk\<close> is a system call: \<open>sb\<close> says whether
  the kernel grants the change at the present end of the heap. The loops of \<open>free\<close> and \<open>malloc\<close> follow pointers
  and are partial functions; that they end is part of the theorems. The state of the static variables
  before the first call is \<open>freep = 0\<close>.

  The invariant \<open>hinv\<close> describes the list and the blocks in use, which do not overlap. The last part runs any
  client: calls of \<open>malloc\<close>, calls of \<open>free\<close> on blocks in use, and writes inside blocks in use.
\<close>

record uheap =
  hptr :: "nat \<Rightarrow> nat"
  hsz :: "nat \<Rightarrow> nat"
  freep :: nat
  brk :: nat

definition set_ptr :: "nat \<Rightarrow> nat \<Rightarrow> uheap \<Rightarrow> uheap" where
  "set_ptr a v st = st\<lparr>hptr := (hptr st)(a := v)\<rparr>"

definition set_sz :: "nat \<Rightarrow> nat \<Rightarrow> uheap \<Rightarrow> uheap" where
  "set_sz a v st = st\<lparr>hsz := (hsz st)(a := v mod 2 ^ 32)\<rparr>"

text \<open>The loop of \<open>free\<close>.\<close>

partial_function (option) free_find :: "uheap \<Rightarrow> nat \<Rightarrow> nat \<Rightarrow> nat option" where
  "free_find st bp p =
     (let q = hptr st p in
      if bp > p \<and> bp < q then Some p
      else if p \<ge> q \<and> (bp > p \<or> bp < q) then Some p
      else free_find st bp q)"

text \<open>The rest of it, with the position found.\<close>

definition free_link :: "nat \<Rightarrow> nat \<Rightarrow> uheap \<Rightarrow> uheap" where
  "free_link bp p st =
     (let q = hptr st p;
          st = (if bp + 16 * hsz st bp = q
                then set_ptr bp (hptr st q) (set_sz bp (hsz st bp + hsz st q) st)
                else set_ptr bp q st);
          st = (if p + 16 * hsz st p = bp
                then set_ptr p (hptr st bp) (set_sz p (hsz st p + hsz st bp) st)
                else set_ptr p bp st)
      in st\<lparr>freep := p\<rparr>)"

definition ufree :: "nat \<Rightarrow> uheap \<Rightarrow> uheap option" where
  "ufree ap st =
     (let bp = ap - 16 in
      case free_find st bp (freep st) of
        None \<Rightarrow> None
      | Some p \<Rightarrow> Some (free_link bp p st))"

text \<open>\<open>sbrk\<close> takes an \<open>int\<close>, so \<open>nu * sizeof(Header)\<close> is cut to 32 bits; \<open>None\<close> is its result \<open>-1\<close>.\<close>

definition sbrk :: "(nat \<Rightarrow> int \<Rightarrow> bool) \<Rightarrow> int \<Rightarrow> uheap \<Rightarrow> nat option \<times> uheap" where
  "sbrk sb n st = (if sb (brk st) n then (Some (brk st), st\<lparr>brk := nat (int (brk st) + n)\<rparr>) else (None, st))"

definition sbrk_arg :: "nat \<Rightarrow> int" where
  "sbrk_arg nu = sint (word_of_nat (nu * 16) :: i32)"

definition morecore :: "(nat \<Rightarrow> int \<Rightarrow> bool) \<Rightarrow> nat \<Rightarrow> uheap \<Rightarrow> (nat \<times> uheap) option" where
  "morecore sb nu st =
     (let nu = (if nu < 4096 then 4096 else nu) in
      case sbrk sb (sbrk_arg nu) st of
        (None, st) \<Rightarrow> Some (0, st)
      | (Some p, st) \<Rightarrow>
          (case ufree (p + 16) (set_sz p nu st) of
             None \<Rightarrow> None
           | Some st \<Rightarrow> Some (freep st, st)))"

text \<open>A block is found: it leaves the list, or its tail is cut off.\<close>

definition take_block :: "nat \<Rightarrow> nat \<Rightarrow> nat \<Rightarrow> uheap \<Rightarrow> nat \<times> uheap" where
  "take_block nunits prevp p st =
     (let (p, st) =
        (if hsz st p = nunits then (p, set_ptr prevp (hptr st p) st)
         else
           let st = set_sz p (hsz st p - nunits) st; p = p + 16 * hsz st p
           in (p, set_sz p nunits st))
      in (p + 16, st\<lparr>freep := prevp\<rparr>))"

partial_function (option) malloc_loop :: "(nat \<Rightarrow> int \<Rightarrow> bool) \<Rightarrow> nat \<Rightarrow> nat \<Rightarrow> nat \<Rightarrow> uheap \<Rightarrow> (nat \<times> uheap) option" where
  "malloc_loop sb nunits prevp p st =
     (if hsz st p \<ge> nunits then Some (take_block nunits prevp p st)
      else if p = freep st then
        (case morecore sb nunits st of
           None \<Rightarrow> None
         | Some (p, st) \<Rightarrow> if p = 0 then Some (0, st) else malloc_loop sb nunits p (hptr st p) st)
      else malloc_loop sb nunits p (hptr st p) st)"

definition units :: "nat \<Rightarrow> nat" where
  "units nbytes = (nbytes + 16 - 1) div 16 + 1"

text \<open>\<open>ba\<close> is the address of \<open>base\<close>.\<close>

definition malloc :: "(nat \<Rightarrow> int \<Rightarrow> bool) \<Rightarrow> nat \<Rightarrow> nat \<Rightarrow> uheap \<Rightarrow> (nat \<times> uheap) option" where
  "malloc sb ba nbytes st =
     (let nunits = units nbytes;
          st = (if freep st = 0 then set_sz ba 0 ((set_ptr ba ba st)\<lparr>freep := ba\<rparr>) else st)
      in malloc_loop sb nunits (freep st) (hptr st (freep st)) st)"

subsection \<open>Lists of pointers\<close>

fun lseg :: "(nat \<Rightarrow> nat) \<Rightarrow> nat \<Rightarrow> nat list \<Rightarrow> nat \<Rightarrow> bool" where
  "lseg f a [] b \<longleftrightarrow> a = b"
| "lseg f a (x # xs) b \<longleftrightarrow> a = x \<and> lseg f (f x) xs b"

lemma lseg_append [simp]: "lseg f a (xs @ ys) b \<longleftrightarrow> (\<exists>c. lseg f a xs c \<and> lseg f c ys b)"
  by (induction xs arbitrary: a) auto

lemma lseg_upd [simp]: "x \<notin> set xs \<Longrightarrow> lseg (f(x := v)) a xs b = lseg f a xs b"
  by (induction xs arbitrary: a) auto

text \<open>Turning a circle so that it starts elsewhere.\<close>

lemma lseg_rotate: "lseg f a (us @ x # vs) a \<Longrightarrow> lseg f x (x # vs @ us) x"
  by auto

definition span :: "uheap \<Rightarrow> nat \<Rightarrow> nat set" where
  "span st a = {a..<a + 16 * hsz st a}"

definition hinv :: "nat \<Rightarrow> uheap \<Rightarrow> nat list \<Rightarrow> nat set \<Rightarrow> bool" where
  "hinv ba st xs al \<longleftrightarrow>
     0 < ba \<and> brk st \<le> 2 ^ 36 \<and> ba + 16 \<le> brk st \<and> xs \<noteq> [] \<and> hd xs = ba \<and> sorted_wrt (<) xs \<and> lseg (hptr st) ba xs ba \<and> freep st \<in> set xs \<and>
     hsz st ba = 0 \<and> finite al \<and> set xs \<inter> al = {} \<and>
     (\<forall>a\<in>set (tl xs) \<union> al. ba + 16 \<le> a \<and> 0 < hsz st a \<and> a + 16 * hsz st a \<le> brk st) \<and>
     (\<forall>a\<in>set xs \<union> al. \<forall>b\<in>set xs \<union> al. a \<noteq> b \<longrightarrow> span st a \<inter> span st b = {})"

lemma lseg_next: "lseg f a xs b \<Longrightarrow> sorted_wrt (<) xs \<Longrightarrow> z \<in> set xs \<Longrightarrow> f z = b \<or> f z \<in> set xs \<and> z < f z"
proof (induction xs arbitrary: a)
  case (Cons x xs)
  then show ?case by (cases xs) auto
qed simp

subsection \<open>Where \<open>free\<close> puts a block\<close>

lemma split_at:
  assumes "sorted_wrt (<) xs" "xs \<noteq> []" "hd xs < bp" "bp \<notin> set xs"
  obtains us p vs where "xs = us @ p # vs" "\<forall>u\<in>set us. u < bp" "p < bp" "\<forall>v\<in>set vs. bp < (v :: nat)"
proof -
  define ys where "ys = takeWhile (\<lambda>x. x < bp) xs"
  have ne: "ys \<noteq> []" using assms(2,3) by (cases xs) (simp_all add: ys_def)
  have "xs = ys @ dropWhile (\<lambda>x. x < bp) xs" by (simp add: ys_def)
  also have "ys = butlast ys @ [last ys]" using ne by simp
  finally have "xs = butlast ys @ last ys # dropWhile (\<lambda>x. x < bp) xs" by simp
  moreover have "\<forall>u\<in>set ys. u < bp" by (auto simp: ys_def dest: set_takeWhileD)
  moreover have "\<forall>v\<in>set (dropWhile (\<lambda>x. x < bp) xs). bp < v"
    using assms(1,4)
  proof (induction xs)
    case (Cons x xs)
    then show ?case by (cases "x < bp") auto
  qed simp
  ultimately show thesis using that ne by (metis in_set_butlastD last_in_set)
qed

lemma free_find_step: "\<not> (bp > z \<and> bp < hptr st z) \<Longrightarrow> \<not> (z \<ge> hptr st z \<and> (bp > z \<or> bp < hptr st z)) \<Longrightarrow>
    free_find st bp z = free_find st bp (hptr st z)"
  by (subst free_find.simps) (auto simp: Let_def)

lemma free_find_walk:
  "lseg (hptr st) x zs y \<Longrightarrow> \<forall>z\<in>set zs. \<not> (bp > z \<and> bp < hptr st z) \<and> \<not> (z \<ge> hptr st z \<and> (bp > z \<or> bp < hptr st z)) \<Longrightarrow>
    free_find st bp x = free_find st bp y"
proof (induction zs arbitrary: x)
  case (Cons z zs)
  then show ?case using free_find_step [of z bp st] by simp
qed simp

lemma free_find_at:
  assumes "lseg (hptr st) ba (us @ p # vs) ba" "sorted_wrt (<) (us @ p # vs)" "hd (us @ p # vs) = ba"
    "\<forall>u\<in>set us. u < bp" "p < bp" "\<forall>v\<in>set vs. bp < v" "x \<in> set (us @ p # vs)"
  shows "free_find st bp x = Some p"
proof -
  let ?f = "hptr st"
  have l: "lseg ?f ba us p" "lseg ?f (?f p) vs ba" using assms(1) by auto
  have so: "sorted_wrt (<) us" "sorted_wrt (<) vs" using assms(2) by (auto simp: sorted_wrt_append)
  have ba: "ba \<le> p" using assms(2,3) by (cases us) auto
  have at_p: "free_find st bp p = Some p"
  proof (cases vs)
    case Nil
    then show ?thesis using l(2) ba assms(5) by (subst free_find.simps) simp
  next
    case (Cons v vs')
    then show ?thesis using l(2) assms(5,6) by (subst free_find.simps) simp
  qed
  have pass: "\<not> (bp > z \<and> bp < ?f z) \<and> \<not> (z \<ge> ?f z \<and> (bp > z \<or> bp < ?f z))" if "z \<in> set us" for z
  proof -
    have "?f z = p \<or> ?f z \<in> set us \<and> z < ?f z" using lseg_next [OF l(1) so(1) that] .
    moreover have "z < p" using that assms(2) by (simp add: sorted_wrt_append)
    ultimately show ?thesis using assms(4,5) by auto
  qed
  have passv: "\<not> (bp > z \<and> bp < ?f z) \<and> \<not> (z \<ge> ?f z \<and> (bp > z \<or> bp < ?f z))" if "z \<in> set vs" for z
    using lseg_next [OF l(2) so(2) that] assms(5,6) that ba by auto
  have first: "free_find st bp ba = Some p" using free_find_walk [OF l(1)] pass at_p by simp
  consider "x = p" | as bs where "us = as @ x # bs" | as bs where "vs = as @ x # bs"
    using assms(7) by (auto dest: split_list)
  then show ?thesis
  proof cases
    case 2
    then have "lseg ?f x (x # bs) p" using l(1) by auto
    then show ?thesis using free_find_walk [of st x "x # bs" p bp] pass at_p 2 by simp
  next
    case 3
    then have "lseg ?f x (x # bs) ba" using l(2) by auto
    then show ?thesis using free_find_walk [of st x "x # bs" ba bp] passv first 3 by simp
  qed (use at_p in simp)
qed

subsection \<open>The invariant under insertion and merging\<close>

lemma hinvD:
  assumes "hinv ba st xs al"
  shows "0 < ba" "brk st \<le> 2 ^ 36" "xs \<noteq> []" "hd xs = ba" "sorted_wrt (<) xs" "lseg (hptr st) ba xs ba" "freep st \<in> set xs" "hsz st ba = 0"
    "finite al" "set xs \<inter> al = {}" "ba \<in> set xs" "distinct xs" "ba \<notin> al"
    "a \<in> set xs \<union> al \<Longrightarrow> a \<noteq> ba \<Longrightarrow> ba + 16 \<le> a \<and> 0 < hsz st a \<and> a + 16 * hsz st a \<le> brk st \<and> hsz st a < 2 ^ 32"
    "a \<in> set xs \<union> al \<Longrightarrow> b \<in> set xs \<union> al \<Longrightarrow> a \<noteq> b \<Longrightarrow> span st a \<inter> span st b = {}"
proof -
  show p: "0 < ba" "brk st \<le> 2 ^ 36" "xs \<noteq> []" "hd xs = ba" "sorted_wrt (<) xs" "lseg (hptr st) ba xs ba" "freep st \<in> set xs" "hsz st ba = 0"
    "finite al" "set xs \<inter> al = {}"
    using assms by (auto simp: hinv_def)
  show ba: "ba \<in> set xs" using p(3,4) by (cases xs) auto
  show "distinct xs" using p(5) by (simp add: strict_sorted_iff)
  show "ba \<notin> al" using ba p(10) by blast
  show "span st a \<inter> span st b = {}" if "a \<in> set xs \<union> al" "b \<in> set xs \<union> al" "a \<noteq> b"
    using assms that unfolding hinv_def by blast
  show "ba + 16 \<le> a \<and> 0 < hsz st a \<and> a + 16 * hsz st a \<le> brk st \<and> hsz st a < 2 ^ 32" if "a \<in> set xs \<union> al" "a \<noteq> ba"
  proof -
    have "a \<in> set (tl xs) \<union> al" using that p(3,4) by (cases xs) auto
    then have "ba + 16 \<le> a \<and> 0 < hsz st a \<and> a + 16 * hsz st a \<le> brk st" using assms unfolding hinv_def by blast
    then show ?thesis using p(2) by simp
  qed
qed

lemma hinv_insert:
  assumes inv: "hinv ba st (us @ p # vs) al" and bp: "bp \<in> al" "\<forall>u\<in>set us. u < bp" "p < bp" "\<forall>v\<in>set vs. bp < v"
  shows "hinv ba ((set_ptr p bp (set_ptr bp (hptr st p) st))\<lparr>freep := p\<rparr>) (us @ p # bp # vs) (al - {bp})"
proof -
  let ?s = "(set_ptr p bp (set_ptr bp (hptr st p) st))\<lparr>freep := p\<rparr>"
  note d = hinvD [OF inv]
  have f: "hsz ?s = hsz st" "brk ?s = brk st" "freep ?s = p" by (simp_all add: set_ptr_def)
  have nin: "bp \<notin> set (us @ p # vs)" using d(10) bp(1) by blast
  have "lseg (hptr ?s) ba (us @ p # bp # vs) ba"
    using d(6) d(12) nin by (auto simp: set_ptr_def)
  moreover have "sorted_wrt (<) (us @ p # bp # vs)" using d(5) bp by (auto simp: sorted_wrt_append)
  moreover have "set (us @ p # bp # vs) \<union> (al - {bp}) = set (us @ p # vs) \<union> al" using bp(1) by auto
  moreover have "hd (us @ p # bp # vs) = ba" using d(4) by (cases us) auto
  moreover have "set (tl (us @ p # bp # vs)) \<union> (al - {bp}) = set (tl (us @ p # vs)) \<union> al" using bp(1) by (cases us) auto
  moreover have "set (us @ p # bp # vs) \<inter> (al - {bp}) = {}" using d(10) by auto
  moreover have "p \<in> set (us @ p # bp # vs)" by simp
  ultimately show ?thesis
    using inv by (simp add: hinv_def span_def f del: set_append lseg_append)
qed

definition merge :: "nat \<Rightarrow> nat \<Rightarrow> uheap \<Rightarrow> uheap" where
  "merge x y st = set_ptr x (hptr st y) (set_sz x (hsz st x + hsz st y) st)"

lemma merge_simps: "freep (merge x y st) = freep st" "brk (merge x y st) = brk st" "hptr (merge x y st) = (hptr st)(x := hptr st y)"
  by (simp_all add: merge_def set_ptr_def set_sz_def)

lemma hinv_merge:
  assumes inv: "hinv ba st (us @ x # y # vs) al" and adj: "x + 16 * hsz st x = y" and fp: "freep st \<noteq> y"
  shows "hinv ba (merge x y st) (us @ x # vs) al" "hsz (merge x y st) = (hsz st)(x := hsz st x + hsz st y)"
proof -
  let ?s = "merge x y st" and ?X = "set (us @ x # y # vs) \<union> al" and ?Y = "set (us @ x # vs) \<union> al"
  note d = hinvD [OF inv]
  have dist: "y \<notin> set (us @ x # vs)" "x \<notin> set (us @ vs)" using d(12) by auto
  have "y \<noteq> ba" using d(4) dist(1) by (cases us) auto
  then have y: "ba + 16 \<le> y" "0 < hsz st y" "y + 16 * hsz st y \<le> brk st" using d(14) [of y] by simp_all
  have xba: "x \<noteq> ba" using adj d(8) \<open>y \<noteq> ba\<close> by auto
  then have x: "ba + 16 \<le> x" "0 < hsz st x" using d(14) [of x] by simp_all
  have lt: "hsz st x + hsz st y < 2 ^ 32" using y x adj d(2) by simp
  show sz: "hsz ?s = (hsz st)(x := hsz st x + hsz st y)" using lt by (simp add: merge_def set_ptr_def set_sz_def)
  have sp: "span ?s a = (if a = x then span st x \<union> span st y else span st a)" for a
    using adj unfolding span_def sz by auto
  have sub: "?Y \<subseteq> ?X" by auto
  have yn: "y \<notin> ?Y" using dist(1) d(10) by auto
  have dj: "span ?s a \<inter> span ?s b = {}" if ab: "a \<in> ?Y" "b \<in> ?Y" "a \<noteq> b" for a b
  proof -
    have ny: "a \<noteq> y" "b \<noteq> y" using ab yn by blast+
    have o: "span st a \<inter> span st b = {}" "span st y \<inter> span st a = {}" "span st y \<inter> span st b = {}"
      using d(15) [of a b] d(15) [of y a] d(15) [of y b] ab ny sub by auto
    show ?thesis unfolding sp using o ab(3) by auto
  qed
  have each: "ba + 16 \<le> a \<and> 0 < hsz ?s a \<and> a + 16 * hsz ?s a \<le> brk ?s" if "a \<in> set (tl (us @ x # vs)) \<union> al" for a
  proof -
    have "a \<in> ?X" "a \<noteq> ba" using that d(4,12) d(10) d(11) by (cases us; auto)+
    then have "ba + 16 \<le> a \<and> 0 < hsz st a \<and> a + 16 * hsz st a \<le> brk st" using d(14) [of a] by blast
    then show ?thesis unfolding sz merge_simps using y adj by auto
  qed
  have "lseg (hptr ?s) ba (us @ x # vs) ba" using d(6) dist by (auto simp: merge_simps)
  moreover have "sorted_wrt (<) (us @ x # vs)" using d(5) by (auto simp: sorted_wrt_append)
  moreover have "hd (us @ x # vs) = ba" using d(4) by (cases us) auto
  moreover have "freep ?s \<in> set (us @ x # vs)" using d(7) fp by (auto simp: merge_simps)
  moreover have "hsz ?s ba = 0" using d(8) xba by (simp add: sz)
  moreover have "ba + 16 \<le> brk ?s" using inv by (simp add: hinv_def merge_simps)
  ultimately show "hinv ba ?s (us @ x # vs) al"
    unfolding hinv_def using d(1,2,9,10) each dj by (auto simp: merge_simps)
qed

text \<open>\<open>free_link\<close> inserts the block and then merges where blocks touch.\<close>

lemma free_link_eq:
  assumes "p \<noteq> bp" "hptr st p \<noteq> bp" "bp + 16 * hsz st bp = hptr st p \<Longrightarrow> hptr st p \<noteq> p"
  defines "s1 \<equiv> (set_ptr p bp (set_ptr bp (hptr st p) st))\<lparr>freep := p\<rparr>"
  defines "s2 \<equiv> (if bp + 16 * hsz st bp = hptr st p then merge bp (hptr st p) s1 else s1)"
  shows "free_link bp p st = (if p + 16 * hsz st p = bp then merge p bp s2 else s2)"
  using assms(1-3)
  by (cases "bp + 16 * hsz st bp = hptr st p"; cases "p + 16 * hsz st p = bp")
    (simp_all add: free_link_def s1_def s2_def merge_def set_ptr_def set_sz_def Let_def fun_upd_twist)

lemma ufree_hinv:
  assumes inv: "hinv ba st xs al" and bp: "bp \<in> al"
  shows "\<exists>st' ys. ufree (bp + 16) st = Some st' \<and> hinv ba st' ys (al - {bp}) \<and> brk st' = brk st \<and>
    (\<forall>a\<in>al - {bp}. hsz st' a = hsz st a) \<and> (\<exists>y\<in>set ys. hsz st bp \<le> hsz st' y)"
proof -
  note d = hinvD [OF inv]
  have nin: "bp \<notin> set xs" using d(10) bp by blast
  have big: "ba + 16 \<le> bp" "0 < hsz st bp" using d(14) [of bp] bp d(13) by auto
  obtain us p vs where x: "xs = us @ p # vs" "\<forall>u\<in>set us. u < bp" "p < bp" "\<forall>v\<in>set vs. bp < v"
    using split_at [OF d(5,3) _ nin] d(4) big(1) by auto
  have run: "ufree (bp + 16) st = Some (free_link bp p st)"
    using free_find_at [OF _ _ _ x(2-4), of st ba "freep st"] d(4-7) x(1) by (simp add: ufree_def)
  define s1 where "s1 = (set_ptr p bp (set_ptr bp (hptr st p) st))\<lparr>freep := p\<rparr>"
  define s2 where "s2 = (if bp + 16 * hsz st bp = hptr st p then merge bp (hptr st p) s1 else s1)"
  have h1: "hinv ba s1 (us @ p # bp # vs) (al - {bp})" using hinv_insert [OF inv [unfolded x(1)] bp x(2-4)] by (simp add: s1_def)
  have f1: "freep s1 = p" "hsz s1 = hsz st" "brk s1 = brk st" by (simp_all add: s1_def set_ptr_def)
  have nxt: "hptr st p = (case vs of [] \<Rightarrow> ba | v # _ \<Rightarrow> v)" using d(6) by (cases vs) (auto simp: x(1))
  have A: "vs \<noteq> [] \<and> hd vs = hptr st p" if "bp + 16 * hsz st bp = hptr st p" using that nxt big by (cases vs) auto
  obtain vs' where h2: "hinv ba s2 (us @ p # bp # vs') (al - {bp})" and z2: "\<forall>a. a \<noteq> bp \<longrightarrow> hsz s2 a = hsz st a" "hsz st bp \<le> hsz s2 bp" "freep s2 = p" "brk s2 = brk st"
  proof (cases "bp + 16 * hsz st bp = hptr st p")
    case True
    then obtain ws where vs: "vs = hptr st p # ws" using A by (cases vs) auto
    have "hptr st p \<noteq> p" using x(3,4) vs by auto
    then show thesis
      using hinv_merge [of ba s1 "us @ [p]" bp "hptr st p" ws "al - {bp}"] h1 True f1 that [of ws] by (simp add: s2_def vs merge_simps)
  next
    case False
    then show thesis using that [of vs] h1 f1 by (simp add: s2_def)
  qed
  have "free_link bp p st = (if p + 16 * hsz st p = bp then merge p bp s2 else s2)"
    unfolding s2_def s1_def using A x(3,4) nxt big(1) by (intro free_link_eq) (auto split: list.splits)
  moreover have "p \<notin> al" using d(10) x(1) by auto
  moreover have "hinv ba (merge p bp s2) (us @ p # vs') (al - {bp})" "hsz (merge p bp s2) = (hsz s2)(p := hsz s2 p + hsz s2 bp)"
    if "p + 16 * hsz st p = bp"
    using hinv_merge [OF h2] that z2(1,3) x(3) by auto
  ultimately show ?thesis
  proof (cases "p + 16 * hsz st p = bp")
    case True
    have m: "hinv ba (merge p bp s2) (us @ p # vs') (al - {bp})" "hsz (merge p bp s2) = (hsz s2)(p := hsz s2 p + hsz s2 bp)"
      using hinv_merge [OF h2] True z2(1,3) x(3) by auto
    have "\<exists>y\<in>set (us @ p # vs'). hsz st bp \<le> hsz (merge p bp s2) y" using m(2) z2(2) by (intro bexI [of _ p]) auto
    then show ?thesis
      using run m \<open>free_link bp p st = _\<close> True z2(1,4) \<open>p \<notin> al\<close> by (intro exI [of _ "merge p bp s2"] exI [of _ "us @ p # vs'"]) (auto simp: merge_simps)
  next
    case False
    then show ?thesis using run h2 \<open>free_link bp p st = _\<close> z2 by (intro exI [of _ s2] exI [of _ "us @ p # bp # vs'"]) auto
  qed
qed

subsection \<open>Taking a block\<close>

lemma hinv_cong:
  assumes "hinv ba st xs al" "hptr st' = hptr st" "brk st' = brk st" "\<forall>a\<in>set xs \<union> al. hsz st' a = hsz st a" "freep st' \<in> set xs"
  shows "hinv ba st' xs al"
proof -
  have "\<forall>a\<in>set xs \<union> al. span st' a = span st a" using assms(4) by (simp add: span_def)
  moreover have "\<forall>a\<in>set (tl xs) \<union> al. hsz st' a = hsz st a" using assms(4) by (cases xs) auto
  moreover have "hsz st' ba = 0" using hinvD(8,11) [OF assms(1)] assms(4) by auto
  ultimately show ?thesis using assms unfolding hinv_def by auto
qed

text \<open>The whole block leaves the list.\<close>

lemma hinv_remove:
  assumes inv: "hinv ba st xs al" and p: "p \<in> set xs" "p \<noteq> ba" and prev: "prevp \<in> set xs" "hptr st prevp = p"
  shows "\<exists>ys. hinv ba ((set_ptr prevp (hptr st p) st)\<lparr>freep := prevp\<rparr>) ys (insert p al) \<and> set ys = set xs - {p}"
proof -
  let ?s = "(set_ptr prevp (hptr st p) st)\<lparr>freep := prevp\<rparr>"
  note d = hinvD [OF inv]
  obtain us vs where x: "xs = us @ prevp # vs" using split_list [OF prev(1)] by blast
  have "lseg (hptr st) p vs ba" using d(6) prev(2) by (auto simp: x)
  then obtain ws where vs: "vs = p # ws" using p(2) by (cases vs) auto
  have dist: "prevp \<notin> set us" "prevp \<notin> set ws" "prevp \<noteq> p" "p \<notin> set us" "p \<notin> set ws" using d(12) by (auto simp: x vs)
  let ?ys = "us @ prevp # ws"
  have "lseg (hptr ?s) ba ?ys ba" using d(6) dist by (auto simp: x vs set_ptr_def)
  moreover have "sorted_wrt (<) ?ys" using d(5) by (auto simp: x vs sorted_wrt_append)
  moreover have "hd ?ys = ba" using d(4) by (cases us) (auto simp: x)
  moreover have ss: "set ?ys \<union> insert p al = set xs \<union> al" by (auto simp: x vs)
  moreover have "set (tl ?ys) \<union> insert p al = set (tl xs) \<union> al" by (cases us) (auto simp: x vs)
  moreover have "set ?ys \<inter> insert p al = {}" using d(10) dist by (auto simp: x vs)
  moreover have "prevp \<in> set ?ys" by simp
  moreover have f: "hsz ?s = hsz st" "brk ?s = brk st" "freep ?s = prevp" by (simp_all add: set_ptr_def)
  ultimately have "hinv ba ?s ?ys (insert p al)"
    using inv by (simp add: hinv_def span_def del: set_append lseg_append)
  moreover have "set ?ys = set xs - {p}" using dist by (auto simp: x vs)
  ultimately show ?thesis by blast
qed

text \<open>The tail of the block is cut off.\<close>

lemma hinv_split:
  assumes inv: "hinv ba st xs al" and p: "p \<in> set xs" "n < hsz st p" "0 < n" and prev: "prevp \<in> set xs"
  defines "e \<equiv> p + 16 * (hsz st p - n)"
  shows "hinv ba ((set_sz e n (set_sz p (hsz st p - n) st))\<lparr>freep := prevp\<rparr>) xs (insert e al)" "e \<notin> set xs" "e \<notin> al"
    "hsz (set_sz p (hsz st p - n) st) p = hsz st p - n" "\<forall>a\<in>al. hsz (set_sz e n (set_sz p (hsz st p - n) st)) a = hsz st a"
    "hsz (set_sz e n (set_sz p (hsz st p - n) st)) e = n"
proof -
  let ?s = "(set_sz e n (set_sz p (hsz st p - n) st))\<lparr>freep := prevp\<rparr>"
  note d = hinvD [OF inv]
  have pba: "p \<noteq> ba" using p(2) d(8) by auto
  note pp = d(14) [of p, OF UnI1 [OF p(1)] pba]
  have ep: "e \<noteq> p" "e \<in> span st p" "p \<in> span st p" using p by (auto simp: e_def span_def)
  have own: "a \<in> span st a" if "a \<in> set xs \<union> al" "a \<noteq> ba" for a using d(14) [OF that] by (simp add: span_def)
  have "e \<notin> set xs \<union> al"
  proof
    assume m: "e \<in> set xs \<union> al"
    have "e \<noteq> ba" using pp e_def by auto
    then have "e \<in> span st e" using own m by blast
    then show False using d(15) [OF m UnI1 [OF p(1)] ep(1)] ep(2) by blast
  qed
  then show e: "e \<notin> set xs" "e \<notin> al" by auto
  have lt: "hsz st p - n < 2 ^ 32" "n < 2 ^ 32" using pp p by auto
  then have sz: "hsz ?s = (hsz st)(p := hsz st p - n, e := n)" by (simp add: set_sz_def fun_eq_iff)
  then show "hsz (set_sz e n (set_sz p (hsz st p - n) st)) e = n" by simp
  show "hsz (set_sz p (hsz st p - n) st) p = hsz st p - n" using lt by (simp add: set_sz_def)
  have pal: "p \<notin> al" using d(10) p(1) by blast
  then show "\<forall>a\<in>al. hsz (set_sz e n (set_sz p (hsz st p - n) st)) a = hsz st a" using e sz by auto
  have sub: "span ?s p \<subseteq> span st p" "span ?s e \<subseteq> span st p" "span ?s p \<inter> span ?s e = {}"
    using ep p unfolding span_def sz by (auto simp: e_def)
  have other: "span ?s a = span st a" if "a \<noteq> p" "a \<noteq> e" for a using that unfolding span_def sz by simp
  have dj: "span ?s a \<inter> span ?s b = {}" if ab: "a \<in> set xs \<union> insert e al" "b \<in> set xs \<union> insert e al" "a \<noteq> b" for a b
  proof -
    have o: "span st p \<inter> span st c = {}" if "c \<in> set xs \<union> insert e al" "c \<noteq> p" "c \<noteq> e" for c
      using d(15) [of p c] p(1) that by auto
    consider "a \<in> {p, e}" "b \<in> {p, e}" | "a \<in> {p, e}" "b \<notin> {p, e}" | "a \<notin> {p, e}" "b \<in> {p, e}" | "a \<notin> {p, e}" "b \<notin> {p, e}" by blast
    then show ?thesis
    proof cases
      case 1
      then show ?thesis using sub(3) ab(3) by auto
    next
      case 2
      then show ?thesis using o [OF ab(2)] other [of b] sub(1,2) by auto
    next
      case 3
      then show ?thesis using o [OF ab(1)] other [of a] sub(1,2) by auto
    next
      case 4
      then show ?thesis using other [of a] other [of b] d(15) [of a b] ab by auto
    qed
  qed
  have each: "ba + 16 \<le> a \<and> 0 < hsz ?s a \<and> a + 16 * hsz ?s a \<le> brk ?s" if "a \<in> set (tl xs) \<union> insert e al" for a
  proof (cases "a = e")
    case True
    have "e + 16 * n = p + 16 * hsz st p" using p(2) by (simp add: e_def diff_mult_distrib2)
    then show ?thesis using True pp p by (simp add: sz set_sz_def)
  next
    case False
    then have "a \<in> set xs \<union> al" "a \<noteq> ba" using that d(3,4,12,13) by (cases xs; auto)+
    from d(14) [OF this] show ?thesis using False p by (auto simp: sz set_sz_def)
  qed
  show "hinv ba ?s xs (insert e al)"
    unfolding hinv_def
  proof (intro conjI ballI impI)
    show "hsz ?s ba = 0" using d(8,11) e(1) pba by (auto simp: sz)
  qed (use inv each dj e prev d in \<open>auto simp: hinv_def set_sz_def\<close>)
qed

text \<open>The end of the heap moves up.\<close>

lemma hinv_grow:
  assumes inv: "hinv ba st xs al" and n: "0 < n" "brk st + 16 * n \<le> 2 ^ 36"
  defines "s \<equiv> set_sz (brk st) n (st\<lparr>brk := brk st + 16 * n\<rparr>)"
  shows "hinv ba s xs (insert (brk st) al)" "brk st \<notin> set xs \<union> al" "hsz s (brk st) = n" "\<forall>a\<in>al. hsz s a = hsz st a"
proof -
  note d = hinvD [OF inv]
  have ba: "ba + 16 \<le> brk st" using inv by (simp add: hinv_def)
  have below: "a < brk st" if "a \<in> set xs \<union> al" for a using d(14) [OF that] ba by (cases "a = ba") auto
  then show nin: "brk st \<notin> set xs \<union> al" by blast
  have sz: "hsz s = (hsz st)(brk st := n)" using n ba d(1) by (auto simp: s_def set_sz_def)
  then show "hsz s (brk st) = n" "\<forall>a\<in>al. hsz s a = hsz st a" using nin by auto
  have under: "span st a \<subseteq> {..<brk st}" if "a \<in> set xs \<union> al" for a
    using d(8) d(14) [OF that] by (cases "a = ba") (auto simp: span_def)
  have sp: "span s a = (if a = brk st then {brk st..<brk st + 16 * n} else span st a)" for a by (auto simp: span_def sz)
  have dj: "span s a \<inter> span s b = {}" if ab: "a \<in> set xs \<union> insert (brk st) al" "b \<in> set xs \<union> insert (brk st) al" "a \<noteq> b" for a b
  proof -
    have "span st c \<inter> {brk st..<brk st + 16 * n} = {}" if "c \<in> set xs \<union> insert (brk st) al" "c \<noteq> brk st" for c
      using under [of c] that by auto
    then show ?thesis using ab d(15) [of a b] unfolding sp by (auto split: if_splits)
  qed
  show "hinv ba s xs (insert (brk st) al)"
    unfolding hinv_def
  proof (intro conjI ballI impI)
    show "hsz s ba = 0" using d(8) ba by (simp add: sz)
    fix a assume a: "a \<in> set (tl xs) \<union> insert (brk st) al"
    then have "a = brk st \<or> ba + 16 \<le> a \<and> 0 < hsz st a \<and> a + 16 * hsz st a \<le> brk st" using inv unfolding hinv_def by blast
    then show "ba + 16 \<le> a" "0 < hsz s a" "a + 16 * hsz s a \<le> brk s" using n ba unfolding sz by (auto simp: s_def set_sz_def)
  qed (use inv dj nin n d in \<open>auto simp: hinv_def s_def set_sz_def\<close>)
qed

subsection \<open>Searching\<close>

lemma malloc_loop_step: "hsz st p < n \<Longrightarrow> p \<noteq> freep st \<Longrightarrow> malloc_loop sb n prevp p st = malloc_loop sb n p (hptr st p) st"
  by (subst malloc_loop.simps) simp

lemma malloc_loop_walk:
  "lseg (hptr st) p (ps @ [e]) z \<Longrightarrow> hptr st prevp = p \<Longrightarrow> \<forall>a\<in>set ps. hsz st a < n \<and> a \<noteq> freep st \<Longrightarrow>
    \<exists>q\<in>set (prevp # ps). hptr st q = e \<and> malloc_loop sb n prevp p st = malloc_loop sb n q e st"
proof (induction ps arbitrary: prevp p)
  case (Cons a ps)
  then have "p = a" "lseg (hptr st) (hptr st a) (ps @ [e]) z" by simp_all
  then have "\<exists>q\<in>set (a # ps). hptr st q = e \<and> malloc_loop sb n a (hptr st a) st = malloc_loop sb n q e st" using Cons by simp
  then show ?case using malloc_loop_step [of st a n sb prevp] Cons.prems(3) \<open>p = a\<close> by auto
qed auto

text \<open>The list as the search from \<open>freep\<close> visits it, \<open>freep\<close> last.\<close>

lemma hinv_ring:
  assumes "hinv ba st xs al"
  obtains ws where "lseg (hptr st) (hptr st (freep st)) (ws @ [freep st]) (hptr st (freep st))" "set (ws @ [freep st]) = set xs" "freep st \<notin> set ws"
proof -
  note d = hinvD [OF assms]
  obtain us vs where x: "xs = us @ freep st # vs" using split_list [OF d(7)] by blast
  show thesis using d(6,12) by (intro that [of "vs @ us"]) (auto simp: x)
qed

lemma malloc_loop_hit:
  assumes inv: "hinv ba st xs al" and n: "0 < n" and e0: "e0 \<in> set xs" "n \<le> hsz st e0"
  shows "\<exists>r st' ys. malloc_loop sb n (freep st) (hptr st (freep st)) st = Some (r + 16, st') \<and> r \<notin> al \<and>
    hinv ba st' ys (insert r al) \<and> hsz st' r = n \<and> (\<forall>a\<in>al. hsz st' a = hsz st a)"
proof -
  note d = hinvD [OF inv]
  obtain ws where w: "lseg (hptr st) (hptr st (freep st)) (ws @ [freep st]) (hptr st (freep st))" "set (ws @ [freep st]) = set xs" "freep st \<notin> set ws"
    using hinv_ring [OF inv] by blast
  obtain ps e qs where z: "ws @ [freep st] = ps @ e # qs" "n \<le> hsz st e" "\<forall>a\<in>set ps. \<not> n \<le> hsz st a"
    using split_list_first_prop [of "ws @ [freep st]" "\<lambda>a. n \<le> hsz st a"] e0 w(2) by blast
  have nf: "\<forall>a\<in>set ps. a \<noteq> freep st"
  proof -
    have "set ps \<subseteq> set ws" using z(1) by (metis butlast_snoc in_set_butlastD butlast_append list.distinct(1) Un_iff set_append subsetI)
    then show ?thesis using w(3) by blast
  qed
  have "lseg (hptr st) (hptr st (freep st)) (ps @ [e]) (hptr st e)" using w(1) unfolding z(1) by auto
  then obtain q where q: "q \<in> set (freep st # ps)" "hptr st q = e" "malloc_loop sb n (freep st) (hptr st (freep st)) st = malloc_loop sb n q e st"
    using malloc_loop_walk [of st _ ps e _ "freep st" n sb] z(3) nf by (metis linorder_not_le)
  have mem: "e \<in> set xs" "q \<in> set xs" using q(1) d(7) w(2) z(1) by (auto simp: set_eq_iff)
  have eba: "e \<noteq> ba" using z(2) n d(8) by auto
  have run: "malloc_loop sb n (freep st) (hptr st (freep st)) st = Some (take_block n q e st)"
    unfolding q(3) using z(2) by (subst malloc_loop.simps) simp
  show ?thesis
  proof (cases "hsz st e = n")
    case True
    let ?s = "(set_ptr q (hptr st e) st)\<lparr>freep := q\<rparr>"
    obtain ys where "hinv ba ?s ys (insert e al)" using hinv_remove [OF inv mem(1) eba mem(2) q(2)] by blast
    moreover have "take_block n q e st = (e + 16, ?s)" "hsz ?s = hsz st" using True by (simp_all add: take_block_def set_ptr_def)
    moreover have "e \<notin> al" using mem(1) d(10) by blast
    ultimately show ?thesis using run True by (intro exI [of _ e] exI [of _ ?s] exI [of _ ys]) simp
  next
    case False
    then have lt: "n < hsz st e" using z(2) by simp
    note h = hinv_split [OF inv mem(1) lt n mem(2)]
    have "take_block n q e st = (e + 16 * (hsz st e - n) + 16, (set_sz (e + 16 * (hsz st e - n)) n (set_sz e (hsz st e - n) st))\<lparr>freep := q\<rparr>)"
      using False h(4) by (simp add: take_block_def Let_def)
    then show ?thesis using run h by auto
  qed
qed

lemma malloc_loop_miss:
  assumes inv: "hinv ba st xs al" and none: "\<forall>e\<in>set xs. hsz st e < n"
  shows "malloc_loop sb n (freep st) (hptr st (freep st)) st =
    (case morecore sb n st of None \<Rightarrow> None | Some (p, st) \<Rightarrow> if p = 0 then Some (0, st) else malloc_loop sb n p (hptr st p) st)"
proof -
  obtain ws where w: "lseg (hptr st) (hptr st (freep st)) (ws @ [freep st]) (hptr st (freep st))" "set (ws @ [freep st]) = set xs" "freep st \<notin> set ws"
    using hinv_ring [OF inv] by blast
  have "\<forall>a\<in>set ws. hsz st a < n \<and> a \<noteq> freep st" using w none by auto
  then obtain q where "malloc_loop sb n (freep st) (hptr st (freep st)) st = malloc_loop sb n q (freep st) st"
    using malloc_loop_walk [OF w(1) refl] by blast
  moreover have "hsz st (freep st) < n" using none hinvD(7) [OF inv] by blast
  then have "malloc_loop sb n q (freep st) st =
    (case morecore sb n st of None \<Rightarrow> None | Some (p, st) \<Rightarrow> if p = 0 then Some (0, st) else malloc_loop sb n p (hptr st p) st)"
    by (subst malloc_loop.simps) simp
  ultimately show ?thesis by (simp only:)
qed

subsection \<open>Allocation\<close>

text \<open>The kernel bounds the heap: every page of it is a physical page.\<close>

definition bounded :: "(nat \<Rightarrow> int \<Rightarrow> bool) \<Rightarrow> bool" where
  "bounded sb \<longleftrightarrow> (\<forall>b n. sb b n \<longrightarrow> int b + n \<le> 2 ^ 36)"

lemma sbrk_arg_small: "nu * 16 < 2 ^ 31 \<Longrightarrow> sbrk_arg nu = int (16 * nu)"
  unfolding sbrk_arg_def mult.commute [of 16] by (rule sint_small)

lemma morecore_spec:
  assumes inv: "hinv ba st xs al" and sb: "bounded sb" and n: "16 * n < 2 ^ 31"
  shows "\<not> sb (brk st) (int (16 * max 4096 n)) \<Longrightarrow> morecore sb n st = Some (0, st)"
    and "sb (brk st) (int (16 * max 4096 n)) \<Longrightarrow> \<exists>st' ys. morecore sb n st = Some (freep st', st') \<and> hinv ba st' ys al \<and>
      (\<exists>y\<in>set ys. n \<le> hsz st' y) \<and> (\<forall>a\<in>al. hsz st' a = hsz st a)"
proof -
  let ?nu = "max 4096 n"
  have nu: "(if n < 4096 then 4096 else n) = ?nu" "0 < ?nu" by (simp_all add: max_def)
  have arg: "sbrk_arg ?nu = int (16 * ?nu)" using n by (intro sbrk_arg_small) (simp add: max_def)
  show "morecore sb n st = Some (0, st)" if "\<not> sb (brk st) (int (16 * ?nu))"
    using that arg by (simp add: morecore_def sbrk_def nu(1) del: of_nat_mult)
  assume g: "sb (brk st) (int (16 * ?nu))"
  have "int (brk st) + int (16 * ?nu) \<le> 2 ^ 36" using sb g unfolding bounded_def by blast
  then have "int (brk st + 16 * ?nu) \<le> int (2 ^ 36)" by simp
  then have le: "brk st + 16 * ?nu \<le> 2 ^ 36" by (simp only: of_nat_le_iff)
  note h = hinv_grow [OF inv nu(2) le]
  let ?s = "set_sz (brk st) ?nu (st\<lparr>brk := brk st + 16 * ?nu\<rparr>)"
  have "brk st \<notin> al" using h(2) by blast
  then obtain st' ys where f: "ufree (brk st + 16) ?s = Some st'" "hinv ba st' ys al" "\<forall>a\<in>al. hsz st' a = hsz ?s a" "\<exists>y\<in>set ys. hsz ?s (brk st) \<le> hsz st' y"
    using ufree_hinv [OF h(1), of "brk st"] by auto
  have "morecore sb n st = Some (freep st', st')"
    using g arg f(1) by (simp add: morecore_def sbrk_def nu(1) nat_add_distrib nat_mult_distrib del: of_nat_mult flip: of_nat_add)
  moreover have "\<exists>y\<in>set ys. n \<le> hsz st' y" using f(4) h(3) by (auto intro: order_trans [of n ?nu])
  ultimately show "\<exists>st' ys. morecore sb n st = Some (freep st', st') \<and> hinv ba st' ys al \<and>
      (\<exists>y\<in>set ys. n \<le> hsz st' y) \<and> (\<forall>a\<in>al. hsz st' a = hsz st a)"
    using f(2,3) h(4) by (intro exI [of _ st'] exI [of _ ys]) auto
qed

definition heap_ok :: "nat \<Rightarrow> uheap \<Rightarrow> nat set \<Rightarrow> bool" where
  "heap_ok ba st al \<longleftrightarrow> (\<exists>xs. hinv ba st xs al) \<or> freep st = 0 \<and> al = {} \<and> 0 < ba \<and> ba + 16 \<le> brk st \<and> brk st \<le> 2 ^ 36"

lemma malloc_search:
  assumes inv: "hinv ba st xs al" and sb: "bounded sb" and n: "0 < n" "16 * n < 2 ^ 31"
  shows "\<exists>r st' ys. malloc_loop sb n (freep st) (hptr st (freep st)) st = Some (r, st') \<and> (\<forall>a\<in>al. hsz st' a = hsz st a) \<and>
    (if r = 0 then hinv ba st' ys al \<and> \<not> sb (brk st) (int (16 * max 4096 n))
     else 16 \<le> r \<and> r - 16 \<notin> al \<and> hinv ba st' ys (insert (r - 16) al) \<and> hsz st' (r - 16) = n)"
proof (cases "\<exists>e\<in>set xs. n \<le> hsz st e")
  case True
  then obtain r st' ys where "malloc_loop sb n (freep st) (hptr st (freep st)) st = Some (r + 16, st')" "r \<notin> al"
      "hinv ba st' ys (insert r al)" "hsz st' r = n" "\<forall>a\<in>al. hsz st' a = hsz st a"
    using malloc_loop_hit [OF inv n(1)] by blast
  then show ?thesis by (intro exI [of _ "r + 16"]) auto
next
  case False
  then have miss: "malloc_loop sb n (freep st) (hptr st (freep st)) st =
    (case morecore sb n st of None \<Rightarrow> None | Some (p, st) \<Rightarrow> if p = 0 then Some (0, st) else malloc_loop sb n p (hptr st p) st)"
    by (intro malloc_loop_miss [OF inv]) auto
  show ?thesis
  proof (cases "sb (brk st) (int (16 * max 4096 n))")
    case False
    then show ?thesis using miss morecore_spec(1) [OF inv sb n(2)] inv by auto
  next
    case True
    then obtain s1 zs y where m: "morecore sb n st = Some (freep s1, s1)" "hinv ba s1 zs al" "y \<in> set zs" "n \<le> hsz s1 y" "\<forall>a\<in>al. hsz s1 a = hsz st a"
      using morecore_spec(2) [OF inv sb n(2)] by blast
    have "freep s1 \<noteq> 0" using hinvD(1,7) [OF m(2)] hinvD(14) [OF m(2), of "freep s1"] by fastforce
    then have "malloc_loop sb n (freep st) (hptr st (freep st)) st = malloc_loop sb n (freep s1) (hptr s1 (freep s1)) s1" using miss m(1) by simp
    moreover obtain r st' ys where "malloc_loop sb n (freep s1) (hptr s1 (freep s1)) s1 = Some (r + 16, st')" "r \<notin> al"
      "hinv ba st' ys (insert r al)" "hsz st' r = n" "\<forall>a\<in>al. hsz st' a = hsz s1 a"
      using malloc_loop_hit [OF m(2) n(1) m(3,4)] by blast
    ultimately show ?thesis using m(5) by (intro exI [of _ "r + 16"]) auto
  qed
qed

lemma units_bounds: "0 < units n" "n + 16 \<le> 16 * units n" "n + 32 \<le> 2 ^ 31 \<Longrightarrow> 16 * units n < 2 ^ 31"
  by (auto simp: units_def)

lemma malloc_start:
  assumes "heap_ok ba st al"
  obtains s xs where "malloc sb ba n st = malloc_loop sb (units n) (freep s) (hptr s (freep s)) s" "hinv ba s xs al" "brk s = brk st" "\<forall>a\<in>al. hsz s a = hsz st a"
proof (cases "\<exists>xs. hinv ba st xs al")
  case True
  then obtain xs where inv: "hinv ba st xs al" by blast
  have "freep st \<noteq> 0" using hinvD(1,7) [OF inv] hinvD(14) [OF inv, of "freep st"] by fastforce
  then show thesis using that [of st xs] inv by (simp add: malloc_def)
next
  case False
  then have e: "freep st = 0" "al = {}" "0 < ba" "ba + 16 \<le> brk st" "brk st \<le> 2 ^ 36" using assms by (auto simp: heap_ok_def)
  let ?s = "set_sz ba 0 ((set_ptr ba ba st)\<lparr>freep := ba\<rparr>)"
  have "hinv ba ?s [ba] al" using e by (simp add: hinv_def set_sz_def set_ptr_def)
  moreover have "malloc sb ba n st = malloc_loop sb (units n) (freep ?s) (hptr ?s (freep ?s)) ?s" using e(1) by (simp add: malloc_def Let_def)
  moreover have "brk ?s = brk st" by (simp add: set_sz_def set_ptr_def)
  ultimately show thesis using that [of ?s "[ba]"] e(2) by simp
qed

lemma malloc_ok:
  assumes "heap_ok ba st al" "bounded sb" "n + 32 \<le> 2 ^ 31"
  shows "\<exists>r st' ys. malloc sb ba n st = Some (r, st') \<and> (\<forall>a\<in>al. hsz st' a = hsz st a) \<and>
    (if r = 0 then hinv ba st' ys al \<and> \<not> sb (brk st) (int (16 * max 4096 (units n)))
     else 16 \<le> r \<and> r - 16 \<notin> al \<and> hinv ba st' ys (insert (r - 16) al) \<and> hsz st' (r - 16) = units n)"
proof -
  obtain s xs where s: "malloc sb ba n st = malloc_loop sb (units n) (freep s) (hptr s (freep s)) s" "hinv ba s xs al" "brk s = brk st" "\<forall>a\<in>al. hsz s a = hsz st a"
    using malloc_start [OF assms(1)] by blast
  show ?thesis using malloc_search [OF s(2) assms(2) units_bounds(1) units_bounds(3) [OF assms(3)]] s by (metis (no_types, lifting))
qed

lemma ufree_ok:
  assumes "heap_ok ba st al" "a \<in> al"
  shows "\<exists>st' ys. ufree (a + 16) st = Some st' \<and> hinv ba st' ys (al - {a})"
proof -
  obtain xs where "hinv ba st xs al" using assms by (auto simp: heap_ok_def)
  from ufree_hinv [OF this assms(2)] show ?thesis by blast
qed

subsection \<open>Clients\<close>

text \<open>What the client owns of a block. A write inside may change what a header there would contain.\<close>

definition payload :: "uheap \<Rightarrow> nat \<Rightarrow> nat set" where
  "payload st a = {a + 16..<a + 16 * hsz st a}"

inductive client :: "(nat \<Rightarrow> int \<Rightarrow> bool) \<Rightarrow> nat \<Rightarrow> uheap \<times> nat set \<Rightarrow> uheap \<times> nat set \<Rightarrow> bool" for sb ba where
  c_malloc: "n + 32 \<le> 2 ^ 31 \<Longrightarrow> malloc sb ba n st = Some (r, st') \<Longrightarrow> client sb ba (st, al) (st', if r = 0 then al else insert (r - 16) al)"
| c_free: "a \<in> al \<Longrightarrow> ufree (a + 16) st = Some st' \<Longrightarrow> client sb ba (st, al) (st', al - {a})"
| c_write: "(\<And>x. \<forall>a\<in>al. {x..<x + 16} \<inter> payload st a = {} \<Longrightarrow> p x = hptr st x \<and> z x = hsz st x) \<Longrightarrow>
    client sb ba (st, al) (st\<lparr>hptr := p, hsz := z\<rparr>, al)"

lemma lseg_cong: "\<forall>x\<in>set xs. f x = g x \<Longrightarrow> lseg f a xs b = lseg g a xs b"
  by (induction xs arbitrary: a) auto

lemma hinv_write:
  assumes inv: "hinv ba st xs al" and w: "\<And>x. \<forall>a\<in>al. {x..<x + 16} \<inter> payload st a = {} \<Longrightarrow> p x = hptr st x \<and> z x = hsz st x"
  shows "hinv ba (st\<lparr>hptr := p, hsz := z\<rparr>) xs al"
proof -
  note d = hinvD [OF inv]
  have keep: "p x = hptr st x \<and> z x = hsz st x" if x: "x \<in> set xs \<union> al" for x
  proof (rule w, rule ballI)
    fix a assume a: "a \<in> al"
    then have "ba + 16 \<le> a" using d(13) d(14) [of a] by auto
    then show "{x..<x + 16} \<inter> payload st a = {}"
    proof (cases "x = ba \<or> x = a")
      case False
      then have "{x..<x + 16} \<subseteq> span st x" using d(14) [OF x] by (auto simp: span_def)
      moreover have "span st x \<inter> span st a = {}" using d(15) [of x a] x a False by blast
      ultimately show ?thesis by (auto simp: payload_def span_def)
    qed (auto simp: payload_def)
  qed
  have "hinv ba (st\<lparr>hsz := z\<rparr>) xs al" using keep d(7) by (intro hinv_cong [OF inv]) auto
  moreover have "lseg p ba xs ba = lseg (hptr st) ba xs ba" using keep by (intro lseg_cong) auto
  ultimately show ?thesis unfolding hinv_def by (simp add: span_def)
qed

lemma client_ok: "client sb ba (st, al) (st', al') \<Longrightarrow> bounded sb \<Longrightarrow> heap_ok ba st al \<Longrightarrow> heap_ok ba st' al'"
proof (induction "(st, al)" "(st', al')" rule: client.induct)
  case (c_malloc n r)
  then show ?case using malloc_ok [of ba st al sb n] by (auto simp: heap_ok_def split: if_splits)
next
  case (c_free a)
  then show ?case using ufree_ok [of ba st al a] by (auto simp: heap_ok_def)
next
  case (c_write p z)
  show ?case
  proof (cases "\<exists>xs. hinv ba st xs al")
    case True
    then obtain xs where "hinv ba st xs al" by blast
    from hinv_write [OF this] c_write show ?thesis by (auto simp: heap_ok_def)
  next
    case False
    then show ?thesis using c_write by (auto simp: heap_ok_def)
  qed
qed

lemma clients_ok:
  assumes "(client sb ba)\<^sup>*\<^sup>* x y" "bounded sb" "heap_ok ba (fst x) (snd x)"
  shows "heap_ok ba (fst y) (snd y)"
  using assms(1)
proof (induction rule: rtranclp_induct)
  case (step y z)
  then show ?case using client_ok [of sb ba "fst y" "snd y" "fst z" "snd z"] assms(2) by simp
qed (rule assms(3))

lemma heap_ok_blocks:
  assumes "heap_ok ba st al"
  shows "a \<in> al \<Longrightarrow> ba + 16 \<le> a \<and> a + 16 * hsz st a \<le> brk st" "a \<in> al \<Longrightarrow> b \<in> al \<Longrightarrow> a \<noteq> b \<Longrightarrow> payload st a \<inter> payload st b = {}"
proof -
  show "ba + 16 \<le> a \<and> a + 16 * hsz st a \<le> brk st" if "a \<in> al"
    using assms that hinvD(13,14) unfolding heap_ok_def by (metis UnCI empty_iff)
  show "payload st a \<inter> payload st b = {}" if ab: "a \<in> al" "b \<in> al" "a \<noteq> b"
  proof -
    obtain xs where "hinv ba st xs al" using assms ab(1) unfolding heap_ok_def by blast
    from hinvD(15) [OF this, of a b] ab have "span st a \<inter> span st b = {}" by blast
    moreover have "payload st c \<subseteq> span st c" for c by (auto simp: payload_def span_def)
    ultimately show ?thesis by blast
  qed
qed

text \<open>
  C36: The allocator under any client, from the first call on: blocks in use lie in the heap and the bytes that the client
  owns of different blocks do not overlap. \<open>malloc\<close> returns for every request up to \<open>2 ^ 31 - 32\<close> bytes, with 0
  only when the kernel refuses to grow the heap; otherwise with at least the number of bytes asked for,
  none of which belongs to a block in use. \<open>free\<close> returns for every block in use.
\<close>

theorem umalloc_safe:
  assumes "bounded sb" "freep st0 = 0" "0 < ba" "ba + 16 \<le> brk st0" "brk st0 \<le> 2 ^ 36"
    and "(client sb ba)\<^sup>*\<^sup>* (st0, {}) (st, al)"
  shows "(\<forall>a\<in>al. ba + 16 \<le> a \<and> a + 16 * hsz st a \<le> brk st)
    \<and> (\<forall>a\<in>al. \<forall>b\<in>al. a \<noteq> b \<longrightarrow> payload st a \<inter> payload st b = {})
    \<and> (\<forall>n. n + 32 \<le> 2 ^ 31 \<longrightarrow> (\<exists>r st'. malloc sb ba n st = Some (r, st') \<and>
         (if r = 0 then \<not> sb (brk st) (int (16 * max 4096 (units n)))
          else {r..<r + n} \<subseteq> payload st' (r - 16) \<and> (\<forall>a\<in>al. {r..<r + n} \<inter> payload st a = {}))))
    \<and> (\<forall>a\<in>al. ufree (a + 16) st \<noteq> None)"
proof (intro conjI ballI allI impI)
  have ok: "heap_ok ba st al" using clients_ok [OF assms(6,1)] assms(2-5) by (simp add: heap_ok_def)
  show "ba + 16 \<le> a" "a + 16 * hsz st a \<le> brk st" "ufree (a + 16) st \<noteq> None" if "a \<in> al" for a
    using heap_ok_blocks(1) [OF ok that] ufree_ok [OF ok that] by auto
  show "payload st a \<inter> payload st b = {}" if "a \<in> al" "b \<in> al" "a \<noteq> b" for a b using heap_ok_blocks(2) [OF ok that] .
  fix n :: nat assume n: "n + 32 \<le> 2 ^ 31"
  obtain r st' ys where m: "malloc sb ba n st = Some (r, st')" "\<forall>a\<in>al. hsz st' a = hsz st a"
    "if r = 0 then hinv ba st' ys al \<and> \<not> sb (brk st) (int (16 * max 4096 (units n)))
     else 16 \<le> r \<and> r - 16 \<notin> al \<and> hinv ba st' ys (insert (r - 16) al) \<and> hsz st' (r - 16) = units n"
    using malloc_ok [OF ok assms(1) n] by blast
  show "\<exists>r st'. malloc sb ba n st = Some (r, st') \<and>
      (if r = 0 then \<not> sb (brk st) (int (16 * max 4096 (units n)))
       else {r..<r + n} \<subseteq> payload st' (r - 16) \<and> (\<forall>a\<in>al. {r..<r + n} \<inter> payload st a = {}))"
  proof (cases "r = 0")
    case True
    then show ?thesis using m(1,3) by auto
  next
    case False
    then have r: "16 \<le> r" "r - 16 \<notin> al" "heap_ok ba st' (insert (r - 16) al)" "hsz st' (r - 16) = units n" using m(3) by (auto simp: heap_ok_def)
    have sub: "{r..<r + n} \<subseteq> payload st' (r - 16)" using r(1,4) units_bounds(2) [of n] by (auto simp: payload_def)
    have "payload st' (r - 16) \<inter> payload st' a = {}" if "a \<in> al" for a using heap_ok_blocks(2) [OF r(3), of "r - 16" a] r(2) that by auto
    moreover have "payload st' a = payload st a" if "a \<in> al" for a using m(2) that by (simp add: payload_def)
    ultimately have "{r..<r + n} \<inter> payload st a = {}" if "a \<in> al" for a using sub that by blast
    then show ?thesis using m(1) False sub by (intro exI [of _ r] exI [of _ st']) simp
  qed
qed

definition uboot :: uheap where
  "uboot = \<lparr>hptr = (\<lambda>_. 0), hsz = (\<lambda>_. 0), freep = 0, brk = 0x5000\<rparr>"

definition small_machine :: "nat \<Rightarrow> int \<Rightarrow> bool" where
  "small_machine b n \<longleftrightarrow> int b + n \<le> 0x100000"

theorem umalloc_safe_witness:
  "\<exists>r st r2 st2. malloc small_machine 0x1000 100 uboot = Some (r, st) \<and> r \<noteq> 0 \<and>
     malloc small_machine 0x1000 200 st = Some (r2, st2) \<and> (r2 \<noteq> 0 \<longrightarrow> {r2..<r2 + 200} \<inter> payload st (r - 16) = {})"
proof -
  have b: "bounded small_machine" by (simp add: bounded_def small_machine_def)
  have u: "freep uboot = 0" "(0 :: nat) < 0x1000" "(0x1000 :: nat) + 16 \<le> brk uboot" "brk uboot \<le> 2 ^ 36" by (simp_all add: uboot_def)
  have n: "(100 :: nat) + 32 \<le> 2 ^ 31" "(200 :: nat) + 32 \<le> 2 ^ 31" by simp_all
  note safe = umalloc_safe [OF b u]
  obtain r st where m: "malloc small_machine 0x1000 100 uboot = Some (r, st)"
    and r: "if r = 0 then \<not> small_machine (brk uboot) (int (16 * max 4096 (units 100)))
      else {r..<r + 100} \<subseteq> payload st (r - 16) \<and> (\<forall>a\<in>{}. {r..<r + 100} \<inter> payload uboot a = {})"
    using safe [OF rtranclp.rtrancl_refl] n(1) by blast
  have r0: "r \<noteq> 0" using r by (auto simp: small_machine_def uboot_def units_def split: if_splits)
  have "client small_machine 0x1000 (uboot, {}) (st, {r - 16})" using c_malloc [OF n(1) m, of "{}"] r0 by simp
  then have "(client small_machine 0x1000)\<^sup>*\<^sup>* (uboot, {}) (st, {r - 16})" by (rule r_into_rtranclp)
  from safe [OF this] n(2) obtain r2 st2 where "malloc small_machine 0x1000 200 st = Some (r2, st2)"
    "if r2 = 0 then \<not> small_machine (brk st) (int (16 * max 4096 (units 200)))
      else {r2..<r2 + 200} \<subseteq> payload st2 (r2 - 16) \<and> (\<forall>a\<in>{r - 16}. {r2..<r2 + 200} \<inter> payload st a = {})"
    by blast
  then show ?thesis using m r0 by (intro exI [of _ r] exI [of _ st] exI [of _ r2] exI [of _ st2]) simp
qed

text \<open>A request of \<open>2 ^ 31 - 31\<close> bytes asks \<open>sbrk\<close> to shrink the heap.\<close>

lemma malloc_negative_sbrk: "sbrk_arg (units (2 ^ 31 - 31)) = - (2 ^ 31)"
  by (simp add: sbrk_arg_def units_def)

end
