(* ===== verification/Cafe.thy ===== *)
theory Cafe
  imports Prelude "HOL-Library.Multiset"
begin

text \<open>
  The cafe of \<open>concurrency/1.c\<close>: customers are threads, baristas are semaphores.

  \<open>customerThread\<close> is the next atomic action of one thread: a call that may block, a section under
  \<open>print_mutex\<close>, or a look at the clock. The clock counts microseconds and only moves forward; \<open>usleep\<close> ends
  at some moment not before its time. \<open>pthread_mutex\<close>, \<open>sem_t\<close> and \<open>usleep\<close> are POSIX. What is printed is a list of
  events. A step of the program is an action of one thread or the clock.

  Times are natural numbers. The products of seconds and 1000000 in \<open>1.c\<close> are of type \<open>int\<close>: the model
  is exact for times below 2148 seconds; beyond that the product overflows, which C leaves undefined and the model does not follow.
\<close>

record customer =
  cid :: int
  coffee_type_index :: nat
  arrival_time :: nat
  tolerance :: int

subsection \<open>Reading the input\<close>

abbreviation MAX_COFFEE_TYPES :: int where "MAX_COFFEE_TYPES \<equiv> 10"
abbreviation MAX_CUSTOMERS :: int where "MAX_CUSTOMERS \<equiv> 100"

datatype reject = InvalidInput | ExceededLimits | TypeNotFound string int

text \<open>The index of the first coffee type with the name.\<close>

fun find_type :: "string \<Rightarrow> (string \<times> nat) list \<Rightarrow> nat \<Rightarrow> nat option" where
  "find_type nm [] j = None"
| "find_type nm ((nm', _) # ts) j = (if nm = nm' then Some j else find_type nm ts (j + 1))"

fun read_customers :: "(string \<times> nat) list \<Rightarrow> (int \<times> string \<times> nat \<times> int) list \<Rightarrow> reject + customer list" where
  "read_customers ts [] = Inr []"
| "read_customers ts ((i, nm, arr, tol) # ls) =
     (case find_type nm ts 0 of
        None \<Rightarrow> Inl (TypeNotFound nm i)
      | Some j \<Rightarrow>
          (case read_customers ts ls of
             Inl e \<Rightarrow> Inl e
           | Inr cs \<Rightarrow> Inr (\<lparr>cid = i, coffee_type_index = j, arrival_time = arr, tolerance = tol\<rparr> # cs)))"

text \<open>\<open>main\<close> up to the threads: the three numbers, the coffee types and the lines of the customers.\<close>

definition read_input ::
  "int \<Rightarrow> int \<Rightarrow> int \<Rightarrow> (string \<times> nat) list \<Rightarrow> (int \<times> string \<times> nat \<times> int) list \<Rightarrow> reject + customer list" where
  "read_input num_baristas num_coffee_types num_customers ts ls =
     (if num_baristas \<le> 0 \<or> num_coffee_types \<le> 0 \<or> num_customers \<le> 0 then Inl InvalidInput
      else if num_baristas > MAX_CUSTOMERS \<or> num_coffee_types > MAX_COFFEE_TYPES \<or> num_customers > MAX_CUSTOMERS then Inl ExceededLimits
      else read_customers ts ls)"

subsection \<open>Threads\<close>

datatype phase =
    Created
  | Arriving nat                \<comment> \<open>asleep until its arrival\<close>
  | Trying nat                  \<comment> \<open>about to try this barista\<close>
  | Retry nat                   \<comment> \<open>asleep after a round without success\<close>
  | Selected nat nat            \<comment> \<open>has this barista, asleep\<close>
  | Begins nat int              \<comment> \<open>has read the clock\<close>
  | Preparing nat nat
  | Served nat int              \<comment> \<open>has read the clock again\<close>
  | Completing nat int
  | Posting nat int
  | Done int

datatype event =
    Arrives int nat
  | Orders int nat
  | Preparation nat int int
  | LeavesWithout int int
  | Completes nat int int
  | LeavesWith int int

record cafe =
  now :: nat
  phase :: "nat \<Rightarrow> phase"
  start :: "nat \<Rightarrow> nat"
  baristaSemaphores :: "nat \<Rightarrow> nat"
  coffee_waste :: nat
  waiting_time :: int
  printed :: "event list"

definition goto :: "nat \<Rightarrow> phase \<Rightarrow> cafe \<Rightarrow> cafe" where
  "goto i p st = st\<lparr>phase := (phase st)(i := p)\<rparr>"

definition sem_init :: "nat \<Rightarrow> cafe" where
  "sem_init num_baristas = \<lparr>now = 0, phase = (\<lambda>_. Created), start = (\<lambda>_. 0),
     baristaSemaphores = (\<lambda>b. if b < num_baristas then 1 else 0), coffee_waste = 0, waiting_time = 0, printed = []\<rparr>"

text \<open>\<open>end.tv_sec - start.tv_sec\<close>.\<close>

definition elapsed :: "nat \<Rightarrow> cafe \<Rightarrow> int" where
  "elapsed i st = int (now st div 1000000) - int (start st i div 1000000)"

definition late :: "customer \<Rightarrow> int \<Rightarrow> bool" where
  "late c ct \<longleftrightarrow> ct - int (arrival_time c) > tolerance c"

text \<open>The section for a customer who does not wait, and the section at the end, in which the last
  statement is not under the \<open>if\<close>.\<close>

definition leave_without :: "customer \<Rightarrow> cafe \<Rightarrow> cafe" where
  "leave_without c st = st\<lparr>printed := printed st @ [LeavesWithout (cid c) (tolerance c + int (arrival_time c))],
     waiting_time := waiting_time st + tolerance c, coffee_waste := coffee_waste st + 1\<rparr>"

definition complete_order :: "nat \<Rightarrow> customer \<Rightarrow> int \<Rightarrow> cafe \<Rightarrow> cafe" where
  "complete_order b c ct st = st\<lparr>printed := printed st @ [Completes (b + 1) (cid c) (ct + 1)] @
       (if ct - int (arrival_time c) \<le> tolerance c then [LeavesWith (cid c) (ct + 1)] else []),
     waiting_time := waiting_time st + (ct - int (arrival_time c))\<rparr>"

text \<open>\<open>None\<close>: the thread sleeps or has ended.\<close>

definition customerThread :: "nat \<Rightarrow> (nat \<Rightarrow> nat) \<Rightarrow> customer list \<Rightarrow> nat \<Rightarrow> cafe \<Rightarrow> cafe option" where
  "customerThread num_baristas prep cs i st =
     (let c = cs ! i in
      case phase st i of
        Created \<Rightarrow> Some (goto i (Arriving (now st + arrival_time c * 1000000)) (st\<lparr>start := (start st)(i := now st)\<rparr>))
      | Arriving w \<Rightarrow>
          if now st < w then None
          else Some (goto i (Trying 0) (st\<lparr>printed := printed st @ [Arrives (cid c) (arrival_time c), Orders (cid c) (coffee_type_index c)]\<rparr>))
      | Trying b \<Rightarrow>
          if b < num_baristas then
            if 0 < baristaSemaphores st b
            then Some (goto i (Selected b (now st + 1000)) (st\<lparr>baristaSemaphores := (baristaSemaphores st)(b := baristaSemaphores st b - 1)\<rparr>))
            else Some (goto i (Trying (b + 1)) st)
          else Some (goto i (Retry (now st + 1000)) st)
      | Retry w \<Rightarrow> if now st < w then None else Some (goto i (Trying 0) st)
      | Selected b w \<Rightarrow> if now st < w then None else Some (goto i (Begins b (elapsed i st)) st)
      | Begins b ct \<Rightarrow>
          Some (goto i (Preparing b (now st + prep (coffee_type_index c) * 1000000))
            (st\<lparr>printed := printed st @ [Preparation (b + 1) (cid c) (ct + 1)]\<rparr>))
      | Preparing b w \<Rightarrow> if now st < w then None else Some (goto i (Served b (elapsed i st)) st)
      | Served b ct \<Rightarrow> Some (goto i (Completing b ct) (if late c ct then leave_without c st else st))
      | Completing b ct \<Rightarrow> Some (goto i (Posting b ct) (complete_order b c ct st))
      | Posting b ct \<Rightarrow> Some (goto i (Done ct) (st\<lparr>baristaSemaphores := (baristaSemaphores st)(b := baristaSemaphores st b + 1)\<rparr>))
      | Done ct \<Rightarrow> None)"

inductive cafe_step :: "nat \<Rightarrow> (nat \<Rightarrow> nat) \<Rightarrow> customer list \<Rightarrow> cafe \<Rightarrow> cafe \<Rightarrow> bool" for num_baristas prep cs where
  run: "i < length cs \<Longrightarrow> customerThread num_baristas prep cs i st = Some st' \<Longrightarrow> cafe_step num_baristas prep cs st st'"
| clock: "cafe_step num_baristas prep cs st (st\<lparr>now := now st + 1\<rparr>)"

subsection \<open>What each customer has done so far\<close>

fun holds :: "phase \<Rightarrow> nat option" where
  "holds (Selected b _) = Some b"
| "holds (Begins b _) = Some b"
| "holds (Preparing b _) = Some b"
| "holds (Served b _) = Some b"
| "holds (Completing b _) = Some b"
| "holds (Posting b _) = Some b"
| "holds _ = None"

text \<open>The part of a customer in use of a barista, in the waste, in the waiting time and in the leave
  messages.\<close>

definition uses :: "nat \<Rightarrow> phase \<Rightarrow> nat" where
  "uses b p = (if holds p = Some b then 1 else 0)"

fun wasted :: "customer \<Rightarrow> phase \<Rightarrow> nat" where
  "wasted c (Completing _ ct) = (if late c ct then 1 else 0)"
| "wasted c (Posting _ ct) = (if late c ct then 1 else 0)"
| "wasted c (Done ct) = (if late c ct then 1 else 0)"
| "wasted c _ = 0"

fun waited :: "customer \<Rightarrow> phase \<Rightarrow> int" where
  "waited c (Completing _ ct) = (if late c ct then tolerance c else 0)"
| "waited c (Posting _ ct) = (if late c ct then tolerance c else 0) + (ct - int (arrival_time c))"
| "waited c (Done ct) = (if late c ct then tolerance c else 0) + (ct - int (arrival_time c))"
| "waited c _ = 0"

definition goodbye :: "customer \<Rightarrow> int \<Rightarrow> event" where
  "goodbye c ct = (if late c ct then LeavesWithout (cid c) (tolerance c + int (arrival_time c)) else LeavesWith (cid c) (ct + 1))"

fun left :: "customer \<Rightarrow> phase \<Rightarrow> event multiset" where
  "left c (Completing _ ct) = (if late c ct then {#goodbye c ct#} else {#})"
| "left c (Posting _ ct) = {#goodbye c ct#}"
| "left c (Done ct) = {#goodbye c ct#}"
| "left c _ = {#}"

fun is_leave :: "event \<Rightarrow> bool" where
  "is_leave (LeavesWithout _ _) = True"
| "is_leave (LeavesWith _ _) = True"
| "is_leave _ = False"

definition cafe_inv :: "nat \<Rightarrow> customer list \<Rightarrow> cafe \<Rightarrow> bool" where
  "cafe_inv N cs st \<longleftrightarrow>
     (\<forall>b<N. baristaSemaphores st b + (\<Sum>i<length cs. uses b (phase st i)) = 1) \<and>
     (\<forall>i<length cs. \<forall>b. holds (phase st i) = Some b \<longrightarrow> b < N) \<and>
     coffee_waste st = (\<Sum>i<length cs. wasted (cs ! i) (phase st i)) \<and>
     waiting_time st = (\<Sum>i<length cs. waited (cs ! i) (phase st i)) \<and>
     mset (filter is_leave (printed st)) = (\<Sum>i<length cs. left (cs ! i) (phase st i))"

text \<open>One thread moves on, and the rest of the state changes by the difference.\<close>

lemma cafe_inv_goto:
  assumes inv: "cafe_inv N cs st" and i: "i < length cs" and ph: "phase st' = (phase st)(i := p)"
    and s: "\<forall>b<N. baristaSemaphores st' b + uses b p = baristaSemaphores st b + uses b (phase st i)" "\<forall>b. holds p = Some b \<longrightarrow> b < N"
    and w: "coffee_waste st' + wasted (cs ! i) (phase st i) = coffee_waste st + wasted (cs ! i) p"
    and t: "waiting_time st' + waited (cs ! i) (phase st i) = waiting_time st + waited (cs ! i) p"
    and l: "mset (filter is_leave (printed st')) + left (cs ! i) (phase st i) = mset (filter is_leave (printed st)) + left (cs ! i) p"
  shows "cafe_inv N cs st'"
  unfolding cafe_inv_def
proof (intro conjI allI impI)
  show "b < N" if "i' < length cs" "holds (phase st' i') = Some b" for i' b
    using that s(2) inv unfolding cafe_inv_def by (auto simp: ph split: if_splits)
  show "baristaSemaphores st' b + (\<Sum>i<length cs. uses b (phase st' i)) = 1" if "b < N" for b
  proof -
    have "baristaSemaphores st b + (\<Sum>i<length cs. uses b (phase st i)) = 1" using inv that by (simp add: cafe_inv_def)
    moreover have "baristaSemaphores st' b + uses b p = baristaSemaphores st b + uses b (phase st i)" using s(1) that by simp
    ultimately show ?thesis using sum_fun_upd [OF i, of "\<lambda>_. uses b" "phase st" p] unfolding ph by linarith
  qed
  show "coffee_waste st' = (\<Sum>i<length cs. wasted (cs ! i) (phase st' i))"
    using sum_fun_upd [OF i, of "\<lambda>i. wasted (cs ! i)" "phase st" p] w inv unfolding ph cafe_inv_def by linarith
  show "waiting_time st' = (\<Sum>i<length cs. waited (cs ! i) (phase st' i))"
    using sum_fun_upd [OF i, of "\<lambda>i. waited (cs ! i)" "phase st" p] t inv unfolding ph cafe_inv_def by linarith
  show "mset (filter is_leave (printed st')) = (\<Sum>i<length cs. left (cs ! i) (phase st' i))"
  proof -
    have "mset (filter is_leave (printed st)) = (\<Sum>i<length cs. left (cs ! i) (phase st i))" using inv unfolding cafe_inv_def by blast
    then have "mset (filter is_leave (printed st')) + left (cs ! i) (phase st i) = (\<Sum>i<length cs. left (cs ! i) (phase st' i)) + left (cs ! i) (phase st i)"
      using sum_fun_upd [OF i, of "\<lambda>i. left (cs ! i)" "phase st" p] l unfolding ph by simp
    then show ?thesis by simp
  qed
qed

lemma customerThread_inv:
  assumes inv: "cafe_inv N cs st" and i: "i < length cs" and run: "customerThread N prep cs i st = Some st'"
  shows "cafe_inv N cs st'"
proof -
  have h: "holds (phase st i) = Some b \<Longrightarrow> b < N" for b using inv i by (auto simp: cafe_inv_def)
  note defs = customerThread_def goto_def Let_def uses_def
  show ?thesis
  proof (cases "phase st i")
    case (Trying b)
    then show ?thesis using run
      by (intro cafe_inv_goto [OF inv i, where p = "phase st' i"]) (auto simp: defs fun_eq_iff split: if_splits)
  next
    case (Served b ct)
    then show ?thesis using run h
      by (intro cafe_inv_goto [OF inv i, where p = "phase st' i"]) (auto simp: defs fun_eq_iff leave_without_def goodbye_def split: if_splits)
  next
    case (Completing b ct)
    then show ?thesis using run h
      by (intro cafe_inv_goto [OF inv i, where p = "phase st' i"]) (auto simp: defs fun_eq_iff complete_order_def goodbye_def late_def split: if_splits)
  qed (use run h in \<open>intro cafe_inv_goto [OF inv i, where p = "phase st' i"]; auto simp: defs fun_eq_iff split: if_splits\<close>)+
qed

lemma cafe_inv_init: "cafe_inv N cs (sem_init N)"
  by (simp add: cafe_inv_def sem_init_def uses_def)

lemma cafe_step_inv: "cafe_step N prep cs st st' \<Longrightarrow> cafe_inv N cs st \<Longrightarrow> cafe_inv N cs st'"
proof (induction rule: cafe_step.induct)
  case (clock st)
  then show ?case by (simp add: cafe_inv_def)
qed (rule customerThread_inv)

lemma cafe_steps_inv: "(cafe_step N prep cs)\<^sup>*\<^sup>* st st' \<Longrightarrow> cafe_inv N cs st \<Longrightarrow> cafe_inv N cs st'"
  by (induction rule: rtranclp_induct) (auto intro: cafe_step_inv)

lemma sum_single: "(\<Sum>i<n. {#f i#}) = image_mset f (mset [0..<n])"
  by (induction n) auto

text \<open>
  C37: The cafe. In every state that the program can reach no barista serves two customers at once. When all
  threads have ended, with the final clock readings \<open>ct\<close>, every customer has left exactly once, without the order
  if the tolerance was exceeded and with it otherwise; the wasted coffees are the customers who did not wait; and the
  waiting time counts such a customer twice, with the tolerance and with the full time.
\<close>

theorem cafe_results:
  assumes "(cafe_step N prep cs)\<^sup>*\<^sup>* (sem_init N) st"
  shows "(\<forall>i<length cs. \<forall>j<length cs. \<forall>b. holds (phase st i) = Some b \<longrightarrow> holds (phase st j) = Some b \<longrightarrow> i = j)
    \<and> (\<forall>ct. (\<forall>i<length cs. phase st i = Done (ct i)) \<longrightarrow>
         mset (filter is_leave (printed st)) = image_mset (\<lambda>i. goodbye (cs ! i) (ct i)) (mset [0..<length cs])
       \<and> coffee_waste st = card {i. i < length cs \<and> late (cs ! i) (ct i)}
       \<and> waiting_time st = (\<Sum>i<length cs. ct i - int (arrival_time (cs ! i))) +
           (\<Sum>i<length cs. if late (cs ! i) (ct i) then tolerance (cs ! i) else 0))"
proof (intro conjI allI impI)
  have inv: "cafe_inv N cs st" using cafe_steps_inv [OF assms cafe_inv_init] .
  show "i = j" if ij: "i < length cs" "j < length cs" "holds (phase st i) = Some b" "holds (phase st j) = Some b" for i j b
  proof (rule ccontr)
    assume ne: "i \<noteq> j"
    have "b < N" using inv ij unfolding cafe_inv_def by blast
    then have "(\<Sum>i<length cs. uses b (phase st i)) \<le> 1" using inv unfolding cafe_inv_def by (metis le_add2)
    moreover have "(\<Sum>k\<in>{i, j}. uses b (phase st k)) \<le> (\<Sum>i<length cs. uses b (phase st i))" using ij by (intro sum_mono2) auto
    moreover have "(\<Sum>k\<in>{i, j}. uses b (phase st k)) = 2" using ij ne by (simp add: uses_def)
    ultimately show False by linarith
  qed
  fix ct assume d: "\<forall>i<length cs. phase st i = Done (ct i)"
  have "mset (filter is_leave (printed st)) = (\<Sum>i<length cs. left (cs ! i) (phase st i))" using inv unfolding cafe_inv_def by blast
  also have "\<dots> = (\<Sum>i<length cs. {#goodbye (cs ! i) (ct i)#})" using d by (intro sum.cong) auto
  also have "\<dots> = image_mset (\<lambda>i. goodbye (cs ! i) (ct i)) (mset [0..<length cs])" by (rule sum_single)
  finally show "mset (filter is_leave (printed st)) = image_mset (\<lambda>i. goodbye (cs ! i) (ct i)) (mset [0..<length cs])" .
  have "coffee_waste st = (\<Sum>i<length cs. wasted (cs ! i) (phase st i))" using inv by (simp add: cafe_inv_def)
  also have "\<dots> = (\<Sum>i<length cs. if late (cs ! i) (ct i) then 1 else 0)" using d by (intro sum.cong) auto
  also have "\<dots> = card {i. i < length cs \<and> late (cs ! i) (ct i)}" by (simp add: sum.If_cases Int_def)
  finally show "coffee_waste st = card {i. i < length cs \<and> late (cs ! i) (ct i)}" .
  have "waiting_time st = (\<Sum>i<length cs. waited (cs ! i) (phase st i))" using inv by (simp add: cafe_inv_def)
  also have "\<dots> = (\<Sum>i<length cs. (ct i - int (arrival_time (cs ! i))) + (if late (cs ! i) (ct i) then tolerance (cs ! i) else 0))"
    using d by (intro sum.cong) auto
  finally show "waiting_time st = (\<Sum>i<length cs. ct i - int (arrival_time (cs ! i))) +
      (\<Sum>i<length cs. if late (cs ! i) (ct i) then tolerance (cs ! i) else 0)" by (simp add: sum.distrib)
qed

subsection \<open>The program can always finish\<close>

abbreviation reach :: "nat \<Rightarrow> (nat \<Rightarrow> nat) \<Rightarrow> customer list \<Rightarrow> cafe \<Rightarrow> cafe \<Rightarrow> bool" where
  "reach N prep cs \<equiv> (cafe_step N prep cs)\<^sup>*\<^sup>*"

lemma clock_steps: "reach N prep cs st (st\<lparr>now := now st + k\<rparr>)"
proof (induction k)
  case (Suc k)
  have "cafe_step N prep cs (st\<lparr>now := now st + k\<rparr>) ((st\<lparr>now := now st + k\<rparr>)\<lparr>now := now (st\<lparr>now := now st + k\<rparr>) + 1\<rparr>)" by (rule clock)
  then show ?case using Suc by (simp add: rtranclp.rtrancl_into_rtrancl)
qed simp

text \<open>The thread of customer \<open>i\<close> takes its next step, after the clock has moved on far enough; nothing of the
  others changes.\<close>

definition wakes :: "phase \<Rightarrow> nat" where
  "wakes p = (case p of Arriving w \<Rightarrow> w | Retry w \<Rightarrow> w | Selected _ w \<Rightarrow> w | Preparing _ w \<Rightarrow> w | _ \<Rightarrow> 0)"

lemma customerThread_awake: "wakes (phase st i) \<le> now st \<Longrightarrow> (\<forall>ct. phase st i \<noteq> Done ct) \<Longrightarrow> \<exists>st'. customerThread N prep cs i st = Some st'"
  by (cases "phase st i") (auto simp: customerThread_def Let_def wakes_def)

lemma thread_step:
  assumes "i < length cs" "\<forall>ct. phase st i \<noteq> Done ct"
  obtains st' where "reach N prep cs st st'" "\<forall>j. j \<noteq> i \<longrightarrow> phase st' j = phase st j"
    "customerThread N prep cs i (st\<lparr>now := now st + wakes (phase st i)\<rparr>) = Some st'"
proof -
  let ?s = "st\<lparr>now := now st + wakes (phase st i)\<rparr>"
  obtain st' where r: "customerThread N prep cs i ?s = Some st'" using customerThread_awake [of ?s i N prep cs] assms(2) by auto
  have "\<forall>j. j \<noteq> i \<longrightarrow> phase st' j = phase st j"
    using r by (auto simp: customerThread_def Let_def goto_def leave_without_def complete_order_def split: phase.splits if_splits)
  moreover have "reach N prep cs st st'" using clock_steps run [OF assms(1) r] by (rule rtranclp.rtrancl_into_rtrancl)
  ultimately show thesis using that r by blast
qed

fun rank :: "nat \<Rightarrow> phase \<Rightarrow> nat" where
  "rank N Created = 12"
| "rank N (Arriving _) = 11"
| "rank N (Trying b) = (if b < N then 8 else 10)"
| "rank N (Retry _) = 9"
| "rank N (Selected _ _) = 6"
| "rank N (Begins _ _) = 5"
| "rank N (Preparing _ _) = 4"
| "rank N (Served _ _) = 3"
| "rank N (Completing _ _) = 2"
| "rank N (Posting _ _) = 1"
| "rank N (Done _) = 0"

text \<open>A customer who has a barista is never held up; one who has none is not held up when every barista is
  free.\<close>

lemma thread_rank:
  assumes "0 < N" "holds (phase st i) \<noteq> None \<or> (\<forall>b<N. 0 < baristaSemaphores st b)" "customerThread N prep cs i st = Some st'"
  shows "rank N (phase st' i) < rank N (phase st i) \<and>
    ((\<exists>ct. phase st' i = Done ct) \<or> holds (phase st' i) \<noteq> None \<or> baristaSemaphores st' = baristaSemaphores st)"
  using assms
  by (cases "phase st i") (auto simp: customerThread_def Let_def goto_def leave_without_def complete_order_def split: if_splits)

lemma thread_finishes:
  assumes "0 < N" "i < length cs" "holds (phase st i) \<noteq> None \<or> (\<forall>b<N. 0 < baristaSemaphores st b)"
  shows "\<exists>st'. reach N prep cs st st' \<and> (\<exists>ct. phase st' i = Done ct) \<and> (\<forall>j. j \<noteq> i \<longrightarrow> phase st' j = phase st j)"
  using assms(3)
proof (induction "rank N (phase st i)" arbitrary: st rule: less_induct)
  case less
  show ?case
  proof (cases "\<exists>ct. phase st i = Done ct")
    case True
    then show ?thesis by blast
  next
    case False
    let ?s = "st\<lparr>now := now st + wakes (phase st i)\<rparr>"
    obtain s1 where s1: "reach N prep cs st s1" "\<forall>j. j \<noteq> i \<longrightarrow> phase s1 j = phase st j" "customerThread N prep cs i ?s = Some s1"
      using thread_step [OF assms(2)] False by metis
    have r: "rank N (phase s1 i) < rank N (phase st i)" "(\<exists>ct. phase s1 i = Done ct) \<or> holds (phase s1 i) \<noteq> None \<or> baristaSemaphores s1 = baristaSemaphores st"
      using thread_rank [OF assms(1) _ s1(3)] less.prems by simp_all
    show ?thesis
    proof (cases "\<exists>ct. phase s1 i = Done ct")
      case True
      then show ?thesis using s1 by blast
    next
      case False
      have "holds (phase s1 i) \<noteq> None \<or> (\<forall>b<N. 0 < baristaSemaphores s1 b)"
      proof (cases "holds (phase st i) = None")
        case True
        then show ?thesis using False r(2) less.prems by auto
      next
        case h: False
        have "holds (phase ?s i) \<noteq> None \<Longrightarrow> holds (phase s1 i) \<noteq> None \<or> (\<exists>ct. phase s1 i = Done ct)"
          using s1(3) by (cases "phase ?s i") (auto simp: customerThread_def Let_def goto_def leave_without_def complete_order_def split: if_splits)
        then show ?thesis using h False by simp
      qed
      from less.hyps [OF r(1) this] obtain s2 where s2: "reach N prep cs s1 s2" "\<exists>ct. phase s2 i = Done ct" "\<forall>j. j \<noteq> i \<longrightarrow> phase s2 j = phase s1 j" by blast
      have "reach N prep cs st s2" using s1(1) s2(1) by (rule rtranclp_trans)
      then show ?thesis using s1(2) s2(2,3) by auto
    qed
  qed
qed

lemma baristas_free:
  assumes "cafe_inv N cs st" "\<forall>i<length cs. holds (phase st i) = None"
  shows "\<forall>b<N. 0 < baristaSemaphores st b"
  using assms by (auto simp: cafe_inv_def uses_def)

definition unfinished :: "customer list \<Rightarrow> cafe \<Rightarrow> nat set" where
  "unfinished cs st = {i. i < length cs \<and> (\<forall>ct. phase st i \<noteq> Done ct)}"

lemma cafe_finishes:
  assumes "0 < N" "cafe_inv N cs st"
  shows "\<exists>st'. reach N prep cs st st' \<and> unfinished cs st' = {}"
  using assms(2)
proof (induction "card (unfinished cs st)" arbitrary: st rule: less_induct)
  case less
  have fin: "finite (unfinished cs st)" by (simp add: unfinished_def)
  show ?case
  proof (cases "unfinished cs st = {}")
    case True
    then show ?thesis by blast
  next
    case False
    obtain i where i: "i \<in> unfinished cs st" "holds (phase st i) \<noteq> None \<or> (\<forall>b<N. 0 < baristaSemaphores st b)"
    proof (cases "\<exists>i<length cs. holds (phase st i) \<noteq> None")
      case True
      then obtain i where h: "i < length cs" "holds (phase st i) \<noteq> None" by blast
      then have "\<forall>ct. phase st i \<noteq> Done ct" by auto
      then show thesis using that [of i] h by (simp add: unfinished_def)
    next
      case no: False
      then show thesis using that False baristas_free [OF less.prems] by blast
    qed
    obtain s1 where s1: "reach N prep cs st s1" "\<exists>ct. phase s1 i = Done ct" "\<forall>j. j \<noteq> i \<longrightarrow> phase s1 j = phase st j"
      using thread_finishes [OF assms(1) _ i(2), of cs prep] i(1) by (auto simp: unfinished_def)
    have "i \<notin> unfinished cs s1" using s1(2) by (auto simp: unfinished_def)
    moreover have "x \<in> unfinished cs st" if "x \<in> unfinished cs s1" for x
      using that s1(3) \<open>i \<notin> unfinished cs s1\<close> by (cases "x = i") (auto simp: unfinished_def)
    ultimately have "unfinished cs s1 \<subset> unfinished cs st" using i(1) by blast
    then have "card (unfinished cs s1) < card (unfinished cs st)" using fin by (rule psubset_card_mono [rotated])
    from less.hyps [OF this cafe_steps_inv [OF s1(1) less.prems]] s1(1) show ?thesis by (meson rtranclp_trans)
  qed
qed

text \<open>
  C38: The cafe cannot deadlock: with at least one barista, from every state that the program can reach, whatever the
  customers have done so far, there is a way on in which all threads end, so \<open>main\<close> can return from its joins.
\<close>

theorem cafe_completes:
  assumes "0 < N" "(cafe_step N prep cs)\<^sup>*\<^sup>* (sem_init N) st"
  shows "\<exists>st'. (cafe_step N prep cs)\<^sup>*\<^sup>* st st' \<and> (\<forall>i<length cs. \<exists>ct. phase st' i = Done ct)"
  using cafe_finishes [OF assms(1) cafe_steps_inv [OF assms(2) cafe_inv_init]] by (fastforce simp: unfinished_def)

text \<open>Two customers and one barista.\<close>

definition two_customers :: "customer list" where
  "two_customers = [\<lparr>cid = 1, coffee_type_index = 0, arrival_time = 0, tolerance = 2\<rparr>, \<lparr>cid = 2, coffee_type_index = 0, arrival_time = 1, tolerance = 1\<rparr>]"

theorem cafe_completes_witness:
  "\<exists>st'. (cafe_step 1 (\<lambda>_. 3) two_customers)\<^sup>*\<^sup>* (sem_init 1) st' \<and> (\<exists>x. phase st' 0 = Done x) \<and> (\<exists>x. phase st' 1 = Done x)"
proof -
  have "\<exists>st'. (cafe_step 1 (\<lambda>_. 3) two_customers)\<^sup>*\<^sup>* (sem_init 1) st' \<and> (\<forall>i<length two_customers. \<exists>ct. phase st' i = Done ct)"
    by (rule cafe_completes) simp_all
  then show ?thesis by (auto simp: two_customers_def less_Suc_eq)
qed

theorem cafe_results_witness:
  "\<exists>st ct. (cafe_step 1 (\<lambda>_. 3) two_customers)\<^sup>*\<^sup>* (sem_init 1) st \<and>
     coffee_waste st = card {i. i < length two_customers \<and> late (two_customers ! i) (ct i)}"
proof -
  obtain st where st: "(cafe_step 1 (\<lambda>_. 3) two_customers)\<^sup>*\<^sup>* (sem_init 1) st" "unfinished two_customers st = {}"
    using cafe_finishes [OF zero_less_one cafe_inv_init] by blast
  then obtain ct where "\<forall>i<length two_customers. phase st i = Done (ct i)" unfolding unfinished_def by (auto, metis)
  with cafe_results [OF st(1)] st(1) show ?thesis by blast
qed

end
