(* ===== verification/Parlour.thy ===== *)
theory Parlour
  imports Prelude
begin

text \<open>
  The ice cream parlour of \<open>concurrency/2.c\<close>: threads for machines, customers and single orders.

  As in theory \<open>Cafe\<close>, each function below is the next atomic action of one thread, the clock counts
  microseconds, and a step is an action of one thread or the clock. \<open>sem_t\<close>, \<open>sleep\<close> and \<open>usleep\<close> are POSIX. The input
  after reading is a configuration; \<open>strtok\<close> is the splitting at spaces.
\<close>

record machine_times =
  start_time :: nat
  end_time :: nat

record request =
  arrival :: nat
  items :: "(string \<times> nat list) list"     \<comment> \<open>\<open>flavors[i]\<close> and \<open>toppings[i]\<close>\<close>

record config =
  machines :: "machine_times list"
  flavors :: "(string \<times> nat) list"
  topping_info :: "string list"
  capacity :: nat
  requests :: "request list"

subsection \<open>Looking up names\<close>

text \<open>\<open>findToppingId\<close> and \<open>findFlavorId\<close>; \<open>None\<close> is \<open>-1\<close>.\<close>

fun find_name :: "string \<Rightarrow> string list \<Rightarrow> nat \<Rightarrow> nat option" where
  "find_name x [] i = None"
| "find_name x (y # ys) i = (if x = y then Some i else find_name x ys (i + 1))"

definition findToppingId :: "config \<Rightarrow> string \<Rightarrow> nat option" where
  "findToppingId g x = find_name x (topping_info g) 0"

definition findFlavorId :: "config \<Rightarrow> string \<Rightarrow> nat option" where
  "findFlavorId g x = find_name x (map fst (flavors g)) 0"

text \<open>\<open>splitString\<close> at spaces.\<close>

function splitString :: "string \<Rightarrow> string list" where
  "splitString s =
     (case dropWhile (\<lambda>c. c = CHR '' '') s of
        [] \<Rightarrow> []
      | c # cs \<Rightarrow> (c # takeWhile (\<lambda>c. c \<noteq> CHR '' '') cs) # splitString (dropWhile (\<lambda>c. c \<noteq> CHR '' '') cs))"
  by pat_completeness auto
termination
proof (relation "measure length", goal_cases)
  case (2 s c cs)
  then show ?case using length_dropWhile_le [of "\<lambda>c. c = CHR '' ''" s] length_dropWhile_le [of "\<lambda>c. c \<noteq> CHR '' ''" cs] by simp
qed simp

declare splitString.simps [simp del]

text \<open>The lines of \<open>parseCustomerOrder\<close> for the single orders. Toppings without an id are dropped. A line without
  tokens makes the flavour a null pointer.\<close>

definition parse_item :: "config \<Rightarrow> string \<Rightarrow> (string \<times> nat list) option" where
  "parse_item g line =
     (case splitString line of
        [] \<Rightarrow> None
      | f # ts \<Rightarrow> Some (f, List.map_filter (findToppingId g) ts))"

fun parseCustomerOrder :: "config \<Rightarrow> string list \<Rightarrow> (string \<times> nat list) list option" where
  "parseCustomerOrder g [] = Some []"
| "parseCustomerOrder g (l # ls) =
     (case (parse_item g l, parseCustomerOrder g ls) of
        (Some x, Some xs) \<Rightarrow> Some (x # xs)
      | _ \<Rightarrow> None)"

subsection \<open>Admission\<close>

text \<open>Why a customer is turned away.\<close>

datatype verdict = NoFlavour string | NoTopping string | NoTime | NoMachine

definition prep_time :: "config \<Rightarrow> string \<Rightarrow> nat" where
  "prep_time g f = (case findFlavorId g f of Some i \<Rightarrow> snd (flavors g ! i) | None \<Rightarrow> 0)"

fun check_toppings :: "config \<Rightarrow> nat list \<Rightarrow> string option" where
  "check_toppings g [] = None"
| "check_toppings g (t # ts) =
     (case findToppingId g (topping_info g ! t) of
        None \<Rightarrow> Some (topping_info g ! t)
      | Some _ \<Rightarrow> check_toppings g ts)"

fun check_items :: "config \<Rightarrow> (string \<times> nat list) list \<Rightarrow> verdict option" where
  "check_items g [] = None"
| "check_items g ((f, ts) # xs) =
     (case findFlavorId g f of
        None \<Rightarrow> Some (NoFlavour f)
      | Some _ \<Rightarrow> (case check_toppings g ts of Some t \<Rightarrow> Some (NoTopping t) | None \<Rightarrow> check_items g xs))"

definition total_time_required :: "config \<Rightarrow> request \<Rightarrow> int" where
  "total_time_required g q = int (sum_list (map (\<lambda>x. prep_time g (fst x)) (items q)))"

text \<open>The test of machine \<open>j\<close> for an order; \<open>isAvailable\<close> is the only part that changes while threads run.\<close>

definition machine_fits :: "config \<Rightarrow> bool \<Rightarrow> nat \<Rightarrow> nat \<Rightarrow> string \<Rightarrow> bool" where
  "machine_fits g avail arr j f \<longleftrightarrow> avail \<and> start_time (machines g ! j) \<le> arr \<and>
     end_time (machines g ! j) \<ge> arr + prep_time g f"

subsection \<open>Threads\<close>

text \<open>Where a customer is: \<open>CFit k j flag\<close> is in the loops of lines 295 to 308, at order \<open>k\<close> and machine \<open>j\<close>, and
  \<open>COrders k\<close> in the loop that creates the threads, with \<open>k\<close> threads created.\<close>

datatype cphase =
    CNew | CSleep nat | CEnter        \<comment> \<open>before \<open>sem_wait(&customer_sem)\<close> has returned\<close>
  | CCheck | CFit nat nat bool | CDeduct | COrders nat
  | CLeave | CUnserviced | CServed

datatype mphase = MNew | MSleep nat | MStarted | MAgain | MWorking nat | MStopping | MEnded

datatype ophase = OTry nat | OTrywait nat | OPause nat | OGot nat nat | OStart nat | OMaking nat nat | OPost nat | OEnded

datatype event =
    Unserviced nat verdict
  | Starts nat nat
  | Completes nat nat
  | MachineStarts nat
  | MachineStops nat

record parlour =
  now :: nat
  cph :: "nat \<Rightarrow> cphase"
  mph :: "nat \<Rightarrow> mphase"
  orders :: "(nat \<times> nat \<times> ophase) list"      \<comment> \<open>customer, preparation time, state\<close>
  machine_sem :: "nat \<Rightarrow> nat"
  isAvailable :: "nat \<Rightarrow> bool"
  customer_sem :: nat
  machineTimeAvailable :: int
  printed :: "event list"

definition total_machine_time :: "config \<Rightarrow> int" where
  "total_machine_time g = sum_list (map (\<lambda>m. int (end_time m) - int (start_time m)) (machines g))"

definition parlour_init :: "config \<Rightarrow> parlour" where
  "parlour_init g = \<lparr>now = 0, cph = (\<lambda>_. CNew), mph = (\<lambda>_. MNew), orders = [], machine_sem = (\<lambda>_. 0), isAvailable = (\<lambda>_. True),
     customer_sem = capacity g, machineTimeAvailable = total_machine_time g, printed = []\<rparr>"

definition cgoto :: "nat \<Rightarrow> cphase \<Rightarrow> parlour \<Rightarrow> parlour" where
  "cgoto i p st = st\<lparr>cph := (cph st)(i := p)\<rparr>"

text \<open>A customer who is turned away prints why, gives back its place and ends; one who is served does not give it back.
  The threads of the orders are created one by one, and run from then on.\<close>

definition turn_away :: "nat \<Rightarrow> verdict \<Rightarrow> parlour \<Rightarrow> parlour" where
  "turn_away i v st = cgoto i CLeave (st\<lparr>printed := printed st @ [Unserviced (i + 1) v]\<rparr>)"

definition customer_thread :: "config \<Rightarrow> nat \<Rightarrow> parlour \<Rightarrow> parlour option" where
  "customer_thread g i st =
     (let q = requests g ! i in
      case cph st i of
        CNew \<Rightarrow> Some (cgoto i (CSleep (now st + arrival q * 1000000)) st)
      | CSleep w \<Rightarrow> if now st < w then None else Some (cgoto i CEnter st)
      | CEnter \<Rightarrow> if customer_sem st = 0 then None else Some (cgoto i CCheck (st\<lparr>customer_sem := customer_sem st - 1\<rparr>))
      | CCheck \<Rightarrow>
          (case check_items g (items q) of
             Some v \<Rightarrow> Some (turn_away i v st)
           | None \<Rightarrow>
               if total_time_required g q > machineTimeAvailable st then Some (turn_away i NoTime st)
               else Some (cgoto i (CFit 0 0 False) st))
      | CFit k j flag \<Rightarrow>
          if k < length (items q) then
            if j < length (machines g) then
              if machine_fits g (isAvailable st j) (arrival q) j (fst (items q ! k))
              then Some (cgoto i (CFit k (length (machines g)) True) st)
              else Some (cgoto i (CFit k (j + 1) flag) st)
            else if \<not> flag then Some (turn_away i NoMachine st)
            else Some (cgoto i (CFit (k + 1) 0 flag) st)
          else Some (cgoto i CDeduct st)
      | CDeduct \<Rightarrow> Some (cgoto i (COrders 0) (st\<lparr>machineTimeAvailable := machineTimeAvailable st - total_time_required g q\<rparr>))
      | COrders k \<Rightarrow>
          if k < length (items q) then
            Some (cgoto i (COrders (k + 1)) (st\<lparr>orders := orders st @ [(i, prep_time g (fst (items q ! k)), OTry 0)]\<rparr>))
          else Some (cgoto i CServed st)
      | CLeave \<Rightarrow> Some (cgoto i CUnserviced (st\<lparr>customer_sem := customer_sem st + 1\<rparr>))
      | CUnserviced \<Rightarrow> None
      | CServed \<Rightarrow> None)"

definition mgoto :: "nat \<Rightarrow> mphase \<Rightarrow> parlour \<Rightarrow> parlour" where
  "mgoto m p st = st\<lparr>mph := (mph st)(m := p)\<rparr>"

definition post_machine :: "nat \<Rightarrow> parlour \<Rightarrow> parlour" where
  "post_machine m st = st\<lparr>machine_sem := (machine_sem st)(m := machine_sem st m + 1)\<rparr>"

text \<open>\<open>sleep\<close> takes an \<open>unsigned\<close>: a negative difference becomes a very long time.\<close>

definition working_time :: "machine_times \<Rightarrow> nat" where
  "working_time t = nat ((int (end_time t) - int (start_time t)) mod 2 ^ 32)"

definition machine_thread :: "config \<Rightarrow> nat \<Rightarrow> parlour \<Rightarrow> parlour option" where
  "machine_thread g m st =
     (let t = machines g ! m in
      case mph st m of
        MNew \<Rightarrow> Some (mgoto m (MSleep (now st + start_time t * 1000000)) st)
      | MSleep w \<Rightarrow> if now st < w then None else Some (mgoto m MStarted (post_machine m st))
      | MStarted \<Rightarrow> Some (mgoto m MAgain (st\<lparr>printed := printed st @ [MachineStarts (m + 1)]\<rparr>))
      | MAgain \<Rightarrow> Some (mgoto m (MWorking (now st + working_time t * 1000000)) (post_machine m st))
      | MWorking w \<Rightarrow> if now st < w then None else Some (mgoto m MStopping (st\<lparr>printed := printed st @ [MachineStops (m + 1)]\<rparr>))
      | MStopping \<Rightarrow> Some (mgoto m MEnded (st\<lparr>isAvailable := (isAvailable st)(m := False)\<rparr>))
      | MEnded \<Rightarrow> None)"

definition ogoto :: "nat \<Rightarrow> ophase \<Rightarrow> parlour \<Rightarrow> parlour" where
  "ogoto k p st = st\<lparr>orders := (orders st)[k := (fst (orders st ! k), fst (snd (orders st ! k)), p)]\<rparr>"

definition single_order_thread :: "config \<Rightarrow> nat \<Rightarrow> parlour \<Rightarrow> parlour option" where
  "single_order_thread g k st =
     (let (i, prep, p) = orders st ! k in
      case p of
        OTry m \<Rightarrow>
          if m < length (machines g) then
            if \<not> isAvailable st m then Some (ogoto k (OTry (m + 1)) st) else Some (ogoto k (OTrywait m) st)
          else Some (ogoto k (OPause (now st + 1000)) st)
      | OTrywait m \<Rightarrow>
          if machine_sem st m = 0 then Some (ogoto k (OTry (m + 1)) st)
          else Some (ogoto k (OGot m (now st + 1000)) (st\<lparr>machine_sem := (machine_sem st)(m := machine_sem st m - 1)\<rparr>))
      | OPause w \<Rightarrow> if now st < w then None else Some (ogoto k (OTry 0) st)
      | OGot m w \<Rightarrow> if now st < w then None else Some (ogoto k (OStart m) st)
      | OStart m \<Rightarrow> Some (ogoto k (OMaking m (now st + prep * 1000000)) (st\<lparr>printed := printed st @ [Starts (m + 1) (i + 1)]\<rparr>))
      | OMaking m w \<Rightarrow> if now st < w then None else Some (ogoto k (OPost m) (st\<lparr>printed := printed st @ [Completes (m + 1) (i + 1)]\<rparr>))
      | OPost m \<Rightarrow> Some (ogoto k OEnded (post_machine m st))
      | OEnded \<Rightarrow> None)"

inductive parlour_step :: "config \<Rightarrow> parlour \<Rightarrow> parlour \<Rightarrow> bool" for g where
  customer: "i < length (requests g) \<Longrightarrow> customer_thread g i st = Some st' \<Longrightarrow> parlour_step g st st'"
| machine: "m < length (machines g) \<Longrightarrow> machine_thread g m st = Some st' \<Longrightarrow> parlour_step g st st'"
| order: "k < length (orders st) \<Longrightarrow> single_order_thread g k st = Some st' \<Longrightarrow> parlour_step g st st'"
| clock: "parlour_step g st (st\<lparr>now := now st + 1\<rparr>)"

subsection \<open>Invariant\<close>

fun inside :: "cphase \<Rightarrow> nat" where
  "inside CNew = 0"
| "inside (CSleep _) = 0"
| "inside CEnter = 0"
| "inside CUnserviced = 0"
| "inside _ = 1"

fun spent :: "int \<Rightarrow> cphase \<Rightarrow> int" where
  "spent t (COrders _) = t"
| "spent t CServed = t"
| "spent t _ = 0"

text \<open>How many of its \<open>n\<close> order threads a customer has created.\<close>

fun created :: "nat \<Rightarrow> cphase \<Rightarrow> nat" where
  "created n (COrders k) = k"
| "created n CServed = n"
| "created n _ = 0"

fun posts :: "mphase \<Rightarrow> nat" where
  "posts MNew = 0"
| "posts (MSleep _) = 0"
| "posts MStarted = 1"
| "posts MAgain = 1"
| "posts _ = 2"

fun on_machine :: "nat \<Rightarrow> ophase \<Rightarrow> nat" where
  "on_machine m (OGot m' _) = (if m = m' then 1 else 0)"
| "on_machine m (OStart m') = (if m = m' then 1 else 0)"
| "on_machine m (OMaking m' _) = (if m = m' then 1 else 0)"
| "on_machine m (OPost m') = (if m = m' then 1 else 0)"
| "on_machine m _ = 0"

definition using_machine :: "nat \<Rightarrow> nat \<times> nat \<times> ophase \<Rightarrow> nat" where
  "using_machine m x = on_machine m (snd (snd x))"

text \<open>The preparation times of the order threads of one customer, in the order of their creation.\<close>

definition made_for :: "nat \<Rightarrow> (nat \<times> nat \<times> ophase) list \<Rightarrow> nat list" where
  "made_for i os = map (\<lambda>x. fst (snd x)) (filter (\<lambda>x. fst x = i) os)"

definition wanted :: "config \<Rightarrow> nat \<Rightarrow> cphase \<Rightarrow> nat list" where
  "wanted g i p = map (\<lambda>x. prep_time g (fst x)) (take (created (length (items (requests g ! i))) p) (items (requests g ! i)))"

definition parlour_inv :: "config \<Rightarrow> parlour \<Rightarrow> bool" where
  "parlour_inv g st \<longleftrightarrow>
     customer_sem st + (\<Sum>i<length (requests g). inside (cph st i)) = capacity g \<and>
     machineTimeAvailable st + (\<Sum>i<length (requests g). spent (total_time_required g (requests g ! i)) (cph st i)) = total_machine_time g \<and>
     (\<forall>m. machine_sem st m + sum_list (map (using_machine m) (orders st)) = (if m < length (machines g) then posts (mph st m) else 0)) \<and>
     (\<forall>i<length (requests g). made_for i (orders st) = wanted g i (cph st i))"

lemma made_for_snoc [simp]: "made_for i (os @ [(j, t, p)]) = made_for i os @ (if j = i then [t] else [])"
  by (simp add: made_for_def)

lemma made_for_upd:
  assumes "k < length os" "fst x = fst (os ! k)" "fst (snd x) = fst (snd (os ! k))"
  shows "made_for i (os[k := x]) = made_for i os"
  using assms
proof (induction os arbitrary: k)
  case (Cons y os)
  then show ?case by (cases k) (auto simp: made_for_def)
qed simp

text \<open>One customer moves on.\<close>

lemma parlour_inv_customer:
  assumes inv: "parlour_inv g st" and i: "i < length (requests g)" and c: "cph st' = (cph st)(i := p)"
    and s: "customer_sem st' + inside p = customer_sem st + inside (cph st i)"
    and t: "machineTimeAvailable st' + spent (total_time_required g (requests g ! i)) p =
      machineTimeAvailable st + spent (total_time_required g (requests g ! i)) (cph st i)"
    and o: "made_for i (orders st) = wanted g i (cph st i) \<Longrightarrow> made_for i (orders st') = wanted g i p"
      "\<And>j. j \<noteq> i \<Longrightarrow> made_for j (orders st') = made_for j (orders st)"
    and m: "\<And>m. sum_list (map (using_machine m) (orders st')) = sum_list (map (using_machine m) (orders st))"
      "machine_sem st' = machine_sem st" "mph st' = mph st"
  shows "parlour_inv g st'"
  unfolding parlour_inv_def
proof (intro conjI allI impI)
  note sums = inv [unfolded parlour_inv_def]
  show "customer_sem st' + (\<Sum>i<length (requests g). inside (cph st' i)) = capacity g"
    using sums s sum_fun_upd [OF i, of "\<lambda>_. inside" "cph st" p] unfolding c by linarith
  show "machineTimeAvailable st' + (\<Sum>i<length (requests g). spent (total_time_required g (requests g ! i)) (cph st' i)) = total_machine_time g"
    using sums t sum_fun_upd [OF i, of "\<lambda>i. spent (total_time_required g (requests g ! i))" "cph st" p] unfolding c by linarith
  show "made_for j (orders st') = wanted g j (cph st' j)" if "j < length (requests g)" for j
    using sums o that unfolding c by (cases "j = i") simp_all
  show "machine_sem st' k + sum_list (map (using_machine k) (orders st')) = (if k < length (machines g) then posts (mph st' k) else 0)" for k
    using sums unfolding m by blast
qed

lemma customer_thread_inv:
  assumes inv: "parlour_inv g st" and i: "i < length (requests g)" and run: "customer_thread g i st = Some st'"
  shows "parlour_inv g st'"
proof -
  note defs = customer_thread_def cgoto_def turn_away_def Let_def
  note move = parlour_inv_customer [OF inv i, where p = "cph st' i"]
  show ?thesis
  proof (cases "cph st i")
    case (COrders k)
    then show ?thesis using run
      by (intro move) (auto simp: defs fun_eq_iff using_machine_def wanted_def take_Suc_conv_app_nth split: if_splits)
  qed (use run in \<open>intro move; auto simp: defs fun_eq_iff wanted_def split: if_splits option.splits\<close>)+
qed

text \<open>Machines and orders only touch the semaphores of the machines.\<close>

lemma parlour_inv_machine:
  assumes inv: "parlour_inv g st" and c: "cph st' = cph st" "customer_sem st' = customer_sem st" "machineTimeAvailable st' = machineTimeAvailable st"
    "\<And>i. made_for i (orders st') = made_for i (orders st)"
    and m: "\<And>m. machine_sem st' m + sum_list (map (using_machine m) (orders st')) = (if m < length (machines g) then posts (mph st' m) else 0)"
  shows "parlour_inv g st'"
  using assms unfolding parlour_inv_def by (simp only:) blast

lemma machine_thread_inv:
  assumes inv: "parlour_inv g st" and m: "m < length (machines g)" and run: "machine_thread g m st = Some st'"
  shows "parlour_inv g st'"
proof -
  have s: "machine_sem st k + sum_list (map (using_machine k) (orders st)) = (if k < length (machines g) then posts (mph st k) else 0)" for k
    using inv by (simp add: parlour_inv_def)
  obtain p where f: "orders st' = orders st" "cph st' = cph st" "customer_sem st' = customer_sem st" "machineTimeAvailable st' = machineTimeAvailable st"
      "mph st' = (mph st)(m := p)"
    and sem: "\<And>k. machine_sem st' k + (if k = m then posts (mph st m) else 0) = machine_sem st k + (if k = m then posts p else 0)"
    using run by (auto simp: machine_thread_def mgoto_def post_machine_def Let_def split: mphase.splits if_splits)
  have "machine_sem st' k + sum_list (map (using_machine k) (orders st')) = (if k < length (machines g) then posts (mph st' k) else 0)" for k
    using s [of k] sem [of k] m unfolding f by (cases "k = m") auto
  then show ?thesis by (intro parlour_inv_machine [OF inv]) (simp_all add: f)
qed

lemma single_order_thread_inv:
  assumes inv: "parlour_inv g st" and k: "k < length (orders st)" and run: "single_order_thread g k st = Some st'"
  shows "parlour_inv g st'"
proof -
  obtain i prep p where x: "orders st ! k = (i, prep, p)" by (metis prod_cases3)
  have s: "machine_sem st m + sum_list (map (using_machine m) (orders st)) = (if m < length (machines g) then posts (mph st m) else 0)" for m
    using inv by (simp add: parlour_inv_def)
  obtain q where o: "orders st' = (orders st)[k := (i, prep, q)]" and f: "mph st' = mph st" "cph st' = cph st" "customer_sem st' = customer_sem st"
      "machineTimeAvailable st' = machineTimeAvailable st"
    and sem: "\<And>m. machine_sem st' m + on_machine m q = machine_sem st m + on_machine m p"
    using run unfolding single_order_thread_def x
    by (auto simp: ogoto_def post_machine_def x split: ophase.splits if_splits)
  have "machine_sem st' m + sum_list (map (using_machine m) (orders st')) = machine_sem st m + sum_list (map (using_machine m) (orders st))" for m
    using sum_list_upd [OF k, of "using_machine m" "(i, prep, q)"] sem [of m] unfolding o by (simp add: using_machine_def x)
  moreover have "made_for j (orders st') = made_for j (orders st)" for j
    unfolding o by (rule made_for_upd [OF k]) (simp_all add: x)
  ultimately show ?thesis using s by (intro parlour_inv_machine [OF inv]) (simp_all add: f)
qed

lemma parlour_inv_init: "parlour_inv g (parlour_init g)"
  by (simp add: parlour_inv_def parlour_init_def made_for_def wanted_def)

lemma parlour_step_inv: "parlour_step g st st' \<Longrightarrow> parlour_inv g st \<Longrightarrow> parlour_inv g st'"
proof (induction rule: parlour_step.induct)
  case (clock st)
  then show ?case by (simp add: parlour_inv_def)
qed (erule (2) customer_thread_inv machine_thread_inv single_order_thread_inv)+

lemma parlour_steps_inv: "(parlour_step g)\<^sup>*\<^sup>* st st' \<Longrightarrow> parlour_inv g st \<Longrightarrow> parlour_inv g st'"
  by (induction rule: rtranclp_induct) (auto intro: parlour_step_inv)

definition served :: "config \<Rightarrow> parlour \<Rightarrow> nat" where
  "served g st = card {i. i < length (requests g) \<and> cph st i = CServed}"

lemma served_inside: "served g st \<le> (\<Sum>i<length (requests g). inside (cph st i))"
proof -
  have "served g st = (\<Sum>i<length (requests g). if cph st i = CServed then 1 else 0)"
    by (simp add: served_def sum.If_cases Int_def)
  also have "\<dots> \<le> (\<Sum>i<length (requests g). inside (cph st i))" by (rule sum_mono) auto
  finally show ?thesis .
qed

lemma sum_list_filter_card: "sum_list (map (using_machine m) os) = length (filter (\<lambda>x. using_machine m x = 1) os)"
proof (induction os)
  case (Cons x os)
  have "using_machine m x = 0 \<or> using_machine m x = 1" by (cases "snd (snd x)") (auto simp: using_machine_def)
  then show ?case using Cons by auto
qed simp

text \<open>The customers whose machine time has been deducted.\<close>

definition accepted :: "config \<Rightarrow> parlour \<Rightarrow> nat set" where
  "accepted g st = {i. i < length (requests g) \<and> (cph st i = CServed \<or> (\<exists>k. cph st i = COrders k))}"

lemma spent_if: "spent t p = (if p = CServed \<or> (\<exists>k. p = COrders k) then t else 0)"
  by (cases p) auto

text \<open>
  C39: The parlour, in every state that the program can reach. No more customers are ever served than the capacity,
  because a served customer does not give back its place. The machine time that is left is the total less
  what accepted customers need. The order threads of a customer are those for its ice creams, one for each,
  with the preparation time of the flavour and in the order of the request: all of them when the customer thread has
  ended served, the first \<open>k\<close> while it has created \<open>k\<close>, none before and none for a customer who is turned away. At most two order
  threads use the same machine at the same time.
\<close>

theorem parlour_accounts:
  assumes "(parlour_step g)\<^sup>*\<^sup>* (parlour_init g) st"
  shows "served g st + customer_sem st \<le> capacity g
    \<and> machineTimeAvailable st = total_machine_time g - (\<Sum>i\<in>accepted g st. total_time_required g (requests g ! i))
    \<and> (\<forall>i<length (requests g). map (\<lambda>x. fst (snd x)) (filter (\<lambda>x. fst x = i) (orders st)) =
         map (\<lambda>x. prep_time g (fst x)) (take (created (length (items (requests g ! i))) (cph st i)) (items (requests g ! i))))
    \<and> (\<forall>m. length (filter (\<lambda>x. using_machine m x = 1) (orders st)) \<le> 2)"
proof (intro conjI allI impI)
  have inv: "parlour_inv g st" using parlour_steps_inv [OF assms parlour_inv_init] .
  let ?n = "length (requests g)"
  show "served g st + customer_sem st \<le> capacity g" using inv served_inside [of g st] unfolding parlour_inv_def by linarith
  have "(\<Sum>i<?n. spent (total_time_required g (requests g ! i)) (cph st i)) = (\<Sum>i\<in>accepted g st. total_time_required g (requests g ! i))"
    by (simp only: spent_if accepted_def sum.inter_filter [symmetric] finite_lessThan) (rule sum.cong, auto)
  then show "machineTimeAvailable st = total_machine_time g - (\<Sum>i\<in>accepted g st. total_time_required g (requests g ! i))"
    using inv unfolding parlour_inv_def by linarith
  show "map (\<lambda>x. fst (snd x)) (filter (\<lambda>x. fst x = i) (orders st)) =
      map (\<lambda>x. prep_time g (fst x)) (take (created (length (items (requests g ! i))) (cph st i)) (items (requests g ! i)))"
    if "i < ?n" for i
    using inv that by (simp add: parlour_inv_def made_for_def wanted_def)
  fix m
  have "posts (mph st m) \<le> 2" by (cases "mph st m") auto
  moreover have "machine_sem st m + sum_list (map (using_machine m) (orders st)) = (if m < length (machines g) then posts (mph st m) else 0)"
    using inv by (simp add: parlour_inv_def)
  ultimately show "length (filter (\<lambda>x. using_machine m x = 1) (orders st)) \<le> 2"
    unfolding sum_list_filter_card by (simp split: if_splits)
qed

subsection \<open>Starvation\<close>

text \<open>Once as many customers as the parlour has places have been served, nobody else gets in.\<close>

definition closed :: "config \<Rightarrow> nat set \<Rightarrow> parlour \<Rightarrow> bool" where
  "closed g W st \<longleftrightarrow> customer_sem st = 0 \<and> (\<forall>i<length (requests g). cph st i \<in> {CServed, CUnserviced} \<or> inside (cph st i) = 0) \<and>
     (\<forall>i\<in>W. i < length (requests g) \<and> cph st i \<notin> {CServed, CUnserviced})"

lemma closed_step:
  assumes "parlour_step g st st'" "closed g W st"
  shows "closed g W st'"
  using assms(1)
proof cases
  case (customer i)
  have c: "customer_sem st = 0" "cph st i \<in> {CServed, CUnserviced} \<or> inside (cph st i) = 0" using assms(2) customer(1) by (simp_all add: closed_def)
  then obtain p where "cph st' = (cph st)(i := p)" "inside p = 0" "p \<notin> {CServed, CUnserviced}" "customer_sem st' = 0"
    using customer(2) by (auto simp: customer_thread_def cgoto_def Let_def split: cphase.splits if_splits)
  then show ?thesis using assms(2) by (auto simp: closed_def)
next
  case (machine m)
  then have "cph st' = cph st" "customer_sem st' = customer_sem st"
    by (auto simp: machine_thread_def mgoto_def post_machine_def Let_def split: mphase.splits if_splits)
  then show ?thesis using assms(2) by (simp add: closed_def)
next
  case (order k)
  then have "cph st' = cph st" "customer_sem st' = customer_sem st"
    by (auto simp: single_order_thread_def ogoto_def post_machine_def split: prod.splits ophase.splits if_splits)
  then show ?thesis using assms(2) by (simp add: closed_def)
next
  case clock
  then show ?thesis using assms(2) by (simp add: closed_def)
qed

lemma closed_steps: "(parlour_step g)\<^sup>*\<^sup>* st st' \<Longrightarrow> closed g W st \<Longrightarrow> closed g W st'"
  by (induction rule: rtranclp_induct) (auto intro: closed_step)

lemma closed_when_full:
  assumes "parlour_inv g st" "served g st = capacity g"
  shows "closed g {i. i < length (requests g) \<and> cph st i \<notin> {CServed, CUnserviced}} st"
proof -
  let ?n = "length (requests g)"
  have e: "customer_sem st + (\<Sum>i<?n. inside (cph st i)) = served g st" using assms by (simp add: parlour_inv_def)
  then have z: "customer_sem st = 0" "(\<Sum>i<?n. inside (cph st i)) = served g st" using served_inside [of g st] by linarith+
  have "served g st = (\<Sum>i<?n. if cph st i = CServed then 1 else 0)" by (simp add: served_def sum.If_cases Int_def)
  then have eq: "(\<Sum>i<?n. inside (cph st i)) = (\<Sum>i<?n. if cph st i = CServed then 1 else 0)" using z(2) by simp
  have ge: "\<And>i. i \<in> {..<?n} \<Longrightarrow> (if cph st i = CServed then 1 else 0) \<le> inside (cph st i)" by auto
  have "inside (cph st i) = (if cph st i = CServed then 1 else 0)" if "i < ?n" for i
    using sum_mono_inv [OF eq [symmetric] ge] that by auto
  then show ?thesis using z(1) by (auto simp: closed_def)
qed

text \<open>
  C40: Starvation. As soon as the number of served customers is the capacity, every customer thread that has
  not ended yet never ends, in whatever order the threads run, so \<open>main\<close> does not return from its joins.
\<close>

theorem parlour_starves:
  assumes "(parlour_step g)\<^sup>*\<^sup>* (parlour_init g) st" "served g st = capacity g"
    and "i < length (requests g)" "cph st i \<notin> {CServed, CUnserviced}" "(parlour_step g)\<^sup>*\<^sup>* st st'"
  shows "cph st' i \<notin> {CServed, CUnserviced}"
proof -
  have "closed g {i. i < length (requests g) \<and> cph st i \<notin> {CServed, CUnserviced}} st"
    using closed_when_full [OF parlour_steps_inv [OF assms(1) parlour_inv_init] assms(2)] .
  from closed_steps [OF assms(5) this] show ?thesis using assms(3,4) by (auto simp: closed_def)
qed

subsection \<open>A run\<close>

datatype action = Cus nat | Mac nat | Ord nat | Tick nat

fun move :: "config \<Rightarrow> action \<Rightarrow> parlour \<Rightarrow> parlour option" where
  "move g (Cus i) st = (if i < length (requests g) then customer_thread g i st else None)"
| "move g (Mac m) st = (if m < length (machines g) then machine_thread g m st else None)"
| "move g (Ord k) st = (if k < length (orders st) then single_order_thread g k st else None)"
| "move g (Tick k) st = Some (st\<lparr>now := now st + k\<rparr>)"

fun moves :: "config \<Rightarrow> action list \<Rightarrow> parlour \<Rightarrow> parlour option" where
  "moves g [] st = Some st"
| "moves g (m # ms) st = (case move g m st of None \<Rightarrow> None | Some st \<Rightarrow> moves g ms st)"

lemma ticks: "(parlour_step g)\<^sup>*\<^sup>* st (st\<lparr>now := now st + k\<rparr>)"
proof (induction k)
  case (Suc k)
  have "parlour_step g (st\<lparr>now := now st + k\<rparr>) ((st\<lparr>now := now st + k\<rparr>)\<lparr>now := now (st\<lparr>now := now st + k\<rparr>) + 1\<rparr>)" by (rule clock)
  then show ?case using Suc by (simp add: rtranclp.rtrancl_into_rtrancl)
qed simp

lemma move_steps: "move g m st = Some st' \<Longrightarrow> (parlour_step g)\<^sup>*\<^sup>* st st'"
  using ticks by (cases m) (auto split: if_splits intro: parlour_step.intros)

lemma moves_steps: "moves g ms st = Some st' \<Longrightarrow> (parlour_step g)\<^sup>*\<^sup>* st st'"
proof (induction ms arbitrary: st)
  case (Cons m ms)
  then show ?case using move_steps [of g m st] by (auto split: option.splits intro: rtranclp_trans)
qed simp

text \<open>One machine, one place, two customers; the first orders two ice creams.\<close>

definition small_parlour :: config where
  "small_parlour = \<lparr>machines = [\<lparr>start_time = 0, end_time = 9\<rparr>], flavors = [(''vanilla'', 2)], topping_info = [], capacity = 1,
     requests = [\<lparr>arrival = 0, items = [(''vanilla'', []), (''vanilla'', [])]\<rparr>, \<lparr>arrival = 0, items = [(''vanilla'', [])]\<rparr>]\<rparr>"

definition first_served :: "action list" where
  "first_served = [Mac 0, Mac 0, Mac 0, Mac 0, Cus 0, Cus 0, Cus 0, Cus 0, Cus 0, Cus 0, Cus 0, Cus 0, Cus 0, Cus 0, Cus 0,
     Ord 0, Cus 0, Cus 0, Cus 1, Cus 1, Ord 0, Ord 1, Ord 1, Tick 1000, Ord 0, Ord 1]"

lemma first_served_run:
  obtains st where "(parlour_step small_parlour)\<^sup>*\<^sup>* (parlour_init small_parlour) st" "cph st 0 = CServed" "cph st 1 = CEnter"
    "length (filter (\<lambda>x. using_machine 0 x = 1) (orders st)) = 2"
proof -
  have "case moves small_parlour first_served (parlour_init small_parlour) of None \<Rightarrow> False
    | Some st \<Rightarrow> cph st 0 = CServed \<and> cph st 1 = CEnter \<and> length (filter (\<lambda>x. using_machine 0 x = 1) (orders st)) = 2"
    by (simp add: first_served_def small_parlour_def parlour_init_def customer_thread_def machine_thread_def single_order_thread_def
      cgoto_def mgoto_def ogoto_def post_machine_def turn_away_def machine_fits_def working_time_def findFlavorId_def prep_time_def total_time_required_def total_machine_time_def using_machine_def)
  then obtain st where "moves small_parlour first_served (parlour_init small_parlour) = Some st" "cph st 0 = CServed" "cph st 1 = CEnter"
    "length (filter (\<lambda>x. using_machine 0 x = 1) (orders st)) = 2" by (auto split: option.splits)
  with that moves_steps show thesis by blast
qed

lemma small_served:
  assumes "cph st 0 = CServed" "cph st 1 = CEnter"
  shows "served small_parlour st = 1"
proof -
  have "{i. i < length (requests small_parlour) \<and> cph st i = CServed} = {0}"
    using assms by (auto simp: small_parlour_def less_Suc_eq)
  then show ?thesis by (simp add: served_def)
qed

theorem parlour_accounts_witness:
  "\<exists>st. (parlour_step small_parlour)\<^sup>*\<^sup>* (parlour_init small_parlour) st \<and> served small_parlour st = 1 \<and> customer_sem st = 0 \<and>
     length (filter (\<lambda>x. using_machine 0 x = 1) (orders st)) = 2"
proof -
  obtain st where st: "(parlour_step small_parlour)\<^sup>*\<^sup>* (parlour_init small_parlour) st" "cph st 0 = CServed" "cph st 1 = CEnter"
    "length (filter (\<lambda>x. using_machine 0 x = 1) (orders st)) = 2"
    using first_served_run by blast
  have "served small_parlour st + customer_sem st \<le> capacity small_parlour" using parlour_accounts [OF st(1)] by blast
  then show ?thesis using st small_served [OF st(2,3)] by (auto simp: small_parlour_def)
qed

theorem parlour_starves_witness:
  "\<exists>st. (parlour_step small_parlour)\<^sup>*\<^sup>* (parlour_init small_parlour) st \<and>
     (\<forall>st'. (parlour_step small_parlour)\<^sup>*\<^sup>* st st' \<longrightarrow> cph st' 1 \<notin> {CServed, CUnserviced})"
proof -
  obtain st where st: "(parlour_step small_parlour)\<^sup>*\<^sup>* (parlour_init small_parlour) st" "cph st 0 = CServed" "cph st 1 = CEnter"
    using first_served_run by blast
  have full: "served small_parlour st = capacity small_parlour" using small_served [OF st(2,3)] by (simp add: small_parlour_def)
  have "1 < length (requests small_parlour)" "cph st 1 \<notin> {CServed, CUnserviced}" using st(3) by (simp_all add: small_parlour_def)
  from parlour_starves [OF st(1) full this] st(1) show ?thesis by blast
qed

end
