(* ===== verification/Spec2Isabelle.thy ===== *)
theory Spec2Isabelle
  imports Prelude Cmem Riscv Spinlock Kalloc Vm Cow Sched Wakeups Sleeplock Bio Log Ring Pipe Console Ulib Grep Fs Fsfile File
    Frame Proc Sysproc Exec Sysfile Trap Virtio Mkfs Boot Tools Sh Shrun Umalloc Cafe Parlour
begin

text \<open>
  A model of the xv6 kernel of this repository (\<open>initial-xv6/src/kernel\<close>), with its copy-on-write \<open>fork\<close>
  and its priority-based scheduler, of its shell, allocator, library and small programs (\<open>initial-xv6/src/user\<close>), and of
  the two programs with threads and semaphores of \<open>concurrency\<close>, and of the program of the build that writes the image of
  the file system (\<open>initial-xv6/src/mkfs\<close>).

  \<^bold>\<open>The program.\<close> The kernel manages physical pages (\<open>kalloc.c\<close>), builds page tables from them (\<open>vm.c\<close>),
  shares pages between parent and child after \<open>fork\<close> and copies them on the first write (\<open>trap.c\<close>,
  \<open>cowHandler\<close>). Processes live in a table of 64 entries (\<open>proc.c\<close>); each hart runs a loop that chooses
  the runnable process with the least dynamic priority. Processes synchronise with spin locks and with
  \<open>sleep\<close> and \<open>wakeup\<close>. The file system (\<open>fs.c\<close>, \<open>file.c\<close>) works on a cache of disk blocks (\<open>bio.c\<close>) through a
  write-ahead log (\<open>log.c\<close>). Pipes, the console and the UART are ring buffers. System calls enter through
  \<open>usertrap\<close>, are dispatched by \<open>syscall\<close>, and are served by \<open>sysproc.c\<close>, \<open>sysfile.c\<close> and \<open>exec.c\<close>.

  \<^bold>\<open>Theories and sources.\<close>
  \<^item> \<open>Prelude\<close>: results with faults, words, lists. \<open>Cmem\<close>: byte memory and \<open>string.c\<close>. \<open>Riscv\<close>: \<open>riscv.h\<close> and
    \<open>memlayout.h\<close> (page rounding, page-table entries).
  \<^item> \<open>Spinlock\<close>: \<open>spinlock.c\<close>; a step relation for any number of harts on one lock: mutual exclusion with
    interrupts off, no panic. \<open>Sleeplock\<close>: \<open>sleeplock.c\<close>: mutual exclusion and no lost wakeup.
  \<^item> \<open>Kalloc\<close>: \<open>kalloc.c\<close>. The free list is in the bytes of the free pages. \<open>kinv\<close> is the invariant, the locale
    \<open>page_alloc\<close> the interface the page tables rely on, interpreted on \<open>kalloc\<close> and \<open>kfree\<close>.
  \<^item> \<open>Vm\<close>: \<open>vm.c\<close>. \<open>pt_wf\<close> says that the tables of a page table are pages of its own. \<open>mappages\<close> and \<open>uvmunmap\<close>
    change exactly their range. \<open>Cow\<close>: the fault handler, \<open>copyout\<close>, \<open>copyin\<close>, \<open>copyinstr\<close> and \<open>uvmcopy\<close>, related
    to what every process sees (\<open>uview\<close>): sharing is invisible, writes stay private.
  \<^item> \<open>Sched\<close>: the scheduler half of \<open>proc.c\<close>: priorities, choice, \<open>sched\<close>, \<open>yield\<close>, \<open>sleep\<close>, \<open>wakeup\<close>, \<open>kill\<close>,
    \<open>set_priority\<close>, time accounting. \<open>Wakeups\<close>: the actions of \<open>sleep\<close> and \<open>wakeup\<close> interleaved on several harts;
    no wakeup is lost. \<open>Proc\<close>: the other half: the table, \<open>fork\<close>, \<open>exit\<close>, \<open>wait\<close>, \<open>waitx\<close>,
    \<open>growproc\<close>. What \<open>exit\<close> leaves and what \<open>wait\<close> does in each case, reaping included, is proved.
  \<^item> \<open>Bio\<close>: \<open>bio.c\<close>: the doubly linked list and the refinement of an abstract cache. \<open>Log\<close>: \<open>log.c\<close>: a crash at
    any disk write is repaired by recovery. \<open>Fs\<close>, \<open>Fsfile\<close>: \<open>fs.c\<close>: allocation, inodes, file content,
    directories and paths; reading returns what was written. \<open>File\<close>: \<open>file.c\<close>. \<open>Frame\<close>: what each of these layers
    leaves alone, as a chain of locales, interpreted on the process table in \<open>Proc\<close>.
  \<^item> \<open>Ring\<close>: the arithmetic of ring buffers with wrapping counters, a locale interpreted on the pipe, the console,
    the UART and the rings of the disk. \<open>Pipe\<close>: \<open>pipe.c\<close>. \<open>Console\<close>: \<open>console.c\<close> and \<open>uart.c\<close>; the
    property of \<open>consoleintr\<close> is in \<open>Trap\<close>, since control-P prints the process table.
  \<^item> \<open>Virtio\<close>: \<open>virtio_disk.c\<close>, a step relation of requests, interrupts, completions and a device that keeps the
    virtio contract, and its refinement of \<open>disk_rw\<close>, on which the buffer cache rests.
  \<^item> \<open>Mkfs\<close>: \<open>mkfs/mkfs.c\<close>: the image it writes is a consistent volume in the sense of \<open>Fsfile\<close>, with the host's files in it. \<open>Boot\<close>: the
    kernel mounts this image; at the end of this theory, reading a file after booting gives what it has on the host.
  \<^item> \<open>Sysproc\<close>, \<open>Exec\<close>, \<open>Sysfile\<close>, \<open>Trap\<close>: \<open>syscall.c\<close>, \<open>sysproc.c\<close>, \<open>exec.c\<close>, \<open>sysfile.c\<close>, \<open>trap.c\<close>, \<open>plic.c\<close>.
  \<^item> \<open>Ulib\<close>: \<open>user/ulib.c\<close>, \<open>user/printf.c\<close> and \<open>kernel/printf.c\<close>. \<open>Grep\<close>: \<open>user/grep.c\<close> with its matcher.
  \<^item> \<open>Sh\<close>, \<open>Shrun\<close>: \<open>user/sh.c\<close>. The scanner and the recursive-descent parser accept the language of a grammar
    (an inductive relation) and return its tree; \<open>runcmd\<close> connects the commands of a line as the tree says.
    \<open>Umalloc\<close>: \<open>user/umalloc.c\<close>: the circular free list and the invariant that blocks do not overlap.
  \<^item> \<open>Tools\<close>: the small programs of \<open>user\<close> (\<open>wc\<close>, \<open>cat\<close>, \<open>ls\<close>, \<open>echo\<close>, \<open>rm\<close>, \<open>mkdir\<close>, \<open>ln\<close>, \<open>kill\<close>, \<open>set_priority\<close>, \<open>init\<close>) as
    functions to the calls they make, and the random numbers of \<open>grind.c\<close>.
  \<^item> \<open>Cafe\<close>: \<open>concurrency/1.c\<close>, \<open>Parlour\<close>: \<open>concurrency/2.c\<close>: step relations of the threads on semaphores and a
    clock. No barista serves two customers at once and all customers of the cafe can always leave. The parlour
    keeps its accounts of places, machine time and orders, and starves its customers once its places are used.

  \<^bold>\<open>State and faults.\<close> The state of a component is a record; the records extend one another along the
  layers: \<open>bstate\<close> (cache and disk), \<open>lstate\<close> (log), \<open>fstate\<close> (inodes), \<open>filesys\<close> (files, pipes, console and
  physical memory), \<open>kernel\<close> (process table), \<open>ksys\<close>, \<open>machine\<close> (control registers). An operation of a lower
  layer applies to every extension. Kernel pointers to pages are physical addresses; pointers to table
  entries are indices. A result is \<open>Ok\<close> or one of three faults: \<open>Panic\<close>, the kernel's own; \<open>Undef\<close>, undefined
  behaviour of C; \<open>Waits\<close>, waiting for another agent.

  \<^bold>\<open>Concurrency.\<close> Spin locks, sleep locks, pipes, \<open>sleep\<close> and \<open>wakeup\<close>, the scheduler, the disk driver and the two
  programs of \<open>concurrency\<close> have step relations over arbitrary interleavings. In \<open>Sched\<close> and \<open>Proc\<close> every acquire and release is a call on an explicit lock. In the other
  components a lock protects only the component's own state, and the section it protects is one step.
  \<open>swtch\<close> is the point where a function is split: into the part before the switch and the part after.
  The functions that go on after a switch take what happened in between as an argument.

  \<^bold>\<open>Bounds.\<close> In the kernel, its programs and \<open>mkfs\<close>, machine integers are words of their width, or integers with the test for
  overflow written out. \<open>Cafe\<close> and \<open>Parlour\<close> count times and orders with unbounded numbers, which is exact while the
  products and sums of \<open>1.c\<close> and \<open>2.c\<close> fit an \<open>int\<close>; only the argument of \<open>sleep\<close> in \<open>2.c\<close> is taken modulo \<open>2^32\<close>.
  Recursions end by a measure. The walks of \<open>bget\<close> have fuel for one more than the number of buffers, which
  the list invariant shows to be enough. The shell's parser has fuel four times the length of the line plus four, proved
  enough for every line. \<open>freewalk\<close> descends at most three levels. Polling loops on devices
  are partial functions.

  \<^bold>\<open>Parameters.\<close> Whether a copy to or from the user's buffer succeeds is an argument of the file and pipe
  operations. The property of pipes holds for every pattern of faults (a byte whose copy faults is lost); those of
  reading and writing files are for copies that succeed. The buffer cache uses
  the disk through the contract \<open>disk_rw\<close>, which \<open>Virtio\<close> implements for any device that keeps \<open>virtio_blk\<close>: it finishes each
  request with status 0, so that an I/O error, on which the driver panics, is outside the contract. \<open>Trap\<close>
  takes the interrupt handlers of the devices as arguments. \<open>Shrun\<close> takes the answers of the system calls, and \<open>Umalloc\<close>
  the answer of \<open>sbrk\<close>, as arguments; \<open>Cafe\<close> and \<open>Parlour\<close> rely on POSIX semaphores and on a clock that does not go back.

  \<^bold>\<open>Not modelled.\<close> The assembly (\<open>swtch.S\<close>, \<open>trampoline.S\<close>, \<open>kernelvec.S\<close>, \<open>entry.S\<close>), the boot code and the
  test programs are not modelled: they are hardware state or have no state of their own.
\<close>

subsection \<open>From the host to the kernel\<close>

text \<open>
  C33: The whole path of a file. Under the conditions of the image builder, the kernel mounts the image that \<open>mkfs\<close> wrote: the buffer
  cache reads the super block, the log is recovered and empty, and the volume is consistent and idle. A process that then
  starts a transaction, looks up and locks the inode of a file, and reads as many bytes as the file has, gets exactly the
  bytes the file has on the host.
\<close>

theorem boot_reads_host_file:
  assumes "\<And>n. h n" "freads out \<noteq> None" "length fs + 2 \<le> NINODES" "\<And>f. f \<in> set fs \<Longrightarrow> readable f" "image_blocks fs \<le> FSSIZE"
    and k: "k < length fs" and bs: "bs = content (fs ! k)"
  shows "\<exists>st s s1 i s2 s3 s4. mkfs_main h (out # fs) = Ok st \<and> mount_root p (img st) = Ok s \<and> vol_ok (disk s) (sb s) (lstart s) \<and> idle s \<and>
    begin_op s = Ok s1 \<and> iget ROOTDEV (ino (Suc k)) s1 = Ok (i, s2) \<and> ilock p (Some i) s2 = Ok s3 \<and>
    readi p (\<lambda>_ _. True) i 0 (of_nat (length bs)) s3 = Ok (int (length bs), bs, s4)"
proof -
  obtain st where st: "mkfs_main h (out # fs) = Ok st" "get_sb (img st 1) = mkfs_sb" "hdr_n 2 (img st) = 0" "vol_ok (img st) mkfs_sb 2"
    "\<forall>k < length fs. stored (img st) (Suc k) T_FILE (length (content (fs ! k))) (content (fs ! k))"
    using built_volume [where h = h and out = out and fs = fs, OF assms(1-5)] by blast
  then have sk: "stored (img st) (Suc k) T_FILE (length bs) bs" using k by (simp add: bs)
  obtain s where s: "mount_root p (img st) = Ok s" "idle s" "sb s = mkfs_sb" "lstart s = 2" "no_refs (itable s)"
    "\<forall>m. m \<notin> logarea 2 \<longrightarrow> disk s m = img st m" using mount_root_ok [OF st(2,3)] by blast
  have "readable (fs ! k)" using assms(4) k by simp
  then have "length bs \<le> MAXFILE * BSIZE" by (auto simp: readable_def content_def bs)
  from read_stored [OF sk _ st(4) this _ s(2,5,3,4,6), of p] assms(3) k
  obtain s1 i s2 s3 s4 where "begin_op s = Ok s1" "iget ROOTDEV (ino (Suc k)) s1 = Ok (i, s2)" "ilock p (Some i) s2 = Ok s3"
    "readi p (\<lambda>_ _. True) i 0 (of_nat (length bs)) s3 = Ok (int (length bs), bs, s4)" by auto
  moreover have "vol_ok (disk s) (sb s) (lstart s)" using outside_log(1) [OF s(6) st(4)] by (simp add: s(3,4))
  ultimately show ?thesis using st(1) s(1,2) by blast
qed

theorem boot_reads_host_file_witness:
  "\<exists>st s s1 i s2 s3 s4. mkfs_main (\<lambda>_. True) [sample_out, sample_file] = Ok st \<and> mount_root 1 (img st) = Ok s \<and> begin_op s = Ok s1 \<and>
     iget ROOTDEV 2 s1 = Ok (i, s2) \<and> ilock 1 (Some i) s2 = Ok s3 \<and> readi 1 (\<lambda>_ _. True) i 0 4 s3 = Ok (4, [1, 2, 3, 4], s4)"
proof -
  have r: "readable f" if "f \<in> set [sample_file]" for f using that sample_file_facts(1) by simp
  have f: "freads sample_out \<noteq> None" "length [sample_file] + 2 \<le> NINODES" "image_blocks [sample_file] \<le> FSSIZE" "0 < length [sample_file]"
    "[1, 2, 3, 4] = content ([sample_file] ! 0)" by (simp_all add: sample_out_def sample_file_facts)
  have two: "ino (Suc 0) = 2" by (simp add: ino_def)
  have four: "length [1, 2, 3, 4 :: u8] = 4" by simp
  from boot_reads_host_file [of "\<lambda>_. True" sample_out "[sample_file]" 0 "[1, 2, 3, 4]" 1, OF TrueI f(1,2) r f(3-5)]
  show ?thesis unfolding two four of_nat_numeral by blast
qed

end
